(* ===== verification/Rust_Ord.thy ===== *)
theory Rust_Ord
  imports Main "HOL-Library.Multiset" "HOL-Library.Code_Target_Nat"
begin

text \<open>
  The part of Rust's standard library that the whole program leans on for ordering:
  \<^verbatim>\<open>std::cmp::Ordering\<close> with \<open>reverse\<close> and \<open>then_with\<close>, the contract of the trait
  \<^verbatim>\<open>Ord\<close> (the locale \<open>rust_ord\<close>), the derived comparisons of tuples, slices and
  options, and the list operations that take a comparison (\<open>sort_by\<close>, \<open>dedup_by\<close>,
  \<open>min_by\<close>, \<open>max_by\<close>).  Every version type of the program is an instance of the
  contract or is shown not to be one.
\<close>

section \<open>Orderings\<close>

datatype ordering = Less | Equal | Greater

type_synonym 'a cmp = "'a \<Rightarrow> 'a \<Rightarrow> ordering"

named_theorems ord_simps \<open>unfolding rules of the comparison combinators\<close>
named_theorems ord_intros \<open>closure of the contract of Ord under the combinators\<close>

primrec rev_ord :: "ordering \<Rightarrow> ordering" where
  "rev_ord Less = Greater"
| "rev_ord Equal = Equal"
| "rev_ord Greater = Less"

primrec then_with :: "ordering \<Rightarrow> ordering \<Rightarrow> ordering" where
  "then_with Less r = Less"
| "then_with Equal r = r"
| "then_with Greater r = Greater"

definition ord_cmp :: "'a::linorder cmp" where
  "ord_cmp x y = (if x < y then Less else if x = y then Equal else Greater)"

definition cmp_on :: "('a \<Rightarrow> 'b) \<Rightarrow> 'b cmp \<Rightarrow> 'a cmp" where
  "cmp_on f c x y = c (f x) (f y)"

definition cmp_then :: "'a cmp \<Rightarrow> 'a cmp \<Rightarrow> 'a cmp" where
  "cmp_then c d x y = then_with (c x y) (d x y)"

definition cmp_rev :: "'a cmp \<Rightarrow> 'a cmp" where
  "cmp_rev c x y = rev_ord (c x y)"

definition cmp_pair :: "'a cmp \<Rightarrow> 'b cmp \<Rightarrow> ('a \<times> 'b) cmp" where
  "cmp_pair c d p q = then_with (c (fst p) (fst q)) (d (snd p) (snd q))"

fun cmp_opt :: "'a cmp \<Rightarrow> 'a option cmp" where
  "cmp_opt c None None = Equal"
| "cmp_opt c None (Some _) = Less"
| "cmp_opt c (Some _) None = Greater"
| "cmp_opt c (Some x) (Some y) = c x y"

fun cmp_list :: "'a cmp \<Rightarrow> 'a list cmp" where
  "cmp_list c [] [] = Equal"
| "cmp_list c [] (_ # _) = Less"
| "cmp_list c (_ # _) [] = Greater"
| "cmp_list c (x # xs) (y # ys) = then_with (c x y) (cmp_list c xs ys)"

text \<open>Element-wise comparison where the shorter list is padded with a default element.\<close>

fun cmp_pad :: "'a \<Rightarrow> 'a cmp \<Rightarrow> 'a list cmp" where
  "cmp_pad d c [] [] = Equal"
| "cmp_pad d c [] (y # ys) = then_with (c d y) (cmp_pad d c [] ys)"
| "cmp_pad d c (x # xs) [] = then_with (c x d) (cmp_pad d c xs [])"
| "cmp_pad d c (x # xs) (y # ys) = then_with (c x y) (cmp_pad d c xs ys)"

lemma rev_ord_rev_ord [simp]: "rev_ord (rev_ord r) = r"
  by (cases r) simp_all

lemma rev_ord_eq_iff [simp]:
  "rev_ord r = Less \<longleftrightarrow> r = Greater"
  "rev_ord r = Equal \<longleftrightarrow> r = Equal"
  "rev_ord r = Greater \<longleftrightarrow> r = Less"
  "Less = rev_ord r \<longleftrightarrow> r = Greater"
  "Equal = rev_ord r \<longleftrightarrow> r = Equal"
  "Greater = rev_ord r \<longleftrightarrow> r = Less"
  by (cases r; simp)+

lemma rev_ord_then_with [simp]: "rev_ord (then_with r s) = then_with (rev_ord r) (rev_ord s)"
  by (cases r) simp_all

lemma then_with_assoc: "then_with (then_with r s) t = then_with r (then_with s t)"
  by (cases r) simp_all

lemma then_with_Equal_right [simp]: "then_with r Equal = r"
  by (cases r) simp_all

lemma then_with_eq_Equal [simp]: "then_with r s = Equal \<longleftrightarrow> r = Equal \<and> s = Equal"
  by (cases r) simp_all

lemma then_with_decided [simp]: "r \<noteq> Equal \<Longrightarrow> then_with r s = r"
  by (cases r) simp_all

lemma then_with_eq_Less: "then_with r s = Less \<longleftrightarrow> r = Less \<or> (r = Equal \<and> s = Less)"
  by (cases r) simp_all

lemma then_with_eq_Greater: "then_with r s = Greater \<longleftrightarrow> r = Greater \<or> (r = Equal \<and> s = Greater)"
  by (cases r) simp_all

lemma ord_cmp_simps [simp, ord_simps]:
  "ord_cmp x y = Less \<longleftrightarrow> x < y"
  "ord_cmp x y = Equal \<longleftrightarrow> x = y"
  "ord_cmp x y = Greater \<longleftrightarrow> y < x"
  by (auto simp: ord_cmp_def)

section \<open>The contract of \<open>Ord\<close>\<close>

text \<open>
  What Rust asks of an implementation of \<^verbatim>\<open>Ord\<close>: comparing the other way round gives the
  reverse answer, and the order is transitive.  Two values may compare equal without being
  the same value (\<open>1.0\<close> and \<open>1.0.0\<close>), so this is a total preorder.
\<close>

locale rust_ord =
  fixes cmp :: "'a cmp"
  assumes cmp_sym: "cmp y x = rev_ord (cmp x y)"
    and cmp_le_trans: "cmp x y \<noteq> Greater \<Longrightarrow> cmp y z \<noteq> Greater \<Longrightarrow> cmp x z \<noteq> Greater"
begin

lemma cmp_refl [simp]: "cmp x x = Equal"
  using cmp_sym [of x x] by (cases "cmp x x") simp_all

lemma cmp_Greater_iff: "cmp x y = Greater \<longleftrightarrow> cmp y x = Less"
  using cmp_sym [of x y] by simp

lemma cmp_Equal_sym: "cmp x y = Equal \<longleftrightarrow> cmp y x = Equal"
  using cmp_sym [of x y] by simp

lemma cmp_less_le_trans: "cmp x y = Less \<Longrightarrow> cmp y z \<noteq> Greater \<Longrightarrow> cmp x z = Less"
proof -
  assume xy: "cmp x y = Less" and yz: "cmp y z \<noteq> Greater"
  have "cmp x z \<noteq> Greater" using xy yz cmp_le_trans [of x y z] by simp
  moreover have "cmp x z \<noteq> Equal"
  proof
    assume "cmp x z = Equal"
    then have "cmp z x \<noteq> Greater" using cmp_sym [of z x] by simp
    with yz have "cmp y x \<noteq> Greater" by (rule cmp_le_trans)
    with xy show False using cmp_sym [of y x] by simp
  qed
  ultimately show ?thesis by (cases "cmp x z") simp_all
qed

lemma cmp_le_less_trans: "cmp x y \<noteq> Greater \<Longrightarrow> cmp y z = Less \<Longrightarrow> cmp x z = Less"
proof -
  assume xy: "cmp x y \<noteq> Greater" and yz: "cmp y z = Less"
  have "cmp x z \<noteq> Greater" using xy yz cmp_le_trans [of x y z] by simp
  moreover have "cmp x z \<noteq> Equal"
  proof
    assume "cmp x z = Equal"
    then have "cmp z x \<noteq> Greater" using cmp_sym [of z x] by simp
    then have "cmp z y \<noteq> Greater" using xy by (rule cmp_le_trans)
    with yz show False using cmp_sym [of z y] by simp
  qed
  ultimately show ?thesis by (cases "cmp x z") simp_all
qed

lemma cmp_less_trans: "cmp x y = Less \<Longrightarrow> cmp y z = Less \<Longrightarrow> cmp x z = Less"
  using cmp_less_le_trans [of x y z] by simp

lemma cmp_eq_trans: "cmp x y = Equal \<Longrightarrow> cmp y z = Equal \<Longrightarrow> cmp x z = Equal"
  using cmp_le_trans [of x y z] cmp_le_trans [of z y x] cmp_sym [of x y] cmp_sym [of y z]
    cmp_sym [of x z]
  by (cases "cmp x z") auto

lemma cmp_eq_left: "cmp x y = Equal \<Longrightarrow> cmp x z = cmp y z"
proof -
  assume xy: "cmp x y = Equal"
  then have yx: "cmp y x = Equal" by (simp add: cmp_Equal_sym)
  show ?thesis
  proof (cases "cmp y z")
    case Less
    then show ?thesis using cmp_le_less_trans [of x y z] xy by simp
  next
    case Equal
    then show ?thesis using cmp_eq_trans [OF xy] by simp
  next
    case Greater
    then have "cmp z y = Less" using cmp_sym [of y z] by simp
    then have "cmp z x = Less" using cmp_less_le_trans [of z y x] yx by simp
    then show ?thesis using Greater cmp_sym [of x z] by simp
  qed
qed

lemma cmp_eq_right: "cmp x y = Equal \<Longrightarrow> cmp z x = cmp z y"
  using cmp_eq_left [of x y z] cmp_sym [of z x] cmp_sym [of z y] by simp

lemma cmp_total: "cmp x y \<noteq> Greater \<or> cmp y x \<noteq> Greater"
  using cmp_sym [of x y] by (cases "cmp x y") simp_all

end

text \<open>A comparison that separates all values, as the derived \<^verbatim>\<open>Ord\<close> of the standard library does.\<close>

locale rust_total_ord = rust_ord +
  assumes cmp_eqD: "cmp x y = Equal \<Longrightarrow> x = y"
begin

lemma cmp_Equal_iff [simp]: "cmp x y = Equal \<longleftrightarrow> x = y"
  by (auto dest: cmp_eqD)

lemma cmp_antisym: "cmp x y \<noteq> Greater \<Longrightarrow> cmp y x \<noteq> Greater \<Longrightarrow> x = y"
  using cmp_sym [of x y] by (cases "cmp x y") auto

end

section \<open>Closure of the contract under the combinators\<close>

lemma rust_ord_ord_cmp [ord_intros]: "rust_ord ord_cmp"
  by unfold_locales (auto simp: ord_cmp_def split: if_splits)

lemma rust_total_ord_ord_cmp: "rust_total_ord ord_cmp"
  by (intro rust_total_ord.intro rust_ord_ord_cmp, unfold_locales) simp

interpretation prim: rust_total_ord "ord_cmp :: 'a::linorder cmp"
  by (rule rust_total_ord_ord_cmp)

lemma rust_ord_cmp_on [ord_intros]: "rust_ord c \<Longrightarrow> rust_ord (cmp_on f c)"
  unfolding rust_ord_def cmp_on_def by blast

lemma rust_ord_cmp_then [ord_intros]:
  assumes "rust_ord c" and "rust_ord d"
  shows "rust_ord (cmp_then c d)"
proof -
  note csym = rust_ord.cmp_sym [OF assms(1)] and dsym = rust_ord.cmp_sym [OF assms(2)]
  show ?thesis
  proof
    fix x y
    show "cmp_then c d y x = rev_ord (cmp_then c d x y)"
      using csym [of x y] dsym [of x y] by (simp add: cmp_then_def)
  next
    fix x y z
    assume "cmp_then c d x y \<noteq> Greater" and "cmp_then c d y z \<noteq> Greater"
    then show "cmp_then c d x z \<noteq> Greater"
      using rust_ord.cmp_le_trans [OF assms(1), of x y z]
        rust_ord.cmp_less_le_trans [OF assms(1), of x y z]
        rust_ord.cmp_le_less_trans [OF assms(1), of x y z]
        rust_ord.cmp_eq_trans [OF assms(1), of x y z]
        rust_ord.cmp_le_trans [OF assms(2), of x y z]
      by (cases "c x y"; cases "c y z") (auto simp: cmp_then_def then_with_eq_Greater)
  qed
qed

lemma rust_ord_cmp_rev [ord_intros]:
  assumes "rust_ord c"
  shows "rust_ord (cmp_rev c)"
proof
  fix x y
  show "cmp_rev c y x = rev_ord (cmp_rev c x y)"
    using rust_ord.cmp_sym [OF assms, of x y] by (simp add: cmp_rev_def)
next
  fix x y z
  assume "cmp_rev c x y \<noteq> Greater" and "cmp_rev c y z \<noteq> Greater"
  then have "c y x \<noteq> Greater" and "c z y \<noteq> Greater"
    using rust_ord.cmp_sym [OF assms, of x y] rust_ord.cmp_sym [OF assms, of y z]
    by (simp_all add: cmp_rev_def)
  then have "c z x \<noteq> Greater" using rust_ord.cmp_le_trans [OF assms] by blast
  then show "cmp_rev c x z \<noteq> Greater"
    using rust_ord.cmp_sym [OF assms, of x z] by (simp add: cmp_rev_def)
qed

lemma cmp_pair_eq: "cmp_pair c d = cmp_then (cmp_on fst c) (cmp_on snd d)"
  by (simp add: fun_eq_iff cmp_pair_def cmp_then_def cmp_on_def)

lemma rust_ord_cmp_pair [ord_intros]:
  "rust_ord c \<Longrightarrow> rust_ord d \<Longrightarrow> rust_ord (cmp_pair c d)"
  unfolding cmp_pair_eq by (intro ord_intros)

lemma rust_total_ord_ord: "rust_total_ord c \<Longrightarrow> rust_ord c"
  by (rule rust_total_ord.axioms)

lemma rust_total_ordI: "rust_ord c \<Longrightarrow> (\<And>x y. c x y = Equal \<Longrightarrow> x = y) \<Longrightarrow> rust_total_ord c"
  by (simp add: rust_total_ord_def rust_total_ord_axioms_def)

lemma rust_total_ord_cmp_pair [ord_intros]:
  assumes "rust_total_ord c" and "rust_total_ord d"
  shows "rust_total_ord (cmp_pair c d)"
proof (rule rust_total_ordI)
  show "rust_ord (cmp_pair c d)"
    by (intro rust_ord_cmp_pair rust_total_ord_ord assms)
next
  fix x y
  assume "cmp_pair c d x y = Equal"
  then have "c (fst x) (fst y) = Equal" and "d (snd x) (snd y) = Equal"
    by (simp_all add: cmp_pair_def)
  then show "x = y"
    using rust_total_ord.cmp_eqD [OF assms(1)] rust_total_ord.cmp_eqD [OF assms(2)]
    by (simp add: prod_eq_iff)
qed

lemma rust_ord_cmp_opt [ord_intros]:
  assumes "rust_ord c"
  shows "rust_ord (cmp_opt c)"
proof
  fix x y
  show "cmp_opt c y x = rev_ord (cmp_opt c x y)"
    by (cases x; cases y) (simp_all, rule rust_ord.cmp_sym [OF assms])
next
  fix x y z
  assume "cmp_opt c x y \<noteq> Greater" and "cmp_opt c y z \<noteq> Greater"
  then show "cmp_opt c x z \<noteq> Greater"
    by (cases x; cases y; cases z) (simp_all add: rust_ord.cmp_le_trans [OF assms])
qed

lemma rust_total_ord_cmp_opt [ord_intros]:
  assumes "rust_total_ord c"
  shows "rust_total_ord (cmp_opt c)"
proof (rule rust_total_ordI)
  show "rust_ord (cmp_opt c)" by (intro rust_ord_cmp_opt rust_total_ord_ord assms)
  show "cmp_opt c x y = Equal \<Longrightarrow> x = y" for x y
    using rust_total_ord.cmp_eqD [OF assms] by (cases x; cases y) auto
qed

text \<open>One step of a lexicographic comparison: the head decides, and the tail after equal heads.\<close>

lemma then_with_le_trans:
  assumes "rust_ord c"
    and "then_with (c x y) r \<noteq> Greater" and "then_with (c y z) s \<noteq> Greater"
    and tail: "r \<noteq> Greater \<Longrightarrow> s \<noteq> Greater \<Longrightarrow> t \<noteq> Greater"
  shows "then_with (c x z) t \<noteq> Greater"
proof -
  have xy: "c x y \<noteq> Greater" and yz: "c y z \<noteq> Greater"
    using assms(2,3) by (auto simp: then_with_eq_Greater)
  then have xz: "c x z \<noteq> Greater" by (rule rust_ord.cmp_le_trans [OF assms(1)])
  show ?thesis
  proof (cases "c x z")
    case Equal
    then have "c x y \<noteq> Less" and "c y z \<noteq> Less"
      using rust_ord.cmp_less_le_trans [OF assms(1), of x y z]
        rust_ord.cmp_le_less_trans [OF assms(1), of x y z] xy yz by auto
    with xy yz have "c x y = Equal" and "c y z = Equal"
      by (metis ordering.exhaust)+
    with assms(2,3) tail Equal show ?thesis by simp
  qed (use xz in simp_all)
qed

lemma rust_ord_cmp_list [ord_intros]:
  assumes "rust_ord c"
  shows "rust_ord (cmp_list c)"
proof
  fix xs ys
  show "cmp_list c ys xs = rev_ord (cmp_list c xs ys)"
  proof (induction xs arbitrary: ys)
    case Nil
    show ?case by (cases ys) simp_all
  next
    case (Cons x xs)
    then show ?case
      by (cases ys) (simp_all add: rust_ord.cmp_sym [OF assms, of _ x])
  qed
next
  fix xs ys zs
  show "cmp_list c xs ys \<noteq> Greater \<Longrightarrow> cmp_list c ys zs \<noteq> Greater \<Longrightarrow> cmp_list c xs zs \<noteq> Greater"
  proof (induction xs arbitrary: ys zs)
    case Nil
    then show ?case by (cases zs) simp_all
  next
    case (Cons x xs)
    then obtain y ys' where ys: "ys = y # ys'" by (cases ys) auto
    with Cons.prems obtain z zs' where zs: "zs = z # zs'" by (cases zs) auto
    have "then_with (c x z) (cmp_list c xs zs') \<noteq> Greater"
      using Cons.prems Cons.IH [of ys' zs'] unfolding ys zs cmp_list.simps
      by (rule then_with_le_trans [OF assms])
    then show ?case by (simp add: zs)
  qed
qed

lemma rust_total_ord_cmp_list [ord_intros]:
  assumes "rust_total_ord c"
  shows "rust_total_ord (cmp_list c)"
proof (rule rust_total_ordI)
  show "rust_ord (cmp_list c)"
    by (intro rust_ord_cmp_list rust_total_ord_ord assms)
  show "cmp_list c xs ys = Equal \<Longrightarrow> xs = ys" for xs ys
  proof (induction xs arbitrary: ys)
    case Nil
    then show ?case by (cases ys) simp_all
  next
    case (Cons x xs)
    then show ?case
      by (cases ys) (auto dest: rust_total_ord.cmp_eqD [OF assms])
  qed
qed

text \<open>Comparing with padding is comparing the lists padded to a common length.\<close>

definition pad_to :: "'a \<Rightarrow> nat \<Rightarrow> 'a list \<Rightarrow> 'a list" where
  "pad_to d n xs = xs @ replicate (n - length xs) d"

lemma pad_to_simps [simp]:
  "pad_to d n [] = replicate n d"
  "pad_to d (Suc n) (x # xs) = x # pad_to d n xs"
  by (simp_all add: pad_to_def)

lemma cmp_pad_eq_cmp_list:
  assumes "rust_ord c" and "length xs \<le> n" and "length ys \<le> n"
  shows "cmp_pad d c xs ys = cmp_list c (pad_to d n xs) (pad_to d n ys)"
  using assms(2,3)
proof (induction n arbitrary: xs ys)
  case 0
  then show ?case by simp
next
  case (Suc n)
  have refl: "c d d = Equal" by (rule rust_ord.cmp_refl [OF assms(1)])
  have eq: "cmp_list c zs zs = Equal" for zs
    by (rule rust_ord.cmp_refl [OF rust_ord_cmp_list [OF assms(1)]])
  show ?case
    using Suc.prems Suc.IH [of "tl xs" "tl ys"]
    by (cases xs; cases ys) (simp_all add: refl eq)
qed

lemma rust_ord_cmp_pad [ord_intros]:
  fixes c :: "'a cmp"
  assumes "rust_ord c"
  shows "rust_ord (cmp_pad d c)"
proof
  fix xs ys :: "'a list"
  have eq: "cmp_pad d c us vs = cmp_list c (pad_to d (length xs + length ys) us)
      (pad_to d (length xs + length ys) vs)"
    if "length us \<le> length xs + length ys" "length vs \<le> length xs + length ys" for us vs
    by (rule cmp_pad_eq_cmp_list [OF assms that])
  show "cmp_pad d c ys xs = rev_ord (cmp_pad d c xs ys)"
    unfolding eq [of ys xs, simplified] eq [of xs ys, simplified]
    by (rule rust_ord.cmp_sym [OF rust_ord_cmp_list [OF assms]])
next
  fix xs ys zs :: "'a list"
  have eq: "cmp_pad d c us vs = cmp_list c (pad_to d (length xs + length ys + length zs) us)
      (pad_to d (length xs + length ys + length zs) vs)"
    if "length us \<le> length xs + length ys + length zs"
      "length vs \<le> length xs + length ys + length zs" for us vs
    by (rule cmp_pad_eq_cmp_list [OF assms that])
  assume "cmp_pad d c xs ys \<noteq> Greater" and "cmp_pad d c ys zs \<noteq> Greater"
  then show "cmp_pad d c xs zs \<noteq> Greater"
    using rust_ord.cmp_le_trans [OF rust_ord_cmp_list [OF assms]] by (simp add: eq)
qed

lemma cmp_pad_refl: "rust_ord c \<Longrightarrow> cmp_pad d c xs xs = Equal"
  by (rule rust_ord.cmp_refl [OF rust_ord_cmp_pad])

lemma cmp_pad_append_replicate:
  assumes "rust_ord c"
  shows "cmp_pad d c (xs @ replicate n d) ys = cmp_pad d c xs ys"
proof -
  have "cmp_pad d c (replicate n d) [] = Equal"
    by (induction n) (simp_all add: rust_ord.cmp_refl [OF assms])
  have "cmp_pad d c (xs @ replicate n d) xs = Equal"
    by (induction xs) (simp_all add: rust_ord.cmp_refl [OF assms] \<open>cmp_pad d c (replicate n d) [] = Equal\<close>)
  then show ?thesis by (rule rust_ord.cmp_eq_left [OF rust_ord_cmp_pad [OF assms]])
qed

text \<open>Equal under padding: over a separating element order, the lists differ only in trailing padding.\<close>

lemma cmp_pad_Equal_iff:
  assumes "rust_total_ord c"
  shows "cmp_pad d c xs ys = Equal \<longleftrightarrow>
    (\<forall>i < max (length xs) (length ys).
      (if i < length xs then xs ! i else d) = (if i < length ys then ys ! i else d))"
proof -
  let ?n = "max (length xs) (length ys)"
  have eq: "cmp_pad d c xs ys = Equal \<longleftrightarrow> pad_to d ?n xs = pad_to d ?n ys"
    using cmp_pad_eq_cmp_list [OF rust_total_ord_ord [OF assms], of xs ?n ys d]
      rust_total_ord.cmp_Equal_iff [OF rust_total_ord_cmp_list [OF assms]]
    by simp
  have "length (pad_to d ?n zs) = ?n" if "length zs \<le> ?n" for zs
    using that by (simp add: pad_to_def)
  moreover have "pad_to d ?n zs ! i = (if i < length zs then zs ! i else d)" if "i < ?n" for zs i
    using that by (simp add: pad_to_def nth_append)
  ultimately show ?thesis
    unfolding eq by (simp add: list_eq_iff_nth_eq)
qed

section \<open>Choosing and sorting with a comparison\<close>

text \<open>
  \<^verbatim>\<open>Ord::max\<close> answers its second argument when the two are equal and \<^verbatim>\<open>Ord::min\<close> its
  first; the folds \<^verbatim>\<open>Iterator::max_by\<close> and \<^verbatim>\<open>Iterator::min_by\<close> do the same, so the last
  greatest and the first least element is taken.
\<close>

definition max_ord :: "'a cmp \<Rightarrow> 'a \<Rightarrow> 'a \<Rightarrow> 'a" where
  "max_ord c x y = (if c y x = Less then x else y)"

definition min_ord :: "'a cmp \<Rightarrow> 'a \<Rightarrow> 'a \<Rightarrow> 'a" where
  "min_ord c x y = (if c y x = Less then y else x)"

fun max_by :: "'a cmp \<Rightarrow> 'a list \<Rightarrow> 'a option" where
  "max_by c [] = None"
| "max_by c (x # xs) = Some (fold (\<lambda>y best. max_ord c best y) xs x)"

fun min_by :: "'a cmp \<Rightarrow> 'a list \<Rightarrow> 'a option" where
  "min_by c [] = None"
| "min_by c (x # xs) = Some (fold (\<lambda>y best. min_ord c best y) xs x)"

text \<open>
  The standard library's sort is stable; under a lawful comparison the stable sorted
  rearrangement is unique, and this is insertion sort computing it.
\<close>

fun insert_by :: "'a cmp \<Rightarrow> 'a \<Rightarrow> 'a list \<Rightarrow> 'a list" where
  "insert_by c x [] = [x]"
| "insert_by c x (y # ys) = (if c x y = Greater then y # insert_by c x ys else x # y # ys)"

definition sort_by :: "'a cmp \<Rightarrow> 'a list \<Rightarrow> 'a list" where
  "sort_by c xs = foldr (insert_by c) xs []"

text \<open>
  \<^verbatim>\<open>Vec::dedup_by\<close>: an element equal to the last one kept is dropped.  As in the source, the
  predicate gets the later element first.
\<close>

fun dedup_by :: "('a \<Rightarrow> 'a \<Rightarrow> bool) \<Rightarrow> 'a list \<Rightarrow> 'a list" where
  "dedup_by same (x # y # ys) =
     (if same y x then dedup_by same (x # ys) else x # dedup_by same (y # ys))"
| "dedup_by same xs = xs"

definition sorted_by :: "'a cmp \<Rightarrow> 'a list \<Rightarrow> bool" where
  "sorted_by c = sorted_wrt (\<lambda>x y. c x y \<noteq> Greater)"

lemma mset_insert_by [simp]: "mset (insert_by c x xs) = add_mset x (mset xs)"
  by (induction xs) simp_all

lemma mset_sort_by [simp]: "mset (sort_by c xs) = mset xs"
  by (induction xs) (simp_all add: sort_by_def)

lemma set_insert_by [simp]: "set (insert_by c x xs) = insert x (set xs)"
  using mset_insert_by [of c x xs] by (metis set_mset_add_mset_insert set_mset_mset)

lemma set_sort_by [simp]: "set (sort_by c xs) = set xs"
  using mset_sort_by [of c xs] by (metis set_mset_mset)

lemma length_sort_by [simp]: "length (sort_by c xs) = length xs"
  using mset_sort_by [of c xs] by (metis size_mset)

lemma sort_by_Nil [simp]: "sort_by c [] = []"
  by (simp add: sort_by_def)

lemma sort_by_Cons [simp]: "sort_by c (x # xs) = insert_by c x (sort_by c xs)"
  by (simp add: sort_by_def)

lemma set_dedup_by_subset: "set (dedup_by same xs) \<subseteq> set xs"
  by (induction same xs rule: dedup_by.induct) auto

lemma dedup_by_Nil_iff [simp]: "dedup_by same xs = [] \<longleftrightarrow> xs = []"
  by (induction same xs rule: dedup_by.induct) auto

lemma sorted_by_dedup: "sorted_by c xs \<Longrightarrow> sorted_by c (dedup_by same xs)"
proof (induction same xs rule: dedup_by.induct)
  case (1 same x y ys)
  then show ?case
    using set_dedup_by_subset [of same "y # ys"] unfolding sorted_by_def by fastforce
qed (simp_all add: sorted_by_def)

lemma sorted_by_Cons [simp]:
  "sorted_by c (x # xs) \<longleftrightarrow> (\<forall>y \<in> set xs. c x y \<noteq> Greater) \<and> sorted_by c xs"
  by (simp add: sorted_by_def)

lemma sorted_by_Nil [simp]: "sorted_by c []"
  by (simp add: sorted_by_def)

context rust_ord
begin

lemma sorted_insert_by: "sorted_by cmp xs \<Longrightarrow> sorted_by cmp (insert_by cmp x xs)"
proof (induction xs)
  case (Cons y ys)
  show ?case
  proof (cases "cmp x y = Greater")
    case True
    then have "cmp y x \<noteq> Greater" by (simp add: cmp_Greater_iff cmp_sym [of x y])
    with True Cons show ?thesis by auto
  next
    case False
    with Cons.prems show ?thesis by (auto dest: cmp_le_trans [of x y])
  qed
qed simp

lemma sorted_sort_by: "sorted_by cmp (sort_by cmp xs)"
  by (induction xs) (simp_all add: sorted_insert_by)

lemma max_ord_ge: "cmp x (max_ord cmp x y) \<noteq> Greater" "cmp y (max_ord cmp x y) \<noteq> Greater"
  using cmp_sym [of x y] by (auto simp: max_ord_def)

lemma min_ord_le: "cmp (min_ord cmp x y) x \<noteq> Greater" "cmp (min_ord cmp x y) y \<noteq> Greater"
  using cmp_sym [of x y] by (auto simp: min_ord_def)

lemma fold_max_ord:
  "cmp x (fold (\<lambda>y best. max_ord cmp best y) xs x) \<noteq> Greater \<and>
   (\<forall>y \<in> set xs. cmp y (fold (\<lambda>y best. max_ord cmp best y) xs x) \<noteq> Greater)"
proof (induction xs arbitrary: x)
  case (Cons y ys)
  let ?m = "fold (\<lambda>y best. max_ord cmp best y) ys (max_ord cmp x y)"
  have m: "cmp (max_ord cmp x y) ?m \<noteq> Greater" and rest: "\<forall>z \<in> set ys. cmp z ?m \<noteq> Greater"
    using Cons.IH [of "max_ord cmp x y"] by auto
  then show ?case
    using cmp_le_trans [OF max_ord_ge(1) m] cmp_le_trans [OF max_ord_ge(2) m] by auto
qed simp

lemma fold_min_ord:
  "cmp (fold (\<lambda>y best. min_ord cmp best y) xs x) x \<noteq> Greater \<and>
   (\<forall>y \<in> set xs. cmp (fold (\<lambda>y best. min_ord cmp best y) xs x) y \<noteq> Greater)"
proof (induction xs arbitrary: x)
  case (Cons y ys)
  let ?m = "fold (\<lambda>y best. min_ord cmp best y) ys (min_ord cmp x y)"
  have m: "cmp ?m (min_ord cmp x y) \<noteq> Greater" and rest: "\<forall>z \<in> set ys. cmp ?m z \<noteq> Greater"
    using Cons.IH [of "min_ord cmp x y"] by auto
  then show ?case
    using cmp_le_trans [OF m min_ord_le(1)] cmp_le_trans [OF m min_ord_le(2)] by auto
qed simp

lemma max_by_upper: "max_by cmp xs = Some m \<Longrightarrow> x \<in> set xs \<Longrightarrow> cmp x m \<noteq> Greater"
  using fold_max_ord by (cases xs) auto

lemma min_by_lower: "min_by cmp xs = Some m \<Longrightarrow> x \<in> set xs \<Longrightarrow> cmp m x \<noteq> Greater"
  using fold_min_ord by (cases xs) auto

end

lemma fold_choose_mem: "(\<And>x y. f x y = x \<or> f x y = y) \<Longrightarrow> fold (\<lambda>y best. f best y) xs x \<in> insert x (set xs)"
proof (induction xs arbitrary: x)
  case (Cons y ys)
  then have "fold (\<lambda>y best. f best y) ys (f x y) \<in> insert (f x y) (set ys)" by blast
  then show ?case using Cons.prems [of x y] by auto
qed simp

lemma max_ord_cases: "max_ord c x y = x \<or> max_ord c x y = y"
  by (simp add: max_ord_def)

lemma min_ord_cases: "min_ord c x y = x \<or> min_ord c x y = y"
  by (simp add: min_ord_def)

lemma max_by_mem: "max_by c xs = Some m \<Longrightarrow> m \<in> set xs"
  using fold_choose_mem [of "max_ord c", OF max_ord_cases] by (cases xs) auto

lemma min_by_mem: "min_by c xs = Some m \<Longrightarrow> m \<in> set xs"
  using fold_choose_mem [of "min_ord c", OF min_ord_cases] by (cases xs) auto

lemma max_by_None [simp]: "max_by c xs = None \<longleftrightarrow> xs = []"
  by (cases xs) simp_all

lemma min_by_None [simp]: "min_by c xs = None \<longleftrightarrow> xs = []"
  by (cases xs) simp_all

lemma set_map_filter: "y \<in> set (List.map_filter f xs) \<longleftrightarrow> (\<exists>x \<in> set xs. f x = Some y)"
  by (induction xs) (auto simp: List.map_filter_simps split: option.split)

end
