(* ===== verification/Rust_Str.thy ===== *)
theory Rust_Str
  imports Rust_Ord
begin

text \<open>
  Rust's \<^verbatim>\<open>str\<close> and the \<^verbatim>\<open>[u8]\<close> behind it.  A \<^verbatim>\<open>str\<close> is modelled by its UTF-8 bytes, a
  \<^typ>\<open>string\<close> of Isabelle (each \<^typ>\<open>char\<close> is one byte), which is also what \<^verbatim>\<open>len\<close>, slicing,
  \<^verbatim>\<open>as_bytes\<close> and the \<^verbatim>\<open>Ord\<close> of \<^verbatim>\<open>str\<close> see.  Splitting at an ASCII character works on bytes,
  because no byte of a multi-byte character is below 128.  A cursor \<open>i\<close> into a slice is
  modelled by the suffix of the slice that starts at \<open>i\<close>.
\<close>

section \<open>Bytes\<close>

abbreviation byte :: "char \<Rightarrow> nat" where
  "byte c \<equiv> of_char c"

definition is_ascii_digit :: "char \<Rightarrow> bool" where
  "is_ascii_digit c \<longleftrightarrow> 48 \<le> byte c \<and> byte c \<le> 57"

definition is_ascii_lowercase :: "char \<Rightarrow> bool" where
  "is_ascii_lowercase c \<longleftrightarrow> 97 \<le> byte c \<and> byte c \<le> 122"

definition is_ascii_uppercase :: "char \<Rightarrow> bool" where
  "is_ascii_uppercase c \<longleftrightarrow> 65 \<le> byte c \<and> byte c \<le> 90"

definition is_ascii_alphabetic :: "char \<Rightarrow> bool" where
  "is_ascii_alphabetic c \<longleftrightarrow> is_ascii_lowercase c \<or> is_ascii_uppercase c"

definition is_ascii_alphanumeric :: "char \<Rightarrow> bool" where
  "is_ascii_alphanumeric c \<longleftrightarrow> is_ascii_alphabetic c \<or> is_ascii_digit c"

definition ascii_lower :: "char \<Rightarrow> char" where
  "ascii_lower c = (if is_ascii_uppercase c then char_of (byte c + 32) else c)"

definition ascii_upper :: "char \<Rightarrow> char" where
  "ascii_upper c = (if is_ascii_lowercase c then char_of (byte c - 32) else c)"

definition to_ascii_lowercase :: "string \<Rightarrow> string" where
  "to_ascii_lowercase s = map ascii_lower s"

definition to_ascii_uppercase :: "string \<Rightarrow> string" where
  "to_ascii_uppercase s = map ascii_upper s"

definition digit_val :: "char \<Rightarrow> nat" where
  "digit_val c = byte c - 48"

definition byte_cmp :: "char cmp" where
  "byte_cmp = cmp_on of_char (ord_cmp :: nat cmp)"

definition str_cmp :: "string cmp" where
  "str_cmp = cmp_list byte_cmp"

lemmas ascii_defs = is_ascii_digit_def is_ascii_lowercase_def is_ascii_uppercase_def
  is_ascii_alphabetic_def is_ascii_alphanumeric_def

lemma byte_eq_iff [simp]: "byte c = byte d \<longleftrightarrow> c = d"
  by simp

lemma rust_total_ord_byte_cmp [ord_intros]: "rust_total_ord byte_cmp"
  unfolding byte_cmp_def
  by (intro rust_total_ordI ord_intros) (simp add: cmp_on_def)

lemma rust_total_ord_str_cmp [ord_intros]: "rust_total_ord str_cmp"
  unfolding str_cmp_def by (intro ord_intros)

lemma rust_ord_str_cmp [ord_intros]: "rust_ord str_cmp"
  by (rule rust_total_ord_ord [OF rust_total_ord_str_cmp])

interpretation str: rust_total_ord str_cmp
  by (rule rust_total_ord_str_cmp)

lemma digit_not_alphabetic: "is_ascii_digit c \<Longrightarrow> \<not> is_ascii_alphabetic c"
  by (simp add: ascii_defs)

section \<open>Slicing and splitting\<close>

fun strip_prefix :: "string \<Rightarrow> string \<Rightarrow> string option" where
  "strip_prefix [] s = Some s"
| "strip_prefix (p # ps) [] = None"
| "strip_prefix (p # ps) (c # cs) = (if c = p then strip_prefix ps cs else None)"

definition starts_with :: "string \<Rightarrow> string \<Rightarrow> bool" where
  "starts_with p s \<longleftrightarrow> strip_prefix p s \<noteq> None"

definition ends_with :: "string \<Rightarrow> string \<Rightarrow> bool" where
  "ends_with p s \<longleftrightarrow> starts_with (rev p) (rev s)"

fun split_once :: "char \<Rightarrow> string \<Rightarrow> (string \<times> string) option" where
  "split_once d [] = None"
| "split_once d (c # cs) =
     (if c = d then Some ([], cs)
      else map_option (\<lambda>(a, b). (c # a, b)) (split_once d cs))"

definition rsplit_once :: "char \<Rightarrow> string \<Rightarrow> (string \<times> string) option" where
  "rsplit_once d s = map_option (\<lambda>(a, b). (rev b, rev a)) (split_once d (rev s))"

text \<open>\<^verbatim>\<open>str::split\<close> at a character with a property: never empty, adjacent separators give empty pieces.\<close>

fun split_on :: "(char \<Rightarrow> bool) \<Rightarrow> string \<Rightarrow> string list" where
  "split_on p [] = [[]]"
| "split_on p (c # cs) =
     (if p c then [] # split_on p cs
      else (case split_on p cs of [] \<Rightarrow> [[c]] | w # ws \<Rightarrow> (c # w) # ws))"

abbreviation split_at :: "char \<Rightarrow> string \<Rightarrow> string list" where
  "split_at d s \<equiv> split_on (\<lambda>c. c = d) s"

text \<open>\<^verbatim>\<open>str::split_once\<close> at a longer separator: the text before and after its first occurrence.\<close>

fun split_once_str :: "string \<Rightarrow> string \<Rightarrow> (string \<times> string) option" where
  "split_once_str p s =
     (case strip_prefix p s of
        Some rest \<Rightarrow> Some ([], rest)
      | None \<Rightarrow> (case s of [] \<Rightarrow> None
                 | c # cs \<Rightarrow> map_option (\<lambda>(a, b). (c # a, b)) (split_once_str p cs)))"

declare split_once_str.simps [simp del]

fun join_with :: "string \<Rightarrow> string list \<Rightarrow> string" where
  "join_with sep [] = []"
| "join_with sep [w] = w"
| "join_with sep (w # v # vs) = w @ sep @ join_with sep (v # vs)"

section \<open>White space\<close>

text \<open>
  \<^verbatim>\<open>char::is_whitespace\<close> is Unicode's \<open>White_Space\<close>: the UTF-8 encodings of its 25 characters.
  \<^verbatim>\<open>str::trim\<close> removes them from both ends.
\<close>

definition white_space :: "string list" where
  "white_space = map (map char_of)
     [[9], [10], [11], [12], [13], [32], [194, 133], [194, 160], [225, 154, 128 :: nat],
      [226, 128, 128], [226, 128, 129], [226, 128, 130], [226, 128, 131], [226, 128, 132],
      [226, 128, 133], [226, 128, 134], [226, 128, 135], [226, 128, 136], [226, 128, 137],
      [226, 128, 138], [226, 128, 168], [226, 128, 169], [226, 128, 175], [226, 129, 159],
      [227, 128, 128]]"

definition strip_space :: "string list \<Rightarrow> string \<Rightarrow> string option" where
  "strip_space ws s = List.find (\<lambda>_. True) (List.map_filter (\<lambda>w. strip_prefix w s) ws)"

fun trim_front :: "string list \<Rightarrow> nat \<Rightarrow> string \<Rightarrow> string" where
  "trim_front ws 0 s = s"
| "trim_front ws (Suc n) s = (case strip_space ws s of None \<Rightarrow> s | Some rest \<Rightarrow> trim_front ws n rest)"

definition trim_start :: "string \<Rightarrow> string" where
  "trim_start s = trim_front white_space (length s) s"

definition trim_end :: "string \<Rightarrow> string" where
  "trim_end s = rev (trim_front (map rev white_space) (length s) (rev s))"

definition trim :: "string \<Rightarrow> string" where
  "trim s = trim_end (trim_start s)"

definition has_whitespace :: "string \<Rightarrow> bool" where
  "has_whitespace s \<longleftrightarrow> (\<exists>i \<in> set [0..<length s]. strip_space white_space (drop i s) \<noteq> None)"

section \<open>Numbers in text\<close>

definition dec_val :: "string \<Rightarrow> nat" where
  "dec_val s = foldl (\<lambda>n c. n * 10 + digit_val c) 0 s"

definition all_digits :: "string \<Rightarrow> bool" where
  "all_digits s \<longleftrightarrow> list_all is_ascii_digit s"

text \<open>\<^verbatim>\<open>str::parse\<close> at an unsigned type: an optional plus sign, digits, and no overflow.\<close>

definition parse_uint :: "nat \<Rightarrow> string \<Rightarrow> nat option" where
  "parse_uint bits s =
     (let ds = (case s of c # d # cs \<Rightarrow> if c = CHR ''+'' then d # cs else s | _ \<Rightarrow> s)
      in if ds \<noteq> [] \<and> all_digits ds \<and> dec_val ds < 2 ^ bits then Some (dec_val ds) else None)"

abbreviation parse_u64 :: "string \<Rightarrow> nat option" where
  "parse_u64 \<equiv> parse_uint 64"

abbreviation parse_u32 :: "string \<Rightarrow> nat option" where
  "parse_u32 \<equiv> parse_uint 32"

fun dec_digits :: "nat \<Rightarrow> string \<Rightarrow> string" where
  "dec_digits n acc =
     (let acc' = char_of (48 + n mod 10) # acc
      in if n < 10 then acc' else dec_digits (n div 10) acc')"

declare dec_digits.simps [simp del]

definition show_nat :: "nat \<Rightarrow> string" where
  "show_nat n = dec_digits n []"

lemma parse_uint_bound: "parse_uint bits s = Some n \<Longrightarrow> n < 2 ^ bits"
  by (simp add: parse_uint_def Let_def split: if_splits)

lemma dec_val_Nil [simp]: "dec_val [] = 0"
  by (simp add: dec_val_def)

lemma dec_val_snoc [simp]: "dec_val (s @ [c]) = dec_val s * 10 + digit_val c"
  by (simp add: dec_val_def)

lemma dec_val_foldl: "foldl (\<lambda>n c. n * 10 + digit_val c) k s = k * 10 ^ length s + dec_val s"
proof (induction s rule: rev_induct)
  case (snoc c s)
  then show ?case by (simp add: algebra_simps)
qed simp

lemma dec_val_Cons: "dec_val (c # s) = digit_val c * 10 ^ length s + dec_val s"
  using dec_val_foldl [of "digit_val c" s] by (simp add: dec_val_def)

lemma digit_val_lt: "is_ascii_digit c \<Longrightarrow> digit_val c < 10"
  unfolding is_ascii_digit_def digit_val_def by linarith

lemma digit_val_inj: "is_ascii_digit c \<Longrightarrow> is_ascii_digit d \<Longrightarrow> digit_val c = digit_val d \<Longrightarrow> c = d"
proof -
  assume "is_ascii_digit c" "is_ascii_digit d" "digit_val c = digit_val d"
  then have "byte c = byte d" unfolding is_ascii_digit_def digit_val_def by linarith
  then show ?thesis by (simp only: byte_eq_iff)
qed

lemma digit_val_cmp:
  "is_ascii_digit c \<Longrightarrow> is_ascii_digit d \<Longrightarrow> ord_cmp (digit_val c) (digit_val d) = byte_cmp c d"
  using digit_val_inj [of c d] unfolding ord_cmp_def byte_cmp_def cmp_on_def
  by (auto simp: is_ascii_digit_def digit_val_def)

lemma digit_val_0 [simp]: "is_ascii_digit c \<Longrightarrow> digit_val c = 0 \<longleftrightarrow> c = CHR ''0''"
  using digit_val_inj [of c "CHR ''0''"] by (auto simp: is_ascii_digit_def digit_val_def)

lemma all_digits_simps [simp]:
  "all_digits []" "all_digits (c # s) \<longleftrightarrow> is_ascii_digit c \<and> all_digits s"
  "all_digits (s @ t) \<longleftrightarrow> all_digits s \<and> all_digits t"
  by (simp_all add: all_digits_def)

lemma dec_val_lt: "all_digits s \<Longrightarrow> dec_val s < 10 ^ length s"
proof (induction s rule: rev_induct)
  case (snoc c s)
  then have "dec_val s + 1 \<le> 10 ^ length s" and "digit_val c < 10"
    by (simp_all add: digit_val_lt)
  then show ?case by simp
qed simp

lemma dec_val_ge:
  assumes "all_digits (c # s)" and "c \<noteq> CHR ''0''"
  shows "10 ^ length s \<le> dec_val (c # s)"
proof -
  have "digit_val c \<noteq> 0" using assms digit_val_0 [of c] by simp
  then have "1 \<le> digit_val c" by linarith
  then have "1 * 10 ^ length s \<le> digit_val c * 10 ^ length s" by (rule mult_le_mono1)
  then have "10 ^ length s \<le> digit_val c * 10 ^ length s" by (simp only: mult_1)
  then show ?thesis unfolding dec_val_Cons by (rule trans_le_add1)
qed

text \<open>Digit strings of the same length compare as text exactly as they compare as numbers.\<close>

lemma dec_val_cmp_same_length:
  assumes "all_digits s" and "all_digits t" and "length s = length t"
  shows "ord_cmp (dec_val s) (dec_val t) = str_cmp s t"
  using assms(3,1,2)
proof (induction s t rule: list_induct2)
  case Nil
  then show ?case by (simp add: str_cmp_def)
next
  case (Cons c s d t)
  let ?p = "10 ^ length t :: nat"
  have s: "dec_val s < ?p" and t: "dec_val t < ?p"
    using Cons.prems Cons.hyps dec_val_lt [of s] dec_val_lt [of t] by auto
  have IH: "ord_cmp (dec_val s) (dec_val t) = str_cmp s t" using Cons by simp
  have dig: "ord_cmp (digit_val c) (digit_val d) = byte_cmp c d"
    using Cons.prems by (simp add: digit_val_cmp)
  have eq: "dec_val (c # s) = digit_val c * ?p + dec_val s"
    "dec_val (d # t) = digit_val d * ?p + dec_val t"
    using Cons.hyps by (simp_all add: dec_val_Cons)
  show ?case
  proof (cases "digit_val c" "digit_val d" rule: linorder_cases)
    case less
    then have "digit_val c * ?p + ?p \<le> digit_val d * ?p"
      by (metis add.commute mult_Suc mult_le_mono1 Suc_leI)
    then have "dec_val (c # s) < dec_val (d # t)" using s unfolding eq by linarith
    moreover have "byte_cmp c d = Less" using dig less by (simp add: ord_cmp_def)
    ultimately show ?thesis by (simp add: str_cmp_def ord_cmp_def)
  next
    case equal
    then have "byte_cmp c d = Equal" using dig by (simp add: ord_cmp_def)
    moreover have "ord_cmp (dec_val (c # s)) (dec_val (d # t)) = ord_cmp (dec_val s) (dec_val t)"
      unfolding eq equal by (simp add: ord_cmp_def)
    ultimately show ?thesis using IH by (simp add: str_cmp_def)
  next
    case greater
    then have "digit_val d * ?p + ?p \<le> digit_val c * ?p"
      by (metis add.commute mult_Suc mult_le_mono1 Suc_leI)
    then have "dec_val (d # t) < dec_val (c # s)" using t unfolding eq by linarith
    moreover have "byte_cmp c d = Greater" using dig greater by (auto simp: ord_cmp_def)
    ultimately show ?thesis by (simp add: str_cmp_def ord_cmp_def)
  qed
qed

lemma dec_val_cmp_longer:
  assumes "all_digits s" and "all_digits t" and "length s < length t" and "hd t \<noteq> CHR ''0''"
  shows "dec_val s < dec_val t"
proof -
  obtain c t' where t: "t = c # t'" using assms(3) by (cases t) auto
  have "dec_val s < 10 ^ length s" using assms(1) by (rule dec_val_lt)
  also have "\<dots> \<le> 10 ^ length t'" using assms(3) t by simp
  also have "\<dots> \<le> dec_val t" using assms(2,4) t dec_val_ge by simp
  finally show ?thesis .
qed

text \<open>Without leading zeros, the longer digit string is the larger number.\<close>

lemma dec_val_cmp:
  assumes "all_digits s" and "all_digits t"
    and "s = [] \<or> hd s \<noteq> CHR ''0''" and "t = [] \<or> hd t \<noteq> CHR ''0''"
  shows "ord_cmp (dec_val s) (dec_val t) = then_with (ord_cmp (length s) (length t)) (str_cmp s t)"
proof (cases "length s" "length t" rule: linorder_cases)
  case less
  then have "dec_val s < dec_val t" using assms by (intro dec_val_cmp_longer) auto
  with less show ?thesis by (simp add: ord_cmp_def)
next
  case equal
  with dec_val_cmp_same_length [OF assms(1,2)] show ?thesis by (simp add: ord_cmp_def)
next
  case greater
  then have "dec_val t < dec_val s" using assms by (intro dec_val_cmp_longer) auto
  with greater show ?thesis by (simp add: ord_cmp_def)
qed

abbreviation strip_zeros :: "string \<Rightarrow> string" where
  "strip_zeros s \<equiv> dropWhile (\<lambda>c. c = CHR ''0'') s"

lemma dec_val_strip_zeros [simp]: "dec_val (strip_zeros s) = dec_val s"
  by (induction s) (simp_all add: dec_val_Cons digit_val_def)

lemma hd_strip_zeros: "strip_zeros s = [] \<or> hd (strip_zeros s) \<noteq> CHR ''0''"
  using hd_dropWhile by blast

lemma all_digits_strip_zeros: "all_digits s \<Longrightarrow> all_digits (strip_zeros s)"
  by (induction s) simp_all

lemma all_digits_takeWhile [simp]: "all_digits (takeWhile is_ascii_digit s)"
  by (induction s) simp_all

section \<open>Trimming twice\<close>

lemma strip_prefix_Some: "strip_prefix p s = Some r \<longleftrightarrow> s = p @ r"
  by (induction p s rule: strip_prefix.induct) auto

lemma strip_space_None: "strip_space ws s = None \<longleftrightarrow> (\<forall>w \<in> set ws. \<forall>r. s \<noteq> w @ r)"
proof -
  have "strip_space ws s = None \<longleftrightarrow> (\<forall>w \<in> set ws. strip_prefix w s = None)"
    by (induction ws) (auto simp: strip_space_def List.map_filter_simps split: option.splits)
  then show ?thesis by (metis strip_prefix_Some not_None_eq)
qed

lemma strip_space_Some: "strip_space ws s = Some r \<Longrightarrow> \<exists>w \<in> set ws. s = w @ r"
proof (induction ws)
  case (Cons w ws)
  then show ?case
    by (cases "strip_prefix w s") (auto simp: strip_space_def List.map_filter_simps strip_prefix_Some)
qed (simp add: strip_space_def)

lemma trim_front_stops:
  assumes "[] \<notin> set ws" and "length s \<le> n"
  shows "strip_space ws (trim_front ws n s) = None \<and> (\<exists>p. s = p @ trim_front ws n s)"
  using assms(2)
proof (induction n arbitrary: s)
  case 0
  then show ?case using assms(1) by (auto simp: strip_space_None)
next
  case (Suc n)
  show ?case
  proof (cases "strip_space ws s")
    case (Some r)
    then obtain w where "w \<in> set ws" and s: "s = w @ r" using strip_space_Some by blast
    moreover have "w \<noteq> []" using \<open>w \<in> set ws\<close> assms(1) by auto
    ultimately have "length r < length s" using s by simp
    then have "length r \<le> n" using Suc.prems by linarith
    from Suc.IH [OF this] show ?thesis using Some s by (metis append_assoc option.simps(5) trim_front.simps(2))
  qed simp
qed

lemma trim_front_fix: "strip_space ws s = None \<Longrightarrow> trim_front ws n s = s"
  by (cases n) simp_all

lemma white_space_nonempty: "[] \<notin> set white_space"
  by (simp add: white_space_def)

lemma trim_start_props:
  "strip_space white_space (trim_start s) = None" "\<exists>p. s = p @ trim_start s"
  using trim_front_stops [OF white_space_nonempty, of s "length s"] by (simp_all add: trim_start_def)

lemma trim_end_props:
  "strip_space (map rev white_space) (rev (trim_end s)) = None" "\<exists>q. s = trim_end s @ q"
proof -
  have ne: "[] \<notin> set (map rev white_space)" using white_space_nonempty by auto
  note t = trim_front_stops [OF ne, of "rev s" "length s"]
  show "strip_space (map rev white_space) (rev (trim_end s)) = None"
    using t by (simp add: trim_end_def)
  obtain p where "rev s = p @ trim_front (map rev white_space) (length s) (rev s)" using t by auto
  then have "s = trim_end s @ rev p" unfolding trim_end_def by (metis rev_append rev_rev_ident)
  then show "\<exists>q. s = trim_end s @ q" ..
qed

lemma trim_trim [simp]: "trim (trim s) = trim s"
proof -
  let ?u = "trim_start s" and ?t = "trim_end (trim_start s)"
  obtain q where q: "?u = ?t @ q" using trim_end_props(2) by blast
  have "strip_space white_space ?t = None"
    using trim_start_props(1) [of s] q unfolding strip_space_None by (metis append_assoc)
  then have "trim_start ?t = ?t" by (simp add: trim_start_def trim_front_fix)
  moreover have "trim_end ?t = ?t"
    using trim_end_props(1) [of ?u] unfolding trim_end_def [of ?t] by (simp add: trim_front_fix)
  ultimately show ?thesis by (simp add: trim_def)
qed

section \<open>Showing a number and reading it back\<close>

lemma char_of_digit: "d < 10 \<Longrightarrow> is_ascii_digit (char_of (48 + d)) \<and> digit_val (char_of (48 + d)) = d"
  by (simp add: is_ascii_digit_def digit_val_def)

lemma all_digits_dec_digits: "all_digits acc \<Longrightarrow> all_digits (dec_digits n acc)"
proof (induction n acc rule: dec_digits.induct)
  case (1 n acc)
  then show ?case
    using char_of_digit [of "n mod 10"] by (subst dec_digits.simps) (auto simp: Let_def)
qed

lemma dec_val_dec_digits: "dec_val (dec_digits n acc) = n * 10 ^ length acc + dec_val acc"
proof (induction n acc rule: dec_digits.induct)
  case (1 n acc)
  let ?c = "char_of (48 + n mod 10) :: char"
  have d: "digit_val ?c = n mod 10" using char_of_digit [of "n mod 10"] by simp
  show ?case
  proof (cases "n < 10")
    case True
    then show ?thesis using d by (subst dec_digits.simps) (simp add: Let_def dec_val_Cons)
  next
    case False
    have "dec_val (dec_digits n acc) = dec_val (dec_digits (n div 10) (?c # acc))"
      using False by (subst dec_digits.simps) (simp add: Let_def)
    also have "\<dots> = (n div 10) * 10 ^ length (?c # acc) + dec_val (?c # acc)"
      using "1.IH" False by simp
    also have "\<dots> = (n div 10 * 10 + n mod 10) * 10 ^ length acc + dec_val acc"
      using d by (simp only: dec_val_Cons length_Cons power_Suc algebra_simps)
    finally show ?thesis by (simp only: div_mult_mod_eq)
  qed
qed

lemma all_digits_show_nat [simp]: "all_digits (show_nat n)"
  by (simp add: show_nat_def all_digits_dec_digits)

lemma dec_val_show_nat [simp]: "dec_val (show_nat n) = n"
  by (simp add: show_nat_def dec_val_dec_digits)

lemma dec_digits_not_Nil: "dec_digits n acc \<noteq> []"
proof (induction n acc rule: dec_digits.induct)
  case (1 n acc)
  then show ?case by (subst dec_digits.simps) (simp add: Let_def)
qed

lemma show_nat_not_Nil [simp]: "show_nat n \<noteq> []"
  by (simp add: show_nat_def dec_digits_not_Nil)

lemma all_digits_hd: "all_digits s \<Longrightarrow> s \<noteq> [] \<Longrightarrow> is_ascii_digit (hd s)"
  by (cases s) simp_all

lemma parse_show_nat:
  assumes "n < 2 ^ bits"
  shows "parse_uint bits (show_nat n) = Some n"
proof -
  have "hd (show_nat n) \<noteq> CHR ''+''"
    using all_digits_hd [of "show_nat n"] by (auto simp: is_ascii_digit_def)
  then show ?thesis
    using assms all_digits_show_nat [of n] show_nat_not_Nil [of n] dec_val_show_nat [of n]
    unfolding parse_uint_def
    by (cases "show_nat n") (auto simp: Let_def split: list.splits)
qed

end
