(* ===== verification/Deb_Version.thy ===== *)
theory Deb_Version
  imports Rust_Str
begin

text \<open>
  Debian package versions, \<^verbatim>\<open>crates/os/src/dpkgver.rs\<close>: parsing \<open>[epoch:]upstream[-revision]\<close>
  and dpkg's \<open>verrevcmp\<close>.  The comparison is proved equal to the lexicographic comparison of
  a canonical key (the description in Debian Policy), and so to be a lawful \<^verbatim>\<open>Ord\<close>.
\<close>

section \<open>Definitions\<close>

record deb_version =
  dv_raw :: string
  dv_epoch :: nat
  dv_upstream :: string
  dv_revision :: string

definition i32_max :: nat where
  "i32_max = 2 ^ 31 - 1"

definition deb_epoch :: "string \<Rightarrow> (nat \<times> string) option" where
  "deb_epoch raw =
     (case split_once (CHR '':'') raw of
        Some (e, rest) \<Rightarrow>
          (if e = [] \<or> \<not> list_all is_ascii_digit e then None
           else (case parse_u32 e of
                   None \<Rightarrow> None
                 | Some epoch \<Rightarrow>
                     if epoch > i32_max \<or> rest = [] then None else Some (epoch, rest)))
      | None \<Rightarrow> Some (0, raw))"

definition deb_split_revision :: "string \<Rightarrow> (string \<times> string) option" where
  "deb_split_revision rest =
     (case rsplit_once (CHR ''-'') rest of
        Some (u, r) \<Rightarrow> (if r = [] then None else Some (u, r))
      | None \<Rightarrow> Some (rest, []))"

definition deb_parse :: "string \<Rightarrow> deb_version option" where
  "deb_parse s =
     (let raw = trim s in
      if raw = [] \<or> has_whitespace raw then None
      else (case deb_epoch raw of
              None \<Rightarrow> None
            | Some (epoch, rest) \<Rightarrow>
                (case deb_split_revision rest of
                   None \<Rightarrow> None
                 | Some (upstream, revision) \<Rightarrow>
                     if upstream = [] then None
                     else Some \<lparr>dv_raw = raw, dv_epoch = epoch,
                                dv_upstream = upstream, dv_revision = revision\<rparr>)))"

text \<open>The weight of a character in a run of non-digits, \<open>order\<close> in the source.\<close>

definition deb_order :: "char option \<Rightarrow> int" where
  "deb_order oc =
     (case oc of
        None \<Rightarrow> 0
      | Some c \<Rightarrow>
          if is_ascii_digit c then 0
          else if is_ascii_alphabetic c then int (byte c)
          else if c = CHR 0x7E then -1
          else int (byte c) + 256)"

definition byte_at :: "string \<Rightarrow> char option" where
  "byte_at s = (case s of [] \<Rightarrow> None | c # _ \<Rightarrow> Some c)"

definition at_nondigit :: "string \<Rightarrow> bool" where
  "at_nondigit s = (case byte_at s of None \<Rightarrow> False | Some c \<Rightarrow> \<not> is_ascii_digit c)"

definition at_digit :: "string \<Rightarrow> bool" where
  "at_digit s = (case byte_at s of None \<Rightarrow> False | Some c \<Rightarrow> is_ascii_digit c)"

text \<open>The first inner loop: two runs of non-digits, character by character.\<close>

function nondigit_run :: "string \<Rightarrow> string \<Rightarrow> ordering + string \<times> string" where
  "nondigit_run a b =
     (if at_nondigit a \<or> at_nondigit b then
        (let ac = deb_order (byte_at a); bc = deb_order (byte_at b)
         in if ac \<noteq> bc then Inl (ord_cmp ac bc) else nondigit_run (tl a) (tl b))
      else Inr (a, b))"
  by pat_completeness auto
termination
  by (relation "measure (\<lambda>(a, b). length a + length b)")
     (auto simp: at_nondigit_def byte_at_def split: list.splits)

declare nondigit_run.simps [simp del]

text \<open>The loop over two runs of digits, keeping the first difference.\<close>

fun digit_run :: "string \<Rightarrow> string \<Rightarrow> ordering \<Rightarrow> string \<times> string \<times> ordering" where
  "digit_run (c # a) (d # b) first_diff =
     (if is_ascii_digit c \<and> is_ascii_digit d
      then digit_run a b (if first_diff = Equal then byte_cmp c d else first_diff)
      else (c # a, d # b, first_diff))"
| "digit_run [] b first_diff = ([], b, first_diff)"
| "digit_run (c # a) [] first_diff = (c # a, [], first_diff)"

text \<open>Both loops only move forward; after the first one neither side is at a non-digit.\<close>

lemma nondigit_run_length:
  "nondigit_run a b = Inr (a', b') \<Longrightarrow>
    length a' \<le> length a \<and> length b' \<le> length b \<and> \<not> at_nondigit a' \<and> \<not> at_nondigit b' \<and>
    (at_nondigit a \<or> at_nondigit b \<longrightarrow> length a' + length b' < length a + length b)"
proof (induction a b rule: nondigit_run.induct)
  case (1 a b)
  show ?case
  proof (cases "at_nondigit a \<or> at_nondigit b")
    case True
    then have dec: "length (tl a) + length (tl b) < length a + length b"
      by (auto simp: at_nondigit_def byte_at_def split: list.splits)
    from True "1.prems" have "deb_order (byte_at a) = deb_order (byte_at b)"
      and "nondigit_run (tl a) (tl b) = Inr (a', b')"
      by (auto simp: nondigit_run.simps [of a b] Let_def split: if_splits)
    with True "1.IH" have "length a' \<le> length (tl a) \<and> length b' \<le> length (tl b) \<and>
      \<not> at_nondigit a' \<and> \<not> at_nondigit b'" by simp
    with dec show ?thesis by auto
  next
    case False
    with "1.prems" show ?thesis by (simp add: nondigit_run.simps [of a b])
  qed
qed

abbreviation after_digits :: "string \<Rightarrow> string" where
  "after_digits s \<equiv> dropWhile is_ascii_digit s"

lemma at_digit_simps [simp]: "\<not> at_digit []" "at_digit (c # s) \<longleftrightarrow> is_ascii_digit c"
  by (simp_all add: at_digit_def byte_at_def)

lemma at_nondigit_simps [simp]: "\<not> at_nondigit []" "at_nondigit (c # s) \<longleftrightarrow> \<not> is_ascii_digit c"
  by (simp_all add: at_nondigit_def byte_at_def)

lemma is_ascii_digit_zero [simp]: "is_ascii_digit CHR ''0''"
  by (simp add: is_ascii_digit_def)

lemma digit_run_rest:
  "digit_run a b fd = (a', b', fd') \<Longrightarrow> \<not> at_digit a' \<Longrightarrow> \<not> at_digit b' \<Longrightarrow>
     a' = after_digits a \<and> b' = after_digits b"
proof (induction a b fd rule: digit_run.induct)
  case (2 b fd)
  then show ?case by (cases b) auto
qed (auto split: if_splits)

lemma after_digits_strip_zeros [simp]: "after_digits (strip_zeros s) = after_digits s"
  by (induction s) auto

lemma after_digits_length: "length (after_digits s) \<le> length s"
  by (rule length_dropWhile_le)

function verrevcmp :: "string \<Rightarrow> string \<Rightarrow> ordering" where
  "verrevcmp a b =
     (if a = [] \<and> b = [] then Equal
      else (case nondigit_run a b of
              Inl r \<Rightarrow> r
            | Inr (a1, b1) \<Rightarrow>
                (case digit_run (strip_zeros a1) (strip_zeros b1) Equal of
                   (a2, b2, first_diff) \<Rightarrow>
                     if at_digit a2 then Greater
                     else if at_digit b2 then Less
                     else if first_diff \<noteq> Equal then first_diff
                     else verrevcmp a2 b2)))"
  by pat_completeness auto

lemma verrevcmp_step:
  assumes "a \<noteq> [] \<or> b \<noteq> []" and nd: "nondigit_run a b = Inr (a1, b1)"
    and dr: "digit_run (strip_zeros a1) (strip_zeros b1) Equal = (a2, b2, fd)"
    and "\<not> at_digit a2" and "\<not> at_digit b2"
  shows "length a2 + length b2 < length a + length b"
proof -
  note n = nondigit_run_length [OF nd]
  have d: "a2 = after_digits a1" "b2 = after_digits b1"
    using digit_run_rest [OF dr assms(4,5)] by simp_all
  have le: "length a2 \<le> length a1" "length b2 \<le> length b1"
    unfolding d by (rule after_digits_length)+
  show ?thesis
  proof (cases "at_nondigit a \<or> at_nondigit b")
    case True
    with n le show ?thesis by linarith
  next
    case False
    then have eq: "a1 = a" "b1 = b" using nd by (simp_all add: nondigit_run.simps [of a b])
    have shorter: "length (after_digits s) < length s" if "s \<noteq> []" "\<not> at_nondigit s" for s
      using that after_digits_length [of "tl s"] by (cases s) (auto simp: less_Suc_eq_le)
    show ?thesis
      using assms(1) False shorter [of a] shorter [of b] le unfolding d eq by auto
  qed
qed

termination verrevcmp
  by (relation "measure (\<lambda>(a, b). length a + length b)")
     (auto intro: verrevcmp_step [OF _ _ sym])

declare verrevcmp.simps [simp del]

definition deb_cmp :: "deb_version cmp" where
  "deb_cmp x y =
     then_with (ord_cmp (dv_epoch x) (dv_epoch y))
       (then_with (verrevcmp (dv_upstream x) (dv_upstream y))
          (verrevcmp (dv_revision x) (dv_revision y)))"

section \<open>The canonical key\<close>

text \<open>
  Debian Policy describes the order by alternating parts.  The key of a string lists them: the
  weights of a run of non-digits, a zero that ends the run, the number written by the run of
  digits, and the key of the rest.  Keys are compared element by element, and a key that has
  ended counts as zeros.
\<close>

abbreviation nondigits :: "string \<Rightarrow> string" where
  "nondigits s \<equiv> takeWhile (\<lambda>c. \<not> is_ascii_digit c) s"

abbreviation after_nondigits :: "string \<Rightarrow> string" where
  "after_nondigits s \<equiv> dropWhile (\<lambda>c. \<not> is_ascii_digit c) s"

abbreviation digits :: "string \<Rightarrow> string" where
  "digits s \<equiv> takeWhile is_ascii_digit s"

abbreviation weights :: "string \<Rightarrow> int list" where
  "weights s \<equiv> map (\<lambda>c. deb_order (Some c)) (nondigits s)"

function deb_key :: "string \<Rightarrow> int list" where
  "deb_key s =
     (if s = [] then []
      else weights s @ 0 # int (dec_val (digits (after_nondigits s)))
             # deb_key (after_digits (after_nondigits s)))"
  by pat_completeness auto

lemma rest_shorter: "s \<noteq> [] \<Longrightarrow> length (after_digits (after_nondigits s)) < length s"
proof -
  assume "s \<noteq> []"
  then obtain c t where s: "s = c # t" by (cases s) auto
  have "length (after_digits (after_nondigits t)) \<le> length t"
    by (meson after_digits_length length_dropWhile_le le_trans)
  moreover have "length (after_digits t) \<le> length t" by (rule after_digits_length)
  ultimately show ?thesis unfolding s by (auto simp: less_Suc_eq_le)
qed

termination deb_key
  by (relation "measure length") (auto intro: rest_shorter)

declare deb_key.simps [simp del]

abbreviation key_cmp :: "int list cmp" where
  "key_cmp \<equiv> cmp_pad 0 ord_cmp"

lemma deb_order_nondigit: "\<not> is_ascii_digit c \<Longrightarrow> deb_order (Some c) \<noteq> 0"
  by (auto simp: deb_order_def ascii_defs)

lemma deb_order_digit_end: "\<not> at_nondigit s \<Longrightarrow> deb_order (byte_at s) = 0"
  by (cases s) (auto simp: deb_order_def byte_at_def)

lemma weights_head: "\<exists>W'. weights s @ [0] = deb_order (byte_at s) # W'"
  by (cases s) (auto simp: deb_order_def byte_at_def)

lemma key_cmp_append_same [simp]: "key_cmp (W @ X) (W @ Y) = key_cmp X Y"
  by (induction W) (simp_all add: ord_cmp_def)

lemma key_cmp_heads:
  assumes "x \<noteq> y"
  shows "key_cmp (x # X) (y # Y) = ord_cmp x y"
  using assms by (cases x y rule: linorder_cases) (simp_all add: ord_cmp_def)

text \<open>What the loop over non-digits decides is what the weights decide.\<close>

lemma nondigit_run_Inl:
  "nondigit_run a b = Inl r \<Longrightarrow> key_cmp (weights a @ 0 # X) (weights b @ 0 # Y) = r"
proof (induction a b rule: nondigit_run.induct)
  case (1 a b)
  let ?ac = "deb_order (byte_at a)" and ?bc = "deb_order (byte_at b)"
  have nd: "at_nondigit a \<or> at_nondigit b"
    using "1.prems" by (auto simp: nondigit_run.simps [of a b] split: if_splits)
  obtain A where A: "weights a @ [0] = ?ac # A" using weights_head by blast
  obtain B where B: "weights b @ [0] = ?bc # B" using weights_head by blast
  have eq: "weights a @ 0 # X = ?ac # A @ X" "weights b @ 0 # Y = ?bc # B @ Y"
    using arg_cong [OF A, of "\<lambda>l. l @ X"] arg_cong [OF B, of "\<lambda>l. l @ Y"] by simp_all
  show ?case
  proof (cases "?ac = ?bc")
    case False
    then show ?thesis
      using "1.prems" nd key_cmp_heads [OF False] unfolding eq
      by (simp add: nondigit_run.simps [of a b] Let_def)
  next
    case True
    have "at_nondigit s \<Longrightarrow> deb_order (byte_at s) \<noteq> 0" for s
      using deb_order_nondigit by (cases s) (auto simp: byte_at_def)
    with True nd deb_order_digit_end have "at_nondigit a" "at_nondigit b" by metis+
    then obtain c d a' b' where ab: "a = c # a'" "b = d # b'"
      and "\<not> is_ascii_digit c" "\<not> is_ascii_digit d"
      by (cases a; cases b) auto
    moreover have "nondigit_run (tl a) (tl b) = Inl r"
      using "1.prems" nd True by (simp add: nondigit_run.simps [of a b] Let_def)
    then have "key_cmp (weights (tl a) @ 0 # X) (weights (tl b) @ 0 # Y) = r"
      using "1.IH" nd True by simp
    ultimately show ?thesis using True by (simp add: byte_at_def)
  qed
qed

lemma nondigit_run_Inr:
  "nondigit_run a b = Inr (a1, b1) \<Longrightarrow>
     weights a = weights b \<and> a1 = after_nondigits a \<and> b1 = after_nondigits b"
proof (induction a b rule: nondigit_run.induct)
  case (1 a b)
  show ?case
  proof (cases "at_nondigit a \<or> at_nondigit b")
    case False
    then have "a1 = a" "b1 = b"
      using "1.prems" by (simp_all add: nondigit_run.simps [of a b])
    with False show ?thesis by (cases a; cases b) auto
  next
    case True
    then have eq: "deb_order (byte_at a) = deb_order (byte_at b)"
      and rec: "nondigit_run (tl a) (tl b) = Inr (a1, b1)"
      using "1.prems" by (auto simp: nondigit_run.simps [of a b] Let_def split: if_splits)
    have "at_nondigit s \<Longrightarrow> deb_order (byte_at s) \<noteq> 0" for s
      using deb_order_nondigit by (cases s) (auto simp: byte_at_def)
    with eq True deb_order_digit_end have "at_nondigit a" "at_nondigit b" by metis+
    moreover have "weights (tl a) = weights (tl b) \<and> a1 = after_nondigits (tl a) \<and>
        b1 = after_nondigits (tl b)"
      using "1.IH" True eq rec by simp
    ultimately show ?thesis using eq by (cases a; cases b) (auto simp: byte_at_def)
  qed
qed

text \<open>What the loop over digits decides is the comparison of the numbers.\<close>

lemma digit_run_result:
  "digit_run a b fd = (a', b', fd') \<Longrightarrow>
     (if at_digit a' then Greater else if at_digit b' then Less else fd') =
     then_with (ord_cmp (length (digits a)) (length (digits b)))
       (then_with fd (str_cmp (digits a) (digits b)))"
proof (induction a b fd rule: digit_run.induct)
  case (1 c a d b fd)
  show ?case
  proof (cases "is_ascii_digit c \<and> is_ascii_digit d")
    case True
    have "(if at_digit a' then Greater else if at_digit b' then Less else fd') =
      then_with (ord_cmp (length (digits a)) (length (digits b)))
       (then_with (if fd = Equal then byte_cmp c d else fd) (str_cmp (digits a) (digits b)))"
      using "1.IH" "1.prems" True by simp
    moreover have "then_with (if fd = Equal then byte_cmp c d else fd) (str_cmp (digits a) (digits b))
        = then_with fd (str_cmp (digits (c # a)) (digits (d # b)))"
      using True by (cases fd) (simp_all add: str_cmp_def)
    moreover have "ord_cmp (length (digits (c # a))) (length (digits (d # b))) =
        ord_cmp (length (digits a)) (length (digits b))"
      using True by (simp add: ord_cmp_def)
    ultimately show ?thesis by simp
  next
    case False
    then show ?thesis
      using "1.prems" by (auto simp: ord_cmp_def str_cmp_def)
  qed
next
  case (2 b fd)
  then show ?case by (cases b) (auto simp: ord_cmp_def str_cmp_def)
next
  case (3 c a fd)
  then show ?case by (auto simp: ord_cmp_def str_cmp_def)
qed

lemma digits_strip_zeros: "digits (strip_zeros s) = strip_zeros (digits s)"
  by (induction s) auto

lemma digit_run_numbers:
  assumes "digit_run (strip_zeros a) (strip_zeros b) Equal = (a', b', fd)"
  shows "(if at_digit a' then Greater else if at_digit b' then Less else fd) =
    ord_cmp (int (dec_val (digits a))) (int (dec_val (digits b)))"
proof -
  have "(if at_digit a' then Greater else if at_digit b' then Less else fd) =
      ord_cmp (dec_val (strip_zeros (digits a))) (dec_val (strip_zeros (digits b)))"
    using digit_run_result [OF assms]
      dec_val_cmp [OF all_digits_strip_zeros all_digits_strip_zeros hd_strip_zeros hd_strip_zeros,
        of "digits a" "digits b"]
    by (simp add: digits_strip_zeros)
  then show ?thesis by (simp add: ord_cmp_def)
qed

lemma deb_key_unfold:
  "key_cmp (deb_key s) X = key_cmp (weights s @ 0 # int (dec_val (digits (after_nondigits s)))
      # deb_key (after_digits (after_nondigits s))) X"
proof (cases "s = []")
  case True
  have "key_cmp ([] @ replicate 2 0) X = key_cmp [] X"
    by (rule cmp_pad_append_replicate [OF rust_ord_ord_cmp])
  then show ?thesis using True by (simp add: deb_key.simps numeral_2_eq_2)
next
  case False
  then show ?thesis by (simp add: deb_key.simps [of s])
qed

interpretation keyc: rust_ord key_cmp
  by (intro ord_intros)

theorem verrevcmp_key: "verrevcmp a b = key_cmp (deb_key a) (deb_key b)"
proof (induction a b rule: verrevcmp.induct)
  case (1 a b)
  let ?ka = "weights a @ 0 # int (dec_val (digits (after_nondigits a)))
      # deb_key (after_digits (after_nondigits a))"
  let ?kb = "weights b @ 0 # int (dec_val (digits (after_nondigits b)))
      # deb_key (after_digits (after_nondigits b))"
  have key: "key_cmp (deb_key a) (deb_key b) = key_cmp ?ka ?kb"
    using deb_key_unfold [of a] deb_key_unfold [of b] keyc.cmp_sym by metis
  show ?case
  proof (cases "a = [] \<and> b = []")
    case True
    then show ?thesis by (simp add: verrevcmp.simps deb_key.simps)
  next
    case ne: False
    show ?thesis
    proof (cases "nondigit_run a b")
      case (Inl r)
      then have "verrevcmp a b = r" using ne by (auto simp: verrevcmp.simps [of a b])
      then show ?thesis using nondigit_run_Inl [OF Inl] key by simp
    next
      case (Inr p)
      then obtain a1 b1 where p: "nondigit_run a b = Inr (a1, b1)" by (cases p) auto
      note nd = nondigit_run_Inr [OF p]
      obtain a2 b2 fd where dr: "digit_run (strip_zeros a1) (strip_zeros b1) Equal = (a2, b2, fd)"
        by (cases "digit_run (strip_zeros a1) (strip_zeros b1) Equal") auto
      let ?n = "ord_cmp (int (dec_val (digits a1))) (int (dec_val (digits b1)))"
      have num: "(if at_digit a2 then Greater else if at_digit b2 then Less else fd) = ?n"
        by (rule digit_run_numbers [OF dr])
      have key': "key_cmp ?ka ?kb = then_with ?n
          (key_cmp (deb_key (after_digits a1)) (deb_key (after_digits b1)))"
        using nd by (simp add: ord_cmp_def)
      show ?thesis
      proof (cases "at_digit a2 \<or> at_digit b2 \<or> fd \<noteq> Equal")
        case True
        then show ?thesis
          using ne p dr num unfolding key key'
          by (auto simp: verrevcmp.simps [of a b] split: if_splits)
      next
        case False
        then have "a2 = after_digits a1" "b2 = after_digits b1"
          using digit_run_rest [OF dr] by simp_all
        moreover have "verrevcmp a2 b2 = key_cmp (deb_key a2) (deb_key b2)"
          using "1.IH" ne p dr False by simp
        ultimately show ?thesis
          using ne p dr num False unfolding key key'
          by (auto simp: verrevcmp.simps [of a b])
      qed
    qed
  qed
qed

section \<open>The order of Debian versions\<close>

interpretation verrev: rust_ord verrevcmp
proof -
  have eq: "verrevcmp = cmp_on deb_key key_cmp"
    by (simp add: fun_eq_iff cmp_on_def verrevcmp_key)
  show "rust_ord verrevcmp" unfolding eq by (intro ord_intros)
qed

interpretation deb: rust_ord deb_cmp
proof -
  have eq: "deb_cmp = cmp_then (cmp_on dv_epoch ord_cmp)
      (cmp_then (cmp_on dv_upstream verrevcmp) (cmp_on dv_revision verrevcmp))"
    by (simp add: fun_eq_iff deb_cmp_def cmp_then_def cmp_on_def)
  show "rust_ord deb_cmp"
    unfolding eq by (intro ord_intros verrev.rust_ord_axioms)
qed

lemma deb_key_tilde: "\<exists>X. deb_key (CHR 0x7E # t) = -1 # X"
  by (simp add: deb_key.simps [of "CHR 0x7E # t"] deb_order_def ascii_defs)

lemma deb_key_nonempty: "s \<noteq> [] \<Longrightarrow> deb_key s =
    weights s @ 0 # int (dec_val (digits (after_nondigits s)))
      # deb_key (after_digits (after_nondigits s))"
  by (simp add: deb_key.simps [of s])

text \<open>
  A tilde sorts before everything, even the end of the string: adding one anywhere at the end
  makes a version smaller (\<open>1.0~rc1 < 1.0\<close>).
\<close>

lemma key_cmp_tilde: "key_cmp (deb_key (s @ CHR 0x7E # t)) (deb_key s) = Less"
proof (induction s rule: deb_key.induct)
  case (1 s)
  let ?u = "CHR 0x7E # t" and ?v = "after_nondigits s"
  obtain X where X: "deb_key ?u = -1 # X" using deb_key_tilde by blast
  have tilde: "\<not> is_ascii_digit CHR 0x7E" "deb_order (Some CHR 0x7E) = -1"
    by (simp_all add: deb_order_def ascii_defs)
  have su: "s @ ?u \<noteq> []" by simp
  show ?case
  proof (cases "s = []")
    case True
    then show ?thesis using X by (simp add: deb_key.simps [of "[]"] then_with_eq_Less)
  next
    case ne: False
    note kb = deb_key_nonempty [OF ne]
    show ?thesis
    proof (cases "?v = []")
      case True
      then have w: "weights (s @ ?u) = weights s @ weights ?u"
        by (induction s) (auto split: if_splits)
      have "weights ?u = -1 # weights t" using tilde by simp
      then show ?thesis unfolding deb_key_nonempty [OF su] w kb
        by (simp only: append_assoc append_Cons key_cmp_append_same) (simp add: then_with_eq_Less)
    next
      case some: False
      have nd: "nondigits (s @ ?u) = nondigits s" "after_nondigits (s @ ?u) = ?v @ ?u"
        using some by (induction s) auto
      have dig: "digits (v @ ?u) = digits v" "after_digits (v @ ?u) = after_digits v @ ?u" for v
        using tilde(1) by (induction v) auto
      have ka: "deb_key (s @ ?u) = weights s @ 0 # int (dec_val (digits ?v))
          # deb_key (after_digits ?v @ ?u)"
        unfolding deb_key_nonempty [OF su] nd dig ..
      show ?thesis unfolding ka kb using "1.IH" ne by simp
    qed
  qed
qed

text \<open>What a successful parse promises about the parts.\<close>

lemma deb_parse_epoch:
  "deb_parse s = Some v \<Longrightarrow> dv_epoch v \<le> i32_max \<and> dv_upstream v \<noteq> [] \<and> dv_raw v = trim s"
  by (auto simp: deb_parse_def deb_epoch_def Let_def i32_max_def
      split: if_splits option.splits)

text \<open>The string a version keeps parses to the same version again.\<close>

lemma deb_parse_raw: "deb_parse s = Some v \<Longrightarrow> deb_parse (dv_raw v) = Some v"
  using deb_parse_epoch [of s v] by (simp add: deb_parse_def)

section \<open>What the module promises\<close>

text \<open>C29: dpkg's character-by-character loop, with its weights, its skipped zeros and its first
  difference, decides exactly as comparing canonical keys does: for each run of non-digits the
  weights, then the number, the shorter key padded with zeros.\<close>

theorem verrevcmp_is_key_order:
  "verrevcmp a b = cmp_pad 0 ord_cmp (deb_key a) (deb_key b)"
  by (rule verrevcmp_key)

text \<open>Whatever follows a tilde, a version with a tilde appended sorts below the version itself
  (\<open>1.0~rc1\<close> below \<open>1.0\<close>), at equal epoch and revision.\<close>

theorem deb_tilde_below:
  "deb_cmp (v\<lparr>dv_upstream := dv_upstream v @ CHR 0x7E # t\<rparr>) v = Less"
  by (simp add: deb_cmp_def verrevcmp_key key_cmp_tilde)

end
