(* ===== verification/Rpm_Version.thy ===== *)
theory Rpm_Version
  imports Rust_Str
begin

text \<open>
  rpm versions, \<^verbatim>\<open>crates/os/src/rpmver.rs\<close>: parsing \<open>[epoch:]version[-release]\<close>, the display
  form, and \<open>rpmvercmp\<close>.  The comparison is proved equal to comparing the two strings' lists of
  tokens, where the end of a list sorts between a tilde and everything else.
\<close>

section \<open>Definitions\<close>

record rpm_version =
  rv_epoch :: nat
  rv_epoch_written :: bool
  rv_version :: string
  rv_release :: "string option"
  rv_shown :: "string option"

definition rpm_parse_epoch :: "string \<Rightarrow> (nat \<times> bool \<times> string) option" where
  "rpm_parse_epoch s =
     (case split_once (CHR '':'') s of
        Some (e, rest) \<Rightarrow>
          (if e = [] then Some (0, True, rest)
           else map_option (\<lambda>n. (n, True, rest)) (parse_u64 e))
      | None \<Rightarrow> Some (0, False, s))"

definition rpm_parse :: "string \<Rightarrow> rpm_version option" where
  "rpm_parse s0 =
     (case rpm_parse_epoch (trim s0) of
        None \<Rightarrow> None
      | Some (epoch, epoch_written, rest) \<Rightarrow>
          (let (version, release) =
             (case rsplit_once (CHR ''-'') rest of
                Some (v, r) \<Rightarrow> (v, Some r)
              | None \<Rightarrow> (rest, None))
           in if version = [] \<or> release = Some [] then None
              else Some \<lparr>rv_epoch = epoch, rv_epoch_written = epoch_written,
                         rv_version = version, rv_release = release, rv_shown = None\<rparr>))"

definition rpm_parse_fix :: "string \<Rightarrow> rpm_version option" where
  "rpm_parse_fix s0 =
     (let s = trim s0 in
      case split_once_str ''.module'' s of
        Some (base, _) \<Rightarrow>
          (if CHR ''-'' \<in> set base
           then map_option (\<lambda>v. v\<lparr>rv_shown := Some s\<rparr>) (rpm_parse base)
           else rpm_parse s)
      | None \<Rightarrow> rpm_parse s)"

definition rpm_show :: "rpm_version \<Rightarrow> string" where
  "rpm_show v =
     (case rv_shown v of
        Some shown \<Rightarrow> shown
      | None \<Rightarrow>
          (if rv_epoch_written v then show_nat (rv_epoch v) @ '':'' else []) @ rv_version v
          @ (case rv_release v of None \<Rightarrow> [] | Some r \<Rightarrow> ''-'' @ r))"

definition rpm_sep :: "char \<Rightarrow> bool" where
  "rpm_sep c \<longleftrightarrow> \<not> is_ascii_alphanumeric c \<and> c \<noteq> CHR 0x7E \<and> c \<noteq> CHR 0x5E"

definition rpm_head :: "string \<Rightarrow> char option" where
  "rpm_head s = (case s of [] \<Rightarrow> None | c # _ \<Rightarrow> Some c)"

text \<open>The answer once one side has run out, the last \<open>match\<close> of the source.\<close>

definition rpm_ended :: "string \<Rightarrow> string \<Rightarrow> ordering" where
  "rpm_ended a b =
     (if a = [] \<and> b = [] then Equal else if a = [] then Less else Greater)"

abbreviation rpm_run :: "bool \<Rightarrow> char \<Rightarrow> bool" where
  "rpm_run numeric \<equiv> (if numeric then is_ascii_digit else is_ascii_alphabetic)"

text \<open>One run of digits or of letters against the other side's run of the same kind.\<close>

definition rpm_runs :: "bool \<Rightarrow> string \<Rightarrow> string \<Rightarrow> ordering" where
  "rpm_runs numeric ra rb =
     (let sa = (if numeric then strip_zeros ra else ra);
          sb = (if numeric then strip_zeros rb else rb)
      in if numeric \<and> length sa \<noteq> length sb then ord_cmp (length sa) (length sb)
         else str_cmp sa sb)"

function rpm_loop :: "string \<Rightarrow> string \<Rightarrow> ordering" where
  "rpm_loop a b =
     (if a = [] \<and> b = [] then rpm_ended a b
      else
        (let a1 = dropWhile rpm_sep a; b1 = dropWhile rpm_sep b;
             ca = rpm_head a1; cb = rpm_head b1
         in if ca = Some (CHR 0x7E) \<or> cb = Some (CHR 0x7E) then
              (if ca \<noteq> Some (CHR 0x7E) then Greater
               else if cb \<noteq> Some (CHR 0x7E) then Less
               else rpm_loop (tl a1) (tl b1))
            else if ca = Some (CHR 0x5E) \<or> cb = Some (CHR 0x5E) then
              (if ca = None then Less
               else if cb = None then Greater
               else if ca \<noteq> Some (CHR 0x5E) then Greater
               else if cb \<noteq> Some (CHR 0x5E) then Less
               else rpm_loop (tl a1) (tl b1))
            else (case (ca, cb) of
                (Some c, Some _) \<Rightarrow>
                  (let numeric = is_ascii_digit c;
                       ra = takeWhile (rpm_run numeric) a1; rb = takeWhile (rpm_run numeric) b1
                   in if rb = [] then (if numeric then Greater else Less)
                      else (case rpm_runs numeric ra rb of
                              Equal \<Rightarrow> rpm_loop (dropWhile (rpm_run numeric) a1)
                                               (dropWhile (rpm_run numeric) b1)
                            | r \<Rightarrow> r))
              | _ \<Rightarrow> rpm_ended a1 b1)))"
  by pat_completeness auto

lemma rpm_head_Some: "rpm_head s = Some c \<longleftrightarrow> (\<exists>t. s = c # t)"
  by (cases s) (auto simp: rpm_head_def)

lemma rpm_head_None: "rpm_head s = None \<longleftrightarrow> s = []"
  by (cases s) (auto simp: rpm_head_def)

lemma dropWhile_le: "length (dropWhile p (dropWhile q s)) \<le> length s"
  by (meson length_dropWhile_le le_trans)

lemma dropWhile_lt: "takeWhile p (dropWhile q s) \<noteq> [] \<Longrightarrow> length (dropWhile p (dropWhile q s)) < length s"
proof -
  assume "takeWhile p (dropWhile q s) \<noteq> []"
  then have "0 < length (takeWhile p (dropWhile q s))" by simp
  moreover have "length (takeWhile p (dropWhile q s)) + length (dropWhile p (dropWhile q s)) =
      length (dropWhile q s)"
    by (metis length_append takeWhile_dropWhile_id)
  moreover have "length (dropWhile q s) \<le> length s" by (rule length_dropWhile_le)
  ultimately show ?thesis by linarith
qed

lemma tl_dropWhile_lt:
  "rpm_head (dropWhile q s) = Some c \<Longrightarrow> length (dropWhile q s) - Suc 0 < length s"
  using length_dropWhile_le [of q s] by (auto simp: rpm_head_Some)

termination rpm_loop
  by (relation "measure (\<lambda>(a, b). length a + length b)")
     (auto intro!: add_less_mono add_le_less_mono dropWhile_lt dropWhile_le
        dest!: tl_dropWhile_lt)

declare rpm_loop.simps [simp del]

definition rpmvercmp :: "string \<Rightarrow> string \<Rightarrow> ordering" where
  "rpmvercmp a b = (if a = b then Equal else rpm_loop a b)"

definition rpm_cmp :: "rpm_version cmp" where
  "rpm_cmp x y =
     then_with (ord_cmp (rv_epoch x) (rv_epoch y))
       (then_with (rpmvercmp (rv_version x) (rv_version y))
          (case (rv_release x, rv_release y) of
             (Some a, Some b) \<Rightarrow> rpmvercmp a b
           | (a, b) \<Rightarrow> ord_cmp (a \<noteq> None) (b \<noteq> None)))"

section \<open>Tokens\<close>

text \<open>
  The list of tokens of a string: separators are skipped, a tilde and a caret are tokens of
  their own, a run of digits counts as the number it writes and a run of letters as its text.
  \<open>RpmEnd\<close> stands for the end of the list; it never occurs inside one.
\<close>

datatype rpm_tok = RpmTilde | RpmEnd | RpmCaret | RpmAlpha string | RpmNum nat

primrec rpm_rank :: "rpm_tok \<Rightarrow> nat" where
  "rpm_rank RpmTilde = 0"
| "rpm_rank RpmEnd = 1"
| "rpm_rank RpmCaret = 2"
| "rpm_rank (RpmAlpha _) = 3"
| "rpm_rank (RpmNum _) = 4"

definition rpm_text :: "rpm_tok \<Rightarrow> string" where
  "rpm_text t = (case t of RpmAlpha w \<Rightarrow> w | _ \<Rightarrow> [])"

definition rpm_num :: "rpm_tok \<Rightarrow> nat" where
  "rpm_num t = (case t of RpmNum n \<Rightarrow> n | _ \<Rightarrow> 0)"

definition rpm_tok_cmp :: "rpm_tok cmp" where
  "rpm_tok_cmp x y =
     then_with (ord_cmp (rpm_rank x) (rpm_rank y))
       (then_with (str_cmp (rpm_text x) (rpm_text y)) (ord_cmp (rpm_num x) (rpm_num y)))"

function rpm_key :: "string \<Rightarrow> rpm_tok list" where
  "rpm_key s =
     (case dropWhile rpm_sep s of
        [] \<Rightarrow> []
      | c # cs \<Rightarrow>
          (if c = CHR 0x7E then RpmTilde # rpm_key cs
           else if c = CHR 0x5E then RpmCaret # rpm_key cs
           else if is_ascii_digit c then
             RpmNum (dec_val (takeWhile is_ascii_digit (c # cs)))
               # rpm_key (dropWhile is_ascii_digit cs)
           else RpmAlpha (takeWhile is_ascii_alphabetic (c # cs))
               # rpm_key (dropWhile is_ascii_alphabetic cs)))"
  by pat_completeness auto

lemma dropWhile_Cons_lt: "dropWhile q s = c # cs \<Longrightarrow> length (dropWhile p cs) < length s"
  using length_dropWhile_le [of q s] length_dropWhile_le [of p cs] by simp

lemma dropWhile_Cons_lt': "dropWhile q s = c # cs \<Longrightarrow> length cs < length s"
  using length_dropWhile_le [of q s] by simp

termination rpm_key
  by (relation "measure length") (auto intro: dropWhile_Cons_lt dropWhile_Cons_lt')

declare rpm_key.simps [simp del]

interpretation rpmtok: rust_total_ord rpm_tok_cmp
proof -
  have eq: "rpm_tok_cmp = cmp_then (cmp_on rpm_rank ord_cmp)
      (cmp_then (cmp_on rpm_text str_cmp) (cmp_on rpm_num ord_cmp))"
    by (simp add: fun_eq_iff rpm_tok_cmp_def cmp_then_def cmp_on_def)
  have "rust_ord rpm_tok_cmp" unfolding eq by (intro ord_intros)
  moreover have "x = y" if "rpm_tok_cmp x y = Equal" for x y
    using that by (cases x; cases y) (auto simp: rpm_tok_cmp_def rpm_text_def rpm_num_def)
  ultimately show "rust_total_ord rpm_tok_cmp" by (rule rust_total_ordI)
qed

abbreviation rpm_key_cmp :: "rpm_tok list cmp" where
  "rpm_key_cmp \<equiv> cmp_pad RpmEnd rpm_tok_cmp"

interpretation rpmkey: rust_ord rpm_key_cmp
  by (intro ord_intros rpmtok.rust_ord_axioms)

lemma rpm_tok_cmp_rank: "rpm_rank x \<noteq> rpm_rank y \<Longrightarrow> rpm_tok_cmp x y = ord_cmp (rpm_rank x) (rpm_rank y)"
  by (simp add: rpm_tok_cmp_def)

lemma rpm_key_cmp_rank:
  "rpm_rank x \<noteq> rpm_rank y \<Longrightarrow> rpm_key_cmp (x # X) (y # Y) = ord_cmp (rpm_rank x) (rpm_rank y)"
  "rpm_rank x \<noteq> 1 \<Longrightarrow> rpm_key_cmp (x # X) [] = ord_cmp (rpm_rank x) 1"
  "rpm_rank y \<noteq> 1 \<Longrightarrow> rpm_key_cmp [] (y # Y) = ord_cmp 1 (rpm_rank y)"
  by (simp_all add: rpm_tok_cmp_rank)

lemma rpm_key_dropWhile: "rpm_key (dropWhile rpm_sep s) = rpm_key s"
  by (simp add: rpm_key.simps)

lemma rpm_key_Nil: "rpm_key [] = []"
  by (simp add: rpm_key.simps)

lemma rpm_sep_iff:
  "\<not> rpm_sep (CHR 0x7E)" "\<not> rpm_sep (CHR 0x5E)" "is_ascii_digit c \<Longrightarrow> \<not> rpm_sep c"
  "is_ascii_alphabetic c \<Longrightarrow> \<not> rpm_sep c"
  by (auto simp: rpm_sep_def is_ascii_alphanumeric_def)

lemma rpm_not_sep:
  "\<not> rpm_sep c \<Longrightarrow> c \<noteq> CHR 0x7E \<Longrightarrow> c \<noteq> CHR 0x5E \<Longrightarrow> is_ascii_digit c \<or> is_ascii_alphabetic c"
  by (auto simp: rpm_sep_def is_ascii_alphanumeric_def)

lemma tilde_caret_not_alnum:
  "\<not> is_ascii_digit (CHR 0x7E)" "\<not> is_ascii_digit (CHR 0x5E)"
  "\<not> is_ascii_alphabetic (CHR 0x7E)" "\<not> is_ascii_alphabetic (CHR 0x5E)"
  by (simp_all add: ascii_defs)

lemma rpm_key_tilde: "rpm_key (CHR 0x7E # s) = RpmTilde # rpm_key s"
  by (simp add: rpm_key.simps [of "CHR 0x7E # s"] rpm_sep_iff)

lemma rpm_key_caret: "rpm_key (CHR 0x5E # s) = RpmCaret # rpm_key s"
  by (simp add: rpm_key.simps [of "CHR 0x5E # s"] rpm_sep_iff)

lemma rpm_key_digit:
  "is_ascii_digit c \<Longrightarrow> rpm_key (c # s) =
     RpmNum (dec_val (takeWhile is_ascii_digit (c # s))) # rpm_key (dropWhile is_ascii_digit (c # s))"
  using tilde_caret_not_alnum by (auto simp: rpm_key.simps [of "c # s"] rpm_sep_iff)

lemma rpm_key_alpha:
  "is_ascii_alphabetic c \<Longrightarrow> rpm_key (c # s) =
     RpmAlpha (takeWhile is_ascii_alphabetic (c # s)) # rpm_key (dropWhile is_ascii_alphabetic (c # s))"
  using tilde_caret_not_alnum digit_not_alphabetic [of c]
  by (auto simp: rpm_key.simps [of "c # s"] rpm_sep_iff)

lemmas rpm_key_heads = rpm_key_tilde rpm_key_caret rpm_key_digit rpm_key_alpha rpm_key_Nil

text \<open>The rank of the first token says which kind of character the string continues with.\<close>

lemma rpm_key_first:
  assumes "\<not> rpm_sep c"
  shows "\<exists>t T. rpm_key (c # s) = t # T \<and> rpm_rank t =
    (if c = CHR 0x7E then 0 else if c = CHR 0x5E then 2 else if is_ascii_digit c then 4 else 3)"
  using assms rpm_not_sep [OF assms] tilde_caret_not_alnum
  by (auto simp: rpm_key_heads)

lemma rpm_runs_digits:
  assumes "all_digits ra" and "all_digits rb"
  shows "rpm_runs True ra rb = rpm_tok_cmp (RpmNum (dec_val ra)) (RpmNum (dec_val rb))"
proof -
  have "rpm_runs True ra rb = then_with (ord_cmp (length (strip_zeros ra)) (length (strip_zeros rb)))
      (str_cmp (strip_zeros ra) (strip_zeros rb))"
    by (simp add: rpm_runs_def Let_def)
  also have "\<dots> = ord_cmp (dec_val ra) (dec_val rb)"
    using dec_val_cmp [OF all_digits_strip_zeros all_digits_strip_zeros hd_strip_zeros
        hd_strip_zeros, OF assms] by simp
  finally show ?thesis by (simp add: rpm_tok_cmp_def rpm_text_def rpm_num_def)
qed

lemma rpm_runs_letters:
  "rpm_runs False ra rb = rpm_tok_cmp (RpmAlpha ra) (RpmAlpha rb)"
  by (simp add: rpm_runs_def rpm_tok_cmp_def rpm_text_def rpm_num_def)

lemma rpm_runs_step:
  assumes c: "is_ascii_alphanumeric c" and d: "\<not> rpm_sep d" "d \<noteq> CHR 0x7E" "d \<noteq> CHR 0x5E"
    and rec: "takeWhile (rpm_run (is_ascii_digit c)) (d # t) \<noteq> [] \<Longrightarrow>
      rpm_runs (is_ascii_digit c) (takeWhile (rpm_run (is_ascii_digit c)) (c # s))
        (takeWhile (rpm_run (is_ascii_digit c)) (d # t)) = Equal \<Longrightarrow>
      rpm_loop (dropWhile (rpm_run (is_ascii_digit c)) (c # s))
        (dropWhile (rpm_run (is_ascii_digit c)) (d # t)) =
      rpm_key_cmp (rpm_key (dropWhile (rpm_run (is_ascii_digit c)) (c # s)))
        (rpm_key (dropWhile (rpm_run (is_ascii_digit c)) (d # t)))"
  shows "(let numeric = is_ascii_digit c; ra = takeWhile (rpm_run numeric) (c # s);
              rb = takeWhile (rpm_run numeric) (d # t)
          in if rb = [] then (if numeric then Greater else Less)
             else (case rpm_runs numeric ra rb of
                     Equal \<Rightarrow> rpm_loop (dropWhile (rpm_run numeric) (c # s))
                                      (dropWhile (rpm_run numeric) (d # t))
                   | r \<Rightarrow> r)) = rpm_key_cmp (rpm_key (c # s)) (rpm_key (d # t))"
proof (cases "is_ascii_digit c")
  case num: True
  show ?thesis
  proof (cases "is_ascii_digit d")
    case True
    show ?thesis
      using num True rec rpm_runs_digits [of "takeWhile is_ascii_digit (c # s)" "takeWhile is_ascii_digit (d # t)"]
      unfolding rpm_key_digit [OF num] rpm_key_digit [OF True]
      by (simp add: Let_def split: ordering.split)
  next
    case False
    with d have "is_ascii_alphabetic d" using rpm_not_sep by blast
    then show ?thesis
      using num False by (simp add: rpm_key_heads rpm_key_cmp_rank Let_def ord_cmp_def del: cmp_pad.simps)
  qed
next
  case alpha: False
  with c have ac: "is_ascii_alphabetic c" by (simp add: is_ascii_alphanumeric_def)
  show ?thesis
  proof (cases "is_ascii_digit d")
    case True
    then have "\<not> is_ascii_alphabetic d" by (rule digit_not_alphabetic)
    with True alpha ac show ?thesis
      by (simp add: rpm_key_heads rpm_key_cmp_rank Let_def ord_cmp_def del: cmp_pad.simps)
  next
    case False
    with d have ad: "is_ascii_alphabetic d" using rpm_not_sep by blast
    show ?thesis
      using alpha ac ad rec rpm_runs_letters [of "takeWhile is_ascii_alphabetic (c # s)"
          "takeWhile is_ascii_alphabetic (d # t)"]
      unfolding rpm_key_alpha [OF ac] rpm_key_alpha [OF ad]
      by (simp add: Let_def split: ordering.split)
  qed
qed

lemma dropWhile_not_head: "dropWhile p s = c # t \<Longrightarrow> \<not> p c"
  by (metis hd_dropWhile list.distinct(1) list.sel(1))

theorem rpm_loop_key: "rpm_loop a b = rpm_key_cmp (rpm_key a) (rpm_key b)"
proof (induction a b rule: rpm_loop.induct)
  case (1 a b)
  let ?a = "dropWhile rpm_sep a" and ?b = "dropWhile rpm_sep b"
  have goal: "rpm_key_cmp (rpm_key a) (rpm_key b) = rpm_key_cmp (rpm_key ?a) (rpm_key ?b)"
    by (simp add: rpm_key_dropWhile)
  show ?case
  proof (cases "?a = [] \<or> ?b = []")
    case True
    show ?thesis
    proof (cases "?a = [] \<and> ?b = []")
      case True
      then show ?thesis unfolding goal
        by (simp add: rpm_loop.simps [of a b] rpm_head_def rpm_ended_def rpm_key_Nil del: dropWhile_eq_Nil_conv)
    next
      case False
      with True consider (l) c s where "?a = c # s" "?b = []" | (r) d t where "?a = []" "?b = d # t"
        by (metis neq_Nil_conv)
      then show ?thesis
      proof cases
        case l
        then have ns: "\<not> rpm_sep c" by (rule_tac dropWhile_not_head)
        obtain x X where "rpm_key (c # s) = x # X" and "rpm_rank x = (if c = CHR 0x7E then 0
            else if c = CHR 0x5E then 2 else if is_ascii_digit c then 4 else 3)"
          using rpm_key_first [OF ns] by blast
        moreover have "a \<noteq> []" using l by auto
        ultimately show ?thesis unfolding goal l
          by (simp add: rpm_loop.simps [of a b] l rpm_head_def rpm_ended_def rpm_key_Nil rpm_key_cmp_rank
              ord_cmp_def del: cmp_pad.simps)
      next
        case r
        then have ns: "\<not> rpm_sep d" by (rule_tac dropWhile_not_head)
        obtain x X where "rpm_key (d # t) = x # X" and "rpm_rank x = (if d = CHR 0x7E then 0
            else if d = CHR 0x5E then 2 else if is_ascii_digit d then 4 else 3)"
          using rpm_key_first [OF ns] by blast
        moreover have "b \<noteq> []" using r by auto
        ultimately show ?thesis unfolding goal r
          by (simp add: rpm_loop.simps [of a b] r rpm_head_def rpm_ended_def rpm_key_Nil rpm_key_cmp_rank
              ord_cmp_def del: cmp_pad.simps)
      qed
    qed
  next
    case False
    then obtain c s d t where ab: "?a = c # s" "?b = d # t" by (metis neq_Nil_conv)
    then have ns: "\<not> rpm_sep c" "\<not> rpm_sep d" by (auto dest: dropWhile_not_head)
    have ne: "a \<noteq> []" "b \<noteq> []" using ab by auto
    obtain x X where x: "rpm_key (c # s) = x # X" "rpm_rank x = (if c = CHR 0x7E then 0
        else if c = CHR 0x5E then 2 else if is_ascii_digit c then 4 else 3)"
      using rpm_key_first [OF ns(1)] by blast
    obtain y Y where y: "rpm_key (d # t) = y # Y" "rpm_rank y = (if d = CHR 0x7E then 0
        else if d = CHR 0x5E then 2 else if is_ascii_digit d then 4 else 3)"
      using rpm_key_first [OF ns(2)] by blast
    consider (same) "c = d" "c = CHR 0x7E \<or> c = CHR 0x5E"
      | (mark) "c \<noteq> d" "c = CHR 0x7E \<or> d = CHR 0x7E \<or> c = CHR 0x5E \<or> d = CHR 0x5E"
      | (runs) "c \<noteq> CHR 0x7E" "d \<noteq> CHR 0x7E" "c \<noteq> CHR 0x5E" "d \<noteq> CHR 0x5E"
      by blast
    then show ?thesis
    proof cases
      case same
      then have "rpm_loop s t = rpm_key_cmp (rpm_key s) (rpm_key t)"
        using "1.IH"(1) [of ?a ?b "rpm_head ?a" "rpm_head ?b"]
          "1.IH"(2) [of ?a ?b "rpm_head ?a" "rpm_head ?b"] ne ab
        by (auto simp: rpm_head_def)
      with same ne show ?thesis unfolding goal ab
        by (auto simp: rpm_loop.simps [of a b] ab rpm_head_def rpm_key_heads)
    next
      case mark
      then have "rpm_rank x \<noteq> rpm_rank y" using x y by (auto split: if_splits)
      then have "rpm_key_cmp (rpm_key (c # s)) (rpm_key (d # t)) = ord_cmp (rpm_rank x) (rpm_rank y)"
        using x(1) y(1) rpm_key_cmp_rank(1) by simp
      with mark ne x(2) y(2) show ?thesis unfolding goal ab
        by (auto simp: rpm_loop.simps [of a b] ab rpm_head_def ord_cmp_def split: if_splits)
    next
      case runs
      have c: "is_ascii_alphanumeric c"
        using rpm_not_sep [OF ns(1)] runs by (auto simp: is_ascii_alphanumeric_def)
      let ?p = "rpm_run (is_ascii_digit c)"
      have rec: "takeWhile ?p (d # t) \<noteq> [] \<Longrightarrow>
          rpm_runs (is_ascii_digit c) (takeWhile ?p (c # s)) (takeWhile ?p (d # t)) = Equal \<Longrightarrow>
          rpm_loop (dropWhile ?p (c # s)) (dropWhile ?p (d # t)) =
          rpm_key_cmp (rpm_key (dropWhile ?p (c # s))) (rpm_key (dropWhile ?p (d # t)))"
        using "1.IH"(3) ne ab runs by (simp add: rpm_head_def)
      show ?thesis using rpm_runs_step [OF c ns(2) runs(2,4) rec] ne runs unfolding goal ab
        by (simp add: rpm_loop.simps [of a b] ab rpm_head_def)
    qed
  qed
qed

section \<open>The order of rpm versions\<close>

lemma rpmvercmp_eq: "rpmvercmp a b = rpm_key_cmp (rpm_key a) (rpm_key b)"
  by (simp add: rpmvercmp_def rpm_loop_key)

interpretation rpmver: rust_ord rpmvercmp
proof -
  have eq: "rpmvercmp = cmp_on rpm_key rpm_key_cmp"
    by (simp add: fun_eq_iff cmp_on_def rpmvercmp_eq)
  show "rust_ord rpmvercmp" unfolding eq by (intro ord_intros rpmkey.rust_ord_axioms)
qed

lemma rpm_release_cmp:
  "(case (a, b) of (Some x, Some y) \<Rightarrow> rpmvercmp x y | (a, b) \<Rightarrow> ord_cmp (a \<noteq> None) (b \<noteq> None)) =
    cmp_opt rpmvercmp a b"
  by (cases a; cases b) (simp_all add: ord_cmp_def)

lemma rpm_cmp_eq:
  "rpm_cmp x y = then_with (ord_cmp (rv_epoch x) (rv_epoch y))
     (then_with (rpmvercmp (rv_version x) (rv_version y)) (cmp_opt rpmvercmp (rv_release x) (rv_release y)))"
  unfolding rpm_cmp_def rpm_release_cmp ..

interpretation rpm: rust_ord rpm_cmp
proof -
  have eq: "rpm_cmp = cmp_then (cmp_on rv_epoch ord_cmp)
      (cmp_then (cmp_on rv_version rpmvercmp) (cmp_on rv_release (cmp_opt rpmvercmp)))"
    by (simp add: fun_eq_iff rpm_cmp_eq cmp_then_def cmp_on_def)
  show "rust_ord rpm_cmp" unfolding eq by (intro ord_intros rpmver.rust_ord_axioms)
qed

text \<open>
  A tilde makes the version smaller and a caret makes it greater than the text before it,
  while anything appended after the caret's position without one is greater still.
\<close>

lemma rpm_key_nonsep_prefix:
  "\<not> is_ascii_alphanumeric c \<Longrightarrow> rpm_key (s @ c # t) = rpm_key s @ rpm_key (c # t)"
proof (induction s rule: rpm_key.induct)
  case (1 s)
  have na: "\<not> is_ascii_digit c" "\<not> is_ascii_alphabetic c"
    using "1.prems" by (simp_all add: is_ascii_alphanumeric_def)
  show ?case
  proof (cases "dropWhile rpm_sep s")
    case Nil
    then have "dropWhile rpm_sep (s @ c # t) = dropWhile rpm_sep (c # t)"
      by (induction s) (auto split: if_splits)
    then have "rpm_key (s @ c # t) = rpm_key (c # t)" by (metis rpm_key_dropWhile)
    moreover have "rpm_key s = []" by (simp add: rpm_key.simps [of s] Nil del: dropWhile_eq_Nil_conv)
    ultimately show ?thesis by simp
  next
    case (Cons d u)
    then have app: "dropWhile rpm_sep (s @ c # t) = d # u @ c # t"
      by (induction s) (auto split: if_splits)
    have run: "takeWhile p (v @ c # t) = takeWhile p v" "dropWhile p (v @ c # t) = dropWhile p v @ c # t"
      if "\<not> p c" for p and v :: string
      using that by (induction v) auto
    show ?thesis
      using Cons app run [of is_ascii_digit, OF na(1)] run [of is_ascii_alphabetic, OF na(2)]
        "1.IH" [OF Cons] "1.prems"
      by (simp add: rpm_key.simps [of s] rpm_key.simps [of "s @ c # t"])
  qed
qed

lemma rpm_key_cmp_append: "rpm_key_cmp (K @ X) K = rpm_key_cmp X []"
  by (induction K) simp_all

lemma rpmvercmp_tilde: "rpmvercmp (s @ CHR 0x7E # t) s = Less"
proof -
  have "\<not> is_ascii_alphanumeric (CHR 0x7E)" by (simp add: ascii_defs)
  then show ?thesis
    by (simp add: rpmvercmp_eq rpm_key_nonsep_prefix rpm_key_cmp_append rpm_key_tilde
        rpm_tok_cmp_rank then_with_eq_Less)
qed

lemma rpmvercmp_caret: "rpmvercmp (s @ CHR 0x5E # t) s = Greater"
proof -
  have "\<not> is_ascii_alphanumeric (CHR 0x5E)" by (simp add: ascii_defs)
  then show ?thesis
    by (simp add: rpmvercmp_eq rpm_key_nonsep_prefix rpm_key_cmp_append rpm_key_caret
        rpm_tok_cmp_rank then_with_eq_Greater)
qed

text \<open>A module build's bound compares as its own version and release, shown in full.\<close>

lemma rpm_parse_fix_module:
  assumes "split_once_str ''.module'' (trim s) = Some (base, rest)" and "CHR ''-'' \<in> set base"
    and "rpm_parse_fix s = Some v"
  shows "\<exists>w. rpm_parse base = Some w \<and> rpm_cmp v w = Equal \<and> rpm_show v = trim s"
proof -
  obtain w where w: "rpm_parse base = Some w" and v: "v = w\<lparr>rv_shown := Some (trim s)\<rparr>"
    using assms by (auto simp: rpm_parse_fix_def Let_def)
  have "rpm_cmp v w = Equal"
    unfolding v
    by (simp add: rpm_cmp_eq rust_ord.cmp_refl [OF rust_ord_cmp_opt [OF rpmver.rust_ord_axioms]])
  moreover have "rpm_show v = trim s" unfolding v by (simp add: rpm_show_def)
  ultimately show ?thesis using w by blast
qed

section \<open>What the module promises\<close>

text \<open>C32: rpm's segment loop decides exactly as comparing the two token lists does, and a tilde
  makes a version older while a caret makes it newer than the text before it.\<close>

theorem rpmvercmp_is_token_order:
  "rpmvercmp a b = rpm_key_cmp (rpm_key a) (rpm_key b) \<and>
   rpmvercmp (s @ CHR 0x7E # t) s = Less \<and> rpmvercmp (s @ CHR 0x5E # t) s = Greater"
  by (simp only: rpmvercmp_eq [symmetric] rpmvercmp_tilde rpmvercmp_caret)

end
