(* ===== verification/Apk_Version.thy ===== *)
theory Apk_Version
  imports Rust_Str
begin

text \<open>
  Alpine package versions (\<^verbatim>\<open>src/crates/os/src/apkver.rs\<close>): a cursor that reads a version as a stream
  of typed values, the check that a version is valid, and the comparison that reads two streams in
  step.  On valid versions the comparison is the lexicographic order of the streams, so it is a
  lawful \<^verbatim>\<open>Ord\<close> there.  Values are \<open>int\<close>: a run of 18 digits is refused, so none leaves \<^verbatim>\<open>i64\<close>.
\<close>

section \<open>The cursor\<close>

datatype apk_tok = TInvalid | TDigitOrZero | TDigit | TLetter | TSuffix | TSuffixNo | TRevisionNo | TEnd

primrec tok_rank :: "apk_tok \<Rightarrow> nat" where
  "tok_rank TInvalid = 0"
| "tok_rank TDigitOrZero = 1"
| "tok_rank TDigit = 2"
| "tok_rank TLetter = 3"
| "tok_rank TSuffix = 4"
| "tok_rank TSuffixNo = 5"
| "tok_rank TRevisionNo = 6"
| "tok_rank TEnd = 7"

lemma tok_rank_inj [simp]: "tok_rank s = tok_rank t \<longleftrightarrow> s = t"
  by (cases s; cases t) simp_all

definition pre_suffixes :: "string list" where
  "pre_suffixes = [''alpha'', ''beta'', ''pre'', ''rc'']"

definition post_suffixes :: "string list" where
  "post_suffixes = [''cvs'', ''svn'', ''git'', ''hg'', ''p'']"

record apk_cursor =
  cu_rest :: string
  cu_tok :: apk_tok

definition cursor_new :: "string \<Rightarrow> apk_cursor" where
  "cursor_new s = \<lparr>cu_rest = s, cu_tok = TDigit\<rparr>"

text \<open>The token type that the separator at the cursor opens, and what is left after it.\<close>

definition next_type :: "apk_tok \<Rightarrow> string \<Rightarrow> apk_tok \<times> string" where
  "next_type tok rest =
     (case rest of
        [] \<Rightarrow> (TEnd, rest)
      | c # cs \<Rightarrow>
          if byte c = 0 then (TEnd, rest)
          else if (tok = TDigit \<or> tok = TDigitOrZero) \<and> is_ascii_lowercase c then (TLetter, rest)
          else if tok = TLetter \<and> is_ascii_digit c then (TDigit, rest)
          else if tok = TSuffix \<and> is_ascii_digit c then (TSuffixNo, rest)
          else if c = CHR ''.'' then (TDigitOrZero, cs)
          else if c = CHR ''_'' then (TSuffix, cs)
          else if c = CHR ''-'' \<and> (case cs of [] \<Rightarrow> False | d # _ \<Rightarrow> d = CHR ''r'') then (TRevisionNo, tl cs)
          else (TInvalid, cs))"

definition step_back_ok :: "apk_tok \<Rightarrow> apk_tok \<Rightarrow> bool" where
  "step_back_ok next_tok tok \<longleftrightarrow>
     (next_tok, tok) \<in> {(TDigitOrZero, TDigit), (TSuffix, TSuffixNo), (TDigit, TLetter)}"

definition advance_type :: "apk_cursor \<Rightarrow> apk_cursor" where
  "advance_type c =
     (case next_type (cu_tok c) (cu_rest c) of
        (t, rest) \<Rightarrow>
          \<lparr>cu_rest = rest,
           cu_tok = (if tok_rank t < tok_rank (cu_tok c) \<and> \<not> step_back_ok t (cu_tok c) then TInvalid else t)\<rparr>)"

text \<open>The digits at the front, unless there are 18 or more.\<close>

definition apk_digits :: "string \<Rightarrow> (nat \<times> int) option" where
  "apk_digits rest =
     (let ds = takeWhile is_ascii_digit rest
      in if 18 \<le> length ds then None else Some (length ds, int (dec_val ds)))"

definition suffix_index :: "string list \<Rightarrow> string \<Rightarrow> nat option" where
  "suffix_index suffixes rest = List.find (\<lambda>i. starts_with (suffixes ! i) rest) [0..<length suffixes]"

text \<open>What a token reads: how many bytes, its value, and the type it forces on the next one.\<close>

definition read_token :: "apk_cursor \<Rightarrow> (nat \<times> int \<times> apk_tok option) option" where
  "read_token c =
     (let rest = cu_rest c;
          number = map_option (\<lambda>(n, v). (n, v, None)) (apk_digits rest)
      in case cu_tok c of
           TDigitOrZero \<Rightarrow>
             (case rest of
                z # zs \<Rightarrow>
                  if z = CHR ''0''
                  then (let extra = min (length (takeWhile (\<lambda>d. d = CHR ''0'') zs)) (length rest - 1)
                        in Some (extra, - int extra, Some TDigit))
                  else number
              | [] \<Rightarrow> number)
         | TDigit \<Rightarrow> number
         | TSuffixNo \<Rightarrow> number
         | TRevisionNo \<Rightarrow> number
         | TLetter \<Rightarrow> Some (1, (case rest of [] \<Rightarrow> 0 | l # _ \<Rightarrow> int (byte l)), None)
         | TSuffix \<Rightarrow>
             (case suffix_index pre_suffixes rest of
                Some i \<Rightarrow> Some (length (pre_suffixes ! i), int i - int (length pre_suffixes), None)
              | None \<Rightarrow>
                  (case suffix_index post_suffixes rest of
                     Some i \<Rightarrow> Some (length (post_suffixes ! i), int i, None)
                   | None \<Rightarrow> None))
         | TInvalid \<Rightarrow> None
         | TEnd \<Rightarrow> None)"

definition next_value :: "apk_cursor \<Rightarrow> int \<times> apk_cursor" where
  "next_value c =
     (if cu_rest c = [] then (0, c\<lparr>cu_tok := TEnd\<rparr>)
      else (case read_token c of
              None \<Rightarrow> (-1, c\<lparr>cu_tok := TInvalid\<rparr>)
            | Some (len, value, forced) \<Rightarrow>
                let c' = c\<lparr>cu_rest := drop len (cu_rest c)\<rparr>
                in (value,
                    if cu_rest c' = [] then c'\<lparr>cu_tok := TEnd\<rparr>
                    else (case forced of Some t \<Rightarrow> c'\<lparr>cu_tok := t\<rparr> | None \<Rightarrow> advance_type c'))))"

definition stopped :: "apk_cursor \<Rightarrow> bool" where
  "stopped c \<longleftrightarrow> cu_tok c = TEnd \<or> cu_tok c = TInvalid"

section \<open>Every step makes progress\<close>

text \<open>A token reads something, or hands over to a type that will.\<close>

definition cursor_left :: "apk_cursor \<Rightarrow> nat" where
  "cursor_left c = 3 * length (cu_rest c) +
     (case cu_tok c of TDigitOrZero \<Rightarrow> 3 | TDigit \<Rightarrow> 2 | TEnd \<Rightarrow> 0 | TInvalid \<Rightarrow> 0 | _ \<Rightarrow> 1)"

lemma cursor_left_consumed:
  "length (cu_rest d) < length (cu_rest c) \<Longrightarrow> \<not> stopped c \<Longrightarrow> cursor_left d < cursor_left c"
  by (cases "cu_tok c"; cases "cu_tok d") (simp_all add: cursor_left_def stopped_def)

lemma next_type_progress:
  "next_type tok rest = (t, rest') \<Longrightarrow>
   length rest' < length rest \<or> t = TEnd \<or>
   (rest' = rest \<and> (t = TLetter \<and> tok \<in> {TDigit, TDigitOrZero} \<or> t = TDigit \<and> tok = TLetter \<or>
      t = TSuffixNo \<and> tok = TSuffix))"
  by (auto simp: next_type_def split: list.splits if_splits)

lemma advance_rest: "length (cu_rest (advance_type c)) \<le> length (cu_rest c)"
  by (auto simp: advance_type_def next_type_def split: list.splits prod.splits if_splits)

lemma advance_progress:
  assumes "cu_tok c \<in> {TDigitOrZero, TDigit, TSuffixNo, TRevisionNo}"
  shows "cursor_left (advance_type c) < cursor_left c"
proof -
  obtain t rest where n: "next_type (cu_tok c) (cu_rest c) = (t, rest)" by (cases "next_type (cu_tok c) (cu_rest c)")
  have "\<not> stopped c" using assms by (auto simp: stopped_def)
  moreover have "cu_rest (advance_type c) = rest" by (simp add: advance_type_def n)
  moreover have "t = TEnd \<Longrightarrow> length rest \<le> length (cu_rest c)" using advance_rest [of c] by (simp add: advance_type_def n)
  ultimately show ?thesis
    using next_type_progress [OF n] assms cursor_left_consumed [of "advance_type c" c]
    by (auto simp: advance_type_def n cursor_left_def step_back_ok_def)
qed

lemma read_token_reads:
  "read_token c = Some (len, v, forced) \<Longrightarrow> cu_rest c \<noteq> [] \<Longrightarrow>
     0 < len \<or> (forced = Some TDigit \<and> cu_tok c = TDigitOrZero) \<or>
     (forced = None \<and> cu_tok c \<in> {TDigitOrZero, TDigit, TSuffixNo, TRevisionNo})"
  by (auto simp: read_token_def Let_def suffix_index_def pre_suffixes_def post_suffixes_def upt_rec
      split: apk_tok.splits list.splits if_splits option.splits)

lemma next_value_progress:
  assumes "\<not> stopped c"
  shows "cursor_left (snd (next_value c)) < cursor_left c"
proof (cases "cu_rest c = [] \<or> read_token c = None")
  case True
  then show ?thesis using assms
    by (cases "cu_tok c") (auto simp: next_value_def cursor_left_def stopped_def)
next
  case False
  then obtain len v forced where r: "read_token c = Some (len, v, forced)" and ne: "cu_rest c \<noteq> []" by auto
  let ?c = "c\<lparr>cu_rest := drop len (cu_rest c)\<rparr>"
  have step: "snd (next_value c) = (if cu_rest ?c = [] then ?c\<lparr>cu_tok := TEnd\<rparr>
      else case forced of Some t \<Rightarrow> ?c\<lparr>cu_tok := t\<rparr> | None \<Rightarrow> advance_type ?c)"
    using ne r by (simp add: next_value_def Let_def)
  show ?thesis
  proof (cases "0 < len")
    case True
    have "length (cu_rest (snd (next_value c))) \<le> length (cu_rest ?c)"
      unfolding step using advance_rest [of ?c] by (auto split: option.split)
    also have "\<dots> < length (cu_rest c)" using True ne by (cases "cu_rest c") simp_all
    finally show ?thesis by (rule cursor_left_consumed [OF _ assms])
  next
    case False
    then have "?c = c" by simp
    then show ?thesis
      using read_token_reads [OF r ne] False ne advance_progress [of c] unfolding step
      by (auto simp: cursor_left_def)
  qed
qed

section \<open>Validity and comparison\<close>

function run_out :: "apk_cursor \<Rightarrow> apk_tok" where
  "run_out c = (if stopped c then cu_tok c else run_out (snd (next_value c)))"
  by pat_completeness auto

termination run_out
  by (relation "measure cursor_left") (simp_all add: next_value_progress)

declare run_out.simps [simp del]

definition apk_valid :: "string \<Rightarrow> bool" where
  "apk_valid s \<longleftrightarrow> run_out (cursor_new s) = TEnd"

text \<open>The loop of the comparison: both cursors and the last values read.\<close>

function compare_loop :: "apk_cursor \<Rightarrow> apk_cursor \<Rightarrow> int \<Rightarrow> int \<Rightarrow> apk_cursor \<times> apk_cursor \<times> int \<times> int" where
  "compare_loop a b av bv =
     (if cu_tok a = cu_tok b \<and> \<not> stopped a \<and> av = bv
      then compare_loop (snd (next_value a)) (snd (next_value b)) (fst (next_value a)) (fst (next_value b))
      else (a, b, av, bv))"
  by pat_completeness auto

termination compare_loop
  by (relation "measure (\<lambda>(a, b, av, bv). cursor_left a)") (simp_all add: next_value_progress)

declare compare_loop.simps [simp del]

definition compare_end :: "apk_cursor \<times> apk_cursor \<times> int \<times> int \<Rightarrow> ordering" where
  "compare_end st =
     (case st of (a, b, av, bv) \<Rightarrow>
        if av \<noteq> bv then ord_cmp av bv
        else if cu_tok a = cu_tok b then Equal
        else if cu_tok a = TSuffix \<and> fst (next_value a) < 0 then Less
        else if cu_tok b = TSuffix \<and> fst (next_value b) < 0 then Greater
        else ord_cmp (tok_rank (cu_tok b)) (tok_rank (cu_tok a)))"

definition apk_compare :: "string cmp" where
  "apk_compare a b = compare_end (compare_loop (cursor_new a) (cursor_new b) 0 0)"

record apk_version =
  av_raw :: string

definition apk_parse :: "string \<Rightarrow> apk_version option" where
  "apk_parse s = (let t = trim s in if t \<noteq> [] \<and> apk_valid t then Some \<lparr>av_raw = t\<rparr> else None)"

definition apk_cmp :: "apk_version cmp" where
  "apk_cmp v w = apk_compare (av_raw v) (av_raw w)"

section \<open>The order\<close>

text \<open>
  What a version says, token by token: each value with how far the version goes on after it.  A
  pre-release suffix ranks below the end of the version, everything else above it.
\<close>

definition cont_rank :: "apk_cursor \<Rightarrow> nat" where
  "cont_rank c = (if cu_tok c = TSuffix \<and> fst (next_value c) < 0 then 0 else 8 - tok_rank (cu_tok c))"

function apk_stream :: "apk_cursor \<Rightarrow> (int \<times> nat) list" where
  "apk_stream c =
     (if stopped c then []
      else (fst (next_value c), cont_rank (snd (next_value c))) # apk_stream (snd (next_value c)))"
  by pat_completeness auto

termination apk_stream
  by (relation "measure cursor_left") (simp_all add: next_value_progress)

declare apk_stream.simps [simp del]

abbreviation token_cmp :: "(int \<times> nat) cmp" where
  "token_cmp \<equiv> cmp_pair ord_cmp ord_cmp"

lemma run_out_step: "run_out c = TEnd \<Longrightarrow> \<not> stopped c \<Longrightarrow> run_out (snd (next_value c)) = TEnd"
  by (subst (asm) run_out.simps) simp

lemma run_out_tok: "run_out c = TEnd \<Longrightarrow> cu_tok c \<noteq> TInvalid"
  by (subst (asm) run_out.simps) (auto simp: stopped_def split: if_splits)

lemma cont_rank_differ:
  assumes "cu_tok a \<noteq> cu_tok b" and "cu_tok a \<noteq> TInvalid" "cu_tok b \<noteq> TInvalid"
  shows "compare_end (a, b, v, v) = ord_cmp (cont_rank a) (cont_rank b) \<and> cont_rank a \<noteq> cont_rank b"
  using assms unfolding compare_end_def cont_rank_def prod.case
  by (cases "cu_tok a"; cases "cu_tok b") (simp_all add: ord_cmp_def)

lemma cont_rank_same:
  assumes "cu_tok a = cu_tok b" and "\<not> stopped a"
  shows "then_with (ord_cmp (cont_rank a) (cont_rank b)) (cmp_list token_cmp (apk_stream a) (apk_stream b)) =
    cmp_list token_cmp (apk_stream a) (apk_stream b)"
proof -
  have "\<not> stopped b" using assms by (simp add: stopped_def)
  then have eq: "cmp_list token_cmp (apk_stream a) (apk_stream b) =
      then_with (token_cmp (fst (next_value a), cont_rank (snd (next_value a))) (fst (next_value b), cont_rank (snd (next_value b))))
        (cmp_list token_cmp (apk_stream (snd (next_value a))) (apk_stream (snd (next_value b))))"
    using assms(2) by (subst (1 2) apk_stream.simps) simp
  show ?thesis
    unfolding eq using assms(1) by (auto simp: cont_rank_def ord_cmp_def cmp_pair_def)
qed

lemma compare_is_stream:
  "cu_tok a = cu_tok b \<Longrightarrow> run_out a = TEnd \<Longrightarrow> run_out b = TEnd \<Longrightarrow>
   compare_end (compare_loop a b v v) = cmp_list token_cmp (apk_stream a) (apk_stream b)"
proof (induction "cursor_left a" arbitrary: a b v rule: less_induct)
  case less
  show ?case
  proof (cases "stopped a")
    case True
    then have "stopped b" using less.prems(1) by (simp add: stopped_def)
    then show ?thesis
      using True less.prems(1) by (simp add: compare_loop.simps [of a b] apk_stream.simps compare_end_def)
  next
    case False
    then have nb: "\<not> stopped b" using less.prems(1) by (simp add: stopped_def)
    let ?a = "snd (next_value a)" and ?b = "snd (next_value b)"
    let ?v = "fst (next_value a)" and ?w = "fst (next_value b)"
    have go: "compare_loop a b v v = compare_loop ?a ?b ?v ?w"
      using less.prems(1) False by (simp add: compare_loop.simps [of a b])
    have streams: "cmp_list token_cmp (apk_stream a) (apk_stream b) =
        then_with (ord_cmp ?v ?w) (then_with (ord_cmp (cont_rank ?a) (cont_rank ?b))
          (cmp_list token_cmp (apk_stream ?a) (apk_stream ?b)))"
      using False nb by (subst (1 2) apk_stream.simps) (simp add: cmp_pair_def then_with_assoc)
    note ends = run_out_step [OF less.prems(2) False] run_out_step [OF less.prems(3) nb]
    show ?thesis
    proof (cases "?v = ?w \<and> cu_tok ?a = cu_tok ?b")
      case True
      then have same: "?v = ?w" and tok: "cu_tok ?a = cu_tok ?b" by simp_all
      have IH: "compare_end (compare_loop ?a ?b ?v ?v) = cmp_list token_cmp (apk_stream ?a) (apk_stream ?b)"
        by (rule less.hyps [OF next_value_progress [OF False] tok ends])
      have "then_with (ord_cmp (cont_rank ?a) (cont_rank ?b)) (cmp_list token_cmp (apk_stream ?a) (apk_stream ?b)) =
          cmp_list token_cmp (apk_stream ?a) (apk_stream ?b)"
      proof (cases "stopped ?a")
        case True
        then have "cu_tok ?a = TEnd" "cu_tok ?b = TEnd" using tok run_out_tok [OF ends(1)] by (auto simp: stopped_def)
        then show ?thesis by (simp add: cont_rank_def)
      next
        case False
        then show ?thesis by (rule cont_rank_same [OF tok])
      qed
      then show ?thesis using IH same by (simp add: go streams)
    next
      case differ: False
      then have stop: "compare_loop ?a ?b ?v ?w = (?a, ?b, ?v, ?w)"
        by (subst compare_loop.simps) auto
      show ?thesis
      proof (cases "?v = ?w")
        case True
        then have "cu_tok ?a \<noteq> cu_tok ?b" using differ by simp
        from cont_rank_differ [OF this run_out_tok [OF ends(1)] run_out_tok [OF ends(2)], of ?v]
        show ?thesis using True stop by (simp add: go streams ord_cmp_def)
      next
        case False
        then show ?thesis using stop by (simp add: go streams compare_end_def ord_cmp_def)
      qed
    qed
  qed
qed

definition apk_key :: "string \<Rightarrow> (int \<times> nat) list" where
  "apk_key s = apk_stream (cursor_new s)"

text \<open>C30: on versions that parse, apk's comparison is the lexicographic order of what the versions
  say, token by token, so it is total and transitive there, and two versions are equal exactly
  when they say the same.\<close>

theorem apk_cmp_is_key_order:
  assumes "apk_parse s = Some v" and "apk_parse t = Some w"
  shows "apk_cmp v w = cmp_list (cmp_pair ord_cmp ord_cmp) (apk_key (av_raw v)) (apk_key (av_raw w))"
proof -
  have "run_out (cursor_new (av_raw v)) = TEnd" "run_out (cursor_new (av_raw w)) = TEnd"
    using assms by (auto simp: apk_parse_def apk_valid_def Let_def split: if_splits)
  then show ?thesis
    unfolding apk_cmp_def apk_compare_def apk_key_def
    by (intro compare_is_stream) (simp_all add: cursor_new_def)
qed

theorem apk_cmp_is_key_order_witness:
  "apk_cmp \<lparr>av_raw = ''1.0_rc1''\<rparr> \<lparr>av_raw = ''1.0''\<rparr> =
    cmp_list (cmp_pair ord_cmp ord_cmp) (apk_key ''1.0_rc1'') (apk_key ''1.0'')"
proof -
  have "apk_parse ''1.0_rc1'' = Some \<lparr>av_raw = ''1.0_rc1''\<rparr>" "apk_parse ''1.0'' = Some \<lparr>av_raw = ''1.0''\<rparr>"
    by code_simp+
  from apk_cmp_is_key_order [OF this] show ?thesis by simp
qed

lemma apk_examples:
  "map (\<lambda>(a, b). apk_compare a b)
     [(''1.0_rc1'', ''1.0''), (''1.0'', ''1.0-r0''), (''1.05'', ''1.5''), (''1.00'', ''1.0''), (''1.0a'', ''1.0.1''),
      (''4.4.3_p1-r0'', ''4.4.3-r9'')] =
   [Less, Less, Less, Less, Less, Greater]"
  by code_simp

end
