(* ===== verification/Version_Text.thy ===== *)
theory Version_Text
  imports Rust_Str
begin

text \<open>
  What the version modules of the ecosystem crates share: the interface of the third-party
  \<^verbatim>\<open>semver\<close> crate as a record of its functions (every definition that calls the crate takes this
  record), the scan of a version into runs of digits and letters, and \<open>sanitize\<close>, which each
  crate keeps a copy of.
\<close>

section \<open>The semver crate\<close>

text \<open>
  The type of versions and the type of requirements are parameters.  A requirement is read only
  through its public list of comparators, \<open>matches\<close> and its text.  \<open>sv_with_pre\<close> and
  \<open>sv_with_build\<close> are \<^verbatim>\<open>Prerelease::new\<close> and \<^verbatim>\<open>BuildMetadata::new\<close> followed by the assignment of
  the field, and answer \<open>None\<close> where the constructor fails.
\<close>

datatype req_op = OpExact | OpGreater | OpGreaterEq | OpLess | OpLessEq | OpTilde | OpCaret | OpWildcard

record comparator =
  cm_op :: req_op
  cm_major :: nat
  cm_minor :: "nat option"
  cm_patch :: "nat option"

record ('v, 'r) semver_lib =
  sv_parse :: "string \<Rightarrow> 'v option"
  sv_new :: "nat \<Rightarrow> nat \<Rightarrow> nat \<Rightarrow> 'v"
  sv_with_pre :: "string \<Rightarrow> 'v \<Rightarrow> 'v option"
  sv_with_build :: "string \<Rightarrow> 'v \<Rightarrow> 'v option"
  sv_cmp :: "'v cmp"
  sv_major :: "'v \<Rightarrow> nat"
  sv_minor :: "'v \<Rightarrow> nat"
  sv_show :: "'v \<Rightarrow> string"
  req_parse :: "string \<Rightarrow> 'r option"
  req_matches :: "'r \<Rightarrow> 'v \<Rightarrow> bool"
  req_show :: "'r \<Rightarrow> string"
  req_comparators :: "'r \<Rightarrow> comparator list"

text \<open>Setting a field when the constructor accepts the text, leaving the version alone otherwise.\<close>

definition set_pre :: "('v, 'r) semver_lib \<Rightarrow> string \<Rightarrow> 'v \<Rightarrow> 'v" where
  "set_pre lib p v = (case sv_with_pre lib p v of None \<Rightarrow> v | Some w \<Rightarrow> w)"

definition set_build :: "('v, 'r) semver_lib \<Rightarrow> string \<Rightarrow> 'v \<Rightarrow> 'v" where
  "set_build lib b v = (case sv_with_build lib b v of None \<Rightarrow> v | Some w \<Rightarrow> w)"

text \<open>\<^verbatim>\<open>slice.get(i).copied().unwrap_or(0)\<close>.\<close>

definition nth_or0 :: "nat list \<Rightarrow> nat \<Rightarrow> nat" where
  "nth_or0 ns i = (if i < length ns then ns ! i else 0)"

text \<open>A loop that pushes one result per element and leaves the function at the first failure.\<close>

fun traverse :: "('a \<Rightarrow> 'b option) \<Rightarrow> 'a list \<Rightarrow> 'b list option" where
  "traverse f [] = Some []"
| "traverse f (x # xs) =
     (case f x of None \<Rightarrow> None | Some y \<Rightarrow> map_option ((#) y) (traverse f xs))"

lemma traverse_Some: "traverse f xs = Some ys \<longleftrightarrow> list_all2 (\<lambda>x y. f x = Some y) xs ys"
proof (induction xs arbitrary: ys)
  case (Cons x xs)
  then show ?case by (cases ys) (auto split: option.splits)
qed auto

lemma traverse_length: "traverse f xs = Some ys \<Longrightarrow> length ys = length xs"
  by (auto simp: traverse_Some dest: list_all2_lengthD)

text \<open>A version component or identifier made of digits only, read at 64 bits.\<close>

definition parse_component :: "string \<Rightarrow> nat option" where
  "parse_component part =
     (if part = [] \<or> \<not> list_all is_ascii_digit part then None else parse_u64 part)"

section \<open>Runs of digits and letters\<close>

text \<open>
  The scan of \<^verbatim>\<open>scan_segments\<close> and \<^verbatim>\<open>tokenize\<close>: a maximal run of digits becomes a number (or the
  whole scan fails when it does not fit 64 bits), a maximal run of letters a word, and any other
  byte separates.
\<close>

function scan_runs :: "(nat \<Rightarrow> 'a) \<Rightarrow> (string \<Rightarrow> 'a) \<Rightarrow> string \<Rightarrow> 'a list option" where
  "scan_runs num word [] = Some []"
| "scan_runs num word (c # cs) =
     (if is_ascii_digit c then
        (case parse_u64 (takeWhile is_ascii_digit (c # cs)) of
           None \<Rightarrow> None
         | Some n \<Rightarrow> map_option ((#) (num n)) (scan_runs num word (dropWhile is_ascii_digit cs)))
      else if is_ascii_alphabetic c then
        map_option ((#) (word (takeWhile is_ascii_alphabetic (c # cs))))
          (scan_runs num word (dropWhile is_ascii_alphabetic cs))
      else scan_runs num word cs)"
  by pat_completeness auto
termination
  by (relation "measure (\<lambda>(_, _, s). length s)") (auto simp: less_Suc_eq_le length_dropWhile_le)

text \<open>Every scanned number fits 64 bits and every scanned word is letters only.\<close>

lemma scan_runs_elems:
  "scan_runs num word s = Some ts \<Longrightarrow> t \<in> set ts \<Longrightarrow>
     (\<exists>n < 2 ^ 64. t = num n) \<or> (\<exists>w. w \<noteq> [] \<and> list_all is_ascii_alphabetic w \<and> t = word w)"
proof (induction num word s arbitrary: ts rule: scan_runs.induct)
  case (2 num word c cs)
  have letters: "list_all is_ascii_alphabetic (takeWhile is_ascii_alphabetic s)" for s
    by (auto simp: list_all_iff dest: set_takeWhileD)
  consider (d) "is_ascii_digit c" | (a) "\<not> is_ascii_digit c" "is_ascii_alphabetic c"
    | (s) "\<not> is_ascii_digit c" "\<not> is_ascii_alphabetic c" by blast
  then show ?case
  proof cases
    case d
    then obtain n us where "parse_u64 (takeWhile is_ascii_digit (c # cs)) = Some n"
      and "scan_runs num word (dropWhile is_ascii_digit cs) = Some us" and "ts = num n # us"
      using "2.prems"(1) by (auto split: option.splits)
    moreover from this(1) have "n < 2 ^ 64" by (rule parse_uint_bound)
    ultimately show ?thesis using "2.IH"(1) [OF d] "2.prems"(2) by (cases "t = num n") auto
  next
    case a
    then obtain us where "scan_runs num word (dropWhile is_ascii_alphabetic cs) = Some us"
      and "ts = word (takeWhile is_ascii_alphabetic (c # cs)) # us"
      using "2.prems"(1) by auto
    then show ?thesis using "2.IH"(2) [OF a] "2.prems"(2) a letters [of cs] by auto
  next
    case s
    then show ?thesis using "2.IH"(3) "2.prems" by simp
  qed
qed simp

section \<open>\<open>sanitize\<close>\<close>

fun sanitize_loop :: "bool \<Rightarrow> string \<Rightarrow> string" where
  "sanitize_loop prev_dash [] = []"
| "sanitize_loop prev_dash (c # cs) =
     (if is_ascii_alphanumeric c then c # sanitize_loop False cs
      else if \<not> prev_dash then CHR ''-'' # sanitize_loop True cs
      else sanitize_loop prev_dash cs)"

abbreviation trim_dashes :: "string \<Rightarrow> string" where
  "trim_dashes s \<equiv> rev (dropWhile (\<lambda>c. c = CHR ''-'') (rev (dropWhile (\<lambda>c. c = CHR ''-'') s)))"

definition sanitize :: "string \<Rightarrow> string" where
  "sanitize s = trim_dashes (sanitize_loop False s)"

text \<open>The result is made of the characters SemVer allows in an identifier, with no dash at an end.\<close>

lemma set_sanitize_loop:
  "set (sanitize_loop d s) \<subseteq> {c. is_ascii_alphanumeric c \<or> c = CHR ''-''}"
  by (induction d s rule: sanitize_loop.induct) auto

lemma set_trim_dashes: "set (trim_dashes s) \<subseteq> set s"
  by (metis (no_types, lifting) set_dropWhileD set_rev subsetI)

lemma sanitize_chars:
  "c \<in> set (sanitize s) \<Longrightarrow> is_ascii_alphanumeric c \<or> c = CHR ''-''"
  using set_trim_dashes [of "sanitize_loop False s"] set_sanitize_loop [of False s]
  unfolding sanitize_def by blast

lemma sanitize_last: "sanitize s \<noteq> [] \<Longrightarrow> last (sanitize s) \<noteq> CHR ''-''"
  using hd_dropWhile [of "\<lambda>c. c = CHR ''-''"] unfolding sanitize_def
  by (metis (no_types, lifting) last_rev rev_is_Nil_conv)

text \<open>Dropping trailing zeros, shared by the numeric cores.\<close>

definition drop_last_while :: "('a \<Rightarrow> bool) \<Rightarrow> 'a list \<Rightarrow> 'a list" where
  "drop_last_while p xs = rev (dropWhile p (rev xs))"

lemma drop_last_while_split:
  "\<exists>ys. xs = drop_last_while p xs @ ys \<and> list_all p ys"
proof -
  have "xs = drop_last_while p xs @ rev (takeWhile p (rev xs))"
    unfolding drop_last_while_def by (metis rev_append rev_rev_ident takeWhile_dropWhile_id)
  moreover have "list_all p (rev (takeWhile p (rev xs)))"
    by (auto simp: list_all_iff dest: set_takeWhileD)
  ultimately show ?thesis by blast
qed

lemma drop_last_while_last:
  "drop_last_while p xs \<noteq> [] \<Longrightarrow> \<not> p (last (drop_last_while p xs))"
  using hd_dropWhile [of p "rev xs"] by (simp add: drop_last_while_def last_rev)

lemma set_drop_last_while: "set (drop_last_while p xs) \<subseteq> set xs"
  by (auto simp: drop_last_while_def dest: set_dropWhileD)

lemma dropWhile_replicate: "p d \<Longrightarrow> dropWhile p (replicate n d @ ys) = dropWhile p ys"
  by (induction n) simp_all

lemma drop_last_while_replicate:
  "p d \<Longrightarrow> drop_last_while p (xs @ replicate n d) = drop_last_while p xs"
  by (simp add: drop_last_while_def dropWhile_replicate)

lemma drop_last_while_Cons: "\<not> p x \<Longrightarrow> \<exists>zs. drop_last_while p (x # xs) = x # zs"
proof (cases "list_all p xs")
  case True
  assume "\<not> p x"
  have "dropWhile p (rev xs @ [x]) = dropWhile p [x]"
    using True by (intro dropWhile_append2) (simp add: list_all_iff)
  then have "drop_last_while p (x # xs) = x # []"
    using \<open>\<not> p x\<close> by (simp add: drop_last_while_def)
  then show ?thesis by blast
next
  case False
  then have "dropWhile p (rev xs @ [x]) = dropWhile p (rev xs) @ [x]"
    by (auto simp: dropWhile_append list_all_iff)
  then show ?thesis by (simp add: drop_last_while_def)
qed

text \<open>Padding with the element that was dropped gives the same comparison.\<close>

lemma cmp_pad_drop_last:
  assumes "rust_ord c"
  shows "cmp_pad d c (drop_last_while (\<lambda>x. x = d) xs) ys = cmp_pad d c xs ys"
proof -
  obtain zs where xs: "xs = drop_last_while (\<lambda>x. x = d) xs @ zs" and "list_all (\<lambda>x. x = d) zs"
    using drop_last_while_split by blast
  then have "zs = replicate (length zs) d"
    by (simp add: list_all_iff replicate_eqI)
  then show ?thesis
    using cmp_pad_append_replicate [OF assms, of d "drop_last_while (\<lambda>x. x = d) xs" "length zs" ys] xs
    by metis
qed

section \<open>An instance of the interface\<close>

text \<open>
  A small lawful instance of the record, used where a statement about the model is applied at
  concrete versions: releases of three numbers, and requirements that are a lower bound.
\<close>

type_synonym triple = "nat \<times> nat \<times> nat"

definition show_triple :: "triple \<Rightarrow> string" where
  "show_triple v = (case v of (a, b, c) \<Rightarrow> join_with ''.'' [show_nat a, show_nat b, show_nat c])"

definition parse_triple :: "string \<Rightarrow> triple option" where
  "parse_triple s =
     (case traverse parse_component (split_at CHR ''.'' s) of
        Some [a, b, c] \<Rightarrow> Some (a, b, c)
      | _ \<Rightarrow> None)"

definition triple_cmp :: "triple cmp" where
  "triple_cmp = cmp_pair ord_cmp (cmp_pair ord_cmp ord_cmp)"

definition triple_lib :: "(triple, triple) semver_lib" where
  "triple_lib =
     \<lparr>sv_parse = parse_triple, sv_new = \<lambda>a b c. (a, b, c), sv_with_pre = \<lambda>_ _. None,
      sv_with_build = \<lambda>_ _. None, sv_cmp = triple_cmp, sv_major = fst, sv_minor = \<lambda>v. fst (snd v),
      sv_show = show_triple,
      req_parse = \<lambda>s. Option.bind (strip_prefix ''>='' s) parse_triple,
      req_matches = \<lambda>r v. triple_cmp r v \<noteq> Greater,
      req_show = \<lambda>r. ''>='' @ show_triple r,
      req_comparators = \<lambda>(a, b, c).
        [\<lparr>cm_op = OpGreaterEq, cm_major = a, cm_minor = Some b, cm_patch = Some c\<rparr>]\<rparr>"

interpretation triple: rust_total_ord triple_cmp
  unfolding triple_cmp_def by (intro ord_intros rust_total_ord_ord_cmp)

end
