(* ===== verification/Gem_Version.thy ===== *)
theory Gem_Version
  imports Version_Text
begin

text \<open>
  RubyGems versions, \<^verbatim>\<open>crates/rubygems/src/version.rs\<close>: \<open>Gem::Version\<close> parsing, the canonical
  segments, their order, and the SemVer form shown in findings.
\<close>

section \<open>Definitions\<close>

datatype gem_segment = GNum nat | GStr string

record gem_version =
  gv_raw :: string
  gv_canonical :: "gem_segment list"
  gv_segments :: "gem_segment list"

primrec is_gstr :: "gem_segment \<Rightarrow> bool" where
  "is_gstr (GNum n) = False"
| "is_gstr (GStr s) = True"

definition gem_scan_segments :: "string \<Rightarrow> gem_segment list option" where
  "gem_scan_segments s = scan_runs GNum GStr s"

definition gem_drop_trailing_zeros :: "gem_segment list \<Rightarrow> gem_segment list" where
  "gem_drop_trailing_zeros segs = drop_last_while (\<lambda>s. s = GNum 0) segs"

definition gem_canonicalize :: "gem_segment list \<Rightarrow> gem_segment list" where
  "gem_canonicalize segments =
     (let numeric = takeWhile (\<lambda>s. \<not> is_gstr s) segments;
          tail = dropWhile (\<lambda>s. \<not> is_gstr s) segments
      in gem_drop_trailing_zeros numeric @ gem_drop_trailing_zeros tail)"

definition gem_parse :: "string \<Rightarrow> gem_version option" where
  "gem_parse raw =
     (let version_part = hd (split_at (CHR ''-'') (trim raw)) in
      if version_part = [] then None
      else if \<not> is_ascii_digit (hd version_part) then None
      else if \<not> list_all (\<lambda>c. is_ascii_alphanumeric c \<or> c = CHR ''.'') version_part then None
      else (case gem_scan_segments version_part of
              None \<Rightarrow> None
            | Some segments \<Rightarrow>
                Some \<lparr>gv_raw = version_part, gv_canonical = gem_canonicalize segments,
                      gv_segments = segments\<rparr>))"

fun gem_segment_cmp :: "gem_segment cmp" where
  "gem_segment_cmp (GNum x) (GNum y) = ord_cmp x y"
| "gem_segment_cmp (GStr x) (GStr y) = str_cmp x y"
| "gem_segment_cmp (GStr _) (GNum _) = Less"
| "gem_segment_cmp (GNum _) (GStr _) = Greater"

definition gem_cmp :: "gem_version cmp" where
  "gem_cmp v w = cmp_pad (GNum 0) gem_segment_cmp (gv_canonical v) (gv_canonical w)"

definition gem_eq :: "gem_version \<Rightarrow> gem_version \<Rightarrow> bool" where
  "gem_eq v w \<longleftrightarrow> gv_canonical v = gv_canonical w"

definition gem_is_prerelease :: "gem_version \<Rightarrow> bool" where
  "gem_is_prerelease v \<longleftrightarrow> list_ex is_gstr (gv_segments v)"

primrec gem_segment_text :: "gem_segment \<Rightarrow> string" where
  "gem_segment_text (GNum n) = show_nat n"
| "gem_segment_text (GStr s) = s"

primrec gem_segment_num :: "gem_segment \<Rightarrow> nat" where
  "gem_segment_num (GNum n) = n"
| "gem_segment_num (GStr s) = 0"

definition gem_to_semver :: "('v, 'r) semver_lib \<Rightarrow> gem_version \<Rightarrow> 'v" where
  "gem_to_semver lib v =
     (case sv_parse lib (gv_raw v) of
        Some sv \<Rightarrow> sv
      | None \<Rightarrow>
          (let nums = map gem_segment_num (takeWhile (\<lambda>s. \<not> is_gstr s) (gv_segments v));
               tail = filter (\<lambda>s. s \<noteq> [])
                 (map (\<lambda>s. sanitize (gem_segment_text s)) (dropWhile (\<lambda>s. \<not> is_gstr s) (gv_segments v)));
               sv = sv_new lib (nth_or0 nums 0) (nth_or0 nums 1) (nth_or0 nums 2);
               sv1 = (if tail \<noteq> [] then set_pre lib (join_with ''.'' tail) sv else sv)
           in if length nums > 3
              then set_build lib (join_with ''.'' (map show_nat (drop 3 nums))) sv1 else sv1))"

section \<open>Properties\<close>

interpretation gemseg: rust_total_ord gem_segment_cmp
proof -
  have eq: "gem_segment_cmp = cmp_then (cmp_on (\<lambda>s. \<not> is_gstr s) ord_cmp)
      (cmp_then (cmp_on gem_segment_num ord_cmp)
        (cmp_on (\<lambda>s. case s of GNum n \<Rightarrow> [] | GStr w \<Rightarrow> w) str_cmp))" (is "_ = ?c")
  proof (intro ext)
    show "gem_segment_cmp x y = ?c x y" for x y
      by (cases x; cases y) (simp_all add: cmp_then_def cmp_on_def ord_cmp_def)
  qed
  have "rust_ord gem_segment_cmp" unfolding eq by (intro ord_intros)
  moreover have "x = y" if "gem_segment_cmp x y = Equal" for x y
    using that by (cases x; cases y) simp_all
  ultimately show "rust_total_ord gem_segment_cmp" by (rule rust_total_ordI)
qed

interpretation gem: rust_ord gem_cmp
proof -
  have eq: "gem_cmp = cmp_on gv_canonical (cmp_pad (GNum 0) gem_segment_cmp)"
    by (simp add: fun_eq_iff gem_cmp_def cmp_on_def)
  show "rust_ord gem_cmp" unfolding eq by (intro ord_intros gemseg.rust_ord_axioms)
qed

text \<open>The canonical list never ends in a zero, so padding cannot hide a difference.\<close>

lemma gem_canonicalize_last:
  "gem_canonicalize segs \<noteq> [] \<Longrightarrow> last (gem_canonicalize segs) \<noteq> GNum 0"
  using drop_last_while_last [of "\<lambda>s. s = GNum 0"]
  by (auto simp: gem_canonicalize_def gem_drop_trailing_zeros_def Let_def last_append)

lemma gem_parse_canonical:
  "gem_parse s = Some v \<Longrightarrow> gv_canonical v = gem_canonicalize (gv_segments v)"
  by (auto simp: gem_parse_def Let_def split: if_splits option.splits)

lemma cmp_pad_canonical_eq:
  assumes "rust_total_ord c" and "cmp_pad d c xs ys = Equal"
    and "xs = [] \<or> last xs \<noteq> d" and "ys = [] \<or> last ys \<noteq> d"
  shows "xs = ys"
proof -
  have all: "(if i < length xs then xs ! i else d) = (if i < length ys then ys ! i else d)"
    if "i < max (length xs) (length ys)" for i
    using assms(2) that unfolding cmp_pad_Equal_iff [OF assms(1)] by blast
  have le: "length us \<le> length vs"
    if eq: "\<And>i. i < max (length us) (length vs) \<Longrightarrow>
        (if i < length us then us ! i else d) = (if i < length vs then vs ! i else d)"
      and last: "us = [] \<or> last us \<noteq> d" for us vs :: "'a list"
  proof (rule ccontr)
    assume "\<not> length us \<le> length vs"
    then have "length vs \<le> length us - 1" "length us - 1 < length us" "us \<noteq> []" by auto
    then have "us ! (length us - 1) = d" using eq [of "length us - 1"] by auto
    then show False using last \<open>us \<noteq> []\<close> by (simp add: last_conv_nth)
  qed
  have "length xs \<le> length ys" by (rule le [OF all assms(3)])
  moreover have "length ys \<le> length xs"
    by (rule le [OF _ assms(4)]) (use all in \<open>simp add: max.commute\<close>)
  ultimately have len: "length xs = length ys" by simp
  show ?thesis
    by (rule nth_equalityI [OF len]) (use all len in \<open>auto split: if_splits\<close>)
qed

text \<open>\<^verbatim>\<open>PartialEq\<close> and \<^verbatim>\<open>Ord\<close> agree on every version the parser makes.\<close>

lemma gem_eq_cmp:
  assumes "gem_parse s = Some v" and "gem_parse t = Some w"
  shows "gem_eq v w \<longleftrightarrow> gem_cmp v w = Equal"
proof
  assume "gem_eq v w"
  then show "gem_cmp v w = Equal"
    by (simp add: gem_eq_def gem_cmp_def cmp_pad_refl [OF gemseg.rust_ord_axioms])
next
  assume "gem_cmp v w = Equal"
  then show "gem_eq v w"
    unfolding gem_eq_def gem_cmp_def
    using gem_canonicalize_last gem_parse_canonical [OF assms(1)] gem_parse_canonical [OF assms(2)]
    by (intro cmp_pad_canonical_eq [OF gemseg.rust_total_ord_axioms]) auto
qed

text \<open>
  A prerelease sorts below the release it leads up to, however many zeros the release's numeric
  part is written with: the numeric part is the release's, and the first word decides.
\<close>

lemma gem_drop_trailing_zeros_append:
  "gem_drop_trailing_zeros (xs @ replicate n (GNum 0)) = gem_drop_trailing_zeros xs"
  by (simp add: gem_drop_trailing_zeros_def drop_last_while_replicate)

lemma gem_canonical_numeric:
  "list_all (\<lambda>s. \<not> is_gstr s) nums \<Longrightarrow> gem_canonicalize nums = gem_drop_trailing_zeros nums"
proof -
  assume all: "list_all (\<lambda>s. \<not> is_gstr s) nums"
  then have "takeWhile (\<lambda>s. \<not> is_gstr s) nums = nums" "dropWhile (\<lambda>s. \<not> is_gstr s) nums = []"
    by (simp_all add: list_all_iff)
  then show ?thesis
    by (simp add: gem_canonicalize_def gem_drop_trailing_zeros_def drop_last_while_def
        del: takeWhile_eq_all_conv dropWhile_eq_Nil_conv)
qed

lemma gem_canonical_prerelease:
  assumes "list_all (\<lambda>s. \<not> is_gstr s) nums"
  shows "\<exists>T. gem_canonicalize (nums @ GStr w # tail) = gem_drop_trailing_zeros nums @ GStr w # T"
proof -
  have "takeWhile (\<lambda>s. \<not> is_gstr s) (nums @ GStr w # tail) = nums"
    "dropWhile (\<lambda>s. \<not> is_gstr s) (nums @ GStr w # tail) = GStr w # tail"
    using assms by (induction nums) auto
  moreover have "\<exists>T. gem_drop_trailing_zeros (GStr w # tail) = GStr w # T"
    unfolding gem_drop_trailing_zeros_def by (rule drop_last_while_Cons) simp
  ultimately show ?thesis by (auto simp: gem_canonicalize_def)
qed

lemma gem_prerelease_below_release:
  assumes "list_all (\<lambda>s. \<not> is_gstr s) nums"
    and "gv_canonical v = gem_canonicalize (nums @ GStr w # tail)"
    and "gv_canonical r = gem_canonicalize (nums @ replicate n (GNum 0))"
  shows "gem_cmp v r = Less"
proof -
  have "list_all (\<lambda>s. \<not> is_gstr s) (nums @ replicate n (GNum 0))"
    using assms(1) by (auto simp: list_all_iff)
  then have r: "gv_canonical r = gem_drop_trailing_zeros nums"
    using assms(3) by (simp add: gem_canonical_numeric gem_drop_trailing_zeros_append)
  obtain T where v: "gv_canonical v = gem_drop_trailing_zeros nums @ GStr w # T"
    using gem_canonical_prerelease [OF assms(1)] assms(2) by metis
  have "cmp_pad (GNum 0) gem_segment_cmp (K @ GStr w # T) K = Less" for K
    by (induction K) simp_all
  then show ?thesis unfolding gem_cmp_def v r .
qed

end
