(* ===== verification/Nuget_Version.thy ===== *)
theory Nuget_Version
  imports Version_Text
begin

text \<open>
  NuGet versions, \<^verbatim>\<open>crates/nuget/src/version.rs\<close>: a numeric core of up to four components,
  case-insensitive prerelease labels, build metadata dropped.
\<close>

section \<open>Definitions\<close>

datatype nuget_pre_id = PNum nat | PStr string

record nuget_version =
  nv_raw :: string
  nv_nums :: "nat list"
  nv_pre :: "nuget_pre_id list"

fun nuget_id_cmp :: "nuget_pre_id cmp" where
  "nuget_id_cmp (PNum x) (PNum y) = ord_cmp x y"
| "nuget_id_cmp (PStr x) (PStr y) = str_cmp x y"
| "nuget_id_cmp (PNum _) (PStr _) = Less"
| "nuget_id_cmp (PStr _) (PNum _) = Greater"

definition nuget_compare :: "nuget_version cmp" where
  "nuget_compare v w =
     (let core = cmp_pad 0 ord_cmp (nv_nums v) (nv_nums w) in
      if core \<noteq> Equal then core
      else if nv_pre v = [] \<and> nv_pre w = [] then Equal
      else if nv_pre v = [] then Greater
      else if nv_pre w = [] then Less
      else cmp_list nuget_id_cmp (nv_pre v) (nv_pre w))"

definition nuget_trim_nums :: "nat list \<Rightarrow> nat list" where
  "nuget_trim_nums nums =
     (case nums of [] \<Rightarrow> [] | n # ns \<Rightarrow> n # drop_last_while (\<lambda>x. x = 0) ns)"

definition nuget_parse_id :: "string \<Rightarrow> nuget_pre_id option" where
  "nuget_parse_id s =
     (if s = [] then None
      else if list_all is_ascii_digit s then map_option PNum (parse_u64 s)
      else Some (PStr (to_ascii_lowercase s)))"

definition parse_nuget_version :: "string \<Rightarrow> nuget_version option" where
  "parse_nuget_version raw =
     (let trimmed = trim raw in
      if trimmed = [] then None
      else
        (let no_build = hd (split_at (CHR ''+'') trimmed);
             (core, pre) = (case split_once (CHR ''-'') no_build of
                              Some (c, p) \<Rightarrow> (c, Some p)
                            | None \<Rightarrow> (no_build, None))
         in case traverse parse_component (split_at (CHR ''.'') core) of
              None \<Rightarrow> None
            | Some nums \<Rightarrow>
                if nums = [] \<or> length nums > 4 then None
                else
                  (case (case pre of
                           None \<Rightarrow> Some []
                         | Some p \<Rightarrow> traverse nuget_parse_id (split_at (CHR ''.'') p)) of
                     None \<Rightarrow> None
                   | Some ids \<Rightarrow>
                       Some \<lparr>nv_raw = no_build, nv_nums = nuget_trim_nums nums, nv_pre = ids\<rparr>)))"

definition nuget_is_prerelease :: "nuget_version \<Rightarrow> bool" where
  "nuget_is_prerelease v \<longleftrightarrow> nv_pre v \<noteq> []"

primrec nuget_id_text :: "nuget_pre_id \<Rightarrow> string" where
  "nuget_id_text (PNum n) = show_nat n"
| "nuget_id_text (PStr s) = s"

definition nuget_to_semver :: "('v, 'r) semver_lib \<Rightarrow> nuget_version \<Rightarrow> 'v" where
  "nuget_to_semver lib v =
     (case sv_parse lib (nv_raw v) of
        Some sv \<Rightarrow> sv
      | None \<Rightarrow>
          (let nums = nv_nums v;
               sv = sv_new lib (nth_or0 nums 0) (nth_or0 nums 1) (nth_or0 nums 2);
               tail = filter (\<lambda>s. s \<noteq> []) (map (\<lambda>i. sanitize (nuget_id_text i)) (nv_pre v));
               sv1 = (if tail \<noteq> [] then set_pre lib (join_with ''.'' tail) sv else sv)
           in if length nums > 3 then set_build lib (show_nat (nums ! 3)) sv1 else sv1))"

section \<open>Properties\<close>

interpretation nugetid: rust_total_ord nuget_id_cmp
proof -
  have eq: "nuget_id_cmp = cmp_then
      (cmp_on (\<lambda>i. case i of PNum _ \<Rightarrow> (0::nat) | PStr _ \<Rightarrow> 1) ord_cmp)
      (cmp_then (cmp_on (\<lambda>i. case i of PNum n \<Rightarrow> n | PStr _ \<Rightarrow> 0) ord_cmp)
        (cmp_on (\<lambda>i. case i of PNum _ \<Rightarrow> [] | PStr w \<Rightarrow> w) str_cmp))" (is "_ = ?c")
  proof (intro ext)
    show "nuget_id_cmp x y = ?c x y" for x y
      by (cases x; cases y) (simp_all add: cmp_then_def cmp_on_def ord_cmp_def)
  qed
  have "rust_ord nuget_id_cmp" unfolding eq by (intro ord_intros)
  moreover have "x = y" if "nuget_id_cmp x y = Equal" for x y
    using that by (cases x; cases y) simp_all
  ultimately show "rust_total_ord nuget_id_cmp" by (rule rust_total_ordI)
qed

text \<open>The order as a lexicographic combination: core, then release above prerelease, then labels.\<close>

lemma nuget_compare_eq:
  "nuget_compare = cmp_then (cmp_on nv_nums (cmp_pad 0 ord_cmp))
     (cmp_then (cmp_on (\<lambda>v. nv_pre v = []) ord_cmp)
       (cmp_on nv_pre (cmp_list nuget_id_cmp)))"
  by (intro ext) (auto simp: nuget_compare_def cmp_then_def cmp_on_def Let_def ord_cmp_def)

interpretation nuget: rust_ord nuget_compare
  unfolding nuget_compare_eq by (intro ord_intros nugetid.rust_ord_axioms)

text \<open>A prerelease sorts below its release, whatever its labels.\<close>

lemma nuget_prerelease_below:
  assumes "cmp_pad 0 ord_cmp (nv_nums v) (nv_nums r) = Equal"
    and "nuget_is_prerelease v" and "\<not> nuget_is_prerelease r"
  shows "nuget_compare v r = Less"
  using assms by (simp add: nuget_compare_def nuget_is_prerelease_def)

text \<open>Dropping the trailing zeros of the core does not move a version.\<close>

lemma nuget_trim_nums_cmp: "cmp_pad 0 ord_cmp (nuget_trim_nums nums) ms = cmp_pad 0 ord_cmp nums ms"
proof (cases nums)
  case (Cons n ns)
  then show ?thesis
    by (cases ms)
      (simp_all add: nuget_trim_nums_def cmp_pad_drop_last [OF rust_ord_ord_cmp])
qed (simp add: nuget_trim_nums_def)

text \<open>A parsed version has one to four components, none a trailing zero except a lone one.\<close>

lemma parse_nuget_shape:
  assumes "parse_nuget_version s = Some v"
  shows "nv_nums v \<noteq> [] \<and> length (nv_nums v) \<le> 4 \<and>
    (length (nv_nums v) > 1 \<longrightarrow> last (nv_nums v) \<noteq> 0)"
proof -
  from assms obtain nums where v: "nv_nums v = nuget_trim_nums nums" and n: "nums \<noteq> []" "length nums \<le> 4"
    by (auto simp: parse_nuget_version_def Let_def split: if_splits option.splits prod.splits)
  then obtain m ns where nums: "nums = m # ns" by (cases nums) auto
  have "length (drop_last_while (\<lambda>x. x = 0) ns) \<le> length ns"
    by (simp add: drop_last_while_def length_dropWhile_le [of _ "rev ns", simplified])
  with n v nums drop_last_while_last [of "\<lambda>x. x = 0" ns] show ?thesis
    by (auto simp: nuget_trim_nums_def)
qed

end
