(* ===== verification/Julia_Version.thy ===== *)
theory Julia_Version
  imports Version_Text
begin

text \<open>
  Julia versions, \<^verbatim>\<open>crates/julia/src/version.rs\<close>: three numeric components, a prerelease tail
  that ranks below its release and a build tail that ranks above it.
\<close>

section \<open>Definitions\<close>

datatype julia_id = IdNum nat | IdStr string

record julia_version =
  jv_raw :: string
  jv_nums :: "nat \<times> nat \<times> nat"
  jv_pre :: "julia_id list"
  jv_build :: "julia_id list"

fun julia_id_cmp :: "julia_id cmp" where
  "julia_id_cmp (IdNum p) (IdNum q) = ord_cmp p q"
| "julia_id_cmp (IdNum _) (IdStr _) = Less"
| "julia_id_cmp (IdStr _) (IdNum _) = Greater"
| "julia_id_cmp (IdStr p) (IdStr q) = str_cmp p q"

text \<open>The loop over the zipped lists, then the comparison of the lengths.\<close>

fun first_difference :: "(julia_id \<times> julia_id) list \<Rightarrow> ordering" where
  "first_difference [] = Equal"
| "first_difference ((x, y) # rest) =
     (if julia_id_cmp x y \<noteq> Equal then julia_id_cmp x y else first_difference rest)"

definition ident_cmp :: "julia_id list cmp" where
  "ident_cmp a b =
     (if first_difference (zip a b) \<noteq> Equal then first_difference (zip a b)
      else ord_cmp (length a) (length b))"

definition julia_compare :: "julia_version cmp" where
  "julia_compare v w =
     (let (a0, a1, a2) = jv_nums v; (b0, b1, b2) = jv_nums w in
      if ord_cmp a0 b0 \<noteq> Equal then ord_cmp a0 b0
      else if ord_cmp a1 b1 \<noteq> Equal then ord_cmp a1 b1
      else if ord_cmp a2 b2 \<noteq> Equal then ord_cmp a2 b2
      else if jv_pre v = [] \<and> jv_pre w \<noteq> [] then Greater
      else if jv_pre v \<noteq> [] \<and> jv_pre w = [] then Less
      else if jv_pre v \<noteq> [] \<and> jv_pre w \<noteq> [] \<and> ident_cmp (jv_pre v) (jv_pre w) \<noteq> Equal
      then ident_cmp (jv_pre v) (jv_pre w)
      else if jv_build v = [] \<and> jv_build w \<noteq> [] then Less
      else if jv_build v \<noteq> [] \<and> jv_build w = [] then Greater
      else if jv_build v \<noteq> [] \<and> jv_build w \<noteq> [] then ident_cmp (jv_build v) (jv_build w)
      else Equal)"

definition julia_parse_id :: "string \<Rightarrow> julia_id option" where
  "julia_parse_id part =
     (if part = [] then None
      else if list_all is_ascii_digit part then map_option IdNum (parse_u64 part)
      else Some (IdStr part))"

definition parse_ids :: "string option \<Rightarrow> julia_id list option" where
  "parse_ids s =
     (case s of None \<Rightarrow> Some [] | Some t \<Rightarrow> traverse julia_parse_id (split_at (CHR ''.'') t))"

definition parse_julia_version :: "string \<Rightarrow> julia_version option" where
  "parse_julia_version raw =
     (let trimmed = trim raw in
      if trimmed = [] \<or> \<not> is_ascii_digit (hd trimmed) then None
      else
        (let (main, build_str) = (case split_once (CHR ''+'') trimmed of
                                    Some (m, b) \<Rightarrow> (m, Some b)
                                  | None \<Rightarrow> (trimmed, None));
             (core, pre_str) = (case split_once (CHR ''-'') main of
                                  Some (c, p) \<Rightarrow> (c, Some p)
                                | None \<Rightarrow> (main, None));
             parts = split_at (CHR ''.'') core
         in if length parts > 3 then None
            else
              (case traverse parse_component parts of
                 None \<Rightarrow> None
               | Some nums \<Rightarrow>
                   (case (parse_ids pre_str, parse_ids build_str) of
                      (Some pre, Some build) \<Rightarrow>
                        Some \<lparr>jv_raw = trimmed,
                              jv_nums = (nth_or0 nums 0, nth_or0 nums 1, nth_or0 nums 2),
                              jv_pre = pre, jv_build = build\<rparr>
                    | _ \<Rightarrow> None))))"

definition julia_is_prerelease :: "julia_version \<Rightarrow> bool" where
  "julia_is_prerelease v \<longleftrightarrow> jv_pre v \<noteq> []"

primrec id_str :: "julia_id \<Rightarrow> string" where
  "id_str (IdNum n) = sanitize (show_nat n)"
| "id_str (IdStr s) = sanitize s"

definition julia_to_semver :: "('v, 'r) semver_lib \<Rightarrow> julia_version \<Rightarrow> 'v" where
  "julia_to_semver lib v =
     (case sv_parse lib (jv_raw v) of
        Some sv \<Rightarrow> sv
      | None \<Rightarrow>
          (let (n0, n1, n2) = jv_nums v;
               sv = sv_new lib n0 n1 n2;
               pre = filter (\<lambda>s. s \<noteq> []) (map id_str (jv_pre v));
               sv1 = (if pre \<noteq> [] then set_pre lib (join_with ''.'' pre) sv else sv);
               build = filter (\<lambda>s. s \<noteq> []) (map id_str (jv_build v))
           in if build \<noteq> [] then set_build lib (join_with ''.'' build) sv1 else sv1))"

section \<open>Properties\<close>

interpretation juliaid: rust_total_ord julia_id_cmp
proof -
  have eq: "julia_id_cmp = cmp_then
      (cmp_on (\<lambda>i. case i of IdNum _ \<Rightarrow> (0::nat) | IdStr _ \<Rightarrow> 1) ord_cmp)
      (cmp_then (cmp_on (\<lambda>i. case i of IdNum n \<Rightarrow> n | IdStr _ \<Rightarrow> 0) ord_cmp)
        (cmp_on (\<lambda>i. case i of IdNum _ \<Rightarrow> [] | IdStr w \<Rightarrow> w) str_cmp))" (is "_ = ?c")
  proof (intro ext)
    show "julia_id_cmp x y = ?c x y" for x y
      by (cases x; cases y) (simp_all add: cmp_then_def cmp_on_def ord_cmp_def)
  qed
  have "rust_ord julia_id_cmp" unfolding eq by (intro ord_intros)
  moreover have "x = y" if "julia_id_cmp x y = Equal" for x y
    using that by (cases x; cases y) simp_all
  ultimately show "rust_total_ord julia_id_cmp" by (rule rust_total_ordI)
qed

text \<open>The zip loop followed by the lengths is the lexicographic order of the standard library.\<close>

lemma ident_cmp_eq: "ident_cmp = cmp_list julia_id_cmp"
proof (intro ext)
  show "ident_cmp a b = cmp_list julia_id_cmp a b" for a b
  proof (induction a arbitrary: b)
    case Nil
    then show ?case by (cases b) (simp_all add: ident_cmp_def ord_cmp_def)
  next
    case (Cons x a)
    show ?case
    proof (cases b)
      case Nil
      then show ?thesis by (simp add: ident_cmp_def ord_cmp_def)
    next
      case (Cons y b')
      then show ?thesis
        using Cons.IH [of b'] by (cases "julia_id_cmp x y") (auto simp: ident_cmp_def ord_cmp_def)
    qed
  qed
qed

interpretation juliaids: rust_total_ord "cmp_list julia_id_cmp"
  by (intro ord_intros juliaid.rust_total_ord_axioms)

text \<open>The order: the core, releases above prereleases, then no build below any build.\<close>

lemma julia_compare_eq:
  "julia_compare = cmp_then (cmp_on jv_nums (cmp_pair ord_cmp (cmp_pair ord_cmp ord_cmp)))
     (cmp_then (cmp_on (\<lambda>v. jv_pre v = []) ord_cmp)
       (cmp_then (cmp_on jv_pre (cmp_list julia_id_cmp))
         (cmp_on jv_build (cmp_list julia_id_cmp))))"
proof (intro ext)
  fix v w :: julia_version
  have ne: "cmp_list julia_id_cmp [] b = (if b = [] then Equal else Less)"
    "cmp_list julia_id_cmp a [] = (if a = [] then Equal else Greater)" for a b
    by (cases b; simp) (cases a; simp)
  obtain a0 a1 a2 where v: "jv_nums v = (a0, a1, a2)" by (cases "jv_nums v")
  obtain b0 b1 b2 where w: "jv_nums w = (b0, b1, b2)" by (cases "jv_nums w")
  show "julia_compare v w = cmp_then (cmp_on jv_nums (cmp_pair ord_cmp (cmp_pair ord_cmp ord_cmp)))
     (cmp_then (cmp_on (\<lambda>v. jv_pre v = []) ord_cmp)
       (cmp_then (cmp_on jv_pre (cmp_list julia_id_cmp))
         (cmp_on jv_build (cmp_list julia_id_cmp)))) v w"
    unfolding julia_compare_def cmp_then_def cmp_on_def cmp_pair_def ident_cmp_eq v w
    by (cases "jv_pre v = []"; cases "jv_pre w = []"; cases "jv_build v = []"; cases "jv_build w = []")
      (simp_all add: ord_cmp_def ne)
qed

interpretation julia: rust_ord julia_compare
  unfolding julia_compare_eq by (intro ord_intros juliaid.rust_ord_axioms)

text \<open>
  Unlike in SemVer the build tail counts: a version with one ranks above the same version
  without, so \<open>8.15.0+0\<close> is not confused with \<open>8.15.0\<close>.
\<close>

lemma julia_build_counts:
  assumes "jv_nums v = jv_nums w" and "jv_pre v = jv_pre w"
  shows "julia_compare v w = cmp_list julia_id_cmp (jv_build v) (jv_build w)"
  using assms by (simp add: julia_compare_eq cmp_then_def cmp_on_def cmp_pair_def)

lemma julia_prerelease_below:
  assumes "jv_nums v = jv_nums w" and "julia_is_prerelease v" and "\<not> julia_is_prerelease w"
  shows "julia_compare v w = Less"
  using assms by (simp add: julia_compare_eq cmp_then_def cmp_on_def cmp_pair_def
      julia_is_prerelease_def)

end
