(* ===== verification/Composer_Version.thy ===== *)
theory Composer_Version
  imports Version_Text
begin

text \<open>
  Composer versions, \<^verbatim>\<open>crates/packagist/src/version.rs\<close>: tokens of numbers and stability
  words, the comparison after PHP's \<open>version_compare\<close>, and the test against a lower bound.
  The comparison is symmetric but not transitive once a word that is not a stability word occurs;
  on versions whose words are all known it is lawful.
\<close>

section \<open>Definitions\<close>

datatype composer_token = CNum nat | CWord string

record composer_version =
  cv_raw :: string
  cv_tokens :: "composer_token list"

primrec is_cword :: "composer_token \<Rightarrow> bool" where
  "is_cword (CNum n) = False"
| "is_cword (CWord w) = True"

definition word_order :: "string \<Rightarrow> int" where
  "word_order w =
     (if w = ''dev'' then - 6
      else if w = ''alpha'' \<or> w = ''a'' then - 5
      else if w = ''beta'' \<or> w = ''b'' then - 4
      else if w = ''rc'' then - 3
      else if w = ''stable'' then 0
      else if w = ''patch'' \<or> w = ''pl'' \<or> w = ''p'' then 1
      else 0)"

primrec order_of :: "composer_token \<Rightarrow> int" where
  "order_of (CNum n) = 0"
| "order_of (CWord w) = word_order w"

fun composer_token_cmp :: "composer_token cmp" where
  "composer_token_cmp (CNum x) (CNum y) = ord_cmp x y"
| "composer_token_cmp lhs rhs = ord_cmp (order_of lhs) (order_of rhs)"

definition composer_compare :: "composer_version cmp" where
  "composer_compare v w = cmp_pad (CNum 0) composer_token_cmp (cv_tokens v) (cv_tokens w)"

definition composer_tokenize :: "string \<Rightarrow> composer_token list option" where
  "composer_tokenize s = scan_runs CNum CWord s"

definition pad_core :: "composer_token list \<Rightarrow> composer_token list" where
  "pad_core tokens =
     (let core = takeWhile (\<lambda>t. \<not> is_cword t) tokens in
      core @ replicate (4 - length core) (CNum 0) @ dropWhile (\<lambda>t. \<not> is_cword t) tokens)"

definition parse_composer_version :: "string \<Rightarrow> composer_version option" where
  "parse_composer_version raw =
     (let trimmed = trim raw;
          unprefixed = (case trimmed of
                          c # cs \<Rightarrow> if c = CHR ''v'' \<or> c = CHR ''V'' then cs else trimmed
                        | [] \<Rightarrow> trimmed);
          core = hd (split_at (CHR ''+'') unprefixed)
      in if core = [] \<or> \<not> is_ascii_digit (hd core) then None
         else
           (case composer_tokenize (to_ascii_lowercase core) of
              None \<Rightarrow> None
            | Some tokens \<Rightarrow>
                if tokens = [] then None
                else Some \<lparr>cv_raw = unprefixed, cv_tokens = pad_core tokens\<rparr>))"

fun composer_first_word_pre :: "composer_token list \<Rightarrow> bool" where
  "composer_first_word_pre [] = False"
| "composer_first_word_pre (CWord w # ts) = (word_order w < 0)"
| "composer_first_word_pre (CNum n # ts) = composer_first_word_pre ts"

definition composer_is_prerelease :: "composer_version \<Rightarrow> bool" where
  "composer_is_prerelease v = composer_first_word_pre (cv_tokens v)"

primrec composer_num :: "composer_token \<Rightarrow> nat" where
  "composer_num (CNum n) = n"
| "composer_num (CWord w) = 0"

definition release_core :: "composer_version \<Rightarrow> nat list" where
  "release_core v =
     drop_last_while (\<lambda>n. n = 0) (map composer_num (takeWhile (\<lambda>t. \<not> is_cword t) (cv_tokens v)))"

definition at_or_after_introduced :: "composer_version \<Rightarrow> composer_version \<Rightarrow> bool" where
  "at_or_after_introduced v introduced \<longleftrightarrow>
     composer_compare v introduced \<noteq> Less \<or>
     (\<not> composer_is_prerelease introduced \<and> composer_is_prerelease v \<and>
      release_core v = release_core introduced)"

primrec composer_token_text :: "composer_token \<Rightarrow> string" where
  "composer_token_text (CNum n) = show_nat n"
| "composer_token_text (CWord w) = w"

definition composer_to_semver :: "('v, 'r) semver_lib \<Rightarrow> composer_version \<Rightarrow> 'v" where
  "composer_to_semver lib v =
     (case sv_parse lib (cv_raw v) of
        Some sv \<Rightarrow> sv
      | None \<Rightarrow>
          (let nums0 = map composer_num (takeWhile (\<lambda>t. \<not> is_cword t) (cv_tokens v));
               nums = take 3 nums0 @ drop_last_while (\<lambda>n. n = 0) (drop 3 nums0);
               sv = sv_new lib (nth_or0 nums 0) (nth_or0 nums 1) (nth_or0 nums 2);
               tail = filter (\<lambda>s. s \<noteq> [])
                 (map (\<lambda>t. sanitize (composer_token_text t))
                   (dropWhile (\<lambda>t. \<not> is_cword t) (cv_tokens v)));
               sv1 = (if tail \<noteq> [] then set_pre lib (join_with ''.'' tail) sv else sv)
           in if length nums > 3
              then set_build lib (join_with ''.'' (map show_nat (drop 3 nums))) sv1 else sv1))"

section \<open>Properties\<close>

lemma composer_token_cmp_sym: "composer_token_cmp y x = rev_ord (composer_token_cmp x y)"
  by (cases x; cases y) (simp_all add: ord_cmp_def)

lemma cmp_pad_sym:
  "(\<And>x y. c y x = rev_ord (c x y)) \<Longrightarrow> cmp_pad d c ys xs = rev_ord (cmp_pad d c xs ys)"
proof (induction d c xs ys rule: cmp_pad.induct)
  case (2 d c y ys)
  have "c y d = rev_ord (c d y)" by (rule "2.prems")
  then show ?case using "2.IH" [OF "2.prems"] by simp
next
  case (3 d c x xs)
  have "c d x = rev_ord (c x d)" by (rule "3.prems")
  then show ?case using "3.IH" [OF "3.prems"] by simp
next
  case (4 d c x xs y ys)
  have "c y x = rev_ord (c x y)" by (rule "4.prems")
  then show ?case using "4.IH" [OF "4.prems"] by simp
qed simp

lemma composer_compare_sym: "composer_compare w v = rev_ord (composer_compare v w)"
  unfolding composer_compare_def by (rule cmp_pad_sym) (rule composer_token_cmp_sym)

text \<open>Comparing through a key that the elements' comparison agrees with.\<close>

lemma cmp_pad_map:
  assumes "\<And>x y. x \<in> insert d (set xs) \<Longrightarrow> y \<in> insert d (set ys) \<Longrightarrow> c x y = k (f x) (f y)"
  shows "cmp_pad d c xs ys = cmp_pad (f d) k (map f xs) (map f ys)"
  using assms
proof (induction d c xs ys rule: cmp_pad.induct)
  case (2 d c y ys)
  have "c d y = k (f d) (f y)" by (rule "2.prems") simp_all
  moreover have "cmp_pad d c [] ys = cmp_pad (f d) k (map f []) (map f ys)"
    by (rule "2.IH", rule "2.prems") auto
  ultimately show ?case by simp
next
  case (3 d c x xs)
  have "c x d = k (f x) (f d)" by (rule "3.prems") simp_all
  moreover have "cmp_pad d c xs [] = cmp_pad (f d) k (map f xs) (map f [])"
    by (rule "3.IH", rule "3.prems") auto
  ultimately show ?case by simp
next
  case (4 d c x xs y ys)
  have "c x y = k (f x) (f y)" by (rule "4.prems") simp_all
  moreover have "cmp_pad d c xs ys = cmp_pad (f d) k (map f xs) (map f ys)"
    by (rule "4.IH", rule "4.prems") auto
  ultimately show ?case by simp
qed simp

text \<open>
  A version is regular when none of its words ranks with the numbers: no \<open>stable\<close> and no word
  outside the table.  Its tokens then have a key: the rank, then the number.
\<close>

definition composer_regular :: "composer_version \<Rightarrow> bool" where
  "composer_regular v \<longleftrightarrow> list_all (\<lambda>t. is_cword t \<longrightarrow> order_of t \<noteq> 0) (cv_tokens v)"

definition composer_token_key :: "composer_token \<Rightarrow> int \<times> nat" where
  "composer_token_key t = (order_of t, composer_num t)"

definition composer_key_cmp :: "composer_version cmp" where
  "composer_key_cmp =
     cmp_on (\<lambda>v. map composer_token_key (cv_tokens v)) (cmp_pad (0, 0) (cmp_pair ord_cmp ord_cmp))"

interpretation composer_key: rust_ord composer_key_cmp
  unfolding composer_key_cmp_def by (intro ord_intros)

lemma composer_token_cmp_key:
  assumes "is_cword s \<longrightarrow> order_of s \<noteq> 0" and "is_cword t \<longrightarrow> order_of t \<noteq> 0"
  shows "composer_token_cmp s t = cmp_pair ord_cmp ord_cmp (composer_token_key s) (composer_token_key t)"
  using assms by (cases s; cases t) (auto simp: cmp_pair_def composer_token_key_def ord_cmp_def)

lemma composer_compare_key:
  assumes "composer_regular v" and "composer_regular w"
  shows "composer_compare v w = composer_key_cmp v w"
proof -
  have key0: "(0, 0) = composer_token_key (CNum 0)" by (simp add: composer_token_key_def)
  show ?thesis
    unfolding composer_compare_def composer_key_cmp_def cmp_on_def key0
    using assms by (intro cmp_pad_map composer_token_cmp_key)
      (auto simp: composer_regular_def list_all_iff)
qed

text \<open>
  The lower bound: for a stable release written with numbers only, \<open>at_or_after_introduced\<close> is the
  comparison with that release at \<open>dev\<close>, the floor Composer's own constraint parser uses.
\<close>

lemma cmp_pad_append_same:
  "(\<And>x. x \<in> set xs \<Longrightarrow> c x x = Equal) \<Longrightarrow>
     cmp_pad d c (xs @ ys) (xs @ zs) = cmp_pad d c ys zs"
  by (induction xs) simp_all

lemma cmp_pad_same_length_append:
  "length xs = length us \<Longrightarrow>
     cmp_pad d c (xs @ ys) (us @ zs) = then_with (cmp_pad d c xs us) (cmp_pad d c ys zs)"
  by (induction xs us rule: list_induct2) (simp_all add: then_with_assoc)

lemma cmp_pad_nums:
  "cmp_pad (CNum 0) composer_token_cmp (map CNum ms) (map CNum ns) = cmp_pad 0 ord_cmp ms ns"
  by (induction "0::nat" "ord_cmp :: nat cmp" ms ns rule: cmp_pad.induct) simp_all

lemma takeWhile_nums [simp]:
  "takeWhile (\<lambda>t. \<not> is_cword t) (map CNum ms) = map CNum ms"
  "takeWhile (\<lambda>t. \<not> is_cword t) (map CNum ms @ CWord w # rest) = map CNum ms"
  by (induction ms) simp_all

lemma composer_num_CNum [simp]: "composer_num \<circ> CNum = id"
  by (simp add: fun_eq_iff)

lemma first_word_nums [simp]:
  "composer_first_word_pre (map CNum ms @ ts) = composer_first_word_pre ts"
  by (induction ms) simp_all

lemma cmp_pad_same_length_iff:
  "length ms = length ns \<Longrightarrow> cmp_pad 0 ord_cmp ms ns = Equal \<longleftrightarrow> ms = (ns :: nat list)"
  by (induction ms ns rule: list_induct2) auto

lemma drop_last_same_length:
  assumes "length ms = length ns"
    and "drop_last_while (\<lambda>n. n = 0) ms = drop_last_while (\<lambda>n. n = 0) ns"
  shows "ms = (ns :: nat list)"
proof -
  have "cmp_pad 0 ord_cmp ms ns = Equal"
    using cmp_pad_drop_last [OF rust_ord_ord_cmp, of 0 ms "drop_last_while (\<lambda>n. n = 0) ns"]
      cmp_pad_drop_last [OF rust_ord_ord_cmp, of 0 ns ms] assms(2)
      rust_ord.cmp_sym [OF rust_ord_cmp_pad [OF rust_ord_ord_cmp], of 0 ms ns]
      rust_ord.cmp_sym [OF rust_ord_cmp_pad [OF rust_ord_ord_cmp], of 0 ms "drop_last_while (\<lambda>n. n = 0) ns"]
      cmp_pad_refl [OF rust_ord_ord_cmp, of 0 "drop_last_while (\<lambda>n. n = 0) ns"]
    by simp
  then show ?thesis using assms(1) by (simp add: cmp_pad_same_length_iff)
qed

lemma word_order_ge: "- 6 \<le> word_order w"
  by (simp add: word_order_def)

text \<open>The tail of a version: no stability word, or a word followed by more; a tail that starts
  with \<open>dev\<close> must not sink below \<open>dev\<close> itself.\<close>

definition composer_tail_ok :: "composer_token list \<Rightarrow> bool" where
  "composer_tail_ok tail \<longleftrightarrow>
     (case tail of
        [] \<Rightarrow> True
      | t # rest \<Rightarrow> is_cword t \<and>
          (word_order (composer_token_text t) = - 6 \<longrightarrow>
             cmp_pad (CNum 0) composer_token_cmp rest [] \<noteq> Less))"

lemma composer_tail_vs_dev:
  assumes "composer_tail_ok tail"
  shows "cmp_pad (CNum 0) composer_token_cmp tail [CWord ''dev''] \<noteq> Less"
proof (cases tail)
  case Nil
  then show ?thesis by (simp add: word_order_def)
next
  case (Cons t rest)
  then obtain w where t: "t = CWord w" using assms by (cases t) (auto simp: composer_tail_ok_def)
  have dev: "word_order ''dev'' = - 6" by (simp add: word_order_def)
  show ?thesis
    using assms word_order_ge [of w] unfolding Cons t
    by (auto simp: composer_tail_ok_def dev then_with_eq_Less)
qed

lemma composer_tail_stable:
  assumes "composer_tail_ok tail" and "cmp_pad (CNum 0) composer_token_cmp tail [] = Less"
    and "\<forall>w rest. tail = CWord w # rest \<longrightarrow> word_order w \<noteq> 0"
  shows "composer_first_word_pre tail \<and> (\<exists>w rest. tail = CWord w # rest)"
proof (cases tail)
  case Nil
  then show ?thesis using assms(2) by simp
next
  case (Cons t rest)
  then obtain w where t: "t = CWord w" using assms by (cases t) (auto simp: composer_tail_ok_def)
  then show ?thesis using assms(2,3) Cons by (auto simp: then_with_eq_Less)
qed

lemma composer_introduced_floor:
  assumes v: "cv_tokens v = map CNum ms @ tail" and "length ms = 4" and tail: "composer_tail_ok tail"
    and word: "\<forall>w rest. tail = CWord w # rest \<longrightarrow> word_order w \<noteq> 0"
    and x: "cv_tokens x = map CNum ns" and "length ns = 4"
    and dev: "cv_tokens xdev = map CNum ns @ [CWord ''dev'']"
  shows "at_or_after_introduced v x \<longleftrightarrow> composer_compare v xdev \<noteq> Less"
proof -
  have len: "length (map CNum ms) = length (map CNum ns)" using assms by simp
  have cx: "composer_compare v x =
      then_with (cmp_pad 0 ord_cmp ms ns) (cmp_pad (CNum 0) composer_token_cmp tail [])"
    using cmp_pad_same_length_append [OF len, of "CNum 0" composer_token_cmp tail "[]"]
    by (simp add: composer_compare_def v x cmp_pad_nums)
  have cdev: "composer_compare v xdev =
      then_with (cmp_pad 0 ord_cmp ms ns) (cmp_pad (CNum 0) composer_token_cmp tail [CWord ''dev''])"
    using cmp_pad_same_length_append [OF len, of "CNum 0" composer_token_cmp tail "[CWord ''dev'']"]
    by (simp add: composer_compare_def v dev cmp_pad_nums)
  have core: "takeWhile (\<lambda>t. \<not> is_cword t) (map CNum ms @ tail) = map CNum ms"
    using tail by (cases tail) (auto simp: composer_tail_ok_def takeWhile_append takeWhile_tail)
  have eq: "release_core v = release_core x \<longleftrightarrow> ms = ns"
    using drop_last_same_length [of ms ns] assms(2,6) core
    by (auto simp: release_core_def v x)
  have xpre: "\<not> composer_is_prerelease x"
    using first_word_nums [of ns "[]"] by (simp add: composer_is_prerelease_def x)
  have vpre: "composer_is_prerelease v \<longleftrightarrow> composer_first_word_pre tail"
    by (simp add: composer_is_prerelease_def v)
  show ?thesis
  proof (cases "ms = ns")
    case True
    then have "cmp_pad 0 ord_cmp ms ns = Equal" by (simp add: cmp_pad_refl [OF rust_ord_ord_cmp])
    moreover have "at_or_after_introduced v x"
      using composer_tail_stable [OF tail _ word] True eq xpre vpre calculation
      unfolding at_or_after_introduced_def cx by fastforce
    ultimately show ?thesis
      using composer_tail_vs_dev [OF tail] by (simp add: cdev)
  next
    case False
    then have "cmp_pad 0 ord_cmp ms ns \<noteq> Equal"
      using cmp_pad_same_length_iff [of ms ns] assms(2,6) by simp
    then show ?thesis using False eq by (simp add: at_or_after_introduced_def cx cdev)
  qed
qed

text \<open>The numeric core of a parsed version has at least four components.\<close>

lemma parse_composer_core:
  assumes "parse_composer_version s = Some v"
  shows "4 \<le> length (takeWhile (\<lambda>t. \<not> is_cword t) (cv_tokens v))"
proof -
  have "4 \<le> length (takeWhile (\<lambda>t. \<not> is_cword t) (pad_core ts))" for ts
  proof -
    define core where "core = takeWhile (\<lambda>t. \<not> is_cword t) ts"
    define rest where "rest = dropWhile (\<lambda>t. \<not> is_cword t) ts"
    have "\<not> is_cword t" if "t \<in> set (core @ replicate (4 - length core) (CNum 0))" for t
      using that unfolding core_def by (auto dest: set_takeWhileD)
    then have "takeWhile (\<lambda>t. \<not> is_cword t) ((core @ replicate (4 - length core) (CNum 0)) @ rest) =
        (core @ replicate (4 - length core) (CNum 0)) @ takeWhile (\<lambda>t. \<not> is_cword t) rest"
      by (rule takeWhile_append2)
    moreover have "pad_core ts = (core @ replicate (4 - length core) (CNum 0)) @ rest"
      unfolding pad_core_def Let_def core_def rest_def by (rule append_assoc [symmetric])
    ultimately show ?thesis by simp
  qed
  then show ?thesis using assms
    by (auto simp: parse_composer_version_def Let_def split: if_splits option.splits)
qed

text \<open>Without that premise transitivity fails: a word that is no stability word is equal to every number.\<close>

lemma composer_not_transitive:
  "(case (parse_composer_version ''1.0-rc5'', parse_composer_version ''1.0-rc-foo'', parse_composer_version ''1.0-rc6'') of
     (Some v, Some w, Some x) \<Rightarrow> composer_compare v w = Equal \<and> composer_compare w x = Equal \<and> composer_compare v x = Less
   | _ \<Rightarrow> False)"
  by code_simp

end
