(* ===== verification/Rust_Map.thy ===== *)
theory Rust_Map
  imports Rust_Str
begin

text \<open>
  The ordered maps of the standard library.  A \<^verbatim>\<open>BTreeMap\<close> is the list of its entries in key
  order; the key type's \<^verbatim>\<open>Ord\<close> is an argument.  All updates go through \<open>bt_alter\<close>, from which
  \<open>insert\<close> and the \<open>entry\<close> methods are derived.  What the program relies on is the locale
  \<open>map_api\<close>; every lawful \<^verbatim>\<open>Ord\<close> provides it.
\<close>

section \<open>Definitions\<close>

type_synonym ('k, 'v) btree = "('k \<times> 'v) list"

fun bt_get :: "'k cmp \<Rightarrow> 'k \<Rightarrow> ('k, 'v) btree \<Rightarrow> 'v option" where
  "bt_get c k [] = None"
| "bt_get c k ((k', v) # m) =
     (case c k k' of Less \<Rightarrow> None | Equal \<Rightarrow> Some v | Greater \<Rightarrow> bt_get c k m)"

text \<open>An existing key is kept when its value changes, as the standard library does.\<close>

fun bt_alter :: "'k cmp \<Rightarrow> 'k \<Rightarrow> ('v option \<Rightarrow> 'v) \<Rightarrow> ('k, 'v) btree \<Rightarrow> ('k, 'v) btree" where
  "bt_alter c k f [] = [(k, f None)]"
| "bt_alter c k f ((k', v) # m) =
     (case c k k' of
        Less \<Rightarrow> (k, f None) # (k', v) # m
      | Equal \<Rightarrow> (k', f (Some v)) # m
      | Greater \<Rightarrow> (k', v) # bt_alter c k f m)"

definition bt_insert :: "'k cmp \<Rightarrow> 'k \<Rightarrow> 'v \<Rightarrow> ('k, 'v) btree \<Rightarrow> ('k, 'v) btree" where
  "bt_insert c k v m = bt_alter c k (\<lambda>_. v) m"

definition bt_or_insert :: "'k cmp \<Rightarrow> 'k \<Rightarrow> 'v \<Rightarrow> ('k, 'v) btree \<Rightarrow> ('k, 'v) btree" where
  "bt_or_insert c k v m = bt_alter c k (\<lambda>old. case old of None \<Rightarrow> v | Some w \<Rightarrow> w) m"

definition bt_push :: "'k cmp \<Rightarrow> 'k \<Rightarrow> 'v \<Rightarrow> ('k, 'v list) btree \<Rightarrow> ('k, 'v list) btree" where
  "bt_push c k v m = bt_alter c k (\<lambda>old. (case old of None \<Rightarrow> [] | Some vs \<Rightarrow> vs) @ [v]) m"

definition bt_wf :: "'k cmp \<Rightarrow> ('k, 'v) btree \<Rightarrow> bool" where
  "bt_wf c m = sorted_wrt (\<lambda>p q. c (fst p) (fst q) = Less) m"

section \<open>The interface\<close>

text \<open>
  What the operations promise their callers: altering one key shows at the keys equal to it and
  nowhere else, and every operation keeps the map well formed.
\<close>

locale map_api =
  fixes get :: "'k \<Rightarrow> 'm \<Rightarrow> 'v option"
    and alter :: "'k \<Rightarrow> ('v option \<Rightarrow> 'v) \<Rightarrow> 'm \<Rightarrow> 'm"
    and empty :: 'm
    and wf :: "'m \<Rightarrow> bool"
    and same :: "'k \<Rightarrow> 'k \<Rightarrow> bool"
  assumes wf_empty: "wf empty"
    and get_empty: "get k empty = None"
    and wf_alter: "wf m \<Longrightarrow> wf (alter k f m)"
    and get_alter: "wf m \<Longrightarrow> get k (alter k' f m) = (if same k k' then Some (f (get k' m)) else get k m)"
    and get_same: "wf m \<Longrightarrow> same k k' \<Longrightarrow> get k m = get k' m"
begin

text \<open>The loop that groups a list by key: every key sees exactly the elements with that key, in order.\<close>

lemma wf_fold: "wf m \<Longrightarrow> wf (fold (\<lambda>x. alter (key x) (upd x)) xs m)"
  by (induction xs arbitrary: m) (simp_all add: wf_alter)

lemma get_fold:
  "wf m \<Longrightarrow> get k (fold (\<lambda>x. alter (key x) (upd x)) xs m) =
     fold (\<lambda>x old. Some (upd x old)) (filter (\<lambda>x. same k (key x)) xs) (get k m)"
proof (induction xs arbitrary: m)
  case (Cons x xs)
  then show ?case
    by (cases "same k (key x)") (simp_all add: wf_alter get_alter get_same [of m k])
qed simp

lemma get_fold_empty:
  "get k (fold (\<lambda>x. alter (key x) (upd x)) xs empty) =
     fold (\<lambda>x old. Some (upd x old)) (filter (\<lambda>x. same k (key x)) xs) None"
  by (simp add: get_fold wf_empty get_empty)

end

section \<open>The list of entries provides it\<close>

lemma bt_wf_simps [simp]:
  "bt_wf c []"
  "bt_wf c (p # m) \<longleftrightarrow> (\<forall>q \<in> set m. c (fst p) (fst q) = Less) \<and> bt_wf c m"
  by (simp_all add: bt_wf_def)

lemma keys_bt_alter:
  "fst ` set (bt_alter c k f m) \<subseteq> insert k (fst ` set m)"
  by (induction c k f m rule: bt_alter.induct) (auto split: ordering.split)

context rust_ord
begin

lemma bt_wf_alter: "bt_wf cmp m \<Longrightarrow> bt_wf cmp (bt_alter cmp k f m)"
proof (induction m)
  case (Cons p m)
  obtain k' v where p: "p = (k', v)" by (cases p)
  show ?case
  proof (cases "cmp k k'")
    case Less
    with Cons.prems show ?thesis unfolding p by (auto dest: cmp_less_trans [of k k'])
  next
    case Equal
    with Cons.prems show ?thesis unfolding p by simp
  next
    case Greater
    then have "cmp k' k = Less" using cmp_sym [of k' k] by simp
    moreover have "q \<in> set (bt_alter cmp k f m) \<Longrightarrow> fst q = k \<or> fst q \<in> fst ` set m" for q
      using keys_bt_alter [of cmp k f m] by blast
    ultimately show ?thesis
      using Cons Greater unfolding p by fastforce
  qed
qed simp

lemma bt_get_none: "\<forall>q \<in> set m. cmp k (fst q) = Less \<Longrightarrow> bt_get cmp k m = None"
  by (cases m) auto

lemma bt_get_same: "cmp k k' = Equal \<Longrightarrow> bt_get cmp k m = bt_get cmp k' m"
proof (induction m)
  case (Cons p m)
  then show ?case by (cases p) (simp add: cmp_eq_left [of k k'] split: ordering.split)
qed simp

lemma bt_get_alter:
  "bt_wf cmp m \<Longrightarrow> bt_get cmp k (bt_alter cmp k' f m) =
     (if cmp k k' = Equal then Some (f (bt_get cmp k' m)) else bt_get cmp k m)"
proof (induction m)
  case Nil
  show ?case by (cases "cmp k k'") simp_all
next
  case (Cons p m)
  obtain k1 v where p: "p = (k1, v)" by (cases p)
  show ?case
  proof (cases "cmp k' k1")
    case Less
    have "cmp k k' = Less \<Longrightarrow> cmp k k1 = Less"
      by (rule cmp_less_trans [OF _ Less])
    then show ?thesis using Less unfolding p by (cases "cmp k k'") simp_all
  next
    case Equal
    then have "cmp k k1 = cmp k k'" using cmp_eq_right [of k' k1 k] by simp
    then show ?thesis using Equal unfolding p by (cases "cmp k k'") simp_all
  next
    case Greater
    then have lt: "cmp k1 k' = Less" using cmp_sym [of k1 k'] by simp
    show ?thesis
    proof (cases "cmp k k1")
      case Less
      then have "cmp k k' = Less" using lt by (rule cmp_less_trans)
      then show ?thesis using Greater Less unfolding p by simp
    next
      case Equal
      then have "cmp k k' = Less" using lt cmp_eq_left [of k k1 k'] by simp
      then show ?thesis using Greater Equal unfolding p by simp
    next
      case g: Greater
      then show ?thesis using Cons Greater unfolding p by simp
    qed
  qed
qed

lemma bt_get_mem: "bt_wf cmp m \<Longrightarrow> (k, v) \<in> set m \<Longrightarrow> bt_get cmp k m = Some v"
proof (induction m)
  case (Cons p m)
  obtain k1 v1 where p: "p = (k1, v1)" by (cases p)
  show ?case
  proof (cases "(k, v) = p")
    case True
    then show ?thesis using p by simp
  next
    case False
    then have "cmp k1 k = Less" using Cons.prems p by auto
    then have "cmp k k1 = Greater" using cmp_sym [of k k1] by simp
    then show ?thesis using Cons False p by auto
  qed
qed simp

lemma bt_wf_distinct: "bt_wf cmp m \<Longrightarrow> distinct (map fst m)"
proof (induction m)
  case (Cons p m)
  have "fst p \<notin> fst ` set m"
  proof
    assume "fst p \<in> fst ` set m"
    then have "cmp (fst p) (fst p) = Less" using Cons.prems by auto
    then show False by simp
  qed
  then show ?case using Cons by simp
qed simp

lemma bt_get_SomeD: "bt_get cmp k m = Some v \<Longrightarrow> \<exists>k'. (k', v) \<in> set m \<and> cmp k k' = Equal"
  by (induction m rule: list.induct) (auto split: ordering.splits)

end

sublocale rust_ord \<subseteq> bt: map_api "bt_get cmp" "bt_alter cmp" "[]" "bt_wf cmp" "\<lambda>k k'. cmp k k' = Equal"
  by unfold_locales (simp_all add: bt_wf_alter bt_get_alter bt_get_same)

text \<open>Maps keyed by text, the commonest in the program.\<close>

interpretation strmap: map_api "bt_get str_cmp" "bt_alter str_cmp" "[]" "bt_wf str_cmp"
  "\<lambda>k k'. str_cmp k k' = Equal"
  by (rule str.bt.map_api_axioms)

text \<open>The grouping loop collects, for each key, the elements with that key in list order.\<close>

lemma fold_push:
  "fold (\<lambda>x old. Some ((case old of None \<Rightarrow> [] | Some vs \<Rightarrow> vs) @ [g x])) xs old =
     (if xs = [] then old else Some ((case old of None \<Rightarrow> [] | Some vs \<Rightarrow> vs) @ map g xs))"
  by (induction xs arbitrary: old) auto

context rust_ord
begin

lemma get_push_group:
  "bt_get cmp k (fold (\<lambda>x. bt_push cmp (key x) (g x)) xs []) =
     (let ys = filter (\<lambda>x. cmp k (key x) = Equal) xs in if ys = [] then None else Some (map g ys))"
proof -
  have "bt_get cmp k (fold (\<lambda>x. bt_push cmp (key x) (g x)) xs []) =
      fold (\<lambda>x old. Some ((case old of None \<Rightarrow> [] | Some vs \<Rightarrow> vs) @ [g x]))
        (filter (\<lambda>x. cmp k (key x) = Equal) xs) None"
    unfolding bt_push_def by (rule bt.get_fold_empty)
  then show ?thesis unfolding fold_push by (simp add: Let_def)
qed

lemma wf_push_group: "bt_wf cmp (fold (\<lambda>x. bt_push cmp (key x) (g x)) xs [])"
  unfolding bt_push_def by (rule bt.wf_fold) (rule bt.wf_empty)

end

section \<open>Ordered sets\<close>

text \<open>A \<^verbatim>\<open>BTreeSet\<close> is a map to the unit type; \<open>bs_items\<close> is its iteration order.\<close>

type_synonym 'k bset = "('k, unit) btree"

definition bs_insert :: "'k cmp \<Rightarrow> 'k \<Rightarrow> 'k bset \<Rightarrow> 'k bset" where
  "bs_insert c x s = bt_alter c x (\<lambda>_. ()) s"

definition bs_mem :: "'k cmp \<Rightarrow> 'k \<Rightarrow> 'k bset \<Rightarrow> bool" where
  "bs_mem c x s \<longleftrightarrow> bt_get c x s \<noteq> None"

definition bs_items :: "'k bset \<Rightarrow> 'k list" where
  "bs_items s = map fst s"

definition bs_of_list :: "'k cmp \<Rightarrow> 'k list \<Rightarrow> 'k bset" where
  "bs_of_list c xs = fold (bs_insert c) xs []"

context rust_total_ord
begin

lemma bt_get_iff_mem:
  assumes "bt_wf cmp m"
  shows "bt_get cmp k m = Some v \<longleftrightarrow> (k, v) \<in> set m"
proof
  assume "bt_get cmp k m = Some v"
  from bt_get_SomeD [OF this] obtain k' where "(k', v) \<in> set m" and "cmp k k' = Equal" by blast
  then show "(k, v) \<in> set m" by simp
qed (rule bt_get_mem [OF assms])

lemma key_iff_get: "bt_wf cmp m \<Longrightarrow> x \<in> fst ` set m \<longleftrightarrow> bt_get cmp x m \<noteq> None"
proof
  assume wf: "bt_wf cmp m" and "x \<in> fst ` set m"
  then obtain v where "(x, v) \<in> set m" by auto
  with wf show "bt_get cmp x m \<noteq> None" by (simp add: bt_get_mem)
next
  assume wf: "bt_wf cmp m" and "bt_get cmp x m \<noteq> None"
  then obtain v where "bt_get cmp x m = Some v" by auto
  then have "(x, v) \<in> set m" unfolding bt_get_iff_mem [OF wf] .
  then show "x \<in> fst ` set m" by (rule image_eqI [rotated]) simp
qed

lemma keys_alter:
  assumes wf: "bt_wf cmp m"
  shows "fst ` set (bt_alter cmp k f m) = insert k (fst ` set m)"
proof (rule set_eqI)
  fix x
  show "x \<in> fst ` set (bt_alter cmp k f m) \<longleftrightarrow> x \<in> insert k (fst ` set m)"
    unfolding key_iff_get [OF bt_wf_alter [OF wf]] insert_iff key_iff_get [OF wf] bt_get_alter [OF wf]
    by simp
qed

lemma bs_wf_insert: "bt_wf cmp s \<Longrightarrow> bt_wf cmp (bs_insert cmp x s)"
  unfolding bs_insert_def by (rule bt_wf_alter)

lemma set_bs_insert: "bt_wf cmp s \<Longrightarrow> set (bs_items (bs_insert cmp x s)) = insert x (set (bs_items s))"
  unfolding bs_insert_def bs_items_def by (simp add: keys_alter)

lemma bs_mem_iff: "bt_wf cmp s \<Longrightarrow> bs_mem cmp x s \<longleftrightarrow> x \<in> set (bs_items s)"
  unfolding bs_mem_def bs_items_def set_map by (rule key_iff_get [symmetric])

lemma bs_fold_insert:
  "bt_wf cmp s \<Longrightarrow> bt_wf cmp (fold (bs_insert cmp) xs s) \<and>
     set (bs_items (fold (bs_insert cmp) xs s)) = set xs \<union> set (bs_items s)"
  by (induction xs arbitrary: s) (auto simp: bs_wf_insert set_bs_insert)

lemma bs_of_list:
  "bt_wf cmp (bs_of_list cmp xs)" "set (bs_items (bs_of_list cmp xs)) = set xs"
  using bs_fold_insert [of "[]" xs] by (simp_all add: bs_of_list_def bs_items_def)

end

end
