(* ===== verification/Osv_Ranges.thy ===== *)
theory Osv_Ranges
  imports Rust_Map Version_Text
begin

text \<open>
  The range matcher every ecosystem shares, first part of \<^verbatim>\<open>crates/core/src/osv.rs\<close>: OSV ranges as
  read and as parsed at load time, the two evaluators, the safe intervals above an affected
  version and the requirements made of them.  The ecosystem's version type, its \<^verbatim>\<open>Ord\<close>, its bound
  parser and its test of a lower bound are arguments, as in the source.
\<close>

section \<open>Definitions\<close>

record osv_event =
  ev_introduced :: "string option"
  ev_fixed :: "string option"
  ev_last_affected :: "string option"

record osv_range =
  rg_matchable :: bool
  rg_events :: "osv_event list"

datatype 'v parsed_bound = Bound 'v | Unparseable

record 'v parsed_event =
  pe_introduced :: "'v parsed_bound option"
  pe_fixed :: "'v option"
  pe_last_affected :: "'v option"

record 'v parsed_range =
  pr_matchable :: bool
  pr_events :: "'v parsed_event list"

datatype 'v osv_match = NotAffected | Affected "'v option"

definition parse_event :: "(string \<Rightarrow> 'v option) \<Rightarrow> osv_event \<Rightarrow> 'v parsed_event" where
  "parse_event parse_bound e =
     \<lparr>pe_introduced = map_option (\<lambda>raw. case parse_bound raw of None \<Rightarrow> Unparseable | Some v \<Rightarrow> Bound v)
        (ev_introduced e),
      pe_fixed = Option.bind (ev_fixed e) parse_bound,
      pe_last_affected = Option.bind (ev_last_affected e) parse_bound\<rparr>"

definition parse_range :: "(string \<Rightarrow> 'v option) \<Rightarrow> osv_range \<Rightarrow> 'v parsed_range" where
  "parse_range parse_bound r =
     \<lparr>pr_matchable = rg_matchable r, pr_events = map (parse_event parse_bound) (rg_events r)\<rparr>"

text \<open>The body of the loop over a range's events; the state is \<open>(affected, patch)\<close>.\<close>

definition parsed_step ::
  "'v cmp \<Rightarrow> ('v \<Rightarrow> 'v \<Rightarrow> bool) \<Rightarrow> 'v \<Rightarrow> 'v parsed_event \<Rightarrow> bool \<times> 'v option \<Rightarrow> bool \<times> 'v option" where
  "parsed_step c at_or_after version event st =
     (let affected0 = fst st; patch = snd st;
          affected1 = (case pe_introduced event of
                         Some (Bound v) \<Rightarrow> if at_or_after version v then True else affected0
                       | Some Unparseable \<Rightarrow> True
                       | None \<Rightarrow> affected0);
          (affected2, patch2) =
            (case pe_fixed event of
               Some v \<Rightarrow>
                 if c version v \<noteq> Less then (False, patch)
                 else (affected1, Some (case patch of None \<Rightarrow> v | Some p \<Rightarrow> min_ord c p v))
             | None \<Rightarrow> (affected1, patch));
          affected3 = (case pe_last_affected event of
                         Some v \<Rightarrow> if c version v = Greater then False else affected2
                       | None \<Rightarrow> affected2)
      in (affected3, patch2))"

definition range_eval ::
  "'v cmp \<Rightarrow> ('v \<Rightarrow> 'v \<Rightarrow> bool) \<Rightarrow> 'v \<Rightarrow> 'v parsed_range \<Rightarrow> bool \<times> 'v option" where
  "range_eval c at_or_after version rng =
     fold (parsed_step c at_or_after version) (pr_events rng)
       (\<not> list_ex (\<lambda>e. pe_introduced e \<noteq> None) (pr_events rng), None)"

fun affected_fixed_parsed ::
  "'v cmp \<Rightarrow> ('v \<Rightarrow> 'v \<Rightarrow> bool) \<Rightarrow> 'v \<Rightarrow> 'v parsed_range list \<Rightarrow> 'v osv_match" where
  "affected_fixed_parsed c at_or_after version [] = NotAffected"
| "affected_fixed_parsed c at_or_after version (rng # ranges) =
     (if \<not> pr_matchable rng then affected_fixed_parsed c at_or_after version ranges
      else (case range_eval c at_or_after version rng of
              (affected, patch) \<Rightarrow>
                if affected then Affected patch
                else affected_fixed_parsed c at_or_after version ranges))"

text \<open>The evaluator over unparsed bounds, which the Go feeder calls.\<close>

definition raw_step ::
  "'v cmp \<Rightarrow> (string \<Rightarrow> 'v option) \<Rightarrow> ('v \<Rightarrow> 'v \<Rightarrow> bool) \<Rightarrow> 'v \<Rightarrow> osv_event
     \<Rightarrow> bool \<times> 'v option \<Rightarrow> bool \<times> 'v option" where
  "raw_step c parse_bound at_or_after version event st =
     (let affected0 = fst st; patch = snd st;
          affected1 = (case ev_introduced event of
                         Some raw \<Rightarrow>
                           (case parse_bound raw of
                              Some v \<Rightarrow> if at_or_after version v then True else affected0
                            | None \<Rightarrow> True)
                       | None \<Rightarrow> affected0);
          (affected2, patch2) =
            (case Option.bind (ev_fixed event) parse_bound of
               Some v \<Rightarrow>
                 if c version v \<noteq> Less then (False, patch)
                 else (affected1, Some (case patch of None \<Rightarrow> v | Some p \<Rightarrow> min_ord c p v))
             | None \<Rightarrow> (affected1, patch));
          affected3 = (case Option.bind (ev_last_affected event) parse_bound of
                         Some v \<Rightarrow> if c version v = Greater then False else affected2
                       | None \<Rightarrow> affected2)
      in (affected3, patch2))"

fun affected_fixed ::
  "'v cmp \<Rightarrow> (string \<Rightarrow> 'v option) \<Rightarrow> ('v \<Rightarrow> 'v \<Rightarrow> bool) \<Rightarrow> 'v \<Rightarrow> osv_range list \<Rightarrow> 'v osv_match" where
  "affected_fixed c parse_bound at_or_after version [] = NotAffected"
| "affected_fixed c parse_bound at_or_after version (rng # ranges) =
     (if \<not> rg_matchable rng then affected_fixed c parse_bound at_or_after version ranges
      else (case fold (raw_step c parse_bound at_or_after version) (rg_events rng)
                   (\<not> list_ex (\<lambda>e. ev_introduced e \<noteq> None) (rg_events rng), None) of
              (affected, patch) \<Rightarrow>
                if affected then Affected patch
                else affected_fixed c parse_bound at_or_after version ranges))"

text \<open>The plain lower bound of most ecosystems.\<close>

definition plain_ge :: "'v cmp \<Rightarrow> 'v \<Rightarrow> 'v \<Rightarrow> bool" where
  "plain_ge c version bound \<longleftrightarrow> c version bound \<noteq> Less"

definition is_affected :: "'v cmp \<Rightarrow> 'v parsed_range list \<Rightarrow> 'v \<Rightarrow> bool" where
  "is_affected c ranges v \<longleftrightarrow> affected_fixed_parsed c (plain_ge c) v ranges \<noteq> NotAffected"

definition add_event_bounds :: "'v cmp \<Rightarrow> 'v parsed_event \<Rightarrow> ('v, bool) btree \<Rightarrow> ('v, bool) btree" where
  "add_event_bounds c e m =
     (let m1 = (case pe_introduced e of Some (Bound v) \<Rightarrow> bt_or_insert c v False m | _ \<Rightarrow> m)
      in case pe_fixed e of Some v \<Rightarrow> bt_insert c v True m1 | None \<Rightarrow> m1)"

definition range_bounds :: "'v cmp \<Rightarrow> 'v parsed_range list \<Rightarrow> ('v, bool) btree" where
  "range_bounds c ranges =
     fold (add_event_bounds c) (concat (map pr_events (filter pr_matchable ranges))) []"

fun interval_scan ::
  "('v \<Rightarrow> bool) \<Rightarrow> 'v option \<Rightarrow> ('v, bool) btree \<Rightarrow> ('v \<times> 'v option) list" where
  "interval_scan affected None [] = []"
| "interval_scan affected (Some from) [] = [(from, None)]"
| "interval_scan affected None ((v, is_fixed) # bounds) =
     (if is_fixed \<and> \<not> affected v then interval_scan affected (Some v) bounds
      else interval_scan affected None bounds)"
| "interval_scan affected (Some from) ((v, is_fixed) # bounds) =
     (if affected v then (from, Some v) # interval_scan affected None bounds
      else interval_scan affected (Some from) bounds)"

definition safe_intervals :: "'v cmp \<Rightarrow> 'v \<Rightarrow> 'v parsed_range list \<Rightarrow> ('v \<times> 'v option) list" where
  "safe_intervals c version ranges =
     (if \<not> is_affected c ranges version then []
      else interval_scan (is_affected c ranges) None
             (filter (\<lambda>(v, _). c v version = Greater) (range_bounds c ranges)))"

definition patched_reqs ::
  "('s, 'r) semver_lib \<Rightarrow> ('v \<Rightarrow> string) \<Rightarrow> ('v \<times> 'v option) list \<Rightarrow> 'r list" where
  "patched_reqs lib show intervals =
     List.map_filter (\<lambda>(from, until).
       let lower = ''>='' @ show from in
       case Option.bind until (\<lambda>u. req_parse lib (lower @ '', <'' @ show u)) of
         Some r \<Rightarrow> Some r
       | None \<Rightarrow> req_parse lib lower) intervals"

section \<open>The two evaluators agree\<close>

lemma raw_step_parsed:
  "raw_step c pb aoa version e st = parsed_step c aoa version (parse_event pb e) st"
  by (cases "ev_introduced e")
    (simp_all add: raw_step_def parsed_step_def parse_event_def Let_def split: option.split)

lemma fold_raw_step:
  "fold (raw_step c pb aoa version) es st = fold (parsed_step c aoa version) (map (parse_event pb) es) st"
  by (induction es arbitrary: st) (simp_all add: raw_step_parsed)

lemma parse_event_introduced: "pe_introduced (parse_event pb e) = None \<longleftrightarrow> ev_introduced e = None"
  by (simp add: parse_event_def)

lemma affected_fixed_eq:
  "affected_fixed c pb aoa version ranges =
     affected_fixed_parsed c aoa version (map (parse_range pb) ranges)"
proof (induction ranges)
  case (Cons r rs)
  have "list_ex (\<lambda>e. pe_introduced e \<noteq> None) (map (parse_event pb) es) =
      list_ex (\<lambda>e. ev_introduced e \<noteq> None) es" for es
    by (simp only: list_ex_iff set_map bex_simps parse_event_introduced)
  then show ?case
    using Cons by (simp add: range_eval_def parse_range_def fold_raw_step split: prod.split)
qed simp

section \<open>The flag and the patch of one range\<close>

definition flag_step ::
  "'v cmp \<Rightarrow> ('v \<Rightarrow> 'v \<Rightarrow> bool) \<Rightarrow> 'v \<Rightarrow> 'v parsed_event \<Rightarrow> bool \<Rightarrow> bool" where
  "flag_step c aoa version e a =
     ((case pe_introduced e of None \<Rightarrow> a | Some Unparseable \<Rightarrow> True | Some (Bound v) \<Rightarrow> aoa version v \<or> a) \<and>
      (case pe_fixed e of None \<Rightarrow> True | Some v \<Rightarrow> c version v = Less) \<and>
      (case pe_last_affected e of None \<Rightarrow> True | Some v \<Rightarrow> c version v \<noteq> Greater))"

definition range_flag :: "'v cmp \<Rightarrow> ('v \<Rightarrow> 'v \<Rightarrow> bool) \<Rightarrow> 'v \<Rightarrow> 'v parsed_range \<Rightarrow> bool" where
  "range_flag c aoa version r =
     fold (flag_step c aoa version) (pr_events r)
       (\<not> list_ex (\<lambda>e. pe_introduced e \<noteq> None) (pr_events r))"

definition above_fixes :: "'v cmp \<Rightarrow> 'v \<Rightarrow> 'v parsed_event list \<Rightarrow> 'v list" where
  "above_fixes c version es = filter (\<lambda>f. c version f = Less) (List.map_filter pe_fixed es)"

lemma parsed_step_eq:
  "parsed_step c aoa version e (a, p) =
     (flag_step c aoa version e a,
      (case pe_fixed e of
         Some f \<Rightarrow> if c version f = Less then Some (case p of None \<Rightarrow> f | Some q \<Rightarrow> min_ord c q f) else p
       | None \<Rightarrow> p))"
  by (auto simp: parsed_step_def flag_step_def Let_def split: option.split parsed_bound.split)

lemma fst_fold_parsed_step:
  "fst (fold (parsed_step c aoa version) es (a, p)) = fold (flag_step c aoa version) es a"
  by (induction es arbitrary: a p) (simp_all add: parsed_step_eq)

lemma fst_range_eval: "fst (range_eval c aoa version r) = range_flag c aoa version r"
  by (simp add: range_eval_def range_flag_def fst_fold_parsed_step)

lemma snd_fold_parsed_step:
  "snd (fold (parsed_step c aoa version) es (a, p)) =
     (case p of None \<Rightarrow> min_by c (above_fixes c version es)
              | Some q \<Rightarrow> min_by c (q # above_fixes c version es))"
proof (induction es arbitrary: a p)
  case (Cons e es)
  then show ?case
    by (cases "pe_fixed e"; cases p)
      (simp_all add: parsed_step_eq above_fixes_def List.map_filter_simps)
qed (simp add: above_fixes_def List.map_filter_simps split: option.split)

lemma snd_range_eval:
  "snd (range_eval c aoa version r) = min_by c (above_fixes c version (pr_events r))"
  by (simp add: range_eval_def snd_fold_parsed_step)

lemma affected_iff:
  "affected_fixed_parsed c aoa version ranges \<noteq> NotAffected \<longleftrightarrow>
     (\<exists>r \<in> set ranges. pr_matchable r \<and> range_flag c aoa version r)"
  by (induction ranges) (auto simp: fst_range_eval [symmetric] split: prod.split)

lemma affected_result:
  "affected_fixed_parsed c aoa version ranges = Affected fix \<Longrightarrow>
     \<exists>r \<in> set ranges. pr_matchable r \<and> range_flag c aoa version r \<and>
       fix = min_by c (above_fixes c version (pr_events r))"
proof (induction ranges)
  case (Cons r rs)
  show ?case
  proof (cases "pr_matchable r \<and> range_flag c aoa version r")
    case True
    then have "fix = snd (range_eval c aoa version r)"
      using Cons.prems by (auto simp: fst_range_eval [symmetric] split: prod.splits)
    then show ?thesis using True by (auto simp: snd_range_eval)
  next
    case False
    then have "affected_fixed_parsed c aoa version rs = Affected fix"
      using Cons.prems by (auto simp: fst_range_eval [symmetric] split: prod.splits if_splits)
    then show ?thesis using Cons.IH by auto
  qed
qed simp

lemma set_above_fixes:
  "f \<in> set (above_fixes c version es) \<longleftrightarrow> (\<exists>e \<in> set es. pe_fixed e = Some f) \<and> c version f = Less"
  by (auto simp: above_fixes_def set_map_filter)

text \<open>An unparseable lower bound is never read as clean: only an upper bound can clear it.\<close>

lemma unparseable_flag:
  assumes "es = xs @ e # ys" and "pe_introduced e = Some Unparseable"
    and open_above: "\<And>x f. x \<in> set (e # ys) \<Longrightarrow> pe_fixed x = Some f \<Longrightarrow> c version f = Less"
      "\<And>x l. x \<in> set (e # ys) \<Longrightarrow> pe_last_affected x = Some l \<Longrightarrow> c version l \<noteq> Greater"
  shows "fold (flag_step c aoa version) es a"
proof -
  have keep: "fold (flag_step c aoa version) zs True" if "set zs \<subseteq> set (e # ys)" for zs
    using that
  proof (induction zs)
    case (Cons z zs)
    then have "flag_step c aoa version z True"
      using open_above [of z] by (auto simp: flag_step_def split: option.split parsed_bound.split)
    then show ?case using Cons by simp
  qed simp
  have "flag_step c aoa version e b" for b
    using assms(2) open_above [of e] by (auto simp: flag_step_def split: option.split)
  then show ?thesis using keep [of ys] by (auto simp: assms(1))
qed

section \<open>Ranges as lists of intervals\<close>

text \<open>
  What a range means: a list of half-open intervals in ascending order, the last perhaps open,
  written as \<open>introduced\<close> and \<open>fixed\<close> events.
\<close>

fun interval_events :: "('v \<times> 'v option) list \<Rightarrow> 'v parsed_event list" where
  "interval_events [] = []"
| "interval_events ((i, f) # ivs) =
     \<lparr>pe_introduced = Some (Bound i), pe_fixed = None, pe_last_affected = None\<rparr>
     # (case f of
          None \<Rightarrow> []
        | Some g \<Rightarrow> [\<lparr>pe_introduced = None, pe_fixed = Some g, pe_last_affected = None\<rparr>])
     @ interval_events ivs"

fun ascending :: "'v cmp \<Rightarrow> ('v \<times> 'v option) list \<Rightarrow> bool" where
  "ascending c [] = True"
| "ascending c ((i, None) # ivs) = (ivs = [])"
| "ascending c ((i, Some f) # ivs) =
     (c i f = Less \<and> list_all (\<lambda>(j, _). c f j \<noteq> Greater) ivs \<and> ascending c ivs)"

definition inside :: "'v cmp \<Rightarrow> 'v \<Rightarrow> 'v \<times> 'v option \<Rightarrow> bool" where
  "inside c v iv \<longleftrightarrow> c v (fst iv) \<noteq> Less \<and> (case snd iv of None \<Rightarrow> True | Some f \<Rightarrow> c v f = Less)"

lemma ascending_ends: "ascending c us \<Longrightarrow> (j, Some x) \<in> set us \<Longrightarrow> c j x = Less"
  by (induction c us rule: ascending.induct) auto

lemma ascending_last: "ascending c us \<Longrightarrow> (i, None) \<in> set us \<Longrightarrow> (j, Some g) \<in> set us \<Longrightarrow> c g i \<noteq> Greater"
  by (induction c us rule: ascending.induct) (auto simp: list_all_iff)

context rust_ord
begin

lemma not_less_trans: "cmp v i \<noteq> Less \<Longrightarrow> cmp f i = Less \<Longrightarrow> cmp v f \<noteq> Less"
  using cmp_less_trans by blast

lemma flag_intervals:
  "ascending cmp ivs \<Longrightarrow>
     fold (flag_step cmp (plain_ge cmp) v) (interval_events ivs) a =
       (list_ex (inside cmp v) ivs \<or> (a \<and> list_all (\<lambda>(i, _). cmp v i = Less) ivs))"
proof (induction ivs arbitrary: a)
  case (Cons iv ivs)
  obtain i f where iv: "iv = (i, f)" by (cases iv)
  show ?case
  proof (cases f)
    case None
    with Cons.prems iv show ?thesis
      by (auto simp: flag_step_def plain_ge_def inside_def)
  next
    case (Some g)
    then have ig: "cmp i g = Less" and next_iv: "\<forall>(j, _) \<in> set ivs. cmp g j \<noteq> Greater"
      and asc: "ascending cmp ivs" using Cons.prems iv by (auto simp: list_all_iff)
    have below: "cmp v g = Less \<Longrightarrow> \<forall>(j, _) \<in> set ivs. cmp v j = Less"
      using next_iv by (auto dest: cmp_less_le_trans)
    have step: "fold (flag_step cmp (plain_ge cmp) v) (interval_events (iv # ivs)) a =
        fold (flag_step cmp (plain_ge cmp) v) (interval_events ivs) ((cmp v i \<noteq> Less \<or> a) \<and> cmp v g = Less)"
      by (simp add: iv Some flag_step_def plain_ge_def)
    show ?thesis unfolding step Cons.IH [OF asc]
      using below ig cmp_less_trans [of v i g]
      by (auto simp: iv Some inside_def list_ex_iff list_all_iff)
  qed
qed simp

lemma introduced_interval_events:
  "list_ex (\<lambda>e. pe_introduced e \<noteq> None) (interval_events ivs) \<longleftrightarrow> ivs \<noteq> []"
  by (cases ivs rule: interval_events.cases) simp_all

lemma range_flag_intervals:
  assumes "ascending cmp ivs" and "ivs \<noteq> []" and "pr_events r = interval_events ivs"
  shows "range_flag cmp (plain_ge cmp) v r \<longleftrightarrow> list_ex (inside cmp v) ivs"
  using assms(2) unfolding range_flag_def assms(3) flag_intervals [OF assms(1)]
  by (simp only: introduced_interval_events) simp

lemma fixes_interval_events:
  "(\<exists>e \<in> set (interval_events ivs). pe_fixed e = Some f) \<longleftrightarrow> (\<exists>i. (i, Some f) \<in> set ivs)"
  by (induction ivs rule: interval_events.induct) (auto split: option.splits)

text \<open>The patch is the least fixed bound above the version, the end of the interval it is in.\<close>

lemma ascending_fix_least:
  "ascending cmp ivs \<Longrightarrow> (i, Some f) \<in> set ivs \<Longrightarrow> inside cmp v (i, Some f) \<Longrightarrow>
     (j, Some g) \<in> set ivs \<Longrightarrow> cmp v g = Less \<Longrightarrow> cmp f g \<noteq> Greater"
proof (induction ivs)
  case (Cons iv ivs)
  obtain k h where iv: "iv = (k, h)" by (cases iv)
  show ?case
  proof (cases h)
    case None
    then show ?thesis using Cons.prems iv by auto
  next
    case (Some h')
    have asc: "ascending cmp ivs" and nxt: "\<And>j' x. (j', x) \<in> set ivs \<Longrightarrow> cmp h' j' \<noteq> Greater"
      using Cons.prems(1) iv Some by (auto simp: list_all_iff)
    consider (both) "(i, Some f) \<in> set ivs" "(j, Some g) \<in> set ivs"
      | (first) "f = h'" "(j, Some g) \<in> set ivs"
      | (second) "(i, Some f) \<in> set ivs" "g = h'" | (same) "f = g"
      using Cons.prems(2,4) iv Some by auto
    then show ?thesis
    proof cases
      case both
      then show ?thesis using Cons.IH [OF asc] Cons.prems(3,5) by simp
    next
      case first
      then show ?thesis using nxt ascending_ends [OF asc first(2)] cmp_le_less_trans [of f j g] by fastforce
    next
      case second
      then have "cmp g i \<noteq> Greater" using nxt by blast
      then have "cmp v i = Less" using Cons.prems(5) by (rule cmp_less_le_trans [rotated])
      then show ?thesis using Cons.prems(3) by (simp add: inside_def)
    qed simp
  qed
qed simp

lemma patch_of_interval:
  assumes asc: "ascending cmp ivs" and ev: "pr_events r = interval_events ivs"
    and iv: "(i, f) \<in> set ivs" "inside cmp v (i, f)"
  shows "cmp_opt cmp (min_by cmp (above_fixes cmp v (pr_events r))) f = Equal"
proof (cases f)
  case None
  have "\<not> cmp v g = Less" if "(j, Some g) \<in> set ivs" for j g
  proof
    assume "cmp v g = Less"
    have "cmp g i \<noteq> Greater" using ascending_last [OF asc] None iv(1) that by blast
    with \<open>cmp v g = Less\<close> have "cmp v i = Less" by (rule cmp_less_le_trans)
    then show False using iv(2) by (simp add: inside_def)
  qed
  then have "above_fixes cmp v (pr_events r) = []"
    using set_above_fixes [of _ cmp v "pr_events r"] fixes_interval_events [of ivs]
    unfolding ev by (metis (no_types, lifting) list.set_intros(1) neq_Nil_conv)
  then show ?thesis using None by simp
next
  case (Some g)
  have mem: "g \<in> set (above_fixes cmp v (pr_events r))"
    using iv fixes_interval_events [of ivs g] unfolding Some set_above_fixes ev inside_def by auto
  then obtain p where p: "min_by cmp (above_fixes cmp v (pr_events r)) = Some p"
    by (cases "min_by cmp (above_fixes cmp v (pr_events r))") auto
  then have le: "cmp p g \<noteq> Greater" using mem by (rule min_by_lower)
  have "p \<in> set (above_fixes cmp v (pr_events r))" using p by (rule min_by_mem)
  then obtain j where "(j, Some p) \<in> set ivs" and "cmp v p = Less"
    using fixes_interval_events [of ivs p] unfolding set_above_fixes ev by auto
  then have "cmp g p \<noteq> Greater" using ascending_fix_least [OF asc] iv unfolding Some by blast
  then have "cmp p g = Equal" using le cmp_sym [of g p] by (cases "cmp p g") auto
  then show ?thesis using p Some by simp
qed

end

end
