(* ===== verification/Osv_Safe.thy ===== *)
theory Osv_Safe
  imports Osv_Ranges
begin

text \<open>
  The safe intervals of \<^verbatim>\<open>safe_intervals\<close>: no version inside one is affected, they start at fixes,
  end where a range is affected again, ascend without overlap, and miss no fix above the version.
\<close>

section \<open>The map of bounds\<close>

definition bound_list :: "'v parsed_event list \<Rightarrow> ('v \<times> bool) list" where
  "bound_list es = concat (map (\<lambda>e.
     (case pe_introduced e of Some (Bound v) \<Rightarrow> [(v, False)] | _ \<Rightarrow> []) @
     (case pe_fixed e of Some v \<Rightarrow> [(v, True)] | None \<Rightarrow> [])) es)"

definition upd_bound :: "'v \<times> bool \<Rightarrow> bool option \<Rightarrow> bool" where
  "upd_bound p old = (snd p \<or> old = Some True)"

definition all_events :: "'v parsed_range list \<Rightarrow> 'v parsed_event list" where
  "all_events ranges = concat (map pr_events (filter pr_matchable ranges))"

lemma add_event_bounds_eq:
  "add_event_bounds c e m = fold (\<lambda>x. bt_alter c (fst x) (upd_bound x)) (bound_list [e]) m"
proof -
  have "(\<lambda>old. case old of None \<Rightarrow> False | Some w \<Rightarrow> w) = upd_bound (v, False)"
    "(\<lambda>_. True) = upd_bound (v, True)" for v :: 'a
    by (auto simp: fun_eq_iff upd_bound_def split: option.split)
  then show ?thesis
    by (simp add: add_event_bounds_def bound_list_def bt_or_insert_def bt_insert_def
        split: option.split parsed_bound.split)
qed

lemma range_bounds_eq:
  "range_bounds c ranges = fold (\<lambda>x. bt_alter c (fst x) (upd_bound x)) (bound_list (all_events ranges)) []"
proof -
  have "fold (add_event_bounds c) es m = fold (\<lambda>x. bt_alter c (fst x) (upd_bound x)) (bound_list es) m"
    for es m
  proof (induction es arbitrary: m)
    case (Cons e es)
    have "bound_list (e # es) = bound_list [e] @ bound_list es" by (simp add: bound_list_def)
    then show ?case using Cons by (simp only: fold.simps comp_apply add_event_bounds_eq fold_append)
  qed (simp add: bound_list_def)
  then show ?thesis by (simp add: range_bounds_def all_events_def)
qed

lemma set_bound_list:
  "(b, False) \<in> set (bound_list es) \<longleftrightarrow> (\<exists>e \<in> set es. pe_introduced e = Some (Bound b))"
  "(b, True) \<in> set (bound_list es) \<longleftrightarrow> (\<exists>e \<in> set es. pe_fixed e = Some b)"
  by (force simp: bound_list_def split: option.splits parsed_bound.splits)+

lemma fold_upd_bound:
  "fold (\<lambda>x old. Some (upd_bound x old)) xs old =
     (if xs = [] then old else Some (old = Some True \<or> list_ex snd xs))"
  by (induction xs arbitrary: old) (auto simp: upd_bound_def)

lemma if_Some_True: "(if P then None else Some x) = Some True \<Longrightarrow> x"
  by (cases P) simp_all

lemma list_ex_snd: "list_ex snd ys \<Longrightarrow> \<exists>f. (f, True) \<in> set ys"
  by (auto simp: list_ex_iff)

context rust_ord
begin

lemma range_bounds_wf: "bt_wf cmp (range_bounds cmp ranges)"
  unfolding range_bounds_eq by (rule bt.wf_fold) (rule bt.wf_empty)

lemma range_bounds_get:
  "bt_get cmp k (range_bounds cmp ranges) =
     (let ys = filter (\<lambda>x. cmp k (fst x) = Equal) (bound_list (all_events ranges))
      in if ys = [] then None else Some (list_ex snd ys))"
  unfolding range_bounds_eq bt.get_fold_empty fold_upd_bound by (simp add: Let_def)

text \<open>Every lower bound is equal to a key, every fixed bound to a key marked fixed, and back.\<close>

lemma range_bounds_mem:
  "(b, x) \<in> set (bound_list (all_events ranges)) \<Longrightarrow>
     \<exists>k y. (k, y) \<in> set (range_bounds cmp ranges) \<and> cmp b k = Equal \<and> (x \<longrightarrow> y)"
proof -
  assume b: "(b, x) \<in> set (bound_list (all_events ranges))"
  let ?ys = "filter (\<lambda>y. cmp b (fst y) = Equal) (bound_list (all_events ranges))"
  have "(b, x) \<in> set ?ys" using b by simp
  have "?ys \<noteq> []"
  proof
    assume "?ys = []"
    with \<open>(b, x) \<in> set ?ys\<close> show False by (simp only: list.set empty_iff)
  qed
  have "x \<longrightarrow> list_ex snd ?ys"
    using \<open>(b, x) \<in> set ?ys\<close> unfolding list_ex_iff by (metis snd_conv)
  have "bt_get cmp b (range_bounds cmp ranges) = Some (list_ex snd ?ys)"
    unfolding range_bounds_get Let_def using \<open>?ys \<noteq> []\<close> by (rule if_not_P)
  from bt_get_SomeD [OF this] obtain k where "(k, list_ex snd ?ys) \<in> set (range_bounds cmp ranges)"
    and "cmp b k = Equal" by blast
  with \<open>x \<longrightarrow> list_ex snd ?ys\<close> show ?thesis by blast
qed

lemma range_bounds_fixed:
  assumes "(k, True) \<in> set (range_bounds cmp ranges)"
  shows "\<exists>e \<in> set (all_events ranges). \<exists>f. pe_fixed e = Some f \<and> cmp k f = Equal"
proof -
  let ?ys = "filter (\<lambda>y. cmp k (fst y) = Equal) (bound_list (all_events ranges))"
  have "bt_get cmp k (range_bounds cmp ranges) = Some True"
    by (rule bt_get_mem [OF range_bounds_wf assms])
  then have "list_ex snd ?ys"
    unfolding range_bounds_get Let_def by (rule if_Some_True)
  then obtain f where "(f, True) \<in> set ?ys" using list_ex_snd by metis
  then have f: "(f, True) \<in> set (bound_list (all_events ranges))" and k: "cmp k f = Equal"
    unfolding set_filter by simp_all
  from f obtain e where "e \<in> set (all_events ranges)" "pe_fixed e = Some f"
    using set_bound_list(2) by metis
  then show ?thesis using k by blast
qed

section \<open>The scan\<close>

lemma interval_scan_emits:
  "(lo, til) \<in> set (interval_scan aff opn L) \<Longrightarrow> bt_wf cmp L \<Longrightarrow>
     (\<And>b k. opn = Some b \<Longrightarrow> k \<in> fst ` set L \<Longrightarrow> cmp b k = Less) \<Longrightarrow>
     (opn = Some lo \<or> (lo, True) \<in> set L \<and> \<not> aff lo) \<and>
     (\<forall>k \<in> fst ` set L. cmp lo k = Less \<longrightarrow> (\<forall>u. til = Some u \<longrightarrow> cmp k u = Less) \<longrightarrow> \<not> aff k) \<and>
     (\<forall>u. til = Some u \<longrightarrow> u \<in> fst ` set L \<and> aff u \<and> cmp lo u = Less)"
proof (induction aff opn L rule: interval_scan.induct)
  case (3 aff v is_fixed bounds)
  have above: "cmp v k = Less" if "k \<in> fst ` set bounds" for k
    using "3.prems"(2) that by auto
  have behind: "cmp k v \<noteq> Less" if "k \<in> fst ` set bounds" for k
    using above [OF that] cmp_sym [of v k] by auto
  have wf: "bt_wf cmp bounds" using "3.prems"(2) by simp
  show ?case
  proof (cases "is_fixed \<and> \<not> aff v")
    case True
    with "3.prems"(1) have "(lo, til) \<in> set (interval_scan aff (Some v) bounds)" by simp
    from "3.IH"(1) [OF True this wf] above True behind show ?thesis by auto
  next
    case False
    with "3.prems"(1) have "(lo, til) \<in> set (interval_scan aff None bounds)" by simp
    from "3.IH"(2) [OF False this wf] behind False show ?thesis by force
  qed
next
  case (4 aff b v is_fixed bounds)
  have above: "cmp v k = Less" if "k \<in> fst ` set bounds" for k
    using "4.prems"(2) that by auto
  have behind: "cmp k v \<noteq> Less" if "k \<in> fst ` set bounds" for k
    using above [OF that] cmp_sym [of v k] by auto
  have wf: "bt_wf cmp bounds" using "4.prems"(2) by simp
  have bv: "cmp b v = Less" "\<And>k. k \<in> fst ` set bounds \<Longrightarrow> cmp b k = Less"
    using "4.prems"(3) by auto
  show ?case
  proof (cases "aff v")
    case True
    show ?thesis
    proof (cases "(lo, til) = (b, Some v)")
      case eq: True
      then show ?thesis using True bv behind by auto
    next
      case False
      with "4.prems"(1) True have "(lo, til) \<in> set (interval_scan aff None bounds)" by auto
      from "4.IH"(1) [OF True this wf] behind show ?thesis by force
    qed
  next
    case False
    with "4.prems"(1) have "(lo, til) \<in> set (interval_scan aff (Some b) bounds)" by simp
    from "4.IH"(2) [OF False this wf] bv False show ?thesis by force
  qed
qed simp_all

lemma interval_scan_open:
  "cmp b f \<noteq> Greater \<Longrightarrow> (\<And>k. k \<in> fst ` set L \<Longrightarrow> cmp f k = Less) \<Longrightarrow>
     \<exists>iv \<in> set (interval_scan aff (Some b) L). inside cmp f iv"
proof (induction L)
  case Nil
  then show ?case using cmp_sym [of f b] by (auto simp: inside_def)
next
  case (Cons p L)
  obtain v x where p: "p = (v, x)" by (cases p)
  show ?case
  proof (cases "aff v")
    case True
    have "inside cmp f (b, Some v)"
      using Cons.prems cmp_sym [of f b] p by (auto simp: inside_def)
    then show ?thesis using True p by simp
  next
    case False
    then show ?thesis using Cons p by simp
  qed
qed

lemma interval_scan_covers:
  "(f, True) \<in> set L \<Longrightarrow> \<not> aff f \<Longrightarrow> bt_wf cmp L \<Longrightarrow>
     (\<And>b k. opn = Some b \<Longrightarrow> k \<in> fst ` set L \<Longrightarrow> cmp b k = Less) \<Longrightarrow>
     \<exists>iv \<in> set (interval_scan aff opn L). inside cmp f iv"
proof (induction aff opn L rule: interval_scan.induct)
  case (3 aff v is_fixed bounds)
  have wf: "bt_wf cmp bounds" and above: "\<And>k. k \<in> fst ` set bounds \<Longrightarrow> cmp v k = Less"
    using "3.prems"(3) by auto
  consider (here) "f = v" "is_fixed" | (later) "(f, True) \<in> set bounds"
    using "3.prems"(1) by auto
  then show ?case
  proof cases
    case here
    have "cmp v v \<noteq> Greater" by simp
    from interval_scan_open [OF this above] here "3.prems"(2) show ?thesis by simp
  next
    case later
    show ?thesis
    proof (cases "is_fixed \<and> \<not> aff v")
      case True
      from "3.IH"(1) [OF True later "3.prems"(2) wf] above
      have "\<exists>iv \<in> set (interval_scan aff (Some v) bounds). inside cmp f iv" by blast
      then show ?thesis using True by simp
    next
      case False
      from "3.IH"(2) [OF False later "3.prems"(2) wf]
      have "\<exists>iv \<in> set (interval_scan aff None bounds). inside cmp f iv" by blast
      then show ?thesis using False by (simp only: if_False interval_scan.simps)
    qed
  qed
next
  case (4 aff b v is_fixed bounds)
  have wf: "bt_wf cmp bounds" and above: "\<And>k. k \<in> fst ` set bounds \<Longrightarrow> cmp v k = Less"
    using "4.prems"(3) by auto
  have bv: "cmp b v = Less" and bb: "\<And>k. k \<in> fst ` set bounds \<Longrightarrow> cmp b k = Less"
    using "4.prems"(4) by auto
  consider (here) "f = v" | (later) "(f, True) \<in> set bounds"
    using "4.prems"(1) by auto
  then show ?case
  proof cases
    case here
    have "cmp b v \<noteq> Greater" using bv by simp
    from interval_scan_open [OF this above] here "4.prems"(2) show ?thesis by simp
  next
    case later
    show ?thesis
    proof (cases "aff v")
      case True
      then show ?thesis using "4.IH"(1) [OF True later "4.prems"(2) wf] by auto
    next
      case False
      from "4.IH"(2) [OF False later "4.prems"(2) wf] bb
      have "\<exists>iv \<in> set (interval_scan aff (Some b) bounds). inside cmp f iv" by blast
      then show ?thesis using False by simp
    qed
  qed
qed simp_all

lemma interval_scan_above:
  "(lo, til) \<in> set (interval_scan aff opn L) \<Longrightarrow> opn = Some lo \<or> lo \<in> fst ` set L"
  by (induction aff opn L rule: interval_scan.induct) (auto split: if_splits)

lemma interval_scan_ascending:
  "bt_wf cmp L \<Longrightarrow> (\<And>b k. opn = Some b \<Longrightarrow> k \<in> fst ` set L \<Longrightarrow> cmp b k = Less) \<Longrightarrow>
     ascending cmp (interval_scan aff opn L)"
proof (induction aff opn L rule: interval_scan.induct)
  case (3 aff v is_fixed bounds)
  then show ?case by auto
next
  case (4 aff b v is_fixed bounds)
  have "cmp v lo \<noteq> Greater" if "(lo, til) \<in> set (interval_scan aff None bounds)" for lo til
    using interval_scan_above [OF that] "4.prems"(1) by auto
  then show ?case using 4 by (auto simp: list_all_iff)
qed simp_all

section \<open>What holds inside a safe interval\<close>

lemma flag_step_mono:
  assumes "cmp v w \<noteq> Greater" and "flag_step cmp (plain_ge cmp) w e a" and "a \<longrightarrow> b"
    and "\<And>i. pe_introduced e = Some (Bound i) \<Longrightarrow> cmp w i \<noteq> Less \<Longrightarrow> cmp v i \<noteq> Less"
  shows "flag_step cmp (plain_ge cmp) v e b"
proof -
  have "cmp v f = Less" if "cmp w f = Less" for f
    using assms(1) that by (rule cmp_le_less_trans)
  moreover have "cmp v l \<noteq> Greater" if "cmp w l \<noteq> Greater" for l
    using assms(1) that by (rule cmp_le_trans)
  ultimately show ?thesis
    using assms(2-4) by (auto simp: flag_step_def plain_ge_def split: option.splits parsed_bound.splits)
qed

lemma is_affected_mono:
  assumes "cmp v w \<noteq> Greater" and "is_affected cmp ranges w"
    and no: "\<And>e i. e \<in> set (all_events ranges) \<Longrightarrow> pe_introduced e = Some (Bound i) \<Longrightarrow>
      cmp w i \<noteq> Less \<Longrightarrow> cmp v i \<noteq> Less"
  shows "is_affected cmp ranges v"
proof -
  obtain r where r: "r \<in> set ranges" "pr_matchable r" and "range_flag cmp (plain_ge cmp) w r"
    using assms(2) unfolding is_affected_def affected_iff by blast
  have "fold (flag_step cmp (plain_ge cmp) v) es b"
    if "set es \<subseteq> set (pr_events r)" "fold (flag_step cmp (plain_ge cmp) w) es a" "a \<longrightarrow> b" for es a b
    using that
  proof (induction es arbitrary: a b)
    case (Cons e es)
    have "e \<in> set (all_events ranges)" using Cons.prems(1) r by (auto simp: all_events_def)
    then have "flag_step cmp (plain_ge cmp) w e a \<longrightarrow> flag_step cmp (plain_ge cmp) v e b"
      using flag_step_mono [OF assms(1) _ Cons.prems(3)] no by blast
    then show ?case
      using Cons.IH [of "flag_step cmp (plain_ge cmp) w e a" "flag_step cmp (plain_ge cmp) v e b"]
        Cons.prems by simp
  qed simp
  then have "range_flag cmp (plain_ge cmp) v r"
    using \<open>range_flag cmp (plain_ge cmp) w r\<close> unfolding range_flag_def by blast
  then show ?thesis using r unfolding is_affected_def affected_iff by blast
qed

lemma is_affected_cong: "cmp v w = Equal \<Longrightarrow> is_affected cmp ranges w \<longleftrightarrow> is_affected cmp ranges v"
proof -
  have "is_affected cmp ranges b" if "cmp b a = Equal" "is_affected cmp ranges a" for a b
    by (rule is_affected_mono [OF _ that(2)]) (use that(1) cmp_eq_left [OF that(1)] in auto)
  then show "cmp v w = Equal \<Longrightarrow> ?thesis" using cmp_Equal_sym by blast
qed

lemma inside_cong: "cmp v w = Equal \<Longrightarrow> inside cmp v iv = inside cmp w iv"
  by (simp add: inside_def cmp_eq_left [of v w] split: option.split)

abbreviation bounds_above :: "'a \<Rightarrow> 'a parsed_range list \<Rightarrow> ('a, bool) btree" where
  "bounds_above version ranges \<equiv> filter (\<lambda>(v, _). cmp v version = Greater) (range_bounds cmp ranges)"

lemma bounds_above_wf: "bt_wf cmp (bounds_above version ranges)"
  using range_bounds_wf [of ranges] unfolding bt_wf_def by (rule sorted_wrt_filter)

text \<open>A bound above the version is equal to a key the scan sees.\<close>

lemma bounds_above_mem:
  assumes "(b, x) \<in> set (bound_list (all_events ranges))" and "cmp version b = Less"
  shows "\<exists>k y. (k, y) \<in> set (bounds_above version ranges) \<and> cmp b k = Equal \<and> (x \<longrightarrow> y)"
proof -
  obtain k y where k: "(k, y) \<in> set (range_bounds cmp ranges)" "cmp b k = Equal" "x \<longrightarrow> y"
    using range_bounds_mem [OF assms(1)] by blast
  then have "cmp version k = Less" using assms(2) cmp_eq_right [OF k(2), of version] by simp
  then have "cmp k version = Greater" using cmp_sym [of k version] by simp
  then show ?thesis using k by auto
qed

lemma safe_interval_facts:
  assumes "(lo, til) \<in> set (safe_intervals cmp version ranges)"
  shows "(lo, True) \<in> set (bounds_above version ranges) \<and> \<not> is_affected cmp ranges lo \<and>
    cmp version lo = Less \<and>
    (\<forall>k \<in> fst ` set (bounds_above version ranges). cmp lo k = Less \<longrightarrow>
       (\<forall>u. til = Some u \<longrightarrow> cmp k u = Less) \<longrightarrow> \<not> is_affected cmp ranges k) \<and>
    (\<forall>u. til = Some u \<longrightarrow> is_affected cmp ranges u \<and> cmp lo u = Less)"
proof -
  have "(lo, til) \<in> set (interval_scan (is_affected cmp ranges) None (bounds_above version ranges))"
    using assms by (simp add: safe_intervals_def split: if_splits)
  from interval_scan_emits [OF this bounds_above_wf]
  have f: "(lo, True) \<in> set (bounds_above version ranges) \<and> \<not> is_affected cmp ranges lo \<and>
    (\<forall>k \<in> fst ` set (bounds_above version ranges). cmp lo k = Less \<longrightarrow>
       (\<forall>u. til = Some u \<longrightarrow> cmp k u = Less) \<longrightarrow> \<not> is_affected cmp ranges k) \<and>
    (\<forall>u. til = Some u \<longrightarrow> is_affected cmp ranges u \<and> cmp lo u = Less)" by simp
  then have "cmp lo version = Greater" by simp
  then have "cmp version lo = Less" using cmp_sym [of version lo] by simp
  with f show ?thesis by blast
qed

lemma safe_intervals_sound:
  assumes iv: "(lo, til) \<in> set (safe_intervals cmp version ranges)" and w: "inside cmp w (lo, til)"
  shows "\<not> is_affected cmp ranges w"
proof
  assume aff: "is_affected cmp ranges w"
  note facts = safe_interval_facts [OF iv]
  let ?K = "filter (\<lambda>k. cmp lo k \<noteq> Greater \<and> cmp k w \<noteq> Greater) (map fst (bounds_above version ranges))"
  have "cmp lo w \<noteq> Greater" using w cmp_sym [of w lo] by (auto simp: inside_def)
  moreover have "lo \<in> set (map fst (bounds_above version ranges))" using facts by force
  ultimately have "lo \<in> set ?K" unfolding set_filter by simp
  then obtain k0 where k0: "max_by cmp ?K = Some k0"
    by (cases "max_by cmp ?K") (simp_all only: max_by_None, auto)
  have "k0 \<in> set ?K" using k0 by (rule max_by_mem)
  then have k0_mem: "k0 \<in> fst ` set (bounds_above version ranges)"
    and lo_k0: "cmp lo k0 \<noteq> Greater" and k0_w: "cmp k0 w \<noteq> Greater"
    unfolding set_filter set_map by simp_all
  have "is_affected cmp ranges k0"
  proof (rule is_affected_mono [OF k0_w aff], rule notI)
    fix e i
    assume e: "e \<in> set (all_events ranges)" "pe_introduced e = Some (Bound i)"
      and wi: "cmp w i \<noteq> Less" and lt: "cmp k0 i = Less"
    have "(i, False) \<in> set (bound_list (all_events ranges))"
      using e set_bound_list(1) by metis
    moreover have lo_i: "cmp lo i = Less" using lo_k0 lt by (rule cmp_le_less_trans)
    then have "cmp version i = Less" using facts cmp_less_trans by blast
    ultimately obtain k y where k: "(k, y) \<in> set (bounds_above version ranges)" and ik: "cmp i k = Equal"
      using bounds_above_mem by blast
    have "cmp lo k = Less" using lo_i cmp_eq_right [OF ik, of lo] by simp
    moreover have "cmp k w \<noteq> Greater"
      using wi cmp_sym [of w i] cmp_eq_left [OF ik, of w] by auto
    moreover have "k \<in> fst ` set (bounds_above version ranges)" using k by force
    ultimately have "k \<in> set ?K" unfolding set_filter set_map by simp
    with k0 have "cmp k k0 \<noteq> Greater" by (rule max_by_upper)
    then show False using lt cmp_eq_right [OF ik, of k0] cmp_sym [of k k0] by simp
  qed
  moreover have "\<not> is_affected cmp ranges k0"
  proof (cases "cmp lo k0")
    case Less
    have "cmp k0 u = Less" if "til = Some u" for u
      using cmp_le_less_trans [OF k0_w] w that by (simp add: inside_def)
    then show ?thesis using facts k0_mem Less by blast
  next
    case Equal
    then show ?thesis using facts is_affected_cong by blast
  next
    case Greater
    then show ?thesis using lo_k0 by simp
  qed
  ultimately show False by simp
qed

lemma safe_intervals_start:
  assumes "(lo, til) \<in> set (safe_intervals cmp version ranges)"
  shows "cmp version lo = Less \<and>
    (\<exists>r \<in> set ranges. pr_matchable r \<and> (\<exists>e \<in> set (pr_events r). \<exists>f. pe_fixed e = Some f \<and> cmp lo f = Equal)) \<and>
    (\<forall>u. til = Some u \<longrightarrow> is_affected cmp ranges u \<and> cmp lo u = Less)"
proof -
  have "(lo, True) \<in> set (range_bounds cmp ranges)" using safe_interval_facts [OF assms] by simp
  from range_bounds_fixed [OF this] safe_interval_facts [OF assms]
  show ?thesis unfolding all_events_def by auto
qed

lemma safe_intervals_ascending: "ascending cmp (safe_intervals cmp version ranges)"
proof -
  have "ascending cmp (interval_scan (is_affected cmp ranges) None (bounds_above version ranges))"
    by (rule interval_scan_ascending [OF bounds_above_wf]) simp
  then show ?thesis by (simp add: safe_intervals_def)
qed

lemma safe_intervals_cover:
  assumes "is_affected cmp ranges version" and "e \<in> set (all_events ranges)" "pe_fixed e = Some f"
    and "cmp version f = Less" and "\<not> is_affected cmp ranges f"
  shows "\<exists>iv \<in> set (safe_intervals cmp version ranges). inside cmp f iv"
proof -
  have "(f, True) \<in> set (bound_list (all_events ranges))"
    using assms(2,3) set_bound_list(2) by metis
  from bounds_above_mem [OF this assms(4)]
  obtain k where k: "(k, True) \<in> set (bounds_above version ranges)" "cmp f k = Equal" by auto
  then have naff: "\<not> is_affected cmp ranges k" using assms(5) is_affected_cong by blast
  from interval_scan_covers [of k "bounds_above version ranges" "is_affected cmp ranges" None,
      OF k(1) naff bounds_above_wf]
  have "\<exists>iv \<in> set (interval_scan (is_affected cmp ranges) None (bounds_above version ranges)). inside cmp k iv"
    by simp
  then show ?thesis using assms(1) inside_cong [OF k(2)] by (simp add: safe_intervals_def)
qed

end

section \<open>What the matcher promises\<close>

text \<open>Parsing the bounds once at load time changes no verdict: the evaluator over raw bounds
  and the evaluator over parsed ranges answer alike, patch included.\<close>

theorem affected_fixed_parse_once:
  "affected_fixed c parse_bound at_or_after version ranges =
     affected_fixed_parsed c at_or_after version (map (parse_range parse_bound) ranges)"
  by (rule affected_fixed_eq)

text \<open>C8: a range written as ascending half-open intervals is evaluated as what it means: a version is
  affected exactly when it is inside one of them, and the patch named is that interval's end.\<close>

theorem single_range_meaning:
  assumes "rust_ord c" and "ascending c ivs" and "ivs \<noteq> []"
  shows "case affected_fixed_parsed c (plain_ge c) v
             [\<lparr>pr_matchable = True, pr_events = interval_events ivs\<rparr>] of
           NotAffected \<Rightarrow> \<not> list_ex (inside c v) ivs
         | Affected patch \<Rightarrow> list_ex (\<lambda>iv. inside c v iv \<and> cmp_opt c patch (snd iv) = Equal) ivs"
proof -
  let ?r = "\<lparr>pr_matchable = True, pr_events = interval_events ivs\<rparr>"
  have ev: "pr_events ?r = interval_events ivs" by simp
  have flag: "range_flag c (plain_ge c) v ?r \<longleftrightarrow> list_ex (inside c v) ivs"
    by (rule rust_ord.range_flag_intervals [OF assms ev])
  show ?thesis
  proof (cases "affected_fixed_parsed c (plain_ge c) v [?r]")
    case NotAffected
    then show ?thesis using affected_iff [of c "plain_ge c" v "[?r]"] flag by simp
  next
    case (Affected patch)
    then have "list_ex (inside c v) ivs" and "patch = min_by c (above_fixes c v (pr_events ?r))"
      using affected_result [of c "plain_ge c" v "[?r]" patch] Affected flag by simp_all
    then show ?thesis
      using rust_ord.patch_of_interval [OF assms(1,2) ev] unfolding Affected
      by (fastforce simp: list_ex_iff)
  qed
qed

theorem single_range_meaning_witness:
  "case affected_fixed_parsed ord_cmp (plain_ge ord_cmp) (5::nat)
        [\<lparr>pr_matchable = True, pr_events = interval_events [(0, Some 3), (4, Some 7), (9, None)]\<rparr>] of
     NotAffected \<Rightarrow> \<not> list_ex (inside ord_cmp (5::nat)) [(0, Some 3), (4, Some 7), (9, None)]
   | Affected patch \<Rightarrow> list_ex (\<lambda>iv. inside ord_cmp 5 iv \<and> cmp_opt ord_cmp patch (snd iv) = Equal)
       [(0, Some 3), (4, Some 7), (9, None)]"
  by (rule single_range_meaning [OF rust_ord_ord_cmp]) simp_all

text \<open>C6: no version inside a safe interval is affected by any range, the ones that did not match
  included: a planner that stays inside cannot land on a re-introduced branch.\<close>

theorem safe_intervals_are_safe:
  assumes "rust_ord c" and "(lo, til) \<in> set (safe_intervals c version ranges)"
    and "c w lo \<noteq> Less" and "til = None \<or> c w (the til) = Less"
  shows "affected_fixed_parsed c (plain_ge c) w ranges = NotAffected"
proof -
  have "inside c w (lo, til)" using assms(3,4) by (auto simp: inside_def split: option.split)
  from rust_ord.safe_intervals_sound [OF assms(1,2) this]
  show ?thesis by (simp add: is_affected_def)
qed

definition branch_example :: "nat parsed_range list" where
  "branch_example =
     [\<lparr>pr_matchable = True, pr_events = interval_events [(0, Some 182), (1830, Some 1832)]\<rparr>]"

theorem safe_intervals_are_safe_witness:
  "affected_fixed_parsed ord_cmp (plain_ge ord_cmp) 200 branch_example = NotAffected"
proof (rule safe_intervals_are_safe [OF rust_ord_ord_cmp, of 182 "Some 1830" 100])
  show "(182, Some 1830) \<in> set (safe_intervals ord_cmp 100 branch_example)" by code_simp
qed simp_all

text \<open>The safe intervals ascend without overlap, each starts above the version at a published fix,
  and each bounded one ends where some range is affected again.\<close>

theorem safe_intervals_shape:
  assumes "rust_ord c"
  shows "ascending c (safe_intervals c version ranges) \<and>
    list_all (\<lambda>(lo, til). c version lo = Less \<and>
        list_ex (\<lambda>r. pr_matchable r \<and>
          list_ex (\<lambda>e. case pe_fixed e of None \<Rightarrow> False | Some f \<Rightarrow> c lo f = Equal) (pr_events r)) ranges \<and>
        (case til of None \<Rightarrow> True
         | Some u \<Rightarrow> affected_fixed_parsed c (plain_ge c) u ranges \<noteq> NotAffected))
      (safe_intervals c version ranges)"
  using rust_ord.safe_intervals_ascending [OF assms] rust_ord.safe_intervals_start [OF assms]
  by (fastforce simp: list_all_iff list_ex_iff is_affected_def split: option.split)

theorem safe_intervals_shape_witness:
  "ascending ord_cmp (safe_intervals ord_cmp 100 branch_example) \<and>
    list_all (\<lambda>(lo, til). ord_cmp 100 lo = Less \<and>
        list_ex (\<lambda>r. pr_matchable r \<and>
          list_ex (\<lambda>e. case pe_fixed e of None \<Rightarrow> False | Some f \<Rightarrow> ord_cmp lo f = Equal) (pr_events r))
          branch_example \<and>
        (case til of None \<Rightarrow> True
         | Some u \<Rightarrow> affected_fixed_parsed ord_cmp (plain_ge ord_cmp) u branch_example \<noteq> NotAffected))
      (safe_intervals ord_cmp 100 branch_example)"
  by (rule safe_intervals_shape [OF rust_ord_ord_cmp])

text \<open>C7: no usable fix is missed: every published fix above an affected version that no range leaves
  affected lies inside one of the safe intervals.\<close>

theorem safe_intervals_complete:
  assumes "rust_ord c" and "affected_fixed_parsed c (plain_ge c) version ranges \<noteq> NotAffected"
    and "r \<in> set ranges" and "pr_matchable r" and "e \<in> set (pr_events r)" and "pe_fixed e = Some f"
    and "c version f = Less" and "affected_fixed_parsed c (plain_ge c) f ranges = NotAffected"
  shows "list_ex (inside c f) (safe_intervals c version ranges)"
proof -
  have "e \<in> set (all_events ranges)" using assms(3-5) by (auto simp: all_events_def)
  from rust_ord.safe_intervals_cover [OF assms(1) _ this assms(6,7)] assms(2,8)
  show ?thesis by (simp add: is_affected_def list_ex_iff)
qed

theorem safe_intervals_complete_witness:
  "list_ex (inside ord_cmp 1832) (safe_intervals ord_cmp 100 branch_example)"
  by (rule safe_intervals_complete [OF rust_ord_ord_cmp, where r = "hd branch_example"
        and e = "\<lparr>pe_introduced = None, pe_fixed = Some 1832, pe_last_affected = None\<rparr>"])
    (simp_all add: branch_example_def, code_simp+)

text \<open>A lower bound that cannot be parsed never reads as clean: only an upper bound that the version
  has reached can clear the range.\<close>

theorem unparseable_bound_is_loud:
  assumes "r \<in> set ranges" and "pr_matchable r" and "pr_events r = before @ e # after"
    and "pe_introduced e = Some Unparseable"
    and "list_all (\<lambda>x. (case pe_fixed x of None \<Rightarrow> True | Some f \<Rightarrow> c version f = Less) \<and>
           (case pe_last_affected x of None \<Rightarrow> True | Some l \<Rightarrow> c version l \<noteq> Greater)) (e # after)"
  shows "affected_fixed_parsed c at_or_after version ranges \<noteq> NotAffected"
proof -
  have "range_flag c at_or_after version r"
    unfolding range_flag_def using assms(5)
    by (intro unparseable_flag [OF assms(3,4)]) (auto simp: list_all_iff)
  then show ?thesis using assms(1,2) unfolding affected_iff by blast
qed

theorem unparseable_bound_is_loud_witness:
  "affected_fixed_parsed ord_cmp (plain_ge ord_cmp) (5::nat)
     [\<lparr>pr_matchable = True,
       pr_events = [\<lparr>pe_introduced = Some Unparseable, pe_fixed = Some 9, pe_last_affected = None\<rparr>]\<rparr>]
     \<noteq> NotAffected"
  by (rule unparseable_bound_is_loud [where before = "[]" and after = "[]"
        and e = "\<lparr>pe_introduced = Some Unparseable, pe_fixed = Some 9, pe_last_affected = None\<rparr>"])
    (auto simp: ord_cmp_def)

end
