(* ===== verification/Rust_Text.thy ===== *)
theory Rust_Text
  imports Version_Text
begin

text \<open>
  The rest of \<^verbatim>\<open>str\<close> that readers of text files lean on: lines and words, suffixes, searching for,
  splitting at and replacing a piece of text.
\<close>

section \<open>Lines and words\<close>

definition strip_suffix :: "string \<Rightarrow> string \<Rightarrow> string option" where
  "strip_suffix p s = map_option rev (strip_prefix (rev p) (rev s))"

text \<open>\<^verbatim>\<open>str::lines\<close>: the pieces that a line feed ends, each without one carriage return at its end,
  and what follows the last line feed when it is not empty.\<close>

definition text_lines :: "string \<Rightarrow> string list" where
  "text_lines text =
     (let pieces = split_at (char_of (10 :: nat)) text
      in map (\<lambda>l. case strip_suffix [char_of (13 :: nat)] l of None \<Rightarrow> l | Some rest \<Rightarrow> rest) (butlast pieces) @
         (if last pieces = [] then [] else [last pieces]))"

text \<open>\<^verbatim>\<open>split_whitespace\<close>: the maximal runs between separators that are not empty.\<close>

fun ws_words :: "nat \<Rightarrow> string \<Rightarrow> string \<Rightarrow> string list" where
  "ws_words n acc s =
     (case n of
        0 \<Rightarrow> []
      | Suc m \<Rightarrow>
          (case s of
             [] \<Rightarrow> (if acc = [] then [] else [rev acc])
           | c # cs \<Rightarrow>
               (case strip_space white_space s of
                  Some rest \<Rightarrow> (if acc = [] then [] else [rev acc]) @ ws_words m [] rest
                | None \<Rightarrow> ws_words m (c # acc) cs)))"

declare ws_words.simps [simp del]

definition split_whitespace :: "string \<Rightarrow> string list" where
  "split_whitespace s = ws_words (Suc (length s)) [] s"

section \<open>Searching and replacing\<close>

definition contains_str :: "string \<Rightarrow> string \<Rightarrow> bool" where
  "contains_str p s \<longleftrightarrow> split_once_str p s \<noteq> None"

text \<open>\<^verbatim>\<open>rsplit_once\<close> at a longer separator: the text before and after its last occurrence.\<close>

definition rsplit_once_str :: "string \<Rightarrow> string \<Rightarrow> (string \<times> string) option" where
  "rsplit_once_str p s = map_option (\<lambda>(a, b). (rev b, rev a)) (split_once_str (rev p) (rev s))"

text \<open>
  \<^verbatim>\<open>str::replace\<close> of a pattern that is not empty: its occurrences from left to right, none
  overlapping the one before.
\<close>

function replace_str :: "string \<Rightarrow> string \<Rightarrow> string \<Rightarrow> string" where
  "replace_str p t s =
     (if p = [] then s
      else (case split_once_str p s of None \<Rightarrow> s | Some (a, b) \<Rightarrow> a @ t @ replace_str p t b))"
  by pat_completeness auto

lemma starts_with_iff: "starts_with p s \<longleftrightarrow> (\<exists>r. s = p @ r)"
  unfolding starts_with_def by (metis not_None_eq strip_prefix_Some)

lemma strip_prefix_append [simp]: "strip_prefix p (p @ r) = Some r"
  by (simp add: strip_prefix_Some)

lemma starts_with_append [simp]: "starts_with p (p @ r)"
  by (simp add: starts_with_def)

lemma strip_suffix_Some: "strip_suffix p s = Some r \<longleftrightarrow> s = r @ p"
proof
  assume "strip_suffix p s = Some r"
  then have "rev s = rev p @ rev r" by (auto simp: strip_suffix_def strip_prefix_Some)
  then show "s = r @ p" by (metis rev_append rev_rev_ident)
qed (simp add: strip_suffix_def)

lemma ends_with_iff: "ends_with p s \<longleftrightarrow> (\<exists>r. s = r @ p)"
  unfolding ends_with_def starts_with_iff by (metis rev_append rev_rev_ident)

lemma split_once_str_Some: "split_once_str p s = Some (a, b) \<Longrightarrow> s = a @ p @ b"
proof (induction p s arbitrary: a b rule: split_once_str.induct)
  case (1 p s)
  show ?case
  proof (cases "strip_prefix p s")
    case None
    then obtain c cs a' where "s = c # cs" "split_once_str p cs = Some (a', b)" "a = c # a'"
      using "1.prems" by (subst (asm) split_once_str.simps) (auto split: list.splits)
    then show ?thesis using "1.IH" [OF None] by simp
  next
    case (Some r)
    then show ?thesis using "1.prems" by (subst (asm) split_once_str.simps) (simp add: strip_prefix_Some)
  qed
qed

lemma split_once_str_shorter: "split_once_str p s = Some (a, b) \<Longrightarrow> p \<noteq> [] \<Longrightarrow> length b < length s"
  by (drule split_once_str_Some) simp

lemma split_once_str_occurs: "split_once_str p (a @ p @ b) \<noteq> None"
proof (induction a)
  case Nil
  then show ?case by (subst split_once_str.simps) simp
next
  case (Cons c a)
  then show ?case by (subst split_once_str.simps) (auto split: option.splits)
qed

lemma contains_str_iff: "contains_str p s \<longleftrightarrow> (\<exists>a b. s = a @ p @ b)"
  unfolding contains_str_def using split_once_str_occurs split_once_str_Some by (metis not_None_eq surj_pair)

termination replace_str
  by (relation "measure (\<lambda>(p, t, s). length s)") (auto simp: split_once_str_shorter)

declare replace_str.simps [simp del]

lemma replace_str_none: "\<not> contains_str p s \<Longrightarrow> replace_str p t s = s"
  by (subst replace_str.simps) (simp only: contains_str_def not_not option.case if_cancel)

text \<open>\<^verbatim>\<open>str::split\<close> at a piece of text that is not empty.\<close>

function split_str :: "string \<Rightarrow> string \<Rightarrow> string list" where
  "split_str p s =
     (if p = [] then [s]
      else (case split_once_str p s of None \<Rightarrow> [s] | Some (a, b) \<Rightarrow> a # split_str p b))"
  by pat_completeness auto

termination split_str
  by (relation "measure (\<lambda>(p, s). length s)") (auto simp: split_once_str_shorter)

declare split_str.simps [simp del]

section \<open>Pieces at a character\<close>

lemma split_on_ne [simp]: "split_on p s \<noteq> []"
  by (induction p s rule: split_on.induct) (auto split: list.splits)

lemma split_once_Some: "split_once d s = Some (a, b) \<longleftrightarrow> s = a @ d # b \<and> d \<notin> set a"
proof (induction d s arbitrary: a b rule: split_once.induct)
  case (2 d c cs)
  then show ?case by (cases a) auto
qed simp

lemma split_once_None: "split_once d s = None \<longleftrightarrow> d \<notin> set s"
  by (induction d s rule: split_once.induct) auto

lemma split_once_append [simp]: "d \<notin> set a \<Longrightarrow> split_once d (a @ d # b) = Some (a, b)"
  by (simp add: split_once_Some)

lemma split_on_append: "\<forall>c \<in> set a. \<not> p c \<Longrightarrow> p d \<Longrightarrow> split_on p (a @ d # b) = a # split_on p b"
  by (induction a) (simp_all split: list.splits)

lemma split_on_none: "\<forall>c \<in> set a. \<not> p c \<Longrightarrow> split_on p a = [a]"
  by (induction a) simp_all

lemma hd_split_at: "hd (split_at d s) = (case split_once d s of None \<Rightarrow> s | Some (a, _) \<Rightarrow> a)"
proof (cases "split_once d s")
  case None
  then show ?thesis using split_on_none [of s "\<lambda>c. c = d"] by (metis (no_types, lifting) list.sel(1) option.case(1) split_once_None)
next
  case (Some ab)
  then obtain a b where "s = a @ d # b" "d \<notin> set a" and ab: "ab = (a, b)"
    by (cases ab) (auto simp: split_once_Some)
  moreover from this have "split_at d s = a # split_at d b" using split_on_append [of a "\<lambda>c. c = d" d b] by auto
  ultimately show ?thesis using Some by simp
qed

end
