(* ===== verification/Core_Model.thy ===== *)
theory Core_Model
  imports Rust_Map Rust_Text Complex_Main
begin

text \<open>
  The shared finding model, \<^verbatim>\<open>crates/core/src/{severity,finding,outcome}.rs\<close>: severities,
  ecosystems, occurrences and their verdict, findings and warnings, and the contract every
  package-level feeder builds its findings under (\<^verbatim>\<open>Reachability::tier_c_unknown\<close> and
  \<^verbatim>\<open>TierCFinding::build\<close>).  SemVer versions and requirements are type parameters, read through
  \<open>semver_lib\<close>.  A CVSS or EPSS score is a rational: the program only compares them.
\<close>

section \<open>Severity and ecosystem\<close>

datatype severity = Unknown | Low | Medium | High | Critical

primrec sev_rank :: "severity \<Rightarrow> nat" where
  "sev_rank Unknown = 0"
| "sev_rank Low = 1"
| "sev_rank Medium = 2"
| "sev_rank High = 3"
| "sev_rank Critical = 4"

lemma sev_rank_inj [simp]: "sev_rank x = sev_rank y \<longleftrightarrow> x = y"
  by (cases x; cases y) simp_all

instantiation severity :: linorder
begin

definition less_eq_severity :: "severity \<Rightarrow> severity \<Rightarrow> bool" where
  "less_eq_severity x y = (sev_rank x \<le> sev_rank y)"

definition less_severity :: "severity \<Rightarrow> severity \<Rightarrow> bool" where
  "less_severity x y = (sev_rank x < sev_rank y)"

instance
  by standard (auto simp: less_eq_severity_def less_severity_def)

end

lemma Unknown_least [simp]: "Unknown \<le> s" and Critical_greatest [simp]: "s \<le> Critical"
  by (cases s; simp add: less_eq_severity_def)+

datatype ecosystem =
  Cargo | Go | Npm | Pypi | RubyGems | Packagist | NuGet | Julia | Swift | Hex | Maven
| GitHubActions | Deb | Apk | Rpm

primrec eco_rank :: "ecosystem \<Rightarrow> nat" where
  "eco_rank Cargo = 0"
| "eco_rank Go = 1"
| "eco_rank Npm = 2"
| "eco_rank Pypi = 3"
| "eco_rank RubyGems = 4"
| "eco_rank Packagist = 5"
| "eco_rank NuGet = 6"
| "eco_rank Julia = 7"
| "eco_rank Swift = 8"
| "eco_rank Hex = 9"
| "eco_rank Maven = 10"
| "eco_rank GitHubActions = 11"
| "eco_rank Deb = 12"
| "eco_rank Apk = 13"
| "eco_rank Rpm = 14"

lemma eco_rank_inj [simp]: "eco_rank x = eco_rank y \<longleftrightarrow> x = y"
  by (cases x; cases y) simp_all

instantiation ecosystem :: linorder
begin

definition less_eq_ecosystem :: "ecosystem \<Rightarrow> ecosystem \<Rightarrow> bool" where
  "less_eq_ecosystem x y = (eco_rank x \<le> eco_rank y)"

definition less_ecosystem :: "ecosystem \<Rightarrow> ecosystem \<Rightarrow> bool" where
  "less_ecosystem x y = (eco_rank x < eco_rank y)"

instance
  by standard (auto simp: less_eq_ecosystem_def less_ecosystem_def)

end

datatype warn_kind = Unmaintained | Yanked | Unsound | Notice

primrec warn_rank :: "warn_kind \<Rightarrow> nat" where
  "warn_rank Unmaintained = 0"
| "warn_rank Yanked = 1"
| "warn_rank Unsound = 2"
| "warn_rank Notice = 3"

lemma warn_rank_inj [simp]: "warn_rank x = warn_rank y \<longleftrightarrow> x = y"
  by (cases x; cases y) simp_all

instantiation warn_kind :: linorder
begin

definition less_eq_warn_kind :: "warn_kind \<Rightarrow> warn_kind \<Rightarrow> bool" where
  "less_eq_warn_kind x y = (warn_rank x \<le> warn_rank y)"

definition less_warn_kind :: "warn_kind \<Rightarrow> warn_kind \<Rightarrow> bool" where
  "less_warn_kind x y = (warn_rank x < warn_rank y)"

instance
  by standard (auto simp: less_eq_warn_kind_def less_warn_kind_def)

end

section \<open>Occurrences\<close>

type_synonym repo_id = string
type_synonym score = rat

datatype dependency_kind = Direct | Transitive

datatype dep_scope = Runtime | Dev

datatype dep_source =
  CratesIo
| Git string "string option"
| PathDep
| OtherRegistry string

record image_layer =
  il_index :: nat
  il_digest :: "string option"
  il_created_by :: "string option"
  il_base :: bool

record ('v, 'r) in_repo =
  ir_repo :: repo_id
  ir_package :: string
  ir_installed :: 'v
  ir_patched :: "'r list"
  ir_kind :: dependency_kind
  ir_path :: "string list"
  ir_active :: "bool option"
  ir_source :: dep_source
  ir_scope :: dep_scope
  ir_layer :: "image_layer option"

datatype ('v, 'r) occurrence =
  InRepo "('v, 'r) in_repo"
| Toolchain string "'v option" "'r list"

definition covered_by :: "('v, 'r) semver_lib \<Rightarrow> 'r list \<Rightarrow> 'v \<Rightarrow> bool" where
  "covered_by lib patched version \<longleftrightarrow> list_ex (\<lambda>req. req_matches lib req version) patched"

definition is_vulnerable :: "('v, 'r) semver_lib \<Rightarrow> ('v, 'r) occurrence \<Rightarrow> bool" where
  "is_vulnerable lib occ =
     (case occ of
        InRepo r \<Rightarrow> \<not> covered_by lib (ir_patched r) (ir_installed r)
      | Toolchain channel installed patched \<Rightarrow>
          (case installed of
             Some version \<Rightarrow> \<not> covered_by lib patched version
           | None \<Rightarrow> True))"

section \<open>Findings\<close>

datatype reach_verdict = Reachable "string list" | NotReachable | ReachUnknown string

record import_site =
  im_repo :: repo_id
  im_file :: string
  im_line :: nat

record reachability =
  rc_verdict :: reach_verdict
  rc_config :: string
  rc_engine :: string
  rc_targets :: "string list"
  rc_witness :: "string option"
  rc_import_site :: "import_site option"

record exploitability =
  ex_kev :: bool
  ex_epss :: "score option"
  ex_percentile :: "score option"

record ('v, 'r) vuln_finding =
  vf_id :: string
  vf_aliases :: "string list"
  vf_ecosystem :: ecosystem
  vf_title :: string
  vf_severity :: severity
  vf_cvss :: "score option"
  vf_vector :: "string option"
  vf_url :: "string option"
  vf_occurrences :: "('v, 'r) occurrence list"
  vf_functions :: "string list"
  vf_reachable :: "bool option"
  vf_reachability :: "reachability option"
  vf_exploit :: exploitability

record ('v, 'r) warn_finding =
  wf_kind :: warn_kind
  wf_id :: "string option"
  wf_title :: string
  wf_occurrences :: "('v, 'r) occurrence list"

definition tier_c_unknown :: "string \<Rightarrow> reachability" where
  "tier_c_unknown reason =
     \<lparr>rc_verdict = ReachUnknown reason, rc_config = ''package-level'',
      rc_engine = ''fleetreach-tier-c'', rc_targets = [], rc_witness = None,
      rc_import_site = None\<rparr>"

definition as_legacy_bool :: "reachability \<Rightarrow> bool option" where
  "as_legacy_bool r =
     (case rc_verdict r of
        Reachable _ \<Rightarrow> Some True
      | NotReachable \<Rightarrow> Some False
      | ReachUnknown _ \<Rightarrow> None)"

definition no_exploit :: exploitability where
  "no_exploit = \<lparr>ex_kev = False, ex_epss = None, ex_percentile = None\<rparr>"

datatype scan_status = Scanned nat nat | Errored string

record repo_outcome =
  ro_repo :: repo_id
  ro_status :: scan_status

section \<open>Building a package-level finding\<close>

record ('v, 'r) tier_c_finding =
  tc_ecosystem :: ecosystem
  tc_id :: string
  tc_aliases :: "string list"
  tc_title :: string
  tc_severity :: severity
  tc_cvss :: "score option"
  tc_vector :: "string option"
  tc_package :: string
  tc_installed :: 'v
  tc_patched :: "'r list"
  tc_direct :: bool
  tc_dev :: bool
  tc_path :: "string list"
  tc_repo :: repo_id
  tc_reason :: string

definition advisory_url :: "string \<Rightarrow> string" where
  "advisory_url ident = ''https://osv.dev/vulnerability/'' @ ident"

definition tier_c_build :: "('v, 'r) tier_c_finding \<Rightarrow> ('v, 'r) vuln_finding" where
  "tier_c_build f =
     \<lparr>vf_id = tc_id f, vf_aliases = tc_aliases f, vf_ecosystem = tc_ecosystem f,
      vf_title = join_with '' '' (split_whitespace (tc_title f)),
      vf_severity = tc_severity f, vf_cvss = tc_cvss f, vf_vector = tc_vector f,
      vf_url = Some (advisory_url (tc_id f)),
      vf_occurrences =
        [InRepo \<lparr>ir_repo = tc_repo f, ir_package = tc_package f, ir_installed = tc_installed f,
           ir_patched = tc_patched f, ir_kind = (if tc_direct f then Direct else Transitive),
           ir_path = tc_path f, ir_active = None, ir_source = CratesIo,
           ir_scope = (if tc_dev f then Dev else Runtime), ir_layer = None\<rparr>],
      vf_functions = [], vf_reachable = None,
      vf_reachability = Some (tier_c_unknown (tc_reason f)), vf_exploit = no_exploit\<rparr>"

section \<open>Properties\<close>

text \<open>No published fix, or an installed version nobody knows, counts as vulnerable.\<close>

lemma is_vulnerable_no_fix [simp]:
  "ir_patched r = [] \<Longrightarrow> is_vulnerable lib (InRepo r)"
  "is_vulnerable lib (Toolchain ch None p)"
  by (simp_all add: is_vulnerable_def covered_by_def)

lemma is_vulnerable_InRepo:
  "is_vulnerable lib (InRepo r) \<longleftrightarrow> \<not> (\<exists>req \<in> set (ir_patched r). req_matches lib req (ir_installed r))"
  by (auto simp: is_vulnerable_def covered_by_def list_ex_iff)

text \<open>A package-level finding never claims that nothing reaches the code.\<close>

lemma tier_c_legacy: "as_legacy_bool (tier_c_unknown reason) = None"
  by (simp add: as_legacy_bool_def tier_c_unknown_def)

lemma tier_c_build_sound:
  "vf_reachable (tier_c_build f) = None \<and>
   (\<forall>r. vf_reachability (tier_c_build f) = Some r \<longrightarrow> rc_verdict r \<noteq> NotReachable)"
  by (simp add: tier_c_build_def tier_c_unknown_def)

end
