(* ===== verification/Rust_Groups.thy ===== *)
theory Rust_Groups
  imports Rust_Map
begin

text \<open>
  Grouping a list by a key with \<^verbatim>\<open>entry(key).or_default().push(value)\<close>: the groups of the map
  partition the values, each group holds the values of one key in order, and every value is in
  one.
\<close>

definition group_by :: "'k cmp \<Rightarrow> ('a \<Rightarrow> 'k) \<Rightarrow> ('a \<Rightarrow> 'b) \<Rightarrow> 'a list \<Rightarrow> ('k, 'b list) btree" where
  "group_by c key val xs = fold (\<lambda>x. bt_push c (key x) (val x)) xs []"

lemma mset_bt_push:
  "mset (concat (map snd (bt_push c k v m))) = add_mset v (mset (concat (map snd m)))"
proof -
  have "mset (concat (map snd (bt_alter c k (\<lambda>old. (case old of None \<Rightarrow> [] | Some vs \<Rightarrow> vs) @ [v]) m))) =
      add_mset v (mset (concat (map snd m)))"
    by (induction m rule: bt_alter.induct
        [of "\<lambda>c k f m. mset (concat (map snd (bt_alter c k (\<lambda>old. (case old of None \<Rightarrow> [] | Some vs \<Rightarrow> vs) @ [v]) m))) =
          add_mset v (mset (concat (map snd m)))" for k])
      (simp_all split: ordering.split)
  then show ?thesis by (simp add: bt_push_def)
qed

text \<open>The groups hold exactly the values, each as often as it was pushed.\<close>

lemma mset_group_by: "mset (concat (map snd (group_by c key val xs))) = mset (map val xs)"
proof -
  have "mset (concat (map snd (fold (\<lambda>x. bt_push c (key x) (val x)) xs m))) =
      mset (map val xs) + mset (concat (map snd m))" for m
  proof (induction xs arbitrary: m)
    case (Cons x xs)
    show ?case unfolding fold_simps comp_def Cons.IH mset_bt_push by simp
  qed simp
  from this [of "[]"] show ?thesis by (simp add: group_by_def)
qed

lemma distinct_group_by:
  "distinct (map val xs) \<Longrightarrow> distinct (concat (map snd (group_by c key val xs)))"
  by (metis mset_eq_imp_distinct_iff mset_group_by)

context rust_ord
begin

lemma group_by_entry:
  assumes "(k, vs) \<in> set (group_by cmp key val xs)"
  shows "vs = map val (filter (\<lambda>x. cmp k (key x) = Equal) xs) \<and> vs \<noteq> []"
proof -
  have "bt_get cmp k (group_by cmp key val xs) = Some vs"
    using assms unfolding group_by_def by (intro bt_get_mem wf_push_group)
  then show ?thesis
    unfolding group_by_def get_push_group by (auto simp: Let_def split: if_splits)
qed

lemma group_by_cover:
  assumes "x \<in> set xs"
  obtains k where "(k, map val (filter (\<lambda>y. cmp (key x) (key y) = Equal) xs)) \<in> set (group_by cmp key val xs)"
    and "cmp (key x) k = Equal"
proof -
  have "filter (\<lambda>y. cmp (key x) (key y) = Equal) xs \<noteq> []" using assms cmp_refl by (metis (mono_tags) filter_empty_conv)
  then have "bt_get cmp (key x) (group_by cmp key val xs) =
      Some (map val (filter (\<lambda>y. cmp (key x) (key y) = Equal) xs))"
    unfolding group_by_def get_push_group by (simp add: Let_def)
  from bt_get_SomeD [OF this] show thesis using that by blast
qed

end

end
