(* ===== verification/Rust_Result.thy ===== *)
theory Rust_Result
  imports Rust_Str
begin

text \<open>
  Fallible code: a \<^verbatim>\<open>Result\<close> is a sum with the error on the left, \<open>and_then\<close> is the question mark,
  and \<open>try_fold\<close> is a loop whose body may leave the function with an error.
\<close>

primrec and_then :: "'e + 'a \<Rightarrow> ('a \<Rightarrow> 'e + 'b) \<Rightarrow> 'e + 'b" where
  "and_then (Inl e) f = Inl e"
| "and_then (Inr x) f = f x"

definition ok_or :: "'e \<Rightarrow> 'a option \<Rightarrow> 'e + 'a" where
  "ok_or e x = (case x of None \<Rightarrow> Inl e | Some y \<Rightarrow> Inr y)"

fun try_fold :: "('a \<Rightarrow> 's \<Rightarrow> 'e + 's) \<Rightarrow> 'a list \<Rightarrow> 's \<Rightarrow> 'e + 's" where
  "try_fold f [] s = Inr s"
| "try_fold f (x # xs) s = and_then (f x s) (try_fold f xs)"

named_theorems result_simps \<open>when a fallible step succeeds, and with what\<close>

lemma and_then_Inr [result_simps]: "and_then r f = Inr y \<longleftrightarrow> (\<exists>x. r = Inr x \<and> f x = Inr y)"
  by (cases r) simp_all

lemma ok_or_Inr [result_simps]: "ok_or e x = Inr y \<longleftrightarrow> x = Some y"
  by (cases x) (simp_all add: ok_or_def)

lemma ok_or_simps [simp]: "ok_or e (Some y) = Inr y" "ok_or e None = Inl e"
  by (simp_all add: ok_or_def)

lemma if_Inl_Inr [result_simps]:
  "(if b then Inl e else r) = Inr y \<longleftrightarrow> \<not> b \<and> r = Inr y"
  by simp

lemma try_fold_snoc: "try_fold f (xs @ [x]) s = and_then (try_fold f xs s) (f x)"
proof (induction xs arbitrary: s)
  case Nil
  show ?case by (cases "f x s") simp_all
next
  case (Cons y ys)
  then show ?case by (cases "f y s") simp_all
qed

text \<open>A property that holds before the loop and that every successful step keeps holds after it.\<close>

lemma try_fold_invariant:
  "try_fold f xs s = Inr t \<Longrightarrow> P [] s \<Longrightarrow>
     (\<And>ys x s s'. P ys s \<Longrightarrow> f x s = Inr s' \<Longrightarrow> P (ys @ [x]) s') \<Longrightarrow> P xs t"
proof (induction xs arbitrary: t rule: rev_induct)
  case (snoc x xs)
  then obtain u where "try_fold f xs s = Inr u" and "f x u = Inr t"
    by (auto simp: try_fold_snoc result_simps)
  then show ?case using snoc by blast
qed simp

end
