(* ===== verification/Osv_Db.thy ===== *)
theory Osv_Db
  imports Core_Model Osv_Ranges Rust_Groups Rust_Result
begin

text \<open>
  The offline advisory database every package-level feeder loads, \<^verbatim>\<open>crates/core/src/osv.rs\<close>: what one
  OSV record contributes, the index by package name, and an organisation's overlay that
  replaces, adds and retracts records.  The directory or archive a mirror is read from is a
  list of what reading each file in path order gave: an error or a record.  The \<^verbatim>\<open>cvss\<close> crate's
  vector parser with its base score is a parameter, and so is the ecosystem's version type with
  its \<^verbatim>\<open>Ord\<close>.
\<close>

section \<open>Records as read\<close>

record raw_event =
  re_introduced :: "string option"
  re_fixed :: "string option"
  re_last_affected :: "string option"

record raw_range =
  rr_kind :: "string option"
  rr_events :: "raw_event list"

record osv_package =
  pk_name :: "string option"
  pk_ecosystem :: "string option"

record affected_entry =
  af_package :: osv_package
  af_ranges :: "raw_range list"
  af_versions :: "string list option"

record database_specific =
  db_severity :: "string option"

record severity_entry =
  se_kind :: "string option"
  se_score :: "string option"

record osv_record =
  os_id :: string
  os_aliases :: "string list option"
  os_summary :: "string option"
  os_withdrawn :: "string option"
  os_affected :: "affected_entry list"
  os_severity :: "severity_entry list"
  os_database_specific :: "database_specific option"

section \<open>Severity\<close>

text \<open>The bands of the \<^verbatim>\<open>cvss\<close> crate and its parser: the band and base score of a v3 vector.\<close>

datatype cvss_band = BandNone | BandLow | BandMedium | BandHigh | BandCritical

type_synonym cvss_parser = "string \<Rightarrow> (cvss_band \<times> score) option"

primrec band_from_cvss :: "cvss_band \<Rightarrow> severity" where
  "band_from_cvss BandNone = Unknown"
| "band_from_cvss BandLow = Low"
| "band_from_cvss BandMedium = Medium"
| "band_from_cvss BandHigh = High"
| "band_from_cvss BandCritical = Critical"

definition band_from_label :: "string \<Rightarrow> severity" where
  "band_from_label label =
     (let l = to_ascii_uppercase label in
      if l = ''LOW'' then Low
      else if l = ''MODERATE'' \<or> l = ''MEDIUM'' then Medium
      else if l = ''HIGH'' then High
      else if l = ''CRITICAL'' then Critical
      else Unknown)"

definition severity_from ::
  "cvss_parser \<Rightarrow> severity_entry list \<Rightarrow> database_specific option \<Rightarrow> severity \<times> score option" where
  "severity_from cvss entries dbs =
     (let band = (case Option.bind dbs db_severity of None \<Rightarrow> Unknown | Some l \<Rightarrow> band_from_label l);
          scored = max_by (cmp_on snd ord_cmp)
            (List.map_filter
              (\<lambda>s. Option.bind (se_score s)
                (\<lambda>v. map_option (\<lambda>(b, score). (band_from_cvss b, score)) (cvss v)))
              (filter (\<lambda>s. se_kind s = Some ''CVSS_V3'') entries))
      in (if band \<noteq> Unknown then band else (case scored of None \<Rightarrow> Unknown | Some (b, _) \<Rightarrow> b),
          map_option snd scored))"

definition default_severity :: "cvss_parser \<Rightarrow> osv_record \<Rightarrow> severity \<times> score option" where
  "default_severity cvss osv = severity_from cvss (os_severity osv) (os_database_specific osv)"

definition vector_of_kind :: "severity_entry list \<Rightarrow> string \<Rightarrow> string option" where
  "vector_of_kind entries kind =
     Option.bind (List.find (\<lambda>s. se_kind s = Some kind) entries) se_score"

definition cvss_vector_in :: "severity_entry list \<Rightarrow> string option" where
  "cvss_vector_in entries =
     (case vector_of_kind entries ''CVSS_V3'' of
        Some v \<Rightarrow> Some v
      | None \<Rightarrow> vector_of_kind entries ''CVSS_V4'')"

definition cvss_vector_of :: "osv_record \<Rightarrow> string option" where
  "cvss_vector_of osv = cvss_vector_in (os_severity osv)"

section \<open>Advisories\<close>

record 'v advisory =
  ad_id :: string
  ad_aliases :: "string list"
  ad_summary :: "string option"
  ad_severity :: severity
  ad_cvss :: "score option"
  ad_vector :: "string option"
  ad_ranges :: "'v parsed_range list"
  ad_versions :: "'v list"

text \<open>The knobs of one ecosystem; its version order \<^verbatim>\<open>Ord\<close> is the last field.\<close>

record 'v osv_spec =
  sc_ecosystem :: string
  sc_range_type :: string
  sc_parse :: "string \<Rightarrow> 'v option"
  sc_normalize :: "string \<Rightarrow> string"
  sc_use_versions :: bool
  sc_severity :: "osv_record \<Rightarrow> severity \<times> score option"
  sc_cmp :: "'v cmp"

definition matchable_kind :: "string \<Rightarrow> string option \<Rightarrow> bool" where
  "matchable_kind range_type kind =
     (case kind of None \<Rightarrow> False | Some k \<Rightarrow> list_ex (\<lambda>t. t = k) (split_at (CHR ''|'') range_type))"

definition raw_to_range :: "string \<Rightarrow> raw_range \<Rightarrow> osv_range" where
  "raw_to_range range_type r =
     \<lparr>rg_matchable = matchable_kind range_type (rr_kind r),
      rg_events = map (\<lambda>e. \<lparr>ev_introduced = re_introduced e, ev_fixed = re_fixed e,
                            ev_last_affected = re_last_affected e\<rparr>) (rr_events r)\<rparr>"

definition sort_dedup :: "'v cmp \<Rightarrow> 'v list \<Rightarrow> 'v list" where
  "sort_dedup c vs = dedup_by (\<lambda>a b. c a b = Equal) (sort_by c vs)"

definition affected_advisory ::
  "'v osv_spec \<Rightarrow> osv_record \<Rightarrow> affected_entry \<Rightarrow> (string \<times> 'v advisory) option" where
  "affected_advisory spec osv a =
     (case pk_name (af_package a) of
        None \<Rightarrow> None
      | Some raw \<Rightarrow>
          Some (sc_normalize spec raw,
            \<lparr>ad_id = os_id osv,
             ad_aliases = (case os_aliases osv of None \<Rightarrow> [] | Some as \<Rightarrow> as),
             ad_summary = os_summary osv,
             ad_severity = fst (sc_severity spec osv),
             ad_cvss = snd (sc_severity spec osv),
             ad_vector = cvss_vector_of osv,
             ad_ranges = map (\<lambda>r. parse_range (sc_parse spec) (raw_to_range (sc_range_type spec) r)) (af_ranges a),
             ad_versions = sort_dedup (sc_cmp spec)
               (if sc_use_versions spec
                then List.map_filter (sc_parse spec) (case af_versions a of None \<Rightarrow> [] | Some vs \<Rightarrow> vs)
                else [])\<rparr>))"

text \<open>One entry per package name, in order of first appearance.\<close>

fun merge_entry ::
  "'v cmp \<Rightarrow> string \<times> 'v advisory \<Rightarrow> (string \<times> 'v advisory) list \<Rightarrow> (string \<times> 'v advisory) list" where
  "merge_entry c (name, adv) [] = [(name, adv)]"
| "merge_entry c (name, adv) ((n, kept) # rest) =
     (if n = name
      then (n, kept\<lparr>ad_ranges := ad_ranges kept @ ad_ranges adv,
                    ad_versions := sort_dedup c (ad_versions kept @ ad_versions adv)\<rparr>) # rest
      else (n, kept) # merge_entry c (name, adv) rest)"

definition advisories_from :: "'v osv_spec \<Rightarrow> osv_record \<Rightarrow> (string \<times> 'v advisory) list" where
  "advisories_from spec osv =
     (if os_withdrawn osv \<noteq> None then []
      else fold (merge_entry (sc_cmp spec))
        (List.map_filter (affected_advisory spec osv)
          (filter (\<lambda>a. pk_ecosystem (af_package a) = Some (sc_ecosystem spec)) (os_affected osv))) [])"

section \<open>The database\<close>

type_synonym 'v osv_db = "(string, 'v advisory list) btree"

definition advisories_for :: "string \<Rightarrow> 'v osv_db \<Rightarrow> 'v advisory list" where
  "advisories_for key db = (case bt_get str_cmp key db of None \<Rightarrow> [] | Some advs \<Rightarrow> advs)"

definition db_len :: "'v osv_db \<Rightarrow> nat" where
  "db_len db = sum_list (map (\<lambda>p. length (snd p)) db)"

definition db_iter :: "'v osv_db \<Rightarrow> (string \<times> 'v advisory) list" where
  "db_iter db = concat (map (\<lambda>(key, advs). map (Pair key) advs) db)"

definition db_push :: "string \<times> 'v advisory \<Rightarrow> 'v osv_db \<Rightarrow> 'v osv_db" where
  "db_push entry db = bt_push str_cmp (fst entry) (snd entry) db"

definition merge_files :: "(string \<times> 'v advisory) list list \<Rightarrow> 'v osv_db" where
  "merge_files per_file = fold (\<lambda>record db. fold db_push record db) per_file []"

definition unless_skipped ::
  "'v osv_spec \<Rightarrow> string bset \<Rightarrow> osv_record \<Rightarrow> (string \<times> 'v advisory) list" where
  "unless_skipped spec skip osv =
     (if bs_mem str_cmp (os_id osv) skip then [] else advisories_from spec osv)"

text \<open>\<^verbatim>\<open>collect::<Result<_, _>>\<close>: the first error, or every value.\<close>

fun collect_results :: "('e + 'a) list \<Rightarrow> 'e + 'a list" where
  "collect_results [] = Inr []"
| "collect_results (r # rs) =
     and_then r (\<lambda>x. and_then (collect_results rs) (\<lambda>xs. Inr (x # xs)))"

definition load_skipping ::
  "'v osv_spec \<Rightarrow> string bset \<Rightarrow> ('e + osv_record) list \<Rightarrow> 'e + 'v osv_db" where
  "load_skipping spec skip mirror =
     and_then (collect_results mirror) (\<lambda>records. Inr (merge_files (map (unless_skipped spec skip) records)))"

definition load :: "'v osv_spec \<Rightarrow> ('e + osv_record) list \<Rightarrow> 'e + 'v osv_db" where
  "load spec mirror = load_skipping spec [] mirror"

definition load_with_overlay ::
  "'v osv_spec \<Rightarrow> ('e + osv_record) list option \<Rightarrow> ('e + osv_record) list \<Rightarrow> 'e + 'v osv_db" where
  "load_with_overlay spec overlay mirror =
     (case overlay of
        None \<Rightarrow> load spec mirror
      | Some files \<Rightarrow>
          and_then (collect_results files) (\<lambda>records.
          and_then (load_skipping spec (bs_of_list str_cmp (map os_id records)) mirror) (\<lambda>db.
            Inr (fold (\<lambda>record db. fold db_push (advisories_from spec record) db) records db))))"

section \<open>What one record contributes\<close>

lemma withdrawn_contributes_nothing: "os_withdrawn osv \<noteq> None \<Longrightarrow> advisories_from spec osv = []"
  by (simp add: advisories_from_def)

definition entries_of :: "'v osv_spec \<Rightarrow> osv_record \<Rightarrow> (string \<times> 'v advisory) list" where
  "entries_of spec osv =
     (if os_withdrawn osv \<noteq> None then []
      else List.map_filter (affected_advisory spec osv)
        (filter (\<lambda>a. pk_ecosystem (af_package a) = Some (sc_ecosystem spec)) (os_affected osv)))"

lemma advisories_from_entries:
  "advisories_from spec osv = fold (merge_entry (sc_cmp spec)) (entries_of spec osv) []"
  by (simp add: advisories_from_def entries_of_def)

lemma names_merge_entry:
  "fst ` set (merge_entry c (name, adv) m) = insert name (fst ` set m)"
  "distinct (map fst m) \<Longrightarrow> distinct (map fst (merge_entry c (name, adv) m))"
proof -
  show names: "fst ` set (merge_entry c (name, adv) m) = insert name (fst ` set m)"
    by (induction c "(name, adv)" m rule: merge_entry.induct) auto
  show "distinct (map fst m) \<Longrightarrow> distinct (map fst (merge_entry c (name, adv) m))"
  proof (induction m)
    case (Cons p m)
    obtain n kept where p: "p = (n, kept)" by (cases p)
    have "fst ` set (merge_entry c (name, adv) m) = insert name (fst ` set m)"
      by (induction c "(name, adv)" m rule: merge_entry.induct) auto
    then show ?case using Cons by (auto simp: p)
  qed simp
qed

lemma map_of_merge_entry:
  "map_of (merge_entry c (name, adv) m) k =
     (if k = name then Some (case map_of m name of
          None \<Rightarrow> adv
        | Some kept \<Rightarrow> kept\<lparr>ad_ranges := ad_ranges kept @ ad_ranges adv,
                            ad_versions := sort_dedup c (ad_versions kept @ ad_versions adv)\<rparr>)
      else map_of m k)"
  by (induction c "(name, adv)" m rule: merge_entry.induct) auto

text \<open>Ranges and versions of every entry for a package, the facts of the record in each.\<close>

lemma fold_merge_entry:
  "distinct (map fst m) \<Longrightarrow>
   distinct (map fst (fold (merge_entry c) es m)) \<and>
   (\<forall>k adv. map_of (fold (merge_entry c) es m) k = Some adv \<longrightarrow>
      ad_ranges adv = (case map_of m k of None \<Rightarrow> [] | Some a \<Rightarrow> ad_ranges a) @
        concat (map (\<lambda>e. ad_ranges (snd e)) (filter (\<lambda>e. fst e = k) es))) \<and>
   fst ` set (fold (merge_entry c) es m) = fst ` set es \<union> fst ` set m"
proof (induction es arbitrary: m)
  case Nil
  then show ?case by simp
next
  case (Cons e es)
  obtain name adv where e: "e = (name, adv)" by (cases e)
  have d: "distinct (map fst (merge_entry c e m))" unfolding e by (rule names_merge_entry(2) [OF Cons.prems])
  note IH = Cons.IH [OF d]
  have n: "fst ` set (merge_entry c e m) = insert name (fst ` set m)" unfolding e by (rule names_merge_entry(1))
  have "ad_ranges a = (case map_of m k of None \<Rightarrow> [] | Some b \<Rightarrow> ad_ranges b) @
      concat (map (\<lambda>e. ad_ranges (snd e)) (filter (\<lambda>e. fst e = k) (e # es)))"
    if "map_of (fold (merge_entry c) (e # es) m) k = Some a" for k a
  proof -
    have "ad_ranges a = (case map_of (merge_entry c e m) k of None \<Rightarrow> [] | Some b \<Rightarrow> ad_ranges b) @
        concat (map (\<lambda>e. ad_ranges (snd e)) (filter (\<lambda>e. fst e = k) es))"
      using IH that by simp
    then show ?thesis unfolding e map_of_merge_entry by (auto split: option.splits)
  qed
  then show ?case using IH n by (auto simp: e)
qed

section \<open>The index\<close>

lemma collect_results_Inr: "collect_results rs = Inr xs \<longleftrightarrow> rs = map Inr xs"
proof (induction rs arbitrary: xs)
  case (Cons r rs)
  then show ?case by (cases r; cases xs) (auto simp: result_simps)
qed auto

lemma collect_results_Inl: "(\<exists>e. collect_results rs = Inl e) \<longleftrightarrow> (\<exists>e. Inl e \<in> set rs)"
proof (induction rs)
  case (Cons r rs)
  then show ?case by (cases r; cases "collect_results rs") auto
qed simp

lemma merge_files_group: "merge_files per_file = group_by str_cmp fst snd (concat per_file)"
proof -
  have "fold (\<lambda>record db. fold db_push record db) per_file db = fold db_push (concat per_file) db" for db :: "'a osv_db"
    by (induction per_file arbitrary: db) simp_all
  then show ?thesis by (simp add: merge_files_def group_by_def db_push_def [abs_def])
qed

lemma advisories_for_group:
  "advisories_for key (group_by str_cmp fst snd entries) = map snd (filter (\<lambda>e. fst e = key) entries)"
proof -
  have eq: "(\<lambda>x. str_cmp key (fst x) = Equal) = (\<lambda>x :: string \<times> 'a advisory. fst x = key)" by (intro ext) auto
  show ?thesis
    unfolding advisories_for_def group_by_def str.get_push_group eq by (simp add: Let_def)
qed

lemma fold_push_concat:
  "fold (\<lambda>record db. fold db_push (f record) db) records db = fold db_push (concat (map f records)) db"
  by (induction records arbitrary: db) simp_all

text \<open>Everything a list of records contributes for one package, in record order.\<close>

definition contributions :: "'v osv_spec \<Rightarrow> string \<Rightarrow> osv_record list \<Rightarrow> 'v advisory list" where
  "contributions spec key records =
     map snd (filter (\<lambda>e. fst e = key) (concat (map (advisories_from spec) records)))"

lemma skipping_concat:
  "concat (map (unless_skipped spec (bs_of_list str_cmp ids)) records) =
     concat (map (advisories_from spec) (filter (\<lambda>r. os_id r \<notin> set ids) records))"
proof (induction records)
  case (Cons r records)
  then show ?case
    by (simp add: unless_skipped_def str.bs_mem_iff [OF str.bs_of_list(1)] str.bs_of_list(2))
qed simp


text \<open>A record contributes one advisory per package, and each holds the ranges of every entry of the
  record for that package, in order: the safe versions of one release line depend on the
  others.\<close>

theorem one_advisory_per_package:
  "distinct (map fst (advisories_from spec osv)) \<and>
   fst ` set (advisories_from spec osv) = fst ` set (entries_of spec osv) \<and>
   list_all (\<lambda>(name, adv). ad_ranges adv =
       concat (map (\<lambda>e. ad_ranges (snd e)) (filter (\<lambda>e. fst e = name) (entries_of spec osv))))
     (advisories_from spec osv)"
proof -
  let ?m = "advisories_from spec osv"
  have "distinct (map fst ([] :: (string \<times> 'a advisory) list))" by simp
  note f = fold_merge_entry [OF this, of "sc_cmp spec" "entries_of spec osv", folded advisories_from_entries]
  have "ad_ranges adv = concat (map (\<lambda>e. ad_ranges (snd e)) (filter (\<lambda>e. fst e = name) (entries_of spec osv)))"
    if "(name, adv) \<in> set ?m" for name adv
  proof -
    have "map_of ?m name = Some adv" using f that by simp
    then show ?thesis using f by simp
  qed
  then show ?thesis using f by (auto simp: list_all_iff)
qed

text \<open>The curated band of the record decides its severity; only without one does the best CVSS v3
  base score, and the reported score is never below any v3 vector that parses.\<close>

theorem severity_prefers_band:
  "(case Option.bind dbs db_severity of
      Some l \<Rightarrow> (if band_from_label l \<noteq> Unknown then fst (severity_from cvss entries dbs) = band_from_label l
                 else fst (severity_from cvss entries dbs) = fst (severity_from cvss entries None))
    | None \<Rightarrow> fst (severity_from cvss entries dbs) = fst (severity_from cvss entries None)) \<and>
   list_all (\<lambda>e. case Option.bind (se_score e) cvss of
       Some (_, score) \<Rightarrow> (if se_kind e = Some ''CVSS_V3''
         then (case snd (severity_from cvss entries dbs) of None \<Rightarrow> False | Some best \<Rightarrow> score \<le> best) else True)
     | None \<Rightarrow> True) entries"
proof (intro conjI)
  show "case Option.bind dbs db_severity of
      Some l \<Rightarrow> (if band_from_label l \<noteq> Unknown then fst (severity_from cvss entries dbs) = band_from_label l
                 else fst (severity_from cvss entries dbs) = fst (severity_from cvss entries None))
    | None \<Rightarrow> fst (severity_from cvss entries dbs) = fst (severity_from cvss entries None)"
    by (auto simp: severity_from_def Let_def split: option.split)
  let ?xs = "List.map_filter
      (\<lambda>s. Option.bind (se_score s) (\<lambda>v. map_option (\<lambda>(b, score). (band_from_cvss b, score)) (cvss v)))
      (filter (\<lambda>s. se_kind s = Some ''CVSS_V3'') entries)"
  have best: "\<exists>m. max_by (cmp_on snd ord_cmp) ?xs = Some m \<and> score \<le> snd m"
    if "e \<in> set entries" "se_kind e = Some ''CVSS_V3''" "Option.bind (se_score e) cvss = Some (b, score)" for e b score
  proof -
    have mem: "(band_from_cvss b, score) \<in> set ?xs"
      using that by (force simp: List.map_filter_def split: bind_splits)
    then obtain m where m: "max_by (cmp_on snd ord_cmp) ?xs = Some m"
      by (cases "max_by (cmp_on snd ord_cmp) ?xs") auto
    have "rust_ord (cmp_on snd ord_cmp :: (severity \<times> score) cmp)" by (intro ord_intros)
    from rust_ord.max_by_upper [OF this m mem] show ?thesis
      using m by (simp add: cmp_on_def not_less)
  qed
  show "list_all (\<lambda>e. case Option.bind (se_score e) cvss of
       Some (_, score) \<Rightarrow> (if se_kind e = Some ''CVSS_V3''
         then (case snd (severity_from cvss entries dbs) of None \<Rightarrow> False | Some best \<Rightarrow> score \<le> best) else True)
     | None \<Rightarrow> True) entries"
    unfolding list_all_iff
  proof
    fix e
    assume e: "e \<in> set entries"
    show "case Option.bind (se_score e) cvss of
       Some (_, score) \<Rightarrow> (if se_kind e = Some ''CVSS_V3''
         then (case snd (severity_from cvss entries dbs) of None \<Rightarrow> False | Some best \<Rightarrow> score \<le> best) else True)
     | None \<Rightarrow> True"
    proof (cases "Option.bind (se_score e) cvss")
      case (Some p)
      obtain b score where p: "p = (b, score)" by (cases p)
      show ?thesis using best [OF e, of b score] Some by (auto simp: p severity_from_def Let_def)
    qed simp
  qed
qed

end
