(* ===== verification/Union_Find.thy ===== *)
theory Union_Find
  imports Rust_Map
begin

text \<open>
  The union-find forest of \<^verbatim>\<open>collapse_alias_duplicates\<close> in \<^verbatim>\<open>crates/core/src/osv.rs\<close>: \<open>find_root\<close> with
  path halving over a vector of parents, and the pass that links every overlapping pair.  The
  forest stays free of cycles, so every search ends, and two elements have one root exactly
  when a chain of overlapping pairs joins them.
\<close>

section \<open>Definitions\<close>

text \<open>Every index the code uses is below the length of the vector, which \<open>uf_ok\<close> says of its entries.\<close>

partial_function (option) find_root :: "nat list \<Rightarrow> nat \<Rightarrow> (nat \<times> nat list) option" where
  "find_root p x =
     (if p ! x = x then Some (x, p)
      else (let p' = p[x := p ! (p ! x)] in find_root p' (p' ! x)))"

declare find_root.simps [code]

definition uf_link :: "nat \<Rightarrow> nat \<Rightarrow> nat list \<Rightarrow> nat list option" where
  "uf_link a b p =
     Option.bind (find_root p a) (\<lambda>(ra, p1).
     Option.bind (find_root p1 b) (\<lambda>(rb, p2).
       Some (if ra \<noteq> rb then p2[rb := ra] else p2)))"

fun link_all :: "(nat \<Rightarrow> nat \<Rightarrow> bool) \<Rightarrow> (nat \<times> nat) list \<Rightarrow> nat list \<Rightarrow> nat list option" where
  "link_all overlap [] p = Some p"
| "link_all overlap ((a, b) # ps) p =
     (if overlap a b then Option.bind (uf_link a b p) (link_all overlap ps)
      else link_all overlap ps p)"

definition index_pairs :: "nat \<Rightarrow> (nat \<times> nat) list" where
  "index_pairs n = concat (map (\<lambda>a. map (\<lambda>b. (a, b)) [a + 1..<n]) [0..<n])"

section \<open>The forest\<close>

text \<open>A height that grows towards the root witnesses that there is no cycle.\<close>

definition uf_height :: "nat list \<Rightarrow> (nat \<Rightarrow> nat) \<Rightarrow> bool" where
  "uf_height p h \<longleftrightarrow> (\<forall>x < length p. p ! x < length p \<and> (p ! x \<noteq> x \<longrightarrow> h x < h (p ! x)))"

definition uf_ok :: "nat list \<Rightarrow> bool" where
  "uf_ok p \<longleftrightarrow> (\<exists>h. uf_height p h)"

inductive root_of :: "nat list \<Rightarrow> nat \<Rightarrow> nat \<Rightarrow> bool" for p where
  root_here: "p ! x = x \<Longrightarrow> root_of p x x"
| root_up: "p ! x \<noteq> x \<Longrightarrow> root_of p (p ! x) r \<Longrightarrow> root_of p x r"

inductive_cases root_ofE: "root_of p x r"

definition rt :: "nat list \<Rightarrow> nat \<Rightarrow> nat" where
  "rt p x = (THE r. root_of p x r)"

text \<open>Induction towards the root.\<close>

lemma uf_induct [consumes 2, case_names root up]:
  assumes h: "uf_height p h" and "x < length p"
    and root: "\<And>x. x < length p \<Longrightarrow> p ! x = x \<Longrightarrow> P x"
    and up: "\<And>x. x < length p \<Longrightarrow> p ! x \<noteq> x \<Longrightarrow> P (p ! x) \<Longrightarrow> P x"
  shows "P x"
  using assms(2)
proof (induction "Suc (Max (h ` {..<length p})) - h x" arbitrary: x rule: less_induct)
  case less
  show ?case
  proof (cases "p ! x = x")
    case False
    have px: "p ! x < length p" and lt: "h x < h (p ! x)"
      using h less.prems False by (auto simp: uf_height_def)
    have "h (p ! x) \<le> Max (h ` {..<length p})" using px by simp
    then have "Suc (Max (h ` {..<length p})) - h (p ! x) < Suc (Max (h ` {..<length p})) - h x"
      using lt by linarith
    then show ?thesis using less px False up by blast
  qed (use less root in blast)
qed

lemma root_of_unique: "root_of p x r \<Longrightarrow> root_of p x s \<Longrightarrow> r = s"
proof (induction arbitrary: s rule: root_of.induct)
  case (root_here x)
  from root_here(2) show ?case by (cases rule: root_of.cases) (use root_here(1) in simp_all)
next
  case (root_up x r)
  from root_up(4) have "root_of p (p ! x) s"
    by (cases rule: root_of.cases) (use root_up(1) in simp_all)
  then show ?case by (rule root_up(3))
qed

lemma root_of_total:
  assumes "uf_ok p" and "x < length p"
  shows "root_of p x (rt p x) \<and> rt p x < length p \<and> p ! rt p x = rt p x"
proof -
  obtain h where h: "uf_height p h" using assms(1) by (auto simp: uf_ok_def)
  have "\<exists>r < length p. root_of p x r \<and> p ! r = r"
    using h assms(2) by (induction rule: uf_induct) (auto intro: root_of.intros)
  then show ?thesis unfolding rt_def by (metis root_of_unique the_equality)
qed

lemmas rt_root_of = root_of_total [THEN conjunct1]
  and rt_bound [simp] = root_of_total [THEN conjunct2, THEN conjunct1]
  and rt_fixed [simp] = root_of_total [THEN conjunct2, THEN conjunct2]

lemma rt_up:
  assumes "uf_ok p" and "x < length p"
  shows "rt p (p ! x) = rt p x"
proof (cases "p ! x = x")
  case False
  have "p ! x < length p" using assms by (auto simp: uf_ok_def uf_height_def)
  then have "root_of p x (rt p (p ! x))"
    by (rule root_up [OF False rt_root_of [OF assms(1)]])
  then show ?thesis using rt_root_of [OF assms] root_of_unique by blast
qed simp

text \<open>The root function is the only one that is constant along parents and fixes the roots.\<close>

lemma rt_unique:
  assumes "uf_ok p" and "x < length p"
    and up: "\<And>y. y < length p \<Longrightarrow> q (p ! y) = q y"
    and roots: "\<And>y. y < length p \<Longrightarrow> p ! y = y \<Longrightarrow> q y = y"
  shows "rt p x = q x"
proof -
  obtain h where "uf_height p h" using assms(1) by (auto simp: uf_ok_def)
  then show ?thesis using assms(2)
  proof (induction rule: uf_induct)
    case (root x)
    have "rt p x = x" using root by (intro root_of_unique [OF rt_root_of [OF assms(1)] root_here]) simp_all
    then show ?case using roots [OF root] by simp
  next
    case (up x)
    have "rt p x = rt p (p ! x)" using rt_up [OF assms(1) up(1)] by simp
    also have "\<dots> = q (p ! x)" by (rule up(3))
    also have "\<dots> = q x" by (rule assms(3) [OF up(1)])
    finally show ?case .
  qed
qed

section \<open>Finding a root\<close>

lemma halving:
  assumes "uf_height p h" and "x < length p"
  defines "p' \<equiv> p[x := p ! (p ! x)]"
  shows "uf_height p' h" and "y < length p \<Longrightarrow> rt p' y = rt p y"
proof -
  have px: "p ! x < length p" using assms by (auto simp: uf_height_def)
  show h': "uf_height p' h"
    unfolding uf_height_def
  proof (intro allI impI)
    fix z
    assume z: "z < length p'"
    show "p' ! z < length p' \<and> (p' ! z \<noteq> z \<longrightarrow> h z < h (p' ! z))"
    proof (cases "z = x")
      case True
      have a: "p ! x \<noteq> x \<Longrightarrow> h x < h (p ! x)"
        and b: "p ! (p ! x) < length p" "p ! (p ! x) \<noteq> p ! x \<Longrightarrow> h (p ! x) < h (p ! (p ! x))"
        using assms(1,2) px by (auto simp: uf_height_def)
      show ?thesis using True a b assms(2) unfolding p'_def
        by (cases "p ! x = x"; cases "p ! (p ! x) = p ! x") auto
    next
      case False
      then show ?thesis using assms(1) z by (auto simp: p'_def uf_height_def)
    qed
  qed
  have ok: "uf_ok p" "uf_ok p'" using assms(1) h' by (auto simp: uf_ok_def)
  show "rt p' y = rt p y" if "y < length p"
  proof (rule rt_unique [OF ok(2)])
    show "y < length p'" using that by (simp add: p'_def)
    show "rt p (p' ! z) = rt p z" if "z < length p'" for z
      using that px rt_up [OF ok(1)] by (cases "z = x") (auto simp: p'_def)
    show "rt p z = z" if z: "z < length p'" "p' ! z = z" for z
    proof (cases "z = x")
      case True
      then have eq: "p ! (p ! x) = x" using z assms(2) by (simp add: p'_def)
      have "p ! x = x"
      proof (rule ccontr)
        assume "p ! x \<noteq> x"
        then have "h x < h (p ! x)" using assms(1,2) by (simp add: uf_height_def)
        moreover have "h (p ! x) < h (p ! (p ! x))"
          using assms(1) px \<open>p ! x \<noteq> x\<close> eq unfolding uf_height_def by metis
        ultimately show False using eq by simp
      qed
      then show ?thesis using True ok(1) assms(2) rt_root_of root_of_unique root_here by metis
    next
      case False
      then have "p ! z = z" using z by (simp add: p'_def)
      then show ?thesis using z ok(1) rt_root_of root_of_unique root_here
        by (metis length_list_update p'_def)
    qed
  qed
qed

lemma find_root_height:
  assumes "uf_height p h" and "x < length p"
  shows "\<exists>p'. find_root p x = Some (rt p x, p') \<and> uf_height p' h \<and> length p' = length p \<and>
    (\<forall>y < length p. rt p' y = rt p y)"
  using assms
proof (induction "Suc (Max (h ` {..<length p})) - h x" arbitrary: p x rule: less_induct)
  case less
  have ok: "uf_ok p" using less.prems by (auto simp: uf_ok_def)
  show ?case
  proof (cases "p ! x = x")
    case True
    then have "rt p x = x" using rt_root_of [OF ok] less.prems root_of_unique root_here by metis
    then show ?thesis using True less.prems by (subst find_root.simps) simp
  next
    case False
    let ?p = "p[x := p ! (p ! x)]"
    note half = halving [OF less.prems]
    have px: "p ! x < length p" and lt: "h x < h (p ! x)"
      using less.prems False by (auto simp: uf_height_def)
    have ppx: "p ! (p ! x) < length p" "h (p ! x) \<le> h (p ! (p ! x))"
      using less.prems(1) px unfolding uf_height_def by (metis order.refl less_imp_le)+
    have at: "?p ! x = p ! (p ! x)" using less.prems by simp
    have "h (p ! (p ! x)) \<le> Max (h ` {..<length p})" using ppx by simp
    then have "Suc (Max (h ` {..<length ?p})) - h (?p ! x) < Suc (Max (h ` {..<length p})) - h x"
      using lt ppx unfolding at length_list_update by linarith
    moreover have "?p ! x < length ?p" unfolding at using ppx by simp
    ultimately obtain q where q: "find_root ?p (?p ! x) = Some (rt ?p (?p ! x), q)" "uf_height q h"
      "length q = length p" "\<forall>y < length p. rt q y = rt ?p y"
      using less.hyps [of ?p "?p ! x"] half(1) by auto
    have "rt ?p (?p ! x) = rt p (p ! (p ! x))" unfolding at using half(2) ppx by simp
    also have "\<dots> = rt p x" using rt_up [OF ok] px less.prems by simp
    finally have "find_root p x = Some (rt p x, q)"
      using q(1) False by (subst find_root.simps) (simp add: Let_def)
    then show ?thesis using q half(2) by auto
  qed
qed

lemma find_root_ok:
  assumes "uf_ok p" and "x < length p"
  obtains p' where "find_root p x = Some (rt p x, p')" and "uf_ok p'" and "length p' = length p"
    and "\<And>y. y < length p \<Longrightarrow> rt p' y = rt p y"
  using assms find_root_height unfolding uf_ok_def by metis

section \<open>Linking\<close>

lemma relink:
  assumes "uf_ok p" and "ra < length p" "rb < length p" "p ! ra = ra" "p ! rb = rb" "ra \<noteq> rb"
  defines "p' \<equiv> p[rb := ra]"
  shows "uf_ok p'" and "y < length p \<Longrightarrow> rt p' y = (if rt p y = rb then ra else rt p y)"
proof -
  obtain h where h: "uf_height p h" using assms(1) by (auto simp: uf_ok_def)
  have self: "rt p ra = ra" "rt p rb = rb"
    using assms rt_root_of root_of_unique root_here by metis+
  define k where "k y = (if rt p y = ra then h y + h rb + 1 else h y)" for y
  have "uf_height p' k"
    unfolding uf_height_def
  proof (intro allI impI)
    fix z
    assume z: "z < length p'"
    show "p' ! z < length p' \<and> (p' ! z \<noteq> z \<longrightarrow> k z < k (p' ! z))"
    proof (cases "z = rb")
      case True
      then show ?thesis using assms self by (simp add: k_def)
    next
      case False
      then have "p' ! z = p ! z" and zl: "z < length p" using z by (simp_all add: p'_def)
      moreover have "rt p (p ! z) = rt p z" by (rule rt_up [OF assms(1) zl])
      moreover have "p ! z < length p \<and> (p ! z \<noteq> z \<longrightarrow> h z < h (p ! z))"
        using h zl by (simp add: uf_height_def)
      ultimately show ?thesis by (simp add: k_def p'_def)
    qed
  qed
  then show ok: "uf_ok p'" by (auto simp: uf_ok_def)
  show "rt p' y = (if rt p y = rb then ra else rt p y)" if "y < length p"
  proof (rule rt_unique [OF ok])
    show "y < length p'" using that by (simp add: p'_def)
    show "(if rt p (p' ! z) = rb then ra else rt p (p' ! z)) = (if rt p z = rb then ra else rt p z)"
      if "z < length p'" for z
      using that self assms(6) rt_up [OF assms(1)] by (cases "z = rb") (simp_all add: p'_def)
    show "(if rt p z = rb then ra else rt p z) = z" if z: "z < length p'" "p' ! z = z" for z
    proof -
      have "z \<noteq> rb" using z assms by (auto simp: p'_def)
      then have "p ! z = z" using z by (simp add: p'_def)
      then have "rt p z = z"
        using z assms(1) rt_root_of root_of_unique root_here by (metis length_list_update p'_def)
      then show ?thesis using \<open>z \<noteq> rb\<close> by simp
    qed
  qed
qed

text \<open>Linking two elements joins their trees and touches nothing else.\<close>

lemma uf_link_ok:
  assumes "uf_ok p" and a: "a < length p" and b: "b < length p"
  obtains p' where "uf_link a b p = Some p'" and "uf_ok p'" and "length p' = length p"
    and "\<And>y. y < length p \<Longrightarrow> rt p' y = (if rt p y = rt p b then rt p a else rt p y)"
proof -
  obtain p1 where p1: "find_root p a = Some (rt p a, p1)" "uf_ok p1" "length p1 = length p"
    "\<And>y. y < length p \<Longrightarrow> rt p1 y = rt p y"
    using find_root_ok [OF assms(1) a] by metis
  have "b < length p1" using b p1 by simp
  then obtain p2 where p2: "find_root p1 b = Some (rt p1 b, p2)" "uf_ok p2" "length p2 = length p"
    "\<And>y. y < length p \<Longrightarrow> rt p2 y = rt p y"
    using find_root_ok [OF p1(2)] p1 by metis
  have link: "uf_link a b p = Some (if rt p a \<noteq> rt p b then p2[rt p b := rt p a] else p2)"
    using p1 p2 b by (simp add: uf_link_def)
  show thesis
  proof (cases "rt p a = rt p b")
    case True
    then show ?thesis using that [OF link] p2 by simp
  next
    case False
    have fixed: "rt p2 a = rt p a" "rt p2 b = rt p b" using p2(4) a b by blast+
    have at: "rt p2 a < length p2" "rt p2 b < length p2" "p2 ! rt p2 a = rt p2 a" "p2 ! rt p2 b = rt p2 b"
      using rt_bound [OF p2(2)] rt_fixed [OF p2(2)] p2(3) a b by simp_all
    note re = relink [OF p2(2) at, unfolded fixed, OF False]
    show ?thesis
      by (rule that [OF link]) (use False re p2 in auto)
  qed
qed

text \<open>
  What linking a list of pairs gives: trees only grow together, every overlapping pair shares a
  root, and nothing is joined that overlaps do not connect.
\<close>

definition links :: "(nat \<Rightarrow> nat \<Rightarrow> bool) \<Rightarrow> (nat \<times> nat) list \<Rightarrow> nat list \<Rightarrow> nat list \<Rightarrow> bool" where
  "links overlap ps p p' \<longleftrightarrow> uf_ok p' \<and> length p' = length p \<and>
    (\<forall>x < length p. \<forall>y < length p. rt p x = rt p y \<longrightarrow> rt p' x = rt p' y) \<and>
    (\<forall>(a, b) \<in> set ps. overlap a b \<longrightarrow> rt p' a = rt p' b) \<and>
    (\<forall>Q. equivp Q \<longrightarrow> (\<forall>x < length p. \<forall>y < length p. rt p x = rt p y \<longrightarrow> Q x y) \<longrightarrow>
       (\<forall>(a, b) \<in> set ps. overlap a b \<longrightarrow> Q a b) \<longrightarrow>
       (\<forall>x < length p. \<forall>y < length p. rt p' x = rt p' y \<longrightarrow> Q x y))"

lemma links_ok: "links overlap ps p p' \<Longrightarrow> uf_ok p'"
  and links_length: "links overlap ps p p' \<Longrightarrow> length p' = length p"
  and links_keep: "links overlap ps p p' \<Longrightarrow> x < length p \<Longrightarrow> y < length p \<Longrightarrow> rt p x = rt p y \<Longrightarrow> rt p' x = rt p' y"
  and links_pair: "links overlap ps p p' \<Longrightarrow> (a, b) \<in> set ps \<Longrightarrow> overlap a b \<Longrightarrow> rt p' a = rt p' b"
  unfolding links_def by fast+

lemma links_sound:
  assumes "links overlap ps p p'" and "equivp Q"
    and "\<And>x y. x < length p \<Longrightarrow> y < length p \<Longrightarrow> rt p x = rt p y \<Longrightarrow> Q x y"
    and "\<And>a b. (a, b) \<in> set ps \<Longrightarrow> overlap a b \<Longrightarrow> Q a b"
    and "x < length p" "y < length p" "rt p' x = rt p' y"
  shows "Q x y"
proof -
  note sound = assms(1) [unfolded links_def, THEN conjunct2, THEN conjunct2, THEN conjunct2, THEN conjunct2,
      THEN spec, THEN mp, OF assms(2)]
  have "\<forall>x < length p. \<forall>y < length p. rt p x = rt p y \<longrightarrow> Q x y"
    and "\<forall>(a, b) \<in> set ps. overlap a b \<longrightarrow> Q a b" using assms(3,4) by auto
  with sound assms(5-) show ?thesis by simp
qed

lemma linksI:
  assumes "uf_ok p'" and "length p' = length p"
    and "\<And>x y. x < length p \<Longrightarrow> y < length p \<Longrightarrow> rt p x = rt p y \<Longrightarrow> rt p' x = rt p' y"
    and "\<And>a b. (a, b) \<in> set ps \<Longrightarrow> overlap a b \<Longrightarrow> rt p' a = rt p' b"
    and "\<And>Q x y. equivp Q \<Longrightarrow> (\<And>x y. x < length p \<Longrightarrow> y < length p \<Longrightarrow> rt p x = rt p y \<Longrightarrow> Q x y) \<Longrightarrow>
      (\<And>a b. (a, b) \<in> set ps \<Longrightarrow> overlap a b \<Longrightarrow> Q a b) \<Longrightarrow>
      x < length p \<Longrightarrow> y < length p \<Longrightarrow> rt p' x = rt p' y \<Longrightarrow> Q x y"
  shows "links overlap ps p p'"
  unfolding links_def
proof (intro conjI allI impI)
  show "\<forall>(a, b) \<in> set ps. overlap a b \<longrightarrow> rt p' a = rt p' b" using assms(4) by auto
  show "Q x y" if "equivp Q" and base: "\<forall>x < length p. \<forall>y < length p. rt p x = rt p y \<longrightarrow> Q x y"
    and st: "\<forall>(a, b) \<in> set ps. overlap a b \<longrightarrow> Q a b" and "x < length p" "y < length p" "rt p' x = rt p' y"
    for Q x y
  proof (rule assms(5) [OF that(1) _ _ that(4,5,6)])
    show "\<And>a b. (a, b) \<in> set ps \<Longrightarrow> overlap a b \<Longrightarrow> Q a b" using st by auto
    show "\<And>x y. x < length p \<Longrightarrow> y < length p \<Longrightarrow> rt p x = rt p y \<Longrightarrow> Q x y" using base by simp
  qed
qed (fact assms(1,2) | rule assms(3), assumption+)+

lemma link_all_ok:
  assumes "uf_ok p" and "set ps \<subseteq> {..<length p} \<times> {..<length p}"
  shows "\<exists>p'. link_all overlap ps p = Some p' \<and> links overlap ps p p'"
  using assms
proof (induction ps arbitrary: p)
  case Nil
  then show ?case by (auto intro!: linksI)
next
  case (Cons ab ps)
  obtain a b where ab: "ab = (a, b)" by (cases ab)
  have a: "a < length p" and b: "b < length p" and ps: "set ps \<subseteq> {..<length p} \<times> {..<length p}"
    using Cons.prems(2) by (simp_all add: ab)
  show ?case
  proof (cases "overlap a b")
    case False
    obtain p' where p': "link_all overlap ps p = Some p'" and l: "links overlap ps p p'"
      using Cons.IH [OF Cons.prems(1) ps] by blast
    have "links overlap (ab # ps) p p'"
    proof (rule linksI [OF links_ok [OF l] links_length [OF l] links_keep [OF l]])
      show "rt p' c = rt p' d" if "(c, d) \<in> set (ab # ps)" "overlap c d" for c d
        using that False links_pair [OF l] by (auto simp: ab)
      show "Q x y" if "equivp Q" and "\<And>x y. x < length p \<Longrightarrow> y < length p \<Longrightarrow> rt p x = rt p y \<Longrightarrow> Q x y"
        and steps: "\<And>c d. (c, d) \<in> set (ab # ps) \<Longrightarrow> overlap c d \<Longrightarrow> Q c d"
        and "x < length p" "y < length p" "rt p' x = rt p' y" for Q x y
        by (rule links_sound [OF l that(1,2) _ that(4-)]) (use steps in auto)
    qed
    then show ?thesis using p' False by (simp add: ab)
  next
    case True
    obtain q where q: "uf_link a b p = Some q" "uf_ok q" "length q = length p"
      and rq: "\<And>y. y < length p \<Longrightarrow> rt q y = (if rt p y = rt p b then rt p a else rt p y)"
      using uf_link_ok [OF Cons.prems(1) a b] by metis
    have psq: "set ps \<subseteq> {..<length q} \<times> {..<length q}" using ps q(3) by simp
    obtain p' where p': "link_all overlap ps q = Some p'" and l: "links overlap ps q p'"
      using Cons.IH [OF q(2) psq] by blast
    have "rt q a = rt q b" using rq a b by simp
    then have joined: "rt p' a = rt p' b"
      by (rule links_keep [OF l a [folded q(3)] b [folded q(3)]])
    have "links overlap (ab # ps) p p'"
    proof (rule linksI [OF links_ok [OF l]])
      show "length p' = length p" using links_length [OF l] q(3) by simp
      show "rt p' x = rt p' y" if "x < length p" "y < length p" "rt p x = rt p y" for x y
        using that rq q(3) by (intro links_keep [OF l]) simp_all
      show "rt p' c = rt p' d" if "(c, d) \<in> set (ab # ps)" "overlap c d" for c d
        using that joined links_pair [OF l] by (auto simp: ab)
      show "Q x y" if Q: "equivp Q" and base: "\<And>x y. x < length p \<Longrightarrow> y < length p \<Longrightarrow> rt p x = rt p y \<Longrightarrow> Q x y"
        and steps: "\<And>c d. (c, d) \<in> set (ab # ps) \<Longrightarrow> overlap c d \<Longrightarrow> Q c d"
        and xy: "x < length p" "y < length p" "rt p' x = rt p' y" for Q x y
      proof (rule links_sound [OF l Q])
        show "Q u v" if "u < length q" "v < length q" "rt q u = rt q v" for u v
        proof -
          have Qab: "Q a b" using steps True by (simp add: ab)
          have to_a: "Q w a" if "w < length p" "rt q w = rt p a" for w
          proof (cases "rt p w = rt p b")
            case True
            then have "Q w b" using base that b by simp
            then show ?thesis using equivp_symp [OF Q Qab] by (rule equivp_transp [OF Q])
          next
            case False
            then have "rt p w = rt p a" using rq that by simp
            then show ?thesis using base that a by simp
          qed
          show ?thesis
          proof (cases "rt q u = rt p a")
            case True
            then have "Q u a" and "Q v a" using to_a that q(3) by simp_all
            then show ?thesis by (blast intro: equivp_transp [OF Q] equivp_symp [OF Q])
          next
            case False
            then have "rt p u = rt p v" using that rq q(3) by (simp split: if_splits)
            then show ?thesis using base that q(3) by simp
          qed
        qed
      qed (use steps xy q(3) in auto)
    qed
    then show ?thesis using p' q(1) True by (simp add: ab)
  qed
qed

lemma set_index_pairs [simp]: "set (index_pairs n) = {(a, b). a < b \<and> b < n}"
  by (force simp: index_pairs_def)

lemma rt_init: "x < n \<Longrightarrow> rt [0..<n] x = x"
  by (rule root_of_unique [OF rt_root_of root_here]) (auto simp: uf_ok_def uf_height_def)

text \<open>All pairs linked, two indices share a root exactly when overlaps connect them.\<close>

lemma link_all_index:
  obtains p where "link_all overlap (index_pairs n) [0..<n] = Some p" and "uf_ok p" and "length p = n"
    and "\<And>a b. a < b \<Longrightarrow> b < n \<Longrightarrow> overlap a b \<Longrightarrow> rt p a = rt p b"
    and "\<And>Q x y. equivp Q \<Longrightarrow> (\<And>a b. a < b \<Longrightarrow> b < n \<Longrightarrow> overlap a b \<Longrightarrow> Q a b) \<Longrightarrow>
      x < n \<Longrightarrow> y < n \<Longrightarrow> rt p x = rt p y \<Longrightarrow> Q x y"
proof -
  have ok: "uf_ok [0..<n]" by (auto simp: uf_ok_def uf_height_def)
  have "set (index_pairs n) \<subseteq> {..<length [0..<n]} \<times> {..<length [0..<n]}" by auto
  from link_all_ok [OF ok this, where overlap = overlap] obtain p
    where p: "link_all overlap (index_pairs n) [0..<n] = Some p"
      and l: "links overlap (index_pairs n) [0..<n] p"
    by blast
  show thesis
  proof (rule that [OF p links_ok [OF l]])
    show "length p = n" using links_length [OF l] by simp
    show "rt p a = rt p b" if "a < b" "b < n" "overlap a b" for a b
      using that by (intro links_pair [OF l]) simp_all
    show "Q x y" if Q: "equivp Q" and "\<And>a b. a < b \<Longrightarrow> b < n \<Longrightarrow> overlap a b \<Longrightarrow> Q a b"
      and "x < n" "y < n" "rt p x = rt p y" for Q x y
      by (rule links_sound [OF l Q]) (use that equivp_reflp [OF Q] in \<open>auto simp: rt_init\<close>)
  qed
qed

end
