(* ===== verification/Osv_Findings.thy ===== *)
theory Osv_Findings
  imports Core_Model Rust_Groups Union_Find
begin

text \<open>
  What every package-level feeder does to its findings before it returns them,
  \<^verbatim>\<open>sort_dedup_findings\<close> and \<^verbatim>\<open>collapse_alias_duplicates\<close> of \<^verbatim>\<open>crates/core/src/osv.rs\<close>: order,
  drop repeats, and merge the records that name one vulnerability under several ids.
\<close>

section \<open>Definitions\<close>

definition occ_key :: "('v, 'r) vuln_finding \<Rightarrow> string \<times> 'v option" where
  "occ_key v =
     (case vf_occurrences v of
        InRepo r # _ \<Rightarrow> (ir_package r, Some (ir_installed r))
      | _ \<Rightarrow> ([], None))"

definition occ_package :: "('v, 'r) vuln_finding \<Rightarrow> string" where
  "occ_package v = fst (occ_key v)"

definition occ_key_cmp :: "('v, 'r) semver_lib \<Rightarrow> (string \<times> 'v option) cmp" where
  "occ_key_cmp lib = cmp_pair str_cmp (cmp_opt (sv_cmp lib))"

text \<open>The ids of a finding, \<^verbatim>\<open>{id} + aliases\<close>.\<close>

definition finding_ids :: "('v, 'r) vuln_finding \<Rightarrow> string bset" where
  "finding_ids v = bs_of_list str_cmp (vf_id v # vf_aliases v)"

definition ids_overlap :: "string bset \<Rightarrow> string bset \<Rightarrow> bool" where
  "ids_overlap a b = list_ex (\<lambda>x. bs_mem str_cmp x b) (bs_items a)"

definition duplicate_prefix :: string where
  "duplicate_prefix = ''Duplicate Advisory''"

definition representative_rank :: "('v, 'r) vuln_finding \<Rightarrow> nat \<times> string" where
  "representative_rank v =
     (let duplicate = starts_with duplicate_prefix (vf_title v);
          source = hd (split_at (CHR ''-'') (vf_id v))
      in (if duplicate then 3 else if source = ''GO'' then 0 else if source = ''GHSA'' then 1 else 2,
          vf_id v))"

definition rank_cmp :: "('v, 'r) vuln_finding cmp" where
  "rank_cmp = cmp_on representative_rank (cmp_pair ord_cmp str_cmp)"

text \<open>The loop that puts each member of a group under the root of its tree.\<close>

fun cluster_loop ::
  "(nat \<times> nat) list \<Rightarrow> nat list \<Rightarrow> (nat, nat list) btree \<Rightarrow> (nat, nat list) btree option" where
  "cluster_loop [] parent clusters = Some clusters"
| "cluster_loop ((a, member) # rest) parent clusters =
     Option.bind (find_root parent a) (\<lambda>(root, parent').
       cluster_loop rest parent' (bt_push ord_cmp root member clusters))"

definition cluster_merge :: "('v, 'r) vuln_finding list \<Rightarrow> nat list \<Rightarrow> (nat \<times> nat list) option" where
  "cluster_merge out cluster =
     (case min_by (\<lambda>x y. rank_cmp (out ! x) (out ! y)) cluster of
        None \<Rightarrow> None
      | Some kept \<Rightarrow> Some (kept, filter (\<lambda>i. i \<noteq> kept) cluster))"

definition group_merges :: "('v, 'r) vuln_finding list \<Rightarrow> nat list \<Rightarrow> (nat \<times> nat list) list option" where
  "group_merges out members =
     (let ids = map (\<lambda>i. finding_ids (out ! i)) members;
          n = length members
      in Option.bind (link_all (\<lambda>a b. ids_overlap (ids ! a) (ids ! b)) (index_pairs n) [0..<n]) (\<lambda>parent.
         Option.bind (cluster_loop (enumerate 0 members) parent []) (\<lambda>clusters.
           Some (List.map_filter (cluster_merge out)
             (filter (\<lambda>c. length c > 1) (map snd clusters))))))"

definition occ_groups :: "('v, 'r) semver_lib \<Rightarrow> ('v, 'r) vuln_finding list \<Rightarrow> (string \<times> 'v option, nat list) btree" where
  "occ_groups lib out = group_by (occ_key_cmp lib) (\<lambda>i. occ_key (out ! i)) (\<lambda>i. i) [0..<length out]"

definition alias_merges ::
  "('v, 'r) semver_lib \<Rightarrow> ('v, 'r) vuln_finding list \<Rightarrow> (nat \<times> nat list) list option" where
  "alias_merges lib out =
     map_option concat
       (traverse (group_merges out) (filter (\<lambda>m. length m > 1) (map snd (occ_groups lib out))))"

definition max_score :: "score option \<Rightarrow> score option \<Rightarrow> score option" where
  "max_score a b =
     (case (a, b) of
        (Some x, Some y) \<Rightarrow> Some (max x y)
      | (None, _) \<Rightarrow> b
      | (_, None) \<Rightarrow> a)"

text \<open>What one finding takes over from those it absorbs.\<close>

definition absorb_one ::
  "('v, 'r) vuln_finding \<Rightarrow> string bset \<times> severity \<times> score option \<times> string option
     \<Rightarrow> string bset \<times> severity \<times> score option \<times> string option" where
  "absorb_one f st =
     (case st of (aliases, sev, cvss, vec) \<Rightarrow>
        (fold (bs_insert str_cmp) (vf_id f # vf_aliases f) aliases,
         max sev (vf_severity f),
         max_score cvss (vf_cvss f),
         (case vec of None \<Rightarrow> vf_vector f | Some s \<Rightarrow> Some s)))"

definition absorb_all :: "('v, 'r) vuln_finding \<Rightarrow> ('v, 'r) vuln_finding list \<Rightarrow> ('v, 'r) vuln_finding" where
  "absorb_all kept others =
     (case fold absorb_one others
             (bs_of_list str_cmp (vf_aliases kept), vf_severity kept, vf_cvss kept, vf_vector kept) of
        (aliases, sev, cvss, vec) \<Rightarrow>
          kept\<lparr>vf_aliases := filter (\<lambda>a. a \<noteq> vf_id kept) (bs_items aliases),
               vf_severity := sev, vf_cvss := cvss, vf_vector := vec\<rparr>)"

definition apply_merge ::
  "nat \<times> nat list \<Rightarrow> ('v, 'r) vuln_finding list \<times> bool list \<Rightarrow> ('v, 'r) vuln_finding list \<times> bool list" where
  "apply_merge merge st =
     (case (merge, st) of
        ((kept, others), (out, absorbed)) \<Rightarrow>
          (out[kept := absorb_all (out ! kept) (map ((!) out) others)],
           fold (\<lambda>i flags. flags[i := True]) others absorbed))"

definition collapse_alias_duplicates ::
  "('v, 'r) semver_lib \<Rightarrow> ('v, 'r) vuln_finding list \<Rightarrow> ('v, 'r) vuln_finding list option" where
  "collapse_alias_duplicates lib out =
     map_option (\<lambda>merges.
        (case fold apply_merge merges (out, replicate (length out) False) of
           (out', absorbed) \<Rightarrow> map fst (filter (\<lambda>p. \<not> snd p) (zip out' absorbed))))
       (alias_merges lib out)"

definition finding_order :: "('v, 'r) semver_lib \<Rightarrow> ('v, 'r) vuln_finding cmp" where
  "finding_order lib a b =
     then_with (str_cmp (vf_id a) (vf_id b)) (occ_key_cmp lib (occ_key a) (occ_key b))"

definition same_finding :: "('v, 'r) vuln_finding \<Rightarrow> ('v, 'r) vuln_finding \<Rightarrow> bool" where
  "same_finding a b \<longleftrightarrow> vf_id a = vf_id b \<and> occ_key a = occ_key b"

definition sort_dedup_findings ::
  "('v, 'r) semver_lib \<Rightarrow> ('v, 'r) vuln_finding list \<Rightarrow> ('v, 'r) vuln_finding list option" where
  "sort_dedup_findings lib out =
     collapse_alias_duplicates lib (dedup_by same_finding (sort_by (finding_order lib) out))"

section \<open>Lists of clusters\<close>

lemma distinct_concat_filter: "distinct (concat xss) \<Longrightarrow> distinct (concat (filter P xss))"
  by (induction xss) auto

lemma distinct_concat_mset:
  assumes "\<And>c. c \<in> set cs \<Longrightarrow> mset (f c) = mset c" and "distinct (concat cs)"
  shows "distinct (concat (map f cs))"
proof -
  have "mset (concat (map f cs)) = mset (concat cs)"
    using assms(1) by (induction cs) simp_all
  then show ?thesis using assms(2) by (metis mset_eq_imp_distinct_iff)
qed

text \<open>In a list whose concatenation has no repeats, an element determines its member list.\<close>

lemma distinct_concat_unique:
  assumes "distinct (concat xss)" and "xs \<in> set xss" "ys \<in> set xss" and "x \<in> set xs" "x \<in> set ys"
  shows "xs = ys"
  using assms by (induction xss) auto

lemma two_members: "i \<in> set c \<Longrightarrow> j \<in> set c \<Longrightarrow> i \<noteq> j \<Longrightarrow> length c > 1"
  by (cases c rule: list.exhaust; cases "tl c"; auto)

lemma filter_neq_mset: "distinct c \<Longrightarrow> k \<in> set c \<Longrightarrow> mset (k # filter (\<lambda>i. i \<noteq> k) c) = mset c"
proof (induction c)
  case (Cons x c)
  show ?case
  proof (cases "x = k")
    case True
    then have "filter (\<lambda>i. i \<noteq> k) c = c" using Cons.prems by (intro filter_True) auto
    then show ?thesis using True by simp
  next
    case False
    then show ?thesis using Cons by simp
  qed
qed simp

section \<open>One vulnerability under several ids\<close>

definition all_ids :: "('v, 'r) vuln_finding \<Rightarrow> string list" where
  "all_ids v = vf_id v # vf_aliases v"

lemma ids_overlap_iff: "ids_overlap (finding_ids v) (finding_ids w) \<longleftrightarrow> set (all_ids v) \<inter> set (all_ids w) \<noteq> {}"
  unfolding ids_overlap_def finding_ids_def list_ex_iff str.bs_mem_iff [OF str.bs_of_list(1)]
    str.bs_of_list(2) all_ids_def by blast

text \<open>
  Two findings of a list share an id on the same package at the same version; a chain of such
  steps makes them one vulnerability.
\<close>

definition alias_step :: "('v, 'r) vuln_finding list \<Rightarrow> ('v, 'r) vuln_finding \<Rightarrow> ('v, 'r) vuln_finding \<Rightarrow> bool" where
  "alias_step out f g \<longleftrightarrow> f \<in> set out \<and> g \<in> set out \<and> occ_key f = occ_key g \<and> set (all_ids f) \<inter> set (all_ids g) \<noteq> {}"

definition one_vulnerability :: "('v, 'r) vuln_finding list \<Rightarrow> ('v, 'r) vuln_finding \<Rightarrow> ('v, 'r) vuln_finding \<Rightarrow> bool" where
  "one_vulnerability out = rtranclp (alias_step out)"

lemma one_vulnerability_equivp: "equivp (one_vulnerability out)"
proof (rule equivpI)
  have "symp (alias_step out)" by (auto simp: alias_step_def symp_def)
  then show "symp (one_vulnerability out)" unfolding one_vulnerability_def by (rule symp_rtranclp)
qed (auto simp: one_vulnerability_def reflp_def transp_def)

lemma one_vulnerability_key: "one_vulnerability out f g \<Longrightarrow> occ_key f = occ_key g"
  unfolding one_vulnerability_def by (induction rule: rtranclp_induct) (auto simp: alias_step_def)

section \<open>The clusters of one group\<close>

lemma cluster_loop_eq:
  assumes "uf_ok q" and "\<forall>(a, m) \<in> set xs. a < length q"
    and "\<And>y. y < length q \<Longrightarrow> rt q y = r y"
  shows "cluster_loop xs q cl = Some (fold (\<lambda>x. bt_push ord_cmp (r (fst x)) (snd x)) xs cl)"
  using assms
proof (induction xs arbitrary: q cl)
  case (Cons am xs)
  obtain a m where am: "am = (a, m)" by (cases am)
  have a: "a < length q" using Cons.prems(2) by (simp add: am)
  obtain q' where q': "find_root q a = Some (rt q a, q')" "uf_ok q'" "length q' = length q"
    and r': "\<And>y. y < length q \<Longrightarrow> rt q' y = rt q y"
    using find_root_ok [OF Cons.prems(1) a] by metis
  have "cluster_loop xs q' (bt_push ord_cmp (r a) m cl) =
      Some (fold (\<lambda>x. bt_push ord_cmp (r (fst x)) (snd x)) xs (bt_push ord_cmp (r a) m cl))"
    by (rule Cons.IH [OF q'(2)]) (use Cons.prems q' r' in auto)
  then show ?case using q' a Cons.prems(3) by (simp add: am)
qed simp

interpretation rank: rust_ord rank_cmp
  unfolding rank_cmp_def by (intro ord_intros)

lemma cluster_merge_spec:
  assumes "c \<noteq> []" and "distinct c"
  shows "\<exists>k os. cluster_merge out c = Some (k, os) \<and> os = filter (\<lambda>i. i \<noteq> k) c \<and> mset (k # os) = mset c \<and>
    (\<forall>i \<in> set c. rank_cmp (out ! k) (out ! i) \<noteq> Greater)"
proof -
  let ?c = "\<lambda>x y. rank_cmp (out ! x) (out ! y)"
  have "?c = cmp_on ((!) out) rank_cmp" by (intro ext) (simp add: cmp_on_def)
  then have ord: "rust_ord ?c" using rust_ord_cmp_on [OF rank.rust_ord_axioms, of "(!) out"] by metis
  obtain k where k: "min_by ?c c = Some k" using assms(1) by (cases "min_by ?c c") auto
  have "k \<in> set c" by (rule min_by_mem [OF k])
  then have "mset (k # filter (\<lambda>i. i \<noteq> k) c) = mset c" by (rule filter_neq_mset [OF assms(2)])
  then show ?thesis
    using rust_ord.min_by_lower [OF ord k] by (auto simp: cluster_merge_def k)
qed

text \<open>
  What is known of the merges of a group: they partition part of it, join only what is one
  vulnerability, under the id of least rank, and leave no overlapping pair apart.
\<close>

definition merged_ids :: "nat \<times> nat list \<Rightarrow> nat list" where
  "merged_ids m = fst m # snd m"

definition merges_for :: "('v, 'r) vuln_finding list \<Rightarrow> nat list \<Rightarrow> (nat \<times> nat list) list \<Rightarrow> bool" where
  "merges_for out members M \<longleftrightarrow>
     (\<forall>m \<in> set M. sorted (snd m) \<and> snd m \<noteq> []) \<and>
     distinct (concat (map merged_ids M)) \<and>
     set (concat (map merged_ids M)) \<subseteq> set members \<and>
     (\<forall>m \<in> set M. \<forall>i \<in> set (merged_ids m).
        one_vulnerability out (out ! fst m) (out ! i) \<and> rank_cmp (out ! fst m) (out ! i) \<noteq> Greater) \<and>
     (\<forall>i \<in> set members. \<forall>j \<in> set members.
        i \<noteq> j \<longrightarrow> occ_key (out ! i) = occ_key (out ! j) \<longrightarrow> set (all_ids (out ! i)) \<inter> set (all_ids (out ! j)) \<noteq> {} \<longrightarrow>
        (\<exists>m \<in> set M. i \<in> set (merged_ids m) \<and> j \<in> set (merged_ids m)))"

lemma group_merges_spec:
  assumes "distinct members" "sorted members" and "\<forall>i \<in> set members. i < length out"
    and key: "\<forall>i \<in> set members. \<forall>j \<in> set members. occ_key (out ! i) = occ_key (out ! j)"
  shows "\<exists>M. group_merges out members = Some M \<and> merges_for out members M"
proof -
  let ?n = "length members"
  let ?ids = "map (\<lambda>i. finding_ids (out ! i)) members"
  let ?ov = "\<lambda>a b. ids_overlap (?ids ! a) (?ids ! b)"
  have ov: "?ov a b \<longleftrightarrow> set (all_ids (out ! (members ! a))) \<inter> set (all_ids (out ! (members ! b))) \<noteq> {}"
    if "a < ?n" "b < ?n" for a b using that by (simp add: ids_overlap_iff)
  obtain p where p: "link_all ?ov (index_pairs ?n) [0..<?n] = Some p" "uf_ok p" "length p = ?n"
    and joined: "\<And>a b. a < b \<Longrightarrow> b < ?n \<Longrightarrow> ?ov a b \<Longrightarrow> rt p a = rt p b"
    and sound: "\<And>Q x y. equivp Q \<Longrightarrow> (\<And>a b. a < b \<Longrightarrow> b < ?n \<Longrightarrow> ?ov a b \<Longrightarrow> Q a b) \<Longrightarrow>
      x < ?n \<Longrightarrow> y < ?n \<Longrightarrow> rt p x = rt p y \<Longrightarrow> Q x y"
    by (rule link_all_index [of ?ov ?n]) blast
  let ?xs = "enumerate 0 members"
  let ?cl = "group_by ord_cmp (\<lambda>x. rt p (fst x)) snd ?xs"
  let ?cs = "filter (\<lambda>c. length c > 1) (map snd ?cl)"
  have loop: "cluster_loop ?xs p [] = Some ?cl"
    unfolding group_by_def by (rule cluster_loop_eq [OF p(2)]) (auto simp: in_set_enumerate_eq p(3))
  have dc: "distinct (concat ?cs)"
    by (intro distinct_concat_filter distinct_group_by) (simp add: assms(1))
  have dis: "distinct c" if "c \<in> set ?cs" for c using dc that by (auto simp: distinct_concat_iff)
  define M where "M = List.map_filter (cluster_merge out) ?cs"
  define f where "f c = the (cluster_merge out c)" for c
  have f: "cluster_merge out c = Some (f c) \<and> snd (f c) = filter (\<lambda>i. i \<noteq> fst (f c)) c \<and> mset (merged_ids (f c)) = mset c \<and>
      (\<forall>i \<in> set c. rank_cmp (out ! fst (f c)) (out ! i) \<noteq> Greater)" if c: "c \<in> set ?cs" for c
  proof -
    have "c \<noteq> []" using c by auto
    from cluster_merge_spec [OF this dis [OF c], of out] show ?thesis
      by (auto simp: f_def merged_ids_def)
  qed
  have M: "M = map f ?cs"
  proof -
    have "List.map_filter (cluster_merge out) xs = map f xs" if "\<forall>c \<in> set xs. cluster_merge out c = Some (f c)" for xs
      using that by (induction xs) (simp_all add: List.map_filter_simps)
    from this [of ?cs] show ?thesis unfolding M_def using f by blast
  qed
  have run: "group_merges out members = Some M"
    unfolding group_merges_def Let_def M_def by (simp add: p(1) loop)
  have dM: "distinct (concat (map merged_ids M))"
    unfolding M map_map comp_def by (rule distinct_concat_mset [OF _ dc]) (use f in blast)
  have sets: "set (merged_ids (f c)) = set c" if "c \<in> set ?cs" for c
    using f [OF that] mset_eq_setD by blast
  have cl: "\<exists>r. c = map snd (filter (\<lambda>x. r = rt p (fst x)) ?xs)" if c: "c \<in> set (map snd ?cl)" for c
  proof -
    obtain x where "x \<in> set ?cl" and x: "c = snd x" using c by auto
    then have "(fst x, snd x) \<in> set ?cl" by simp
    from prim.group_by_entry [OF this] show ?thesis unfolding x by auto
  qed
  have member: "\<exists>a < ?n. i = members ! a \<and> rt p a = r"
    if "i \<in> set (map snd (filter (\<lambda>x. r = rt p (fst x)) ?xs))" for i r
    using that by (auto simp: in_set_enumerate_eq)
  have one: "one_vulnerability out (out ! i) (out ! j)" if c: "c \<in> set ?cs" "i \<in> set c" "j \<in> set c" for c i j
  proof -
    obtain r where "c = map snd (filter (\<lambda>x. r = rt p (fst x)) ?xs)" using cl c(1) by auto
    then obtain a b where ab: "a < ?n" "i = members ! a" "b < ?n" "j = members ! b" "rt p a = rt p b"
      using member c(2,3) by metis
    let ?Q = "\<lambda>x y. one_vulnerability out (out ! (members ! x)) (out ! (members ! y))"
    have eqv: "equivp ?Q"
      using one_vulnerability_equivp [of out]
      by (intro equivpI reflpI sympI transpI) (blast intro: equivp_reflp equivp_symp equivp_transp)+
    have "?Q x y" if "x < y" "y < ?n" "?ov x y" for x y
      using that ov [of x y] assms(3) key unfolding one_vulnerability_def
      by (intro r_into_rtranclp) (simp add: alias_step_def)
    from sound [OF eqv this ab(1,3,5)] show ?thesis using ab by simp
  qed
  have cover: "\<exists>m \<in> set M. i \<in> set (merged_ids m) \<and> j \<in> set (merged_ids m)"
    if ij: "i \<in> set members" "j \<in> set members" "i \<noteq> j"
      and o': "set (all_ids (out ! i)) \<inter> set (all_ids (out ! j)) \<noteq> {}" for i j
  proof -
    obtain a b where ab: "a < ?n" "i = members ! a" "b < ?n" "j = members ! b"
      using ij by (metis in_set_conv_nth)
    have "a \<noteq> b" using ij ab by auto
    have "?ov a b" "?ov b a" using ov [OF ab(1,3)] ov [OF ab(3,1)] o' ab by auto
    then have r: "rt p a = rt p b" using joined \<open>a \<noteq> b\<close> ab(1,3) by (metis linorder_neq_iff)
    have "(a, i) \<in> set ?xs" using ab by (simp add: in_set_enumerate_eq)
    then obtain k
      where "(k, map snd (filter (\<lambda>y. ord_cmp (rt p (fst (a, i))) (rt p (fst y)) = Equal) ?xs)) \<in> set ?cl"
      by (rule prim.group_by_cover [where key = "\<lambda>x. rt p (fst x)" and val = snd])
    from imageI [OF this, of snd]
    have c: "map snd (filter (\<lambda>y. rt p a = rt p (fst y)) ?xs) \<in> set (map snd ?cl)"
      by simp
    let ?c = "map snd (filter (\<lambda>y. rt p a = rt p (fst y)) ?xs)"
    have "members ! x \<in> set ?c" if "x < ?n" "rt p a = rt p x" for x
    proof -
      have "(x, members ! x) \<in> set (filter (\<lambda>y. rt p a = rt p (fst y)) ?xs)"
        using that by (simp add: in_set_enumerate_eq)
      from imageI [OF this, of snd] show ?thesis by simp
    qed
    then have mem: "i \<in> set ?c" "j \<in> set ?c" using ab r by blast+
    have "length ?c > 1" by (rule two_members [OF mem ij(3)])
    then have cs: "?c \<in> set ?cs" unfolding set_filter using c by blast
    have "f ?c \<in> set M" unfolding M list.set_map by (rule imageI [OF cs])
    moreover have "set (merged_ids (f ?c)) = set ?c" by (rule sets [OF cs])
    ultimately show ?thesis using mem by metis
  qed
  have sub: "set (concat (map merged_ids M)) \<subseteq> set members"
  proof
    fix i
    assume "i \<in> set (concat (map merged_ids M))"
    then obtain c where c: "c \<in> set ?cs" "i \<in> set c" using sets unfolding M by auto
    then obtain r where "c = map snd (filter (\<lambda>x. r = rt p (fst x)) ?xs)" using cl by auto
    then show "i \<in> set members" using member c(2) by (metis nth_mem)
  qed
  have order: "sorted (snd m) \<and> snd m \<noteq> []" if "m \<in> set M" for m
  proof -
    obtain c where c: "c \<in> set ?cs" and m: "m = f c" using \<open>m \<in> set M\<close> unfolding M by auto
    obtain r where r: "c = map snd (filter (\<lambda>x. r = rt p (fst x)) ?xs)" using cl c by auto
    have "sorted c" unfolding r by (rule sorted_filter) (simp add: assms(2))
    then have "sorted (filter (\<lambda>i. i \<noteq> fst (f c)) c)" using sorted_filter [of "\<lambda>i. i" c] by simp
    moreover have "size (mset (merged_ids (f c))) = size (mset c)" using f [OF c] by simp
    then have "Suc (length (snd (f c))) = length c" unfolding size_mset by (simp add: merged_ids_def)
    then have "snd (f c) \<noteq> []" using c by auto
    ultimately show ?thesis using f [OF c] by (simp add: m)
  qed
  have "merges_for out members M"
    unfolding merges_for_def
  proof (intro conjI dM sub)
    show "\<forall>m \<in> set M. sorted (snd m) \<and> snd m \<noteq> []" using order by blast
    show "\<forall>m \<in> set M. \<forall>i \<in> set (merged_ids m).
        one_vulnerability out (out ! fst m) (out ! i) \<and> rank_cmp (out ! fst m) (out ! i) \<noteq> Greater"
    proof (intro ballI)
      fix m i
      assume "m \<in> set M" and i: "i \<in> set (merged_ids m)"
      then obtain c where c: "c \<in> set ?cs" and m: "m = f c" unfolding M by auto
      have "i \<in> set c" "fst m \<in> set c" using i sets [OF c] by (auto simp: m merged_ids_def)
      then show "one_vulnerability out (out ! fst m) (out ! i) \<and> rank_cmp (out ! fst m) (out ! i) \<noteq> Greater"
        using one [OF c] f [OF c] by (simp add: m)
    qed
  qed (use cover in blast)
  then show ?thesis using run by blast
qed

section \<open>All groups\<close>

lemma traverse_all: "(\<And>x. x \<in> set xs \<Longrightarrow> f x = Some (g x)) \<Longrightarrow> traverse f xs = Some (map g xs)"
  by (induction xs) simp_all

lemma distinct_concat_sub:
  assumes "\<And>m. m \<in> set ms \<Longrightarrow> distinct (concat (map h (g m))) \<and> set (concat (map h (g m))) \<subseteq> set m"
    and "distinct (concat ms)"
  shows "distinct (concat (map h (concat (map g ms))))"
  using assms
proof (induction ms)
  case (Cons m ms)
  have rest: "set (concat (map h (concat (map g ms)))) \<subseteq> set (concat ms)"
    using Cons.prems(1) by fastforce
  have hd: "distinct (concat (map h (g m)))" "set (concat (map h (g m))) \<subseteq> set m"
    using Cons.prems(1) [of m] by simp_all
  have tl: "distinct (concat (map h (concat (map g ms))))"
    by (rule Cons.IH) (use Cons.prems in auto)
  have "set m \<inter> set (concat ms) = {}" using Cons.prems(2) by simp
  then have "set (concat (map h (g m))) \<inter> set (concat (map h (concat (map g ms)))) = {}"
    using rest hd(2) by blast
  then show ?case using hd(1) tl unfolding list.map concat.simps map_append concat_append distinct_append
    by blast
qed simp

lemma occ_key_ord: "rust_total_ord (sv_cmp lib) \<Longrightarrow> rust_total_ord (occ_key_cmp lib)"
  unfolding occ_key_cmp_def by (intro ord_intros)

lemma alias_merges_spec:
  assumes v: "rust_total_ord (sv_cmp lib)"
  shows "\<exists>M. alias_merges lib out = Some M \<and> merges_for out [0..<length out] M"
proof -
  note total = occ_key_ord [OF v]
  note ord = rust_total_ord_ord [OF total]
  let ?key = "\<lambda>i. occ_key (out ! i)"
  let ?gs = "map snd (occ_groups lib out)"
  let ?ms = "filter (\<lambda>m. length m > 1) ?gs"
  have dgs: "distinct (concat ?gs)" unfolding occ_groups_def by (rule distinct_group_by) simp
  then have dms: "distinct (concat ?ms)" by (rule distinct_concat_filter)
  have entry: "\<exists>k. m = filter (\<lambda>i. k = ?key i) [0..<length out]" if m: "m \<in> set ?gs" for m
  proof -
    obtain x where "x \<in> set (occ_groups lib out)" and x: "m = snd x" using m by auto
    then have "(fst x, snd x) \<in> set (group_by (occ_key_cmp lib) ?key (\<lambda>i. i) [0..<length out])"
      by (simp add: occ_groups_def)
    from rust_ord.group_by_entry [OF ord this] show ?thesis
      unfolding x by (intro exI [of _ "fst x"]) (simp add: rust_total_ord.cmp_Equal_iff [OF total])
  qed
  have spec: "\<exists>M. group_merges out m = Some M \<and> merges_for out m M" if m: "m \<in> set ?ms" for m
  proof -
    have "m \<in> set ?gs" using m by (simp only: set_filter) blast
    then obtain k where k: "m = filter (\<lambda>i. k = ?key i) [0..<length out]" using entry by blast
    have "sorted m" unfolding k using sorted_filter [of "\<lambda>i. i" "[0..<length out]"] by simp
    then show ?thesis by (rule group_merges_spec [rotated]) (auto simp: k)
  qed
  then obtain g where g: "\<And>m. m \<in> set ?ms \<Longrightarrow> group_merges out m = Some (g m) \<and> merges_for out m (g m)"
    by metis
  let ?M = "concat (map g ?ms)"
  have run: "alias_merges lib out = Some ?M"
    unfolding alias_merges_def using traverse_all [of ?ms "group_merges out" g] g by simp
  have part: "distinct (concat (map merged_ids (g m))) \<and> set (concat (map merged_ids (g m))) \<subseteq> set m"
    if "m \<in> set ?ms" for m
    using g [OF that] by (simp add: merges_for_def)
  have in_ms: "set m \<subseteq> {..<length out}" if "m \<in> set ?ms" for m
  proof -
    have "m \<in> set ?gs" using that by (simp only: set_filter) blast
    then show ?thesis using entry [of m] by auto
  qed
  have "merges_for out [0..<length out] ?M"
    unfolding merges_for_def
  proof (intro conjI)
    have "\<forall>m \<in> set (g x). sorted (snd m) \<and> snd m \<noteq> []" if "x \<in> set ?ms" for x
      using g [OF that] by (simp add: merges_for_def)
    then show "\<forall>m \<in> set ?M. sorted (snd m) \<and> snd m \<noteq> []" unfolding set_concat set_map by blast
    show "distinct (concat (map merged_ids ?M))" by (rule distinct_concat_sub [OF part dms])
    have "set (concat (map merged_ids (g m))) \<subseteq> {..<length out}" if "m \<in> set ?ms" for m
      using part [OF that] in_ms [OF that] by blast
    then show "set (concat (map merged_ids ?M)) \<subseteq> set [0..<length out]" by fastforce
    show "\<forall>m \<in> set ?M. \<forall>i \<in> set (merged_ids m).
        one_vulnerability out (out ! fst m) (out ! i) \<and> rank_cmp (out ! fst m) (out ! i) \<noteq> Greater"
    proof
      fix x
      assume "x \<in> set ?M"
      then obtain m where "m \<in> set ?ms" "x \<in> set (g m)" by auto
      then show "\<forall>i \<in> set (merged_ids x).
          one_vulnerability out (out ! fst x) (out ! i) \<and> rank_cmp (out ! fst x) (out ! i) \<noteq> Greater"
        using g by (simp add: merges_for_def)
    qed
    show "\<forall>i \<in> set [0..<length out]. \<forall>j \<in> set [0..<length out].
        i \<noteq> j \<longrightarrow> ?key i = ?key j \<longrightarrow> set (all_ids (out ! i)) \<inter> set (all_ids (out ! j)) \<noteq> {} \<longrightarrow>
        (\<exists>m \<in> set ?M. i \<in> set (merged_ids m) \<and> j \<in> set (merged_ids m))"
    proof (intro ballI impI)
      fix i j
      assume i: "i \<in> set [0..<length out]" and j: "j \<in> set [0..<length out]" and ne: "i \<noteq> j"
        and key: "?key i = ?key j" and ov: "set (all_ids (out ! i)) \<inter> set (all_ids (out ! j)) \<noteq> {}"
      let ?m = "map (\<lambda>i. i) (filter (\<lambda>y. occ_key_cmp lib (?key i) (?key y) = Equal) [0..<length out])"
      obtain k where "(k, ?m) \<in> set (occ_groups lib out)"
        unfolding occ_groups_def by (rule rust_ord.group_by_cover [OF ord i, where key = ?key and val = "\<lambda>i. i"])
      from imageI [OF this, of snd] have mg: "?m \<in> set ?gs" by simp
      have mem: "i \<in> set ?m" "j \<in> set ?m"
        using i j key by (simp_all add: rust_total_ord.cmp_Equal_iff [OF total])
      have "length ?m > 1" by (rule two_members [OF mem ne])
      then have m: "?m \<in> set ?ms" unfolding set_filter using mg by blast
      have "merges_for out ?m (g ?m)" using g [OF m] by blast
      then obtain x where "x \<in> set (g ?m)" "i \<in> set (merged_ids x)" "j \<in> set (merged_ids x)"
        unfolding merges_for_def using mem ne key ov by blast
      then show "\<exists>m \<in> set ?M. i \<in> set (merged_ids m) \<and> j \<in> set (merged_ids m)"
        using m unfolding set_concat set_map by blast
    qed
  qed
  then show ?thesis using run by blast
qed

section \<open>What absorbing does\<close>

text \<open>The highest of some scores, none only when none is given.\<close>

definition highest_score :: "score option \<Rightarrow> score option list \<Rightarrow> bool" where
  "highest_score s xs \<longleftrightarrow>
     (case s of
        None \<Rightarrow> list_all (\<lambda>x. x = None) xs
      | Some r \<Rightarrow> Some r \<in> set xs \<and> list_all (\<lambda>x. case x of None \<Rightarrow> True | Some q \<Rightarrow> q \<le> r) xs)"

text \<open>The vector of the first finding that has one.\<close>

definition first_vector :: "('v, 'r) vuln_finding list \<Rightarrow> string option" where
  "first_vector fs = (case List.find (\<lambda>f. vf_vector f \<noteq> None) fs of None \<Rightarrow> None | Some f \<Rightarrow> vf_vector f)"

lemma first_vector_simps [simp]:
  "first_vector [] = None"
  "first_vector (f # fs) = (case vf_vector f of None \<Rightarrow> first_vector fs | Some s \<Rightarrow> Some s)"
  by (auto simp: first_vector_def split: option.split)

lemma first_vector_skip:
  "vf_vector (f k) = None \<Longrightarrow> first_vector (map f (filter (\<lambda>i. i \<noteq> k) c)) = first_vector (map f c)"
  by (induction c) (auto split: option.split)

lemma highest_score_max: "highest_score s (max_score a b # xs) \<Longrightarrow> highest_score s (a # b # xs)"
  unfolding highest_score_def max_score_def
  by (cases a; cases b; cases s) (auto split: if_splits simp: max_def)

lemma absorb_fold:
  assumes "bt_wf str_cmp aliases"
  shows "case fold absorb_one others (aliases, sev, cvss, vec) of (aliases', sev', cvss', vec') \<Rightarrow>
    bt_wf str_cmp aliases' \<and>
    set (bs_items aliases') = set (bs_items aliases) \<union> (\<Union>f \<in> set others. set (all_ids f)) \<and>
    sev \<le> sev' \<and> (\<forall>f \<in> set others. vf_severity f \<le> sev') \<and>
    sev' \<in> insert sev (vf_severity ` set others) \<and>
    highest_score cvss' (cvss # map vf_cvss others) \<and>
    vec' = (case vec of None \<Rightarrow> first_vector others | Some s \<Rightarrow> Some s)"
  using assms
proof (induction others arbitrary: aliases sev cvss vec)
  case (Cons f others)
  let ?a = "fold (bs_insert str_cmp) (vf_id f # vf_aliases f) aliases"
  note a = str.bs_fold_insert [OF Cons.prems, of "vf_id f # vf_aliases f"]
  have "fold absorb_one (f # others) (aliases, sev, cvss, vec) =
      fold absorb_one others (?a, max sev (vf_severity f), max_score cvss (vf_cvss f),
        (case vec of None \<Rightarrow> vf_vector f | Some s \<Rightarrow> Some s))"
    by (simp add: absorb_one_def)
  moreover note Cons.IH [OF a [THEN conjunct1], of "max sev (vf_severity f)" "max_score cvss (vf_cvss f)"
      "case vec of None \<Rightarrow> vf_vector f | Some s \<Rightarrow> Some s"]
  moreover have "max sev (vf_severity f) \<in> {sev, vf_severity f}" by (simp add: max_def)
  ultimately show ?case using a highest_score_max [of _ cvss "vf_cvss f" "map vf_cvss others"]
    by (auto simp: all_ids_def split: prod.splits option.splits)
qed (auto simp: highest_score_def split: option.split)

text \<open>A finding differs from the one it was kept from in the four fields a merge may change only.\<close>

definition only_merged :: "('v, 'r) vuln_finding \<Rightarrow> ('v, 'r) vuln_finding \<Rightarrow> bool" where
  "only_merged k g \<longleftrightarrow>
     g = k\<lparr>vf_aliases := vf_aliases g, vf_severity := vf_severity g, vf_cvss := vf_cvss g, vf_vector := vf_vector g\<rparr>"

lemma absorb_all_spec:
  "vf_id (absorb_all k fs) = vf_id k \<and> vf_title (absorb_all k fs) = vf_title k \<and>
   vf_occurrences (absorb_all k fs) = vf_occurrences k \<and>
   set (all_ids (absorb_all k fs)) = (\<Union>f \<in> set (k # fs). set (all_ids f)) \<and>
   (\<forall>f \<in> set (k # fs). vf_severity f \<le> vf_severity (absorb_all k fs)) \<and>
   vf_severity (absorb_all k fs) \<in> vf_severity ` set (k # fs) \<and>
   highest_score (vf_cvss (absorb_all k fs)) (map vf_cvss (k # fs)) \<and>
   vf_vector (absorb_all k fs) = first_vector (k # fs) \<and>
   sorted_wrt (\<lambda>a b. str_cmp a b = Less) (vf_aliases (absorb_all k fs)) \<and>
   vf_id k \<notin> set (vf_aliases (absorb_all k fs)) \<and>
   only_merged k (absorb_all k fs)"
proof -
  obtain al sv cv ve where eq: "fold absorb_one fs
      (bs_of_list str_cmp (vf_aliases k), vf_severity k, vf_cvss k, vf_vector k) = (al, sv, cv, ve)"
    by (metis prod_cases4)
  note st = absorb_fold [OF str.bs_of_list(1) [of "vf_aliases k"], where others = fs and sev = "vf_severity k"
        and cvss = "vf_cvss k" and vec = "vf_vector k", unfolded eq prod.case str.bs_of_list(2)]
  have "set (all_ids (absorb_all k fs)) = insert (vf_id k) (set (bs_items al))"
    unfolding absorb_all_def eq by (auto simp: all_ids_def)
  also have "\<dots> = (\<Union>f \<in> set (k # fs). set (all_ids f))" using st by (auto simp: all_ids_def)
  finally have ids: "set (all_ids (absorb_all k fs)) = (\<Union>f \<in> set (k # fs). set (all_ids f))" .
  have "sorted_wrt (\<lambda>a b. str_cmp a b = Less) (bs_items al)"
    using st unfolding bt_wf_def bs_items_def by (simp add: sorted_wrt_map)
  then have "sorted_wrt (\<lambda>a b. str_cmp a b = Less) (filter (\<lambda>a. a \<noteq> vf_id k) (bs_items al))"
    by (rule sorted_wrt_filter)
  then show ?thesis using st ids unfolding absorb_all_def eq by (auto simp: only_merged_def)
qed

section \<open>Applying the merges\<close>

definition merge_result :: "('v, 'r) vuln_finding list \<Rightarrow> nat \<times> nat list \<Rightarrow> ('v, 'r) vuln_finding" where
  "merge_result out m = absorb_all (out ! fst m) (map ((!) out) (snd m))"

lemma nth_update_at: "j < length xs \<Longrightarrow> xs[a := v] ! j = (if a = j then v else xs ! j)"
  by (cases "a = j") simp_all

lemma fold_flags:
  "length (fold (\<lambda>i flags. flags[i := True]) is flags) = length flags \<and>
   (\<forall>j < length flags. fold (\<lambda>i flags. flags[i := True]) is flags ! j \<longleftrightarrow> flags ! j \<or> j \<in> set is)"
  by (induction "is" arbitrary: flags) (auto simp: nth_update_at split: if_splits)

lemma fold_apply_merge:
  assumes "distinct (concat (map merged_ids M))" and "set (concat (map merged_ids M)) \<subseteq> {..<length out}"
    and "length flags = length out"
  shows "case fold apply_merge M (out, flags) of (out', flags') \<Rightarrow>
    length out' = length out \<and> length flags' = length out \<and>
    (\<forall>i < length out. i \<notin> fst ` set M \<longrightarrow> out' ! i = out ! i) \<and>
    (\<forall>m \<in> set M. out' ! fst m = merge_result out m) \<and>
    (\<forall>i < length out. flags' ! i \<longleftrightarrow> flags ! i \<or> (\<exists>m \<in> set M. i \<in> set (snd m)))"
  using assms
proof (induction M arbitrary: out flags)
  case (Cons m M)
  obtain k os where m: "m = (k, os)" by (cases m)
  let ?out = "out[k := merge_result out m]"
  let ?flags = "fold (\<lambda>i flags. flags[i := True]) os flags"
  have step: "apply_merge m (out, flags) = (?out, ?flags)"
    by (simp add: apply_merge_def m merge_result_def)
  have k: "k < length out" and kM: "k \<notin> set (concat (map merged_ids M))"
    using Cons.prems by (simp_all add: m merged_ids_def)
  obtain out' flags' where run: "fold apply_merge M (?out, ?flags) = (out', flags')" by (metis surj_pair)
  have "distinct (concat (map merged_ids M))" "set (concat (map merged_ids M)) \<subseteq> {..<length ?out}"
    "length ?flags = length ?out"
    using Cons.prems fold_flags [of os flags] by simp_all
  note IH = Cons.IH [OF this, unfolded run prod.case]
  have kfst: "k \<notin> fst ` set M" using kM by (force simp: merged_ids_def)
  have same: "merge_result ?out x = merge_result out x" if x: "x \<in> set M" for x
  proof -
    have "k \<notin> set (merged_ids x)" using kM x by auto
    then have "k \<noteq> fst x" "k \<notin> set (snd x)" by (simp_all add: merged_ids_def)
    then have "map ((!) ?out) (snd x) = map ((!) out) (snd x)" "?out ! fst x = out ! fst x"
      by (intro map_cong nth_list_update_neq refl, auto)
    then show ?thesis by (simp only: merge_result_def [of ?out x] merge_result_def [of out x])
  qed
  have a: "\<forall>i < length out. i \<notin> fst ` set (m # M) \<longrightarrow> out' ! i = out ! i"
    using IH by (simp add: m)
  have "out' ! k = merge_result out m" using IH k kfst by simp
  moreover have "\<forall>x \<in> set M. out' ! fst x = merge_result out x" using IH same by simp
  ultimately have b: "\<forall>x \<in> set (m # M). out' ! fst x = merge_result out x" by (simp add: m)
  have c: "\<forall>i < length out. flags' ! i \<longleftrightarrow> flags ! i \<or> (\<exists>x \<in> set (m # M). i \<in> set (snd x))"
    using IH fold_flags [of os flags] Cons.prems(3) by (auto simp: m)
  show ?case
    unfolding fold_simps comp_def step run prod.case using IH a b c by simp
qed simp

text \<open>The surviving indices, and what stands at each of them.\<close>

lemma collapse_run:
  assumes v: "rust_total_ord (sv_cmp lib)"
  obtains M out' alive where "merges_for out [0..<length out] M"
    and "collapse_alias_duplicates lib out = Some (map ((!) out') alive)"
    and "alive = filter (\<lambda>i. \<forall>m \<in> set M. i \<notin> set (snd m)) [0..<length out]"
    and "\<forall>i < length out. i \<notin> fst ` set M \<longrightarrow> out' ! i = out ! i"
    and "\<forall>m \<in> set M. out' ! fst m = merge_result out m"
proof -
  obtain M where M: "alias_merges lib out = Some M" and mf: "merges_for out [0..<length out] M"
    using alias_merges_spec [OF v] by blast
  have pre: "distinct (concat (map merged_ids M))" "set (concat (map merged_ids M)) \<subseteq> {..<length out}"
    using mf by (auto simp: merges_for_def)
  obtain out' flags where run: "fold apply_merge M (out, replicate (length out) False) = (out', flags)"
    by (metis surj_pair)
  note post = fold_apply_merge [OF pre, of "replicate (length out) False", unfolded run prod.case, simplified]
  let ?alive = "filter (\<lambda>i. \<forall>m \<in> set M. i \<notin> set (snd m)) [0..<length out]"
  have "zip out' flags = map (\<lambda>i. (out' ! i, flags ! i)) [0..<length out]"
    using post by (intro nth_equalityI) simp_all
  then have "map fst (filter (\<lambda>p. \<not> snd p) (zip out' flags)) =
      map ((!) out') (filter (\<lambda>i. \<not> flags ! i) [0..<length out])"
    by (simp add: filter_map comp_def)
  also have "filter (\<lambda>i. \<not> flags ! i) [0..<length out] = ?alive"
    using post by (intro filter_cong) auto
  finally have "collapse_alias_duplicates lib out = Some (map ((!) out') ?alive)"
    by (simp add: collapse_alias_duplicates_def M run)
  then show thesis using that [OF mf _ refl] post by blast
qed

section \<open>The merged list\<close>

text \<open>What stands at a surviving index: the finding itself, or the merge of its cluster.\<close>

definition cluster_at :: "(nat \<times> nat list) list \<Rightarrow> nat \<Rightarrow> nat list" where
  "cluster_at M i = (case List.find (\<lambda>m. fst m = i) M of None \<Rightarrow> [i] | Some m \<Rightarrow> merged_ids m)"

lemma cluster_at_cases:
  assumes "merges_for out members M"
  shows "cluster_at M i = [i] \<and> i \<notin> fst ` set M \<or> (\<exists>m \<in> set M. fst m = i \<and> cluster_at M i = merged_ids m)"
proof (cases "List.find (\<lambda>m. fst m = i) M")
  case None
  then have "\<forall>m \<in> set M. fst m \<noteq> i" by (auto simp: find_None_iff)
  then show ?thesis by (auto simp: cluster_at_def None)
next
  case (Some m)
  then have "m \<in> set M" "fst m = i" by (auto simp: find_Some_iff)
  then show ?thesis using Some by (auto simp: cluster_at_def)
qed

lemma merges_unique:
  assumes "merges_for out members M" and "m \<in> set M" "m' \<in> set M"
    and "i \<in> set (merged_ids m)" "i \<in> set (merged_ids m')"
  shows "m = m'"
proof -
  have d: "distinct (concat (map merged_ids M))" using assms(1) by (simp add: merges_for_def)
  then have "merged_ids m = merged_ids m'"
    using assms(2-) by (intro distinct_concat_unique [OF d, of _ _ i]) simp_all
  then show ?thesis by (cases m; cases m') (simp add: merged_ids_def)
qed

lemma kept_survives:
  assumes "merges_for out members M" and "m \<in> set M" "m' \<in> set M"
  shows "fst m \<notin> set (snd m')"
proof
  assume a: "fst m \<in> set (snd m')"
  have eq: "m = m'" by (rule merges_unique [OF assms, of "fst m"]) (use a in \<open>simp_all add: merged_ids_def\<close>)
  have "distinct (concat (map merged_ids M))" using assms(1) by (simp add: merges_for_def)
  then have "distinct (merged_ids m)" using assms(2) by (auto simp: distinct_concat_iff)
  then show False using a eq by (simp add: merged_ids_def)
qed

text \<open>The surviving finding carries the ids of its cluster, and nothing outside it overlaps.\<close>

lemma survivor:
  assumes mf: "merges_for out [0..<length out] M" and i: "i < length out"
    and keep: "\<forall>i < length out. i \<notin> fst ` set M \<longrightarrow> out' ! i = out ! i"
    and merged: "\<forall>m \<in> set M. out' ! fst m = merge_result out m"
  shows "vf_id (out' ! i) = vf_id (out ! i)" and "vf_title (out' ! i) = vf_title (out ! i)"
    and "vf_occurrences (out' ! i) = vf_occurrences (out ! i)"
    and "set (all_ids (out' ! i)) = (\<Union>j \<in> set (cluster_at M i). set (all_ids (out ! j)))"
    and "j \<in> set (cluster_at M i) \<Longrightarrow> vf_severity (out ! j) \<le> vf_severity (out' ! i)"
    and "j \<in> set (cluster_at M i) \<Longrightarrow> j < length out \<and> one_vulnerability out (out ! i) (out ! j) \<and>
      rank_cmp (out ! i) (out ! j) \<noteq> Greater"
proof -
  have "vf_id (out' ! i) = vf_id (out ! i) \<and> vf_title (out' ! i) = vf_title (out ! i) \<and>
    vf_occurrences (out' ! i) = vf_occurrences (out ! i) \<and>
    set (all_ids (out' ! i)) = (\<Union>j \<in> set (cluster_at M i). set (all_ids (out ! j))) \<and>
    (\<forall>j \<in> set (cluster_at M i). vf_severity (out ! j) \<le> vf_severity (out' ! i) \<and> j < length out \<and>
      one_vulnerability out (out ! i) (out ! j) \<and> rank_cmp (out ! i) (out ! j) \<noteq> Greater)"
    using cluster_at_cases [OF mf, of i]
  proof (elim disjE conjE bexE)
    assume c: "cluster_at M i = [i]" and "i \<notin> fst ` set M"
    then have "out' ! i = out ! i" using keep i by blast
    then show ?thesis using i equivp_reflp [OF one_vulnerability_equivp] by (simp add: c)
  next
    fix m
    assume m: "m \<in> set M" "fst m = i" and c: "cluster_at M i = merged_ids m"
    have "out' ! i = merge_result out m" using merged m by blast
    then have at: "out' ! i = absorb_all (out ! i) (map ((!) out) (snd m))" using m by (simp add: merge_result_def)
    have ids: "set (merged_ids m) \<subseteq> {..<length out}" using mf m(1) by (fastforce simp: merges_for_def)
    have one: "\<forall>j \<in> set (merged_ids m). one_vulnerability out (out ! i) (out ! j) \<and> rank_cmp (out ! i) (out ! j) \<noteq> Greater"
      using mf m by (auto simp: merges_for_def)
    show ?thesis
      unfolding at c using absorb_all_spec [of "out ! i" "map ((!) out) (snd m)"] ids one m(2)
      by (auto simp: merged_ids_def)
  qed
  then show "vf_id (out' ! i) = vf_id (out ! i)" "vf_title (out' ! i) = vf_title (out ! i)"
    "vf_occurrences (out' ! i) = vf_occurrences (out ! i)"
    "set (all_ids (out' ! i)) = (\<Union>j \<in> set (cluster_at M i). set (all_ids (out ! j)))"
    "j \<in> set (cluster_at M i) \<Longrightarrow> vf_severity (out ! j) \<le> vf_severity (out' ! i)"
    "j \<in> set (cluster_at M i) \<Longrightarrow> j < length out \<and> one_vulnerability out (out ! i) (out ! j) \<and>
      rank_cmp (out ! i) (out ! j) \<noteq> Greater"
    by blast+
qed

text \<open>Every index is in the cluster of exactly one survivor.\<close>

lemma cluster_of_index:
  assumes mf: "merges_for out [0..<length out] M" and i: "i < length out"
  obtains j where "j < length out" and "\<forall>m \<in> set M. j \<notin> set (snd m)" and "i \<in> set (cluster_at M j)"
proof (cases "\<exists>m \<in> set M. i \<in> set (snd m)")
  case True
  then obtain m where m: "m \<in> set M" "i \<in> set (snd m)" by blast
  have "fst m \<in> set (concat (map merged_ids M))" using m(1) by (force simp: merged_ids_def)
  then have lt: "fst m < length out" using mf by (auto simp: merges_for_def)
  obtain m' where m': "m' \<in> set M" "fst m' = fst m" "cluster_at M (fst m) = merged_ids m'"
    using cluster_at_cases [OF mf, of "fst m"] m(1) by blast
  have "m' = m" by (rule merges_unique [OF mf m'(1) m(1), of "fst m"]) (simp_all add: merged_ids_def m'(2) [symmetric])
  then have "i \<in> set (cluster_at M (fst m))" using m' m(2) by (simp add: merged_ids_def)
  then show ?thesis using that lt kept_survives [OF mf m(1)] by blast
next
  case False
  have "i \<in> set (cluster_at M i)" using cluster_at_cases [OF mf, of i] by (auto simp: merged_ids_def)
  then show ?thesis using that i False by blast
qed

lemma merges_cover:
  assumes mf: "merges_for out [0..<length out] M" and "i < length out" "j < length out" "i \<noteq> j"
    and key: "occ_key (out ! i) = occ_key (out ! j)"
    and ov: "set (all_ids (out ! i)) \<inter> set (all_ids (out ! j)) \<noteq> {}"
  shows "\<exists>m \<in> set M. i \<in> set (merged_ids m) \<and> j \<in> set (merged_ids m)"
proof -
  have "i \<in> set [0..<length out]" "j \<in> set [0..<length out]" using assms by simp_all
  note cover = mf [unfolded merges_for_def, THEN conjunct2, THEN conjunct2, THEN conjunct2, THEN conjunct2,
      THEN bspec, OF this(1), THEN bspec, OF this(2)]
  from cover [THEN mp, OF assms(4), THEN mp, OF key, THEN mp, OF ov] show ?thesis .
qed

lemma cluster_home:
  assumes mf: "merges_for out members M" and alive: "\<forall>m \<in> set M. i \<notin> set (snd m)"
    and a: "a \<in> set (cluster_at M i)" and m: "m \<in> set M" "a \<in> set (merged_ids m)"
  shows "i = fst m"
  using cluster_at_cases [OF mf, of i]
proof (elim disjE conjE bexE)
  assume "cluster_at M i = [i]"
  then have "i \<in> set (merged_ids m)" using a m(2) by simp
  then show ?thesis using alive m(1) by (auto simp: merged_ids_def)
next
  fix m'
  assume m': "m' \<in> set M" "fst m' = i" "cluster_at M i = merged_ids m'"
  then have "m' = m" using merges_unique [OF mf m'(1) m(1), of a] a m(2) by simp
  then show ?thesis using m' by simp
qed

lemma clusters_apart:
  assumes mf: "merges_for out [0..<length out] M" and "i < length out" "j < length out" "i \<noteq> j"
    and alive: "\<forall>m \<in> set M. i \<notin> set (snd m)" "\<forall>m \<in> set M. j \<notin> set (snd m)"
    and a: "a \<in> set (cluster_at M i)" "a < length out" and b: "b \<in> set (cluster_at M j)" "b < length out"
    and key: "occ_key (out ! a) = occ_key (out ! b)"
  shows "set (all_ids (out ! a)) \<inter> set (all_ids (out ! b)) = {}"
proof (rule ccontr)
  note home = cluster_home [OF mf alive(1) a(1)] and home' = cluster_home [OF mf alive(2) b(1)]
  assume ov: "set (all_ids (out ! a)) \<inter> set (all_ids (out ! b)) \<noteq> {}"
  show False
  proof (cases "a = b")
    case True
    show False
      using cluster_at_cases [OF mf, of i]
    proof (elim disjE conjE bexE)
      assume "cluster_at M i = [i]"
      then have bi: "b = i" using a(1) True by simp
      show False
        using cluster_at_cases [OF mf, of j]
      proof (elim disjE conjE bexE)
        assume "cluster_at M j = [j]"
        then show False using bi b(1) assms(4) by simp
      next
        fix m
        assume "m \<in> set M" "fst m = j" "cluster_at M j = merged_ids m"
        then show False using home [of m] b(1) True assms(4) by simp
      qed
    next
      fix m
      assume "m \<in> set M" "fst m = i" "cluster_at M i = merged_ids m"
      then show False using home' [of m] a(1) True assms(4) by simp
    qed
  next
    case False
    then obtain m where "m \<in> set M" "a \<in> set (merged_ids m)" "b \<in> set (merged_ids m)"
      using merges_cover [OF mf a(2) b(2) False key ov] by blast
    then show False using home home' assms(4) by simp
  qed
qed

lemma collapse_duplicates:
  assumes v: "rust_total_ord (sv_cmp lib)"
  shows "\<exists>out'. collapse_alias_duplicates lib out = Some out' \<and>
    list_all (\<lambda>f. list_ex (\<lambda>g. occ_key g = occ_key f \<and> set (all_ids f) \<subseteq> set (all_ids g) \<and>
        vf_severity f \<le> vf_severity g) out') out \<and>
    list_all (\<lambda>g. list_ex (\<lambda>k. vf_id g = vf_id k \<and> vf_title g = vf_title k \<and>
        vf_occurrences g = vf_occurrences k \<and>
        list_all (\<lambda>a. list_ex (\<lambda>f. a \<in> set (all_ids f) \<and> one_vulnerability out k f \<and>
          rank_cmp k f \<noteq> Greater) out) (all_ids g)) out) out' \<and>
    sorted_wrt (\<lambda>g h. occ_key g \<noteq> occ_key h \<or> set (all_ids g) \<inter> set (all_ids h) = {}) out'"
proof -
  obtain M out' alive where mf: "merges_for out [0..<length out] M"
    and run: "collapse_alias_duplicates lib out = Some (map ((!) out') alive)"
    and alive: "alive = filter (\<lambda>i. \<forall>m \<in> set M. i \<notin> set (snd m)) [0..<length out]"
    and keep: "\<forall>i < length out. i \<notin> fst ` set M \<longrightarrow> out' ! i = out ! i"
    and merged: "\<forall>m \<in> set M. out' ! fst m = merge_result out m"
    by (rule collapse_run [OF v, of out]) (rule that, assumption+)
  note sv = survivor [OF mf _ keep merged]
  have key: "occ_key (out' ! i) = occ_key (out ! i)" if "i < length out" for i
    using sv(3) [OF that] by (simp add: occ_key_def)
  have kept: "\<exists>g \<in> set (map ((!) out') alive). occ_key g = occ_key f \<and> set (all_ids f) \<subseteq> set (all_ids g) \<and>
      vf_severity f \<le> vf_severity g" if f: "f \<in> set out" for f
  proof -
    obtain i where i: "i < length out" "f = out ! i" using f by (metis in_set_conv_nth)
    obtain j where j: "j < length out" "\<forall>m \<in> set M. j \<notin> set (snd m)" "i \<in> set (cluster_at M j)"
      by (rule cluster_of_index [OF mf i(1)])
    have "occ_key (out ! i) = occ_key (out ! j)"
      using sv(6) [OF j(1,3)] one_vulnerability_key by metis
    then show ?thesis
      using sv(4) [OF j(1)] sv(5) [OF j(1,3)] key [OF j(1)] j i(2)
      by (intro bexI [of _ "out' ! j"]) (auto simp: alive)
  qed
  have source: "\<exists>k \<in> set out. vf_id g = vf_id k \<and> vf_title g = vf_title k \<and> vf_occurrences g = vf_occurrences k \<and>
      (\<forall>a \<in> set (all_ids g). \<exists>f \<in> set out. a \<in> set (all_ids f) \<and> one_vulnerability out k f \<and> rank_cmp k f \<noteq> Greater)"
    if g: "g \<in> set (map ((!) out') alive)" for g
  proof -
    obtain i where i: "i < length out" "g = out' ! i" using g by (auto simp: alive)
    have "\<exists>f \<in> set out. a \<in> set (all_ids f) \<and> one_vulnerability out (out ! i) f \<and> rank_cmp (out ! i) f \<noteq> Greater"
      if "a \<in> set (all_ids (out' ! i))" for a
      using that sv(4) [OF i(1)] sv(6) [OF i(1)] nth_mem by fastforce
    then show ?thesis using sv(1-3) [OF i(1)] i nth_mem by blast
  qed
  have apart: "occ_key (out' ! i) \<noteq> occ_key (out' ! j) \<or> set (all_ids (out' ! i)) \<inter> set (all_ids (out' ! j)) = {}"
    if "i \<in> set alive" "j \<in> set alive" "i < j" for i j
  proof (cases "occ_key (out ! i) = occ_key (out ! j)")
    case True
    have i: "i < length out" "\<forall>m \<in> set M. i \<notin> set (snd m)" and j: "j < length out" "\<forall>m \<in> set M. j \<notin> set (snd m)"
      using that by (auto simp: alive)
    have "set (all_ids (out ! a)) \<inter> set (all_ids (out ! b)) = {}"
      if a: "a \<in> set (cluster_at M i)" and b: "b \<in> set (cluster_at M j)" for a b
    proof (rule clusters_apart [OF mf i(1) j(1) _ i(2) j(2) a _ b])
      show "a < length out" "b < length out" using sv(6) [OF i(1) a] sv(6) [OF j(1) b] by simp_all
      show "occ_key (out ! a) = occ_key (out ! b)"
        using sv(6) [OF i(1) a] sv(6) [OF j(1) b] one_vulnerability_key True by metis
    qed (use \<open>i < j\<close> in simp)
    then have "set (all_ids (out' ! i)) \<inter> set (all_ids (out' ! j)) = {}"
      unfolding sv(4) [OF i(1)] sv(4) [OF j(1)] by blast
    then show ?thesis by blast
  qed (use that key alive in auto)
  have "sorted_wrt (\<lambda>i j. occ_key (out' ! i) \<noteq> occ_key (out' ! j) \<or>
      set (all_ids (out' ! i)) \<inter> set (all_ids (out' ! j)) = {}) alive"
    by (rule sorted_wrt_mono_rel [OF apart]) (auto simp: alive sorted_wrt_filter)
  then have "sorted_wrt (\<lambda>g h. occ_key g \<noteq> occ_key h \<or> set (all_ids g) \<inter> set (all_ids h) = {}) (map ((!) out') alive)"
    by (simp only: sorted_wrt_map)
  then show ?thesis
    using run kept source unfolding list_all_iff list_ex_iff by blast
qed

text \<open>The findings of one vulnerability, by index and in order.\<close>

definition vulnerability_at :: "('v, 'r) vuln_finding list \<Rightarrow> nat \<Rightarrow> nat list" where
  "vulnerability_at out i = filter (\<lambda>j. one_vulnerability out (out ! i) (out ! j)) [0..<length out]"

text \<open>
  What merging the findings \<open>fs\<close> of one vulnerability into \<open>k\<close>, one of them, is to give: \<open>k\<close> is of
  least rank and only its ids, severity, score and vector change, to all the ids, the worst
  severity, the highest score and \<open>k\<close>'s own vector or the first there is; a finding alone is left
  as it is.
\<close>

definition merge_of :: "('v, 'r) vuln_finding list \<Rightarrow> ('v, 'r) vuln_finding \<Rightarrow> ('v, 'r) vuln_finding \<Rightarrow> bool" where
  "merge_of fs k g \<longleftrightarrow>
     k \<in> set fs \<and> list_all (\<lambda>f. rank_cmp k f \<noteq> Greater) fs \<and> only_merged k g \<and>
     set (all_ids g) = \<Union> (set ` all_ids ` set fs) \<and>
     vf_severity g \<in> vf_severity ` set fs \<and> list_all (\<lambda>f. vf_severity f \<le> vf_severity g) fs \<and>
     highest_score (vf_cvss g) (map vf_cvss fs) \<and>
     vf_vector g = first_vector (k # fs) \<and>
     (if length fs = 1 then g = k
      else sorted_wrt (\<lambda>a b. str_cmp a b = Less) (vf_aliases g) \<and> vf_id k \<notin> set (vf_aliases g))"

lemma cluster_at_fst:
  assumes mf: "merges_for out members M" and "m \<in> set M" "i = fst m"
  shows "cluster_at M i = merged_ids m"
proof -
  have "i \<in> fst ` set M" using assms by blast
  then obtain m' where m': "m' \<in> set M" "fst m' = i" "cluster_at M i = merged_ids m'"
    using cluster_at_cases [OF mf, of i] by blast
  have "m' = m" by (rule merges_unique [OF mf m'(1) assms(2), of i]) (simp_all add: merged_ids_def m'(2) assms(3) [symmetric])
  then show ?thesis using m' by simp
qed

text \<open>A surviving cluster is closed under shared ids, so it is the whole vulnerability.\<close>

lemma cluster_closed:
  assumes mf: "merges_for out [0..<length out] M" and i: "i < length out"
    and alive: "\<forall>m \<in> set M. i \<notin> set (snd m)"
    and a: "a \<in> set (cluster_at M i)" "a < length out" and j: "j < length out"
    and key: "occ_key (out ! a) = occ_key (out ! j)"
    and ov: "set (all_ids (out ! a)) \<inter> set (all_ids (out ! j)) \<noteq> {}"
  shows "j \<in> set (cluster_at M i)"
proof (cases "a = j")
  case False
  obtain m where m: "m \<in> set M" "a \<in> set (merged_ids m)" "j \<in> set (merged_ids m)"
    using merges_cover [OF mf a(2) j False key ov] by blast
  have "i = fst m" by (rule cluster_home [OF mf alive a(1) m(1,2)])
  from cluster_at_fst [OF mf m(1) this] show ?thesis using m(3) by simp
qed (use a in simp)

lemma cluster_whole:
  assumes mf: "merges_for out [0..<length out] M" and i: "i < length out"
    and alive: "\<forall>m \<in> set M. i \<notin> set (snd m)"
    and one: "one_vulnerability out (out ! i) f"
  shows "\<exists>a \<in> set (cluster_at M i). a < length out \<and> out ! a = f"
  using one unfolding one_vulnerability_def
proof (induction rule: rtranclp_induct)
  case base
  have "i \<in> set (cluster_at M i)" using cluster_at_cases [OF mf, of i] by (auto simp: merged_ids_def)
  then show ?case using i by blast
next
  case (step f g)
  obtain a where a: "a \<in> set (cluster_at M i)" "a < length out" "out ! a = f" using step.IH by blast
  obtain j where j: "j < length out" "out ! j = g"
    using step.hyps(2) unfolding alias_step_def by (metis in_set_conv_nth)
  have "j \<in> set (cluster_at M i)"
    by (rule cluster_closed [OF mf i alive a(1,2) j(1)]) (use step.hyps(2) in \<open>simp_all add: a(3) j(2) alias_step_def\<close>)
  then show ?case using j by blast
qed

lemma cluster_is_vulnerability:
  assumes mf: "merges_for out [0..<length out] M" and i: "i < length out"
    and alive: "\<forall>m \<in> set M. i \<notin> set (snd m)"
  shows "set (cluster_at M i) = set (vulnerability_at out i)"
proof (intro equalityI subsetI)
  fix j
  assume "j \<in> set (cluster_at M i)"
  then have "j < length out \<and> one_vulnerability out (out ! i) (out ! j)"
    using cluster_at_cases [OF mf, of i]
  proof (elim disjE conjE bexE)
    assume "cluster_at M i = [i]" and j: "j \<in> set (cluster_at M i)"
    then show ?thesis using i equivp_reflp [OF one_vulnerability_equivp] by auto
  next
    fix m
    assume m: "m \<in> set M" "fst m = i" "cluster_at M i = merged_ids m" and j: "j \<in> set (cluster_at M i)"
    have "set (merged_ids m) \<subseteq> {..<length out}" using mf m(1) by (fastforce simp: merges_for_def)
    then show ?thesis using mf m j by (auto simp: merges_for_def)
  qed
  then show "j \<in> set (vulnerability_at out i)" by (simp add: vulnerability_at_def)
next
  fix j
  assume "j \<in> set (vulnerability_at out i)"
  then have j: "j < length out" and one: "one_vulnerability out (out ! i) (out ! j)"
    by (simp_all add: vulnerability_at_def)
  obtain a where a: "a \<in> set (cluster_at M i)" "a < length out" "out ! a = out ! j"
    using cluster_whole [OF mf i alive one] by blast
  show "j \<in> set (cluster_at M i)"
    by (rule cluster_closed [OF mf i alive a(1,2) j]) (simp_all add: a(3) all_ids_def)
qed

lemma absorb_merge_of:
  assumes c: "set c = insert k (set os)" and os: "os = filter (\<lambda>i. i \<noteq> k) c" "os \<noteq> []"
    and rank: "\<forall>i \<in> set c. rank_cmp (out ! k) (out ! i) \<noteq> Greater"
  shows "merge_of (map ((!) out) c) (out ! k) (absorb_all (out ! k) (map ((!) out) os))"
proof -
  note spec = absorb_all_spec [of "out ! k" "map ((!) out) os"]
  have fs: "set (map ((!) out) c) = set (out ! k # map ((!) out) os)" using c by simp
  have k: "k \<in> set c" using c by simp
  have two: "length (map ((!) out) c) \<noteq> 1"
  proof
    assume "length (map ((!) out) c) = 1"
    then obtain x where "c = [x]" by (auto simp: length_Suc_conv)
    then show False using os k by simp
  qed
  have highest: "highest_score s (map vf_cvss (map ((!) out) c))" if "highest_score s (map vf_cvss (out ! k # map ((!) out) os))" for s
    using that c by (auto simp: highest_score_def list_all_iff split: option.splits)
  have "first_vector (out ! k # map ((!) out) os) = first_vector (out ! k # map ((!) out) c)"
    using first_vector_skip [of "(!) out" k c] by (auto simp: os(1) split: option.split)
  then show ?thesis
    unfolding merge_of_def fs using spec two rank highest
    by (simp add: list_all_iff c del: first_vector_simps)
qed

lemma survivor_merge:
  assumes mf: "merges_for out [0..<length out] M" and i: "i < length out"
    and alive: "\<forall>m \<in> set M. i \<notin> set (snd m)"
    and keep: "\<forall>i < length out. i \<notin> fst ` set M \<longrightarrow> out' ! i = out ! i"
    and merged: "\<forall>m \<in> set M. out' ! fst m = merge_result out m"
  shows "merge_of (map ((!) out) (vulnerability_at out i)) (out ! i) (out' ! i)"
proof -
  note whole = cluster_is_vulnerability [OF mf i alive]
  have v: "sorted (vulnerability_at out i)" "distinct (vulnerability_at out i)"
    unfolding vulnerability_at_def using sorted_filter [of "\<lambda>i. i" "[0..<length out]"] by simp_all
  show ?thesis
    using cluster_at_cases [OF mf, of i]
  proof (elim disjE conjE bexE)
    assume c: "cluster_at M i = [i]" and "i \<notin> fst ` set M"
    then have "out' ! i = out ! i" using keep i by blast
    moreover have "vulnerability_at out i = [i]"
      by (rule sorted_distinct_set_unique [OF v]) (use whole in \<open>simp_all add: c\<close>)
    ultimately show ?thesis
      by (simp add: merge_of_def only_merged_def highest_score_def split: option.split)
  next
    fix m
    assume m: "m \<in> set M" "fst m = i" and c: "cluster_at M i = merged_ids m"
    have order: "sorted (snd m)" "snd m \<noteq> []" using mf m(1) by (auto simp: merges_for_def)
    have "distinct (concat (map merged_ids M))" using mf by (simp add: merges_for_def)
    then have "distinct (merged_ids m)" using m(1) by (auto simp: distinct_concat_iff)
    then have d: "distinct (snd m)" "i \<notin> set (snd m)" using m(2) by (auto simp: merged_ids_def)
    have set: "set (vulnerability_at out i) = insert i (set (snd m))"
      using whole m(2) by (simp add: c merged_ids_def)
    have "sorted (filter (\<lambda>j. j \<noteq> i) (vulnerability_at out i))" using sorted_filter [of "\<lambda>i. i"] v(1) by simp
    then have os: "snd m = filter (\<lambda>j. j \<noteq> i) (vulnerability_at out i)"
      by (intro sorted_distinct_set_unique order(1) d(1)) (use v set d(2) in auto)
    have rank: "\<forall>j \<in> set (vulnerability_at out i). rank_cmp (out ! i) (out ! j) \<noteq> Greater"
      using mf m whole by (auto simp: merges_for_def c)
    have "out' ! i = absorb_all (out ! i) (map ((!) out) (snd m))"
      using merged m by (auto simp: merge_result_def)
    then show ?thesis using absorb_merge_of [OF set os order(2) rank] by simp
  qed
qed

lemma filter_one:
  assumes "distinct xs" and "i \<in> set xs" "P i" and "\<And>x. x \<in> set xs \<Longrightarrow> P x \<Longrightarrow> x = i"
  shows "length (filter P xs) = 1"
proof -
  have "set (filter P xs) = {i}" unfolding set_filter using assms(2-) by blast
  then show ?thesis using distinct_card [of "filter P xs"] assms(1) by simp
qed

lemma survivor_once:
  assumes mf: "merges_for out [0..<length out] M" and j: "j < length out"
  shows "length (filter (\<lambda>i. j \<in> set (vulnerability_at out i))
      (filter (\<lambda>i. \<forall>m \<in> set M. i \<notin> set (snd m)) [0..<length out])) = 1"
    (is "length (filter ?in ?alive) = 1")
proof -
  obtain i where i: "i < length out" "\<forall>m \<in> set M. i \<notin> set (snd m)" "j \<in> set (cluster_at M i)"
    by (rule cluster_of_index [OF mf j])
  have only: "x = i" if x: "x \<in> set ?alive" "?in x" for x
  proof (rule ccontr)
    assume ne: "x \<noteq> i"
    have alive: "x < length out" "\<forall>m \<in> set M. x \<notin> set (snd m)" using x(1) by auto
    have "j \<in> set (cluster_at M x)" using cluster_is_vulnerability [OF mf alive] x(2) by simp
    from clusters_apart [OF mf alive(1) i(1) ne alive(2) i(2) this j i(3) j refl]
    show False by (simp add: all_ids_def)
  qed
  have "?in i" using cluster_is_vulnerability [OF mf i(1,2)] i(3) by simp
  moreover have "i \<in> set ?alive" using i by simp
  ultimately show ?thesis by (intro filter_one [OF _ _ _ only]) simp
qed

text \<open>C11: merging the records of one vulnerability always ends and gives exactly one finding for each
  vulnerability, where two findings on one package and version that share an id are of one
  vulnerability, and so are those a chain of such steps joins.  The finding is the one of least
  rank among them, at its own place in the list; it carries the ids of all of them, the worst
  severity, the highest score and its own vector, or the first among them when it has none, and
  nothing else of it changes.  A finding that is alone is left as it is.\<close>

theorem collapse_merges_duplicates:
  assumes v: "rust_total_ord (sv_cmp lib)"
  shows "\<exists>kept merged. collapse_alias_duplicates lib out = Some (map merged kept) \<and>
    sorted_wrt (<) kept \<and> list_all (\<lambda>i. i < length out) kept \<and>
    list_all (\<lambda>j. length (filter (\<lambda>i. j \<in> set (vulnerability_at out i)) kept) = 1) [0..<length out] \<and>
    list_all (\<lambda>i. merge_of (map ((!) out) (vulnerability_at out i)) (out ! i) (merged i)) kept"
proof -
  obtain M out' alive where mf: "merges_for out [0..<length out] M"
    and run: "collapse_alias_duplicates lib out = Some (map ((!) out') alive)"
    and alive: "alive = filter (\<lambda>i. \<forall>m \<in> set M. i \<notin> set (snd m)) [0..<length out]"
    and keep: "\<forall>i < length out. i \<notin> fst ` set M \<longrightarrow> out' ! i = out ! i"
    and merged: "\<forall>m \<in> set M. out' ! fst m = merge_result out m"
    by (rule collapse_run [OF v, of out]) (rule that, assumption+)
  have merges: "list_all (\<lambda>i. merge_of (map ((!) out) (vulnerability_at out i)) (out ! i) (out' ! i)) alive"
    unfolding list_all_iff alive using survivor_merge [OF mf _ _ keep merged] by simp
  have "length (filter (\<lambda>i. j \<in> set (vulnerability_at out i)) alive) = 1" if j: "j < length out" for j
    using survivor_once [OF mf j] by (simp add: alive)
  then show ?thesis using run merges
    by (intro exI [of _ alive] exI [of _ "(!) out'"]) (simp add: list_all_iff alive sorted_wrt_filter)
qed

definition sample_finding :: "string \<Rightarrow> string list \<Rightarrow> string \<Rightarrow> severity \<Rightarrow> (triple, triple) vuln_finding" where
  "sample_finding ident aliases title sev = tier_c_build
     \<lparr>tc_ecosystem = Pypi, tc_id = ident, tc_aliases = aliases, tc_title = title, tc_severity = sev,
      tc_cvss = None, tc_vector = None, tc_package = ''pillow'', tc_installed = (12, 3, 0), tc_patched = [],
      tc_direct = False, tc_dev = False, tc_path = [], tc_repo = ''r'', tc_reason = ''package-level''\<rparr>"

definition alias_example :: "(triple, triple) vuln_finding list" where
  "alias_example =
     [sample_finding ''PYSEC-2026-1'' [''CVE-2026-1'', ''GHSA-b''] ''PYSEC-2026-1'' Unknown,
      sample_finding ''GHSA-b'' [''CVE-2026-1''] ''Heap overflow'' High,
      sample_finding ''GHSA-a'' [''CVE-2026-1''] ''Duplicate Advisory: Heap overflow'' Critical,
      sample_finding ''GHSA-z'' [''CVE-2026-9''] ''Unrelated'' Low]"

lemma triple_lib_total: "rust_total_ord (sv_cmp triple_lib)"
  by (simp add: triple_lib_def triple.rust_total_ord_axioms)

theorem collapse_merges_duplicates_witness:
  "\<exists>kept merged. collapse_alias_duplicates triple_lib alias_example = Some (map merged kept) \<and>
    sorted_wrt (<) kept \<and> list_all (\<lambda>i. i < length alias_example) kept \<and>
    list_all (\<lambda>j. length (filter (\<lambda>i. j \<in> set (vulnerability_at alias_example i)) kept) = 1)
      [0..<length alias_example] \<and>
    list_all (\<lambda>i. merge_of (map ((!) alias_example) (vulnerability_at alias_example i)) (alias_example ! i) (merged i)) kept"
  by (rule collapse_merges_duplicates [OF triple_lib_total, of alias_example])

text \<open>The four records above are two vulnerabilities, kept under the GitHub ids.\<close>

lemma collapse_example:
  "map_option (map (\<lambda>g. (vf_id g, vf_aliases g, vf_severity g))) (sort_dedup_findings triple_lib alias_example) =
     Some [(''GHSA-b'', [''CVE-2026-1'', ''GHSA-a'', ''PYSEC-2026-1''], Critical),
           (''GHSA-z'', [''CVE-2026-9''], Low)]"
  by code_simp

lemma dedup_by_first: "x \<in> set (dedup_by same (x # xs))"
proof (induction xs)
  case (Cons y ys)
  then show ?case by simp
qed simp

lemma same_finding_sorted_dedup:
  fixes xs :: "('v, 'r) vuln_finding list"
  assumes "x \<in> set xs"
  shows "\<exists>y \<in> set (dedup_by same_finding xs). same_finding x y"
  using assms
proof (induction "same_finding :: ('v, 'r) vuln_finding \<Rightarrow> ('v, 'r) vuln_finding \<Rightarrow> bool" xs rule: dedup_by.induct)
  case (1 x' y ys)
  show ?case
  proof (cases "same_finding y x'")
    case True
    then have "\<exists>z \<in> set (x' # ys). same_finding x z"
      using 1(3) by (auto simp: same_finding_def)
    then obtain z where z: "z = x \<or> same_finding x z" "z \<in> set (x' # ys)"
      "same_finding x z" by blast
    show ?thesis
    proof (cases "x = y")
      case True
      then have "same_finding x x'" using \<open>same_finding y x'\<close> by simp
      then show ?thesis using 1(1) [OF \<open>same_finding y x'\<close>] \<open>same_finding y x'\<close> dedup_by_first
        by (metis dedup_by.simps(1))
    next
      case False
      then show ?thesis using 1 True \<open>same_finding y x'\<close> by simp
    qed
  next
    case False
    then show ?thesis using 1 by (auto simp: same_finding_def)
  qed
qed (auto simp: same_finding_def)

text \<open>What a feeder reports names every finding it made: for each one there is a finding on the same
  package and version that carries its id, and no two reported findings of one package and
  version share an id.\<close>

theorem sort_dedup_keeps_all:
  assumes v: "rust_total_ord (sv_cmp lib)"
  shows "\<exists>out'. sort_dedup_findings lib out = Some out' \<and>
    list_all (\<lambda>f. list_ex (\<lambda>g. occ_key g = occ_key f \<and> vf_id f \<in> set (all_ids g)) out') out \<and>
    sorted_wrt (\<lambda>g h. occ_key g \<noteq> occ_key h \<or> set (all_ids g) \<inter> set (all_ids h) = {}) out'"
proof -
  let ?d = "dedup_by same_finding (sort_by (finding_order lib) out)"
  obtain out' where run: "collapse_alias_duplicates lib ?d = Some out'"
    and kept: "list_all (\<lambda>f. list_ex (\<lambda>g. occ_key g = occ_key f \<and> set (all_ids f) \<subseteq> set (all_ids g) \<and>
        vf_severity f \<le> vf_severity g) out') ?d"
    and apart: "sorted_wrt (\<lambda>g h. occ_key g \<noteq> occ_key h \<or> set (all_ids g) \<inter> set (all_ids h) = {}) out'"
    using collapse_duplicates [OF v, of ?d] by blast
  have "\<exists>g \<in> set out'. occ_key g = occ_key f \<and> vf_id f \<in> set (all_ids g)" if f: "f \<in> set out" for f
  proof -
    have "f \<in> set (sort_by (finding_order lib) out)" using f by simp
    from same_finding_sorted_dedup [OF this] obtain h where h: "h \<in> set ?d" "same_finding f h" by blast
    then obtain g where "g \<in> set out'" "occ_key g = occ_key h" "set (all_ids h) \<subseteq> set (all_ids g)"
      using kept unfolding list_all_iff list_ex_iff by blast
    then show ?thesis using h(2) by (auto simp: same_finding_def all_ids_def)
  qed
  then show ?thesis using run apart unfolding sort_dedup_findings_def list_all_iff list_ex_iff by blast
qed

theorem sort_dedup_keeps_all_witness:
  "\<exists>out'. sort_dedup_findings triple_lib alias_example = Some out' \<and>
    list_all (\<lambda>f. list_ex (\<lambda>g. occ_key g = occ_key f \<and> vf_id f \<in> set (all_ids g)) out') alias_example \<and>
    sorted_wrt (\<lambda>g h. occ_key g \<noteq> occ_key h \<or> set (all_ids g) \<inter> set (all_ids h) = {}) out'"
  by (rule sort_dedup_keeps_all [OF triple_lib_total])

end
