(* ===== verification/Rust_Search.thy ===== *)
theory Rust_Search
  imports Rust_Ord
begin

text \<open>
  \<^verbatim>\<open>slice::binary_search\<close> of the standard library: the interval is halved until one element is
  left, which is then compared.  On a slice sorted by a lawful \<^verbatim>\<open>Ord\<close> it finds an element exactly
  when there is an equal one.
\<close>

function search_base :: "'a cmp \<Rightarrow> 'a \<Rightarrow> 'a list \<Rightarrow> nat \<Rightarrow> nat \<Rightarrow> nat" where
  "search_base c x xs base len =
     (if len \<le> 1 then base
      else (let half = len div 2; mid = base + half in
        search_base c x xs (if c (xs ! mid) x = Greater then base else mid) (len - half)))"
  by pat_completeness auto

termination search_base
  by (relation "measure (\<lambda>(c, x, xs, base, len). len)") auto

declare search_base.simps [simp del]

definition binary_search :: "'a cmp \<Rightarrow> 'a \<Rightarrow> 'a list \<Rightarrow> nat option" where
  "binary_search c x xs =
     (if xs = [] then None
      else (let i = search_base c x xs 0 (length xs) in
        if c (xs ! i) x = Equal then Some i else None))"

definition binary_contains :: "'a cmp \<Rightarrow> 'a \<Rightarrow> 'a list \<Rightarrow> bool" where
  "binary_contains c x xs \<longleftrightarrow> binary_search c x xs \<noteq> None"

lemma search_base_bound:
  "0 < len \<Longrightarrow> base \<le> search_base c x xs base len \<and> search_base c x xs base len < base + len"
proof (induction c x xs base len rule: search_base.induct)
  case (1 c x xs base len)
  show ?case
  proof (cases "len \<le> 1")
    case True
    then show ?thesis using 1(2) by (simp add: search_base.simps)
  next
    case False
    let ?b = "if c (xs ! (base + len div 2)) x = Greater then base else base + len div 2"
    have eq: "search_base c x xs base len = search_base c x xs ?b (len - len div 2)"
      using False by (subst search_base.simps) (simp add: Let_def)
    have "?b \<le> search_base c x xs ?b (len - len div 2) \<and>
        search_base c x xs ?b (len - len div 2) < ?b + (len - len div 2)"
      using 1(1) [OF False refl refl] False by simp
    then show ?thesis unfolding eq using False by (auto split: if_splits)
  qed
qed

context rust_ord
begin

lemma sorted_by_nth:
  "sorted_by cmp xs \<Longrightarrow> i \<le> j \<Longrightarrow> j < length xs \<Longrightarrow> cmp (xs ! i) (xs ! j) \<noteq> Greater"
  unfolding sorted_by_def by (cases "i = j") (auto dest: sorted_wrt_nth_less [of _ xs i j])

text \<open>An element equal to the one sought stays inside the interval.\<close>

lemma search_base_found:
  assumes "sorted_by cmp xs" and "base + len \<le> length xs"
    and "base \<le> k" "k < base + len" "cmp (xs ! k) x = Equal"
  shows "cmp (xs ! search_base cmp x xs base len) x = Equal"
  using assms(2-5)
proof (induction len arbitrary: base k rule: less_induct)
  case (less len)
  show ?case
  proof (cases "len \<le> 1")
    case True
    then have "k = base" using less.prems by simp
    then show ?thesis using True less.prems(4) by (simp add: search_base.simps)
  next
    case False
    let ?mid = "base + len div 2"
    have mid: "?mid < length xs" and smaller: "len - len div 2 < len" using False less.prems by simp_all
    show ?thesis
    proof (cases "cmp (xs ! ?mid) x = Greater")
      case True
      have "k < ?mid"
      proof (rule ccontr)
        assume "\<not> k < ?mid"
        then have "cmp (xs ! ?mid) (xs ! k) \<noteq> Greater" using less.prems by (intro sorted_by_nth assms) simp_all
        then show False using True less.prems(4) cmp_eq_right by metis
      qed
      then have "cmp (xs ! search_base cmp x xs base (len - len div 2)) x = Equal"
        using less.prems by (intro less.IH [OF smaller]) simp_all
      then show ?thesis using True False by (subst search_base.simps) (simp add: Let_def)
    next
      case notg: False
      obtain j where j: "?mid \<le> j" "j < base + len" "cmp (xs ! j) x = Equal"
      proof (cases "k < ?mid")
        case True
        then have "cmp (xs ! k) (xs ! ?mid) \<noteq> Greater" using mid by (intro sorted_by_nth assms) simp_all
        moreover have "cmp (xs ! k) (xs ! ?mid) = cmp x (xs ! ?mid)" by (rule cmp_eq_left [OF less.prems(4)])
        ultimately have "cmp (xs ! ?mid) x = Equal"
          using notg cmp_sym [of x "xs ! ?mid"] by (cases "cmp (xs ! ?mid) x") simp_all
        then show thesis using that [of ?mid] False by simp
      next
        case False
        then show thesis using that [of k] less.prems by simp
      qed
      have "cmp (xs ! search_base cmp x xs ?mid (len - len div 2)) x = Equal"
        using less.prems j by (intro less.IH [OF smaller, of ?mid j]) simp_all
      then show ?thesis using notg False by (subst search_base.simps) (simp add: Let_def)
    qed
  qed
qed

lemma binary_contains_iff:
  assumes "sorted_by cmp xs"
  shows "binary_contains cmp x xs \<longleftrightarrow> (\<exists>y \<in> set xs. cmp y x = Equal)"
proof
  assume "binary_contains cmp x xs"
  then have ne: "xs \<noteq> []" and eq: "cmp (xs ! search_base cmp x xs 0 (length xs)) x = Equal"
    by (auto simp: binary_contains_def binary_search_def Let_def split: if_splits)
  have "search_base cmp x xs 0 (length xs) < length xs"
    using ne search_base_bound [of "length xs" 0 cmp x xs] by simp
  then show "\<exists>y \<in> set xs. cmp y x = Equal" using eq nth_mem by blast
next
  assume "\<exists>y \<in> set xs. cmp y x = Equal"
  then obtain k where k: "k < length xs" "cmp (xs ! k) x = Equal" by (metis in_set_conv_nth)
  have "cmp (xs ! search_base cmp x xs 0 (length xs)) x = Equal"
    by (rule search_base_found [OF assms]) (use k in simp_all)
  then show "binary_contains cmp x xs"
    using k by (auto simp: binary_contains_def binary_search_def Let_def)
qed

end

end
