(* ===== verification/Bfs.thy ===== *)
theory Bfs
  imports Rust_Ord
begin

text \<open>
  Breadth-first search from several sources, as the program writes it three times: a set of visited
  nodes, a queue and the node each was first reached from.  The locale states what a
  concrete search loop has to do with its own data structures; from that follow termination,
  that exactly what is reachable is visited, and that the parents lead back on a shortest path.
\<close>

section \<open>Paths\<close>

fun dep_chain :: "('n \<Rightarrow> 'n list) \<Rightarrow> 'n list \<Rightarrow> bool" where
  "dep_chain nx [] = False"
| "dep_chain nx [x] = True"
| "dep_chain nx (x # y # xs) = (y \<in> set (nx x) \<and> dep_chain nx (y # xs))"

lemma dep_chain_snoc: "xs \<noteq> [] \<Longrightarrow> dep_chain nx (xs @ [y]) \<longleftrightarrow> dep_chain nx xs \<and> y \<in> set (nx (last xs))"
  by (induction nx xs rule: dep_chain.induct) auto

lemma dep_chain_append:
  "xs \<noteq> [] \<Longrightarrow> ys \<noteq> [] \<Longrightarrow>
     dep_chain nx (xs @ ys) \<longleftrightarrow> dep_chain nx xs \<and> hd ys \<in> set (nx (last xs)) \<and> dep_chain nx ys"
proof (induction nx xs rule: dep_chain.induct)
  case (2 nx x)
  then show ?case by (cases ys) auto
qed auto

section \<open>The search, abstractly\<close>

type_synonym 'n bfs_view = "'n set \<times> 'n list \<times> ('n \<rightharpoonup> 'n)"

definition visit :: "'n \<Rightarrow> 'n \<Rightarrow> 'n bfs_view \<Rightarrow> 'n bfs_view" where
  "visit node dep st =
     (case st of (V, Q, P) \<Rightarrow> if dep \<in> V then st else (insert dep V, Q @ [dep], P(dep \<mapsto> node)))"

text \<open>
  What holds between two turns of the loop, with the depth of every visited node as a
  witness: parents are edges one level up, the queue holds at most two adjacent levels in
  order, and whatever has left the queue has only visited successors, at most one level down.
\<close>

definition bfs_inv :: "('n \<Rightarrow> 'n list) \<Rightarrow> 'n set \<Rightarrow> ('n \<Rightarrow> nat) \<Rightarrow> 'n bfs_view \<Rightarrow> bool" where
  "bfs_inv nx roots D st \<longleftrightarrow> (case st of (V, Q, P) \<Rightarrow>
     (\<forall>r \<in> roots. D r = 0 \<and> P r = None) \<and> V = roots \<union> dom P \<and> set Q \<subseteq> V \<and>
     (\<forall>x p. P x = Some p \<longrightarrow> p \<in> V \<and> x \<in> set (nx p) \<and> D x = Suc (D p)) \<and>
     sorted (map D Q) \<and> (\<forall>x \<in> set Q. D x \<le> Suc (D (hd Q))) \<and>
     (Q \<noteq> [] \<longrightarrow> (\<forall>u \<in> V - set Q. D u \<le> D (hd Q))) \<and>
     (\<forall>u \<in> V - set Q. \<forall>v \<in> set (nx u). v \<in> V \<and> D v \<le> Suc (D u)))"

text \<open>While the successors of \<open>node\<close> are visited: the new ones queue up one level below it.\<close>

definition bfs_mid :: "('n \<Rightarrow> 'n list) \<Rightarrow> 'n set \<Rightarrow> ('n \<Rightarrow> nat) \<Rightarrow> 'n \<Rightarrow> 'n set \<Rightarrow> 'n bfs_view \<Rightarrow> bool" where
  "bfs_mid nx roots D node S st \<longleftrightarrow> (case st of (V, Q, P) \<Rightarrow>
     (\<forall>r \<in> roots. D r = 0 \<and> P r = None) \<and> V = roots \<union> dom P \<and> set Q \<subseteq> V \<and> node \<in> V \<and>
     (\<forall>x p. P x = Some p \<longrightarrow> p \<in> V \<and> x \<in> set (nx p) \<and> D x = Suc (D p)) \<and>
     sorted (map D Q) \<and> (\<forall>x \<in> set Q. D node \<le> D x \<and> D x \<le> Suc (D node)) \<and>
     (\<forall>u \<in> V - set Q. D u \<le> D node) \<and>
     (\<forall>u \<in> V - set Q - {node}. \<forall>v \<in> set (nx u). v \<in> V \<and> D v \<le> Suc (D u)) \<and>
     (\<forall>v \<in> S. v \<in> V \<and> D v \<le> Suc (D node)))"

text \<open>The parts of the two invariants.\<close>

lemma bfs_invD:
  assumes "bfs_inv nx roots D (V, Q, P)"
  shows "\<forall>r \<in> roots. D r = 0 \<and> P r = None" "V = roots \<union> dom P" "set Q \<subseteq> V"
    "\<forall>x p. P x = Some p \<longrightarrow> p \<in> V \<and> x \<in> set (nx p) \<and> D x = Suc (D p)"
    "sorted (map D Q)" "\<forall>x \<in> set Q. D x \<le> Suc (D (hd Q))" "Q \<noteq> [] \<longrightarrow> (\<forall>u \<in> V - set Q. D u \<le> D (hd Q))"
    "\<forall>u \<in> V - set Q. \<forall>v \<in> set (nx u). v \<in> V \<and> D v \<le> Suc (D u)"
  by (insert assms [unfolded bfs_inv_def prod.case]; elim conjE; assumption)+

lemma bfs_midD:
  assumes "bfs_mid nx roots D node S (V, Q, P)"
  shows "\<forall>r \<in> roots. D r = 0 \<and> P r = None" "V = roots \<union> dom P" "set Q \<subseteq> V" "node \<in> V"
    "\<forall>x p. P x = Some p \<longrightarrow> p \<in> V \<and> x \<in> set (nx p) \<and> D x = Suc (D p)"
    "sorted (map D Q)" "\<forall>x \<in> set Q. D node \<le> D x \<and> D x \<le> Suc (D node)" "\<forall>u \<in> V - set Q. D u \<le> D node"
    "\<forall>u \<in> V - set Q - {node}. \<forall>v \<in> set (nx u). v \<in> V \<and> D v \<le> Suc (D u)"
    "\<forall>v \<in> S. v \<in> V \<and> D v \<le> Suc (D node)"
  by (insert assms [unfolded bfs_mid_def prod.case]; elim conjE; assumption)+

lemma bfs_mid_start:
  assumes inv: "bfs_inv nx roots D (V, node # rest, P)"
  shows "bfs_mid nx roots D node {} (V, rest, P)"
proof -
  note d = bfs_invD [OF inv]
  have "\<forall>u \<in> V - set rest. D u \<le> D node"
  proof
    fix u assume "u \<in> V - set rest"
    then show "D u \<le> D node" using d(7) by (cases "u = node") simp_all
  qed
  moreover have "\<forall>u \<in> V - set rest - {node}. \<forall>v \<in> set (nx u). v \<in> V \<and> D v \<le> Suc (D u)"
  proof -
    have "V - set (node # rest) = V - set rest - {node}" by auto
    then show ?thesis using d(8) by (simp only:)
  qed
  moreover have "\<forall>x \<in> set rest. D node \<le> D x \<and> D x \<le> Suc (D node)" using d(5,6) by simp
  moreover have "set rest \<subseteq> V" "node \<in> V" "sorted (map D rest)" using d(3,5) by simp_all
  moreover have "\<forall>v \<in> {}. v \<in> V \<and> D v \<le> Suc (D node)" by simp
  ultimately show ?thesis unfolding bfs_mid_def prod.case by (intro conjI d(1,2,4))
qed

lemma bfs_mid_seen:
  assumes mid: "bfs_mid nx roots D node S (V, Q, P)" and dep: "dep \<in> V"
  shows "bfs_mid nx roots D node (insert dep S) (V, Q, P)"
proof -
  note d = bfs_midD [OF mid]
  have "D dep \<le> Suc (D node)"
  proof (cases "dep \<in> set Q")
    case False
    then have "D dep \<le> D node" using d(8) dep by blast
    then show ?thesis by simp
  qed (use d(7) in blast)
  then have "\<forall>v \<in> insert dep S. v \<in> V \<and> D v \<le> Suc (D node)" using d(10) dep by blast
  then show ?thesis unfolding bfs_mid_def prod.case by (intro conjI d(1-9))
qed

lemma bfs_mid_new:
  assumes mid: "bfs_mid nx roots D node S (V, Q, P)" and new: "dep \<notin> V" and e: "dep \<in> set (nx node)"
  shows "bfs_mid nx roots (D(dep := Suc (D node))) node (insert dep S) (insert dep V, Q @ [dep], P(dep \<mapsto> node))"
proof -
  note d = bfs_midD [OF mid]
  let ?D = "D(dep := Suc (D node))"
  have same: "?D x = D x" if "x \<in> V" for x using that new by auto
  have node: "?D node = D node" using d(4) by (rule same)
  have "\<forall>r \<in> roots. ?D r = 0 \<and> (P(dep \<mapsto> node)) r = None" using d(1,2) new by auto
  moreover have "insert dep V = roots \<union> dom (P(dep \<mapsto> node))" using d(2) by auto
  moreover have "set (Q @ [dep]) \<subseteq> insert dep V" "node \<in> insert dep V" using d(3,4) by auto
  moreover have "\<forall>x p. (P(dep \<mapsto> node)) x = Some p \<longrightarrow> p \<in> insert dep V \<and> x \<in> set (nx p) \<and> ?D x = Suc (?D p)"
  proof (intro allI impI)
    fix x p assume x: "(P(dep \<mapsto> node)) x = Some p"
    show "p \<in> insert dep V \<and> x \<in> set (nx p) \<and> ?D x = Suc (?D p)"
    proof (cases "x = dep")
      case True
      then show ?thesis using x e d(4) node by simp
    next
      case False
      then have "P x = Some p" using x by simp
      then have "p \<in> V \<and> x \<in> set (nx p) \<and> D x = Suc (D p)" using d(5) by blast
      then show ?thesis using same [of p] False by simp
    qed
  qed
  moreover have "sorted (map ?D (Q @ [dep]))"
  proof -
    have "map ?D Q = map D Q" by (rule map_cong [OF refl]) (use d(3) same in blast)
    then show ?thesis unfolding map_append using d(6,7) by (simp only:) (auto simp: sorted_append)
  qed
  moreover have "\<forall>x \<in> set (Q @ [dep]). ?D node \<le> ?D x \<and> ?D x \<le> Suc (?D node)"
    unfolding node using d(7) by auto
  moreover have "\<forall>u \<in> insert dep V - set (Q @ [dep]). ?D u \<le> ?D node" unfolding node using d(8) same by auto
  moreover have "\<forall>u \<in> insert dep V - set (Q @ [dep]) - {node}. \<forall>v \<in> set (nx u). v \<in> insert dep V \<and> ?D v \<le> Suc (?D u)"
  proof (intro ballI)
    fix u v assume u: "u \<in> insert dep V - set (Q @ [dep]) - {node}" and uv: "v \<in> set (nx u)"
    then have "u \<in> V - set Q - {node}" by auto
    then have "v \<in> V" "D v \<le> Suc (D u)" "u \<in> V" using d(9) uv by blast+
    then show "v \<in> insert dep V \<and> ?D v \<le> Suc (?D u)" using same by simp
  qed
  moreover have "\<forall>v \<in> insert dep S. v \<in> insert dep V \<and> ?D v \<le> Suc (?D node)"
  proof
    fix v assume v: "v \<in> insert dep S"
    show "v \<in> insert dep V \<and> ?D v \<le> Suc (?D node)"
    proof (cases "v = dep")
      case False
      then have "v \<in> V \<and> D v \<le> Suc (D node)" using d(10) v by blast
      then show ?thesis unfolding node using same by simp
    qed (simp add: node)
  qed
  ultimately show ?thesis unfolding bfs_mid_def prod.case by (intro conjI)
qed

lemma bfs_mid_end:
  assumes mid: "bfs_mid nx roots D node (set (nx node)) (V, Q, P)"
  shows "bfs_inv nx roots D (V, Q, P)"
proof -
  note d = bfs_midD [OF mid]
  have head: "Q \<noteq> [] \<Longrightarrow> D node \<le> D (hd Q)" using d(7) by simp
  have "\<forall>x \<in> set Q. D x \<le> Suc (D (hd Q))"
  proof
    fix x assume x: "x \<in> set Q"
    then have "D x \<le> Suc (D node)" "Q \<noteq> []" using d(7) by auto
    then show "D x \<le> Suc (D (hd Q))" using head by simp
  qed
  moreover have "Q \<noteq> [] \<longrightarrow> (\<forall>u \<in> V - set Q. D u \<le> D (hd Q))" using d(8) head by (meson le_trans)
  moreover have "\<forall>u \<in> V - set Q. \<forall>v \<in> set (nx u). v \<in> V \<and> D v \<le> Suc (D u)"
  proof (intro ballI)
    fix u v assume u: "u \<in> V - set Q" and v: "v \<in> set (nx u)"
    show "v \<in> V \<and> D v \<le> Suc (D u)"
    proof (cases "u = node")
      case True
      then show ?thesis using bspec [OF d(10), of v] v by simp
    next
      case False
      then have "u \<in> V - set Q - {node}" using u by blast
      then show ?thesis using bspec [OF d(9), of u] v by blast
    qed
  qed
  ultimately show ?thesis unfolding bfs_inv_def prod.case by (intro conjI d(1-3,5,6))
qed

text \<open>One turn of the loop keeps the invariant and leaves less to do.\<close>

definition to_visit :: "'n set \<Rightarrow> 'n bfs_view \<Rightarrow> nat" where
  "to_visit R st = (case st of (V, Q, P) \<Rightarrow> card (R - V) + length Q)"

lemma visit_mid:
  assumes "finite R" and mid: "bfs_mid nx roots D node S st" and dep: "dep \<in> set (nx node)" "dep \<in> R"
  shows "\<exists>D'. bfs_mid nx roots D' node (insert dep S) (visit node dep st) \<and>
    to_visit R (visit node dep st) = to_visit R st"
proof -
  obtain V Q P where st: "st = (V, Q, P)" by (cases st)
  show ?thesis
  proof (cases "dep \<in> V")
    case True
    then show ?thesis using bfs_mid_seen [OF mid [unfolded st] True] unfolding st visit_def by auto
  next
    case False
    have "R - V = insert dep (R - insert dep V)" using False dep(2) by auto
    then have "card (R - V) = Suc (card (R - insert dep V))"
      using assms(1) by (metis Diff_iff card_insert_disjoint finite_Diff insertI1)
    then show ?thesis using bfs_mid_new [OF mid [unfolded st] False dep(1)] False
      unfolding st visit_def to_visit_def by auto
  qed
qed

lemma visits_mid:
  assumes "finite R"
  shows "bfs_mid nx roots D node S st \<Longrightarrow> set deps \<subseteq> set (nx node) \<Longrightarrow> set deps \<subseteq> R \<Longrightarrow>
    \<exists>D'. bfs_mid nx roots D' node (set deps \<union> S) (fold (visit node) deps st) \<and>
      to_visit R (fold (visit node) deps st) = to_visit R st"
proof (induction deps arbitrary: D S st)
  case (Cons dep deps)
  then obtain D1 where one: "bfs_mid nx roots D1 node (insert dep S) (visit node dep st)"
    "to_visit R (visit node dep st) = to_visit R st"
    using visit_mid [OF assms Cons.prems(1), of dep] by auto
  show ?case using Cons.IH [OF one(1)] Cons.prems(2,3) one(2) by auto
qed auto

section \<open>What a concrete search has to do\<close>

locale bfs =
  fixes nx :: "'n \<Rightarrow> 'n list"
    and view :: "'s \<Rightarrow> 'n bfs_view"
    and wf :: "'s \<Rightarrow> bool"
    and turn :: "'s \<Rightarrow> 's"
    and loop :: "'s \<Rightarrow> 'r option"
    and result :: "'s \<Rightarrow> 'r"
  assumes turn: "wf s \<Longrightarrow> view s = (V, node # Q, P) \<Longrightarrow>
      wf (turn s) \<and> view (turn s) = fold (visit node) (nx node) (V, Q, P) \<and> loop s = loop (turn s)"
    and stop: "wf s \<Longrightarrow> view s = (V, [], P) \<Longrightarrow> loop s = Some (result s)"
    and finite_targets: "finite {v. \<exists>u. v \<in> set (nx u)}"
begin

lemma loop_total:
  "wf s \<Longrightarrow> bfs_inv nx roots D (view s) \<Longrightarrow>
     \<exists>s' D' P. loop s = Some (result s') \<and> wf s' \<and> view s' = (roots \<union> dom P, [], P) \<and> bfs_inv nx roots D' (view s')"
proof (induction "to_visit {v. \<exists>u. v \<in> set (nx u)} (view s)" arbitrary: s D rule: less_induct)
  case less
  let ?R = "{v. \<exists>u. v \<in> set (nx u)}"
  obtain V Q P where v: "view s = (V, Q, P)" by (cases "view s")
  show ?case
  proof (cases Q)
    case Nil
    have "V = roots \<union> dom P" using less.prems(2) unfolding v bfs_inv_def by simp
    then show ?thesis using stop [OF less.prems(1)] less.prems v Nil by blast
  next
    case (Cons node rest)
    have t: "wf (turn s)" "view (turn s) = fold (visit node) (nx node) (V, rest, P)" "loop s = loop (turn s)"
      using turn [OF less.prems(1) v [unfolded Cons]] by blast+
    have "bfs_mid nx roots D node {} (V, rest, P)" using less.prems(2) unfolding v Cons by (rule bfs_mid_start)
    moreover have "set (nx node) \<subseteq> ?R" by blast
    ultimately obtain D' where mid: "bfs_mid nx roots D' node (set (nx node) \<union> {}) (view (turn s))"
      and left: "to_visit ?R (view (turn s)) = to_visit ?R (V, rest, P)"
      using visits_mid [OF finite_targets, of nx roots D node "{}" "(V, rest, P)" "nx node"] unfolding t(2) by blast
    have "bfs_inv nx roots D' (view (turn s))"
      using mid by (cases "view (turn s)") (auto intro: bfs_mid_end)
    moreover have "to_visit ?R (view (turn s)) < to_visit ?R (view s)"
      unfolding left v Cons by (simp add: to_visit_def)
    ultimately show ?thesis using less.hyps [OF _ t(1)] t(3) by auto
  qed
qed

end

section \<open>What the parents say\<close>

text \<open>The way up from a node, as the code follows it.\<close>

inductive climbs :: "('n \<rightharpoonup> 'n) \<Rightarrow> 'n \<Rightarrow> 'n list \<Rightarrow> bool" for P where
  top: "P x = None \<Longrightarrow> climbs P x [x]"
| up: "P x = Some p \<Longrightarrow> climbs P p xs \<Longrightarrow> climbs P x (x # xs)"

lemma climbs_path:
  assumes inv: "bfs_inv nx roots D (V, [], P)"
  shows "x \<in> V \<Longrightarrow> \<exists>xs. climbs P x xs \<and> length xs = Suc (D x) \<and> dep_chain nx (rev xs) \<and> hd xs = x \<and> last xs \<in> roots"
proof (induction "D x" arbitrary: x)
  case 0
  have none: "P x = None" using bfs_invD(4) [OF inv] 0(1) by (cases "P x") fastforce+
  then have "x \<in> roots" using bfs_invD(2) [OF inv] 0(2) by auto
  then show ?case using climbs.top [of P x] none 0 by (intro exI [of _ "[x]"]) simp
next
  case (Suc n)
  have "x \<notin> roots" using inv Suc.hyps(2) unfolding bfs_inv_def by auto
  then obtain p where p: "P x = Some p" using inv Suc.prems unfolding bfs_inv_def by auto
  then have d: "p \<in> V" "x \<in> set (nx p)" "D x = Suc (D p)" using inv unfolding bfs_inv_def by blast+
  then obtain xs where xs: "climbs P p xs" "length xs = Suc (D p)" "dep_chain nx (rev xs)" "hd xs = p" "last xs \<in> roots"
    using Suc.hyps by auto
  have "xs \<noteq> []" using xs(2) by auto
  then have "dep_chain nx (rev (x # xs))" using xs(3,4) d(2) by (simp add: dep_chain_snoc last_rev)
  then show ?case using climbs.up [of P x p xs] p xs d(3) \<open>xs \<noteq> []\<close> by (intro exI [of _ "x # xs"]) simp
qed

text \<open>No path from a source is shorter than the depth, and all of them stay among the visited nodes.\<close>

lemma bfs_depth:
  assumes inv: "bfs_inv nx roots D (V, [], P)"
  shows "dep_chain nx xs \<Longrightarrow> hd xs \<in> roots \<Longrightarrow> last xs \<in> V \<and> Suc (D (last xs)) \<le> length xs"
proof (induction xs rule: rev_induct)
  case (snoc y xs)
  show ?case
  proof (cases "xs = []")
    case True
    then show ?thesis using snoc.prems inv by (auto simp: bfs_inv_def)
  next
    case False
    then have "dep_chain nx xs" "y \<in> set (nx (last xs))" "hd xs \<in> roots"
      using snoc.prems by (simp_all add: dep_chain_snoc)
    then have "last xs \<in> V" "Suc (D (last xs)) \<le> length xs" "y \<in> V \<and> D y \<le> Suc (D (last xs))"
      using snoc.IH inv unfolding bfs_inv_def by auto
    then show ?thesis by simp
  qed
qed simp

lemma bfs_visited_iff:
  assumes inv: "bfs_inv nx roots D (V, [], P)"
  shows "x \<in> V \<longleftrightarrow> (\<exists>xs. dep_chain nx xs \<and> hd xs \<in> roots \<and> last xs = x)"
proof
  assume "x \<in> V"
  then obtain xs where "climbs P x xs" "length xs = Suc (D x)" "dep_chain nx (rev xs)" "hd xs = x" "last xs \<in> roots"
    using climbs_path [OF inv] by blast
  then show "\<exists>xs. dep_chain nx xs \<and> hd xs \<in> roots \<and> last xs = x"
    by (intro exI [of _ "rev xs"]) (auto simp: hd_rev last_rev)
qed (use bfs_depth [OF inv] in blast)

end
