(* ===== verification/Dep_Graph.thy ===== *)
theory Dep_Graph
  imports Rust_Map Bfs
begin

text \<open>
  The name-level dependency graph of \<^verbatim>\<open>crates/core/src/depgraph.rs\<close> and its introducer chains: one
  breadth-first search, whose parents are cached in the graph until an edge is added, and the
  chain read off the parents.
\<close>

section \<open>Definitions\<close>

type_synonym edges = "(string, string bset) btree"
type_synonym parents = "(string, string) btree"

record dep_graph =
  dg_root :: string
  dg_edges :: edges
  dg_parents :: "parents option"

definition graph_new :: "string \<Rightarrow> dep_graph" where
  "graph_new root = \<lparr>dg_root = root, dg_edges = [], dg_parents = None\<rparr>"

definition add_edges :: "string \<Rightarrow> string list \<Rightarrow> dep_graph \<Rightarrow> dep_graph" where
  "add_edges src tos g =
     g\<lparr>dg_parents := None,
       dg_edges := bt_alter str_cmp src
         (\<lambda>old. fold (bs_insert str_cmp) tos (case old of None \<Rightarrow> [] | Some s \<Rightarrow> s)) (dg_edges g)\<rparr>"

definition edge_list :: "dep_graph \<Rightarrow> (string \<times> string) list" where
  "edge_list g = concat (map (\<lambda>(src, tos). map (\<lambda>to. (src, to)) (bs_items tos)) (dg_edges g))"

definition successors :: "edges \<Rightarrow> string \<Rightarrow> string list" where
  "successors es node = (case bt_get str_cmp node es of None \<Rightarrow> [] | Some s \<Rightarrow> bs_items s)"

text \<open>The search's state: the visited names, the queue and the parents.\<close>

type_synonym bfs_state = "string bset \<times> string list \<times> parents"

definition bfs_visit :: "string \<Rightarrow> string \<Rightarrow> bfs_state \<Rightarrow> bfs_state" where
  "bfs_visit node dep st =
     (case st of (visited, queue, parents) \<Rightarrow>
        if bs_mem str_cmp dep visited then st
        else (bs_insert str_cmp dep visited, queue @ [dep], bt_insert str_cmp dep node parents))"

partial_function (option) bfs_loop :: "edges \<Rightarrow> bfs_state \<Rightarrow> parents option" where
  "bfs_loop es st =
     (case st of (visited, queue, parents) \<Rightarrow>
        (case queue of
           [] \<Rightarrow> Some parents
         | node # rest \<Rightarrow> bfs_loop es (fold (bfs_visit node) (successors es node) (visited, rest, parents))))"

definition bfs_parents :: "dep_graph \<Rightarrow> parents option" where
  "bfs_parents g = bfs_loop (dg_edges g) (bs_insert str_cmp (dg_root g) [], [dg_root g], [])"

text \<open>The walk up the parents, from the target to the root.\<close>

partial_function (option) chain_up :: "parents \<Rightarrow> string \<Rightarrow> string list option" where
  "chain_up parents cursor =
     (case bt_get str_cmp cursor parents of
        None \<Rightarrow> Some []
      | Some parent \<Rightarrow> Option.bind (chain_up parents parent) (\<lambda>up. Some (parent # up)))"

text \<open>
  The answer and the graph with its cache filled; \<open>None\<close> would be a loop that does not end.
\<close>

declare bfs_loop.simps [code] and chain_up.simps [code]

definition chain_to :: "string \<Rightarrow> dep_graph \<Rightarrow> (string list \<times> dep_graph) option" where
  "chain_to target g =
     (if dg_edges g = [] \<or> dg_root g = target then Some ([], g)
      else
        (case (case dg_parents g of Some ps \<Rightarrow> Some ps | None \<Rightarrow> bfs_parents g) of
           None \<Rightarrow> None
         | Some parents \<Rightarrow>
             (let g' = g\<lparr>dg_parents := Some parents\<rparr> in
              if bt_get str_cmp target parents = None then Some ([], g')
              else map_option (\<lambda>up. (rev (target # up), g')) (chain_up parents target))))"

section \<open>Paths\<close>

text \<open>The edge relation of the graph and its walks.\<close>

definition edge :: "edges \<Rightarrow> string \<Rightarrow> string \<Rightarrow> bool" where
  "edge es u v \<longleftrightarrow> v \<in> set (successors es u)"

fun walk :: "edges \<Rightarrow> string list \<Rightarrow> bool" where
  "walk es [] = False"
| "walk es [x] = True"
| "walk es (x # y # xs) = (edge es x y \<and> walk es (y # xs))"

lemma walk_chain: "walk es xs \<longleftrightarrow> dep_chain (successors es) xs"
  by (induction es xs rule: walk.induct) (simp_all add: edge_def)

section \<open>The search is a breadth-first search\<close>

definition lookup :: "parents \<Rightarrow> string \<Rightarrow> string option" where
  "lookup ps x = bt_get str_cmp x ps"

definition st_wf :: "bfs_state \<Rightarrow> bool" where
  "st_wf st = (case st of (visited, queue, ps) \<Rightarrow> bt_wf str_cmp visited \<and> bt_wf str_cmp ps)"

definition st_view :: "bfs_state \<Rightarrow> string bfs_view" where
  "st_view st = (case st of (visited, queue, ps) \<Rightarrow> (set (bs_items visited), queue, lookup ps))"

definition st_turn :: "edges \<Rightarrow> bfs_state \<Rightarrow> bfs_state" where
  "st_turn es st = (case st of (visited, queue, ps) \<Rightarrow>
     fold (bfs_visit (hd queue)) (successors es (hd queue)) (visited, tl queue, ps))"

lemma finite_targets: "finite {v. \<exists>u. v \<in> set (successors es u)}"
proof -
  have "{v. \<exists>u. v \<in> set (successors es u)} \<subseteq> (\<Union>p \<in> set es. set (bs_items (snd p)))"
  proof
    fix v assume "v \<in> {v. \<exists>u. v \<in> set (successors es u)}"
    then obtain u where "v \<in> set (successors es u)" by blast
    then obtain s where "bt_get str_cmp u es = Some s" "v \<in> set (bs_items s)"
      by (cases "bt_get str_cmp u es") (auto simp: successors_def)
    moreover from str.bt_get_SomeD [OF this(1)] obtain k where "(k, s) \<in> set es" by blast
    ultimately show "v \<in> (\<Union>p \<in> set es. set (bs_items (snd p)))" by force
  qed
  then show ?thesis by (rule finite_subset) simp
qed

lemma visit_step:
  assumes wf: "st_wf st"
  shows "st_wf (bfs_visit node dep st) \<and> st_view (bfs_visit node dep st) = visit node dep (st_view st)"
proof -
  obtain visited queue ps where st: "st = (visited, queue, ps)" by (cases st)
  have wfs: "bt_wf str_cmp visited" "bt_wf str_cmp ps" using wf by (simp_all add: st st_wf_def)
  have items: "set (bs_items (bs_insert str_cmp dep visited)) = insert dep (set (bs_items visited))"
    by (rule str.set_bs_insert [OF wfs(1)])
  have look: "lookup (bt_insert str_cmp dep node ps) = (lookup ps)(dep \<mapsto> node)"
    by (rule ext) (simp add: lookup_def bt_insert_def str.bt_get_alter [OF wfs(2)])
  have "bt_wf str_cmp (bs_insert str_cmp dep visited)" "bt_wf str_cmp (bt_insert str_cmp dep node ps)"
    by (simp_all add: str.bs_wf_insert [OF wfs(1)] bt_insert_def str.bt_wf_alter [OF wfs(2)])
  then show ?thesis using wfs
    by (simp add: st st_wf_def st_view_def bfs_visit_def visit_def str.bs_mem_iff [OF wfs(1)] items look)
qed

lemma visit_fold:
  "st_wf st \<Longrightarrow> st_wf (fold (bfs_visit node) deps st) \<and>
     st_view (fold (bfs_visit node) deps st) = fold (visit node) deps (st_view st)"
  by (induction deps arbitrary: st) (simp_all add: visit_step)

interpretation graph_bfs: bfs "successors es" st_view st_wf "st_turn es" "bfs_loop es" "\<lambda>(visited, queue, ps). ps"
  for es
proof
  fix s V node Q P
  assume wf: "st_wf s" and v: "st_view s = (V, node # Q, P)"
  obtain visited ps where s: "s = (visited, node # Q, ps)" and V: "st_view (visited, Q, ps) = (V, Q, P)"
    using v by (cases s) (auto simp: st_view_def)
  have "st_wf (visited, Q, ps)" using wf by (simp add: s st_wf_def)
  from visit_fold [OF this, of node "successors es node"]
  show "st_wf (st_turn es s) \<and> st_view (st_turn es s) = fold (visit node) (successors es node) (V, Q, P) \<and>
      bfs_loop es s = bfs_loop es (st_turn es s)"
    unfolding V by (simp add: s st_turn_def bfs_loop.simps [of es "(visited, node # Q, ps)"])
next
  fix s V P
  assume "st_wf s" "st_view s = (V, [], P)"
  then show "bfs_loop es s = Some (case s of (visited, queue, ps) \<Rightarrow> ps)"
    by (cases s) (simp add: st_view_def bfs_loop.simps)
qed (rule finite_targets)

text \<open>The loop ends, and with every name reachable from the root among the visited ones.\<close>

lemma bfs_parents_total:
  obtains ps D where "bfs_parents g = Some ps"
    and "bfs_inv (successors (dg_edges g)) {dg_root g} D (insert (dg_root g) (dom (lookup ps)), [], lookup ps)"
proof -
  let ?st = "(bs_insert str_cmp (dg_root g) [], [dg_root g], []) :: bfs_state"
  have "st_wf ?st" by (simp add: st_wf_def bs_insert_def)
  moreover have "bfs_inv (successors (dg_edges g)) {dg_root g} (\<lambda>_. 0) (st_view ?st)"
    unfolding st_view_def bfs_inv_def by (auto simp: lookup_def bs_insert_def bs_items_def)
  ultimately obtain s' D' P where s': "bfs_loop (dg_edges g) ?st = Some (case s' of (visited, queue, ps) \<Rightarrow> ps)"
    "st_view s' = ({dg_root g} \<union> dom P, [], P)" "bfs_inv (successors (dg_edges g)) {dg_root g} D' (st_view s')"
    using graph_bfs.loop_total by blast
  obtain visited queue ps where "s' = (visited, queue, ps)" by (cases s')
  then have "bfs_parents g = Some ps" "P = lookup ps" using s'(1,2) by (simp_all add: bfs_parents_def st_view_def)
  then show thesis using that s'(2,3) by simp
qed

section \<open>Chains\<close>

text \<open>Walking up the parents ends at the root.\<close>

lemma chain_up_climbs: "climbs (lookup ps) x xs \<Longrightarrow> xs = x # the (chain_up ps x) \<and> chain_up ps x \<noteq> None"
  by (induction rule: climbs.induct) (auto simp: chain_up.simps [of ps] lookup_def)

lemma chain_up_walk:
  assumes inv: "bfs_inv (successors es) {root} D (insert root (dom (lookup ps)), [], lookup ps)"
    and x: "x \<in> insert root (dom (lookup ps))"
  shows "\<exists>up. chain_up ps x = Some up \<and> length up = D x \<and> walk es (rev (x # up)) \<and> last (x # up) = root"
proof -
  obtain xs where xs: "climbs (lookup ps) x xs" "length xs = Suc (D x)" "dep_chain (successors es) (rev xs)" "last xs \<in> {root}"
    using climbs_path [OF inv x] by blast
  obtain up where "chain_up ps x = Some up" "xs = x # up" using chain_up_climbs [OF xs(1)] by auto
  then show ?thesis using xs(2-4) by (simp add: walk_chain)
qed

text \<open>No walk from the root is shorter than the depth, and all of them stay inside the visited names.\<close>

lemma walk_depth:
  assumes inv: "bfs_inv (successors es) {root} D (insert root (dom (lookup ps)), [], lookup ps)"
  shows "walk es xs \<Longrightarrow> hd xs = root \<Longrightarrow>
    last xs \<in> insert root (dom (lookup ps)) \<and> Suc (D (last xs)) \<le> length xs"
  using bfs_depth [OF inv] by (simp add: walk_chain)

text \<open>The cache, when filled, is what the search would compute on the present edges.\<close>

definition cache_ok :: "dep_graph \<Rightarrow> bool" where
  "cache_ok g \<longleftrightarrow> (case dg_parents g of None \<Rightarrow> True | Some ps \<Rightarrow> bfs_parents g = Some ps)"

lemma cache_ok_new [simp]: "cache_ok (graph_new root)"
  by (simp add: cache_ok_def graph_new_def)

lemma cache_ok_add_edges [simp]: "cache_ok (add_edges src tos g)"
  by (simp add: cache_ok_def add_edges_def)

lemma bfs_parents_cache [simp]: "bfs_parents (g\<lparr>dg_parents := x\<rparr>) = bfs_parents g"
  by (simp add: bfs_parents_def)

lemma chain_to_result:
  assumes "cache_ok g"
  shows "\<exists>path g'. chain_to target g = Some (path, g') \<and> cache_ok g' \<and>
    dg_edges g' = dg_edges g \<and> dg_root g' = dg_root g \<and>
    (path = [] \<longleftrightarrow> target = dg_root g \<or>
       \<not> (\<exists>xs. walk (dg_edges g) xs \<and> hd xs = dg_root g \<and> last xs = target)) \<and>
    (path \<noteq> [] \<longrightarrow> walk (dg_edges g) path \<and> hd path = dg_root g \<and> last path = target \<and>
       (\<forall>xs. walk (dg_edges g) xs \<longrightarrow> hd xs = dg_root g \<longrightarrow> last xs = target \<longrightarrow> length path \<le> length xs))"
proof (cases "dg_edges g = [] \<or> dg_root g = target")
  case True
  then have res: "chain_to target g = Some ([], g)" by (simp add: chain_to_def)
  have "target = dg_root g" if "dg_edges g = []" "walk (dg_edges g) xs" "hd xs = dg_root g" "last xs = target" for xs
    using that by (cases xs; cases "tl xs") (auto simp: edge_def successors_def)
  then show ?thesis using True res assms by blast
next
  case False
  obtain ps D where ps: "bfs_parents g = Some ps"
    and inv: "bfs_inv (successors (dg_edges g)) {dg_root g} D (insert (dg_root g) (dom (lookup ps)), [], lookup ps)"
    by (rule bfs_parents_total)
  let ?g' = "g\<lparr>dg_parents := Some ps\<rparr>"
  have cached: "(case dg_parents g of Some ps \<Rightarrow> Some ps | None \<Rightarrow> bfs_parents g) = Some ps"
    using assms ps by (auto simp: cache_ok_def split: option.splits)
  have keep: "cache_ok ?g'" "dg_edges ?g' = dg_edges g" "dg_root ?g' = dg_root g"
    using ps by (simp_all add: cache_ok_def)
  note depth = walk_depth [OF inv]
  show ?thesis
  proof (cases "lookup ps target")
    case None
    then have res: "chain_to target g = Some ([], ?g')"
      using False cached by (simp add: chain_to_def lookup_def Let_def)
    have "target \<notin> insert (dg_root g) (dom (lookup ps))" using None False by auto
    then have "\<not> (\<exists>xs. walk (dg_edges g) xs \<and> hd xs = dg_root g \<and> last xs = target)"
      using depth by blast
    then show ?thesis using res keep by blast
  next
    case (Some p)
    then have "target \<in> insert (dg_root g) (dom (lookup ps))" by auto
    from chain_up_walk [OF inv this] obtain up where up: "chain_up ps target = Some up"
      "length up = D target" "walk (dg_edges g) (rev (target # up))" "last (target # up) = dg_root g" by blast
    let ?path = "rev (target # up)"
    have res: "chain_to target g = Some (?path, ?g')"
      using False cached up(1) Some by (simp add: chain_to_def lookup_def Let_def)
    have path: "?path \<noteq> []" "hd ?path = dg_root g" "last ?path = target"
      using up(4) by (auto simp: hd_rev simp del: rev.simps) simp
    have short: "length ?path \<le> length xs"
      if "walk (dg_edges g) xs" "hd xs = dg_root g" "last xs = target" for xs
      using depth [OF that(1,2)] that(3) up(2) by simp
    have "target \<noteq> dg_root g" using False by blast
    then show ?thesis using res keep path up(3) short by blast
  qed
qed

section \<open>What the chains promise\<close>

text \<open>C9: asking for a chain always returns, changes nothing but a cache that stays coherent, and answers
  with a chain of real edges from the project to the package that no other chain is shorter
  than; the empty answer means the package is the project itself or nothing reaches it.\<close>

theorem chain_to_shortest:
  assumes "cache_ok g"
  shows "\<exists>path g'. chain_to target g = Some (path, g') \<and> cache_ok g' \<and>
    dg_edges g' = dg_edges g \<and> dg_root g' = dg_root g \<and>
    (path = [] \<longleftrightarrow> target = dg_root g \<or>
       \<not> (\<exists>xs. walk (dg_edges g) xs \<and> hd xs = dg_root g \<and> last xs = target)) \<and>
    (path \<noteq> [] \<longrightarrow> walk (dg_edges g) path \<and> hd path = dg_root g \<and> last path = target \<and>
       (\<forall>xs. walk (dg_edges g) xs \<longrightarrow> hd xs = dg_root g \<longrightarrow> last xs = target \<longrightarrow> length path \<le> length xs))"
  by (rule chain_to_result [OF assms])

definition chain_example :: dep_graph where
  "chain_example = add_edges ''a'' [''b''] (add_edges ''app'' [''b'', ''a''] (graph_new ''app''))"

theorem chain_to_shortest_witness:
  "\<exists>path g'. chain_to ''b'' chain_example = Some (path, g') \<and> cache_ok g' \<and>
    dg_edges g' = dg_edges chain_example \<and> dg_root g' = dg_root chain_example \<and>
    (path = [] \<longleftrightarrow> ''b'' = dg_root chain_example \<or>
       \<not> (\<exists>xs. walk (dg_edges chain_example) xs \<and> hd xs = dg_root chain_example \<and> last xs = ''b'')) \<and>
    (path \<noteq> [] \<longrightarrow> walk (dg_edges chain_example) path \<and> hd path = dg_root chain_example \<and> last path = ''b'' \<and>
       (\<forall>xs. walk (dg_edges chain_example) xs \<longrightarrow> hd xs = dg_root chain_example \<longrightarrow> last xs = ''b'' \<longrightarrow>
          length path \<le> length xs))"
  by (rule chain_to_shortest) (simp add: chain_example_def)

section \<open>Building and asking in any order\<close>

datatype graph_op = AddEdges string "string list" | AskChain string

text \<open>One call; a query leaves the graph with its cache filled.\<close>

fun graph_step :: "graph_op \<Rightarrow> dep_graph \<Rightarrow> dep_graph option" where
  "graph_step (AddEdges src tos) g = Some (add_edges src tos g)"
| "graph_step (AskChain target) g = map_option snd (chain_to target g)"

fun graph_run :: "graph_op list \<Rightarrow> dep_graph \<Rightarrow> dep_graph option" where
  "graph_run [] g = Some g"
| "graph_run (op # ops) g = Option.bind (graph_step op g) (graph_run ops)"

definition edges_wf :: "edges \<Rightarrow> bool" where
  "edges_wf es \<longleftrightarrow> bt_wf str_cmp es \<and> (\<forall>src tos. bt_get str_cmp src es = Some tos \<longrightarrow> bt_wf str_cmp tos)"

lemma edge_add_edges:
  assumes "edges_wf (dg_edges g)"
  shows "edges_wf (dg_edges (add_edges src tos g))"
    and "edge (dg_edges (add_edges src tos g)) u v \<longleftrightarrow> u = src \<and> v \<in> set tos \<or> edge (dg_edges g) u v"
proof -
  let ?old = "case bt_get str_cmp src (dg_edges g) of None \<Rightarrow> [] | Some s \<Rightarrow> s"
  let ?new = "fold (bs_insert str_cmp) tos ?old"
  have wf: "bt_wf str_cmp (dg_edges g)" using assms by (simp add: edges_wf_def)
  have old: "bt_wf str_cmp ?old" using assms by (auto simp: edges_wf_def split: option.split)
  note new = str.bs_fold_insert [OF old, of tos]
  have get: "bt_get str_cmp x (dg_edges (add_edges src tos g)) = (if x = src then Some ?new else bt_get str_cmp x (dg_edges g))" for x
    by (simp add: add_edges_def str.bt_get_alter [OF wf])
  have "bt_wf str_cmp (dg_edges (add_edges src tos g))" by (simp add: add_edges_def str.bt_wf_alter [OF wf])
  then show "edges_wf (dg_edges (add_edges src tos g))"
    using new assms by (auto simp: edges_wf_def get split: if_splits)
  have "set (bs_items ?old) = set (successors (dg_edges g) src)"
    by (cases "bt_get str_cmp src (dg_edges g)") (simp_all add: successors_def bs_items_def)
  then show "edge (dg_edges (add_edges src tos g)) u v \<longleftrightarrow> u = src \<and> v \<in> set tos \<or> edge (dg_edges g) u v"
    using new by (auto simp: edge_def successors_def get)
qed

lemma chain_to_uncached:
  assumes "cache_ok g"
  shows "map_option fst (chain_to target g) = map_option fst (chain_to target (g\<lparr>dg_parents := None\<rparr>))"
proof -
  have "(case dg_parents g of Some ps \<Rightarrow> Some ps | None \<Rightarrow> bfs_parents g) = bfs_parents g"
    using assms by (simp add: cache_ok_def split: option.splits)
  then show ?thesis by (simp add: chain_to_def Let_def option.map_comp comp_def split: option.split)
qed

lemma graph_run_from:
  assumes "cache_ok g" "edges_wf (dg_edges g)"
  shows "\<exists>g'. graph_run ops g = Some g' \<and> cache_ok g' \<and> edges_wf (dg_edges g') \<and> dg_root g' = dg_root g \<and>
    (\<forall>u v. edge (dg_edges g') u v \<longleftrightarrow> (\<exists>tos. AddEdges u tos \<in> set ops \<and> v \<in> set tos) \<or> edge (dg_edges g) u v)"
  using assms
proof (induction ops arbitrary: g)
  case (Cons op ops)
  show ?case
  proof (cases op)
    case (AddEdges src tos)
    have "dg_root (add_edges src tos g) = dg_root g" by (simp add: add_edges_def)
    with Cons.IH [of "add_edges src tos g"] edge_add_edges [OF Cons.prems(2), of src tos]
    show ?thesis by (fastforce simp: AddEdges)
  next
    case (AskChain target)
    obtain path g1 where g1: "chain_to target g = Some (path, g1)" "cache_ok g1" "dg_edges g1 = dg_edges g" "dg_root g1 = dg_root g"
      using chain_to_result [OF Cons.prems(1)] by blast
    then show ?thesis using Cons.IH [of g1] Cons.prems(2) by (simp add: AskChain)
  qed
qed simp

text \<open>C10: However a graph is built and asked, additions of edges and queries in any order, every call
  returns, the graph has exactly the edges that were added, its cache is what the search computes
  on those edges, and the next query answers as if nothing had ever been cached.\<close>

theorem cache_coherent:
  "\<exists>g. graph_run ops (graph_new root) = Some g \<and> dg_root g = root \<and> cache_ok g \<and>
     (\<forall>u v. edge (dg_edges g) u v \<longleftrightarrow> (\<exists>tos. AddEdges u tos \<in> set ops \<and> v \<in> set tos)) \<and>
     (\<forall>target. map_option fst (chain_to target g) = map_option fst (chain_to target (g\<lparr>dg_parents := None\<rparr>)))"
proof -
  have "edges_wf (dg_edges (graph_new root))" "\<And>u v. \<not> edge (dg_edges (graph_new root)) u v" "dg_root (graph_new root) = root"
    by (simp_all add: graph_new_def edges_wf_def edge_def successors_def)
  then show ?thesis using graph_run_from [OF cache_ok_new, of root ops] chain_to_uncached by simp blast
qed

end
