(* ===== verification/Feeder_Scan.thy ===== *)
theory Feeder_Scan
  imports Osv_Db Osv_Findings Rust_Search Dep_Graph
begin

text \<open>
  What the scan of every toolchain-free ecosystem crate does (\<^verbatim>\<open>scan_installed\<close> and
  \<^verbatim>\<open>match_advisory\<close> of \<^verbatim>\<open>src/crates/*/src/scan.rs\<close>): each installed package whose version parses is
  looked up in the advisory database, every advisory that covers the version gives one finding
  with the package's shortest introducing chain, and the findings are sorted and merged.  The
  crates write the same code over their own version type; what differs between them is the record
  \<open>feeder\<close>, whose values the theory \<open>Feeders\<close> gives crate by crate.

  The last section relates the result to the records of the database as they were read: a package
  is named exactly for the records that cover it.
\<close>

section \<open>The scan\<close>

record installed =
  ip_name :: string
  ip_version :: string
  ip_direct :: bool
  ip_dev :: bool

record ('v, 's) feeder =
  fd_ecosystem :: ecosystem
  fd_spec :: "'v osv_spec"
  fd_parse_installed :: "string \<Rightarrow> 'v option"
  fd_at_or_after :: "'v \<Rightarrow> 'v \<Rightarrow> bool"
  fd_semver :: "'v \<Rightarrow> 's"
  fd_show :: "'v \<Rightarrow> string"
  fd_key :: "string \<Rightarrow> string"
  fd_scores :: bool
  fd_dev :: bool
  fd_paths :: bool
  fd_reason :: string

abbreviation fd_cmp :: "('v, 's) feeder \<Rightarrow> 'v cmp" where
  "fd_cmp fd \<equiv> sc_cmp (fd_spec fd)"

record ('v, 'r) tier_c_scan =
  ts_findings :: "('v, 'r) vuln_finding list"
  ts_skipped :: nat

text \<open>Affected by a range, or else listed; the list is consulted where the crate has one.\<close>

definition covered :: "('v, 's) feeder \<Rightarrow> 'v \<Rightarrow> 'v advisory \<Rightarrow> bool" where
  "covered fd version adv =
     (case affected_fixed_parsed (fd_cmp fd) (fd_at_or_after fd) version (ad_ranges adv) of
        Affected _ \<Rightarrow> True
      | NotAffected \<Rightarrow> sc_use_versions (fd_spec fd) \<and> binary_contains (fd_cmp fd) version (ad_versions adv))"

definition match_advisory ::
  "('s, 'r) semver_lib \<Rightarrow> ('v, 's) feeder \<Rightarrow> 'v advisory \<Rightarrow> installed \<Rightarrow> 'v \<Rightarrow> string list \<Rightarrow> repo_id
     \<Rightarrow> ('s, 'r) vuln_finding option" where
  "match_advisory lib fd adv pkg version path repo =
     (if \<not> covered fd version adv then None
      else Some (tier_c_build
        \<lparr>tc_ecosystem = fd_ecosystem fd, tc_id = ad_id adv, tc_aliases = ad_aliases adv,
         tc_title = (case ad_summary adv of None \<Rightarrow> ad_id adv | Some s \<Rightarrow> s),
         tc_severity = ad_severity adv,
         tc_cvss = (if fd_scores fd then ad_cvss adv else None),
         tc_vector = (if fd_scores fd then ad_vector adv else None),
         tc_package = ip_name pkg, tc_installed = fd_semver fd version,
         tc_patched = patched_reqs lib (fd_show fd) (safe_intervals (fd_cmp fd) version (ad_ranges adv)),
         tc_direct = ip_direct pkg, tc_dev = (fd_dev fd \<and> ip_dev pkg), tc_path = path,
         tc_repo = repo, tc_reason = fd_reason fd\<rparr>))"

fun scan_loop ::
  "('s, 'r) semver_lib \<Rightarrow> ('v, 's) feeder \<Rightarrow> 'v osv_db \<Rightarrow> repo_id \<Rightarrow> installed list \<Rightarrow> dep_graph
     \<Rightarrow> (('s, 'r) vuln_finding list \<times> nat \<times> dep_graph) option" where
  "scan_loop lib fd db repo [] graph = Some ([], 0, graph)"
| "scan_loop lib fd db repo (pkg # pkgs) graph =
     (case fd_parse_installed fd (ip_version pkg) of
        None \<Rightarrow> map_option (\<lambda>(out, skipped, g). (out, Suc skipped, g)) (scan_loop lib fd db repo pkgs graph)
      | Some version \<Rightarrow>
          Option.bind (if fd_paths fd then chain_to (ip_name pkg) graph else Some ([], graph))
            (\<lambda>(path, graph').
               map_option (\<lambda>(out, skipped, g).
                   (List.map_filter (\<lambda>adv. match_advisory lib fd adv pkg version path repo)
                      (advisories_for (fd_key fd (ip_name pkg)) db) @ out, skipped, g))
                 (scan_loop lib fd db repo pkgs graph')))"

definition scan_installed ::
  "('s, 'r) semver_lib \<Rightarrow> ('v, 's) feeder \<Rightarrow> 'v osv_db \<Rightarrow> repo_id \<Rightarrow> installed list \<Rightarrow> dep_graph
     \<Rightarrow> ('s, 'r) tier_c_scan option" where
  "scan_installed lib fd db repo installed graph =
     Option.bind (scan_loop lib fd db repo installed graph)
       (\<lambda>(out, skipped, _). map_option (\<lambda>fs. \<lparr>ts_findings = fs, ts_skipped = skipped\<rparr>)
          (sort_dedup_findings lib out))"

section \<open>What the loop produces\<close>

text \<open>The packages whose version parses, each with an advisory of its key that covers it.\<close>

definition hit :: "('v, 's) feeder \<Rightarrow> 'v osv_db \<Rightarrow> installed list \<Rightarrow> installed \<Rightarrow> 'v \<Rightarrow> 'v advisory \<Rightarrow> bool" where
  "hit fd db installed pkg version adv \<longleftrightarrow>
     pkg \<in> set installed \<and> fd_parse_installed fd (ip_version pkg) = Some version \<and>
     adv \<in> set (advisories_for (fd_key fd (ip_name pkg)) db) \<and> covered fd version adv"

lemma match_advisory_iff:
  "match_advisory lib fd adv pkg version path repo = Some f \<Longrightarrow>
     covered fd version adv \<and> vf_id f = ad_id adv \<and> occ_key f = (ip_name pkg, Some (fd_semver fd version))"
  by (auto simp: match_advisory_def tier_c_build_def occ_key_def split: if_splits)

lemma match_advisory_covered:
  "covered fd version adv \<Longrightarrow> \<exists>f. match_advisory lib fd adv pkg version path repo = Some f"
  by (simp add: match_advisory_def)

lemma scan_loop_total:
  assumes "cache_ok graph"
  shows "\<exists>out skipped g. scan_loop lib fd db repo installed graph = Some (out, skipped, g) \<and>
    skipped = length (filter (\<lambda>p. fd_parse_installed fd (ip_version p) = None) installed) \<and>
    (\<forall>pkg version adv. hit fd db installed pkg version adv \<longrightarrow>
      (\<exists>f \<in> set out. vf_id f = ad_id adv \<and> occ_key f = (ip_name pkg, Some (fd_semver fd version)))) \<and>
    (\<forall>f \<in> set out. \<exists>pkg version adv. hit fd db installed pkg version adv \<and>
      vf_id f = ad_id adv \<and> occ_key f = (ip_name pkg, Some (fd_semver fd version)))"
  using assms
proof (induction installed arbitrary: graph)
  case Nil
  then show ?case by (simp add: hit_def)
next
  case (Cons pkg pkgs)
  show ?case
  proof (cases "fd_parse_installed fd (ip_version pkg)")
    case None
    obtain out skipped g where "scan_loop lib fd db repo pkgs graph = Some (out, skipped, g)"
      and "skipped = length (filter (\<lambda>p. fd_parse_installed fd (ip_version p) = None) pkgs)"
      and "\<forall>p version adv. hit fd db pkgs p version adv \<longrightarrow>
        (\<exists>f \<in> set out. vf_id f = ad_id adv \<and> occ_key f = (ip_name p, Some (fd_semver fd version)))"
      and "\<forall>f \<in> set out. \<exists>p version adv. hit fd db pkgs p version adv \<and>
        vf_id f = ad_id adv \<and> occ_key f = (ip_name p, Some (fd_semver fd version))"
      using Cons.IH [OF Cons.prems] by blast
    moreover have "hit fd db (pkg # pkgs) p version adv \<longleftrightarrow> hit fd db pkgs p version adv" for p version adv
      using None by (auto simp: hit_def)
    ultimately show ?thesis using None by simp
  next
    case (Some version)
    obtain path graph' where chain: "(if fd_paths fd then chain_to (ip_name pkg) graph else Some ([], graph)) = Some (path, graph')"
      and ok: "cache_ok graph'"
      using chain_to_result [OF Cons.prems, of "ip_name pkg"] Cons.prems by (cases "fd_paths fd") auto
    obtain out skipped g where loop: "scan_loop lib fd db repo pkgs graph' = Some (out, skipped, g)"
      and skipped: "skipped = length (filter (\<lambda>p. fd_parse_installed fd (ip_version p) = None) pkgs)"
      and complete: "\<And>p version adv. hit fd db pkgs p version adv \<Longrightarrow>
        \<exists>f \<in> set out. vf_id f = ad_id adv \<and> occ_key f = (ip_name p, Some (fd_semver fd version))"
      and sound: "\<And>f. f \<in> set out \<Longrightarrow> \<exists>p version adv. hit fd db pkgs p version adv \<and>
        vf_id f = ad_id adv \<and> occ_key f = (ip_name p, Some (fd_semver fd version))"
      using Cons.IH [OF ok] by blast
    let ?new = "List.map_filter (\<lambda>adv. match_advisory lib fd adv pkg version path repo)
      (advisories_for (fd_key fd (ip_name pkg)) db)"
    have run: "scan_loop lib fd db repo (pkg # pkgs) graph = Some (?new @ out, skipped, g)"
      using Some chain loop by simp
    have "\<exists>f \<in> set (?new @ out). vf_id f = ad_id adv \<and> occ_key f = (ip_name p, Some (fd_semver fd v))"
      if h: "hit fd db (pkg # pkgs) p v adv" for p v adv
    proof (cases "p = pkg")
      case True
      then have c: "v = version" "adv \<in> set (advisories_for (fd_key fd (ip_name pkg)) db)" "covered fd version adv"
        using h Some by (auto simp: hit_def)
      then obtain f where f: "match_advisory lib fd adv pkg version path repo = Some f"
        using match_advisory_covered [OF c(3)] by blast
      then have "f \<in> set ?new" using c(2) by (auto simp: set_map_filter)
      then show ?thesis using match_advisory_iff [OF f] True c(1) by auto
    next
      case False
      then have "hit fd db pkgs p v adv" using h by (auto simp: hit_def)
      then show ?thesis using complete by fastforce
    qed
    moreover have "\<exists>p v adv. hit fd db (pkg # pkgs) p v adv \<and> vf_id f = ad_id adv \<and>
        occ_key f = (ip_name p, Some (fd_semver fd v))" if f: "f \<in> set (?new @ out)" for f
    proof (cases "f \<in> set out")
      case True
      then show ?thesis using sound [OF True] by (fastforce simp: hit_def)
    next
      case False
      then obtain adv where adv: "adv \<in> set (advisories_for (fd_key fd (ip_name pkg)) db)"
        "match_advisory lib fd adv pkg version path repo = Some f"
        using f by (auto simp: set_map_filter)
      then have "hit fd db (pkg # pkgs) pkg version adv"
        using Some match_advisory_iff [OF adv(2)] by (simp add: hit_def)
      then show ?thesis using match_advisory_iff [OF adv(2)] by blast
    qed
    ultimately show ?thesis using run skipped Some by simp
  qed
qed

text \<open>Sorting and merging keeps every id on its package and version and invents no finding.\<close>

lemma sort_dedup_findings_named:
  assumes v: "rust_total_ord (sv_cmp lib)"
  obtains out' where "sort_dedup_findings lib out = Some out'"
    and "\<And>f. f \<in> set out \<Longrightarrow> \<exists>g \<in> set out'. occ_key g = occ_key f \<and> vf_id f \<in> set (all_ids g)"
    and "\<And>g. g \<in> set out' \<Longrightarrow> \<exists>f \<in> set out. occ_key g = occ_key f \<and> vf_id g = vf_id f \<and> vf_occurrences g = vf_occurrences f"
proof -
  let ?d = "dedup_by same_finding (sort_by (finding_order lib) out)"
  have sub: "set ?d \<subseteq> set out" using set_dedup_by_subset [of same_finding "sort_by (finding_order lib) out"] by simp
  obtain out' where run: "collapse_alias_duplicates lib ?d = Some out'"
    and kept: "list_all (\<lambda>f. list_ex (\<lambda>g. occ_key g = occ_key f \<and> set (all_ids f) \<subseteq> set (all_ids g) \<and>
        vf_severity f \<le> vf_severity g) out') ?d"
    and source: "list_all (\<lambda>g. list_ex (\<lambda>k. vf_id g = vf_id k \<and> vf_title g = vf_title k \<and>
        vf_occurrences g = vf_occurrences k \<and>
        list_all (\<lambda>a. list_ex (\<lambda>f. a \<in> set (all_ids f) \<and> one_vulnerability ?d k f \<and>
          rank_cmp k f \<noteq> Greater) ?d) (all_ids g)) ?d) out'"
    using collapse_duplicates [OF v, of ?d] by blast
  show thesis
  proof (rule that)
    show "sort_dedup_findings lib out = Some out'" using run by (simp add: sort_dedup_findings_def)
    fix f
    assume "f \<in> set out"
    then have "f \<in> set (sort_by (finding_order lib) out)" by simp
    from same_finding_sorted_dedup [OF this] obtain h where h: "h \<in> set ?d" "same_finding f h" by blast
    then obtain g where "g \<in> set out'" "occ_key g = occ_key h" "set (all_ids h) \<subseteq> set (all_ids g)"
      using kept unfolding list_all_iff list_ex_iff by blast
    then show "\<exists>g \<in> set out'. occ_key g = occ_key f \<and> vf_id f \<in> set (all_ids g)"
      using h(2) by (auto simp: same_finding_def all_ids_def)
  next
    fix g
    assume "g \<in> set out'"
    then obtain k where "k \<in> set ?d" "vf_id g = vf_id k" "vf_occurrences g = vf_occurrences k"
      using source unfolding list_all_iff list_ex_iff by blast
    then show "\<exists>f \<in> set out. occ_key g = occ_key f \<and> vf_id g = vf_id f \<and> vf_occurrences g = vf_occurrences f"
      using sub by (intro bexI [of _ k]) (auto simp: occ_key_def)
  qed
qed

lemma scan_installed_hits:
  assumes "rust_total_ord (sv_cmp lib)" and "cache_ok graph"
  obtains scan where "scan_installed lib fd db repo installed graph = Some scan"
    and "ts_skipped scan = length (filter (\<lambda>p. fd_parse_installed fd (ip_version p) = None) installed)"
    and "\<And>pkg version adv. hit fd db installed pkg version adv \<Longrightarrow>
      \<exists>g \<in> set (ts_findings scan). ad_id adv \<in> set (all_ids g) \<and>
        occ_key g = (ip_name pkg, Some (fd_semver fd version))"
    and "\<And>g. g \<in> set (ts_findings scan) \<Longrightarrow>
      \<exists>pkg version adv. hit fd db installed pkg version adv \<and> vf_id g = ad_id adv \<and>
        occ_key g = (ip_name pkg, Some (fd_semver fd version))"
proof -
  obtain out skipped g where loop: "scan_loop lib fd db repo installed graph = Some (out, skipped, g)"
    and skipped: "skipped = length (filter (\<lambda>p. fd_parse_installed fd (ip_version p) = None) installed)"
    and complete: "\<forall>pkg version adv. hit fd db installed pkg version adv \<longrightarrow>
      (\<exists>f \<in> set out. vf_id f = ad_id adv \<and> occ_key f = (ip_name pkg, Some (fd_semver fd version)))"
    and sound: "\<forall>f \<in> set out. \<exists>pkg version adv. hit fd db installed pkg version adv \<and>
      vf_id f = ad_id adv \<and> occ_key f = (ip_name pkg, Some (fd_semver fd version))"
    using scan_loop_total [OF assms(2), of lib fd db repo installed] by (elim exE conjE) (rule that, assumption+)
  obtain fs where run: "sort_dedup_findings lib out = Some fs"
    and named: "\<And>f. f \<in> set out \<Longrightarrow> \<exists>g \<in> set fs. occ_key g = occ_key f \<and> vf_id f \<in> set (all_ids g)"
    and source: "\<And>g. g \<in> set fs \<Longrightarrow> \<exists>f \<in> set out. occ_key g = occ_key f \<and> vf_id g = vf_id f"
    by (rule sort_dedup_findings_named [OF assms(1), of out]) metis
  show thesis
  proof (rule that)
    show "scan_installed lib fd db repo installed graph = Some \<lparr>ts_findings = fs, ts_skipped = skipped\<rparr>"
      using loop run by (simp add: scan_installed_def)
  next
    fix pkg version adv
    assume "hit fd db installed pkg version adv"
    then obtain f where "f \<in> set out" "vf_id f = ad_id adv" "occ_key f = (ip_name pkg, Some (fd_semver fd version))"
      using complete by blast
    then show "\<exists>g \<in> set (ts_findings \<lparr>ts_findings = fs, ts_skipped = skipped\<rparr>). ad_id adv \<in> set (all_ids g) \<and>
        occ_key g = (ip_name pkg, Some (fd_semver fd version))" using named [of f] by auto
  next
    fix g
    assume "g \<in> set (ts_findings \<lparr>ts_findings = fs, ts_skipped = skipped\<rparr>)"
    then show "\<exists>pkg version adv. hit fd db installed pkg version adv \<and> vf_id g = ad_id adv \<and>
        occ_key g = (ip_name pkg, Some (fd_semver fd version))" using source [of g] sound by simp metis
  qed (simp add: skipped)
qed

section \<open>Back to the records\<close>

text \<open>
  When an OSV record covers a version of the package with a given key: one of its entries for the
  package has a range that affects the version, or lists a version equal to it.
\<close>

definition lists_version :: "'v osv_spec \<Rightarrow> 'v \<Rightarrow> affected_entry \<Rightarrow> bool" where
  "lists_version spec version a \<longleftrightarrow> sc_use_versions spec \<and>
     (case af_versions a of
        None \<Rightarrow> False
      | Some vs \<Rightarrow> list_ex (\<lambda>s. case sc_parse spec s of None \<Rightarrow> False | Some w \<Rightarrow> sc_cmp spec w version = Equal) vs)"

definition range_covers :: "('v, 's) feeder \<Rightarrow> 'v \<Rightarrow> raw_range \<Rightarrow> bool" where
  "range_covers fd version r \<longleftrightarrow>
     affected_fixed_parsed (fd_cmp fd) (fd_at_or_after fd) version
       [parse_range (sc_parse (fd_spec fd)) (raw_to_range (sc_range_type (fd_spec fd)) r)] \<noteq> NotAffected"

definition entry_covers :: "('v, 's) feeder \<Rightarrow> 'v \<Rightarrow> string \<Rightarrow> affected_entry \<Rightarrow> bool" where
  "entry_covers fd version key a \<longleftrightarrow>
     pk_ecosystem (af_package a) = Some (sc_ecosystem (fd_spec fd)) \<and>
     (case pk_name (af_package a) of None \<Rightarrow> False | Some raw \<Rightarrow> sc_normalize (fd_spec fd) raw = key) \<and>
     (list_ex (range_covers fd version) (af_ranges a) \<or> lists_version (fd_spec fd) version a)"

definition record_covers :: "('v, 's) feeder \<Rightarrow> 'v \<Rightarrow> string \<Rightarrow> osv_record \<Rightarrow> bool" where
  "record_covers fd version key osv \<longleftrightarrow>
     os_withdrawn osv = None \<and> list_ex (entry_covers fd version key) (os_affected osv)"

definition listed :: "'v cmp \<Rightarrow> 'v \<Rightarrow> 'v list \<Rightarrow> bool" where
  "listed c version vs \<longleftrightarrow> (\<exists>w \<in> set vs. c w version = Equal)"

context rust_ord
begin

lemma dedup_by_listed:
  "listed cmp v (dedup_by (\<lambda>a b. cmp a b = Equal) xs) \<longleftrightarrow> listed cmp v xs"
proof (induction "\<lambda>a b. cmp a b = Equal" xs rule: dedup_by.induct)
  case (1 x y ys)
  show ?case
  proof (cases "cmp y x = Equal")
    case True
    then have "cmp y v = Equal \<longleftrightarrow> cmp x v = Equal" using cmp_eq_left by metis
    then show ?thesis using True 1(1) [OF True] by (auto simp: listed_def)
  next
    case False
    then show ?thesis using 1(2) [OF False] by (auto simp: listed_def)
  qed
qed (simp_all add: listed_def)

lemma sort_dedup_listed [simp]: "listed cmp v (sort_dedup cmp vs) \<longleftrightarrow> listed cmp v vs"
  by (simp add: sort_dedup_def dedup_by_listed) (simp add: listed_def)

lemma sorted_sort_dedup [simp]: "sorted_by cmp (sort_dedup cmp vs)"
  by (simp add: sort_dedup_def sorted_by_dedup sorted_sort_by)

lemma binary_contains_listed: "sorted_by cmp vs \<Longrightarrow> binary_contains cmp v vs \<longleftrightarrow> listed cmp v vs"
  by (simp add: binary_contains_iff listed_def)

text \<open>An advisory's versions are those of every entry of the record for the package, sorted.\<close>

lemma fold_merge_listed:
  assumes "\<forall>e \<in> set es. sorted_by cmp (ad_versions (snd e)) \<and> ad_id (snd e) = ident"
    and "\<forall>k a. map_of m k = Some a \<longrightarrow> sorted_by cmp (ad_versions a) \<and> ad_id a = ident"
    and "map_of (fold (merge_entry cmp) es m) key = Some adv"
  shows "sorted_by cmp (ad_versions adv) \<and> ad_id adv = ident \<and>
    (listed cmp v (ad_versions adv) \<longleftrightarrow>
       (\<exists>a. map_of m key = Some a \<and> listed cmp v (ad_versions a)) \<or>
       (\<exists>e \<in> set es. fst e = key \<and> listed cmp v (ad_versions (snd e))))"
  using assms
proof (induction es arbitrary: m)
  case Nil
  then show ?case by auto
next
  case (Cons e es)
  obtain name a where e: "e = (name, a)" by (cases e)
  have app: "listed cmp v (xs @ ys) \<longleftrightarrow> listed cmp v xs \<or> listed cmp v ys" for xs ys
    by (auto simp: listed_def)
  have "sorted_by cmp (ad_versions b) \<and> ad_id b = ident" if "map_of (merge_entry cmp e m) k = Some b" for k b
    using that Cons.prems(1,2) unfolding e map_of_merge_entry by (auto split: if_splits option.splits)
  then have inv: "\<forall>k b. map_of (merge_entry cmp e m) k = Some b \<longrightarrow> sorted_by cmp (ad_versions b) \<and> ad_id b = ident"
    by blast
  have "(\<exists>b. map_of (merge_entry cmp e m) key = Some b \<and> listed cmp v (ad_versions b)) \<longleftrightarrow>
      (\<exists>b. map_of m key = Some b \<and> listed cmp v (ad_versions b)) \<or> (name = key \<and> listed cmp v (ad_versions a))"
    unfolding e map_of_merge_entry by (cases "map_of m name") (auto simp: app)
  moreover have "\<forall>e \<in> set es. sorted_by cmp (ad_versions (snd e)) \<and> ad_id (snd e) = ident" using Cons.prems(1) by simp
  moreover have "map_of (fold (merge_entry cmp) es (merge_entry cmp e m)) key = Some adv" using Cons.prems(3) by simp
  ultimately show ?case using Cons.IH [OF _ inv] by (auto simp: e)
qed

end

text \<open>When the version is inside one of the ranges of an advisory, or listed by it.\<close>

definition advisory_covers :: "('v, 's) feeder \<Rightarrow> 'v \<Rightarrow> 'v advisory \<Rightarrow> bool" where
  "advisory_covers fd version adv \<longleftrightarrow>
     (\<exists>r \<in> set (ad_ranges adv). pr_matchable r \<and> range_flag (fd_cmp fd) (fd_at_or_after fd) version r) \<or>
     (sc_use_versions (fd_spec fd) \<and> listed (fd_cmp fd) version (ad_versions adv))"

lemma covered_iff:
  assumes "rust_ord (fd_cmp fd)" and "sorted_by (fd_cmp fd) (ad_versions adv)"
  shows "covered fd version adv \<longleftrightarrow> advisory_covers fd version adv"
proof (cases "affected_fixed_parsed (fd_cmp fd) (fd_at_or_after fd) version (ad_ranges adv)")
  case NotAffected
  then show ?thesis
    using affected_iff [of "fd_cmp fd" "fd_at_or_after fd" version "ad_ranges adv"]
    by (auto simp: covered_def advisory_covers_def rust_ord.binary_contains_listed [OF assms])
next
  case (Affected fix')
  then show ?thesis
    using affected_iff [of "fd_cmp fd" "fd_at_or_after fd" version "ad_ranges adv"]
    by (simp add: covered_def advisory_covers_def)
qed

lemma entry_covers_advisory:
  assumes ord: "rust_ord (fd_cmp fd)"
  shows "entry_covers fd version key a \<longleftrightarrow>
    pk_ecosystem (af_package a) = Some (sc_ecosystem (fd_spec fd)) \<and>
    (\<exists>adv. affected_advisory (fd_spec fd) osv a = Some (key, adv) \<and> advisory_covers fd version adv)"
proof (cases "pk_name (af_package a)")
  case None
  then show ?thesis by (simp add: entry_covers_def affected_advisory_def)
next
  case (Some raw)
  obtain adv where adv: "affected_advisory (fd_spec fd) osv a = Some (sc_normalize (fd_spec fd) raw, adv)"
    and ranges: "ad_ranges adv = map (\<lambda>r. parse_range (sc_parse (fd_spec fd)) (raw_to_range (sc_range_type (fd_spec fd)) r))
      (af_ranges a)"
    and vs: "ad_versions adv = sort_dedup (fd_cmp fd) (if sc_use_versions (fd_spec fd)
      then List.map_filter (sc_parse (fd_spec fd)) (case af_versions a of None \<Rightarrow> [] | Some vs \<Rightarrow> vs) else [])"
    using Some by (simp add: affected_advisory_def)
  have "sc_use_versions (fd_spec fd) \<and> listed (fd_cmp fd) version (ad_versions adv) \<longleftrightarrow>
      lists_version (fd_spec fd) version a"
    unfolding vs rust_ord.sort_dedup_listed [OF ord]
    by (force simp: lists_version_def listed_def set_map_filter list_ex_iff split: option.splits)
  moreover have "(\<exists>r \<in> set (ad_ranges adv). pr_matchable r \<and> range_flag (fd_cmp fd) (fd_at_or_after fd) version r) \<longleftrightarrow>
      list_ex (range_covers fd version) (af_ranges a)"
    unfolding ranges range_covers_def list_ex_iff affected_iff by simp
  ultimately have "advisory_covers fd version adv \<longleftrightarrow>
      list_ex (range_covers fd version) (af_ranges a) \<or> lists_version (fd_spec fd) version a"
    by (simp add: advisory_covers_def)
  then show ?thesis using Some adv by (auto simp: entry_covers_def)
qed

lemma entries_of_covers:
  assumes ord: "rust_ord (fd_cmp fd)"
  shows "record_covers fd version key osv \<longleftrightarrow>
    (\<exists>e \<in> set (entries_of (fd_spec fd) osv). fst e = key \<and> advisory_covers fd version (snd e))"
  unfolding record_covers_def list_ex_iff entry_covers_advisory [OF ord, of version key _ osv] entries_of_def
  by (force simp: set_map_filter)

lemma entries_of_sorted:
  assumes "rust_ord (fd_cmp fd)"
  shows "\<forall>e \<in> set (entries_of (fd_spec fd) osv).
    sorted_by (fd_cmp fd) (ad_versions (snd e)) \<and> ad_id (snd e) = os_id osv"
proof
  fix e
  assume "e \<in> set (entries_of (fd_spec fd) osv)"
  then obtain a where "affected_advisory (fd_spec fd) osv a = Some e"
    by (auto simp: entries_of_def set_map_filter split: if_splits)
  then show "sorted_by (fd_cmp fd) (ad_versions (snd e)) \<and> ad_id (snd e) = os_id osv"
    by (auto simp: affected_advisory_def rust_ord.sorted_sort_dedup [OF assms] split: option.splits)
qed

text \<open>A record's advisory for a package covers a version exactly when the record does.\<close>

lemma advisories_from_covers:
  assumes ord: "rust_ord (fd_cmp fd)"
  shows "(key, adv) \<in> set (advisories_from (fd_spec fd) osv) \<Longrightarrow>
      ad_id adv = os_id osv \<and> (covered fd version adv \<longleftrightarrow> record_covers fd version key osv)"
    and "record_covers fd version key osv \<Longrightarrow>
      \<exists>adv. (key, adv) \<in> set (advisories_from (fd_spec fd) osv)"
proof -
  let ?es = "entries_of (fd_spec fd) osv"
  have none: "distinct (map fst ([] :: (string \<times> 'a advisory) list))" by simp
  note f = fold_merge_entry [OF none, of "fd_cmp fd" ?es, folded advisories_from_entries]
  show "\<exists>adv. (key, adv) \<in> set (advisories_from (fd_spec fd) osv)" if c: "record_covers fd version key osv"
  proof -
    have "key \<in> fst ` set ?es" using c unfolding entries_of_covers [OF ord] by force
    then have "key \<in> fst ` set (advisories_from (fd_spec fd) osv)" using f by simp
    then show ?thesis by force
  qed
  assume mem: "(key, adv) \<in> set (advisories_from (fd_spec fd) osv)"
  then have get: "map_of (advisories_from (fd_spec fd) osv) key = Some adv" using f by simp
  then have ranges: "ad_ranges adv = concat (map (\<lambda>e. ad_ranges (snd e)) (filter (\<lambda>e. fst e = key) ?es))"
    using f by simp
  have "map_of (fold (merge_entry (fd_cmp fd)) ?es []) key = Some adv"
    using get by (simp add: advisories_from_entries)
  note lst = rust_ord.fold_merge_listed [OF ord entries_of_sorted [OF ord] _ this, of version, simplified]
  have "(\<exists>r \<in> set (ad_ranges adv). pr_matchable r \<and> range_flag (fd_cmp fd) (fd_at_or_after fd) version r) \<longleftrightarrow>
      (\<exists>e \<in> set ?es. fst e = key \<and>
        (\<exists>r \<in> set (ad_ranges (snd e)). pr_matchable r \<and> range_flag (fd_cmp fd) (fd_at_or_after fd) version r))"
    unfolding ranges by (force simp: set_concat)
  then have "advisory_covers fd version adv \<longleftrightarrow> (\<exists>e \<in> set ?es. fst e = key \<and> advisory_covers fd version (snd e))"
    using lst unfolding advisory_covers_def by blast
  then show "ad_id adv = os_id osv \<and> (covered fd version adv \<longleftrightarrow> record_covers fd version key osv)"
    using lst by (simp add: covered_iff [OF ord] entries_of_covers [OF ord])
qed

lemma contributions_covers:
  assumes ord: "rust_ord (fd_cmp fd)"
  shows "(\<exists>adv \<in> set (contributions (fd_spec fd) key records). ad_id adv = ident \<and> covered fd version adv) \<longleftrightarrow>
    (\<exists>osv \<in> set records. os_id osv = ident \<and> record_covers fd version key osv)"
proof -
  have mem: "adv \<in> set (contributions (fd_spec fd) key records) \<longleftrightarrow>
      (\<exists>osv \<in> set records. (key, adv) \<in> set (advisories_from (fd_spec fd) osv))" for adv
    by (force simp: contributions_def)
  show ?thesis
    using advisories_from_covers [OF ord] unfolding Bex_def mem by metis
qed

lemma load_contributions:
  assumes "load spec (map Inr records) = Inr db"
  shows "advisories_for key db = contributions spec key records"
proof -
  have none: "unless_skipped spec [] = advisories_from spec" by (intro ext) (simp add: unless_skipped_def bs_mem_def)
  note [simp] = collect_results_Inr [THEN iffD2, OF refl]
  have "db = merge_files (map (advisories_from spec) records)"
    using assms by (auto simp: load_def load_skipping_def none)
  then show ?thesis by (simp add: merge_files_group advisories_for_group contributions_def)
qed

text \<open>
  The promise of a scan against the records it was loaded from, as one predicate: which finding
  names which package for which record, and how many packages were passed over.
\<close>

definition scan_exact ::
  "('v, 's) feeder \<Rightarrow> osv_record list \<Rightarrow> installed list \<Rightarrow> ('s, 'r) tier_c_scan \<Rightarrow> bool" where
  "scan_exact fd records installed scan \<longleftrightarrow>
     ts_skipped scan = length (filter (\<lambda>p. fd_parse_installed fd (ip_version p) = None) installed) \<and>
     (\<forall>pkg \<in> set installed. \<forall>osv \<in> set records. \<forall>version.
        fd_parse_installed fd (ip_version pkg) = Some version \<longrightarrow>
        record_covers fd version (fd_key fd (ip_name pkg)) osv \<longrightarrow>
        (\<exists>g \<in> set (ts_findings scan). os_id osv \<in> set (all_ids g) \<and>
           occ_key g = (ip_name pkg, Some (fd_semver fd version)))) \<and>
     (\<forall>g \<in> set (ts_findings scan). \<exists>pkg \<in> set installed. \<exists>osv \<in> set records. \<exists>version.
        fd_parse_installed fd (ip_version pkg) = Some version \<and>
        record_covers fd version (fd_key fd (ip_name pkg)) osv \<and>
        vf_id g = os_id osv \<and> occ_key g = (ip_name pkg, Some (fd_semver fd version)))"

text \<open>The contract of a crate: its version order is lawful.\<close>

locale lawful_feeder =
  fixes fd :: "('v, 's) feeder"
  assumes ord: "rust_ord (fd_cmp fd)"
begin

lemma scan_of_loaded:
  assumes v: "rust_total_ord (sv_cmp lib)" and g: "cache_ok graph"
  shows "\<exists>db scan. load (fd_spec fd) (map Inr records :: ('e + osv_record) list) = Inr db \<and>
    scan_installed lib fd db repo installed graph = Some scan \<and> scan_exact fd records installed scan"
proof -
  obtain db where db: "load (fd_spec fd) (map Inr records :: ('e + osv_record) list) = Inr db"
    by (simp add: load_def load_skipping_def collect_results_Inr [THEN iffD2, OF refl])
  note at = load_contributions [OF db]
  obtain scan where run: "scan_installed lib fd db repo installed graph = Some scan"
    and skipped: "ts_skipped scan = length (filter (\<lambda>p. fd_parse_installed fd (ip_version p) = None) installed)"
    and complete: "\<And>pkg version adv. hit fd db installed pkg version adv \<Longrightarrow>
      \<exists>g \<in> set (ts_findings scan). ad_id adv \<in> set (all_ids g) \<and>
        occ_key g = (ip_name pkg, Some (fd_semver fd version))"
    and sound: "\<And>g. g \<in> set (ts_findings scan) \<Longrightarrow>
      \<exists>pkg version adv. hit fd db installed pkg version adv \<and> vf_id g = ad_id adv \<and>
        occ_key g = (ip_name pkg, Some (fd_semver fd version))"
    by (rule scan_installed_hits [OF v g, of fd db repo installed]) (rule that, assumption+)
  have "scan_exact fd records installed scan"
    unfolding scan_exact_def
  proof (intro conjI ballI allI impI skipped)
    fix pkg osv version
    assume a: "pkg \<in> set installed" "osv \<in> set records" "fd_parse_installed fd (ip_version pkg) = Some version"
      "record_covers fd version (fd_key fd (ip_name pkg)) osv"
    then obtain adv where "adv \<in> set (contributions (fd_spec fd) (fd_key fd (ip_name pkg)) records)"
      "ad_id adv = os_id osv" "covered fd version adv"
      using contributions_covers [OF ord, of "fd_key fd (ip_name pkg)" records "os_id osv" version] by blast
    then show "\<exists>g \<in> set (ts_findings scan). os_id osv \<in> set (all_ids g) \<and>
        occ_key g = (ip_name pkg, Some (fd_semver fd version))"
      using complete [of pkg version adv] a(1,3) by (simp add: hit_def at)
  next
    fix g
    assume "g \<in> set (ts_findings scan)"
    then obtain pkg version adv where h: "hit fd db installed pkg version adv" "vf_id g = ad_id adv"
      "occ_key g = (ip_name pkg, Some (fd_semver fd version))" using sound by blast
    then obtain osv where "osv \<in> set records" "os_id osv = ad_id adv"
      "record_covers fd version (fd_key fd (ip_name pkg)) osv"
      using contributions_covers [OF ord, of "fd_key fd (ip_name pkg)" records "ad_id adv" version]
      by (auto simp: hit_def at)
    then show "\<exists>pkg \<in> set installed. \<exists>osv \<in> set records. \<exists>version.
        fd_parse_installed fd (ip_version pkg) = Some version \<and>
        record_covers fd version (fd_key fd (ip_name pkg)) osv \<and>
        vf_id g = os_id osv \<and> occ_key g = (ip_name pkg, Some (fd_semver fd version))"
      using h by (intro bexI [of _ pkg] bexI [of _ osv] exI [of _ version]) (simp_all add: hit_def)
  qed
  then show ?thesis using db run by blast
qed

end

end
