(* ===== verification/Maven_Version.thy ===== *)
theory Maven_Version
  imports Version_Text
begin

text \<open>
  Maven versions (\<^verbatim>\<open>src/crates/maven/src/version.rs\<close>): the tokenizer that builds nested item lists with
  a bound on their depth, the removal of trailing null items, and the comparison of
  \<^verbatim>\<open>ComparableVersion\<close>.  The comparison is antisymmetric but, like the Java class it ports, not
  transitive.  The current run of characters is kept as text instead of the start index.
\<close>

section \<open>Items\<close>

datatype maven_item = IInt string | IStr string | IList "maven_item list"

record maven_version =
  mv_raw :: string
  mv_items :: "maven_item list"

definition maven_qualifiers :: "string list" where
  "maven_qualifiers = [''alpha'', ''beta'', ''milestone'', ''rc'', ''snapshot'', '''', ''sp'']"

definition release_index :: string where
  "release_index = ''5''"

definition max_parse_depth :: nat where
  "max_parse_depth = 256"

definition int_item :: "string \<Rightarrow> maven_item" where
  "int_item s = (let stripped = dropWhile (\<lambda>c. c = CHR ''0'') s in IInt (if stripped = [] then ''0'' else stripped))"

definition string_item :: "string \<Rightarrow> bool \<Rightarrow> maven_item" where
  "string_item value followed_by_digit =
     (let v = (if followed_by_digit \<and> length value = 1
               then (if value = ''a'' then ''alpha'' else if value = ''b'' then ''beta''
                     else if value = ''m'' then ''milestone'' else value)
               else value)
      in IStr (if v = ''ga'' \<or> v = ''final'' \<or> v = ''release'' then [] else if v = ''cr'' then ''rc'' else v))"

section \<open>Comparison\<close>

definition comparable_qualifier :: "string \<Rightarrow> string" where
  "comparable_qualifier q =
     (case List.find (\<lambda>i. maven_qualifiers ! i = q) [0..<length maven_qualifiers] of
        Some i \<Rightarrow> show_nat i
      | None \<Rightarrow> show_nat (length maven_qualifiers) @ ''-'' @ q)"

definition cmp_int :: "string cmp" where
  "cmp_int a b = then_with (ord_cmp (length a) (length b)) (str_cmp a b)"

text \<open>An item against null, the padding of the shorter list.\<close>

fun cmp_null :: "maven_item \<Rightarrow> ordering" and cmp_nulls :: "maven_item list \<Rightarrow> ordering" where
  "cmp_null (IInt a) = (if a = ''0'' then Equal else Greater)"
| "cmp_null (IStr a) = str_cmp (comparable_qualifier a) release_index"
| "cmp_null (IList xs) = cmp_nulls xs"
| "cmp_nulls [] = Equal"
| "cmp_nulls (x # xs) = then_with (cmp_null x) (cmp_nulls xs)"

fun cmp_item :: "maven_item cmp" and cmp_lists :: "maven_item list cmp" where
  "cmp_item (IInt a) (IInt b) = cmp_int a b"
| "cmp_item (IInt a) _ = Greater"
| "cmp_item (IStr a) (IStr b) = str_cmp (comparable_qualifier a) (comparable_qualifier b)"
| "cmp_item (IStr a) _ = Less"
| "cmp_item (IList xs) (IInt b) = Less"
| "cmp_item (IList xs) (IStr b) = Greater"
| "cmp_item (IList xs) (IList ys) = cmp_lists xs ys"
| "cmp_lists [] [] = Equal"
| "cmp_lists [] (y # ys) = then_with (rev_ord (cmp_null y)) (cmp_lists [] ys)"
| "cmp_lists (x # xs) [] = then_with (cmp_null x) (cmp_lists xs [])"
| "cmp_lists (x # xs) (y # ys) = then_with (cmp_item x y) (cmp_lists xs ys)"

definition maven_cmp :: "maven_version cmp" where
  "maven_cmp v w = cmp_lists (mv_items v) (mv_items w)"

definition maven_eq :: "maven_version \<Rightarrow> maven_version \<Rightarrow> bool" where
  "maven_eq v w \<longleftrightarrow> cmp_lists (mv_items v) (mv_items w) = Equal"

section \<open>Parsing\<close>

text \<open>The list from its end: a null item is removed, a list is passed over, anything else stops.\<close>

fun normalize_rev :: "maven_item list \<Rightarrow> maven_item list" where
  "normalize_rev [] = []"
| "normalize_rev (x # xs) =
     (if cmp_null x = Equal then normalize_rev xs
      else (case x of IList _ \<Rightarrow> x # normalize_rev xs | _ \<Rightarrow> x # xs))"

definition normalize :: "maven_item list \<Rightarrow> maven_item list" where
  "normalize xs = rev (normalize_rev (rev xs))"

record parse_state =
  ps_current :: "maven_item list"
  ps_stack :: "maven_item list list"
  ps_digit :: bool
  ps_run :: string

definition open_list :: "parse_state \<Rightarrow> parse_state" where
  "open_list st =
     (if length (ps_stack st) < max_parse_depth
      then st\<lparr>ps_current := [], ps_stack := ps_current st # ps_stack st\<rparr>
      else st)"

definition push_item :: "maven_item \<Rightarrow> parse_state \<Rightarrow> parse_state" where
  "push_item x st = st\<lparr>ps_current := ps_current st @ [x]\<rparr>"

definition separated :: "bool \<Rightarrow> string \<Rightarrow> maven_item" where
  "separated is_digit run =
     (if run = [] then IInt ''0'' else if is_digit then int_item run else string_item run False)"

definition open_unless_empty :: "parse_state \<Rightarrow> parse_state" where
  "open_unless_empty st = (if ps_current st \<noteq> [] then open_list st else st)"

definition parse_char :: "char \<Rightarrow> parse_state \<Rightarrow> parse_state" where
  "parse_char c st =
     (if c = CHR ''.'' then (push_item (separated (ps_digit st) (ps_run st)) st)\<lparr>ps_run := []\<rparr>
      else if c = CHR ''-'' then open_list ((push_item (separated (ps_digit st) (ps_run st)) st)\<lparr>ps_run := []\<rparr>)
      else if is_ascii_digit c then
        (let st = (if \<not> ps_digit st \<and> ps_run st \<noteq> []
                   then open_list ((push_item (string_item (ps_run st) True) (open_unless_empty st))\<lparr>ps_run := []\<rparr>)
                   else st)
         in st\<lparr>ps_digit := True, ps_run := ps_run st @ [c]\<rparr>)
      else
        (let st = (if ps_digit st \<and> ps_run st \<noteq> []
                   then open_list ((push_item (int_item (ps_run st)) st)\<lparr>ps_run := []\<rparr>)
                   else st)
         in st\<lparr>ps_digit := False, ps_run := ps_run st @ [c]\<rparr>))"

definition parse_rest :: "parse_state \<Rightarrow> parse_state" where
  "parse_rest st =
     (if ps_run st = [] then st
      else (let st = (if \<not> ps_digit st then open_unless_empty st else st)
            in push_item (if ps_digit st then int_item (ps_run st) else string_item (ps_run st) False) st))"

fun assemble_lists :: "maven_item list \<Rightarrow> maven_item list list \<Rightarrow> maven_item list" where
  "assemble_lists current [] = current"
| "assemble_lists current (parent # stack) = assemble_lists (normalize (parent @ [IList current])) stack"

definition parse_start :: parse_state where
  "parse_start = \<lparr>ps_current = [], ps_stack = [], ps_digit = False, ps_run = []\<rparr>"

definition parse_items :: "string \<Rightarrow> maven_item list" where
  "parse_items version =
     (let st = parse_rest (fold parse_char (to_ascii_lowercase version) parse_start)
      in assemble_lists (normalize (ps_current st)) (ps_stack st))"

definition parse_maven_version :: "string \<Rightarrow> maven_version option" where
  "parse_maven_version raw = Some \<lparr>mv_raw = trim raw, mv_items = parse_items (trim raw)\<rparr>"

section \<open>The displayed form\<close>

text \<open>The tokens of the text: numbers while there are only numbers, then sanitized words.\<close>

fun semver_tokens :: "string list \<Rightarrow> nat list \<times> string list" where
  "semver_tokens [] = ([], [])"
| "semver_tokens (tok # toks) =
     (case parse_u64 tok of
        Some n \<Rightarrow> (case semver_tokens toks of (ns, tail) \<Rightarrow> (n # ns, tail))
      | None \<Rightarrow> ([], filter (\<lambda>s. s \<noteq> []) (map sanitize (tok # toks))))"

definition maven_to_semver :: "('v, 'r) semver_lib \<Rightarrow> maven_version \<Rightarrow> 'v" where
  "maven_to_semver lib v =
     (case sv_parse lib (mv_raw v) of
        Some sv \<Rightarrow> sv
      | None \<Rightarrow>
          (case semver_tokens (split_on (\<lambda>c. c \<in> set ''.-_+'') (mv_raw v)) of
             (nums, words) \<Rightarrow>
               (let sv = sv_new lib (nth_or0 nums 0) (nth_or0 nums 1) (nth_or0 nums 2);
                    tail = rev (map show_nat (drop 3 nums)) @ words
                in if tail = [] then sv else set_pre lib (join_with ''.'' tail) sv)))"

lemma maven_examples:
  "map (\<lambda>(a, b). cmp_lists (parse_items a) (parse_items b))
     [(''1'', ''1.0.0''), (''1.0-alpha-1'', ''1.0''), (''1.0'', ''1.0-sp''), (''3.0.0.RELEASE'', ''3.0.0''),
      (''1.0a1'', ''1.0-alpha-1''), (''1.0.1'', ''1.0-rc''), (''2646.v6ed3b5b01ff1'', ''2656.vf7a'')] =
   [Equal, Less, Less, Equal, Equal, Greater, Less]"
  by code_simp

section \<open>The order\<close>

lemma cmp_int_sym: "cmp_int y x = rev_ord (cmp_int x y)"
  by (simp add: cmp_int_def str.cmp_sym [of x y] prim.cmp_sym [of "length x" "length y"])

lemma cmp_item_sym: "cmp_item y x = rev_ord (cmp_item x y)"
  and cmp_lists_sym: "cmp_lists ys xs = rev_ord (cmp_lists xs ys)"
proof (induction x y and xs ys rule: cmp_item_cmp_lists.induct)
  case (1 a b)
  then show ?case by (simp add: cmp_int_sym [of b a])
next
  case (3 a b)
  then show ?case by (simp add: str.cmp_sym [of "comparable_qualifier a" "comparable_qualifier b"])
qed simp_all

lemma cmp_item_refl [simp]: "cmp_item x x = Equal" and cmp_lists_refl [simp]: "cmp_lists xs xs = Equal"
proof -
  have self: "r = rev_ord r \<Longrightarrow> r = Equal" for r by (cases r) simp_all
  show "cmp_item x x = Equal" by (rule self) (rule cmp_item_sym)
  show "cmp_lists xs xs = Equal" by (rule self) (rule cmp_lists_sym)
qed

text \<open>
  The order is not transitive: a sub-list ranks below any number but its content may rank above the
  release, so three versions can lie in a cycle.
\<close>

lemma maven_order_cycle:
  "cmp_lists (parse_items ''1'') (parse_items ''1-sp'') = Less \<and>
   cmp_lists (parse_items ''1-sp'') (parse_items ''1.0.alpha.1'') = Less \<and>
   cmp_lists (parse_items ''1.0.alpha.1'') (parse_items ''1'') = Less"
  by (intro conjI; code_simp)

section \<open>Depth\<close>

text \<open>How deep lists nest: what the recursion of the comparison costs.\<close>

fun item_depth :: "maven_item \<Rightarrow> nat" where
  "item_depth (IInt a) = 0"
| "item_depth (IStr a) = 0"
| "item_depth (IList xs) = Suc (fold max (map item_depth xs) 0)"

definition items_depth :: "maven_item list \<Rightarrow> nat" where
  "items_depth xs = fold max (map item_depth xs) 0"

lemma fold_max_le: "fold max ns (m :: nat) \<le> d \<longleftrightarrow> m \<le> d \<and> (\<forall>n \<in> set ns. n \<le> d)"
  by (induction ns arbitrary: m) auto

lemma items_depth_le: "items_depth xs \<le> d \<longleftrightarrow> (\<forall>x \<in> set xs. item_depth x \<le> d)"
  by (auto simp: items_depth_def fold_max_le)

lemma set_normalize_rev: "set (normalize_rev xs) \<subseteq> set xs"
  by (induction xs) (auto split: maven_item.splits if_splits)

lemma normalize_depth: "items_depth xs \<le> d \<Longrightarrow> items_depth (normalize xs) \<le> d"
  using set_normalize_rev [of "rev xs"] by (auto simp: items_depth_le normalize_def)

definition flat :: "maven_item list \<Rightarrow> bool" where
  "flat xs \<longleftrightarrow> (\<forall>x \<in> set xs. item_depth x = 0)"

lemma flat_snoc [simp]: "flat (xs @ [x]) \<longleftrightarrow> flat xs \<and> item_depth x = 0" "flat []"
  by (auto simp: flat_def)

lemma leaf_items [simp]:
  "item_depth (int_item s) = 0" "item_depth (string_item s b) = 0" "item_depth (separated b s) = 0"
  by (simp_all add: int_item_def string_item_def separated_def Let_def)

text \<open>While the text is read every list is flat and at most 256 are open.\<close>

definition parse_inv :: "parse_state \<Rightarrow> bool" where
  "parse_inv st \<longleftrightarrow> flat (ps_current st) \<and> list_all flat (ps_stack st) \<and> length (ps_stack st) \<le> max_parse_depth"

lemma parse_inv_ops [simp]:
  "parse_inv st \<Longrightarrow> parse_inv (open_list st)"
  "parse_inv st \<Longrightarrow> parse_inv (open_unless_empty st)"
  "parse_inv st \<Longrightarrow> item_depth x = 0 \<Longrightarrow> parse_inv (push_item x st)"
  "parse_inv (st\<lparr>ps_run := r\<rparr>) \<longleftrightarrow> parse_inv st"
  "parse_inv (st\<lparr>ps_digit := b\<rparr>) \<longleftrightarrow> parse_inv st"
  by (auto simp: parse_inv_def open_list_def open_unless_empty_def push_item_def)

lemma parse_inv_char: "parse_inv st \<Longrightarrow> parse_inv (parse_char c st)"
  unfolding parse_char_def Let_def by (simp split: if_split)

lemma parse_inv_fold: "parse_inv st \<Longrightarrow> parse_inv (fold parse_char cs st)"
  by (induction cs arbitrary: st) (simp_all add: parse_inv_char)

lemma parse_inv_rest: "parse_inv st \<Longrightarrow> parse_inv (parse_rest st)"
  unfolding parse_rest_def Let_def by (simp split: if_split)

lemma assemble_depth:
  "items_depth current \<le> d \<Longrightarrow> list_all flat stack \<Longrightarrow>
   items_depth (assemble_lists current stack) \<le> d + length stack"
proof (induction current stack arbitrary: d rule: assemble_lists.induct)
  case (2 current parent stack)
  have "items_depth (parent @ [IList current]) \<le> Suc d"
    using 2(2,3) by (auto simp: items_depth_le flat_def items_depth_def [symmetric])
  then have "items_depth (normalize (parent @ [IList current])) \<le> Suc d" by (rule normalize_depth)
  then have "items_depth (assemble_lists (normalize (parent @ [IList current])) stack) \<le> Suc d + length stack"
    using 2 by (intro "2.IH") simp_all
  then show ?case by simp
qed simp

text \<open>C31: whatever the text, parsing answers, and the lists it builds nest at most 256 deep, so the recursion of the
  comparison and of the removal of null items is bounded however hostile the input.\<close>

theorem maven_depth_bounded:
  "case parse_maven_version raw of None \<Rightarrow> False | Some v \<Rightarrow> items_depth (mv_items v) \<le> 256"
proof -
  let ?st = "parse_rest (fold parse_char (to_ascii_lowercase (trim raw)) parse_start)"
  have "parse_inv ?st"
    by (intro parse_inv_rest parse_inv_fold) (simp add: parse_inv_def parse_start_def)
  then have "items_depth (ps_current ?st) \<le> 0" "list_all flat (ps_stack ?st)"
    and len: "length (ps_stack ?st) \<le> 256"
    by (auto simp: parse_inv_def max_parse_depth_def flat_def items_depth_le simp del: le_zero_eq)
  from normalize_depth [OF this(1)] this(2)
  have "items_depth (parse_items (trim raw)) \<le> 0 + length (ps_stack ?st)"
    unfolding parse_items_def Let_def by (intro assemble_depth)
  then show ?thesis using len by (simp add: parse_maven_version_def)
qed

end
