(* ===== verification/Feeders.thy ===== *)
theory Feeders
  imports Feeder_Scan Gem_Version Nuget_Version Julia_Version Composer_Version Maven_Version
begin

text \<open>
  The ecosystem crates as values of \<open>feeder\<close>: the \<^verbatim>\<open>spec()\<close> of each \<^verbatim>\<open>src/crates/*/src/db.rs\<close>, the
  parsers of installed versions and range bounds, and \<^verbatim>\<open>match_advisory\<close> with \<^verbatim>\<open>scan_installed\<close> of
  each \<^verbatim>\<open>scan.rs\<close> as instances of the shared scan; for GitHub Actions also the reader of workflow
  files and for Swift the normal form of package URLs.  \<open>cvss\<close> is the CVSS parser that
  \<open>default_severity\<close> calls.
\<close>

section \<open>Julia, RubyGems, NuGet and Packagist\<close>

definition julia_spec :: "cvss_parser \<Rightarrow> julia_version osv_spec" where
  "julia_spec cvss =
     \<lparr>sc_ecosystem = ''Julia'', sc_range_type = ''SEMVER'', sc_parse = parse_julia_version,
      sc_normalize = id, sc_use_versions = True, sc_severity = default_severity cvss,
      sc_cmp = julia_compare\<rparr>"

definition rubygems_spec :: "cvss_parser \<Rightarrow> gem_version osv_spec" where
  "rubygems_spec cvss =
     \<lparr>sc_ecosystem = ''RubyGems'', sc_range_type = ''ECOSYSTEM'', sc_parse = gem_parse,
      sc_normalize = id, sc_use_versions = True, sc_severity = default_severity cvss,
      sc_cmp = gem_cmp\<rparr>"

definition nuget_spec :: "cvss_parser \<Rightarrow> nuget_version osv_spec" where
  "nuget_spec cvss =
     \<lparr>sc_ecosystem = ''NuGet'', sc_range_type = ''ECOSYSTEM'', sc_parse = parse_nuget_version,
      sc_normalize = to_ascii_lowercase, sc_use_versions = True, sc_severity = default_severity cvss,
      sc_cmp = nuget_compare\<rparr>"

definition packagist_spec :: "cvss_parser \<Rightarrow> composer_version osv_spec" where
  "packagist_spec cvss =
     \<lparr>sc_ecosystem = ''Packagist'', sc_range_type = ''ECOSYSTEM'', sc_parse = parse_composer_version,
      sc_normalize = to_ascii_lowercase, sc_use_versions = True, sc_severity = default_severity cvss,
      sc_cmp = composer_compare\<rparr>"

definition package_level :: string where
  "package_level = ''package-level scan (no toolchain): version match only''"

definition julia_feeder :: "('s, 'r) semver_lib \<Rightarrow> cvss_parser \<Rightarrow> (julia_version, 's) feeder" where
  "julia_feeder lib cvss =
     \<lparr>fd_ecosystem = Julia, fd_spec = julia_spec cvss, fd_parse_installed = parse_julia_version,
      fd_at_or_after = plain_ge julia_compare, fd_semver = julia_to_semver lib,
      fd_show = sv_show lib \<circ> julia_to_semver lib, fd_key = id, fd_scores = True, fd_dev = False,
      fd_paths = True, fd_reason = package_level\<rparr>"

definition rubygems_feeder :: "('s, 'r) semver_lib \<Rightarrow> cvss_parser \<Rightarrow> (gem_version, 's) feeder" where
  "rubygems_feeder lib cvss =
     \<lparr>fd_ecosystem = RubyGems, fd_spec = rubygems_spec cvss, fd_parse_installed = gem_parse,
      fd_at_or_after = plain_ge gem_cmp, fd_semver = gem_to_semver lib,
      fd_show = sv_show lib \<circ> gem_to_semver lib, fd_key = id, fd_scores = True, fd_dev = False,
      fd_paths = True, fd_reason = package_level\<rparr>"

definition nuget_feeder :: "('s, 'r) semver_lib \<Rightarrow> cvss_parser \<Rightarrow> (nuget_version, 's) feeder" where
  "nuget_feeder lib cvss =
     \<lparr>fd_ecosystem = NuGet, fd_spec = nuget_spec cvss, fd_parse_installed = parse_nuget_version,
      fd_at_or_after = plain_ge nuget_compare, fd_semver = nuget_to_semver lib,
      fd_show = sv_show lib \<circ> nuget_to_semver lib, fd_key = to_ascii_lowercase, fd_scores = True,
      fd_dev = False, fd_paths = True, fd_reason = package_level\<rparr>"

text \<open>Composer's lower bound is the only one that is not the order's own.\<close>

definition packagist_feeder :: "('s, 'r) semver_lib \<Rightarrow> cvss_parser \<Rightarrow> (composer_version, 's) feeder" where
  "packagist_feeder lib cvss =
     \<lparr>fd_ecosystem = Packagist, fd_spec = packagist_spec cvss,
      fd_parse_installed = parse_composer_version, fd_at_or_after = at_or_after_introduced,
      fd_semver = composer_to_semver lib, fd_show = sv_show lib \<circ> composer_to_semver lib,
      fd_key = to_ascii_lowercase, fd_scores = True, fd_dev = True, fd_paths = True,
      fd_reason = package_level\<rparr>"

definition julia_match_advisory where
  "julia_match_advisory lib cvss = match_advisory lib (julia_feeder lib cvss)"

definition julia_scan_installed where
  "julia_scan_installed lib cvss = scan_installed lib (julia_feeder lib cvss)"

definition rubygems_match_advisory where
  "rubygems_match_advisory lib cvss = match_advisory lib (rubygems_feeder lib cvss)"

definition rubygems_scan_installed where
  "rubygems_scan_installed lib cvss = scan_installed lib (rubygems_feeder lib cvss)"

definition nuget_match_advisory where
  "nuget_match_advisory lib cvss = match_advisory lib (nuget_feeder lib cvss)"

definition nuget_scan_installed where
  "nuget_scan_installed lib cvss = scan_installed lib (nuget_feeder lib cvss)"

definition packagist_match_advisory where
  "packagist_match_advisory lib cvss = match_advisory lib (packagist_feeder lib cvss)"

definition packagist_scan_installed where
  "packagist_scan_installed lib cvss = scan_installed lib (packagist_feeder lib cvss)"

section \<open>The ecosystems on SemVer: Hex, Swift and npm\<close>

text \<open>\<^verbatim>\<open>raw.strip_prefix('v').unwrap_or(raw)\<close> and the bound \<^verbatim>\<open>"0"\<close>.\<close>

definition without_v :: "string \<Rightarrow> string" where
  "without_v raw = (case strip_prefix ''v'' raw of None \<Rightarrow> raw | Some rest \<Rightarrow> rest)"

definition parse_bound :: "('s, 'r) semver_lib \<Rightarrow> string \<Rightarrow> 's option" where
  "parse_bound lib raw = (if raw = ''0'' then Some (sv_new lib 0 0 0) else sv_parse lib (without_v raw))"

definition parse_hex_version :: "('s, 'r) semver_lib \<Rightarrow> string \<Rightarrow> 's option" where
  "parse_hex_version lib raw = sv_parse lib (without_v (trim raw))"

definition parse_swift_version :: "('s, 'r) semver_lib \<Rightarrow> string \<Rightarrow> 's option" where
  "parse_swift_version lib raw = sv_parse lib (without_v (trim raw))"

definition parse_npm_version :: "('s, 'r) semver_lib \<Rightarrow> string \<Rightarrow> 's option" where
  "parse_npm_version lib raw = sv_parse lib (without_v raw)"

text \<open>The normal form of a Swift package's URL.\<close>

fun strip_scheme :: "string list \<Rightarrow> string \<Rightarrow> string" where
  "strip_scheme [] s = s"
| "strip_scheme (scheme # schemes) s =
     (case strip_prefix scheme s of Some rest \<Rightarrow> rest | None \<Rightarrow> strip_scheme schemes s)"

definition replace_first :: "char \<Rightarrow> char \<Rightarrow> string \<Rightarrow> string" where
  "replace_first c d s = (case split_once c s of None \<Rightarrow> s | Some (a, b) \<Rightarrow> a @ [d] @ b)"

definition normalize_package_url :: "string \<Rightarrow> string" where
  "normalize_package_url url =
     (let s = strip_scheme [''https://'', ''http://'', ''git://'', ''ssh://''] (trim url);
          s = (case strip_prefix ''git@'' s of None \<Rightarrow> s | Some rest \<Rightarrow> rest);
          replaced = replace_first (CHR '':'') (CHR ''/'') s;
          cut = (case strip_suffix ''.git'' replaced of None \<Rightarrow> replaced | Some rest \<Rightarrow> rest)
      in to_ascii_lowercase (drop_last_while (\<lambda>c. c = CHR ''/'') cut))"

definition hex_spec :: "('s, 'r) semver_lib \<Rightarrow> cvss_parser \<Rightarrow> 's osv_spec" where
  "hex_spec lib cvss =
     \<lparr>sc_ecosystem = ''Hex'', sc_range_type = ''SEMVER'', sc_parse = parse_bound lib,
      sc_normalize = id, sc_use_versions = True, sc_severity = default_severity cvss,
      sc_cmp = sv_cmp lib\<rparr>"

definition swift_spec :: "('s, 'r) semver_lib \<Rightarrow> cvss_parser \<Rightarrow> 's osv_spec" where
  "swift_spec lib cvss =
     \<lparr>sc_ecosystem = ''SwiftURL'', sc_range_type = ''SEMVER'', sc_parse = parse_bound lib,
      sc_normalize = normalize_package_url, sc_use_versions = True,
      sc_severity = default_severity cvss, sc_cmp = sv_cmp lib\<rparr>"

text \<open>npm reads the curated band only.\<close>

definition severity_from_osv :: "osv_record \<Rightarrow> severity" where
  "severity_from_osv osv =
     (case map_option to_ascii_uppercase (Option.bind (os_database_specific osv) db_severity) of
        None \<Rightarrow> Unknown
      | Some l \<Rightarrow> if l = ''LOW'' then Low
                  else if l = ''MODERATE'' \<or> l = ''MEDIUM'' then Medium
                  else if l = ''HIGH'' then High
                  else if l = ''CRITICAL'' then Critical else Unknown)"

definition npm_severity :: "osv_record \<Rightarrow> severity \<times> score option" where
  "npm_severity osv = (severity_from_osv osv, None)"

definition npm_spec :: "('s, 'r) semver_lib \<Rightarrow> 's osv_spec" where
  "npm_spec lib =
     \<lparr>sc_ecosystem = ''npm'', sc_range_type = ''SEMVER'', sc_parse = parse_bound lib,
      sc_normalize = id, sc_use_versions = False, sc_severity = npm_severity, sc_cmp = sv_cmp lib\<rparr>"

definition hex_feeder :: "('s, 'r) semver_lib \<Rightarrow> cvss_parser \<Rightarrow> ('s, 's) feeder" where
  "hex_feeder lib cvss =
     \<lparr>fd_ecosystem = Hex, fd_spec = hex_spec lib cvss, fd_parse_installed = parse_hex_version lib,
      fd_at_or_after = plain_ge (sv_cmp lib), fd_semver = id, fd_show = sv_show lib, fd_key = id,
      fd_scores = True, fd_dev = False, fd_paths = True, fd_reason = package_level\<rparr>"

definition swift_feeder :: "('s, 'r) semver_lib \<Rightarrow> cvss_parser \<Rightarrow> ('s, 's) feeder" where
  "swift_feeder lib cvss =
     \<lparr>fd_ecosystem = Swift, fd_spec = swift_spec lib cvss, fd_parse_installed = parse_swift_version lib,
      fd_at_or_after = plain_ge (sv_cmp lib), fd_semver = id, fd_show = sv_show lib, fd_key = id,
      fd_scores = True, fd_dev = False, fd_paths = False, fd_reason = package_level\<rparr>"

definition npm_feeder :: "('s, 'r) semver_lib \<Rightarrow> ('s, 's) feeder" where
  "npm_feeder lib =
     \<lparr>fd_ecosystem = Npm, fd_spec = npm_spec lib, fd_parse_installed = parse_npm_version lib,
      fd_at_or_after = plain_ge (sv_cmp lib), fd_semver = id, fd_show = sv_show lib, fd_key = id,
      fd_scores = False, fd_dev = True, fd_paths = True, fd_reason = package_level\<rparr>"

definition hex_match_advisory where
  "hex_match_advisory lib cvss = match_advisory lib (hex_feeder lib cvss)"

definition hex_scan_installed where
  "hex_scan_installed lib cvss = scan_installed lib (hex_feeder lib cvss)"

definition swift_match_advisory where
  "swift_match_advisory lib cvss = match_advisory lib (swift_feeder lib cvss)"

definition swift_scan_installed where
  "swift_scan_installed lib cvss = scan_installed lib (swift_feeder lib cvss)"

definition npm_match_advisory where
  "npm_match_advisory lib = match_advisory lib (npm_feeder lib)"

definition npm_scan_installed where
  "npm_scan_installed lib = scan_installed lib (npm_feeder lib)"

section \<open>GitHub Actions\<close>

record used_action =
  ua_name :: string
  ua_ref :: string

definition is_quote :: "char \<Rightarrow> bool" where
  "is_quote c \<longleftrightarrow> c = CHR 0x22 \<or> c = CHR 0x27"

definition uses_value :: "string \<Rightarrow> string option" where
  "uses_value line =
     (case split_once_str ''uses:'' line of
        None \<Rightarrow> None
      | Some (prior, rest) \<Rightarrow>
          if prior \<noteq> [] \<and> last prior \<noteq> CHR ''-'' \<and> \<not> list_ex (\<lambda>w. ends_with w prior) white_space then None
          else (case split_whitespace (dropWhile is_quote (trim rest)) of
                  [] \<Rightarrow> None
                | w # _ \<Rightarrow>
                    let token = takeWhile (\<lambda>c. c \<noteq> CHR ''#'') (drop_last_while is_quote w)
                    in if token = [] then None else Some token))"

definition used_action_of :: "string \<Rightarrow> used_action option" where
  "used_action_of line =
     (case uses_value line of
        None \<Rightarrow> None
      | Some value \<Rightarrow>
          if starts_with ''./'' value \<or> starts_with ''../'' value \<or> starts_with ''docker://'' value then None
          else (case split_once (CHR ''@'') value of
                  None \<Rightarrow> None
                | Some (name, ref) \<Rightarrow>
                    if name = [] \<or> ref = [] \<or> CHR ''/'' \<notin> set name then None
                    else Some \<lparr>ua_name = to_ascii_lowercase name, ua_ref = ref\<rparr>))"

definition used_action_cmp :: "used_action cmp" where
  "used_action_cmp = cmp_then (cmp_on ua_name str_cmp) (cmp_on ua_ref str_cmp)"

definition used_actions :: "string \<Rightarrow> used_action list" where
  "used_actions text = sort_dedup used_action_cmp (List.map_filter used_action_of (text_lines text))"

definition parse_gha_version :: "('s, 'r) semver_lib \<Rightarrow> string \<Rightarrow> 's option" where
  "parse_gha_version lib raw =
     (let s = trim raw;
          s = (case s of c # cs \<Rightarrow> if c = CHR ''v'' \<or> c = CHR ''V'' then cs else s | [] \<Rightarrow> s);
          core = takeWhile (\<lambda>c. is_ascii_digit c \<or> c = CHR ''.'') s;
          tail = dropWhile (\<lambda>c. is_ascii_digit c \<or> c = CHR ''.'') s
      in case traverse (\<lambda>part. if part = [] then None else parse_u64 part) (split_at (CHR ''.'') core) of
           None \<Rightarrow> None
         | Some nums \<Rightarrow>
             if nums = [] \<or> 3 < length nums then None
             else sv_parse lib (join_with ''.'' (map show_nat (nums @ replicate (3 - length nums) 0)) @ tail))"

definition gha_spec :: "('s, 'r) semver_lib \<Rightarrow> cvss_parser \<Rightarrow> 's osv_spec" where
  "gha_spec lib cvss =
     \<lparr>sc_ecosystem = ''GitHub Actions'', sc_range_type = ''ECOSYSTEM'', sc_parse = parse_gha_version lib,
      sc_normalize = to_ascii_lowercase, sc_use_versions = True, sc_severity = default_severity cvss,
      sc_cmp = sv_cmp lib\<rparr>"

definition gha_feeder :: "('s, 'r) semver_lib \<Rightarrow> cvss_parser \<Rightarrow> ('s, 's) feeder" where
  "gha_feeder lib cvss =
     \<lparr>fd_ecosystem = GitHubActions, fd_spec = gha_spec lib cvss, fd_parse_installed = parse_gha_version lib,
      fd_at_or_after = plain_ge (sv_cmp lib), fd_semver = id, fd_show = sv_show lib,
      fd_key = to_ascii_lowercase, fd_scores = True, fd_dev = False, fd_paths = False,
      fd_reason = ''workflow scan (no toolchain): action version match only''\<rparr>"

definition gha_match_advisory where
  "gha_match_advisory lib cvss = match_advisory lib (gha_feeder lib cvss)"

text \<open>A workflow references an action directly; the files' texts are in the order they are walked.\<close>

definition gha_scan :: "('s, 'r) semver_lib \<Rightarrow> cvss_parser \<Rightarrow> 's osv_db \<Rightarrow> repo_id \<Rightarrow> string list
    \<Rightarrow> ('s, 'r) tier_c_scan option" where
  "gha_scan lib cvss db repo texts =
     scan_installed lib (gha_feeder lib cvss) db repo
       (map (\<lambda>a. \<lparr>ip_name = ua_name a, ip_version = ua_ref a, ip_direct = True, ip_dev = False\<rparr>)
         (sort_dedup used_action_cmp (concat (map used_actions texts))))
       (graph_new [])"

section \<open>Maven\<close>

definition maven_spec :: "cvss_parser \<Rightarrow> maven_version osv_spec" where
  "maven_spec cvss =
     \<lparr>sc_ecosystem = ''Maven'', sc_range_type = ''ECOSYSTEM'', sc_parse = parse_maven_version,
      sc_normalize = id, sc_use_versions = True, sc_severity = default_severity cvss,
      sc_cmp = maven_cmp\<rparr>"

text \<open>A resolved tree carries scopes and chains, a manifest neither.\<close>

definition maven_feeder :: "bool \<Rightarrow> ('s, 'r) semver_lib \<Rightarrow> cvss_parser \<Rightarrow> (maven_version, 's) feeder" where
  "maven_feeder resolved lib cvss =
     \<lparr>fd_ecosystem = Maven, fd_spec = maven_spec cvss, fd_parse_installed = parse_maven_version,
      fd_at_or_after = plain_ge maven_cmp, fd_semver = maven_to_semver lib,
      fd_show = sv_show lib \<circ> maven_to_semver lib, fd_key = id, fd_scores = True, fd_dev = resolved,
      fd_paths = resolved, fd_reason = package_level\<rparr>"

definition maven_match_advisory where
  "maven_match_advisory resolved lib cvss = match_advisory lib (maven_feeder resolved lib cvss)"

definition maven_scan_manifest where
  "maven_scan_manifest lib cvss = scan_installed lib (maven_feeder False lib cvss)"

definition maven_scan_resolution where
  "maven_scan_resolution lib cvss = scan_installed lib (maven_feeder True lib cvss)"

section \<open>What the scans promise\<close>

interpretation julia_fd: lawful_feeder "julia_feeder lib cvss" for lib cvss
  by (rule lawful_feeder.intro) (simp add: julia_feeder_def julia_spec_def julia.rust_ord_axioms)

interpretation rubygems_fd: lawful_feeder "rubygems_feeder lib cvss" for lib cvss
  by (rule lawful_feeder.intro) (simp add: rubygems_feeder_def rubygems_spec_def gem.rust_ord_axioms)

interpretation nuget_fd: lawful_feeder "nuget_feeder lib cvss" for lib cvss
  by (rule lawful_feeder.intro) (simp add: nuget_feeder_def nuget_spec_def nuget.rust_ord_axioms)

lemma semver_feeders:
  assumes "rust_total_ord (sv_cmp lib)"
  shows "lawful_feeder (hex_feeder lib cvss)" "lawful_feeder (swift_feeder lib cvss)"
    "lawful_feeder (npm_feeder lib)" "lawful_feeder (gha_feeder lib cvss)"
  using rust_total_ord_ord [OF assms]
  by (simp_all add: lawful_feeder_def hex_feeder_def hex_spec_def swift_feeder_def swift_spec_def
      npm_feeder_def npm_spec_def gha_feeder_def gha_spec_def)

text \<open>A crate's scan of packages against the records it loaded is exact.\<close>

definition scan_promise ::
  "('s, 'r) semver_lib \<Rightarrow> ('v, 's) feeder \<Rightarrow> osv_record list \<Rightarrow> repo_id \<Rightarrow> installed list \<Rightarrow> dep_graph \<Rightarrow> bool" where
  "scan_promise lib fd records repo installed graph \<longleftrightarrow>
     (case load (fd_spec fd) (map Inr records :: (string + osv_record) list) of
        Inl _ \<Rightarrow> False
      | Inr db \<Rightarrow>
          (case scan_installed lib fd db repo installed graph of
             None \<Rightarrow> False
           | Some scan \<Rightarrow> scan_exact fd records installed scan))"

lemma scan_promise:
  assumes "lawful_feeder fd" and "rust_total_ord (sv_cmp lib)" and "cache_ok graph"
  shows "scan_promise lib fd records repo installed graph"
  using lawful_feeder.scan_of_loaded [OF assms, of records repo installed, where 'e = string]
  by (auto simp: scan_promise_def)

text \<open>C13: end to end, what a scan reports is what the records say.  For every lawful ecosystem, a scan
  against a database loaded from any records returns; every installed package that a record
  covers, by a range or by its list of versions, in any entry for the package's normalized name,
  is reported on that package and version under that record's id or with it among the aliases;
  every reported finding comes from such a record, and the packages passed over are exactly those
  whose version does not parse.\<close>

theorem scans_report_records:
  assumes v: "rust_total_ord (sv_cmp lib)" and g: "cache_ok graph"
  shows "scan_promise lib (julia_feeder lib cvss) records repo installed graph \<and>
    scan_promise lib (rubygems_feeder lib cvss) records repo installed graph \<and>
    scan_promise lib (nuget_feeder lib cvss) records repo installed graph \<and>
    scan_promise lib (hex_feeder lib cvss) records repo installed graph \<and>
    scan_promise lib (swift_feeder lib cvss) records repo installed graph \<and>
    scan_promise lib (npm_feeder lib) records repo installed graph \<and>
    scan_promise lib (gha_feeder lib cvss) records repo installed graph"
  using julia_fd.lawful_feeder_axioms rubygems_fd.lawful_feeder_axioms nuget_fd.lawful_feeder_axioms
    semver_feeders [OF v]
  by (intro conjI scan_promise v g) auto

definition sample_record :: "string \<Rightarrow> string \<Rightarrow> string \<Rightarrow> string \<Rightarrow> string \<Rightarrow> osv_record" where
  "sample_record ident eco name kind bound =
     \<lparr>os_id = ident, os_aliases = Some [''CVE-2026-1''], os_summary = None, os_withdrawn = None,
      os_affected = [\<lparr>af_package = \<lparr>pk_name = Some name, pk_ecosystem = Some eco\<rparr>,
        af_ranges = [\<lparr>rr_kind = Some kind, rr_events =
          [\<lparr>re_introduced = Some ''0'', re_fixed = None, re_last_affected = None\<rparr>,
           \<lparr>re_introduced = None, re_fixed = Some bound, re_last_affected = None\<rparr>]\<rparr>],
        af_versions = None\<rparr>],
      os_severity = [], os_database_specific = None\<rparr>"

definition sample_installed :: "installed list" where
  "sample_installed =
     [\<lparr>ip_name = ''plug'', ip_version = ''1.10.3'', ip_direct = True, ip_dev = False\<rparr>,
      \<lparr>ip_name = ''plug'', ip_version = ''main'', ip_direct = True, ip_dev = False\<rparr>]"

theorem scans_report_records_witness:
  "scan_promise triple_lib (julia_feeder triple_lib (\<lambda>_. None)) [sample_record ''GHSA-a'' ''Hex'' ''plug'' ''SEMVER'' ''1.10.4''] ''r'' sample_installed chain_example \<and>
    scan_promise triple_lib (rubygems_feeder triple_lib (\<lambda>_. None)) [sample_record ''GHSA-a'' ''Hex'' ''plug'' ''SEMVER'' ''1.10.4''] ''r'' sample_installed chain_example \<and>
    scan_promise triple_lib (nuget_feeder triple_lib (\<lambda>_. None)) [sample_record ''GHSA-a'' ''Hex'' ''plug'' ''SEMVER'' ''1.10.4''] ''r'' sample_installed chain_example \<and>
    scan_promise triple_lib (hex_feeder triple_lib (\<lambda>_. None)) [sample_record ''GHSA-a'' ''Hex'' ''plug'' ''SEMVER'' ''1.10.4''] ''r'' sample_installed chain_example \<and>
    scan_promise triple_lib (swift_feeder triple_lib (\<lambda>_. None)) [sample_record ''GHSA-a'' ''Hex'' ''plug'' ''SEMVER'' ''1.10.4''] ''r'' sample_installed chain_example \<and>
    scan_promise triple_lib (npm_feeder triple_lib) [sample_record ''GHSA-a'' ''Hex'' ''plug'' ''SEMVER'' ''1.10.4''] ''r'' sample_installed chain_example \<and>
    scan_promise triple_lib (gha_feeder triple_lib (\<lambda>_. None)) [sample_record ''GHSA-a'' ''Hex'' ''plug'' ''SEMVER'' ''1.10.4''] ''r'' sample_installed chain_example"
  by (rule scans_report_records [OF triple_lib_total]) (simp add: chain_example_def)

lemma uses_example:
  "map (map_option (\<lambda>a. (ua_name a, ua_ref a)) \<circ> used_action_of)
     [''- uses: actions/Checkout@v4'', ''- uses: ./.github/local'', ''- run: echo''] =
     [Some (''actions/checkout'', ''v4''), None, None]"
  by code_simp

lemma url_examples:
  "map normalize_package_url [''https://github.com/apple/swift-nio.git'', ''git@github.com:apple/swift-nio.git'',
      ''https://github.com/Sparkle-Project/Sparkle/''] =
     [''github.com/apple/swift-nio'', ''github.com/apple/swift-nio'', ''github.com/sparkle-project/sparkle'']"
  by code_simp

text \<open>The suffix is looked for before the trailing slashes are dropped, so a URL with both keeps it and
  is not looked up under the name of the package.\<close>

lemma url_git_slash_kept:
  "normalize_package_url ''https://github.com/apple/swift-nio.git/'' = ''github.com/apple/swift-nio.git''"
  by code_simp

text \<open>
  Packagist alone matches with a lower bound below the release it names (Composer's floor), while
  the safe intervals are computed with the plain order.  A release candidate of the first affected
  release is reported, but the fix the record publishes is not offered for it.
\<close>

definition floor_ranges :: "composer_version parsed_range list" where
  "floor_ranges = [parse_range parse_composer_version
     \<lparr>rg_matchable = True, rg_events =
        [\<lparr>ev_introduced = Some ''8.7.0'', ev_fixed = None, ev_last_affected = None\<rparr>,
         \<lparr>ev_introduced = None, ev_fixed = Some ''8.7.5'', ev_last_affected = None\<rparr>]\<rparr>]"

lemma packagist_floor_without_fix:
  "(case parse_composer_version ''8.7.0-rc1'' of None \<Rightarrow> False | Some v \<Rightarrow>
      affected_fixed_parsed composer_compare at_or_after_introduced v floor_ranges =
        Affected (parse_composer_version ''8.7.5'') \<and>
      safe_intervals composer_compare v floor_ranges = [])"
  by code_simp

end
