(* ===== verification/Ssvc.thy ===== *)
theory Ssvc
  imports Rust_Result
begin

text \<open>
  SSVC deployer decisions, \<^verbatim>\<open>crates/core/src/ssvc.rs\<close>: the decision points, the published table,
  tables read from CSV, and Automatable derived from a CVSS vector.
\<close>

section \<open>Decision points and outcomes\<close>

datatype exploitation = ExNone | PublicPoc | Active
datatype exposure = ExpSmall | ExpControlled | ExpOpen
datatype automatable_value = AutoNo | AutoYes
datatype mission_impact = Degraded | MefSupportCrippled | MefFailure | MissionFailure
datatype safety_impact = Negligible | Marginal | SafetyCritical | Catastrophic
datatype human_impact_value = HiLow | HiMedium | HiHigh | HiVeryHigh
datatype outcome = Defer | Scheduled | OutOfCycle | Immediate

text \<open>The discriminants, which index the table.\<close>

primrec ex_ix :: "exploitation \<Rightarrow> nat" where
  "ex_ix ExNone = 0" | "ex_ix PublicPoc = 1" | "ex_ix Active = 2"

primrec exp_ix :: "exposure \<Rightarrow> nat" where
  "exp_ix ExpSmall = 0" | "exp_ix ExpControlled = 1" | "exp_ix ExpOpen = 2"

primrec auto_ix :: "automatable_value \<Rightarrow> nat" where
  "auto_ix AutoNo = 0" | "auto_ix AutoYes = 1"

primrec hi_ix :: "human_impact_value \<Rightarrow> nat" where
  "hi_ix HiLow = 0" | "hi_ix HiMedium = 1" | "hi_ix HiHigh = 2" | "hi_ix HiVeryHigh = 3"

primrec outcome_rank :: "outcome \<Rightarrow> nat" where
  "outcome_rank Defer = 0" | "outcome_rank Scheduled = 1"
| "outcome_rank OutOfCycle = 2" | "outcome_rank Immediate = 3"

lemma outcome_rank_inj [simp]: "outcome_rank x = outcome_rank y \<longleftrightarrow> x = y"
  by (cases x; cases y) simp_all

instantiation outcome :: linorder
begin

definition less_eq_outcome :: "outcome \<Rightarrow> outcome \<Rightarrow> bool" where
  "less_eq_outcome x y = (outcome_rank x \<le> outcome_rank y)"

definition less_outcome :: "outcome \<Rightarrow> outcome \<Rightarrow> bool" where
  "less_outcome x y = (outcome_rank x < outcome_rank y)"

instance
  by standard (auto simp: less_eq_outcome_def less_outcome_def)

end

definition all_outcomes :: "outcome list" where
  "all_outcomes = [Immediate, OutOfCycle, Scheduled, Defer]"

primrec outcome_label :: "outcome \<Rightarrow> string" where
  "outcome_label Defer = ''defer''"
| "outcome_label Scheduled = ''scheduled''"
| "outcome_label OutOfCycle = ''out-of-cycle''"
| "outcome_label Immediate = ''immediate''"

definition outcome_parse :: "string \<Rightarrow> outcome option" where
  "outcome_parse s = List.find (\<lambda>o'. outcome_label o' = s) all_outcomes"

definition human_impact :: "safety_impact \<Rightarrow> mission_impact \<Rightarrow> human_impact_value" where
  "human_impact safety mission =
     (if safety = Catastrophic \<or> mission = MissionFailure then HiVeryHigh
      else if safety = Negligible \<or> safety = Marginal then
        (if mission = MefFailure then HiMedium else HiLow)
      else if mission = Degraded then HiMedium else HiHigh)"

section \<open>The decision table\<close>

record decision_table =
  dt_id :: string
  dt_rows :: "outcome list"

definition deployer_rows :: string where
  "deployer_rows =
     ''DDSSDSSSDSSSSSSSDSSSSSSODSSSSSSSDSSSSSSOSSSOSSOOSSOOSOOOSSOOOOOOSOOIOOII''"

definition row_outcome :: "char \<Rightarrow> outcome" where
  "row_outcome c =
     (if c = CHR ''D'' then Defer else if c = CHR ''S'' then Scheduled
      else if c = CHR ''O'' then OutOfCycle else Immediate)"

definition deployer :: decision_table where
  "deployer = \<lparr>dt_id = ''ssvc:DT_DP:1.0.0'', dt_rows = map row_outcome deployer_rows\<rparr>"

definition table_outcome ::
  "decision_table \<Rightarrow> exploitation \<Rightarrow> exposure \<Rightarrow> automatable_value \<Rightarrow> human_impact_value \<Rightarrow> outcome" where
  "table_outcome t e x a h = dt_rows t ! (ex_ix e * 24 + exp_ix x * 8 + auto_ix a * 4 + hi_ix h)"

definition deployer_outcome ::
  "exploitation \<Rightarrow> exposure \<Rightarrow> automatable_value \<Rightarrow> human_impact_value \<Rightarrow> outcome" where
  "deployer_outcome e x a h = table_outcome deployer e x a h"

section \<open>Tables from CSV\<close>

fun split_csv_loop :: "bool \<Rightarrow> string \<Rightarrow> string \<Rightarrow> string list" where
  "split_csv_loop quoted field [] = [field]"
| "split_csv_loop quoted field (c # cs) =
     (if c = CHR 0x22 then split_csv_loop (\<not> quoted) field cs
      else if c = CHR '','' \<and> \<not> quoted then field # split_csv_loop quoted [] cs
      else split_csv_loop quoted (field @ [c]) cs)"

definition split_csv :: "string \<Rightarrow> string list" where
  "split_csv line = split_csv_loop False [] line"

datatype csv_error =
  EmptyTable
| NoColumn string
| LastColumnNotOutcome
| TooFewColumns nat
| BadValue nat string "string list"
| BadOutcome nat string
| DuplicateRow nat
| MissingRows nat

definition position :: "('a \<Rightarrow> bool) \<Rightarrow> 'a list \<Rightarrow> nat option" where
  "position p xs = List.find (\<lambda>i. p (xs ! i)) [0..<length xs]"

definition find_column :: "string list \<Rightarrow> string list \<Rightarrow> csv_error + nat" where
  "find_column columns names =
     ok_or (NoColumn (hd names)) (position (\<lambda>c. list_ex (\<lambda>n. starts_with n c) names) columns)"

definition csv_at :: "nat \<Rightarrow> string list \<Rightarrow> nat \<Rightarrow> csv_error + string" where
  "csv_at n flds col =
     (if col < length flds
      then Inr (map (\<lambda>c. if c = CHR '' '' then CHR ''-'' else c) (to_ascii_lowercase (trim (flds ! col))))
      else Inl (TooFewColumns (n + 1)))"

definition csv_value :: "nat \<Rightarrow> string list \<Rightarrow> nat \<Rightarrow> string list \<Rightarrow> csv_error + nat" where
  "csv_value n flds col names =
     and_then (csv_at n flds col)
       (\<lambda>v. ok_or (BadValue (n + 1) v names) (position (\<lambda>name. name = v) names))"

text \<open>One data row: its slot in the table and its outcome.\<close>

definition csv_row ::
  "nat \<times> nat \<times> nat \<times> nat \<times> nat \<Rightarrow> nat \<Rightarrow> string \<Rightarrow> csv_error + nat \<times> outcome" where
  "csv_row cols n line =
     (let (e_col, x_col, a_col, h_col, o_col) = cols; flds = split_csv line in
      and_then (csv_value n flds e_col [''none'', ''public-poc'', ''active'']) (\<lambda>e.
      and_then (csv_value n flds x_col [''small'', ''controlled'', ''open'']) (\<lambda>x.
      and_then (csv_value n flds a_col [''no'', ''yes'']) (\<lambda>a.
      and_then (csv_value n flds h_col [''low'', ''medium'', ''high'', ''very-high'']) (\<lambda>h.
      and_then (csv_at n flds o_col) (\<lambda>o'.
      and_then (ok_or (BadOutcome (n + 1) (trim (flds ! o_col))) (outcome_parse o')) (\<lambda>outcome.
        Inr (e * 24 + x * 8 + a * 4 + h, outcome))))))))"

definition csv_step ::
  "nat \<times> nat \<times> nat \<times> nat \<times> nat \<Rightarrow> nat \<times> string \<Rightarrow> outcome option list
     \<Rightarrow> csv_error + outcome option list" where
  "csv_step cols numbered rows =
     and_then (csv_row cols (fst numbered) (snd numbered)) (\<lambda>(slot, outcome).
       if rows ! slot \<noteq> None then Inl (DuplicateRow (fst numbered + 1))
       else Inr (rows[slot := Some outcome]))"

definition csv_columns :: "string \<Rightarrow> csv_error + nat \<times> nat \<times> nat \<times> nat \<times> nat" where
  "csv_columns header =
     (let columns = map to_ascii_lowercase (split_csv header) in
      and_then (find_column columns [''exploitation'']) (\<lambda>e_col.
      and_then (find_column columns [''system exposure'', ''exposure'']) (\<lambda>x_col.
      and_then (find_column columns [''automatable'']) (\<lambda>a_col.
      and_then (find_column columns [''human impact'']) (\<lambda>h_col.
        let o_col = length columns - 1 in
        if o_col \<in> set [e_col, x_col, a_col, h_col] then Inl LastColumnNotOutcome
        else Inr (e_col, x_col, a_col, h_col, o_col))))))"

definition csv_lines :: "string \<Rightarrow> string list" where
  "csv_lines text = filter (\<lambda>l. l \<noteq> []) (map trim (split_at (char_of (10::nat)) text))"

definition from_csv :: "string \<Rightarrow> string \<Rightarrow> csv_error + decision_table" where
  "from_csv text ident =
     (case csv_lines text of
        [] \<Rightarrow> Inl EmptyTable
      | header # rest \<Rightarrow>
          and_then (csv_columns header) (\<lambda>cols.
          and_then (try_fold (csv_step cols) (enumerate 0 rest) (replicate 72 None)) (\<lambda>rows.
            let missing = length (filter (\<lambda>r. r = None) rows) in
            if missing > 0 then Inl (MissingRows missing)
            else Inr \<lparr>dt_id = ident,
                      dt_rows = map (\<lambda>r. case r of None \<Rightarrow> Immediate | Some out \<Rightarrow> out) rows\<rparr>)))"

section \<open>Automatable and the decision vector\<close>

definition metric :: "string \<Rightarrow> string \<Rightarrow> string option" where
  "metric vec name =
     (case List.map_filter
             (\<lambda>part. Option.bind (strip_prefix name part) (strip_prefix '':''))
             (split_at (CHR ''/'') vec) of
        [] \<Rightarrow> None
      | v # _ \<Rightarrow> Some v)"

fun metrics_easy :: "string \<Rightarrow> bool \<Rightarrow> (string \<times> string) list \<Rightarrow> automatable_value" where
  "metrics_easy vec all_easy [] = (if all_easy then AutoYes else AutoNo)"
| "metrics_easy vec all_easy ((name, easy) # required) =
     (case metric vec name of
        None \<Rightarrow> AutoYes
      | Some value \<Rightarrow> metrics_easy vec (all_easy \<and> value = easy) required)"

definition automatable :: "string option \<Rightarrow> automatable_value" where
  "automatable vector =
     (case vector of
        None \<Rightarrow> AutoYes
      | Some vec \<Rightarrow>
          (let required = [(''AV'', ''N''), (''AC'', ''L''), (''PR'', ''N''), (''UI'', ''N'')] in
           if starts_with ''CVSS:4'' vec then metrics_easy vec True (required @ [(''AT'', ''N'')])
           else if \<not> starts_with ''CVSS:3'' vec then AutoYes
           else metrics_easy vec True required))"

definition decision_vector ::
  "exploitation \<Rightarrow> exposure \<Rightarrow> automatable_value \<Rightarrow> human_impact_value \<Rightarrow> string" where
  "decision_vector e x a h =
     ''E:'' @ (case e of ExNone \<Rightarrow> ''N'' | PublicPoc \<Rightarrow> ''P'' | Active \<Rightarrow> ''A'') @
     ''/X:'' @ (case x of ExpSmall \<Rightarrow> ''S'' | ExpControlled \<Rightarrow> ''C'' | ExpOpen \<Rightarrow> ''O'') @
     ''/A:'' @ (case a of AutoNo \<Rightarrow> ''N'' | AutoYes \<Rightarrow> ''Y'') @
     ''/HI:'' @ (case h of HiLow \<Rightarrow> ''L'' | HiMedium \<Rightarrow> ''M'' | HiHigh \<Rightarrow> ''H'' | HiVeryHigh \<Rightarrow> ''VH'')"

section \<open>The published table\<close>

lemma outcome_parse_label [simp]: "outcome_parse (outcome_label out) = Some out"
  by (cases out) (simp_all add: outcome_parse_def all_outcomes_def)

lemma outcome_parse_Some: "outcome_parse s = Some out \<longleftrightarrow> s = outcome_label out"
  by (cases out) (auto simp: outcome_parse_def all_outcomes_def split: if_splits)

definition all_ex :: "exploitation list" where "all_ex = [ExNone, PublicPoc, Active]"
definition all_exp :: "exposure list" where "all_exp = [ExpSmall, ExpControlled, ExpOpen]"
definition all_auto :: "automatable_value list" where "all_auto = [AutoNo, AutoYes]"
definition all_hi :: "human_impact_value list" where "all_hi = [HiLow, HiMedium, HiHigh, HiVeryHigh]"

lemma all_points [simp]:
  "e \<in> set all_ex" "x \<in> set all_exp" "a \<in> set all_auto" "h \<in> set all_hi"
  unfolding all_ex_def all_exp_def all_auto_def all_hi_def
  by (cases e, simp_all) (cases x, simp_all, cases a, simp_all, cases h, simp_all)

text \<open>Raising one decision point by one step, for every setting of the others.\<close>

definition steps_up :: "decision_table \<Rightarrow> bool" where
  "steps_up t \<longleftrightarrow>
     list_all (\<lambda>x. list_all (\<lambda>a. list_all (\<lambda>h.
       table_outcome t ExNone x a h \<le> table_outcome t PublicPoc x a h \<and>
       table_outcome t PublicPoc x a h \<le> table_outcome t Active x a h) all_hi) all_auto) all_exp \<and>
     list_all (\<lambda>e. list_all (\<lambda>a. list_all (\<lambda>h.
       table_outcome t e ExpSmall a h \<le> table_outcome t e ExpControlled a h \<and>
       table_outcome t e ExpControlled a h \<le> table_outcome t e ExpOpen a h) all_hi) all_auto) all_ex \<and>
     list_all (\<lambda>e. list_all (\<lambda>x. list_all (\<lambda>h.
       table_outcome t e x AutoNo h \<le> table_outcome t e x AutoYes h) all_hi) all_exp) all_ex \<and>
     list_all (\<lambda>e. list_all (\<lambda>x. list_all (\<lambda>a.
       table_outcome t e x a HiLow \<le> table_outcome t e x a HiMedium \<and>
       table_outcome t e x a HiMedium \<le> table_outcome t e x a HiHigh \<and>
       table_outcome t e x a HiHigh \<le> table_outcome t e x a HiVeryHigh) all_auto) all_exp) all_ex"

lemma steps_upD:
  assumes "steps_up t"
  shows "table_outcome t ExNone x a h \<le> table_outcome t PublicPoc x a h \<and>
      table_outcome t PublicPoc x a h \<le> table_outcome t Active x a h"
    and "table_outcome t e ExpSmall a h \<le> table_outcome t e ExpControlled a h \<and>
      table_outcome t e ExpControlled a h \<le> table_outcome t e ExpOpen a h"
    and "table_outcome t e x AutoNo h \<le> table_outcome t e x AutoYes h"
    and "table_outcome t e x a HiLow \<le> table_outcome t e x a HiMedium \<and>
      table_outcome t e x a HiMedium \<le> table_outcome t e x a HiHigh \<and>
      table_outcome t e x a HiHigh \<le> table_outcome t e x a HiVeryHigh"
  using assms all_points unfolding steps_up_def list_all_iff by blast+

text \<open>More exploitation, exposure, automation or impact never makes the outcome less urgent.\<close>

lemma table_mono:
  assumes t: "steps_up t"
    and "ex_ix e \<le> ex_ix e'" and "exp_ix x \<le> exp_ix x'" and "auto_ix a \<le> auto_ix a'"
    and "hi_ix h \<le> hi_ix h'"
  shows "table_outcome t e x a h \<le> table_outcome t e' x' a' h'"
proof -
  have "table_outcome t e x a h \<le> table_outcome t e' x a h"
    using assms(2) steps_upD(1) [OF t, of x a h] by (cases e; cases e') auto
  also have "\<dots> \<le> table_outcome t e' x' a h"
    using assms(3) steps_upD(2) [OF t, of e' a h] by (cases x; cases x') auto
  also have "\<dots> \<le> table_outcome t e' x' a' h"
    using assms(4) steps_upD(3) [OF t, of e' x' h] by (cases a; cases a') auto
  also have "\<dots> \<le> table_outcome t e' x' a' h'"
    using assms(5) steps_upD(4) [OF t, of e' x' a'] by (cases h; cases h') auto
  finally show ?thesis .
qed

lemma deployer_rows_value:
  "deployer = \<lparr>dt_id = ''ssvc:DT_DP:1.0.0'', dt_rows =
     [Defer, Defer, Scheduled, Scheduled, Defer, Scheduled,
      Scheduled, Scheduled, Defer, Scheduled, Scheduled, Scheduled,
      Scheduled, Scheduled, Scheduled, Scheduled, Defer, Scheduled,
      Scheduled, Scheduled, Scheduled, Scheduled, Scheduled, OutOfCycle,
      Defer, Scheduled, Scheduled, Scheduled, Scheduled, Scheduled,
      Scheduled, Scheduled, Defer, Scheduled, Scheduled, Scheduled,
      Scheduled, Scheduled, Scheduled, OutOfCycle, Scheduled, Scheduled,
      Scheduled, OutOfCycle, Scheduled, Scheduled, OutOfCycle, OutOfCycle,
      Scheduled, Scheduled, OutOfCycle, OutOfCycle, Scheduled, OutOfCycle,
      OutOfCycle, OutOfCycle, Scheduled, Scheduled, OutOfCycle, OutOfCycle,
      OutOfCycle, OutOfCycle, OutOfCycle, OutOfCycle, Scheduled, OutOfCycle,
      OutOfCycle, Immediate, OutOfCycle, OutOfCycle, Immediate, Immediate]\<rparr>"
  by code_simp

lemma deployer_steps_up: "steps_up deployer"
  unfolding deployer_rows_value steps_up_def table_outcome_def all_ex_def all_exp_def all_auto_def all_hi_def
  by (simp add: less_eq_outcome_def)

section \<open>Tables from CSV\<close>

lemma position_Some: "position p xs = Some i \<Longrightarrow> i < length xs \<and> p (xs ! i)"
  unfolding position_def by (auto simp: find_Some_iff)

lemma csv_value_lt: "csv_value n flds col names = Inr i \<Longrightarrow> i < length names"
  by (auto simp: csv_value_def result_simps dest: position_Some)

text \<open>What a row of a table says, in the vocabulary of the decision points.\<close>

primrec ex_name :: "exploitation \<Rightarrow> string" where
  "ex_name ExNone = ''none''" | "ex_name PublicPoc = ''public-poc''" | "ex_name Active = ''active''"

primrec exp_name :: "exposure \<Rightarrow> string" where
  "exp_name ExpSmall = ''small''" | "exp_name ExpControlled = ''controlled''" | "exp_name ExpOpen = ''open''"

primrec auto_name :: "automatable_value \<Rightarrow> string" where
  "auto_name AutoNo = ''no''" | "auto_name AutoYes = ''yes''"

primrec hi_name :: "human_impact_value \<Rightarrow> string" where
  "hi_name HiLow = ''low''" | "hi_name HiMedium = ''medium''" | "hi_name HiHigh = ''high''" | "hi_name HiVeryHigh = ''very-high''"

definition cell :: "string list \<Rightarrow> nat \<Rightarrow> string option" where
  "cell flds col =
     (if col < length flds
      then Some (map (\<lambda>c. if c = CHR '' '' then CHR ''-'' else c) (to_ascii_lowercase (trim (flds ! col)))) else None)"

definition row_says ::
  "nat \<times> nat \<times> nat \<times> nat \<times> nat \<Rightarrow> string \<Rightarrow> exploitation \<Rightarrow> exposure \<Rightarrow> automatable_value \<Rightarrow> human_impact_value \<Rightarrow> outcome \<Rightarrow> bool" where
  "row_says cols line e x a h out \<longleftrightarrow>
     (case cols of (e_col, x_col, a_col, h_col, o_col) \<Rightarrow>
        cell (split_csv line) e_col = Some (ex_name e) \<and> cell (split_csv line) x_col = Some (exp_name x) \<and>
        cell (split_csv line) a_col = Some (auto_name a) \<and> cell (split_csv line) h_col = Some (hi_name h) \<and>
        cell (split_csv line) o_col = Some (outcome_label out))"

lemma names_inj [simp]:
  "ex_name e = ex_name e' \<longleftrightarrow> e = e'" "exp_name x = exp_name x' \<longleftrightarrow> x = x'"
  "auto_name a = auto_name a' \<longleftrightarrow> a = a'" "hi_name h = hi_name h' \<longleftrightarrow> h = h'"
  "outcome_label out = outcome_label out' \<longleftrightarrow> out = out'"
proof -
  show "ex_name e = ex_name e' \<longleftrightarrow> e = e'" by (cases e; cases e'; simp)
  show "exp_name x = exp_name x' \<longleftrightarrow> x = x'" by (cases x; cases x'; simp)
  show "auto_name a = auto_name a' \<longleftrightarrow> a = a'" by (cases a; cases a'; simp)
  show "hi_name h = hi_name h' \<longleftrightarrow> h = h'" by (cases h; cases h'; simp)
  show "outcome_label out = outcome_label out' \<longleftrightarrow> out = out'" by (cases out; cases out'; simp)
qed

lemma row_says_inj:
  "row_says cols line e x a h out \<Longrightarrow> row_says cols line e' x' a' h' out' \<Longrightarrow>
     e = e' \<and> x = x' \<and> a = a' \<and> h = h' \<and> out = out'"
  by (auto simp: row_says_def split: prod.splits)

text \<open>The slots of the combinations are the places of the table, each once.\<close>

definition slot_of :: "exploitation \<Rightarrow> exposure \<Rightarrow> automatable_value \<Rightarrow> human_impact_value \<Rightarrow> nat" where
  "slot_of e x a h = ex_ix e * 24 + exp_ix x * 8 + auto_ix a * 4 + hi_ix h"

lemma slots_cover:
  "concat (map (\<lambda>e. concat (map (\<lambda>x. concat (map (\<lambda>a. map (slot_of e x a) all_hi) all_auto)) all_exp)) all_ex) = [0..<72]"
  by code_simp

lemma slot_surj: "s < 72 \<Longrightarrow> \<exists>e x a h. s = slot_of e x a h"
proof -
  assume "s < 72"
  then have "s \<in> set (concat (map (\<lambda>e. concat (map (\<lambda>x. concat (map (\<lambda>a. map (slot_of e x a) all_hi) all_auto)) all_exp)) all_ex))"
    unfolding slots_cover by simp
  then show ?thesis by auto
qed

lemma slot_less [simp]: "slot_of e x a h < 72"
  by (cases e; cases x; cases a; cases h) (simp_all add: slot_of_def)

lemma digit_eq: "d < n \<Longrightarrow> d' < n \<Longrightarrow> q * n + d = q' * n + d' \<longleftrightarrow> q = q' \<and> d = (d' :: nat)"
proof
  assume "d < n" "d' < n" "q * n + d = q' * n + d'"
  then have "(q * n + d) div n = (q' * n + d') div n" "(q * n + d) mod n = (q' * n + d') mod n" by simp_all
  then show "q = q' \<and> d = d'" using \<open>d < n\<close> \<open>d' < n\<close> by simp
qed simp

lemma slot_inj: "slot_of e x a h = slot_of e' x' a' h' \<longleftrightarrow> e = e' \<and> x = x' \<and> a = a' \<and> h = h'"
proof -
  have slot: "slot_of e x a h = ((ex_ix e * 3 + exp_ix x) * 2 + auto_ix a) * 4 + hi_ix h" for e x a h
    by (simp add: slot_of_def)
  have small: "hi_ix h < 4" for h by (cases h; simp)
  have small2: "auto_ix a < 2" for a by (cases a; simp)
  have small3: "exp_ix x < 3" for x by (cases x; simp)
  have "ex_ix e = ex_ix e' \<longleftrightarrow> e = e'" by (cases e; cases e'; simp)
  moreover have "exp_ix x = exp_ix x' \<longleftrightarrow> x = x'" by (cases x; cases x'; simp)
  moreover have "auto_ix a = auto_ix a' \<longleftrightarrow> a = a'" by (cases a; cases a'; simp)
  moreover have "hi_ix h = hi_ix h' \<longleftrightarrow> h = h'" by (cases h; cases h'; simp)
  ultimately show ?thesis
    unfolding slot digit_eq [OF small small] digit_eq [OF small2 small2] digit_eq [OF small3 small3] by blast
qed

section \<open>Reading a table\<close>

lemma csv_value_Inr:
  "csv_value n flds col names = Inr i \<longleftrightarrow>
     (\<exists>v. cell flds col = Some v \<and> position (\<lambda>name. name = v) names = Some i)"
  by (auto simp: csv_value_def csv_at_def cell_def result_simps)

lemma position_Nil [simp]: "position p [] = None"
  by (simp add: position_def)

lemma position_Cons: "position p (x # xs) = (if p x then Some 0 else map_option Suc (position p xs))"
proof -
  have "List.find (\<lambda>i. p ((x # xs) ! i)) (map Suc ks) = map_option Suc (List.find (\<lambda>i. p (xs ! i)) ks)" for ks
    by (induction ks) simp_all
  then show ?thesis
    unfolding position_def length_Cons by (simp only: upt_conv_Cons zero_less_Suc map_Suc_upt [symmetric] find.simps nth_Cons_0)
qed

lemma csv_values:
  "csv_value n flds col [''none'', ''public-poc'', ''active''] = Inr i \<longleftrightarrow> (\<exists>e. cell flds col = Some (ex_name e) \<and> i = ex_ix e)"
  "csv_value n flds col [''small'', ''controlled'', ''open''] = Inr i \<longleftrightarrow> (\<exists>x. cell flds col = Some (exp_name x) \<and> i = exp_ix x)"
  "csv_value n flds col [''no'', ''yes''] = Inr i \<longleftrightarrow> (\<exists>a. cell flds col = Some (auto_name a) \<and> i = auto_ix a)"
  "csv_value n flds col [''low'', ''medium'', ''high'', ''very-high''] = Inr i \<longleftrightarrow> (\<exists>h. cell flds col = Some (hi_name h) \<and> i = hi_ix h)"
proof -
  have ex: "(\<exists>e. P e) \<longleftrightarrow> P ExNone \<or> P PublicPoc \<or> P Active" for P by (metis exploitation.exhaust)
  have xp: "(\<exists>e. P e) \<longleftrightarrow> P ExpSmall \<or> P ExpControlled \<or> P ExpOpen" for P by (metis exposure.exhaust)
  have au: "(\<exists>e. P e) \<longleftrightarrow> P AutoNo \<or> P AutoYes" for P by (metis automatable_value.exhaust)
  have hi: "(\<exists>e. P e) \<longleftrightarrow> P HiLow \<or> P HiMedium \<or> P HiHigh \<or> P HiVeryHigh" for P by (metis human_impact_value.exhaust)
  have p1: "position (\<lambda>name. name = v) [''none'', ''public-poc'', ''active''] = Some i \<longleftrightarrow> (\<exists>e. v = ex_name e \<and> i = ex_ix e)" for v
    unfolding ex by (cases "v = ''none''"; cases "v = ''public-poc''"; cases "v = ''active''"; simp add: position_Cons; auto)
  show "csv_value n flds col [''none'', ''public-poc'', ''active''] = Inr i \<longleftrightarrow> (\<exists>e. cell flds col = Some (ex_name e) \<and> i = ex_ix e)"
    unfolding csv_value_Inr p1 by blast
  have p2: "position (\<lambda>name. name = v) [''small'', ''controlled'', ''open''] = Some i \<longleftrightarrow> (\<exists>x. v = exp_name x \<and> i = exp_ix x)" for v
    unfolding xp by (cases "v = ''small''"; cases "v = ''controlled''"; cases "v = ''open''"; simp add: position_Cons; auto)
  show "csv_value n flds col [''small'', ''controlled'', ''open''] = Inr i \<longleftrightarrow> (\<exists>x. cell flds col = Some (exp_name x) \<and> i = exp_ix x)"
    unfolding csv_value_Inr p2 by blast
  have p3: "position (\<lambda>name. name = v) [''no'', ''yes''] = Some i \<longleftrightarrow> (\<exists>a. v = auto_name a \<and> i = auto_ix a)" for v
    unfolding au by (cases "v = ''no''"; cases "v = ''yes''"; simp add: position_Cons; auto)
  show "csv_value n flds col [''no'', ''yes''] = Inr i \<longleftrightarrow> (\<exists>a. cell flds col = Some (auto_name a) \<and> i = auto_ix a)"
    unfolding csv_value_Inr p3 by blast
  have p4: "position (\<lambda>name. name = v) [''low'', ''medium'', ''high'', ''very-high''] = Some i \<longleftrightarrow> (\<exists>h. v = hi_name h \<and> i = hi_ix h)" for v
    unfolding hi by (cases "v = ''low''"; cases "v = ''medium''"; cases "v = ''high''"; cases "v = ''very-high''"; simp add: position_Cons; auto)
  show "csv_value n flds col [''low'', ''medium'', ''high'', ''very-high''] = Inr i \<longleftrightarrow> (\<exists>h. cell flds col = Some (hi_name h) \<and> i = hi_ix h)"
    unfolding csv_value_Inr p4 by blast
qed

lemma csv_row_says:
  "csv_row cols n line = Inr (s, out) \<longleftrightarrow> (\<exists>e x a h. s = slot_of e x a h \<and> row_says cols line e x a h out)"
proof -
  obtain e_col x_col a_col h_col o_col where cols: "cols = (e_col, x_col, a_col, h_col, o_col)" by (cases cols)
  have at: "csv_at n (split_csv line) o_col = Inr v \<longleftrightarrow> cell (split_csv line) o_col = Some v" for v
    by (auto simp: csv_at_def cell_def)
  show ?thesis
    unfolding cols csv_row_def Let_def prod.case row_says_def slot_of_def
    by (simp only: result_simps csv_values at outcome_parse_Some sum.inject prod.inject) blast
qed

text \<open>The loop over the rows: it succeeds when every row can be read and no slot is written twice.\<close>

definition fill :: "(nat \<times> outcome) list \<Rightarrow> outcome option list \<Rightarrow> outcome option list" where
  "fill ps rows = fold (\<lambda>(s, out) r. r[s := Some out]) ps rows"

lemma fill_Cons: "fill ((s, out) # ps) rows = fill ps (rows[s := Some out])"
  by (simp add: fill_def)

lemma fill_nth:
  "distinct (map fst ps) \<Longrightarrow> s < length rows \<Longrightarrow>
     fill ps rows ! s = (case map_of ps s of None \<Rightarrow> rows ! s | Some out \<Rightarrow> Some out)"
proof (induction ps arbitrary: rows)
  case (Cons p ps)
  obtain k out where p: "p = (k, out)" by (cases p)
  have "map_of ps k = None" using Cons.prems(1) by (simp add: p map_of_eq_None_iff)
  then show ?case using Cons by (auto simp: p fill_Cons split: option.split)
qed (simp add: fill_def)

lemma length_fill [simp]: "length (fill ps rows) = length rows"
  by (induction ps arbitrary: rows) (auto simp: fill_def)

lemma csv_loop:
  "length rows = 72 \<Longrightarrow>
     try_fold (csv_step cols) ls rows = Inr rows' \<longleftrightarrow>
       (\<exists>ps. list_all2 (\<lambda>(n, line) p. csv_row cols n line = Inr p) ls ps \<and> distinct (map fst ps) \<and>
          list_all (\<lambda>p. rows ! fst p = None) ps \<and> rows' = fill ps rows)"
proof (induction ls arbitrary: rows)
  case Nil
  show ?case by (auto simp: fill_def)
next
  case (Cons l ls)
  obtain n line where l: "l = (n, line)" by (cases l)
  have step: "try_fold (csv_step cols) (l # ls) rows = Inr rows' \<longleftrightarrow>
      (\<exists>s out. csv_row cols n line = Inr (s, out) \<and> rows ! s = None \<and>
         try_fold (csv_step cols) ls (rows[s := Some out]) = Inr rows')"
    by (auto simp: l csv_step_def result_simps split: if_splits)
  have later: "list_all (\<lambda>p. rows[s := Some out] ! fst p = None) ps \<longleftrightarrow>
      s \<notin> set (map fst ps) \<and> list_all (\<lambda>p. rows ! fst p = None) ps" if "s < 72" "list_all (\<lambda>p. fst p < 72) ps" for s out ps
    using that Cons.prems by (induction ps) (auto simp: nth_list_update)
  have slots: "list_all (\<lambda>p. fst p < 72) ps" if "list_all2 (\<lambda>(n, line) p. csv_row cols n line = Inr p) ls' ps" for ls' ps
    using that by (induction ls' ps rule: list_all2_induct) (auto simp: csv_row_says)
  have here: "list_all (\<lambda>p. rows[s := Some out] ! fst p = None) ps \<longleftrightarrow>
      s \<notin> set (map fst ps) \<and> list_all (\<lambda>p. rows ! fst p = None) ps"
    if "csv_row cols n line = Inr (s, out)" "list_all2 (\<lambda>(n, line) p. csv_row cols n line = Inr p) ls ps" for s out ps
  proof -
    have "s < 72" using that(1) by (auto simp: csv_row_says)
    then show ?thesis by (rule later [OF _ slots [OF that(2)]])
  qed
  have "try_fold (csv_step cols) (l # ls) rows = Inr rows' \<longleftrightarrow>
      (\<exists>s out. csv_row cols n line = Inr (s, out) \<and> rows ! s = None \<and>
        (\<exists>ps. list_all2 (\<lambda>(n, line) p. csv_row cols n line = Inr p) ls ps \<and> distinct (map fst ps) \<and>
          list_all (\<lambda>p. rows[s := Some out] ! fst p = None) ps \<and> rows' = fill ps (rows[s := Some out])))"
    unfolding step using Cons.IH Cons.prems by simp
  also have "\<dots> \<longleftrightarrow> (\<exists>s out ps. csv_row cols n line = Inr (s, out) \<and>
        list_all2 (\<lambda>(n, line) p. csv_row cols n line = Inr p) ls ps \<and> distinct (map fst ((s, out) # ps)) \<and>
          list_all (\<lambda>p. rows ! fst p = None) ((s, out) # ps) \<and> rows' = fill ((s, out) # ps) rows)"
  proof -
    have "csv_row cols n line = Inr (s, out) \<and> rows ! s = None \<and>
        (\<exists>ps. list_all2 (\<lambda>(n, line) p. csv_row cols n line = Inr p) ls ps \<and> distinct (map fst ps) \<and>
          list_all (\<lambda>p. rows[s := Some out] ! fst p = None) ps \<and> rows' = fill ps (rows[s := Some out])) \<longleftrightarrow>
      (\<exists>ps. csv_row cols n line = Inr (s, out) \<and>
        list_all2 (\<lambda>(n, line) p. csv_row cols n line = Inr p) ls ps \<and> distinct (map fst ((s, out) # ps)) \<and>
          list_all (\<lambda>p. rows ! fst p = None) ((s, out) # ps) \<and> rows' = fill ((s, out) # ps) rows)" for s out
      using here [of s out] unfolding fill_Cons list.map distinct.simps fst_conv list.pred_inject by metis
    then show ?thesis by (simp only:)
  qed
  also have "\<dots> \<longleftrightarrow> (\<exists>ps. list_all2 (\<lambda>(n, line) p. csv_row cols n line = Inr p) (l # ls) ps \<and> distinct (map fst ps) \<and>
          list_all (\<lambda>p. rows ! fst p = None) ps \<and> rows' = fill ps rows)" (is "_ \<longleftrightarrow> (\<exists>ps. list_all2 ?R _ ps \<and> ?Q ps)")
  proof -
    have "(\<exists>qs. list_all2 ?R (l # ls) qs \<and> Q qs) \<longleftrightarrow>
        (\<exists>s out ps. csv_row cols n line = Inr (s, out) \<and> list_all2 ?R ls ps \<and> Q ((s, out) # ps))" for Q
      by (auto simp: list_all2_Cons1 l)
    from this [of ?Q] show ?thesis by (simp only:)
  qed
  finally show ?case .
qed

text \<open>A table that decides every combination by exactly one of the rows of the text.\<close>

definition decides_all :: "string \<Rightarrow> decision_table \<Rightarrow> bool" where
  "decides_all text t \<longleftrightarrow>
     (\<exists>header rest cols. csv_lines text = header # rest \<and> csv_columns header = Inr cols \<and>
        length rest = 72 \<and> length (dt_rows t) = 72 \<and>
        (\<forall>e x a h. \<exists>!i. i < 72 \<and> (\<exists>out. row_says cols (rest ! i) e x a h out)) \<and>
        (\<forall>e x a h. \<exists>i < 72. row_says cols (rest ! i) e x a h (table_outcome t e x a h)))"

section \<open>Automatable\<close>

lemma metrics_easy_No:
  "metrics_easy vec b required = AutoNo \<longleftrightarrow>
     list_all (\<lambda>(name, easy). metric vec name \<noteq> None) required \<and>
     \<not> (b \<and> list_all (\<lambda>(name, easy). metric vec name = Some easy) required)"
  by (induction vec b required rule: metrics_easy.induct) (auto split: option.split)

text \<open>The metrics a vector of each version must carry to be read at all.\<close>

definition required_metrics :: "string \<Rightarrow> (string \<times> string) list option" where
  "required_metrics vec =
     (if starts_with ''CVSS:4'' vec
      then Some [(''AV'', ''N''), (''AC'', ''L''), (''PR'', ''N''), (''UI'', ''N''), (''AT'', ''N'')]
      else if starts_with ''CVSS:3'' vec
      then Some [(''AV'', ''N''), (''AC'', ''L''), (''PR'', ''N''), (''UI'', ''N'')]
      else None)"

lemma automatable_No:
  "automatable (Some vec) = AutoNo \<longleftrightarrow>
     (case required_metrics vec of
        None \<Rightarrow> False
      | Some required \<Rightarrow>
          list_all (\<lambda>(name, easy). metric vec name \<noteq> None) required \<and>
          \<not> list_all (\<lambda>(name, easy). metric vec name = Some easy) required)"
proof -
  have "metrics_easy vec True required = AutoNo \<longleftrightarrow>
      list_all (\<lambda>(name, easy). metric vec name \<noteq> None) required \<and>
      \<not> list_all (\<lambda>(name, easy). metric vec name = Some easy) required" for required
    by (simp only: metrics_easy_No) simp
  then show ?thesis
    unfolding automatable_def required_metrics_def Let_def
    by (simp only: option.case append.simps split: if_split) simp
qed

section \<open>What the decisions promise\<close>

text \<open>The published table is monotone: worse exploitation, exposure, automatability or human impact
  never gives a less urgent outcome.\<close>

theorem deployer_monotone:
  assumes "ex_ix e \<le> ex_ix e'" and "exp_ix x \<le> exp_ix x'" and "auto_ix a \<le> auto_ix a'"
    and "hi_ix h \<le> hi_ix h'"
  shows "deployer_outcome e x a h \<le> deployer_outcome e' x' a' h'"
  unfolding deployer_outcome_def by (rule table_mono [OF deployer_steps_up assms])

theorem deployer_monotone_witness:
  "deployer_outcome PublicPoc ExpSmall AutoNo HiMedium \<le> deployer_outcome Active ExpOpen AutoYes HiMedium"
  by (rule deployer_monotone) simp_all

lemma rows_decide:
  assumes len: "length rest = 72" and ps: "list_all2 (\<lambda>(n, line) p. csv_row cols n line = Inr p) (enumerate 0 rest) ps"
    and dist: "distinct (map fst ps)"
  shows "\<exists>i < 72. \<exists>out. row_says cols (rest ! i) e x a h out \<and> fill ps (replicate 72 None) ! slot_of e x a h = Some out \<and>
    (\<forall>j < 72. \<forall>out'. row_says cols (rest ! j) e x a h out' \<longrightarrow> j = i)"
proof -
  have lps: "length ps = 72" using list_all2_lengthD [OF ps] len by simp
  have row: "csv_row cols i (rest ! i) = Inr (ps ! i)" if "i < 72" for i
    using list_all2_nthD2 [OF ps, of i] that lps len by (simp add: nth_enumerate_eq)
  have "set (map fst ps) \<subseteq> {..<72}"
  proof
    fix s assume "s \<in> set (map fst ps)"
    then obtain i where i: "i < 72" "s = fst (ps ! i)" using lps by (auto simp: in_set_conv_nth)
    then have "csv_row cols i (rest ! i) = Inr (s, snd (ps ! i))" using row by simp
    then show "s \<in> {..<72}" by (auto simp: csv_row_says)
  qed
  moreover have "card (set (map fst ps)) = 72" using distinct_card [OF dist] lps by simp
  ultimately have "set (map fst ps) = {..<72}" by (intro card_subset_eq) simp_all
  then have "slot_of e x a h \<in> set (map fst ps)" by simp
  then obtain i where i: "i < 72" "fst (ps ! i) = slot_of e x a h" using lps by (auto simp: in_set_conv_nth)
  then have pi: "ps ! i = (slot_of e x a h, snd (ps ! i))" by (metis prod.collapse)
  have says: "row_says cols (rest ! i) e x a h (snd (ps ! i))"
    using row [OF i(1)] by (subst (asm) pi) (auto simp: csv_row_says slot_inj)
  have "map_of ps (slot_of e x a h) = Some (snd (ps ! i))"
    using dist i(1) lps pi by (metis map_of_is_SomeI nth_mem)
  then have "fill ps (replicate 72 None) ! slot_of e x a h = Some (snd (ps ! i))"
    using fill_nth [OF dist, of "slot_of e x a h" "replicate 72 None"] by simp
  moreover have "j = i" if j: "j < 72" "row_says cols (rest ! j) e x a h out'" for j out'
  proof -
    have "csv_row cols j (rest ! j) = Inr (slot_of e x a h, out')" using j(2) csv_row_says by blast
    then have "fst (ps ! j) = fst (ps ! i)" using row [OF j(1)] i(2) by simp
    then show ?thesis using dist i(1) j(1) lps by (simp add: distinct_conv_nth) metis
  qed
  ultimately show ?thesis using i(1) says by blast
qed

lemma from_csv_loop:
  "from_csv text ident = Inr t \<longleftrightarrow>
     (\<exists>header rest cols ps. csv_lines text = header # rest \<and> csv_columns header = Inr cols \<and> length rest = 72 \<and>
        list_all2 (\<lambda>(n, line) p. csv_row cols n line = Inr p) (enumerate 0 rest) ps \<and> distinct (map fst ps) \<and>
        t = \<lparr>dt_id = ident, dt_rows = map (\<lambda>r. case r of None \<Rightarrow> Immediate | Some out \<Rightarrow> out) (fill ps (replicate 72 None))\<rparr>)"
proof (cases "csv_lines text")
  case (Cons header rest)
  have loop: "try_fold (csv_step cols) (enumerate 0 rest) (replicate 72 None) = Inr rows \<longleftrightarrow>
      (\<exists>ps. list_all2 (\<lambda>(n, line) p. csv_row cols n line = Inr p) (enumerate 0 rest) ps \<and> distinct (map fst ps) \<and>
        rows = fill ps (replicate 72 None))" for cols rows
  proof -
    have "list_all (\<lambda>p. replicate 72 None ! fst p = None) ps"
      if "list_all2 (\<lambda>(n, line) p. csv_row cols n line = Inr p) ls ps" for ls ps
      using that by (induction ls ps rule: list_all2_induct) (auto simp: csv_row_says)
    then show ?thesis by (subst csv_loop) auto
  qed
  have full: "length (filter (\<lambda>r. r = None) (fill ps (replicate 72 None))) = 0 \<longleftrightarrow> length rest = 72"
    if ps: "list_all2 (\<lambda>(n, line) p. csv_row cols n line = Inr p) (enumerate 0 rest) ps" "distinct (map fst ps)" for cols ps
  proof
    assume len: "length rest = 72"
    have "fill ps (replicate 72 None) ! s \<noteq> None" if small: "s < 72" for s
    proof -
      obtain e x a h where "s = slot_of e x a h" using slot_surj [OF small] by blast
      then show ?thesis using rows_decide [OF len ps, of e x a h] by auto
    qed
    then show "length (filter (\<lambda>r. r = None) (fill ps (replicate 72 None))) = 0"
      by (auto simp: filter_empty_conv in_set_conv_nth)
  next
    assume none: "length (filter (\<lambda>r. r = None) (fill ps (replicate 72 None))) = 0"
    have "s \<in> set (map fst ps)" if "s < 72" for s
    proof -
      have "fill ps (replicate 72 None) ! s \<noteq> None"
        using none that by (auto simp: filter_empty_conv all_set_conv_all_nth)
      then show ?thesis
        using fill_nth [OF ps(2), of s "replicate 72 None"] that by (auto simp: map_of_eq_None_iff split: option.splits) (metis image_eqI map_of_SomeD fst_conv)
    qed
    moreover have "set (map fst qs) \<subseteq> {..<72}"
      if "list_all2 (\<lambda>(n, line) p. csv_row cols n line = Inr p) ls qs" for ls qs
      using that by (induction ls qs rule: list_all2_induct) (auto simp: csv_row_says)
    ultimately have "set (map fst ps) = {..<72}" using ps(1) by fastforce
    then have "length ps = 72" using distinct_card [OF ps(2)] by simp
    then show "length rest = 72" using list_all2_lengthD [OF ps(1)] by simp
  qed
  show ?thesis
    using full by (simp add: from_csv_def Cons Let_def result_simps loop) blast
qed (simp add: from_csv_def)

lemma decides_all_rows:
  assumes len: "length rest = 72"
    and each: "\<And>e x a h. \<exists>!i. i < 72 \<and> (\<exists>out. row_says cols (rest ! i) e x a h out)"
  obtains ps where "list_all2 (\<lambda>(n, line) p. csv_row cols n line = Inr p) (enumerate 0 rest) ps" "distinct (map fst ps)"
proof -
  define says where "says s i \<longleftrightarrow> i < 72 \<and> (\<exists>out. csv_row cols i (rest ! i) = Inr (s, out))" for s i
  have says_slot: "says (slot_of e x a h) i \<longleftrightarrow> i < 72 \<and> (\<exists>out. row_says cols (rest ! i) e x a h out)" for e x a h i
    by (auto simp: says_def csv_row_says slot_inj)
  have ex1: "\<exists>!i. says s i" if small: "s < 72" for s
  proof -
    obtain e x a h where "s = slot_of e x a h" using slot_surj [OF small] by blast
    then show ?thesis using each [of e x a h] by (simp add: says_slot)
  qed
  then obtain f where f: "\<And>s. s < 72 \<Longrightarrow> says s (f s)" by metis
  have "inj_on f {..<72}"
  proof (rule inj_onI)
    fix s s' assume "s \<in> {..<72}" "s' \<in> {..<72}" "f s = f s'"
    then show "s = s'" using f [of s] f [of s'] by (auto simp: says_def)
  qed
  moreover have "f ` {..<72} \<subseteq> {..<72}" using f by (auto simp: says_def)
  ultimately have onto: "f ` {..<72} = {..<72}" by (simp add: endo_inj_surj)
  have "\<exists>p. csv_row cols i (rest ! i) = Inr p" if "i < length rest" for i
  proof -
    have "i \<in> f ` {..<72}" using onto that len by simp
    then obtain s where "s < 72" "i = f s" by blast
    then show ?thesis using f [of s] by (auto simp: says_def)
  qed
  then obtain g where g: "\<And>i. i < length rest \<Longrightarrow> csv_row cols i (rest ! i) = Inr (g i)" by metis
  have "list_all2 (\<lambda>(n, line) p. csv_row cols n line = Inr p) (enumerate 0 rest) (map g [0..<length rest])"
    by (rule list_all2_all_nthI) (simp_all add: g nth_enumerate_eq)
  moreover have "i = j" if "i < length rest" "j < length rest" "fst (g i) = fst (g j)" for i j
  proof -
    have pair: "csv_row cols k (rest ! k) = Inr (fst (g k), snd (g k))" if "k < length rest" for k using g [OF that] by simp
    have "says (fst (g i)) i" "says (fst (g i)) j"
      unfolding says_def using pair [OF that(1)] pair [OF that(2), folded that(3)] that(1,2) [unfolded len]
      by (blast, blast)
    moreover have "fst (g i) < 72" using pair [OF that(1)] unfolding csv_row_says by auto
    ultimately show ?thesis using ex1 by blast
  qed
  then have "distinct (map fst (map g [0..<length rest]))" by (auto simp: distinct_map inj_on_def)
  ultimately show ?thesis by (rule that)
qed

text \<open>C28: A text is accepted as a decision table exactly when it has a header with the five columns and 72
  rows that between them name every combination of the four decision points once, and the table
  then gives each combination the outcome that its row names.\<close>

theorem from_csv_decides_all:
  "from_csv text ident = Inr t \<longleftrightarrow> dt_id t = ident \<and> decides_all text t"
proof
  assume "from_csv text ident = Inr t"
  then obtain header rest cols ps where r: "csv_lines text = header # rest" "csv_columns header = Inr cols" "length rest = 72"
    "list_all2 (\<lambda>(n, line) p. csv_row cols n line = Inr p) (enumerate 0 rest) ps" "distinct (map fst ps)"
    and t: "t = \<lparr>dt_id = ident, dt_rows = map (\<lambda>r. case r of None \<Rightarrow> Immediate | Some out \<Rightarrow> out) (fill ps (replicate 72 None))\<rparr>"
    unfolding from_csv_loop by blast
  note decide = rows_decide [OF r(3-5)]
  have "\<exists>!i. i < 72 \<and> (\<exists>out. row_says cols (rest ! i) e x a h out)" for e x a h using decide [of e x a h] by blast
  moreover have "\<exists>i < 72. row_says cols (rest ! i) e x a h (table_outcome t e x a h)" for e x a h
    using decide [of e x a h] by (fastforce simp: t table_outcome_def slot_of_def [symmetric])
  moreover have "length (dt_rows t) = 72" "dt_id t = ident" by (simp_all add: t)
  ultimately show "dt_id t = ident \<and> decides_all text t" using r(1-3) unfolding decides_all_def by blast
next
  assume t: "dt_id t = ident \<and> decides_all text t"
  then obtain header rest cols where r: "csv_lines text = header # rest" "csv_columns header = Inr cols" "length rest = 72"
    "length (dt_rows t) = 72" and each: "\<And>e x a h. \<exists>!i. i < 72 \<and> (\<exists>out. row_says cols (rest ! i) e x a h out)"
    and out: "\<And>e x a h. \<exists>i < 72. row_says cols (rest ! i) e x a h (table_outcome t e x a h)"
    unfolding decides_all_def by metis
  obtain ps where ps: "list_all2 (\<lambda>(n, line) p. csv_row cols n line = Inr p) (enumerate 0 rest) ps" "distinct (map fst ps)"
    by (rule decides_all_rows [OF r(3) each])
  have "dt_rows t ! s = (case fill ps (replicate 72 None) ! s of None \<Rightarrow> Immediate | Some out \<Rightarrow> out)" if small: "s < 72" for s
  proof -
    obtain e x a h where s: "s = slot_of e x a h" using slot_surj [OF small] by blast
    obtain i out' where i: "row_says cols (rest ! i) e x a h out'" "fill ps (replicate 72 None) ! s = Some out'"
      "\<And>j out''. j < 72 \<Longrightarrow> row_says cols (rest ! j) e x a h out'' \<Longrightarrow> j = i"
      using rows_decide [OF r(3) ps, of e x a h] s by blast
    then have "table_outcome t e x a h = out'" using out [of e x a h] row_says_inj by blast
    then show ?thesis using i(2) by (simp add: s table_outcome_def slot_of_def)
  qed
  then have "dt_rows t = map (\<lambda>r. case r of None \<Rightarrow> Immediate | Some out \<Rightarrow> out) (fill ps (replicate 72 None))"
    using r(4) by (intro nth_equalityI) simp_all
  then have "t = \<lparr>dt_id = ident, dt_rows = map (\<lambda>r. case r of None \<Rightarrow> Immediate | Some out \<Rightarrow> out) (fill ps (replicate 72 None))\<rparr>"
    using t by (cases t) simp
  then show "from_csv text ident = Inr t" unfolding from_csv_loop using r(1-3) ps by blast
qed

text \<open>Automatable fails closed: the answer is no only for a vector of CVSS 3 or 4 that carries every
  metric the question needs and makes at least one of them hard; everything else is yes.\<close>

theorem automatable_fails_closed:
  "automatable vector = AutoNo \<longleftrightarrow>
     (case vector of
        None \<Rightarrow> False
      | Some vec \<Rightarrow>
          (case required_metrics vec of
             None \<Rightarrow> False
           | Some required \<Rightarrow>
               list_all (\<lambda>(name, easy). metric vec name \<noteq> None) required \<and>
               \<not> list_all (\<lambda>(name, easy). metric vec name = Some easy) required))"
proof (cases vector)
  case None
  then show ?thesis by (simp add: automatable_def)
next
  case (Some vec)
  then show ?thesis by (simp only: automatable_No option.case)
qed

end
