(* ===== verification/All_Paths.thy ===== *)
theory All_Paths
  imports Rust_Map Bfs "HOL-Library.Sublist"
begin

text \<open>
  \<^verbatim>\<open>all_paths\<close> of \<^verbatim>\<open>src/crates/core/src/depgraph.rs\<close>: every path without a repeated node from a root
  to a target, by length.  A first search collects the reachable nodes and who depends on each, a
  second one, backwards, gives each node its distance to the target, and a depth-first walk for
  every length is pruned by the distances and stops at a cap or when its budget is used up.  The
  loops are \<open>partial_function\<close>s: a graph is given by a function and may be infinite.
\<close>

section \<open>The two searches\<close>

type_synonym 'n reach_state = "'n bset \<times> 'n list \<times> ('n, 'n list) btree"

definition reach_visit :: "'n cmp \<Rightarrow> 'n \<Rightarrow> 'n \<Rightarrow> 'n reach_state \<Rightarrow> 'n reach_state" where
  "reach_visit c node dep st =
     (case st of (seen, queue, dependents) \<Rightarrow>
        (bs_insert c dep seen, if bs_mem c dep seen then queue else queue @ [dep],
         bt_push c dep node dependents))"

partial_function (option) reach_loop ::
  "'n cmp \<Rightarrow> ('n \<Rightarrow> 'n list) \<Rightarrow> 'n reach_state \<Rightarrow> ('n bset \<times> ('n, 'n list) btree) option" where
  "reach_loop c nx st =
     (case st of (seen, queue, dependents) \<Rightarrow>
        (case queue of
           [] \<Rightarrow> Some (seen, dependents)
         | node # rest \<Rightarrow> reach_loop c nx (fold (reach_visit c node) (nx node) (seen, rest, dependents))))"

type_synonym 'n dist_state = "('n, nat) btree \<times> 'n list"

definition dist_visit :: "'n cmp \<Rightarrow> nat \<Rightarrow> 'n \<Rightarrow> 'n dist_state \<Rightarrow> 'n dist_state" where
  "dist_visit c away dependent st =
     (case st of (distance, queue) \<Rightarrow>
        if bt_get c dependent distance \<noteq> None then st
        else (bt_insert c dependent away distance, queue @ [dependent]))"

definition dependents_of :: "'n cmp \<Rightarrow> 'n \<Rightarrow> ('n, 'n list) btree \<Rightarrow> 'n list" where
  "dependents_of c node dependents = (case bt_get c node dependents of None \<Rightarrow> [] | Some ds \<Rightarrow> ds)"

partial_function (option) dist_loop ::
  "'n cmp \<Rightarrow> ('n, 'n list) btree \<Rightarrow> 'n dist_state \<Rightarrow> ('n, nat) btree option" where
  "dist_loop c dependents st =
     (case st of (distance, queue) \<Rightarrow>
        (case queue of
           [] \<Rightarrow> Some distance
         | node # rest \<Rightarrow>
             (case bt_get c node distance of
                None \<Rightarrow> None
              | Some d \<Rightarrow>
                  dist_loop c dependents
                    (fold (dist_visit c (d + 1)) (dependents_of c node dependents) (distance, rest)))))"

declare reach_loop.simps [code] and dist_loop.simps [code]

section \<open>The walk\<close>

record 'n walk_state =
  wk_out :: "'n list list"
  wk_steps :: nat
  wk_short :: bool

text \<open>\<^verbatim>\<open>sort\<close> and \<^verbatim>\<open>dedup\<close> of a vector of nodes.\<close>

definition sorted_nodes :: "'n cmp \<Rightarrow> 'n list \<Rightarrow> 'n list" where
  "sorted_nodes c ns = dedup_by (\<lambda>a b. c a b = Equal) (sort_by c ns)"

text \<open>\<open>left\<close> is how many nodes are missing to the wanted length; the path is never empty.\<close>

fun extend ::
  "'n cmp \<Rightarrow> ('n \<Rightarrow> 'n list) \<Rightarrow> 'n \<Rightarrow> ('n, nat) btree \<Rightarrow> nat \<Rightarrow> nat \<Rightarrow> 'n list \<Rightarrow> 'n walk_state \<Rightarrow> 'n walk_state" where
  "extend c nx target distance cap left path st =
     (if wk_short st \<or> path = [] then st
      else if (case bt_get c (last path) distance of None \<Rightarrow> True | Some d \<Rightarrow> left < d) then st
      else if wk_steps st = 0 then st\<lparr>wk_short := True\<rparr>
      else
        (let st = st\<lparr>wk_steps := wk_steps st - 1\<rparr>
         in case left of
              0 \<Rightarrow>
                if last path = target
                then (if length (wk_out st) = cap then st\<lparr>wk_short := True\<rparr>
                      else st\<lparr>wk_out := wk_out st @ [path]\<rparr>)
                else st
            | Suc l \<Rightarrow>
                fold (\<lambda>dep st. if dep \<in> set path then st
                                else extend c nx target distance cap l (path @ [dep]) st)
                  (sorted_nodes c (nx (last path))) st))"

declare extend.simps [simp del]

fun walk_lengths ::
  "'n cmp \<Rightarrow> ('n \<Rightarrow> 'n list) \<Rightarrow> 'n \<Rightarrow> ('n, nat) btree \<Rightarrow> nat \<Rightarrow> 'n list \<Rightarrow> nat list \<Rightarrow> 'n walk_state \<Rightarrow> 'n walk_state" where
  "walk_lengths c nx target distance cap roots [] st = st"
| "walk_lengths c nx target distance cap roots (len # lens) st =
     (let st = fold (\<lambda>root. extend c nx target distance cap (len - 1) [root]) roots st
      in if wk_short st then st else walk_lengths c nx target distance cap roots lens st)"

definition walk_budget :: nat where
  "walk_budget = 2000000"

definition all_paths ::
  "'n cmp \<Rightarrow> 'n list \<Rightarrow> ('n \<Rightarrow> 'n list) \<Rightarrow> 'n \<Rightarrow> nat \<Rightarrow> ('n list list \<times> bool) option" where
  "all_paths c roots nx target cap =
     Option.bind (reach_loop c nx (bs_of_list c roots, roots, []))
       (\<lambda>(seen, dependents).
          Option.bind
            (dist_loop c dependents
              (if bs_mem c target seen then (bt_insert c target 0 [], [target]) else ([], [])))
            (\<lambda>distance.
               let st = walk_lengths c nx target distance cap (sorted_nodes c roots) [1..<Suc (length seen)]
                     \<lparr>wk_out = [], wk_steps = walk_budget, wk_short = False\<rparr>
               in Some (wk_out st, wk_short st)))"

section \<open>What is to be found\<close>

definition simple_path :: "'n list \<Rightarrow> ('n \<Rightarrow> 'n list) \<Rightarrow> 'n \<Rightarrow> 'n list \<Rightarrow> bool" where
  "simple_path roots nx target p \<longleftrightarrow>
     dep_chain nx p \<and> hd p \<in> set roots \<and> last p = target \<and> distinct p"

text \<open>Every completion of a path by a given number of nodes, in the order of the walk, unpruned.\<close>

fun completions :: "'n cmp \<Rightarrow> ('n \<Rightarrow> 'n list) \<Rightarrow> 'n \<Rightarrow> nat \<Rightarrow> 'n list \<Rightarrow> 'n list list" where
  "completions c nx target 0 path = (if last path = target then [path] else [])"
| "completions c nx target (Suc l) path =
     concat (map (\<lambda>dep. if dep \<in> set path then [] else completions c nx target l (path @ [dep]))
       (sorted_nodes c (nx (last path))))"

text \<open>
  The steps a walk may take: one for every path without a repeated node it can grow to, from
  each root and for each length.
\<close>

fun walk_cost :: "'n cmp \<Rightarrow> ('n \<Rightarrow> 'n list) \<Rightarrow> nat \<Rightarrow> 'n list \<Rightarrow> nat" where
  "walk_cost c nx 0 path = 1"
| "walk_cost c nx (Suc l) path =
     Suc (sum_list (map (\<lambda>dep. if dep \<in> set path then 0 else walk_cost c nx l (path @ [dep]))
       (sorted_nodes c (nx (last path)))))"

definition walks_cost :: "'n cmp \<Rightarrow> ('n \<Rightarrow> 'n list) \<Rightarrow> 'n list \<Rightarrow> nat list \<Rightarrow> nat" where
  "walks_cost c nx roots lens =
     sum_list (map (\<lambda>len. sum_list (map (\<lambda>root. walk_cost c nx (len - 1) [root]) roots)) lens)"

context rust_total_ord
begin

lemma set_sorted_nodes [simp]: "set (sorted_nodes cmp ns) = set ns"
proof -
  have eq: "set (dedup_by (\<lambda>a b. cmp a b = Equal) xs) = set xs" for xs
    by (induction "\<lambda>a b. cmp a b = Equal" xs rule: dedup_by.induct) auto
  show ?thesis by (simp only: sorted_nodes_def eq set_sort_by)
qed

lemma sorted_dedup_strict:
  "sorted_by cmp xs \<Longrightarrow> sorted_wrt (\<lambda>x y. cmp x y = Less) (dedup_by (\<lambda>a b. cmp a b = Equal) xs)"
proof (induction "\<lambda>a b. cmp a b = Equal" xs rule: dedup_by.induct)
  case (1 x y ys)
  have sorted: "cmp x y \<noteq> Greater" "\<forall>z \<in> set ys. cmp y z \<noteq> Greater" "sorted_by cmp (y # ys)" "sorted_by cmp (x # ys)"
    using 1(3) by simp_all
  show ?case
  proof (cases "cmp y x = Equal")
    case True
    then show ?thesis using 1(1) [OF True sorted(4)] by simp
  next
    case False
    then have less: "cmp x y = Less" using sorted(1) by (cases "cmp x y") simp_all
    have "cmp x z = Less" if z: "z \<in> set (dedup_by (\<lambda>a b. cmp a b = Equal) (y # ys))" for z
    proof (cases "z = y")
      case True
      then show ?thesis using less by simp
    next
      case False
      then have "z \<in> set ys" using z set_dedup_by_subset [of "\<lambda>a b. cmp a b = Equal" "y # ys"] by auto
      then show ?thesis using sorted(2) cmp_less_le_trans [OF less] by blast
    qed
    then show ?thesis using 1(2) [OF False sorted(3)] False by simp
  qed
qed simp_all

lemma distinct_sorted_nodes: "distinct (sorted_nodes cmp ns)"
proof -
  have "sorted_wrt (\<lambda>x y. cmp x y = Less) (sorted_nodes cmp ns)"
    unfolding sorted_nodes_def by (rule sorted_dedup_strict) (rule sorted_sort_by)
  then have "sorted_wrt (\<noteq>) (sorted_nodes cmp ns)"
    by (rule sorted_wrt_mono_rel [rotated]) auto
  then show ?thesis by (simp add: distinct_conv_nth sorted_wrt_iff_nth_less) (metis linorder_neqE_nat)
qed

text \<open>
  What a walk over one or more starting points adds: a prefix of what it looks for, all of it
  unless it stopped short, which takes more finds than the cap leaves room for or more steps than
  are left.  \<open>n\<close> bounds the steps.
\<close>

definition adds :: "nat \<Rightarrow> nat \<Rightarrow> 'n list list \<Rightarrow> 'n walk_state \<Rightarrow> 'n walk_state \<Rightarrow> bool" where
  "adds cap n xs st st' \<longleftrightarrow>
     (\<exists>ys. wk_out st' = wk_out st @ ys \<and> prefix ys xs \<and> (\<not> wk_short st' \<longrightarrow> ys = xs \<and> \<not> wk_short st) \<and>
       (wk_short st \<longrightarrow> wk_short st' \<and> ys = [])) \<and>
     (length (wk_out st) \<le> cap \<longrightarrow> length (wk_out st') \<le> cap) \<and> wk_steps st \<le> wk_steps st' + n \<and>
     (wk_short st' \<longrightarrow> \<not> wk_short st \<longrightarrow> length (wk_out st) \<le> cap \<longrightarrow>
        cap < length (wk_out st) + length xs \<or> wk_steps st < n)"

lemma adds_none: "wk_short st \<Longrightarrow> adds cap n xs st st" "adds cap n [] st st"
  by (auto simp: adds_def)

lemma adds_trans:
  assumes a: "adds cap n xs st st1" and b: "adds cap m zs st1 st2"
  shows "adds cap (n + m) (xs @ zs) st st2"
proof -
  obtain ys where ys: "wk_out st1 = wk_out st @ ys" "prefix ys xs" "\<not> wk_short st1 \<Longrightarrow> ys = xs \<and> \<not> wk_short st"
    "wk_short st \<Longrightarrow> wk_short st1 \<and> ys = []" using a unfolding adds_def by blast
  obtain ws where ws: "wk_out st2 = wk_out st1 @ ws" "prefix ws zs" "\<not> wk_short st2 \<Longrightarrow> ws = zs \<and> \<not> wk_short st1"
    "wk_short st1 \<Longrightarrow> wk_short st2 \<and> ws = []" using b unfolding adds_def by blast
  have "prefix (ys @ ws) (xs @ zs)"
  proof (cases "wk_short st1")
    case True
    then show ?thesis using ws(4) ys(2) by simp
  next
    case False
    then show ?thesis using ys(3) ws(2) by simp
  qed
  moreover have "length (wk_out st) \<le> cap \<longrightarrow> length (wk_out st2) \<le> cap" using a b unfolding adds_def by blast
  moreover have "wk_out st2 = wk_out st @ (ys @ ws)" by (simp add: ws(1) ys(1))
  moreover have "\<not> wk_short st2 \<longrightarrow> ys @ ws = xs @ zs \<and> \<not> wk_short st" using ys(3) ws(3) by blast
  moreover have "wk_short st \<longrightarrow> wk_short st2 \<and> ys @ ws = []" using ys(4) ws(4) by blast
  moreover have steps: "wk_steps st \<le> wk_steps st1 + n" "wk_steps st1 \<le> wk_steps st2 + m"
    using a b unfolding adds_def by blast+
  moreover have "cap < length (wk_out st) + length (xs @ zs) \<or> wk_steps st < n + m"
    if stop: "wk_short st2" "\<not> wk_short st" "length (wk_out st) \<le> cap"
  proof (cases "wk_short st1")
    case True
    then have "cap < length (wk_out st) + length xs \<or> wk_steps st < n" using a stop unfolding adds_def by blast
    then show ?thesis by auto
  next
    case False
    then have "cap < length (wk_out st1) + length zs \<or> wk_steps st1 < m"
      using a b stop unfolding adds_def by blast
    then show ?thesis using steps ys(1,3) False by auto
  qed
  ultimately show ?thesis unfolding adds_def by (intro conjI impI exI [of _ "ys @ ws"]) (simp_all add: add.assoc)
qed

lemma adds_fold:
  assumes "\<And>x st. x \<in> set xs \<Longrightarrow> adds cap (n x) (g x) st (f x st)"
  shows "adds cap (sum_list (map n xs)) (concat (map g xs)) st (fold f xs st)"
  using assms
proof (induction xs arbitrary: st)
  case Nil
  then show ?case by (simp add: adds_none)
next
  case (Cons x xs)
  then have "adds cap (n x) (g x) st (f x st)"
    "adds cap (sum_list (map n xs)) (concat (map g xs)) (f x st) (fold f xs (f x st))" by simp_all
  from adds_trans [OF this] show ?case by simp
qed

text \<open>The completions are the right ones.\<close>

lemma completions_iff:
  "path \<noteq> [] \<Longrightarrow> q \<in> set (completions cmp nx target l path) \<longleftrightarrow>
     (\<exists>ys. q = path @ ys \<and> length ys = l \<and> dep_chain nx (last path # ys) \<and> last q = target \<and>
       distinct ys \<and> set ys \<inter> set path = {})"
proof (induction l arbitrary: path)
  case 0
  then show ?case by auto
next
  case (Suc l)
  have step: "q \<in> set (completions cmp nx target (Suc l) path) \<longleftrightarrow>
      (\<exists>dep \<in> set (nx (last path)). dep \<notin> set path \<and> q \<in> set (completions cmp nx target l (path @ [dep])))"
    by auto
  have IH: "q \<in> set (completions cmp nx target l (path @ [dep])) \<longleftrightarrow>
     (\<exists>ys. q = (path @ [dep]) @ ys \<and> length ys = l \<and> dep_chain nx (last (path @ [dep]) # ys) \<and> last q = target \<and>
       distinct ys \<and> set ys \<inter> set (path @ [dep]) = {})" for dep
    by (rule Suc.IH) simp
  show ?case
    unfolding step IH
  proof
    assume "\<exists>dep \<in> set (nx (last path)). dep \<notin> set path \<and> (\<exists>ys. q = (path @ [dep]) @ ys \<and> length ys = l \<and>
      dep_chain nx (last (path @ [dep]) # ys) \<and> last q = target \<and> distinct ys \<and> set ys \<inter> set (path @ [dep]) = {})"
    then obtain dep ys where "dep \<in> set (nx (last path))" "dep \<notin> set path" "q = (path @ [dep]) @ ys" "length ys = l"
      "dep_chain nx (dep # ys)" "last q = target" "distinct ys" "set ys \<inter> set (path @ [dep]) = {}" by auto
    then show "\<exists>ys. q = path @ ys \<and> length ys = Suc l \<and> dep_chain nx (last path # ys) \<and> last q = target \<and>
       distinct ys \<and> set ys \<inter> set path = {}"
      by (intro exI [of _ "dep # ys"]) auto
  next
    assume "\<exists>ys. q = path @ ys \<and> length ys = Suc l \<and> dep_chain nx (last path # ys) \<and> last q = target \<and>
       distinct ys \<and> set ys \<inter> set path = {}"
    then obtain ys where ys: "q = path @ ys" "length ys = Suc l" "dep_chain nx (last path # ys)" "last q = target"
      "distinct ys" "set ys \<inter> set path = {}" by blast
    then obtain dep zs where "ys = dep # zs" by (cases ys) auto
    then show "\<exists>dep \<in> set (nx (last path)). dep \<notin> set path \<and> (\<exists>ys. q = (path @ [dep]) @ ys \<and> length ys = l \<and>
      dep_chain nx (last (path @ [dep]) # ys) \<and> last q = target \<and> distinct ys \<and> set ys \<inter> set (path @ [dep]) = {})"
      using ys by (intro bexI [of _ dep] conjI exI [of _ zs]) auto
  qed
qed

text \<open>A distance that no chain to the target undercuts never prunes a completion.\<close>

definition dist_ok :: "('a \<Rightarrow> 'a list) \<Rightarrow> 'a \<Rightarrow> ('a, nat) btree \<Rightarrow> 'a set \<Rightarrow> bool" where
  "dist_ok nx target distance S \<longleftrightarrow>
     (\<forall>x \<in> S. set (nx x) \<subseteq> S) \<and>
     (\<forall>p. dep_chain nx p \<longrightarrow> hd p \<in> S \<longrightarrow> last p = target \<longrightarrow>
        (\<exists>d. bt_get cmp (hd p) distance = Some d \<and> d < length p))"

lemma pruned_completions:
  assumes "dist_ok nx target distance S" and "path \<noteq> []" "last path \<in> S"
    and pruned: "case bt_get cmp (last path) distance of None \<Rightarrow> True | Some d \<Rightarrow> left < d"
  shows "completions cmp nx target left path = []"
proof (rule ccontr)
  assume "completions cmp nx target left path \<noteq> []"
  then obtain q where "q \<in> set (completions cmp nx target left path)" by (cases "completions cmp nx target left path") auto
  then obtain ys where ys: "q = path @ ys" "length ys = left" "dep_chain nx (last path # ys)" "last q = target"
    unfolding completions_iff [OF assms(2)] by blast
  have "last (last path # ys) = target" using ys(1,4) assms(2) by (cases ys) auto
  then obtain d where "bt_get cmp (last path) distance = Some d" "d < Suc left"
    using assms(1,3) ys(2,3) unfolding dist_ok_def by (metis length_Cons list.sel(1))
  then show False using pruned by simp
qed

lemma extend_adds:
  assumes ok: "dist_ok nx target distance S"
  shows "path \<noteq> [] \<Longrightarrow> last path \<in> S \<Longrightarrow>
    adds cap (walk_cost cmp nx left path) (completions cmp nx target left path) st
      (extend cmp nx target distance cap left path st)"
proof (induction left arbitrary: path st)
  case 0
  then show ?case
    using pruned_completions [OF ok 0, of 0]
    by (auto simp: extend.simps [of cmp nx target distance cap 0] adds_def Let_def prefix_def split: option.splits)
next
  case (Suc l)
  show ?case
  proof (cases "wk_short st")
    case True
    then show ?thesis by (simp add: extend.simps adds_def)
  next
    case False
    show ?thesis
    proof (cases "case bt_get cmp (last path) distance of None \<Rightarrow> True | Some d \<Rightarrow> Suc l < d")
      case True
      then have run: "extend cmp nx target distance cap (Suc l) path st = st" by (simp add: extend.simps)
      show ?thesis unfolding run pruned_completions [OF ok Suc.prems True] by (rule adds_none)
    next
      case np: False
      show ?thesis
      proof (cases "wk_steps st = 0")
        case True
        then have "extend cmp nx target distance cap (Suc l) path st = st\<lparr>wk_short := True\<rparr>"
          using False np Suc.prems by (simp add: extend.simps)
        then show ?thesis using False True by (simp add: adds_def)
      next
        case steps: False
        let ?st = "st\<lparr>wk_steps := wk_steps st - 1\<rparr>"
        let ?f = "\<lambda>dep st. if dep \<in> set path then st else extend cmp nx target distance cap l (path @ [dep]) st"
        have run: "extend cmp nx target distance cap (Suc l) path st = fold ?f (sorted_nodes cmp (nx (last path))) ?st"
          using False np steps Suc.prems by (subst extend.simps) (simp add: Let_def)
        let ?g = "\<lambda>dep. if dep \<in> set path then [] else completions cmp nx target l (path @ [dep])"
        let ?n = "\<lambda>dep. if dep \<in> set path then 0 else walk_cost cmp nx l (path @ [dep])"
        have inner: "adds cap (?n dep) (?g dep) st' (?f dep st')"
          if "dep \<in> set (sorted_nodes cmp (nx (last path)))" for dep st'
        proof -
          have "dep \<in> S" using that ok Suc.prems by (auto simp: dist_ok_def)
          then show ?thesis using Suc.IH [of "path @ [dep]" st'] by (simp add: adds_none)
        qed
        have "adds cap (sum_list (map ?n (sorted_nodes cmp (nx (last path))))) (completions cmp nx target (Suc l) path)
            ?st (fold ?f (sorted_nodes cmp (nx (last path))) ?st)"
          unfolding completions.simps by (rule adds_fold) (rule inner)
        then show ?thesis unfolding run walk_cost.simps using steps by (auto simp: adds_def)
      qed
    qed
  qed
qed

definition all_of_length :: "('a \<Rightarrow> 'a list) \<Rightarrow> 'a \<Rightarrow> 'a list \<Rightarrow> nat \<Rightarrow> 'a list list" where
  "all_of_length nx target roots len = concat (map (\<lambda>root. completions cmp nx target (len - 1) [root]) roots)"

lemma walk_lengths_adds:
  assumes ok: "dist_ok nx target distance S" and roots: "set roots \<subseteq> S"
  shows "adds cap (walks_cost cmp nx roots lens) (concat (map (all_of_length nx target roots) lens)) st
    (walk_lengths cmp nx target distance cap roots lens st)"
proof (induction lens arbitrary: st)
  case Nil
  then show ?case by (simp add: adds_none walks_cost_def)
next
  case (Cons len lens)
  let ?st = "fold (\<lambda>root. extend cmp nx target distance cap (len - 1) [root]) roots st"
  have inner: "adds cap (walk_cost cmp nx (len - 1) [root]) (completions cmp nx target (len - 1) [root]) st'
      (extend cmp nx target distance cap (len - 1) [root] st')"
    if "root \<in> set roots" for root st'
    using that roots by (intro extend_adds [OF ok]) auto
  have one: "adds cap (sum_list (map (\<lambda>root. walk_cost cmp nx (len - 1) [root]) roots))
      (all_of_length nx target roots len) st ?st"
    unfolding all_of_length_def by (rule adds_fold) (rule inner)
  show ?case
  proof (cases "wk_short ?st")
    case True
    then have "adds cap (walks_cost cmp nx roots lens) (concat (map (all_of_length nx target roots) lens)) ?st ?st"
      by (rule adds_none)
    from adds_trans [OF one this] show ?thesis using True by (simp add: walks_cost_def)
  next
    case False
    then show ?thesis using adds_trans [OF one Cons.IH [of ?st]] by (simp add: walks_cost_def)
  qed
qed

end

end
