(* ===== verification/All_Paths_Props.thy ===== *)
theory All_Paths_Props
  imports All_Paths
begin

text \<open>
  What \<open>all_paths\<close> promises on every finite graph: it returns; its list is an initial piece of all the
  paths without a repeated node, in the documented order; the piece is everything unless the flag
  says it stopped short, and then there were more paths than the cap or the budget was used up.
\<close>

section \<open>The order of the answer\<close>

text \<open>The shorter come first and those of one length ascend.\<close>

definition path_before :: "'a cmp \<Rightarrow> 'a list \<Rightarrow> 'a list \<Rightarrow> bool" where
  "path_before c p q \<longleftrightarrow> length p < length q \<or> length p = length q \<and> cmp_list c p q = Less"

section \<open>The forward search\<close>

context rust_total_ord
begin

lemma dependents_push:
  "bt_wf cmp m \<Longrightarrow> set (dependents_of cmp v (bt_push cmp dep node m)) =
     (if v = dep then insert node (set (dependents_of cmp v m)) else set (dependents_of cmp v m))"
  unfolding dependents_of_def bt_push_def by (cases "bt_get cmp dep m") (auto simp: bt_get_alter)

text \<open>The nodes of a set that were not seen yet, one search step at a time.\<close>

lemma set_diff_diff_left: "A - {d} - D = A - insert d D" by auto

lemma card_fresh:
  assumes "finite R" "x \<in> R" "x \<notin> V"
  shows "Suc (card (R - insert x V)) = card (R - V)"
proof -
  have "R - V = insert x (R - insert x V)" using assms by auto
  then show ?thesis using assms(1) by (metis Diff_iff card_insert_disjoint finite_Diff insertI1)
qed

text \<open>
  Between two turns: what has left the queue has all its dependencies seen and is recorded as
  their dependent, \<open>todo\<close> apart.
\<close>

definition reach_ok :: "'a set \<Rightarrow> 'a set \<Rightarrow> ('a \<Rightarrow> 'a list) \<Rightarrow> ('a \<Rightarrow> 'a set) \<Rightarrow> 'a set \<Rightarrow> 'a set \<Rightarrow> ('a \<Rightarrow> 'a set) \<Rightarrow> bool" where
  "reach_ok R roots nx todo V Q Dp \<longleftrightarrow>
     Q \<subseteq> V \<and> V \<subseteq> R \<and> roots \<subseteq> V \<and> (\<forall>v. Dp v \<subseteq> R) \<and>
     (\<forall>u \<in> V - Q. \<forall>v \<in> set (nx u) - todo u. v \<in> V \<and> u \<in> Dp v)"

definition seen_of :: "'a bset \<Rightarrow> 'a set" where
  "seen_of s = fst ` set s"

definition reach_inv :: "'a set \<Rightarrow> 'a set \<Rightarrow> ('a \<Rightarrow> 'a list) \<Rightarrow> ('a \<Rightarrow> 'a set) \<Rightarrow> nat \<Rightarrow> 'a reach_state \<Rightarrow> bool" where
  "reach_inv R roots nx todo n st \<longleftrightarrow>
     (case st of (seen, queue, dependents) \<Rightarrow>
        bt_wf cmp seen \<and> bt_wf cmp dependents \<and>
        reach_ok R roots nx todo (seen_of seen) (set queue) (\<lambda>v. set (dependents_of cmp v dependents)) \<and>
        n = card (R - seen_of seen) + length queue)"

lemma reach_ok_visit:
  assumes "reach_ok R roots nx todo V Q Dp" "dep \<in> R" "node \<in> R"
  shows "reach_ok R roots nx (todo(node := todo node - {dep})) (insert dep V) (if dep \<in> V then Q else insert dep Q)
    (\<lambda>v. if v = dep then insert node (Dp v) else Dp v)"
  using assms unfolding reach_ok_def by (intro conjI ballI allI) (auto split: if_splits)

lemma reach_visit_inv:
  assumes inv: "reach_inv R roots nx todo n st" and R: "finite R" "dep \<in> R" "node \<in> R"
  shows "reach_inv R roots nx (todo(node := todo node - {dep})) n (reach_visit cmp node dep st)"
proof -
  obtain seen queue deps where st: "st = (seen, queue, deps)" by (cases st)
  have wf: "bt_wf cmp seen" "bt_wf cmp deps" and n: "n = card (R - seen_of seen) + length queue"
    and ok: "reach_ok R roots nx todo (seen_of seen) (set queue) (\<lambda>v. set (dependents_of cmp v deps))"
    using inv unfolding st reach_inv_def prod.case by blast+
  have items: "seen_of (bs_insert cmp dep seen) = insert dep (seen_of seen)"
    unfolding bs_insert_def seen_of_def by (rule keys_alter [OF wf(1)])
  have mem: "bs_mem cmp dep seen \<longleftrightarrow> dep \<in> seen_of seen"
    unfolding bs_mem_def seen_of_def by (rule key_iff_get [OF wf(1), symmetric])
  have count: "n = card (R - insert dep (seen_of seen)) + length (if dep \<in> seen_of seen then queue else queue @ [dep])"
    using card_fresh [OF R(1,2)] unfolding n by (auto simp: insert_absorb)
  have q: "set (if dep \<in> seen_of seen then queue else queue @ [dep]) =
      (if dep \<in> seen_of seen then set queue else insert dep (set queue))" by simp
  have "bt_wf cmp (bs_insert cmp dep seen)" "bt_wf cmp (bt_push cmp dep node deps)"
    unfolding bs_insert_def bt_push_def using wf by (simp_all add: bt_wf_alter)
  then show ?thesis
    unfolding st reach_visit_def prod.case reach_inv_def items mem dependents_push [OF wf(2)] q
    by (intro conjI reach_ok_visit [OF ok R(2,3)] count)
qed

lemma reach_fold_inv:
  assumes "finite R" "node \<in> R"
  shows "set ds \<subseteq> R \<Longrightarrow> reach_inv R roots nx todo n st \<Longrightarrow>
    reach_inv R roots nx (todo(node := todo node - set ds)) n (fold (reach_visit cmp node) ds st)"
proof (induction ds arbitrary: todo st)
  case (Cons d ds)
  let ?todo = "todo(node := todo node - {d})"
  have "reach_inv R roots nx ?todo n (reach_visit cmp node d st)"
    using Cons.prems assms by (intro reach_visit_inv) auto
  then have "reach_inv R roots nx (?todo(node := ?todo node - set ds)) n
      (fold (reach_visit cmp node) ds (reach_visit cmp node d st))"
    by (intro Cons.IH [where todo = ?todo]) (use Cons.prems(1) in simp)
  moreover have "?todo(node := ?todo node - set ds) = todo(node := todo node - set (d # ds))"
    by (simp add: set_diff_diff_left)
  ultimately show ?case by (simp only: fold.simps comp_apply)
qed simp

lemma reach_ok_pop:
  "reach_ok R roots nx (\<lambda>_. {}) V (insert node Q) Dp \<Longrightarrow>
     node \<in> R \<and> reach_ok R roots nx ((\<lambda>_. {})(node := set (nx node))) V Q Dp"
proof -
  assume ok: "reach_ok R roots nx (\<lambda>_. {}) V (insert node Q) Dp"
  have "v \<in> V \<and> u \<in> Dp v" if "u \<in> V - Q" "v \<in> set (nx u) - ((\<lambda>_. {})(node := set (nx node))) u" for u v
  proof (cases "u = node")
    case False
    then have "u \<in> V - insert node Q" "v \<in> set (nx u) - {}" using that by simp_all
    then show ?thesis using ok unfolding reach_ok_def by blast
  qed (use that in simp)
  then show ?thesis using ok unfolding reach_ok_def by blast
qed

lemma reach_inv_pop:
  assumes "reach_inv R roots nx (\<lambda>_. {}) n (seen, node # rest, deps)"
  shows "node \<in> R \<and> (\<exists>m. n = Suc m \<and> reach_inv R roots nx ((\<lambda>_. {})(node := set (nx node))) m (seen, rest, deps))"
proof -
  have inv: "bt_wf cmp seen" "bt_wf cmp deps" "n = Suc (card (R - seen_of seen) + length rest)"
    and ok: "reach_ok R roots nx (\<lambda>_. {}) (seen_of seen) (insert node (set rest)) (\<lambda>v. set (dependents_of cmp v deps))"
    using assms unfolding reach_inv_def prod.case by simp_all
  show ?thesis using inv reach_ok_pop [OF ok] unfolding reach_inv_def prod.case by blast
qed

lemma reach_loop_total:
  assumes R: "finite R" "\<forall>u \<in> R. set (nx u) \<subseteq> R"
  shows "reach_inv R roots nx (\<lambda>_. {}) n st \<Longrightarrow>
    \<exists>seen deps. reach_loop cmp nx st = Some (seen, deps) \<and> bt_wf cmp seen \<and>
      reach_ok R roots nx (\<lambda>_. {}) (seen_of seen) {} (\<lambda>v. set (dependents_of cmp v deps))"
proof (induction n arbitrary: st)
  case (0 st)
  obtain seen queue deps where st: "st = (seen, queue, deps)" by (cases st)
  then have "queue = []" using 0 by (simp add: reach_inv_def)
  then show ?case using 0 unfolding st by (simp add: reach_loop.simps reach_inv_def)
next
  case (Suc n st)
  obtain seen queue deps where st: "st = (seen, queue, deps)" by (cases st)
  show ?case
  proof (cases queue)
    case Nil
    then show ?thesis using Suc.prems unfolding st by (simp add: reach_loop.simps reach_inv_def)
  next
    case (Cons node rest)
    have pop: "node \<in> R" "reach_inv R roots nx ((\<lambda>_. {})(node := set (nx node))) n (seen, rest, deps)"
      using reach_inv_pop [OF Suc.prems [unfolded st Cons]] by auto
    have "reach_inv R roots nx (\<lambda>_. {}) n (fold (reach_visit cmp node) (nx node) (seen, rest, deps))"
      using reach_fold_inv [OF R(1) pop(1) _ pop(2), of "nx node"] R(2) pop(1) by (simp add: fun_upd_idem)
    from Suc.IH [OF this] show ?thesis unfolding st Cons by (subst reach_loop.simps) simp
  qed
qed

end

section \<open>The backward search\<close>

context rust_total_ord
begin

text \<open>
  Between two turns of the backward search: the queue ascends, no distance is more than one above
  its head's, and whatever has left the queue has all its dependents at most one further away,
  \<open>todo\<close> apart.
\<close>

definition dist_inv ::
  "'a set \<Rightarrow> 'a \<Rightarrow> ('a \<Rightarrow> 'a set) \<Rightarrow> nat \<Rightarrow> 'a option \<Rightarrow> 'a set \<Rightarrow> ('a \<rightharpoonup> nat) \<Rightarrow> 'a list \<Rightarrow> bool" where
  "dist_inv R target E low node todo D Q \<longleftrightarrow>
     D target = Some 0 \<and> set Q \<subseteq> dom D \<and> dom D \<subseteq> R \<and> sorted (map (\<lambda>x. the (D x)) Q) \<and>
     (\<forall>x \<in> set Q. low \<le> the (D x)) \<and> (\<forall>x d. D x = Some d \<longrightarrow> d \<le> Suc low) \<and>
     (\<forall>x \<in> dom D - set Q. \<forall>y \<in> E x. (node = Some x \<and> y \<in> todo) \<or> (\<exists>d. D y = Some d \<and> d \<le> Suc (the (D x))))"

definition dist_rel :: "'a set \<Rightarrow> 'a \<Rightarrow> ('a \<Rightarrow> 'a set) \<Rightarrow> nat \<Rightarrow> 'a option \<Rightarrow> 'a set \<Rightarrow> nat \<Rightarrow> 'a dist_state \<Rightarrow> bool" where
  "dist_rel R target E low node todo n st \<longleftrightarrow>
     (case st of (distance, queue) \<Rightarrow>
        bt_wf cmp distance \<and> dist_inv R target E low node todo (\<lambda>x. bt_get cmp x distance) queue \<and>
        n = card (R - dom (\<lambda>x. bt_get cmp x distance)) + length queue)"

lemma dist_inv_known:
  assumes inv: "dist_inv R target E low (Some node) todo D Q" and nd: "D node = Some low" and y: "D y \<noteq> None"
  shows "dist_inv R target E low (Some node) (todo - {y}) D Q"
proof -
  obtain d where d: "D y = Some d" using y by auto
  have le: "d \<le> Suc low" using inv d unfolding dist_inv_def by blast
  have "(Some node = Some x \<and> z \<in> todo - {y}) \<or> (\<exists>d. D z = Some d \<and> d \<le> Suc (the (D x)))"
    if "x \<in> dom D - set Q" "z \<in> E x" for x z
  proof (cases "x = node \<and> z = y")
    case True
    then show ?thesis using d le nd by simp
  next
    case False
    have "(Some node = Some x \<and> z \<in> todo) \<or> (\<exists>d. D z = Some d \<and> d \<le> Suc (the (D x)))"
      using inv that unfolding dist_inv_def by blast
    then show ?thesis using False by blast
  qed
  then show ?thesis using inv unfolding dist_inv_def by blast
qed

lemma dist_inv_new:
  assumes inv: "dist_inv R target E low (Some node) todo D Q" and nd: "D node = Some low" and y: "D y = None" "y \<in> R"
  shows "dist_inv R target E low (Some node) (todo - {y}) (D(y \<mapsto> Suc low)) (Q @ [y])"
proof -
  let ?D = "D(y \<mapsto> Suc low)"
  have parts: "D target = Some 0" "set Q \<subseteq> dom D" "dom D \<subseteq> R" "sorted (map (\<lambda>x. the (D x)) Q)"
    "\<forall>x \<in> set Q. low \<le> the (D x)" "\<forall>x d. D x = Some d \<longrightarrow> d \<le> Suc low"
    using inv unfolding dist_inv_def by blast+
  have inQ: "x \<noteq> y" "the (D x) \<le> Suc low" if x: "x \<in> set Q" for x
  proof -
    obtain d where "D x = Some d" using x parts(2) by blast
    then show "x \<noteq> y" "the (D x) \<le> Suc low" using y(1) parts(6) by auto
  qed
  have maps: "map (\<lambda>x. the (?D x)) Q = map (\<lambda>x. the (D x)) Q"
    by (rule map_cong [OF refl]) (use inQ in simp)
  have "sorted (map (\<lambda>x. the (?D x)) (Q @ [y]))"
    unfolding map_append maps using parts(4) inQ(2) by (auto simp: sorted_append)
  moreover have "\<forall>x \<in> set (Q @ [y]). low \<le> the (?D x)" using parts(5) inQ(1) by auto
  moreover have "(Some node = Some x \<and> z \<in> todo - {y}) \<or> (\<exists>d. ?D z = Some d \<and> d \<le> Suc (the (?D x)))"
    if "x \<in> dom ?D - set (Q @ [y])" "z \<in> E x" for x z
  proof -
    have x: "x \<in> dom D - set Q" "x \<noteq> y" using that by auto
    show ?thesis
    proof (cases "z = y")
      case True
      have "(Some node = Some x \<and> z \<in> todo) \<or> (\<exists>d. D z = Some d \<and> d \<le> Suc (the (D x)))"
        using inv x that(2) unfolding dist_inv_def by blast
      then have "x = node" using True y(1) by simp
      then show ?thesis using True nd x(2) by simp
    next
      case False
      have "(Some node = Some x \<and> z \<in> todo) \<or> (\<exists>d. D z = Some d \<and> d \<le> Suc (the (D x)))"
        using inv x that(2) unfolding dist_inv_def by blast
      then show ?thesis using False x(2) by auto
    qed
  qed
  moreover have "?D target = Some 0" using parts(1) y(1) by auto
  moreover have "set (Q @ [y]) \<subseteq> dom ?D" "dom ?D \<subseteq> R" using parts(2,3) y(2) by auto
  moreover have "\<forall>x d. ?D x = Some d \<longrightarrow> d \<le> Suc low" using parts(6) by simp
  ultimately show ?thesis unfolding dist_inv_def by blast
qed

lemma dist_visit_rel:
  assumes rel: "dist_rel R target E low (Some node) todo n st" and R: "finite R" "y \<in> R"
    and nd: "bt_get cmp node (fst st) = Some low"
  shows "dist_rel R target E low (Some node) (todo - {y}) n (dist_visit cmp (low + 1) y st) \<and>
    bt_get cmp node (fst (dist_visit cmp (low + 1) y st)) = Some low"
proof -
  obtain dist Q where st: "st = (dist, Q)" by (cases st)
  let ?D = "\<lambda>x. bt_get cmp x dist"
  have wf: "bt_wf cmp dist" and inv: "dist_inv R target E low (Some node) todo ?D Q"
    and n: "n = card (R - dom ?D) + length Q"
    using rel unfolding st dist_rel_def prod.case by blast+
  have nd: "?D node = Some low" using nd unfolding st by simp
  show ?thesis
  proof (cases "?D y = None")
    case True
    let ?dist = "bt_insert cmp y (low + 1) dist"
    have get: "(\<lambda>x. bt_get cmp x ?dist) = ?D(y \<mapsto> Suc low)"
      unfolding bt_insert_def by (rule ext) (simp add: bt_get_alter [OF wf])
    have "y \<notin> dom ?D" using True by auto
    then have "n = card (R - dom (?D(y \<mapsto> Suc low))) + length (Q @ [y])"
      using card_fresh [OF R, of "dom ?D"] n by simp
    moreover have "dist_inv R target E low (Some node) (todo - {y}) (?D(y \<mapsto> Suc low)) (Q @ [y])"
      by (rule dist_inv_new [OF inv nd True R(2)])
    moreover have "bt_wf cmp ?dist" unfolding bt_insert_def by (rule bt_wf_alter [OF wf])
    moreover have "bt_get cmp node ?dist = Some low"
      using fun_cong [OF get, of node] True nd by auto
    moreover have "dist_visit cmp (low + 1) y st = (?dist, Q @ [y])"
      using True unfolding st dist_visit_def by simp
    ultimately show ?thesis unfolding dist_rel_def by (simp only: prod.case fst_conv get simp_thms)
  next
    case False
    then have "dist_visit cmp (low + 1) y st = (dist, Q)" unfolding st dist_visit_def by simp
    then show ?thesis using dist_inv_known [OF inv nd False] wf n nd unfolding dist_rel_def by simp
  qed
qed

lemma dist_fold_rel:
  assumes "finite R"
  shows "set ys \<subseteq> R \<Longrightarrow> dist_rel R target E low (Some node) todo n st \<Longrightarrow> bt_get cmp node (fst st) = Some low \<Longrightarrow>
    dist_rel R target E low (Some node) (todo - set ys) n (fold (dist_visit cmp (low + 1)) ys st) \<and>
    bt_get cmp node (fst (fold (dist_visit cmp (low + 1)) ys st)) = Some low"
proof (induction ys arbitrary: todo st)
  case (Cons y ys)
  have "dist_rel R target E low (Some node) (todo - {y}) n (dist_visit cmp (low + 1) y st) \<and>
      bt_get cmp node (fst (dist_visit cmp (low + 1) y st)) = Some low"
    using Cons.prems by (intro dist_visit_rel assms) auto
  then show ?case using Cons.IH [of "todo - {y}" "dist_visit cmp (low + 1) y st"] Cons.prems(1)
    unfolding set_diff_diff_left by simp
qed simp

text \<open>The head's distance becomes the new lower bound once it is popped.\<close>

lemma dist_inv_pop:
  assumes inv: "dist_inv R target E low None {} D (node # rest)"
  shows "\<exists>d. D node = Some d \<and> low \<le> d \<and> dist_inv R target E d (Some node) (E node) D rest"
proof -
  have parts: "D target = Some 0" "set (node # rest) \<subseteq> dom D" "dom D \<subseteq> R" "sorted (map (\<lambda>x. the (D x)) (node # rest))"
    "\<forall>x \<in> set (node # rest). low \<le> the (D x)" "\<forall>x d. D x = Some d \<longrightarrow> d \<le> Suc low"
    using inv unfolding dist_inv_def by blast+
  obtain d where d: "D node = Some d" using parts(2) by auto
  have low: "low \<le> d" using parts(5) d by simp
  have "(Some node = Some x \<and> z \<in> E node) \<or> (\<exists>e. D z = Some e \<and> e \<le> Suc (the (D x)))"
    if "x \<in> dom D - set rest" "z \<in> E x" for x z
  proof (cases "x = node")
    case False
    then have "x \<in> dom D - set (node # rest)" using that by simp
    then have "(None = Some x \<and> z \<in> {}) \<or> (\<exists>e. D z = Some e \<and> e \<le> Suc (the (D x)))"
      using inv that(2) unfolding dist_inv_def by blast
    then show ?thesis by simp
  qed (use that in simp)
  moreover have "\<forall>x \<in> set rest. d \<le> the (D x)" "sorted (map (\<lambda>x. the (D x)) rest)" using parts(4) d by simp_all
  moreover have "\<forall>x e. D x = Some e \<longrightarrow> e \<le> Suc d" using parts(6) low by (meson Suc_le_mono le_trans)
  moreover have "set rest \<subseteq> dom D" using parts(2) by simp
  ultimately show ?thesis using d low parts(1,3) unfolding dist_inv_def by blast
qed

lemma dist_inv_done: "dist_inv R target E low (Some node) {} D Q \<Longrightarrow> dist_inv R target E low None {} D Q"
  unfolding dist_inv_def by blast

lemma dist_loop_total:
  assumes R: "finite R" and E: "\<forall>v. set (dependents_of cmp v deps) \<subseteq> R"
  shows "dist_rel R target (\<lambda>v. set (dependents_of cmp v deps)) low None {} n st \<Longrightarrow>
    \<exists>distance low'. dist_loop cmp deps st = Some distance \<and>
      dist_inv R target (\<lambda>v. set (dependents_of cmp v deps)) low' None {} (\<lambda>x. bt_get cmp x distance) []"
proof (induction n arbitrary: st low)
  case (0 st)
  obtain dist Q where st: "st = (dist, Q)" by (cases st)
  then have "Q = []" using 0 by (simp add: dist_rel_def)
  then show ?case using 0 unfolding st by (auto simp: dist_loop.simps dist_rel_def)
next
  case (Suc n st)
  let ?E = "\<lambda>v. set (dependents_of cmp v deps)"
  obtain dist Q where st: "st = (dist, Q)" by (cases st)
  show ?case
  proof (cases Q)
    case Nil
    then show ?thesis using Suc.prems unfolding st by (auto simp: dist_loop.simps dist_rel_def)
  next
    case (Cons node rest)
    have rel: "bt_wf cmp dist" "dist_inv R target ?E low None {} (\<lambda>x. bt_get cmp x dist) (node # rest)"
      "n = card (R - dom (\<lambda>x. bt_get cmp x dist)) + length rest"
      using Suc.prems unfolding st Cons dist_rel_def by simp_all
    obtain d where d: "bt_get cmp node dist = Some d"
      and inv: "dist_inv R target ?E d (Some node) (?E node) (\<lambda>x. bt_get cmp x dist) rest"
      using dist_inv_pop [OF rel(2)] by blast
    have "dist_rel R target ?E d (Some node) (?E node) n (dist, rest)"
      unfolding dist_rel_def prod.case using rel(1,3) inv by blast
    then have "dist_rel R target ?E d (Some node) (?E node - ?E node) n
        (fold (dist_visit cmp (d + 1)) (dependents_of cmp node deps) (dist, rest))"
      using dist_fold_rel [OF R, of "dependents_of cmp node deps" target ?E d node "?E node" n "(dist, rest)"] E d
      by (simp only: fst_conv simp_thms)
    then have "dist_rel R target ?E d None {} n
        (fold (dist_visit cmp (d + 1)) (dependents_of cmp node deps) (dist, rest))"
      unfolding dist_rel_def Diff_cancel by (auto split: prod.splits intro: dist_inv_done)
    from Suc.IH [OF this] show ?thesis unfolding st Cons using d by (subst dist_loop.simps) simp
  qed
qed

end

section \<open>All paths, in order\<close>

context rust_total_ord
begin

lemma distances_ok:
  assumes R: "finite R" "set roots \<subseteq> R" "\<forall>u \<in> R. set (nx u) \<subseteq> R"
  shows "\<exists>seen deps distance. reach_loop cmp nx (bs_of_list cmp roots, roots, []) = Some (seen, deps) \<and>
    dist_loop cmp deps (if bs_mem cmp target seen then (bt_insert cmp target 0 [], [target]) else ([], [])) = Some distance \<and>
    bt_wf cmp seen \<and> set roots \<subseteq> seen_of seen \<and> seen_of seen \<subseteq> R \<and> dist_ok nx target distance (seen_of seen)"
proof -
  have items: "seen_of (bs_of_list cmp roots) = set roots"
    using bs_of_list(2) [of roots] by (simp add: seen_of_def bs_items_def)
  have start: "reach_inv R (set roots) nx (\<lambda>_. {}) (card (R - set roots) + length roots) (bs_of_list cmp roots, roots, [])"
    using R(2) bs_of_list(1) [of roots] by (simp add: reach_inv_def items reach_ok_def dependents_of_def)
  obtain seen deps where reach: "reach_loop cmp nx (bs_of_list cmp roots, roots, []) = Some (seen, deps)"
    and wf: "bt_wf cmp seen"
    and ok: "reach_ok R (set roots) nx (\<lambda>_. {}) (seen_of seen) {} (\<lambda>v. set (dependents_of cmp v deps))"
    using reach_loop_total [OF R(1,3) start] by blast
  let ?V = "seen_of seen" and ?E = "\<lambda>v. set (dependents_of cmp v deps)"
  have V: "set roots \<subseteq> ?V" "?V \<subseteq> R" "\<forall>v. ?E v \<subseteq> R" "\<And>u v. u \<in> ?V \<Longrightarrow> v \<in> set (nx u) \<Longrightarrow> v \<in> ?V \<and> u \<in> ?E v"
    using ok unfolding reach_ok_def by blast+
  have mem: "bs_mem cmp target seen \<longleftrightarrow> target \<in> ?V"
    unfolding bs_mem_def seen_of_def by (rule key_iff_get [OF wf, symmetric])
  have closed: "last p \<in> ?V" if "dep_chain nx p" "hd p \<in> ?V" for p
    using that V(4) by (induction nx p rule: dep_chain.induct) auto
  show ?thesis
  proof (cases "target \<in> ?V")
    case False
    have "dist_loop cmp deps ([], []) = Some []" by (simp add: dist_loop.simps)
    moreover have "dist_ok nx target [] ?V" using False closed V(4) unfolding dist_ok_def by blast
    ultimately show ?thesis using reach wf V(1,2) False mem by auto
  next
    case True
    have D: "bt_get cmp x (bt_insert cmp target 0 []) = (if x = target then Some 0 else None)" for x
      unfolding bt_insert_def by (subst bt_get_alter) simp_all
    have "dist_inv R target ?E 0 None {} (\<lambda>x. bt_get cmp x (bt_insert cmp target 0 [])) [target]"
      using True V(2) unfolding D dist_inv_def by (auto split: if_splits)
    moreover have "bt_wf cmp (bt_insert cmp target (0::nat) [])" unfolding bt_insert_def by (intro bt_wf_alter) simp
    ultimately have "dist_rel R target ?E 0 None {} (card (R - dom (\<lambda>x. bt_get cmp x (bt_insert cmp target (0::nat) []))) + 1)
        (bt_insert cmp target 0 [], [target])"
      unfolding dist_rel_def by simp
    from dist_loop_total [OF R(1) V(3) this] obtain distance low
      where run: "dist_loop cmp deps (bt_insert cmp target 0 [], [target]) = Some distance"
        and inv: "dist_inv R target ?E low None {} (\<lambda>x. bt_get cmp x distance) []" by blast
    have away: "\<exists>e. bt_get cmp y distance = Some e \<and> e \<le> Suc d"
      if "bt_get cmp x distance = Some d" "y \<in> ?E x" for x y d
      using inv that unfolding dist_inv_def by fastforce
    have "\<exists>d. bt_get cmp (hd p) distance = Some d \<and> d < length p"
      if "dep_chain nx p" "hd p \<in> ?V" "last p = target" for p
      using that
    proof (induction p)
      case (Cons x p)
      show ?case
      proof (cases p)
        case Nil
        then show ?thesis using Cons.prems inv by (simp add: dist_inv_def)
      next
        case p: (Cons y ys)
        then have y: "y \<in> set (nx x)" "dep_chain nx p" "x \<in> ?V" "last p = target" "hd p = y"
          using Cons.prems by simp_all
        then have "y \<in> ?V" "x \<in> ?E y" using V(4) by blast+
        then obtain d where "bt_get cmp y distance = Some d" "d < length p" using Cons.IH y by blast
        then show ?thesis using away \<open>x \<in> ?E y\<close> by fastforce
      qed
    qed simp
    then have "dist_ok nx target distance ?V" using V(4) unfolding dist_ok_def by blast
    then show ?thesis using reach run wf V(1,2) True mem by auto
  qed
qed

lemma sorted_wrt_concat_map:
  assumes "sorted_wrt Q xs" "\<And>x. x \<in> set xs \<Longrightarrow> sorted_wrt P (f x)"
    "\<And>x y p q. x \<in> set xs \<Longrightarrow> y \<in> set xs \<Longrightarrow> Q x y \<Longrightarrow> p \<in> set (f x) \<Longrightarrow> q \<in> set (f y) \<Longrightarrow> P p q"
  shows "sorted_wrt P (concat (map f xs))"
  using assms
proof (induction xs)
  case (Cons x xs)
  have "sorted_wrt P (concat (map f xs))"
  proof (rule Cons.IH)
    show "P p q" if "x' \<in> set xs" "y \<in> set xs" "Q x' y" "p \<in> set (f x')" "q \<in> set (f y)" for x' y p q
      using Cons.prems(3) that by (meson list.set_intros(2))
  qed (use Cons.prems in simp_all)
  moreover have "P p q" if "y \<in> set xs" "p \<in> set (f x)" "q \<in> set (f y)" for y p q
    using Cons.prems(3) [of x y p q] Cons.prems(1) that by simp
  ultimately show ?case using Cons.prems(2) [of x] by (auto simp: sorted_wrt_append)
qed simp

lemma sorted_nodes_strict: "sorted_wrt (\<lambda>x y. cmp x y = Less) (sorted_nodes cmp ns)"
  unfolding sorted_nodes_def by (rule sorted_dedup_strict) (rule sorted_sort_by)

lemma cmp_list_append_same: "cmp_list cmp (ps @ xs) (ps @ ys) = cmp_list cmp xs ys"
  by (induction ps) simp_all

lemma cmp_list_differ: "cmp x y = Less \<Longrightarrow> cmp_list cmp (ps @ x # xs) (ps @ y # ys) = Less"
  by (simp add: cmp_list_append_same)

lemma completions_prefix: "path \<noteq> [] \<Longrightarrow> q \<in> set (completions cmp nx target l path) \<Longrightarrow> \<exists>ys. q = path @ ys \<and> length ys = l"
  by (auto simp: completions_iff)

lemma completions_sorted:
  "path \<noteq> [] \<Longrightarrow> sorted_wrt (\<lambda>p q. cmp_list cmp p q = Less) (completions cmp nx target l path)"
proof (induction l arbitrary: path)
  case (Suc l)
  show ?case
    unfolding completions.simps
  proof (rule sorted_wrt_concat_map [OF sorted_nodes_strict])
    fix x y p q
    assume "cmp x y = Less" "p \<in> set (if x \<in> set path then [] else completions cmp nx target l (path @ [x]))"
      "q \<in> set (if y \<in> set path then [] else completions cmp nx target l (path @ [y]))"
    then show "cmp_list cmp p q = Less"
      by (auto split: if_splits dest!: completions_prefix [rotated] simp: cmp_list_append_same)
  qed (use Suc.IH in auto)
qed simp

lemma set_all_of_length:
  assumes "len \<noteq> 0"
  shows "set (all_of_length nx target (sorted_nodes cmp roots) len) = {p. length p = len \<and> simple_path roots nx target p}"
proof (rule set_eqI)
  fix p
  obtain l where l: "len = Suc l" using assms by (cases len) auto
  have "p \<in> set (all_of_length nx target (sorted_nodes cmp roots) len) \<longleftrightarrow>
      (\<exists>root \<in> set roots. \<exists>ys. p = root # ys \<and> length ys = l \<and> dep_chain nx (root # ys) \<and> last p = target \<and>
        distinct ys \<and> root \<notin> set ys)"
    unfolding all_of_length_def l by (auto simp: completions_iff)
  also have "\<dots> \<longleftrightarrow> length p = len \<and> simple_path roots nx target p"
    unfolding l simple_path_def by (cases p) auto
  finally show "p \<in> set (all_of_length nx target (sorted_nodes cmp roots) len) \<longleftrightarrow>
    p \<in> {p. length p = len \<and> simple_path roots nx target p}" by simp
qed

lemma all_lengths_sorted:
  "sorted_wrt (path_before cmp) (concat (map (all_of_length nx target (sorted_nodes cmp roots)) [1..<n]))"
proof (rule sorted_wrt_concat_map)
  show "sorted_wrt (<) [1..<n]" by simp
next
  fix len assume len: "len \<in> set [1..<n]"
  have "sorted_wrt (\<lambda>p q. cmp_list cmp p q = Less) (all_of_length nx target (sorted_nodes cmp roots) len)"
    unfolding all_of_length_def
  proof (rule sorted_wrt_concat_map [OF sorted_nodes_strict])
    fix x y p q
    assume "cmp x y = Less" "p \<in> set (completions cmp nx target (len - 1) [x])"
      "q \<in> set (completions cmp nx target (len - 1) [y])"
    then show "cmp_list cmp p q = Less" by (auto dest!: completions_prefix [rotated])
  qed (simp add: completions_sorted)
  then show "sorted_wrt (path_before cmp) (all_of_length nx target (sorted_nodes cmp roots) len)"
    by (rule sorted_wrt_mono_rel [rotated]) (use set_all_of_length [of len] len in \<open>auto simp: path_before_def\<close>)
next
  fix l m p q assume "l \<in> set [1..<n]" "m \<in> set [1..<n]" "l < m"
    "p \<in> set (all_of_length nx target (sorted_nodes cmp roots) l)"
    "q \<in> set (all_of_length nx target (sorted_nodes cmp roots) m)"
  then show "path_before cmp p q" using set_all_of_length [of l] set_all_of_length [of m] by (auto simp: path_before_def)
qed

lemma seen_length: "bt_wf cmp (s :: 'a bset) \<Longrightarrow> length s = card (seen_of s)"
  using bt_wf_distinct [of s] by (simp add: seen_of_def distinct_card flip: set_map)

lemma sorted_wrt_neq_distinct: "sorted_wrt (\<noteq>) xs \<Longrightarrow> distinct xs"
  by (induction xs) auto

lemma prefix_before:
  assumes "sorted_wrt P xs" "prefix ys xs" "p \<in> set xs" "p \<notin> set ys"
  shows "\<forall>q \<in> set ys. P q p"
proof -
  obtain zs where "xs = ys @ zs" using assms(2) by (auto simp: prefix_def)
  then show ?thesis using assms(1,3,4) by (auto simp: sorted_wrt_append)
qed

lemma walks_cost_mono: "m \<le> n \<Longrightarrow> walks_cost cmp nx roots [1..<Suc m] \<le> walks_cost cmp nx roots [1..<Suc n]"
proof -
  assume "m \<le> n"
  then have "[1..<Suc n] = [1..<Suc m] @ [Suc m..<Suc n]" using upt_add_eq_append [of 1 "Suc m" "n - m"] by simp
  then show ?thesis unfolding walks_cost_def by simp
qed

lemma all_paths_spec:
  assumes R: "finite R" "set roots \<subseteq> R" "\<forall>u \<in> R. set (nx u) \<subseteq> R"
  shows "\<exists>out short. all_paths cmp roots nx target cap = Some (out, short) \<and>
    sorted_wrt (path_before cmp) out \<and> (\<forall>p \<in> set out. simple_path roots nx target p) \<and> length out \<le> cap \<and>
    (\<forall>p. simple_path roots nx target p \<longrightarrow> p \<in> set out \<or> short \<and> (\<forall>q \<in> set out. path_before cmp q p)) \<and>
    (short \<longrightarrow> cap < card {p. simple_path roots nx target p} \<or>
       walk_budget < walks_cost cmp nx (sorted_nodes cmp roots) [1..<Suc (card R)])"
proof -
  obtain seen deps distance where reach: "reach_loop cmp nx (bs_of_list cmp roots, roots, []) = Some (seen, deps)"
    and dist: "dist_loop cmp deps (if bs_mem cmp target seen then (bt_insert cmp target 0 [], [target]) else ([], []))
      = Some distance"
    and wf: "bt_wf cmp seen" and V: "set roots \<subseteq> seen_of seen" "seen_of seen \<subseteq> R"
    and ok: "dist_ok nx target distance (seen_of seen)"
    using distances_ok [OF R] by blast
  let ?n = "length seen" and ?roots = "sorted_nodes cmp roots"
  let ?all = "concat (map (all_of_length nx target ?roots) [1..<Suc ?n])"
  define st where "st = walk_lengths cmp nx target distance cap ?roots [1..<Suc ?n]
    \<lparr>wk_out = [], wk_steps = walk_budget, wk_short = False\<rparr>"
  have run: "all_paths cmp roots nx target cap = Some (wk_out st, wk_short st)"
    unfolding all_paths_def st_def reach by (simp only: dist Let_def prod.case Option.bind.simps)
  have n: "?n = card (seen_of seen)" "?n \<le> card R"
    using seen_length [OF wf] card_mono [OF R(1) V(2)] by simp_all
  have within: "set p \<subseteq> seen_of seen" if "dep_chain nx p" "hd p \<in> seen_of seen" for p
    using that ok unfolding dist_ok_def by (induction nx p rule: dep_chain.induct) auto
  have all: "set ?all = {p. simple_path roots nx target p}"
  proof -
    have "length p \<in> set [1..<Suc ?n]" if p: "simple_path roots nx target p" for p
    proof -
      have "set p \<subseteq> seen_of seen" using p within V(1) unfolding simple_path_def by blast
      then have "card (set p) \<le> ?n" unfolding n(1) using R(1) V(2) by (meson card_mono finite_subset)
      moreover have "card (set p) = length p" "p \<noteq> []" using p by (auto simp: simple_path_def distinct_card)
      ultimately show ?thesis by (cases p) auto
    qed
    moreover have "set (all_of_length nx target ?roots len) = {p. length p = len \<and> simple_path roots nx target p}"
      if "len \<in> set [1..<Suc ?n]" for len
      by (rule set_all_of_length) (use that in auto)
    ultimately show ?thesis unfolding set_concat set_map image_image by blast
  qed
  have sorted: "sorted_wrt (path_before cmp) ?all" by (rule all_lengths_sorted)
  have card: "length ?all = card {p. simple_path roots nx target p}"
  proof -
    have irr: "\<not> path_before cmp p p" for p
      unfolding path_before_def using rust_ord.cmp_refl [OF rust_ord_cmp_list [OF rust_ord_axioms], of p] by simp
    have "sorted_wrt (\<noteq>) ?all" by (rule sorted_wrt_mono_rel [OF _ sorted]) (use irr in blast)
    then have "distinct ?all" by (rule sorted_wrt_neq_distinct)
    then show ?thesis unfolding all [symmetric] by (simp only: distinct_card)
  qed
  have adds: "adds cap (walks_cost cmp nx ?roots [1..<Suc ?n]) ?all \<lparr>wk_out = [], wk_steps = walk_budget, wk_short = False\<rparr> st"
    unfolding st_def by (rule walk_lengths_adds [OF ok]) (use V(1) in simp)
  then have out: "prefix (wk_out st) ?all" "\<not> wk_short st \<Longrightarrow> wk_out st = ?all" "length (wk_out st) \<le> cap"
    "wk_short st \<Longrightarrow> cap < length ?all \<or> walk_budget < walks_cost cmp nx ?roots [1..<Suc ?n]"
    unfolding adds_def by auto
  have "sorted_wrt (path_before cmp) (wk_out st)"
    using out(1) sorted by (auto simp: prefix_def sorted_wrt_append)
  moreover have "\<forall>p \<in> set (wk_out st). simple_path roots nx target p"
    using set_mono_prefix [OF out(1)] unfolding all by blast
  moreover have "p \<in> set (wk_out st) \<or> wk_short st \<and> (\<forall>q \<in> set (wk_out st). path_before cmp q p)"
    if "simple_path roots nx target p" for p
  proof -
    have "p \<in> set ?all" using that unfolding all by simp
    then show ?thesis using prefix_before [OF sorted out(1)] out(2) by fastforce
  qed
  moreover have "wk_short st \<longrightarrow> cap < card {p. simple_path roots nx target p} \<or>
      walk_budget < walks_cost cmp nx ?roots [1..<Suc (card R)]"
    using out(4) walks_cost_mono [OF n(2), of nx ?roots] unfolding card by auto
  ultimately show ?thesis using run out(3) by blast
qed

end

section \<open>The promise\<close>

text \<open>C33: over a graph that stays within a finite set of nodes the search for all paths returns.  Its list
  is strictly ordered, shortest first and then by the nodes, holds only paths from a root to the
  target along dependencies without a repeated node, and is within the cap.  A path it leaves out
  comes after every path it lists, and only when it says that it stopped short, which it says
  only when there are more paths than the cap or the walks could take more than the budget.\<close>

theorem all_paths_complete:
  assumes "rust_total_ord c" and "finite R" and "set roots \<subseteq> R" and "\<forall>u \<in> R. set (nx u) \<subseteq> R"
  shows "\<exists>out short. all_paths c roots nx target cap = Some (out, short) \<and>
    sorted_wrt (path_before c) out \<and> (\<forall>p \<in> set out. simple_path roots nx target p) \<and> length out \<le> cap \<and>
    (\<forall>p. simple_path roots nx target p \<longrightarrow> p \<in> set out \<or> short \<and> (\<forall>q \<in> set out. path_before c q p)) \<and>
    (short \<longrightarrow> cap < card {p. simple_path roots nx target p} \<or>
       walk_budget < walks_cost c nx (sorted_nodes c roots) [1..<Suc (card R)])"
  by (rule rust_total_ord.all_paths_spec [OF assms])

definition diamond :: "nat \<Rightarrow> nat list" where
  "diamond u = (if u = 0 then [2, 1, 3] else if u < 3 then [3] else [])"

theorem all_paths_complete_witness:
  "\<exists>out short. all_paths ord_cmp [0] diamond 3 2 = Some (out, short) \<and>
    sorted_wrt (path_before ord_cmp) out \<and> (\<forall>p \<in> set out. simple_path [0] diamond 3 p) \<and> length out \<le> 2 \<and>
    (\<forall>p. simple_path [0] diamond 3 p \<longrightarrow> p \<in> set out \<or> short \<and> (\<forall>q \<in> set out. path_before ord_cmp q p)) \<and>
    (short \<longrightarrow> 2 < card {p. simple_path [0] diamond 3 p} \<or>
       walk_budget < walks_cost ord_cmp diamond (sorted_nodes ord_cmp [0]) [1..<Suc (card {0, 1, 2, 3 :: nat})])"
  by (rule all_paths_complete) (auto simp: diamond_def rust_total_ord_ord_cmp)

text \<open>The diamond, with room for two and for all three of its paths.\<close>

lemma all_paths_examples:
  "all_paths ord_cmp [0] diamond 3 2 = Some ([[0, 3], [0, 1, 3]], True)"
  "all_paths ord_cmp [0] diamond 3 3 = Some ([[0, 3], [0, 1, 3], [0, 2, 3]], False)"
  by code_simp+

end
