(* ===== verification/Rust_Run.thy ===== *)
theory Rust_Run
  imports Rust_Result
begin

text \<open>
  Code that returns a \<^verbatim>\<open>Result\<close> and may also panic, on an index out of range or an arithmetic
  overflow: \<open>None\<close> is the panic.  \<open>safe m P\<close> says that \<open>m\<close> does not panic and that what it returns,
  if it succeeds, satisfies \<open>P\<close>; its rules walk through a function the way the code runs.
\<close>

type_synonym ('e, 'a) run = "('e + 'a) option"

definition run_bind :: "('e, 'a) run \<Rightarrow> ('a \<Rightarrow> ('e, 'b) run) \<Rightarrow> ('e, 'b) run" where
  "run_bind m f = (case m of None \<Rightarrow> None | Some (Inl e) \<Rightarrow> Some (Inl e) | Some (Inr x) \<Rightarrow> f x)"

definition run_ok :: "'a option \<Rightarrow> ('e, 'a) run" where
  "run_ok x = map_option Inr x"

fun run_map :: "('a \<Rightarrow> ('e, 'b) run) \<Rightarrow> 'a list \<Rightarrow> ('e, 'b list) run" where
  "run_map f [] = Some (Inr [])"
| "run_map f (x # xs) = run_bind (f x) (\<lambda>y. run_bind (run_map f xs) (\<lambda>ys. Some (Inr (y # ys))))"

fun run_fold :: "('a \<Rightarrow> 's \<Rightarrow> ('e, 's) run) \<Rightarrow> 'a list \<Rightarrow> 's \<Rightarrow> ('e, 's) run" where
  "run_fold f [] s = Some (Inr s)"
| "run_fold f (x # xs) s = run_bind (f x s) (run_fold f xs)"

definition run_map_err :: "('e \<Rightarrow> 'f) \<Rightarrow> ('e, 'a) run \<Rightarrow> ('f, 'a) run" where
  "run_map_err f m = map_option (map_sum f id) m"

lemma run_bind_simps [simp]:
  "run_bind None f = None" "run_bind (Some (Inl e)) f = Some (Inl e)" "run_bind (Some (Inr x)) f = f x"
  by (simp_all add: run_bind_def)

lemma run_map_err_simps [simp]:
  "run_map_err f None = None" "run_map_err f (Some (Inl e)) = Some (Inl (f e))" "run_map_err f (Some (Inr x)) = Some (Inr x)"
  by (simp_all add: run_map_err_def)

lemma run_bind_cong [fundef_cong]:
  "m = m' \<Longrightarrow> (\<And>x. m' = Some (Inr x) \<Longrightarrow> f x = g x) \<Longrightarrow> run_bind m f = run_bind m' g"
  by (auto simp: run_bind_def split: option.splits sum.splits)

lemma run_bind_Inr: "run_bind m f = Some (Inr y) \<longleftrightarrow> (\<exists>x. m = Some (Inr x) \<and> f x = Some (Inr y))"
  by (auto simp: run_bind_def split: option.splits sum.splits)

lemma run_fold_append: "run_fold f (xs @ ys) s = run_bind (run_fold f xs s) (run_fold f ys)"
proof (induction xs arbitrary: s)
  case (Cons x xs)
  then show ?case by (auto simp: run_bind_def split: option.splits sum.splits)
qed simp

lemma run_map_Inr: "(\<And>x. x \<in> set xs \<Longrightarrow> f x = Some (Inr (g x))) \<Longrightarrow> run_map f xs = Some (Inr (map g xs))"
  by (induction xs) simp_all

lemma run_map_spec:
  assumes "\<And>x. x \<in> set xs \<Longrightarrow> (\<exists>e. f x = Some (Inl e)) \<and> \<not> P x \<or> (\<exists>y. f x = Some (Inr y) \<and> P x \<and> Q x y)"
  shows "(\<exists>e. run_map f xs = Some (Inl e)) \<and> \<not> list_all P xs \<or>
    (\<exists>ys. run_map f xs = Some (Inr ys) \<and> list_all P xs \<and> list_all2 Q xs ys)"
  using assms
proof (induction xs)
  case (Cons x xs)
  consider e where "f x = Some (Inl e)" "\<not> P x" | y where "f x = Some (Inr y)" "P x" "Q x y"
    using Cons.prems [of x] by auto
  then show ?case
  proof cases
    case 2
    then show ?thesis using Cons by fastforce
  qed simp
qed simp

section \<open>Runs that do not panic\<close>

definition safe :: "('e, 'a) run \<Rightarrow> ('a \<Rightarrow> bool) \<Rightarrow> bool" where
  "safe m P \<longleftrightarrow> (case m of None \<Rightarrow> False | Some (Inl e) \<Rightarrow> True | Some (Inr x) \<Rightarrow> P x)"

lemma safe_simps [simp]: "safe None P \<longleftrightarrow> False" "safe (Some (Inl e)) P" "safe (Some (Inr x)) P \<longleftrightarrow> P x"
  by (simp_all add: safe_def)

lemma safe_Some: "safe (Some r) P \<longleftrightarrow> (\<forall>x. r = Inr x \<longrightarrow> P x)"
  by (cases r) simp_all

lemma safe_bind:
  assumes "safe m P" and "\<And>x. m = Some (Inr x) \<Longrightarrow> P x \<Longrightarrow> safe (f x) Q"
  shows "safe (run_bind m f) Q"
  using assms by (auto simp: safe_def split: option.splits sum.splits)

lemma safe_then: "safe m P \<Longrightarrow> (\<And>x. P x \<Longrightarrow> safe (f x) Q) \<Longrightarrow> safe (run_bind m f) Q"
  by (rule safe_bind)

lemma safe_if: "(c \<Longrightarrow> safe m P) \<Longrightarrow> (\<not> c \<Longrightarrow> safe n P) \<Longrightarrow> safe (if c then m else n) P"
  by simp

lemma safe_mono: "safe m P \<Longrightarrow> (\<And>x. m = Some (Inr x) \<Longrightarrow> P x \<Longrightarrow> Q x) \<Longrightarrow> safe m Q"
  by (auto simp: safe_def split: option.splits sum.splits)

lemma safe_map_err [simp]: "safe (run_map_err f m) P \<longleftrightarrow> safe m P"
  by (auto simp: safe_def run_map_err_def split: option.splits sum.splits)

lemma safe_fold:
  assumes "I [] s" and "\<And>ys x s. x \<in> set xs \<Longrightarrow> I ys s \<Longrightarrow> safe (f x s) (I (ys @ [x]))"
  shows "safe (run_fold f xs s) (I xs)"
proof -
  have "I ys s \<Longrightarrow> set zs \<subseteq> set xs \<Longrightarrow> safe (run_fold f zs s) (I (ys @ zs))" for ys zs s
  proof (induction zs arbitrary: ys s)
    case (Cons z zs)
    have "safe (f z s) (I (ys @ [z]))" using Cons.prems by (intro assms(2)) auto
    then have "safe (run_bind (f z s) (run_fold f zs)) (I (ys @ z # zs))"
    proof (rule safe_bind)
      fix t assume "I (ys @ [z]) t"
      from Cons.IH [OF this] show "safe (run_fold f zs t) (I (ys @ z # zs))" using Cons.prems by simp
    qed
    then show ?case by simp
  qed simp
  from this [of "[]" s xs] show ?thesis using assms(1) by simp
qed

lemma safe_runs: "safe m P \<Longrightarrow> m \<noteq> None"
  by (cases m) simp_all

end
