(* ===== verification/Call_Graph.thy ===== *)
theory Call_Graph
  imports Rust_Map Rust_Run Bfs "HOL-Library.Word"
begin

text \<open>
  The static reachability analysis, \<^verbatim>\<open>crates/reach/src/model.rs\<close> and \<^verbatim>\<open>lib.rs\<close>: the call graph as the
  driver emits it, the topology built from it, the two breadth-first searches (without and with
  the opaque frontier) and the verdicts.  Node ids are 32 bit words and two of them are the
  sentinels of the search.  An analysis is \<open>None\<close> where the code would index out of range or not
  end, \<open>Some (Inl e)\<close> where it returns an error.
\<close>

section \<open>The graph\<close>

type_synonym u32 = "32 word"

record graph_node =
  gn_id :: u32
  gn_label :: string
  gn_symbol :: string
  gn_path :: "string option"

datatype edge_kind = Direct | Virtual | Indirect | Opaque | Other

record graph_edge =
  ge_from :: u32
  ge_to :: u32
  ge_kind :: edge_kind

record coercion =
  co_self_key :: string
  co_trait_key :: string

record sink_path =
  sp_path :: string
  sp_nodes :: "u32 list"

record virtual_call =
  vc_from :: u32
  vc_method :: string

record virtual_impl =
  vi_method :: string
  vi_node :: u32
  vi_self_key :: "string option"
  vi_trait_key :: "string option"

record call_graph =
  cg_schema :: u32
  cg_nodes :: "graph_node list"
  cg_edges :: "graph_edge list"
  cg_roots :: "u32 list"
  cg_sinks :: "u32 list"
  cg_unresolved_sinks :: "string list"
  cg_opaque :: "u32 list"
  cg_virtual_calls :: "virtual_call list"
  cg_virtual_impls :: "virtual_impl list"
  cg_sink_paths :: "sink_path list"
  cg_coercions :: "coercion list"
  cg_imprecise_traits :: "string list"
  cg_scanned_crates :: "string list"
  cg_generic_fns :: "string list"
  cg_escaped :: "u32 list"
  cg_crate_id :: "string option"

definition supported_schema :: u32 where
  "supported_schema = 2"

datatype reach_error = UnsupportedSchema u32 u32 | Malformed string | Io string | Build string

datatype verdict = VReachable "string list" | VNotReachable | VUnknown string

record sink_verdict =
  sv_sink :: string
  sv_verdict :: verdict

definition show_u32 :: "u32 \<Rightarrow> string" where
  "show_u32 i = show_nat (unat i)"

text \<open>Indexing a vector, which panics out of range.\<close>

definition idx :: "'a list \<Rightarrow> u32 \<Rightarrow> 'a option" where
  "idx xs i = (if unat i < length xs then Some (xs ! unat i) else None)"

section \<open>The topology\<close>

record succ =
  su_to :: u32
  su_opaque :: bool

record topo =
  tp_labels :: "string option list"
  tp_adj :: "succ list list"

definition unvisited :: u32 where
  "unvisited = 0xFFFFFFFF"

definition root_mark :: u32 where
  "root_mark = 0xFFFFFFFE"

definition label_step :: "nat \<Rightarrow> graph_node \<Rightarrow> string option list \<Rightarrow> reach_error + string option list" where
  "label_step len node labels =
     (if len \<le> unat (gn_id node)
      then Inl (Malformed (''node id '' @ show_u32 (gn_id node) @ '' out of range (graph has '' @ show_nat len @ '' nodes)''))
      else Inr (labels[unat (gn_id node) := Some (gn_label node)]))"

definition label_at :: "string option list \<Rightarrow> u32 \<Rightarrow> string option" where
  "label_at labels i = (case idx labels i of None \<Rightarrow> None | Some l \<Rightarrow> l)"

definition adj_step :: "string option list \<Rightarrow> graph_edge \<Rightarrow> succ list list \<Rightarrow> reach_error + succ list list" where
  "adj_step labels e adj =
     (if label_at labels (ge_from e) = None then Inl (Malformed (''edge from unknown node id '' @ show_u32 (ge_from e)))
      else if label_at labels (ge_to e) = None then Inl (Malformed (''edge to unknown node id '' @ show_u32 (ge_to e)))
      else Inr (adj[unat (ge_from e) := adj ! unat (ge_from e) @ [\<lparr>su_to = ge_to e, su_opaque = ge_kind e = Opaque\<rparr>]]))"

definition topo_build :: "call_graph \<Rightarrow> reach_error + topo" where
  "topo_build g =
     (let len = length (cg_nodes g) in
      and_then (try_fold (label_step len) (cg_nodes g) (replicate len None))
        (\<lambda>labels. and_then (try_fold (adj_step labels) (cg_edges g) (replicate len []))
          (\<lambda>adj. Inr \<lparr>tp_labels = labels, tp_adj = adj\<rparr>)))"

definition label_of :: "topo \<Rightarrow> u32 \<Rightarrow> reach_error + string" where
  "label_of t i = ok_or (Malformed (''sink references unknown node id '' @ show_u32 i)) (label_at (tp_labels t) i)"

section \<open>The search\<close>

type_synonym search_state = "u32 list \<times> u32 list"

definition root_step :: "topo \<Rightarrow> u32 \<Rightarrow> search_state \<Rightarrow> reach_error + search_state" where
  "root_step t root st =
     (case st of (pred, queue) \<Rightarrow>
        if label_at (tp_labels t) root = None then Inl (Malformed (''root is unknown node id '' @ show_u32 root))
        else if pred ! unat root = unvisited then Inr (pred[unat root := root_mark], queue @ [root])
        else Inr st)"

definition succ_visit :: "bool \<Rightarrow> u32 \<Rightarrow> succ \<Rightarrow> search_state \<Rightarrow> search_state option" where
  "succ_visit include_opaque node s st =
     (case st of (pred, queue) \<Rightarrow>
        if \<not> include_opaque \<and> su_opaque s then Some st
        else (case idx pred (su_to s) of
                None \<Rightarrow> None
              | Some p \<Rightarrow> Some (if p = unvisited then (pred[unat (su_to s) := node], queue @ [su_to s]) else st)))"

partial_function (option) search_loop :: "topo \<Rightarrow> bool \<Rightarrow> search_state \<Rightarrow> u32 list option" where
  "search_loop t include_opaque st =
     (case st of (pred, queue) \<Rightarrow>
        (case queue of
           [] \<Rightarrow> Some pred
         | node # rest \<Rightarrow>
             (case idx (tp_adj t) node of
                None \<Rightarrow> None
              | Some succs \<Rightarrow>
                  Option.bind (fold (\<lambda>s st. Option.bind st (succ_visit include_opaque node s)) succs (Some (pred, rest)))
                    (search_loop t include_opaque))))"

definition topo_reach :: "topo \<Rightarrow> u32 list \<Rightarrow> bool \<Rightarrow> (reach_error, u32 list) run" where
  "topo_reach t roots include_opaque =
     (case try_fold (root_step t) roots (replicate (length (tp_labels t)) unvisited, []) of
        Inl e \<Rightarrow> Some (Inl e)
      | Inr st \<Rightarrow> run_ok (search_loop t include_opaque st))"

definition is_reached :: "u32 list \<Rightarrow> u32 \<Rightarrow> bool" where
  "is_reached pred i = (case idx pred i of None \<Rightarrow> False | Some p \<Rightarrow> p \<noteq> unvisited)"

partial_function (option) climb :: "topo \<Rightarrow> u32 list \<Rightarrow> u32 \<Rightarrow> string list option" where
  "climb t pred cur =
     (let label = (case label_at (tp_labels t) cur of None \<Rightarrow> ''<unknown>'' | Some l \<Rightarrow> l) in
      case idx pred cur of
        None \<Rightarrow> None
      | Some p \<Rightarrow> if p = root_mark then Some [label]
                  else Option.bind (climb t pred p) (\<lambda>up. Some (label # up)))"

declare search_loop.simps [code] and climb.simps [code]

text \<open>The chain is collected from the sink upwards and reversed.\<close>

definition witness_to :: "topo \<Rightarrow> u32 list \<Rightarrow> u32 \<Rightarrow> string list option option" where
  "witness_to t pred sink =
     (if is_reached pred sink then map_option (\<lambda>up. Some (rev up)) (climb t pred sink) else Some None)"

section \<open>Verdicts\<close>

definition opaque_only :: string where
  "opaque_only = ''reachable only across an opaque boundary (FFI / inline asm / unresolved indirect call); cannot prove unreachable''"

definition unresolved_sink :: string where
  "unresolved_sink = ''sink path resolved to no node in this build''"

definition check_schema :: "call_graph \<Rightarrow> (reach_error, 'a) run \<Rightarrow> (reach_error, 'a) run" where
  "check_schema g m =
     (if cg_schema g \<noteq> supported_schema then Some (Inl (UnsupportedSchema (cg_schema g) supported_schema)) else m)"

definition sink_step :: "topo \<Rightarrow> u32 list \<Rightarrow> u32 list \<Rightarrow> u32 \<Rightarrow> (reach_error, sink_verdict) run" where
  "sink_step t clean full sink =
     run_bind (Some (label_of t sink)) (\<lambda>label.
       run_bind (run_ok (witness_to t clean sink)) (\<lambda>witness.
         Some (Inr \<lparr>sv_sink = label,
                    sv_verdict = (case witness of
                        Some w \<Rightarrow> VReachable w
                      | None \<Rightarrow> if is_reached full sink then VUnknown opaque_only else VNotReachable)\<rparr>)))"

definition analyze_with_roots :: "call_graph \<Rightarrow> u32 list \<Rightarrow> (reach_error, sink_verdict list) run" where
  "analyze_with_roots g roots =
     check_schema g
       (run_bind (Some (topo_build g)) (\<lambda>t.
          run_bind (topo_reach t roots False) (\<lambda>clean.
            run_bind (topo_reach t roots True) (\<lambda>full.
              run_bind (run_map (sink_step t clean full) (cg_sinks g)) (\<lambda>vs.
                Some (Inr (vs @ map (\<lambda>path. \<lparr>sv_sink = path, sv_verdict = VUnknown unresolved_sink\<rparr>)
                                  (cg_unresolved_sinks g))))))))"

definition analyze :: "call_graph \<Rightarrow> (reach_error, sink_verdict list) run" where
  "analyze g = analyze_with_roots g (cg_roots g)"

text \<open>The first clean witness of a path's nodes, and whether any of them is reached at all.\<close>

fun combine_from :: "topo \<Rightarrow> u32 list \<Rightarrow> u32 list \<Rightarrow> u32 list \<Rightarrow> string list option \<Rightarrow> bool
    \<Rightarrow> (string list option \<times> bool) option" where
  "combine_from t clean full [] witness reached = Some (witness, reached)"
| "combine_from t clean full (node # nodes) witness reached =
     Option.bind (if witness = None then witness_to t clean node else Some witness)
       (\<lambda>w. combine_from t clean full nodes w (reached \<or> is_reached full node))"

definition combine_nodes :: "topo \<Rightarrow> u32 list \<Rightarrow> u32 list \<Rightarrow> u32 list \<Rightarrow> verdict option" where
  "combine_nodes t clean full nodes =
     map_option (\<lambda>(witness, reached).
         case witness of
           Some w \<Rightarrow> VReachable w
         | None \<Rightarrow> if reached then VUnknown opaque_only else VNotReachable)
       (combine_from t clean full nodes None False)"

definition by_path_step :: "topo \<Rightarrow> u32 list \<Rightarrow> u32 list \<Rightarrow> sink_path \<Rightarrow> (reach_error, (string, verdict) btree) run \<Rightarrow> (reach_error, (string, verdict) btree) run" where
  "by_path_step t clean full sp m =
     run_bind m (\<lambda>out. run_bind (run_ok (combine_nodes t clean full (sp_nodes sp)))
       (\<lambda>v. Some (Inr (bt_insert str_cmp (sp_path sp) v out))))"

definition analyze_by_path :: "call_graph \<Rightarrow> (reach_error, (string, verdict) btree) run" where
  "analyze_by_path g =
     check_schema g
       (run_bind (Some (topo_build g)) (\<lambda>t.
          run_bind (topo_reach t (cg_roots g) False) (\<lambda>clean.
            run_bind (topo_reach t (cg_roots g) True) (\<lambda>full.
              run_bind (fold (by_path_step t clean full) (cg_sink_paths g) (Some (Inr []))) (\<lambda>out.
                Some (Inr (fold (\<lambda>path. bt_or_insert str_cmp path (VUnknown unresolved_sink))
                  (cg_unresolved_sinks g) out)))))))"

section \<open>Advisory paths\<close>

text \<open>\<^verbatim>\<open>split("::")\<close>; the separator is ASCII, so bytes are as good as characters.\<close>

fun split_colons :: "string \<Rightarrow> string list" where
  "split_colons [] = [[]]"
| "split_colons [c] = [[c]]"
| "split_colons (c # d # cs) =
     (if c = CHR '':'' \<and> d = CHR '':'' then [] # split_colons cs
      else (case split_colons (d # cs) of [] \<Rightarrow> [[c]] | w # ws \<Rightarrow> (c # w) # ws))"

definition crate_of :: "string \<Rightarrow> string" where
  "crate_of path = hd (split_colons path)"

fun outside_generics :: "int \<Rightarrow> string \<Rightarrow> string" where
  "outside_generics depth [] = []"
| "outside_generics depth (c # cs) =
     (if c = CHR ''<'' then outside_generics (depth + 1) cs
      else if c = CHR ''>'' then outside_generics (depth - 1) cs
      else if depth \<le> 0 then c # outside_generics depth cs
      else outside_generics depth cs)"

definition strip_generics :: "string \<Rightarrow> string" where
  "strip_generics path = join_with ''::'' (filter (\<lambda>seg. seg \<noteq> []) (split_colons (outside_generics 0 path)))"

definition nodes_by_path :: "graph_node list \<Rightarrow> string \<Rightarrow> u32 list option" where
  "nodes_by_path nodes =
     fold (\<lambda>node m. case gn_path node of
         None \<Rightarrow> m
       | Some p \<Rightarrow> m(strip_generics p \<mapsto> (case m (strip_generics p) of None \<Rightarrow> [] | Some ns \<Rightarrow> ns) @ [gn_id node]))
       nodes Map.empty"

definition no_node :: string where
  "no_node = ''advisory function resolved to no node in this build''"

definition path_verdict :: "call_graph \<Rightarrow> topo \<Rightarrow> u32 list \<Rightarrow> u32 list \<Rightarrow> string \<Rightarrow> verdict option" where
  "path_verdict g t clean full path =
     (let key = strip_generics path in
      case nodes_by_path (cg_nodes g) key of
        Some nodes \<Rightarrow> combine_nodes t clean full nodes
      | None \<Rightarrow>
          if key \<in> set (map strip_generics (cg_generic_fns g)) \<and> crate_of key \<in> set (cg_scanned_crates g)
          then Some VNotReachable else Some (VUnknown no_node))"

definition advisory_step :: "call_graph \<Rightarrow> topo \<Rightarrow> u32 list \<Rightarrow> u32 list \<Rightarrow> string \<Rightarrow> (reach_error, (string, verdict) btree) run \<Rightarrow> (reach_error, (string, verdict) btree) run" where
  "advisory_step g t clean full path m =
     run_bind m (\<lambda>out. run_bind (run_ok (path_verdict g t clean full path))
       (\<lambda>v. Some (Inr (bt_insert str_cmp path v out))))"

definition analyze_paths :: "call_graph \<Rightarrow> string list \<Rightarrow> (reach_error, (string, verdict) btree) run" where
  "analyze_paths g advisory_paths =
     check_schema g
       (run_bind (Some (topo_build g)) (\<lambda>t.
          run_bind (topo_reach t (cg_roots g) False) (\<lambda>clean.
            run_bind (topo_reach t (cg_roots g) True) (\<lambda>full.
              fold (advisory_step g t clean full) advisory_paths (Some (Inr []))))))"

section \<open>Loading a graph\<close>

definition max_nodes :: nat where
  "max_nodes = 20000000"

definition max_edges :: nat where
  "max_edges = 80000000"

text \<open>The JSON reader is an argument.\<close>

definition parse_graph :: "(string \<Rightarrow> string + call_graph) \<Rightarrow> string \<Rightarrow> reach_error + call_graph" where
  "parse_graph from_str json =
     (case from_str json of
        Inl e \<Rightarrow> Inl (Malformed e)
      | Inr g \<Rightarrow>
          if max_nodes < length (cg_nodes g) \<or> max_edges < length (cg_edges g)
          then Inl (Malformed (''graph too large: '' @ show_nat (length (cg_nodes g)) @ '' nodes / '' @
            show_nat (length (cg_edges g)) @ '' edges exceeds the cap ('' @ show_nat max_nodes @ '' / '' @
            show_nat max_edges @ '')''))
          else Inr g)"

end
