(* ===== verification/Call_Graph_Props.thy ===== *)
theory Call_Graph_Props
  imports Call_Graph
begin

text \<open>
  What the reachability verdicts mean: the two searches are instances of breadth-first search, so
  every verdict is exact for the graph it is given.
\<close>

section \<open>Calls and paths of a graph\<close>

definition callees :: "call_graph \<Rightarrow> bool \<Rightarrow> u32 \<Rightarrow> u32 list" where
  "callees g across_opaque u =
     map ge_to (filter (\<lambda>e. ge_from e = u \<and> (across_opaque \<or> ge_kind e \<noteq> Opaque)) (cg_edges g))"

definition call_path :: "call_graph \<Rightarrow> bool \<Rightarrow> u32 list \<Rightarrow> u32 list \<Rightarrow> bool" where
  "call_path g across_opaque roots p \<longleftrightarrow> dep_chain (callees g across_opaque) p \<and> hd p \<in> set roots"

definition labels_of :: "graph_node list \<Rightarrow> u32 \<rightharpoonup> string" where
  "labels_of nodes = map_of (rev (map (\<lambda>n. (gn_id n, gn_label n)) nodes))"

definition node_label :: "call_graph \<Rightarrow> u32 \<rightharpoonup> string" where
  "node_label g = labels_of (cg_nodes g)"

text \<open>A shortest path along analyzable calls, as labels.\<close>

definition is_witness :: "call_graph \<Rightarrow> u32 list \<Rightarrow> u32 \<Rightarrow> string list \<Rightarrow> bool" where
  "is_witness g roots x w \<longleftrightarrow>
     (\<exists>p. call_path g False roots p \<and> last p = x \<and> w = map (\<lambda>i. the (node_label g i)) p \<and>
       (\<forall>q. call_path g False roots q \<longrightarrow> last q = x \<longrightarrow> length p \<le> length q))"

definition reaches :: "call_graph \<Rightarrow> bool \<Rightarrow> u32 list \<Rightarrow> u32 \<Rightarrow> bool" where
  "reaches g across_opaque roots x \<longleftrightarrow> (\<exists>p. call_path g across_opaque roots p \<and> last p = x)"

definition verdict_ok :: "call_graph \<Rightarrow> u32 list \<Rightarrow> u32 set \<Rightarrow> verdict \<Rightarrow> bool" where
  "verdict_ok g roots xs v =
     (case v of
        VReachable w \<Rightarrow> \<exists>x \<in> xs. is_witness g roots x w
      | VUnknown reason \<Rightarrow> reason = opaque_only \<and> (\<exists>x \<in> xs. reaches g True roots x) \<and> (\<forall>x \<in> xs. \<not> reaches g False roots x)
      | VNotReachable \<Rightarrow> \<forall>x \<in> xs. \<not> reaches g True roots x)"

definition known :: "call_graph \<Rightarrow> u32 set" where
  "known g = gn_id ` set (cg_nodes g)"

definition graph_ok :: "call_graph \<Rightarrow> u32 list \<Rightarrow> u32 list \<Rightarrow> bool" where
  "graph_ok g roots sinks \<longleftrightarrow>
     cg_schema g = supported_schema \<and> (\<forall>n \<in> set (cg_nodes g). unat (gn_id n) < length (cg_nodes g)) \<and>
     (\<forall>e \<in> set (cg_edges g). ge_from e \<in> known g \<and> ge_to e \<in> known g) \<and>
     set roots \<subseteq> known g \<and> set sinks \<subseteq> known g"

section \<open>Building the topology\<close>

lemma idx_update: "idx (xs[unat i := x]) j = (if i = j \<and> unat i < length xs then Some x else idx xs j)"
  by (cases "i = j") (auto simp: idx_def word_unat_eq_iff)

lemma idx_replicate: "idx (replicate n x) i = (if unat i < n then Some x else None)"
  by (simp add: idx_def)

lemma label_at_update:
  "unat i < length ls \<Longrightarrow> label_at (ls[unat i := Some l]) = (label_at ls)(i \<mapsto> l)"
  by (rule ext) (auto simp: label_at_def idx_update)

lemma labels_build:
  "length ls = len \<Longrightarrow>
   (case try_fold (label_step len) nodes ls of
      Inl e \<Rightarrow> \<exists>n \<in> set nodes. len \<le> unat (gn_id n)
    | Inr ls' \<Rightarrow> (\<forall>n \<in> set nodes. unat (gn_id n) < len) \<and> length ls' = len \<and>
        label_at ls' = label_at ls ++ labels_of nodes)"
proof (induction nodes arbitrary: ls)
  case Nil
  then show ?case by (simp add: labels_of_def)
next
  case (Cons n nodes)
  show ?case
  proof (cases "len \<le> unat (gn_id n)")
    case True
    then show ?thesis by (simp add: label_step_def)
  next
    case False
    let ?ls = "ls[unat (gn_id n) := Some (gn_label n)]"
    have "label_at ?ls = label_at ls ++ [gn_id n \<mapsto> gn_label n]"
      using False Cons.prems by (simp add: label_at_update map_add_def fun_eq_iff)
    moreover have "labels_of (n # nodes) = [gn_id n \<mapsto> gn_label n] ++ labels_of nodes"
      by (simp add: labels_of_def)
    ultimately show ?thesis using Cons.IH [of ?ls] Cons.prems False
      by (auto simp: label_step_def split: sum.splits)
  qed
qed

definition succ_of :: "graph_edge \<Rightarrow> succ" where
  "succ_of e = \<lparr>su_to = ge_to e, su_opaque = ge_kind e = Opaque\<rparr>"

lemma adj_build:
  "length adj = length labels \<Longrightarrow>
   (case try_fold (adj_step labels) es adj of
      Inl e \<Rightarrow> \<exists>e \<in> set es. label_at labels (ge_from e) = None \<or> label_at labels (ge_to e) = None
    | Inr adj' \<Rightarrow> (\<forall>e \<in> set es. label_at labels (ge_from e) \<noteq> None \<and> label_at labels (ge_to e) \<noteq> None) \<and>
        length adj' = length labels \<and>
        (\<forall>u. idx adj' u = map_option (\<lambda>ss. ss @ map succ_of (filter (\<lambda>e. ge_from e = u) es)) (idx adj u)))"
proof (induction es arbitrary: adj)
  case Nil
  then show ?case by (simp add: option.map_ident)
next
  case (Cons e es)
  show ?case
  proof (cases "label_at labels (ge_from e) = None \<or> label_at labels (ge_to e) = None")
    case True
    then show ?thesis by (auto simp: adj_step_def)
  next
    case False
    then have "unat (ge_from e) < length adj"
      using Cons.prems by (auto simp: label_at_def idx_def split: if_splits)
    moreover have "idx adj (ge_from e) = Some (adj ! unat (ge_from e))"
      using \<open>unat (ge_from e) < length adj\<close> by (simp add: idx_def)
    moreover have "adj_step labels e adj = Inr (adj[unat (ge_from e) := adj ! unat (ge_from e) @ [succ_of e]])"
      using False by (simp add: adj_step_def succ_of_def)
    ultimately show ?thesis
      using Cons.IH [of "adj[unat (ge_from e) := adj ! unat (ge_from e) @ [succ_of e]]"] Cons.prems False
      by (auto simp: idx_update split: sum.splits)
  qed
qed

text \<open>What a built topology holds, and when there is none.\<close>

definition topo_of :: "call_graph \<Rightarrow> topo \<Rightarrow> bool" where
  "topo_of g t \<longleftrightarrow>
     label_at (tp_labels t) = node_label g \<and> length (tp_labels t) = length (cg_nodes g) \<and>
     length (tp_adj t) = length (cg_nodes g) \<and>
     (\<forall>u. unat u < length (cg_nodes g) \<longrightarrow>
        idx (tp_adj t) u = Some (map succ_of (filter (\<lambda>e. ge_from e = u) (cg_edges g))))"

lemma dom_node_label: "dom (node_label g) = known g"
  by (simp add: node_label_def labels_of_def known_def dom_map_of_conv_image_fst image_image)

lemma node_label_None: "node_label g i = None \<longleftrightarrow> i \<notin> known g"
  by (auto simp flip: dom_node_label)

lemma topo_build_spec:
  "case topo_build g of
     Inl e \<Rightarrow> (\<exists>n \<in> set (cg_nodes g). length (cg_nodes g) \<le> unat (gn_id n)) \<or>
       (\<exists>e \<in> set (cg_edges g). ge_from e \<notin> known g \<or> ge_to e \<notin> known g)
   | Inr t \<Rightarrow> (\<forall>n \<in> set (cg_nodes g). unat (gn_id n) < length (cg_nodes g)) \<and>
       (\<forall>e \<in> set (cg_edges g). ge_from e \<in> known g \<and> ge_to e \<in> known g) \<and> topo_of g t"
proof -
  let ?len = "length (cg_nodes g)"
  have none: "label_at (replicate ?len None) = Map.empty"
    by (rule ext) (simp add: label_at_def idx_def)
  note labels = labels_build [of "replicate ?len None" ?len "cg_nodes g"]
  show ?thesis
  proof (cases "try_fold (label_step ?len) (cg_nodes g) (replicate ?len None)")
    case (Inl e)
    then show ?thesis using labels by (simp add: topo_build_def Let_def)
  next
    case (Inr ls)
    then have ls: "\<forall>n \<in> set (cg_nodes g). unat (gn_id n) < ?len" "length ls = ?len" "label_at ls = node_label g"
      using labels unfolding node_label_def none by simp_all
    note adj = adj_build [of "replicate ?len []" ls "cg_edges g", unfolded ls(3) node_label_None]
    show ?thesis
    proof (cases "try_fold (adj_step ls) (cg_edges g) (replicate ?len [])")
      case inl: (Inl e)
      then show ?thesis using adj ls(2) Inr by (auto simp: topo_build_def Let_def)
    next
      case inr: (Inr as)
      have "idx as u = Some (map succ_of (filter (\<lambda>e. ge_from e = u) (cg_edges g)))" if "unat u < ?len" for u
        using adj ls(2) inr that by (simp add: idx_replicate)
      then show ?thesis using adj ls inr Inr by (simp add: topo_build_def Let_def topo_of_def)
    qed
  qed
qed

section \<open>The search is a breadth-first search\<close>

text \<open>A topology whose indices are in range and stay clear of the sentinels.\<close>

definition topo_ok :: "topo \<Rightarrow> bool" where
  "topo_ok t \<longleftrightarrow>
     length (tp_adj t) = length (tp_labels t) \<and> length (tp_labels t) < 2 ^ 32 - 1 \<and>
     (\<forall>ss \<in> set (tp_adj t). \<forall>s \<in> set ss. unat (su_to s) < length (tp_labels t))"

definition open_succs :: "topo \<Rightarrow> bool \<Rightarrow> u32 \<Rightarrow> u32 list" where
  "open_succs t inc u =
     (case idx (tp_adj t) u of None \<Rightarrow> [] | Some ss \<Rightarrow> map su_to (filter (\<lambda>s. inc \<or> \<not> su_opaque s) ss))"

definition pred_map :: "u32 list \<Rightarrow> u32 \<rightharpoonup> u32" where
  "pred_map pred i = (case idx pred i of None \<Rightarrow> None | Some p \<Rightarrow> if p = unvisited \<or> p = root_mark then None else Some p)"

definition search_view :: "search_state \<Rightarrow> u32 bfs_view" where
  "search_view st = (case st of (pred, queue) \<Rightarrow> ({i. is_reached pred i}, queue, pred_map pred))"

definition search_wf :: "topo \<Rightarrow> search_state \<Rightarrow> bool" where
  "search_wf t st = (case st of (pred, queue) \<Rightarrow>
     topo_ok t \<and> length pred = length (tp_labels t) \<and> (\<forall>i \<in> set queue. unat i < length (tp_labels t)))"

definition search_turn :: "topo \<Rightarrow> bool \<Rightarrow> search_state \<Rightarrow> search_state" where
  "search_turn t inc st = (case st of (pred, queue) \<Rightarrow>
     the (fold (\<lambda>s st. Option.bind st (succ_visit inc (hd queue) s)) (the (idx (tp_adj t) (hd queue)))
       (Some (pred, tl queue))))"

lemma not_sentinel:
  assumes "topo_ok t" and "unat i < length (tp_labels t)"
  shows "i \<noteq> unvisited \<and> i \<noteq> root_mark"
proof -
  have "unat i < 2 ^ 32 - 2" using assms by (simp add: topo_ok_def)
  moreover have "unat unvisited = 2 ^ 32 - 1" "unat root_mark = 2 ^ 32 - 2"
    by (simp_all add: unvisited_def root_mark_def)
  ultimately show ?thesis by auto
qed

lemma is_reached_update:
  "x \<noteq> unvisited \<Longrightarrow> unat i < length pred \<Longrightarrow> {j. is_reached (pred[unat i := x]) j} = insert i {j. is_reached pred j}"
  by (auto simp: is_reached_def idx_update)

lemma pred_map_update:
  "unat i < length pred \<Longrightarrow> pred_map (pred[unat i := x]) =
     (if x = unvisited \<or> x = root_mark then (pred_map pred)(i := None) else (pred_map pred)(i \<mapsto> x))"
  by (rule ext) (simp add: pred_map_def idx_update)

lemma succ_visit_view:
  assumes wf: "search_wf t st" and s: "unat (su_to s) < length (tp_labels t)" and node: "unat node < length (tp_labels t)"
  shows "\<exists>st'. succ_visit inc node s st = Some st' \<and> search_wf t st' \<and>
    search_view st' = (if inc \<or> \<not> su_opaque s then visit node (su_to s) (search_view st) else search_view st)"
proof -
  obtain pred queue where st: "st = (pred, queue)" by (cases st)
  have len: "length pred = length (tp_labels t)" and ok: "topo_ok t"
    using wf by (simp_all add: st search_wf_def)
  have nodes: "node \<noteq> unvisited" "node \<noteq> root_mark" using not_sentinel [OF ok node] by simp_all
  have at: "idx pred (su_to s) = Some (pred ! unat (su_to s))" using s len by (simp add: idx_def)
  show ?thesis
  proof (cases "inc \<or> \<not> su_opaque s")
    case False
    then show ?thesis using wf by (auto simp: st succ_visit_def)
  next
    case True
    show ?thesis
    proof (cases "pred ! unat (su_to s) = unvisited")
      case new: True
      have "\<not> is_reached pred (su_to s)" using at new by (simp add: is_reached_def)
      then have "search_view (pred[unat (su_to s) := node], queue @ [su_to s]) = visit node (su_to s) (search_view st)"
        using s len nodes by (simp add: st search_view_def visit_def is_reached_update pred_map_update)
      moreover have "search_wf t (pred[unat (su_to s) := node], queue @ [su_to s])"
        using wf s by (simp add: st search_wf_def)
      ultimately show ?thesis using True new at by (auto simp: st succ_visit_def)
    next
      case old: False
      then have "is_reached pred (su_to s)" using at by (simp add: is_reached_def)
      then show ?thesis using True old at wf by (auto simp: st succ_visit_def search_view_def visit_def)
    qed
  qed
qed

lemma succs_visit_view:
  assumes "unat node < length (tp_labels t)"
  shows "search_wf t st \<Longrightarrow> (\<forall>s \<in> set ss. unat (su_to s) < length (tp_labels t)) \<Longrightarrow>
    \<exists>st'. fold (\<lambda>s st. Option.bind st (succ_visit inc node s)) ss (Some st) = Some st' \<and> search_wf t st' \<and>
      search_view st' = fold (visit node) (map su_to (filter (\<lambda>s. inc \<or> \<not> su_opaque s) ss)) (search_view st)"
proof (induction ss arbitrary: st)
  case (Cons s ss)
  then obtain st1 where "succ_visit inc node s st = Some st1" "search_wf t st1"
    "search_view st1 = (if inc \<or> \<not> su_opaque s then visit node (su_to s) (search_view st) else search_view st)"
    using succ_visit_view [OF Cons.prems(1) _ assms] by force
  then show ?case using Cons.IH [of st1] Cons.prems(2) by auto
qed simp

interpretation search: bfs "open_succs t inc" search_view "search_wf t" "search_turn t inc" "search_loop t inc" fst
  for t inc
proof
  fix s V node Q P
  assume wf: "search_wf t s" and v: "search_view s = (V, node # Q, P)"
  obtain pred where s: "s = (pred, node # Q)" and V: "search_view (pred, Q) = (V, Q, P)"
    using v by (cases s) (auto simp: search_view_def)
  have wf1: "search_wf t (pred, Q)" and node: "unat node < length (tp_labels t)" and ok: "topo_ok t"
    using wf by (simp_all add: s search_wf_def)
  then obtain ss where ss: "idx (tp_adj t) node = Some ss" "ss \<in> set (tp_adj t)"
    by (simp add: idx_def topo_ok_def)
  then have "\<forall>s \<in> set ss. unat (su_to s) < length (tp_labels t)" using ok by (simp add: topo_ok_def)
  then obtain st' where st': "fold (\<lambda>s st. Option.bind st (succ_visit inc node s)) ss (Some (pred, Q)) = Some st'"
    "search_wf t st'" "search_view st' = fold (visit node) (open_succs t inc node) (V, Q, P)"
    using succs_visit_view [OF node wf1, of ss inc] by (auto simp: V open_succs_def ss)
  have "search_turn t inc s = st'" by (simp add: s search_turn_def ss st')
  moreover have "search_loop t inc s = search_loop t inc st'"
    by (simp add: s search_loop.simps [of t inc "(pred, node # Q)"] ss st')
  ultimately show "search_wf t (search_turn t inc s) \<and>
      search_view (search_turn t inc s) = fold (visit node) (open_succs t inc node) (V, Q, P) \<and>
      search_loop t inc s = search_loop t inc (search_turn t inc s)"
    using st' by simp
next
  fix s V P
  assume "search_view s = (V, [], P)"
  then show "search_loop t inc s = Some (fst s)"
    by (cases s) (simp add: search_view_def search_loop.simps)
qed simp

section \<open>Sources\<close>

lemma roots_build:
  "search_wf t st \<Longrightarrow> search_view st = (set queue, queue, Map.empty) \<Longrightarrow> snd st = queue \<Longrightarrow>
   (case try_fold (root_step t) roots st of
      Inl e \<Rightarrow> \<exists>r \<in> set roots. label_at (tp_labels t) r = None
    | Inr st' \<Rightarrow> (\<forall>r \<in> set roots. label_at (tp_labels t) r \<noteq> None) \<and> search_wf t st' \<and>
        search_view st' = (set roots \<union> set queue, snd st', Map.empty) \<and> set (snd st') = set roots \<union> set queue)"
proof (induction roots arbitrary: st queue)
  case Nil
  then show ?case by simp
next
  case (Cons r roots)
  obtain pred where st: "st = (pred, queue)" using Cons.prems(3) by (cases st) simp
  show ?case
  proof (cases "label_at (tp_labels t) r = None")
    case True
    then show ?thesis by (simp add: st root_step_def)
  next
    case False
    have len: "length pred = length (tp_labels t)" using Cons.prems(1) by (simp add: st search_wf_def)
    have r: "unat r < length pred" using False len by (auto simp: label_at_def idx_def split: if_splits)
    have reached: "{i. is_reached pred i} = set queue" "pred_map pred = Map.empty"
      using Cons.prems(2) by (simp_all add: st search_view_def)
    show ?thesis
    proof (cases "pred ! unat r = unvisited")
      case True
      let ?st = "(pred[unat r := root_mark], queue @ [r])"
      have "root_mark \<noteq> unvisited" by (simp add: root_mark_def unvisited_def)
      then have view: "search_view ?st = (set (queue @ [r]), queue @ [r], Map.empty)"
        using r reached by (auto simp: search_view_def is_reached_update pred_map_update)
      have wf: "search_wf t ?st" using Cons.prems(1) r len by (simp add: st search_wf_def)
      have "root_step t r st = Inr ?st" using False True by (simp add: st root_step_def)
      then show ?thesis using Cons.IH [OF wf view] False by (auto split: sum.splits)
    next
      case old: False
      then have "r \<in> set queue" using r reached(1) by (auto simp: is_reached_def idx_def)
      moreover have "root_step t r st = Inr st" using False old by (simp add: st root_step_def)
      ultimately show ?thesis using Cons.IH [OF Cons.prems] False
        by (auto split: sum.splits)
    qed
  qed
qed

section \<open>What a search finds\<close>

lemma climb_climbs:
  assumes "topo_ok t" "length pred = length (tp_labels t)"
  shows "climbs (pred_map pred) x xs \<Longrightarrow> is_reached pred x \<Longrightarrow> (\<forall>y p. pred_map pred y = Some p \<longrightarrow> is_reached pred p) \<Longrightarrow>
    climb t pred x = Some (map (\<lambda>i. case label_at (tp_labels t) i of None \<Rightarrow> ''<unknown>'' | Some l \<Rightarrow> l) xs)"
proof (induction rule: climbs.induct)
  case (top x)
  then obtain p where "idx pred x = Some p" "p = root_mark"
    by (auto simp: is_reached_def pred_map_def split: option.splits if_splits)
  then show ?case by (subst climb.simps) (simp add: Let_def)
next
  case (up x p xs)
  then have "idx pred x = Some p" "p \<noteq> root_mark"
    by (auto simp: pred_map_def split: option.splits if_splits)
  moreover have "is_reached pred p" using up.prems(2) up.hyps(1) by blast
  ultimately show ?case using up.IH up.prems(2) by (subst climb.simps) (simp add: Let_def)
qed

definition label_or :: "topo \<Rightarrow> u32 \<Rightarrow> string" where
  "label_or t i = (case label_at (tp_labels t) i of None \<Rightarrow> ''<unknown>'' | Some l \<Rightarrow> l)"

lemma topo_reach_spec:
  assumes ok: "topo_ok t"
  shows "case topo_reach t roots inc of
      None \<Rightarrow> False
    | Some (Inl e) \<Rightarrow> \<exists>r \<in> set roots. label_at (tp_labels t) r = None
    | Some (Inr pred) \<Rightarrow> (\<forall>r \<in> set roots. label_at (tp_labels t) r \<noteq> None) \<and>
        (\<forall>x. is_reached pred x \<longleftrightarrow> (\<exists>p. dep_chain (open_succs t inc) p \<and> hd p \<in> set roots \<and> last p = x)) \<and>
        (\<forall>x. is_reached pred x \<longrightarrow> (\<exists>p. witness_to t pred x = Some (Some (map (label_or t) p)) \<and>
          dep_chain (open_succs t inc) p \<and> hd p \<in> set roots \<and> last p = x \<and>
          (\<forall>q. dep_chain (open_succs t inc) q \<longrightarrow> hd q \<in> set roots \<longrightarrow> last q = x \<longrightarrow> length p \<le> length q)))"
proof -
  let ?st = "(replicate (length (tp_labels t)) unvisited, []) :: search_state"
  have wf: "search_wf t ?st" using ok by (simp add: search_wf_def)
  have none: "\<not> is_reached (replicate n unvisited) i" "pred_map (replicate n unvisited) = Map.empty" for n i
    by (auto simp: is_reached_def pred_map_def idx_replicate)
  have view: "search_view ?st = (set [], [], Map.empty)" by (simp add: search_view_def none)
  note start = roots_build [OF wf view, of roots]
  show ?thesis
  proof (cases "try_fold (root_step t) roots ?st")
    case (Inl e)
    then show ?thesis using start by (simp add: topo_reach_def)
  next
    case (Inr st)
    then have st: "\<forall>r \<in> set roots. label_at (tp_labels t) r \<noteq> None" "search_wf t st"
      "search_view st = (set roots, snd st, Map.empty)" "set (snd st) = set roots"
      using start by simp_all
    have "bfs_inv (open_succs t inc) (set roots) (\<lambda>_. 0) (search_view st)"
      unfolding st(3) bfs_inv_def prod.case using st(4) by (simp add: sorted_iff_nth_mono)
    from search.loop_total [OF st(2) this] obtain s' D P where s': "search_loop t inc st = Some (fst s')"
      "search_wf t s'" "search_view s' = (set roots \<union> dom P, [], P)" "bfs_inv (open_succs t inc) (set roots) D (search_view s')"
      by blast
    obtain pred where pred: "s' = (pred, [])" using s'(3) by (cases s') (simp add: search_view_def)
    let ?V = "{i. is_reached pred i}"
    have inv: "bfs_inv (open_succs t inc) (set roots) D (?V, [], pred_map pred)"
      using s'(4) by (simp add: pred search_view_def)
    have len: "length pred = length (tp_labels t)" using s'(2) by (simp add: pred search_wf_def)
    have run: "topo_reach t roots inc = Some (Inr pred)" using Inr s'(1) by (simp add: topo_reach_def run_ok_def pred)
    have iff: "is_reached pred x \<longleftrightarrow> (\<exists>p. dep_chain (open_succs t inc) p \<and> hd p \<in> set roots \<and> last p = x)" for x
      using bfs_visited_iff [OF inv, of x] by simp
    have "\<exists>p. witness_to t pred x = Some (Some (map (label_or t) p)) \<and>
        dep_chain (open_succs t inc) p \<and> hd p \<in> set roots \<and> last p = x \<and>
        (\<forall>q. dep_chain (open_succs t inc) q \<longrightarrow> hd q \<in> set roots \<longrightarrow> last q = x \<longrightarrow> length p \<le> length q)"
      if x: "is_reached pred x" for x
    proof -
      obtain xs where xs: "climbs (pred_map pred) x xs" "length xs = Suc (D x)" "dep_chain (open_succs t inc) (rev xs)"
        "hd xs = x" "last xs \<in> set roots"
        using climbs_path [OF inv] x by blast
      have "\<forall>y p. pred_map pred y = Some p \<longrightarrow> is_reached pred p" using bfs_invD(4) [OF inv] by blast
      from climb_climbs [OF ok len xs(1) x this]
      have "witness_to t pred x = Some (Some (map (label_or t) (rev xs)))"
        using x by (simp add: witness_to_def label_or_def rev_map)
      moreover have "length (rev xs) \<le> length q"
        if "dep_chain (open_succs t inc) q" "hd q \<in> set roots" "last q = x" for q
        using bfs_depth [OF inv that(1,2)] that(3) xs(2) by simp
      moreover have "xs \<noteq> []" using xs(2) by auto
      ultimately show ?thesis using xs by (intro exI [of _ "rev xs"]) (simp add: hd_rev last_rev)
    qed
    then show ?thesis using run st(1) iff by auto
  qed
qed

section \<open>In terms of the graph\<close>

lemma topo_of_ok:
  assumes t: "topo_of g t" and n: "length (cg_nodes g) < 2 ^ 32 - 1"
    and ids: "\<forall>n \<in> set (cg_nodes g). unat (gn_id n) < length (cg_nodes g)"
    and ends: "\<forall>e \<in> set (cg_edges g). ge_from e \<in> known g \<and> ge_to e \<in> known g"
  shows "topo_ok t \<and> open_succs t inc = callees g inc"
proof -
  have small: "unat i < length (cg_nodes g)" if "i \<in> known g" for i using that ids by (auto simp: known_def)
  have "unat (su_to s) < length (tp_labels t)" if ss: "ss \<in> set (tp_adj t)" "s \<in> set ss" for ss s
  proof -
    obtain k where k: "k < length (tp_adj t)" "tp_adj t ! k = ss" using ss(1) by (auto simp: in_set_conv_nth)
    then have "unat (of_nat k :: u32) = k" using t n by (simp add: topo_of_def unat_of_nat)
    then have "idx (tp_adj t) (of_nat k) = Some ss" "unat (of_nat k :: u32) < length (cg_nodes g)"
      using k t by (simp_all add: idx_def topo_of_def)
    then have "ss = map succ_of (filter (\<lambda>e. ge_from e = of_nat k) (cg_edges g))" using t by (simp add: topo_of_def)
    then show ?thesis using ss(2) ends small t by (auto simp: succ_of_def topo_of_def)
  qed
  then have "topo_ok t" using t n by (simp add: topo_ok_def topo_of_def)
  moreover have "open_succs t inc u = callees g inc u" for u
  proof (cases "unat u < length (cg_nodes g)")
    case True
    then have "idx (tp_adj t) u = Some (map succ_of (filter (\<lambda>e. ge_from e = u) (cg_edges g)))"
      using t by (simp add: topo_of_def)
    then show ?thesis
      by (simp add: open_succs_def callees_def filter_map comp_def succ_of_def conj_commute)
  next
    case False
    then have "idx (tp_adj t) u = None" "callees g inc u = []"
      using t small ends by (auto simp: idx_def topo_of_def callees_def filter_empty_conv)
    then show ?thesis by (simp add: open_succs_def)
  qed
  ultimately show ?thesis by auto
qed

definition search_exact :: "call_graph \<Rightarrow> u32 list \<Rightarrow> topo \<Rightarrow> u32 list \<Rightarrow> u32 list \<Rightarrow> bool" where
  "search_exact g roots t clean full \<longleftrightarrow>
     label_at (tp_labels t) = node_label g \<and>
     (\<forall>x. is_reached full x \<longleftrightarrow> reaches g True roots x) \<and> (\<forall>x. is_reached clean x \<longleftrightarrow> reaches g False roots x) \<and>
     (\<forall>x. reaches g False roots x \<longrightarrow> (\<exists>w. witness_to t clean x = Some (Some w) \<and> is_witness g roots x w))"

text \<open>The common head of the three analyses: an error, or two exact searches.\<close>

definition searches :: "call_graph \<Rightarrow> u32 list \<Rightarrow> (topo \<Rightarrow> u32 list \<Rightarrow> u32 list \<Rightarrow> (reach_error, 'a) run) \<Rightarrow> (reach_error, 'a) run" where
  "searches g roots k =
     check_schema g
       (run_bind (Some (topo_build g)) (\<lambda>t.
          run_bind (topo_reach t roots False) (\<lambda>clean. run_bind (topo_reach t roots True) (\<lambda>full. k t clean full))))"

lemma path_known:
  assumes "\<forall>e \<in> set (cg_edges g). ge_from e \<in> known g \<and> ge_to e \<in> known g"
  shows "dep_chain (callees g inc) p \<Longrightarrow> hd p \<in> known g \<Longrightarrow> set p \<subseteq> known g"
  using assms by (induction "callees g inc" p rule: dep_chain.induct) (auto simp: callees_def)

lemma searches_spec:
  assumes n: "length (cg_nodes g) < 2 ^ 32 - 1"
  shows "(\<exists>e. searches g roots k = Some (Inl e)) \<and> \<not> graph_ok g roots [] \<or>
    (\<exists>t clean full. searches g roots k = k t clean full \<and> graph_ok g roots [] \<and> search_exact g roots t clean full)"
proof (cases "cg_schema g = supported_schema")
  case False
  then show ?thesis by (simp add: searches_def check_schema_def graph_ok_def)
next
  case schema: True
  note build = topo_build_spec [of g]
  show ?thesis
  proof (cases "topo_build g")
    case (Inl e)
    then have "\<not> graph_ok g roots []" using build [unfolded Inl sum.case] unfolding graph_ok_def by (meson leD)
    then show ?thesis using schema Inl by (simp add: searches_def check_schema_def)
  next
    case (Inr t)
    then have g: "\<forall>n \<in> set (cg_nodes g). unat (gn_id n) < length (cg_nodes g)"
      "\<forall>e \<in> set (cg_edges g). ge_from e \<in> known g \<and> ge_to e \<in> known g" and t: "topo_of g t"
      using build by simp_all
    have ok: "topo_ok t" and succs: "open_succs t inc = callees g inc" for inc
      using topo_of_ok [OF t n g] by blast+
    have labels: "label_at (tp_labels t) = node_label g" using t by (simp add: topo_of_def)
    note reach = topo_reach_spec [OF ok, of roots, unfolded succs labels node_label_None]
    show ?thesis
    proof (cases "set roots \<subseteq> known g")
      case False
      then obtain e where "topo_reach t roots False = Some (Inl e)"
        using reach [of False] by (auto split: option.splits sum.splits)
      then have "searches g roots k = Some (Inl e)" using schema Inr by (simp add: searches_def check_schema_def)
      then show ?thesis using False by (simp add: graph_ok_def)
    next
      case True
      obtain clean where clean: "topo_reach t roots False = Some (Inr clean)"
        "\<And>x. is_reached clean x \<longleftrightarrow> reaches g False roots x"
        "\<And>x. is_reached clean x \<Longrightarrow> \<exists>p. witness_to t clean x = Some (Some (map (label_or t) p)) \<and>
          dep_chain (callees g False) p \<and> hd p \<in> set roots \<and> last p = x \<and>
          (\<forall>q. dep_chain (callees g False) q \<longrightarrow> hd q \<in> set roots \<longrightarrow> last q = x \<longrightarrow> length p \<le> length q)"
        using reach [of False] True unfolding reaches_def call_path_def by (auto split: option.splits sum.splits)
      obtain full where full: "topo_reach t roots True = Some (Inr full)"
        "\<And>x. is_reached full x \<longleftrightarrow> reaches g True roots x"
        using reach [of True] True unfolding reaches_def call_path_def by (auto split: option.splits sum.splits)
      have "\<exists>w. witness_to t clean x = Some (Some w) \<and> is_witness g roots x w" if x: "reaches g False roots x" for x
      proof -
        obtain p where p: "witness_to t clean x = Some (Some (map (label_or t) p))"
          "dep_chain (callees g False) p" "hd p \<in> set roots" "last p = x"
          "\<forall>q. dep_chain (callees g False) q \<longrightarrow> hd q \<in> set roots \<longrightarrow> last q = x \<longrightarrow> length p \<le> length q"
          using clean(3) [of x] x clean(2) by auto
        have "set p \<subseteq> known g" using path_known [OF g(2) p(2)] p(3) True by blast
        then have "\<forall>i \<in> set p. node_label g i \<noteq> None" unfolding node_label_None by blast
        then have "map (label_or t) p = map (\<lambda>i. the (node_label g i)) p"
          by (auto simp: label_or_def labels split: option.splits)
        then show ?thesis using p unfolding is_witness_def call_path_def by blast
      qed
      then have "search_exact g roots t clean full" using labels clean(2) full(2) by (simp add: search_exact_def)
      moreover have "searches g roots k = k t clean full"
        using schema Inr clean(1) full(1) by (simp add: searches_def check_schema_def)
      moreover have "graph_ok g roots []" using schema g True by (simp add: graph_ok_def)
      ultimately show ?thesis by blast
    qed
  qed
qed

section \<open>Single verdicts\<close>

lemma sink_step_spec:
  assumes ex: "search_exact g roots t clean full"
  shows "case node_label g x of
      None \<Rightarrow> \<exists>e. sink_step t clean full x = Some (Inl e)
    | Some l \<Rightarrow> \<exists>v. sink_step t clean full x = Some (Inr \<lparr>sv_sink = l, sv_verdict = v\<rparr>) \<and> verdict_ok g roots {x} v"
proof (cases "node_label g x")
  case None
  then show ?thesis using ex by (simp add: sink_step_def label_of_def search_exact_def)
next
  case (Some l)
  have label: "label_of t x = Inr l" using ex Some by (simp add: label_of_def search_exact_def)
  show ?thesis
  proof (cases "reaches g False roots x")
    case True
    then obtain w where "witness_to t clean x = Some (Some w)" "is_witness g roots x w"
      using ex unfolding search_exact_def by blast
    then show ?thesis using label Some by (simp add: sink_step_def run_ok_def verdict_ok_def)
  next
    case False
    then have "\<not> is_reached clean x" "is_reached full x \<longleftrightarrow> reaches g True roots x"
      using ex by (simp_all add: search_exact_def)
    then show ?thesis using label Some False by (simp add: sink_step_def run_ok_def witness_to_def verdict_ok_def)
  qed
qed

lemma combine_from_spec:
  assumes ex: "search_exact g roots t clean full"
  shows "\<exists>w. combine_from t clean full xs witness reached = Some (w, reached \<or> (\<exists>x \<in> set xs. reaches g True roots x)) \<and>
    (if witness \<noteq> None then w = witness
     else case w of None \<Rightarrow> \<forall>x \<in> set xs. \<not> reaches g False roots x | Some ws \<Rightarrow> \<exists>x \<in> set xs. is_witness g roots x ws)"
proof (induction xs arbitrary: witness reached)
  case Nil
  then show ?case by (cases witness) simp_all
next
  case (Cons x xs)
  have full: "is_reached full x \<longleftrightarrow> reaches g True roots x" using ex by (simp add: search_exact_def)
  show ?case
  proof (cases "witness = None \<and> reaches g False roots x")
    case True
    then obtain w where "witness_to t clean x = Some (Some w)" "is_witness g roots x w"
      using ex unfolding search_exact_def by blast
    then show ?thesis using Cons.IH [of "Some w" "reached \<or> is_reached full x"] True full by auto
  next
    case False
    then have "(if witness = None then witness_to t clean x else Some witness) = Some witness"
      using ex by (cases witness) (simp_all add: witness_to_def search_exact_def)
    then have step: "combine_from t clean full (x # xs) witness reached =
        combine_from t clean full xs witness (reached \<or> is_reached full x)" by simp
    obtain w where w: "combine_from t clean full xs witness (reached \<or> is_reached full x) =
        Some (w, (reached \<or> is_reached full x) \<or> (\<exists>x \<in> set xs. reaches g True roots x))"
      "if witness \<noteq> None then w = witness
       else case w of None \<Rightarrow> \<forall>x \<in> set xs. \<not> reaches g False roots x | Some ws \<Rightarrow> \<exists>x \<in> set xs. is_witness g roots x ws"
      using Cons.IH by blast
    show ?thesis
      unfolding step using w False by (intro exI [of _ w]) (cases witness; cases w; auto simp: full)
  qed
qed

lemma combine_nodes_spec:
  assumes ex: "search_exact g roots t clean full"
  shows "\<exists>v. combine_nodes t clean full xs = Some v \<and> verdict_ok g roots (set xs) v"
proof -
  obtain w where "combine_from t clean full xs None False = Some (w, \<exists>x \<in> set xs. reaches g True roots x)"
    "case w of None \<Rightarrow> \<forall>x \<in> set xs. \<not> reaches g False roots x | Some ws \<Rightarrow> \<exists>x \<in> set xs. is_witness g roots x ws"
    using combine_from_spec [OF ex, of xs None False] by auto
  then show ?thesis by (auto simp: combine_nodes_def verdict_ok_def split: option.splits)
qed

section \<open>Every sink\<close>

text \<open>The verdict of a sink that is no node.\<close>

abbreviation unresolved :: "string \<Rightarrow> sink_verdict" where
  "unresolved path \<equiv> \<lparr>sv_sink = path, sv_verdict = VUnknown unresolved_sink\<rparr>"

lemma analyze_with_roots_spec:
  assumes "length (cg_nodes g) < 2 ^ 32 - 1"
  shows "(\<exists>e. analyze_with_roots g roots = Some (Inl e)) \<and> \<not> graph_ok g roots (cg_sinks g) \<or>
    (\<exists>rs. analyze_with_roots g roots = Some (Inr (rs @ map unresolved (cg_unresolved_sinks g))) \<and> graph_ok g roots (cg_sinks g) \<and>
       list_all2 (\<lambda>x v. node_label g x = Some (sv_sink v) \<and> verdict_ok g roots {x} (sv_verdict v)) (cg_sinks g) rs)"
proof -
  let ?k = "\<lambda>t clean full. run_bind (run_map (sink_step t clean full) (cg_sinks g))
    (\<lambda>vs. Some (Inr (vs @ map unresolved (cg_unresolved_sinks g))))"
  have run: "analyze_with_roots g roots = searches g roots ?k" by (simp only: analyze_with_roots_def searches_def)
  from searches_spec [OF assms, of roots ?k] show ?thesis
  proof (elim disjE conjE exE)
    fix e assume "searches g roots ?k = Some (Inl e)" "\<not> graph_ok g roots []"
    then show ?thesis unfolding run by (auto simp: graph_ok_def)
  next
    fix t clean full
    assume s: "searches g roots ?k = ?k t clean full"
      and g: "graph_ok g roots []" and ex: "search_exact g roots t clean full"
    have "(\<exists>e. sink_step t clean full x = Some (Inl e)) \<and> \<not> x \<in> known g \<or>
        (\<exists>v. sink_step t clean full x = Some (Inr v) \<and> x \<in> known g \<and>
          node_label g x = Some (sv_sink v) \<and> verdict_ok g roots {x} (sv_verdict v))" for x
      using sink_step_spec [OF ex, of x] node_label_None [of g x] by (cases "node_label g x") auto
    from run_map_spec [of "cg_sinks g" "sink_step t clean full", OF this] show ?thesis
      using g unfolding run s by (elim disjE conjE exE) (auto simp: graph_ok_def list_all_iff)
  qed
qed

text \<open>C34: the verdicts of an analysis are exact.  It always ends without a panic; it fails exactly on a
  graph of another schema or with a dangling id.  Otherwise each sink is reachable with the
  labels of a shortest chain of analyzable calls from a root, unknown only when every chain that
  leads to it crosses the opaque frontier, and not reachable only when no chain of any calls
  leads to it; a sink that is no node is never called unreachable.\<close>

theorem verdicts_exact:
  assumes "length (cg_nodes g) < 2 ^ 32 - 1"
  shows "case analyze_with_roots g roots of
      None \<Rightarrow> False
    | Some (Inl e) \<Rightarrow> \<not> graph_ok g roots (cg_sinks g)
    | Some (Inr vs) \<Rightarrow> graph_ok g roots (cg_sinks g) \<and>
        (\<exists>rs. vs = rs @ map unresolved (cg_unresolved_sinks g) \<and>
          list_all2 (\<lambda>x v. node_label g x = Some (sv_sink v) \<and> verdict_ok g roots {x} (sv_verdict v)) (cg_sinks g) rs)"
  using analyze_with_roots_spec [OF assms, of roots] by auto

section \<open>Every advisory path\<close>

definition has_key :: "string \<Rightarrow> graph_node \<Rightarrow> bool" where
  "has_key key n = (case gn_path n of None \<Rightarrow> False | Some p \<Rightarrow> strip_generics p = key)"

definition matching :: "call_graph \<Rightarrow> string \<Rightarrow> u32 set" where
  "matching g path = gn_id ` {n \<in> set (cg_nodes g). has_key (strip_generics path) n}"

definition advisory_ok :: "call_graph \<Rightarrow> string \<Rightarrow> verdict \<Rightarrow> bool" where
  "advisory_ok g path v =
     (if matching g path = {}
      then v = (if strip_generics path \<in> strip_generics ` set (cg_generic_fns g) \<and>
                   crate_of (strip_generics path) \<in> set (cg_scanned_crates g)
                then VNotReachable else VUnknown no_node)
      else verdict_ok g (cg_roots g) (matching g path) v)"

lemma nodes_by_path_fold:
  "fold (\<lambda>node m. case gn_path node of
         None \<Rightarrow> m
       | Some p \<Rightarrow> m(strip_generics p \<mapsto> (case m (strip_generics p) of None \<Rightarrow> [] | Some ns \<Rightarrow> ns) @ [gn_id node]))
     nodes m key =
   (let ns = map gn_id (filter (has_key key) nodes)
    in if ns = [] then m key else Some ((case m key of None \<Rightarrow> [] | Some xs \<Rightarrow> xs) @ ns))"
proof (induction nodes arbitrary: m)
  case (Cons n nodes)
  show ?case
  proof (cases "gn_path n")
    case None
    then show ?thesis using Cons by (simp add: has_key_def)
  next
    case (Some p)
    then have "has_key key n \<longleftrightarrow> strip_generics p = key" by (simp add: has_key_def)
    then show ?thesis unfolding fold_simps comp_apply Cons.IH using Some by (auto simp: Let_def)
  qed
qed simp

lemma nodes_by_path_spec:
  "nodes_by_path (cg_nodes g) (strip_generics path) = (case matching g path = {} of True \<Rightarrow> None
     | False \<Rightarrow> Some (map gn_id (filter (has_key (strip_generics path)) (cg_nodes g))))"
proof -
  have "matching g path = {} \<longleftrightarrow> filter (has_key (strip_generics path)) (cg_nodes g) = []"
    by (auto simp: matching_def filter_empty_conv)
  then show ?thesis unfolding nodes_by_path_def nodes_by_path_fold by (simp add: Let_def)
qed

lemma path_verdict_spec:
  assumes ex: "search_exact g (cg_roots g) t clean full"
  shows "\<exists>v. path_verdict g t clean full path = Some v \<and> advisory_ok g path v"
proof (cases "matching g path = {}")
  case True
  then show ?thesis by (simp add: path_verdict_def nodes_by_path_spec Let_def advisory_ok_def)
next
  case False
  let ?xs = "map gn_id (filter (has_key (strip_generics path)) (cg_nodes g))"
  have "set ?xs = matching g path" by (simp add: matching_def)
  then show ?thesis using combine_nodes_spec [OF ex, of ?xs] False
    by (auto simp: path_verdict_def nodes_by_path_spec Let_def advisory_ok_def)
qed

lemma advisory_fold:
  assumes ex: "search_exact g (cg_roots g) t clean full"
  shows "bt_wf str_cmp out \<Longrightarrow> \<forall>p. (case bt_get str_cmp p out of None \<Rightarrow> p \<notin> S | Some v \<Rightarrow> p \<in> S \<and> advisory_ok g p v) \<Longrightarrow>
    \<exists>out'. fold (advisory_step g t clean full) ps (Some (Inr out)) = Some (Inr out') \<and>
      (\<forall>p. case bt_get str_cmp p out' of None \<Rightarrow> p \<notin> set ps \<union> S | Some v \<Rightarrow> p \<in> set ps \<union> S \<and> advisory_ok g p v)"
proof (induction ps arbitrary: out S)
  case (Cons p ps)
  obtain v where v: "path_verdict g t clean full p = Some v" "advisory_ok g p v" using path_verdict_spec [OF ex] by blast
  let ?out = "bt_insert str_cmp p v out"
  have get: "bt_get str_cmp q ?out = (if q = p then Some v else bt_get str_cmp q out)" for q
    unfolding bt_insert_def by (simp add: str.bt_get_alter [OF Cons.prems(1)])
  have "\<forall>q. case bt_get str_cmp q ?out of None \<Rightarrow> q \<notin> insert p S | Some v \<Rightarrow> q \<in> insert p S \<and> advisory_ok g q v"
  proof
    fix q
    show "case bt_get str_cmp q ?out of None \<Rightarrow> q \<notin> insert p S | Some v \<Rightarrow> q \<in> insert p S \<and> advisory_ok g q v"
      unfolding get using spec [OF Cons.prems(2), of q] v(2) by (cases "bt_get str_cmp q out") auto
  qed
  moreover have "bt_wf str_cmp ?out" unfolding bt_insert_def by (rule str.bt_wf_alter [OF Cons.prems(1)])
  ultimately obtain out' where "fold (advisory_step g t clean full) ps (Some (Inr ?out)) = Some (Inr out')"
    "\<forall>q. case bt_get str_cmp q out' of None \<Rightarrow> q \<notin> set ps \<union> insert p S | Some v \<Rightarrow> q \<in> set ps \<union> insert p S \<and> advisory_ok g q v"
    using Cons.IH by blast
  moreover have "advisory_step g t clean full p (Some (Inr out)) = Some (Inr ?out)"
    by (simp add: advisory_step_def v run_ok_def)
  moreover have "set (p # ps) \<union> S = set ps \<union> insert p S" by auto
  ultimately show ?case by (simp only: fold_simps comp_apply) blast
qed (simp only: fold_simps Un_empty_left list.set(1), blast)

text \<open>C35: what the scanner asks of a call graph: one verdict per advisory path, exact for all the nodes
  whose path is the advisory's once generic arguments are dropped.  Without such a node the
  function counts as not reachable only on the evidence that the build knows it as a generic
  function of a crate it scanned, and is unknown otherwise.\<close>

theorem advisories_exact:
  assumes "length (cg_nodes g) < 2 ^ 32 - 1"
  shows "case analyze_paths g paths of
      None \<Rightarrow> False
    | Some (Inl e) \<Rightarrow> \<not> graph_ok g (cg_roots g) []
    | Some (Inr out) \<Rightarrow> graph_ok g (cg_roots g) [] \<and>
        (\<forall>path. case bt_get str_cmp path out of
            None \<Rightarrow> path \<notin> set paths
          | Some v \<Rightarrow> path \<in> set paths \<and> advisory_ok g path v)"
proof -
  let ?k = "\<lambda>t clean full. fold (advisory_step g t clean full) paths (Some (Inr []))"
  have run: "analyze_paths g paths = searches g (cg_roots g) ?k" by (simp only: analyze_paths_def searches_def)
  from searches_spec [OF assms, of "cg_roots g" ?k] show ?thesis
  proof (elim disjE conjE exE)
    fix t clean full
    assume s: "searches g (cg_roots g) ?k = ?k t clean full"
      and g: "graph_ok g (cg_roots g) []" and ex: "search_exact g (cg_roots g) t clean full"
    show ?thesis using advisory_fold [OF ex, of "[]" "{}" paths] g unfolding run s Un_empty_right by auto
  qed (simp add: run)
qed

section \<open>An example\<close>

definition sample_graph :: call_graph where
  "sample_graph =
     \<lparr>cg_schema = 2,
      cg_nodes = [\<lparr>gn_id = 0, gn_label = ''main'', gn_symbol = ''s0'', gn_path = Some ''app::main''\<rparr>,
                  \<lparr>gn_id = 1, gn_label = ''f'', gn_symbol = ''s1'', gn_path = Some ''dep::Vec::<A>::f''\<rparr>,
                  \<lparr>gn_id = 2, gn_label = ''ffi'', gn_symbol = ''s2'', gn_path = None\<rparr>,
                  \<lparr>gn_id = 3, gn_label = ''g'', gn_symbol = ''s3'', gn_path = Some ''dep::g''\<rparr>,
                  \<lparr>gn_id = 4, gn_label = ''h'', gn_symbol = ''s4'', gn_path = Some ''dep::h''\<rparr>],
      cg_edges = [\<lparr>ge_from = 0, ge_to = 1, ge_kind = Direct\<rparr>, \<lparr>ge_from = 0, ge_to = 2, ge_kind = Opaque\<rparr>,
                  \<lparr>ge_from = 2, ge_to = 3, ge_kind = Opaque\<rparr>, \<lparr>ge_from = 4, ge_to = 1, ge_kind = Direct\<rparr>],
      cg_roots = [0], cg_sinks = [1, 3, 4], cg_unresolved_sinks = [''dep::k''], cg_opaque = [2],
      cg_virtual_calls = [], cg_virtual_impls = [], cg_sink_paths = [], cg_coercions = [],
      cg_imprecise_traits = [], cg_scanned_crates = [''dep''], cg_generic_fns = [''dep::w<T>''],
      cg_escaped = [], cg_crate_id = None\<rparr>"

theorem verdicts_exact_witness:
  "case analyze_with_roots sample_graph [0] of
      None \<Rightarrow> False
    | Some (Inl e) \<Rightarrow> \<not> graph_ok sample_graph [0] (cg_sinks sample_graph)
    | Some (Inr vs) \<Rightarrow> graph_ok sample_graph [0] (cg_sinks sample_graph) \<and>
        (\<exists>rs. vs = rs @ map unresolved (cg_unresolved_sinks sample_graph) \<and>
          list_all2 (\<lambda>x v. node_label sample_graph x = Some (sv_sink v) \<and> verdict_ok sample_graph [0] {x} (sv_verdict v))
            (cg_sinks sample_graph) rs)"
  by (rule verdicts_exact) (simp add: sample_graph_def)

theorem advisories_exact_witness:
  "case analyze_paths sample_graph [''dep::Vec::f'', ''dep::w''] of
      None \<Rightarrow> False
    | Some (Inl e) \<Rightarrow> \<not> graph_ok sample_graph (cg_roots sample_graph) []
    | Some (Inr out) \<Rightarrow> graph_ok sample_graph (cg_roots sample_graph) [] \<and>
        (\<forall>path. case bt_get str_cmp path out of
            None \<Rightarrow> path \<notin> set [''dep::Vec::f'', ''dep::w'']
          | Some v \<Rightarrow> path \<in> set [''dep::Vec::f'', ''dep::w''] \<and> advisory_ok sample_graph path v)"
  by (rule advisories_exact) (simp add: sample_graph_def)

lemma sample_verdicts:
  "map_option (map_sum id (map sv_verdict)) (analyze sample_graph) =
     Some (Inr [VReachable [''main'', ''f''], VUnknown opaque_only, VNotReachable, VUnknown unresolved_sink])"
  "analyze_paths sample_graph [''dep::Vec::f'', ''dep::w'', ''dep::k''] =
     Some (Inr [(''dep::Vec::f'', VReachable [''main'', ''f'']), (''dep::k'', VUnknown no_node), (''dep::w'', VNotReachable)])"
  by code_simp+

end
