(* ===== verification/Call_Merge.thy ===== *)
theory Call_Merge
  imports Call_Graph_Props
begin

text \<open>
  Merging the call graphs of single crates, \<^verbatim>\<open>crates/reach/src/merge.rs\<close>: nodes are joined on their
  symbol, calls through trait objects are resolved against the implementations of all crates,
  pruned by the coercions seen, and the opaque frontier is wired to everything it may re-enter.  A
  \<^verbatim>\<open>HashMap\<close> that is only looked up is a map, a \<^verbatim>\<open>HashSet\<close> that is only asked for membership a
  set, and a \<^verbatim>\<open>HashSet\<close> whose elements are collected and sorted an ordered set; edges that
  differ in their kind alone are sorted here, in the code their order is left open.
\<close>

section \<open>Definitions\<close>

primrec kind_rank :: "edge_kind \<Rightarrow> nat" where
  "kind_rank Direct = 0"
| "kind_rank Virtual = 1"
| "kind_rank Indirect = 2"
| "kind_rank Opaque = 3"
| "kind_rank Other = 4"

definition edge_cmp :: "graph_edge cmp" where
  "edge_cmp = cmp_then (cmp_on ge_from ord_cmp) (cmp_then (cmp_on ge_to ord_cmp) (cmp_on (\<lambda>e. kind_rank (ge_kind e)) ord_cmp))"

text \<open>The implementations a call through a trait object can reach.\<close>

record vimpl =
  vm_node :: u32
  vm_self_key :: "string option"
  vm_trait_key :: "string option"

definition keep_impl :: "vimpl \<Rightarrow> (string \<rightharpoonup> string set) \<Rightarrow> string set \<Rightarrow> string set \<Rightarrow> bool" where
  "keep_impl vi coerced imprecise scanned =
     (case vm_self_key vi of
        None \<Rightarrow> True
      | Some self_key \<Rightarrow>
          (case vm_trait_key vi of
             None \<Rightarrow> True
           | Some trait_key \<Rightarrow>
               trait_key \<in> imprecise \<or> crate_of self_key \<notin> scanned \<or>
               (case coerced trait_key of None \<Rightarrow> False | Some s \<Rightarrow> self_key \<in> s)))"

type_synonym interner = "(string \<rightharpoonup> u32) \<times> graph_node list"

definition intern_node :: "graph_node \<Rightarrow> interner \<Rightarrow> interner" where
  "intern_node n st =
     (case st of (global_id, nodes) \<Rightarrow>
        (case global_id (gn_symbol n) of
           Some _ \<Rightarrow> st
         | None \<Rightarrow>
             (let i = of_nat (length nodes)
              in (global_id(gn_symbol n \<mapsto> i),
                  nodes @ [\<lparr>gn_id = i, gn_label = gn_label n, gn_symbol = gn_symbol n, gn_path = gn_path n\<rparr>]))))"

definition intern_all :: "call_graph list \<Rightarrow> interner" where
  "intern_all fragments = fold (\<lambda>f. fold intern_node (cg_nodes f)) fragments (Map.empty, [])"

definition to_global :: "(string \<rightharpoonup> u32) \<Rightarrow> call_graph \<Rightarrow> u32 \<rightharpoonup> u32" where
  "to_global global_id f =
     fold (\<lambda>n m. case global_id (gn_symbol n) of None \<Rightarrow> m | Some i \<Rightarrow> m(gn_id n \<mapsto> i)) (cg_nodes f) Map.empty"

record merge_state =
  ms_edges :: "graph_edge bset"
  ms_roots :: "u32 bset"
  ms_sinks :: "u32 bset"
  ms_opaque :: "u32 bset"
  ms_escaped :: "u32 bset"
  ms_unresolved :: "string bset"
  ms_calls :: "(u32 \<times> string) list"
  ms_impls :: "string \<rightharpoonup> vimpl list"
  ms_coerced :: "string \<rightharpoonup> string set"
  ms_imprecise :: "string set"
  ms_scanned :: "string bset"
  ms_generic :: "string bset"
  ms_sink_paths :: "(string, u32 bset) btree"

definition merge_start :: merge_state where
  "merge_start =
     \<lparr>ms_edges = [], ms_roots = [], ms_sinks = [], ms_opaque = [], ms_escaped = [], ms_unresolved = [],
      ms_calls = [], ms_impls = Map.empty, ms_coerced = Map.empty, ms_imprecise = {}, ms_scanned = [],
      ms_generic = [], ms_sink_paths = []\<rparr>"

text \<open>Edges through trait objects are resolved again below, the ones of the fragment are left out.\<close>

definition global_edge :: "(u32 \<rightharpoonup> u32) \<Rightarrow> graph_edge \<Rightarrow> graph_edge option" where
  "global_edge g e =
     (if ge_kind e = Virtual then None
      else (case (g (ge_from e), g (ge_to e)) of
              (Some a, Some b) \<Rightarrow> Some \<lparr>ge_from = a, ge_to = b, ge_kind = ge_kind e\<rparr>
            | _ \<Rightarrow> None))"

definition add_impl :: "(u32 \<rightharpoonup> u32) \<Rightarrow> virtual_impl \<Rightarrow> (string \<rightharpoonup> vimpl list) \<Rightarrow> (string \<rightharpoonup> vimpl list)" where
  "add_impl g vi m =
     (case g (vi_node vi) of
        None \<Rightarrow> m
      | Some node \<Rightarrow>
          m(vi_method vi \<mapsto> (case m (vi_method vi) of None \<Rightarrow> [] | Some vs \<Rightarrow> vs) @
              [\<lparr>vm_node = node, vm_self_key = vi_self_key vi, vm_trait_key = vi_trait_key vi\<rparr>]))"

definition add_coercion :: "coercion \<Rightarrow> (string \<rightharpoonup> string set) \<Rightarrow> (string \<rightharpoonup> string set)" where
  "add_coercion c m =
     m(co_trait_key c \<mapsto> insert (co_self_key c) (case m (co_trait_key c) of None \<Rightarrow> {} | Some s \<Rightarrow> s))"

definition add_sink_path :: "(u32 \<rightharpoonup> u32) \<Rightarrow> sink_path \<Rightarrow> (string, u32 bset) btree \<Rightarrow> (string, u32 bset) btree" where
  "add_sink_path g sp m =
     bt_alter str_cmp (sp_path sp)
       (\<lambda>old. fold (bs_insert ord_cmp) (List.map_filter g (sp_nodes sp)) (case old of None \<Rightarrow> [] | Some s \<Rightarrow> s)) m"

definition merge_fragment :: "(string \<rightharpoonup> u32) \<Rightarrow> call_graph \<Rightarrow> merge_state \<Rightarrow> merge_state" where
  "merge_fragment global_id f st =
     (let g = to_global global_id f in
      \<lparr>ms_edges = fold (bs_insert edge_cmp) (List.map_filter (global_edge g) (cg_edges f)) (ms_edges st),
       ms_roots = fold (bs_insert ord_cmp) (List.map_filter g (cg_roots f)) (ms_roots st),
       ms_sinks = fold (bs_insert ord_cmp) (List.map_filter g (cg_sinks f)) (ms_sinks st),
       ms_opaque = fold (bs_insert ord_cmp) (List.map_filter g (cg_opaque f)) (ms_opaque st),
       ms_escaped = fold (bs_insert ord_cmp) (List.map_filter g (cg_escaped f)) (ms_escaped st),
       ms_unresolved = fold (bs_insert str_cmp) (cg_unresolved_sinks f) (ms_unresolved st),
       ms_calls = ms_calls st @
         List.map_filter (\<lambda>vc. map_option (\<lambda>from. (from, vc_method vc)) (g (vc_from vc))) (cg_virtual_calls f),
       ms_impls = fold (add_impl g) (cg_virtual_impls f) (ms_impls st),
       ms_coerced = fold add_coercion (cg_coercions f) (ms_coerced st),
       ms_imprecise = ms_imprecise st \<union> set (cg_imprecise_traits f),
       ms_scanned = fold (bs_insert str_cmp) (cg_scanned_crates f) (ms_scanned st),
       ms_generic = fold (bs_insert str_cmp) (cg_generic_fns f) (ms_generic st),
       ms_sink_paths = fold (add_sink_path g) (cg_sink_paths f) (ms_sink_paths st)\<rparr>)"

definition virtual_edges :: "merge_state \<Rightarrow> graph_edge list" where
  "virtual_edges st =
     concat (map (\<lambda>(from, method).
       case ms_impls st method of
         None \<Rightarrow> []
       | Some targets \<Rightarrow>
           map (\<lambda>vi. \<lparr>ge_from = from, ge_to = vm_node vi, ge_kind = Virtual\<rparr>)
             (filter (\<lambda>vi. keep_impl vi (ms_coerced st) (ms_imprecise st) (set (bs_items (ms_scanned st)))) targets))
       (ms_calls st))"

definition opaque_edges :: "merge_state \<Rightarrow> graph_edge list" where
  "opaque_edges st =
     concat (map (\<lambda>sentinel. map (\<lambda>esc. \<lparr>ge_from = sentinel, ge_to = esc, ge_kind = Opaque\<rparr>) (bs_items (ms_escaped st)))
       (bs_items (ms_opaque st)))"

definition schema_step :: "call_graph \<Rightarrow> unit \<Rightarrow> reach_error + unit" where
  "schema_step f u = (if cg_schema f \<noteq> supported_schema then Inl (UnsupportedSchema (cg_schema f) supported_schema) else Inr u)"

definition merge_graphs :: "call_graph list \<Rightarrow> reach_error + call_graph" where
  "merge_graphs fragments =
     and_then (try_fold schema_step fragments ())
       (\<lambda>_. case intern_all fragments of (global_id, nodes) \<Rightarrow>
         (let st = fold (merge_fragment global_id) fragments merge_start;
              edges = fold (bs_insert edge_cmp) (virtual_edges st @ opaque_edges st) (ms_edges st)
          in Inr \<lparr>cg_schema = supported_schema, cg_nodes = nodes, cg_edges = bs_items edges,
               cg_roots = bs_items (ms_roots st), cg_sinks = bs_items (ms_sinks st),
               cg_unresolved_sinks = bs_items (ms_unresolved st), cg_opaque = bs_items (ms_opaque st),
               cg_virtual_calls = [], cg_virtual_impls = [],
               cg_sink_paths = map (\<lambda>(path, nodes). \<lparr>sp_path = path, sp_nodes = bs_items nodes\<rparr>) (ms_sink_paths st),
               cg_coercions = [], cg_imprecise_traits = [],
               cg_scanned_crates = bs_items (ms_scanned st), cg_generic_fns = bs_items (ms_generic st),
               cg_escaped = [], cg_crate_id = None\<rparr>))"

end
