(* ===== verification/Call_Merge_Props.thy ===== *)
theory Call_Merge_Props
  imports Call_Merge
begin

text \<open>
  What merging promises: up to the renumbering the merged graph is the union of the fragments, so
  the verdicts of its analysis are about the calls of the whole program.
\<close>

section \<open>Graphs up to their ids\<close>

text \<open>Ids only mean something inside one graph; across graphs a node is its symbol.\<close>

definition symbols_of :: "graph_node list \<Rightarrow> u32 \<rightharpoonup> string" where
  "symbols_of nodes = map_of (rev (map (\<lambda>n. (gn_id n, gn_symbol n)) nodes))"

definition node_sym :: "call_graph \<Rightarrow> u32 \<rightharpoonup> string" where
  "node_sym g = symbols_of (cg_nodes g)"

definition sym_set :: "call_graph \<Rightarrow> u32 list \<Rightarrow> string set" where
  "sym_set g xs = {s. \<exists>i \<in> set xs. node_sym g i = Some s}"

definition sym_calls :: "call_graph \<Rightarrow> (string \<times> edge_kind \<times> string) set" where
  "sym_calls g = {(a, k, b). \<exists>e \<in> set (cg_edges g). k = ge_kind e \<and> node_sym g (ge_from e) = Some a \<and> node_sym g (ge_to e) = Some b}"

definition sym_sinks :: "call_graph \<Rightarrow> (string \<times> string) set" where
  "sym_sinks g = {(path, s). \<exists>sp \<in> set (cg_sink_paths g). sp_path sp = path \<and> s \<in> sym_set g (sp_nodes sp)}"

section \<open>Interning\<close>

definition interned :: "interner \<Rightarrow> bool" where
  "interned st \<longleftrightarrow> (case st of (global_id, nodes) \<Rightarrow>
     distinct (map gn_symbol nodes) \<and> map gn_id nodes = map of_nat [0..<length nodes] \<and>
     global_id = map_of (map (\<lambda>n. (gn_symbol n, gn_id n)) nodes))"

lemma intern_node_interned:
  assumes "interned st"
  shows "interned (intern_node n st) \<and> gn_symbol ` set (snd (intern_node n st)) = insert (gn_symbol n) (gn_symbol ` set (snd st)) \<and>
    length (snd (intern_node n st)) \<le> Suc (length (snd st))"
proof -
  obtain gid nodes where st: "st = (gid, nodes)" by (cases st)
  have ok: "distinct (map gn_symbol nodes)" "map gn_id nodes = map of_nat [0..<length nodes]"
    "gid = map_of (map (\<lambda>n. (gn_symbol n, gn_id n)) nodes)"
    using assms by (simp_all add: st interned_def)
  have dom: "dom gid = gn_symbol ` set nodes" by (simp add: ok(3) dom_map_of_conv_image_fst image_image)
  show ?thesis
  proof (cases "gid (gn_symbol n)")
    case (Some i)
    then have "gn_symbol n \<in> gn_symbol ` set nodes" using dom by blast
    then show ?thesis using assms Some by (auto simp: st intern_node_def)
  next
    case None
    then have new: "gn_symbol n \<notin> gn_symbol ` set nodes" using dom by blast
    then have "gid(gn_symbol n \<mapsto> i) = map_of (map (\<lambda>n. (gn_symbol n, gn_id n)) nodes @ [(gn_symbol n, i)])" for i
      using None by (auto simp: ok(3) fun_eq_iff map_add_def split: option.splits)
    then show ?thesis using None new ok by (auto simp: st intern_node_def Let_def interned_def)
  qed
qed

lemma intern_nodes_interned:
  "interned st \<Longrightarrow> interned (fold intern_node ns st) \<and>
     gn_symbol ` set (snd (fold intern_node ns st)) = gn_symbol ` set ns \<union> gn_symbol ` set (snd st) \<and>
     length (snd (fold intern_node ns st)) \<le> length ns + length (snd st)"
proof (induction ns arbitrary: st)
  case (Cons n ns)
  note one = intern_node_interned [OF Cons.prems, of n]
  show ?case using Cons.IH [of "intern_node n st"] one by auto
qed simp

lemma fold_fold_concat: "fold (\<lambda>x. fold f (g x)) xs s = fold f (concat (map g xs)) s"
  by (induction xs arbitrary: s) simp_all

lemma intern_all_interned:
  "interned (intern_all fs) \<and> gn_symbol ` set (snd (intern_all fs)) = gn_symbol ` set (concat (map cg_nodes fs)) \<and>
     length (snd (intern_all fs)) \<le> length (concat (map cg_nodes fs))"
proof -
  have "interned (Map.empty, [])" by (simp add: interned_def)
  from intern_nodes_interned [OF this, of "concat (map cg_nodes fs)"] show ?thesis
    by (simp add: intern_all_def fold_fold_concat)
qed

text \<open>With fewer nodes than ids, symbols and ids are each other's names.\<close>

lemma interned_inverse:
  assumes ok: "interned (gid, nodes)" and n: "length nodes < 2 ^ 32"
  shows "symbols_of nodes i = Some s \<longleftrightarrow> gid s = Some i" and "n \<in> set nodes \<Longrightarrow> unat (gn_id n) < length nodes"
proof -
  have ids: "map gn_id nodes = map of_nat [0..<length nodes]" and syms: "distinct (map gn_symbol nodes)"
    and gid: "gid = map_of (map (\<lambda>n. (gn_symbol n, gn_id n)) nodes)"
    using ok by (simp_all add: interned_def)
  have ux: "unat (of_nat x :: u32) = x" if "x < length nodes" for x using n that by (simp add: unat_of_nat)
  have "inj_on (of_nat :: nat \<Rightarrow> u32) {0..<length nodes}"
  proof (rule inj_onI)
    fix x y assume x: "x \<in> {0..<length nodes}" and y: "y \<in> {0..<length nodes}" and "(of_nat x :: u32) = of_nat y"
    then have "unat (of_nat x :: u32) = unat (of_nat y :: u32)" by (simp only:)
    then show "x = y" using ux [of x] ux [of y] x y by (simp only: atLeastLessThan_iff)
  qed
  then have distinct_ids: "distinct (map gn_id nodes)" unfolding ids by (simp only: distinct_map distinct_upt set_upt simp_thms)
  have "symbols_of nodes i = Some s \<longleftrightarrow> (i, s) \<in> set (map (\<lambda>n. (gn_id n, gn_symbol n)) nodes)"
  proof -
    have "map fst (rev (map (\<lambda>n. (gn_id n, gn_symbol n)) nodes)) = rev (map gn_id nodes)"
      by (simp add: rev_map comp_def)
    then have "distinct (map fst (rev (map (\<lambda>n. (gn_id n, gn_symbol n)) nodes)))"
      using distinct_ids by (simp only: distinct_rev)
    then show ?thesis unfolding symbols_of_def by (simp only: map_of_eq_Some_iff set_rev)
  qed
  also have "\<dots> \<longleftrightarrow> (s, i) \<in> set (map (\<lambda>n. (gn_symbol n, gn_id n)) nodes)" by auto
  also have "\<dots> \<longleftrightarrow> gid s = Some i"
    unfolding gid using syms by (intro map_of_eq_Some_iff [symmetric]) (simp add: comp_def)
  finally show "symbols_of nodes i = Some s \<longleftrightarrow> gid s = Some i" .
  show "unat (gn_id n) < length nodes" if "n \<in> set nodes"
  proof -
    have "gn_id n \<in> set (map gn_id nodes)" using that by simp
    then obtain k where "k < length nodes" "gn_id n = of_nat k" unfolding ids by auto
    then show ?thesis using n by (simp add: unat_of_nat)
  qed
qed

lemma to_global_fold:
  assumes "\<forall>n \<in> set ns. gid (gn_symbol n) \<noteq> None"
  shows "fold (\<lambda>n m. case gid (gn_symbol n) of None \<Rightarrow> m | Some i \<Rightarrow> m(gn_id n \<mapsto> i)) ns m i =
     (case symbols_of ns i of None \<Rightarrow> m i | Some s \<Rightarrow> gid s)"
  using assms
proof (induction ns rule: rev_induct)
  case Nil
  then show ?case by (simp add: symbols_of_def)
next
  case (snoc n ns)
  then show ?case by (auto simp: symbols_of_def)
qed

text \<open>Renaming a fragment's node keeps its symbol.\<close>

definition renames :: "(u32 \<rightharpoonup> u32) \<Rightarrow> (u32 \<rightharpoonup> string) \<Rightarrow> (u32 \<rightharpoonup> string) \<Rightarrow> bool" where
  "renames g old new \<longleftrightarrow> (\<forall>i s. old i = Some s \<longleftrightarrow> (\<exists>j. g i = Some j \<and> new j = Some s)) \<and> (\<forall>i j. g i = Some j \<longrightarrow> new j \<noteq> None)"

lemma to_global_renames:
  assumes st: "intern_all fs = (gid, nodes)" and n: "length (concat (map cg_nodes fs)) < 2 ^ 32" and f: "f \<in> set fs"
  shows "renames (to_global gid f) (node_sym f) (symbols_of nodes)"
proof -
  have ok: "interned (gid, nodes)" "gn_symbol ` set nodes = gn_symbol ` set (concat (map cg_nodes fs))" "length nodes < 2 ^ 32"
    using intern_all_interned [of fs] n unfolding st by auto
  have "dom gid = gn_symbol ` set nodes"
    using ok(1) by (simp add: interned_def dom_map_of_conv_image_fst image_image)
  then have dom: "gid (gn_symbol n) \<noteq> None" if "n \<in> set (cg_nodes f)" for n
  proof -
    have "gn_symbol n \<in> dom gid" unfolding \<open>dom gid = gn_symbol ` set nodes\<close> ok(2) using that f by auto
    then show ?thesis by auto
  qed
  have g: "to_global gid f i = (case node_sym f i of None \<Rightarrow> None | Some s \<Rightarrow> gid s)" for i
    unfolding to_global_def node_sym_def using dom by (subst to_global_fold) auto
  have known: "gid s \<noteq> None" if "node_sym f i = Some s" for i s
  proof -
    have "(i, s) \<in> set (map (\<lambda>n. (gn_id n, gn_symbol n)) (cg_nodes f))"
      using map_of_SomeD [OF that [unfolded node_sym_def symbols_of_def]] by simp
    then show ?thesis using dom by auto
  qed
  have inverse: "gid s = Some j \<longleftrightarrow> symbols_of nodes j = Some s" for s j
    using interned_inverse(1) [OF ok(1,3), of j s] by simp
  show ?thesis unfolding renames_def g
    using known inverse by (auto split: option.splits)
qed

section \<open>What the loop over the fragments collects\<close>

lemma edge_cmp_total: "rust_total_ord edge_cmp"
proof (rule rust_total_ordI)
  show "rust_ord edge_cmp" unfolding edge_cmp_def
    by (intro rust_ord_cmp_then rust_ord_cmp_on rust_ord_ord_cmp)
  have inj: "kind_rank a = kind_rank b \<Longrightarrow> a = b" for a b by (cases a; cases b) simp_all
  show "edge_cmp x y = Equal \<Longrightarrow> x = y" for x y
    using inj [of "ge_kind x" "ge_kind y"]
    by (cases x; cases y) (auto simp: edge_cmp_def cmp_then_def cmp_on_def then_with_eq_Equal)
qed

interpretation edge: rust_total_ord edge_cmp by (rule edge_cmp_total)

context rust_total_ord
begin

lemma set_collect:
  "bt_wf cmp s \<Longrightarrow> set (bs_items (fold (\<lambda>x. fold (bs_insert cmp) (g x)) xs s)) = (\<Union>x \<in> set xs. set (g x)) \<union> set (bs_items s)"
  unfolding fold_fold_concat using bs_fold_insert [of s "concat (map g xs)"] by auto

lemma wf_collect: "bt_wf cmp s \<Longrightarrow> bt_wf cmp (fold (\<lambda>x. fold (bs_insert cmp) (g x)) xs s)"
  unfolding fold_fold_concat using bs_fold_insert [of s "concat (map g xs)"] by auto

end

text \<open>Every field is collected on its own.\<close>

lemma merge_fields:
  "ms_edges (fold (merge_fragment gid) fs st) =
     fold (\<lambda>f. fold (bs_insert edge_cmp) (List.map_filter (global_edge (to_global gid f)) (cg_edges f))) fs (ms_edges st)"
  "ms_roots (fold (merge_fragment gid) fs st) =
     fold (\<lambda>f. fold (bs_insert ord_cmp) (List.map_filter (to_global gid f) (cg_roots f))) fs (ms_roots st)"
  "ms_sinks (fold (merge_fragment gid) fs st) =
     fold (\<lambda>f. fold (bs_insert ord_cmp) (List.map_filter (to_global gid f) (cg_sinks f))) fs (ms_sinks st)"
  "ms_opaque (fold (merge_fragment gid) fs st) =
     fold (\<lambda>f. fold (bs_insert ord_cmp) (List.map_filter (to_global gid f) (cg_opaque f))) fs (ms_opaque st)"
  "ms_escaped (fold (merge_fragment gid) fs st) =
     fold (\<lambda>f. fold (bs_insert ord_cmp) (List.map_filter (to_global gid f) (cg_escaped f))) fs (ms_escaped st)"
  "ms_unresolved (fold (merge_fragment gid) fs st) = fold (\<lambda>f. fold (bs_insert str_cmp) (cg_unresolved_sinks f)) fs (ms_unresolved st)"
  "ms_scanned (fold (merge_fragment gid) fs st) = fold (\<lambda>f. fold (bs_insert str_cmp) (cg_scanned_crates f)) fs (ms_scanned st)"
  "ms_generic (fold (merge_fragment gid) fs st) = fold (\<lambda>f. fold (bs_insert str_cmp) (cg_generic_fns f)) fs (ms_generic st)"
  "ms_imprecise (fold (merge_fragment gid) fs st) = ms_imprecise st \<union> (\<Union>f \<in> set fs. set (cg_imprecise_traits f))"
  "set (ms_calls (fold (merge_fragment gid) fs st)) = set (ms_calls st) \<union>
     {(i, method). \<exists>f \<in> set fs. \<exists>vc \<in> set (cg_virtual_calls f). to_global gid f (vc_from vc) = Some i \<and> vc_method vc = method}"
  "ms_impls (fold (merge_fragment gid) fs st) = fold (\<lambda>f. fold (add_impl (to_global gid f)) (cg_virtual_impls f)) fs (ms_impls st)"
  "ms_coerced (fold (merge_fragment gid) fs st) = fold (\<lambda>f. fold add_coercion (cg_coercions f)) fs (ms_coerced st)"
  "ms_sink_paths (fold (merge_fragment gid) fs st) = fold (\<lambda>f. fold (add_sink_path (to_global gid f)) (cg_sink_paths f)) fs (ms_sink_paths st)"
  by (induction fs arbitrary: st) (auto simp: merge_fragment_def Let_def set_map_filter)

definition impls_at :: "(string \<rightharpoonup> vimpl list) \<Rightarrow> string \<Rightarrow> vimpl set" where
  "impls_at m k = (case m k of None \<Rightarrow> {} | Some vs \<Rightarrow> set vs)"

lemma impls_at_fold:
  "impls_at (fold (add_impl g) vis m) k = impls_at m k \<union>
     {v. \<exists>vi \<in> set vis. vi_method vi = k \<and> g (vi_node vi) = Some (vm_node v) \<and> vm_self_key v = vi_self_key vi \<and> vm_trait_key v = vi_trait_key vi}"
proof (induction vis arbitrary: m)
  case (Cons vi vis)
  have "impls_at (add_impl g vi m) k = impls_at m k \<union>
      {v. vi_method vi = k \<and> g (vi_node vi) = Some (vm_node v) \<and> vm_self_key v = vi_self_key vi \<and> vm_trait_key v = vi_trait_key vi}"
    by (auto simp: impls_at_def add_impl_def split: option.splits)
  then show ?case using Cons by auto
qed simp

definition coerced_at :: "(string \<rightharpoonup> string set) \<Rightarrow> string \<Rightarrow> string set" where
  "coerced_at m k = (case m k of None \<Rightarrow> {} | Some s \<Rightarrow> s)"

lemma coerced_at_fold:
  "coerced_at (fold add_coercion cs m) k = coerced_at m k \<union> {s. \<exists>c \<in> set cs. co_trait_key c = k \<and> co_self_key c = s}"
proof (induction cs arbitrary: m)
  case (Cons c cs)
  have "coerced_at (add_coercion c m) k = coerced_at m k \<union> {s. co_trait_key c = k \<and> co_self_key c = s}"
    by (auto simp: coerced_at_def add_coercion_def split: option.splits)
  then show ?case using Cons by auto
qed simp

text \<open>The collected sink paths: well formed, with the nodes of every fragment.\<close>

definition paths_wf :: "(string, u32 bset) btree \<Rightarrow> bool" where
  "paths_wf m \<longleftrightarrow> bt_wf str_cmp m \<and> (\<forall>(p, s) \<in> set m. bt_wf ord_cmp s)"

definition path_nodes :: "(string, u32 bset) btree \<Rightarrow> string \<Rightarrow> u32 set" where
  "path_nodes m p = {i. \<exists>s. (p, s) \<in> set m \<and> i \<in> set (bs_items s)}"

lemma add_sink_path_spec:
  assumes "paths_wf m"
  shows "paths_wf (add_sink_path g sp m) \<and>
    path_nodes (add_sink_path g sp m) p = path_nodes m p \<union> {i. sp_path sp = p \<and> (\<exists>n \<in> set (sp_nodes sp). g n = Some i)}"
proof -
  let ?f = "\<lambda>old. fold (bs_insert ord_cmp) (List.map_filter g (sp_nodes sp)) (case old of None \<Rightarrow> [] | Some s \<Rightarrow> s)"
  have wf: "bt_wf str_cmp m" "\<And>p s. (p, s) \<in> set m \<Longrightarrow> bt_wf ord_cmp s" using assms by (auto simp: paths_wf_def)
  have wf': "bt_wf str_cmp (add_sink_path g sp m)" unfolding add_sink_path_def by (rule str.bt_wf_alter [OF wf(1)])
  have old: "bt_wf ord_cmp (case bt_get str_cmp q m of None \<Rightarrow> [] | Some s \<Rightarrow> s)" for q
    using wf(2) by (auto simp: str.bt_get_iff_mem [OF wf(1)] split: option.split)
  note ins = prim.bs_fold_insert [OF old, of "List.map_filter g (sp_nodes sp)"]
  have mem: "(q, s) \<in> set (add_sink_path g sp m) \<longleftrightarrow>
      (if q = sp_path sp then s = ?f (bt_get str_cmp (sp_path sp) m) else (q, s) \<in> set m)" for q s
  proof -
    have "bt_get str_cmp q (add_sink_path g sp m) =
        (if q = sp_path sp then Some (?f (bt_get str_cmp (sp_path sp) m)) else bt_get str_cmp q m)"
      unfolding add_sink_path_def by (simp add: str.bt_get_alter [OF wf(1)])
    then show ?thesis
      unfolding str.bt_get_iff_mem [OF wf', symmetric] str.bt_get_iff_mem [OF wf(1), symmetric] by auto
  qed
  have "paths_wf (add_sink_path g sp m)"
    using wf' ins wf(2) unfolding paths_wf_def by (auto simp: mem split: if_splits)
  moreover have "path_nodes (add_sink_path g sp m) p = path_nodes m p \<union> {i. sp_path sp = p \<and> (\<exists>n \<in> set (sp_nodes sp). g n = Some i)}"
  proof (cases "p = sp_path sp")
    case True
    have "path_nodes m p = set (bs_items (case bt_get str_cmp (sp_path sp) m of None \<Rightarrow> [] | Some s \<Rightarrow> s))"
      unfolding path_nodes_def str.bt_get_iff_mem [OF wf(1), symmetric] True
      by (cases "bt_get str_cmp (sp_path sp) m") (auto simp: bs_items_def)
    then show ?thesis using ins [of "sp_path sp"] True by (auto simp: path_nodes_def mem set_map_filter)
  next
    case False
    then show ?thesis by (auto simp: path_nodes_def mem)
  qed
  ultimately show ?thesis by blast
qed

lemma add_sink_paths_spec:
  "paths_wf m \<Longrightarrow> paths_wf (fold (add_sink_path g) sps m) \<and>
    path_nodes (fold (add_sink_path g) sps m) p = path_nodes m p \<union> {i. \<exists>sp \<in> set sps. sp_path sp = p \<and> (\<exists>n \<in> set (sp_nodes sp). g n = Some i)}"
proof (induction sps arbitrary: m)
  case (Cons sp sps)
  note one = add_sink_path_spec [OF Cons.prems, of g sp]
  show ?case using Cons.IH [of "add_sink_path g sp m"] one by auto
qed simp

section \<open>The union of the fragments\<close>

text \<open>An implementation is left out only on full evidence that its type never becomes such an object.\<close>

definition may_dispatch :: "call_graph list \<Rightarrow> virtual_impl \<Rightarrow> bool" where
  "may_dispatch fs vi =
     (case (vi_self_key vi, vi_trait_key vi) of
        (Some self_key, Some trait_key) \<Rightarrow>
          (\<exists>f \<in> set fs. trait_key \<in> set (cg_imprecise_traits f)) \<or>
          (\<forall>f \<in> set fs. crate_of self_key \<notin> set (cg_scanned_crates f)) \<or>
          (\<exists>f \<in> set fs. \<exists>c \<in> set (cg_coercions f). co_trait_key c = trait_key \<and> co_self_key c = self_key)
      | _ \<Rightarrow> True)"

definition union_calls :: "call_graph list \<Rightarrow> (string \<times> edge_kind \<times> string) set" where
  "union_calls fs =
     {(a, k, b). k \<noteq> Virtual \<and> (\<exists>f \<in> set fs. (a, k, b) \<in> sym_calls f)} \<union>
     {(a, k, b). k = Virtual \<and> (\<exists>f \<in> set fs. \<exists>vc \<in> set (cg_virtual_calls f). \<exists>h \<in> set fs. \<exists>vi \<in> set (cg_virtual_impls h).
        vc_method vc = vi_method vi \<and> node_sym f (vc_from vc) = Some a \<and> node_sym h (vi_node vi) = Some b \<and> may_dispatch fs vi)} \<union>
     {(a, k, b). k = Opaque \<and> (\<exists>f \<in> set fs. a \<in> sym_set f (cg_opaque f)) \<and> (\<exists>f \<in> set fs. b \<in> sym_set f (cg_escaped f))}"

lemma renamesD:
  assumes "renames g old new"
  shows "(\<exists>j. g i = Some j \<and> new j = Some s) \<longleftrightarrow> old i = Some s" "g i = Some j \<Longrightarrow> \<exists>s. new j = Some s \<and> old i = Some s"
  using assms unfolding renames_def by blast+

lemma renamed_set:
  assumes "\<And>f. f \<in> set fs \<Longrightarrow> renames (tg f) (node_sym f) (node_sym m)"
    and "set ys = (\<Union>f \<in> set fs. set (List.map_filter (tg f) (xs f)))"
  shows "sym_set m ys = (\<Union>f \<in> set fs. sym_set f (xs f))"
proof (rule set_eqI)
  fix s
  have "s \<in> sym_set m ys \<longleftrightarrow> (\<exists>f \<in> set fs. \<exists>i \<in> set (xs f). \<exists>j. tg f i = Some j \<and> node_sym m j = Some s)"
    unfolding sym_set_def assms(2) by (simp add: Bex_def set_map_filter) blast
  also have "\<dots> \<longleftrightarrow> s \<in> (\<Union>f \<in> set fs. sym_set f (xs f))"
    using renamesD(1) [OF assms(1)] by (simp add: sym_set_def)
  finally show "s \<in> sym_set m ys \<longleftrightarrow> s \<in> (\<Union>f \<in> set fs. sym_set f (xs f))" .
qed

text \<open>The merged edges by their global ids.\<close>

definition vimpls :: "call_graph list \<Rightarrow> (call_graph \<Rightarrow> u32 \<rightharpoonup> u32) \<Rightarrow> string \<Rightarrow> vimpl set" where
  "vimpls fs tg method =
     {v. \<exists>f \<in> set fs. \<exists>vi \<in> set (cg_virtual_impls f). vi_method vi = method \<and> tg f (vi_node vi) = Some (vm_node v) \<and>
        vm_self_key v = vi_self_key vi \<and> vm_trait_key v = vi_trait_key vi \<and> may_dispatch fs vi}"

definition id_edges :: "call_graph list \<Rightarrow> (call_graph \<Rightarrow> u32 \<rightharpoonup> u32) \<Rightarrow> graph_edge set" where
  "id_edges fs tg =
     (\<Union>f \<in> set fs. set (List.map_filter (global_edge (tg f)) (cg_edges f))) \<union>
     {e. ge_kind e = Virtual \<and> (\<exists>f \<in> set fs. \<exists>vc \<in> set (cg_virtual_calls f). tg f (vc_from vc) = Some (ge_from e) \<and>
        (\<exists>v \<in> vimpls fs tg (vc_method vc). vm_node v = ge_to e))} \<union>
     {e. ge_kind e = Opaque \<and> ge_from e \<in> (\<Union>f \<in> set fs. set (List.map_filter (tg f) (cg_opaque f))) \<and>
        ge_to e \<in> (\<Union>f \<in> set fs. set (List.map_filter (tg f) (cg_escaped f)))}"

lemma empty_bset: "bs_items [] = []" "bt_wf c []"
  by (simp_all add: bs_items_def)

lemma keep_impl_iff:
  assumes "vm_self_key v = vi_self_key vi" "vm_trait_key v = vi_trait_key vi"
  shows "keep_impl v (ms_coerced (fold (merge_fragment gid) fs merge_start)) (ms_imprecise (fold (merge_fragment gid) fs merge_start))
      (set (bs_items (ms_scanned (fold (merge_fragment gid) fs merge_start)))) \<longleftrightarrow> may_dispatch fs vi"
proof -
  have coerced: "coerced_at (fold (\<lambda>f. fold add_coercion (cg_coercions f)) fs Map.empty) k =
      {s. \<exists>f \<in> set fs. \<exists>c \<in> set (cg_coercions f). co_trait_key c = k \<and> co_self_key c = s}" for k
    unfolding fold_fold_concat coerced_at_fold by (auto simp: coerced_at_def)
  have "(case m k of None \<Rightarrow> False | Some s \<Rightarrow> x \<in> s) \<longleftrightarrow> x \<in> coerced_at m k" for m k and x :: string
    by (simp add: coerced_at_def split: option.split)
  then show ?thesis
    unfolding merge_fields keep_impl_def may_dispatch_def merge_start_def merge_state.simps assms
    by (auto simp: coerced str.set_collect empty_bset split: option.splits)
qed

lemma virtual_edges_iff:
  "e \<in> set (virtual_edges (fold (merge_fragment gid) fs merge_start)) \<longleftrightarrow>
     ge_kind e = Virtual \<and> (\<exists>f \<in> set fs. \<exists>vc \<in> set (cg_virtual_calls f). to_global gid f (vc_from vc) = Some (ge_from e) \<and>
        (\<exists>v \<in> vimpls fs (to_global gid) (vc_method vc). vm_node v = ge_to e))"
proof -
  let ?ms = "fold (merge_fragment gid) fs merge_start"
  have impls: "impls_at (fold (\<lambda>f. fold (add_impl (to_global gid f)) (cg_virtual_impls f)) fs m) k = impls_at m k \<union>
      {v. \<exists>f \<in> set fs. \<exists>vi \<in> set (cg_virtual_impls f). vi_method vi = k \<and> to_global gid f (vi_node vi) = Some (vm_node v) \<and>
        vm_self_key v = vi_self_key vi \<and> vm_trait_key v = vi_trait_key vi}" for m k
    by (induction fs arbitrary: m) (auto simp: impls_at_fold)
  have kept: "{v \<in> impls_at (ms_impls ?ms) k. keep_impl v (ms_coerced ?ms) (ms_imprecise ?ms) (set (bs_items (ms_scanned ?ms)))} =
      vimpls fs (to_global gid) k" for k
    unfolding merge_fields(11) impls vimpls_def using keep_impl_iff by (auto simp: merge_start_def impls_at_def) blast+
  have calls: "set (ms_calls ?ms) =
      {(i, method). \<exists>f \<in> set fs. \<exists>vc \<in> set (cg_virtual_calls f). to_global gid f (vc_from vc) = Some i \<and> vc_method vc = method}"
    unfolding merge_fields(10) by (simp add: merge_start_def)
  have one: "set (case ms_impls ?ms k of None \<Rightarrow> [] | Some targets \<Rightarrow>
        map (\<lambda>vi. \<lparr>ge_from = i, ge_to = vm_node vi, ge_kind = Virtual\<rparr>)
          (filter (\<lambda>vi. keep_impl vi (ms_coerced ?ms) (ms_imprecise ?ms) (set (bs_items (ms_scanned ?ms)))) targets)) =
      (\<lambda>v. \<lparr>ge_from = i, ge_to = vm_node v, ge_kind = Virtual\<rparr>) ` vimpls fs (to_global gid) k" for i k
    unfolding kept [symmetric] by (auto simp: impls_at_def split: option.split)
  have "set (virtual_edges ?ms) = (\<Union>p \<in> set (ms_calls ?ms).
      (\<lambda>v. \<lparr>ge_from = fst p, ge_to = vm_node v, ge_kind = Virtual\<rparr>) ` vimpls fs (to_global gid) (snd p))"
    unfolding virtual_edges_def set_concat set_map image_image by (simp only: case_prod_beta one)
  then show ?thesis unfolding calls by (cases e) auto
qed

lemma merge_view:
  assumes n: "length (concat (map cg_nodes fs)) < 2 ^ 32" and m: "merge_graphs fs = Inr m"
  obtains tg where "\<And>f. f \<in> set fs \<Longrightarrow> renames (tg f) (node_sym f) (node_sym m)"
    and "set (cg_edges m) = id_edges fs tg"
    and "set (cg_roots m) = (\<Union>f \<in> set fs. set (List.map_filter (tg f) (cg_roots f)))"
    and "set (cg_sinks m) = (\<Union>f \<in> set fs. set (List.map_filter (tg f) (cg_sinks f)))"
    and "set (cg_unresolved_sinks m) = (\<Union>f \<in> set fs. set (cg_unresolved_sinks f))"
    and "set (cg_scanned_crates m) = (\<Union>f \<in> set fs. set (cg_scanned_crates f))"
    and "set (cg_generic_fns m) = (\<Union>f \<in> set fs. set (cg_generic_fns f))"
    and "\<And>p s. (\<exists>sp \<in> set (cg_sink_paths m). sp_path sp = p \<and> s \<in> set (sp_nodes sp)) \<longleftrightarrow>
      (\<exists>f \<in> set fs. \<exists>sp \<in> set (cg_sink_paths f). sp_path sp = p \<and> (\<exists>i \<in> set (sp_nodes sp). tg f i = Some s))"
    and "cg_schema m = supported_schema" and "cg_nodes m = snd (intern_all fs)"
proof -
  obtain gid nodes where st: "intern_all fs = (gid, nodes)" by (cases "intern_all fs")
  let ?ms = "fold (merge_fragment gid) fs merge_start" and ?tg = "to_global gid"
  have nodes_m: "cg_nodes m = nodes" and schema: "cg_schema m = supported_schema"
    and edges_m: "cg_edges m = bs_items (fold (bs_insert edge_cmp) (virtual_edges ?ms @ opaque_edges ?ms) (ms_edges ?ms))"
    and roots_m: "cg_roots m = bs_items (ms_roots ?ms)" and sinks_m: "cg_sinks m = bs_items (ms_sinks ?ms)"
    and unres_m: "cg_unresolved_sinks m = bs_items (ms_unresolved ?ms)"
    and paths_m: "cg_sink_paths m = map (\<lambda>(path, nodes). \<lparr>sp_path = path, sp_nodes = bs_items nodes\<rparr>) (ms_sink_paths ?ms)"
    and scanned_m: "cg_scanned_crates m = bs_items (ms_scanned ?ms)" and generic_m: "cg_generic_fns m = bs_items (ms_generic ?ms)"
    using m unfolding merge_graphs_def and_then_Inr st prod.case Let_def by auto
  note start = merge_start_def merge_state.simps
  have edges: "set (bs_items (ms_edges ?ms)) = (\<Union>f \<in> set fs. set (List.map_filter (global_edge (?tg f)) (cg_edges f)))"
    "bt_wf edge_cmp (ms_edges ?ms)"
    unfolding merge_fields start by (simp_all add: edge.set_collect edge.wf_collect empty_bset)
  have ids: "set (bs_items (ms_roots ?ms)) = (\<Union>f \<in> set fs. set (List.map_filter (?tg f) (cg_roots f)))"
    "set (bs_items (ms_sinks ?ms)) = (\<Union>f \<in> set fs. set (List.map_filter (?tg f) (cg_sinks f)))"
    "set (bs_items (ms_opaque ?ms)) = (\<Union>f \<in> set fs. set (List.map_filter (?tg f) (cg_opaque f)))"
    "set (bs_items (ms_escaped ?ms)) = (\<Union>f \<in> set fs. set (List.map_filter (?tg f) (cg_escaped f)))"
    unfolding merge_fields start by (simp_all add: prim.set_collect empty_bset)
  have texts: "set (bs_items (ms_unresolved ?ms)) = (\<Union>f \<in> set fs. set (cg_unresolved_sinks f))"
    "set (bs_items (ms_scanned ?ms)) = (\<Union>f \<in> set fs. set (cg_scanned_crates f))"
    "set (bs_items (ms_generic ?ms)) = (\<Union>f \<in> set fs. set (cg_generic_fns f))"
    unfolding merge_fields start by (simp_all add: str.set_collect empty_bset)
  have opaque: "e \<in> set (opaque_edges ?ms) \<longleftrightarrow> ge_kind e = Opaque \<and>
      ge_from e \<in> set (bs_items (ms_opaque ?ms)) \<and> ge_to e \<in> set (bs_items (ms_escaped ?ms))" for e
    by (cases e) (auto simp: opaque_edges_def)
  have all: "set (cg_edges m) = id_edges fs ?tg"
    unfolding edges_m edge.bs_fold_insert [OF edges(2), THEN conjunct2] edges(1) id_edges_def set_append
    by (auto simp: virtual_edges_iff opaque ids)
  have paths: "paths_wf (fold (\<lambda>f. fold (add_sink_path (?tg f)) (cg_sink_paths f)) gs pm) \<and>
      path_nodes (fold (\<lambda>f. fold (add_sink_path (?tg f)) (cg_sink_paths f)) gs pm) p = path_nodes pm p \<union>
        {i. \<exists>f \<in> set gs. \<exists>sp \<in> set (cg_sink_paths f). sp_path sp = p \<and> (\<exists>n \<in> set (sp_nodes sp). ?tg f n = Some i)}"
    if "paths_wf pm" for gs pm p
    using that by (induction gs arbitrary: pm) (auto simp: add_sink_paths_spec)
  have "(\<exists>sp \<in> set (cg_sink_paths m). sp_path sp = p \<and> s \<in> set (sp_nodes sp)) \<longleftrightarrow> s \<in> path_nodes (ms_sink_paths ?ms) p" for p s
    unfolding paths_m path_nodes_def by force
  also have "s \<in> path_nodes (ms_sink_paths ?ms) p \<longleftrightarrow>
      (\<exists>f \<in> set fs. \<exists>sp \<in> set (cg_sink_paths f). sp_path sp = p \<and> (\<exists>i \<in> set (sp_nodes sp). ?tg f i = Some s))" for p s
    unfolding merge_fields(13) using paths [where pm = "[]" and gs = fs and p = p] by (simp add: paths_wf_def path_nodes_def merge_start_def)
  finally have sink_paths: "(\<exists>sp \<in> set (cg_sink_paths m). sp_path sp = p \<and> s \<in> set (sp_nodes sp)) \<longleftrightarrow>
      (\<exists>f \<in> set fs. \<exists>sp \<in> set (cg_sink_paths f). sp_path sp = p \<and> (\<exists>i \<in> set (sp_nodes sp). ?tg f i = Some s))" for p s .
  have "renames (?tg f) (node_sym f) (node_sym m)" if "f \<in> set fs" for f
    using to_global_renames [OF st n that] by (simp add: node_sym_def nodes_m)
  then show thesis
    using that [of ?tg] all ids(1,2) texts sink_paths schema
    unfolding roots_m sinks_m unres_m scanned_m generic_m by (simp add: nodes_m st)
qed

lemma merge_calls:
  assumes ren: "\<And>f. f \<in> set fs \<Longrightarrow> renames (tg f) (node_sym f) (node_sym m)"
    and edges: "set (cg_edges m) = id_edges fs tg"
  shows "sym_calls m = union_calls fs"
proof -
  note named = renamesD(1) [OF ren]
  have calls_m: "(a, k, b) \<in> sym_calls m \<longleftrightarrow>
      (\<exists>i j. \<lparr>ge_from = i, ge_to = j, ge_kind = k\<rparr> \<in> id_edges fs tg \<and> node_sym m i = Some a \<and> node_sym m j = Some b)" for a k b
  proof
    assume "(a, k, b) \<in> sym_calls m"
    then obtain e where e: "e \<in> set (cg_edges m)" "k = ge_kind e" "node_sym m (ge_from e) = Some a" "node_sym m (ge_to e) = Some b"
      by (auto simp: sym_calls_def)
    moreover have "e = \<lparr>ge_from = ge_from e, ge_to = ge_to e, ge_kind = ge_kind e\<rparr>" by simp
    ultimately show "\<exists>i j. \<lparr>ge_from = i, ge_to = j, ge_kind = k\<rparr> \<in> id_edges fs tg \<and> node_sym m i = Some a \<and> node_sym m j = Some b"
      unfolding edges [symmetric] by metis
  qed (force simp: sym_calls_def edges)
  have direct: "(\<exists>i j. \<lparr>ge_from = i, ge_to = j, ge_kind = k\<rparr> \<in> (\<Union>f \<in> set fs. set (List.map_filter (global_edge (tg f)) (cg_edges f))) \<and>
      node_sym m i = Some a \<and> node_sym m j = Some b) \<longleftrightarrow> k \<noteq> Virtual \<and> (\<exists>f \<in> set fs. (a, k, b) \<in> sym_calls f)" for a k b
  proof -
    have "\<lparr>ge_from = i, ge_to = j, ge_kind = k\<rparr> \<in> set (List.map_filter (global_edge (tg f)) (cg_edges f)) \<longleftrightarrow>
        k \<noteq> Virtual \<and> (\<exists>e \<in> set (cg_edges f). ge_kind e = k \<and> tg f (ge_from e) = Some i \<and> tg f (ge_to e) = Some j)" for f i j
      by (auto simp: set_map_filter global_edge_def split: option.splits if_splits)
    then have "(\<exists>i j. \<lparr>ge_from = i, ge_to = j, ge_kind = k\<rparr> \<in> (\<Union>f \<in> set fs. set (List.map_filter (global_edge (tg f)) (cg_edges f))) \<and>
        node_sym m i = Some a \<and> node_sym m j = Some b) \<longleftrightarrow>
      (\<exists>f \<in> set fs. k \<noteq> Virtual \<and> (\<exists>e \<in> set (cg_edges f). ge_kind e = k \<and>
        (\<exists>i. tg f (ge_from e) = Some i \<and> node_sym m i = Some a) \<and> (\<exists>j. tg f (ge_to e) = Some j \<and> node_sym m j = Some b)))"
      by auto
    also have "\<dots> \<longleftrightarrow> k \<noteq> Virtual \<and> (\<exists>f \<in> set fs. (a, k, b) \<in> sym_calls f)"
      by (simp add: named sym_calls_def) blast
    finally show ?thesis .
  qed
  have virtual: "(\<exists>i j. (\<exists>f \<in> set fs. \<exists>vc \<in> set (cg_virtual_calls f). tg f (vc_from vc) = Some i \<and>
        (\<exists>v \<in> vimpls fs tg (vc_method vc). vm_node v = j)) \<and> node_sym m i = Some a \<and> node_sym m j = Some b) \<longleftrightarrow>
      (\<exists>f \<in> set fs. \<exists>vc \<in> set (cg_virtual_calls f). \<exists>h \<in> set fs. \<exists>vi \<in> set (cg_virtual_impls h).
        vc_method vc = vi_method vi \<and> node_sym f (vc_from vc) = Some a \<and> node_sym h (vi_node vi) = Some b \<and> may_dispatch fs vi)" for a b
  proof -
    have "(\<exists>v \<in> vimpls fs tg meth. vm_node v = j) \<longleftrightarrow>
        (\<exists>h \<in> set fs. \<exists>vi \<in> set (cg_virtual_impls h). meth = vi_method vi \<and> tg h (vi_node vi) = Some j \<and> may_dispatch fs vi)" for meth j
    proof
      assume "\<exists>h \<in> set fs. \<exists>vi \<in> set (cg_virtual_impls h). meth = vi_method vi \<and> tg h (vi_node vi) = Some j \<and> may_dispatch fs vi"
      then obtain h vi where "h \<in> set fs" "vi \<in> set (cg_virtual_impls h)" "meth = vi_method vi" "tg h (vi_node vi) = Some j" "may_dispatch fs vi" by blast
      then show "\<exists>v \<in> vimpls fs tg meth. vm_node v = j"
        by (intro bexI [of _ "\<lparr>vm_node = j, vm_self_key = vi_self_key vi, vm_trait_key = vi_trait_key vi\<rparr>"]) (auto simp: vimpls_def)
    qed (auto simp: vimpls_def)
    then have "(\<exists>i j. (\<exists>f \<in> set fs. \<exists>vc \<in> set (cg_virtual_calls f). tg f (vc_from vc) = Some i \<and>
        (\<exists>v \<in> vimpls fs tg (vc_method vc). vm_node v = j)) \<and> node_sym m i = Some a \<and> node_sym m j = Some b) \<longleftrightarrow>
      (\<exists>f \<in> set fs. \<exists>vc \<in> set (cg_virtual_calls f). \<exists>h \<in> set fs. \<exists>vi \<in> set (cg_virtual_impls h).
        vc_method vc = vi_method vi \<and> (\<exists>i. tg f (vc_from vc) = Some i \<and> node_sym m i = Some a) \<and>
        (\<exists>j. tg h (vi_node vi) = Some j \<and> node_sym m j = Some b) \<and> may_dispatch fs vi)"
      by (simp only:) blast
    then show ?thesis by (simp add: named)
  qed
  have opaque: "(\<exists>i j. i \<in> (\<Union>f \<in> set fs. set (List.map_filter (tg f) (cg_opaque f))) \<and>
        j \<in> (\<Union>f \<in> set fs. set (List.map_filter (tg f) (cg_escaped f))) \<and> node_sym m i = Some a \<and> node_sym m j = Some b) \<longleftrightarrow>
      (\<exists>f \<in> set fs. a \<in> sym_set f (cg_opaque f)) \<and> (\<exists>f \<in> set fs. b \<in> sym_set f (cg_escaped f))" for a b
  proof -
    have one: "(\<exists>i. i \<in> (\<Union>f \<in> set fs. set (List.map_filter (tg f) (xs f))) \<and> node_sym m i = Some a) \<longleftrightarrow>
        (\<exists>f \<in> set fs. a \<in> sym_set f (xs f))" for xs a
    proof -
      have "(\<exists>i. i \<in> (\<Union>f \<in> set fs. set (List.map_filter (tg f) (xs f))) \<and> node_sym m i = Some a) \<longleftrightarrow>
          (\<exists>f \<in> set fs. \<exists>i \<in> set (xs f). \<exists>j. tg f i = Some j \<and> node_sym m j = Some a)"
        by (simp add: Bex_def set_map_filter) blast
      then show ?thesis by (simp add: named sym_set_def)
    qed
    have split: "(\<exists>i j. i \<in> P \<and> j \<in> Q \<and> A i \<and> B j) \<longleftrightarrow> (\<exists>i. i \<in> P \<and> A i) \<and> (\<exists>j. j \<in> Q \<and> B j)" for P Q :: "u32 set" and A B
      by blast
    show ?thesis unfolding split one ..
  qed
  have "(a, k, b) \<in> sym_calls m \<longleftrightarrow> (a, k, b) \<in> union_calls fs" for a k b
  proof -
    have "(\<exists>i j. (A i j \<or> k = Virtual \<and> B i j \<or> k = Opaque \<and> C i \<and> D j) \<and> E i \<and> F j) \<longleftrightarrow>
        (\<exists>i j. A i j \<and> E i \<and> F j) \<or> k = Virtual \<and> (\<exists>i j. B i j \<and> E i \<and> F j) \<or>
        k = Opaque \<and> (\<exists>i j. C i \<and> D j \<and> E i \<and> F j)" for A B :: "u32 \<Rightarrow> u32 \<Rightarrow> bool" and C D E F
      by blast
    then show ?thesis
      unfolding calls_m union_calls_def id_edges_def Un_iff mem_Collect_eq prod.case graph_edge.simps disj_assoc
      by (simp only: direct virtual opaque)
  qed
  then show ?thesis by auto
qed

lemma merge_sink_paths:
  assumes ren: "\<And>f. f \<in> set fs \<Longrightarrow> renames (tg f) (node_sym f) (node_sym m)"
    and paths: "\<And>p s. (\<exists>sp \<in> set (cg_sink_paths m). sp_path sp = p \<and> s \<in> set (sp_nodes sp)) \<longleftrightarrow>
      (\<exists>f \<in> set fs. \<exists>sp \<in> set (cg_sink_paths f). sp_path sp = p \<and> (\<exists>i \<in> set (sp_nodes sp). tg f i = Some s))"
  shows "sym_sinks m = (\<Union>f \<in> set fs. sym_sinks f)"
proof -
  note named = renamesD(1) [OF ren]
  have "(p, x) \<in> sym_sinks m \<longleftrightarrow> (p, x) \<in> (\<Union>f \<in> set fs. sym_sinks f)" for p x
  proof -
    have "(p, x) \<in> sym_sinks m \<longleftrightarrow>
        (\<exists>s. (\<exists>sp \<in> set (cg_sink_paths m). sp_path sp = p \<and> s \<in> set (sp_nodes sp)) \<and> node_sym m s = Some x)"
      by (auto simp: sym_sinks_def sym_set_def)
    also have "\<dots> \<longleftrightarrow> (\<exists>f \<in> set fs. \<exists>sp \<in> set (cg_sink_paths f). sp_path sp = p \<and>
        (\<exists>i \<in> set (sp_nodes sp). \<exists>s. tg f i = Some s \<and> node_sym m s = Some x))"
      unfolding paths by blast
    also have "\<dots> \<longleftrightarrow> (p, x) \<in> (\<Union>f \<in> set fs. sym_sinks f)"
      by (simp add: named sym_sinks_def sym_set_def)
    finally show ?thesis .
  qed
  then show ?thesis by auto
qed

lemma dom_node_sym: "dom (node_sym g) = known g"
  by (simp add: node_sym_def symbols_of_def known_def dom_map_of_conv_image_fst image_image)

text \<open>A merged graph is well formed.\<close>

lemma merge_graph_ok:
  assumes ren: "\<And>f. f \<in> set fs \<Longrightarrow> renames (tg f) (node_sym f) (node_sym m)"
    and edges: "set (cg_edges m) = id_edges fs tg"
    and roots: "set (cg_roots m) = (\<Union>f \<in> set fs. set (List.map_filter (tg f) (cg_roots f)))"
    and sinks: "set (cg_sinks m) = (\<Union>f \<in> set fs. set (List.map_filter (tg f) (cg_sinks f)))"
    and schema: "cg_schema m = supported_schema"
    and ids: "\<And>n. n \<in> set (cg_nodes m) \<Longrightarrow> unat (gn_id n) < length (cg_nodes m)"
  shows "graph_ok m (cg_roots m) (cg_sinks m)"
proof -
  have tg: "j \<in> known m" if "f \<in> set fs" "tg f i = Some j" for f i j
    using renamesD(2) [OF ren [OF that(1)] that(2)] unfolding dom_node_sym [symmetric] by blast
  have listed: "j \<in> known m" if j: "j \<in> (\<Union>f \<in> set fs. set (List.map_filter (tg f) (xs f)))" for j xs
  proof -
    obtain f where f: "f \<in> set fs" "j \<in> set (List.map_filter (tg f) (xs f))" using j by blast
    then obtain i where "tg f i = Some j" unfolding set_map_filter by blast
    then show ?thesis by (rule tg [OF f(1)])
  qed
  have ends: "ge_from e \<in> known m \<and> ge_to e \<in> known m" if e: "e \<in> set (cg_edges m)" for e
  proof -
    have "e \<in> (\<Union>f \<in> set fs. set (List.map_filter (global_edge (tg f)) (cg_edges f))) \<or>
        (\<exists>f \<in> set fs. \<exists>vc \<in> set (cg_virtual_calls f). tg f (vc_from vc) = Some (ge_from e) \<and>
          (\<exists>v \<in> vimpls fs tg (vc_method vc). vm_node v = ge_to e)) \<or>
        ge_from e \<in> (\<Union>f \<in> set fs. set (List.map_filter (tg f) (cg_opaque f))) \<and>
        ge_to e \<in> (\<Union>f \<in> set fs. set (List.map_filter (tg f) (cg_escaped f)))"
      using e unfolding edges id_edges_def Un_iff mem_Collect_eq by (elim disjE conjE) simp_all
    then show ?thesis
    proof (elim disjE)
      assume "e \<in> (\<Union>f \<in> set fs. set (List.map_filter (global_edge (tg f)) (cg_edges f)))"
      then obtain f where f: "f \<in> set fs" "e \<in> set (List.map_filter (global_edge (tg f)) (cg_edges f))" by blast
      obtain e0 where e0: "global_edge (tg f) e0 = Some e"
        using f(2) [unfolded set_map_filter] by blast
      then have "(\<exists>i. tg f i = Some (ge_from e)) \<and> (\<exists>j. tg f j = Some (ge_to e))"
        by (auto simp: global_edge_def split: option.splits if_splits)
      then show ?thesis using tg [OF f(1)] by blast
    next
      assume "\<exists>f \<in> set fs. \<exists>vc \<in> set (cg_virtual_calls f). tg f (vc_from vc) = Some (ge_from e) \<and>
          (\<exists>v \<in> vimpls fs tg (vc_method vc). vm_node v = ge_to e)"
      then obtain f and vc :: virtual_call and v :: vimpl where f: "f \<in> set fs" "tg f (vc_from vc) = Some (ge_from e)"
        "v \<in> vimpls fs tg (vc_method vc)" "vm_node v = ge_to e" by blast
      then obtain h j where "h \<in> set fs" "tg h j = Some (ge_to e)" by (auto simp: vimpls_def)
      then show ?thesis using tg [OF f(1,2)] tg by blast
    next
      assume "ge_from e \<in> (\<Union>f \<in> set fs. set (List.map_filter (tg f) (cg_opaque f))) \<and>
        ge_to e \<in> (\<Union>f \<in> set fs. set (List.map_filter (tg f) (cg_escaped f)))"
      then show ?thesis using listed by blast
    qed
  qed
  then show ?thesis using schema ids listed unfolding graph_ok_def roots sinks by blast
qed

section \<open>The promise of merging\<close>

lemma schema_loop:
  "try_fold schema_step fs u = (case find (\<lambda>f. cg_schema f \<noteq> supported_schema) fs of
     None \<Rightarrow> Inr u | Some f \<Rightarrow> Inl (UnsupportedSchema (cg_schema f) supported_schema))"
  by (induction fs) (simp_all add: schema_step_def)

definition is_union :: "call_graph list \<Rightarrow> call_graph \<Rightarrow> bool" where
  "is_union fs m \<longleftrightarrow>
     distinct (map gn_symbol (cg_nodes m)) \<and>
     gn_symbol ` set (cg_nodes m) = (\<Union>f \<in> set fs. gn_symbol ` set (cg_nodes f)) \<and>
     sym_calls m = union_calls fs \<and>
     sym_set m (cg_roots m) = (\<Union>f \<in> set fs. sym_set f (cg_roots f)) \<and>
     sym_set m (cg_sinks m) = (\<Union>f \<in> set fs. sym_set f (cg_sinks f)) \<and>
     sym_sinks m = (\<Union>f \<in> set fs. sym_sinks f) \<and>
     set (cg_unresolved_sinks m) = (\<Union>f \<in> set fs. set (cg_unresolved_sinks f)) \<and>
     set (cg_scanned_crates m) = (\<Union>f \<in> set fs. set (cg_scanned_crates f)) \<and>
     set (cg_generic_fns m) = (\<Union>f \<in> set fs. set (cg_generic_fns f))"

lemma is_unionD:
  assumes "is_union fs m"
  shows "sym_calls m = union_calls fs" "sym_set m (cg_roots m) = (\<Union>f \<in> set fs. sym_set f (cg_roots f))"
    "sym_set m (cg_sinks m) = (\<Union>f \<in> set fs. sym_set f (cg_sinks f))"
    "set (cg_unresolved_sinks m) = (\<Union>f \<in> set fs. set (cg_unresolved_sinks f))"
  by (insert assms [unfolded is_union_def]; elim conjE; assumption)+

lemma merge_graphs_cases:
  "merge_graphs fs = (case find (\<lambda>f. cg_schema f \<noteq> supported_schema) fs of
       None \<Rightarrow> merge_graphs fs | Some f \<Rightarrow> Inl (UnsupportedSchema (cg_schema f) supported_schema))"
  "find (\<lambda>f. cg_schema f \<noteq> supported_schema) fs = None \<Longrightarrow> \<exists>m. merge_graphs fs = Inr m"
  by (cases "intern_all fs"; auto simp: merge_graphs_def schema_loop Let_def split: option.split)+

lemma merged_graph:
  assumes n: "length (concat (map cg_nodes fs)) < 2 ^ 32" and m: "merge_graphs fs = Inr m"
  shows "graph_ok m (cg_roots m) (cg_sinks m)" "is_union fs m" "length (cg_nodes m) \<le> length (concat (map cg_nodes fs))"
    and "node_sym m i = Some s \<Longrightarrow> node_sym m j = Some s \<Longrightarrow> i = j"
proof -
  obtain tg where v: "\<And>f. f \<in> set fs \<Longrightarrow> renames (tg f) (node_sym f) (node_sym m)"
    "set (cg_edges m) = id_edges fs tg"
    "set (cg_roots m) = (\<Union>f \<in> set fs. set (List.map_filter (tg f) (cg_roots f)))"
    "set (cg_sinks m) = (\<Union>f \<in> set fs. set (List.map_filter (tg f) (cg_sinks f)))"
    "set (cg_unresolved_sinks m) = (\<Union>f \<in> set fs. set (cg_unresolved_sinks f))"
    "set (cg_scanned_crates m) = (\<Union>f \<in> set fs. set (cg_scanned_crates f))"
    "set (cg_generic_fns m) = (\<Union>f \<in> set fs. set (cg_generic_fns f))"
    "\<And>p s. (\<exists>sp \<in> set (cg_sink_paths m). sp_path sp = p \<and> s \<in> set (sp_nodes sp)) \<longleftrightarrow>
      (\<exists>f \<in> set fs. \<exists>sp \<in> set (cg_sink_paths f). sp_path sp = p \<and> (\<exists>i \<in> set (sp_nodes sp). tg f i = Some s))"
    "cg_schema m = supported_schema" "cg_nodes m = snd (intern_all fs)"
    by (rule merge_view [OF n m]) (rule that, assumption+)
  have interned: "interned (fst (intern_all fs), cg_nodes m)"
    "gn_symbol ` set (cg_nodes m) = (\<Union>f \<in> set fs. gn_symbol ` set (cg_nodes f))"
    and len: "length (cg_nodes m) \<le> length (concat (map cg_nodes fs))"
    using intern_all_interned [of fs] unfolding v(10) by auto
  have small: "length (cg_nodes m) < 2 ^ 32" using len n by simp
  have distinct: "distinct (map gn_symbol (cg_nodes m))" using interned(1) by (simp add: interned_def)
  show "graph_ok m (cg_roots m) (cg_sinks m)"
    by (rule merge_graph_ok [OF v(1-4,9) interned_inverse(2) [OF interned(1) small]])
  show "is_union fs m"
    using distinct interned(2) v(5-7) merge_calls [OF v(1,2)] renamed_set [OF v(1,3)] renamed_set [OF v(1,4)]
      merge_sink_paths [OF v(1,8)]
    by (simp add: is_union_def)
  show "length (cg_nodes m) \<le> length (concat (map cg_nodes fs))" by (rule len)
  show "i = j" if "node_sym m i = Some s" "node_sym m j = Some s"
    using that interned_inverse(1) [OF interned(1) small] unfolding node_sym_def by simp
qed

text \<open>C36: merging is the union of the fragments.  It fails exactly when a fragment has another schema, with
  the first such.  Otherwise the result is a graph every analysis accepts, its nodes are the
  symbols of all fragments, once each, and up to the renumbering its calls, roots, sinks and
  sink paths are those of the fragments: calls through trait objects dispatch to every implementation
  in any fragment that may be such an object, and the opaque frontier of any fragment leads to
  everything that escapes in any other.\<close>

theorem merge_is_union:
  assumes "length (concat (map cg_nodes fs)) < 2 ^ 32"
  shows "case merge_graphs fs of
      Inl e \<Rightarrow> (case find (\<lambda>f. cg_schema f \<noteq> supported_schema) fs of
          None \<Rightarrow> False | Some f \<Rightarrow> e = UnsupportedSchema (cg_schema f) supported_schema)
    | Inr m \<Rightarrow> (\<forall>f \<in> set fs. cg_schema f = supported_schema) \<and> graph_ok m (cg_roots m) (cg_sinks m) \<and> is_union fs m"
proof (cases "find (\<lambda>f. cg_schema f \<noteq> supported_schema) fs")
  case (Some f)
  then show ?thesis using merge_graphs_cases(1) [of fs] by simp
next
  case None
  then show ?thesis
    using merge_graphs_cases(2) [OF None] merged_graph [OF assms] by (auto simp: find_None_iff)
qed

section \<open>The analysis of a whole program\<close>

text \<open>One call of the program, with or without the calls nothing is known about.\<close>

definition program_step :: "call_graph list \<Rightarrow> bool \<Rightarrow> (string \<times> string) set" where
  "program_step fs across_opaque = {(a, b). \<exists>k. (a, k, b) \<in> union_calls fs \<and> (across_opaque \<or> k \<noteq> Opaque)}"

definition program_reaches :: "call_graph list \<Rightarrow> bool \<Rightarrow> string \<Rightarrow> bool" where
  "program_reaches fs across_opaque b \<longleftrightarrow>
     (\<exists>f \<in> set fs. \<exists>a \<in> sym_set f (cg_roots f). (a, b) \<in> (program_step fs across_opaque)\<^sup>*)"

lemma dep_chain_rtrancl:
  "(\<exists>p. dep_chain nx p \<and> hd p = x \<and> last p = y) \<longleftrightarrow> (x, y) \<in> {(u, v). v \<in> set (nx u)}\<^sup>*"
proof
  assume "\<exists>p. dep_chain nx p \<and> hd p = x \<and> last p = y"
  then obtain p where "dep_chain nx p" "hd p = x" "last p = y" by blast
  then show "(x, y) \<in> {(u, v). v \<in> set (nx u)}\<^sup>*"
    by (induction nx p arbitrary: x rule: dep_chain.induct) (auto intro: converse_rtrancl_into_rtrancl)
next
  assume "(x, y) \<in> {(u, v). v \<in> set (nx u)}\<^sup>*"
  then show "\<exists>p. dep_chain nx p \<and> hd p = x \<and> last p = y"
  proof (induction rule: rtrancl_induct)
    case base
    show ?case by (rule exI [of _ "[x]"]) simp
  next
    case (step y z)
    then obtain p where p: "dep_chain nx p" "hd p = x" "last p = y" by blast
    then have "p \<noteq> []" by auto
    then show ?case using p step.hyps(2) by (intro exI [of _ "p @ [z]"]) (simp add: dep_chain_snoc)
  qed
qed

lemma reaches_rtrancl:
  "reaches g inc roots y \<longleftrightarrow> (\<exists>x \<in> set roots. (x, y) \<in> {(u, v). v \<in> set (callees g inc u)}\<^sup>*)"
  unfolding reaches_def call_path_def dep_chain_rtrancl [symmetric] by blast

text \<open>Steps between ids are steps between their symbols.\<close>

lemma reaches_symbols:
  assumes ok: "graph_ok g roots []" and inj: "\<And>i j s. node_sym g i = Some s \<Longrightarrow> node_sym g j = Some s \<Longrightarrow> i = j"
    and y: "node_sym g y = Some s"
  shows "reaches g inc roots y \<longleftrightarrow>
    (\<exists>a \<in> sym_set g roots. (a, s) \<in> {(a, b). \<exists>k. (a, k, b) \<in> sym_calls g \<and> (inc \<or> k \<noteq> Opaque)}\<^sup>*)" (is "_ \<longleftrightarrow> (\<exists>a \<in> _. (a, s) \<in> ?S\<^sup>*)")
proof -
  have named: "\<exists>s. node_sym g i = Some s" if "i \<in> known g" for i
    using that unfolding dom_node_sym [symmetric] by blast
  let ?R = "{(u, v). v \<in> set (callees g inc u)}"
  have forward: "\<exists>b. node_sym g v = Some b \<and> (a, b) \<in> ?S\<^sup>*" if "(u, v) \<in> ?R\<^sup>*" "node_sym g u = Some a" for u v a
    using that(1)
  proof (induction rule: rtrancl_induct)
    case base
    then show ?case using that(2) by blast
  next
    case (step v w)
    then obtain b where b: "node_sym g v = Some b" "(a, b) \<in> ?S\<^sup>*" by blast
    obtain e where e: "e \<in> set (cg_edges g)" "ge_from e = v" "ge_to e = w" "inc \<or> ge_kind e \<noteq> Opaque"
      using step.hyps(2) by (auto simp: callees_def)
    then obtain c where c: "node_sym g w = Some c" using ok named unfolding graph_ok_def by blast
    then have "(b, c) \<in> ?S" using b(1) e unfolding sym_calls_def by blast
    then show ?case using b(2) c by (meson rtrancl_into_rtrancl)
  qed
  have backwards: "(\<exists>v. node_sym g v = Some b \<and> (u, v) \<in> ?R\<^sup>*)" if "(a, b) \<in> ?S\<^sup>*" "node_sym g u = Some a" for a b u
    using that(1)
  proof (induction rule: rtrancl_induct)
    case base
    then show ?case using that(2) by blast
  next
    case (step b c)
    then obtain v where v: "node_sym g v = Some b" "(u, v) \<in> ?R\<^sup>*" by blast
    obtain e where e: "e \<in> set (cg_edges g)" "node_sym g (ge_from e) = Some b" "node_sym g (ge_to e) = Some c" "inc \<or> ge_kind e \<noteq> Opaque"
      using step.hyps(2) by (auto simp: sym_calls_def)
    then have "ge_from e = v" using inj v(1) by blast
    then have "(v, ge_to e) \<in> ?R" using e by (auto simp: callees_def)
    then show ?case using v(2) e(3) by (meson rtrancl_into_rtrancl)
  qed
  show ?thesis
  proof
    assume "reaches g inc roots y"
    then obtain x where x: "x \<in> set roots" "(x, y) \<in> ?R\<^sup>*" unfolding reaches_rtrancl by blast
    then obtain a where "node_sym g x = Some a" using ok named unfolding graph_ok_def by blast
    then show "\<exists>a \<in> sym_set g roots. (a, s) \<in> ?S\<^sup>*" using forward [OF x(2)] x(1) y unfolding sym_set_def by force
  next
    assume "\<exists>a \<in> sym_set g roots. (a, s) \<in> ?S\<^sup>*"
    then obtain a x where x: "x \<in> set roots" "node_sym g x = Some a" "(a, s) \<in> ?S\<^sup>*" unfolding sym_set_def by blast
    then obtain v where "node_sym g v = Some s" "(x, v) \<in> ?R\<^sup>*" using backwards by blast
    then show "reaches g inc roots y" using inj [OF y] x(1) unfolding reaches_rtrancl by blast
  qed
qed

lemma merged_reaches:
  assumes n: "length (concat (map cg_nodes fs)) < 2 ^ 32" and m: "merge_graphs fs = Inr m" and y: "node_sym m y = Some s"
  shows "reaches m inc (cg_roots m) y \<longleftrightarrow> program_reaches fs inc s"
proof -
  have ok: "graph_ok m (cg_roots m) []" using merged_graph(1) [OF n m] by (simp add: graph_ok_def)
  note u = is_unionD(1,2) [OF merged_graph(2) [OF n m]]
  have "reaches m inc (cg_roots m) y \<longleftrightarrow>
      (\<exists>a \<in> sym_set m (cg_roots m). (a, s) \<in> {(a, b). \<exists>k. (a, k, b) \<in> sym_calls m \<and> (inc \<or> k \<noteq> Opaque)}\<^sup>*)"
    by (rule reaches_symbols [OF ok _ y]) (rule merged_graph(4) [OF n m])
  then show ?thesis unfolding u program_reaches_def program_step_def by simp
qed

definition program_verdict :: "call_graph list \<Rightarrow> string \<Rightarrow> verdict \<Rightarrow> bool" where
  "program_verdict fs s v \<longleftrightarrow> (case v of
       VReachable w \<Rightarrow> program_reaches fs False s
     | VUnknown reason \<Rightarrow> reason = opaque_only \<and> program_reaches fs True s \<and> \<not> program_reaches fs False s
     | VNotReachable \<Rightarrow> \<not> program_reaches fs True s)"

lemma is_witness_reaches: "is_witness g roots x w \<Longrightarrow> reaches g False roots x"
  unfolding is_witness_def reaches_def by (elim exE conjE) (intro exI conjI)

lemma verdict_ok_program:
  assumes n: "length (concat (map cg_nodes fs)) < 2 ^ 32" and m: "merge_graphs fs = Inr m" and y: "node_sym m y = Some s"
    and v: "verdict_ok m (cg_roots m) {y} v"
  shows "program_verdict fs s v"
proof (cases v)
  case (VReachable w)
  then have "is_witness m (cg_roots m) y w" using v by (simp add: verdict_ok_def)
  from is_witness_reaches [OF this] show ?thesis
    by (simp add: VReachable program_verdict_def merged_reaches [OF n m y])
next
  case VNotReachable
  then show ?thesis using v by (simp add: program_verdict_def verdict_ok_def merged_reaches [OF n m y])
next
  case (VUnknown reason)
  then show ?thesis using v by (simp add: program_verdict_def verdict_ok_def merged_reaches [OF n m y])
qed

text \<open>C37: the whole pipeline, from the fragments of the crates to the verdicts.  Merging fragments of the
  right schema and analyzing the result never fails and never panics, and each sink of any
  fragment is judged by the calls of the whole program: it is called unreachable exactly when no chain of calls
  from a root of any fragment, through any crate, any dispatch and any opaque boundary, leads to
  it, and reachable exactly when a chain without an opaque call does.\<close>

theorem program_analysis_exact:
  assumes "length (concat (map cg_nodes fs)) < 2 ^ 32 - 1" and "\<forall>f \<in> set fs. cg_schema f = supported_schema"
  shows "\<exists>m rs. merge_graphs fs = Inr m \<and>
    analyze m = Some (Inr (rs @ map unresolved (cg_unresolved_sinks m))) \<and>
    sym_set m (cg_sinks m) = (\<Union>f \<in> set fs. sym_set f (cg_sinks f)) \<and>
    set (cg_unresolved_sinks m) = (\<Union>f \<in> set fs. set (cg_unresolved_sinks f)) \<and>
    list_all2 (\<lambda>x v. \<exists>s. node_sym m x = Some s \<and> node_label m x = Some (sv_sink v) \<and> program_verdict fs s (sv_verdict v))
      (cg_sinks m) rs"
proof -
  have n: "length (concat (map cg_nodes fs)) < 2 ^ 32" using assms(1) by simp
  obtain m where m: "merge_graphs fs = Inr m"
    using merge_graphs_cases(2) [of fs] assms(2) by (auto simp: find_None_iff)
  note g = merged_graph [OF n m]
  have "length (cg_nodes m) < 2 ^ 32 - 1" using g(3) assms(1) by simp
  from analyze_with_roots_spec [OF this, of "cg_roots m"] g(1)
  obtain rs where rs: "analyze m = Some (Inr (rs @ map unresolved (cg_unresolved_sinks m)))"
    "list_all2 (\<lambda>x v. node_label m x = Some (sv_sink v) \<and> verdict_ok m (cg_roots m) {x} (sv_verdict v)) (cg_sinks m) rs"
    unfolding analyze_def by blast
  have "\<exists>s. node_sym m x = Some s" if "x \<in> set (cg_sinks m)" for x
    using that g(1) unfolding graph_ok_def dom_node_sym [symmetric] by blast
  then have "list_all2 (\<lambda>x v. \<exists>s. node_sym m x = Some s \<and> node_label m x = Some (sv_sink v) \<and> program_verdict fs s (sv_verdict v))
      (cg_sinks m) rs"
    using verdict_ok_program [OF n m] by (intro list.rel_mono_strong [OF rs(2)]) fast
  then show ?thesis using m rs(1) is_unionD(3,4) [OF g(2)] by blast
qed

section \<open>An example\<close>

text \<open>An application that calls a trait method, and a library whose two types implement it.\<close>

definition app_fragment :: call_graph where
  "app_fragment =
     \<lparr>cg_schema = 2,
      cg_nodes = [\<lparr>gn_id = 0, gn_label = ''main'', gn_symbol = ''m'', gn_path = Some ''app::main''\<rparr>],
      cg_edges = [], cg_roots = [0], cg_sinks = [], cg_unresolved_sinks = [''lib::gone''], cg_opaque = [],
      cg_virtual_calls = [\<lparr>vc_from = 0, vc_method = ''T::run''\<rparr>], cg_virtual_impls = [], cg_sink_paths = [],
      cg_coercions = [\<lparr>co_self_key = ''lib::A'', co_trait_key = ''lib::T''\<rparr>],
      cg_imprecise_traits = [], cg_scanned_crates = [''app''], cg_generic_fns = [], cg_escaped = [], cg_crate_id = None\<rparr>"

definition lib_fragment :: call_graph where
  "lib_fragment =
     \<lparr>cg_schema = 2,
      cg_nodes = [\<lparr>gn_id = 0, gn_label = ''A::run'', gn_symbol = ''a'', gn_path = None\<rparr>,
                  \<lparr>gn_id = 1, gn_label = ''B::run'', gn_symbol = ''b'', gn_path = None\<rparr>,
                  \<lparr>gn_id = 2, gn_label = ''bad'', gn_symbol = ''s'', gn_path = Some ''lib::bad''\<rparr>,
                  \<lparr>gn_id = 3, gn_label = ''worse'', gn_symbol = ''t'', gn_path = Some ''lib::worse''\<rparr>],
      cg_edges = [\<lparr>ge_from = 0, ge_to = 2, ge_kind = Direct\<rparr>, \<lparr>ge_from = 1, ge_to = 3, ge_kind = Direct\<rparr>],
      cg_roots = [], cg_sinks = [2, 3], cg_unresolved_sinks = [], cg_opaque = [],
      cg_virtual_calls = [],
      cg_virtual_impls = [\<lparr>vi_method = ''T::run'', vi_node = 0, vi_self_key = Some ''lib::A'', vi_trait_key = Some ''lib::T''\<rparr>,
                          \<lparr>vi_method = ''T::run'', vi_node = 1, vi_self_key = Some ''lib::B'', vi_trait_key = Some ''lib::T''\<rparr>],
      cg_sink_paths = [], cg_coercions = [],
      cg_imprecise_traits = [], cg_scanned_crates = [''lib''], cg_generic_fns = [], cg_escaped = [], cg_crate_id = None\<rparr>"

theorem merge_is_union_witness:
  "case merge_graphs [app_fragment, lib_fragment] of
      Inl e \<Rightarrow> (case find (\<lambda>f. cg_schema f \<noteq> supported_schema) [app_fragment, lib_fragment] of
          None \<Rightarrow> False | Some f \<Rightarrow> e = UnsupportedSchema (cg_schema f) supported_schema)
    | Inr m \<Rightarrow> (\<forall>f \<in> set [app_fragment, lib_fragment]. cg_schema f = supported_schema) \<and>
        graph_ok m (cg_roots m) (cg_sinks m) \<and> is_union [app_fragment, lib_fragment] m"
  by (rule merge_is_union) (simp add: app_fragment_def lib_fragment_def)

theorem program_analysis_exact_witness:
  "\<exists>m rs. merge_graphs [app_fragment, lib_fragment] = Inr m \<and>
    analyze m = Some (Inr (rs @ map unresolved (cg_unresolved_sinks m))) \<and>
    sym_set m (cg_sinks m) = (\<Union>f \<in> set [app_fragment, lib_fragment]. sym_set f (cg_sinks f)) \<and>
    set (cg_unresolved_sinks m) = (\<Union>f \<in> set [app_fragment, lib_fragment]. set (cg_unresolved_sinks f)) \<and>
    list_all2 (\<lambda>x v. \<exists>s. node_sym m x = Some s \<and> node_label m x = Some (sv_sink v) \<and>
        program_verdict [app_fragment, lib_fragment] s (sv_verdict v)) (cg_sinks m) rs"
  by (rule program_analysis_exact) (simp_all add: app_fragment_def lib_fragment_def supported_schema_def)

lemma sample_merge:
  "and_then (merge_graphs [app_fragment, lib_fragment]) (\<lambda>m. Inr (map_option (map_sum id (map sv_verdict)) (analyze m))) =
     Inr (Some (Inr [VReachable [''main'', ''A::run'', ''bad''], VNotReachable, VUnknown unresolved_sink]))"
  by code_simp

end
