(* ===== verification/Rust_Bytes.thy ===== *)
theory Rust_Bytes
  imports Rust_Run "HOL-Library.Word"
begin

text \<open>
  Byte buffers as the readers of binary formats use them: ranges of a slice, integers of fixed
  width in either byte order, arithmetic on 64-bit \<^verbatim>\<open>usize\<close> values, and the conversion of bytes to
  text.  A range read with \<^verbatim>\<open>get\<close> is an option, one read with brackets panics out of range.
\<close>

type_synonym byte = "8 word"

section \<open>Ranges\<close>

definition get_range :: "'a list \<Rightarrow> nat \<Rightarrow> nat \<Rightarrow> 'a list option" where
  "get_range b from to = (if from \<le> to \<and> to \<le> length b then Some (take (to - from) (drop from b)) else None)"

definition slice :: "'a list \<Rightarrow> nat \<Rightarrow> nat \<Rightarrow> ('e, 'a list) run" where
  "slice b from to = run_ok (get_range b from to)"

definition byte_at :: "'a list \<Rightarrow> nat \<Rightarrow> ('e, 'a) run" where
  "byte_at b i = (if i < length b then Some (Inr (b ! i)) else None)"

lemma get_range_Some: "get_range b from to = Some s \<longleftrightarrow> from \<le> to \<and> to \<le> length b \<and> s = take (to - from) (drop from b)"
  by (auto simp: get_range_def)

lemma get_range_length: "get_range b from to = Some s \<Longrightarrow> length s = to - from"
  by (auto simp: get_range_def split: if_splits)

lemma safe_slice: "from \<le> to \<Longrightarrow> to \<le> length b \<Longrightarrow> safe (slice b from to) (\<lambda>s. s = take (to - from) (drop from b))"
  by (simp add: slice_def run_ok_def get_range_def)

lemma safe_at: "i < length b \<Longrightarrow> safe (byte_at b i) (\<lambda>x. x = b ! i)"
  by (simp add: byte_at_def)

text \<open>A buffer written as its parts.\<close>

lemma get_range_append:
  "get_range (xs @ ys) from to = (if to \<le> length xs then get_range xs from to
     else if length xs \<le> from then get_range ys (from - length xs) (to - length xs)
     else if from \<le> to \<and> to \<le> length xs + length ys then Some (drop from xs @ take (to - length xs) ys) else None)"
  by (auto simp: get_range_def)

lemma get_range_middle: "get_range (xs @ ys @ zs) (length xs) (length xs + length ys) = Some ys"
  by (simp add: get_range_def)

section \<open>Integers\<close>

text \<open>The value of bytes with the least significant one first.\<close>

fun le_val :: "byte list \<Rightarrow> nat" where
  "le_val [] = 0"
| "le_val (b # bs) = unat b + 256 * le_val bs"

definition from_le :: "byte list \<Rightarrow> 'a::len word" where
  "from_le bs = of_nat (le_val bs)"

definition from_be :: "byte list \<Rightarrow> 'a::len word" where
  "from_be bs = of_nat (le_val (rev bs))"

fun to_le :: "nat \<Rightarrow> nat \<Rightarrow> byte list" where
  "to_le 0 n = []"
| "to_le (Suc k) n = of_nat (n mod 256) # to_le k (n div 256)"

definition to_be :: "nat \<Rightarrow> nat \<Rightarrow> byte list" where
  "to_be k n = rev (to_le k n)"

lemma length_to_le [simp]: "length (to_le k n) = k"
  by (induction k arbitrary: n) simp_all

lemma length_to_be [simp]: "length (to_be k n) = k"
  by (simp add: to_be_def)

lemma unat_of_nat_byte: "n < 256 \<Longrightarrow> unat (of_nat n :: byte) = n"
  by (simp add: unat_of_nat)

lemma le_val_to_le: "n < 256 ^ k \<Longrightarrow> le_val (to_le k n) = n"
proof (induction k arbitrary: n)
  case (Suc k)
  have "n div 256 < 256 ^ k" using Suc.prems by (simp add: less_mult_imp_div_less)
  then show ?case using Suc.IH [of "n div 256"] by (simp add: unat_of_nat_byte)
qed simp

lemma le_val_bound: "le_val bs < 256 ^ length bs"
proof (induction bs)
  case (Cons b bs)
  have "unat b < 256" using unsigned_less [of b] by simp
  then show ?case using Cons by simp
qed simp

lemma to_le_le_val: "length bs = k \<Longrightarrow> to_le k (le_val bs) = bs"
proof (induction bs arbitrary: k)
  case (Cons b bs)
  have "unat b < 256" using unsigned_less [of b, where ?'a = nat] by simp
  then show ?case using Cons by auto
qed simp

lemma drop_split: "drop i r = take k (drop i r) @ drop (i + k) r"
  by (metis add.commute append_take_drop_id drop_drop)

lemma unat_from_le_4: "unat (from_le (to_le 4 n) :: 32 word) = n mod 2 ^ 32"
  and unat_from_be_4: "unat (from_be (to_be 4 n) :: 32 word) = n mod 2 ^ 32"
proof -
  have "to_le k n = to_le k (n mod 256 ^ k)" for k n
  proof (induction k arbitrary: n)
    case (Suc k)
    have "n mod 256 ^ Suc k div 256 = n div 256 mod 256 ^ k"
      by (simp add: mod_mult2_eq)
    then show ?case using Suc.IH [of "n div 256"] by (simp add: mod_mod_cancel)
  qed simp
  from this [of 4 n] have "le_val (to_le 4 n) = n mod 256 ^ 4"
    using le_val_to_le [of "n mod 256 ^ 4" 4] by simp
  then show "unat (from_le (to_le 4 n) :: 32 word) = n mod 2 ^ 32" "unat (from_be (to_be 4 n) :: 32 word) = n mod 2 ^ 32"
    by (simp_all add: from_le_def from_be_def to_be_def unat_of_nat)
qed

lemma from_be_to_be: "n < 2 ^ 32 \<Longrightarrow> from_be (to_be 4 n) = (of_nat n :: 32 word)"
  by (simp add: from_be_def to_be_def le_val_to_le)

lemma sint_of_nat_32: "n < 2 ^ 31 \<Longrightarrow> sint (of_nat n :: 32 word) = int n"
  by (simp add: signed_of_nat signed_take_bit_int_eq_self)

text \<open>Records of one size, one after the other.\<close>

lemma drop_chunks:
  "(\<And>c. c \<in> set cs \<Longrightarrow> length c = n) \<Longrightarrow> i < length cs \<Longrightarrow>
     drop (n * i) (concat cs @ zs) = cs ! i @ concat (drop (Suc i) cs) @ zs"
proof (induction cs arbitrary: i)
  case (Cons c cs)
  then show ?case by (cases i) simp_all
qed simp

lemma length_chunks: "(\<And>c. c \<in> set cs \<Longrightarrow> length c = n) \<Longrightarrow> length (concat cs) = n * length cs"
  by (induction cs) simp_all

section \<open>Arithmetic\<close>

text \<open>\<^verbatim>\<open>checked_mul\<close> and \<^verbatim>\<open>checked_add\<close> on a 64-bit \<^verbatim>\<open>usize\<close>, and the operators, which panic.\<close>

definition checked_mul :: "nat \<Rightarrow> nat \<Rightarrow> nat option" where
  "checked_mul a b = (if a * b < 2 ^ 64 then Some (a * b) else None)"

definition checked_add :: "nat \<Rightarrow> nat \<Rightarrow> nat option" where
  "checked_add a b = (if a + b < 2 ^ 64 then Some (a + b) else None)"

definition usize_add :: "nat \<Rightarrow> nat \<Rightarrow> ('e, nat) run" where
  "usize_add a b = run_ok (checked_add a b)"

definition usize_mul :: "nat \<Rightarrow> nat \<Rightarrow> ('e, nat) run" where
  "usize_mul a b = run_ok (checked_mul a b)"

definition usize_sub :: "nat \<Rightarrow> nat \<Rightarrow> ('e, nat) run" where
  "usize_sub a b = (if b \<le> a then Some (Inr (a - b)) else None)"

definition u32_add :: "32 word \<Rightarrow> 32 word \<Rightarrow> ('e, 32 word) run" where
  "u32_add a b = (if unat a + unat b < 2 ^ 32 then Some (Inr (a + b)) else None)"

lemma safe_usize:
  "a + b < 2 ^ 64 \<Longrightarrow> safe (usize_add a b) (\<lambda>c. c = a + b)" "a * b < 2 ^ 64 \<Longrightarrow> safe (usize_mul a b) (\<lambda>c. c = a * b)"
  "b \<le> a \<Longrightarrow> safe (usize_sub a b) (\<lambda>c. c = a - b)"
  by (simp_all add: usize_add_def usize_mul_def usize_sub_def checked_add_def checked_mul_def run_ok_def)

lemma unat32_bound: "unat (w :: 32 word) < 2 ^ 32"
  using unsigned_less [of w] by simp

text \<open>Page numbers run out: a walk that never takes one twice ends.\<close>

lemma card_unseen: "n \<notin> seen \<Longrightarrow> card (- insert n seen) < card (- (seen :: 32 word set))"
  by (intro psubset_card_mono) auto

section \<open>Text\<close>

text \<open>
  \<^verbatim>\<open>String::from_utf8_lossy\<close>: every longest prefix of a sequence that no valid text continues is
  replaced by one U+FFFD.  Text is kept as its bytes.
\<close>

definition utf8_width :: "nat \<Rightarrow> nat" where
  "utf8_width b = (if b < 0x80 then 1 else if 0xC2 \<le> b \<and> b \<le> 0xDF then 2 else if 0xE0 \<le> b \<and> b \<le> 0xEF then 3
     else if 0xF0 \<le> b \<and> b \<le> 0xF4 then 4 else 0)"

definition utf8_second :: "nat \<Rightarrow> nat \<Rightarrow> bool" where
  "utf8_second first b \<longleftrightarrow>
     (if first = 0xE0 then 0xA0 else if first = 0xF0 then 0x90 else 0x80) \<le> b \<and>
     b \<le> (if first = 0xED then 0x9F else if first = 0xF4 then 0x8F else 0xBF)"

definition utf8_continues :: "nat \<Rightarrow> nat list \<Rightarrow> nat" where
  "utf8_continues first bs =
     (case take (utf8_width first - 1) bs of
        [] \<Rightarrow> 0
      | b # rest \<Rightarrow> if utf8_second first b then Suc (length (takeWhile (\<lambda>c. 0x80 \<le> c \<and> c \<le> 0xBF) rest)) else 0)"

function from_utf8_lossy :: "byte list \<Rightarrow> string" where
  "from_utf8_lossy [] = []"
| "from_utf8_lossy (b # bs) =
     (let w = utf8_width (unat b); k = utf8_continues (unat b) (map unat bs) in
      (if w = Suc k then map (\<lambda>x. char_of (unat x)) (b # take k bs) else [CHR 0xEF, CHR 0xBF, CHR 0xBD])
      @ from_utf8_lossy (drop k bs))"
  by pat_completeness auto
termination from_utf8_lossy
  by (relation "measure length") auto

text \<open>The bytes of a text, and which byte sequences are text.\<close>

definition bytes_of :: "string \<Rightarrow> byte list" where
  "bytes_of s = map (\<lambda>c. of_nat (of_char c)) s"

function valid_utf8 :: "string \<Rightarrow> bool" where
  "valid_utf8 [] = True"
| "valid_utf8 (c # cs) =
     (let k = utf8_continues (of_char c) (map of_char cs) in
      utf8_width (of_char c) = Suc k \<and> valid_utf8 (drop k cs))"
  by pat_completeness auto
termination valid_utf8
  by (relation "measure length") auto

lemma unat_byte: "unat (of_nat (of_char c) :: byte) = of_char c"
  by (rule unat_of_nat_byte) simp

lemma length_bytes_of [simp]: "length (bytes_of s) = length s"
  by (simp add: bytes_of_def)

lemma lossy_valid: "valid_utf8 s \<Longrightarrow> from_utf8_lossy (bytes_of s) = s"
proof (induction s rule: valid_utf8.induct)
  case (2 c cs)
  let ?k = "utf8_continues (of_char c) (map of_char cs)"
  have "map unat (bytes_of cs) = map of_char cs" by (simp add: bytes_of_def unat_byte comp_def)
  moreover have "drop ?k (bytes_of cs) = bytes_of (drop ?k cs)" "take ?k (bytes_of cs) = bytes_of (take ?k cs)"
    by (simp_all add: bytes_of_def drop_map take_map)
  ultimately show ?case using 2 by (simp add: bytes_of_def unat_byte Let_def comp_def)
qed (simp add: bytes_of_def)

end
