(* ===== verification/Rpm_Header.thy ===== *)
theory Rpm_Header
  imports Rust_Bytes Rust_Ord
begin

text \<open>
  The stored header of one installed package, \<^verbatim>\<open>crates/os/src/rpmdb/header.rs\<close>, and the package
  record of \<^verbatim>\<open>crates/os/src/rpmdb/mod.rs\<close>: an index of typed entries over a block of data, read tag
  by tag.  Integers are big-endian words; tags and offsets are read as signed.
\<close>

section \<open>Definitions\<close>

record rpm_package =
  rp_name :: string
  rp_epoch :: "32 word option"
  rp_version :: string
  rp_release :: string
  rp_arch :: "string option"
  rp_source_rpm :: "string option"
  rp_modularity_label :: "string option"
  rp_files :: "string list"

definition empty_package :: rpm_package where
  "empty_package =
     \<lparr>rp_name = [], rp_epoch = None, rp_version = [], rp_release = [], rp_arch = None, rp_source_rpm = None,
      rp_modularity_label = None, rp_files = []\<rparr>"

text \<open>The derived order, field by field.\<close>

definition rpm_package_cmp :: "rpm_package cmp" where
  "rpm_package_cmp =
     cmp_then (cmp_on rp_name str_cmp)
       (cmp_then (cmp_on rp_epoch (cmp_opt ord_cmp))
       (cmp_then (cmp_on rp_version str_cmp)
       (cmp_then (cmp_on rp_release str_cmp)
       (cmp_then (cmp_on rp_arch (cmp_opt str_cmp))
       (cmp_then (cmp_on rp_source_rpm (cmp_opt str_cmp))
       (cmp_then (cmp_on rp_modularity_label (cmp_opt str_cmp))
         (cmp_on rp_files (cmp_list str_cmp))))))))"

definition tag_name :: int where "tag_name = 1000"
definition tag_version :: int where "tag_version = 1001"
definition tag_release :: int where "tag_release = 1002"
definition tag_epoch :: int where "tag_epoch = 1003"
definition tag_arch :: int where "tag_arch = 1022"
definition tag_sourcerpm :: int where "tag_sourcerpm = 1044"
definition tag_modularitylabel :: int where "tag_modularitylabel = 5096"
definition tag_oldfilenames :: int where "tag_oldfilenames = 1027"
definition tag_dirindexes :: int where "tag_dirindexes = 1116"
definition tag_basenames :: int where "tag_basenames = 1117"
definition tag_dirnames :: int where "tag_dirnames = 1118"

definition type_int32 :: "32 word" where "type_int32 = 4"
definition type_string :: "32 word" where "type_string = 6"
definition type_string_array :: "32 word" where "type_string_array = 8"
definition type_i18nstring :: "32 word" where "type_i18nstring = 9"

definition max_entries :: nat where
  "max_entries = 2 ^ 16"

definition show_i32 :: "int \<Rightarrow> string" where
  "show_i32 i = (if i < 0 then CHR ''-'' # show_nat (nat (- i)) else show_nat (nat i))"

definition be :: "byte list \<Rightarrow> nat \<Rightarrow> (string, 32 word) run" where
  "be blob i = Some (ok_or ''header is truncated'' (map_option from_be (get_range blob i (i + 4))))"

record header_state =
  hs_pkg :: rpm_package
  hs_named :: bool
  hs_dir_indexes :: "nat list"
  hs_basenames :: "string list"
  hs_dirnames :: "string list"

definition nul_position :: "byte list \<Rightarrow> nat option" where
  "nul_position rest = (let k = length (takeWhile (\<lambda>b. b \<noteq> 0) rest) in if k < length rest then Some k else None)"

text \<open>A string is read up to its terminator, an array of strings one after the other.\<close>

definition entry_string :: "int \<Rightarrow> 32 word \<Rightarrow> nat \<Rightarrow> nat \<Rightarrow> byte list \<Rightarrow> (string, string) run" where
  "entry_string tag kind offset n data =
     (if \<not> (kind = type_string \<or> kind = type_string_array \<or> kind = type_i18nstring) \<or> n = 0
      then Some (Inl (''tag '' @ show_i32 tag @ '': not a string''))
      else run_bind (slice data offset (length data)) (\<lambda>rest.
        run_bind (Some (ok_or (''tag '' @ show_i32 tag @ '': string is not terminated'') (nul_position rest))) (\<lambda>e.
        run_bind (slice rest 0 e) (\<lambda>s. Some (Inr (from_utf8_lossy s))))))"

fun string_array :: "int \<Rightarrow> nat \<Rightarrow> byte list \<Rightarrow> (string, string list) run" where
  "string_array tag 0 rest = Some (Inr [])"
| "string_array tag (Suc n) rest =
     run_bind (Some (ok_or (''tag '' @ show_i32 tag @ '': string array runs past the data'') (nul_position rest))) (\<lambda>e.
     run_bind (slice rest 0 e) (\<lambda>s.
     run_bind (slice rest (e + 1) (length rest)) (\<lambda>rest.
     run_bind (string_array tag n rest) (\<lambda>out. Some (Inr (from_utf8_lossy s # out))))))"

definition entry_strings :: "int \<Rightarrow> 32 word \<Rightarrow> nat \<Rightarrow> nat \<Rightarrow> byte list \<Rightarrow> (string, string list) run" where
  "entry_strings tag kind offset n data =
     (if kind \<noteq> type_string_array then Some (Inl (''tag '' @ show_i32 tag @ '': not a string array''))
      else run_bind (slice data offset (length data)) (string_array tag n))"

text \<open>\<^verbatim>\<open>as_chunks::<4>().0\<close>: the whole groups of four.\<close>

fun groups_of_4 :: "byte list \<Rightarrow> byte list list" where
  "groups_of_4 (a # b # c # d # rest) = [a, b, c, d] # groups_of_4 rest"
| "groups_of_4 _ = []"

definition entry_epoch :: "32 word \<Rightarrow> nat \<Rightarrow> nat \<Rightarrow> byte list \<Rightarrow> (string, 32 word) run" where
  "entry_epoch kind offset n data =
     (if kind \<noteq> type_int32 \<or> n = 0 then Some (Inl ''epoch is not an int32'')
      else Some (ok_or ''epoch outside the header data'' (map_option from_be (get_range data offset (offset + 4)))))"

definition entry_dirindexes :: "32 word \<Rightarrow> nat \<Rightarrow> nat \<Rightarrow> byte list \<Rightarrow> (string, nat list) run" where
  "entry_dirindexes kind offset n data =
     (if kind \<noteq> type_int32 then Some (Inl ''dirindexes are not int32'')
      else run_bind (Some (ok_or ''dirindexes outside the header data''
          (Option.bind (Option.bind (checked_mul n 4) (\<lambda>n. checked_add n offset)) (get_range data offset))))
        (\<lambda>b. Some (Inr (map (\<lambda>c. unat (from_be c :: 32 word)) (groups_of_4 b)))))"

definition header_field :: "int \<Rightarrow> 32 word \<Rightarrow> nat \<Rightarrow> nat \<Rightarrow> byte list \<Rightarrow> header_state \<Rightarrow> (string, header_state) run" where
  "header_field tag kind offset n data st =
     (let text = entry_string tag kind offset n data; texts = entry_strings tag kind offset n data; pkg = hs_pkg st in
      if tag = tag_name then run_bind text (\<lambda>s. Some (Inr (st\<lparr>hs_pkg := pkg\<lparr>rp_name := s\<rparr>, hs_named := True\<rparr>)))
      else if tag = tag_version then run_bind text (\<lambda>s. Some (Inr (st\<lparr>hs_pkg := pkg\<lparr>rp_version := s\<rparr>\<rparr>)))
      else if tag = tag_release then run_bind text (\<lambda>s. Some (Inr (st\<lparr>hs_pkg := pkg\<lparr>rp_release := s\<rparr>\<rparr>)))
      else if tag = tag_arch then run_bind text (\<lambda>s. Some (Inr (st\<lparr>hs_pkg := pkg\<lparr>rp_arch := Some s\<rparr>\<rparr>)))
      else if tag = tag_sourcerpm then run_bind text (\<lambda>s. Some (Inr (st\<lparr>hs_pkg := pkg\<lparr>rp_source_rpm := Some s\<rparr>\<rparr>)))
      else if tag = tag_modularitylabel then run_bind text (\<lambda>s. Some (Inr (st\<lparr>hs_pkg := pkg\<lparr>rp_modularity_label := Some s\<rparr>\<rparr>)))
      else if tag = tag_epoch then run_bind (entry_epoch kind offset n data) (\<lambda>e. Some (Inr (st\<lparr>hs_pkg := pkg\<lparr>rp_epoch := Some e\<rparr>\<rparr>)))
      else if tag = tag_oldfilenames then run_bind texts (\<lambda>fs. Some (Inr (st\<lparr>hs_pkg := pkg\<lparr>rp_files := fs\<rparr>\<rparr>)))
      else if tag = tag_basenames then run_bind texts (\<lambda>fs. Some (Inr (st\<lparr>hs_basenames := fs\<rparr>)))
      else if tag = tag_dirnames then run_bind texts (\<lambda>fs. Some (Inr (st\<lparr>hs_dirnames := fs\<rparr>)))
      else if tag = tag_dirindexes then run_bind (entry_dirindexes kind offset n data) (\<lambda>is. Some (Inr (st\<lparr>hs_dir_indexes := is\<rparr>)))
      else Some (Inr st))"

definition header_entry :: "byte list \<Rightarrow> byte list \<Rightarrow> nat \<Rightarrow> header_state \<Rightarrow> (string, header_state) run" where
  "header_entry blob data i st =
     (let e = 8 + i * 16 in
      run_bind (be blob e) (\<lambda>tag. let tag = sint tag in
      run_bind (be blob (e + 4)) (\<lambda>kind.
      run_bind (be blob (e + 8)) (\<lambda>offset. let offset = sint offset in
      run_bind (be blob (e + 12)) (\<lambda>n.
      if offset < 0 then Some (Inl (''tag '' @ show_i32 tag @ '': negative offset''))
      else if length data < nat offset then Some (Inl (''tag '' @ show_i32 tag @ '': offset outside the header data''))
      else header_field tag kind (nat offset) (unat n) data st)))))"

definition file_path :: "string list \<Rightarrow> string \<times> nat \<Rightarrow> (string, string) run" where
  "file_path dirnames p =
     (case p of (base, i) \<Rightarrow>
        if i < length dirnames then Some (Inr (dirnames ! i @ base)) else Some (Inl ''a file's directory index is out of range''))"

definition header_files :: "header_state \<Rightarrow> (string, rpm_package) run" where
  "header_files st =
     (if hs_basenames st = [] then Some (Inr (hs_pkg st))
      else if length (hs_dir_indexes st) \<noteq> length (hs_basenames st)
      then Some (Inl ''file names and directory indexes differ in number'')
      else run_bind (run_map (file_path (hs_dirnames st)) (zip (hs_basenames st) (hs_dir_indexes st)))
        (\<lambda>files. Some (Inr ((hs_pkg st)\<lparr>rp_files := files\<rparr>))))"

definition header_parse :: "byte list \<Rightarrow> (string, rpm_package option) run" where
  "header_parse blob =
     run_bind (be blob 0) (\<lambda>il. let il = unat il in
     run_bind (be blob 4) (\<lambda>dl. let dl = unat dl in
     if il = 0 \<or> max_entries < il then Some (Inl (''header claims '' @ show_nat il @ '' entries''))
     else run_bind (Some (ok_or ''header data runs past the blob'' (get_range blob (8 + il * 16) (8 + il * 16 + dl)))) (\<lambda>data.
     run_bind (run_fold (header_entry blob data) [0..<il]
         \<lparr>hs_pkg = empty_package, hs_named = False, hs_dir_indexes = [], hs_basenames = [], hs_dirnames = []\<rparr>) (\<lambda>st.
     run_bind (header_files st) (\<lambda>pkg. Some (Inr (if hs_named st then Some pkg else None)))))))"

end
