(* ===== verification/Rpm_Ndb.thy ===== *)
theory Rpm_Ndb
  imports Rust_Bytes
begin

unbundle bit_operations_syntax

text \<open>
  NDB package databases, \<^verbatim>\<open>crates/os/src/rpmdb/ndb.rs\<close>: slot pages that point at checksummed blobs.
  Every slice, subtraction and checked operation is where the code has it, so a panic would be a
  \<open>None\<close> here.  Sums of two 32-bit values and small constants stay below \<^verbatim>\<open>usize::MAX\<close> and are
  written as plain sums.
\<close>

section \<open>Definitions\<close>

definition db_magic :: "byte list" where "db_magic = bytes_of ''RpmP''"
definition slot_magic :: "byte list" where "slot_magic = bytes_of ''Slot''"
definition head_magic :: "byte list" where "head_magic = bytes_of ''BlbS''"
definition tail_magic :: "byte list" where "tail_magic = bytes_of ''BlbE''"

abbreviation (input) page_size :: nat where "page_size \<equiv> 4096"
abbreviation (input) header_size :: nat where "header_size \<equiv> 32"
abbreviation (input) slot_size :: nat where "slot_size \<equiv> 16"
abbreviation (input) blk_size :: nat where "blk_size \<equiv> 16"
abbreviation (input) head_size :: nat where "head_size \<equiv> 16"
abbreviation (input) tail_size :: nat where "tail_size \<equiv> 12"

definition le :: "byte list \<Rightarrow> nat \<Rightarrow> (string, 32 word) run" where
  "le b i = Some (ok_or ''read past the end of the file'' (map_option from_le (get_range b i (i + 4))))"

text \<open>The sums of the checksum panic on overflow.\<close>

definition adler_mod :: "32 word" where
  "adler_mod = 65521"

definition adler_byte :: "byte \<Rightarrow> 32 word \<times> 32 word \<Rightarrow> (string, 32 word \<times> 32 word) run" where
  "adler_byte x st =
     (case st of (a, b) \<Rightarrow>
        run_bind (u32_add a (ucast x)) (\<lambda>a. run_bind (u32_add b a) (\<lambda>b. Some (Inr (a, b)))))"

definition adler_chunk :: "byte list \<Rightarrow> 32 word \<times> 32 word \<Rightarrow> (string, 32 word \<times> 32 word) run" where
  "adler_chunk chunk st =
     run_bind (run_fold adler_byte chunk st) (\<lambda>(a, b). Some (Inr (a mod adler_mod, b mod adler_mod)))"

function chunks :: "nat \<Rightarrow> 'a list \<Rightarrow> 'a list list" where
  "chunks n xs = (if n = 0 \<or> xs = [] then [] else take n xs # chunks n (drop n xs))"
  by pat_completeness auto
termination chunks
  by (relation "measure (\<lambda>(n, xs). length xs)") auto

declare chunks.simps [simp del]

definition adler32 :: "byte list \<Rightarrow> (string, 32 word) run" where
  "adler32 data =
     run_bind (run_fold adler_chunk (chunks 5552 data) (1, 0)) (\<lambda>(a, b). Some (Inr (push_bit 16 b OR a)))"

definition ndb_blob :: "byte list \<Rightarrow> 32 word \<Rightarrow> nat \<Rightarrow> nat \<Rightarrow> (string, byte list) run" where
  "ndb_blob b pkg off blks =
     run_bind (Some (ok_or ''block offset overflows'' (checked_mul off blk_size))) (\<lambda>start.
     run_bind (Some (ok_or ''block count overflows'' (checked_mul blks blk_size))) (\<lambda>len.
     run_bind (Some (ok_or ''blob runs past the end of the file''
         (Option.bind (Option.bind (checked_add start len) (get_range b start))
            (\<lambda>r. if head_size + tail_size \<le> length r then Some r else None)))) (\<lambda>region.
     run_bind (slice region 0 4) (\<lambda>magic.
     if magic \<noteq> head_magic then Some (Inl ''blob has no head magic'')
     else run_bind (le region 4) (\<lambda>owner.
     if owner \<noteq> pkg then Some (Inl ''blob belongs to another package'')
     else run_bind (map_option (map_sum id unat) (le region 12)) (\<lambda>data_len.
     if length region < head_size + data_len + tail_size then Some (Inl ''blob is longer than its blocks'')
     else run_bind (usize_sub (length region) tail_size) (\<lambda>tail.
     run_bind (slice region (tail + 8) (length region)) (\<lambda>end_magic.
     run_bind (if end_magic \<noteq> tail_magic then Some (Inr True)
               else run_bind (le region (tail + 4)) (\<lambda>n. Some (Inr (unat n \<noteq> data_len)))) (\<lambda>differs.
     if differs then Some (Inl ''blob tail does not match its head'')
     else run_bind (slice region 0 tail) (\<lambda>covered.
     run_bind (adler32 covered) (\<lambda>checksum.
     run_bind (le region tail) (\<lambda>expected.
     if checksum \<noteq> expected then Some (Inl ''blob checksum does not match'')
     else slice region head_size (head_size + data_len)))))))))))))"

definition ndb_slot :: "byte list \<Rightarrow> nat \<Rightarrow> byte list list \<times> 32 word set \<Rightarrow> (string, byte list list \<times> 32 word set) run" where
  "ndb_slot b i st =
     (case st of (out, seen) \<Rightarrow>
     run_bind (slice b i (i + 4)) (\<lambda>magic.
     if magic \<noteq> slot_magic then Some (Inl (''slot at byte '' @ show_nat i @ '' has no slot magic''))
     else run_bind (le b (i + 4)) (\<lambda>pkg.
     if pkg = 0 then Some (Inr st)
     else if pkg \<in> seen then Some (Inl (''package '' @ show_nat (unat pkg) @ '' has two slots''))
     else run_bind (le b (i + 8)) (\<lambda>off. run_bind (le b (i + 12)) (\<lambda>blks.
     run_bind (run_map_err (\<lambda>e. ''package '' @ show_nat (unat pkg) @ '': '' @ e) (ndb_blob b pkg (unat off) (unat blks)))
       (\<lambda>d. Some (Inr (out @ [d], insert pkg seen))))))))"

text \<open>\<^verbatim>\<open>(HEADER_SIZE..slots_end).step_by(SLOT_SIZE)\<close>.\<close>

definition slot_starts :: "nat \<Rightarrow> nat list" where
  "slot_starts slots_end = map (\<lambda>k. header_size + slot_size * k) [0..<(slots_end - header_size + slot_size - 1) div slot_size]"

definition ndb_blobs :: "byte list \<Rightarrow> (string, byte list list) run" where
  "ndb_blobs b =
     (if get_range b 0 4 \<noteq> Some db_magic then Some (Inl ''not an rpm NDB package database'')
      else run_bind (le b 4) (\<lambda>version.
      if version \<noteq> 0 then Some (Inl (''NDB version '' @ show_nat (unat version) @ '' is not supported''))
      else run_bind (le b 12) (\<lambda>slot_pages.
      run_bind (Some (ok_or ''the slot pages run past the end of the file''
          (Option.bind (checked_mul (unat slot_pages) page_size)
             (\<lambda>e. if page_size \<le> e \<and> e \<le> length b then Some e else None)))) (\<lambda>slots_end.
      run_bind (run_fold (ndb_slot b) (slot_starts slots_end) ([], {})) (\<lambda>(out, seen). Some (Inr out))))))"

section \<open>The checksum\<close>

text \<open>The two sums over all bytes, without a bound.\<close>

fun adler_sums :: "byte list \<Rightarrow> nat \<times> nat \<Rightarrow> nat \<times> nat" where
  "adler_sums [] st = st"
| "adler_sums (x # xs) (a, b) = adler_sums xs (a + unat x, b + (a + unat x))"

definition adler :: "byte list \<Rightarrow> nat" where
  "adler data = (case adler_sums data (1, 0) of (a, b) \<Rightarrow> (b mod 65521) * 65536 + a mod 65521)"

lemma adler_sums_append: "adler_sums (xs @ ys) st = adler_sums ys (adler_sums xs st)"
  by (induction xs st rule: adler_sums.induct) simp_all

lemma adler_sums_shift:
  "adler_sums xs (a + c, b + d) = (fst (adler_sums xs (a, b)) + c, snd (adler_sums xs (a, b)) + length xs * c + d)"
proof (induction xs arbitrary: a b d)
  case (Cons x xs)
  have "adler_sums (x # xs) (a + c, b + d) = adler_sums xs (a + unat x + c, b + (a + unat x) + (c + d))"
    by (simp add: ac_simps)
  then show ?case unfolding Cons.IH by (simp add: algebra_simps)
qed simp

lemma adler_sums_bound:
  assumes "a \<le> A" "b \<le> B"
  shows "fst (adler_sums xs (a, b)) \<le> A + 255 * length xs \<and>
    2 * snd (adler_sums xs (a, b)) \<le> 2 * B + 2 * (length xs * A) + 255 * (length xs * (length xs + 1))"
  using assms
proof (induction xs arbitrary: a b A B)
  case (Cons x xs)
  have "unat x \<le> 255" using unsigned_less [of x, where ?'a = nat] by simp
  then have "a + unat x \<le> A + 255" "b + (a + unat x) \<le> B + (A + 255)" using Cons.prems by simp_all
  from Cons.IH [OF this] show ?case by (simp add: algebra_simps)
qed simp

lemma u32_add_of_nat: "m + n < 2 ^ 32 \<Longrightarrow> u32_add (of_nat m) (of_nat n) = Some (Inr (of_nat (m + n)))"
  by (simp add: u32_add_def unat_of_nat)

lemma adler_byte_run:
  assumes "a + unat x < 2 ^ 32" "b + (a + unat x) < 2 ^ 32"
  shows "adler_byte x (of_nat a, of_nat b) = Some (Inr (of_nat (a + unat x), of_nat (b + (a + unat x))))"
proof -
  have "ucast x = (of_nat (unat x) :: 32 word)" by simp
  then show ?thesis
    unfolding adler_byte_def prod.case by (simp only: u32_add_of_nat [OF assms(1)] u32_add_of_nat [OF assms(2)] run_bind_simps)
qed

lemma adler_bytes_run:
  assumes "fst (adler_sums xs (a, b)) < 2 ^ 32" "snd (adler_sums xs (a, b)) < 2 ^ 32"
  shows "run_fold adler_byte xs (of_nat a, of_nat b) =
    Some (Inr (of_nat (fst (adler_sums xs (a, b))), of_nat (snd (adler_sums xs (a, b)))))"
  using assms
proof (induction xs arbitrary: a b)
  case (Cons x xs)
  have "a + unat x \<le> fst (adler_sums xs (a + unat x, b + (a + unat x)))"
    "b + (a + unat x) \<le> snd (adler_sums xs (a + unat x, b + (a + unat x)))"
    using adler_sums_shift [of xs 0 "a + unat x" 0 "b + (a + unat x)"] by simp_all
  then have "a + unat x < 2 ^ 32" "b + (a + unat x) < 2 ^ 32" using Cons.prems by simp_all
  then show ?case using Cons.IH [of "a + unat x" "b + (a + unat x)"] Cons.prems by (simp add: adler_byte_run)
qed simp

text \<open>5552 bytes are the most that fit: a chunk starts below the modulus and ends below \<open>2 ^ 32\<close>.\<close>

lemma adler_chunk_run:
  assumes "a < 65521" "b < 65521" "length xs \<le> 5552"
  shows "adler_chunk xs (of_nat a, of_nat b) =
    Some (Inr (of_nat (fst (adler_sums xs (a, b)) mod 65521), of_nat (snd (adler_sums xs (a, b)) mod 65521)))"
proof -
  let ?A = "fst (adler_sums xs (a, b))" and ?B = "snd (adler_sums xs (a, b))"
  have sums: "?A \<le> 65520 + 255 * length xs" "2 * ?B \<le> 2 * 65520 + 2 * (length xs * 65520) + 255 * (length xs * (length xs + 1))"
    using adler_sums_bound [of a 65520 b 65520 xs] assms by simp_all
  have "length xs * (length xs + 1) \<le> 5552 * 5553" using mult_le_mono [of "length xs" 5552 "length xs + 1" 5553] assms(3) by simp
  then have fit: "?A < 2 ^ 32" "?B < 2 ^ 32" using sums assms(3) by simp_all
  have mod: "of_nat n mod adler_mod = of_nat (n mod 65521)" if "n < 2 ^ 32" for n
    by (rule word_unat_eq_iff [THEN iffD2]) (use that in \<open>simp add: adler_mod_def unat_mod_distrib unat_of_nat\<close>)
  show ?thesis
    unfolding adler_chunk_def adler_bytes_run [OF fit] run_bind_simps prod.case mod [OF fit(1)] mod [OF fit(2)] ..
qed

lemma adler_sums_mod:
  "fst (adler_sums xs (a mod m, b mod m)) mod m = fst (adler_sums xs (a, b)) mod m"
  "snd (adler_sums xs (a mod m, b mod m)) mod m = snd (adler_sums xs (a, b)) mod m"
  using adler_sums_shift [of xs 0 "a mod m" 0 "b mod m"] adler_sums_shift [of xs 0 a 0 b]
  by (simp_all add: mod_simps) (rule mod_add_cong [OF mod_add_cong [OF refl mod_mult_right_eq] refl])

lemma adler_chunks_run:
  assumes "a < 65521" "b < 65521"
  shows "run_fold adler_chunk (chunks 5552 xs) (of_nat a, of_nat b) =
    Some (Inr (of_nat (fst (adler_sums xs (a, b)) mod 65521), of_nat (snd (adler_sums xs (a, b)) mod 65521)))"
  using assms
proof (induction "length xs" arbitrary: xs a b rule: less_induct)
  case less
  show ?case
  proof (cases "xs = []")
    case True
    then show ?thesis using less.prems by (simp add: chunks.simps)
  next
    case False
    let ?ys = "take 5552 xs" and ?zs = "drop 5552 xs"
    let ?A = "fst (adler_sums ?ys (a, b))" and ?B = "snd (adler_sums ?ys (a, b))"
    have whole: "adler_sums xs (a, b) = adler_sums ?zs (?A, ?B)"
      using adler_sums_append [of ?ys ?zs "(a, b)"] by simp
    have "length ?zs < length xs" using False by simp
    from less.hyps [OF this, of "?A mod 65521" "?B mod 65521"] show ?thesis
      using False unfolding whole
      by (simp add: chunks.simps [of 5552 xs] adler_chunk_run [OF less.prems] adler_sums_mod)
  qed
qed

lemma adler32_run: "adler32 data = Some (Inr (of_nat (adler data)))"
proof -
  let ?A = "fst (adler_sums data (1, 0)) mod 65521" and ?B = "snd (adler_sums data (1, 0)) mod 65521"
  have run: "run_fold adler_chunk (chunks 5552 data) (1, 0) = Some (Inr (of_nat ?A, of_nat ?B))"
    using adler_chunks_run [of 1 0 data] by simp
  have "push_bit 16 (of_nat ?B :: 32 word) OR of_nat ?A = of_nat (?B * 65536 + ?A)"
  proof -
    have "push_bit 16 (of_nat ?B :: 32 word) = of_nat (?B * 65536)" by (simp add: push_bit_eq_mult)
    moreover have "push_bit 16 (of_nat ?B :: 32 word) AND of_nat ?A = 0"
    proof (rule bit_eqI)
      fix n assume "possible_bit TYPE(32 word) n"
      have "\<not> bit ?A n" if "16 \<le> n"
      proof -
        have "?A < 2 ^ 16" by (rule order_less_trans [of _ 65521]) simp_all
        also have "(2::nat) ^ 16 \<le> 2 ^ n" using that by (intro power_increasing) simp_all
        finally show ?thesis by (simp add: bit_iff_odd)
      qed
      then show "bit (push_bit 16 (of_nat ?B :: 32 word) AND of_nat ?A) n = bit (0 :: 32 word) n"
        by (auto simp: bit_simps)
    qed
    ultimately show ?thesis by (simp only: disjunctive_add_eq_or [symmetric] of_nat_add)
  qed
  then show ?thesis unfolding adler32_def run by (simp add: adler_def case_prod_beta)
qed

text \<open>The checksum is Adler-32 for data of any length, and no sum on the way leaves 32 bits: reducing every
  5552 bytes is often enough, so neither addition can panic or wrap.\<close>

theorem adler32_exact:
  "case adler_sums data (1, 0) of (a, b) \<Rightarrow>
     \<exists>c. adler32 data = Some (Inr c) \<and> unat c mod 65536 = a mod 65521 \<and> unat c div 65536 = b mod 65521"
proof -
  define A B where "A = fst (adler_sums data (1, 0)) mod 65521" and "B = snd (adler_sums data (1, 0)) mod 65521"
  have fit: "A < 65521" "B < 65521" by (simp_all add: A_def B_def)
  have "adler32 data = Some (Inr (of_nat (B * 65536 + A)))"
    using adler32_run [of data] by (simp add: adler_def case_prod_beta A_def B_def)
  moreover have "unat (of_nat (B * 65536 + A) :: 32 word) = B * 65536 + A"
    using fit by (subst unat_of_nat) simp
  ultimately show ?thesis using fit by (simp add: case_prod_beta A_def B_def)
qed

section \<open>One blob\<close>

lemma magic_length [simp]: "length db_magic = 4" "length slot_magic = 4" "length head_magic = 4" "length tail_magic = 4"
  by (simp_all add: db_magic_def slot_magic_def head_magic_def tail_magic_def)

text \<open>What the blocks of a package hold: the head, the data, padding, and a tail with the checksum.\<close>

definition blob_body :: "32 word \<Rightarrow> byte list \<Rightarrow> byte list \<Rightarrow> byte list \<Rightarrow> byte list" where
  "blob_body pkg gen pad d = head_magic @ to_le 4 (unat pkg) @ gen @ to_le 4 (length d) @ d @ pad"

definition blob_layout :: "32 word \<Rightarrow> byte list \<Rightarrow> byte list \<Rightarrow> byte list \<Rightarrow> byte list" where
  "blob_layout pkg gen pad d =
     (let body = blob_body pkg gen pad d in body @ to_le 4 (adler body) @ to_le 4 (length d) @ tail_magic)"

definition holds_blob :: "byte list \<Rightarrow> 32 word \<Rightarrow> nat \<Rightarrow> nat \<Rightarrow> byte list \<Rightarrow> bool" where
  "holds_blob b pkg off blks d \<longleftrightarrow> 16 * (off + blks) \<le> length b \<and> length d < 2 ^ 32 \<and>
     (\<exists>gen pad. length gen = 4 \<and> take (16 * blks) (drop (16 * off) b) = blob_layout pkg gen pad d)"

lemma le_run: "i + 4 \<le> length b \<Longrightarrow> le b i = Some (Inr (from_le (take 4 (drop i b))))"
  by (simp add: le_def get_range_def)

lemma slice_run: "from \<le> to \<Longrightarrow> to \<le> length b \<Longrightarrow> slice b from to = Some (Inr (take (to - from) (drop from b)))"
  by (simp add: slice_def run_ok_def get_range_def)

lemma ndb_blob_short:
  assumes "off < 2 ^ 32" "blks < 2 ^ 32" "\<not> (16 * (off + blks) \<le> length b \<and> 28 \<le> 16 * blks)"
  shows "ndb_blob b pkg off blks = Some (Inl ''blob runs past the end of the file'')"
  using assms by (auto simp: ndb_blob_def checked_mul_def checked_add_def get_range_def)

lemma ndb_blob_run:
  assumes "off < 2 ^ 32" "blks < 2 ^ 32" "16 * (off + blks) \<le> length b" "28 \<le> 16 * blks"
    and r: "r = take (16 * blks) (drop (16 * off) b)" and n: "n = le_val (take 4 (drop 12 r))"
  shows "ndb_blob b pkg off blks = Some (
      if take 4 r \<noteq> head_magic then Inl ''blob has no head magic''
      else if from_le (take 4 (drop 4 r)) \<noteq> pkg then Inl ''blob belongs to another package''
      else if length r < 28 + n then Inl ''blob is longer than its blocks''
      else if drop (length r - 4) r \<noteq> tail_magic \<or> le_val (take 4 (drop (length r - 8) r)) \<noteq> n
      then Inl ''blob tail does not match its head''
      else if of_nat (adler (take (length r - 12) r)) \<noteq> (from_le (take 4 (drop (length r - 12) r)) :: 32 word)
      then Inl ''blob checksum does not match''
      else Inr (take n (drop 16 r)))"
proof -
  have len: "length r = 16 * blks" "28 \<le> length r" using assms by simp_all
  have region: "get_range b (16 * off) (16 * off + 16 * blks) = Some r"
    using assms(3) by (simp add: get_range_def r)
  have val: "unat (from_le bs :: 32 word) = le_val bs" if "length bs = 4" for bs
    using le_val_bound [of bs] that by (simp add: from_le_def unat_of_nat)
  have start: "checked_mul off 16 = Some (16 * off)" "checked_mul blks 16 = Some (16 * blks)"
    "checked_add (16 * off) (16 * blks) = Some (16 * off + 16 * blks)"
    using assms(1,2) by (simp_all add: checked_mul_def checked_add_def)
  have tail: "usize_sub (length r) 12 = Some (Inr (length r - 12))" using len by (simp add: usize_sub_def)
  have at: "length r - 12 + 8 = length r - 4" "length r - 12 + 4 = length r - 8" "length r - (length r - 4) = 4" using len by simp_all
  show ?thesis
    unfolding ndb_blob_def start ok_or_simps run_bind_simps Option.bind.bind_lunit region
    using len(2) by (simp add: le_run slice_run tail at val n adler32_run)
qed

lemma from_le_eq:
  assumes "length bs = 4"
  shows "from_le bs = (w :: 32 word) \<longleftrightarrow> bs = to_le 4 (unat w)"
proof
  assume "from_le bs = w"
  then have "unat w = le_val bs" using le_val_bound [of bs] assms by (auto simp: from_le_def unat_of_nat)
  then show "bs = to_le 4 (unat w)" using to_le_le_val [OF assms] by simp
next
  assume "bs = to_le 4 (unat w)"
  then have "unat (from_le bs :: 32 word) = unat w" using unat32_bound [of w] by (simp add: unat_from_le_4)
  then show "from_le bs = w" by (rule word_unat_eq_iff [THEN iffD2])
qed

lemma from_le_to_le: "n < 2 ^ 32 \<Longrightarrow> from_le (to_le 4 n) = (of_nat n :: 32 word)"
  by (simp add: from_le_def le_val_to_le)

lemma adler_less: "adler data < 2 ^ 32"
proof -
  define A B where "A = fst (adler_sums data (1, 0)) mod 65521" and "B = snd (adler_sums data (1, 0)) mod 65521"
  have "A < 65521" "B < 65521" by (simp_all add: A_def B_def)
  then have "B * 65536 + A < 2 ^ 32" by simp
  then show ?thesis by (simp add: adler_def case_prod_beta A_def B_def)
qed

text \<open>The checks of the code hold of exactly the blobs laid out like that.\<close>

lemma blob_layout_iff:
  assumes r: "28 \<le> length r" and n: "n = le_val (take 4 (drop 12 r))"
  shows "(take 4 r = head_magic \<and> from_le (take 4 (drop 4 r)) = pkg \<and> 28 + n \<le> length r \<and>
      drop (length r - 4) r = tail_magic \<and> le_val (take 4 (drop (length r - 8) r)) = n \<and>
      of_nat (adler (take (length r - 12) r)) = (from_le (take 4 (drop (length r - 12) r)) :: 32 word) \<and> d = take n (drop 16 r)) \<longleftrightarrow>
    (\<exists>gen pad. length gen = 4 \<and> length d < 2 ^ 32 \<and> r = blob_layout pkg gen pad d)" (is "?checks \<longleftrightarrow> ?layout")
proof
  assume ?checks
  then have c: "take 4 r = head_magic" "from_le (take 4 (drop 4 r)) = pkg" "28 + n \<le> length r"
    "drop (length r - 4) r = tail_magic" "le_val (take 4 (drop (length r - 8) r)) = n"
    "of_nat (adler (take (length r - 12) r)) = (from_le (take 4 (drop (length r - 12) r)) :: 32 word)" "d = take n (drop 16 r)"
    by blast+
  have small: "n < 2 ^ 32" using le_val_bound [of "take 4 (drop 12 r)"] r by (simp add: n)
  have len: "length d = n" using c(3,7) by simp
  let ?pad = "take (length r - 28 - n) (drop (16 + n) r)"
  have owner: "take 4 (drop 4 r) = to_le 4 (unat pkg)" using c(2) r by (simp add: from_le_eq)
  have size: "take 4 (drop 12 r) = to_le 4 (length d)" using to_le_le_val [of "take 4 (drop 12 r)" 4] r by (simp add: len n)
  have size2: "take 4 (drop (length r - 8) r) = to_le 4 (length d)"
    using to_le_le_val [of "take 4 (drop (length r - 8) r)" 4] r c(5) by (simp add: len)
  have sum: "take 4 (drop (length r - 12) r) = to_le 4 (adler (take (length r - 12) r))"
    using c(6) [symmetric] r adler_less [of "take (length r - 12) r"] by (simp add: from_le_eq unat_of_nat)
  have body: "take (length r - 12) r = blob_body pkg (take 4 (drop 8 r)) ?pad d"
  proof -
    have "r = take 4 r @ take 4 (drop 4 r) @ take 4 (drop 8 r) @ take 4 (drop 12 r) @ take n (drop 16 r) @ drop (16 + n) r"
      using drop_split [of 0 r 4] drop_split [of 4 r 4] drop_split [of 8 r 4] drop_split [of 12 r 4] drop_split [of 16 r n] by simp
    then have "take (length r - 12) r =
        take (length r - 12) (take 4 r @ take 4 (drop 4 r) @ take 4 (drop 8 r) @ take 4 (drop 12 r) @ take n (drop 16 r) @ drop (16 + n) r)"
      by (rule arg_cong)
    then show ?thesis using r c(3) unfolding blob_body_def c(1) owner size c(7) [symmetric] len by (simp add: len)
  qed
  have "r = take (length r - 12) r @ take 4 (drop (length r - 12) r) @ take 4 (drop (length r - 8) r) @ drop (length r - 4) r"
    using drop_split [of "length r - 12" r 4] drop_split [of "length r - 8" r 4] r by simp
  then have "r = blob_layout pkg (take 4 (drop 8 r)) ?pad d"
    unfolding blob_layout_def Let_def sum size2 c(4) unfolding body .
  moreover have "length (take 4 (drop 8 r)) = 4" using r by simp
  ultimately show ?layout using small len by blast
next
  assume ?layout
  then obtain gen pad where l: "length gen = 4" "length d < 2 ^ 32" "r = blob_layout pkg gen pad d" by blast
  then have [simp]: "length r = 28 + length d + length pad" by (simp add: blob_layout_def blob_body_def Let_def)
  have n: "n = length d" using l(1,2) by (simp add: n l(3) blob_layout_def blob_body_def Let_def le_val_to_le)
  have body: "take (length r - 12) r = blob_body pkg gen pad d" using l(1) by (simp add: l(3) blob_layout_def blob_body_def Let_def)
  have owner: "from_le (to_le 4 (unat pkg)) = pkg" by (simp add: from_le_eq)
  show ?checks unfolding body n using l(1,2) from_le_to_le [OF adler_less [of "blob_body pkg gen pad d"]]
    by (simp add: l(3) blob_layout_def blob_body_def Let_def le_val_to_le owner)
qed

lemma ndb_blob_exact:
  assumes off: "off < 2 ^ 32" and blks: "blks < 2 ^ 32"
  shows "ndb_blob b pkg off blks \<noteq> None \<and> (\<forall>d. ndb_blob b pkg off blks = Some (Inr d) \<longleftrightarrow> holds_blob b pkg off blks d)"
proof (cases "16 * (off + blks) \<le> length b \<and> 28 \<le> 16 * blks")
  case True
  let ?r = "take (16 * blks) (drop (16 * off) b)"
  have "16 * off + 16 * blks \<le> length b" using True by (simp add: distrib_left)
  then have "28 \<le> length b - 16 * off" using True by linarith
  then have r: "28 \<le> length ?r" using True by simp
  note run = ndb_blob_run [OF off blks conjunct1 [OF True] conjunct2 [OF True] refl refl, of pkg]
  have "ndb_blob b pkg off blks = Some (Inr d) \<longleftrightarrow> holds_blob b pkg off blks d" for d
  proof -
    have "holds_blob b pkg off blks d \<longleftrightarrow> (\<exists>gen pad. length gen = 4 \<and> length d < 2 ^ 32 \<and> ?r = blob_layout pkg gen pad d)"
      using conjunct1 [OF True] unfolding holds_blob_def by blast
    then show ?thesis
      unfolding blob_layout_iff [OF r refl, of pkg d, symmetric] unfolding run
      by (simp only: option.inject if_Inl_Inr sum.inject not_not de_Morgan_disj not_less conj_assoc eq_commute [of d])
  qed
  then show ?thesis unfolding run by (simp del: option.inject sum.inject)
next
  case False
  have "\<not> holds_blob b pkg off blks d" for d
  proof
    assume d: "holds_blob b pkg off blks d"
    then obtain gen pad where l: "length gen = 4" "take (16 * blks) (drop (16 * off) b) = blob_layout pkg gen pad d"
      and fits: "16 * (off + blks) \<le> length b"
      unfolding holds_blob_def by blast
    have "length (take (16 * blks) (drop (16 * off) b)) \<le> 16 * blks" by simp
    then have "28 + length d + length pad \<le> 16 * blks"
      unfolding l(2) using l(1) by (simp add: blob_layout_def blob_body_def Let_def)
    then show False using False fits by simp
  qed
  then show ?thesis using ndb_blob_short [OF off blks False, of pkg] by simp
qed

section \<open>The file\<close>

text \<open>The package, block offset and block count a slot names; package 0 is a free slot.\<close>

definition slot_of :: "byte list \<Rightarrow> nat \<Rightarrow> 32 word \<times> nat \<times> nat" where
  "slot_of b i = (from_le (take 4 (drop (i + 4) b)), le_val (take 4 (drop (i + 8) b)), le_val (take 4 (drop (i + 12) b)))"

definition used_slots :: "byte list \<Rightarrow> nat list \<Rightarrow> (32 word \<times> nat \<times> nat) list" where
  "used_slots b is = filter (\<lambda>s. fst s \<noteq> 0) (map (slot_of b) is)"

text \<open>What it means that a file holds some headers.\<close>

definition slots_hold :: "byte list \<Rightarrow> nat list \<Rightarrow> 32 word set \<Rightarrow> byte list list \<Rightarrow> bool" where
  "slots_hold b is seen ds \<longleftrightarrow>
     (\<forall>i \<in> set is. take 4 (drop i b) = slot_magic) \<and> distinct (map fst (used_slots b is)) \<and>
     set (map fst (used_slots b is)) \<inter> seen = {} \<and>
     list_all2 (\<lambda>(pkg, off, n) d. holds_blob b pkg off n d) (used_slots b is) ds"

definition ndb_stores :: "byte list \<Rightarrow> byte list list \<Rightarrow> bool" where
  "ndb_stores b ds \<longleftrightarrow>
     (let pages = le_val (take 4 (drop 12 b)) in
      take 4 b = db_magic \<and> take 4 (drop 4 b) = to_le 4 0 \<and> 1 \<le> pages \<and> 4096 * pages \<le> length b \<and>
      slots_hold b (slot_starts (4096 * pages)) {} ds)"

lemma slot_starts_bound: "i \<in> set (slot_starts (4096 * pages)) \<Longrightarrow> i + 16 \<le> 4096 * pages"
proof -
  assume "i \<in> set (slot_starts (4096 * pages))"
  then obtain k where k: "i = 32 + 16 * k" "k < (4096 * pages - 32 + 15) div 16" unfolding slot_starts_def by auto
  have "(4096 * pages - 32 + 15) div 16 = 256 * pages - 2 \<or> pages = 0"
  proof (cases pages)
    case (Suc p)
    have "4096 * pages - 32 + 15 = 15 + (256 * pages - 2) * 16" using Suc by simp
    then show ?thesis by (simp only: div_mult_self3) simp
  qed simp
  then have "k + 2 < 256 * pages \<or> k < 0" using k(2) by auto
  then show ?thesis using k(1) by linarith
qed

lemma used_slots_simps:
  "used_slots b [] = []"
  "used_slots b (i # is) = (if fst (slot_of b i) = 0 then used_slots b is else slot_of b i # used_slots b is)"
  by (simp_all add: used_slots_def)

lemma ndb_slot_run:
  assumes "i + 16 \<le> length b"
  shows "ndb_slot b i (out, seen) =
    (if take 4 (drop i b) \<noteq> slot_magic then Some (Inl (''slot at byte '' @ show_nat i @ '' has no slot magic''))
     else case slot_of b i of (pkg, off, n) \<Rightarrow>
       if pkg = 0 then Some (Inr (out, seen))
       else if pkg \<in> seen then Some (Inl (''package '' @ show_nat (unat pkg) @ '' has two slots''))
       else run_bind (run_map_err (\<lambda>e. ''package '' @ show_nat (unat pkg) @ '': '' @ e) (ndb_blob b pkg off n))
         (\<lambda>d. Some (Inr (out @ [d], insert pkg seen))))"
proof -
  have val: "unat (from_le bs :: 32 word) = le_val bs" if "length bs = 4" for bs
    using le_val_bound [of bs] that by (simp add: from_le_def unat_of_nat)
  show ?thesis using assms by (simp add: ndb_slot_def slice_run le_run slot_of_def val)
qed

lemma ndb_slots_exact:
  assumes "\<And>i. i \<in> set is \<Longrightarrow> i + 16 \<le> length b"
  shows "run_fold (ndb_slot b) is (out, seen) \<noteq> None \<and>
    (\<forall>out' seen'. run_fold (ndb_slot b) is (out, seen) = Some (Inr (out', seen')) \<longrightarrow>
       (\<exists>ds. out' = out @ ds \<and> slots_hold b is seen ds)) \<and>
    (\<forall>ds. slots_hold b is seen ds \<longrightarrow> (\<exists>seen'. run_fold (ndb_slot b) is (out, seen) = Some (Inr (out @ ds, seen'))))"
  using assms
proof (induction "is" arbitrary: out seen)
  case Nil
  show ?case by (auto simp: slots_hold_def used_slots_simps)
next
  case (Cons i "is")
  have i: "i + 16 \<le> length b" and rest: "\<And>j. j \<in> set is \<Longrightarrow> j + 16 \<le> length b" using Cons.prems by simp_all
  note step = ndb_slot_run [OF i, of out seen]
  obtain pkg off n where slot: "slot_of b i = (pkg, off, n)" by (cases "slot_of b i")
  consider "take 4 (drop i b) \<noteq> slot_magic" | "take 4 (drop i b) = slot_magic" "pkg = 0"
    | "take 4 (drop i b) = slot_magic" "pkg \<noteq> 0" "pkg \<in> seen" | "take 4 (drop i b) = slot_magic" "pkg \<noteq> 0" "pkg \<notin> seen"
    by blast
  then show ?case
  proof cases
    case 1
    then show ?thesis using step by (auto simp: slots_hold_def)
  next
    case 2
    then have "slots_hold b (i # is) seen ds \<longleftrightarrow> slots_hold b is seen ds" for ds
      using slot by (simp add: slots_hold_def used_slots_simps)
    then show ?thesis using step slot 2 Cons.IH [OF rest, of out seen] by simp
  next
    case 3
    then show ?thesis using step slot by (auto simp: slots_hold_def used_slots_simps)
  next
    case 4
    have fits: "off < 2 ^ 32" "n < 2 ^ 32"
      using slot le_val_bound [of "take 4 (drop (i + 8) b)"] le_val_bound [of "take 4 (drop (i + 12) b)"] i by (auto simp: slot_of_def)
    note exact = ndb_blob_exact [OF fits, of b pkg]
    have hold: "slots_hold b (i # is) seen ds \<longleftrightarrow>
        (\<exists>d rest. ds = d # rest \<and> holds_blob b pkg off n d \<and> slots_hold b is (insert pkg seen) rest)" for ds
      using slot 4 unfolding slots_hold_def by (cases ds) (auto simp: used_slots_simps)
    show ?thesis
    proof (cases "ndb_blob b pkg off n")
      case None
      then show ?thesis using exact by blast
    next
      case (Some r)
      show ?thesis
      proof (cases r)
        case (Inl e)
        then have "\<not> holds_blob b pkg off n d" for d using exact Some by simp
        then have "\<not> slots_hold b (i # is) seen ds" for ds unfolding hold by blast
        moreover have "run_fold (ndb_slot b) (i # is) (out, seen) = Some (Inl (''package '' @ show_nat (unat pkg) @ '': '' @ e))"
          using step slot 4 Some Inl by simp
        ultimately show ?thesis by simp
      next
        case (Inr d)
        have d: "holds_blob b pkg off n x \<longleftrightarrow> x = d" for x
          using conjunct2 [OF exact, THEN spec, of x] unfolding Some Inr by (simp only: option.inject sum.inject eq_commute [of d])
        have run: "run_fold (ndb_slot b) (i # is) (out, seen) = run_fold (ndb_slot b) is (out @ [d], insert pkg seen)"
          using step slot 4 Some Inr by simp
        have "slots_hold b (i # is) seen ds \<longleftrightarrow> (\<exists>rest. ds = d # rest \<and> slots_hold b is (insert pkg seen) rest)" for ds
          unfolding hold d by blast
        then show ?thesis unfolding run using Cons.IH [OF rest, of "out @ [d]" "insert pkg seen"] by simp blast
      qed
    qed
  qed
qed

lemma ndb_exact:
  "ndb_blobs b \<noteq> None \<and> (\<forall>ds. ndb_blobs b = Some (Inr ds) \<longleftrightarrow> ndb_stores b ds)"
proof -
  let ?n = "le_val (take 4 (drop 12 b))"
  have val: "unat (from_le bs :: 32 word) = le_val bs" if "length bs = 4" for bs
    using le_val_bound [of bs] that by (simp add: from_le_def unat_of_nat)
  consider "\<not> 4096 \<le> length b" | "4096 \<le> length b" "take 4 b \<noteq> db_magic \<or> take 4 (drop 4 b) \<noteq> to_le 4 0"
    | "4096 \<le> length b" "take 4 b = db_magic" "take 4 (drop 4 b) = to_le 4 0" "\<not> (1 \<le> ?n \<and> 4096 * ?n \<le> length b)"
    | "4096 \<le> length b" "take 4 b = db_magic" "take 4 (drop 4 b) = to_le 4 0" "1 \<le> ?n" "4096 * ?n \<le> length b"
    by blast
  then show ?thesis
  proof cases
    case 1
    then have "\<not> ndb_stores b ds" for ds by (auto simp: ndb_stores_def Let_def)
    moreover have "ndb_blobs b \<noteq> None" "ndb_blobs b \<noteq> Some (Inr ds)" for ds
      using 1 by (auto simp: ndb_blobs_def le_def ok_or_def checked_mul_def split: option.splits)
    ultimately show ?thesis by simp
  next
    case 2
    then show ?thesis
      by (auto simp: ndb_stores_def Let_def ndb_blobs_def get_range_def le_run from_le_eq)
  next
    case 3
    then show ?thesis
      by (auto simp: ndb_stores_def Let_def ndb_blobs_def get_range_def le_run from_le_eq checked_mul_def val)
  next
    case 4
    have n: "?n < 2 ^ 32" using le_val_bound [of "take 4 (drop 12 b)"] 4(1) by simp
    have run: "ndb_blobs b = run_bind (run_fold (ndb_slot b) (slot_starts (4096 * ?n)) ([], {})) (\<lambda>(out, seen). Some (Inr out))"
      using 4 n by (simp add: ndb_blobs_def get_range_def le_run from_le_eq checked_mul_def val mult.commute)
    have "i + 16 \<le> length b" if "i \<in> set (slot_starts (4096 * ?n))" for i
      using slot_starts_bound [OF that] 4(5) by simp
    note slots = ndb_slots_exact [OF this, of "slot_starts (4096 * ?n)" "[]" "{}"]
    have "ndb_stores b ds \<longleftrightarrow> slots_hold b (slot_starts (4096 * ?n)) {} ds" for ds
      using 4 by (simp add: ndb_stores_def Let_def)
    moreover obtain r where r: "run_fold (ndb_slot b) (slot_starts (4096 * ?n)) ([], {}) = Some r" using slots by blast
    ultimately show ?thesis using slots unfolding run r by (cases r) auto
  qed
qed

text \<open>C40: the NDB reader accepts exactly the files of the format: whatever the bytes, it does not panic, and it
  succeeds with some headers exactly when the slot pages lie in the file, every slot is a slot, no
  package has two, and the blocks each used slot names are laid out as a blob of that package with
  its checksum right.\<close>

theorem ndb_accepts_format:
  "case ndb_blobs b of
      None \<Rightarrow> False
    | Some (Inl e) \<Rightarrow> (\<nexists>ds. ndb_stores b ds)
    | Some (Inr ds) \<Rightarrow> ndb_stores b ds"
  using ndb_exact [of b] by (auto split: option.split sum.split)

end
