(* ===== verification/Rpm_Bdb.thy ===== *)
theory Rpm_Bdb
  imports Rust_Bytes
begin

text \<open>
  Berkeley DB hash databases, \<^verbatim>\<open>crates/os/src/rpmdb/bdb.rs\<close>: hash pages of key and data items, data
  inline or on a chain of overflow pages.  Slices and index reads that could panic are runs; the
  page arithmetic multiplies 32-bit page numbers with a page size of at most 65536, far below
  \<^verbatim>\<open>usize::MAX\<close>.  The chain loop has no bound of its own: it is a partial function.
\<close>

section \<open>Definitions\<close>

definition hash_magic :: "32 word" where "hash_magic = 0x00061561"
definition p_hash_unsorted :: byte where "p_hash_unsorted = 2"
definition p_overflow :: byte where "p_overflow = 7"
definition p_hashmeta :: byte where "p_hashmeta = 8"
definition p_hash :: byte where "p_hash = 13"
definition h_keydata :: byte where "h_keydata = 1"
definition h_offpage :: byte where "h_offpage = 3"

abbreviation (input) page_header :: nat where "page_header \<equiv> 26"

record bdb_file =
  bf_b :: "byte list"
  bf_little :: bool
  bf_page_size :: nat

definition bdb_u32 :: "bdb_file \<Rightarrow> nat \<Rightarrow> (string, 32 word) run" where
  "bdb_u32 f i =
     Some (ok_or ''read past the end of the file''
       (map_option (\<lambda>s. if bf_little f then from_le s else from_be s) (get_range (bf_b f) i (i + 4))))"

definition bdb_u16 :: "bdb_file \<Rightarrow> nat \<Rightarrow> (string, 16 word) run" where
  "bdb_u16 f i =
     Some (ok_or ''read past the end of the file''
       (map_option (\<lambda>s. if bf_little f then from_le s else from_be s) (get_range (bf_b f) i (i + 2))))"

definition bdb_page :: "bdb_file \<Rightarrow> 32 word \<Rightarrow> (string, byte list) run" where
  "bdb_page f n =
     run_bind (Some (ok_or ''page number overflows'' (checked_mul (unat n) (bf_page_size f)))) (\<lambda>start.
     Some (ok_or (''page '' @ show_nat (unat n) @ '' is past the end of the file'')
       (get_range (bf_b f) start (start + bf_page_size f))))"

text \<open>The data of one overflow page and the page that follows.\<close>

definition overflow_turn :: "bdb_file \<Rightarrow> 32 word \<Rightarrow> (string, byte list \<times> 32 word) run" where
  "overflow_turn f n =
     run_bind (bdb_page f n) (\<lambda>page.
     run_bind (byte_at page 25) (\<lambda>kind.
     if kind \<noteq> p_overflow then Some (Inl (''page '' @ show_nat (unat n) @ '' is not an overflow page''))
     else let base = unat n * bf_page_size f in
     run_bind (bdb_u16 f (base + 22)) (\<lambda>len.
     run_bind (Some (ok_or (''overflow page '' @ show_nat (unat n) @ '' claims more data than it holds'')
         (get_range page page_header (page_header + unat len)))) (\<lambda>data.
     run_bind (bdb_u32 f (base + 16)) (\<lambda>m. Some (Inr (data, m)))))))"

partial_function (option) overflow_loop :: "bdb_file \<Rightarrow> nat \<Rightarrow> byte list \<Rightarrow> 32 word \<Rightarrow> 32 word set
    \<Rightarrow> (string, byte list \<times> 32 word set) run" where
  "overflow_loop f want out n seen =
     (if want \<le> length out then Some (Inr (out, seen))
      else if n = 0 \<or> n \<in> seen then Some (Inl (''overflow page '' @ show_nat (unat n) @ '' is missing or shared''))
      else (case overflow_turn f n of
              None \<Rightarrow> None
            | Some (Inl e) \<Rightarrow> Some (Inl e)
            | Some (Inr (data, m)) \<Rightarrow> overflow_loop f want (out @ data) m (insert n seen)))"

declare overflow_loop.simps [code]

definition overflow :: "bdb_file \<Rightarrow> 32 word \<Rightarrow> nat \<Rightarrow> 32 word set \<Rightarrow> (string, byte list \<times> 32 word set) run" where
  "overflow f start want seen =
     (if length (bf_b f) < want then Some (Inl ''an off-page item is longer than the file'')
      else run_bind (overflow_loop f want [] start seen) (\<lambda>(out, seen).
        if length out \<noteq> want then Some (Inl ''an overflow chain is longer than its item'')
        else Some (Inr (out, seen))))"

text \<open>Items are stored from the end of the page down.\<close>

definition item_offset :: "bdb_file \<Rightarrow> nat \<Rightarrow> nat \<Rightarrow> nat \<Rightarrow> nat \<Rightarrow> (string, nat) run" where
  "item_offset f n base entries i =
     run_bind (map_option (map_sum id unat) (bdb_u16 f (base + page_header + 2 * i))) (\<lambda>off.
     if off < page_header + 2 * entries \<or> bf_page_size f \<le> off
     then Some (Inl (''page '' @ show_nat n @ '': item '' @ show_nat i @ '' is outside the page''))
     else Some (Inr off))"

definition item_end :: "bdb_file \<Rightarrow> nat \<Rightarrow> nat \<Rightarrow> nat \<Rightarrow> nat \<Rightarrow> (string, nat) run" where
  "item_end f n base entries i =
     (if i = 0 then Some (Inr (bf_page_size f)) else item_offset f n base entries (i - 1))"

definition bdb_pair :: "bdb_file \<Rightarrow> nat \<Rightarrow> byte list \<Rightarrow> nat \<Rightarrow> nat \<Rightarrow> nat
    \<Rightarrow> byte list list \<times> 32 word set \<Rightarrow> (string, byte list list \<times> 32 word set) run" where
  "bdb_pair f n page base entries pair st =
     (case st of (out, seen) \<Rightarrow>
      let k = 2 * pair; d = 2 * pair + 1 in
      run_bind (item_offset f n base entries k) (\<lambda>ko.
      run_bind (item_end f n base entries k) (\<lambda>ke.
      if ke \<le> ko then Some (Inl (''page '' @ show_nat n @ '': key '' @ show_nat pair @ '' has a negative length''))
      else run_bind (slice page ko ke) (\<lambda>key.
      run_bind (byte_at key 0) (\<lambda>kind.
      if kind \<noteq> h_keydata then Some (Inl (''page '' @ show_nat n @ '': key '' @ show_nat pair @ '' is not inline''))
      else run_bind (slice key 1 (length key)) (\<lambda>number.
      if list_all (\<lambda>x. x = 0) number then Some (Inr (out, seen))
      else run_bind (item_offset f n base entries d) (\<lambda>dofs.
      run_bind (item_end f n base entries d) (\<lambda>dend.
      if dend \<le> dofs then Some (Inl (''page '' @ show_nat n @ '': item '' @ show_nat pair @ '' has a negative length''))
      else run_bind (slice page dofs dend) (\<lambda>item.
      run_bind (byte_at item 0) (\<lambda>t.
      if t = h_keydata then run_bind (slice item 1 (length item)) (\<lambda>data. Some (Inr (out @ [data], seen)))
      else if t = h_offpage then
        (if length item < 12
         then Some (Inl (''page '' @ show_nat n @ '': off-page item '' @ show_nat pair @ '' is truncated''))
         else run_bind (bdb_u32 f (base + dofs + 4)) (\<lambda>start.
           run_bind (bdb_u32 f (base + dofs + 8)) (\<lambda>want.
           run_bind (overflow f start (unat want) seen) (\<lambda>(data, seen). Some (Inr (out @ [data], seen))))))
      else Some (Inl (''page '' @ show_nat n @ '': item '' @ show_nat pair @ '' has type '' @ show_nat (unat t) @
        '', not a header''))))))))))))"

definition bdb_hash_page :: "bdb_file \<Rightarrow> nat \<Rightarrow> byte list list \<times> 32 word set \<Rightarrow> (string, byte list list \<times> 32 word set) run" where
  "bdb_hash_page f n st =
     run_bind (bdb_page f (of_nat n)) (\<lambda>page.
     run_bind (byte_at page 25) (\<lambda>kind.
     if \<not> (kind = p_hash \<or> kind = p_hash_unsorted) then Some (Inr st)
     else let base = n * bf_page_size f in
     run_bind (map_option (map_sum id unat) (bdb_u16 f (base + 20))) (\<lambda>entries.
     if entries mod 2 \<noteq> 0 \<or> bf_page_size f < page_header + 2 * entries
     then Some (Inl (''page '' @ show_nat n @ '': '' @ show_nat entries @ '' entries do not make key/data pairs''))
     else run_fold (bdb_pair f n page base entries) [0..<entries div 2] st)))"

definition is_power_of_two :: "nat \<Rightarrow> bool" where
  "is_power_of_two n \<longleftrightarrow> list_ex (\<lambda>k. n = 2 ^ k) [0..<64]"

definition bdb_blobs :: "byte list \<Rightarrow> (string, byte list list) run" where
  "bdb_blobs b =
     (if length b < 512 then Some (Inl ''too short for a Berkeley DB file'')
      else run_bind (slice b 12 16) (\<lambda>magic.
      if from_le magic \<noteq> hash_magic \<and> from_be magic \<noteq> hash_magic
      then Some (Inl ''not a Berkeley DB hash database'')
      else let f = \<lparr>bf_b = b, bf_little = from_le magic = hash_magic, bf_page_size = 0\<rparr> in
      run_bind (map_option (map_sum id unat) (bdb_u32 f 20)) (\<lambda>size.
      if \<not> (512 \<le> size \<and> size \<le> 65536) \<or> \<not> is_power_of_two size
      then Some (Inl (''page size '' @ show_nat size @ '' is not valid''))
      else let f = f\<lparr>bf_page_size := size\<rparr> in
      run_bind (byte_at b 25) (\<lambda>kind.
      if kind \<noteq> p_hashmeta then Some (Inl ''the first page is not hash metadata'')
      else run_bind (byte_at b 24) (\<lambda>encrypted.
      if encrypted \<noteq> 0 then Some (Inl ''the database is encrypted'')
      else run_bind (map_option (map_sum id unat) (bdb_u32 f 32)) (\<lambda>last.
      if length b < (last + 1) * size then Some (Inl ''the file is shorter than its metadata says'')
      else run_bind (run_fold (bdb_hash_page f) [1..<last + 1] ([], {})) (\<lambda>(out, seen). Some (Inr out))))))))"

section \<open>No panic, no endless chain\<close>

text \<open>A file whose page size is one the reader admits.\<close>

definition bdb_ok :: "bdb_file \<Rightarrow> bool" where
  "bdb_ok f \<longleftrightarrow> 512 \<le> bf_page_size f \<and> bf_page_size f \<le> 65536"

lemma safe_bdb_reads: "safe (bdb_u32 f i) (\<lambda>_. True)" "safe (bdb_u16 f i) (\<lambda>_. True)"
  by (simp_all add: bdb_u32_def bdb_u16_def safe_Some)

lemma safe_bdb_page: "safe (bdb_page f n) (\<lambda>page. length page = bf_page_size f)"
  unfolding bdb_page_def by (rule safe_bind [of _ "\<lambda>_. True"]) (auto simp: safe_Some result_simps dest: get_range_length)

lemma overflow_turn_runs:
  assumes "bdb_ok f"
  shows "safe (overflow_turn f n) (\<lambda>_. True)"
  unfolding overflow_turn_def
proof (rule safe_bind [OF safe_bdb_page])
  fix page :: "byte list" assume "length page = bf_page_size f"
  then have "safe (byte_at page 25) (\<lambda>_. True)" using assms by (simp add: byte_at_def bdb_ok_def)
  then show "safe (run_bind (byte_at page 25) (\<lambda>kind.
     if kind \<noteq> p_overflow then Some (Inl (''page '' @ show_nat (unat n) @ '' is not an overflow page''))
     else let base = unat n * bf_page_size f in
     run_bind (bdb_u16 f (base + 22)) (\<lambda>len.
     run_bind (Some (ok_or (''overflow page '' @ show_nat (unat n) @ '' claims more data than it holds'')
         (get_range page page_header (page_header + unat len)))) (\<lambda>data.
     run_bind (bdb_u32 f (base + 16)) (\<lambda>m. Some (Inr (data, m))))))) (\<lambda>_. True)"
    by (rule safe_bind) (auto simp: Let_def safe_Some intro!: safe_bind [OF safe_bdb_reads(1)] safe_bind [OF safe_bdb_reads(2)]
      safe_bind [of "Some r" "\<lambda>_. True" for r])
qed

text \<open>Every turn of the chain takes a page that was not taken before, so it ends.\<close>

lemma overflow_loop_runs:
  assumes ok: "bdb_ok f"
  shows "safe (overflow_loop f want out n seen) (\<lambda>_. True)"
proof (induction "card (- seen)" arbitrary: out n seen rule: less_induct)
  case less
  show ?case
  proof (cases "want \<le> length out \<or> n = 0 \<or> n \<in> seen")
    case True
    then show ?thesis by (auto simp: overflow_loop.simps [of f want out n seen])
  next
    case False
    obtain r where r: "overflow_turn f n = Some r" using safe_runs [OF overflow_turn_runs [OF ok]] by blast
    have "safe (overflow_loop f want out' m (insert n seen)) (\<lambda>_. True)" for out' m
      using False by (intro less.hyps card_unseen) simp
    then show ?thesis
      using False r by (subst overflow_loop.simps) (auto split: sum.split)
  qed
qed

lemma overflow_runs: "bdb_ok f \<Longrightarrow> safe (overflow f start want seen) (\<lambda>_. True)"
  by (auto simp: overflow_def safe_Some intro!: safe_bind [OF overflow_loop_runs])

lemma item_offset_runs:
  "safe (item_offset f n base entries i) (\<lambda>off. page_header + 2 * entries \<le> off \<and> off < bf_page_size f)"
  unfolding item_offset_def by (rule safe_bind [of _ "\<lambda>_. True"]) (auto simp: bdb_u16_def safe_Some)

lemma item_end_runs:
  "safe (item_end f n base entries i) (\<lambda>e. e \<le> bf_page_size f)"
  by (auto simp: item_end_def intro: safe_mono [OF item_offset_runs])

lemma bdb_pair_runs:
  assumes ok: "bdb_ok f" and page: "length page = bf_page_size f"
  shows "safe (bdb_pair f n page base entries pair st) (\<lambda>_. True)"
proof -
  have item: "safe (slice page i j) (\<lambda>s. s \<noteq> [])" if "\<not> j \<le> i" "j \<le> bf_page_size f" for i j
    using that page by (intro safe_mono [OF safe_slice]) auto
  have head: "safe (byte_at s 0) (\<lambda>_. True)" if "s \<noteq> []" for s :: "byte list"
    using that by (simp add: byte_at_def)
  have rest: "safe (slice s 1 (length s)) (\<lambda>_. True)" if "s \<noteq> []" for s :: "byte list"
    using that by (cases s) (simp_all add: slice_def get_range_def run_ok_def)
  show ?thesis
    unfolding bdb_pair_def Let_def
    by (cases st; simp only: prod.case;
        intro safe_then [OF item_offset_runs] safe_then [OF item_end_runs] safe_if safe_then [OF item] safe_then [OF head]
          safe_then [OF rest] safe_then [OF safe_bdb_reads(1)] safe_then [OF overflow_runs [OF ok]];
        auto)
qed

lemma bdb_hash_page_runs:
  assumes ok: "bdb_ok f"
  shows "safe (bdb_hash_page f n st) (\<lambda>_. True)"
  unfolding bdb_hash_page_def
proof (rule safe_then [OF safe_bdb_page])
  fix page :: "byte list" assume page: "length page = bf_page_size f"
  have kind: "safe (byte_at page 25) (\<lambda>_. True)" using ok page by (simp add: byte_at_def bdb_ok_def)
  have entries: "safe (map_option (map_sum id unat) (bdb_u16 f i)) (\<lambda>_. True)" for i
    using safe_bdb_reads(2) [of f i] by (auto simp: bdb_u16_def safe_Some)
  show "safe (run_bind (byte_at page 25) (\<lambda>kind.
     if \<not> (kind = p_hash \<or> kind = p_hash_unsorted) then Some (Inr st)
     else let base = n * bf_page_size f in
     run_bind (map_option (map_sum id unat) (bdb_u16 f (base + 20))) (\<lambda>entries.
     if entries mod 2 \<noteq> 0 \<or> bf_page_size f < page_header + 2 * entries
     then Some (Inl (''page '' @ show_nat n @ '': '' @ show_nat entries @ '' entries do not make key/data pairs''))
     else run_fold (bdb_pair f n page base entries) [0..<entries div 2] st))) (\<lambda>_. True)"
    unfolding Let_def
    by (intro safe_then [OF kind] safe_then [OF entries] safe_if safe_fold [where I = "\<lambda>_ _. True"] bdb_pair_runs [OF ok page]) auto
qed

lemma bdb_blobs_runs: "safe (bdb_blobs b) (\<lambda>_. True)"
proof (cases "length b < 512")
  case False
  have magic: "safe (slice b 12 16) (\<lambda>_. True)" using False by (simp add: slice_def get_range_def run_ok_def)
  have bytes: "safe (byte_at b 25) (\<lambda>_. True)" "safe (byte_at b 24) (\<lambda>_. True)" using False by (simp_all add: byte_at_def)
  have reads: "safe (map_option (map_sum id unat) (bdb_u32 f i)) (\<lambda>_. True)" for f i
    by (auto simp: bdb_u32_def safe_Some)
  have fold: "safe (run_fold (bdb_hash_page f) ns st) (\<lambda>_. True)" if "bdb_ok f" for f ns st
    by (rule safe_fold [where I = "\<lambda>_ _. True"]) (simp_all add: bdb_hash_page_runs [OF that])
  show ?thesis
    unfolding bdb_blobs_def Let_def
    by (intro safe_if safe_then [OF magic] safe_then [OF bytes(1)] safe_then [OF bytes(2)] safe_then [OF reads] safe_then [OF fold])
      (auto simp: bdb_ok_def)
qed (simp add: bdb_blobs_def)

end
