(* ===== verification/Rpm_Sqlite.thy ===== *)
theory Rpm_Sqlite
  imports Rust_Bytes Rust_Map
begin

unbundle bit_operations_syntax

text \<open>
  SQLite databases, \<^verbatim>\<open>crates/os/src/rpmdb/sqlite.rs\<close>: the rows of a table by a walk of its b-tree,
  over a main file with the committed frames of a write-ahead log applied.  The callback of a scan is a
  function on its own state.  A real value is kept as its bits.
\<close>

section \<open>Integers and records\<close>

definition read_u16 :: "byte list \<Rightarrow> nat \<Rightarrow> (string, 16 word) run" where
  "read_u16 b i = Some (ok_or ''read past the end of a page'' (map_option from_be (get_range b i (i + 2))))"

definition read_u32 :: "byte list \<Rightarrow> nat \<Rightarrow> (string, 32 word) run" where
  "read_u32 b i = Some (ok_or ''read past the end of a page'' (map_option from_be (get_range b i (i + 4))))"

text \<open>\<open>i\<close> counts the bytes read; the ninth contributes all its bits.\<close>

function varint_from :: "byte list \<Rightarrow> nat \<Rightarrow> nat \<Rightarrow> 64 word \<Rightarrow> (string, 64 word \<times> nat) run" where
  "varint_from b start i v =
     (if 9 \<le> i then Some (Inl ''varint too long'')
      else if length b \<le> start + i then Some (Inl ''varint runs past the end'')
      else let x = b ! (start + i) in
        if i = 8 then Some (Inr (push_bit 8 v OR ucast x, 9))
        else let v = push_bit 7 v OR ucast (x AND 0x7F) in
          if x AND 0x80 = 0 then Some (Inr (v, i + 1)) else varint_from b start (i + 1) v)"
  by pat_completeness auto
termination varint_from
  by (relation "measure (\<lambda>(b, start, i, v). 9 - i)") auto

declare varint_from.simps [simp del]

definition varint :: "byte list \<Rightarrow> nat \<Rightarrow> (string, 64 word \<times> nat) run" where
  "varint b start = varint_from b start 0 0"

datatype sql_value = SqlNull | SqlInt int | SqlFloat "64 word" | SqlText "byte list" | SqlBlob "byte list"

definition sql_int :: "byte list \<Rightarrow> nat \<Rightarrow> nat \<Rightarrow> (string, 64 word) run" where
  "sql_int rec len body =
     run_bind (Some (ok_or ''record value out of bounds'' (get_range rec body (body + len)))) (\<lambda>b.
     run_bind (byte_at b 0) (\<lambda>x.
     Some (Inr (foldl (\<lambda>v x. push_bit 8 v OR ucast x) (if x AND 0x80 \<noteq> 0 then - 1 else 0) b))))"

definition record_value :: "byte list \<Rightarrow> 64 word \<Rightarrow> nat \<Rightarrow> (string, sql_value \<times> nat) run" where
  "record_value rec t body =
     (let n = unat t in
      if n = 0 then Some (Inr (SqlNull, 0))
      else if n \<le> 4 then run_bind (sql_int rec n body) (\<lambda>v. Some (Inr (SqlInt (sint v), n)))
      else if n = 5 then run_bind (sql_int rec 6 body) (\<lambda>v. Some (Inr (SqlInt (sint v), 6)))
      else if n = 6 then run_bind (sql_int rec 8 body) (\<lambda>v. Some (Inr (SqlInt (sint v), 8)))
      else if n = 7 then run_bind (sql_int rec 8 body) (\<lambda>v. Some (Inr (SqlFloat v, 8)))
      else if n = 8 then Some (Inr (SqlInt 0, 0))
      else if n = 9 then Some (Inr (SqlInt 1, 0))
      else if n \<le> 11 then Some (Inl ''reserved serial type in record'')
      else let len = (n - 12) div 2 in
        run_bind (Some (ok_or ''record value out of bounds'' (get_range rec body (body + len)))) (\<lambda>bytes.
        Some (Inr (if n mod 2 = 0 then SqlBlob bytes else SqlText bytes, len))))"

lemma varint_from_counts: "varint_from b start i v = Some (Inr (x, n)) \<Longrightarrow> i < n \<and> n \<le> 9"
proof (induction b start i v rule: varint_from.induct)
  case (1 b start i v)
  then show ?case by (subst (asm) (2) varint_from.simps) (force simp: Let_def split: if_splits)
qed

lemma varint_counts: "varint b start = Some (Inr (x, n)) \<Longrightarrow> 0 < n"
  unfolding varint_def using varint_from_counts by blast

function sql_types :: "byte list \<Rightarrow> nat \<Rightarrow> nat \<Rightarrow> (string, 64 word list) run" where
  "sql_types rec header_len i =
     (if i < header_len
      then run_bind (varint rec i) (\<lambda>p. case p of (t, n) \<Rightarrow>
        run_bind (sql_types rec header_len (i + n)) (\<lambda>ts. Some (Inr (t # ts))))
      else Some (Inr []))"
  by pat_completeness auto
termination sql_types
  by (relation "measure (\<lambda>(rec, header_len, i). header_len - i)") (auto dest: varint_counts)

declare sql_types.simps [simp del]

fun sql_values :: "byte list \<Rightarrow> 64 word list \<Rightarrow> nat \<Rightarrow> (string, sql_value list) run" where
  "sql_values rec [] body = Some (Inr [])"
| "sql_values rec (t # ts) body =
     run_bind (record_value rec t body) (\<lambda>p. case p of (v, len) \<Rightarrow>
     run_bind (sql_values rec ts (body + len)) (\<lambda>vs. Some (Inr (v # vs))))"

definition sql_record :: "byte list \<Rightarrow> (string, sql_value list) run" where
  "sql_record rec =
     run_bind (varint rec 0) (\<lambda>(header_len, i).
     let header_len = unat header_len in
     if length rec < header_len then Some (Inl ''record header runs past the record'')
     else run_bind (sql_types rec header_len i) (\<lambda>types. sql_values rec types header_len))"

section \<open>The file and its log\<close>

record sql_db =
  sd_file :: "byte list"
  sd_page_size :: nat
  sd_usable :: nat
  sd_pages :: nat
  sd_wal :: "(32 word, byte list) btree"

fun wal_checksum :: "bool \<Rightarrow> byte list \<Rightarrow> 32 word \<times> 32 word \<Rightarrow> 32 word \<times> 32 word" where
  "wal_checksum big (a0 # a1 # a2 # a3 # b0 # b1 # b2 # b3 # rest) (s0, s1) =
     (let word = (\<lambda>w. if big then from_be w else from_le w);
          s0 = s0 + word [a0, a1, a2, a3] + s1;
          s1 = s1 + word [b0, b1, b2, b3] + s0
      in wal_checksum big rest (s0, s1))"
| "wal_checksum big _ s = s"

text \<open>Reads by index, which panic out of range.\<close>

definition wal_be :: "byte list \<Rightarrow> nat \<Rightarrow> (string, 32 word) run" where
  "wal_be b i = run_bind (slice b i (i + 4)) (\<lambda>s. Some (Inr (from_be s)))"

record wal_state =
  ws_sum :: "32 word \<times> 32 word"
  ws_pending :: "(32 word, byte list) btree"
  ws_wal :: "(32 word, byte list) btree"
  ws_committed :: "nat option"

text \<open>One frame; \<open>None\<close> leaves the loop.\<close>

definition wal_frame :: "bool \<Rightarrow> 32 word \<times> 32 word \<Rightarrow> byte list \<Rightarrow> byte list \<Rightarrow> wal_state \<Rightarrow> (string, wal_state option) run" where
  "wal_frame big salts head data st =
     run_bind (wal_be head 8) (\<lambda>salt1. run_bind (wal_be head 12) (\<lambda>salt2.
     if (salt1, salt2) \<noteq> salts then Some (Inr None)
     else run_bind (slice head 0 8) (\<lambda>start.
     let s = wal_checksum big data (wal_checksum big start (ws_sum st)) in
     run_bind (wal_be head 16) (\<lambda>c0. run_bind (wal_be head 20) (\<lambda>c1.
     if s \<noteq> (c0, c1) then Some (Inr None)
     else run_bind (wal_be head 0) (\<lambda>page.
     if page = 0 then Some (Inr None)
     else let pending = bt_insert ord_cmp page data (ws_pending st) in
     run_bind (wal_be head 4) (\<lambda>db_pages.
     Some (Inr (Some
       (if db_pages \<noteq> 0
        then \<lparr>ws_sum = s, ws_pending = [], ws_wal = fold (\<lambda>(k, v). bt_insert ord_cmp k v) pending (ws_wal st),
              ws_committed = Some (unat db_pages)\<rparr>
        else st\<lparr>ws_sum := s, ws_pending := pending\<rparr>)))))))))) "

function wal_loop :: "bool \<Rightarrow> 32 word \<times> 32 word \<Rightarrow> nat \<Rightarrow> byte list \<Rightarrow> nat \<Rightarrow> wal_state \<Rightarrow> (string, wal_state) run" where
  "wal_loop big salts page_size wal i st =
     (if length wal < i + (24 + page_size) then Some (Inr st)
      else run_bind (slice wal i (i + 24)) (\<lambda>head.
        run_bind (slice wal (i + 24) (i + (24 + page_size))) (\<lambda>data.
        run_bind (wal_frame big salts head data st) (\<lambda>r. case r of
            None \<Rightarrow> Some (Inr st)
          | Some st \<Rightarrow> wal_loop big salts page_size wal (i + (24 + page_size)) st))))"
  by pat_completeness auto
termination wal_loop
  by (relation "measure (\<lambda>(big, salts, page_size, wal, i, st). Suc (length wal) - i)") auto

declare wal_loop.simps [simp del]

definition apply_wal :: "byte list \<Rightarrow> sql_db \<Rightarrow> (string, sql_db) run" where
  "apply_wal wal db =
     (if length wal < 32 then Some (Inl ''write-ahead log is truncated'')
      else run_bind (wal_be wal 0) (\<lambda>magic.
      if magic \<noteq> 0x377F0683 \<and> magic \<noteq> 0x377F0682 then Some (Inl ''write-ahead log has a bad magic number'')
      else let big = magic = 0x377F0683 in
      run_bind (wal_be wal 8) (\<lambda>page_size.
      if unat page_size \<noteq> sd_page_size db then Some (Inl ''write-ahead log page size differs from the database's'')
      else run_bind (wal_be wal 16) (\<lambda>salt1. run_bind (wal_be wal 20) (\<lambda>salt2.
      run_bind (slice wal 0 24) (\<lambda>start.
      let s = wal_checksum big start (0, 0) in
      run_bind (wal_be wal 24) (\<lambda>c0. run_bind (wal_be wal 28) (\<lambda>c1.
      if s \<noteq> (c0, c1) then Some (Inr db)
      else run_bind (wal_loop big (salt1, salt2) (sd_page_size db) wal 32
          \<lparr>ws_sum = s, ws_pending = [], ws_wal = sd_wal db, ws_committed = None\<rparr>) (\<lambda>st.
        Some (Inr (db\<lparr>sd_wal := ws_wal st,
          sd_pages := (case ws_committed st of None \<Rightarrow> sd_pages db | Some n \<Rightarrow> n)\<rparr>)))))))))))"

definition sql_magic :: "byte list" where
  "sql_magic = bytes_of ''SQLite format 3'' @ [0]"

definition sql_page_size :: "16 word \<Rightarrow> (string, nat) run" where
  "sql_page_size n =
     Some (if n = 1 then Inr 65536
           else if 512 \<le> unat n \<and> list_ex (\<lambda>k. unat n = 2 ^ k) [0..<16] then Inr (unat n)
           else Inl (''page size '' @ show_nat (unat n) @ '' is not valid''))"

definition sql_open :: "byte list \<Rightarrow> byte list option \<Rightarrow> (string, sql_db) run" where
  "sql_open file wal =
     run_bind (if length file < 100 then Some (Inr True)
               else run_bind (slice file 0 16) (\<lambda>magic. Some (Inr (magic \<noteq> sql_magic)))) (\<lambda>other.
     if other then Some (Inl ''not an SQLite 3 database'')
     else run_bind (slice file 16 18) (\<lambda>b.
     run_bind (sql_page_size (from_be b)) (\<lambda>page_size.
     run_bind (byte_at file 20) (\<lambda>reserved.
     run_bind (Some (ok_or ''reserved space leaves too little of each page''
         (if unat reserved \<le> page_size \<and> 480 \<le> page_size - unat reserved then Some (page_size - unat reserved) else None))) (\<lambda>usable.
     run_bind (slice file 56 60) (\<lambda>encoding.
     if 1 < unat (from_be encoding :: 32 word) then Some (Inl ''only UTF-8 databases are supported'')
     else let db = \<lparr>sd_file = file, sd_page_size = page_size, sd_usable = usable,
                   sd_pages = length file div page_size, sd_wal = []\<rparr> in
       case wal of
         None \<Rightarrow> Some (Inr db)
       | Some w \<Rightarrow> if w = [] then Some (Inr db) else apply_wal w db))))))"

section \<open>The b-tree\<close>

definition max_depth :: nat where
  "max_depth = 64"

definition sql_page :: "sql_db \<Rightarrow> 32 word \<Rightarrow> (string, byte list) run" where
  "sql_page db n =
     (if n = 0 \<or> sd_pages db < unat n then Some (Inl (''page '' @ show_nat (unat n) @ '' is outside the database''))
      else case bt_get ord_cmp n (sd_wal db) of
          Some p \<Rightarrow> Some (Inr p)
        | None \<Rightarrow>
            let start = (unat n - 1) * sd_page_size db in
            Some (ok_or (''page '' @ show_nat (unat n) @ '' is past the end of the file'')
              (get_range (sd_file db) start (start + sd_page_size db))))"

definition local_size :: "nat \<Rightarrow> nat \<Rightarrow> (string, nat) run" where
  "local_size u p =
     run_bind (usize_sub u 35) (\<lambda>x.
     if p \<le> x then Some (Inr p)
     else run_bind (usize_sub u 12) (\<lambda>a. run_bind (usize_sub (a * 32 div 255) 23) (\<lambda>m.
       run_bind (usize_sub p m) (\<lambda>d. run_bind (usize_sub u 4) (\<lambda>e.
       let k = m + d mod e in Some (Inr (if k \<le> x then k else m)))))))"

function payload_rest :: "sql_db \<Rightarrow> nat \<Rightarrow> byte list \<Rightarrow> 32 word \<Rightarrow> 32 word set \<Rightarrow> (string, byte list) run" where
  "payload_rest db p out m seen =
     (if p \<le> length out then Some (Inr out)
      else if m \<in> seen then Some (Inl ''overflow chain loops'')
      else run_bind (sql_page db m) (\<lambda>ov.
        run_bind (usize_sub p (length out)) (\<lambda>left. run_bind (usize_sub (sd_usable db) 4) (\<lambda>room.
        run_bind (Some (ok_or ''overflow page out of bounds'' (get_range ov 4 (4 + min left room)))) (\<lambda>data.
        run_bind (read_u32 ov 0) (\<lambda>m'. payload_rest db p (out @ data) m' (insert m seen)))))))"
  by pat_completeness auto

termination payload_rest
  by (relation "measure (\<lambda>(db, p, out, m, seen). card (- seen))") (auto intro: card_unseen)

declare payload_rest.simps [simp del]

definition payload :: "sql_db \<Rightarrow> byte list \<Rightarrow> nat \<Rightarrow> nat \<Rightarrow> (string, byte list) run" where
  "payload db page i p =
     (if length (sd_file db) + length (sd_wal db) * sd_page_size db < p
      then Some (Inl ''payload is larger than the database'')
      else run_bind (local_size (sd_usable db) p) (\<lambda>local.
      run_bind (Some (ok_or ''cell payload out of bounds'' (get_range page i (i + local)))) (\<lambda>out.
      if local = p then Some (Inr out)
      else run_bind (read_u32 page (i + local)) (\<lambda>m. payload_rest db p out m {}))))"

definition show_hex :: "byte \<Rightarrow> string" where
  "show_hex x =
     (let digit = (\<lambda>d. char_of (if d < 10 then 48 + d else 87 + d)); n = unat x
      in ''0x'' @ (if n < 16 then [digit n] else [digit (n div 16), digit (n mod 16)]))"

definition sql_leaf :: "sql_db \<Rightarrow> (int \<Rightarrow> byte list \<Rightarrow> 's \<Rightarrow> (string, 's) run) \<Rightarrow> byte list \<Rightarrow> nat \<Rightarrow> 's \<Rightarrow> (string, 's) run" where
  "sql_leaf db each page ptr s =
     run_bind (varint page ptr) (\<lambda>(len, a).
     run_bind (varint page (ptr + a)) (\<lambda>(rowid, b).
     run_bind (payload db page (ptr + a + b) (unat len)) (\<lambda>rec. each (sint rowid) rec s)))"

function sql_walk :: "sql_db \<Rightarrow> (int \<Rightarrow> byte list \<Rightarrow> 's \<Rightarrow> (string, 's) run) \<Rightarrow> 32 word \<Rightarrow> nat
    \<Rightarrow> 32 word set \<times> 's \<Rightarrow> (string, 32 word set \<times> 's) run" where
  "sql_walk db each n depth st =
     (if max_depth < depth then Some (Inl ''b-tree is deeper than any valid one'')
      else if n \<in> fst st then Some (Inl (''page '' @ show_nat (unat n) @ '' is reached twice''))
      else run_bind (sql_page db n) (\<lambda>page.
      let base = if n = 1 then 100 else 0 in
      run_bind (Some (ok_or ''page header out of bounds'' (if base < length page then Some (page ! base) else None))) (\<lambda>kind.
      run_bind (read_u16 page (base + 3)) (\<lambda>cells.
      if kind \<noteq> 0x0D \<and> kind \<noteq> 0x05
      then Some (Inl (''page '' @ show_nat (unat n) @ '' is not a table b-tree page (type '' @ show_hex kind @ '')''))
      else let interior = kind = 0x05; header = if interior then 12 else 8 in
      run_bind (run_fold (\<lambda>i st.
          run_bind (read_u16 page (base + header + 2 * i)) (\<lambda>ptr.
          if sd_usable db \<le> unat ptr
          then Some (Inl (''page '' @ show_nat (unat n) @ '': cell '' @ show_nat i @ '' points outside the page''))
          else if interior then run_bind (read_u32 page (unat ptr)) (\<lambda>child. sql_walk db each child (depth + 1) st)
          else run_bind (sql_leaf db each page (unat ptr) (snd st)) (\<lambda>s. Some (Inr (fst st, s)))))
        [0..<unat cells] (insert n (fst st), snd st)) (\<lambda>st.
      if interior then run_bind (read_u32 page (base + 8)) (\<lambda>right. sql_walk db each right (depth + 1) st)
      else Some (Inr st))))))"
  by pat_completeness auto
termination sql_walk
  by (relation "measure (\<lambda>(db, each, n, depth, st). Suc max_depth - depth)") auto

declare sql_walk.simps [simp del]

definition sql_scan :: "sql_db \<Rightarrow> 32 word \<Rightarrow> (int \<Rightarrow> byte list \<Rightarrow> 's \<Rightarrow> (string, 's) run) \<Rightarrow> 's \<Rightarrow> (string, 's) run" where
  "sql_scan db root each s = run_bind (sql_walk db each root 0 ({}, s)) (\<lambda>(seen, s). Some (Inr s))"

definition row_get :: "sql_value list \<Rightarrow> nat \<Rightarrow> sql_value option" where
  "row_get row i = (if i < length row then Some (row ! i) else None)"

definition table_row :: "string \<Rightarrow> int \<Rightarrow> byte list \<Rightarrow> 32 word option \<Rightarrow> (string, 32 word option) run" where
  "table_row name rowid rec root =
     run_bind (sql_record rec) (\<lambda>row.
     Some (Inr (
       if row_get row 0 = Some (SqlText (bytes_of ''table'')) \<and> row_get row 1 = Some (SqlText (bytes_of name))
       then (case row_get row 3 of
               Some (SqlInt r) \<Rightarrow> if 0 \<le> r \<and> r < 2 ^ 32 then Some (of_int r) else None
             | _ \<Rightarrow> root)
       else root)))"

definition table_root :: "sql_db \<Rightarrow> string \<Rightarrow> (string, 32 word option) run" where
  "table_root db name = sql_scan db 1 (table_row name) None"

section \<open>No panic\<close>

lemma safe_sql_reads: "safe (read_u16 b i) (\<lambda>_. True)" "safe (read_u32 b i) (\<lambda>_. True)"
  by (simp_all add: read_u16_def read_u32_def safe_Some)

lemma varint_runs: "safe (varint b i) (\<lambda>_. True)"
proof -
  have "safe (varint_from b i j v) (\<lambda>_. True)" for j v
  proof (induction b i j v rule: varint_from.induct)
    case (1 b start i v)
    then show ?case by (subst varint_from.simps) (auto simp: Let_def)
  qed
  then show ?thesis by (simp add: varint_def)
qed

lemma sql_int_runs: "0 < len \<Longrightarrow> safe (sql_int rec len body) (\<lambda>_. True)"
  unfolding sql_int_def
  by (rule safe_then [of _ "\<lambda>b. length b = len"])
    (auto simp: safe_Some result_simps byte_at_def dest: get_range_length)

lemma record_value_runs: "safe (record_value rec t body) (\<lambda>_. True)"
  unfolding record_value_def Let_def
  by (intro safe_if safe_then [OF sql_int_runs] safe_then [of "Some r" "\<lambda>_. True" for r]) (auto simp: safe_Some)

lemma sql_record_runs: "safe (sql_record rec) (\<lambda>_. True)"
proof -
  have types: "safe (sql_types rec n i) (\<lambda>_. True)" for n i
  proof (induction rec n i rule: sql_types.induct)
    case (1 rec n i)
    show ?case
      by (subst sql_types.simps) (auto intro!: safe_bind [OF varint_runs] safe_then [OF 1] split: prod.splits)
  qed
  have "safe (sql_values rec ts body) (\<lambda>_. True)" for ts body
    by (induction rec ts body rule: sql_values.induct)
      (auto intro!: safe_bind [OF record_value_runs] safe_then split: prod.splits)
  then show ?thesis
    unfolding sql_record_def Let_def
    by (auto intro!: safe_then [OF varint_runs] safe_then [OF types] split: prod.splits)
qed

definition sql_ok :: "sql_db \<Rightarrow> bool" where
  "sql_ok db \<longleftrightarrow> 480 \<le> sd_usable db"

lemma safe_sql_page: "safe (sql_page db n) (\<lambda>_. True)"
  by (auto simp: sql_page_def Let_def safe_Some split: option.split)

lemma local_size_runs: "480 \<le> u \<Longrightarrow> safe (local_size u p) (\<lambda>_. True)"
proof -
  assume u: "480 \<le> u"
  have "23 \<le> (u - 12) * 32 div 255" using div_le_mono [of "(480 - 12) * 32" "(u - 12) * 32" 255] u by simp
  moreover have "(u - 12) * 32 div 255 \<le> u - 12" by simp
  ultimately show ?thesis using u by (auto simp: local_size_def usize_sub_def Let_def)
qed

lemma payload_rest_runs:
  assumes ok: "sql_ok db"
  shows "safe (payload_rest db p out m seen) (\<lambda>_. True)"
proof (induction "card (- seen)" arbitrary: out m seen rule: less_induct)
  case less
  show ?case
  proof (cases "p \<le> length out \<or> m \<in> seen")
    case True
    then show ?thesis by (auto simp: payload_rest.simps [of db p out m seen])
  next
    case False
    have "safe (payload_rest db p out' m' (insert m seen)) (\<lambda>_. True)" for out' m'
      using False by (intro less.hyps card_unseen) simp
    moreover have "safe (usize_sub p (length out)) (\<lambda>_. True)" "safe (usize_sub (sd_usable db) 4) (\<lambda>_. True)"
      using False ok by (simp_all add: usize_sub_def sql_ok_def)
    ultimately show ?thesis
      using False by (subst payload_rest.simps)
        (auto simp: safe_Some intro!: safe_then [OF safe_sql_page] safe_then [of "usize_sub a b" "\<lambda>_. True" for a b]
          safe_then [of "Some r" "\<lambda>_. True" for r] safe_then [OF safe_sql_reads(2)])
  qed
qed

lemma payload_runs: "sql_ok db \<Longrightarrow> safe (payload db page i p) (\<lambda>_. True)"
  unfolding payload_def
  by (auto simp: sql_ok_def safe_Some intro!: safe_then [OF local_size_runs] safe_then [of "Some r" "\<lambda>_. True" for r]
    safe_then [OF safe_sql_reads(2)] payload_rest_runs)

lemma sql_leaf_runs:
  "sql_ok db \<Longrightarrow> (\<And>i rec s. safe (each i rec s) (\<lambda>_. True)) \<Longrightarrow> safe (sql_leaf db each page ptr s) (\<lambda>_. True)"
  unfolding sql_leaf_def
  by (auto intro!: safe_then [OF varint_runs] safe_then [OF payload_runs] split: prod.split)

lemma sql_walk_runs:
  assumes ok: "sql_ok db" and each: "\<And>i rec s. safe (each i rec s) (\<lambda>_. True)"
  shows "safe (sql_walk db each n depth st) (\<lambda>_. True)"
proof (induction "Suc max_depth - depth" arbitrary: n depth st rule: less_induct)
  case less
  show ?case
  proof (cases "max_depth < depth \<or> n \<in> fst st")
    case True
    then show ?thesis by (auto simp: sql_walk.simps [of db each n depth st])
  next
    case False
    have child: "safe (sql_walk db each m (depth + 1) st') (\<lambda>_. True)" for m st'
      using False by (intro less.hyps) auto
    note leaf = sql_leaf_runs [OF ok each]
    show ?thesis
      using False unfolding sql_walk.simps [of db each n depth st] Let_def
      by (simp, intro safe_then [OF safe_sql_page] safe_then [of "Some r" "\<lambda>_. True" for r] safe_then [OF safe_sql_reads(1)]
          safe_then [OF safe_sql_reads(2)] safe_if safe_then [OF safe_fold [where I = "\<lambda>_ _. True"]] child safe_then [OF leaf] impI conjI)
        (auto simp: safe_Some intro!: safe_then [OF safe_sql_reads(1)] safe_then [OF safe_sql_reads(2)] child safe_then [OF leaf])
  qed
qed

lemma sql_scan_runs:
  "sql_ok db \<Longrightarrow> (\<And>i rec s. safe (each i rec s) (\<lambda>_. True)) \<Longrightarrow> safe (sql_scan db root each s) (\<lambda>_. True)"
  unfolding sql_scan_def by (rule safe_then [OF sql_walk_runs]) auto

lemma table_root_runs: "sql_ok db \<Longrightarrow> safe (table_root db name) (\<lambda>_. True)"
  unfolding table_root_def by (rule sql_scan_runs) (auto simp: table_row_def intro!: safe_then [OF sql_record_runs])

lemma wal_be_runs: "i + 4 \<le> length b \<Longrightarrow> safe (wal_be b i) (\<lambda>_. True)"
  unfolding wal_be_def by (rule safe_then [OF safe_slice]) auto

lemma wal_frame_runs: "length head = 24 \<Longrightarrow> safe (wal_frame big salts head data st) (\<lambda>_. True)"
  unfolding wal_frame_def Let_def
  by (intro safe_then [OF wal_be_runs] safe_if safe_then [OF safe_slice]) auto

lemma wal_loop_runs: "safe (wal_loop big salts page_size wal i st) (\<lambda>_. True)"
proof (induction "Suc (length wal) - i" arbitrary: i st rule: less_induct)
  case less
  show ?case
  proof (cases "length wal < i + (24 + page_size)")
    case True
    then show ?thesis by (simp add: wal_loop.simps [of big salts page_size wal i st])
  next
    case False
    have "safe (wal_loop big salts page_size wal (i + (24 + page_size)) st') (\<lambda>_. True)" for st'
      using False by (intro less.hyps) auto
    then show ?thesis
      using False unfolding wal_loop.simps [of big salts page_size wal i st]
      by (auto intro!: safe_then [OF safe_slice] safe_then [OF wal_frame_runs] split: option.split)
  qed
qed

lemma apply_wal_runs: "safe (apply_wal wal db) (\<lambda>db'. sd_usable db' = sd_usable db)"
proof (cases "length wal < 32")
  case False
  then show ?thesis
    unfolding apply_wal_def Let_def
    by (intro safe_if safe_then [OF wal_be_runs] safe_then [OF safe_slice] safe_then [OF wal_loop_runs]) auto
qed (simp add: apply_wal_def)

lemma sql_open_runs: "safe (sql_open file wal) sql_ok"
proof (cases "length file < 100")
  case False
  have bytes: "safe (byte_at file 20) (\<lambda>_. True)" using False by (simp add: byte_at_def)
  have usable: "safe (Some (ok_or e (if c \<and> 480 \<le> u then Some u else None))) (\<lambda>u. 480 \<le> u)" for c e and u :: nat
    by (simp add: safe_Some result_simps)
  have wal: "safe (apply_wal w \<lparr>sd_file = file, sd_page_size = n, sd_usable = u, sd_pages = k, sd_wal = m\<rparr>) sql_ok"
    if "480 \<le> u" for w n u k m
    by (rule safe_mono [OF apply_wal_runs]) (simp add: sql_ok_def that)
  show ?thesis
    unfolding sql_open_def Let_def if_not_P [OF False]
    by (intro safe_then [OF safe_then [OF safe_slice, of _ _ _ _ "\<lambda>_. True"]] safe_if safe_then [OF safe_slice] safe_then [OF bytes] safe_then [OF usable]
        safe_then [of "sql_page_size n" "\<lambda>_. True" for n])
      (use False in \<open>auto simp: sql_page_size_def safe_Some sql_ok_def wal split: option.split\<close>)
qed (simp add: sql_open_def)

end
