(* ===== verification/Rpm_Db.thy ===== *)
theory Rpm_Db
  imports Rpm_Header Rpm_Ndb Rpm_Bdb Rpm_Sqlite
begin

text \<open>
  The packages of an rpm database, \<^verbatim>\<open>crates/os/src/rpmdb/mod.rs\<close>: the header blobs of one of three
  storage formats, each parsed, and the packages sorted.  Whether a file exists is an argument.
\<close>

section \<open>Definitions\<close>

datatype backend = Sqlite | BerkeleyDb | Ndb

definition detect_backend :: "(string \<Rightarrow> bool) \<Rightarrow> backend option" where
  "detect_backend is_file =
     (if is_file ''rpmdb.sqlite'' then Some Sqlite
      else if is_file ''Packages.db'' then Some Ndb
      else if is_file ''Packages'' then Some BerkeleyDb
      else None)"

primrec backend_file_name :: "backend \<Rightarrow> string" where
  "backend_file_name Sqlite = ''rpmdb.sqlite''"
| "backend_file_name BerkeleyDb = ''Packages''"
| "backend_file_name Ndb = ''Packages.db''"

definition packages_row :: "int \<Rightarrow> byte list \<Rightarrow> byte list list \<Rightarrow> (string, byte list list) run" where
  "packages_row rowid rec out =
     run_bind (sql_record rec) (\<lambda>row. Some
       (case row_get row 1 of
          Some (SqlBlob b) \<Rightarrow> Inr (out @ [b])
        | _ \<Rightarrow> Inl ''a Packages row has no header blob''))"

definition sqlite_blobs :: "byte list \<Rightarrow> byte list option \<Rightarrow> (string, byte list list) run" where
  "sqlite_blobs file wal =
     run_bind (sql_open file wal) (\<lambda>db.
     run_bind (table_root db ''Packages'') (\<lambda>root.
     run_bind (Some (ok_or ''no Packages table'' root)) (\<lambda>root.
     sql_scan db root packages_row [])))"

definition header_step :: "nat \<times> byte list \<Rightarrow> rpm_package list \<Rightarrow> (string, rpm_package list) run" where
  "header_step p out =
     (case p of (i, blob) \<Rightarrow>
        run_bind (run_map_err (\<lambda>e. ''package '' @ show_nat i @ '': '' @ e) (header_parse blob))
          (\<lambda>r. Some (Inr (case r of None \<Rightarrow> out | Some pkg \<Rightarrow> out @ [pkg]))))"

definition rpm_blobs :: "backend \<Rightarrow> byte list \<Rightarrow> byte list option \<Rightarrow> (string, byte list list) run" where
  "rpm_blobs backend file wal =
     (case backend of Sqlite \<Rightarrow> sqlite_blobs file wal | BerkeleyDb \<Rightarrow> bdb_blobs file | Ndb \<Rightarrow> ndb_blobs file)"

definition rpm_read :: "backend \<Rightarrow> byte list \<Rightarrow> byte list option \<Rightarrow> (string, rpm_package list) run" where
  "rpm_read backend file wal =
     run_bind (rpm_blobs backend file wal) (\<lambda>blobs.
     run_bind (run_fold header_step (zip [0..<length blobs] blobs) [])
       (\<lambda>out. Some (Inr (sort_by rpm_package_cmp out))))"

section \<open>No panic\<close>

lemma be_runs: "safe (be b i) (\<lambda>_. True)"
  by (simp add: be_def safe_Some)

lemma nul_position_Some: "nul_position rest = Some k \<Longrightarrow> k < length rest"
  by (simp add: nul_position_def Let_def split: if_splits)

lemma entry_string_runs: "offset \<le> length data \<Longrightarrow> safe (entry_string tag kind offset n data) (\<lambda>_. True)"
  unfolding entry_string_def
  by (intro safe_if safe_then [OF safe_slice] safe_then [of "Some (ok_or e (nul_position r))" "\<lambda>k. k < length r" for e r])
    (auto simp: safe_Some result_simps dest: nul_position_Some)

lemma string_array_runs: "safe (string_array tag n rest) (\<lambda>_. True)"
proof (induction n arbitrary: rest)
  case (Suc n)
  show ?case
    unfolding string_array.simps
    by (intro safe_then [of "Some (ok_or e (nul_position r))" "\<lambda>k. k < length r" for e r] safe_then [OF safe_slice] safe_then [OF Suc])
      (auto simp: safe_Some result_simps dest: nul_position_Some)
qed simp

lemma header_field_runs:
  assumes "offset \<le> length data"
  shows "safe (header_field tag kind offset n data st) (\<lambda>_. True)"
proof -
  have texts: "safe (entry_strings tag kind offset n data) (\<lambda>_. True)"
    unfolding entry_strings_def using assms by (intro safe_if safe_then [OF safe_slice] string_array_runs) auto
  have epoch: "safe (entry_epoch kind offset n data) (\<lambda>_. True)"
    by (simp add: entry_epoch_def safe_Some)
  have dirs: "safe (entry_dirindexes kind offset n data) (\<lambda>_. True)"
    unfolding entry_dirindexes_def by (intro safe_if safe_then [of "Some r" "\<lambda>_. True" for r]) (auto simp: safe_Some)
  show ?thesis
    unfolding header_field_def Let_def
    by (intro safe_if safe_then [OF entry_string_runs [OF assms]] safe_then [OF texts] safe_then [OF epoch] safe_then [OF dirs]) auto
qed

lemma header_parse_runs: "safe (header_parse blob) (\<lambda>_. True)"
proof -
  have entry: "safe (header_entry blob data i st) (\<lambda>_. True)" for data i st
    unfolding header_entry_def Let_def
    by (intro safe_then [OF be_runs] safe_if header_field_runs) auto
  have files: "safe (header_files st) (\<lambda>_. True)" for st
  proof -
    have "safe (run_map (file_path ds) ps) (\<lambda>_. True)" for ds ps
    proof (induction ps)
      case (Cons p ps)
      have "safe (file_path ds p) (\<lambda>_. True)" by (cases p) (simp add: file_path_def)
      then show ?case using Cons by (auto intro!: safe_then)
    qed simp
    then show ?thesis unfolding header_files_def by (auto intro!: safe_then)
  qed
  show ?thesis
    unfolding header_parse_def Let_def
    by (intro safe_then [OF be_runs] safe_if safe_then [of "Some r" "\<lambda>_. True" for r] safe_then [OF files]
        safe_then [OF safe_fold [where I = "\<lambda>_ _. True"]])
      (auto simp: safe_Some entry)
qed

lemma sqlite_blobs_runs: "safe (sqlite_blobs file wal) (\<lambda>_. True)"
proof -
  have "safe (packages_row i rec s) (\<lambda>_. True)" for i rec s
    unfolding packages_row_def by (rule safe_then [OF sql_record_runs]) (simp add: safe_Some)
  then show ?thesis
    unfolding sqlite_blobs_def
    by (intro safe_then [OF sql_open_runs] safe_then [OF table_root_runs] safe_then [of "Some r" "\<lambda>_. True" for r] sql_scan_runs)
      (auto simp: safe_Some)
qed

lemma rpm_blobs_runs: "safe (rpm_blobs backend file wal) (\<lambda>_. True)"
proof -
  obtain r where "ndb_blobs file = Some r" using ndb_exact [of "file"] by blast
  then show ?thesis
    using sqlite_blobs_runs [of "file" wal] bdb_blobs_runs [of "file"] by (simp add: rpm_blobs_def safe_Some split: backend.split)
qed

interpretation rpm: rust_ord rpm_package_cmp
  unfolding rpm_package_cmp_def by (intro ord_intros)

end
