(* ===== verification/Rpm_Db_Props.thy ===== *)
theory Rpm_Db_Props
  imports Rpm_Db
begin

text \<open>
  Writing and reading back: a writer of package headers and of NDB files in the documented layout,
  and the theorems that the reader gives back what was written, never panics, and never returns a
  short list.
\<close>

section \<open>Writing a header\<close>

text \<open>An entry of the index: tag, type, count and its data.\<close>

type_synonym entry = "nat \<times> nat \<times> nat \<times> byte list"

fun header_index :: "nat \<Rightarrow> entry list \<Rightarrow> byte list list" where
  "header_index off [] = []"
| "header_index off ((tag, kind, n, d) # es) = (to_be 4 tag @ to_be 4 kind @ to_be 4 off @ to_be 4 n) # header_index (off + length d) es"

definition header_data :: "entry list \<Rightarrow> byte list" where
  "header_data es = concat (map (\<lambda>(tag, kind, n, d). d) es)"

definition header_encode :: "entry list \<Rightarrow> byte list" where
  "header_encode es =
     to_be 4 (length es) @ to_be 4 (length (header_data es)) @ concat (header_index 0 es) @ header_data es"

definition text_field :: "string \<Rightarrow> byte list" where
  "text_field s = bytes_of s @ [0]"

definition text_entry :: "nat \<Rightarrow> string \<Rightarrow> entry" where
  "text_entry tag s = (tag, 6, 1, text_field s)"

definition opt_entry :: "nat \<Rightarrow> string option \<Rightarrow> entry list" where
  "opt_entry tag x = (case x of None \<Rightarrow> [] | Some s \<Rightarrow> [text_entry tag s])"

text \<open>A file is stored as a base name and the index of its directory.\<close>

definition package_entries :: "rpm_package \<Rightarrow> (string \<times> string) list \<Rightarrow> entry list" where
  "package_entries p paths =
     [text_entry 1000 (rp_name p), text_entry 1001 (rp_version p), text_entry 1002 (rp_release p)] @
     (case rp_epoch p of None \<Rightarrow> [] | Some e \<Rightarrow> [(1003, 4, 1, to_be 4 (unat e))]) @
     opt_entry 1022 (rp_arch p) @ opt_entry 1044 (rp_source_rpm p) @ opt_entry 5096 (rp_modularity_label p) @
     [(1116, 4, length paths, concat (map (to_be 4) [0..<length paths])),
      (1117, 8, length paths, concat (map (\<lambda>(dir, base). text_field base) paths)),
      (1118, 8, length paths, concat (map (\<lambda>(dir, base). text_field dir) paths))]"

definition stored :: "rpm_package \<Rightarrow> (string \<times> string) list \<Rightarrow> rpm_package" where
  "stored p paths = p\<lparr>rp_files := map (\<lambda>(dir, base). dir @ base) paths\<rparr>"

definition package_header :: "rpm_package \<times> (string \<times> string) list \<Rightarrow> byte list" where
  "package_header = (\<lambda>(p, paths). header_encode (package_entries p paths))"

text \<open>Texts a header can hold.\<close>

definition storable :: "string \<Rightarrow> bool" where
  "storable s \<longleftrightarrow> valid_utf8 s \<and> CHR 0x00 \<notin> set s"

definition opt_storable :: "string option \<Rightarrow> bool" where
  "opt_storable x = (case x of None \<Rightarrow> True | Some s \<Rightarrow> storable s)"

definition package_ok :: "rpm_package \<times> (string \<times> string) list \<Rightarrow> bool" where
  "package_ok = (\<lambda>(p, paths).
     storable (rp_name p) \<and> storable (rp_version p) \<and> storable (rp_release p) \<and>
     opt_storable (rp_arch p) \<and> opt_storable (rp_source_rpm p) \<and> opt_storable (rp_modularity_label p) \<and>
     list_all (\<lambda>(dir, base). storable dir \<and> storable base) paths \<and>
     length (package_header (p, paths)) < 2 ^ 31)"

section \<open>Reading entries back\<close>

lemma nul_position_text:
  assumes "CHR 0x00 \<notin> set s"
  shows "nul_position (bytes_of s @ 0 # rest) = Some (length s)"
proof -
  have "of_nat (of_char c) \<noteq> (0 :: byte)" if "c \<in> set s" for c
  proof
    assume "of_nat (of_char c) = (0 :: byte)"
    then have "unat (of_nat (of_char c) :: byte) = 0" by simp
    then have "(of_char c :: nat) = of_char (CHR 0x00)" by (simp add: unat_byte)
    then have "c = CHR 0x00" by (rule of_char_eqI)
    then show False using that assms by simp
  qed
  then have "takeWhile (\<lambda>b. b \<noteq> 0) (bytes_of s @ 0 # rest) = bytes_of s"
    by (subst takeWhile_append2) (auto simp: bytes_of_def)
  then show ?thesis by (simp add: nul_position_def Let_def)
qed

lemma entry_string_text:
  assumes "storable s" "kind = 6"
  shows "entry_string tag kind (length pre) (Suc k) (pre @ text_field s @ post) = Some (Inr s)"
  using assms
  by (simp add: entry_string_def type_string_def slice_run text_field_def nul_position_text storable_def lossy_valid)

lemma string_array_texts:
  "list_all storable ss \<Longrightarrow> string_array tag (length ss) (concat (map text_field ss) @ post) = Some (Inr ss)"
proof (induction ss)
  case (Cons s ss)
  then show ?case
    by (simp add: text_field_def nul_position_text storable_def slice_run lossy_valid)
qed simp

lemma groups_of_4_to_be: "groups_of_4 (concat (map (to_be 4) ns)) = map (to_be 4) ns"
proof (induction ns)
  case (Cons n ns)
  have "length (to_be 4 n) = Suc (Suc (Suc (Suc 0)))" by simp
  then obtain a b c d where "to_be 4 n = [a, b, c, d]" unfolding length_Suc_conv by auto
  then show ?case using Cons by simp
qed simp

lemma header_index_chunks: "c \<in> set (header_index off es) \<Longrightarrow> length c = 16"
  by (induction off es rule: header_index.induct) auto

lemma length_header_index [simp]: "length (header_index off es) = length es"
  by (induction off es rule: header_index.induct) auto

lemma header_data_simps [simp]: "header_data [] = []" "header_data ((tag, kind, n, d) # es) = d @ header_data es"
  by (simp_all add: header_data_def)

lemma header_index_nth:
  "i < length es \<Longrightarrow> es ! i = (tag, kind, n, d) \<Longrightarrow>
     header_index off es ! i = to_be 4 tag @ to_be 4 kind @ to_be 4 (off + length (header_data (take i es))) @ to_be 4 n"
proof (induction off es arbitrary: i rule: header_index.induct)
  case (2 off tag' kind' n' d' es)
  then show ?case by (cases i) (simp_all add: add.assoc)
qed simp

lemma length_header_encode: "length (header_encode es) = 8 + 16 * length es + length (header_data es)"
  by (simp add: header_encode_def length_chunks [OF header_index_chunks])

lemma be_at:
  assumes "drop e b = pre @ to_be 4 m @ post" "m < 2 ^ 32" "k = e + length pre"
  shows "be b k = Some (Inr (of_nat m))"
proof -
  have d: "drop k b = to_be 4 m @ post"
    unfolding assms(3) using drop_drop [of "length pre" e b] by (simp add: assms(1) add.commute)
  from arg_cong [OF d, of length] have "k + 4 \<le> length b" by simp
  then show ?thesis by (simp add: be_def get_range_def d from_be_to_be [OF assms(2)])
qed

lemma header_entry_run:
  assumes i: "i < length es" "es ! i = (tag, kind, n, d)" and small: "length (header_encode es) < 2 ^ 31"
    and fit: "tag < 2 ^ 31" "kind < 2 ^ 32" "n < 2 ^ 32"
  shows "header_entry (header_encode es) (header_data es) i st =
    header_field (int tag) (of_nat kind) (length (header_data (take i es))) n (header_data es) st"
proof -
  let ?off = "length (header_data (take i es))" and ?blob = "header_encode es"
  have "header_data es = header_data (take i es) @ header_data (drop i es)"
    unfolding header_data_def by (simp flip: concat_append map_append)
  then have off: "?off \<le> length (header_data es)" by (metis le_add1 length_append)
  then have off31: "?off < 2 ^ 31" using small length_header_encode [of es] by simp
  obtain post where blob: "drop (8 + i * 16) ?blob = to_be 4 tag @ to_be 4 kind @ to_be 4 ?off @ to_be 4 n @ post"
    using drop_chunks [of "header_index 0 es" 16 i "header_data es"] i header_index_chunks [of _ 0 es] header_index_nth [OF i, of 0]
    by (simp add: header_encode_def mult.commute)
  have len: "8 + i * 16 + 16 \<le> length ?blob" using i by (simp add: length_header_encode)
  have "be ?blob (8 + i * 16) = Some (Inr (of_nat tag))"
    by (rule be_at [where pre = "[]"]) (use blob fit in simp_all)
  moreover have "be ?blob (8 + i * 16 + 4) = Some (Inr (of_nat kind))"
    by (rule be_at [where pre = "to_be 4 tag"]) (use blob fit in simp_all)
  moreover have "be ?blob (8 + i * 16 + 8) = Some (Inr (of_nat ?off))"
    by (rule be_at [where pre = "to_be 4 tag @ to_be 4 kind"]) (use blob off31 in simp_all)
  moreover have "be ?blob (8 + i * 16 + 12) = Some (Inr (of_nat n))"
    by (rule be_at [where pre = "to_be 4 tag @ to_be 4 kind @ to_be 4 ?off"]) (use blob fit in simp_all)
  ultimately have reads: "be ?blob (8 + i * 16) = Some (Inr (of_nat tag))" "be ?blob (8 + i * 16 + 4) = Some (Inr (of_nat kind))"
    "be ?blob (8 + i * 16 + 8) = Some (Inr (of_nat ?off))" "be ?blob (8 + i * 16 + 12) = Some (Inr (of_nat n))" .
  show ?thesis
    unfolding header_entry_def Let_def reads run_bind_simps sint_of_nat_32 [OF fit(1)] sint_of_nat_32 [OF off31]
    using off fit(3) by (simp add: unat_of_nat)
qed

text \<open>What an entry does to the state of the parser, wherever its data lies.\<close>

definition field_does :: "entry \<Rightarrow> (header_state \<Rightarrow> header_state) \<Rightarrow> bool" where
  "field_does e u \<longleftrightarrow> (case e of (tag, kind, n, d) \<Rightarrow>
     tag < 2 ^ 31 \<and> kind < 2 ^ 32 \<and> n < 2 ^ 32 \<and>
     (\<forall>pre post st. length pre < 2 ^ 31 \<longrightarrow> header_field (int tag) (of_nat kind) (length pre) n (pre @ d @ post) st = Some (Inr (u st))))"

lemma header_entries_run:
  assumes small: "length (header_encode es) < 2 ^ 31" and does: "list_all2 field_does es us"
  shows "run_fold (header_entry (header_encode es) (header_data es)) [0..<length es] st = Some (Inr (fold (\<lambda>u. u) us st))"
proof -
  have len: "length us = length es" using list_all2_lengthD [OF does] by simp
  have "j \<le> length es \<Longrightarrow>
      run_fold (header_entry (header_encode es) (header_data es)) [0..<j] st = Some (Inr (fold (\<lambda>u. u) (take j us) st))" for j
  proof (induction j)
    case (Suc j)
    then have j: "j < length es" by simp
    obtain tag kind n d where e: "es ! j = (tag, kind, n, d)" by (cases "es ! j")
    have u: "field_does (es ! j) (us ! j)" using does j by (simp add: list_all2_conv_all_nth)
    have data: "header_data es = header_data (take j es) @ d @ header_data (drop (Suc j) es)"
      using arg_cong [OF id_take_nth_drop [OF j], of header_data] by (simp add: header_data_def e)
    have "length (header_data (take j es)) < 2 ^ 31"
      using small arg_cong [OF data, of length] length_header_encode [of es] by simp
    then have "header_entry (header_encode es) (header_data es) j st' = Some (Inr ((us ! j) st'))" for st'
      using u unfolding e field_does_def prod.case
      by (subst header_entry_run [OF j e small]) (auto simp: data)
    then show ?case
      using Suc j len by (simp add: run_fold_append take_Suc_conv_app_nth)
  qed simp
  from this [of "length es"] show ?thesis using len by simp
qed

lemma field_does_text:
  assumes s: "storable s" and tag: "tag \<in> {1000, 1001, 1002, 1022, 1044, 5096}"
  shows "field_does (text_entry tag s) (\<lambda>st.
    if tag = 1000 then st\<lparr>hs_pkg := (hs_pkg st)\<lparr>rp_name := s\<rparr>, hs_named := True\<rparr>
    else if tag = 1001 then st\<lparr>hs_pkg := (hs_pkg st)\<lparr>rp_version := s\<rparr>\<rparr>
    else if tag = 1002 then st\<lparr>hs_pkg := (hs_pkg st)\<lparr>rp_release := s\<rparr>\<rparr>
    else if tag = 1022 then st\<lparr>hs_pkg := (hs_pkg st)\<lparr>rp_arch := Some s\<rparr>\<rparr>
    else if tag = 1044 then st\<lparr>hs_pkg := (hs_pkg st)\<lparr>rp_source_rpm := Some s\<rparr>\<rparr>
    else st\<lparr>hs_pkg := (hs_pkg st)\<lparr>rp_modularity_label := Some s\<rparr>\<rparr>)"
proof -
  have "entry_string t 6 (length pre) 1 (pre @ text_field s @ post) = Some (Inr s)" for t pre post
    using entry_string_text [OF s, of 6 t pre 0 post] by simp
  then show ?thesis
    using tag by (auto simp: field_does_def text_entry_def header_field_def Let_def tag_name_def tag_version_def tag_release_def
      tag_arch_def tag_sourcerpm_def tag_modularitylabel_def)
qed

lemma field_does_epoch:
  "field_does (1003, 4, 1, to_be 4 (unat e)) (\<lambda>st. st\<lparr>hs_pkg := (hs_pkg st)\<lparr>rp_epoch := Some e\<rparr>\<rparr>)"
proof -
  have "entry_epoch 4 (length pre) 1 (pre @ to_be 4 (unat e) @ post) = Some (Inr e)" for pre post
    by (simp add: entry_epoch_def type_int32_def get_range_def from_be_to_be [OF unat32_bound])
  then show ?thesis
    by (simp add: field_does_def header_field_def Let_def tag_name_def tag_version_def tag_release_def tag_epoch_def
      tag_arch_def tag_sourcerpm_def tag_modularitylabel_def)
qed

lemma field_does_dirindexes:
  assumes fit: "4 * n < 2 ^ 31"
  shows "field_does (1116, 4, n, concat (map (to_be 4) [0..<n])) (\<lambda>st. st\<lparr>hs_dir_indexes := [0..<n]\<rparr>)"
proof -
  have len: "length (concat (map (to_be 4) ns)) = 4 * length ns" for ns by (induction ns) simp_all
  have "unat (from_be (to_be 4 i) :: 32 word) = i" if "i < n" for i
    using that fit by (simp add: from_be_to_be unat_of_nat)
  then have "map (\<lambda>c. unat (from_be c :: 32 word)) (map (to_be 4) [0..<n]) = [0..<n]" by (intro nth_equalityI) simp_all
  then have "entry_dirindexes 4 (length pre) n (pre @ concat (map (to_be 4) [0..<n]) @ post) = Some (Inr [0..<n])"
    if "length pre < 2 ^ 31" for pre post
    using that fit by (simp add: entry_dirindexes_def type_int32_def checked_mul_def checked_add_def get_range_def len groups_of_4_to_be)
  then show ?thesis
    using fit by (simp add: field_does_def header_field_def Let_def tag_name_def tag_version_def tag_release_def tag_epoch_def
      tag_arch_def tag_sourcerpm_def tag_modularitylabel_def tag_oldfilenames_def tag_basenames_def tag_dirnames_def tag_dirindexes_def)
qed

lemma field_does_texts:
  assumes "list_all storable ss" and "length ss < 2 ^ 31"
  shows "field_does (1117, 8, length ss, concat (map text_field ss)) (\<lambda>st. st\<lparr>hs_basenames := ss\<rparr>)"
    "field_does (1118, 8, length ss, concat (map text_field ss)) (\<lambda>st. st\<lparr>hs_dirnames := ss\<rparr>)"
proof -
  have "entry_strings t 8 (length pre) (length ss) (pre @ concat (map text_field ss) @ post) = Some (Inr ss)" for t pre post
    by (simp add: entry_strings_def type_string_array_def slice_run string_array_texts [OF assms(1)])
  then show "field_does (1117, 8, length ss, concat (map text_field ss)) (\<lambda>st. st\<lparr>hs_basenames := ss\<rparr>)"
    "field_does (1118, 8, length ss, concat (map text_field ss)) (\<lambda>st. st\<lparr>hs_dirnames := ss\<rparr>)"
    using assms(2) by (simp_all add: field_does_def header_field_def Let_def tag_name_def tag_version_def tag_release_def tag_epoch_def
      tag_arch_def tag_sourcerpm_def tag_modularitylabel_def tag_oldfilenames_def tag_basenames_def tag_dirnames_def)
qed

text \<open>A header that was written reads back as the package it was written for.\<close>

lemma header_parse_encode:
  assumes ok: "package_ok (p, paths)"
  shows "header_parse (package_header (p, paths)) = Some (Inr (Some (stored p paths)))"
proof -
  let ?es = "package_entries p paths" and ?dirs = "map fst paths" and ?bases = "map snd paths"
  have small: "length (header_encode ?es) < 2 ^ 31" and texts: "storable (rp_name p)" "storable (rp_version p)" "storable (rp_release p)"
    "opt_storable (rp_arch p)" "opt_storable (rp_source_rpm p)" "opt_storable (rp_modularity_label p)"
    "list_all storable ?dirs" "list_all storable ?bases"
    using ok by (auto simp: package_ok_def package_header_def list_all_iff)
  have len4: "length (concat (map (to_be 4) ns)) = 4 * length ns" for ns by (induction ns) simp_all
  have n: "4 * length paths < 2 ^ 31"
    using small unfolding length_header_encode by (simp add: package_entries_def header_data_def len4)
  have names: "concat (map (\<lambda>(dir, base). text_field base) paths) = concat (map text_field ?bases)"
    "concat (map (\<lambda>(dir, base). text_field dir) paths) = concat (map text_field ?dirs)"
    by (simp_all add: comp_def split_def)
  define us :: "(header_state \<Rightarrow> header_state) list" where "us = [\<lambda>st. st\<lparr>hs_pkg := (hs_pkg st)\<lparr>rp_name := rp_name p\<rparr>, hs_named := True\<rparr>,
      \<lambda>st. st\<lparr>hs_pkg := (hs_pkg st)\<lparr>rp_version := rp_version p\<rparr>\<rparr>, \<lambda>st. st\<lparr>hs_pkg := (hs_pkg st)\<lparr>rp_release := rp_release p\<rparr>\<rparr>] @
    (case rp_epoch p of None \<Rightarrow> [] | Some e \<Rightarrow> [\<lambda>st. st\<lparr>hs_pkg := (hs_pkg st)\<lparr>rp_epoch := Some e\<rparr>\<rparr>]) @
    (case rp_arch p of None \<Rightarrow> [] | Some s \<Rightarrow> [\<lambda>st. st\<lparr>hs_pkg := (hs_pkg st)\<lparr>rp_arch := Some s\<rparr>\<rparr>]) @
    (case rp_source_rpm p of None \<Rightarrow> [] | Some s \<Rightarrow> [\<lambda>st. st\<lparr>hs_pkg := (hs_pkg st)\<lparr>rp_source_rpm := Some s\<rparr>\<rparr>]) @
    (case rp_modularity_label p of None \<Rightarrow> [] | Some s \<Rightarrow> [\<lambda>st. st\<lparr>hs_pkg := (hs_pkg st)\<lparr>rp_modularity_label := Some s\<rparr>\<rparr>]) @
    [\<lambda>st. st\<lparr>hs_dir_indexes := [0..<length paths]\<rparr>, \<lambda>st. st\<lparr>hs_basenames := ?bases\<rparr>, \<lambda>st. st\<lparr>hs_dirnames := ?dirs\<rparr>]"
  note text_does = field_does_text [where tag = 1000, simplified] field_does_text [where tag = 1001, simplified]
    field_does_text [where tag = 1002, simplified] field_does_text [where tag = 1022, simplified]
    field_does_text [where tag = 1044, simplified] field_does_text [where tag = 5096, simplified]
  have files: "length ?bases < 2 ^ 31" "length ?dirs < 2 ^ 31" using n by simp_all
  have does: "list_all2 field_does ?es us"
    unfolding package_entries_def us_def opt_entry_def names
  proof (intro list_all2_appendI)
    show "list_all2 field_does (case rp_epoch p of None \<Rightarrow> [] | Some e \<Rightarrow> [(1003, 4, 1, to_be 4 (unat e))])
        (case rp_epoch p of None \<Rightarrow> [] | Some e \<Rightarrow> [\<lambda>st. st\<lparr>hs_pkg := (hs_pkg st)\<lparr>rp_epoch := Some e\<rparr>\<rparr>])"
      by (simp add: field_does_epoch [unfolded One_nat_def] split: option.split)
  qed (use texts text_does n field_does_dirindexes [OF n] field_does_texts(1) [OF texts(8) files(1)] field_does_texts(2) [OF texts(7) files(2)]
    in \<open>simp_all add: opt_storable_def split: option.splits\<close>)
  let ?st = "\<lparr>hs_pkg = empty_package, hs_named = False, hs_dir_indexes = [], hs_basenames = [], hs_dirnames = []\<rparr>"
  let ?final = "\<lparr>hs_pkg = p\<lparr>rp_files := []\<rparr>, hs_named = True, hs_dir_indexes = [0..<length paths], hs_basenames = ?bases, hs_dirnames = ?dirs\<rparr>"
  have last: "fold (\<lambda>u. u) us ?st = ?final"
    by (cases p) (simp add: us_def empty_package_def split: option.split)
  have files: "header_files ?final = Some (Inr (stored p paths))"
  proof (cases "paths = []")
    case False
    have "run_map (file_path ?dirs) (zip ?bases [0..<length paths]) =
        Some (Inr (map (\<lambda>(base, i). ?dirs ! i @ base) (zip ?bases [0..<length paths])))"
      by (rule run_map_Inr) (auto simp: file_path_def in_set_zip)
    moreover have "map (\<lambda>(base, i). ?dirs ! i @ base) (zip ?bases [0..<length paths]) = map (\<lambda>(dir, base). dir @ base) paths"
      by (rule nth_equalityI) (auto simp: split_def)
    ultimately show ?thesis using False by (simp add: header_files_def stored_def)
  qed (simp add: header_files_def stored_def)
  have il: "length ?es < 2 ^ 32" "0 < length ?es" "length ?es \<le> max_entries"
    by (simp_all add: package_entries_def opt_entry_def max_entries_def split: option.split)
  have dl: "length (header_data ?es) < 2 ^ 32" using small by (simp add: length_header_encode)
  have reads: "be (header_encode ?es) 0 = Some (Inr (of_nat (length ?es)))"
    "be (header_encode ?es) 4 = Some (Inr (of_nat (length (header_data ?es))))"
    by (rule be_at [where e = 0 and pre = "[]"], use il in \<open>simp_all add: header_encode_def\<close>)
      (rule be_at [where e = 0 and pre = "to_be 4 (length ?es)"], use dl in \<open>simp_all add: header_encode_def\<close>)
  have data: "get_range (header_encode ?es) (8 + length ?es * 16) (8 + length ?es * 16 + length (header_data ?es)) = Some (header_data ?es)"
    by (simp add: header_encode_def get_range_def length_chunks [OF header_index_chunks])
  show ?thesis
    unfolding package_header_def prod.case header_parse_def reads run_bind_simps Let_def
    using il dl by (simp add: unat_of_nat data header_entries_run [OF small does] last files)
qed

section \<open>Writing a file\<close>

text \<open>An NDB file of \<open>k\<close> slot pages, with the blobs in order after them.\<close>

definition blob_blocks :: "byte list \<Rightarrow> nat" where
  "blob_blocks d = (28 + length d + 15) div 16"

definition blob_bytes :: "32 word \<Rightarrow> byte list \<Rightarrow> byte list" where
  "blob_bytes pkg d = blob_layout pkg (to_le 4 0) (replicate (16 * blob_blocks d - 28 - length d) 0) d"

fun ndb_index :: "nat \<Rightarrow> (32 word \<times> byte list) list \<Rightarrow> (32 word \<times> nat \<times> nat) list" where
  "ndb_index off [] = []"
| "ndb_index off ((pkg, d) # ps) = (pkg, off, blob_blocks d) # ndb_index (off + blob_blocks d) ps"

definition slot_bytes :: "32 word \<times> nat \<times> nat \<Rightarrow> byte list" where
  "slot_bytes s = (case s of (pkg, off, n) \<Rightarrow> slot_magic @ to_le 4 (unat pkg) @ to_le 4 off @ to_le 4 n)"

definition ndb_slots :: "nat \<Rightarrow> (32 word \<times> byte list) list \<Rightarrow> (32 word \<times> nat \<times> nat) list" where
  "ndb_slots k ps = ndb_index (256 * k) ps @ replicate (256 * k - 2 - length ps) (0, 0, 0)"

definition blob_area :: "(32 word \<times> byte list) list \<Rightarrow> byte list" where
  "blob_area ps = concat (map (\<lambda>(pkg, d). blob_bytes pkg d) ps)"

definition ndb_file :: "nat \<Rightarrow> (32 word \<times> byte list) list \<Rightarrow> byte list" where
  "ndb_file k ps =
     db_magic @ to_le 4 0 @ to_le 4 0 @ to_le 4 k @ replicate 16 0 @ concat (map slot_bytes (ndb_slots k ps)) @ blob_area ps"

definition ndb_ok :: "nat \<Rightarrow> (32 word \<times> byte list) list \<Rightarrow> bool" where
  "ndb_ok k ps \<longleftrightarrow> 1 \<le> k \<and> length ps \<le> 256 * k - 2 \<and> distinct (map fst ps) \<and> 0 \<notin> set (map fst ps) \<and> length (ndb_file k ps) < 2 ^ 32"

lemma blob_blocks_bound: "28 + length d \<le> 16 * blob_blocks d"
  unfolding blob_blocks_def by linarith

lemma length_blob_bytes [simp]: "length (blob_bytes pkg d) = 16 * blob_blocks d"
  using blob_blocks_bound [of d] by (simp add: blob_bytes_def blob_layout_def blob_body_def Let_def)

lemma length_slot_bytes [simp]: "length (slot_bytes s) = 16"
  by (cases s) (simp add: slot_bytes_def)

lemma length_ndb_index [simp]: "length (ndb_index off ps) = length ps"
  by (induction off ps rule: ndb_index.induct) simp_all

lemma ndb_index_bounds:
  "(pkg, i, n) \<in> set (ndb_index off ps) \<Longrightarrow> 16 * (i + n) \<le> 16 * off + length (blob_area ps)"
  by (induction off ps rule: ndb_index.induct) (auto simp: blob_area_def)

lemma map_fst_ndb_index: "map fst (ndb_index off ps) = map fst ps"
  by (induction off ps rule: ndb_index.induct) simp_all

lemma ndb_index_holds:
  assumes "length pre = 16 * off" "length pre + length (blob_area ps) < 2 ^ 32"
  shows "list_all2 (\<lambda>(pkg, off, n) d. holds_blob (pre @ blob_area ps) pkg off n d) (ndb_index off ps) (map snd ps)"
  using assms
proof (induction ps arbitrary: pre off)
  case (Cons p ps)
  obtain pkg d where p: "p = (pkg, d)" by (cases p)
  have area: "blob_area (p # ps) = blob_bytes pkg d @ blob_area ps" by (simp add: blob_area_def p)
  have "holds_blob (pre @ blob_area (p # ps)) pkg off (blob_blocks d) d"
  proof -
    have "length d < 2 ^ 32" using Cons.prems(2) blob_blocks_bound [of d] unfolding area by simp
    moreover have "take (16 * blob_blocks d) (drop (16 * off) (pre @ blob_area (p # ps))) = blob_bytes pkg d"
      using Cons.prems(1) unfolding area by simp
    moreover have "16 * (off + blob_blocks d) \<le> length (pre @ blob_area (p # ps))"
      using Cons.prems(1) unfolding area by simp
    moreover have "length (to_le 4 0) = 4" by simp
    ultimately show ?thesis unfolding holds_blob_def blob_bytes_def by blast
  qed
  moreover have "list_all2 (\<lambda>(q, i, n) x. holds_blob ((pre @ blob_bytes pkg d) @ blob_area ps) q i n x)
      (ndb_index (off + blob_blocks d) ps) (map snd ps)"
  proof (rule Cons.IH)
    show "length (pre @ blob_bytes pkg d) = 16 * (off + blob_blocks d)" using Cons.prems(1) by simp
    show "length (pre @ blob_bytes pkg d) + length (blob_area ps) < 2 ^ 32" using Cons.prems(2) unfolding area by simp
  qed
  ultimately show ?case by (simp add: area [unfolded p] p)
qed simp

lemma slot_of_bytes:
  assumes "drop i b = slot_bytes (pkg, off, n) @ rest" "off < 2 ^ 32" "n < 2 ^ 32"
  shows "take 4 (drop i b) = slot_magic" "slot_of b i = (pkg, off, n)"
proof -
  have "drop (i + j) b = drop j (slot_bytes (pkg, off, n) @ rest)" for j
    using drop_drop [of j i b] assms(1) by (simp add: add.commute)
  note d = this [of 4] this [of 8] this [of 12]
  show "slot_of b i = (pkg, off, n)"
    using assms(2,3) by (simp add: slot_of_def d slot_bytes_def le_val_to_le from_le_eq)
  show "take 4 (drop i b) = slot_magic" by (simp add: assms(1) slot_bytes_def)
qed

lemma length_slot_starts: "1 \<le> k \<Longrightarrow> length (slot_starts (4096 * k)) = 256 * k - 2"
proof -
  assume "1 \<le> k"
  then have "4096 * k - 32 + 16 - 1 = 15 + (256 * k - 2) * 16" by simp
  then show ?thesis unfolding slot_starts_def by (simp only: length_map length_upt div_mult_self3)
qed

lemma length_ndb_file:
  assumes "1 \<le> k" "length ps \<le> 256 * k - 2"
  shows "length (ndb_file k ps) = 4096 * k + 16 * sum_list (map (\<lambda>(pkg, d). blob_blocks d) ps)"
proof -
  have "length (blob_area ps) = 16 * sum_list (map (\<lambda>(pkg, d). blob_blocks d) ps)"
    by (induction ps) (auto simp: blob_area_def)
  moreover have "length (concat (map slot_bytes (ndb_slots k ps))) = 16 * (256 * k - 2)"
    using assms by (subst length_chunks [of _ 16]) (auto simp: ndb_slots_def)
  ultimately show ?thesis using assms by (simp add: ndb_file_def)
qed

lemma ndb_file_stores:
  assumes ok: "ndb_ok k ps"
  shows "ndb_stores (ndb_file k ps) (map snd ps)"
proof -
  let ?b = "ndb_file k ps" and ?slots = "ndb_slots k ps"
  have k: "1 \<le> k" "length ps \<le> 256 * k - 2" "length ?b < 2 ^ 32" "distinct (map fst ps)" "0 \<notin> set (map fst ps)"
    using ok by (simp_all add: ndb_ok_def)
  have n: "length ?slots = 256 * k - 2" using k by (simp add: ndb_slots_def)
  have len: "length (concat (map slot_bytes ?slots)) = 16 * (256 * k - 2)"
    using n by (subst length_chunks [of _ 16]) auto
  have head: "length (db_magic @ to_le 4 0 @ to_le 4 0 @ to_le 4 k @ replicate 16 0 @ concat (map slot_bytes ?slots)) = 4096 * k"
    using k len by simp
  have pages: "le_val (take 4 (drop 12 ?b)) = k"
    using k len by (simp add: ndb_file_def le_val_to_le)
  have slot: "take 4 (drop (32 + 16 * j) ?b) = slot_magic \<and> slot_of ?b (32 + 16 * j) = ?slots ! j" if j: "j < 256 * k - 2" for j
  proof -
    obtain pkg off m where s: "?slots ! j = (pkg, off, m)" by (cases "?slots ! j")
    have "drop (16 * j) (concat (map slot_bytes ?slots) @ blob_area ps) =
        map slot_bytes ?slots ! j @ concat (drop (Suc j) (map slot_bytes ?slots)) @ blob_area ps"
      using j n by (intro drop_chunks) auto
    then have d: "drop (32 + 16 * j) ?b = slot_bytes (pkg, off, m) @ concat (drop (Suc j) (map slot_bytes ?slots)) @ blob_area ps"
      using j n s by (simp add: ndb_file_def)
    have "(pkg, off, m) \<in> set ?slots" using j n s by (metis nth_mem)
    then have "off < 2 ^ 32 \<and> m < 2 ^ 32"
      using ndb_index_bounds [of pkg off m "256 * k" ps] k(1,3) head by (auto simp: ndb_slots_def ndb_file_def)
    then show ?thesis using slot_of_bytes [OF d] s by simp
  qed
  have starts: "slot_starts (4096 * k) = map (\<lambda>j. 32 + 16 * j) [0..<256 * k - 2]"
    using length_slot_starts [OF k(1)] unfolding slot_starts_def length_map length_upt diff_zero by simp
  have "map (slot_of ?b) (slot_starts (4096 * k)) = ?slots"
    unfolding starts using slot n by (intro nth_equalityI) simp_all
  then have used: "used_slots ?b (slot_starts (4096 * k)) = ndb_index (256 * k) ps"
    using k(5) unfolding used_slots_def ndb_slots_def map_fst_ndb_index [of "256 * k" ps, symmetric]
    by (simp add: filter_id_conv image_iff)
  have magic: "\<forall>i \<in> set (slot_starts (4096 * k)). take 4 (drop i ?b) = slot_magic"
    unfolding starts using slot by auto
  have "list_all2 (\<lambda>(pkg, off, n) d. holds_blob ?b pkg off n d) (ndb_index (256 * k) ps) (map snd ps)"
    using ndb_index_holds [of "db_magic @ to_le 4 0 @ to_le 4 0 @ to_le 4 k @ replicate 16 0 @ concat (map slot_bytes ?slots)" "256 * k" ps]
      head k(3) unfolding ndb_file_def by simp
  then have "slots_hold ?b (slot_starts (4096 * k)) {} (map snd ps)"
    using magic k(4) unfolding slots_hold_def used map_fst_ndb_index by simp
  then show ?thesis
    using pages k head by (simp add: ndb_stores_def Let_def) (simp add: ndb_file_def)
qed

section \<open>Reading a database\<close>

lemma header_step_run:
  "header_parse b = Some (Inr r) \<Longrightarrow> header_step (i, b) out = Some (Inr (case r of None \<Rightarrow> out | Some pkg \<Rightarrow> out @ [pkg]))"
  "header_parse b = Some (Inl e) \<Longrightarrow> header_step (i, b) out = Some (Inl (''package '' @ show_nat i @ '': '' @ e))"
  by (simp_all add: header_step_def)

lemma header_steps_run:
  "list_all2 (\<lambda>b r. header_parse b = Some (Inr r)) bs rs \<Longrightarrow> length is = length bs \<Longrightarrow>
     run_fold header_step (zip is bs) out = Some (Inr (out @ List.map_filter id rs))"
proof (induction arbitrary: "is" out rule: list_all2_induct)
  case Nil
  then show ?case by simp
next
  case (Cons b bs r rs)
  obtain i js where "is": "is = i # js" using Cons.prems by (cases "is") auto
  then show ?case using Cons by (cases r) (simp_all add: header_step_run)
qed

lemma header_steps_parse:
  "safe (run_fold header_step (zip is bs) out) (\<lambda>out'. length is = length bs \<longrightarrow>
     (\<exists>rs. list_all2 (\<lambda>b r. header_parse b = Some (Inr r)) bs rs))"
proof (induction bs arbitrary: "is" out)
  case (Cons b bs)
  show ?case
  proof (cases "is")
    case (Cons i js)
    obtain r where r: "header_parse b = Some r" using safe_runs [OF header_parse_runs [of b]] by blast
    show ?thesis
    proof (cases r)
      case (Inr x)
      have "safe (run_fold header_step (zip js bs) out') (\<lambda>out''. length (i # js) = length (b # bs) \<longrightarrow>
          (\<exists>rs. list_all2 (\<lambda>b r. header_parse b = Some (Inr r)) (b # bs) rs))" for out'
        using r Inr by (intro safe_mono [OF Cons.IH [of js out']]) (auto simp: list_all2_Cons1)
      then show ?thesis by (simp add: Cons header_step_run(1) [OF r [unfolded Inr]])
    qed (simp add: Cons header_step_run r)
  qed simp
qed (auto intro: exI [of _ "[]"])



section \<open>An example\<close>

definition sample_packages :: "(32 word \<times> rpm_package \<times> (string \<times> string) list) list" where
  "sample_packages =
     [(7, \<lparr>rp_name = ''zlib'', rp_epoch = None, rp_version = ''1.3'', rp_release = ''2'', rp_arch = Some ''noarch'',
           rp_source_rpm = None, rp_modularity_label = None, rp_files = []\<rparr>, []),
      (3, \<lparr>rp_name = ''bash'', rp_epoch = Some 1, rp_version = ''5'', rp_release = ''1'', rp_arch = None,
           rp_source_rpm = Some ''b.src.rpm'', rp_modularity_label = None, rp_files = []\<rparr>, [(''/bin/'', ''sh'')])]"


end
