(* ===== verification/Distro.thy ===== *)
theory Distro
  imports Core_Model
begin

text \<open>
  Which distribution an image runs and which OSV ecosystems its packages are matched against,
  \<^verbatim>\<open>crates/os/src/distro.rs\<close>, with the table of vendor feeds of \<^verbatim>\<open>crates/os/src/feeds.rs\<close>.  A map keyed
  by strings is a \<^typ>\<open>(string, string) btree\<close>.  A reason for not matching a distribution is a
  constructor of \<open>distro_gap\<close> that holds what the message shows.
\<close>

section \<open>Distributions\<close>

datatype family = DebFamily | ApkFamily | RpmFamily

primrec purl_type :: "family \<Rightarrow> string" where
  "purl_type DebFamily = ''deb''"
| "purl_type ApkFamily = ''apk''"
| "purl_type RpmFamily = ''rpm''"

record os_release =
  or_id :: string
  or_id_like :: "string list"
  or_version_id :: "string option"
  or_version :: "string option"
  or_pretty_name :: "string option"

record distro =
  di_family :: family
  di_name :: string
  di_namespace :: string
  di_ecosystem :: string
  di_also :: "string list"
  di_binary_names :: bool
  di_overlays :: "string list"
  di_supplements :: "string list"
  di_modules :: "(string, string) btree"
  di_fallbacks :: "string list"
  di_optional :: "string list"
  di_borrowed :: "string list"
  di_borrowed_opens :: "string list"
  di_final_builds :: "string option"

definition ecosystems :: "distro \<Rightarrow> string list" where
  "ecosystems d = [di_ecosystem d] @ di_also d @ di_overlays d @ di_supplements d @ di_fallbacks d"

section \<open>The os-release file\<close>

definition no_os_release :: os_release where
  "no_os_release = \<lparr>or_id = [], or_id_like = [], or_version_id = None, or_version = None, or_pretty_name = None\<rparr>"

text \<open>A value between two quotes \<open>q\<close> of one kind.\<close>

definition unquoted :: "string \<Rightarrow> string \<Rightarrow> string option" where
  "unquoted q s = Option.bind (strip_prefix q s) (strip_suffix q)"

definition os_release_value :: "string \<Rightarrow> string" where
  "os_release_value raw =
     (let v = trim raw;
          v = (case unquoted [CHR 0x22] v of
                 Some inner \<Rightarrow> inner
               | None \<Rightarrow> (case unquoted [CHR 0x27] v of Some inner \<Rightarrow> inner | None \<Rightarrow> v))
      in replace_str [CHR 0x5C, CHR 0x22] [CHR 0x22] v)"

definition os_release_line :: "string \<Rightarrow> os_release \<Rightarrow> os_release" where
  "os_release_line raw out =
     (let line = trim raw in
      if starts_with ''#'' line then out
      else (case split_once (CHR ''='') line of
              None \<Rightarrow> out
            | Some (key, rest) \<Rightarrow>
                let value = os_release_value rest; k = trim key in
                if k = ''ID'' then out\<lparr>or_id := to_ascii_lowercase value\<rparr>
                else if k = ''ID_LIKE'' then out\<lparr>or_id_like := split_whitespace value\<rparr>
                else if k = ''VERSION_ID'' \<and> value \<noteq> [] then out\<lparr>or_version_id := Some value\<rparr>
                else if k = ''VERSION'' \<and> value \<noteq> [] then out\<lparr>or_version := Some value\<rparr>
                else if k = ''PRETTY_NAME'' \<and> value \<noteq> [] then out\<lparr>or_pretty_name := Some value\<rparr>
                else out))"

definition parse_os_release :: "string \<Rightarrow> os_release" where
  "parse_os_release text = fold os_release_line (text_lines text) no_os_release"

text \<open>The release file of a system older than os-release.\<close>

definition newline :: string where
  "newline = [char_of (10 :: nat)]"

definition legacy_release :: "string \<Rightarrow> os_release option" where
  "legacy_release text =
     (case text_lines text of
        [] \<Rightarrow> None
      | first # _ \<Rightarrow>
          let line = trim first;
              ident = (if starts_with ''CentOS'' line then Some ''centos''
                       else if starts_with ''Red Hat Enterprise Linux'' line then Some ''rhel''
                       else None)
          in Option.bind ident (\<lambda>i.
             Option.bind (split_once_str '' release '' line) (\<lambda>(_, after).
             case split_whitespace after of
               [] \<Rightarrow> None
             | version # _ \<Rightarrow>
                 Some (parse_os_release
                   (''ID='' @ i @ newline @ ''VERSION_ID='' @ version @ newline @
                    ''PRETTY_NAME='' @ [CHR 0x22] @ line @ [CHR 0x22] @ newline)))))"

section \<open>Names of ecosystems\<close>

definition red_hat_vex :: "string \<Rightarrow> string" where
  "red_hat_vex release = ''Red Hat:enterprise_linux:'' @ release @ ''::vex''"

definition is_red_hat_vex :: "string \<Rightarrow> bool" where
  "is_red_hat_vex eco \<longleftrightarrow> starts_with ''Red Hat:enterprise_linux:'' eco \<and> ends_with ''::vex'' eco"

definition suse_vex :: "string \<Rightarrow> string" where
  "suse_vex eco = eco @ ''::vex''"

definition is_suse_vex :: "string \<Rightarrow> bool" where
  "is_suse_vex eco \<longleftrightarrow> (starts_with ''SUSE:'' eco \<or> starts_with ''openSUSE:'' eco) \<and> ends_with ''::vex'' eco"

definition is_vex :: "string \<Rightarrow> bool" where
  "is_vex eco \<longleftrightarrow> is_red_hat_vex eco \<or> is_suse_vex eco"

definition dotted_digits :: "string \<Rightarrow> bool" where
  "dotted_digits v \<longleftrightarrow> v \<noteq> [] \<and> list_all (\<lambda>c. is_ascii_digit c \<or> c = CHR ''.'') v"

definition opt_or :: "'a option \<Rightarrow> 'a option \<Rightarrow> 'a option" where
  "opt_or a b = (case a of None \<Rightarrow> b | Some x \<Rightarrow> Some x)"

definition opt_test :: "('a \<Rightarrow> bool) \<Rightarrow> 'a option \<Rightarrow> bool" where
  "opt_test p a = (case a of None \<Rightarrow> False | Some x \<Rightarrow> p x)"

definition known_suse_product :: "string \<Rightarrow> string \<Rightarrow> bool" where
  "known_suse_product vendor rest =
     (if vendor = ''openSUSE'' then
        rest = ''Tumbleweed'' \<or>
        opt_test dotted_digits (opt_or (strip_prefix ''Leap Micro '' rest) (strip_prefix ''Leap '' rest))
      else if vendor = ''SUSE'' then
        (case strip_prefix ''Linux Enterprise Server 15 SP'' rest of
           Some sp \<Rightarrow> dotted_digits (case strip_suffix ''-LTSS'' sp of None \<Rightarrow> sp | Some v \<Rightarrow> v)
         | None \<Rightarrow>
             opt_test dotted_digits
               (opt_or (strip_prefix ''Linux Enterprise Micro '' rest) (strip_prefix ''Linux Micro '' rest)))
      else False)"

text \<open>\<^verbatim>\<open>replacen(from, to, 1)\<close> for one character.\<close>

definition replace_once :: "char \<Rightarrow> char \<Rightarrow> string \<Rightarrow> string" where
  "replace_once c d s = (case split_once c s of None \<Rightarrow> s | Some (a, b) \<Rightarrow> a @ [d] @ b)"

definition suse_product_ecosystem :: "string \<Rightarrow> string option" where
  "suse_product_ecosystem product =
     Option.bind (split_once (CHR '' '') product) (\<lambda>(vendor, rest).
       if known_suse_product vendor rest then Some (replace_once (CHR '' '') (CHR '':'') product) else None)"

definition sles_modules :: "string list" where
  "sles_modules =
     [''Certifications'', ''Containers'', ''Desktop Applications'', ''Development Tools'', ''HPC'',
      ''Legacy'', ''Package Hub'', ''Public Cloud'', ''Python 3'', ''SAP Applications'',
      ''Systems Management'', ''Transactional Server'', ''Web and Scripting'']"

definition sles_module :: "string \<Rightarrow> string \<Rightarrow> string" where
  "sles_module sp m = ''SUSE:Linux Enterprise Module for '' @ m @ '' 15 SP'' @ sp"

definition sles_optional :: "string \<Rightarrow> string list" where
  "sles_optional sp =
     map (sles_module sp) sles_modules @ [''SUSE:Linux Enterprise Server 15 SP'' @ sp @ ''-LTSS'']"

section \<open>Builds of Root\<close>

definition aikido :: string where
  "aikido = ''.aikido.''"

definition root_build :: "string \<Rightarrow> string" where
  "root_build version = replace_str aikido ''.root.io.'' version"

definition is_root_build :: "string \<Rightarrow> bool" where
  "is_root_build version \<longleftrightarrow>
     opt_test (\<lambda>(_, r). length r = 5 \<and> list_all is_ascii_digit r \<and> take 3 (drop 1 r) = ''007'')
       (rsplit_once_str ''-r'' version) \<or>
     contains_str ''root.io'' version \<or> contains_str aikido version"

definition unrooted :: "string \<Rightarrow> string" where
  "unrooted name = (case strip_prefix ''rootio-'' name of None \<Rightarrow> name | Some rest \<Rightarrow> rest)"

definition rooted :: "string \<Rightarrow> string" where
  "rooted name = ''rootio-'' @ unrooted name"

section \<open>Frozen exports\<close>

definition frozen_debian :: "string list" where
  "frozen_debian = [''7'', ''8'', ''9'', ''10'', ''11'']"

definition frozen_suffix :: string where
  "frozen_suffix = ''::frozen''"

definition frozen :: "string \<Rightarrow> string option" where
  "frozen eco =
     Option.bind (strip_prefix ''Debian:'' eco) (\<lambda>release.
       if release \<in> set frozen_debian then Some (eco @ frozen_suffix) else None)"

definition frozen_export :: "string \<Rightarrow> string option" where
  "frozen_export eco = strip_suffix frozen_suffix eco"

section \<open>Vendor feeds\<close>

datatype feed_kind =
  AmazonUpdateinfo | OracleOval | PhotonCves | BottlerocketUpdateinfo | FedoraUpdateinfo | MarinerOval

record feed =
  fe_ecosystem :: string
  fe_kind :: feed_kind
  fe_url :: string

definition bottlerocket :: string where
  "bottlerocket = ''Bottlerocket''"

definition fedora_first :: nat where
  "fedora_first = 41"

definition fedora_live :: string where
  "fedora_live = ''https://dl.fedoraproject.org/pub/fedora/linux/updates/''"

definition mariner_2_oval :: string where
  "mariner_2_oval = ''Azure Linux:2::oval''"

definition only_digits :: "string \<Rightarrow> bool" where
  "only_digits s \<longleftrightarrow> s \<noteq> [] \<and> list_all is_ascii_digit s"

definition feed_source :: "string \<Rightarrow> string \<Rightarrow> (feed_kind \<times> string) option" where
  "feed_source vendor release =
     (if vendor = ''Amazon Linux'' \<and> release = ''2'' then
        Some (AmazonUpdateinfo, ''https://cdn.amazonlinux.com/2/core/latest/x86_64/mirror.list'')
      else if vendor = ''Amazon Linux'' \<and> release = ''2023'' then
        Some (AmazonUpdateinfo, ''https://cdn.amazonlinux.com/al2023/core/mirrors/latest/x86_64/mirror.list'')
      else if vendor = ''Oracle Linux'' \<and> only_digits release then
        Some (OracleOval, ''https://linux.oracle.com/security/oval/com.oracle.elsa-ol'' @ release @ ''.xml.bz2'')
      else if vendor = ''Fedora'' \<and> only_digits release \<and> opt_test (\<lambda>n. fedora_first \<le> n) (parse_u32 release) then
        Some (FedoraUpdateinfo, fedora_live @ release @ ''/Everything/x86_64/'' @ newline)
      else if vendor = ''Photon OS'' \<and> release \<in> {''3.0'', ''4.0'', ''5.0''} then
        Some (PhotonCves,
          ''https://packages.broadcom.com/photon/photon_cve_metadata/cve_data_photon'' @ release @ ''.json'')
      else None)"

definition feed_for :: "string \<Rightarrow> feed option" where
  "feed_for eco =
     (if eco = mariner_2_oval then
        Some \<lparr>fe_ecosystem = eco, fe_kind = MarinerOval,
              fe_url = ''https://raw.githubusercontent.com/microsoft/AzureLinuxVulnerabilityData/main/cbl-mariner-2.0-oval.xml''\<rparr>
      else if eco = bottlerocket then
        Some \<lparr>fe_ecosystem = eco, fe_kind = BottlerocketUpdateinfo,
              fe_url = ''https://advisories.bottlerocket.aws/updateinfo.xml.gz''\<rparr>
      else Option.bind (split_once (CHR '':'') eco) (\<lambda>(vendor, release).
        map_option (\<lambda>(kind, url). \<lparr>fe_ecosystem = eco, fe_kind = kind, fe_url = url\<rparr>)
          (feed_source vendor release)))"

definition export_candidates :: "string \<Rightarrow> string list" where
  "export_candidates eco =
     (case frozen_export eco of
        Some export \<Rightarrow> [export]
      | None \<Rightarrow>
          let base = hd (split_at (CHR '':'') eco) in
          if base = eco \<or> feed_for eco \<noteq> None \<or> is_vex eco then [eco] else [base, eco])"

end
