(* ===== verification/Distro_Detect.thy ===== *)
theory Distro_Detect
  imports Distro Rust_Result
begin

text \<open>
  \<^verbatim>\<open>detect\<close>, \<^verbatim>\<open>family_of\<close> and \<^verbatim>\<open>explicit\<close> of \<^verbatim>\<open>crates/os/src/distro.rs\<close>: the arm of each os-release
  id is a definition of its own.  What is proved: every ecosystem a detected or explicitly named
  distribution is matched against holds packages of the distribution's own format, so the
  comparison of one format is never applied to the records of another.
\<close>

section \<open>Detection\<close>

record hints =
  hi_esm :: bool
  hi_root_io :: bool

definition hints_from_versions :: "string list \<Rightarrow> hints" where
  "hints_from_versions versions =
     fold (\<lambda>v h. h\<lparr>hi_esm := hi_esm h \<or> contains_str ''+esm'' v,
                    hi_root_io := hi_root_io h \<or> is_root_build v\<rparr>)
       versions \<lparr>hi_esm = False, hi_root_io = False\<rparr>"

datatype distro_gap =
  NoReleaseNumber string string
| DebianUnnumbered string
| NoVersionId string
| UbuntuVersion string string
| AlpineVersion string string
| AlpineEdge string string
| SlesVersion string
| MarinerVersion string
| AmazonVersion string
| PhotonVersion string string
| FedoraVersion string nat
| CentosStream string
| NoOsReleaseId
| UnsupportedDistro string string

definition major :: "string \<Rightarrow> string option" where
  "major v = (let m = hd (split_at (CHR ''.'') v) in if only_digits m then Some m else None)"

definition red_hat_els :: "string \<Rightarrow> string option" where
  "red_hat_els release = (if release \<in> {''6'', ''7''} then Some (''Red Hat:rhel_els:'' @ release) else None)"

definition rebuild_of_rhel :: "distro \<Rightarrow> string \<Rightarrow> distro" where
  "rebuild_of_rhel d release =
     d\<lparr>di_fallbacks := di_fallbacks d @ [red_hat_vex release],
       di_borrowed_opens := di_borrowed_opens d @ [red_hat_vex release]\<rparr>"

definition plain_distro :: "family \<Rightarrow> string \<Rightarrow> string \<Rightarrow> string \<Rightarrow> distro" where
  "plain_distro f name namespace eco =
     \<lparr>di_family = f, di_name = name, di_namespace = namespace, di_ecosystem = eco, di_also = [],
      di_binary_names = False, di_overlays = [], di_supplements = [], di_modules = [],
      di_fallbacks = [], di_optional = [], di_borrowed = [], di_borrowed_opens = [],
      di_final_builds = None\<rparr>"

abbreviation rpm_distro :: "string \<Rightarrow> string \<Rightarrow> string \<Rightarrow> distro" where
  "rpm_distro \<equiv> plain_distro RpmFamily"

definition with_suse_vex :: "distro \<Rightarrow> distro" where
  "with_suse_vex d = d\<lparr>di_fallbacks := map suse_vex (di_ecosystem d # di_also d)\<rparr>"

definition borrow_from :: "distro \<Rightarrow> string list \<Rightarrow> distro" where
  "borrow_from d origin =
     d\<lparr>di_fallbacks := di_fallbacks d @ origin, di_optional := di_optional d @ origin,
       di_borrowed := di_borrowed d @ origin\<rparr>"

definition option_list :: "'a option \<Rightarrow> 'a list" where
  "option_list a = (case a of None \<Rightarrow> [] | Some x \<Rightarrow> [x])"

definition pretty_name :: "os_release \<Rightarrow> string" where
  "pretty_name os = (case or_pretty_name os of None \<Rightarrow> or_id os | Some p \<Rightarrow> p)"

text \<open>\<open>VERSION_ID\<close> as it is, and its major release number.\<close>

definition version_id :: "os_release \<Rightarrow> distro_gap + string" where
  "version_id os = ok_or (NoVersionId (pretty_name os)) (or_version_id os)"

definition release_number :: "os_release \<Rightarrow> string \<Rightarrow> distro_gap + string" where
  "release_number os what = ok_or (NoReleaseNumber (pretty_name os) what) (Option.bind (or_version_id os) major)"

definition detect_debian :: "os_release \<Rightarrow> string option \<Rightarrow> distro_gap + distro" where
  "detect_debian os debian_version =
     and_then (ok_or (DebianUnnumbered (pretty_name os))
         (opt_or (Option.bind (or_version_id os) major) (Option.bind (map_option trim debian_version) major)))
       (\<lambda>release.
         let d = plain_distro DebFamily (''Debian '' @ release) ''debian'' (''Debian:'' @ release)
         in Inr (case frozen (di_ecosystem d) of
                   None \<Rightarrow> d
                 | Some fr \<Rightarrow> d\<lparr>di_supplements := di_supplements d @ [fr], di_optional := di_optional d @ [fr]\<rparr>))"

definition detect_ubuntu :: "os_release \<Rightarrow> hints \<Rightarrow> distro_gap + distro" where
  "detect_ubuntu os h =
     and_then (version_id os) (\<lambda>v.
     and_then (ok_or (UbuntuVersion (pretty_name os) v)
         (case split_once (CHR ''.'') v of
            None \<Rightarrow> None
          | Some (y, m) \<Rightarrow> if length y = 2 \<and> length m = 2 then Some (y, m) else None)) (\<lambda>(yy, mm).
       let lts = mm = ''04'' \<and> opt_test even (parse_u32 yy);
           eco = ''Ubuntu:'' @ yy @ ''.'' @ mm @ (if lts then '':LTS'' else []);
           d = plain_distro DebFamily (''Ubuntu '' @ v) ''ubuntu'' eco;
           pro = ''Ubuntu:Pro:'' @ yy @ ''.'' @ mm @ '':LTS''
       in Inr (if \<not> lts then d
               else if hi_esm h then d\<lparr>di_overlays := di_overlays d @ [pro]\<rparr>
               else d\<lparr>di_supplements := di_supplements d @ [pro]\<rparr>)))"

definition detect_alpine :: "os_release \<Rightarrow> distro_gap + distro" where
  "detect_alpine os =
     and_then (version_id os) (\<lambda>v.
       case split_at (CHR ''.'') v of
         mj # mn # _ \<Rightarrow>
           if \<not> all_digits mj \<or> \<not> all_digits mn then Inl (AlpineEdge (pretty_name os) v)
           else Inr (plain_distro ApkFamily (''Alpine '' @ mj @ ''.'' @ mn) ''alpine''
                       (''Alpine:v'' @ mj @ ''.'' @ mn))
       | _ \<Rightarrow> Inl (AlpineVersion (pretty_name os) v))"

definition detect_rhel :: "os_release \<Rightarrow> distro_gap + distro" where
  "detect_rhel os =
     and_then (release_number os ''Red Hat Enterprise Linux'') (\<lambda>r.
       let repos = (if r = ''7'' then [''server''] else [''baseos'', ''appstream'', ''crb'']);
           ecos = (if opt_test (\<lambda>n. 10 \<le> n) (parse_u32 r)
                   then map (\<lambda>minor. ''Red Hat:enterprise_linux:'' @ r @ ''.'' @ show_nat minor) [0..<10]
                   else map (\<lambda>repo. ''Red Hat:enterprise_linux:'' @ r @ ''::'' @ repo) repos);
           d = (rpm_distro (''Red Hat Enterprise Linux '' @ r) ''redhat'' (hd ecos))\<lparr>di_also := tl ecos\<rparr>;
           d = (if ends_with ''.0'' (hd ecos) then d\<lparr>di_optional := di_also d\<rparr> else d)
       in Inr (d\<lparr>di_fallbacks := [red_hat_vex r], di_binary_names := True,
                 di_supplements := di_supplements d @ option_list (red_hat_els r)\<rparr>))"

definition detect_rebuild :: "os_release \<Rightarrow> string \<Rightarrow> string \<Rightarrow> bool \<Rightarrow> distro_gap + distro" where
  "detect_rebuild os name namespace binary_names =
     and_then (release_number os name) (\<lambda>r.
       Inr (rebuild_of_rhel
         ((rpm_distro (name @ '' '' @ r) namespace (name @ '':'' @ r))\<lparr>di_binary_names := binary_names\<rparr>) r))"

definition detect_leap :: "os_release \<Rightarrow> distro_gap + distro" where
  "detect_leap os =
     and_then (version_id os) (\<lambda>v.
       let d = with_suse_vex (rpm_distro (''openSUSE Leap '' @ v) ''opensuse'' (''openSUSE:Leap '' @ v))
       in Inr (case strip_prefix ''15.'' v of
                 None \<Rightarrow> d
               | Some sp \<Rightarrow>
                   if sp = ''0'' then d
                   else let server = ''SUSE:Linux Enterprise Server 15 SP'' @ sp
                        in borrow_from d [suse_vex server, suse_vex (server @ ''-LTSS'')]))"

definition detect_leap_micro :: "os_release \<Rightarrow> distro_gap + distro" where
  "detect_leap_micro os =
     and_then (version_id os) (\<lambda>v.
       Inr (borrow_from
         (with_suse_vex (rpm_distro (''openSUSE Leap Micro '' @ v) ''opensuse'' (''openSUSE:Leap Micro '' @ v)))
         [suse_vex (''SUSE:Linux Enterprise Micro '' @ v)]))"

definition detect_sles :: "os_release \<Rightarrow> distro_gap + distro" where
  "detect_sles os =
     and_then (version_id os) (\<lambda>v.
       let (mj, sp) = (case split_once (CHR ''.'') v of None \<Rightarrow> (v, ''0'') | Some p \<Rightarrow> p) in
       if mj \<noteq> ''15'' \<or> \<not> all_digits sp then Inl (SlesVersion (pretty_name os))
       else let d = rpm_distro (''SUSE Linux Enterprise 15 SP'' @ sp) ''suse'' (sles_module sp ''Basesystem'');
                server = ''SUSE:Linux Enterprise Server 15 SP'' @ sp;
                ltss = suse_vex (server @ ''-LTSS'')
            in Inr (d\<lparr>di_also := sles_module sp ''Server Applications'' # sles_optional sp,
                      di_fallbacks := [suse_vex server, ltss],
                      di_optional := sles_optional sp @ [ltss]\<rparr>))"

text \<open>A product named by its whole \<open>VERSION_ID\<close>, with SUSE's VEX of its own.\<close>

definition detect_micro :: "os_release \<Rightarrow> string \<Rightarrow> string \<Rightarrow> distro_gap + distro" where
  "detect_micro os name eco =
     and_then (version_id os) (\<lambda>v. Inr (with_suse_vex (rpm_distro (name @ '' '' @ v) ''suse'' (eco @ '' '' @ v))))"

definition detect_azure :: "os_release \<Rightarrow> distro_gap + distro" where
  "detect_azure os =
     and_then (release_number os ''Azure Linux'') (\<lambda>r.
       if or_id os = ''mariner'' \<and> r \<noteq> ''2'' then Inl (MarinerVersion (pretty_name os))
       else let d = rpm_distro (''Azure Linux '' @ r) ''azure-linux'' (''Azure Linux:'' @ r)
            in Inr (if r = ''2'' then d\<lparr>di_overlays := di_overlays d @ [mariner_2_oval]\<rparr> else d))"

definition detect_openeuler :: "os_release \<Rightarrow> distro_gap + distro" where
  "detect_openeuler os =
     and_then (version_id os) (\<lambda>v.
       let tag = (case Option.bind (Option.bind (or_version os) (split_once (CHR ''(''))) (\<lambda>(_, b). strip_suffix '')'' b) of
                    None \<Rightarrow> []
                  | Some t \<Rightarrow> ''-'' @ trim t)
       in Inr (rpm_distro (''openEuler '' @ v @ tag) ''openeuler'' (''openEuler:'' @ v @ tag)))"

definition detect_amazon :: "os_release \<Rightarrow> distro_gap + distro" where
  "detect_amazon os =
     and_then (version_id os) (\<lambda>v.
       if v \<notin> {''2'', ''2023''} then Inl (AmazonVersion (pretty_name os))
       else Inr ((rpm_distro (''Amazon Linux '' @ v) ''amazon'' (''Amazon Linux:'' @ v))\<lparr>di_binary_names := True\<rparr>))"

definition detect_bottlerocket :: "os_release \<Rightarrow> distro_gap + distro" where
  "detect_bottlerocket os =
     and_then (version_id os) (\<lambda>v.
       Inr ((rpm_distro (''Bottlerocket '' @ v) ''bottlerocket'' bottlerocket)\<lparr>di_binary_names := True\<rparr>))"

definition detect_oracle :: "os_release \<Rightarrow> distro_gap + distro" where
  "detect_oracle os =
     and_then (release_number os ''Oracle Linux'') (\<lambda>r.
       Inr ((rpm_distro (''Oracle Linux '' @ r) ''oracle'' (''Oracle Linux:'' @ r))\<lparr>di_binary_names := True\<rparr>))"

definition detect_photon :: "os_release \<Rightarrow> distro_gap + distro" where
  "detect_photon os =
     and_then (version_id os) (\<lambda>v.
       let eco = ''Photon OS:'' @ v in
       if feed_for eco = None then Inl (PhotonVersion (pretty_name os) v)
       else Inr ((rpm_distro (''Photon OS '' @ v) ''photon'' eco)\<lparr>di_binary_names := True\<rparr>))"

definition detect_fedora :: "os_release \<Rightarrow> distro_gap + distro" where
  "detect_fedora os =
     and_then (release_number os ''Fedora'') (\<lambda>r.
       if feed_for (''Fedora:'' @ r) = None then Inl (FedoraVersion (pretty_name os) fedora_first)
       else Inr ((rpm_distro (''Fedora '' @ r) ''fedora'' (''Fedora:'' @ r))\<lparr>di_binary_names := True\<rparr>))"

definition detect_centos :: "os_release \<Rightarrow> distro_gap + distro" where
  "detect_centos os =
     and_then (release_number os ''CentOS'') (\<lambda>r.
       if opt_test (contains_str ''Stream'') (or_pretty_name os) \<or> r \<notin> {''6'', ''7'', ''8''}
       then Inl (CentosStream (pretty_name os))
       else let repos = (if r = ''8'' then [''baseos'', ''appstream'', ''crb''] else [''server'']);
                eco = (\<lambda>repo. ''Red Hat:enterprise_linux:'' @ r @ ''::'' @ repo);
                d = rpm_distro (''CentOS Linux '' @ r) ''centos'' (eco (hd repos))
            in Inr (rebuild_of_rhel
                 (d\<lparr>di_also := map eco (tl repos), di_binary_names := True, di_final_builds := Some r,
                    di_supplements := di_supplements d @ option_list (red_hat_els r)\<rparr>) r))"

definition detect_release :: "os_release \<Rightarrow> string option \<Rightarrow> hints \<Rightarrow> distro_gap + distro" where
  "detect_release os debian_version h =
     (let i = or_id os in
      if i = ''debian'' then detect_debian os debian_version
      else if i = ''ubuntu'' then detect_ubuntu os h
      else if i = ''alpine'' then detect_alpine os
      else if i = ''wolfi'' then Inr (plain_distro ApkFamily ''Wolfi'' ''wolfi'' ''Wolfi'')
      else if i = ''chainguard'' then Inr (plain_distro ApkFamily ''Chainguard'' ''chainguard'' ''Chainguard'')
      else if i = ''minimos'' then Inr (plain_distro ApkFamily ''MinimOS'' ''minimos'' ''MinimOS'')
      else if i = ''cleanstart'' then Inr (plain_distro ApkFamily ''CleanStart'' ''cleanstart'' ''CleanStart'')
      else if i = ''alpaquita'' then
        and_then (version_id os) (\<lambda>v. Inr (plain_distro ApkFamily (''Alpaquita '' @ v) ''alpaquita'' (''Alpaquita:'' @ v)))
      else if i = ''echo'' then Inr (plain_distro DebFamily ''Echo'' ''echo'' ''Echo'')
      else if i = ''rhel'' then detect_rhel os
      else if i = ''almalinux'' then detect_rebuild os ''AlmaLinux'' ''almalinux'' True
      else if i = ''rocky'' then detect_rebuild os ''Rocky Linux'' ''rocky-linux'' False
      else if i = ''opensuse-leap'' then detect_leap os
      else if i = ''opensuse-leap-micro'' then detect_leap_micro os
      else if i = ''opensuse-tumbleweed'' then
        Inr (with_suse_vex (rpm_distro ''openSUSE Tumbleweed'' ''opensuse'' ''openSUSE:Tumbleweed''))
      else if i = ''sles'' then detect_sles os
      else if i = ''sle-micro'' then detect_micro os ''SUSE Linux Enterprise Micro'' ''SUSE:Linux Enterprise Micro''
      else if i = ''sl-micro'' then detect_micro os ''SUSE Linux Micro'' ''SUSE:Linux Micro''
      else if i = ''azurelinux'' \<or> i = ''mariner'' then detect_azure os
      else if i = ''mageia'' then
        and_then (release_number os ''Mageia'') (\<lambda>r. Inr (rpm_distro (''Mageia '' @ r) ''mageia'' (''Mageia:'' @ r)))
      else if i = ''openeuler'' then detect_openeuler os
      else if i = ''amzn'' then detect_amazon os
      else if i = ''bottlerocket'' then detect_bottlerocket os
      else if i = ''ol'' then detect_oracle os
      else if i = ''photon'' then detect_photon os
      else if i = ''fedora'' then detect_fedora os
      else if i = ''centos'' then detect_centos os
      else if i = [] then Inl NoOsReleaseId
      else Inl (UnsupportedDistro (pretty_name os) i))"

definition root_ecosystem :: "os_release \<Rightarrow> distro \<Rightarrow> string option" where
  "root_ecosystem os d =
     (if di_namespace d = ''debian'' then
        map_option (\<lambda>r. ''Root:Debian:'' @ r) (Option.bind (or_version_id os) major)
      else if di_namespace d = ''ubuntu'' then map_option (\<lambda>v. ''Root:Ubuntu:'' @ v) (or_version_id os)
      else if di_namespace d = ''alpine'' then
        map_option (\<lambda>v. ''Root:Alpine:'' @ v) (strip_prefix ''Alpine:v'' (di_ecosystem d))
      else None)"

definition detect :: "os_release \<Rightarrow> string option \<Rightarrow> hints \<Rightarrow> distro_gap + distro" where
  "detect os debian_version h =
     and_then (detect_release os debian_version h) (\<lambda>d.
       Inr (if hi_root_io h then d\<lparr>di_overlays := di_overlays d @ option_list (root_ecosystem os d)\<rparr> else d))"

section \<open>The format of an ecosystem\<close>

definition rpm_vendors :: "string list" where
  "rpm_vendors =
     [''Red Hat'', ''AlmaLinux'', ''Rocky Linux'', ''SUSE'', ''openSUSE'', ''Azure Linux'', ''Mageia'',
      ''openEuler'', ''Amazon Linux'', ''Oracle Linux'', ''Photon OS'', ''Bottlerocket'', ''Fedora'']"

definition apk_vendors :: "string list" where
  "apk_vendors =
     [''Alpine'', ''Wolfi'', ''Chainguard'', ''MinimOS'', ''Alpaquita'', ''CleanStart'',
      ''BellSoft Hardened Containers'']"

definition vendor_family :: "string \<Rightarrow> family option" where
  "vendor_family vendor =
     (if vendor \<in> {''Debian'', ''Ubuntu'', ''Echo''} then Some DebFamily
      else if vendor \<in> set rpm_vendors then Some RpmFamily
      else if vendor \<in> set apk_vendors then Some ApkFamily
      else None)"

definition family_of :: "string \<Rightarrow> family option" where
  "family_of eco =
     (let parts = split_at (CHR '':'') eco
      in vendor_family (if hd parts = ''Root'' then (case tl parts of [] \<Rightarrow> [] | p # _ \<Rightarrow> p) else hd parts))"

definition known_ecosystem :: "string \<Rightarrow> bool" where
  "known_ecosystem eco \<longleftrightarrow> family_of eco \<noteq> None"

section \<open>A distribution named in the configuration\<close>

definition replace_char :: "char \<Rightarrow> char \<Rightarrow> string \<Rightarrow> string" where
  "replace_char c d s = map (\<lambda>x. if x = c then d else x) s"

definition explicit_namespace :: "string \<Rightarrow> string" where
  "explicit_namespace base =
     (if base = ''Red Hat'' then ''redhat''
      else if base = ''Amazon Linux'' then ''amazon''
      else if base = ''Oracle Linux'' then ''oracle''
      else if base = ''Photon OS'' then ''photon''
      else replace_char (CHR '' '') (CHR ''-'') (to_ascii_lowercase base))"

definition explicit_fallbacks :: "string \<Rightarrow> string list" where
  "explicit_fallbacks eco =
     (let suse = (if suse_product_ecosystem (replace_once (CHR '':'') (CHR '' '') eco) = Some eco
                  then [suse_vex eco] else [])
      in case split_at (CHR '':'') eco of
           v # p # release # _ \<Rightarrow>
             if v = ''Red Hat'' \<and> p = ''enterprise_linux'' \<and> only_digits release
             then [red_hat_vex release] else suse
         | _ \<Rightarrow> suse)"

definition explicit :: "string \<Rightarrow> family \<Rightarrow> distro" where
  "explicit eco f =
     (let base = hd (split_at (CHR '':'') eco);
          d = (plain_distro f (replace_char (CHR '':'') (CHR '' '') eco) (explicit_namespace base) eco)
                \<lparr>di_binary_names := base \<in> {''Red Hat'', ''AlmaLinux'', ''Amazon Linux'', ''Oracle Linux'',
                                             ''Photon OS'', ''Bottlerocket'', ''Fedora''},
                 di_fallbacks := explicit_fallbacks eco\<rparr>
      in case split_once (CHR '':'') eco of
           Some (v, release) \<Rightarrow>
             if v \<in> {''AlmaLinux'', ''Rocky Linux''} \<and> only_digits release then rebuild_of_rhel d release else d
         | None \<Rightarrow> d)"

section \<open>Every ecosystem has the format of the distribution\<close>

text \<open>
  What a distribution promises the matcher: its ecosystems hold packages of its format, the
  ecosystem of the release itself is required, what may be absent is one of the others, and the
  fallbacks with a restricted reading are fallbacks.  The namespaces are those Root publishes for.
\<close>

definition distro_ok :: "distro \<Rightarrow> bool" where
  "distro_ok d \<longleftrightarrow>
     (\<forall>e \<in> set (ecosystems d). family_of e = Some (di_family d)) \<and>
     di_ecosystem d \<notin> set (di_optional d) \<and>
     set (di_optional d) \<subseteq> set (di_also d @ di_supplements d @ di_fallbacks d) \<and>
     set (di_borrowed d) \<subseteq> set (di_fallbacks d) \<and> set (di_borrowed_opens d) \<subseteq> set (di_fallbacks d) \<and>
     (di_namespace d \<in> {''debian'', ''ubuntu''} \<longrightarrow> di_family d = DebFamily) \<and>
     (di_namespace d = ''alpine'' \<longrightarrow> di_family d = ApkFamily)"

lemma set_ecosystems [simp]:
  "set (ecosystems d) = insert (di_ecosystem d)
     (set (di_also d) \<union> set (di_overlays d) \<union> set (di_supplements d) \<union> set (di_fallbacks d))"
  by (auto simp: ecosystems_def)

named_theorems vendor_simps \<open>the format of an ecosystem whose vendor is known\<close>

lemma vendor_family_simps [vendor_simps]:
  "v \<in> {''Debian'', ''Ubuntu'', ''Echo''} \<Longrightarrow> vendor_family v = Some DebFamily"
  "v \<in> set rpm_vendors \<Longrightarrow> vendor_family v = Some RpmFamily"
  "v \<in> set apk_vendors \<Longrightarrow> vendor_family v = Some ApkFamily"
proof -
  have "list_all (\<lambda>v. vendor_family v = Some RpmFamily) rpm_vendors"
    "list_all (\<lambda>v. vendor_family v = Some ApkFamily) apk_vendors" by code_simp+
  then show "v \<in> set rpm_vendors \<Longrightarrow> vendor_family v = Some RpmFamily"
    "v \<in> set apk_vendors \<Longrightarrow> vendor_family v = Some ApkFamily"
    by (simp_all add: list_all_iff)
qed (simp add: vendor_family_def)

lemma family_of_vendor:
  "CHR '':'' \<notin> set v \<Longrightarrow> v \<noteq> ''Root'' \<Longrightarrow> family_of (v @ CHR '':'' # r) = vendor_family v"
  "CHR '':'' \<notin> set v \<Longrightarrow> v \<noteq> ''Root'' \<Longrightarrow> family_of v = vendor_family v"
proof -
  assume v: "CHR '':'' \<notin> set v" "v \<noteq> ''Root''"
  have "split_at (CHR '':'') (v @ CHR '':'' # r) = v # split_at (CHR '':'') r"
    "split_at (CHR '':'') v = [v]"
    using v by (intro split_on_append split_on_none; auto)+
  then show "family_of (v @ CHR '':'' # r) = vendor_family v" "family_of v = vendor_family v"
    using v by (simp_all add: family_of_def)
qed

lemma family_of_root: "CHR '':'' \<notin> set v \<Longrightarrow> family_of (''Root:'' @ v @ CHR '':'' # r) = vendor_family v"
proof -
  assume v: "CHR '':'' \<notin> set v"
  have root: "split_at (CHR '':'') (''Root'' @ CHR '':'' # t) = ''Root'' # split_at (CHR '':'') t" for t
    by (rule split_on_append) simp_all
  have "split_at (CHR '':'') (v @ CHR '':'' # r) = v # split_at (CHR '':'') r"
    using v by (intro split_on_append) auto
  then have "split_at (CHR '':'') (''Root:'' @ v @ CHR '':'' # r) = ''Root'' # v # split_at (CHR '':'') r"
    using root [of "v @ CHR '':'' # r"] by simp
  note * = this
  show ?thesis unfolding family_of_def * Let_def by simp
qed

text \<open>A suffix changes nothing once the vendor has ended.\<close>

lemma family_of_suffix: "CHR '':'' \<in> set e \<Longrightarrow> \<not> starts_with ''Root:'' e \<Longrightarrow> family_of (e @ s) = family_of e"
proof -
  assume e: "CHR '':'' \<in> set e" "\<not> starts_with ''Root:'' e"
  obtain v r where er: "e = v @ CHR '':'' # r" "CHR '':'' \<notin> set v" using e(1) by (metis split_list_first)
  moreover have "v \<noteq> ''Root''" using e(2) er by (auto simp: starts_with_iff)
  ultimately show ?thesis using family_of_vendor(1) [of v] by simp
qed

definition vendors :: "string list" where
  "vendors = rpm_vendors @ apk_vendors @ [''Debian'', ''Ubuntu'', ''Echo'']"

lemma family_of_known:
  assumes "v \<in> set vendors" and "vendor_family v = Some f"
  shows "family_of (v @ CHR '':'' # r) = Some f \<and> family_of v = Some f"
proof -
  have "list_all (\<lambda>v. CHR '':'' \<notin> set v \<and> v \<noteq> ''Root'') vendors" by code_simp
  then have "CHR '':'' \<notin> set v" "v \<noteq> ''Root''" using assms(1) by (auto simp: list_all_iff)
  then show ?thesis using family_of_vendor assms(2) by metis
qed

lemma family_of_rpm: "v \<in> set rpm_vendors \<Longrightarrow> family_of (v @ CHR '':'' # r) = Some RpmFamily \<and> family_of v = Some RpmFamily"
  by (rule family_of_known) (simp_all add: vendors_def vendor_simps)

lemma family_of_apk: "v \<in> set apk_vendors \<Longrightarrow> family_of (v @ CHR '':'' # r) = Some ApkFamily \<and> family_of v = Some ApkFamily"
  by (rule family_of_known) (simp_all add: vendors_def vendor_simps)

lemma family_of_deb:
  "v \<in> {''Debian'', ''Ubuntu'', ''Echo''} \<Longrightarrow> family_of (v @ CHR '':'' # r) = Some DebFamily \<and> family_of v = Some DebFamily"
  by (rule family_of_known) (auto simp: vendors_def vendor_simps)

lemma rpm_vendor_mem:
  "''Red Hat'' \<in> set rpm_vendors" "''AlmaLinux'' \<in> set rpm_vendors" "''Rocky Linux'' \<in> set rpm_vendors"
  "''SUSE'' \<in> set rpm_vendors" "''openSUSE'' \<in> set rpm_vendors" "''Azure Linux'' \<in> set rpm_vendors"
  "''Mageia'' \<in> set rpm_vendors" "''openEuler'' \<in> set rpm_vendors" "''Amazon Linux'' \<in> set rpm_vendors"
  "''Oracle Linux'' \<in> set rpm_vendors" "''Photon OS'' \<in> set rpm_vendors" "''Bottlerocket'' \<in> set rpm_vendors"
  "''Fedora'' \<in> set rpm_vendors"
  by (simp_all add: rpm_vendors_def)

lemma apk_vendor_mem:
  "''Alpine'' \<in> set apk_vendors" "''Wolfi'' \<in> set apk_vendors" "''Chainguard'' \<in> set apk_vendors"
  "''MinimOS'' \<in> set apk_vendors" "''Alpaquita'' \<in> set apk_vendors" "''CleanStart'' \<in> set apk_vendors"
  by (simp_all add: apk_vendors_def)

lemma deb_vendor_mem:
  "''Debian'' \<in> {''Debian'', ''Ubuntu'', ''Echo''}" "''Ubuntu'' \<in> {''Debian'', ''Ubuntu'', ''Echo''}"
  "''Echo'' \<in> {''Debian'', ''Ubuntu'', ''Echo''}"
  by simp_all

lemmas family_simps [simp] =
  rpm_vendor_mem [THEN family_of_rpm, THEN conjunct1, simplified]
  rpm_vendor_mem [THEN family_of_rpm, THEN conjunct2, simplified]
  apk_vendor_mem [THEN family_of_apk, THEN conjunct1, simplified]
  apk_vendor_mem [THEN family_of_apk, THEN conjunct2, simplified]
  deb_vendor_mem [THEN family_of_deb, THEN conjunct1, simplified]
  deb_vendor_mem [THEN family_of_deb, THEN conjunct2, simplified]

lemmas distro_defs = plain_distro_def distro_ok_def red_hat_vex_def suse_vex_def red_hat_els_def
  rebuild_of_rhel_def with_suse_vex_def borrow_from_def option_list_def
  ok_or_def version_id_def release_number_def bottlerocket_def mariner_2_oval_def

lemma frozen_Some: "frozen eco = Some fr \<Longrightarrow> fr = eco @ frozen_suffix"
  by (auto simp: frozen_def bind_eq_Some_conv split: if_splits)

lemma detect_debian_ok: "detect_debian os dv = Inr d \<Longrightarrow> distro_ok d"
  by (auto simp: detect_debian_def distro_defs result_simps Let_def frozen_suffix_def
      dest!: frozen_Some split: option.splits)

lemma detect_ubuntu_ok: "detect_ubuntu os h = Inr d \<Longrightarrow> distro_ok d"
  by (auto simp: detect_ubuntu_def distro_defs result_simps Let_def split: option.splits if_splits)

lemma detect_alpine_ok: "detect_alpine os = Inr d \<Longrightarrow> distro_ok d"
  by (auto simp: detect_alpine_def distro_defs result_simps Let_def split: option.splits list.splits if_splits)

lemma show_nat_inject: "show_nat m = show_nat n \<longleftrightarrow> m = n"
  by (metis dec_val_show_nat)

lemma distinct_first:
  "distinct xs \<Longrightarrow> xs \<noteq> [] \<Longrightarrow> \<forall>x \<in> set xs. P x \<Longrightarrow> \<exists>e es. xs = e # es \<and> e \<notin> set es \<and> (\<forall>x \<in> set (e # es). P x)"
  by (cases xs) simp_all

lemma detect_rhel_ok:
  assumes "detect_rhel os = Inr d"
  shows "distro_ok d"
proof -
  obtain r where r: "release_number os ''Red Hat Enterprise Linux'' = Inr r"
    using assms by (auto simp: detect_rhel_def result_simps)
  let ?repos = "if r = ''7'' then [''server''] else [''baseos'', ''appstream'', ''crb'']"
  let ?ecos = "if opt_test (\<lambda>n. 10 \<le> n) (parse_u32 r)
    then map (\<lambda>minor. ''Red Hat:enterprise_linux:'' @ r @ ''.'' @ show_nat minor) [0..<10]
    else map (\<lambda>repo. ''Red Hat:enterprise_linux:'' @ r @ ''::'' @ repo) ?repos"
  have "distinct (map (\<lambda>minor. ''Red Hat:enterprise_linux:'' @ r @ ''.'' @ show_nat minor) [0..<10])"
    unfolding distinct_map by (intro conjI distinct_upt inj_onI) (simp add: show_nat_inject)
  then have "distinct ?ecos" by (simp del: upt_rec_numeral)
  moreover have "?ecos \<noteq> []" by simp
  moreover have "\<forall>e \<in> set ?ecos. family_of e = Some RpmFamily" by (auto simp del: upt_rec_numeral)
  ultimately obtain e es where ecos: "?ecos = e # es" "e \<notin> set es"
    and fam: "\<forall>x \<in> set (e # es). family_of x = Some RpmFamily"
    using distinct_first [of ?ecos] by blast
  show ?thesis
    using assms fam ecos(2) unfolding detect_rhel_def r and_then.simps Let_def ecos(1)
    by (auto simp: distro_defs split: if_splits option.splits)
qed

lemma detect_leap_ok: "detect_leap os = Inr d \<Longrightarrow> distro_ok d"
  by (auto simp: detect_leap_def distro_defs result_simps Let_def split: option.splits if_splits)

lemma detect_leap_micro_ok: "detect_leap_micro os = Inr d \<Longrightarrow> distro_ok d"
  by (auto simp: detect_leap_micro_def distro_defs result_simps Let_def split: option.splits if_splits)

lemma sles_module_inject: "sles_module sp x = sles_module sp y \<longleftrightarrow> x = y"
  unfolding sles_module_def by simp

lemma sles_module_server: "sles_module sp x \<noteq> ''SUSE:Linux Enterprise Server 15 SP'' @ r"
  by (simp add: sles_module_def)

lemma sles_names:
  "family_of (sles_module sp x) = Some RpmFamily"
  "e \<in> set (sles_optional sp) \<Longrightarrow> family_of e = Some RpmFamily"
  "sles_module sp ''Basesystem'' \<notin> set (sles_optional sp)"
proof -
  show m: "family_of (sles_module sp x) = Some RpmFamily" for x by (simp add: sles_module_def)
  show "e \<in> set (sles_optional sp) \<Longrightarrow> family_of e = Some RpmFamily"
    unfolding sles_optional_def set_append set_map using m by auto
  have "''Basesystem'' \<notin> set sles_modules" by (simp add: sles_modules_def)
  then show "sles_module sp ''Basesystem'' \<notin> set (sles_optional sp)"
    unfolding sles_optional_def set_append set_map by (auto simp only: sles_module_inject sles_module_server Un_iff image_iff list.set insert_iff empty_iff)
qed

lemma detect_sles_ok: "detect_sles os = Inr d \<Longrightarrow> distro_ok d"
  by (auto simp: detect_sles_def distro_defs result_simps sles_names sles_module_server [simplified] Let_def split: option.splits if_splits)

lemma detect_azure_ok: "detect_azure os = Inr d \<Longrightarrow> distro_ok d"
  by (auto simp: detect_azure_def distro_defs result_simps Let_def split: option.splits if_splits)

lemma detect_openeuler_ok: "detect_openeuler os = Inr d \<Longrightarrow> distro_ok d"
  by (auto simp: detect_openeuler_def distro_defs result_simps Let_def split: option.splits if_splits)

lemma detect_amazon_ok: "detect_amazon os = Inr d \<Longrightarrow> distro_ok d"
  by (auto simp: detect_amazon_def distro_defs result_simps Let_def split: option.splits if_splits)

lemma detect_bottlerocket_ok: "detect_bottlerocket os = Inr d \<Longrightarrow> distro_ok d"
  by (auto simp: detect_bottlerocket_def distro_defs result_simps Let_def split: option.splits if_splits)

lemma detect_oracle_ok: "detect_oracle os = Inr d \<Longrightarrow> distro_ok d"
  by (auto simp: detect_oracle_def distro_defs result_simps Let_def split: option.splits if_splits)

lemma detect_photon_ok: "detect_photon os = Inr d \<Longrightarrow> distro_ok d"
  by (auto simp: detect_photon_def distro_defs result_simps Let_def split: option.splits if_splits)

lemma detect_fedora_ok: "detect_fedora os = Inr d \<Longrightarrow> distro_ok d"
  by (auto simp: detect_fedora_def distro_defs result_simps Let_def split: option.splits if_splits)

lemma detect_centos_ok: "detect_centos os = Inr d \<Longrightarrow> distro_ok d"
  by (auto simp: detect_centos_def distro_defs result_simps Let_def split: option.splits if_splits)

lemma detect_rebuild_ok:
  "detect_rebuild os ''AlmaLinux'' ''almalinux'' b = Inr d \<Longrightarrow> distro_ok d"
  "detect_rebuild os ''Rocky Linux'' ''rocky-linux'' b = Inr d \<Longrightarrow> distro_ok d"
  by (auto simp: detect_rebuild_def distro_defs result_simps Let_def split: option.splits)

lemma detect_micro_ok: "detect_micro os name ''SUSE:Linux Enterprise Micro'' = Inr d \<Longrightarrow> distro_ok d"
  "detect_micro os name ''SUSE:Linux Micro'' = Inr d \<Longrightarrow> distro_ok d"
  by (auto simp: detect_micro_def distro_defs result_simps Let_def split: option.splits)

lemmas detect_arms_ok = detect_debian_ok detect_ubuntu_ok detect_alpine_ok detect_rhel_ok detect_leap_ok
  detect_leap_micro_ok detect_sles_ok detect_azure_ok detect_openeuler_ok detect_amazon_ok
  detect_bottlerocket_ok detect_oracle_ok detect_photon_ok detect_fedora_ok detect_centos_ok
  detect_rebuild_ok detect_micro_ok

lemma if_InrE: "(if P then x else y) = Inr d \<Longrightarrow> (x = Inr d \<Longrightarrow> R) \<Longrightarrow> (y = Inr d \<Longrightarrow> R) \<Longrightarrow> R"
  by (simp split: if_splits)

lemma detect_release_ok: "detect_release os dv h = Inr d \<Longrightarrow> distro_ok d"
  unfolding detect_release_def Let_def
  by (elim if_InrE)
    ((erule detect_arms_ok | (auto simp: distro_defs result_simps split: option.splits)[1])+)

text \<open>The overlay of Root's builds, for the three distributions it publishes.\<close>

lemma root_ecosystem_family:
  assumes "distro_ok d" and "root_ecosystem os d = Some e"
  shows "family_of e = Some (di_family d)"
proof -
  have root: "family_of (''Root:Debian:'' @ r) = Some DebFamily" "family_of (''Root:Ubuntu:'' @ r) = Some DebFamily"
    "family_of (''Root:Alpine:'' @ r) = Some ApkFamily" for r
    using family_of_root [of "''Debian''" r] family_of_root [of "''Ubuntu''" r] family_of_root [of "''Alpine''" r]
    by (simp_all add: vendor_simps apk_vendor_mem)
  show ?thesis
    using assms unfolding root_ecosystem_def distro_ok_def
    by (auto simp: root [simplified] split: if_splits)
qed

lemma overlay_ok:
  assumes "distro_ok d" and "\<forall>e \<in> set es. family_of e = Some (di_family d)"
  shows "distro_ok (d\<lparr>di_overlays := di_overlays d @ es\<rparr>)"
  using assms by (auto simp: distro_ok_def)

lemma suse_product_family: "suse_product_ecosystem p = Some eco \<Longrightarrow> family_of eco = Some RpmFamily \<and> family_of (suse_vex eco) = Some RpmFamily"
proof -
  assume "suse_product_ecosystem p = Some eco"
  then obtain v r where p: "split_once (CHR '' '') p = Some (v, r)" and k: "known_suse_product v r"
    and eco: "eco = v @ CHR '':'' # r"
    by (auto simp: suse_product_ecosystem_def replace_once_def bind_eq_Some_conv split: if_splits)
  have "v \<in> set rpm_vendors" using k rpm_vendor_mem(4,5) by (auto simp: known_suse_product_def split: if_splits)
  then show ?thesis using family_of_rpm [of v r] family_of_rpm [of v "r @ ''::vex''"] by (simp add: eco suse_vex_def)
qed

lemma explicit_fallbacks_family:
  assumes "family_of eco = Some f" and "e \<in> set (explicit_fallbacks eco)"
  shows "family_of e = Some f"
proof -
  let ?suse = "if suse_product_ecosystem (replace_once (CHR '':'') (CHR '' '') eco) = Some eco then [suse_vex eco] else []"
  have "e \<in> set ?suse \<Longrightarrow> family_of e = Some f"
    using assms(1) suse_product_family by (auto split: if_splits)
  moreover have "e \<in> set ?suse \<or> (\<exists>r. e = red_hat_vex r \<and> hd (split_at (CHR '':'') eco) = ''Red Hat'')"
    using assms(2) by (auto simp: explicit_fallbacks_def Let_def split: list.splits if_splits)
  moreover have "family_of (red_hat_vex r) = Some RpmFamily" for r by (simp add: red_hat_vex_def)
  moreover have "hd (split_at (CHR '':'') eco) = ''Red Hat'' \<Longrightarrow> f = RpmFamily"
    using assms(1) vendor_family_simps(2) [OF rpm_vendor_mem(1)] by (simp add: family_of_def)
  ultimately show ?thesis by metis
qed

lemma explicit_family:
  assumes "family_of eco = Some f" and "e \<in> set (ecosystems (explicit eco f))"
  shows "family_of e = Some f"
proof -
  have rebuilt: "f = RpmFamily"
    if "split_once (CHR '':'') eco = Some (v, r)" "v \<in> {''AlmaLinux'', ''Rocky Linux''}" for v r
  proof -
    have "v \<in> set rpm_vendors" using that(2) rpm_vendor_mem(2,3) by blast
    moreover have "eco = v @ CHR '':'' # r" using that(1) by (simp add: split_once_Some)
    ultimately show ?thesis using assms(1) family_of_rpm [of v r] by simp
  qed
  have "e = eco \<or> e \<in> set (explicit_fallbacks eco) \<or>
      (\<exists>r. e = red_hat_vex r \<and> f = RpmFamily)"
    using assms(2) rebuilt
    by (auto simp: explicit_def Let_def rebuild_of_rhel_def plain_distro_def split: option.splits if_splits)
  then show ?thesis
    using assms(1) explicit_fallbacks_family [OF assms(1)] by (auto simp: red_hat_vex_def)
qed

text \<open>C19: Every distribution that is detected is consistent: each ecosystem it is matched against
  holds packages of the distribution's own format, the release's own ecosystem is never optional,
  and what may be absent, is borrowed or is taken only for open issues is among the ecosystems it
  is declared for.  A distribution named in the configuration has the format found in the image,
  and its fallbacks share the format of its name.\<close>
theorem detected_distro_ok:
  "(\<forall>d. detect os debian_version h = Inr d \<longrightarrow> distro_ok d) \<and>
   (family_of eco = Some f \<longrightarrow> (\<forall>e \<in> set (ecosystems (explicit eco f)). family_of e = Some f))"
proof (intro conjI allI impI)
  fix d
  assume "detect os debian_version h = Inr d"
  then obtain d0 where d0: "detect_release os debian_version h = Inr d0"
    and d: "d = (if hi_root_io h then d0\<lparr>di_overlays := di_overlays d0 @ option_list (root_ecosystem os d0)\<rparr> else d0)"
    by (auto simp: detect_def result_simps)
  have ok: "distro_ok d0" using d0 by (rule detect_release_ok)
  moreover have "\<forall>e \<in> set (option_list (root_ecosystem os d0)). family_of e = Some (di_family d0)"
    using root_ecosystem_family [OF ok] by (auto simp: option_list_def split: option.splits)
  ultimately show "distro_ok d" unfolding d by (simp add: overlay_ok)
qed (use explicit_family in blast)

text \<open>openSUSE Leap 15.6, with the codestream it borrows from, and AlmaLinux 9 by name.\<close>

definition leap_release :: os_release where
  "leap_release = parse_os_release
     (''NAME='' @ [CHR 0x22] @ ''openSUSE Leap'' @ [CHR 0x22] @ newline @
      ''ID=opensuse-leap'' @ newline @ ''VERSION_ID='' @ [CHR 0x22] @ ''15.6'' @ [CHR 0x22] @ newline)"

definition leap_distro :: distro where
  "leap_distro = borrow_from
     (with_suse_vex (rpm_distro ''openSUSE Leap 15.6'' ''opensuse'' ''openSUSE:Leap 15.6''))
     [''SUSE:Linux Enterprise Server 15 SP6::vex'', ''SUSE:Linux Enterprise Server 15 SP6-LTSS::vex'']"

lemma leap_detected: "detect leap_release None \<lparr>hi_esm = False, hi_root_io = False\<rparr> = Inr leap_distro"
  by code_simp

lemma alma_family: "family_of ''AlmaLinux:9'' = Some RpmFamily"
  by code_simp

theorem detected_distro_ok_witness:
  "distro_ok leap_distro \<and> family_of (red_hat_vex ''9'') = Some RpmFamily"
proof
  show "distro_ok leap_distro"
    using conjunct1 [OF detected_distro_ok [of leap_release None "\<lparr>hi_esm = False, hi_root_io = False\<rparr>" "''AlmaLinux:9''" RpmFamily]]
      leap_detected by blast
  have "red_hat_vex ''9'' \<in> set (ecosystems (explicit ''AlmaLinux:9'' RpmFamily))" by code_simp
  then show "family_of (red_hat_vex ''9'') = Some RpmFamily"
    using conjunct2 [OF detected_distro_ok [of leap_release None "\<lparr>hi_esm = False, hi_root_io = False\<rparr>" "''AlmaLinux:9''" RpmFamily]]
      alma_family by blast
qed

end
