(* ===== verification/Distro_Db.thy ===== *)
theory Distro_Db
  imports Distro_Detect Osv_Db Deb_Version Apk_Version Rpm_Version
begin

text \<open>
  The database of distribution advisories, \<^verbatim>\<open>crates/os/src/db.rs\<close>: what one record contributes for
  the ecosystems a fleet runs, and the index by ecosystem and package.  Records are modelled as
  \<^verbatim>\<open>serde_json\<close> reads them; an export is what reading each of its files gave, in order: an error or
  a record (the files of one export are read in parallel; of several errors the first in file order
  is the one reported here).  \<open>cvss\<close> is the CVSS parser that \<^verbatim>\<open>default_severity\<close> calls.  A set of strings that is only
  asked for membership is a \<^typ>\<open>string set\<close>.
\<close>

section \<open>Advisories\<close>

record 'v dist_advisory =
  da_id :: string
  da_aliases :: "string list"
  da_title :: string
  da_severity :: severity
  da_cvss :: "score option"
  da_vector :: "string option"
  da_urgency :: "string option"
  da_module :: "string option"
  da_url :: "string option"
  da_ranges :: "'v parsed_range list"
  da_versions :: "'v list"

definition unimportant :: "'v dist_advisory \<Rightarrow> bool" where
  "unimportant a \<longleftrightarrow> opt_test (\<lambda>u. u = ''unimportant'' \<or> u = ''negligible'') (da_urgency a)"

definition adv_keys :: "'v dist_advisory \<Rightarrow> string list" where
  "adv_keys a = da_id a # da_aliases a"

text \<open>A family's versions: \<^verbatim>\<open>Ord\<close>, \<^verbatim>\<open>Display\<close>, the parser and the parser of an advisory's bound.\<close>

record 'v os_versions =
  ov_cmp :: "'v cmp"
  ov_show :: "'v \<Rightarrow> string"
  ov_parse :: "string \<Rightarrow> 'v option"
  ov_parse_bound :: "string \<Rightarrow> 'v option"

definition deb_versions :: "deb_version os_versions" where
  "deb_versions = \<lparr>ov_cmp = deb_cmp, ov_show = dv_raw, ov_parse = deb_parse, ov_parse_bound = deb_parse\<rparr>"

definition apk_versions :: "apk_version os_versions" where
  "apk_versions = \<lparr>ov_cmp = apk_cmp, ov_show = av_raw, ov_parse = apk_parse, ov_parse_bound = apk_parse\<rparr>"

definition rpm_versions :: "rpm_version os_versions" where
  "rpm_versions = \<lparr>ov_cmp = rpm_cmp, ov_show = rpm_show, ov_parse = rpm_parse, ov_parse_bound = rpm_parse_fix\<rparr>"

section \<open>The index\<close>

type_synonym 'v os_index = "(string \<times> string, 'v dist_advisory list) btree"

abbreviation key_cmp2 :: "(string \<times> string) cmp" where
  "key_cmp2 \<equiv> cmp_pair str_cmp str_cmp"

record distro_db =
  dd_deb :: "deb_version os_index"
  dd_apk :: "apk_version os_index"
  dd_rpm :: "rpm_version os_index"
  dd_records :: "(string, nat) btree"

definition index_get :: "string \<Rightarrow> string \<Rightarrow> 'v os_index \<Rightarrow> 'v dist_advisory list" where
  "index_get eco package ix = (case bt_get key_cmp2 (eco, package) ix of None \<Rightarrow> [] | Some advs \<Rightarrow> advs)"

definition db_deb :: "distro_db \<Rightarrow> string \<Rightarrow> string \<Rightarrow> deb_version dist_advisory list" where
  "db_deb db eco package = index_get eco package (dd_deb db)"

definition db_apk :: "distro_db \<Rightarrow> string \<Rightarrow> string \<Rightarrow> apk_version dist_advisory list" where
  "db_apk db eco package = index_get eco package (dd_apk db)"

definition db_rpm :: "distro_db \<Rightarrow> string \<Rightarrow> string \<Rightarrow> rpm_version dist_advisory list" where
  "db_rpm db eco package = index_get eco package (dd_rpm db)"

definition index_has :: "string \<Rightarrow> string \<Rightarrow> 'v os_index \<Rightarrow> bool" where
  "index_has eco package ix \<longleftrightarrow> bt_get key_cmp2 (eco, package) ix \<noteq> None"

definition db_mentions :: "distro_db \<Rightarrow> string \<Rightarrow> bool" where
  "db_mentions db package \<longleftrightarrow>
     list_ex (\<lambda>(eco, _). index_has eco package (dd_deb db) \<or> index_has eco package (dd_apk db) \<or>
       index_has eco package (dd_rpm db)) (dd_records db)"

definition db_records :: "distro_db \<Rightarrow> string \<Rightarrow> nat" where
  "db_records db eco = (case bt_get str_cmp eco (dd_records db) of None \<Rightarrow> 0 | Some n \<Rightarrow> n)"

definition index_len :: "'v os_index \<Rightarrow> nat" where
  "index_len ix = sum_list (map (\<lambda>p. length (snd p)) ix)"

definition distro_db_len :: "distro_db \<Rightarrow> nat" where
  "distro_db_len db = index_len (dd_deb db) + index_len (dd_apk db) + index_len (dd_rpm db)"

definition distro_db_is_empty :: "distro_db \<Rightarrow> bool" where
  "distro_db_is_empty db \<longleftrightarrow> distro_db_len db = 0"

section \<open>Records as read\<close>

record os_reference =
  rf_kind :: "string option"
  rf_url :: "string option"

record ecosystem_specific =
  es_urgency :: "string option"
  es_ubuntu_priority :: "string option"
  es_status :: "string option"
  es_module :: "string option"

record os_affected =
  oa_package :: "osv_package option"
  oa_ranges :: "raw_range list"
  oa_versions :: "string list"
  oa_specific :: "ecosystem_specific option"

record os_record =
  ox_id :: string
  ox_references :: "os_reference list"
  ox_aliases :: "string list"
  ox_upstream :: "string list"
  ox_related :: "string list"
  ox_summary :: "string option"
  ox_details :: "string option"
  ox_withdrawn :: "string option"
  ox_affected :: "os_affected list"
  ox_severity :: "severity_entry list"
  ox_database_specific :: "database_specific option"

record wanted =
  wa_ecosystems :: "(string, family) btree"
  wa_packages :: "string set option"
  wa_frozen :: "(string, string) btree"
  wa_relabel :: "string option"

definition wanted_at :: "wanted \<Rightarrow> string \<Rightarrow> wanted" where
  "wanted_at w path =
     (case Option.bind (bt_get str_cmp path (wa_frozen w)) (\<lambda>eco.
             Option.bind (frozen_export eco) (\<lambda>export.
             map_option (\<lambda>f. (eco, export, f)) (bt_get str_cmp eco (wa_ecosystems w)))) of
        None \<Rightarrow> w
      | Some (eco, export, f) \<Rightarrow>
          \<lparr>wa_ecosystems = [(export, f)], wa_packages = wa_packages w, wa_frozen = [],
           wa_relabel = Some eco\<rparr>)"

section \<open>What a record says of itself\<close>

text \<open>The trimmed text when it is not empty.\<close>

definition spoken_text :: "string option \<Rightarrow> string option" where
  "spoken_text t = Option.bind t (\<lambda>s. if trim s = [] then None else Some (trim s))"

text \<open>\<^verbatim>\<open>chars().take(n)\<close>: a byte from 128 to 191 continues the character before it.\<close>

definition continues :: "char \<Rightarrow> bool" where
  "continues c \<longleftrightarrow> 128 \<le> byte c \<and> byte c < 192"

fun take_chars :: "nat \<Rightarrow> string \<Rightarrow> string" where
  "take_chars n [] = []"
| "take_chars n (c # cs) =
     (if continues c then c # take_chars n cs
      else case n of 0 \<Rightarrow> [] | Suc m \<Rightarrow> c # take_chars m cs)"

definition char_count :: "string \<Rightarrow> nat" where
  "char_count s = length (filter (\<lambda>c. \<not> continues c) s)"

definition ellipsis :: string where
  "ellipsis = map char_of [226, 128, 166 :: nat]"

definition os_title :: "os_record \<Rightarrow> string" where
  "os_title r =
     (case spoken_text (ox_summary r) of
        Some s \<Rightarrow> s
      | None \<Rightarrow>
          (case spoken_text (ox_details r) of
             Some d \<Rightarrow>
               let first = (case text_lines d of [] \<Rightarrow> d | l # _ \<Rightarrow> l);
                   sentence = hd (split_str ''. '' first)
               in take_chars 120 sentence @ (if 120 < char_count sentence then ellipsis else [])
           | None \<Rightarrow> ox_id r))"

definition is_cve :: "string \<Rightarrow> bool" where
  "is_cve k \<longleftrightarrow> starts_with ''CVE-'' k"

definition cve_in_id :: "string \<Rightarrow> string option" where
  "cve_in_id ident = map_option (\<lambda>(a, b). ''CVE-'' @ b) (split_once_str ''CVE-'' ident)"

definition os_aliases_of :: "os_record \<Rightarrow> string list" where
  "os_aliases_of r =
     bs_items (bs_of_list str_cmp
       (ox_aliases r @ ox_upstream r @ filter is_cve (ox_related r) @
        (if is_cve (ox_id r) then [ox_id r] else []) @ option_list (cve_in_id (ox_id r))))"

definition band_from_urgency :: "string \<Rightarrow> severity" where
  "band_from_urgency u =
     (if u \<in> {''low'', ''unimportant'', ''negligible''} then Low
      else if u = ''medium'' then Medium
      else if u = ''high'' then High
      else if u = ''critical'' then Critical
      else Unknown)"

definition not_security :: "string \<Rightarrow> string list \<Rightarrow> bool" where
  "not_security ident aliases \<longleftrightarrow>
     (starts_with ''ALBA-'' ident \<or> starts_with ''ALEA-'' ident) \<and> \<not> list_ex is_cve aliases"

section \<open>Ranges\<close>

text \<open>
  The loop of \<^verbatim>\<open>open_inverted_range\<close>; the state is the index of the last event that opened a range,
  and the events with what was changed so far.
\<close>

definition is_inverted :: "'v cmp \<Rightarrow> 'v parsed_event \<Rightarrow> 'v \<Rightarrow> bool" where
  "is_inverted c opener fix_v \<longleftrightarrow>
     (case pe_introduced opener of Some (Bound v) \<Rightarrow> c v fix_v = Greater | _ \<Rightarrow> False)"

definition open_step ::
  "'v cmp \<Rightarrow> nat \<Rightarrow> nat option \<times> 'v parsed_event list \<Rightarrow> nat option \<times> 'v parsed_event list" where
  "open_step c n st =
     (case st of (opened, events) \<Rightarrow>
        let inverted = (case (opened, pe_fixed (events ! n)) of
              (Some i, Some f) \<Rightarrow> is_inverted c (events ! i) f
            | _ \<Rightarrow> False);
            events' = (case opened of
                Some i \<Rightarrow> if inverted then events[i := (events ! i)\<lparr>pe_introduced := Some Unparseable\<rparr>] else events
              | None \<Rightarrow> events)
        in (if pe_introduced (events' ! n) \<noteq> None then Some n else opened, events'))"

definition open_inverted_range :: "'v cmp \<Rightarrow> 'v parsed_range \<Rightarrow> 'v parsed_range" where
  "open_inverted_range c rng =
     rng\<lparr>pr_events := snd (fold (open_step c) [0..<length (pr_events rng)] (None, pr_events rng))\<rparr>"

definition ranges_of :: "'v os_versions \<Rightarrow> os_affected \<Rightarrow> 'v parsed_range list" where
  "ranges_of ov a =
     map (\<lambda>r. open_inverted_range (ov_cmp ov) (parse_range (ov_parse_bound ov)
            \<lparr>rg_matchable = (rr_kind r = Some ''ECOSYSTEM''),
             rg_events = map (\<lambda>e. \<lparr>ev_introduced = re_introduced e, ev_fixed = re_fixed e,
                                   ev_last_affected = re_last_affected e\<rparr>) (rr_events r)\<rparr>))
       (oa_ranges a)"

section \<open>Module streams\<close>

definition stream_part :: "string \<Rightarrow> bool" where
  "stream_part s \<longleftrightarrow> s \<noteq> [] \<and> is_ascii_alphanumeric (hd s) \<and>
     list_all (\<lambda>c. is_ascii_alphanumeric c \<or> c \<in> set ''_.+-'') s"

definition stream_word :: "string \<Rightarrow> string list \<Rightarrow> string list" where
  "stream_word raw out =
     (let word = drop_last_while (\<lambda>c. c \<in> set '',;)'') raw in
      case split_once (CHR '':'') word of
        None \<Rightarrow> out
      | Some (name, stream) \<Rightarrow>
          if stream_part name \<and> stream_part stream \<and> word \<notin> set out then out @ [word] else out)"

definition summary_streams :: "string \<Rightarrow> string list" where
  "summary_streams summary = fold stream_word (split_whitespace summary) []"

definition module_fix_streams :: "family \<Rightarrow> os_affected \<Rightarrow> string option \<Rightarrow> string option" where
  "module_fix_streams f a summary =
     (let module_fix = list_ex (contains_str ''.module'')
            (List.map_filter re_fixed (concat (map rr_events (oa_ranges a))))
      in if f \<noteq> RpmFamily \<or> \<not> module_fix then None
         else Option.bind summary (\<lambda>s.
           let streams = summary_streams s in if streams = [] then None else Some (join_with '','' streams)))"

section \<open>What a record contributes\<close>

datatype os_entry =
  DebEntry "string \<times> string" "deb_version dist_advisory"
| ApkEntry "string \<times> string" "apk_version dist_advisory"
| RpmEntry "string \<times> string" "rpm_version dist_advisory"

text \<open>Root's two spellings of a build are read as one.\<close>

definition root_affected :: "os_affected \<Rightarrow> os_affected" where
  "root_affected a =
     (if opt_test (starts_with ''Root:'') (Option.bind (oa_package a) pk_ecosystem) then
        a\<lparr>oa_versions := map root_build (oa_versions a),
          oa_ranges := map (\<lambda>r. r\<lparr>rr_events := map (\<lambda>e. e\<lparr>re_fixed := map_option root_build (re_fixed e)\<rparr>)
                                   (rr_events r)\<rparr>) (oa_ranges a)\<rparr>
      else a)"

text \<open>The fields all of a record's advisories share.\<close>

record record_head =
  rh_id :: string
  rh_aliases :: "string list"
  rh_title :: string
  rh_severity :: severity
  rh_score :: "score option"
  rh_vector :: "string option"
  rh_summary :: "string option"
  rh_references :: "os_reference list"

definition record_head_of :: "cvss_parser \<Rightarrow> os_record \<Rightarrow> record_head" where
  "record_head_of cvss r =
     \<lparr>rh_id = ox_id r, rh_aliases = os_aliases_of r, rh_title = os_title r,
      rh_severity = fst (severity_from cvss (ox_severity r) (ox_database_specific r)),
      rh_score = snd (severity_from cvss (ox_severity r) (ox_database_specific r)),
      rh_vector = cvss_vector_in (ox_severity r), rh_summary = ox_summary r,
      rh_references = ox_references r\<rparr>"

definition urgency_of :: "os_affected \<Rightarrow> string option" where
  "urgency_of a =
     Option.bind (oa_specific a) (\<lambda>e. opt_or (es_urgency e) (opt_or (es_ubuntu_priority e) (es_status e)))"

definition vendor_url :: "string \<Rightarrow> os_reference list \<Rightarrow> string option" where
  "vendor_url eco refs =
     (if feed_for eco \<noteq> None \<or> is_vex eco then
        Option.bind (Option.bind (List.find (\<lambda>x. rf_kind x = Some ''ADVISORY'') refs) rf_url)
          (\<lambda>u. if starts_with ''https://'' u then Some u else None)
      else None)"

definition dist_advisory_of ::
  "'v os_versions \<Rightarrow> family \<Rightarrow> string \<Rightarrow> record_head \<Rightarrow> os_affected \<Rightarrow> 'v dist_advisory" where
  "dist_advisory_of ov f eco h a =
     \<lparr>da_id = rh_id h, da_aliases = rh_aliases h, da_title = rh_title h,
      da_severity =
        (if rh_severity h = Unknown
         then (case urgency_of a of None \<Rightarrow> Unknown | Some u \<Rightarrow> band_from_urgency u) else rh_severity h),
      da_cvss = rh_score h, da_vector = rh_vector h, da_urgency = urgency_of a,
      da_module = opt_or (Option.bind (oa_specific a) es_module) (module_fix_streams f a (rh_summary h)),
      da_url = vendor_url eco (rh_references h),
      da_ranges = ranges_of ov a,
      da_versions = sort_dedup (ov_cmp ov) (List.map_filter (ov_parse ov) (oa_versions a))\<rparr>"

definition entry_of :: "family \<Rightarrow> string \<Rightarrow> string \<Rightarrow> record_head \<Rightarrow> os_affected \<Rightarrow> os_entry" where
  "entry_of f eco name h a =
     (case f of
        DebFamily \<Rightarrow> DebEntry (eco, name) (dist_advisory_of deb_versions f eco h a)
      | ApkFamily \<Rightarrow> ApkEntry (eco, name) (dist_advisory_of apk_versions f eco h a)
      | RpmFamily \<Rightarrow> RpmEntry (eco, name) (dist_advisory_of rpm_versions f eco h a))"

definition bump :: "nat \<Rightarrow> string \<Rightarrow> (string, nat) btree \<Rightarrow> (string, nat) btree" where
  "bump n eco m = bt_alter str_cmp eco (\<lambda>old. (case old of None \<Rightarrow> 0 | Some k \<Rightarrow> k) + n) m"

definition affected_step ::
  "wanted \<Rightarrow> record_head \<Rightarrow> os_affected \<Rightarrow> os_entry list \<times> (string, nat) btree \<Rightarrow> os_entry list \<times> (string, nat) btree" where
  "affected_step w h a st =
     (case Option.bind (oa_package a) (\<lambda>p. case (pk_name p, pk_ecosystem p) of
              (Some name, Some eco) \<Rightarrow> map_option (\<lambda>f. (name, eco, f)) (bt_get str_cmp eco (wa_ecosystems w))
            | _ \<Rightarrow> None) of
        None \<Rightarrow> st
      | Some (name, raw_eco, f) \<Rightarrow>
          let eco = (case wa_relabel w of None \<Rightarrow> raw_eco | Some e \<Rightarrow> e);
              counts = bump 1 eco (snd st)
          in if opt_test (\<lambda>ps. name \<notin> ps) (wa_packages w) then (fst st, counts)
             else (fst st @ [entry_of f eco name h a], counts))"

definition os_entries_of :: "cvss_parser \<Rightarrow> wanted \<Rightarrow> os_record \<Rightarrow> os_entry list \<times> (string, nat) btree" where
  "os_entries_of cvss w r =
     (if ox_withdrawn r \<noteq> None then ([], [])
      else if not_security (ox_id r) (os_aliases_of r) then ([], [])
      else fold (affected_step w (record_head_of cvss r)) (map root_affected (ox_affected r)) ([], []))"

section \<open>Loading\<close>

definition file_entry :: "os_entry \<Rightarrow> distro_db \<Rightarrow> distro_db" where
  "file_entry e db =
     (case e of
        DebEntry k a \<Rightarrow> db\<lparr>dd_deb := bt_push key_cmp2 k a (dd_deb db)\<rparr>
      | ApkEntry k a \<Rightarrow> db\<lparr>dd_apk := bt_push key_cmp2 k a (dd_apk db)\<rparr>
      | RpmEntry k a \<Rightarrow> db\<lparr>dd_rpm := bt_push key_cmp2 k a (dd_rpm db)\<rparr>)"

definition file_record :: "os_entry list \<times> (string, nat) btree \<Rightarrow> distro_db \<Rightarrow> distro_db" where
  "file_record rec db =
     (case rec of (entries, counts) \<Rightarrow>
        fold file_entry entries (db\<lparr>dd_records := fold (\<lambda>(eco, n). bump n eco) counts (dd_records db)\<rparr>))"

definition empty_db :: "wanted \<Rightarrow> distro_db" where
  "empty_db w =
     \<lparr>dd_deb = [], dd_apk = [], dd_rpm = [],
      dd_records = fold (\<lambda>(eco, _). bt_insert str_cmp eco 0) (wa_ecosystems w) []\<rparr>"

definition load_export ::
  "cvss_parser \<Rightarrow> wanted \<Rightarrow> string \<times> ('e + os_record) list \<Rightarrow> 'e + (os_entry list \<times> (string, nat) btree) list" where
  "load_export cvss w export =
     and_then (collect_results (snd export)) (\<lambda>records.
       Inr (map (os_entries_of cvss (wanted_at w (fst export))) records))"

definition load_distro ::
  "cvss_parser \<Rightarrow> (string \<times> ('e + os_record) list) list \<Rightarrow> wanted \<Rightarrow> 'e + distro_db" where
  "load_distro cvss exports w =
     try_fold (\<lambda>export db. and_then (load_export cvss w export) (\<lambda>per_record. Inr (fold file_record per_record db)))
       exports (empty_db w)"

end
