(* ===== verification/Centos.thy ===== *)
theory Centos
  imports Rpm_Version Distro
begin

text \<open>
  What CentOS Linux shipped, \<^verbatim>\<open>crates/os/src/centos.rs\<close>: the table of final builds read from the
  bundled snapshot (the text of \<^verbatim>\<open>data/centos.tsv\<close> is an argument), the rebranded form of a Red Hat
  release, and whether a fix was shipped.
\<close>

type_synonym centos_builds = "(string \<times> string, (string \<times> rpm_version) list) btree"

definition build_line :: "string \<Rightarrow> centos_builds \<Rightarrow> centos_builds" where
  "build_line line out =
     (case split_at (char_of (9 :: nat)) line of
        release # name # stream # build # _ \<Rightarrow>
          (case rpm_parse build of
             Some v \<Rightarrow> bt_push (cmp_pair str_cmp str_cmp) (release, name) (stream, v) out
           | None \<Rightarrow> out)
      | _ \<Rightarrow> out)"

definition centos_builds :: "string \<Rightarrow> centos_builds" where
  "centos_builds snapshot = fold build_line (filter (\<lambda>l. \<not> starts_with ''#'' l) (text_lines snapshot)) []"

definition rebrand :: "string \<Rightarrow> string option" where
  "rebrand version =
     Option.bind (split_once_str ''.el'' version) (\<lambda>(before, rest).
       let mj = takeWhile is_ascii_digit rest in
       Option.bind (strip_prefix ''_'' (drop (length mj) rest)) (\<lambda>tail.
         let minor = takeWhile is_ascii_digit tail in
         if mj = [] \<or> minor = [] then None
         else Some (before @ ''.el'' @ mj @ ''.centos'' @ drop (length minor) tail)))"

text \<open>Which builds of the table an advisory's fix is compared with.\<close>

definition stream_counts :: "bool \<Rightarrow> string list \<Rightarrow> string \<Rightarrow> bool" where
  "stream_counts module_fix streams s =
     (if \<not> module_fix then s = ''-'' else if s = ''-'' then False else streams = [] \<or> s \<in> set streams)"

definition rpm_ge :: "rpm_version \<Rightarrow> rpm_version \<Rightarrow> bool" where
  "rpm_ge a b \<longleftrightarrow> rpm_cmp a b \<noteq> Less"

definition centos_shipped :: "centos_builds \<Rightarrow> string \<Rightarrow> string \<Rightarrow> string option \<Rightarrow> string \<Rightarrow> bool" where
  "centos_shipped builds release name modules fix_s =
     (let module_fix = contains_str ''.module'' fix_s;
          rebranded = Option.bind (rebrand fix_s) rpm_parse_fix;
          streams = (case modules of None \<Rightarrow> [] | Some m \<Rightarrow> split_at (CHR '','') m)
      in case rpm_parse_fix fix_s of
           None \<Rightarrow> False
         | Some f \<Rightarrow>
             list_ex (\<lambda>(stream, build).
                 stream_counts module_fix streams stream \<and>
                 opt_test (\<lambda>b. rpm_ge b f \<or> opt_test (rpm_ge b) rebranded)
                   (if module_fix then rpm_parse_fix (rpm_show build) else Some build))
               (case bt_get (cmp_pair str_cmp str_cmp) (release, name) builds of None \<Rightarrow> [] | Some bs \<Rightarrow> bs))"

end
