(* ===== verification/Distro_Scan.thy ===== *)
theory Distro_Scan
  imports Distro_Db Centos Osv_Findings Rust_Search Osv_Safe
begin

text \<open>
  Matching installed OS packages against the distribution's advisories, \<^verbatim>\<open>crates/os/src/scan.rs\<close>.
  \<open>match_env\<close> holds what \<^verbatim>\<open>match_source\<close> is given and its closures capture; each of its local
  collections is a definition of its own.  A \<^verbatim>\<open>BTreeSet<&str>\<close> that is only asked for membership is a
  \<^typ>\<open>string set\<close>.
\<close>

section \<open>Packages as installed\<close>

record os_package =
  op_name :: string
  op_version :: string
  op_source :: string
  op_source_version :: string
  op_arch :: "string option"
  op_module :: "string option"

record source_pkg =
  sp_name :: string
  sp_source :: string
  sp_version :: string
  sp_binaries :: "string list"
  sp_other_versions :: "(string, string) btree"
  sp_module :: "string option"
  sp_of_source :: bool

type_synonym source_key = "string \<times> string \<times> string option"

definition source_key_cmp :: "source_key cmp" where
  "source_key_cmp = cmp_pair str_cmp (cmp_pair str_cmp (cmp_opt str_cmp))"

definition source_key :: "bool \<Rightarrow> os_package \<Rightarrow> source_key" where
  "source_key binary_names p =
     (if binary_names then (op_name p, op_version p, op_module p)
      else (op_source p, op_source_version p, op_module p))"

type_synonym source_group = "string \<times> string list \<times> (string, string) btree \<times> bool"

definition add_package :: "bool \<Rightarrow> os_package \<Rightarrow> (source_key, source_group) btree \<Rightarrow> (source_key, source_group) btree" where
  "add_package binary_names p by_key =
     (let key = source_key binary_names p in
      bt_alter source_key_cmp key (\<lambda>old.
        case (case old of
                None \<Rightarrow> (op_source p, [], [], op_version p = op_source_version p)
              | Some g \<Rightarrow> g) of
          (source, binaries, others, of_source) \<Rightarrow>
            (source, binaries @ [op_name p],
             (if op_version p \<noteq> fst (snd key) then bt_insert str_cmp (op_name p) (op_version p) others else others),
             of_source)) by_key)"

definition source_of_group :: "source_key \<times> source_group \<Rightarrow> source_pkg" where
  "source_of_group g =
     (case g of ((name, version, module_s), (source, binaries, others, of_source)) \<Rightarrow>
        \<lparr>sp_name = name, sp_source = source, sp_version = version,
         sp_binaries = sort_dedup str_cmp binaries, sp_other_versions = others,
         sp_module = module_s, sp_of_source = of_source\<rparr>)"

definition sources :: "os_package list \<Rightarrow> bool \<Rightarrow> source_pkg list" where
  "sources packages binary_names = map source_of_group (fold (add_package binary_names) packages [])"

section \<open>The SemVer rendering\<close>

definition strip_epoch :: "string \<Rightarrow> string" where
  "strip_epoch raw =
     (case split_once (CHR '':'') raw of
        Some (e, rest) \<Rightarrow> if only_digits e then rest else raw
      | None \<Rightarrow> raw)"

text \<open>Runs of letters and of digits, other characters left out.\<close>

fun alnum_runs :: "string \<Rightarrow> bool option \<Rightarrow> string \<Rightarrow> string list" where
  "alnum_runs run digit [] = (if run = [] then [] else [run])"
| "alnum_runs run digit (c # cs) =
     (if \<not> is_ascii_alphanumeric c then alnum_runs run digit cs
      else (let d = is_ascii_digit c in
        if opt_test (\<lambda>p. p \<noteq> d) digit then run # alnum_runs [c] (Some d) cs
        else alnum_runs (run @ [c]) (Some d) cs))"

text \<open>The state of the loop over the tokens: the numbers, the tail, and whether the tail has begun.\<close>

definition semver_token :: "string \<times> bool \<Rightarrow> nat list \<times> string list \<times> bool \<Rightarrow> nat list \<times> string list \<times> bool" where
  "semver_token t st =
     (case (t, st) of ((tok, in_head), (nums, tail, in_tail)) \<Rightarrow>
        (case (if \<not> in_tail \<and> in_head \<and> length nums < 3 then parse_u64 tok else None) of
           Some n \<Rightarrow> (nums @ [n], tail, False)
         | None \<Rightarrow> (nums, tail @ alnum_runs [] None tok, True)))"

definition release_end :: "char \<Rightarrow> bool" where
  "release_end c \<longleftrightarrow> c = CHR ''-'' \<or> c = CHR ''+'' \<or> c = CHR 0x7E \<or> c = CHR ''_'' \<or> c = CHR '':''"

definition to_semver :: "('s, 'r) semver_lib \<Rightarrow> string \<Rightarrow> 's" where
  "to_semver lib raw =
     (let body = strip_epoch raw;
          head = takeWhile (\<lambda>c. \<not> release_end c) body;
          rest = dropWhile (\<lambda>c. \<not> release_end c) body;
          tokens = map (\<lambda>t. (t, True)) (split_at (CHR ''.'') head) @
                   map (\<lambda>t. (t, False)) (split_on (\<lambda>c. c = CHR ''.'' \<or> release_end c) rest)
      in case fold semver_token tokens ([], [], False) of
           (nums, tail, _) \<Rightarrow>
             let tail = map (\<lambda>t. case parse_u64 t of Some n \<Rightarrow> show_nat n | None \<Rightarrow> t) tail;
                 v = sv_new lib (nth_or0 nums 0) (nth_or0 nums 1) (nth_or0 nums 2)
             in if tail = [] then v else set_pre lib (join_with ''.'' tail) v)"

section \<open>Whether an advisory matches\<close>

definition os_at_or_after :: "'v os_versions \<Rightarrow> 'v \<Rightarrow> 'v \<Rightarrow> bool" where
  "os_at_or_after ov v bound \<longleftrightarrow> ov_show ov bound = ''0'' \<or> ov_cmp ov v bound \<noteq> Less"

text \<open>\<open>None\<close>: not affected; otherwise the fix, if there is one.\<close>

definition os_affects :: "'v os_versions \<Rightarrow> 'v \<Rightarrow> 'v dist_advisory \<Rightarrow> 'v option option" where
  "os_affects ov v adv =
     (case affected_fixed_parsed (ov_cmp ov) (os_at_or_after ov) v (da_ranges adv) of
        Affected fix_v \<Rightarrow> Some fix_v
      | NotAffected \<Rightarrow> if binary_contains (ov_cmp ov) v (da_versions adv) then Some None else None)"

definition has_fix :: "'v parsed_range list \<Rightarrow> bool" where
  "has_fix ranges \<longleftrightarrow>
     list_ex (\<lambda>r. list_ex (\<lambda>e. pe_fixed e \<noteq> None) (pr_events r)) (filter pr_matchable ranges)"

definition in_stream :: "distro \<Rightarrow> source_pkg \<Rightarrow> string \<Rightarrow> bool" where
  "in_stream d src modules \<longleftrightarrow>
     list_ex (\<lambda>m.
       case sp_module src of
         Some own \<Rightarrow> own = m
       | None \<Rightarrow>
           contains_str ''.module'' (sp_version src) \<and>
           (case (case split_once (CHR '':'') m of None \<Rightarrow> (m, []) | Some p \<Rightarrow> p) of
              (name, stream) \<Rightarrow>
                (case bt_get str_cmp name (di_modules d) of None \<Rightarrow> True | Some s \<Rightarrow> s = stream)))
       (split_at (CHR '','') modules)"

definition all_fixes :: "'v parsed_range list \<Rightarrow> 'v list" where
  "all_fixes ranges = List.map_filter pe_fixed (concat (map pr_events (filter pr_matchable ranges)))"

definition non_module_fix_for_module_build :: "'v os_versions \<Rightarrow> source_pkg \<Rightarrow> 'v dist_advisory \<Rightarrow> bool" where
  "non_module_fix_for_module_build ov src adv \<longleftrightarrow>
     (sp_module src \<noteq> None \<or> contains_str ''.module'' (sp_version src)) \<and> da_module adv = None \<and>
     all_fixes (da_ranges adv) \<noteq> [] \<and>
     list_all (\<lambda>f. \<not> contains_str ''.module'' (ov_show ov f)) (all_fixes (da_ranges adv))"

section \<open>Findings\<close>

record 'v match_env =
  me_versions :: "'v os_versions"
  me_distro :: distro
  me_repo :: repo_id
  me_ignore_unimportant :: bool
  me_builds :: centos_builds
  me_src :: source_pkg
  me_version :: 'v
  me_by_name :: "string \<Rightarrow> string \<Rightarrow> 'v dist_advisory list"

definition name_of_urgency :: "distro \<Rightarrow> string" where
  "name_of_urgency d =
     (let n = di_namespace d in
      if n = ''ubuntu'' then ''priority''
      else if n \<in> {''redhat'', ''suse'', ''opensuse''} then ''status''
      else if n \<in> {''almalinux'', ''rocky-linux'', ''centos''} then ''Red Hat status''
      else ''urgency'')"

definition release_shipped :: "'v match_env \<Rightarrow> string \<Rightarrow> 'v dist_advisory \<Rightarrow> 'v \<Rightarrow> bool" where
  "release_shipped E package adv fix_v \<longleftrightarrow>
     (case di_final_builds (me_distro E) of
        None \<Rightarrow> True
      | Some release \<Rightarrow>
          centos_shipped (me_builds E) release package (da_module adv) (ov_show (me_versions E) fix_v))"

type_synonym own_version = "(string \<times> string) option"

definition finding_patched :: "('s, 'r) semver_lib \<Rightarrow> 'v match_env \<Rightarrow> 'v dist_advisory \<Rightarrow> own_version \<Rightarrow> 'r list" where
  "finding_patched lib E adv binary =
     (let installed = to_semver lib (sp_version (me_src E));
          ov = me_versions E;
          patched = patched_reqs lib (\<lambda>b. sv_show lib (to_semver lib (ov_show ov b)))
            (safe_intervals (ov_cmp ov) (me_version E) (da_ranges adv))
      in if binary \<noteq> None \<or> list_ex (\<lambda>r. req_matches lib r installed) patched then [] else patched)"

definition finding_notes :: "'v match_env \<Rightarrow> 'v dist_advisory \<Rightarrow> 'v option \<Rightarrow> own_version \<Rightarrow> string list" where
  "finding_notes E adv fix_v binary =
     (case binary of None \<Rightarrow> [] | Some (name, version) \<Rightarrow> [name @ '' '' @ version]) @
     [case fix_v of
        None \<Rightarrow> if has_fix (da_ranges adv) then ''fixed only in another line'' else ''no fix yet''
      | Some f \<Rightarrow> ''fixed in '' @ ov_show (me_versions E) f] @
     (case da_urgency adv of None \<Rightarrow> [] | Some u \<Rightarrow> [name_of_urgency (me_distro E) @ '' '' @ u])"

primrec family_ecosystem :: "family \<Rightarrow> ecosystem" where
  "family_ecosystem DebFamily = Deb"
| "family_ecosystem ApkFamily = Apk"
| "family_ecosystem RpmFamily = Rpm"

definition os_finding ::
  "('s, 'r) semver_lib \<Rightarrow> 'v match_env \<Rightarrow> 'v dist_advisory \<Rightarrow> 'v option \<Rightarrow> own_version \<Rightarrow> ('s, 'r) vuln_finding" where
  "os_finding lib E adv fix_v binary =
     (let d = me_distro E; src = me_src E;
          f = tier_c_build
            \<lparr>tc_ecosystem = family_ecosystem (di_family d), tc_id = da_id adv, tc_aliases = da_aliases adv,
             tc_title = da_title adv @ '' ['' @ di_name d @ '': '' @
               join_with ''; '' (finding_notes E adv fix_v binary) @ '']'',
             tc_severity = da_severity adv, tc_cvss = da_cvss adv, tc_vector = da_vector adv,
             tc_package = di_namespace d @ ''/'' @ sp_name src,
             tc_installed = to_semver lib (sp_version src),
             tc_patched = finding_patched lib E adv binary,
             tc_direct = True, tc_dev = False,
             tc_path = [di_name d, sp_name src @ '' '' @ sp_version src, join_with '', '' (sp_binaries src)],
             tc_repo = me_repo E, tc_reason = ''OS package (no toolchain): version match only''\<rparr>
      in case da_url adv of None \<Rightarrow> f | Some u \<Rightarrow> f\<lparr>vf_url := Some u\<rparr>)"

end
