(* ===== verification/Distro_Match.thy ===== *)
theory Distro_Match
  imports Distro_Scan
begin

text \<open>
  \<^verbatim>\<open>match_source\<close>, \<^verbatim>\<open>rebranded\<close> and \<^verbatim>\<open>scan\<close> of \<^verbatim>\<open>crates/os/src/scan.rs\<close>: which advisories are consulted for
  one source package, in which order of precedence, and what is reported of them.
\<close>

section \<open>The advisories consulted\<close>

definition is_root_eco :: "string \<Rightarrow> bool" where
  "is_root_eco eco \<longleftrightarrow> starts_with ''Root:'' eco"

definition cve_keys :: "'v dist_advisory \<Rightarrow> string list" where
  "cve_keys a = filter is_cve (adv_keys a)"

definition plain_name :: "'v match_env \<Rightarrow> string" where
  "plain_name E = unrooted (sp_name (me_src E))"

definition eco_lookup :: "'v match_env \<Rightarrow> string \<Rightarrow> 'v dist_advisory list" where
  "eco_lookup E eco = me_by_name E eco (if is_root_eco eco then sp_name (me_src E) else plain_name E)"

definition matches :: "'v match_env \<Rightarrow> 'v dist_advisory \<Rightarrow> 'v option option" where
  "matches E adv = os_affects (me_versions E) (me_version E) adv"

definition in_reach :: "'v match_env \<Rightarrow> 'v dist_advisory \<Rightarrow> bool" where
  "in_reach E adv \<longleftrightarrow>
     (case da_module adv of None \<Rightarrow> True | Some m \<Rightarrow> in_stream (me_distro E) (me_src E) m) \<and>
     \<not> non_module_fix_for_module_build (me_versions E) (me_src E) adv"

text \<open>\<^verbatim>\<open>retain\<close> of the first element under each key.\<close>

fun first_by :: "('a \<Rightarrow> 'k) \<Rightarrow> 'k set \<Rightarrow> 'a list \<Rightarrow> 'a list" where
  "first_by key seen [] = []"
| "first_by key seen (x # xs) =
     (if key x \<in> seen then first_by key seen xs else x # first_by key (insert (key x) seen) xs)"

definition overlay_records :: "'v match_env \<Rightarrow> string \<Rightarrow> 'v dist_advisory list" where
  "overlay_records E eco =
     (let own_word = \<not> is_root_eco eco \<or> is_root_build (sp_version (me_src E));
          renamed = (if is_root_eco eco then me_by_name E eco (rooted (plain_name E)) else [])
      in filter (\<lambda>a. own_word \<or> matches E a \<noteq> None) (me_by_name E eco (plain_name E) @ renamed))"

definition overlays :: "'v match_env \<Rightarrow> 'v dist_advisory list" where
  "overlays E = first_by da_id {} (concat (map (overlay_records E) (di_overlays (me_distro E))))"

definition cves_of :: "'v dist_advisory list \<Rightarrow> string set" where
  "cves_of advs = set (concat (map cve_keys advs))"

definition keys_of :: "'v dist_advisory list \<Rightarrow> string set" where
  "keys_of advs = set (concat (map adv_keys advs))"

definition superseded :: "'v match_env \<Rightarrow> string set" where
  "superseded E = cves_of (overlays E)"

definition release_ecosystems :: "distro \<Rightarrow> string list" where
  "release_ecosystems d = di_ecosystem d # di_also d"

definition own_keys :: "'v match_env \<Rightarrow> string set" where
  "own_keys E =
     (let d = me_distro E
      in keys_of (filter (in_reach E)
           (concat (map (eco_lookup E) (release_ecosystems d @ di_supplements d)))))"

text \<open>Whether a list of ids has one in a set.\<close>

definition speaks :: "'v dist_advisory \<Rightarrow> string set \<Rightarrow> bool" where
  "speaks a ks \<longleftrightarrow> list_ex (\<lambda>k. k \<in> ks) (adv_keys a)"

definition of_source :: "'v match_env \<Rightarrow> string \<Rightarrow> 'v dist_advisory list" where
  "of_source E eco =
     (let src = me_src E; named = sp_of_source src \<and> sp_source src \<noteq> sp_name src
      in filter (\<lambda>a. in_reach E a \<and> has_fix (da_ranges a) \<and> \<not> speaks a (own_keys E))
           (me_by_name E eco (if named then sp_source src else [])))"

definition eco_records :: "'v match_env \<Rightarrow> string \<Rightarrow> 'v dist_advisory list" where
  "eco_records E eco = eco_lookup E eco @ of_source E eco"

definition base_records :: "'v match_env \<Rightarrow> 'v dist_advisory list" where
  "base_records E = concat (map (eco_records E) (release_ecosystems (me_distro E)))"

definition supplement_records :: "'v match_env \<Rightarrow> 'v dist_advisory list" where
  "supplement_records E = concat (map (eco_records E) (di_supplements (me_distro E)))"

definition known :: "'v match_env \<Rightarrow> string set" where
  "known E = cves_of (filter (in_reach E) (base_records E @ overlays E))"

definition hit_cves :: "'v match_env \<Rightarrow> string set" where
  "hit_cves E = cves_of (filter (\<lambda>a. in_reach E a \<and> matches E a \<noteq> None) (base_records E @ overlays E))"

section \<open>The fallbacks\<close>

definition source_names :: "source_pkg \<Rightarrow> string list" where
  "source_names src = sp_name src # (if sp_source src \<noteq> sp_name src then [sp_source src] else [])"

definition is_open :: "'v dist_advisory \<Rightarrow> bool" where
  "is_open a \<longleftrightarrow> da_ranges a \<noteq> [] \<and> \<not> has_fix (da_ranges a)"

definition own_binary :: "source_pkg \<Rightarrow> string \<Rightarrow> own_version" where
  "own_binary src bin = map_option (Pair bin) (bt_get str_cmp bin (sp_other_versions src))"

definition binary_entries :: "'v match_env \<Rightarrow> string \<Rightarrow> ('v dist_advisory \<times> own_version) list" where
  "binary_entries E eco =
     concat (map (\<lambda>bin. map (\<lambda>a. (a, own_binary (me_src E) bin)) (filter (in_reach E) (me_by_name E eco bin)))
       (sp_binaries (me_src E)))"

definition source_entries :: "'v match_env \<Rightarrow> string \<Rightarrow> ('v dist_advisory \<times> own_version) list" where
  "source_entries E eco =
     (let by_binary = cves_of (map fst (binary_entries E eco))
      in concat (map (\<lambda>name. map (\<lambda>a. (a, None))
             (filter (\<lambda>a. in_reach E a \<and> \<not> has_fix (da_ranges a) \<and> \<not> speaks a by_binary) (me_by_name E eco name)))
           (filter (\<lambda>n. n \<notin> set (sp_binaries (me_src E))) (source_names (me_src E)))))"

text \<open>Whether an entry's fixes are another codestream's, and whether only its open ones count.\<close>

definition is_stopped :: "'v match_env \<Rightarrow> bool" where
  "is_stopped E \<longleftrightarrow> di_final_builds (me_distro E) \<noteq> None"

definition opens_only :: "'v match_env \<Rightarrow> string \<Rightarrow> bool" where
  "opens_only E eco \<longleftrightarrow> \<not> is_stopped E \<and> eco \<in> set (di_borrowed_opens (me_distro E))"

definition is_borrowed :: "'v match_env \<Rightarrow> string \<Rightarrow> bool" where
  "is_borrowed E eco \<longleftrightarrow>
     eco \<in> set (di_borrowed (me_distro E)) \<or> (is_stopped E \<and> eco \<in> set (di_borrowed_opens (me_distro E)))"

text \<open>The CVEs spoken of so far, and those that silence an open status of SUSE's.\<close>

type_synonym spoken = "string set \<times> string set"

definition silenced :: "string \<Rightarrow> spoken \<Rightarrow> 'v dist_advisory \<Rightarrow> bool" where
  "silenced eco sp a \<longleftrightarrow> speaks a (if is_suse_vex eco \<and> is_open a then snd sp else fst sp)"

definition fresh_entries :: "'v match_env \<Rightarrow> string \<Rightarrow> spoken \<Rightarrow> ('v dist_advisory \<times> own_version) list" where
  "fresh_entries E eco sp =
     filter (\<lambda>(a, _). \<not> silenced eco sp a \<and>
         (\<not> is_borrowed E eco \<or> is_stopped E \<or> has_fix (da_ranges a)) \<and>
         (\<not> opens_only E eco \<or> \<not> has_fix (da_ranges a)))
       (binary_entries E eco @ source_entries E eco)"

type_synonym 'v fallback = "'v dist_advisory \<times> bool \<times> own_version"

definition fallback_step :: "'v match_env \<Rightarrow> string \<Rightarrow> spoken \<times> 'v fallback list \<Rightarrow> spoken \<times> 'v fallback list" where
  "fallback_step E eco st =
     (case st of (sp, found) \<Rightarrow>
        let fresh = fresh_entries E eco sp; said = cves_of (map fst fresh)
        in ((fst sp \<union> said, snd sp \<union> said),
            found @ map (\<lambda>(a, own). (a, is_borrowed E eco, own)) fresh))"

definition spoken_first :: "'v match_env \<Rightarrow> spoken" where
  "spoken_first E =
     (let supplemented = cves_of (supplement_records E) in (known E \<union> supplemented, hit_cves E \<union> supplemented))"

definition fallback_entries :: "'v match_env \<Rightarrow> 'v fallback list" where
  "fallback_entries E = snd (fold (fallback_step E) (di_fallbacks (me_distro E)) (spoken_first E, []))"

section \<open>What is reported\<close>

definition is_wanted :: "'v match_env \<Rightarrow> 'v dist_advisory \<Rightarrow> bool" where
  "is_wanted E a \<longleftrightarrow> \<not> (me_ignore_unimportant E \<and> unimportant a) \<and> in_reach E a"

definition named_cve :: "'v dist_advisory \<Rightarrow> bool" where
  "named_cve a \<longleftrightarrow> contains_str ''CVE-'' (da_id a)"

definition separate :: "'v match_env \<Rightarrow> string set" where
  "separate E = keys_of (filter named_cve (base_records E))"

definition is_notice :: "'v match_env \<Rightarrow> 'v dist_advisory \<Rightarrow> bool" where
  "is_notice E a \<longleftrightarrow> \<not> named_cve a \<and> cve_keys a \<noteq> [] \<and> list_all (\<lambda>k. k \<in> separate E) (cve_keys a)"

definition candidates :: "'v match_env \<Rightarrow> 'v dist_advisory list" where
  "candidates E =
     filter (\<lambda>a. \<not> is_notice E a \<and> \<not> speaks a (superseded E)) (base_records E) @ overlays E @
     filter (\<lambda>a. \<not> speaks a (known E)) (supplement_records E)"

text \<open>\<^verbatim>\<open>Option::filter\<close>.\<close>

definition opt_filter :: "('a \<Rightarrow> bool) \<Rightarrow> 'a option \<Rightarrow> 'a option" where
  "opt_filter p a = (case a of None \<Rightarrow> None | Some x \<Rightarrow> if p x then Some x else None)"

definition direct_findings :: "('s, 'r) semver_lib \<Rightarrow> 'v match_env \<Rightarrow> ('s, 'r) vuln_finding list" where
  "direct_findings lib E =
     List.map_filter (\<lambda>a. map_option (\<lambda>fix_v.
         os_finding lib E a (opt_filter (release_shipped E (sp_name (me_src E)) a) fix_v) None) (matches E a))
       (filter (is_wanted E) (candidates E))"

type_synonym 'v chosen = "'v option \<times> 'v dist_advisory \<times> own_version"

definition chosen_rank :: "'v chosen \<Rightarrow> nat" where
  "chosen_rank c = (case c of (fix_v, _, own) \<Rightarrow> if fix_v = None then 2 else if own = None then 1 else 0)"

definition better :: "'v cmp \<Rightarrow> 'v chosen \<Rightarrow> 'v chosen option \<Rightarrow> bool" where
  "better c new old =
     (case old of
        None \<Rightarrow> True
      | Some o0 \<Rightarrow>
          (case ord_cmp (chosen_rank new) (chosen_rank o0) of
             Greater \<Rightarrow> True
           | Less \<Rightarrow> False
           | Equal \<Rightarrow> cmp_opt c (fst new) (fst o0) = Greater))"

text \<open>What a fallback says of the binary it names at the binary's own version, or of the source.\<close>

definition fallback_choice :: "'v match_env \<Rightarrow> 'v fallback \<Rightarrow> 'v chosen option" where
  "fallback_choice E fb =
     (case fb of (adv, borrowed, own) \<Rightarrow>
        (case Option.bind own (\<lambda>(_, ver). ov_parse (me_versions E) ver) of
           Some bv \<Rightarrow> map_option (\<lambda>fix_v. (if borrowed then None else fix_v, adv, own)) (os_affects (me_versions E) bv adv)
         | None \<Rightarrow> map_option (\<lambda>fix_v. (if borrowed then None else fix_v, adv, None)) (matches E adv)))"

definition choose_step :: "'v match_env \<Rightarrow> 'v fallback \<Rightarrow> (string, 'v chosen) btree \<Rightarrow> (string, 'v chosen) btree" where
  "choose_step E fb chosen =
     (case fallback_choice E fb of
        None \<Rightarrow> chosen
      | Some new \<Rightarrow>
          (let ident = da_id (fst fb)
           in if better (ov_cmp (me_versions E)) new (bt_get str_cmp ident chosen)
              then bt_insert str_cmp ident new chosen else chosen))"

definition chosen_fallbacks :: "'v match_env \<Rightarrow> (string, 'v chosen) btree" where
  "chosen_fallbacks E = fold (choose_step E) (filter (\<lambda>fb. is_wanted E (fst fb)) (fallback_entries E)) []"

definition fallback_findings :: "('s, 'r) semver_lib \<Rightarrow> 'v match_env \<Rightarrow> ('s, 'r) vuln_finding list" where
  "fallback_findings lib E =
     map (\<lambda>(_, (fix_v, adv, own)). os_finding lib E adv fix_v own) (chosen_fallbacks E)"

definition match_source :: "('s, 'r) semver_lib \<Rightarrow> 'v match_env \<Rightarrow> ('s, 'r) vuln_finding list" where
  "match_source lib E = direct_findings lib E @ fallback_findings lib E"

section \<open>The scan\<close>

definition rebrand_version :: "rpm_version \<Rightarrow> rpm_version" where
  "rebrand_version f =
     (case Option.bind (rebrand (rpm_show f)) rpm_parse_fix of None \<Rightarrow> f | Some r \<Rightarrow> r)"

definition rebrand_advisory :: "rpm_version dist_advisory \<Rightarrow> rpm_version dist_advisory" where
  "rebrand_advisory a =
     a\<lparr>da_ranges := map (\<lambda>r. r\<lparr>pr_events := map (\<lambda>e.
           e\<lparr>pe_fixed := map_option rebrand_version (pe_fixed e),
             pe_last_affected := map_option rebrand_version (pe_last_affected e)\<rparr>) (pr_events r)\<rparr>) (da_ranges a)\<rparr>"

definition rebranded_names :: "source_pkg \<Rightarrow> string list" where
  "rebranded_names src = [sp_name src, sp_source src] @ sp_binaries src"

definition rebranded :: "distro \<Rightarrow> distro_db \<Rightarrow> source_pkg \<Rightarrow> rpm_version os_index option" where
  "rebranded d db src =
     (if di_final_builds d = None \<or> \<not> contains_str ''.centos'' (sp_version src) then None
      else Some (fold (\<lambda>(eco, name). bt_insert key_cmp2 (eco, name) (map rebrand_advisory (db_rpm db eco name)))
             (concat (map (\<lambda>eco. map (Pair eco) (rebranded_names src)) (ecosystems d))) []))"

definition rpm_lookup :: "distro \<Rightarrow> distro_db \<Rightarrow> source_pkg \<Rightarrow> string \<Rightarrow> string \<Rightarrow> rpm_version dist_advisory list" where
  "rpm_lookup d db src eco name =
     (case rebranded d db src of Some own \<Rightarrow> index_get eco name own | None \<Rightarrow> db_rpm db eco name)"

definition env_for ::
  "'v os_versions \<Rightarrow> distro \<Rightarrow> repo_id \<Rightarrow> bool \<Rightarrow> centos_builds \<Rightarrow> source_pkg \<Rightarrow> 'v
     \<Rightarrow> (string \<Rightarrow> string \<Rightarrow> 'v dist_advisory list) \<Rightarrow> 'v match_env" where
  "env_for ov d repo ignore builds src v by_name =
     \<lparr>me_versions = ov, me_distro = d, me_repo = repo, me_ignore_unimportant = ignore, me_builds = builds,
      me_src = src, me_version = v, me_by_name = by_name\<rparr>"

text \<open>The findings of one source package; \<open>None\<close> when its version does not parse.\<close>

definition scan_source ::
  "('s, 'r) semver_lib \<Rightarrow> centos_builds \<Rightarrow> distro \<Rightarrow> distro_db \<Rightarrow> repo_id \<Rightarrow> bool \<Rightarrow> source_pkg
     \<Rightarrow> ('s, 'r) vuln_finding list option" where
  "scan_source lib builds d db repo ignore src =
     (case di_family d of
        DebFamily \<Rightarrow> map_option (\<lambda>v. match_source lib (env_for deb_versions d repo ignore builds src v (db_deb db)))
          (deb_parse (root_build (sp_version src)))
      | ApkFamily \<Rightarrow> map_option (\<lambda>v. match_source lib (env_for apk_versions d repo ignore builds src v (db_apk db)))
          (apk_parse (sp_version src))
      | RpmFamily \<Rightarrow> map_option (\<lambda>v. match_source lib (env_for rpm_versions d repo ignore builds src v (rpm_lookup d db src)))
          (rpm_parse (sp_version src)))"

definition scan_all ::
  "('s, 'r) semver_lib \<Rightarrow> centos_builds \<Rightarrow> distro \<Rightarrow> distro_db \<Rightarrow> repo_id \<Rightarrow> bool \<Rightarrow> source_pkg list
     \<Rightarrow> ('s, 'r) vuln_finding list \<times> nat" where
  "scan_all lib builds d db repo ignore srcs =
     fold (\<lambda>src (out, skipped). case scan_source lib builds d db repo ignore src of
             Some fs \<Rightarrow> (out @ fs, skipped)
           | None \<Rightarrow> (out, Suc skipped)) srcs ([], 0)"

definition scan_distro ::
  "('s, 'r) semver_lib \<Rightarrow> centos_builds \<Rightarrow> distro \<Rightarrow> os_package list \<Rightarrow> distro_db \<Rightarrow> repo_id \<Rightarrow> bool
     \<Rightarrow> (('s, 'r) vuln_finding list \<times> nat) option" where
  "scan_distro lib builds d packages db repo ignore =
     (case scan_all lib builds d db repo ignore (sources packages (di_binary_names d)) of
        (out, skipped) \<Rightarrow> map_option (\<lambda>fs. (fs, skipped)) (sort_dedup_findings lib out))"

end
