(* ===== verification/Distro_Sources.thy ===== *)
theory Distro_Sources
  imports Distro_Scan
begin

text \<open>
  How \<^verbatim>\<open>sources\<close> of \<^verbatim>\<open>crates/os/src/scan.rs\<close> groups binary packages: the groups partition the packages
  by name, version and module stream, and a group's binaries and their own versions are those of
  its packages.
\<close>

interpretation srckey: rust_total_ord source_key_cmp
  unfolding source_key_cmp_def by (intro ord_intros)

text \<open>What one more package does to a group that exists, and to the versions it records.\<close>

definition note_version :: "bool \<Rightarrow> os_package \<Rightarrow> (string, string) btree \<Rightarrow> (string, string) btree" where
  "note_version bn p others =
     (if op_version p \<noteq> fst (snd (source_key bn p)) then bt_insert str_cmp (op_name p) (op_version p) others else others)"

definition join_group :: "bool \<Rightarrow> os_package \<Rightarrow> source_group option \<Rightarrow> source_group" where
  "join_group bn p old =
     (case (case old of None \<Rightarrow> (op_source p, [], [], op_version p = op_source_version p) | Some g \<Rightarrow> g) of
        (source, binaries, others, of_source) \<Rightarrow>
          (source, binaries @ [op_name p], note_version bn p others, of_source))"

lemma add_package_eq: "add_package bn p m = bt_alter source_key_cmp (source_key bn p) (join_group bn p) m"
  unfolding add_package_def join_group_def [abs_def] note_version_def Let_def ..

lemma fold_join_group:
  "fold (\<lambda>p old. Some (join_group bn p old)) ps (Some (source, binaries, others, f)) =
     Some (source, binaries @ map op_name ps, fold (note_version bn) ps others, f)"
  by (induction ps arbitrary: binaries others) (simp_all add: join_group_def)

lemma fold_join_first:
  "fold (\<lambda>p old. Some (join_group bn p old)) (p # ps) None =
     Some (op_source p, map op_name (p # ps), fold (note_version bn) (p # ps) [], op_version p = op_source_version p)"
proof -
  have "fold (\<lambda>p old. Some (join_group bn p old)) (p # ps) None =
      fold (\<lambda>p old. Some (join_group bn p old)) ps
        (Some (op_source p, [op_name p], note_version bn p [], op_version p = op_source_version p))"
    by (simp add: join_group_def)
  then show ?thesis by (simp only: fold_join_group list.map append_Cons append_Nil fold_simps)
qed

definition group_of :: "bool \<Rightarrow> source_key \<Rightarrow> os_package list \<Rightarrow> os_package list" where
  "group_of bn k ps = filter (\<lambda>p. source_key bn p = k) ps"

lemma source_groups:
  "bt_wf source_key_cmp (fold (add_package bn) ps []) \<and>
   bt_get source_key_cmp k (fold (add_package bn) ps []) =
     fold (\<lambda>p old. Some (join_group bn p old)) (group_of bn k ps) None"
proof -
  have eq: "fold (add_package bn) ps [] =
      fold (\<lambda>p. bt_alter source_key_cmp (source_key bn p) (join_group bn p)) ps []"
    by (rule fold_cong) (auto simp: add_package_eq)
  have same: "filter (\<lambda>p. k = source_key bn p) ps = group_of bn k ps"
    unfolding group_of_def by (rule filter_cong) auto
  show ?thesis
    unfolding eq srckey.bt.get_fold_empty srckey.cmp_Equal_iff same
    using srckey.bt.wf_fold [OF srckey.bt.wf_empty] by blast
qed

definition pkg_key :: "source_pkg \<Rightarrow> source_key" where
  "pkg_key s = (sp_name s, sp_version s, sp_module s)"

text \<open>The group of packages behind a source package; \<open>note_version\<close> keeps the last version of each name.\<close>

definition source_from :: "bool \<Rightarrow> os_package list \<Rightarrow> source_pkg \<Rightarrow> os_package list \<Rightarrow> bool" where
  "source_from bn ps s g \<longleftrightarrow>
     g = group_of bn (pkg_key s) ps \<and> g \<noteq> [] \<and> set (sp_binaries s) = op_name ` set g \<and>
     sp_source s = op_source (hd g) \<and> sp_other_versions s = fold (note_version bn) g [] \<and>
     (sp_of_source s \<longleftrightarrow> op_version (hd g) = op_source_version (hd g))"

lemma set_sort_dedup_str: "set (sort_dedup str_cmp xs) = set xs"
proof -
  have "set (dedup_by (\<lambda>a b. str_cmp a b = Equal) ys) = set ys" for ys :: "string list"
    by (induction "\<lambda>a b :: string. str_cmp a b = Equal" ys rule: dedup_by.induct) auto
  then show ?thesis by (simp add: sort_dedup_def)
qed

lemma source_of_group_from:
  assumes "(k, grp) \<in> set (fold (add_package bn) ps [])"
  shows "\<exists>g. source_from bn ps (source_of_group (k, grp)) g \<and> pkg_key (source_of_group (k, grp)) = k"
proof -
  have "bt_get source_key_cmp k (fold (add_package bn) ps []) = Some grp"
    using assms source_groups [of bn ps k] by (intro srckey.bt_get_mem) auto
  then have fold: "fold (\<lambda>p old. Some (join_group bn p old)) (group_of bn k ps) None = Some grp"
    using source_groups [of bn ps k] by simp
  then obtain p qs where g: "group_of bn k ps = p # qs" by (cases "group_of bn k ps") auto
  have grp: "grp = (op_source p, map op_name (p # qs), fold (note_version bn) (p # qs) [], op_version p = op_source_version p)"
    using fold unfolding g fold_join_first by simp
  obtain name version strm where k: "k = (name, version, strm)" by (cases k)
  have key: "pkg_key (source_of_group (k, grp)) = k" by (simp add: k grp source_of_group_def pkg_key_def)
  have "source_from bn ps (source_of_group (k, grp)) (p # qs)"
    unfolding source_from_def key g by (simp add: k grp source_of_group_def set_sort_dedup_str)
  with key show ?thesis by blast
qed

lemma sources_from: "s \<in> set (sources ps bn) \<Longrightarrow> \<exists>g. source_from bn ps s g"
  unfolding sources_def using source_of_group_from by fastforce

lemma sources_cover:
  assumes "p \<in> set ps"
  shows "\<exists>s \<in> set (sources ps bn). pkg_key s = source_key bn p \<and> op_name p \<in> set (sp_binaries s)"
proof -
  let ?k = "source_key bn p" and ?m = "fold (add_package bn) ps []"
  have p: "p \<in> set (group_of bn ?k ps)" using assms by (simp add: group_of_def)
  then obtain q qs where "group_of bn ?k ps = q # qs" by (cases "group_of bn ?k ps") auto
  then have "bt_get source_key_cmp ?k ?m \<noteq> None"
    using source_groups [of bn ps ?k] fold_join_first [of bn q qs] by auto
  then obtain grp where mem: "(?k, grp) \<in> set ?m"
    using srckey.bt_get_SomeD [of ?k ?m] by (metis not_None_eq srckey.cmp_eqD)
  obtain g where g: "source_from bn ps (source_of_group (?k, grp)) g" "pkg_key (source_of_group (?k, grp)) = ?k"
    using source_of_group_from [OF mem] by blast
  have "source_of_group (?k, grp) \<in> set (sources ps bn)"
    using mem unfolding sources_def by (metis image_eqI list.set_map)
  then show ?thesis using g p by (intro bexI) (auto simp: source_from_def)
qed

lemma sources_distinct: "distinct (map pkg_key (sources ps bn))"
proof -
  have "map pkg_key (sources ps bn) = map fst (fold (add_package bn) ps [])"
    unfolding sources_def by (auto simp: source_of_group_def pkg_key_def split: prod.split)
  then show ?thesis using srckey.bt_wf_distinct source_groups by metis
qed

end
