(* ===== verification/Distro_Match_Props.thy ===== *)
theory Distro_Match_Props
  imports Distro_Match Distro_Sources Feeder_Scan
begin

text \<open>
  What matching an OS package promises.  A record of the release that affects the installed version
  is reported unless an overlay or a record of the CVE itself speaks instead; nothing is reported
  that no consulted record says; every finding reads as vulnerable; a fallback speaks only of what
  nobody spoke of before, and of several entries under one id the most serious one is kept.
\<close>

section \<open>One source package\<close>

lemma direct_findings_iff:
  "f \<in> set (direct_findings lib E) \<longleftrightarrow>
     (\<exists>a fix_v. a \<in> set (candidates E) \<and> is_wanted E a \<and> matches E a = Some fix_v \<and>
        f = os_finding lib E a (opt_filter (release_shipped E (sp_name (me_src E)) a) fix_v) None)"
  by (auto simp: direct_findings_def set_map_filter)

lemma speaks_iff: "speaks a ks \<longleftrightarrow> (\<exists>k \<in> set (adv_keys a). k \<in> ks)"
  by (auto simp: speaks_def list_ex_iff)

lemma cves_of_iff: "k \<in> cves_of advs \<longleftrightarrow> (\<exists>a \<in> set advs. k \<in> set (cve_keys a))"
  by (auto simp: cves_of_def)

lemma keys_of_iff: "k \<in> keys_of advs \<longleftrightarrow> (\<exists>a \<in> set advs. k \<in> set (adv_keys a))"
  by (auto simp: keys_of_def)

lemmas consulted_simps = speaks_iff cves_of_iff keys_of_iff

text \<open>
  Who may speak of the package besides the fallbacks: a record of the release; the first record of
  an overlay under its id; a record of a supplement.  A record names a CVE of another when one of
  its CVEs is among the other's ids.
\<close>

definition release_says :: "'v match_env \<Rightarrow> 'v dist_advisory \<Rightarrow> bool" where
  "release_says E a \<longleftrightarrow>
     (\<exists>eco \<in> set (di_ecosystem (me_distro E) # di_also (me_distro E)). a \<in> set (eco_records E eco))"

definition supplement_says :: "'v match_env \<Rightarrow> 'v dist_advisory \<Rightarrow> bool" where
  "supplement_says E a \<longleftrightarrow> (\<exists>eco \<in> set (di_supplements (me_distro E)). a \<in> set (eco_records E eco))"

definition overlay_says :: "'v match_env \<Rightarrow> 'v dist_advisory \<Rightarrow> bool" where
  "overlay_says E a \<longleftrightarrow>
     (\<exists>before after. concat (map (overlay_records E) (di_overlays (me_distro E))) = before @ a # after \<and>
        (\<forall>b \<in> set before. da_id b \<noteq> da_id a))"

definition names_cve_of :: "'v dist_advisory \<Rightarrow> 'v dist_advisory \<Rightarrow> bool" where
  "names_cve_of b a \<longleftrightarrow> set (cve_keys b) \<inter> set (adv_keys a) \<noteq> {}"

text \<open>A notice: an advisory all of whose CVEs have a record of their own in the release.\<close>

definition only_notice :: "'v match_env \<Rightarrow> 'v dist_advisory \<Rightarrow> bool" where
  "only_notice E a \<longleftrightarrow>
     \<not> named_cve a \<and> cve_keys a \<noteq> [] \<and>
     (\<forall>k \<in> set (cve_keys a). \<exists>b. release_says E b \<and> named_cve b \<and> k \<in> set (adv_keys b))"

definition speaks_directly :: "'v match_env \<Rightarrow> 'v dist_advisory \<Rightarrow> bool" where
  "speaks_directly E a \<longleftrightarrow>
     release_says E a \<and> \<not> only_notice E a \<and> \<not> (\<exists>b. overlay_says E b \<and> names_cve_of b a) \<or>
     overlay_says E a \<or>
     supplement_says E a \<and>
       \<not> (\<exists>b. (release_says E b \<or> overlay_says E b) \<and> in_reach E b \<and> names_cve_of b a)"

lemma first_by_iff:
  "a \<in> set (first_by key seen xs) \<longleftrightarrow>
     key a \<notin> seen \<and> (\<exists>before after. xs = before @ a # after \<and> (\<forall>b \<in> set before. key b \<noteq> key a))"
proof (induction xs arbitrary: seen)
  case (Cons x xs)
  have split: "(\<exists>before after. x # xs = before @ a # after \<and> (\<forall>b \<in> set before. key b \<noteq> key a)) \<longleftrightarrow>
      x = a \<or> key x \<noteq> key a \<and> (\<exists>before after. xs = before @ a # after \<and> (\<forall>b \<in> set before. key b \<noteq> key a))"
    (is "?L \<longleftrightarrow> ?R")
  proof
    assume ?L
    then obtain before after where e: "x # xs = before @ a # after" "\<forall>b \<in> set before. key b \<noteq> key a" by blast
    then show ?R by (cases before) auto
  next
    assume r: ?R
    show ?L
    proof (cases "x = a")
      case True
      then show ?thesis by (intro exI [of _ "[]"] exI [of _ xs]) simp
    next
      case False
      then obtain before after where "key x \<noteq> key a" "xs = before @ a # after" "\<forall>b \<in> set before. key b \<noteq> key a"
        using r by blast
      then show ?thesis by (intro exI [of _ "x # before"] exI [of _ after]) simp
    qed
  qed
  show ?case unfolding split using Cons.IH by auto
qed simp

lemma base_records_iff: "a \<in> set (base_records E) \<longleftrightarrow> release_says E a"
  by (auto simp: base_records_def release_says_def release_ecosystems_def)

lemma supplement_records_iff: "a \<in> set (supplement_records E) \<longleftrightarrow> supplement_says E a"
  by (auto simp: supplement_records_def supplement_says_def)

lemma overlays_iff: "a \<in> set (overlays E) \<longleftrightarrow> overlay_says E a"
  by (simp add: overlays_def overlay_says_def first_by_iff)

lemma names_cve_of_iff: "names_cve_of b a \<longleftrightarrow> (\<exists>k \<in> set (cve_keys b). k \<in> set (adv_keys a))"
  by (auto simp: names_cve_of_def)

lemma candidates_iff: "a \<in> set (candidates E) \<longleftrightarrow> speaks_directly E a"
proof -
  have n: "is_notice E a \<longleftrightarrow> only_notice E a"
    by (auto simp: is_notice_def only_notice_def separate_def list_all_iff keys_of_iff base_records_iff)
  have s: "speaks a (superseded E) \<longleftrightarrow> (\<exists>b. overlay_says E b \<and> names_cve_of b a)"
    unfolding superseded_def consulted_simps overlays_iff [symmetric] names_cve_of_iff by blast
  have k: "speaks a (known E) \<longleftrightarrow> (\<exists>b. (release_says E b \<or> overlay_says E b) \<and> in_reach E b \<and> names_cve_of b a)"
    unfolding known_def consulted_simps overlays_iff [symmetric] base_records_iff [symmetric] names_cve_of_iff
      set_filter set_append by blast
  show ?thesis
    unfolding candidates_def speaks_directly_def
    by (auto simp: n s k base_records_iff overlays_iff supplement_records_iff)
qed

section \<open>The fallbacks\<close>

text \<open>The entries of each fallback, with what was spoken of when it was asked.\<close>

fun fallback_batches ::
  "'v match_env \<Rightarrow> string list \<Rightarrow> spoken \<Rightarrow> (string \<times> spoken \<times> ('v dist_advisory \<times> own_version) list) list" where
  "fallback_batches E [] sp = []"
| "fallback_batches E (eco # ecos) sp =
     (let fresh = fresh_entries E eco sp; said = cves_of (map fst fresh)
      in (eco, sp, fresh) # fallback_batches E ecos (fst sp \<union> said, snd sp \<union> said))"

abbreviation batches :: "'v match_env \<Rightarrow> (string \<times> spoken \<times> ('v dist_advisory \<times> own_version) list) list" where
  "batches E \<equiv> fallback_batches E (di_fallbacks (me_distro E)) (spoken_first E)"

definition batch_fallbacks :: "'v match_env \<Rightarrow> string \<times> spoken \<times> ('v dist_advisory \<times> own_version) list \<Rightarrow> 'v fallback list" where
  "batch_fallbacks E b = (case b of (eco, _, fresh) \<Rightarrow> map (\<lambda>(a, own). (a, is_borrowed E eco, own)) fresh)"

lemma fold_fallback_step:
  "snd (fold (fallback_step E) ecos (sp, found)) = found @ concat (map (batch_fallbacks E) (fallback_batches E ecos sp))"
proof (induction ecos arbitrary: sp found)
  case (Cons eco ecos)
  let ?fresh = "fresh_entries E eco sp"
  let ?sp = "(fst sp \<union> cves_of (map fst ?fresh), snd sp \<union> cves_of (map fst ?fresh))"
  have "fallback_step E eco (sp, found) = (?sp, found @ batch_fallbacks E (eco, sp, ?fresh))"
    by (simp add: fallback_step_def batch_fallbacks_def Let_def)
  then show ?case by (simp only: fold_simps Cons.IH fallback_batches.simps Let_def list.map concat.simps append_assoc)
qed simp

lemma fallback_entries_batches: "fallback_entries E = concat (map (batch_fallbacks E) (batches E))"
  by (simp add: fallback_entries_def fold_fallback_step)

lemma batches_ecos: "map fst (fallback_batches E ecos sp) = ecos"
  by (induction ecos arbitrary: sp) (simp_all add: Let_def)

lemma fresh_entries_iff:
  "(a, own) \<in> set (fresh_entries E eco sp) \<longleftrightarrow>
     (a, own) \<in> set (binary_entries E eco @ source_entries E eco) \<and> \<not> silenced eco sp a \<and>
     (\<not> is_borrowed E eco \<or> is_stopped E \<or> has_fix (da_ranges a)) \<and> (\<not> opens_only E eco \<or> \<not> has_fix (da_ranges a))"
  by (auto simp: fresh_entries_def)

text \<open>What was spoken of only grows, by the CVEs of the entries that counted.\<close>

lemma batches_spoken:
  assumes "(eco, sp', fresh) \<in> set (fallback_batches E ecos sp)"
  shows "fst sp \<subseteq> fst sp' \<and> snd sp \<subseteq> snd sp' \<and> fresh = fresh_entries E eco sp' \<and> eco \<in> set ecos"
  using assms
proof (induction ecos arbitrary: sp)
  case (Cons e ecos)
  show ?case
  proof (cases "(eco, sp', fresh) = (e, sp, fresh_entries E e sp)")
    case False
    let ?said = "cves_of (map fst (fresh_entries E e sp))"
    have "(eco, sp', fresh) \<in> set (fallback_batches E ecos (fst sp \<union> ?said, snd sp \<union> ?said))"
      using Cons.prems False by (auto simp: Let_def)
    from Cons.IH [OF this] show ?thesis by auto
  qed simp
qed simp

lemma silenced_mono: "fst sp \<subseteq> fst sp' \<Longrightarrow> snd sp \<subseteq> snd sp' \<Longrightarrow> silenced eco sp a \<Longrightarrow> silenced eco sp' a"
  by (auto simp: silenced_def speaks_iff split: if_splits)

lemma batches_disjoint:
  "sorted_wrt (\<lambda>b b'. \<forall>p \<in> set (snd (snd b)). \<forall>q \<in> set (snd (snd b')).
      set (cve_keys (fst p)) \<inter> set (adv_keys (fst q)) = {}) (fallback_batches E ecos sp)"
proof (induction ecos arbitrary: sp)
  case (Cons e ecos)
  let ?fresh = "fresh_entries E e sp"
  let ?said = "cves_of (map fst ?fresh)"
  let ?sp = "(fst sp \<union> ?said, snd sp \<union> ?said)"
  have "set (cve_keys (fst p)) \<inter> set (adv_keys (fst q)) = {}"
    if p: "p \<in> set ?fresh" and b: "b \<in> set (fallback_batches E ecos ?sp)" and q: "q \<in> set (snd (snd b))" for p b q
  proof -
    obtain eco sp' fresh where b': "b = (eco, sp', fresh)" by (cases b) auto
    have up: "fst ?sp \<subseteq> fst sp'" "snd ?sp \<subseteq> snd sp'" and fresh: "fresh = fresh_entries E eco sp'"
      using batches_spoken [of eco sp' fresh E ecos ?sp] b unfolding b' by auto
    obtain a own where "q = (a, own)" by (cases q)
    then have "\<not> silenced eco sp' a" "q = (a, own)"
      using q unfolding b' fresh by (simp_all add: fresh_entries_iff)
    then show ?thesis
      using p up by (fastforce simp: silenced_def speaks_iff cves_of_iff split: if_splits)
  qed
  then show ?case using Cons.IH by (auto simp: Let_def)
qed simp

section \<open>The entry that is kept\<close>

definition chosen_cmp :: "'v cmp \<Rightarrow> 'v chosen cmp" where
  "chosen_cmp c x y = then_with (ord_cmp (chosen_rank x) (chosen_rank y)) (cmp_opt c (fst x) (fst y))"

lemma better_iff: "better c new old \<longleftrightarrow> (case old of None \<Rightarrow> True | Some o0 \<Rightarrow> chosen_cmp c new o0 = Greater)"
  by (auto simp: better_def chosen_cmp_def split: option.split ordering.split)

lemma chosen_cmp_ord:
  assumes "rust_ord c"
  shows "rust_ord (chosen_cmp c)"
proof -
  have "chosen_cmp c = cmp_then (cmp_on chosen_rank ord_cmp) (cmp_on fst (cmp_opt c))"
    by (intro ext) (simp add: chosen_cmp_def cmp_then_def cmp_on_def)
  then show ?thesis using assms by (simp only:) (intro ord_intros)
qed

definition keep_greater :: "'a cmp \<Rightarrow> 'a \<Rightarrow> 'a option \<Rightarrow> 'a option" where
  "keep_greater c new old =
     (case old of None \<Rightarrow> Some new | Some o0 \<Rightarrow> if c new o0 = Greater then Some new else Some o0)"

context rust_ord
begin

lemma keep_greater_max:
  "y \<in> set xs \<or> old = Some y \<Longrightarrow>
     \<exists>x. fold (keep_greater cmp) xs old = Some x \<and> (x \<in> set xs \<or> old = Some x) \<and> cmp y x \<noteq> Greater"
proof (induction xs arbitrary: old y)
  case (Cons z zs)
  obtain w where w: "keep_greater cmp z old = Some w" "w = z \<or> old = Some w"
    and top: "cmp z w \<noteq> Greater" "old = Some y \<Longrightarrow> cmp y w \<noteq> Greater"
  proof (cases old)
    case None
    then show thesis using that [of z] by (simp add: keep_greater_def)
  next
    case (Some o0)
    show thesis
    proof (cases "cmp z o0 = Greater")
      case True
      then have "cmp o0 z = Less" using cmp_Greater_iff by blast
      then have "old = Some y \<Longrightarrow> cmp y z \<noteq> Greater" using Some by auto
      then show thesis by (intro that [of z]) (simp_all add: keep_greater_def Some True)
    next
      case False
      then show thesis using that [of o0] Some by (auto simp: keep_greater_def)
    qed
  qed
  obtain v where v: "v = y \<and> y \<in> set zs \<or> v = w \<and> cmp y w \<noteq> Greater"
    using Cons.prems top by auto
  then have "v \<in> set zs \<or> Some w = Some v" by auto
  from Cons.IH [OF this] obtain x where x: "fold (keep_greater cmp) zs (Some w) = Some x"
    "x \<in> set zs \<or> Some w = Some x" "cmp v x \<noteq> Greater" by blast
  have "cmp y x \<noteq> Greater" using v x(3) cmp_le_trans by blast
  then show ?case using x w by auto
qed simp

end

text \<open>The choices under one id, in the order they are looked at.\<close>

definition choices :: "'v match_env \<Rightarrow> string \<Rightarrow> 'v fallback list \<Rightarrow> 'v chosen list" where
  "choices E ident fbs = List.map_filter (fallback_choice E) (filter (\<lambda>fb. da_id (fst fb) = ident) fbs)"

lemma choices_iff:
  "x \<in> set (choices E i fbs) \<longleftrightarrow> (\<exists>fb \<in> set fbs. da_id (fst fb) = i \<and> fallback_choice E fb = Some x)"
  unfolding choices_def set_map_filter set_filter by blast

lemma choose_fold:
  assumes "bt_wf str_cmp m"
  shows "bt_wf str_cmp (fold (choose_step E) fbs m) \<and>
    bt_get str_cmp k (fold (choose_step E) fbs m) =
      fold (keep_greater (chosen_cmp (ov_cmp (me_versions E)))) (choices E k fbs) (bt_get str_cmp k m)"
  using assms
proof (induction fbs arbitrary: m)
  case Nil
  then show ?case by (simp add: choices_def)
next
  case (Cons fb fbs)
  let ?c = "ov_cmp (me_versions E)" and ?i = "da_id (fst fb)"
  have wf: "bt_wf str_cmp (choose_step E fb m)"
    using Cons.prems by (simp add: choose_step_def Let_def bt_insert_def str.bt_wf_alter split: option.split)
  have get: "bt_get str_cmp k (choose_step E fb m) =
      (if ?i = k then (case fallback_choice E fb of None \<Rightarrow> bt_get str_cmp k m
                       | Some new \<Rightarrow> keep_greater (chosen_cmp ?c) new (bt_get str_cmp k m)) else bt_get str_cmp k m)"
    using Cons.prems
    by (auto simp: choose_step_def Let_def better_iff keep_greater_def bt_insert_def str.bt_get_alter split: option.split)
  have "choices E k (fb # fbs) =
      (if ?i = k then (case fallback_choice E fb of None \<Rightarrow> [] | Some new \<Rightarrow> [new]) else []) @ choices E k fbs"
    by (simp add: choices_def List.map_filter_simps split: option.split)
  then show ?case using Cons.IH [OF wf] get by (auto split: option.splits)
qed

text \<open>
  Under every id with a choice, the finding is of a choice no other one is ahead of: open before
  fixed, a fix of the source before one of a binary at its own version, then the higher fix.
\<close>

lemma chosen_fallbacks_max:
  assumes "rust_ord (ov_cmp (me_versions E))"
    and "fb \<in> set (fallback_entries E)" "is_wanted E (fst fb)" "fallback_choice E fb = Some y"
  shows "\<exists>x. (da_id (fst fb), x) \<in> set (chosen_fallbacks E) \<and> chosen_cmp (ov_cmp (me_versions E)) y x \<noteq> Greater"
proof -
  let ?c = "chosen_cmp (ov_cmp (me_versions E))" and ?i = "da_id (fst fb)"
  let ?fbs = "filter (\<lambda>fb. is_wanted E (fst fb)) (fallback_entries E)"
  have "y \<in> set (choices E ?i ?fbs) \<or> None = Some y"
    using assms(2-4) unfolding choices_iff set_filter by blast
  from rust_ord.keep_greater_max [OF chosen_cmp_ord [OF assms(1)] this]
  obtain x where x: "fold (keep_greater ?c) (choices E ?i ?fbs) None = Some x" "?c y x \<noteq> Greater" by blast
  have "bt_get str_cmp ?i (chosen_fallbacks E) = Some x"
    using choose_fold [of "[]" E ?fbs ?i] x(1) by (simp add: chosen_fallbacks_def)
  then show ?thesis using str.bt_get_SomeD [of ?i "chosen_fallbacks E" x] x(2) by (metis str.cmp_eqD)
qed

lemma fold_keep_mem: "fold (keep_greater c) xs old = Some x \<Longrightarrow> x \<in> set xs \<or> old = Some x"
proof (induction xs arbitrary: old)
  case (Cons z zs)
  then have "x \<in> set zs \<or> keep_greater c z old = Some x" by simp
  then show ?case by (auto simp: keep_greater_def split: option.splits if_splits)
qed simp

lemma chosen_fallbacks_source:
  assumes "(ident, x) \<in> set (chosen_fallbacks E)"
  shows "\<exists>fb \<in> set (fallback_entries E). is_wanted E (fst fb) \<and> da_id (fst fb) = ident \<and> fallback_choice E fb = Some x"
proof -
  let ?fbs = "filter (\<lambda>fb. is_wanted E (fst fb)) (fallback_entries E)"
  have "bt_get str_cmp ident (chosen_fallbacks E) = Some x"
    using assms choose_fold [of "[]" E ?fbs ident] by (intro str.bt_get_mem) (auto simp: chosen_fallbacks_def)
  then have "fold (keep_greater (chosen_cmp (ov_cmp (me_versions E)))) (choices E ident ?fbs) None = Some x"
    using choose_fold [of "[]" E ?fbs ident] by (simp add: chosen_fallbacks_def)
  from fold_keep_mem [OF this] show ?thesis unfolding choices_iff set_filter by blast
qed

section \<open>Every finding reads as vulnerable\<close>

lemma os_finding_vulnerable: "occ \<in> set (vf_occurrences (os_finding lib E a fix_v own)) \<Longrightarrow> is_vulnerable lib occ"
  by (auto simp: os_finding_def tier_c_build_def finding_patched_def Let_def is_vulnerable_InRepo list_ex_iff
      split: option.splits)

lemma os_finding_id: "vf_id (os_finding lib E a fix_v own) = da_id a"
  by (simp add: os_finding_def tier_c_build_def Let_def split: option.split)

text \<open>Where a finding can come from.\<close>

definition consulted :: "'v match_env \<Rightarrow> 'v dist_advisory \<Rightarrow> own_version \<Rightarrow> bool" where
  "consulted E a own \<longleftrightarrow>
     (own = None \<and> a \<in> set (base_records E @ overlays E @ supplement_records E)) \<or>
     (\<exists>borrowed. (a, borrowed, own) \<in> set (fallback_entries E))"

text \<open>Whether an advisory says that the installed version, or the binary at its own version, is affected.\<close>

definition affects_installed :: "'v match_env \<Rightarrow> 'v dist_advisory \<Rightarrow> own_version \<Rightarrow> bool" where
  "affects_installed E a own \<longleftrightarrow>
     (case Option.bind own (\<lambda>(_, ver). ov_parse (me_versions E) ver) of
        Some bv \<Rightarrow> os_affects (me_versions E) bv a \<noteq> None
      | None \<Rightarrow> matches E a \<noteq> None)"

lemma chosen_fallbacks_named: "(ident, fix_v, a, shown) \<in> set (chosen_fallbacks E) \<Longrightarrow> da_id a = ident"
  using chosen_fallbacks_source [of ident "(fix_v, a, shown)" E]
  by (auto simp: fallback_choice_def split: option.splits)

lemma fallback_finding_from:
  assumes "f \<in> set (fallback_findings lib E)"
  shows "\<exists>a borrowed own fix_v shown. (a, borrowed, own) \<in> set (fallback_entries E) \<and> is_wanted E a \<and>
      fallback_choice E (a, borrowed, own) = Some (fix_v, a, shown) \<and> f = os_finding lib E a fix_v shown"
proof -
  obtain ident fix_v a shown where c: "(ident, fix_v, a, shown) \<in> set (chosen_fallbacks E)"
    and f: "f = os_finding lib E a fix_v shown"
    using assms by (auto simp: fallback_findings_def)
  obtain fb where fb: "fb \<in> set (fallback_entries E)" "is_wanted E (fst fb)"
    "fallback_choice E fb = Some (fix_v, a, shown)" using chosen_fallbacks_source [OF c] by blast
  obtain a' borrowed own where e: "fb = (a', borrowed, own)" by (metis prod_cases3)
  have "a' = a" using fb(3) by (auto simp: e fallback_choice_def split: option.splits)
  then have fb': "fb = (a, borrowed, own)" using e by simp
  show ?thesis using fb f unfolding fb' fst_conv by blast
qed

lemma match_source_from:
  assumes "f \<in> set (match_source lib E)"
  shows "\<exists>a own fix_v shown. f = os_finding lib E a fix_v shown \<and> consulted E a own \<and> in_reach E a \<and> affects_installed E a own"
proof (cases "f \<in> set (direct_findings lib E)")
  case True
  then obtain a fix_v where a: "a \<in> set (candidates E)" "is_wanted E a" "matches E a = Some fix_v"
    "f = os_finding lib E a (opt_filter (release_shipped E (sp_name (me_src E)) a) fix_v) None"
    unfolding direct_findings_iff by blast
  have "consulted E a None" using a(1) by (auto simp: consulted_def candidates_def)
  moreover have "affects_installed E a None" using a(3) by (simp add: affects_installed_def)
  ultimately show ?thesis using a(2,4) by (auto simp: is_wanted_def)
next
  case False
  then obtain ident fix_v a shown where c: "(ident, fix_v, a, shown) \<in> set (chosen_fallbacks E)"
    and f: "f = os_finding lib E a fix_v shown"
    using assms by (auto simp: match_source_def fallback_findings_def)
  obtain fb where fb: "fb \<in> set (fallback_entries E)" "is_wanted E (fst fb)"
    "fallback_choice E fb = Some (fix_v, a, shown)" using chosen_fallbacks_source [OF c] by blast
  obtain borrowed own where e: "fb = (a, borrowed, own)" and "affects_installed E a own"
    using fb(3) by (cases fb) (auto simp: fallback_choice_def affects_installed_def split: option.splits)
  moreover have "consulted E a own" using fb(1) e by (auto simp: consulted_def)
  ultimately show ?thesis using f fb(2) e by (auto simp: is_wanted_def)
qed

lemma chosen_fallbacks_ids:
  assumes "rust_ord (ov_cmp (me_versions E))"
  shows "(\<exists>x. (i, x) \<in> set (chosen_fallbacks E)) \<longleftrightarrow>
    (\<exists>a borrowed own. (a, borrowed, own) \<in> set (fallback_entries E) \<and> da_id a = i \<and> is_wanted E a \<and> affects_installed E a own)"
proof
  assume "\<exists>x. (i, x) \<in> set (chosen_fallbacks E)"
  then obtain fb x where fb: "fb \<in> set (fallback_entries E)" "is_wanted E (fst fb)" "da_id (fst fb) = i"
    "fallback_choice E fb = Some x" using chosen_fallbacks_source by blast
  obtain a borrowed own where e: "fb = (a, borrowed, own)" by (cases fb)
  then have "affects_installed E a own"
    using fb(4) by (auto simp: fallback_choice_def affects_installed_def split: option.splits)
  then show "\<exists>a borrowed own. (a, borrowed, own) \<in> set (fallback_entries E) \<and> da_id a = i \<and> is_wanted E a \<and> affects_installed E a own"
    using fb(1-3) e by auto
next
  assume "\<exists>a borrowed own. (a, borrowed, own) \<in> set (fallback_entries E) \<and> da_id a = i \<and> is_wanted E a \<and> affects_installed E a own"
  then obtain a borrowed own where a: "(a, borrowed, own) \<in> set (fallback_entries E)" "da_id a = i" "is_wanted E a"
    "affects_installed E a own" by blast
  obtain y where "fallback_choice E (a, borrowed, own) = Some y"
    using a(4) by (auto simp: fallback_choice_def affects_installed_def split: option.splits)
  from chosen_fallbacks_max [OF assms a(1) _ this] show "\<exists>x. (i, x) \<in> set (chosen_fallbacks E)"
    using a(2,3) by auto
qed


text \<open>C15: Fallbacks speak last and once.  An entry of a fallback counts only when no id of it was
  spoken of by the release, its overlays or its supplements (for an open status of SUSE's: when no
  record that affects the package names it), and not when an earlier fallback named one of its ids
  among its CVEs.  Of all entries that count under one advisory id, the one reported is such that
  no other is ahead of it: an open status before a fix, a fix in the source's own terms before one
  at a binary's own version, and the higher fix.\<close>
theorem fallbacks_speak_last:
  assumes "rust_ord (ov_cmp (me_versions E))"
  shows "fallback_entries E = concat (map (batch_fallbacks E) (batches E)) \<and>
    (\<forall>(eco, sp, fresh) \<in> set (batches E). \<forall>(a, own) \<in> set fresh.
       eco \<in> set (di_fallbacks (me_distro E)) \<and>
       set (adv_keys a) \<inter> cves_of (supplement_records E) = {} \<and>
       set (adv_keys a) \<inter> (if is_suse_vex eco \<and> is_open a then hit_cves E else known E) = {}) \<and>
    sorted_wrt (\<lambda>b b'. \<forall>p \<in> set (snd (snd b)). \<forall>q \<in> set (snd (snd b')).
       set (cve_keys (fst p)) \<inter> set (adv_keys (fst q)) = {}) (batches E) \<and>
    (\<forall>fb y. fb \<in> set (fallback_entries E) \<longrightarrow> is_wanted E (fst fb) \<longrightarrow> fallback_choice E fb = Some y \<longrightarrow>
       (\<exists>x \<in> set (chosen_fallbacks E). fst x = da_id (fst fb) \<and>
          chosen_cmp (ov_cmp (me_versions E)) y (snd x) \<noteq> Greater \<and>
          (case snd x of (fix_v, adv, own) \<Rightarrow> os_finding lib E adv fix_v own \<in> set (match_source lib E))))"
proof (intro conjI)
  show "fallback_entries E = concat (map (batch_fallbacks E) (batches E))" by (rule fallback_entries_batches)
  show "sorted_wrt (\<lambda>b b'. \<forall>p \<in> set (snd (snd b)). \<forall>q \<in> set (snd (snd b')).
       set (cve_keys (fst p)) \<inter> set (adv_keys (fst q)) = {}) (batches E)" by (rule batches_disjoint)
  have "eco \<in> set (di_fallbacks (me_distro E)) \<and> set (adv_keys a) \<inter> cves_of (supplement_records E) = {} \<and>
      set (adv_keys a) \<inter> (if is_suse_vex eco \<and> is_open a then hit_cves E else known E) = {}"
    if b: "(eco, sp, fresh) \<in> set (batches E)" and a: "(a, own) \<in> set fresh" for eco sp fresh a own
  proof -
    note s = batches_spoken [OF b]
    have "\<not> silenced eco sp a" using a s by (auto simp: fresh_entries_iff)
    then show ?thesis
      using s by (auto simp: silenced_def speaks_iff spoken_first_def Let_def split: if_splits)
  qed
  then show "\<forall>(eco, sp, fresh) \<in> set (batches E). \<forall>(a, own) \<in> set fresh.
       eco \<in> set (di_fallbacks (me_distro E)) \<and>
       set (adv_keys a) \<inter> cves_of (supplement_records E) = {} \<and>
       set (adv_keys a) \<inter> (if is_suse_vex eco \<and> is_open a then hit_cves E else known E) = {}"
    by fast
  have "\<exists>x \<in> set (chosen_fallbacks E). fst x = da_id (fst fb) \<and>
      chosen_cmp (ov_cmp (me_versions E)) y (snd x) \<noteq> Greater \<and>
      (case snd x of (fix_v, adv, own) \<Rightarrow> os_finding lib E adv fix_v own \<in> set (match_source lib E))"
    if "fb \<in> set (fallback_entries E)" "is_wanted E (fst fb)" "fallback_choice E fb = Some y" for fb y
  proof -
    note top = chosen_fallbacks_max [OF assms that]
    obtain x where x: "(da_id (fst fb), x) \<in> set (chosen_fallbacks E)" "chosen_cmp (ov_cmp (me_versions E)) y x \<noteq> Greater"
      using top by blast
    then show ?thesis
      by (intro bexI [of _ "(da_id (fst fb), x)"]) (force simp: match_source_def fallback_findings_def split: prod.split)+
  qed
  then show "\<forall>fb y. fb \<in> set (fallback_entries E) \<longrightarrow> is_wanted E (fst fb) \<longrightarrow> fallback_choice E fb = Some y \<longrightarrow>
       (\<exists>x \<in> set (chosen_fallbacks E). fst x = da_id (fst fb) \<and>
          chosen_cmp (ov_cmp (me_versions E)) y (snd x) \<noteq> Greater \<and>
          (case snd x of (fix_v, adv, own) \<Rightarrow> os_finding lib E adv fix_v own \<in> set (match_source lib E)))"
    by blast
qed

section \<open>The whole scan\<close>

lemma scan_all_eq:
  "scan_all lib builds d db repo ignore srcs =
     (concat (List.map_filter (scan_source lib builds d db repo ignore) srcs),
      length (filter (\<lambda>s. scan_source lib builds d db repo ignore s = None) srcs))"
proof -
  let ?step = "\<lambda>src (out, skipped). case scan_source lib builds d db repo ignore src of
      Some fs \<Rightarrow> (out @ fs, skipped) | None \<Rightarrow> (out, Suc skipped)"
  have "fold ?step srcs (out, n) =
      (out @ concat (List.map_filter (scan_source lib builds d db repo ignore) srcs),
       n + length (filter (\<lambda>s. scan_source lib builds d db repo ignore s = None) srcs))" for out n
    by (induction srcs arbitrary: out n) (simp_all add: List.map_filter_simps split: option.split)
  from this [of "[]" 0] show ?thesis by (simp add: scan_all_def)
qed

lemma match_source_vulnerable:
  "f \<in> set (match_source lib E) \<Longrightarrow> occ \<in> set (vf_occurrences f) \<Longrightarrow> is_vulnerable lib occ"
  using match_source_from os_finding_vulnerable by metis

lemma scan_source_vulnerable:
  "scan_source lib builds d db repo ignore s = Some found \<Longrightarrow> f \<in> set found \<Longrightarrow>
     occ \<in> set (vf_occurrences f) \<Longrightarrow> is_vulnerable lib occ"
  by (auto simp: scan_source_def match_source_vulnerable split: family.splits)

lemma map_filter_mem: "x \<in> set (concat (List.map_filter f xs)) \<longleftrightarrow> (\<exists>s \<in> set xs. \<exists>ys. f s = Some ys \<and> x \<in> set ys)"
  by (simp only: set_concat UN_iff Bex_def set_map_filter) blast

text \<open>C16: A scan of an image always returns, and accounts for every installed package.  Each package
  belongs to exactly one source package, under its name, version and module stream; the source
  packages whose version does not parse are counted; every finding of the others is in the result
  under its id on its package and version, possibly merged with findings that share an id; and
  the result holds nothing else, all of it vulnerable.\<close>
theorem scan_distro_exact:
  assumes "rust_total_ord (sv_cmp lib)"
  shows "\<exists>fs. scan_distro lib builds d packages db repo ignore =
      Some (fs, length (filter (\<lambda>s. scan_source lib builds d db repo ignore s = None) (sources packages (di_binary_names d)))) \<and>
    (\<forall>p \<in> set packages. \<exists>!s. s \<in> set (sources packages (di_binary_names d)) \<and>
       pkg_key s = source_key (di_binary_names d) p \<and> op_name p \<in> set (sp_binaries s)) \<and>
    (\<forall>s \<in> set (sources packages (di_binary_names d)). \<forall>found. scan_source lib builds d db repo ignore s = Some found \<longrightarrow>
       (\<forall>f \<in> set found. \<exists>g \<in> set fs. vf_id f \<in> set (all_ids g) \<and> occ_key g = occ_key f)) \<and>
    (\<forall>g \<in> set fs. (\<forall>occ \<in> set (vf_occurrences g). is_vulnerable lib occ) \<and>
       (\<exists>s \<in> set (sources packages (di_binary_names d)). \<exists>found. scan_source lib builds d db repo ignore s = Some found \<and>
         (\<exists>f \<in> set found. vf_id g = vf_id f \<and> occ_key g = occ_key f)))"
proof -
  let ?bn = "di_binary_names d" and ?scan = "scan_source lib builds d db repo ignore"
  let ?out = "concat (List.map_filter ?scan (sources packages ?bn))"
  obtain fs where run: "sort_dedup_findings lib ?out = Some fs"
    and named: "\<And>f. f \<in> set ?out \<Longrightarrow> \<exists>g \<in> set fs. occ_key g = occ_key f \<and> vf_id f \<in> set (all_ids g)"
    and source: "\<And>g. g \<in> set fs \<Longrightarrow>
      \<exists>f \<in> set ?out. occ_key g = occ_key f \<and> vf_id g = vf_id f \<and> vf_occurrences g = vf_occurrences f"
    by (rule sort_dedup_findings_named [OF assms(1), of ?out]) metis
  have one: "\<exists>!s. s \<in> set (sources packages ?bn) \<and> pkg_key s = source_key ?bn p \<and> op_name p \<in> set (sp_binaries s)"
    if "p \<in> set packages" for p
    using sources_cover [OF that, of ?bn] sources_distinct [of packages ?bn]
    by (metis (no_types, lifting) distinct_map inj_onD)
  show ?thesis
  proof (intro exI [of _ fs] conjI ballI allI impI)
    show "scan_distro lib builds d packages db repo ignore =
        Some (fs, length (filter (\<lambda>s. ?scan s = None) (sources packages ?bn)))"
      by (simp add: scan_distro_def scan_all_eq run)
  next
    fix s found f
    assume "s \<in> set (sources packages ?bn)" "?scan s = Some found" "f \<in> set found"
    then show "\<exists>g \<in> set fs. vf_id f \<in> set (all_ids g) \<and> occ_key g = occ_key f"
      using named [of f] unfolding map_filter_mem by blast
  next
    fix g occ
    assume g: "g \<in> set fs" "occ \<in> set (vf_occurrences g)"
    obtain s found f where "?scan s = Some found" "f \<in> set found" "vf_occurrences g = vf_occurrences f"
      using source [OF g(1)] unfolding Bex_def map_filter_mem by blast
    then show "is_vulnerable lib occ" using g(2) scan_source_vulnerable by metis
  next
    fix g
    assume "g \<in> set fs"
    then show "\<exists>s \<in> set (sources packages ?bn). \<exists>found. ?scan s = Some found \<and>
        (\<exists>f \<in> set found. vf_id g = vf_id f \<and> occ_key g = occ_key f)"
      using source [of g] unfolding Bex_def map_filter_mem by blast
  qed (rule one)
qed

section \<open>An example\<close>

text \<open>
  AlmaLinux 9 with one package: its own advisory has a fix the package lacks, and Red Hat's VEX an
  open issue and the fixed one.
\<close>

definition alma_version :: "string \<Rightarrow> rpm_version" where
  "alma_version release =
     \<lparr>rv_epoch = 1, rv_epoch_written = True, rv_version = ''3.0.7'', rv_release = Some release, rv_shown = None\<rparr>"

definition alma_advisory :: "string \<Rightarrow> string list \<Rightarrow> rpm_version option \<Rightarrow> rpm_version dist_advisory" where
  "alma_advisory ident aliases fix_v =
     \<lparr>da_id = ident, da_aliases = aliases, da_title = ident, da_severity = Unknown, da_cvss = None,
      da_vector = None, da_urgency = None, da_module = None, da_url = None,
      da_ranges = [\<lparr>pr_matchable = True, pr_events =
        [\<lparr>pe_introduced = Some Unparseable, pe_fixed = None, pe_last_affected = None\<rparr>,
         \<lparr>pe_introduced = None, pe_fixed = fix_v, pe_last_affected = None\<rparr>]\<rparr>],
      da_versions = []\<rparr>"

definition alma_fix :: "rpm_version dist_advisory" where
  "alma_fix = alma_advisory ''ALSA-2026:1'' [''CVE-2026-1''] (Some (alma_version ''27.el9''))"

definition alma_open :: "rpm_version dist_advisory" where
  "alma_open = alma_advisory ''CVE-2026-2'' [] None"

definition alma_distro :: distro where
  "alma_distro = rebuild_of_rhel ((rpm_distro ''AlmaLinux 9'' ''almalinux'' ''AlmaLinux:9'')\<lparr>di_binary_names := True\<rparr>) ''9''"

definition alma_package :: os_package where
  "alma_package = \<lparr>op_name = ''openssl'', op_version = ''1:3.0.7-25.el9'', op_source = ''openssl'',
     op_source_version = ''1:3.0.7-25.el9'', op_arch = None, op_module = None\<rparr>"

definition alma_source :: source_pkg where
  "alma_source = \<lparr>sp_name = ''openssl'', sp_source = ''openssl'', sp_version = ''1:3.0.7-25.el9'',
     sp_binaries = [''openssl''], sp_other_versions = [], sp_module = None, sp_of_source = True\<rparr>"

definition alma_db :: distro_db where
  "alma_db = \<lparr>dd_deb = [], dd_apk = [],
     dd_rpm = [((''AlmaLinux:9'', ''openssl''), [alma_fix]),
               ((red_hat_vex ''9'', ''openssl''), [alma_advisory ''CVE-2026-1'' [] None, alma_open])],
     dd_records = [(''AlmaLinux:9'', 1), (red_hat_vex ''9'', 2)]\<rparr>"

definition alma_env :: "rpm_version match_env" where
  "alma_env = env_for rpm_versions alma_distro ''img'' False [] alma_source (alma_version ''25.el9'') (db_rpm alma_db)"

lemma alma_sources: "sources [alma_package] True = [alma_source]"
  by code_simp

lemma alma_base: "base_records alma_env = [alma_fix]"
  by code_simp

lemma alma_overlays: "overlays alma_env = []"
  by code_simp

lemma alma_affected: "is_wanted alma_env alma_fix" "matches alma_env alma_fix = Some (Some (alma_version ''27.el9''))"
  by code_simp+

lemma alma_fix_facts: "\<not> named_cve alma_fix" "da_id alma_fix = ''ALSA-2026:1''" "cve_keys alma_fix = [''CVE-2026-1'']"
  by code_simp+

lemma alma_fallbacks: "fallback_entries alma_env = [(alma_open, False, None)]"
  by code_simp

lemma alma_open_facts:
  "is_wanted alma_env alma_open" "fallback_choice alma_env (alma_open, False, None) = Some (None, alma_open, None)"
  by code_simp+

lemma alma_ids: "da_id alma_fix = ''ALSA-2026:1''" "da_id alma_open = ''CVE-2026-2''"
  by code_simp+

lemma alma_ord: "rust_ord (ov_cmp (me_versions alma_env))"
  by (simp add: alma_env_def env_for_def rpm_versions_def rpm.rust_ord_axioms)

lemma alma_speaks: "speaks_directly alma_env alma_fix"
proof -
  have "candidates alma_env = [alma_fix]" by code_simp
  then show ?thesis using candidates_iff [of alma_fix alma_env] by simp
qed


text \<open>Red Hat's open issue is reported; what it says of the CVE that AlmaLinux fixed is not asked for.\<close>

theorem fallbacks_speak_last_witness:
  "\<exists>x \<in> set (chosen_fallbacks alma_env). fst x = ''CVE-2026-2'' \<and> fst (snd x) = None"
proof -
  have versions: "me_versions alma_env = rpm_versions" by (simp add: alma_env_def env_for_def)
  have ord: "rust_ord (ov_cmp (me_versions alma_env))"
    unfolding versions by (simp add: rpm_versions_def rpm.rust_ord_axioms)
  have fb: "(alma_open, False, None) \<in> set (fallback_entries alma_env)" unfolding alma_fallbacks by simp
  have wanted: "is_wanted alma_env (fst (alma_open, False, None))" using alma_open_facts(1) by simp
  obtain x where x: "x \<in> set (chosen_fallbacks alma_env)" "fst x = da_id alma_open"
    and top: "chosen_cmp (ov_cmp (me_versions alma_env)) (None, alma_open, None) (snd x) \<noteq> Greater"
    using fallbacks_speak_last [OF ord, of triple_lib, THEN conjunct2, THEN conjunct2, THEN conjunct2, rule_format,
        OF fb wanted alma_open_facts(2)] by auto
  have "fst (snd x) = None"
    using top by (cases "fst (snd x)") (auto simp: chosen_cmp_def chosen_rank_def ord_cmp_def split: prod.splits if_splits)
  moreover have "da_id alma_open = ''CVE-2026-2''" by code_simp
  ultimately show ?thesis using x by auto
qed

lemma alma_reported: "\<exists>f \<in> set (match_source triple_lib alma_env). vf_id f = ''ALSA-2026:1''"
proof -
  have "alma_fix \<in> set (candidates alma_env)" by (simp add: candidates_iff alma_speaks)
  then have "os_finding triple_lib alma_env alma_fix
      (opt_filter (release_shipped alma_env (sp_name (me_src alma_env)) alma_fix) (Some (alma_version ''27.el9''))) None
      \<in> set (match_source triple_lib alma_env)"
    unfolding match_source_def set_append Un_iff direct_findings_iff using alma_affected by blast
  then show ?thesis using os_finding_id alma_ids by metis
qed

theorem scan_distro_exact_witness:
  "\<exists>fs. scan_distro triple_lib [] alma_distro [alma_package] alma_db ''img'' False = Some (fs, 0) \<and>
     (\<exists>g \<in> set fs. ''ALSA-2026:1'' \<in> set (all_ids g))"
proof -
  let ?scan = "scan_source triple_lib [] alma_distro alma_db ''img'' False"
  have names: "di_binary_names alma_distro = True" and fam: "di_family alma_distro = RpmFamily" by code_simp+
  have db: "rpm_lookup alma_distro alma_db alma_source = db_rpm alma_db"
    by (intro ext) (simp add: rpm_lookup_def rebranded_def alma_distro_def rebuild_of_rhel_def plain_distro_def)
  have "rpm_parse (sp_version alma_source) = Some (alma_version ''25.el9'')" by code_simp
  then have found: "?scan alma_source = Some (match_source triple_lib alma_env)"
    using fam by (simp add: scan_source_def db alma_env_def)
  obtain f where f: "f \<in> set (match_source triple_lib alma_env)" "vf_id f = ''ALSA-2026:1''"
    using alma_reported by blast
  obtain fs where run: "scan_distro triple_lib [] alma_distro [alma_package] alma_db ''img'' False =
      Some (fs, length (filter (\<lambda>s. ?scan s = None) [alma_source]))"
    and kept: "\<forall>s \<in> set [alma_source]. \<forall>found. ?scan s = Some found \<longrightarrow>
      (\<forall>f \<in> set found. \<exists>g \<in> set fs. vf_id f \<in> set (all_ids g) \<and> occ_key g = occ_key f)"
    using scan_distro_exact [OF triple_lib_total, of "[]" alma_distro "[alma_package]" alma_db "''img''" False]
    unfolding names alma_sources by (elim exE conjE) (rule that, assumption+)
  have "\<exists>g \<in> set fs. ''ALSA-2026:1'' \<in> set (all_ids g)" using kept found f by (metis list.set_intros(1))
  moreover have "filter (\<lambda>s. ?scan s = None) [alma_source] = []" by (simp only: filter.simps found option.distinct if_False)
  ultimately show ?thesis using run by simp
qed

end
