(* ===== verification/Distro_Db_Props.thy ===== *)
theory Distro_Db_Props
  imports Distro_Db
begin

text \<open>
  What the database of distribution advisories holds: exactly the entries of the records read, in
  order, under the ecosystem and package they name; and what opening an inverted range changes.
\<close>

section \<open>What a record contributes\<close>

definition selected :: "wanted \<Rightarrow> os_affected \<Rightarrow> (string \<times> string \<times> family) option" where
  "selected w a =
     Option.bind (oa_package a) (\<lambda>p. case (pk_name p, pk_ecosystem p) of
         (Some name, Some eco) \<Rightarrow> map_option (\<lambda>f. (name, eco, f)) (bt_get str_cmp eco (wa_ecosystems w))
       | _ \<Rightarrow> None)"

definition filed_eco :: "wanted \<Rightarrow> string \<Rightarrow> string" where
  "filed_eco w eco = (case wa_relabel w of None \<Rightarrow> eco | Some e \<Rightarrow> e)"

definition wanted_entry :: "wanted \<Rightarrow> record_head \<Rightarrow> os_affected \<Rightarrow> os_entry option" where
  "wanted_entry w h a =
     Option.bind (selected w a) (\<lambda>(name, eco, f).
       if opt_test (\<lambda>ps. name \<notin> ps) (wa_packages w) then None else Some (entry_of f (filed_eco w eco) name h a))"

definition counted :: "wanted \<Rightarrow> os_affected list \<Rightarrow> string list" where
  "counted w as = List.map_filter (\<lambda>a. map_option (\<lambda>(_, eco, _). filed_eco w eco) (selected w a)) as"

lemma affected_step_eq:
  "affected_step w h a (es, m) =
     (es @ option_list (wanted_entry w h a),
      (case selected w a of None \<Rightarrow> m | Some (_, eco, _) \<Rightarrow> bump 1 (filed_eco w eco) m))"
  unfolding affected_step_def selected_def [symmetric]
  by (auto simp: wanted_entry_def option_list_def filed_eco_def Let_def split: option.split)

lemma fold_affected_step:
  "fold (affected_step w h) as (es, m) =
     (es @ List.map_filter (wanted_entry w h) as, fold (bump 1) (counted w as) m)"
proof (induction as arbitrary: es m)
  case (Cons a as)
  have "option_list (wanted_entry w h a) @ List.map_filter (wanted_entry w h) as = List.map_filter (wanted_entry w h) (a # as)"
    by (simp add: List.map_filter_simps option_list_def split: option.split)
  moreover have "fold (bump 1) (counted w (a # as)) m =
      fold (bump 1) (counted w as) (case selected w a of None \<Rightarrow> m | Some (_, eco, _) \<Rightarrow> bump 1 (filed_eco w eco) m)"
    by (auto simp: counted_def List.map_filter_simps split: option.split)
  ultimately show ?case by (simp add: affected_step_eq Cons.IH)
qed (simp add: counted_def List.map_filter_simps)

text \<open>A record that counts: not withdrawn, and about security.\<close>

definition record_counts :: "os_record \<Rightarrow> bool" where
  "record_counts r \<longleftrightarrow> ox_withdrawn r = None \<and> \<not> not_security (ox_id r) (os_aliases_of r)"

definition record_entries :: "cvss_parser \<Rightarrow> wanted \<Rightarrow> os_record \<Rightarrow> os_entry list" where
  "record_entries cvss w r =
     (if record_counts r
      then List.map_filter (wanted_entry w (record_head_of cvss r)) (map root_affected (ox_affected r)) else [])"

lemma fst_os_entries_of: "fst (os_entries_of cvss w r) = record_entries cvss w r"
  by (simp add: os_entries_of_def record_entries_def record_counts_def fold_affected_step)

section \<open>The index\<close>

definition deb_part :: "os_entry \<Rightarrow> ((string \<times> string) \<times> deb_version dist_advisory) option" where
  "deb_part e = (case e of DebEntry k a \<Rightarrow> Some (k, a) | _ \<Rightarrow> None)"

definition apk_part :: "os_entry \<Rightarrow> ((string \<times> string) \<times> apk_version dist_advisory) option" where
  "apk_part e = (case e of ApkEntry k a \<Rightarrow> Some (k, a) | _ \<Rightarrow> None)"

definition rpm_part :: "os_entry \<Rightarrow> ((string \<times> string) \<times> rpm_version dist_advisory) option" where
  "rpm_part e = (case e of RpmEntry k a \<Rightarrow> Some (k, a) | _ \<Rightarrow> None)"

abbreviation push_part :: "(string \<times> string) \<times> 'v dist_advisory \<Rightarrow> 'v os_index \<Rightarrow> 'v os_index" where
  "push_part x \<equiv> bt_push key_cmp2 (fst x) (snd x)"

lemma fold_file_entry:
  "dd_deb (fold file_entry es db) = fold push_part (List.map_filter deb_part es) (dd_deb db)"
  "dd_apk (fold file_entry es db) = fold push_part (List.map_filter apk_part es) (dd_apk db)"
  "dd_rpm (fold file_entry es db) = fold push_part (List.map_filter rpm_part es) (dd_rpm db)"
  "dd_records (fold file_entry es db) = dd_records db"
proof (induction es arbitrary: db)
  case (Cons e es)
  { case 1 show ?case using Cons.IH(1) by (cases e) (simp_all add: file_entry_def deb_part_def List.map_filter_simps)
  next case 2 show ?case using Cons.IH(2) by (cases e) (simp_all add: file_entry_def apk_part_def List.map_filter_simps)
  next case 3 show ?case using Cons.IH(3) by (cases e) (simp_all add: file_entry_def rpm_part_def List.map_filter_simps)
  next case 4 show ?case using Cons.IH(4) by (cases e) (simp_all add: file_entry_def) }
qed (simp_all add: List.map_filter_simps)

lemma map_filter_append: "List.map_filter f (xs @ ys) = List.map_filter f xs @ List.map_filter f ys"
  by (induction xs) (simp_all add: List.map_filter_simps split: option.split)

lemma fold_file_record:
  "dd_deb (fold file_record rs db) = fold push_part (List.map_filter deb_part (concat (map fst rs))) (dd_deb db)"
  "dd_apk (fold file_record rs db) = fold push_part (List.map_filter apk_part (concat (map fst rs))) (dd_apk db)"
  "dd_rpm (fold file_record rs db) = fold push_part (List.map_filter rpm_part (concat (map fst rs))) (dd_rpm db)"
proof (induction rs arbitrary: db)
  case (Cons r rs)
  obtain es m where r: "r = (es, m)" by (cases r)
  { case 1 show ?case using Cons.IH(1) by (simp add: r file_record_def fold_file_entry map_filter_append)
  next case 2 show ?case using Cons.IH(2) by (simp add: r file_record_def fold_file_entry map_filter_append)
  next case 3 show ?case using Cons.IH(3) by (simp add: r file_record_def fold_file_entry map_filter_append) }
qed (simp_all add: List.map_filter_simps)

interpretation pkgkey: rust_total_ord key_cmp2
  by (intro ord_intros)

definition under_key :: "string \<Rightarrow> string \<Rightarrow> ((string \<times> string) \<times> 'v dist_advisory) list \<Rightarrow> 'v dist_advisory list" where
  "under_key eco name xs = map snd (filter (\<lambda>x. fst x = (eco, name)) xs)"

lemma index_get_push: "index_get eco name (fold push_part xs []) = under_key eco name xs"
proof -
  have "filter (\<lambda>x. (eco, name) = fst x) xs = filter (\<lambda>x. fst x = (eco, name)) xs" by (rule filter_cong) auto
  then show ?thesis
    unfolding index_get_def pkgkey.get_push_group [of "(eco, name)" fst snd xs] pkgkey.cmp_Equal_iff under_key_def
    by (simp add: Let_def)
qed

section \<open>Loading\<close>

text \<open>Every entry of the records of the exports, in the order they are filed.\<close>

definition export_entries :: "cvss_parser \<Rightarrow> wanted \<Rightarrow> (string \<times> os_record list) list \<Rightarrow> os_entry list" where
  "export_entries cvss w exports =
     concat (map (\<lambda>(path, records). concat (map (record_entries cvss (wanted_at w path)) records)) exports)"

abbreviation all_read :: "(string \<times> os_record list) list \<Rightarrow> (string \<times> ('e + os_record) list) list" where
  "all_read exports \<equiv> map (\<lambda>(path, records). (path, map Inr records)) exports"

lemma load_distro_run:
  assumes "try_fold (\<lambda>export db. and_then (load_export cvss w export) (\<lambda>per_record. Inr (fold file_record per_record db))) files db0 = Inr db"
  shows "\<exists>exports. files = all_read exports \<and>
    db = fold file_record (concat (map (\<lambda>(path, records). map (os_entries_of cvss (wanted_at w path)) records) exports)) db0"
  using assms
proof (induction files arbitrary: db0)
  case Nil
  then show ?case by (intro exI [of _ "[]"]) simp
next
  case (Cons x files)
  obtain path rs where x: "x = (path, rs)" by (cases x)
  obtain records where rs: "rs = map Inr records"
    and rest: "try_fold (\<lambda>export db. and_then (load_export cvss w export) (\<lambda>per_record. Inr (fold file_record per_record db))) files
      (fold file_record (map (os_entries_of cvss (wanted_at w path)) records) db0) = Inr db"
    using Cons.prems by (auto simp: x load_export_def result_simps collect_results_Inr)
  from Cons.IH [OF rest] obtain exports where "files = all_read exports"
    "db = fold file_record (concat (map (\<lambda>(path, records). map (os_entries_of cvss (wanted_at w path)) records) exports))
      (fold file_record (map (os_entries_of cvss (wanted_at w path)) records) db0)" by blast
  then show ?case by (intro exI [of _ "(path, records) # exports"]) (simp add: x rs)
qed

lemma collect_results_error: "collect_results rs = Inl e \<Longrightarrow> Inl e \<in> set rs"
proof (induction rs)
  case (Cons r rs)
  then show ?case by (cases r; cases "collect_results rs") auto
qed simp

lemma load_distro_error:
  assumes "try_fold (\<lambda>export db. and_then (load_export cvss w export) (\<lambda>per_record. Inr (fold file_record per_record db))) files db0 = Inl e"
  shows "\<exists>x \<in> set files. Inl e \<in> set (snd x)"
  using assms
proof (induction files arbitrary: db0)
  case (Cons x files)
  show ?case
  proof (cases "collect_results (snd x)")
    case (Inl e')
    then show ?thesis using Cons.prems collect_results_error [OF Inl] by (simp add: load_export_def)
  next
    case (Inr records)
    then show ?thesis using Cons.prems Cons.IH by (fastforce simp: load_export_def)
  qed
qed simp

text \<open>C17: Loading the database fails closed and is exact.  A file that cannot be read or parsed fails
  the whole load.  Otherwise a lookup in any format answers with exactly the advisories of the
  records read, in their order: one for each affected entry that names the package and an ecosystem
  that is wanted (under its frozen name where the export is a frozen one), of a record that is not
  withdrawn and is about security.\<close>
theorem load_distro_exact:
  "case load_distro cvss files w of
     Inl e \<Rightarrow> \<exists>x \<in> set files. Inl e \<in> set (snd x)
   | Inr db \<Rightarrow> \<exists>exports. files = all_read exports \<and>
       (\<forall>eco name.
          db_deb db eco name = under_key eco name (List.map_filter deb_part (export_entries cvss w exports)) \<and>
          db_apk db eco name = under_key eco name (List.map_filter apk_part (export_entries cvss w exports)) \<and>
          db_rpm db eco name = under_key eco name (List.map_filter rpm_part (export_entries cvss w exports)))"
proof (cases "load_distro cvss files w")
  case (Inl e)
  then show ?thesis using load_distro_error [of cvss w files "empty_db w" e] by (simp add: load_distro_def)
next
  case (Inr db)
  obtain exports where files: "files = all_read exports"
    and db: "db = fold file_record
      (concat (map (\<lambda>(path, records). map (os_entries_of cvss (wanted_at w path)) records) exports)) (empty_db w)"
    using load_distro_run [OF Inr [unfolded load_distro_def]] by blast
  have entries: "concat (map fst (concat (map (\<lambda>(path, records). map (os_entries_of cvss (wanted_at w path)) records) exports))) =
      export_entries cvss w exports"
    unfolding export_entries_def
    by (induction exports) (auto simp: fst_os_entries_of comp_def)
  have empty: "dd_deb (empty_db w) = []" "dd_apk (empty_db w) = []" "dd_rpm (empty_db w) = []"
    by (simp_all add: empty_db_def)
  show ?thesis
    unfolding Inr sum.case
    by (intro exI [of _ exports] conjI files allI)
      (simp_all add: db_deb_def db_apk_def db_rpm_def db fold_file_record entries empty index_get_push)
qed

section \<open>Opening inverted ranges\<close>

text \<open>
  What \<^verbatim>\<open>open_inverted_range\<close> may do to the event at \<open>i\<close>: nothing, or drop its lower bound, when a fix
  below that bound follows before any other event opens the range again.
\<close>

definition no_opener :: "'v parsed_event list \<Rightarrow> nat \<Rightarrow> nat \<Rightarrow> bool" where
  "no_opener events i n \<longleftrightarrow> (\<forall>k. i < k \<longrightarrow> k < n \<longrightarrow> pe_introduced (events ! k) = None)"

definition inverted_before :: "'v cmp \<Rightarrow> 'v parsed_event list \<Rightarrow> nat \<Rightarrow> nat \<Rightarrow> bool" where
  "inverted_before c events n i \<longleftrightarrow>
     (\<exists>j < n. i < j \<and> no_opener events i j \<and>
        (\<exists>f. pe_fixed (events ! j) = Some f \<and> is_inverted c (events ! i) f))"

definition opened_event :: "'v parsed_event \<Rightarrow> 'v parsed_event" where
  "opened_event e = e\<lparr>pe_introduced := Some Unparseable\<rparr>"

text \<open>The state of the loop after \<open>n\<close> events.\<close>

definition opened_to :: "'v cmp \<Rightarrow> 'v parsed_event list \<Rightarrow> nat \<Rightarrow> nat option \<times> 'v parsed_event list \<Rightarrow> bool" where
  "opened_to c events n st \<longleftrightarrow>
     length (snd st) = length events \<and>
     (\<forall>i < length events. snd st ! i = (if inverted_before c events n i then opened_event (events ! i) else events ! i)) \<and>
     (case fst st of
        None \<Rightarrow> \<forall>k < n. pe_introduced (events ! k) = None
      | Some i \<Rightarrow> i < n \<and> pe_introduced (events ! i) \<noteq> None \<and> no_opener events i n)"

lemma is_inverted_opener: "is_inverted c e f \<Longrightarrow> pe_introduced e \<noteq> None" "\<not> is_inverted c (opened_event e) f"
  by (auto simp: is_inverted_def opened_event_def split: option.splits)

text \<open>The opener the loop remembers is the one the next event is compared with.\<close>

lemma opened_to_opener:
  assumes "opened_to c events n st" and "i < n" "pe_introduced (events ! i) \<noteq> None" "no_opener events i n"
  shows "fst st = Some i"
proof (cases "fst st")
  case None
  then show ?thesis using assms by (auto simp: opened_to_def)
next
  case (Some k)
  then have "k < n" "pe_introduced (events ! k) \<noteq> None" "no_opener events k n" using assms(1) by (auto simp: opened_to_def)
  then have "k = i" using assms(2-4) unfolding no_opener_def by (metis nat_neq_iff)
  then show ?thesis using Some by simp
qed

lemma inverted_before_Suc:
  "inverted_before c events (Suc n) i \<longleftrightarrow> inverted_before c events n i \<or>
     i < n \<and> no_opener events i n \<and> (\<exists>f. pe_fixed (events ! n) = Some f \<and> is_inverted c (events ! i) f)"
  by (auto simp: inverted_before_def less_Suc_eq)

lemma open_step_opened:
  assumes st: "opened_to c events n st" and n: "n < length events"
  shows "opened_to c events (Suc n) (open_step c n st)"
proof -
  obtain opened evs where s: "st = (opened, evs)" by (cases st)
  let ?new = "\<lambda>i. i < n \<and> no_opener events i n \<and> (\<exists>f. pe_fixed (events ! n) = Some f \<and> is_inverted c (events ! i) f)"
  have len: "length evs = length events"
    and evs: "\<And>i. i < length events \<Longrightarrow> evs ! i = (if inverted_before c events n i then opened_event (events ! i) else events ! i)"
    using st by (auto simp: opened_to_def s)
  have at_n: "evs ! n = events ! n" using evs [OF n] by (auto simp: inverted_before_def)
  have new_opened: "opened = Some i" if "?new i" for i
  proof -
    from that obtain f where "is_inverted c (events ! i) f" by blast
    then show ?thesis using opened_to_opener [OF st, of i] that is_inverted_opener(1) [of c "events ! i" f] by (simp add: s)
  qed
  obtain evs' where evs': "snd (open_step c n st) = evs'" and len': "length evs' = length events"
    and evs'_nth: "\<And>i. i < length events \<Longrightarrow> evs' ! i = (if ?new i then opened_event (events ! i) else evs ! i)"
  proof (cases "\<exists>i. ?new i")
    case True
    then obtain i f where i: "i < n" "no_opener events i n" "pe_fixed (events ! n) = Some f" "is_inverted c (events ! i) f" by blast
    have op: "opened = Some i" using new_opened i by blast
    show thesis
    proof (cases "inverted_before c events n i")
      case True
      then have "evs ! i = opened_event (events ! i)" using evs [of i] i(1) n by simp
      then have "snd (open_step c n st) = evs"
        using i(3) by (simp add: open_step_def s op at_n Let_def is_inverted_opener(2))
      moreover have "evs ! k = (if ?new k then opened_event (events ! k) else evs ! k)" for k
        using \<open>evs ! i = opened_event (events ! i)\<close> new_opened [of k] op by (cases "k = i") auto
      ultimately show thesis using that [of evs] len by blast
    next
      case False
      then have ei: "evs ! i = events ! i" using evs [of i] i(1) n by simp
      then have "snd (open_step c n st) = evs[i := opened_event (events ! i)]"
        using i(3,4) by (simp add: open_step_def s op at_n Let_def opened_event_def)
      moreover have "evs[i := opened_event (events ! i)] ! k = (if ?new k then opened_event (events ! k) else evs ! k)"
        if "k < length events" for k
        using that i new_opened [of k] op len by (cases "k = i") auto
      ultimately show thesis using that [of "evs[i := opened_event (events ! i)]"] len by simp
    qed
  next
    case False
    have "\<not> (case (opened, pe_fixed (evs ! n)) of (Some i, Some f) \<Rightarrow> is_inverted c (evs ! i) f | _ \<Rightarrow> False)"
    proof
      assume "case (opened, pe_fixed (evs ! n)) of (Some i, Some f) \<Rightarrow> is_inverted c (evs ! i) f | _ \<Rightarrow> False"
      then obtain i f where i: "opened = Some i" "pe_fixed (events ! n) = Some f" "is_inverted c (evs ! i) f"
        unfolding at_n by (auto split: option.splits)
      have "i < n" "no_opener events i n" using st i(1) by (auto simp: opened_to_def s)
      moreover have "is_inverted c (events ! i) f"
        using i(3) evs [of i] \<open>i < n\<close> n by (auto simp: is_inverted_opener(2) split: if_splits)
      ultimately show False using False i(2) by blast
    qed
    then have "snd (open_step c n st) = evs"
      by (cases opened; cases "pe_fixed (evs ! n)") (simp_all add: open_step_def s Let_def)
    moreover have "evs ! i = (if ?new i then opened_event (events ! i) else evs ! i)" for i
      using False by (simp only: not_ex if_False) 
    ultimately show thesis using that [of evs] len by blast
  qed
  have at_n': "pe_introduced (evs' ! n) = pe_introduced (events ! n)" using evs'_nth [OF n] at_n by simp
  have fst': "fst (open_step c n st) = (if pe_introduced (events ! n) \<noteq> None then Some n else opened)"
    using evs' at_n' by (auto simp: open_step_def s Let_def)
  have "(case fst (open_step c n st) of
        None \<Rightarrow> \<forall>k < Suc n. pe_introduced (events ! k) = None
      | Some i \<Rightarrow> i < Suc n \<and> pe_introduced (events ! i) \<noteq> None \<and> no_opener events i (Suc n))"
    using st unfolding fst'
    by (auto simp: opened_to_def s no_opener_def less_Suc_eq split: option.splits)
  then show ?thesis
    unfolding opened_to_def evs' using len' evs'_nth evs by (auto simp: inverted_before_Suc)
qed

lemma open_inverted_events:
  "opened_to c events n (fold (open_step c) [0..<n] (None, events))" if "n \<le> length events"
  using that
proof (induction n)
  case 0
  then show ?case by (simp add: opened_to_def inverted_before_def)
next
  case (Suc n)
  then show ?case using open_step_opened [of c events n] by simp
qed

definition widened :: "'v parsed_event \<Rightarrow> 'v parsed_event \<Rightarrow> bool" where
  "widened e e' \<longleftrightarrow> e' = e \<or> pe_introduced e \<noteq> None \<and> e' = opened_event e"

lemma widened_fold:
  assumes "list_all2 widened es es'" and "a \<Longrightarrow> a'" and "fold (flag_step c aoa v) es a"
  shows "fold (flag_step c aoa v) es' a'"
  using assms
proof (induction es es' arbitrary: a a' rule: list_all2_induct)
  case (Cons e es e' es')
  have step: "flag_step c aoa v e a \<Longrightarrow> flag_step c aoa v e' a'"
    using Cons.hyps(1) Cons.prems(1)
    by (auto simp: widened_def flag_step_def opened_event_def split: option.splits parsed_bound.splits)
  have "fold (flag_step c aoa v) es (flag_step c aoa v e a)" using Cons.prems(2) by simp
  from Cons.IH [OF step this] show ?case by simp
qed simp

lemma open_inverted_widened: "list_all2 widened (pr_events rng) (pr_events (open_inverted_range c rng))"
proof -
  have "opened_to c (pr_events rng) (length (pr_events rng))
      (fold (open_step c) [0..<length (pr_events rng)] (None, pr_events rng))"
    by (rule open_inverted_events) simp
  then show ?thesis
    by (auto simp: opened_to_def open_inverted_range_def list_all2_conv_all_nth widened_def inverted_before_def
        dest: is_inverted_opener(1))
qed

lemma widened_opener: "list_all2 widened es es' \<Longrightarrow>
  list_ex (\<lambda>e. pe_introduced e \<noteq> None) es' = list_ex (\<lambda>e. pe_introduced e \<noteq> None) es"
  by (induction es es' rule: list_all2_induct) (auto simp: widened_def opened_event_def)

lemma open_inverted_keeps:
  assumes "range_flag c aoa v rng"
  shows "range_flag c aoa v (open_inverted_range c rng)"
proof -
  define es es' where es: "es = pr_events rng" and es': "es' = pr_events (open_inverted_range c rng)"
  have w: "list_all2 widened es es'" unfolding es es' by (rule open_inverted_widened)
  have "fold (flag_step c aoa v) es (\<not> list_ex (\<lambda>e. pe_introduced e \<noteq> None) es)"
    using assms by (simp add: range_flag_def es)
  then have "fold (flag_step c aoa v) es' (\<not> list_ex (\<lambda>e. pe_introduced e \<noteq> None) es')"
    using widened_fold [OF w, of "\<not> list_ex (\<lambda>e. pe_introduced e \<noteq> None) es"
      "\<not> list_ex (\<lambda>e. pe_introduced e \<noteq> None) es'"] widened_opener [OF w] by simp
  then show ?thesis by (simp add: range_flag_def es')
qed

lemma opened_to_map:
  assumes "opened_to c events (length events) st"
  shows "snd st = map (\<lambda>i. if inverted_before c events (length events) i then opened_event (events ! i) else events ! i)
    [0..<length events]"
  using assms by (intro nth_equalityI) (auto simp: opened_to_def)

lemma open_inverted_map:
  "pr_events (open_inverted_range c rng) =
     map (\<lambda>i. if inverted_before c (pr_events rng) (length (pr_events rng)) i
              then opened_event (pr_events rng ! i) else pr_events rng ! i) [0..<length (pr_events rng)]"
  unfolding open_inverted_range_def
  using opened_to_map [OF open_inverted_events [OF order.refl]] by simp

text \<open>C18: Opening inverted ranges drops exactly the lower bounds that lie above the fix that ends their
  range, which without it would match no version, and so never takes an affected version out: what
  a range of the record affects is still affected after it.\<close>
theorem open_inverted_range_exact:
  "pr_events (open_inverted_range c rng) =
     map (\<lambda>i. if inverted_before c (pr_events rng) (length (pr_events rng)) i
              then opened_event (pr_events rng ! i) else pr_events rng ! i) [0..<length (pr_events rng)] \<and>
   (range_flag c aoa v rng \<longrightarrow> range_flag c aoa v (open_inverted_range c rng))"
  by (intro conjI impI open_inverted_map open_inverted_keeps)

text \<open>
  OpenSSL in Alpine 3.21, introduced by upstream's 3.4.0 and fixed by the branch's 3.3.7-r2, after a
  range of the versions before 3.
\<close>

definition openssl_range :: "apk_version parsed_range" where
  "openssl_range = parse_range apk_parse
     \<lparr>rg_matchable = True, rg_events =
        [\<lparr>ev_introduced = Some ''0'', ev_fixed = None, ev_last_affected = None\<rparr>,
         \<lparr>ev_introduced = None, ev_fixed = Some ''3.0.0-r0'', ev_last_affected = None\<rparr>,
         \<lparr>ev_introduced = Some ''3.4.0'', ev_fixed = None, ev_last_affected = None\<rparr>,
         \<lparr>ev_introduced = None, ev_fixed = Some ''3.3.7-r2'', ev_last_affected = None\<rparr>]\<rparr>"

lemma openssl_old: "range_flag apk_cmp (plain_ge apk_cmp) \<lparr>av_raw = ''2.0-r1''\<rparr> openssl_range"
  by code_simp

lemma openssl_branch:
  "\<not> range_flag apk_cmp (plain_ge apk_cmp) \<lparr>av_raw = ''3.3.1-r0''\<rparr> openssl_range"
  "range_flag apk_cmp (plain_ge apk_cmp) \<lparr>av_raw = ''3.3.1-r0''\<rparr> (open_inverted_range apk_cmp openssl_range)"
  by code_simp+

theorem open_inverted_range_exact_witness:
  "range_flag apk_cmp (plain_ge apk_cmp) \<lparr>av_raw = ''2.0-r1''\<rparr> (open_inverted_range apk_cmp openssl_range)"
  using open_inverted_range_exact [of apk_cmp openssl_range "plain_ge apk_cmp" "\<lparr>av_raw = ''2.0-r1''\<rparr>"] openssl_old
  by blast

end
