(* ===== verification/Report.thy ===== *)
theory Report
  imports Core_Model Ssvc
begin

text \<open>
  The report of one scan, \<^verbatim>\<open>crates/core/src/report.rs\<close>: its records as the JSON schema has them and
  the summary, whose finding-derived fields have one definition (\<open>refresh_summary\<close>).
\<close>

section \<open>Parts of the report\<close>

record image_base =
  ib_repo :: repo_id
  ib_fingerprint :: string
  ib_name :: "string option"
  ib_os :: "string option"
  ib_layers :: nat

record base_image =
  bi_fingerprint :: string
  bi_name :: "string option"
  bi_os :: "string option"
  bi_layers :: nat
  bi_images :: "repo_id list"
  bi_findings :: nat
  bi_fixable :: nat

record 'v version_in_fleet =
  vif_version :: 'v
  vif_repos :: "repo_id list"

record 'v package_versions =
  pv_ecosystem :: ecosystem
  pv_package :: string
  pv_versions :: "'v version_in_fleet list"

record repo_context =
  cx_repo :: repo_id
  cx_exposure :: "exposure option"
  cx_mission :: "mission_impact option"
  cx_safety :: "safety_impact option"
  cx_owner :: "string option"
  cx_tags :: "string list"
  cx_set_by :: "(string, string) btree"
  cx_fail_closed :: bool

record ssvc_decision =
  sd_advisory :: string
  sd_repo :: repo_id
  sd_package :: string
  sd_installed :: string
  sd_exploitation :: exploitation
  sd_exposure :: exposure
  sd_automatable :: automatable_value
  sd_human_impact :: human_impact_value
  sd_outcome :: outcome
  sd_vector :: string
  sd_rationale :: string
  sd_owner :: "string option"

record ssvc_report =
  sr_table :: string
  sr_decisions :: "ssvc_decision list"
  sr_weights :: "(outcome, nat) btree"
  sr_not_computed :: "string option"

definition max_outcome :: "ssvc_report \<Rightarrow> outcome option" where
  "max_outcome r = max_by ord_cmp (map sd_outcome (sr_decisions r))"

record repo_source =
  rs_repo :: repo_id
  rs_url :: string
  rs_commit :: string

datatype coverage = Full | DirectOnly | Partial

primrec coverage_label :: "coverage \<Rightarrow> string" where
  "coverage_label Full = ''full''"
| "coverage_label DirectOnly = ''direct-only''"
| "coverage_label Partial = ''partial''"

record coverage_gap =
  cg_repo :: repo_id
  cg_source :: string
  cg_ecosystem :: ecosystem
  cg_level :: coverage
  cg_reason :: string

record image_attestation =
  ia_digest :: string
  ia_signed_by :: "string option"
  ia_refused :: "string option"
  ia_statements :: nat
  ia_set_aside :: nat

record image_pull =
  ip_repo :: repo_id
  ip_reference :: string
  ip_digest :: string
  ip_vex :: "image_attestation list"

record osv_provenance =
  op_ecosystem :: string
  op_source :: string
  op_path :: string
  op_upstream_modified :: "string option"
  op_fetched_at :: "string option"
  op_sha256 :: "string option"
  op_age_basis :: string

record provenance =
  pr_tool_version :: string
  pr_rustsec_version :: string
  pr_db_commit :: "string option"
  pr_db_timestamp :: "string option"
  pr_host_os :: string
  pr_host_arch :: string
  pr_generated_at :: string
  pr_osv :: "osv_provenance list"
  pr_sources :: "repo_source list"
  pr_images :: "image_pull list"
  pr_db_snapshot :: "string option"

record summary =
  su_scanned :: nat
  su_errored :: nat
  su_vulns :: nat
  su_warns :: nat
  su_max_severity :: severity
  su_stale_ignores :: "string list"

record ('v, 'r) fleet_report =
  fr_schema_version :: nat
  fr_provenance :: provenance
  fr_summary :: summary
  fr_vulnerabilities :: "('v, 'r) vuln_finding list"
  fr_warnings :: "('v, 'r) warn_finding list"
  fr_outcomes :: "repo_outcome list"
  fr_coverage :: "coverage_gap list"
  fr_context :: "repo_context list"
  fr_ssvc :: "ssvc_report option"
  fr_package_versions :: "'v package_versions list"
  fr_base_images :: "base_image list"

definition schema_version :: nat where
  "schema_version = 1"

section \<open>The summary\<close>

definition max_severity_of :: "('v, 'r) vuln_finding list \<Rightarrow> severity" where
  "max_severity_of vulns =
     (case max_by ord_cmp (map vf_severity vulns) of None \<Rightarrow> Unknown | Some s \<Rightarrow> s)"

definition refresh_summary :: "('v, 'r) fleet_report \<Rightarrow> ('v, 'r) fleet_report" where
  "refresh_summary r =
     r\<lparr>fr_summary := (fr_summary r)
         \<lparr>su_vulns := length (fr_vulnerabilities r),
          su_warns := length (fr_warnings r),
          su_max_severity := max_severity_of (fr_vulnerabilities r)\<rparr>\<rparr>"

text \<open>The invariant of a report: the summary says what the findings are.\<close>

definition summary_ok :: "('v, 'r) fleet_report \<Rightarrow> bool" where
  "summary_ok r \<longleftrightarrow>
     su_vulns (fr_summary r) = length (fr_vulnerabilities r) \<and>
     su_warns (fr_summary r) = length (fr_warnings r) \<and>
     su_max_severity (fr_summary r) = max_severity_of (fr_vulnerabilities r)"

lemma summary_ok_refresh [simp]: "summary_ok (refresh_summary r)"
  by (simp add: summary_ok_def refresh_summary_def)

lemma refresh_summary_simps [simp]:
  "fr_vulnerabilities (refresh_summary r) = fr_vulnerabilities r"
  "fr_warnings (refresh_summary r) = fr_warnings r"
  "fr_outcomes (refresh_summary r) = fr_outcomes r"
  "su_scanned (fr_summary (refresh_summary r)) = su_scanned (fr_summary r)"
  "su_errored (fr_summary (refresh_summary r)) = su_errored (fr_summary r)"
  by (simp_all add: refresh_summary_def)

text \<open>The maximum is at or above every finding, and is the severity of one of them when there is one.\<close>

lemma max_severity_upper: "f \<in> set vulns \<Longrightarrow> vf_severity f \<le> max_severity_of vulns"
proof -
  assume f: "f \<in> set vulns"
  then obtain m where m: "max_by ord_cmp (map vf_severity vulns) = Some m"
    by (cases "max_by ord_cmp (map vf_severity vulns)") auto
  then have "ord_cmp (vf_severity f) m \<noteq> Greater"
    using f by (intro prim.max_by_upper [OF m]) simp
  then show ?thesis using m by (simp add: max_severity_of_def not_less)
qed

lemma max_severity_mem: "vulns \<noteq> [] \<Longrightarrow> max_severity_of vulns \<in> vf_severity ` set vulns"
proof -
  assume "vulns \<noteq> []"
  then obtain m where m: "max_by ord_cmp (map vf_severity vulns) = Some m"
    by (cases "max_by ord_cmp (map vf_severity vulns)") auto
  then have "m \<in> set (map vf_severity vulns)" by (rule max_by_mem)
  then show ?thesis using m by (simp add: max_severity_of_def)
qed

end
