(* ===== verification/Remediation.thy ===== *)
theory Remediation
  imports Report Rust_Groups
begin

text \<open>
  The remediation queue (\<^verbatim>\<open>src/crates/core/src/remediation.rs\<close>): the findings of a report grouped by
  the package to act on, one upgrade per group that clears every advisory of the group at or above
  what is installed, or one action per advisory when no version does; with fleet evidence, risk and
  the smaller upgrades for repositories on older lines.
\<close>

section \<open>The items\<close>

datatype reach_tier = TierReachable | TierUnknown | TierNotReachable

definition is_actionable :: "reach_tier \<Rightarrow> bool" where
  "is_actionable tier \<longleftrightarrow> tier \<noteq> TierNotReachable"

datatype 'v action = Upgrade 'v bool | NoFixAvailable

datatype risk = RiskLow | RiskMedium | RiskHigh

primrec risk_label :: "risk \<Rightarrow> string" where
  "risk_label RiskLow = ''low''"
| "risk_label RiskMedium = ''medium''"
| "risk_label RiskHigh = ''high''"

record 'v fleet_evidence =
  fe_repos :: nat
  fe_newest :: 'v

record 'v alternative =
  al_to :: 'v
  al_repos :: nat
  al_clears :: "string list"
  al_leaves_open :: "string list"
  al_evidence :: "'v fleet_evidence option"

definition proven_repos :: nat where
  "proven_repos = 3"

record 'v remediation_item =
  ri_package :: string
  ri_ecosystem :: ecosystem
  ri_current :: "'v list"
  ri_advisories :: "string list"
  ri_action :: "'v action"
  ri_reach :: reach_tier
  ri_repos :: nat
  ri_occurrences :: nat
  ri_max_severity :: severity
  ri_kev :: bool
  ri_max_epss :: "score option"
  ri_max_cvss :: "score option"
  ri_evidence :: "'v fleet_evidence option"
  ri_risk :: "risk option"
  ri_risk_reasons :: "string list"
  ri_alternatives :: "'v alternative list"

section \<open>What a finding says\<close>

definition occurrence_package :: "('v, 'r) occurrence \<Rightarrow> string" where
  "occurrence_package occ = (case occ of InRepo r \<Rightarrow> ir_package r | Toolchain channel _ _ \<Rightarrow> channel)"

definition occurrence_patched :: "('v, 'r) occurrence \<Rightarrow> 'r list" where
  "occurrence_patched occ = (case occ of InRepo r \<Rightarrow> ir_patched r | Toolchain _ _ patched \<Rightarrow> patched)"

definition occurrence_installed :: "('v, 'r) occurrence \<Rightarrow> 'v option" where
  "occurrence_installed occ = (case occ of InRepo r \<Rightarrow> Some (ir_installed r) | Toolchain _ installed _ \<Rightarrow> installed)"

definition occurrence_repo :: "('v, 'r) occurrence \<Rightarrow> repo_id option" where
  "occurrence_repo occ = (case occ of InRepo r \<Rightarrow> Some (ir_repo r) | Toolchain _ _ _ \<Rightarrow> None)"

definition split_by_package :: "('v, 'r) vuln_finding \<Rightarrow> ('v, 'r) vuln_finding list" where
  "split_by_package f =
     (let by_package = group_by str_cmp occurrence_package id (vf_occurrences f)
      in if length by_package \<le> 1 then [f]
         else map (\<lambda>(_, occs). f\<lparr>vf_occurrences := occs\<rparr>) by_package)"

definition finding_package :: "('v, 'r) vuln_finding \<Rightarrow> string option" where
  "finding_package f = (case vf_occurrences f of [] \<Rightarrow> None | occ # _ \<Rightarrow> Some (occurrence_package occ))"

definition finding_patched :: "('v, 'r) semver_lib \<Rightarrow> ('v, 'r) vuln_finding \<Rightarrow> 'r list" where
  "finding_patched lib f =
     dedup_by (\<lambda>a b. req_show lib a = req_show lib b)
       (sort_by (cmp_on (req_show lib) str_cmp) (concat (map occurrence_patched (vf_occurrences f))))"

definition installed_versions :: "('v, 'r) semver_lib \<Rightarrow> ('v, 'r) vuln_finding \<Rightarrow> 'v list" where
  "installed_versions lib f =
     List.map_filter occurrence_installed (filter (is_vulnerable lib) (vf_occurrences f))"

definition repo_ids :: "('v, 'r) semver_lib \<Rightarrow> ('v, 'r) vuln_finding \<Rightarrow> repo_id list" where
  "repo_ids lib f = List.map_filter occurrence_repo (filter (is_vulnerable lib) (vf_occurrences f))"

definition vuln_occ_count :: "('v, 'r) semver_lib \<Rightarrow> ('v, 'r) vuln_finding \<Rightarrow> nat" where
  "vuln_occ_count lib f = length (filter (is_vulnerable lib) (vf_occurrences f))"

definition finding_reach :: "('v, 'r) vuln_finding \<Rightarrow> reach_tier" where
  "finding_reach f =
     (case map_option rc_verdict (vf_reachability f) of
        Some (Reachable _) \<Rightarrow> TierReachable
      | Some NotReachable \<Rightarrow> TierNotReachable
      | Some (ReachUnknown _) \<Rightarrow> TierUnknown
      | None \<Rightarrow> TierUnknown)"

fun collapse_from :: "reach_tier \<Rightarrow> ('v, 'r) vuln_finding list \<Rightarrow> reach_tier" where
  "collapse_from tier [] = tier"
| "collapse_from tier (f # fs) =
     (case finding_reach f of
        TierReachable \<Rightarrow> TierReachable
      | TierUnknown \<Rightarrow> collapse_from TierUnknown fs
      | TierNotReachable \<Rightarrow> collapse_from tier fs)"

definition collapse_reach :: "('v, 'r) vuln_finding list \<Rightarrow> reach_tier" where
  "collapse_reach fs = collapse_from TierNotReachable fs"

section \<open>Where a fix starts\<close>

definition has_floor :: "req_op \<Rightarrow> bool" where
  "has_floor operator \<longleftrightarrow> operator \<in> {OpExact, OpGreater, OpGreaterEq, OpTilde, OpCaret}"

definition or_zero :: "nat option \<Rightarrow> nat" where
  "or_zero n = (case n of None \<Rightarrow> 0 | Some m \<Rightarrow> m)"

definition req_floor :: "('v, 'r) semver_lib \<Rightarrow> 'r \<Rightarrow> 'v option" where
  "req_floor lib req =
     map_option (\<lambda>c. sv_new lib (cm_major c) (or_zero (cm_minor c)) (or_zero (cm_patch c)))
       (List.find (\<lambda>c. has_floor (cm_op c)) (req_comparators lib req))"

definition floors_of :: "('v, 'r) semver_lib \<Rightarrow> 'r list \<Rightarrow> 'v list" where
  "floors_of lib patched = List.map_filter (req_floor lib) patched"

definition finding_floor :: "('v, 'r) semver_lib \<Rightarrow> 'r list \<Rightarrow> 'v option" where
  "finding_floor lib patched = min_by (sv_cmp lib) (floors_of lib patched)"

definition finding_target :: "('v, 'r) semver_lib \<Rightarrow> 'r list \<Rightarrow> 'v \<Rightarrow> 'v option" where
  "finding_target lib patched lb =
     (let floors = sort_by (sv_cmp lib) (floors_of lib patched)
      in case List.find (\<lambda>v. sv_cmp lib v lb \<noteq> Less) floors of
           Some v \<Rightarrow> Some v
         | None \<Rightarrow> (if floors = [] then None else Some (last floors)))"

definition satisfied_by :: "('v, 'r) semver_lib \<Rightarrow> 'r list \<Rightarrow> 'v \<Rightarrow> bool" where
  "satisfied_by lib patched v \<longleftrightarrow> list_ex (\<lambda>r. req_matches lib r v) patched"

section \<open>Lines, evidence and risk\<close>

definition version_line :: "('v, 'r) semver_lib \<Rightarrow> 'v \<Rightarrow> nat \<times> nat" where
  "version_line lib v = (sv_major lib v, if sv_major lib v = 0 then sv_minor lib v else 0)"

definition compatible_with :: "('v, 'r) semver_lib \<Rightarrow> 'v \<Rightarrow> 'v \<Rightarrow> bool" where
  "compatible_with lib to v \<longleftrightarrow> sv_cmp lib v to \<noteq> Less \<and> version_line lib v = version_line lib to"

definition evidence_for :: "('v, 'r) semver_lib \<Rightarrow> 'v \<Rightarrow> 'v package_versions \<Rightarrow> 'v fleet_evidence option" where
  "evidence_for lib to fleet =
     (let on_target = filter (\<lambda>v. compatible_with lib to (vif_version v)) (pv_versions fleet);
          repos = bs_of_list str_cmp (concat (map vif_repos on_target))
      in if on_target = [] then None
         else Some \<lparr>fe_repos = length repos, fe_newest = vif_version (last on_target)\<rparr>)"

definition upgrade_risk ::
  "('v, 'r) semver_lib \<Rightarrow> 'v \<Rightarrow> bool \<Rightarrow> 'v fleet_evidence option \<Rightarrow> bool \<Rightarrow> risk \<times> string list" where
  "upgrade_risk lib to breaking evidence fleet_known =
     (let proven = (case evidence of None \<Rightarrow> 0 | Some e \<Rightarrow> fe_repos e);
          in_fleet =
            (if proven = 0 then (if fleet_known then ''no repo in the fleet runs it yet'' else [])
             else if proven = 1 then ''1 repo already runs '' @ sv_show lib to @ ''+''
             else show_nat proven @ '' repos already run '' @ sv_show lib to @ ''+'');
          (level, why) =
            (if \<not> breaking then (RiskLow, ''within the current major'')
             else if proven_repos \<le> proven then (RiskMedium, ''breaking (new major)'')
             else (RiskHigh, ''breaking (new major)''))
      in (level, why # (if in_fleet = [] then [] else [in_fleet])))"

definition assess_risk ::
  "('v, 'r) semver_lib \<Rightarrow> 'v package_versions option \<Rightarrow> 'v remediation_item \<Rightarrow> 'v remediation_item" where
  "assess_risk lib fleet item =
     (case ri_action item of
        NoFixAvailable \<Rightarrow> item
      | Upgrade to breaking \<Rightarrow>
          (let evidence = Option.bind fleet (evidence_for lib to)
           in case upgrade_risk lib to breaking evidence (fleet \<noteq> None) of
                (level, reasons) \<Rightarrow>
                  item\<lparr>ri_evidence := evidence, ri_risk := Some level, ri_risk_reasons := reasons\<rparr>))"

section \<open>Smaller upgrades for older lines\<close>

text \<open>
  The vulnerable occurrences of each line older than the target: the highest version on it, its
  repositories and the findings on it.  A finding is known by its place in the group, where the
  source compares references.
\<close>

type_synonym 'v line_entry = "'v \<times> string bset \<times> nat list"

definition add_to_line ::
  "('v, 'r) semver_lib \<Rightarrow> 'v \<Rightarrow> nat \<times> ('v, 'r) occurrence \<Rightarrow> (nat \<times> nat, 'v line_entry) btree
     \<Rightarrow> (nat \<times> nat, 'v line_entry) btree" where
  "add_to_line lib to entry lines =
     (case snd entry of
        Toolchain _ _ _ \<Rightarrow> lines
      | InRepo r \<Rightarrow>
          if cmp_pair ord_cmp ord_cmp (version_line lib (ir_installed r)) (version_line lib to) \<noteq> Less then lines
          else bt_alter (cmp_pair ord_cmp ord_cmp) (version_line lib (ir_installed r))
            (\<lambda>old. case (case old of None \<Rightarrow> (ir_installed r, [], []) | Some e \<Rightarrow> e) of
               (base, repos, on_line) \<Rightarrow>
                 (max_ord (sv_cmp lib) base (ir_installed r), bs_insert str_cmp (ir_repo r) repos,
                  if fst entry \<in> set on_line then on_line else on_line @ [fst entry])) lines)"

definition line_entries ::
  "('v, 'r) semver_lib \<Rightarrow> 'v \<Rightarrow> ('v, 'r) vuln_finding list \<Rightarrow> (nat \<times> nat, 'v line_entry) btree" where
  "line_entries lib to part =
     fold (add_to_line lib to)
       (concat (map (\<lambda>i. map (Pair i) (filter (is_vulnerable lib) (vf_occurrences (part ! i))))
         [0..<length part])) []"

text \<open>\<^verbatim>\<open>Vec<String>\<close> with \<^verbatim>\<open>sort\<close> and \<^verbatim>\<open>dedup\<close>.\<close>

definition sorted_ids :: "string list \<Rightarrow> string list" where
  "sorted_ids ids = dedup_by (\<lambda>a b. a = b) (sort_by str_cmp ids)"

definition line_alternative ::
  "('v, 'r) semver_lib \<Rightarrow> 'v package_versions option \<Rightarrow> ('v, 'r) vuln_finding list
     \<Rightarrow> (nat \<times> nat) \<times> 'v line_entry \<Rightarrow> 'v alternative option" where
  "line_alternative lib fleet part entry =
     (case entry of (key, base, repos, idxs) \<Rightarrow>
        (let on_line = map ((!) part) idxs;
             first_floor = (\<lambda>f. case sort_by (sv_cmp lib)
                 (filter (\<lambda>v. version_line lib v = key \<and> sv_cmp lib v base \<noteq> Less)
                   (floors_of lib (finding_patched lib f))) of
               [] \<Rightarrow> None | v # _ \<Rightarrow> Some v)
         in case max_by (sv_cmp lib) (List.map_filter first_floor on_line) of
              None \<Rightarrow> None
            | Some candidate \<Rightarrow>
                (let clears = map vf_id (filter (\<lambda>f. satisfied_by lib (finding_patched lib f) candidate) on_line);
                     leaves = map vf_id (filter (\<lambda>f. \<not> satisfied_by lib (finding_patched lib f) candidate) on_line)
                 in if clears = [] then None
                    else Some \<lparr>al_to = candidate, al_repos = length repos, al_clears = sorted_ids clears,
                      al_leaves_open = sorted_ids leaves,
                      al_evidence = Option.bind fleet (evidence_for lib candidate)\<rparr>)))"

definition alternatives ::
  "('v, 'r) semver_lib \<Rightarrow> ('v, 'r) vuln_finding list \<Rightarrow> 'v action \<Rightarrow> 'v package_versions option
     \<Rightarrow> 'v alternative list" where
  "alternatives lib part action fleet =
     (case action of
        NoFixAvailable \<Rightarrow> []
      | Upgrade to _ \<Rightarrow> List.map_filter (line_alternative lib fleet part) (line_entries lib to part))"

section \<open>One item\<close>

definition reduce_max :: "score list \<Rightarrow> score option" where
  "reduce_max xs = (case xs of [] \<Rightarrow> None | x # ys \<Rightarrow> Some (fold max ys x))"

definition build_item ::
  "('v, 'r) semver_lib \<Rightarrow> ecosystem \<Rightarrow> string \<Rightarrow> ('v, 'r) vuln_finding list \<Rightarrow> 'v action \<Rightarrow> 'v remediation_item" where
  "build_item lib eco package part action =
     \<lparr>ri_package = package, ri_ecosystem = eco,
      ri_current = dedup_by (\<lambda>a b. sv_cmp lib a b = Equal)
        (sort_by (sv_cmp lib) (concat (map (installed_versions lib) part))),
      ri_advisories = sorted_ids (map vf_id part), ri_action = action,
      ri_reach = collapse_reach part,
      ri_repos = length (bs_of_list str_cmp (concat (map (repo_ids lib) part))),
      ri_occurrences = sum_list (map (vuln_occ_count lib) part),
      ri_max_severity = fold max (map vf_severity part) Unknown,
      ri_kev = list_ex (\<lambda>f. ex_kev (vf_exploit f)) part,
      ri_max_epss = reduce_max (List.map_filter (\<lambda>f. ex_epss (vf_exploit f)) part),
      ri_max_cvss = reduce_max (List.map_filter vf_cvss part),
      ri_evidence = None, ri_risk = None, ri_risk_reasons = [], ri_alternatives = []\<rparr>"

definition upgrade_action ::
  "('v, 'r) semver_lib \<Rightarrow> ('v, 'r) vuln_finding list \<Rightarrow> 'v \<Rightarrow> 'v action" where
  "upgrade_action lib part to =
     Upgrade to
       (case max_by (sv_cmp lib) (concat (map (installed_versions lib) part)) of
          None \<Rightarrow> False
        | Some c \<Rightarrow> sv_major lib to \<noteq> sv_major lib c \<or>
            (sv_major lib to = 0 \<and> sv_minor lib to \<noteq> sv_minor lib c))"

definition full_item ::
  "('v, 'r) semver_lib \<Rightarrow> 'v package_versions option \<Rightarrow> ecosystem \<Rightarrow> string \<Rightarrow> ('v, 'r) vuln_finding list
     \<Rightarrow> 'v action \<Rightarrow> 'v remediation_item" where
  "full_item lib fleet eco package part action =
     (assess_risk lib fleet (build_item lib eco package part action))
       \<lparr>ri_alternatives := alternatives lib part action fleet\<rparr>"

section \<open>The queue\<close>

definition is_fixable :: "('v, 'r) semver_lib \<Rightarrow> ('v, 'r) vuln_finding \<Rightarrow> bool" where
  "is_fixable lib f \<longleftrightarrow> finding_floor lib (finding_patched lib f) \<noteq> None"

definition max_installed :: "('v, 'r) semver_lib \<Rightarrow> ('v, 'r) vuln_finding list \<Rightarrow> 'v" where
  "max_installed lib fs =
     (case max_by (sv_cmp lib) (concat (map (installed_versions lib) fs)) of
        None \<Rightarrow> sv_new lib 0 0 0
      | Some v \<Rightarrow> v)"

text \<open>The smallest floor at or above the start that every advisory's safe set contains.\<close>

definition common_target :: "('v, 'r) semver_lib \<Rightarrow> ('v, 'r) vuln_finding list \<Rightarrow> 'v \<Rightarrow> 'v option" where
  "common_target lib fixable start =
     List.find (\<lambda>v. list_all (\<lambda>f. satisfied_by lib (finding_patched lib f) v) fixable)
       (dedup_by (\<lambda>a b. sv_cmp lib a b = Equal)
         (sort_by (sv_cmp lib)
           (filter (\<lambda>v. sv_cmp lib v start \<noteq> Less)
             (concat (map (\<lambda>f. floors_of lib (finding_patched lib f)) fixable)))))"

definition group_start :: "('v, 'r) semver_lib \<Rightarrow> ('v, 'r) vuln_finding list \<Rightarrow> 'v option" where
  "group_start lib fixable =
     max_by (sv_cmp lib)
       (List.map_filter (\<lambda>f. finding_target lib (finding_patched lib f) (max_installed lib fixable)) fixable)"

definition fix_actions ::
  "('v, 'r) semver_lib \<Rightarrow> ('v, 'r) vuln_finding list \<Rightarrow> (('v, 'r) vuln_finding list \<times> 'v action) list" where
  "fix_actions lib fixable =
     (case group_start lib fixable of
        None \<Rightarrow> []
      | Some start \<Rightarrow>
          (case common_target lib fixable start of
             Some candidate \<Rightarrow> [(fixable, upgrade_action lib fixable candidate)]
           | None \<Rightarrow>
               List.map_filter (\<lambda>f.
                 map_option (\<lambda>target. ([f], upgrade_action lib [f] target))
                   (finding_target lib (finding_patched lib f) (max_installed lib [f]))) fixable))"

definition group_actions ::
  "('v, 'r) semver_lib \<Rightarrow> ('v, 'r) vuln_finding list \<Rightarrow> (('v, 'r) vuln_finding list \<times> 'v action) list" where
  "group_actions lib findings =
     (let fixable = filter (is_fixable lib) findings; nofix = filter (\<lambda>f. \<not> is_fixable lib f) findings
      in (if nofix = [] then [] else [(nofix, NoFixAvailable)]) @
         (if fixable = [] then [] else fix_actions lib fixable))"

definition package_groups ::
  "('v, 'r) semver_lib \<Rightarrow> ('v, 'r) vuln_finding list \<Rightarrow> (ecosystem \<times> string, ('v, 'r) vuln_finding list) btree" where
  "package_groups lib vulns =
     group_by (cmp_pair ord_cmp str_cmp) fst snd
       (List.map_filter (\<lambda>v. if vuln_occ_count lib v = 0 then None
           else map_option (\<lambda>package. ((vf_ecosystem v, package), v)) (finding_package v))
         (concat (map split_by_package vulns)))"

definition remediation_cmp :: "'v remediation_item cmp" where
  "remediation_cmp =
     cmp_then (cmp_on ri_package str_cmp)
       (cmp_then (cmp_on ri_ecosystem ord_cmp) (cmp_on ri_advisories (cmp_list str_cmp)))"

definition remediations :: "('v, 'r) semver_lib \<Rightarrow> ('v, 'r) fleet_report \<Rightarrow> 'v remediation_item list" where
  "remediations lib report =
     sort_by remediation_cmp
       (concat (map (\<lambda>((eco, package), findings).
          (let fleet = List.find (\<lambda>p. pv_ecosystem p = eco \<and> pv_package p = package) (fr_package_versions report)
           in map (\<lambda>(part, action). full_item lib fleet eco package part action)
                (group_actions lib findings)))
         (package_groups lib (fr_vulnerabilities report))))"

end
