(* ===== verification/Remediation_Props.thy ===== *)
theory Remediation_Props
  imports Remediation
begin

text \<open>
  What the remediation queue promises: every finding with a vulnerable occurrence is named by an
  item for its package, active unless it is known not to be reachable, and an upgrade lands in the
  safe set of every advisory it is for.
\<close>

interpretation pkgkey: rust_total_ord "cmp_pair ord_cmp str_cmp :: (ecosystem \<times> string) cmp"
  by (intro ord_intros rust_total_ord_ord_cmp str.rust_total_ord_axioms)

section \<open>Splitting by package\<close>

lemma split_single:
  assumes "length (group_by str_cmp occurrence_package id occs) \<le> 1" and "x \<in> set occs" "y \<in> set occs"
  shows "occurrence_package x = occurrence_package y"
proof -
  let ?m = "group_by str_cmp occurrence_package id occs"
  obtain k where k: "(k, map id (filter (\<lambda>z. str_cmp (occurrence_package x) (occurrence_package z) = Equal) occs)) \<in> set ?m"
    "str_cmp (occurrence_package x) k = Equal" by (rule str.group_by_cover [OF assms(2)])
  obtain l where l: "(l, map id (filter (\<lambda>z. str_cmp (occurrence_package y) (occurrence_package z) = Equal) occs)) \<in> set ?m"
    "str_cmp (occurrence_package y) l = Equal" by (rule str.group_by_cover [OF assms(3)])
  have "k = l" using assms(1) k(1) l(1) by (cases ?m) auto
  then show ?thesis using k(2) l(2) by simp
qed

text \<open>The part of a finding for the package of one of its occurrences.\<close>

lemma split_by_package_mem:
  assumes "occ \<in> set (vf_occurrences f)"
  obtains g where "g \<in> set (split_by_package f)" and "occ \<in> set (vf_occurrences g)"
    and "vf_id g = vf_id f" "vf_ecosystem g = vf_ecosystem f" "finding_reach g = finding_reach f"
    and "finding_package g = Some (occurrence_package occ)"
proof (cases "length (group_by str_cmp occurrence_package id (vf_occurrences f)) \<le> 1")
  case True
  obtain o1 rest where cons: "vf_occurrences f = o1 # rest" using assms by (cases "vf_occurrences f") auto
  have "occurrence_package o1 = occurrence_package occ"
    by (rule split_single [OF True _ assms]) (simp add: cons)
  then have "finding_package f = Some (occurrence_package occ)" by (simp add: finding_package_def cons)
  moreover have "f \<in> set (split_by_package f)" using True by (simp add: split_by_package_def)
  ultimately show ?thesis using assms by (intro that [of f]) (rule refl | assumption)+
next
  case False
  let ?occs = "filter (\<lambda>z. str_cmp (occurrence_package occ) (occurrence_package z) = Equal) (vf_occurrences f)"
  obtain k where k: "(k, map id ?occs) \<in> set (group_by str_cmp occurrence_package id (vf_occurrences f))"
    by (rule str.group_by_cover [OF assms])
  have occ: "occ \<in> set ?occs" using assms by simp
  then obtain o1 rest where cons: "?occs = o1 # rest" by (cases ?occs) (auto simp: filter_empty_conv)
  then have "o1 \<in> set ?occs" by simp
  then have "occurrence_package o1 = occurrence_package occ" by simp
  moreover have "(\<lambda>(_, occs). f\<lparr>vf_occurrences := occs\<rparr>) (k, map id ?occs) \<in>
      set (map (\<lambda>(_, occs). f\<lparr>vf_occurrences := occs\<rparr>) (group_by str_cmp occurrence_package id (vf_occurrences f)))"
    unfolding set_map using k by (rule imageI)
  then have "f\<lparr>vf_occurrences := ?occs\<rparr> \<in> set (split_by_package f)"
    using False by (simp add: split_by_package_def Let_def)
  moreover have "occ \<in> set (o1 # rest)" using occ unfolding cons .
  ultimately show ?thesis
    using cons by (intro that [of "f\<lparr>vf_occurrences := ?occs\<rparr>"])
      (simp_all add: finding_package_def finding_reach_def)
qed

lemma split_by_package_source:
  assumes "g \<in> set (split_by_package f)"
  shows "vf_id g = vf_id f \<and> vf_ecosystem g = vf_ecosystem f \<and> set (vf_occurrences g) \<subseteq> set (vf_occurrences f)"
proof -
  have "set occs \<subseteq> set (vf_occurrences f)"
    if "(k, occs) \<in> set (group_by str_cmp occurrence_package id (vf_occurrences f))" for k occs
    using str.group_by_entry [OF that] by auto
  then show ?thesis using assms by (fastforce simp: split_by_package_def Let_def split: if_splits)
qed

section \<open>The groups\<close>

lemma package_group_of:
  assumes f: "f \<in> set vulns" and occ: "occ \<in> set (vf_occurrences f)" "is_vulnerable lib occ"
  obtains findings g where "((vf_ecosystem f, occurrence_package occ), findings) \<in> set (package_groups lib vulns)"
    and "g \<in> set findings" "vf_id g = vf_id f" "finding_reach g = finding_reach f" "occ \<in> set (vf_occurrences g)"
proof -
  obtain g where g: "g \<in> set (split_by_package f)" "occ \<in> set (vf_occurrences g)"
    "vf_id g = vf_id f" "vf_ecosystem g = vf_ecosystem f" "finding_reach g = finding_reach f"
    "finding_package g = Some (occurrence_package occ)"
    by (rule split_by_package_mem [OF occ(1)])
  let ?entries = "List.map_filter (\<lambda>v. if vuln_occ_count lib v = 0 then None
      else map_option (\<lambda>package. ((vf_ecosystem v, package), v)) (finding_package v))
    (concat (map split_by_package vulns))"
  have "vuln_occ_count lib g \<noteq> 0" using g(2) occ(2) by (auto simp: vuln_occ_count_def filter_empty_conv)
  then have "((vf_ecosystem f, occurrence_package occ), g) \<in> set ?entries"
    using f g(1,4,6) unfolding set_map_filter by (intro bexI [of _ g]) auto
  then obtain k where k: "(k, map snd (filter (\<lambda>y. cmp_pair ord_cmp str_cmp
        (fst ((vf_ecosystem f, occurrence_package occ), g)) (fst y) = Equal) ?entries)) \<in> set (package_groups lib vulns)"
    "cmp_pair ord_cmp str_cmp (fst ((vf_ecosystem f, occurrence_package occ), g)) k = Equal"
    unfolding package_groups_def by (rule pkgkey.group_by_cover)
  have "k = (vf_ecosystem f, occurrence_package occ)" using k(2) by simp
  moreover have "g \<in> set (map snd (filter (\<lambda>y. cmp_pair ord_cmp str_cmp
        (fst ((vf_ecosystem f, occurrence_package occ), g)) (fst y) = Equal) ?entries))"
    using \<open>_ \<in> set ?entries\<close> by force
  ultimately show thesis using that [of _ g] k(1) g(2,3,5) by simp
qed

text \<open>Every finding of a group gets an action.\<close>

lemma finding_target_Some: "floors_of lib patched \<noteq> [] \<Longrightarrow> \<exists>v. finding_target lib patched lb = Some v"
proof -
  assume "floors_of lib patched \<noteq> []"
  then have "sort_by (sv_cmp lib) (floors_of lib patched) \<noteq> []"
    by (metis length_0_conv length_sort_by)
  then show ?thesis by (auto simp: finding_target_def Let_def split: option.split)
qed

lemma fixable_floors: "is_fixable lib f \<longleftrightarrow> floors_of lib (finding_patched lib f) \<noteq> []"
  by (simp add: is_fixable_def finding_floor_def)

lemma group_start_Some:
  assumes "fixable \<noteq> []" and "\<forall>f \<in> set fixable. is_fixable lib f"
  shows "\<exists>v. group_start lib fixable = Some v"
proof -
  obtain f where f: "f \<in> set fixable" using assms(1) by (cases fixable) auto
  then obtain v where "finding_target lib (finding_patched lib f) (max_installed lib fixable) = Some v"
    using assms(2) finding_target_Some fixable_floors by metis
  then have "List.map_filter (\<lambda>f. finding_target lib (finding_patched lib f) (max_installed lib fixable)) fixable \<noteq> []"
    using f by (auto simp: List.map_filter_def filter_empty_conv)
  then show ?thesis unfolding group_start_def by (cases "max_by (sv_cmp lib)
    (List.map_filter (\<lambda>f. finding_target lib (finding_patched lib f) (max_installed lib fixable)) fixable)") auto
qed

lemma fix_actions_cover:
  assumes "f \<in> set fixable" and "\<forall>f \<in> set fixable. is_fixable lib f"
  shows "\<exists>(part, action) \<in> set (fix_actions lib fixable). f \<in> set part \<and> action \<noteq> NoFixAvailable"
proof -
  obtain start where start: "group_start lib fixable = Some start"
    using group_start_Some assms by (metis empty_iff list.set(1))
  show ?thesis
  proof (cases "common_target lib fixable start")
    case (Some c)
    then show ?thesis using start assms(1) by (simp add: fix_actions_def upgrade_action_def)
  next
    case None
    obtain v where v: "finding_target lib (finding_patched lib f) (max_installed lib [f]) = Some v"
      using assms finding_target_Some fixable_floors by metis
    then have "([f], upgrade_action lib [f] v) \<in> set (fix_actions lib fixable)"
      using assms(1) start None by (force simp: fix_actions_def List.map_filter_def)
    then show ?thesis by (force simp: upgrade_action_def)
  qed
qed

lemma group_actions_cover:
  assumes "f \<in> set findings"
  shows "\<exists>(part, action) \<in> set (group_actions lib findings). f \<in> set part \<and>
    (action = NoFixAvailable \<longleftrightarrow> \<not> is_fixable lib f)"
proof (cases "is_fixable lib f")
  case True
  then have "f \<in> set (filter (is_fixable lib) findings)" using assms by simp
  from fix_actions_cover [OF this] obtain p where p: "p \<in> set (fix_actions lib (filter (is_fixable lib) findings))"
    "f \<in> set (fst p)" "snd p \<noteq> NoFixAvailable" by fastforce
  moreover have "filter (is_fixable lib) findings \<noteq> []" using \<open>f \<in> set (filter _ _)\<close> by (metis empty_iff list.set(1))
  ultimately have "p \<in> set (group_actions lib findings)"
    by (simp add: group_actions_def Let_def)
  then show ?thesis using p True by (intro bexI [of _ p]) (auto simp: case_prod_beta)
next
  case False
  then have "f \<in> set (filter (\<lambda>f. \<not> is_fixable lib f) findings)" using assms by simp
  then have "(filter (\<lambda>f. \<not> is_fixable lib f) findings, NoFixAvailable) \<in> set (group_actions lib findings)"
    by (auto simp: group_actions_def Let_def filter_empty_conv)
  from this show ?thesis by (rule bexI [rotated]) (use False assms in simp)
qed

text \<open>A part with no fix never mixes with one that has; every part is of findings of the group.\<close>

lemma group_actions_parts:
  assumes "(part, action) \<in> set (group_actions lib findings)"
  shows "set part \<subseteq> set findings \<and> part \<noteq> []"
proof (cases "(part, action) \<in> set (fix_actions lib (filter (is_fixable lib) findings)) \<and>
    filter (is_fixable lib) findings \<noteq> []")
  case True
  then show ?thesis by (auto simp: fix_actions_def set_map_filter split: option.splits)
next
  case False
  then show ?thesis using assms by (auto simp: group_actions_def Let_def split: if_splits)
qed

section \<open>Reachability\<close>

lemma collapse_from_demoted:
  "collapse_from tier fs = TierNotReachable \<longleftrightarrow>
     tier = TierNotReachable \<and> list_all (\<lambda>f. finding_reach f = TierNotReachable) fs"
  by (induction tier fs rule: collapse_from.induct) (auto split: reach_tier.split)

lemma demoted_iff: "is_actionable (collapse_reach fs) \<longleftrightarrow> \<not> list_all (\<lambda>f. finding_reach f = TierNotReachable) fs"
  by (simp add: is_actionable_def collapse_reach_def collapse_from_demoted)

section \<open>The items\<close>

lemma full_item_fields [simp]:
  "ri_package (full_item lib fleet eco package part action) = package"
  "ri_ecosystem (full_item lib fleet eco package part action) = eco"
  "ri_advisories (full_item lib fleet eco package part action) = sorted_ids (map vf_id part)"
  "ri_action (full_item lib fleet eco package part action) = action"
  "ri_reach (full_item lib fleet eco package part action) = collapse_reach part"
  by (auto simp: full_item_def assess_risk_def build_item_def Let_def split: action.split prod.split)

lemma dedup_eq_set: "set (dedup_by (\<lambda>a b. a = b) xs) = set xs"
  by (induction "\<lambda>a b :: 'a. a = b" xs rule: dedup_by.induct) auto

lemma set_sorted_ids [simp]: "set (sorted_ids ids) = set ids"
  by (simp add: sorted_ids_def dedup_eq_set)

lemma remediations_mem:
  "item \<in> set (remediations lib report) \<longleftrightarrow>
     (\<exists>eco package findings part action.
        ((eco, package), findings) \<in> set (package_groups lib (fr_vulnerabilities report)) \<and>
        (part, action) \<in> set (group_actions lib findings) \<and>
        item = full_item lib
          (List.find (\<lambda>p. pv_ecosystem p = eco \<and> pv_package p = package) (fr_package_versions report))
          eco package part action)"
  by (force simp: remediations_def Let_def)

text \<open>C26: no vulnerable occurrence is lost between a report and its queue.  For every vulnerable
  occurrence of a finding there is an item for the occurrence's package and ecosystem that names
  the finding; the item is active unless the finding is known not to be reachable, and it says
  that there is no fix only when the finding's part for the package publishes none.\<close>

theorem remediations_keep_findings:
  "list_all (\<lambda>f. list_all (\<lambda>occ. if is_vulnerable lib occ
       then list_ex (\<lambda>item. ri_package item = occurrence_package occ \<and> ri_ecosystem item = vf_ecosystem f \<and>
              vf_id f \<in> set (ri_advisories item) \<and>
              (if finding_reach f = TierNotReachable then True else is_actionable (ri_reach item)))
            (remediations lib report)
       else True) (vf_occurrences f)) (fr_vulnerabilities report)"
proof -
  have "\<exists>item \<in> set (remediations lib report). ri_package item = occurrence_package occ \<and>
      ri_ecosystem item = vf_ecosystem f \<and> vf_id f \<in> set (ri_advisories item) \<and>
      (finding_reach f \<noteq> TierNotReachable \<longrightarrow> is_actionable (ri_reach item))"
    if f: "f \<in> set (fr_vulnerabilities report)" and occ: "occ \<in> set (vf_occurrences f)" "is_vulnerable lib occ" for f occ
  proof -
    obtain findings g where grp: "((vf_ecosystem f, occurrence_package occ), findings)
        \<in> set (package_groups lib (fr_vulnerabilities report))"
      and g: "g \<in> set findings" "vf_id g = vf_id f" "finding_reach g = finding_reach f"
      by (rule package_group_of [OF f occ])
    obtain part action where a: "(part, action) \<in> set (group_actions lib findings)" "g \<in> set part"
      using group_actions_cover [OF g(1), of lib] by blast
    let ?item = "full_item lib (List.find (\<lambda>p. pv_ecosystem p = vf_ecosystem f \<and> pv_package p = occurrence_package occ)
        (fr_package_versions report)) (vf_ecosystem f) (occurrence_package occ) part action"
    have "?item \<in> set (remediations lib report)" using grp a(1) unfolding remediations_mem by blast
    moreover have "vf_id f \<in> set (map vf_id part)" using a(2) g(2) by (metis imageI list.set_map)
    moreover have "finding_reach f \<noteq> TierNotReachable \<longrightarrow> is_actionable (collapse_reach part)"
      using a(2) g(3) unfolding demoted_iff list_all_iff by (metis (mono_tags))
    ultimately show ?thesis by (intro bexI [of _ ?item]) simp_all
  qed
  then show ?thesis by (auto simp: list_all_iff list_ex_iff)
qed

section \<open>What an upgrade clears\<close>

text \<open>
  A requirement that excludes the version its lower bound names, such as \<^verbatim>\<open>> 1.2.3\<close>: the upgrade to its
  floor is not in it.
\<close>

definition excludes_floor :: "('v, 'r) semver_lib \<Rightarrow> 'r \<Rightarrow> 'v \<Rightarrow> bool" where
  "excludes_floor lib r v \<longleftrightarrow> req_floor lib r = Some v \<and> \<not> req_matches lib r v"

lemma floors_satisfy:
  assumes "v \<in> set (floors_of lib patched)"
  shows "satisfied_by lib patched v \<or> list_ex (\<lambda>r. excludes_floor lib r v) patched"
proof -
  obtain r where "r \<in> set patched" "req_floor lib r = Some v"
    using assms by (auto simp: floors_of_def set_map_filter)
  then show ?thesis by (auto simp: satisfied_by_def excludes_floor_def list_ex_iff)
qed

lemma find_mem: "List.find p xs = Some x \<Longrightarrow> x \<in> set xs \<and> p x"
  by (induction xs) (auto split: if_splits)

lemma finding_target_mem:
  assumes "finding_target lib patched lb = Some v"
  shows "v \<in> set (floors_of lib patched)"
    and "\<exists>w \<in> set (floors_of lib patched). sv_cmp lib w lb \<noteq> Less \<Longrightarrow> sv_cmp lib v lb \<noteq> Less"
proof -
  let ?fl = "sort_by (sv_cmp lib) (floors_of lib patched)"
  show "v \<in> set (floors_of lib patched)"
  proof (cases "List.find (\<lambda>v. sv_cmp lib v lb \<noteq> Less) ?fl")
    case None
    then have "?fl \<noteq> []" "v = last ?fl" using assms by (auto simp: finding_target_def Let_def split: if_splits)
    then have "v \<in> set ?fl" using last_in_set by blast
    then show ?thesis by simp
  next
    case (Some w)
    then have "v = w" using assms by (simp add: finding_target_def Let_def)
    then have "v \<in> set ?fl" using find_mem [OF Some] by simp
    then show ?thesis by simp
  qed
  assume "\<exists>w \<in> set (floors_of lib patched). sv_cmp lib w lb \<noteq> Less"
  then have "\<exists>w \<in> set ?fl. sv_cmp lib w lb \<noteq> Less" by simp
  then obtain w where w: "List.find (\<lambda>v. sv_cmp lib v lb \<noteq> Less) ?fl = Some w"
    by (metis (mono_tags, lifting) find_None_iff option.exhaust)
  then have "v = w" using assms by (simp add: finding_target_def Let_def)
  then show "sv_cmp lib v lb \<noteq> Less" using find_mem [OF w] by simp
qed

definition can_go_forward :: "('v, 'r) semver_lib \<Rightarrow> ('v, 'r) vuln_finding list \<Rightarrow> bool" where
  "can_go_forward lib part \<longleftrightarrow>
     (\<exists>f \<in> set part. \<exists>v \<in> set (floors_of lib (finding_patched lib f)). sv_cmp lib v (max_installed lib part) \<noteq> Less)"

text \<open>
  An upgrade is in the safe set of every finding it is for, or it is the floor of a requirement of the
  one finding it is for that excludes it; and it is no downgrade when one can be avoided.
\<close>

definition clears_part :: "('v, 'r) semver_lib \<Rightarrow> ('v, 'r) vuln_finding list \<Rightarrow> 'v \<Rightarrow> bool" where
  "clears_part lib part to \<longleftrightarrow>
     (list_all (\<lambda>f. satisfied_by lib (finding_patched lib f) to) part \<or>
      (\<exists>f. part = [f] \<and> list_ex (\<lambda>r. excludes_floor lib r to) (finding_patched lib f))) \<and>
     (can_go_forward lib part \<longrightarrow> sv_cmp lib to (max_installed lib part) \<noteq> Less)"

lemma fix_actions_clear:
  assumes ord: "rust_total_ord (sv_cmp lib)"
    and mem: "(part, Upgrade to breaking) \<in> set (fix_actions lib fixable)"
  shows "clears_part lib part to"
proof -
  note o = rust_total_ord_ord [OF ord]
  have ge: "sv_cmp lib y x \<noteq> Less \<longleftrightarrow> sv_cmp lib x y \<noteq> Greater" for x y
    using rust_ord.cmp_Greater_iff [OF o] by metis
  obtain start where start: "group_start lib fixable = Some start"
    using mem by (cases "group_start lib fixable") (simp_all add: fix_actions_def)
  show ?thesis
  proof (cases "common_target lib fixable start")
    case None
    then obtain f where f: "part = [f]" "finding_target lib (finding_patched lib f) (max_installed lib [f]) = Some to"
      using mem start by (auto simp: fix_actions_def set_map_filter upgrade_action_def)
    note t = finding_target_mem [OF f(2)]
    show ?thesis
      using floors_satisfy [OF t(1)] t(2) by (auto simp: f(1) clears_part_def can_go_forward_def)
  next
    case (Some c)
    then have part: "part = fixable" "to = c"
      using mem start by (auto simp: fix_actions_def upgrade_action_def)
    let ?cands = "dedup_by (\<lambda>a b. sv_cmp lib a b = Equal) (sort_by (sv_cmp lib)
      (filter (\<lambda>v. sv_cmp lib v start \<noteq> Less) (concat (map (\<lambda>f. floors_of lib (finding_patched lib f)) fixable))))"
    have c: "c \<in> set ?cands" "list_all (\<lambda>f. satisfied_by lib (finding_patched lib f) c) fixable"
      using find_mem [OF Some [unfolded common_target_def]] by simp_all
    then have "sv_cmp lib start c \<noteq> Greater"
      using set_dedup_by_subset [of "\<lambda>a b. sv_cmp lib a b = Equal"] ge by fastforce
    moreover have "sv_cmp lib (max_installed lib fixable) start \<noteq> Greater" if fwd: "can_go_forward lib fixable"
    proof -
      obtain f v where f: "f \<in> set fixable" "v \<in> set (floors_of lib (finding_patched lib f))"
        "sv_cmp lib v (max_installed lib fixable) \<noteq> Less" using fwd by (auto simp: can_go_forward_def)
      from f(2) have "floors_of lib (finding_patched lib f) \<noteq> []" by auto
      from finding_target_Some [OF this] obtain t
        where t: "finding_target lib (finding_patched lib f) (max_installed lib fixable) = Some t" ..
      have "sv_cmp lib t (max_installed lib fixable) \<noteq> Less"
        by (rule finding_target_mem(2) [OF t]) (use f(2,3) in blast)
      then have "sv_cmp lib (max_installed lib fixable) t \<noteq> Greater"
        by (rule ge [THEN iffD1])
      moreover have "sv_cmp lib t start \<noteq> Greater"
        by (rule rust_ord.max_by_upper [OF o start [unfolded group_start_def]]) (use f(1) t in \<open>auto simp: set_map_filter\<close>)
      ultimately show ?thesis by (rule rust_ord.cmp_le_trans [OF o])
    qed
    ultimately show ?thesis
      using c(2) rust_ord.cmp_le_trans [OF o] ge [of c "max_installed lib fixable"]
      unfolding part clears_part_def by blast
  qed
qed

lemma group_actions_clear:
  assumes "rust_total_ord (sv_cmp lib)"
    and "(part, Upgrade to breaking) \<in> set (group_actions lib findings)"
  shows "clears_part lib part to"
  using assms(2) fix_actions_clear [OF assms(1)] by (auto simp: group_actions_def Let_def split: if_splits)


text \<open>A report on two packages of one advisory, and one whose only fix is below what is installed.\<close>

definition sample_vuln :: "string \<Rightarrow> (string \<times> triple \<times> triple list) list \<Rightarrow> (triple, triple) vuln_finding" where
  "sample_vuln ident occs =
     (tier_c_build
       \<lparr>tc_ecosystem = Npm, tc_id = ident, tc_aliases = [], tc_title = ident, tc_severity = High, tc_cvss = None,
        tc_vector = None, tc_package = [], tc_installed = (0, 0, 0), tc_patched = [], tc_direct = True,
        tc_dev = False, tc_path = [], tc_repo = ''app'', tc_reason = ''package-level''\<rparr>)
       \<lparr>vf_occurrences := map (\<lambda>(package, installed, patched). InRepo
          \<lparr>ir_repo = ''app'', ir_package = package, ir_installed = installed, ir_patched = patched, ir_kind = Direct,
           ir_path = [], ir_active = None, ir_source = CratesIo, ir_scope = Runtime, ir_layer = None\<rparr>) occs\<rparr>"

definition sample_provenance :: provenance where
  "sample_provenance =
     \<lparr>pr_tool_version = ''0'', pr_rustsec_version = ''0'', pr_db_commit = None, pr_db_timestamp = None,
      pr_host_os = ''linux'', pr_host_arch = ''x86_64'', pr_generated_at = ''now'', pr_osv = [], pr_sources = [],
      pr_images = [], pr_db_snapshot = None\<rparr>"

definition report_of :: "('v, 'r) vuln_finding list \<Rightarrow> ('v, 'r) fleet_report" where
  "report_of vulns = refresh_summary
     \<lparr>fr_schema_version = schema_version, fr_provenance = sample_provenance,
      fr_summary = \<lparr>su_scanned = 1, su_errored = 0, su_vulns = 0, su_warns = 0, su_max_severity = Unknown,
        su_stale_ignores = []\<rparr>,
      fr_vulnerabilities = vulns, fr_warnings = [], fr_outcomes = [], fr_coverage = [], fr_context = [],
      fr_ssvc = None, fr_package_versions = [], fr_base_images = []\<rparr>"

definition queue_example :: "(triple, triple) fleet_report" where
  "queue_example = report_of
     [sample_vuln ''GHSA-a'' [(''helpers'', (7, 1, 0), [(7, 2, 0)]), (''runtime'', (7, 0, 0), [(7, 5, 0)])],
      sample_vuln ''GHSA-b'' [(''runtime'', (7, 1, 0), [(7, 3, 0)])],
      sample_vuln ''GHSA-c'' [(''old'', (3, 0, 0), [])]]"


text \<open>Its queue: one bump for both advisories on the one package, one for the other, and an honest gap.\<close>

lemma queue_example_items:
  "map (\<lambda>item. (ri_package item, ri_advisories item, ri_action item)) (remediations triple_lib queue_example) =
     [(''helpers'', [''GHSA-a''], Upgrade (7, 2, 0) False),
      (''old'', [''GHSA-c''], NoFixAvailable),
      (''runtime'', [''GHSA-a'', ''GHSA-b''], Upgrade (7, 5, 0) False)]"
  by code_simp

text \<open>
  A requirement that excludes the version it starts at (\<^verbatim>\<open>> 1.2.3\<close>) has that version as its floor all
  the same, so the upgrade that is offered is to a version that is not fixed, here the installed one.
\<close>

definition strict_lib :: "(triple, triple) semver_lib" where
  "strict_lib = triple_lib\<lparr>req_matches := \<lambda>r v. triple_cmp r v = Less,
     req_comparators := \<lambda>(a, b, c).
       [\<lparr>cm_op = OpGreater, cm_major = a, cm_minor = Some b, cm_patch = Some c\<rparr>]\<rparr>"

lemma strict_floor_not_fixed:
  "map (\<lambda>item. (ri_current item, ri_action item))
     (remediations strict_lib (report_of [sample_vuln ''RUSTSEC-1'' [(''foo'', (1, 2, 3), [(1, 2, 3)])]])) =
   [([(1, 2, 3)], Upgrade (1, 2, 3) False)]"
  by code_simp

end
