(* ===== verification/Correlate.thy ===== *)
theory Correlate
  imports Core_Model
begin

text \<open>
  Fleet-wide correlation, \<^verbatim>\<open>crates/correlate/src/lib.rs\<close>: per-repository findings are grouped by
  advisory id, ecosystem and title, warnings by kind and id; occurrences and aliases are merged,
  sorted and deduplicated, and the result is put in the report's order.
\<close>

section \<open>Definitions\<close>

record ('v, 'r) correlated =
  co_vulnerabilities :: "('v, 'r) vuln_finding list"
  co_warnings :: "('v, 'r) warn_finding list"

type_synonym vuln_key = "string \<times> ecosystem \<times> string"

definition vuln_key :: "('v, 'r) vuln_finding \<Rightarrow> vuln_key" where
  "vuln_key f = (vf_id f, vf_ecosystem f, vf_title f)"

definition vuln_key_cmp :: "vuln_key cmp" where
  "vuln_key_cmp = cmp_pair str_cmp (cmp_pair ord_cmp str_cmp)"

definition merge_vuln ::
  "('v, 'r) vuln_finding \<Rightarrow> ('v, 'r) vuln_finding \<Rightarrow> ('v, 'r) vuln_finding" where
  "merge_vuln grp finding =
     grp\<lparr>vf_severity := max (vf_severity grp) (vf_severity finding),
           vf_title := (if vf_title grp = [] then vf_title finding else vf_title grp),
           vf_url := (if vf_url grp = None then vf_url finding else vf_url grp),
           vf_aliases := vf_aliases grp @ vf_aliases finding,
           vf_occurrences := vf_occurrences grp @ vf_occurrences finding\<rparr>"

definition occurrence_key ::
  "('v, 'r) semver_lib \<Rightarrow> ('v, 'r) occurrence \<Rightarrow> nat \<times> string \<times> string \<times> string" where
  "occurrence_key lib occ =
     (case occ of
        InRepo r \<Rightarrow> (0, ir_repo r, ir_package r, sv_show lib (ir_installed r))
      | Toolchain channel installed _ \<Rightarrow>
          (1, channel, [], case installed of None \<Rightarrow> [] | Some v \<Rightarrow> sv_show lib v))"

definition occurrence_cmp :: "('v, 'r) semver_lib \<Rightarrow> ('v, 'r) occurrence cmp" where
  "occurrence_cmp lib =
     cmp_on (occurrence_key lib) (cmp_pair ord_cmp (cmp_pair str_cmp (cmp_pair str_cmp str_cmp)))"

definition tidy_occurrences ::
  "('v, 'r) semver_lib \<Rightarrow> ('v, 'r) occurrence list \<Rightarrow> ('v, 'r) occurrence list" where
  "tidy_occurrences lib occs = dedup_by (\<lambda>a b. a = b) (sort_by (occurrence_cmp lib) occs)"

definition tidy_vuln :: "('v, 'r) semver_lib \<Rightarrow> ('v, 'r) vuln_finding \<Rightarrow> ('v, 'r) vuln_finding" where
  "tidy_vuln lib f =
     f\<lparr>vf_occurrences := tidy_occurrences lib (vf_occurrences f),
       vf_aliases := dedup_by (\<lambda>a b. a = b) (sort_by str_cmp (vf_aliases f))\<rparr>"

definition vuln_cmp :: "('v, 'r) vuln_finding cmp" where
  "vuln_cmp a b =
     then_with (ord_cmp (vf_severity b) (vf_severity a))
       (then_with (str_cmp (vf_id a) (vf_id b))
         (then_with (ord_cmp (vf_ecosystem a) (vf_ecosystem b)) (str_cmp (vf_title a) (vf_title b))))"

definition add_vuln ::
  "('v, 'r) vuln_finding \<Rightarrow> (vuln_key, ('v, 'r) vuln_finding) btree
     \<Rightarrow> (vuln_key, ('v, 'r) vuln_finding) btree" where
  "add_vuln finding groups =
     bt_alter vuln_key_cmp (vuln_key finding)
       (\<lambda>old. case old of Some grp \<Rightarrow> merge_vuln grp finding | None \<Rightarrow> finding) groups"

definition correlate_vulns ::
  "('v, 'r) semver_lib \<Rightarrow> ('v, 'r) vuln_finding list \<Rightarrow> ('v, 'r) vuln_finding list" where
  "correlate_vulns lib input =
     sort_by vuln_cmp (map (\<lambda>p. tidy_vuln lib (snd p)) (fold add_vuln input []))"

type_synonym warn_key = "warn_kind \<times> string option"

definition warn_key_cmp :: "warn_key cmp" where
  "warn_key_cmp = cmp_pair ord_cmp (cmp_opt str_cmp)"

definition merge_warn ::
  "('v, 'r) warn_finding \<Rightarrow> ('v, 'r) warn_finding \<Rightarrow> ('v, 'r) warn_finding" where
  "merge_warn grp finding =
     grp\<lparr>wf_title := (if wf_title grp = [] then wf_title finding else wf_title grp),
           wf_occurrences := wf_occurrences grp @ wf_occurrences finding\<rparr>"

definition add_warn ::
  "('v, 'r) warn_finding \<Rightarrow> (warn_key, ('v, 'r) warn_finding) btree
     \<Rightarrow> (warn_key, ('v, 'r) warn_finding) btree" where
  "add_warn finding groups =
     bt_alter warn_key_cmp (wf_kind finding, wf_id finding)
       (\<lambda>old. case old of Some grp \<Rightarrow> merge_warn grp finding | None \<Rightarrow> finding) groups"

definition warn_cmp :: "('v, 'r) warn_finding cmp" where
  "warn_cmp a b = then_with (ord_cmp (wf_kind a) (wf_kind b)) (cmp_opt str_cmp (wf_id a) (wf_id b))"

definition correlate_warns ::
  "('v, 'r) semver_lib \<Rightarrow> ('v, 'r) warn_finding list \<Rightarrow> ('v, 'r) warn_finding list" where
  "correlate_warns lib input =
     sort_by warn_cmp
       (map (\<lambda>p. (snd p)\<lparr>wf_occurrences := tidy_occurrences lib (wf_occurrences (snd p))\<rparr>)
         (fold add_warn input []))"

definition correlate ::
  "('v, 'r) semver_lib \<Rightarrow> ('v, 'r) vuln_finding list \<Rightarrow> ('v, 'r) warn_finding list \<Rightarrow> ('v, 'r) correlated" where
  "correlate lib vulnerabilities warnings =
     \<lparr>co_vulnerabilities = correlate_vulns lib vulnerabilities,
      co_warnings = correlate_warns lib warnings\<rparr>"

section \<open>Laws of the comparisons\<close>

interpretation vkey: rust_total_ord vuln_key_cmp
  unfolding vuln_key_cmp_def
  by (intro ord_intros rust_total_ord_ord_cmp)

interpretation wkey: rust_ord warn_key_cmp
  unfolding warn_key_cmp_def by (intro ord_intros)

interpretation occ: rust_ord "occurrence_cmp lib" for lib :: "('v, 'r) semver_lib"
  unfolding occurrence_cmp_def by (intro ord_intros)

interpretation vulns: rust_ord vuln_cmp
proof -
  have eq: "vuln_cmp = cmp_then (cmp_rev (cmp_on vf_severity ord_cmp))
      (cmp_then (cmp_on vf_id str_cmp) (cmp_then (cmp_on vf_ecosystem ord_cmp) (cmp_on vf_title str_cmp)))"
    by (intro ext) (auto simp: vuln_cmp_def cmp_then_def cmp_on_def cmp_rev_def ord_cmp_def)
  show "rust_ord vuln_cmp" unfolding eq by (intro ord_intros)
qed

lemma set_dedup_eq [simp]: "set (dedup_by (\<lambda>a b. a = b) xs) = set xs"
proof (induction "\<lambda>(a::'a) b. a = b" xs rule: dedup_by.induct)
  case (1 x y ys)
  then show ?case by (cases "y = x") auto
qed simp_all

lemma set_tidy_occurrences [simp]: "set (tidy_occurrences lib occs) = set occs"
  by (simp add: tidy_occurrences_def)

section \<open>One group\<close>

lemma merge_vuln_simps [simp]:
  "vf_occurrences (merge_vuln g f) = vf_occurrences g @ vf_occurrences f"
  "vf_aliases (merge_vuln g f) = vf_aliases g @ vf_aliases f"
  "vf_severity (merge_vuln g f) = max (vf_severity g) (vf_severity f)"
  "vf_id (merge_vuln g f) = vf_id g"
  "vf_ecosystem (merge_vuln g f) = vf_ecosystem g"
  by (simp_all add: merge_vuln_def)

lemma vuln_key_merge: "vuln_key f = vuln_key g \<Longrightarrow> vuln_key (merge_vuln g f) = vuln_key g"
  by (simp add: vuln_key_def merge_vuln_def)

lemma fold_merge_vuln:
  assumes "\<forall>f \<in> set fs. vuln_key f = vuln_key g"
  shows "vuln_key (fold (\<lambda>f g. merge_vuln g f) fs g) = vuln_key g \<and>
    vf_occurrences (fold (\<lambda>f g. merge_vuln g f) fs g) = vf_occurrences g @ concat (map vf_occurrences fs) \<and>
    vf_aliases (fold (\<lambda>f g. merge_vuln g f) fs g) = vf_aliases g @ concat (map vf_aliases fs) \<and>
    vf_severity (fold (\<lambda>f g. merge_vuln g f) fs g) = fold max (map vf_severity fs) (vf_severity g)"
  using assms
proof (induction fs arbitrary: g)
  case (Cons f fs)
  then have key: "vuln_key (merge_vuln g f) = vuln_key g" by (intro vuln_key_merge) simp
  with Cons show ?case by (simp add: max.commute)
qed simp

lemma fold_alter_group:
  "fold (\<lambda>x old. Some (case old of Some g \<Rightarrow> m g x | None \<Rightarrow> x)) xs old =
     (case old of
        Some g \<Rightarrow> Some (fold (\<lambda>x g. m g x) xs g)
      | None \<Rightarrow> (case xs of [] \<Rightarrow> None | x # ys \<Rightarrow> Some (fold (\<lambda>x g. m g x) ys x)))"
proof (induction xs arbitrary: old)
  case (Cons x xs)
  then show ?case by (cases old) simp_all
qed (simp split: option.split)

lemma vuln_groups_get:
  "bt_get vuln_key_cmp k (fold add_vuln input []) =
     (case filter (\<lambda>f. vuln_key f = k) input of
        [] \<Rightarrow> None
      | f # fs \<Rightarrow> Some (fold (\<lambda>f g. merge_vuln g f) fs f))"
proof -
  have eq: "filter (\<lambda>f. vuln_key_cmp k (vuln_key f) = Equal) input = filter (\<lambda>f. vuln_key f = k) input"
    by (rule filter_cong) auto
  have "bt_get vuln_key_cmp k (fold add_vuln input []) =
      fold (\<lambda>x old. Some (case old of Some g \<Rightarrow> merge_vuln g x | None \<Rightarrow> x))
        (filter (\<lambda>f. vuln_key_cmp k (vuln_key f) = Equal) input) None"
    unfolding add_vuln_def [abs_def] by (rule vkey.bt.get_fold_empty)
  then show ?thesis unfolding eq fold_alter_group by simp
qed

lemma vuln_groups_wf: "bt_wf vuln_key_cmp (fold add_vuln input [])"
  unfolding add_vuln_def [abs_def] by (rule vkey.bt.wf_fold) (rule vkey.bt.wf_empty)

definition group_of :: "('v, 'r) vuln_finding list \<Rightarrow> vuln_key \<Rightarrow> ('v, 'r) vuln_finding list" where
  "group_of input k = filter (\<lambda>f. vuln_key f = k) input"

lemma fold_max_Max: "fold max (xs :: severity list) x = Max (set (x # xs))"
  by (metis List.finite_set Max.set_eq_fold)

text \<open>Every entry of the grouping map is the merge of the findings with its key.\<close>

lemma vuln_groups_entry:
  assumes "(k, g) \<in> set (fold add_vuln input [])"
  shows "vuln_key g = k \<and> group_of input k \<noteq> [] \<and>
    vf_occurrences g = concat (map vf_occurrences (group_of input k)) \<and>
    vf_aliases g = concat (map vf_aliases (group_of input k)) \<and>
    vf_severity g = Max (vf_severity ` set (group_of input k))"
proof -
  have "bt_get vuln_key_cmp k (fold add_vuln input []) = Some g"
    by (rule vkey.bt_get_mem [OF vuln_groups_wf assms])
  then obtain f fs where fs: "group_of input k = f # fs"
    and g: "g = fold (\<lambda>f g. merge_vuln g f) fs f"
    by (auto simp: vuln_groups_get group_of_def split: list.splits)
  have key: "\<forall>h \<in> set (f # fs). vuln_key h = k" unfolding fs [symmetric] by (simp add: group_of_def)
  then have "\<forall>h \<in> set fs. vuln_key h = vuln_key f" by simp
  note m = fold_merge_vuln [OF this]
  have "vf_severity g = Max (set (map vf_severity (f # fs)))"
    using m fold_max_Max [of "map vf_severity fs" "vf_severity f"] unfolding g by simp
  then show ?thesis using m key unfolding fs g by simp
qed

lemma vuln_group_exists:
  assumes "f \<in> set input"
  shows "\<exists>g. (vuln_key f, g) \<in> set (fold add_vuln input [])"
proof -
  have "f \<in> set (filter (\<lambda>h. vuln_key h = vuln_key f) input)" using assms by simp
  then obtain h hs where "filter (\<lambda>h. vuln_key h = vuln_key f) input = h # hs"
    by (cases "filter (\<lambda>h. vuln_key h = vuln_key f) input") auto
  then have "bt_get vuln_key_cmp (vuln_key f) (fold add_vuln input []) \<noteq> None"
    by (simp add: vuln_groups_get)
  then show ?thesis using vkey.bt_get_SomeD by fastforce
qed

section \<open>The whole pass\<close>

lemma vuln_key_tidy [simp]: "vuln_key (tidy_vuln lib g) = vuln_key g"
  by (simp add: tidy_vuln_def vuln_key_def)

lemma correlate_vulns_mem:
  "g \<in> set (correlate_vulns lib input) \<longleftrightarrow>
     (\<exists>k h. (k, h) \<in> set (fold add_vuln input []) \<and> g = tidy_vuln lib h)"
  by (force simp: correlate_vulns_def)

lemma correlate_vulns_group:
  assumes "g \<in> set (correlate_vulns lib input)"
  shows "group_of input (vuln_key g) \<noteq> [] \<and>
    set (vf_occurrences g) = (\<Union>f \<in> set (group_of input (vuln_key g)). set (vf_occurrences f)) \<and>
    set (vf_aliases g) = (\<Union>f \<in> set (group_of input (vuln_key g)). set (vf_aliases f)) \<and>
    vf_severity g = Max (vf_severity ` set (group_of input (vuln_key g)))"
proof -
  obtain k h where h: "(k, h) \<in> set (fold add_vuln input [])" and g: "g = tidy_vuln lib h"
    using assms unfolding correlate_vulns_mem by blast
  note e = vuln_groups_entry [OF h]
  then have "vuln_key g = k" unfolding g by simp
  then show ?thesis using e by (simp add: g tidy_vuln_def)
qed

lemma correlate_vulns_keys:
  "vuln_key ` set (correlate_vulns lib input) = vuln_key ` set input"
proof (intro set_eqI iffI)
  fix k
  assume "k \<in> vuln_key ` set (correlate_vulns lib input)"
  then obtain g where "g \<in> set (correlate_vulns lib input)" and k: "k = vuln_key g" by blast
  then have "group_of input k \<noteq> []" using correlate_vulns_group by blast
  then show "k \<in> vuln_key ` set input"
    by (auto simp: group_of_def filter_empty_conv)
next
  fix k
  assume "k \<in> vuln_key ` set input"
  then obtain g where g: "(k, g) \<in> set (fold add_vuln input [])"
    using vuln_group_exists by blast
  then have "tidy_vuln lib g \<in> set (correlate_vulns lib input)"
    unfolding correlate_vulns_mem by blast
  moreover have "vuln_key (tidy_vuln lib g) = k" using vuln_groups_entry [OF g] by simp
  ultimately show "k \<in> vuln_key ` set (correlate_vulns lib input)" by blast
qed

lemma correlate_vulns_distinct: "distinct (map vuln_key (correlate_vulns lib input))"
proof -
  let ?G = "fold add_vuln input []"
  have "map (\<lambda>p. vuln_key (tidy_vuln lib (snd p))) ?G = map fst ?G"
    using vuln_groups_entry [of _ _ input] by (intro map_cong [OF refl]) (simp add: case_prod_beta' prod_eq_iff)
  then have "distinct (map vuln_key (map (\<lambda>p. tidy_vuln lib (snd p)) ?G))"
    using vkey.bt_wf_distinct [OF vuln_groups_wf] by (simp only: map_map comp_def)
  moreover have "mset (map vuln_key (correlate_vulns lib input)) =
      mset (map vuln_key (map (\<lambda>p. tidy_vuln lib (snd p)) ?G))"
    by (simp only: correlate_vulns_def mset_map mset_sort_by)
  ultimately show ?thesis by (metis mset_eq_imp_distinct_iff)
qed

lemma correlate_vulns_sorted: "sorted_by vuln_cmp (correlate_vulns lib input)"
  unfolding correlate_vulns_def by (rule vulns.sorted_sort_by)

section \<open>What correlation promises\<close>

text \<open>C2: correlation neither drops nor invents anything.  There is exactly one finding for each
  advisory, ecosystem and title of the input; its occurrences and aliases are those of the
  input findings it stands for, its severity is their worst, and the list is in report order.\<close>

theorem correlation_conserves:
  "distinct (map vuln_key (correlate_vulns lib input)) \<and>
   vuln_key ` set (correlate_vulns lib input) = vuln_key ` set input \<and>
   sorted_by vuln_cmp (correlate_vulns lib input) \<and>
   list_all (\<lambda>g. set (vf_occurrences g) = (\<Union>f \<in> set (group_of input (vuln_key g)). set (vf_occurrences f)) \<and>
       set (vf_aliases g) = (\<Union>f \<in> set (group_of input (vuln_key g)). set (vf_aliases f)) \<and>
       vf_severity g = Max (vf_severity ` set (group_of input (vuln_key g))))
     (correlate_vulns lib input)"
  unfolding list_all_iff
  by (intro conjI ballI correlate_vulns_distinct correlate_vulns_keys correlate_vulns_sorted)
    (simp_all add: correlate_vulns_group)

end
