(* ===== verification/Assemble.thy ===== *)
theory Assemble
  imports Report Correlate
begin

text \<open>
  From raw scan output to a report and its exit code, \<^verbatim>\<open>crates/cli/src/assemble.rs\<close>: correlation,
  suppressions, the severity filter, the summary, the base images, the later filters, and the
  gate.
\<close>

section \<open>Later filters over a report\<close>

definition drop_occurrences ::
  "(('v, 'r) occurrence \<Rightarrow> bool) \<Rightarrow> ('v, 'r) fleet_report \<Rightarrow> nat \<times> ('v, 'r) fleet_report" where
  "drop_occurrences drop_it report =
     (let vs = map (\<lambda>v. v\<lparr>vf_occurrences := filter (\<lambda>x. \<not> drop_it x) (vf_occurrences v)\<rparr>)
            (fr_vulnerabilities report);
          ws = map (\<lambda>w. w\<lparr>wf_occurrences := filter (\<lambda>x. \<not> drop_it x) (wf_occurrences w)\<rparr>)
            (fr_warnings report);
          before = length vs + length ws;
          vs' = filter (\<lambda>v. vf_occurrences v \<noteq> []) vs;
          ws' = filter (\<lambda>w. wf_occurrences w \<noteq> []) ws
      in (before - (length vs' + length ws'),
          refresh_summary (report\<lparr>fr_vulnerabilities := vs', fr_warnings := ws'\<rparr>)))"

definition is_phantom :: "('v, 'r) occurrence \<Rightarrow> bool" where
  "is_phantom occ = (case occ of InRepo r \<Rightarrow> ir_active r = Some False | Toolchain _ _ _ \<Rightarrow> False)"

definition is_dev :: "('v, 'r) occurrence \<Rightarrow> bool" where
  "is_dev occ = (case occ of InRepo r \<Rightarrow> ir_scope r = Dev | Toolchain _ _ _ \<Rightarrow> False)"

definition drop_phantom :: "('v, 'r) fleet_report \<Rightarrow> nat \<times> ('v, 'r) fleet_report" where
  "drop_phantom report = drop_occurrences is_phantom report"

definition drop_dev :: "('v, 'r) fleet_report \<Rightarrow> nat \<times> ('v, 'r) fleet_report" where
  "drop_dev report = drop_occurrences is_dev report"

definition retain_reachable :: "('v, 'r) fleet_report \<Rightarrow> nat \<times> ('v, 'r) fleet_report" where
  "retain_reachable report =
     (let vs = filter (\<lambda>v. vf_reachable v \<noteq> Some False) (fr_vulnerabilities report) in
      (length (fr_vulnerabilities report) - length vs,
       refresh_summary (report\<lparr>fr_vulnerabilities := vs\<rparr>)))"

definition retain_min_epss ::
  "score \<Rightarrow> ('v, 'r) fleet_report \<Rightarrow> (string \<times> score) list \<times> ('v, 'r) fleet_report" where
  "retain_min_epss least report =
     (List.map_filter (\<lambda>v. case ex_epss (vf_exploit v) of
          Some e \<Rightarrow> if e < least then Some (vf_id v, e) else None
        | None \<Rightarrow> None) (fr_vulnerabilities report),
      refresh_summary (report\<lparr>fr_vulnerabilities :=
        filter (\<lambda>v. case ex_epss (vf_exploit v) of None \<Rightarrow> True | Some e \<Rightarrow> least \<le> e)
          (fr_vulnerabilities report)\<rparr>))"

definition retain_new :: "string bset \<Rightarrow> ('v, 'r) fleet_report \<Rightarrow> ('v, 'r) fleet_report" where
  "retain_new baseline report =
     refresh_summary (report\<lparr>
       fr_vulnerabilities := filter (\<lambda>v. \<not> bs_mem str_cmp (vf_id v) baseline) (fr_vulnerabilities report),
       fr_warnings := filter (\<lambda>w. case wf_id w of None \<Rightarrow> True | Some i \<Rightarrow> \<not> bs_mem str_cmp i baseline)
         (fr_warnings report)\<rparr>)"

definition combine_baseline :: "nat \<Rightarrow> bool \<Rightarrow> nat" where
  "combine_baseline code baseline_new =
     (if code = 2 then 2 else if baseline_new then max code 1 else code)"

section \<open>Suppressions\<close>

record ignore_entry =
  ig_id :: string
  ig_reason :: string
  ig_expires :: "string option"
  ig_owner :: "string option"

record vex_assertion =
  va_id :: string
  va_repo :: "repo_id option"
  va_justification :: "string option"
  va_reason :: string
  va_approved_by :: string

record 'v suppression =
  sp_id :: string
  sp_repo :: "repo_id option"
  sp_package :: "(string \<times> 'v) option"
  sp_scope :: "(ecosystem \<times> string) option"
  sp_justification :: "string option"
  sp_reason :: string
  sp_approved_by :: "string option"
  sp_accepted_risk :: bool

definition from_ignore :: "ignore_entry \<Rightarrow> 'v suppression" where
  "from_ignore i =
     \<lparr>sp_id = ig_id i, sp_repo = None, sp_package = None, sp_scope = None, sp_justification = None,
      sp_reason = ig_reason i, sp_approved_by = None, sp_accepted_risk = False\<rparr>"

definition from_assertion :: "vex_assertion \<Rightarrow> 'v suppression" where
  "from_assertion a =
     \<lparr>sp_id = va_id a, sp_repo = va_repo a, sp_package = None, sp_scope = None,
      sp_justification = va_justification a, sp_reason = va_reason a,
      sp_approved_by = Some (va_approved_by a), sp_accepted_risk = False\<rparr>"

record ('v, 'r) suppressed_occurrence =
  so_ecosystem :: ecosystem
  so_advisory :: string
  so_aliases :: "string list"
  so_occurrence :: "('v, 'r) occurrence"
  so_justification :: "string option"
  so_impact :: string
  so_approved_by :: "string option"
  so_accepted_risk :: bool

definition suppression_applies ::
  "('v, 'r) vuln_finding \<Rightarrow> ('v, 'r) occurrence \<Rightarrow> 'v suppression \<Rightarrow> bool" where
  "suppression_applies finding occ s \<longleftrightarrow>
     (let (repo, whole) = (case occ of
          InRepo r \<Rightarrow> (Some (ir_repo r), Some (ir_package r, ir_installed r))
        | Toolchain _ _ _ \<Rightarrow> (None, None))
      in (sp_id s = vf_id finding \<or> sp_id s \<in> set (vf_aliases finding)) \<and>
         (case sp_repo s of None \<Rightarrow> True | Some scoped \<Rightarrow> repo = Some scoped) \<and>
         (case sp_package s of None \<Rightarrow> True | Some (p, v) \<Rightarrow> whole = Some (p, v)) \<and>
         (case sp_scope s of
            None \<Rightarrow> True
          | Some (eco, name) \<Rightarrow> eco = vf_ecosystem finding \<and>
              (case whole of None \<Rightarrow> False | Some (p, _) \<Rightarrow> p = name)))"

definition matching_suppression ::
  "'v suppression list \<Rightarrow> ('v, 'r) vuln_finding \<Rightarrow> ('v, 'r) occurrence \<Rightarrow> 'v suppression option" where
  "matching_suppression sups finding occ = List.find (suppression_applies finding occ) sups"

definition capture ::
  "('v, 'r) vuln_finding \<Rightarrow> 'v suppression \<Rightarrow> ('v, 'r) occurrence \<Rightarrow> ('v, 'r) suppressed_occurrence" where
  "capture v s occ =
     \<lparr>so_ecosystem = vf_ecosystem v, so_advisory = vf_id v, so_aliases = vf_aliases v,
      so_occurrence = occ, so_justification = sp_justification s, so_impact = sp_reason s,
      so_approved_by = sp_approved_by s, so_accepted_risk = sp_accepted_risk s\<rparr>"

text \<open>
  The loop over one finding's occurrences: what is kept, the ids that matched so far and the
  occurrences captured so far.
\<close>

fun suppress_occurrences ::
  "'v suppression list \<Rightarrow> ('v, 'r) vuln_finding \<Rightarrow> ('v, 'r) occurrence list
     \<Rightarrow> string bset \<times> ('v, 'r) suppressed_occurrence list
     \<Rightarrow> ('v, 'r) occurrence list \<times> string bset \<times> ('v, 'r) suppressed_occurrence list" where
  "suppress_occurrences sups v [] st = ([], st)"
| "suppress_occurrences sups v (occ # occs) (matched, captured) =
     (case matching_suppression sups v occ of
        Some s \<Rightarrow> suppress_occurrences sups v occs
                    (bs_insert str_cmp (sp_id s) matched, captured @ [capture v s occ])
      | None \<Rightarrow>
          (let (kept, st) = suppress_occurrences sups v occs (matched, captured) in (occ # kept, st)))"

fun suppress_vulns ::
  "'v suppression list \<Rightarrow> ('v, 'r) vuln_finding list
     \<Rightarrow> string bset \<times> ('v, 'r) suppressed_occurrence list
     \<Rightarrow> ('v, 'r) vuln_finding list \<times> string bset \<times> ('v, 'r) suppressed_occurrence list" where
  "suppress_vulns sups [] st = ([], st)"
| "suppress_vulns sups (v # vs) st =
     (let (kept, st1) = suppress_occurrences sups v (vf_occurrences v) st;
          (rest, st2) = suppress_vulns sups vs st1
      in (if kept = [] then rest else v\<lparr>vf_occurrences := kept\<rparr> # rest, st2))"

definition warn_suppressed :: "'v suppression list \<Rightarrow> ('v, 'r) warn_finding \<Rightarrow> bool" where
  "warn_suppressed sups w =
     (case wf_id w of
        None \<Rightarrow> False
      | Some i \<Rightarrow> list_ex (\<lambda>s. sp_id s = i \<and> sp_repo s = None \<and> sp_package s = None \<and> sp_scope s = None) sups)"

fun stale_ids :: "string bset \<Rightarrow> string bset \<Rightarrow> string list \<Rightarrow> string list" where
  "stale_ids matched seen [] = []"
| "stale_ids matched seen (i # is) =
     (if \<not> bs_mem str_cmp i matched \<and> \<not> bs_mem str_cmp i seen
      then i # stale_ids matched (bs_insert str_cmp i seen) is
      else stale_ids matched seen is)"

definition apply_suppressions ::
  "('v, 'r) correlated \<Rightarrow> 'v suppression list
     \<Rightarrow> ('v, 'r) correlated \<times> string list \<times> ('v, 'r) suppressed_occurrence list" where
  "apply_suppressions co sups =
     (let (vs, matched, captured) = suppress_vulns sups (co_vulnerabilities co) ([], []);
          ws = filter (\<lambda>w. \<not> warn_suppressed sups w) (co_warnings co);
          hits = List.map_filter wf_id (filter (warn_suppressed sups) (co_warnings co));
          matched' = fold (bs_insert str_cmp) hits matched
      in (\<lparr>co_vulnerabilities = vs, co_warnings = ws\<rparr>,
          stale_ids matched' [] (map sp_id sups), captured))"

definition matches_any :: "('v, 'r) fleet_report \<Rightarrow> 'v suppression list \<Rightarrow> bool" where
  "matches_any report sups \<longleftrightarrow>
     list_ex (\<lambda>v. list_ex (\<lambda>occ. matching_suppression sups v occ \<noteq> None) (vf_occurrences v))
       (fr_vulnerabilities report)"

section \<open>The gate\<close>

datatype dev_gate = DevSame | DevAt severity | DevNever

record gate_config =
  gc_fail_on :: severity
  gc_fail_on_warnings :: bool
  gc_dev :: dev_gate

primrec dev_floor :: "dev_gate \<Rightarrow> severity \<Rightarrow> severity option" where
  "dev_floor DevSame fail_on = Some fail_on"
| "dev_floor (DevAt least) fail_on = Some least"
| "dev_floor DevNever fail_on = None"

definition gates :: "severity \<Rightarrow> severity \<Rightarrow> bool" where
  "gates severity fail_on \<longleftrightarrow> severity = Unknown \<or> fail_on \<le> severity"

definition passes_threshold :: "severity \<Rightarrow> severity \<Rightarrow> bool" where
  "passes_threshold severity least \<longleftrightarrow> severity = Unknown \<or> least \<le> severity"

definition is_malware :: "('v, 'r) vuln_finding \<Rightarrow> bool" where
  "is_malware v \<longleftrightarrow> list_ex (starts_with ''MAL-'') (vf_id v # vf_aliases v)"

definition vuln_gates :: "gate_config \<Rightarrow> ('v, 'r) vuln_finding \<Rightarrow> bool" where
  "vuln_gates gate v =
     (let runtime = gates (vf_severity v) (gc_fail_on gate) in
      if vf_occurrences v = [] \<or> is_malware v then runtime
      else
        (let dev = (case dev_floor (gc_dev gate) (gc_fail_on gate) of
                      None \<Rightarrow> False
                    | Some least \<Rightarrow> gates (vf_severity v) least)
         in list_ex (\<lambda>occ. if is_dev occ then dev else runtime) (vf_occurrences v)))"

definition warn_gates :: "gate_config \<Rightarrow> ('v, 'r) warn_finding \<Rightarrow> bool" where
  "warn_gates gate w \<longleftrightarrow>
     gc_dev gate \<noteq> DevNever \<or> wf_occurrences w = [] \<or> \<not> list_all is_dev (wf_occurrences w)"

definition exit_code :: "('v, 'r) fleet_report \<Rightarrow> gate_config \<Rightarrow> nat" where
  "exit_code report gate =
     (if su_errored (fr_summary report) > 0 \<or> su_scanned (fr_summary report) = 0 then 2
      else
        (let vuln_hit = list_ex (vuln_gates gate) (fr_vulnerabilities report);
             warn_hit = gc_fail_on_warnings gate \<and> list_ex (warn_gates gate) (fr_warnings report)
         in if vuln_hit \<or> warn_hit then 1 else 0))"

section \<open>Assembly\<close>

record ('v, 'r) scan_data =
  sc_vulnerabilities :: "('v, 'r) vuln_finding list"
  sc_warnings :: "('v, 'r) warn_finding list"
  sc_outcomes :: "repo_outcome list"
  sc_skipped_unparseable :: nat
  sc_coverage :: "coverage_gap list"
  sc_images :: "image_base list"
  sc_pulled :: "image_pull list"
  sc_reused :: nat

record ('v, 'r) assembled =
  as_report :: "('v, 'r) fleet_report"
  as_suppressed :: "('v, 'r) suppressed_occurrence list"

definition is_scanned :: "repo_outcome \<Rightarrow> bool" where
  "is_scanned o' = (case ro_status o' of Scanned _ _ \<Rightarrow> True | Errored _ \<Rightarrow> False)"

definition summarize :: "('v, 'r) correlated \<Rightarrow> repo_outcome list \<Rightarrow> string list \<Rightarrow> summary" where
  "summarize co outcomes stale =
     \<lparr>su_scanned = length (filter is_scanned outcomes),
      su_errored = length (filter (\<lambda>x. \<not> is_scanned x) outcomes),
      su_vulns = length (co_vulnerabilities co),
      su_warns = length (co_warnings co),
      su_max_severity = max_severity_of (co_vulnerabilities co),
      su_stale_ignores = stale\<rparr>"

definition add_base :: "image_base \<Rightarrow> (string, base_image) btree \<Rightarrow> (string, base_image) btree" where
  "add_base img bases =
     bt_alter str_cmp (ib_fingerprint img)
       (\<lambda>old. let base = (case old of
            Some b \<Rightarrow> b
          | None \<Rightarrow> \<lparr>bi_fingerprint = ib_fingerprint img, bi_name = None, bi_os = ib_os img,
                     bi_layers = ib_layers img, bi_images = [], bi_findings = 0, bi_fixable = 0\<rparr>)
        in base\<lparr>bi_name := (case bi_name base of None \<Rightarrow> ib_name img | Some n \<Rightarrow> Some n),
                bi_images := bi_images base @ [ib_repo img]\<rparr>) bases"

type_synonym base_pairs = "(string \<times> string \<times> string, bool) btree"

definition pair_cmp :: "(string \<times> string \<times> string) cmp" where
  "pair_cmp = cmp_pair str_cmp (cmp_pair str_cmp str_cmp)"

definition add_base_pair ::
  "(repo_id, string) btree \<Rightarrow> ('v, 'r) vuln_finding \<Rightarrow> ('v, 'r) occurrence \<Rightarrow> base_pairs \<Rightarrow> base_pairs" where
  "add_base_pair of_repo v occ pairs =
     (case occ of
        InRepo r \<Rightarrow>
          (case (ir_layer r, bt_get str_cmp (ir_repo r) of_repo) of
             (Some layer, Some base) \<Rightarrow>
               if il_base layer then
                 bt_alter pair_cmp (base, vf_id v, ir_package r)
                   (\<lambda>old. (case old of None \<Rightarrow> False | Some b \<Rightarrow> b) \<or> ir_patched r \<noteq> []) pairs
               else pairs
           | _ \<Rightarrow> pairs)
      | Toolchain _ _ _ \<Rightarrow> pairs)"

definition base_image_cmp :: "base_image cmp" where
  "base_image_cmp a b =
     cmp_pair ord_cmp (cmp_pair ord_cmp str_cmp)
       (bi_fixable b, bi_findings b, bi_fingerprint a) (bi_fixable a, bi_findings a, bi_fingerprint b)"

definition count_pair :: "(string \<times> string \<times> string) \<times> bool \<Rightarrow> (string, base_image) btree \<Rightarrow> (string, base_image) btree" where
  "count_pair p bases =
     (case p of ((fp, _, _), fixed) \<Rightarrow>
        (if bt_get str_cmp fp bases = None then bases
         else bt_alter str_cmp fp
           (\<lambda>old. let base = the old in
              base\<lparr>bi_findings := bi_findings base + 1,
                   bi_fixable := bi_fixable base + (if fixed then 1 else 0)\<rparr>) bases))"

definition roll_up_bases :: "image_base list \<Rightarrow> ('v, 'r) vuln_finding list \<Rightarrow> base_image list" where
  "roll_up_bases images vulns =
     (let bases = fold add_base images [];
          of_repo = fold (\<lambda>i. bt_insert str_cmp (ib_repo i) (ib_fingerprint i)) images [];
          pairs = fold (\<lambda>v pairs. fold (add_base_pair of_repo v) (vf_occurrences v) pairs) vulns [];
          counted = fold count_pair pairs bases
      in sort_by base_image_cmp
           (map (\<lambda>p. (snd p)\<lparr>bi_images := sort_by str_cmp (bi_images (snd p))\<rparr>) counted))"

definition mark_malware :: "('v, 'r) vuln_finding \<Rightarrow> ('v, 'r) vuln_finding" where
  "mark_malware v = (if is_malware v then v\<lparr>vf_severity := Critical\<rparr> else v)"

definition assemble ::
  "('v, 'r) semver_lib \<Rightarrow> ('v, 'r) scan_data \<Rightarrow> 'v suppression list \<Rightarrow> severity option \<Rightarrow> provenance
     \<Rightarrow> ('v, 'r) assembled" where
  "assemble lib scan sups min_severity prov =
     (let (co, stale, captured) =
            apply_suppressions (correlate lib (map mark_malware (sc_vulnerabilities scan)) (sc_warnings scan)) sups;
          co' = (case min_severity of
                   None \<Rightarrow> co
                 | Some least \<Rightarrow> co\<lparr>co_vulnerabilities :=
                     filter (\<lambda>v. is_malware v \<or> passes_threshold (vf_severity v) least) (co_vulnerabilities co)\<rparr>)
      in \<lparr>as_report =
            \<lparr>fr_schema_version = schema_version, fr_provenance = prov,
             fr_summary = summarize co' (sc_outcomes scan) stale,
             fr_vulnerabilities = co_vulnerabilities co', fr_warnings = co_warnings co',
             fr_outcomes = sc_outcomes scan, fr_coverage = sc_coverage scan, fr_context = [],
             fr_ssvc = None, fr_package_versions = [],
             fr_base_images = roll_up_bases (sc_images scan) (co_vulnerabilities co')\<rparr>,
          as_suppressed = captured\<rparr>)"

definition build_report ::
  "('v, 'r) semver_lib \<Rightarrow> ('v, 'r) scan_data \<Rightarrow> ignore_entry list \<Rightarrow> severity option \<Rightarrow> provenance
     \<Rightarrow> ('v, 'r) fleet_report" where
  "build_report lib scan ignores min_severity prov =
     as_report (assemble lib scan (map from_ignore ignores) min_severity prov)"

end
