(* ===== verification/Assemble_Props.thy ===== *)
theory Assemble_Props
  imports Assemble
begin

text \<open>
  What the assembly of a report promises: suppressions only move occurrences from the report to
  the list of suppressed ones, known malware is critical and cannot be filtered away, the
  summary stays true through every later filter, and exit code 0 accounts for every finding
  the scan produced.
\<close>

section \<open>Suppressions\<close>

lemma matching_suppression_Some:
  "matching_suppression sups v occ = Some s \<Longrightarrow> s \<in> set sups \<and> suppression_applies v occ s"
  unfolding matching_suppression_def by (auto simp: find_Some_iff)

lemma matching_suppression_None:
  "matching_suppression sups v occ = None \<longleftrightarrow> (\<forall>s \<in> set sups. \<not> suppression_applies v occ s)"
  unfolding matching_suppression_def by (auto simp: find_None_iff)

text \<open>What the loop over one finding does: a split of its occurrences, in order.\<close>

definition kept_of :: "'v suppression list \<Rightarrow> ('v, 'r) vuln_finding \<Rightarrow> ('v, 'r) occurrence list" where
  "kept_of sups v = filter (\<lambda>occ. matching_suppression sups v occ = None) (vf_occurrences v)"

definition captured_of ::
  "'v suppression list \<Rightarrow> ('v, 'r) vuln_finding \<Rightarrow> ('v, 'r) suppressed_occurrence list" where
  "captured_of sups v =
     List.map_filter (\<lambda>occ. map_option (\<lambda>s. capture v s occ) (matching_suppression sups v occ)) (vf_occurrences v)"

lemma suppress_occurrences_eq:
  "\<exists>m. suppress_occurrences sups v occs (matched, captured) =
     (filter (\<lambda>occ. matching_suppression sups v occ = None) occs, m,
      captured @ List.map_filter (\<lambda>occ. map_option (\<lambda>s. capture v s occ) (matching_suppression sups v occ)) occs)"
proof (induction occs arbitrary: matched captured)
  case (Cons occ occs)
  show ?case
  proof (cases "matching_suppression sups v occ")
    case None
    obtain m where "suppress_occurrences sups v occs (matched, captured) =
      (filter (\<lambda>occ. matching_suppression sups v occ = None) occs, m,
       captured @ List.map_filter (\<lambda>occ. map_option (\<lambda>s. capture v s occ) (matching_suppression sups v occ)) occs)"
      using Cons.IH by blast
    then show ?thesis using None by (simp add: List.map_filter_simps)
  next
    case (Some s)
    obtain m where "suppress_occurrences sups v occs
        (bs_insert str_cmp (sp_id s) matched, captured @ [capture v s occ]) =
      (filter (\<lambda>occ. matching_suppression sups v occ = None) occs, m,
       (captured @ [capture v s occ]) @
         List.map_filter (\<lambda>occ. map_option (\<lambda>s. capture v s occ) (matching_suppression sups v occ)) occs)"
      using Cons.IH by blast
    then show ?thesis using Some by (simp add: List.map_filter_simps)
  qed
qed (simp add: List.map_filter_simps)

lemma suppress_vulns_eq:
  "\<exists>m. suppress_vulns sups vs (matched, captured) =
     (map (\<lambda>v. v\<lparr>vf_occurrences := kept_of sups v\<rparr>) (filter (\<lambda>v. kept_of sups v \<noteq> []) vs), m,
      captured @ concat (map (captured_of sups) vs))"
proof (induction vs arbitrary: matched captured)
  case (Cons v vs)
  obtain m where m: "suppress_occurrences sups v (vf_occurrences v) (matched, captured) =
      (kept_of sups v, m, captured @ captured_of sups v)"
    using suppress_occurrences_eq unfolding kept_of_def captured_of_def by blast
  obtain m' where "suppress_vulns sups vs (m, captured @ captured_of sups v) =
     (map (\<lambda>v. v\<lparr>vf_occurrences := kept_of sups v\<rparr>) (filter (\<lambda>v. kept_of sups v \<noteq> []) vs), m',
      (captured @ captured_of sups v) @ concat (map (captured_of sups) vs))"
    using Cons.IH by blast
  then show ?case using m by auto
qed simp

lemma apply_suppressions_vulns:
  obtains ws stale where "apply_suppressions co sups =
    (\<lparr>co_vulnerabilities = map (\<lambda>v. v\<lparr>vf_occurrences := kept_of sups v\<rparr>)
        (filter (\<lambda>v. kept_of sups v \<noteq> []) (co_vulnerabilities co)), co_warnings = ws\<rparr>,
     stale, concat (map (captured_of sups) (co_vulnerabilities co)))"
proof -
  obtain m where m: "suppress_vulns sups (co_vulnerabilities co) ([], []) =
     (map (\<lambda>v. v\<lparr>vf_occurrences := kept_of sups v\<rparr>)
        (filter (\<lambda>v. kept_of sups v \<noteq> []) (co_vulnerabilities co)), m,
      [] @ concat (map (captured_of sups) (co_vulnerabilities co)))"
    using suppress_vulns_eq by blast
  then show thesis using that by (simp add: apply_suppressions_def Let_def)
qed

text \<open>Kept and captured together are what there was.\<close>

lemma kept_captured_mset:
  "mset (kept_of sups v) + mset (map so_occurrence (captured_of sups v)) = mset (vf_occurrences v)"
proof -
  have "mset (filter (\<lambda>occ. matching_suppression sups v occ = None) occs) +
      mset (map so_occurrence (List.map_filter
        (\<lambda>occ. map_option (\<lambda>s. capture v s occ) (matching_suppression sups v occ)) occs)) = mset occs" for occs
    by (induction occs) (auto simp: List.map_filter_simps capture_def split: option.split)
  then show ?thesis by (simp add: kept_of_def captured_of_def)
qed

lemma capture_advisory: "so_advisory (capture v s occ) = vf_id v"
  by (simp add: capture_def)

lemma captured_ofD:
  assumes "x \<in> set (captured_of sups v)"
  shows "\<exists>s \<in> set sups. suppression_applies v (so_occurrence x) s \<and> x = capture v s (so_occurrence x)"
proof -
  obtain occ s where "matching_suppression sups v occ = Some s" and "x = capture v s occ"
    using assms by (auto simp: captured_of_def List.map_filter_def)
  then show ?thesis using matching_suppression_Some by (fastforce simp: capture_def)
qed

lemma occurrence_split:
  assumes "occ \<in> set (vf_occurrences v)"
  shows "occ \<in> set (kept_of sups v) \<or> occ \<in> so_occurrence ` set (captured_of sups v)"
proof -
  have "occ \<in># mset (kept_of sups v) + mset (map so_occurrence (captured_of sups v))"
    unfolding kept_captured_mset using assms by simp
  then show ?thesis by auto
qed

section \<open>Malware\<close>

lemma is_malware_cong: "vf_id v = vf_id w \<Longrightarrow> set (vf_aliases v) = set (vf_aliases w) \<Longrightarrow> is_malware v = is_malware w"
  by (simp add: is_malware_def list_ex_iff)

lemma is_malware_mark [simp]: "is_malware (mark_malware v) = is_malware v"
  by (simp add: mark_malware_def is_malware_def)

lemma mark_malware_simps [simp]:
  "vf_id (mark_malware v) = vf_id v" "vf_aliases (mark_malware v) = vf_aliases v"
  "vf_occurrences (mark_malware v) = vf_occurrences v" "vuln_key (mark_malware v) = vuln_key v"
  by (simp_all add: mark_malware_def vuln_key_def)

lemma mark_malware_severe: "is_malware v \<Longrightarrow> vf_severity (mark_malware v) = Critical"
  by (simp add: mark_malware_def)

lemma mark_malware_severity: "vf_severity v \<le> vf_severity (mark_malware v)"
  by (simp add: mark_malware_def)

text \<open>A correlated finding that names malware has a critical one among those it merges.\<close>

lemma correlated_malware_critical:
  assumes g: "g \<in> set (correlate_vulns lib (map mark_malware input))" and "is_malware g"
  shows "vf_severity g = Critical"
proof -
  let ?grp = "group_of (map mark_malware input) (vuln_key g)"
  note grp = correlate_vulns_group [OF g]
  have "\<exists>f \<in> set ?grp. is_malware f"
  proof (cases "starts_with ''MAL-'' (vf_id g)")
    case True
    obtain f where f: "f \<in> set ?grp" using grp by (cases ?grp) auto
    then have "vuln_key f = vuln_key g" by (simp add: group_of_def)
    then have "vf_id f = vf_id g" by (simp add: vuln_key_def)
    then have "is_malware f" using True by (simp add: is_malware_def)
    then show ?thesis using f by blast
  next
    case False
    then obtain a where "a \<in> set (vf_aliases g)" "starts_with ''MAL-'' a"
      using assms(2) by (auto simp: is_malware_def list_ex_iff)
    then show ?thesis using grp by (auto simp: is_malware_def list_ex_iff)
  qed
  then obtain f where f: "f \<in> set ?grp" "is_malware f" by blast
  then obtain h where h: "f = mark_malware h" by (auto simp: group_of_def)
  then have "vf_severity f = Critical" using f(2) by (simp add: mark_malware_severe)
  moreover have "vf_severity f \<le> Max (vf_severity ` set ?grp)" using f(1) by simp
  ultimately have "Critical \<le> vf_severity g" using grp by simp
  then show ?thesis using Critical_greatest antisym by blast
qed

lemma kept_update_simps [simp]:
  "is_malware (v\<lparr>vf_occurrences := x\<rparr>) = is_malware v"
  by (simp add: is_malware_def)

section \<open>The assembled report\<close>

lemma assemble_vulns:
  "fr_vulnerabilities (as_report (assemble lib scan sups least prov)) =
     filter (\<lambda>v. case least of None \<Rightarrow> True | Some m \<Rightarrow> is_malware v \<or> passes_threshold (vf_severity v) m)
       (map (\<lambda>v. v\<lparr>vf_occurrences := kept_of sups v\<rparr>)
         (filter (\<lambda>v. kept_of sups v \<noteq> []) (correlate_vulns lib (map mark_malware (sc_vulnerabilities scan)))))"
  "as_suppressed (assemble lib scan sups least prov) =
     concat (map (captured_of sups) (correlate_vulns lib (map mark_malware (sc_vulnerabilities scan))))"
proof -
  let ?co = "correlate lib (map mark_malware (sc_vulnerabilities scan)) (sc_warnings scan)"
  obtain ws stale where a: "apply_suppressions ?co sups =
    (\<lparr>co_vulnerabilities = map (\<lambda>v. v\<lparr>vf_occurrences := kept_of sups v\<rparr>)
        (filter (\<lambda>v. kept_of sups v \<noteq> []) (co_vulnerabilities ?co)), co_warnings = ws\<rparr>,
     stale, concat (map (captured_of sups) (co_vulnerabilities ?co)))"
    by (rule apply_suppressions_vulns)
  show "fr_vulnerabilities (as_report (assemble lib scan sups least prov)) =
     filter (\<lambda>v. case least of None \<Rightarrow> True | Some m \<Rightarrow> is_malware v \<or> passes_threshold (vf_severity v) m)
       (map (\<lambda>v. v\<lparr>vf_occurrences := kept_of sups v\<rparr>)
         (filter (\<lambda>v. kept_of sups v \<noteq> []) (correlate_vulns lib (map mark_malware (sc_vulnerabilities scan)))))"
    unfolding assemble_def a by (cases least) (simp_all add: correlate_def Let_def)
  show "as_suppressed (assemble lib scan sups least prov) =
     concat (map (captured_of sups) (correlate_vulns lib (map mark_malware (sc_vulnerabilities scan))))"
    unfolding assemble_def a by (simp add: correlate_def Let_def)
qed

lemma assemble_summary:
  "fr_outcomes (as_report (assemble lib scan sups least prov)) = sc_outcomes scan"
  "su_scanned (fr_summary (as_report (assemble lib scan sups least prov))) =
     length (filter is_scanned (sc_outcomes scan))"
  "su_errored (fr_summary (as_report (assemble lib scan sups least prov))) =
     length (filter (\<lambda>x. \<not> is_scanned x) (sc_outcomes scan))"
  "summary_ok (as_report (assemble lib scan sups least prov))"
  by (simp_all add: assemble_def summarize_def summary_ok_def Let_def split: prod.split)

section \<open>Which suppressions were used\<close>

lemma suppress_occurrences_matched:
  assumes "bt_wf str_cmp (fst st)"
  shows "bt_wf str_cmp (fst (snd (suppress_occurrences sups v occs st))) \<and>
    set (bs_items (fst (snd (suppress_occurrences sups v occs st)))) =
      set (bs_items (fst st)) \<union> {sp_id s |s. \<exists>occ \<in> set occs. matching_suppression sups v occ = Some s}"
  using assms
proof (induction sups v occs st rule: suppress_occurrences.induct)
  case (2 sups v occ occs matched captured)
  show ?case
  proof (cases "matching_suppression sups v occ")
    case None
    have "bt_wf str_cmp (fst (matched, captured))" using 2 by simp
    note IH = 2(1) [OF None this]
    then show ?thesis using None by (auto split: prod.split)
  next
    case (Some s)
    have "bt_wf str_cmp (fst (bs_insert str_cmp (sp_id s) matched, captured @ [capture v s occ]))"
      using 2 by (simp add: str.bs_wf_insert)
    note IH = 2(2) [OF Some this]
    have "set (bs_items (bs_insert str_cmp (sp_id s) matched)) = insert (sp_id s) (set (bs_items matched))"
      using 2 by (intro str.set_bs_insert) simp
    then show ?thesis using IH Some by auto
  qed
qed simp

lemma suppress_vulns_matched:
  assumes "bt_wf str_cmp (fst st)"
  shows "bt_wf str_cmp (fst (snd (suppress_vulns sups vs st))) \<and>
    set (bs_items (fst (snd (suppress_vulns sups vs st)))) =
      set (bs_items (fst st)) \<union>
        {sp_id s |s. \<exists>v \<in> set vs. \<exists>occ \<in> set (vf_occurrences v). matching_suppression sups v occ = Some s}"
  using assms
proof (induction vs arbitrary: st)
  case (Cons v vs)
  obtain kept st1 where s1: "suppress_occurrences sups v (vf_occurrences v) st = (kept, st1)" by (meson surj_pair)
  obtain rest st2 where s2: "suppress_vulns sups vs st1 = (rest, st2)" by (meson surj_pair)
  note m1 = suppress_occurrences_matched [OF Cons.prems, of sups v "vf_occurrences v", unfolded s1]
  have "bt_wf str_cmp (fst st1)" using m1 by simp
  note m2 = Cons.IH [OF this, unfolded s2]
  have eq: "fst (snd (suppress_vulns sups (v # vs) st)) = fst st2" by (simp add: s1 s2)
  show ?case unfolding eq using m1 m2 by auto
qed simp

lemma set_stale_ids:
  "bt_wf str_cmp matched \<Longrightarrow> bt_wf str_cmp seen \<Longrightarrow>
     distinct (stale_ids matched seen ids) \<and>
     set (stale_ids matched seen ids) = set ids - set (bs_items matched) - set (bs_items seen)"
proof (induction ids arbitrary: seen)
  case (Cons i ids)
  then have s: "set (bs_items (bs_insert str_cmp i seen)) = insert i (set (bs_items seen))"
    by (intro str.set_bs_insert) simp
  have "bt_wf str_cmp (bs_insert str_cmp i seen)" using Cons by (intro str.bs_wf_insert) simp
  note IH = Cons.IH [OF Cons.prems(1) this] Cons.IH [OF Cons.prems]
  show ?case using IH Cons.prems by (auto simp: str.bs_mem_iff s)
qed simp

section \<open>Nothing is lost on the way to exit code 0\<close>

lemma gates_mono: "gates s t \<Longrightarrow> s \<le> s' \<Longrightarrow> s \<noteq> Unknown \<Longrightarrow> gates s' t"
  by (auto simp: gates_def)

lemma not_gates: "\<not> gates s t \<longleftrightarrow> s \<noteq> Unknown \<and> s < t"
  by (auto simp: gates_def)

text \<open>The finding of the correlated list that an input occurrence ends up in.\<close>

lemma correlated_home:
  assumes "f \<in> set input" and "occ \<in> set (vf_occurrences f)"
  obtains g where "g \<in> set (correlate_vulns lib (map mark_malware input))"
    and "vf_id g = vf_id f" and "occ \<in> set (vf_occurrences g)"
    and "vf_severity f \<le> vf_severity g" and "is_malware f \<Longrightarrow> is_malware g"
proof -
  let ?in = "map mark_malware input"
  have f: "mark_malware f \<in> set ?in" using assms(1) by simp
  then have "vuln_key (mark_malware f) \<in> vuln_key ` set (correlate_vulns lib ?in)"
    unfolding correlate_vulns_keys by blast
  then obtain g where g: "g \<in> set (correlate_vulns lib ?in)" and key: "vuln_key g = vuln_key (mark_malware f)"
    by (metis imageE)
  note grp = correlate_vulns_group [OF g]
  have mem: "mark_malware f \<in> set (group_of ?in (vuln_key g))" using f key by (simp add: group_of_def)
  have ident: "vf_id g = vf_id f" using key by (simp add: vuln_key_def)
  have "vf_severity (mark_malware f) \<le> vf_severity g" using grp mem by simp
  then have sev: "vf_severity f \<le> vf_severity g" using mark_malware_severity order.trans by blast
  have "set (vf_aliases (mark_malware f)) \<subseteq> set (vf_aliases g)"
    and "set (vf_occurrences (mark_malware f)) \<subseteq> set (vf_occurrences g)" using grp mem by auto
  then show thesis using that [OF g ident _ sev] assms(2) ident
    by (auto simp: is_malware_def list_ex_iff)
qed

lemma exit_0_no_gate:
  assumes "exit_code r gate = 0" and "v \<in> set (fr_vulnerabilities r)"
  shows "\<not> vuln_gates gate v"
  using assms by (auto simp: exit_code_def Let_def list_ex_iff split: if_splits)

lemma not_vuln_gates:
  assumes "\<not> vuln_gates gate v" and "occ \<in> set (vf_occurrences v)"
  shows "vf_severity v < gc_fail_on gate \<or>
    \<not> is_malware v \<and> is_dev occ \<and>
      (case dev_floor (gc_dev gate) (gc_fail_on gate) of None \<Rightarrow> True | Some d \<Rightarrow> vf_severity v < d)"
  using assms
  by (cases "is_dev occ")
    (auto simp: vuln_gates_def Let_def list_ex_iff not_gates split: if_splits option.splits)

text \<open>C1: exit code 0 accounts for every occurrence the scanners produced.  Each one is listed among
  the suppressed ones under its own advisory, or it is not known malware and its severity is
  below the gate, below the requested minimum, or below what the gate asks of a dev dependency.\<close>

theorem clean_exit_accounts:
  assumes "exit_code (as_report (assemble lib scan sups least prov)) gate = 0"
    and "f \<in> set (sc_vulnerabilities scan)" and "occ \<in> set (vf_occurrences f)"
  shows "list_ex (\<lambda>x. so_advisory x = vf_id f \<and> so_occurrence x = occ)
      (as_suppressed (assemble lib scan sups least prov)) \<or>
    \<not> is_malware f \<and>
      (vf_severity f < gc_fail_on gate \<or>
       (case least of None \<Rightarrow> False | Some m \<Rightarrow> vf_severity f < m) \<or>
       is_dev occ \<and>
        (case dev_floor (gc_dev gate) (gc_fail_on gate) of None \<Rightarrow> True | Some d \<Rightarrow> vf_severity f < d))"
proof -
  obtain g where g: "g \<in> set (correlate_vulns lib (map mark_malware (sc_vulnerabilities scan)))"
    and ident: "vf_id g = vf_id f" and occ: "occ \<in> set (vf_occurrences g)"
    and sev: "vf_severity f \<le> vf_severity g" and mal: "is_malware f \<Longrightarrow> is_malware g"
    by (rule correlated_home [OF assms(2,3), where lib = lib]) blast
  have crit: "vf_severity g = Critical" if "is_malware f"
    using correlated_malware_critical [OF g mal [OF that]] .
  from occurrence_split [OF occ, of sups] show ?thesis
  proof
    assume "occ \<in> so_occurrence ` set (captured_of sups g)"
    then obtain x where x: "x \<in> set (captured_of sups g)" "so_occurrence x = occ" by blast
    then have "so_advisory x = vf_id f" using captured_ofD [OF x(1)] ident capture_advisory by metis
    then show ?thesis using x g by (auto simp: assemble_vulns list_ex_iff)
  next
    assume kept: "occ \<in> set (kept_of sups g)"
    let ?v = "g\<lparr>vf_occurrences := kept_of sups g\<rparr>"
    show ?thesis
    proof (cases "?v \<in> set (fr_vulnerabilities (as_report (assemble lib scan sups least prov)))")
      case True
      have sv: "vf_severity ?v = vf_severity g" "is_malware ?v = is_malware g" by simp_all
      have "occ \<in> set (vf_occurrences ?v)" using kept by simp
      note ng = not_vuln_gates [OF exit_0_no_gate [OF assms(1) True] this, unfolded sv]
      have nm: "\<not> is_malware f"
      proof
        assume m: "is_malware f"
        then have "Critical < gc_fail_on gate" using ng crit mal by simp
        then show False using Critical_greatest leD by blast
      qed
      show ?thesis
      proof (cases "vf_severity g < gc_fail_on gate")
        case True
        then show ?thesis using nm sev by (auto dest: order.strict_trans1)
      next
        case False
        then have "is_dev occ" and d: "case dev_floor (gc_dev gate) (gc_fail_on gate) of None \<Rightarrow> True
            | Some d \<Rightarrow> vf_severity g < d" using ng by blast+
        moreover have "case dev_floor (gc_dev gate) (gc_fail_on gate) of None \<Rightarrow> True
            | Some d \<Rightarrow> vf_severity f < d"
          using d sev by (cases "dev_floor (gc_dev gate) (gc_fail_on gate)") auto
        ultimately show ?thesis using nm by blast
      qed
    next
      case False
      moreover have "?v \<in> set (map (\<lambda>v. v\<lparr>vf_occurrences := kept_of sups v\<rparr>)
          (filter (\<lambda>v. kept_of sups v \<noteq> [])
            (correlate_vulns lib (map mark_malware (sc_vulnerabilities scan)))))"
        using g kept by (auto intro!: image_eqI [of _ _ g])
      ultimately have "case least of None \<Rightarrow> False | Some m \<Rightarrow> \<not> (is_malware ?v \<or> passes_threshold (vf_severity ?v) m)"
        unfolding assemble_vulns set_filter by (cases least) simp_all
      then obtain m where "least = Some m" and "\<not> is_malware g" and "vf_severity g < m"
        by (cases least) (auto simp: passes_threshold_def not_le)
      then show ?thesis using mal sev by (auto dest: order.strict_trans1)
    qed
  qed
qed

definition quiet_finding :: "(triple, triple) vuln_finding" where
  "quiet_finding = tier_c_build
     \<lparr>tc_ecosystem = Npm, tc_id = ''GHSA-1'', tc_aliases = [], tc_title = ''t'', tc_severity = Low,
      tc_cvss = None, tc_vector = None, tc_package = ''p'', tc_installed = (1, 0, 0), tc_patched = [],
      tc_direct = True, tc_dev = False, tc_path = [], tc_repo = ''r'', tc_reason = ''package-level''\<rparr>"

definition quiet_scan :: "(triple, triple) scan_data" where
  "quiet_scan =
     \<lparr>sc_vulnerabilities = [quiet_finding], sc_warnings = [],
      sc_outcomes = [\<lparr>ro_repo = ''r'', ro_status = Scanned 1 1\<rparr>], sc_skipped_unparseable = 0,
      sc_coverage = [], sc_images = [], sc_pulled = [], sc_reused = 0\<rparr>"

definition quiet_provenance :: provenance where
  "quiet_provenance =
     \<lparr>pr_tool_version = ''1'', pr_rustsec_version = ''1'', pr_db_commit = None, pr_db_timestamp = None,
      pr_host_os = ''linux'', pr_host_arch = ''x86_64'', pr_generated_at = ''2026-01-01'', pr_osv = [],
      pr_sources = [], pr_images = [], pr_db_snapshot = None\<rparr>"

lemma quiet_exit:
  "exit_code (as_report (assemble triple_lib quiet_scan [] None quiet_provenance))
     \<lparr>gc_fail_on = High, gc_fail_on_warnings = False, gc_dev = DevSame\<rparr> = 0"
  by code_simp

theorem clean_exit_accounts_witness:
  "list_ex (\<lambda>x. so_advisory x = vf_id quiet_finding \<and> so_occurrence x = hd (vf_occurrences quiet_finding))
      (as_suppressed (assemble triple_lib quiet_scan [] None quiet_provenance)) \<or>
    \<not> is_malware quiet_finding \<and>
      (vf_severity quiet_finding < High \<or> False \<or>
       is_dev (hd (vf_occurrences quiet_finding)) \<and> vf_severity quiet_finding < High)"
  using clean_exit_accounts [OF quiet_exit, of quiet_finding "hd (vf_occurrences quiet_finding)"]
  by (simp add: quiet_scan_def quiet_finding_def tier_c_build_def)

section \<open>Suppressions conserve occurrences\<close>

lemma matching_suppression_update [simp]:
  "matching_suppression sups (v\<lparr>vf_occurrences := x\<rparr>) occ = matching_suppression sups v occ"
proof -
  have "suppression_applies (v\<lparr>vf_occurrences := x\<rparr>) occ = suppression_applies v occ"
    by (intro ext) (cases occ; simp add: suppression_applies_def cong: option.case_cong prod.case_cong)
  then show ?thesis by (simp add: matching_suppression_def)
qed

lemma kept_captured_total:
  "mset (concat (map (kept_of sups) (filter (\<lambda>v. kept_of sups v \<noteq> []) vs))) +
     mset (map so_occurrence (concat (map (captured_of sups) vs))) = mset (concat (map vf_occurrences vs))"
proof (induction vs)
  case (Cons v vs)
  have kept: "mset (concat (map (kept_of sups) (filter (\<lambda>v. kept_of sups v \<noteq> []) (v # vs)))) =
      mset (kept_of sups v) + mset (concat (map (kept_of sups) (filter (\<lambda>v. kept_of sups v \<noteq> []) vs)))"
    by simp
  have captured: "mset (map so_occurrence (concat (map (captured_of sups) (v # vs)))) =
      mset (map so_occurrence (captured_of sups v)) +
      mset (map so_occurrence (concat (map (captured_of sups) vs)))"
    by (simp add: map_concat)
  have all: "mset (concat (map vf_occurrences (v # vs))) =
      mset (vf_occurrences v) + mset (concat (map vf_occurrences vs))"
    by simp
  show ?case
    unfolding kept captured all Cons.IH [symmetric] kept_captured_mset [of sups v, symmetric]
    by (simp only: ac_simps)
qed simp

text \<open>C3: applying suppressions loses no occurrence: what stays in the report and what is listed as
  suppressed is together exactly what correlation found.  Each suppressed occurrence is listed
  with a suppression that applies to it, nothing that one applies to stays, and no finding
  stays without an occurrence.\<close>

theorem suppressions_conserve:
  "case apply_suppressions co sups of (co', stale, captured) \<Rightarrow>
     mset (concat (map vf_occurrences (co_vulnerabilities co'))) + mset (map so_occurrence captured) =
       mset (concat (map vf_occurrences (co_vulnerabilities co))) \<and>
     list_all (\<lambda>x. list_ex (\<lambda>v. list_ex (\<lambda>s. suppression_applies v (so_occurrence x) s \<and>
         x = capture v s (so_occurrence x)) sups) (co_vulnerabilities co)) captured \<and>
     list_all (\<lambda>v. vf_occurrences v \<noteq> [] \<and>
         list_all (\<lambda>occ. matching_suppression sups v occ = None) (vf_occurrences v)) (co_vulnerabilities co')"
proof -
  obtain ws stale where a: "apply_suppressions co sups =
    (\<lparr>co_vulnerabilities = map (\<lambda>v. v\<lparr>vf_occurrences := kept_of sups v\<rparr>)
        (filter (\<lambda>v. kept_of sups v \<noteq> []) (co_vulnerabilities co)), co_warnings = ws\<rparr>,
     stale, concat (map (captured_of sups) (co_vulnerabilities co)))"
    by (rule apply_suppressions_vulns)
  have "map vf_occurrences (map (\<lambda>v. v\<lparr>vf_occurrences := kept_of sups v\<rparr>) vs) = map (kept_of sups) vs"
    for vs :: "('a, 'b) vuln_finding list" by simp
  note occs = this [of "filter (\<lambda>v. kept_of sups v \<noteq> []) (co_vulnerabilities co)"]
  have just: "list_ex (\<lambda>v. list_ex (\<lambda>s. suppression_applies v (so_occurrence x) s \<and>
      x = capture v s (so_occurrence x)) sups) (co_vulnerabilities co)"
    if "x \<in> set (concat (map (captured_of sups) (co_vulnerabilities co)))" for x
    using that captured_ofD [of x sups] by (auto simp: list_ex_iff) blast
  show ?thesis
    unfolding a prod.case correlated.simps occs
    using kept_captured_total [of sups "co_vulnerabilities co"] just
    by (auto simp: list_all_iff kept_of_def)
qed

text \<open>A suppression is reported as stale exactly when nothing used its id: no occurrence was captured
  under it and no warning was dropped by it.  Each stale id is reported once.\<close>

theorem stale_ignores_exact:
  "case apply_suppressions co sups of (co', stale, captured) \<Rightarrow>
     distinct stale \<and>
     (i \<in> set stale \<longleftrightarrow>
        i \<in> sp_id ` set sups \<and>
        \<not> list_ex (\<lambda>v. list_ex (\<lambda>occ. map_option sp_id (matching_suppression sups v occ) = Some i)
             (vf_occurrences v)) (co_vulnerabilities co) \<and>
        \<not> list_ex (\<lambda>w. wf_id w = Some i \<and> warn_suppressed sups w) (co_warnings co))"
proof -
  obtain vs m captured where s: "suppress_vulns sups (co_vulnerabilities co) ([], []) = (vs, m, captured)"
    by (rule prod_cases3)
  note m = suppress_vulns_matched [of "([], [])" sups "co_vulnerabilities co", unfolded s, simplified]
  let ?hits = "List.map_filter wf_id (filter (warn_suppressed sups) (co_warnings co))"
  have "bt_wf str_cmp m" using m by simp
  note m' = str.bs_fold_insert [OF this, of ?hits]
  have "bt_wf str_cmp ([] :: string bset)" by simp
  note st = set_stale_ids [OF m' [THEN conjunct1] this, of "map sp_id sups"]
  have hits: "set ?hits = {j. \<exists>w \<in> set (co_warnings co). wf_id w = Some j \<and> warn_suppressed sups w}"
    by (force simp: List.map_filter_def)
  show ?thesis
    unfolding apply_suppressions_def s Let_def prod.case
    using st m m' hits by (auto simp: list_ex_iff bs_items_def)
qed

section \<open>The filters that run after assembly\<close>

text \<open>
  A filter may leave less to gate on; it may not touch what makes a run untrustworthy.
\<close>

definition weakens :: "('v, 'r) fleet_report \<Rightarrow> ('v, 'r) fleet_report \<Rightarrow> bool" where
  "weakens r' r \<longleftrightarrow>
     su_scanned (fr_summary r') = su_scanned (fr_summary r) \<and>
     su_errored (fr_summary r') = su_errored (fr_summary r) \<and>
     (\<forall>gate. list_ex (vuln_gates gate) (fr_vulnerabilities r') \<longrightarrow> list_ex (vuln_gates gate) (fr_vulnerabilities r)) \<and>
     (\<forall>gate. list_ex (warn_gates gate) (fr_warnings r') \<longrightarrow> list_ex (warn_gates gate) (fr_warnings r))"

lemma weakens_exit:
  "weakens r' r \<Longrightarrow> (exit_code r' gate = 2 \<longleftrightarrow> exit_code r gate = 2) \<and> exit_code r' gate \<le> exit_code r gate"
  by (auto simp: weakens_def exit_code_def Let_def)

lemma vuln_gates_fewer:
  assumes "vuln_gates gate (v\<lparr>vf_occurrences := filter P (vf_occurrences v)\<rparr>)"
    and "filter P (vf_occurrences v) \<noteq> []"
  shows "vuln_gates gate v"
proof -
  have "vf_occurrences v \<noteq> []" using assms(2) by auto
  then show ?thesis using assms by (auto simp: vuln_gates_def Let_def list_ex_iff split: if_splits cong: option.case_cong)
qed

lemma warn_gates_fewer:
  assumes "warn_gates gate (w\<lparr>wf_occurrences := filter P (wf_occurrences w)\<rparr>)"
    and "filter P (wf_occurrences w) \<noteq> []"
  shows "warn_gates gate w"
  using assms by (auto simp: warn_gates_def list_all_iff)

lemma drop_occurrences_weakens: "weakens (snd (drop_occurrences P r)) r"
  by (auto simp: weakens_def drop_occurrences_def Let_def list_ex_iff
      intro: vuln_gates_fewer warn_gates_fewer)

lemma retain_weakens:
  "weakens (snd (retain_reachable r)) r"
  "weakens (snd (retain_min_epss e r)) r"
  "weakens (retain_new ids r) r"
  by (auto simp: weakens_def retain_reachable_def retain_min_epss_def retain_new_def Let_def list_ex_iff)

text \<open>C4: none of the filters that run on a finished report can turn an untrustworthy run into a
  trusted one or raise the exit code, and the summary stays true to the findings.\<close>

theorem filters_only_lower:
  "list_all (\<lambda>r'. (exit_code r' gate = 2 \<longleftrightarrow> exit_code r gate = 2) \<and>
       exit_code r' gate \<le> exit_code r gate \<and> summary_ok r')
     [snd (drop_phantom r), snd (drop_dev r), snd (retain_reachable r), snd (retain_min_epss e r),
      retain_new ids r]"
  using weakens_exit [OF drop_occurrences_weakens, of is_phantom r]
    weakens_exit [OF drop_occurrences_weakens, of is_dev r]
    weakens_exit [OF retain_weakens(1), of r] weakens_exit [OF retain_weakens(2), of e r]
    weakens_exit [OF retain_weakens(3), of ids r]
  by (simp add: drop_phantom_def drop_dev_def)
    (simp add: drop_occurrences_def retain_reachable_def retain_min_epss_def retain_new_def Let_def)

text \<open>C5: a run is untrustworthy exactly when a repository could not be scanned or there was none, and a
  baseline with new findings raises a trusted run to 1 and never hides an untrusted one.\<close>

theorem untrusted_or_gated:
  "(exit_code (as_report (assemble lib scan sups least prov)) gate \<noteq> 2 \<longleftrightarrow>
      sc_outcomes scan \<noteq> [] \<and> list_all is_scanned (sc_outcomes scan)) \<and>
   combine_baseline (exit_code (as_report (assemble lib scan sups least prov)) gate) new \<in>
     (if sc_outcomes scan \<noteq> [] \<and> list_all is_scanned (sc_outcomes scan)
      then (if new then {1} else {0, 1}) else {2})"
proof -
  have "length (filter is_scanned xs) = 0 \<longleftrightarrow> \<not> list_ex is_scanned xs"
    and "0 < length (filter (\<lambda>x. \<not> is_scanned x) xs) \<longleftrightarrow> \<not> list_all is_scanned xs" for xs
    by (auto simp: list_ex_iff list_all_iff filter_empty_conv)
  then have "exit_code (as_report (assemble lib scan sups least prov)) gate = 2 \<longleftrightarrow>
      sc_outcomes scan = [] \<or> \<not> list_all is_scanned (sc_outcomes scan)"
    unfolding exit_code_def assemble_summary
    by (cases "sc_outcomes scan") (auto simp: Let_def)
  moreover have "exit_code (as_report (assemble lib scan sups least prov)) gate \<in> {0, 1, 2}"
    by (simp add: exit_code_def Let_def)
  ultimately show ?thesis by (fastforce simp: combine_baseline_def max_def)
qed

end
