(* ===== verification/Image_Fs.thy ===== *)
theory Image_Fs
  imports Rust_Text Rust_Map Rust_Bytes
begin

text \<open>
  The merged file system of a container image, \<^verbatim>\<open>crates/os/src/image.rs\<close>: paths, the entries of the
  layers with OCI whiteouts, links, and the questions asked of the result.  The map of entries is
  ordered by path as text, and a subtree is removed by a scan over a range of it.
\<close>

section \<open>Maps\<close>

text \<open>\<^verbatim>\<open>BTreeMap::remove\<close>, and \<^verbatim>\<open>range(k..)\<close>.\<close>

definition bt_remove :: "'k cmp \<Rightarrow> 'k \<Rightarrow> ('k, 'v) btree \<Rightarrow> ('k, 'v) btree" where
  "bt_remove c k m = filter (\<lambda>p. c k (fst p) \<noteq> Equal) m"

definition bt_from :: "'k cmp \<Rightarrow> 'k \<Rightarrow> ('k, 'v) btree \<Rightarrow> ('k, 'v) btree" where
  "bt_from c k m = dropWhile (\<lambda>p. c (fst p) k = Less) m"

section \<open>Paths\<close>

datatype layer_error =
  DotDotPath string
| TarEndsInHeader
| TarEndsInEntry
| TarBadNumber string
| TarNumberTooLarge
| TarChecksumMismatch
| TarMetaTooLarge
| SourceFailed string
| SeekTooFar

fun normal_parts :: "string list \<Rightarrow> string list \<Rightarrow> string list option" where
  "normal_parts parts [] = Some parts"
| "normal_parts parts (p # ps) =
     (if p = '''' \<or> p = ''.'' then normal_parts parts ps
      else if p = ''..'' then None
      else normal_parts (parts @ [p]) ps)"

definition normalize :: "string \<Rightarrow> layer_error + string option" where
  "normalize path =
     (case normal_parts [] (split_at (CHR ''/'') path) of
        None \<Rightarrow> Inl (DotDotPath path)
      | Some parts \<Rightarrow> Inr (if parts = [] then None else Some (join_with ''/'' parts)))"

definition parent_path :: "string \<Rightarrow> string" where
  "parent_path path = (case rsplit_once (CHR ''/'') path of None \<Rightarrow> [] | Some (p, _) \<Rightarrow> p)"

definition join_path :: "string \<Rightarrow> string \<Rightarrow> string" where
  "join_path dir name = (if dir = [] then name else dir @ ''/'' @ name)"

text \<open>The loop of \<^verbatim>\<open>normalize_lexical\<close>, also run over the parts of a link's target.\<close>

definition lexical_step :: "string \<Rightarrow> string list \<Rightarrow> string list" where
  "lexical_step seg out =
     (if seg = '''' \<or> seg = ''.'' then out else if seg = ''..'' then butlast out else out @ [seg])"

definition lexical_parts :: "string list \<Rightarrow> string list" where
  "lexical_parts segs = fold lexical_step segs []"

definition normalize_lexical :: "string \<Rightarrow> string" where
  "normalize_lexical path = join_with ''/'' (lexical_parts (split_at (CHR ''/'') path))"

section \<open>Entries\<close>

datatype image_node =
  FileNode "byte list option"
| SymlinkNode string
| DirNode
| OtherNode

record image_entry =
  ie_layer :: nat
  ie_node :: image_node

type_synonym image_entries = "(string, image_entry) btree"

text \<open>The keys a removal visits, in the order of the map, and their removal one by one.\<close>

definition remove_keys :: "string list \<Rightarrow> image_entries \<Rightarrow> image_entries" where
  "remove_keys doomed m = fold (bt_remove str_cmp) doomed m"

definition remove_tree :: "string \<Rightarrow> nat \<Rightarrow> image_entries \<Rightarrow> image_entries" where
  "remove_tree path below m =
     remove_keys (map fst (filter (\<lambda>p. ie_layer (snd p) < below)
       (takeWhile (\<lambda>p. fst p = path \<or> starts_with (path @ ''/'') (fst p)) (bt_from str_cmp path m)))) m"

definition remove_children :: "string \<Rightarrow> nat \<Rightarrow> image_entries \<Rightarrow> image_entries" where
  "remove_children dir below m =
     (let prefix = (if dir = [] then [] else dir @ ''/'') in
      remove_keys (map fst (filter (\<lambda>p. ie_layer (snd p) < below \<and> fst p \<noteq> dir)
        (takeWhile (\<lambda>p. starts_with prefix (fst p)) (bt_from str_cmp prefix m)))) m)"

text \<open>One archive entry of a layer.\<close>

definition dir_name :: "string \<Rightarrow> string \<times> string" where
  "dir_name path = (case rsplit_once (CHR ''/'') path of None \<Rightarrow> ([], path) | Some p \<Rightarrow> p)"

definition is_dir_entry :: "image_entry option \<Rightarrow> bool" where
  "is_dir_entry e \<longleftrightarrow> (case e of None \<Rightarrow> False | Some x \<Rightarrow> ie_node x = DirNode)"

definition apply_entry :: "nat \<Rightarrow> string \<Rightarrow> image_node \<Rightarrow> image_entries \<Rightarrow> image_entries" where
  "apply_entry layer path node m =
     (case dir_name path of (dir, name) \<Rightarrow>
        if name = ''.wh..wh..opq'' then remove_children dir layer m
        else (case strip_prefix ''.wh.'' name of
            Some target \<Rightarrow> remove_tree (join_path dir target) layer m
          | None \<Rightarrow>
              let cleared = (if is_dir_entry (bt_get str_cmp path m) \<and> node \<noteq> DirNode
                    then remove_tree path (layer + 1) m else m)
              in bt_insert str_cmp path \<lparr>ie_layer = layer, ie_node = node\<rparr> cleared))"

section \<open>Links\<close>

definition has_children :: "image_entries \<Rightarrow> string \<Rightarrow> bool" where
  "has_children m dir =
     (case bt_from str_cmp (dir @ ''/'') m of [] \<Rightarrow> False | p # _ \<Rightarrow> starts_with (dir @ ''/'') (fst p))"

definition max_link_hops :: nat where
  "max_link_hops = 40"

definition link_parts :: "string \<Rightarrow> string \<Rightarrow> string list" where
  "link_parts current target =
     (let base = (if starts_with ''/'' target then [] else current)
      in lexical_parts (split_at (CHR ''/'') base @ split_at (CHR ''/'') target))"

text \<open>The walk over the parts that are left; \<open>hops\<close> links have been followed.\<close>

function resolve :: "image_entries \<Rightarrow> nat \<Rightarrow> string list \<Rightarrow> string \<Rightarrow> string option" where
  "resolve m hops [] current = Some current"
| "resolve m hops (part # pending) current =
     (let here = join_path current part in
      case map_option ie_node (bt_get str_cmp here m) of
        Some (SymlinkNode target) \<Rightarrow>
          if max_link_hops < Suc hops then None
          else resolve m (Suc hops) (link_parts current target @ pending) []
      | Some _ \<Rightarrow> resolve m hops pending here
      | None \<Rightarrow> if pending \<noteq> [] \<or> has_children m here then resolve m hops pending here else None)"
  by pat_completeness auto
termination resolve
  by (relation "measures [\<lambda>(m, hops, pending, current). Suc max_link_hops - hops,
      \<lambda>(m, hops, pending, current). length pending]") auto

definition canonical :: "image_entries \<Rightarrow> string \<Rightarrow> string option" where
  "canonical m path =
     (case normalize path of
        Inr (Some p) \<Rightarrow> resolve m 0 (split_at (CHR ''/'') p) []
      | _ \<Rightarrow> None)"

section \<open>Questions\<close>

definition fs_read :: "image_entries \<Rightarrow> string \<Rightarrow> byte list option" where
  "fs_read m path =
     Option.bind (canonical m path) (\<lambda>real. Option.bind (bt_get str_cmp real m) (\<lambda>e.
       case ie_node e of FileNode content \<Rightarrow> content | _ \<Rightarrow> None))"

definition fs_exists :: "image_entries \<Rightarrow> string \<Rightarrow> bool" where
  "fs_exists m path \<longleftrightarrow> canonical m path \<noteq> None"

definition is_file_node :: "image_node \<Rightarrow> bool" where
  "is_file_node n \<longleftrightarrow> (case n of FileNode _ \<Rightarrow> True | _ \<Rightarrow> False)"

definition fs_is_file :: "image_entries \<Rightarrow> string \<Rightarrow> bool" where
  "fs_is_file m path \<longleftrightarrow>
     (case Option.bind (canonical m path) (\<lambda>real. bt_get str_cmp real m) of
        None \<Rightarrow> False | Some e \<Rightarrow> is_file_node (ie_node e))"

definition child_name :: "string \<Rightarrow> string \<Rightarrow> string option" where
  "child_name prefix k =
     (case strip_prefix prefix k of
        None \<Rightarrow> None
      | Some rest \<Rightarrow> if rest = [] \<or> CHR ''/'' \<in> set rest then None else Some rest)"

definition list_dir :: "image_entries \<Rightarrow> string \<Rightarrow> string list" where
  "list_dir m dir =
     (case canonical m dir of
        None \<Rightarrow> []
      | Some real \<Rightarrow>
          let prefix = (if real = [] then [] else real @ ''/'') in
          List.map_filter (\<lambda>p. child_name prefix (fst p))
            (takeWhile (\<lambda>p. starts_with prefix (fst p)) (bt_from str_cmp prefix m)))"

definition fs_files :: "image_entries \<Rightarrow> (string \<times> byte list option) list" where
  "fs_files m = List.map_filter (\<lambda>(k, e). case ie_node e of FileNode content \<Rightarrow> Some (k, content) | _ \<Rightarrow> None) m"

definition file_layer :: "image_entries \<Rightarrow> string \<Rightarrow> nat option" where
  "file_layer m path = map_option ie_layer (bt_get str_cmp path m)"


section \<open>The image\<close>

text \<open>How an image was built, as its config describes it.\<close>

record layer_info =
  li_digest :: "string option"
  li_created_by :: "string option"

record image_build =
  ib_layers :: "layer_info list"
  ib_base_layers :: "nat option"
  ib_base_name :: "string option"

text \<open>
  \<^verbatim>\<open>'g\<close> and \<^verbatim>\<open>'r\<close> are what the readers of Go and Rust executables tell.  \<open>if_skipped\<close> are the notes on
  wanted files that could not be kept, each a path, a colon and a reason.
\<close>

record ('g, 'r) image_fs =
  if_entries :: image_entries
  if_layers :: nat
  if_skipped :: "string list"
  if_go :: "(string, nat \<times> 'g) btree"
  if_rust :: "(string, nat \<times> 'r) btree"
  if_build :: image_build
  if_introduced :: "(string \<times> string, nat) btree"
  if_packages_changed :: bool

definition empty_image :: "('g, 'r) image_fs" where
  "empty_image =
     \<lparr>if_entries = [], if_layers = 0, if_skipped = [], if_go = [], if_rust = [],
      if_build = \<lparr>ib_layers = [], ib_base_layers = None, ib_base_name = None\<rparr>, if_introduced = [],
      if_packages_changed = False\<rparr>"

text \<open>A binary is still in the image when its path belongs to the layer that wrote it.\<close>

definition still_there :: "image_entries \<Rightarrow> string \<times> nat \<times> 'b \<Rightarrow> bool" where
  "still_there m b = (case b of (path, layer, _) \<Rightarrow> file_layer m path = Some layer)"

definition go_binaries :: "('g, 'r) image_fs \<Rightarrow> (string \<times> 'g) list" where
  "go_binaries fs = map (\<lambda>(path, _, build). (path, build)) (filter (still_there (if_entries fs)) (if_go fs))"

definition rust_binaries :: "('g, 'r) image_fs \<Rightarrow> (string \<times> 'r) list" where
  "rust_binaries fs = map (\<lambda>(path, _, build). (path, build)) (filter (still_there (if_entries fs)) (if_rust fs))"

definition introduced :: "('g, 'r) image_fs \<Rightarrow> string \<Rightarrow> string \<Rightarrow> nat option" where
  "introduced fs name version = bt_get (cmp_pair str_cmp str_cmp) (name, version) (if_introduced fs)"

text \<open>Whether a path names a Java archive, \<^verbatim>\<open>crates/os/src/jar.rs\<close>.\<close>

definition is_archive :: "string \<Rightarrow> bool" where
  "is_archive path =
     (let name = (case rsplit_once (CHR ''/'') path of None \<Rightarrow> path | Some (_, n) \<Rightarrow> n)
      in list_ex (\<lambda>e. ends_with e name) [''.jar'', ''.war'', ''.ear'', ''.par'', ''.kar'', ''.jpi'', ''.hpi''])"

end
