(* ===== verification/Image_Links.thy ===== *)
theory Image_Links
  imports Image_Fs
begin

text \<open>
  Following links in the merged image: where \<^verbatim>\<open>canonical\<close> ends.  A path is the list of its parts; the
  parts a walk meets have no slash and are not empty, a dot or two dots.
\<close>

definition plain_part :: "string \<Rightarrow> bool" where
  "plain_part p \<longleftrightarrow> p \<noteq> '''' \<and> p \<noteq> ''.'' \<and> p \<noteq> ''..'' \<and> CHR ''/'' \<notin> set p"

abbreviation path_of :: "string list \<Rightarrow> string" where
  "path_of parts \<equiv> join_with ''/'' parts"

lemma join_with_snoc: "parts \<noteq> [] \<Longrightarrow> join_with sep (parts @ [p]) = join_with sep parts @ sep @ p"
  by (induction sep parts rule: join_with.induct) simp_all

lemma path_of_Nil_iff: "list_all plain_part parts \<Longrightarrow> path_of parts = [] \<longleftrightarrow> parts = []"
  by (cases parts; cases "tl parts") (auto simp: plain_part_def)

lemma join_path_snoc:
  assumes "list_all plain_part parts"
  shows "join_path (path_of parts) p = path_of (parts @ [p])"
  using path_of_Nil_iff [OF assms] by (cases "parts = []") (simp_all add: join_path_def join_with_snoc)

lemma split_path_of:
  assumes "list_all plain_part parts" and "parts \<noteq> []"
  shows "split_at (CHR ''/'') (path_of parts) = parts"
  using assms
proof (induction "''/''" parts rule: join_with.induct)
  case (2 w)
  then show ?case by (auto simp: plain_part_def intro!: split_on_none)
next
  case (3 w v vs)
  then have "split_at (CHR ''/'') (w @ CHR ''/'' # path_of (v # vs)) = w # split_at (CHR ''/'') (path_of (v # vs))"
    by (intro split_on_append) (auto simp: plain_part_def)
  then show ?case using 3 by simp
qed simp

lemma split_no_separator: "\<forall>p \<in> set (split_on q s). \<forall>c \<in> set p. \<not> q c"
proof (induction q s rule: split_on.induct)
  case (2 q c cs)
  obtain w ws where "split_on q cs = w # ws" by (cases "split_on q cs") simp_all
  moreover from this have "\<forall>p \<in> set (w # ws). \<forall>c \<in> set p. \<not> q c" using 2 by metis
  ultimately show ?case by simp
qed simp

lemma split_slash_free: "\<forall>p \<in> set (split_at (CHR ''/'') s). CHR ''/'' \<notin> set p"
  using split_no_separator [of "\<lambda>c. c = CHR ''/''" s] by blast

lemma normal_parts_plain:
  "normal_parts parts segs = Some out \<Longrightarrow> list_all plain_part parts \<Longrightarrow> \<forall>p \<in> set segs. CHR ''/'' \<notin> set p \<Longrightarrow>
     list_all plain_part out"
  by (induction parts segs rule: normal_parts.induct) (auto simp: plain_part_def split: if_splits)

lemma normal_parts_id: "list_all plain_part segs \<Longrightarrow> normal_parts parts segs = Some (parts @ segs)"
  by (induction segs arbitrary: parts) (simp_all add: plain_part_def)

lemma lexical_parts_plain: "\<forall>p \<in> set segs. CHR ''/'' \<notin> set p \<Longrightarrow> list_all plain_part (lexical_parts segs)"
proof -
  have "list_all plain_part (fold lexical_step segs out)"
    if "\<forall>p \<in> set segs. CHR ''/'' \<notin> set p" "list_all plain_part out" for out
    using that
  proof (induction segs arbitrary: out)
    case (Cons seg segs)
    have "list_all plain_part (lexical_step seg out)"
      using Cons.prems by (auto simp: lexical_step_def plain_part_def list_all_iff dest: in_set_butlastD)
    then show ?case using Cons by simp
  qed simp
  moreover assume "\<forall>p \<in> set segs. CHR ''/'' \<notin> set p"
  ultimately show ?thesis by (simp add: lexical_parts_def)
qed

lemma link_parts_plain: "list_all plain_part (link_parts current target)"
  unfolding link_parts_def Let_def by (rule lexical_parts_plain) (use split_slash_free in auto)

lemma normalize_plain: "normalize path = Inr (Some p) \<Longrightarrow> \<exists>parts. parts \<noteq> [] \<and> list_all plain_part parts \<and> p = path_of parts"
  using normal_parts_plain [of "[]" "split_at (CHR ''/'') path"] split_slash_free
  by (auto simp: normalize_def split: option.splits if_splits)

lemma normalize_path_of: "list_all plain_part parts \<Longrightarrow> parts \<noteq> [] \<Longrightarrow> normalize (path_of parts) = Inr (Some (path_of parts))"
  by (simp add: normalize_def split_path_of normal_parts_id)

section \<open>Real paths\<close>

definition is_link :: "image_entries \<Rightarrow> string \<Rightarrow> bool" where
  "is_link m p \<longleftrightarrow> (case map_option ie_node (bt_get str_cmp p m) of Some (SymlinkNode _) \<Rightarrow> True | _ \<Rightarrow> False)"

definition present :: "image_entries \<Rightarrow> string \<Rightarrow> bool" where
  "present m p \<longleftrightarrow> bt_get str_cmp p m \<noteq> None \<or> has_children m p"

text \<open>No link at a path or at any directory on the way to it.\<close>

definition link_free :: "image_entries \<Rightarrow> string list \<Rightarrow> bool" where
  "link_free m parts \<longleftrightarrow> (\<forall>k < length parts. \<not> is_link m (path_of (take (Suc k) parts)))"

lemma link_free_snoc: "link_free m (parts @ [p]) \<longleftrightarrow> link_free m parts \<and> \<not> is_link m (path_of (parts @ [p]))"
  by (auto simp: link_free_def less_Suc_eq)

lemma resolve_real:
  assumes "resolve m hops pending current = Some q"
    and "list_all plain_part pending" and "list_all plain_part parts" and "current = path_of parts" and "link_free m parts"
    and "pending = [] \<Longrightarrow> parts = [] \<or> present m current"
  shows "\<exists>parts. q = path_of parts \<and> list_all plain_part parts \<and> link_free m parts \<and> (parts = [] \<or> present m q)"
  using assms
proof (induction m hops pending current arbitrary: parts rule: resolve.induct)
  case (2 m hops part pending current)
  let ?here = "join_path current part"
  have here: "?here = path_of (parts @ [part])" using "2.prems"(3,4) by (simp add: join_path_snoc)
  have plain: "list_all plain_part (parts @ [part])" using "2.prems"(2,3) by simp
  show ?case
  proof (cases "is_link m ?here")
    case True
    then obtain target where t: "map_option ie_node (bt_get str_cmp ?here m) = Some (SymlinkNode target)"
      by (auto simp: is_link_def split: option.splits image_node.splits)
    then have n: "\<not> max_link_hops < Suc hops"
      and r: "resolve m (Suc hops) (link_parts current target @ pending) [] = Some q"
      using "2.prems"(1) by (auto simp: Let_def split: if_splits)
    have "list_all plain_part (link_parts current target @ pending)"
      using "2.prems"(2) link_parts_plain [of current target] by simp
    from "2.IH"(3) [OF refl t refl n r this, of "[]"] show ?thesis by (simp add: link_free_def)
  next
    case False
    have free: "link_free m (parts @ [part])" using False "2.prems"(5) here by (simp add: link_free_snoc)
    have next_step: "resolve m hops pending ?here = Some q" and seen: "pending = [] \<Longrightarrow> present m ?here"
      using "2.prems"(1) False
      by (auto simp: Let_def is_link_def present_def split: option.splits image_node.splits if_splits)
    have rest: "list_all plain_part pending" using "2.prems"(2) by simp
    show ?thesis
    proof (cases "map_option ie_node (bt_get str_cmp ?here m)")
      case None
      then have "pending \<noteq> [] \<or> has_children m ?here" using seen by (auto simp: present_def)
      from "2.IH"(1) [OF refl None this next_step rest plain here free] seen show ?thesis by blast
    next
      case (Some n)
      note step = next_step rest plain here free
      show ?thesis
      proof (cases n)
        case (SymlinkNode target)
        then show ?thesis using False Some by (simp add: is_link_def)
      next
        case (FileNode c)
        from "2.IH"(2) [OF refl Some FileNode step] seen show ?thesis by blast
      next
        case DirNode
        from "2.IH"(4) [OF refl Some DirNode step] seen show ?thesis by blast
      next
        case OtherNode
        from "2.IH"(5) [OF refl Some OtherNode step] seen show ?thesis by blast
      qed
    qed
  qed
qed auto


text \<open>Without links on the way the walk goes straight to the path.\<close>

lemma resolve_free:
  assumes "link_free m (parts @ pending)" and "list_all plain_part (parts @ pending)"
  shows "resolve m hops pending (path_of parts) =
    (if pending = [] \<or> present m (path_of (parts @ pending)) then Some (path_of (parts @ pending)) else None)"
  using assms
proof (induction pending arbitrary: parts)
  case (Cons p pending)
  let ?here = "path_of (parts @ [p])"
  have here: "join_path (path_of parts) p = ?here" using Cons.prems(2) by (simp add: join_path_snoc)
  have "link_free m ((parts @ [p]) @ pending)" using Cons.prems(1) by simp
  then have no_link: "\<not> is_link m ?here"
    unfolding link_free_def by (drule_tac spec [of _ "length parts"]) simp
  have IH: "resolve m hops pending ?here =
      (if pending = [] \<or> present m (path_of (parts @ p # pending)) then Some (path_of (parts @ p # pending)) else None)"
    using Cons.IH [of "parts @ [p]"] Cons.prems by simp
  show ?case
  proof (cases "map_option ie_node (bt_get str_cmp ?here m)")
    case None
    then show ?thesis using IH by (auto simp: here present_def Let_def)
  next
    case (Some n)
    then have "resolve m hops (p # pending) (path_of parts) = resolve m hops pending ?here"
      using no_link by (cases n) (auto simp: here is_link_def Let_def)
    moreover have "pending = [] \<Longrightarrow> present m ?here" using Some by (auto simp: present_def)
    ultimately show ?thesis using IH by auto
  qed
qed simp

lemma canonical_free:
  assumes "link_free m parts" and "list_all plain_part parts" and "parts \<noteq> []"
  shows "canonical m (path_of parts) = (if present m (path_of parts) then Some (path_of parts) else None)"
  using resolve_free [of m "[]" parts 0] assms
  by (simp add: canonical_def normalize_path_of split_path_of)

lemma canonical_real:
  assumes "canonical m path = Some q"
  shows "\<exists>parts. q = path_of parts \<and> list_all plain_part parts \<and> link_free m parts \<and> (parts = [] \<or> present m q)"
proof -
  obtain p where p: "normalize path = Inr (Some p)" and r: "resolve m 0 (split_at (CHR ''/'') p) [] = Some q"
    using assms by (auto simp: canonical_def split: sum.splits option.splits)
  obtain parts where parts: "parts \<noteq> []" "list_all plain_part parts" "p = path_of parts"
    using normalize_plain [OF p] by blast
  then have "resolve m 0 parts (path_of []) = Some q" using r by (simp add: split_path_of)
  from resolve_real [OF this parts(2), of "[]"] show ?thesis by (simp add: link_free_def)
qed

section \<open>The walk as a relation\<close>

text \<open>The names of a path: its segments but the empty ones and the dots.\<close>

definition path_names :: "string \<Rightarrow> string list" where
  "path_names path = filter (\<lambda>s. s \<noteq> '''' \<and> s \<noteq> ''.'') (split_at (CHR ''/'') path)"

text \<open>Where segments lead from a directory, taken as text: up at two dots, and never above the root.\<close>

fun walk_text :: "string list \<Rightarrow> string list \<Rightarrow> string list" where
  "walk_text dir [] = dir"
| "walk_text dir (s # ss) =
     walk_text (if s = '''' \<or> s = ''.'' then dir else if s = ''..'' then butlast dir else dir @ [s]) ss"

text \<open>
  \<open>leads m n dir names goal\<close>: from the directory \<open>dir\<close> the names lead to \<open>goal\<close> over \<open>n\<close> links.  A link is
  replaced by its target, from the root when it starts with a slash and from \<open>dir\<close> otherwise, and the
  walk starts again; a directory on the way need not have an entry, the end must be there.
\<close>

inductive leads :: "image_entries \<Rightarrow> nat \<Rightarrow> string list \<Rightarrow> string list \<Rightarrow> string list \<Rightarrow> bool" for m where
  arrived: "leads m 0 dir [] dir"
| name: "\<not> is_link m (path_of (dir @ [p])) \<Longrightarrow> ps \<noteq> [] \<or> present m (path_of (dir @ [p])) \<Longrightarrow>
     leads m n (dir @ [p]) ps goal \<Longrightarrow> leads m n dir (p # ps) goal"
| link: "map_option ie_node (bt_get str_cmp (path_of (dir @ [p])) m) = Some (SymlinkNode target) \<Longrightarrow>
     leads m n [] (walk_text (if starts_with ''/'' target then [] else dir) (split_at (CHR ''/'') target) @ ps) goal \<Longrightarrow>
     leads m (Suc n) dir (p # ps) goal"

inductive_cases leads_NilE: "leads m n dir [] goal"
inductive_cases leads_ConsE: "leads m n dir (p # ps) goal"

lemma normal_parts_names:
  "normal_parts parts segs =
     (if ''..'' \<in> set segs then None else Some (parts @ filter (\<lambda>s. s \<noteq> '''' \<and> s \<noteq> ''.'') segs))"
  by (induction parts segs rule: normal_parts.induct) auto

lemma walk_text_fold: "walk_text dir segs = fold lexical_step segs dir"
  by (induction dir segs rule: walk_text.induct) (simp_all add: lexical_step_def)

lemma lexical_plain: "list_all plain_part segs \<Longrightarrow> fold lexical_step segs out = out @ segs"
  by (induction segs arbitrary: out) (simp_all add: lexical_step_def plain_part_def)

lemma link_parts_walk:
  assumes "list_all plain_part dir"
  shows "link_parts (path_of dir) target =
    walk_text (if starts_with ''/'' target then [] else dir) (split_at (CHR ''/'') target)"
proof -
  have "fold lexical_step (split_at (CHR ''/'') (path_of dir)) [] = dir"
  proof (cases "dir = []")
    case False
    then show ?thesis using assms by (simp add: split_path_of lexical_plain)
  qed (simp add: lexical_step_def)
  moreover have "fold lexical_step (split_at (CHR ''/'') []) [] = []" by (simp add: lexical_step_def)
  ultimately show ?thesis by (simp add: link_parts_def lexical_parts_def walk_text_fold)
qed

lemma is_link_iff: "is_link m p \<longleftrightarrow> (\<exists>target. map_option ie_node (bt_get str_cmp p m) = Some (SymlinkNode target))"
  by (auto simp: is_link_def split: option.split image_node.split)

lemma leads_link_iff:
  assumes "map_option ie_node (bt_get str_cmp (path_of (dir @ [p])) m) = Some (SymlinkNode target)"
  shows "leads m n dir (p # ps) goal \<longleftrightarrow>
    (\<exists>k. n = Suc k \<and> leads m k [] (walk_text (if starts_with ''/'' target then [] else dir) (split_at (CHR ''/'') target) @ ps) goal)"
proof
  have "is_link m (path_of (dir @ [p]))" unfolding is_link_iff using assms by blast
  then show "leads m n dir (p # ps) goal \<Longrightarrow>
    \<exists>k. n = Suc k \<and> leads m k [] (walk_text (if starts_with ''/'' target then [] else dir) (split_at (CHR ''/'') target) @ ps) goal"
    using assms by (elim leads_ConsE) auto
qed (use leads.link [OF assms] in blast)

lemma leads_name_iff:
  assumes "\<not> is_link m (path_of (dir @ [p]))"
  shows "leads m n dir (p # ps) goal \<longleftrightarrow>
    (ps \<noteq> [] \<or> present m (path_of (dir @ [p]))) \<and> leads m n (dir @ [p]) ps goal"
proof
  show "leads m n dir (p # ps) goal \<Longrightarrow> (ps \<noteq> [] \<or> present m (path_of (dir @ [p]))) \<and> leads m n (dir @ [p]) ps goal"
    using assms by (elim leads_ConsE) (auto simp: is_link_iff)
qed (use leads.name [OF assms] in blast)

lemma leads_Nil_iff: "leads m n dir [] goal \<longleftrightarrow> n = 0 \<and> goal = dir"
  by (auto elim: leads_NilE intro: leads.arrived)

text \<open>The walk of the code is the relation, cut off after 40 links.\<close>

lemma resolve_leads:
  assumes "resolve m hops pending current = answer" and "current = path_of dir" and "list_all plain_part dir"
    and "list_all plain_part pending" and "hops \<le> 40"
  shows "answer = Some q \<longleftrightarrow> (\<exists>n goal. hops + n \<le> 40 \<and> leads m n dir pending goal \<and> q = path_of goal)"
  using assms
proof (induction m hops pending current arbitrary: dir rule: resolve.induct)
  case (1 m hops current)
  then show ?case by (auto simp: leads_Nil_iff)
next
  case (2 m hops part pending current)
  let ?here = "path_of (dir @ [part])"
  have here: "join_path current part = ?here" using "2.prems"(2,3) by (simp add: join_path_snoc)
  have plain: "list_all plain_part (dir @ [part])" "list_all plain_part pending" using "2.prems" by simp_all
  show ?case
  proof (cases "is_link m ?here")
    case True
    then obtain target where t: "map_option ie_node (bt_get str_cmp ?here m) = Some (SymlinkNode target)"
      unfolding is_link_iff by blast
    let ?rest = "walk_text (if starts_with ''/'' target then [] else dir) (split_at (CHR ''/'') target) @ pending"
    have rest: "link_parts current target @ pending = ?rest" using link_parts_walk [OF "2.prems"(3)] "2.prems"(2) by simp
    then have "list_all plain_part ?rest" using link_parts_plain [of current target] plain(2) by (metis list_all_append)
    show ?thesis
    proof (cases "max_link_hops < Suc hops")
      case True
      then have "answer = None" using "2.prems"(1) t by (auto simp: here Let_def)
      then show ?thesis unfolding leads_link_iff [OF t] using True by (auto simp: max_link_hops_def)
    next
      case False
      then have r: "resolve m (Suc hops) (link_parts current target @ pending) [] = answer"
        using "2.prems"(1) t by (auto simp: here Let_def)
      have "answer = Some q \<longleftrightarrow> (\<exists>n goal. Suc hops + n \<le> 40 \<and> leads m n [] ?rest goal \<and> q = path_of goal)"
        using "2.IH"(3) [OF refl t [folded here] refl False r, of "[]"] \<open>list_all plain_part ?rest\<close> False
        by (simp add: rest max_link_hops_def)
      then show ?thesis unfolding leads_link_iff [OF t] by (metis add_Suc_right add_Suc)
    qed
  next
    case False
    note spec = leads_name_iff [OF False]
    have next_step: "answer = Some q \<longleftrightarrow> (\<exists>n goal. hops + n \<le> 40 \<and> leads m n (dir @ [part]) pending goal \<and> q = path_of goal)"
      if seen: "pending \<noteq> [] \<or> present m ?here"
    proof (cases "map_option ie_node (bt_get str_cmp ?here m)")
      case None
      then have c: "pending \<noteq> [] \<or> has_children m (join_path current part)" using seen by (auto simp: present_def here)
      then have "resolve m hops pending (join_path current part) = answer" using "2.prems"(1) None by (auto simp: here)
      from "2.IH"(1) [OF refl None [folded here] c this here plain "2.prems"(5)] show ?thesis .
    next
      case (Some node)
      then have r: "resolve m hops pending (join_path current part) = answer"
        using "2.prems"(1) False by (cases node) (auto simp: here is_link_iff)
      show ?thesis
      proof (cases node)
        case (SymlinkNode target)
        then show ?thesis using False Some by (auto simp: is_link_iff)
      next
        case (FileNode content)
        from "2.IH"(2) [OF refl Some [folded here] FileNode r here plain "2.prems"(5)] show ?thesis .
      next
        case DirNode
        from "2.IH"(4) [OF refl Some [folded here] DirNode r here plain "2.prems"(5)] show ?thesis .
      next
        case OtherNode
        from "2.IH"(5) [OF refl Some [folded here] OtherNode r here plain "2.prems"(5)] show ?thesis .
      qed
    qed
    show ?thesis
    proof (cases "pending \<noteq> [] \<or> present m ?here")
      case True
      then show ?thesis using next_step unfolding spec by simp
    next
      case absent: False
      then have "bt_get str_cmp ?here m = None" "\<not> has_children m ?here" "pending = []" by (simp_all add: present_def)
      then have "answer = None" using "2.prems"(1) by (simp add: here)
      then show ?thesis unfolding spec using absent by simp
    qed
  qed
qed

lemma canonical_leads:
  "canonical m path = Some q \<longleftrightarrow>
     ''..'' \<notin> set (split_at (CHR ''/'') path) \<and> path_names path \<noteq> [] \<and>
     (\<exists>n goal. n \<le> 40 \<and> leads m n [] (path_names path) goal \<and> q = path_of goal)"
proof (cases "''..'' \<in> set (split_at (CHR ''/'') path) \<or> path_names path = []")
  case True
  then show ?thesis by (auto simp: canonical_def normalize_def normal_parts_names path_names_def)
next
  case False
  then have n: "normalize path = Inr (Some (path_of (path_names path)))"
    by (simp add: normalize_def normal_parts_names path_names_def)
  have plain: "list_all plain_part (path_names path)"
    using False split_slash_free [of path] by (auto simp: path_names_def plain_part_def list_all_iff)
  have "canonical m path = resolve m 0 (path_names path) []"
    using False plain by (simp add: canonical_def n split_path_of)
  then show ?thesis using resolve_leads [where m = m and hops = 0 and current = "[]" and dir = "[]" and q = q, OF refl _ _ plain] False by simp
qed

text \<open>A walk has one end and one number of links.\<close>

lemma leads_once: "leads m n dir ps goal \<Longrightarrow> leads m n' dir ps goal' \<Longrightarrow> n' = n \<and> goal' = goal"
proof (induction arbitrary: n' goal' rule: leads.induct)
  case (arrived dir)
  then show ?case by (simp add: leads_Nil_iff)
next
  case (name dir p ps n goal)
  then show ?case unfolding leads_name_iff [OF name.hyps(1)] by blast
next
  case (link dir p target n ps goal)
  then show ?case unfolding leads_link_iff [OF link.hyps(1)] by blast
qed

text \<open>C22: Looking a path up ends, and finds exactly what following its names finds, over at most 40 links:
  a link is replaced by its target, taken as text from the root or from the directory the link is
  in, and the walk starts again; over more links, or where nothing is, the answer is none.  Where it
  ends is real: every part is a plain name, no directory on the way and not the end itself is a
  link, something is there, and looking the result up again gives the same, so that reading the
  file reads it.\<close>
theorem canonical_real_path:
  "(canonical m path = Some q \<longleftrightarrow>
      ''..'' \<notin> set (split_at (CHR ''/'') path) \<and> path_names path \<noteq> [] \<and>
      (\<exists>n goal. n \<le> 40 \<and> leads m n [] (path_names path) goal \<and> q = path_of goal)) \<and>
   (\<forall>n goal. leads m n [] (path_names path) goal \<longrightarrow> 40 < n \<longrightarrow> canonical m path = None) \<and>
   (canonical m path = Some q \<longrightarrow>
      (\<exists>parts. q = path_of parts \<and> list_all plain_part parts \<and> link_free m parts \<and>
        (parts = [] \<or> present m q \<and> canonical m q = Some q \<and> fs_read m q = fs_read m path))) \<and>
   (list_all plain_part parts \<longrightarrow> parts \<noteq> [] \<longrightarrow> link_free m parts \<longrightarrow>
      canonical m (path_of parts) = (if present m (path_of parts) then Some (path_of parts) else None))"
proof (intro conjI allI impI)
  show "canonical m path = None" if "leads m n [] (path_names path) goal" "40 < n" for n goal
  proof (rule ccontr)
    assume "canonical m path \<noteq> None"
    then obtain q' n' goal' where "n' \<le> 40" "leads m n' [] (path_names path) goal'"
      using canonical_leads [of m path] by blast
    then show False using leads_once [OF that(1)] that(2) by fastforce
  qed
next
  assume q: "canonical m path = Some q"
  then obtain parts where parts: "q = path_of parts" "list_all plain_part parts" "link_free m parts" "parts = [] \<or> present m q"
    using canonical_real by blast
  then have "parts \<noteq> [] \<Longrightarrow> canonical m q = Some q" using canonical_free [of m parts] by simp
  then show "\<exists>parts. q = path_of parts \<and> list_all plain_part parts \<and> link_free m parts \<and>
        (parts = [] \<or> present m q \<and> canonical m q = Some q \<and> fs_read m q = fs_read m path)"
    using parts q by (intro exI [of _ parts]) (auto simp: fs_read_def)
qed (rule canonical_leads, rule canonical_free)

text \<open>An image in which \<^verbatim>\<open>etc/os-release\<close> is a link to \<^verbatim>\<open>../usr/lib/os-release\<close>, and two links form a ring.\<close>

definition linked_image :: image_entries where
  "linked_image =
     [(''a'', \<lparr>ie_layer = 0, ie_node = SymlinkNode ''b''\<rparr>),
      (''b'', \<lparr>ie_layer = 0, ie_node = SymlinkNode ''/a''\<rparr>),
      (''etc'', \<lparr>ie_layer = 0, ie_node = DirNode\<rparr>),
      (''etc/os-release'', \<lparr>ie_layer = 0, ie_node = SymlinkNode ''../usr/lib/os-release''\<rparr>),
      (''usr/lib/os-release'', \<lparr>ie_layer = 0, ie_node = FileNode (Some [1, 2])\<rparr>)]"

lemma linked_release: "canonical linked_image ''/etc/os-release'' = Some ''usr/lib/os-release''" "canonical linked_image ''a/x'' = None"
  by code_simp+

lemma linked_walk: "leads linked_image 1 [] [''etc'', ''os-release''] [''usr'', ''lib'', ''os-release'']"
proof -
  have target: "walk_text [''etc''] (split_at (CHR ''/'') ''../usr/lib/os-release'') = [''usr'', ''lib'', ''os-release'']"
    and relative: "\<not> starts_with ''/'' ''../usr/lib/os-release''"
    and free: "\<not> is_link linked_image (path_of ([] @ [''etc'']))" "\<not> is_link linked_image (path_of ([] @ [''usr'']))"
      "\<not> is_link linked_image (path_of ([''usr''] @ [''lib'']))" "\<not> is_link linked_image (path_of ([''usr'', ''lib''] @ [''os-release'']))"
    and here: "present linked_image (path_of ([''usr'', ''lib''] @ [''os-release'']))"
    and link: "map_option ie_node (bt_get str_cmp (path_of ([''etc''] @ [''os-release''])) linked_image) =
      Some (SymlinkNode ''../usr/lib/os-release'')"
    by code_simp+
  have "leads linked_image 0 [''usr'', ''lib''] [''os-release''] [''usr'', ''lib'', ''os-release'']"
    by (rule leads.name [OF free(4) disjI2 [OF here]]) (simp add: leads_Nil_iff)
  then have "leads linked_image 0 [''usr''] [''lib'', ''os-release''] [''usr'', ''lib'', ''os-release'']"
    by (intro leads.name [OF free(3)]) simp_all
  then have "leads linked_image 0 [] [''usr'', ''lib'', ''os-release''] [''usr'', ''lib'', ''os-release'']"
    by (intro leads.name [OF free(2)]) simp_all
  then have "leads linked_image (Suc 0) [''etc''] [''os-release''] [''usr'', ''lib'', ''os-release'']"
    by (intro leads.link [OF link]) (simp only: relative target if_False append.simps append_Nil2 append_Nil)
  then have "leads linked_image (Suc 0) [] [''etc'', ''os-release''] [''usr'', ''lib'', ''os-release'']"
    by (intro leads.name [OF free(1)]) simp_all
  then show ?thesis by simp
qed

theorem canonical_real_path_witness:
  "fs_read linked_image ''/etc/os-release'' = fs_read linked_image ''usr/lib/os-release'' \<and>
   (\<exists>n \<le> 40. leads linked_image n [] [''etc'', ''os-release''] [''usr'', ''lib'', ''os-release''])"
proof -
  have names: "path_names ''/etc/os-release'' = [''etc'', ''os-release'']" by code_simp
  note all = canonical_real_path [of linked_image "''/etc/os-release''" "''usr/lib/os-release''" "[]"]
  obtain n goal where walk: "n \<le> 40" "leads linked_image n [] [''etc'', ''os-release''] goal"
    using all linked_release(1) unfolding names by blast
  then have "goal = [''usr'', ''lib'', ''os-release'']" using leads_once [OF linked_walk] by blast
  then have "\<exists>n \<le> 40. leads linked_image n [] [''etc'', ''os-release''] [''usr'', ''lib'', ''os-release'']"
    using walk by blast
  moreover have "fs_read linked_image ''/etc/os-release'' = fs_read linked_image ''usr/lib/os-release''"
    using all linked_release(1) by (auto simp: join_with.simps)
  ultimately show ?thesis by blast
qed

section \<open>Directories\<close>

text \<open>What \<^verbatim>\<open>list_dir\<close> names is in the directory and has no slash.\<close>

lemma list_dir_child:
  assumes "name \<in> set (list_dir m dir)"
  shows "CHR ''/'' \<notin> set name \<and> name \<noteq> [] \<and>
    (\<exists>real. canonical m dir = Some real \<and> (real = [] \<and> name \<in> fst ` set m \<or> real @ ''/'' @ name \<in> fst ` set m))"
proof -
  obtain real where real: "canonical m dir = Some real" using assms by (cases "canonical m dir") (simp_all add: list_dir_def)
  let ?pre = "if real = [] then [] else real @ ''/''"
  obtain p where "p \<in> set (takeWhile (\<lambda>p. starts_with ?pre (fst p)) (bt_from str_cmp ?pre m))" and name: "child_name ?pre (fst p) = Some name"
    using assms real by (auto simp: list_dir_def Let_def set_map_filter)
  then have "p \<in> set m" unfolding bt_from_def by (meson set_dropWhileD set_takeWhileD)
  then show ?thesis using name real by (auto simp: child_name_def strip_prefix_Some image_iff split: option.splits if_splits intro!: bexI [of _ p])
qed

end
