(* ===== verification/Tar.thy ===== *)
theory Tar
  imports Image_Fs
begin

text \<open>
  The tar reader, \<^verbatim>\<open>crates/os/src/tar.rs\<close>: ustar and GNU headers, GNU long names and PAX headers.  The
  source is the list of bytes still to be read and what reading says after them: the end, or the
  failure of a decompressor.  \<^verbatim>\<open>Source::skip\<close> reads past what it skips; a file skips by a seek, which
  may go past its end.  A sum of sizes that leaves 64 bits is a panic, \<open>None\<close>.
\<close>

section \<open>Headers\<close>

datatype tar_kind = TarFile | TarHardlink string | TarSymlink string | TarDir | TarOther

record tar_entry =
  te_path :: string
  te_kind :: tar_kind
  te_size :: nat
  te_mode :: "32 word"

definition tar_field :: "byte list \<Rightarrow> nat \<Rightarrow> nat \<Rightarrow> byte list" where
  "tar_field block start len =
     (let f = (case get_range block start (start + len) of None \<Rightarrow> [] | Some r \<Rightarrow> r)
      in takeWhile (\<lambda>b. b \<noteq> 0) f)"

text \<open>A base-256 number; the high bit of its first byte is the mark.\<close>

fun base_256 :: "nat \<Rightarrow> byte list \<Rightarrow> layer_error + nat" where
  "base_256 v [] = Inr v"
| "base_256 v (b # bs) =
     (case Option.bind (checked_mul v 256) (\<lambda>v. checked_add v (unat b)) of
        None \<Rightarrow> Inl TarNumberTooLarge
      | Some v' \<Rightarrow> base_256 v' bs)"

text \<open>\<^verbatim>\<open>u64::from_str_radix\<close> at radix 8, which takes one leading plus sign.\<close>

definition is_octal_digit :: "char \<Rightarrow> bool" where
  "is_octal_digit c \<longleftrightarrow> 48 \<le> byte c \<and> byte c \<le> 55"

definition octal_val :: "string \<Rightarrow> nat" where
  "octal_val s = foldl (\<lambda>n c. n * 8 + digit_val c) 0 s"

definition parse_octal :: "string \<Rightarrow> nat option" where
  "parse_octal s =
     (let ds = (case s of [] \<Rightarrow> [] | c # cs \<Rightarrow> if c = CHR ''+'' then cs else s) in
      if ds \<noteq> [] \<and> list_all is_octal_digit ds \<and> octal_val ds < 2 ^ 64 then Some (octal_val ds) else None)"

definition trim_zeros :: "string \<Rightarrow> string" where
  "trim_zeros s =
     (let p = (\<lambda>c. c = char_of (0 :: nat) \<or> c = CHR '' '') in drop_last_while p (dropWhile p s))"

definition tar_number :: "byte list \<Rightarrow> nat \<Rightarrow> nat \<Rightarrow> layer_error + nat" where
  "tar_number block start len =
     (let f = (case get_range block start (start + len) of None \<Rightarrow> [] | Some r \<Rightarrow> r) in
      if f \<noteq> [] \<and> 0x80 \<le> unat (hd f) then base_256 0 (of_nat (unat (hd f) - 0x80) # tl f)
      else
        let text = trim_zeros (from_utf8_lossy f) in
        if text = [] then Inr 0
        else (case parse_octal text of Some n \<Rightarrow> Inr n | None \<Rightarrow> Inl (TarBadNumber text)))"

definition byte_sum :: "byte list \<Rightarrow> nat" where
  "byte_sum block = sum_list (map (\<lambda>(i, b). if 148 \<le> i \<and> i < 156 then 32 else unat b) (enumerate 0 block))"

definition checksum_ok :: "byte list \<Rightarrow> layer_error + bool" where
  "checksum_ok block = and_then (tar_number block 148 8) (\<lambda>stored. Inr (stored = byte_sum block))"

section \<open>PAX records\<close>

record tar_overrides =
  to_name :: "string option"
  to_link :: "string option"
  to_size :: "nat option"

definition no_overrides :: tar_overrides where
  "no_overrides = \<lparr>to_name = None, to_link = None, to_size = None\<rparr>"

definition raw_text :: "byte list \<Rightarrow> string" where
  "raw_text bs = map (\<lambda>b. char_of (unat b)) bs"

definition pax_record :: "byte list \<Rightarrow> tar_overrides \<Rightarrow> tar_overrides" where
  "pax_record record' ov =
     (let r = (if record' \<noteq> [] \<and> last record' = 10 then butlast record' else record') in
      case dropWhile (\<lambda>b. b \<noteq> 61) r of
        [] \<Rightarrow> ov
      | _ # rest \<Rightarrow>
          let key = raw_text (takeWhile (\<lambda>b. b \<noteq> 61) r); value = from_utf8_lossy rest in
          if key = ''path'' then ov\<lparr>to_name := Some value\<rparr>
          else if key = ''linkpath'' then ov\<lparr>to_link := Some value\<rparr>
          else if key = ''size'' then ov\<lparr>to_size := parse_uint 64 value\<rparr>
          else ov)"

definition pax_length :: "byte list \<Rightarrow> nat option" where
  "pax_length digits = (if valid_utf8 (raw_text digits) then parse_uint 64 (raw_text digits) else None)"

text \<open>The records one after another; one that cannot be read ends the header.\<close>

function pax :: "byte list \<Rightarrow> tar_overrides \<Rightarrow> tar_overrides" where
  "pax rest ov =
     (let sp = length (takeWhile (\<lambda>b. b \<noteq> 32) rest) in
      if sp = length rest then ov
      else (case pax_length (take sp rest) of
          None \<Rightarrow> ov
        | Some len \<Rightarrow>
            (case get_range rest (sp + 1) len of
               None \<Rightarrow> ov
             | Some r \<Rightarrow> pax (drop len rest) (pax_record r ov))))"
  by pat_completeness auto
termination pax
  by (relation "measure (\<lambda>(rest, ov). length rest)") (auto simp: get_range_def split: if_splits)

declare pax.simps [simp del]

section \<open>The reader\<close>

record tar_reader =
  tr_src :: "byte list"
  tr_failure :: "string option"
  tr_seeks :: bool
  tr_remaining :: nat
  tr_padding :: nat
  tr_pos :: nat

definition tar_start :: "byte list \<Rightarrow> string option \<Rightarrow> bool \<Rightarrow> tar_reader" where
  "tar_start src failure seeks =
     \<lparr>tr_src = src, tr_failure = failure, tr_seeks = seeks, tr_remaining = 0, tr_padding = 0, tr_pos = 0\<rparr>"

definition short_read :: "tar_reader \<Rightarrow> layer_error \<Rightarrow> layer_error" where
  "short_read r e = (case tr_failure r of None \<Rightarrow> e | Some f \<Rightarrow> SourceFailed f)"

type_synonym 'a tar_run = "(layer_error, 'a) run"

text \<open>A block, or none where the source has ended.\<close>

definition read_block :: "tar_reader \<Rightarrow> (byte list option \<times> tar_reader) tar_run" where
  "read_block r =
     (if tr_src r = [] \<and> tr_failure r = None then Some (Inr (None, r))
      else if length (tr_src r) < 512 then Some (Inl (short_read r TarEndsInHeader))
      else run_bind (usize_add (tr_pos r) 512) (\<lambda>pos.
        Some (Inr (Some (take 512 (tr_src r)), r\<lparr>tr_src := drop 512 (tr_src r), tr_pos := pos\<rparr>))))"

definition skip_bytes :: "nat \<Rightarrow> tar_reader \<Rightarrow> tar_reader tar_run" where
  "skip_bytes n r =
     (if tr_seeks r then
        (if tr_pos r + n < 2 ^ 63 then Some (Inr (r\<lparr>tr_src := drop n (tr_src r)\<rparr>)) else Some (Inl SeekTooFar))
      else if length (tr_src r) < n then Some (Inl (short_read r TarEndsInEntry))
      else Some (Inr (r\<lparr>tr_src := drop n (tr_src r)\<rparr>)))"

definition finish_entry :: "tar_reader \<Rightarrow> tar_reader tar_run" where
  "finish_entry r =
     run_bind (usize_add (tr_remaining r) (tr_padding r)) (\<lambda>n.
       run_bind
         (if 0 < n then
            run_bind (skip_bytes n r) (\<lambda>r. run_bind (usize_add (tr_pos r) n) (\<lambda>pos. Some (Inr (r\<lparr>tr_pos := pos\<rparr>))))
          else Some (Inr r))
         (\<lambda>r. Some (Inr (r\<lparr>tr_remaining := 0, tr_padding := 0\<rparr>))))"

definition read_data :: "nat \<Rightarrow> tar_reader \<Rightarrow> (byte list \<times> tar_reader) tar_run" where
  "read_data limit r =
     (let n = min (tr_remaining r) limit in
      if length (tr_src r) < n then Some (Inl (short_read r TarEndsInEntry))
      else run_bind (usize_add (tr_pos r) n) (\<lambda>pos.
        Some (Inr (take n (tr_src r),
          r\<lparr>tr_src := drop n (tr_src r), tr_remaining := tr_remaining r - n, tr_pos := pos\<rparr>))))"

definition tar_padding :: "nat \<Rightarrow> nat" where
  "tar_padding n = (512 - n mod 512) mod 512"

definition max_meta :: nat where
  "max_meta = 2 ^ 20"

definition read_meta :: "nat \<Rightarrow> tar_reader \<Rightarrow> (byte list \<times> tar_reader) tar_run" where
  "read_meta n r =
     (if max_meta < n then Some (Inl TarMetaTooLarge)
      else run_bind (read_data n (r\<lparr>tr_remaining := n, tr_padding := tar_padding n\<rparr>)) (\<lambda>(data, r).
        run_bind (finish_entry r) (\<lambda>r. Some (Inr (data, r)))))"

text \<open>The path, kind and size of an ordinary header, and its data left to be read.\<close>

definition tar_path :: "byte list \<Rightarrow> string option \<Rightarrow> string" where
  "tar_path block long_name =
     (case long_name of
        Some name \<Rightarrow> name
      | None \<Rightarrow>
          let name = from_utf8_lossy (tar_field block 0 100);
              prefix = (if starts_with ''ustar'' (raw_text (tar_field block 257 6))
                        then from_utf8_lossy (tar_field block 345 155) else [])
          in if prefix = [] then name else prefix @ ''/'' @ name)"

definition tar_kind_of :: "byte \<Rightarrow> string \<Rightarrow> string \<Rightarrow> tar_kind" where
  "tar_kind_of flag path link =
     (if flag = 48 \<or> flag = 0 \<or> flag = 55 then (if ends_with ''/'' path then TarDir else TarFile)
      else if flag = 49 then TarHardlink link
      else if flag = 50 then TarSymlink link
      else if flag = 53 then TarDir
      else TarOther)"

definition tar_mode :: "byte list \<Rightarrow> 32 word" where
  "tar_mode block =
     (case tar_number block 100 8 of Inl _ \<Rightarrow> 0 | Inr n \<Rightarrow> if n < 2 ^ 32 then of_nat n else 0)"

definition make_entry :: "byte list \<Rightarrow> byte \<Rightarrow> nat \<Rightarrow> tar_overrides \<Rightarrow> tar_entry" where
  "make_entry block flag n ov =
     (let path = tar_path block (to_name ov);
          link = (case to_link ov of Some l \<Rightarrow> l | None \<Rightarrow> from_utf8_lossy (tar_field block 157 100))
      in \<lparr>te_path = path, te_kind = tar_kind_of flag path link,
          te_size = (case to_size ov of Some s \<Rightarrow> s | None \<Rightarrow> n), te_mode = tar_mode block\<rparr>)"

definition entry_data :: "tar_entry \<Rightarrow> nat" where
  "entry_data e = (if te_kind e = TarFile \<or> te_kind e = TarOther then te_size e else 0)"

definition open_entry :: "tar_entry \<Rightarrow> tar_reader \<Rightarrow> tar_reader" where
  "open_entry e r = r\<lparr>tr_remaining := entry_data e, tr_padding := tar_padding (entry_data e)\<rparr>"

text \<open>One header: the end of the archive, a header about the next entry, or the entry.\<close>

datatype tar_step = TarEnd tar_reader | TarMeta tar_reader tar_overrides | TarFound tar_entry tar_reader

definition meta_header :: "byte \<Rightarrow> byte list \<Rightarrow> tar_overrides \<Rightarrow> tar_overrides" where
  "meta_header flag data ov =
     (if flag = 76 then ov\<lparr>to_name := Some (from_utf8_lossy (tar_field data 0 (length data)))\<rparr>
      else if flag = 75 then ov\<lparr>to_link := Some (from_utf8_lossy (tar_field data 0 (length data)))\<rparr>
      else if flag = 120 then pax data ov
      else ov)"

definition read_header :: "tar_reader \<Rightarrow> tar_overrides \<Rightarrow> tar_step tar_run" where
  "read_header r ov =
     run_bind (read_block r) (\<lambda>(found, r).
       case found of
         None \<Rightarrow> Some (Inr (TarEnd r))
       | Some block \<Rightarrow>
           if list_all (\<lambda>b. b = 0) block then Some (Inr (TarEnd r))
           else run_bind (Some (checksum_ok block)) (\<lambda>good.
             if \<not> good then Some (Inl TarChecksumMismatch)
             else run_bind (Some (tar_number block 124 12)) (\<lambda>n.
               let flag = block ! 156 in
               if flag \<in> {76, 75, 120, 103} then
                 run_bind (read_meta n r) (\<lambda>(data, r). Some (Inr (TarMeta r (meta_header flag data ov))))
               else
                 let e = make_entry block flag n ov in Some (Inr (TarFound e (open_entry e r))))))"

lemma read_block_shorter:
  "read_block r = Some (Inr (Some block, r')) \<Longrightarrow> length (tr_src r') < length (tr_src r)"
  by (auto simp: read_block_def run_bind_Inr split: if_splits)

lemma finish_entry_shorter: "finish_entry r = Some (Inr r') \<Longrightarrow> length (tr_src r') \<le> length (tr_src r)"
  by (auto simp: finish_entry_def skip_bytes_def run_bind_Inr split: if_splits)

lemma read_data_shorter: "read_data n r = Some (Inr (data, r')) \<Longrightarrow> length (tr_src r') \<le> length (tr_src r)"
  by (auto simp: read_data_def run_bind_Inr Let_def split: if_splits)

lemma read_meta_shorter: "read_meta n r = Some (Inr (data, r')) \<Longrightarrow> length (tr_src r') \<le> length (tr_src r)"
  by (auto simp: read_meta_def run_bind_Inr split: if_splits dest!: finish_entry_shorter read_data_shorter)

lemma read_header_shorter:
  assumes "read_header r ov = Some (Inr (TarMeta r' ov'))"
  shows "length (tr_src r') < length (tr_src r)"
proof -
  obtain block r1 n data where "read_block r = Some (Inr (Some block, r1))" "read_meta n r1 = Some (Inr (data, r'))"
    using assms by (auto simp: read_header_def run_bind_Inr Let_def split: option.splits if_splits prod.splits)
  then show ?thesis using read_block_shorter read_meta_shorter by fastforce
qed

function read_headers :: "tar_reader \<Rightarrow> tar_overrides \<Rightarrow> (tar_entry option \<times> tar_reader) tar_run" where
  "read_headers r ov =
     run_bind (read_header r ov) (\<lambda>step.
       case step of
         TarEnd r' \<Rightarrow> Some (Inr (None, r'))
       | TarMeta r' ov' \<Rightarrow> read_headers r' ov'
       | TarFound e r' \<Rightarrow> Some (Inr (Some e, r')))"
  by pat_completeness auto
termination read_headers
  by (relation "measure (\<lambda>(r, ov). length (tr_src r))") (auto dest: read_header_shorter)

declare read_headers.simps [simp del]

definition next_entry :: "tar_reader \<Rightarrow> (tar_entry option \<times> tar_reader) tar_run" where
  "next_entry r = run_bind (finish_entry r) (\<lambda>r. read_headers r no_overrides)"

lemma read_header_found_shorter:
  assumes "read_header r ov = Some (Inr (TarFound e r'))"
  shows "length (tr_src r') < length (tr_src r)"
proof -
  obtain block r1 where "read_block r = Some (Inr (Some block, r1))" "tr_src r' = tr_src r1"
    using assms by (auto simp: read_header_def run_bind_Inr Let_def open_entry_def split: option.splits if_splits prod.splits)
  then show ?thesis using read_block_shorter by fastforce
qed

lemma read_headers_shorter:
  "read_headers r ov = Some (Inr (Some e, r')) \<Longrightarrow> length (tr_src r') < length (tr_src r)"
proof (induction r ov rule: read_headers.induct)
  case (1 r ov)
  then obtain step where "read_header r ov = Some (Inr step)"
    by (subst (asm) (2) read_headers.simps) (auto simp: run_bind_Inr)
  then show ?case
    using 1 by (subst (asm) (2) read_headers.simps)
      (auto split: tar_step.splits dest: read_header_shorter read_header_found_shorter intro: less_trans)
qed

lemma next_entry_shorter:
  "next_entry r = Some (Inr (Some e, r')) \<Longrightarrow> length (tr_src r') < length (tr_src r)"
  by (auto simp: next_entry_def run_bind_Inr dest!: finish_entry_shorter read_headers_shorter)

end
