(* ===== verification/Os_Packages.thy ===== *)
theory Os_Packages
  imports Image_Fs Distro_Scan Rpm_Db
begin

text \<open>
  The package databases of an image, \<^verbatim>\<open>crates/os/src/packages.rs\<close>: dpkg's, apk's and rpm's, and the
  inventory Bottlerocket ships.  A parser that runs over the lines of a file is a step over the
  state of its loop; what makes an inventory incomplete is a datatype with one constructor per message.
\<close>

section \<open>dpkg\<close>

definition dpkg_present :: "string list" where
  "dpkg_present =
     [''installed'', ''half-installed'', ''unpacked'', ''half-configured'', ''triggers-awaiting'', ''triggers-pending'']"

type_synonym stanza = "(string \<times> string) list"

definition tab_char :: char where
  "tab_char = char_of (9 :: nat)"

text \<open>A continuation line is joined to the last field, if there is one.\<close>

definition continue_field :: "string \<Rightarrow> stanza \<Rightarrow> stanza" where
  "continue_field text cur =
     (if cur = [] then []
      else butlast cur @ [(fst (last cur), snd (last cur) @ newline @ text)])"

definition stanza_line :: "string \<Rightarrow> stanza list \<times> stanza \<Rightarrow> stanza list \<times> stanza" where
  "stanza_line line st =
     (case st of (out, cur) \<Rightarrow>
        if trim line = [] then (if cur \<noteq> [] then (out @ [cur], []) else (out, cur))
        else if hd line = CHR '' '' \<or> hd line = tab_char then (out, continue_field (trim line) cur)
        else (case split_once (CHR '':'') line of
            Some (k, v) \<Rightarrow> (out, cur @ [(trim k, trim v)])
          | None \<Rightarrow> (out, cur)))"

definition stanzas :: "string \<Rightarrow> stanza list" where
  "stanzas text =
     (case fold stanza_line (text_lines text) ([], []) of
        (out, cur) \<Rightarrow> if cur \<noteq> [] then out @ [cur] else out)"

definition stanza_field :: "string \<Rightarrow> stanza \<Rightarrow> string option" where
  "stanza_field key st =
     map_option snd (List.find (\<lambda>(k, _). to_ascii_lowercase k = to_ascii_lowercase key) st)"

text \<open>Whether the package's files are on disk.\<close>

definition dpkg_on_disk :: "bool \<Rightarrow> string option \<Rightarrow> bool" where
  "dpkg_on_disk require_status status =
     (case status of
        Some s \<Rightarrow> (case drop 2 (split_whitespace s) of [] \<Rightarrow> [] | w # _ \<Rightarrow> w) \<in> set dpkg_present
      | None \<Rightarrow> \<not> require_status)"

text \<open>The source package, \<^verbatim>\<open>name (version)\<close> where the version is another.\<close>

definition dpkg_source :: "string option \<Rightarrow> string \<Rightarrow> string \<Rightarrow> string \<times> string" where
  "dpkg_source src name version =
     (case src of
        Some s \<Rightarrow>
          (case split_once (CHR ''('') s of
             Some (n, v) \<Rightarrow> (trim n, trim (drop_last_while (\<lambda>c. c = CHR '')'') v))
           | None \<Rightarrow> (trim s, version))
      | None \<Rightarrow> (name, version))"

definition dpkg_package :: "bool \<Rightarrow> stanza \<Rightarrow> os_package option" where
  "dpkg_package require_status st =
     (case (stanza_field ''Package'' st, stanza_field ''Version'' st) of
        (Some name, Some version) \<Rightarrow>
          if dpkg_on_disk require_status (stanza_field ''Status'' st) then
            (case dpkg_source (stanza_field ''Source'' st) name version of
               (source, source_version) \<Rightarrow>
                 Some \<lparr>op_name = name, op_version = version, op_source = source, op_source_version = source_version,
                       op_arch = stanza_field ''Architecture'' st, op_module = None\<rparr>)
          else None
      | _ \<Rightarrow> None)"

definition parse_dpkg_status :: "string \<Rightarrow> bool \<Rightarrow> os_package list" where
  "parse_dpkg_status text require_status = List.map_filter (dpkg_package require_status) (stanzas text)"

section \<open>apk\<close>

record apk_state =
  ak_out :: "os_package list"
  ak_owned :: "(string, string) btree"
  ak_name :: "string option"
  ak_version :: "string option"
  ak_origin :: "string option"
  ak_arch :: "string option"
  ak_dir :: string

definition apk_flush :: "apk_state \<Rightarrow> apk_state" where
  "apk_flush st =
     st\<lparr>ak_out := ak_out st @
          (case (ak_name st, ak_version st) of
             (Some n, Some v) \<Rightarrow>
               [\<lparr>op_name = n, op_version = v,
                 op_source = (case ak_origin st of None \<Rightarrow> n | Some origin \<Rightarrow> origin), op_source_version = v,
                 op_arch = ak_arch st, op_module = None\<rparr>]
           | _ \<Rightarrow> []),
        ak_name := None, ak_version := None, ak_origin := None, ak_arch := None\<rparr>"

definition trim_slashes :: "string \<Rightarrow> string" where
  "trim_slashes s = drop_last_while (\<lambda>c. c = CHR ''/'') (dropWhile (\<lambda>c. c = CHR ''/'') s)"

definition apk_line :: "string \<Rightarrow> apk_state \<Rightarrow> apk_state" where
  "apk_line line st =
     (if line = [] then (apk_flush st)\<lparr>ak_dir := []\<rparr>
      else (case split_once (CHR '':'') line of
          None \<Rightarrow> st
        | Some (key, value) \<Rightarrow>
            if key = ''P'' then st\<lparr>ak_name := Some value\<rparr>
            else if key = ''V'' then st\<lparr>ak_version := Some value\<rparr>
            else if key = ''o'' then st\<lparr>ak_origin := Some value\<rparr>
            else if key = ''A'' then st\<lparr>ak_arch := Some value\<rparr>
            else if key = ''F'' then st\<lparr>ak_dir := trim_slashes value\<rparr>
            else if key = ''R'' then
              st\<lparr>ak_owned := bt_insert str_cmp (join_path (ak_dir st) value)
                    (case ak_name st of None \<Rightarrow> [] | Some n \<Rightarrow> n) (ak_owned st)\<rparr>
            else st))"

definition parse_apk_installed :: "string \<Rightarrow> os_package list \<times> (string, string) btree" where
  "parse_apk_installed text =
     (let st = apk_flush (fold apk_line (text_lines text)
            \<lparr>ak_out = [], ak_owned = [], ak_name = None, ak_version = None, ak_origin = None, ak_arch = None, ak_dir = []\<rparr>)
      in (ak_out st, ak_owned st))"

section \<open>rpm\<close>

definition rpm_dirs :: "string list" where
  "rpm_dirs = [''usr/lib/sysimage/rpm'', ''var/lib/rpm'']"

definition rpm_files :: "string list" where
  "rpm_files = [''rpmdb.sqlite'', ''rpmdb.sqlite-wal'', ''Packages.db'', ''Packages'']"

definition evr :: "32 word option \<Rightarrow> string \<Rightarrow> string \<Rightarrow> string" where
  "evr epoch version release =
     (case epoch of None \<Rightarrow> [] | Some e \<Rightarrow> show_nat (unat e) @ '':'') @ version @ ''-'' @ release"

text \<open>\<^verbatim>\<open>name-version-release\<close> of a source rpm's file name.\<close>

definition source_rpm_parts :: "string \<Rightarrow> (string \<times> string \<times> string) option" where
  "source_rpm_parts s =
     Option.bind (opt_or (strip_suffix ''.src.rpm'' s) (strip_suffix ''.nosrc.rpm'' s)) (\<lambda>stem.
     Option.bind (rsplit_once (CHR ''-'') stem) (\<lambda>(rest, release).
     Option.bind (rsplit_once (CHR ''-'') rest) (\<lambda>(name, ver).
       if name = [] then None else Some (name, ver, release))))"

definition module_stream :: "string \<Rightarrow> string option" where
  "module_stream label =
     (case split_at (CHR '':'') label of
        n # s # _ \<Rightarrow> if n \<noteq> [] \<and> s \<noteq> [] then Some (n @ '':'' @ s) else None
      | _ \<Rightarrow> None)"

definition from_rpm :: "rpm_package \<Rightarrow> os_package option" where
  "from_rpm p =
     (if rp_name p = ''gpg-pubkey'' \<and> rp_arch p = None then None
      else
        let version = evr (rp_epoch p) (rp_version p) (rp_release p);
            source = (case Option.bind (rp_source_rpm p) source_rpm_parts of
                Some (name, ver, release) \<Rightarrow> (name, evr (rp_epoch p) ver release)
              | None \<Rightarrow> (rp_name p, version))
        in Some \<lparr>op_name = rp_name p, op_version = version, op_source = fst source, op_source_version = snd source,
                 op_arch = rp_arch p, op_module = Option.bind (rp_modularity_label p) module_stream\<rparr>)"

text \<open>An epoch in front of a version.\<close>

definition epoch_split :: "string \<Rightarrow> string option \<times> string" where
  "epoch_split v =
     (case split_once (CHR '':'') v of
        Some (e, rest) \<Rightarrow> if only_digits e then (Some e, rest) else (None, v)
      | None \<Rightarrow> (None, v))"

definition note_epoch :: "os_package \<Rightarrow> (string \<times> string, string option bset) btree \<Rightarrow> (string \<times> string, string option bset) btree" where
  "note_epoch p epochs =
     (let vr = epoch_split (op_version p); source_vr = snd (epoch_split (op_source_version p)) in
      if snd vr = source_vr then
        bt_alter key_cmp2 (op_source p, source_vr)
          (\<lambda>old. bs_insert (cmp_opt str_cmp) (fst vr) (case old of None \<Rightarrow> [] | Some s \<Rightarrow> s)) epochs
      else epochs)"

definition with_source_epoch :: "(string \<times> string, string option bset) btree \<Rightarrow> os_package \<Rightarrow> os_package" where
  "with_source_epoch epochs p =
     (let source_vr = snd (epoch_split (op_source_version p)) in
      case bt_get key_cmp2 (op_source p, source_vr) epochs of
        Some [(found, _)] \<Rightarrow>
          p\<lparr>op_source_version := (case found of Some e \<Rightarrow> e @ '':'' @ source_vr | None \<Rightarrow> source_vr)\<rparr>
      | _ \<Rightarrow> p)"

definition share_source_epoch :: "os_package list \<Rightarrow> os_package list" where
  "share_source_epoch pkgs = map (with_source_epoch (fold note_epoch pkgs [])) pkgs"

section \<open>Bottlerocket\<close>

definition bottlerocket_inventory :: string where
  "bottlerocket_inventory = ''usr/share/bottlerocket/application-inventory.json''"

definition bottlerocket_sysroot :: "string \<Rightarrow> string" where
  "bottlerocket_sysroot path =
     (case split_once_str ''/sys-root/'' path of
        Some (triple, rest) \<Rightarrow>
          if CHR ''/'' \<notin> set triple \<and> ends_with ''-bottlerocket-linux-gnu'' triple then rest else path
      | None \<Rightarrow> path)"

record bottlerocket_app =
  ba_name :: string
  ba_epoch :: string
  ba_version :: string
  ba_release :: string
  ba_architecture :: "string option"

datatype bottlerocket_error =
  BadInventory string
| BadEpoch string string
| IncompleteApp

definition bottlerocket_package :: "bottlerocket_app \<Rightarrow> bottlerocket_error + os_package" where
  "bottlerocket_package a =
     and_then (if trim (ba_epoch a) = [] then Inr None
        else (case parse_u32 (trim (ba_epoch a)) of
            Some n \<Rightarrow> Inr (Some (of_nat n))
          | None \<Rightarrow> Inl (BadEpoch (ba_name a) (trim (ba_epoch a))))) (\<lambda>epoch.
     if ba_name a = [] \<or> ba_version a = [] \<or> ba_release a = [] then Inl IncompleteApp
     else let version = evr epoch (ba_version a) (ba_release a) in
       Inr \<lparr>op_name = ba_name a, op_version = version, op_source = ba_name a, op_source_version = version,
            op_arch = Option.bind (ba_architecture a) (\<lambda>s. if s = [] then None else Some s), op_module = None\<rparr>)"

text \<open>The JSON reader is an argument.\<close>

type_synonym inventory_reader = "string \<Rightarrow> string + bottlerocket_app list"

definition parse_bottlerocket_inventory :: "inventory_reader \<Rightarrow> string \<Rightarrow> bottlerocket_error + os_package list" where
  "parse_bottlerocket_inventory json text =
     (case json text of
        Inl e \<Rightarrow> Inl (BadInventory e)
      | Inr apps \<Rightarrow> collect_results (map bottlerocket_package apps))"

section \<open>Module streams\<close>

definition modules_d :: string where
  "modules_d = ''etc/dnf/modules.d/''"

record module_state =
  ms_out :: "(string, string) btree"
  ms_name :: "string option"
  ms_stream :: "string option"
  ms_enabled :: bool

definition module_flush :: "module_state \<Rightarrow> module_state" where
  "module_flush st =
     st\<lparr>ms_out := (case (ms_name st, ms_stream st, ms_enabled st) of
            (Some n, Some s, True) \<Rightarrow> bt_insert str_cmp n s (ms_out st) | _ \<Rightarrow> ms_out st),
        ms_name := None, ms_stream := None\<rparr>"

definition module_line :: "string \<Rightarrow> module_state \<Rightarrow> module_state" where
  "module_line line st =
     (if starts_with ''['' line then (module_flush st)\<lparr>ms_enabled := False\<rparr>
      else (case split_once (CHR ''='') line of
          None \<Rightarrow> st
        | Some (k, raw) \<Rightarrow>
            let v = trim raw in
            if trim k = ''name'' then st\<lparr>ms_name := Some v\<rparr>
            else if trim k = ''stream'' \<and> v \<noteq> [] then st\<lparr>ms_stream := Some v\<rparr>
            else if trim k = ''state'' then st\<lparr>ms_enabled := (v = ''enabled'')\<rparr>
            else st))"

definition parse_module_state :: "string \<Rightarrow> (string, string) btree" where
  "parse_module_state text =
     ms_out (module_flush (fold module_line (map trim (text_lines text))
       \<lparr>ms_out = [], ms_name = None, ms_stream = None, ms_enabled = False\<rparr>))"

end
