(* ===== verification/Os_Inventory.thy ===== *)
theory Os_Inventory
  imports Os_Packages Distro_Detect
begin

text \<open>
  What the package database of an image says, \<^verbatim>\<open>inventory\<close> of \<^verbatim>\<open>crates/os/src/packages.rs\<close>, and what the image
  is, \<^verbatim>\<open>inspect\<close> of \<^verbatim>\<open>crates/os/src/lib.rs\<close>.  Reading an rpm database may panic in the model of its
  readers, so an inventory is an option.
\<close>

section \<open>Which files are kept\<close>

definition plain_file_in :: "string \<Rightarrow> string \<Rightarrow> string \<Rightarrow> bool" where
  "plain_file_in dir suffix path \<longleftrightarrow>
     (case strip_prefix dir path of None \<Rightarrow> False | Some f \<Rightarrow> CHR ''/'' \<notin> set f \<and> ends_with suffix f)"

definition packages_wanted :: "string \<Rightarrow> bool" where
  "packages_wanted raw =
     (let path = bottlerocket_sysroot raw in
      path = bottlerocket_inventory \<or>
      path \<in> {''etc/os-release'', ''usr/lib/os-release'', ''etc/debian_version'', ''etc/centos-release'',
              ''etc/redhat-release'', ''var/lib/dpkg/status'', ''lib/apk/db/installed'', ''usr/lib/apk/db/installed''} \<or>
      list_ex (\<lambda>d. opt_test (\<lambda>f. f \<in> set rpm_files) (strip_prefix (d @ ''/'') path)) rpm_dirs \<or>
      plain_file_in ''var/lib/dpkg/status.d/'' '''' path \<or>
      plain_file_in ''var/lib/dpkg/info/'' ''.list'' path \<or>
      plain_file_in modules_d ''.module'' path)"

section \<open>The inventory\<close>

datatype inventory_problem =
  SeveralDatabases "string list"
| Unreadable string
| BadRpmDatabase string string
| TwoRpmDatabases string string
| BadBottlerocket bottlerocket_error
| NotKept string

record inventory =
  iv_family :: "family option"
  iv_packages :: "os_package list"
  iv_owned :: "string bset"
  iv_owners :: "(string, string) btree"
  iv_problems :: "inventory_problem list"
  iv_modules :: "(string, string) btree"

definition empty_inventory :: inventory where
  "empty_inventory =
     \<lparr>iv_family = None, iv_packages = [], iv_owned = [], iv_owners = [], iv_problems = [], iv_modules = []\<rparr>"

definition add_problem :: "inventory_problem \<Rightarrow> inventory \<Rightarrow> inventory" where
  "add_problem p iv = iv\<lparr>iv_problems := iv_problems iv @ [p]\<rparr>"

definition add_packages :: "os_package list \<Rightarrow> inventory \<Rightarrow> inventory" where
  "add_packages ps iv = iv\<lparr>iv_packages := iv_packages iv @ ps\<rparr>"

definition add_owned :: "string list \<Rightarrow> inventory \<Rightarrow> inventory" where
  "add_owned paths iv = iv\<lparr>iv_owned := fold (bs_insert str_cmp) paths (iv_owned iv)\<rparr>"

definition add_owners :: "(string \<times> string) list \<Rightarrow> inventory \<Rightarrow> inventory" where
  "add_owners ps iv = iv\<lparr>iv_owners := fold (\<lambda>(path, owner). bt_insert str_cmp path owner) ps (iv_owners iv)\<rparr>"

definition fs_text :: "image_entries \<Rightarrow> string \<Rightarrow> string option" where
  "fs_text m path = map_option from_utf8_lossy (fs_read m path)"

definition strip_slashes :: "string \<Rightarrow> string" where
  "strip_slashes s = dropWhile (\<lambda>c. c = CHR ''/'') s"

text \<open>A file that must be read: its packages, or a problem.\<close>

definition add_dpkg_file :: "image_entries \<Rightarrow> string \<Rightarrow> bool \<Rightarrow> inventory \<Rightarrow> inventory" where
  "add_dpkg_file m path require_status iv =
     (case fs_text m path of
        Some t \<Rightarrow> add_packages (parse_dpkg_status t require_status) iv
      | None \<Rightarrow> add_problem (Unreadable path) iv)"

definition status_d_step :: "image_entries \<Rightarrow> string \<Rightarrow> inventory \<Rightarrow> inventory" where
  "status_d_step m name iv =
     (let path = ''var/lib/dpkg/status.d/'' @ name in
      if ends_with ''.md5sums'' name then
        (case fs_text m path of
           Some t \<Rightarrow> add_owned (List.map_filter (\<lambda>l. case drop 1 (split_whitespace l) of [] \<Rightarrow> None | p # _ \<Rightarrow> Some (strip_slashes p))
                     (text_lines t)) iv
         | None \<Rightarrow> iv)
      else add_dpkg_file m path False iv)"

function trim_suffixes :: "string \<Rightarrow> string \<Rightarrow> string" where
  "trim_suffixes p s =
     (if p = [] then s else (case strip_suffix p s of None \<Rightarrow> s | Some r \<Rightarrow> trim_suffixes p r))"
  by pat_completeness auto
termination trim_suffixes
  by (relation "measure (\<lambda>(p, s). length s)") (auto simp: strip_suffix_Some)

declare trim_suffixes.simps [simp del]

definition info_step :: "image_entries \<Rightarrow> string set \<Rightarrow> string \<Rightarrow> inventory \<Rightarrow> inventory" where
  "info_step m scanned name iv =
     (if \<not> ends_with ''.list'' name then iv
      else (case fs_text m (''var/lib/dpkg/info/'' @ name) of
          None \<Rightarrow> iv
        | Some t \<Rightarrow>
            let paths = map (\<lambda>l. strip_slashes (trim l)) (text_lines t);
                package = hd (split_at (CHR '':'') (trim_suffixes ''.list'' name))
            in add_owners (map (\<lambda>p. (p, package)) (filter (\<lambda>p. p \<in> scanned) paths))
                 (add_owned (filter (\<lambda>p. p \<noteq> []) paths) iv)))"

definition dpkg_inventory :: "image_entries \<Rightarrow> string set \<Rightarrow> inventory \<Rightarrow> inventory" where
  "dpkg_inventory m scanned iv =
     (let iv = iv\<lparr>iv_family := Some DebFamily\<rparr>;
          iv = (if fs_is_file m ''var/lib/dpkg/status'' then add_dpkg_file m ''var/lib/dpkg/status'' True iv else iv);
          iv = fold (status_d_step m) (list_dir m ''var/lib/dpkg/status.d'') iv
      in fold (info_step m scanned) (list_dir m ''var/lib/dpkg/info'') iv)"

definition apk_inventory :: "image_entries \<Rightarrow> string set \<Rightarrow> string \<Rightarrow> inventory \<Rightarrow> inventory" where
  "apk_inventory m scanned db iv =
     (let iv = iv\<lparr>iv_family := Some ApkFamily\<rparr> in
      case fs_text m db of
        Some t \<Rightarrow>
          (case parse_apk_installed t of (pkgs, owned) \<Rightarrow>
             iv\<lparr>iv_packages := pkgs, iv_owned := map (\<lambda>(path, _). (path, ())) owned,
                 iv_owners := filter (\<lambda>(path, _). path \<in> scanned) owned\<rparr>)
      | None \<Rightarrow> add_problem (Unreadable db) iv)"

subsection \<open>rpm\<close>

definition rpm_database_at :: "image_entries \<Rightarrow> string \<Rightarrow> (string \<times> backend) option" where
  "rpm_database_at m dir =
     map_option (\<lambda>b. (dir @ ''/'' @ backend_file_name b, b))
       (List.find (\<lambda>b. fs_is_file m (dir @ ''/'' @ backend_file_name b)) [Sqlite, Ndb, BerkeleyDb])"

text \<open>The database of each directory, one that is a link to another left out.\<close>

definition rpm_dir_step :: "image_entries \<Rightarrow> string \<Rightarrow> string set \<times> (string \<times> string \<times> backend) list \<Rightarrow> string set \<times> (string \<times> string \<times> backend) list" where
  "rpm_dir_step m dir st =
     (case st of (seen, out) \<Rightarrow>
        (case rpm_database_at m dir of
           None \<Rightarrow> (seen, out)
         | Some (path, b) \<Rightarrow>
             let real = (case canonical m path of None \<Rightarrow> path | Some q \<Rightarrow> q) in
             if real \<in> seen then (seen, out) else (insert real seen, out @ [(dir, path, b)])))"

definition read_rpm_database :: "image_entries \<Rightarrow> string \<times> string \<times> backend \<Rightarrow> (string \<times> (inventory_problem + rpm_package list)) option" where
  "read_rpm_database m d =
     (case d of (dir, path, b) \<Rightarrow>
        map_option (Pair path)
          (case fs_read m path of
             Some f \<Rightarrow> run_map_err (BadRpmDatabase path) (rpm_read b f (fs_read m (dir @ ''/rpmdb.sqlite-wal'')))
           | None \<Rightarrow> Some (Inl (Unreadable path))))"

definition rpm_databases :: "image_entries \<Rightarrow> (string \<times> (inventory_problem + rpm_package list)) list option" where
  "rpm_databases m = traverse (read_rpm_database m) (snd (fold (rpm_dir_step m) rpm_dirs ({}, [])))"

text \<open>The databases that hold packages, the longest first; of two that agree only one.\<close>

definition rpm_candidates :: "(string \<times> (inventory_problem + rpm_package list)) list \<Rightarrow> (string \<times> rpm_package list) list" where
  "rpm_candidates dbs =
     (let read = List.map_filter (\<lambda>(path, r). case r of Inr pkgs \<Rightarrow> Some (path, pkgs) | Inl _ \<Rightarrow> None) dbs;
          read = sort_by (\<lambda>a b. ord_cmp (length (snd b)) (length (snd a))) (filter (\<lambda>(_, pkgs). pkgs \<noteq> []) read)
      in case read of a # b # _ \<Rightarrow> if snd a = snd b then [a] else read | _ \<Rightarrow> read)"

definition add_rpm_packages :: "string set \<Rightarrow> rpm_package list \<Rightarrow> inventory \<Rightarrow> inventory" where
  "add_rpm_packages scanned pkgs iv =
     (let files = \<lambda>p. map strip_slashes (rp_files p);
          iv = fold (\<lambda>p iv. add_owners (map (\<lambda>f. (f, rp_name p)) (filter (\<lambda>f. f \<in> scanned) (files p)))
                (add_owned (files p) iv)) pkgs iv
      in iv\<lparr>iv_packages := share_source_epoch (List.map_filter from_rpm pkgs)\<rparr>)"

definition modules_step :: "image_entries \<Rightarrow> string \<Rightarrow> inventory \<Rightarrow> inventory" where
  "modules_step m name iv =
     (if \<not> ends_with ''.module'' name then iv
      else (case fs_text m (modules_d @ name) of
          None \<Rightarrow> iv
        | Some t \<Rightarrow> iv\<lparr>iv_modules := fold (\<lambda>(n, s). bt_insert str_cmp n s) (parse_module_state t) (iv_modules iv)\<rparr>))"

definition rpm_inventory ::
  "image_entries \<Rightarrow> string set \<Rightarrow> (string \<times> (inventory_problem + rpm_package list)) list \<Rightarrow> inventory \<Rightarrow> inventory" where
  "rpm_inventory m scanned dbs iv =
     (let iv = iv\<lparr>iv_family := Some RpmFamily,
            iv_problems := iv_problems iv @ List.map_filter (\<lambda>(_, r). case r of Inl e \<Rightarrow> Some e | Inr _ \<Rightarrow> None) dbs\<rparr>;
          found = rpm_candidates dbs;
          iv = (case found of a # b # _ \<Rightarrow> add_problem (TwoRpmDatabases (fst a) (fst b)) iv | _ \<Rightarrow> iv);
          iv = (case found of a # _ \<Rightarrow> add_rpm_packages scanned (snd a) iv | [] \<Rightarrow> iv)
      in fold (modules_step m) (list_dir m ''etc/dnf/modules.d'') iv)"

definition bottlerocket_inventory_of :: "inventory_reader \<Rightarrow> image_entries \<Rightarrow> inventory \<Rightarrow> inventory" where
  "bottlerocket_inventory_of json m iv =
     (let iv = iv\<lparr>iv_family := Some RpmFamily\<rparr> in
      case map_option (parse_bottlerocket_inventory json) (fs_text m bottlerocket_inventory) of
        Some (Inr pkgs) \<Rightarrow> iv\<lparr>iv_packages := pkgs\<rparr>
      | Some (Inl e) \<Rightarrow> add_problem (BadBottlerocket e) iv
      | None \<Rightarrow> add_problem (Unreadable bottlerocket_inventory) iv)"

subsection \<open>All formats\<close>

definition os_package_cmp :: "os_package cmp" where
  "os_package_cmp =
     cmp_then (cmp_on op_name str_cmp)
       (cmp_then (cmp_on op_version str_cmp)
       (cmp_then (cmp_on op_source str_cmp)
       (cmp_then (cmp_on op_source_version str_cmp)
       (cmp_then (cmp_on op_arch (cmp_opt str_cmp))
         (cmp_on op_module (cmp_opt str_cmp))))))"

definition scanned_paths :: "('g, 'r) image_fs \<Rightarrow> string set" where
  "scanned_paths fs =
     set (map fst (go_binaries fs) @
       List.map_filter (\<lambda>(path, data). if data \<noteq> None \<or> is_archive path then Some path else None) (fs_files (if_entries fs)))"

definition apk_database :: "image_entries \<Rightarrow> string option" where
  "apk_database m = List.find (fs_is_file m) [''lib/apk/db/installed'', ''usr/lib/apk/db/installed'']"

definition has_dpkg :: "image_entries \<Rightarrow> bool" where
  "has_dpkg m \<longleftrightarrow> fs_is_file m ''var/lib/dpkg/status'' \<or> list_dir m ''var/lib/dpkg/status.d'' \<noteq> []"

definition databases_found :: "image_entries \<Rightarrow> (string \<times> (inventory_problem + rpm_package list)) list \<Rightarrow> string list" where
  "databases_found m dbs =
     (if has_dpkg m then [''dpkg''] else []) @ (if apk_database m \<noteq> None then [''apk''] else []) @
     (if dbs \<noteq> [] then [''rpm''] else []) @
     (if fs_is_file m bottlerocket_inventory then [''Bottlerocket inventory''] else [])"

definition read_databases ::
  "inventory_reader \<Rightarrow> image_entries \<Rightarrow> string set \<Rightarrow> (string \<times> (inventory_problem + rpm_package list)) list \<Rightarrow> inventory \<Rightarrow> inventory" where
  "read_databases json m scanned dbs iv =
     (if has_dpkg m then dpkg_inventory m scanned iv
      else (case apk_database m of
          Some db \<Rightarrow> apk_inventory m scanned db iv
        | None \<Rightarrow>
            if dbs \<noteq> [] then rpm_inventory m scanned dbs iv
            else if fs_is_file m bottlerocket_inventory then bottlerocket_inventory_of json m iv
            else iv))"

definition finish_inventory :: "string list \<Rightarrow> inventory \<Rightarrow> inventory" where
  "finish_inventory skipped iv =
     iv\<lparr>iv_problems := iv_problems iv @
            map NotKept (filter (\<lambda>s. packages_wanted (hd (split_at (CHR '':'') s))) skipped),
         iv_packages := sort_dedup os_package_cmp (iv_packages iv)\<rparr>"

definition inventory_of :: "inventory_reader \<Rightarrow> ('g, 'r) image_fs \<Rightarrow> inventory option" where
  "inventory_of json fs =
     (let m = if_entries fs in
      map_option (\<lambda>dbs.
        let found = databases_found m dbs;
            iv = (if 1 < length found then add_problem (SeveralDatabases found) empty_inventory else empty_inventory)
        in finish_inventory (if_skipped fs) (read_databases json m (scanned_paths fs) dbs iv))
       (rpm_databases m))"

section \<open>What an image is\<close>

datatype inspect_gap =
  NotDistroEcosystem string
| NotDetected distro_gap
| NoOsRelease
| OtherFormat string family family
| NoPackageDatabase string
| SeveralFormats "string list"
| NoDistribution
| SeveralDistributions "(string \<times> string) list"
| ListsOtherFormat string family family

record inspection =
  in_os_release :: "os_release option"
  in_distro :: "inspect_gap + distro"
  in_inventory :: inventory
  in_no_os :: bool

definition release_of_image :: "image_entries \<Rightarrow> os_release option" where
  "release_of_image m =
     opt_or (map_option parse_os_release (opt_or (fs_text m ''etc/os-release'') (fs_text m ''usr/lib/os-release'')))
       (opt_or (Option.bind (fs_text m ''etc/centos-release'') legacy_release)
         (Option.bind (fs_text m ''etc/redhat-release'') legacy_release))"

definition detected_distro :: "image_entries \<Rightarrow> string option \<Rightarrow> os_release option \<Rightarrow> hints \<Rightarrow> inspect_gap + distro" where
  "detected_distro m named os h =
     (case named of
        Some eco \<Rightarrow> (case family_of eco of Some f \<Rightarrow> Inr (explicit eco f) | None \<Rightarrow> Inl (NotDistroEcosystem eco))
      | None \<Rightarrow>
          (case os of
             Some r \<Rightarrow> map_sum NotDetected id (detect r (fs_text m ''etc/debian_version'') h)
           | None \<Rightarrow> Inl NoOsRelease))"

definition matched_format :: "inventory \<Rightarrow> distro \<Rightarrow> inspect_gap + distro" where
  "matched_format iv d =
     (case iv_family iv of
        Some f \<Rightarrow>
          if f = di_family d then Inr (d\<lparr>di_modules := iv_modules iv\<rparr>)
          else Inl (OtherFormat (di_name d) (di_family d) f)
      | None \<Rightarrow> Inl (NoPackageDatabase (di_name d)))"

definition inspect :: "inventory_reader \<Rightarrow> ('g, 'r) image_fs \<Rightarrow> string option \<Rightarrow> inspection option" where
  "inspect json fs named =
     (let m = if_entries fs in
      map_option (\<lambda>iv.
        let os = release_of_image m;
            h = hints_from_versions (map op_version (iv_packages iv))
        in \<lparr>in_os_release = os, in_distro = and_then (detected_distro m named os h) (matched_format iv),
            in_inventory = iv, in_no_os = (os = None \<and> iv_family iv = None)\<rparr>)
       (inventory_of json fs))"

end
