(* ===== verification/Image_Layers.thy ===== *)
theory Image_Layers
  imports Tar Os_Inventory
begin

text \<open>
  From the layers of an image to its merged file system, \<^verbatim>\<open>crates/os/src/image.rs\<close>: one layer's tar stream,
  the layers of a manifest with the digests their blobs must have, the members of an archive, and
  what the config says of the build.  Decompressors, SHA-256, the JSON reader and the readers of
  executables and Java archives are arguments.
\<close>

section \<open>One layer\<close>

definition min_binary_bytes :: nat where
  "min_binary_bytes = 2 ^ 16"

definition max_binary_bytes :: nat where
  "max_binary_bytes = 2 * 2 ^ 30"

definition max_file_bytes :: nat where
  "max_file_bytes = 64 * 2 ^ 20"

definition max_archive_bytes :: nat where
  "max_archive_bytes = 2 ^ 30"

definition file_limit :: "string \<Rightarrow> nat" where
  "file_limit path = (if is_archive path then max_archive_bytes else max_file_bytes)"

text \<open>What is read from a file's content, by code outside this theory.\<close>

record ('g, 'r) content_readers =
  cr_want :: "string \<Rightarrow> bool"
  cr_jar :: "string \<Rightarrow> byte list \<Rightarrow> byte list"
  cr_go :: "byte list \<Rightarrow> 'g option"
  cr_rust :: "byte list \<Rightarrow> 'r option"
  cr_inventory :: inventory_reader

definition kept :: "('g, 'r) content_readers \<Rightarrow> string \<Rightarrow> byte list \<Rightarrow> byte list" where
  "kept rd path data = (if is_archive path then cr_jar rd path data else data)"

definition apply_fs :: "nat \<Rightarrow> string \<Rightarrow> image_node \<Rightarrow> ('g, 'r) image_fs \<Rightarrow> ('g, 'r) image_fs" where
  "apply_fs layer path node fs = fs\<lparr>if_entries := apply_entry layer path node (if_entries fs)\<rparr>"

definition skip_note :: "string \<Rightarrow> ('g, 'r) image_fs \<Rightarrow> ('g, 'r) image_fs" where
  "skip_note s fs = fs\<lparr>if_skipped := if_skipped fs @ [s]\<rparr>"

definition too_large :: "string \<Rightarrow> nat \<Rightarrow> string" where
  "too_large path limit = path @ '': larger than '' @ show_nat limit @ '' bytes''"

definition note_binary ::
  "('g, 'r) content_readers \<Rightarrow> nat \<Rightarrow> string \<Rightarrow> byte list \<Rightarrow> ('g, 'r) image_fs \<Rightarrow> ('g, 'r) image_fs" where
  "note_binary rd layer path data fs =
     (case cr_go rd data of
        Some build \<Rightarrow> fs\<lparr>if_go := bt_insert str_cmp path (layer, build) (if_go fs)\<rparr>
      | None \<Rightarrow>
          (case cr_rust rd data of
             Some build \<Rightarrow> fs\<lparr>if_rust := bt_insert str_cmp path (layer, build) (if_rust fs)\<rparr>
           | None \<Rightarrow> fs))"

type_synonym package_layers = "(string \<times> string, nat) btree"

definition since_layers :: "nat \<Rightarrow> package_layers \<Rightarrow> os_package list \<Rightarrow> package_layers" where
  "since_layers layer before ps =
     fold (\<lambda>p now. bt_insert (cmp_pair str_cmp str_cmp) (op_name p, op_version p)
       (case bt_get (cmp_pair str_cmp str_cmp) (op_name p, op_version p) before of None \<Rightarrow> layer | Some l \<Rightarrow> l) now)
       ps []"

definition note_packages :: "inventory_reader \<Rightarrow> nat \<Rightarrow> ('g, 'r) image_fs \<Rightarrow> ('g, 'r) image_fs option" where
  "note_packages json layer fs =
     (if \<not> if_packages_changed fs then Some fs
      else
        let fs = fs\<lparr>if_packages_changed := False\<rparr> in
        map_option (\<lambda>iv.
            if iv_problems iv \<noteq> [] then fs
            else fs\<lparr>if_introduced := since_layers layer (if_introduced fs) (iv_packages iv)\<rparr>)
          (inventory_of json fs))"

type_synonym ('g, 'r) layer_state = "image_node \<times> tar_reader \<times> ('g, 'r) image_fs"

text \<open>What an entry puts at its path; reading its data moves the reader.\<close>

definition file_node ::
  "('g, 'r) content_readers \<Rightarrow> nat \<Rightarrow> string \<Rightarrow> tar_entry \<Rightarrow> tar_reader \<Rightarrow> ('g, 'r) image_fs \<Rightarrow> ('g, 'r) layer_state tar_run" where
  "file_node rd layer path e r fs =
     (if cr_want rd path then
        (if file_limit path < te_size e then
           Some (Inr (FileNode None, r, skip_note (too_large path (file_limit path)) fs))
         else run_bind (read_data (file_limit path) r) (\<lambda>(data, r).
           Some (Inr (FileNode (Some (kept rd path data)), r, fs))))
      else if te_mode e AND 0x49 \<noteq> 0 \<and> min_binary_bytes \<le> te_size e then
        (if max_binary_bytes < te_size e then
           Some (Inr (FileNode None, r, skip_note (too_large path max_binary_bytes) fs))
         else run_bind (read_data max_binary_bytes r) (\<lambda>(data, r).
           Some (Inr (FileNode None, r, note_binary rd layer path data fs))))
      else Some (Inr (FileNode None, r, fs)))"

definition hardlink_node ::
  "('g, 'r) content_readers \<Rightarrow> string \<Rightarrow> string \<Rightarrow> tar_reader \<Rightarrow> ('g, 'r) image_fs \<Rightarrow> ('g, 'r) layer_state tar_run" where
  "hardlink_node rd path target r fs =
     run_bind (Some (normalize target)) (\<lambda>t.
       let target = (case t of None \<Rightarrow> [] | Some p \<Rightarrow> p) in
       case map_option ie_node (bt_get str_cmp target (if_entries fs)) of
         Some (FileNode data) \<Rightarrow> Some (Inr (FileNode data, r, fs))
       | _ \<Rightarrow> Some (Inr (FileNode None, r,
           if cr_want rd path then skip_note (path @ '': hard link to a missing '' @ target) fs else fs)))"

definition layer_node ::
  "('g, 'r) content_readers \<Rightarrow> nat \<Rightarrow> string \<Rightarrow> tar_entry \<Rightarrow> tar_reader \<Rightarrow> ('g, 'r) image_fs \<Rightarrow> ('g, 'r) layer_state tar_run" where
  "layer_node rd layer path e r fs =
     (case te_kind e of
        TarFile \<Rightarrow> file_node rd layer path e r fs
      | TarHardlink target \<Rightarrow> hardlink_node rd path target r fs
      | TarSymlink target \<Rightarrow> Some (Inr (SymlinkNode target, r, fs))
      | TarDir \<Rightarrow> Some (Inr (DirNode, r, fs))
      | TarOther \<Rightarrow> Some (Inr (OtherNode, r, fs)))"

definition changes_packages :: "string \<Rightarrow> bool" where
  "changes_packages path \<longleftrightarrow> packages_wanted path \<or> contains_str ''.wh.'' path"

definition layer_entry ::
  "('g, 'r) content_readers \<Rightarrow> nat \<Rightarrow> tar_entry \<Rightarrow> tar_reader \<Rightarrow> ('g, 'r) image_fs \<Rightarrow> (tar_reader \<times> ('g, 'r) image_fs) tar_run" where
  "layer_entry rd layer e r fs =
     run_bind (Some (normalize (te_path e))) (\<lambda>p.
       case p of
         None \<Rightarrow> Some (Inr (r, fs))
       | Some path \<Rightarrow>
           let fs = fs\<lparr>if_packages_changed := if_packages_changed fs \<or> changes_packages path\<rparr> in
           run_bind (layer_node rd layer path e r fs) (\<lambda>(node, r, fs).
             Some (Inr (r, apply_fs layer path node fs))))"

lemma layer_entry_shorter:
  assumes "layer_entry rd layer e r fs = Some (Inr (r', fs'))"
  shows "length (tr_src r') \<le> length (tr_src r)"
proof -
  have "length (tr_src r') \<le> length (tr_src r)" if "layer_node rd layer path e r fs = Some (Inr (node, r', fs'))" for path node fs fs'
    using that
    by (auto simp: layer_node_def file_node_def hardlink_node_def run_bind_Inr Let_def
        split: tar_kind.splits if_splits option.splits image_node.splits dest!: read_data_shorter)
  then show ?thesis using assms by (auto simp: layer_entry_def run_bind_Inr Let_def split: option.splits)
qed

function layer_entries ::
  "('g, 'r) content_readers \<Rightarrow> nat \<Rightarrow> tar_reader \<Rightarrow> ('g, 'r) image_fs \<Rightarrow> ('g, 'r) image_fs tar_run" where
  "layer_entries rd layer r fs =
     run_bind (next_entry r) (\<lambda>(found, r').
       case found of
         None \<Rightarrow> Some (Inr fs)
       | Some e \<Rightarrow> run_bind (layer_entry rd layer e r' fs) (\<lambda>(r'', fs'). layer_entries rd layer r'' fs'))"
  by pat_completeness auto
termination layer_entries
proof (relation "measure (\<lambda>(rd, layer, r, fs). length (tr_src r))")
  fix rd :: "('g, 'r) content_readers" and layer r and fs :: "('g, 'r) image_fs" and x found r' e y r'' fs'
  assume "next_entry r = Some (Inr x)" "(found, r') = x" "found = Some e"
    "layer_entry rd layer e r' fs = Some (Inr y)" "(r'', fs') = y"
  then have "length (tr_src r'') < length (tr_src r)" using next_entry_shorter layer_entry_shorter by fastforce
  then show "((rd, layer, r'', fs'), rd, layer, r, fs) \<in> measure (\<lambda>(rd, layer, r, fs). length (tr_src r))" by simp
qed simp

declare layer_entries.simps [simp del]

text \<open>A stream is what a decompressor gives: bytes, and the failure after them if there is one.\<close>

type_synonym byte_stream = "byte list \<times> string option"

definition apply_layer ::
  "('g, 'r) content_readers \<Rightarrow> nat \<Rightarrow> byte_stream \<Rightarrow> ('g, 'r) image_fs \<Rightarrow> ('g, 'r) image_fs tar_run" where
  "apply_layer rd layer src fs =
     run_bind (layer_entries rd layer (tar_start (fst src) (snd src) False) fs) (\<lambda>fs.
       run_ok (note_packages (cr_inventory rd) layer fs))"

record decompressors =
  dc_gzip :: "byte list \<Rightarrow> byte_stream"
  dc_zstd :: "byte list \<Rightarrow> byte_stream"

definition decompress :: "decompressors \<Rightarrow> byte list \<Rightarrow> byte_stream" where
  "decompress dc raw =
     (if take 2 raw = [0x1f, 0x8b] then dc_gzip dc raw
      else if take 4 raw = [0x28, 0xb5, 0x2f, 0xfd] then dc_zstd dc raw
      else (raw, None))"

text \<open>\<^verbatim>\<open>from_layers\<close>, and the view of files already in memory.\<close>

definition from_layers :: "('g, 'r) content_readers \<Rightarrow> decompressors \<Rightarrow> byte list list \<Rightarrow> ('g, 'r) image_fs tar_run" where
  "from_layers rd dc layers =
     run_fold (\<lambda>(i, layer) fs. apply_layer rd i (decompress dc layer) fs) (enumerate 0 layers)
       (empty_image\<lparr>if_layers := length layers\<rparr>)"

definition from_files :: "('g, 'r) content_readers \<Rightarrow> (string \<times> byte list) list \<Rightarrow> ('g, 'r) image_fs" where
  "from_files rd fs =
     fold (\<lambda>(path, data) fs.
         case normalize path of
           Inr (Some p) \<Rightarrow> apply_fs 0 p (FileNode (Some (kept rd p data))) fs
         | _ \<Rightarrow> fs)
       fs (empty_image\<lparr>if_layers := 1\<rparr>)"

section \<open>The build\<close>

record history =
  hi_created_by :: string
  hi_empty_layer :: bool

record image_config =
  ic_diff_ids :: "string list"
  ic_history :: "history list"
  ic_labels :: "(string, string) btree option"

definition default_config :: image_config where
  "default_config = \<lparr>ic_diff_ids = [], ic_history = [], ic_labels = None\<rparr>"

definition max_created_by :: nat where
  "max_created_by = 200"

text \<open>A byte that starts a character, or the end of the text.\<close>

definition char_boundary :: "string \<Rightarrow> nat \<Rightarrow> bool" where
  "char_boundary s i \<longleftrightarrow> i = 0 \<or> i = length s \<or> i < length s \<and> \<not> (0x80 \<le> byte (s ! i) \<and> byte (s ! i) < 0xC0)"

definition dockerfile_step :: "string \<Rightarrow> string" where
  "dockerfile_step created_by =
     (let step = join_with '' '' (split_whitespace created_by);
          step = (case strip_suffix '' # buildkit'' step of None \<Rightarrow> step | Some s \<Rightarrow> s)
      in case strip_prefix ''RUN /bin/sh -c '' step of
           Some rest \<Rightarrow> ''RUN '' @ rest
         | None \<Rightarrow>
             (case strip_prefix ''/bin/sh -c '' step of
                Some rest \<Rightarrow>
                  (case strip_prefix ''#(nop) '' rest of Some instruction \<Rightarrow> instruction | None \<Rightarrow> ''RUN '' @ rest)
              | None \<Rightarrow> step))"

definition build_step :: "string \<Rightarrow> string option" where
  "build_step created_by =
     (let step = dockerfile_step created_by in
      if step = [] then None
      else
        let cut = (case List.find (char_boundary step) (rev [0..<Suc (min max_created_by (length step))]) of
              None \<Rightarrow> 0 | Some i \<Rightarrow> i)
        in Some (take cut step))"

text \<open>\<^verbatim>\<open>Iterator::rposition\<close>.\<close>

definition rposition :: "('a \<Rightarrow> bool) \<Rightarrow> 'a list \<Rightarrow> nat option" where
  "rposition p xs = List.find (\<lambda>i. p (xs ! i)) (rev [0..<length xs])"

definition is_cmd_step :: "history \<Rightarrow> bool" where
  "is_cmd_step h \<longleftrightarrow>
     hi_empty_layer h \<and>
     (starts_with ''/bin/sh -c #(nop)  CMD'' (hi_created_by h) \<or> starts_with ''CMD'' (hi_created_by h))"

definition base_layers :: "history list \<Rightarrow> nat option" where
  "base_layers hs =
     Option.bind (rposition (\<lambda>h. \<not> hi_empty_layer h) hs) (\<lambda>final.
     Option.bind (rposition is_cmd_step (take final hs)) (\<lambda>cmd.
       let n = length (filter (\<lambda>h. \<not> hi_empty_layer h) (take cmd hs))
       in if 0 < n then Some n else None))"

definition base_name_key :: string where
  "base_name_key = ''org.opencontainers.image.base.name''"

definition build_new :: "nat \<Rightarrow> image_config \<Rightarrow> (string, string) btree \<Rightarrow> image_build" where
  "build_new layers config annotations =
     (let steps = filter (\<lambda>h. \<not> hi_empty_layer h) (ic_history config) in
      \<lparr>ib_layers = map (\<lambda>i.
           \<lparr>li_digest = (if length (ic_diff_ids config) = layers then Some (ic_diff_ids config ! i) else None),
            li_created_by = (if length steps = layers then build_step (hi_created_by (steps ! i)) else None)\<rparr>)
         [0..<layers],
       ib_base_layers = (if length steps = layers then base_layers (ic_history config) else None),
       ib_base_name =
         opt_or (bt_get str_cmp base_name_key annotations)
           (Option.bind (ic_labels config) (bt_get str_cmp base_name_key))\<rparr>)"

section \<open>The archive\<close>

datatype archive =
  DirArchive "string \<Rightarrow> (string + byte list) option"
| TarArchive "byte list" "(string, nat \<times> nat) btree"

datatype image_error =
  Unopened string string
| ArchiveError layer_error
| NotInArchive string
| MemberTooLarge string
| InvalidJson string
| ListsNoImage
| HoldsSeveral nat "string list"
| NestsTooDeeply
| BadDigest string
| SeveralPlatforms "string list"
| NoManifestPresent
| NoImageFound
| LayerError string layer_error
| DigestMismatch string

text \<open>The members of an archive: where each file's data starts, links resolved afterwards.\<close>

type_synonym member_index = "(string, nat \<times> nat) btree \<times> (string \<times> string) list"

definition index_entry :: "tar_entry \<Rightarrow> nat \<Rightarrow> member_index \<Rightarrow> member_index" where
  "index_entry e pos ix =
     (case (ix, normalize (te_path e)) of
        ((members, pending), Inr (Some path)) \<Rightarrow>
          (case te_kind e of
             TarFile \<Rightarrow> (bt_insert str_cmp path (pos, te_size e) members, pending)
           | TarSymlink t \<Rightarrow> (members, pending @ [(path, join_path (parent_path path) t)])
           | TarHardlink t \<Rightarrow> (members, pending @ [(path, t)])
           | _ \<Rightarrow> (members, pending))
      | _ \<Rightarrow> ix)"

function index_entries :: "tar_reader \<Rightarrow> member_index \<Rightarrow> member_index tar_run" where
  "index_entries r ix =
     run_bind (next_entry r) (\<lambda>(found, r').
       case found of
         None \<Rightarrow> Some (Inr ix)
       | Some e \<Rightarrow> index_entries r' (index_entry e (tr_pos r') ix))"
  by pat_completeness auto
termination index_entries
proof (relation "measure (\<lambda>(r, ix). length (tr_src r))")
  fix r ix x found r' e
  assume "next_entry r = Some (Inr x)" "(found, r') = x" "found = Some e"
  then have "length (tr_src r') < length (tr_src r)" using next_entry_shorter by fastforce
  then show "((r', index_entry e (tr_pos r') ix), r, ix) \<in> measure (\<lambda>(r, ix). length (tr_src r))" by simp
qed simp

declare index_entries.simps [simp del]

definition link_member :: "string \<times> string \<Rightarrow> (string, nat \<times> nat) btree \<Rightarrow> (string, nat \<times> nat) btree" where
  "link_member l members =
     (case bt_get str_cmp (normalize_lexical (snd l)) members of
        None \<Rightarrow> members
      | Some m \<Rightarrow> bt_insert str_cmp (fst l) m members)"

definition index_tar :: "byte list \<Rightarrow> (image_error, archive) run" where
  "index_tar bytes =
     run_map_err ArchiveError
       (run_bind (index_entries (tar_start bytes None True) ([], [])) (\<lambda>(members, pending).
          Some (Inr (TarArchive bytes (fold link_member pending members)))))"

definition archive_has :: "archive \<Rightarrow> string \<Rightarrow> bool" where
  "archive_has a name \<longleftrightarrow>
     (case a of
        DirArchive d \<Rightarrow> d name \<noteq> None
      | TarArchive _ members \<Rightarrow> bt_get str_cmp name members \<noteq> None)"

definition archive_open :: "archive \<Rightarrow> string \<Rightarrow> image_error + byte list \<times> nat" where
  "archive_open a name =
     (case a of
        DirArchive d \<Rightarrow>
          (case d name of
             Some (Inr bytes) \<Rightarrow> Inr (bytes, length bytes)
           | Some (Inl e) \<Rightarrow> Inl (Unopened name e)
           | None \<Rightarrow> Inl (Unopened name ''''))
      | TarArchive bytes members \<Rightarrow>
          (case bt_get str_cmp name members of
             None \<Rightarrow> Inl (NotInArchive name)
           | Some (offset, n) \<Rightarrow> Inr (take n (drop offset bytes), n)))"

definition read_json :: "(byte list \<Rightarrow> 'a option) \<Rightarrow> archive \<Rightarrow> string \<Rightarrow> image_error + 'a" where
  "read_json parse a name =
     and_then (archive_open a name) (\<lambda>(bytes, n).
       if max_file_bytes < n then Inl (MemberTooLarge name) else ok_or (InvalidJson name) (parse bytes))"

section \<open>The manifest\<close>

record docker_manifest =
  dm_config :: "string option"
  dm_layers :: "string list"
  dm_repo_tags :: "string list option"

record platform =
  pf_os :: string
  pf_architecture :: string
  pf_variant :: "string option"

record descriptor =
  de_media_type :: string
  de_digest :: string
  de_platform :: "platform option"

record oci_manifest =
  om_config :: "descriptor option"
  om_annotations :: "(string, string) btree"
  om_layers :: "descriptor list"
  om_manifests :: "descriptor list option"

record json_readers =
  jr_docker :: "byte list \<Rightarrow> docker_manifest list option"
  jr_index :: "byte list \<Rightarrow> descriptor list option"
  jr_oci :: "byte list \<Rightarrow> oci_manifest option"
  jr_config :: "byte list \<Rightarrow> image_config option"

record manifest_layer =
  ml_name :: string
  ml_digest :: "string option"

record manifest =
  mf_layers :: "manifest_layer list"
  mf_config :: "string option"
  mf_annotations :: "(string, string) btree"

definition platform_label :: "platform \<Rightarrow> string" where
  "platform_label p =
     (case pf_variant p of
        Some v \<Rightarrow> pf_os p @ ''/'' @ pf_architecture p @ ''/'' @ v
      | None \<Rightarrow> pf_os p @ ''/'' @ pf_architecture p)"

definition is_alnum :: "char \<Rightarrow> bool" where
  "is_alnum c \<longleftrightarrow> is_ascii_digit c \<or> is_ascii_alphabetic c"

definition blob_name :: "string \<Rightarrow> string option" where
  "blob_name digest =
     Option.bind (split_once (CHR '':'') digest) (\<lambda>(alg, hex).
       if alg \<noteq> [] \<and> hex \<noteq> [] \<and> list_all is_alnum hex \<and> list_all is_alnum alg
       then Some (''blobs/'' @ alg @ ''/'' @ hex) else None)"

definition is_hex :: "char \<Rightarrow> bool" where
  "is_hex c \<longleftrightarrow> is_ascii_digit c \<or> (97 \<le> byte c \<and> byte c \<le> 102) \<or> (65 \<le> byte c \<and> byte c \<le> 70)"

definition digest_of_name :: "string \<Rightarrow> string option" where
  "digest_of_name name =
     Option.bind (strip_prefix ''blobs/sha256/'' name) (\<lambda>hex.
       if length hex = 64 \<and> list_all is_hex hex then Some (''sha256:'' @ hex) else None)"

definition docker_image :: "docker_manifest list \<Rightarrow> image_error + manifest" where
  "docker_image ms =
     (case ms of
        [one] \<Rightarrow>
          Inr \<lparr>mf_layers = map (\<lambda>l. let name = normalize_lexical l in \<lparr>ml_name = name, ml_digest = digest_of_name name\<rparr>)
                 (dm_layers one),
               mf_config = map_option normalize_lexical (dm_config one), mf_annotations = []\<rparr>
      | [] \<Rightarrow> Inl ListsNoImage
      | _ \<Rightarrow> Inl (HoldsSeveral (length ms)
          (concat (map (\<lambda>m. case dm_repo_tags m of None \<Rightarrow> [] | Some ts \<Rightarrow> ts) ms))))"

text \<open>The walk over nested indexes; the stack's top is the last of the list.\<close>

definition max_descriptors :: nat where
  "max_descriptors = 1000"

type_synonym found_image = "platform option \<times> oci_manifest"

function walk_index ::
  "json_readers \<Rightarrow> archive \<Rightarrow> nat \<Rightarrow> descriptor list \<Rightarrow> found_image list \<Rightarrow> image_error + found_image list" where
  "walk_index jr a guard stack found =
     (if stack = [] then Inr found
      else
        let d = last stack; rest = butlast stack; guard' = Suc guard in
        if max_descriptors < guard' then Inl NestsTooDeeply
        else if (case de_platform d of None \<Rightarrow> False | Some p \<Rightarrow> pf_os p = ''unknown'') then walk_index jr a guard' rest found
        else (case blob_name (de_digest d) of
            None \<Rightarrow> Inl (BadDigest (de_digest d))
          | Some name \<Rightarrow>
              if \<not> archive_has a name then walk_index jr a guard' rest found
              else (case read_json (jr_oci jr) a name of
                  Inl e \<Rightarrow> Inl e
                | Inr m \<Rightarrow>
                    (case om_manifests m of
                       Some children \<Rightarrow>
                         if contains_str ''index'' (de_media_type d) \<or> om_layers m = []
                         then walk_index jr a guard' (rest @ children) found
                         else walk_index jr a guard' rest (found @ [(de_platform d, m)])
                     | None \<Rightarrow> walk_index jr a guard' rest (found @ [(de_platform d, m)])))))"
  by pat_completeness auto
termination walk_index
  by (relation "measure (\<lambda>(jr, a, guard, stack, found). Suc max_descriptors - guard)") auto

declare walk_index.simps [simp del]

definition oci_layer :: "descriptor \<Rightarrow> image_error + manifest_layer" where
  "oci_layer d =
     (case blob_name (de_digest d) of
        None \<Rightarrow> Inl (BadDigest (de_digest d))
      | Some name \<Rightarrow> Inr \<lparr>ml_name = name, ml_digest = Some (de_digest d)\<rparr>)"

fun oci_layers :: "descriptor list \<Rightarrow> image_error + manifest_layer list" where
  "oci_layers [] = Inr []"
| "oci_layers (d # ds) = and_then (oci_layer d) (\<lambda>l. and_then (oci_layers ds) (\<lambda>ls. Inr (l # ls)))"

definition oci_image :: "string option \<Rightarrow> found_image list \<Rightarrow> image_error + manifest" where
  "oci_image wanted images =
     (let images = (case wanted of
            None \<Rightarrow> images
          | Some w \<Rightarrow> filter (\<lambda>(p, _). case p of None \<Rightarrow> False | Some q \<Rightarrow> platform_label q = w) images)
      in case images of
           [] \<Rightarrow> Inl NoManifestPresent
         | [(_, m)] \<Rightarrow>
             and_then (oci_layers (om_layers m)) (\<lambda>ls.
               Inr \<lparr>mf_layers = ls, mf_config = Option.bind (om_config m) (\<lambda>c. blob_name (de_digest c)),
                    mf_annotations = om_annotations m\<rparr>)
         | _ \<Rightarrow> Inl (SeveralPlatforms (map (\<lambda>(p, _). case p of None \<Rightarrow> ''unknown'' | Some q \<Rightarrow> platform_label q) images)))"

definition manifest_of :: "json_readers \<Rightarrow> archive \<Rightarrow> string option \<Rightarrow> image_error + manifest" where
  "manifest_of jr a wanted =
     (if archive_has a ''manifest.json'' then
        and_then (read_json (jr_docker jr) a ''manifest.json'') docker_image
      else if archive_has a ''index.json'' then
        and_then (read_json (jr_index jr) a ''index.json'') (\<lambda>ds.
          and_then (walk_index jr a 0 ds []) (oci_image wanted))
      else Inl NoImageFound)"

section \<open>The image\<close>

text \<open>The digest of a whole blob, as hexadecimal text, against the one the manifest gives.\<close>

definition digest_matches :: "(byte list \<Rightarrow> string) \<Rightarrow> manifest_layer \<Rightarrow> byte list \<Rightarrow> bool" where
  "digest_matches sha256 l raw \<longleftrightarrow>
     (case Option.bind (ml_digest l) (strip_prefix ''sha256:'') of
        None \<Rightarrow> True
      | Some expected \<Rightarrow> to_ascii_lowercase (sha256 raw) = to_ascii_lowercase expected)"

definition open_layer ::
  "('g, 'r) content_readers \<Rightarrow> decompressors \<Rightarrow> (byte list \<Rightarrow> string) \<Rightarrow> archive \<Rightarrow> nat \<times> manifest_layer \<Rightarrow>
     ('g, 'r) image_fs \<Rightarrow> (image_error, ('g, 'r) image_fs) run" where
  "open_layer rd dc sha256 a il fs =
     (case il of (i, l) \<Rightarrow>
        run_bind (Some (archive_open a (ml_name l))) (\<lambda>(raw, _).
          run_bind (run_map_err (LayerError (ml_name l)) (apply_layer rd i (decompress dc raw) fs)) (\<lambda>fs.
            if digest_matches sha256 l raw then Some (Inr (fs\<lparr>if_layers := i + 1\<rparr>))
            else Some (Inl (DigestMismatch (ml_name l))))))"

definition image_config_of :: "json_readers \<Rightarrow> archive \<Rightarrow> manifest \<Rightarrow> image_config" where
  "image_config_of jr a m =
     (case mf_config m of
        None \<Rightarrow> default_config
      | Some name \<Rightarrow>
          if archive_has a name then (case read_json (jr_config jr) a name of Inr c \<Rightarrow> c | Inl _ \<Rightarrow> default_config)
          else default_config)"

definition open_layers ::
  "('g, 'r) content_readers \<Rightarrow> decompressors \<Rightarrow> (byte list \<Rightarrow> string) \<Rightarrow> json_readers \<Rightarrow> archive \<Rightarrow> string option \<Rightarrow>
     (image_error, ('g, 'r) image_fs) run" where
  "open_layers rd dc sha256 jr a wanted =
     run_bind (Some (manifest_of jr a wanted)) (\<lambda>m.
       let config = image_config_of jr a m in
       run_fold (open_layer rd dc sha256 a) (enumerate 0 (mf_layers m))
         (empty_image\<lparr>if_build := build_new (length (mf_layers m)) config (mf_annotations m)\<rparr>))"

text \<open>A file that holds an image: an archive of blobs, or one root file system, compressed or not.\<close>

definition open_file ::
  "('g, 'r) content_readers \<Rightarrow> decompressors \<Rightarrow> (byte list \<Rightarrow> string) \<Rightarrow> json_readers \<Rightarrow> byte list \<Rightarrow> string option \<Rightarrow>
     (image_error, ('g, 'r) image_fs) run" where
  "open_file rd dc sha256 jr bytes wanted =
     (let rootfs = run_map_err ArchiveError (apply_layer rd 0 (decompress dc bytes) (empty_image\<lparr>if_layers := 1\<rparr>)) in
      if take 2 bytes = [0x1f, 0x8b] \<or> take 4 bytes = [0x28, 0xb5, 0x2f, 0xfd] then rootfs
      else run_bind (index_tar bytes) (\<lambda>a.
        if archive_has a ''manifest.json'' \<or> archive_has a ''index.json'' then open_layers rd dc sha256 jr a wanted
        else rootfs))"

end
