(* ===== verification/Tar_Props.thy ===== *)
theory Tar_Props
  imports Tar
begin

text \<open>
  The tar reader keeps its place: what is left to read is the archive from the position it reports, and
  headers stand at whole blocks.  A reader that seeks over the data of an entry comes to the same
  headers as one that reads it.
\<close>

section \<open>The position\<close>

lemma usize_add_Inr: "usize_add a b = Some (Inr c) \<longleftrightarrow> c = a + b \<and> a + b < 2 ^ 64"
  by (auto simp: usize_add_def checked_add_def run_ok_def)

definition reads_from :: "byte list \<Rightarrow> tar_reader \<Rightarrow> bool" where
  "reads_from bytes r \<longleftrightarrow>
     tr_src r = drop (tr_pos r) bytes \<and> (tr_pos r + tr_remaining r + tr_padding r) mod 512 = 0"

definition at_header :: "byte list \<Rightarrow> tar_reader \<Rightarrow> bool" where
  "at_header bytes r \<longleftrightarrow> reads_from bytes r \<and> tr_remaining r = 0 \<and> tr_padding r = 0"

lemma at_header_iff:
  "at_header bytes r \<longleftrightarrow> tr_src r = drop (tr_pos r) bytes \<and> tr_pos r mod 512 = 0 \<and> tr_remaining r = 0 \<and> tr_padding r = 0"
  by (auto simp: at_header_def reads_from_def)

lemma tar_padding_block: "(n + tar_padding n) mod 512 = 0"
proof -
  have "n mod 512 < 512" by simp
  then have "n mod 512 + tar_padding n = 0 \<or> n mod 512 + tar_padding n = 512"
    by (cases "n mod 512 = 0") (simp_all add: tar_padding_def)
  then have "(n mod 512 + tar_padding n) mod 512 = 0" by auto
  then show ?thesis by (simp add: mod_add_left_eq)
qed

lemma open_data: "p mod 512 = 0 \<Longrightarrow> (p + n + tar_padding n) mod 512 = (0 :: nat)"
  using tar_padding_block [of n] by (metis add.assoc add.left_neutral mod_add_left_eq)

lemma finish_entry_reads:
  assumes "reads_from bytes r" "finish_entry r = Some (Inr r')"
  shows "at_header bytes r'"
  using assms
  by (auto simp: finish_entry_def run_bind_Inr skip_bytes_def usize_add_Inr reads_from_def at_header_def add_ac
      split: if_splits)

lemma read_data_reads:
  assumes "reads_from bytes r" "read_data n r = Some (Inr (data, r'))"
  shows "reads_from bytes r'" and "data = take (min (tr_remaining r) n) (drop (tr_pos r) bytes)"
    and "length data = min (tr_remaining r) n" and "tr_remaining r' = tr_remaining r - n"
  using assms
  by (auto simp: read_data_def run_bind_Inr usize_add_Inr reads_from_def Let_def add_ac split: if_splits)

lemma read_block_reads:
  assumes "at_header bytes r" "read_block r = Some (Inr (block, r'))"
  shows "at_header bytes r'"
  using assms
  by (auto simp: read_block_def run_bind_Inr usize_add_Inr at_header_def reads_from_def add_ac split: if_splits)

lemma read_meta_reads:
  assumes "at_header bytes r" "read_meta n r = Some (Inr (data, r'))"
  shows "at_header bytes r'"
proof -
  have "reads_from bytes (r\<lparr>tr_remaining := n, tr_padding := tar_padding n\<rparr>)"
    using assms(1) by (simp add: at_header_iff reads_from_def open_data)
  then show ?thesis
    using assms(2) by (auto simp: read_meta_def run_bind_Inr split: if_splits
        dest: read_data_reads(1) intro: finish_entry_reads)
qed

lemma read_header_reads:
  assumes "at_header bytes r" "read_header r ov = Some (Inr step)"
  shows "case step of TarEnd r' \<Rightarrow> reads_from bytes r' | TarMeta r' _ \<Rightarrow> at_header bytes r' | TarFound _ r' \<Rightarrow> reads_from bytes r'"
proof -
  obtain found r1 where b: "read_block r = Some (Inr (found, r1))"
    using assms(2) by (auto simp: read_header_def run_bind_Inr)
  then have r1: "at_header bytes r1" using read_block_reads assms(1) by blast
  then have "reads_from bytes r1" and "reads_from bytes (open_entry e r1)" for e
    by (simp_all add: at_header_iff reads_from_def open_entry_def open_data)
  then show ?thesis
    using assms(2) b r1
    by (auto simp: read_header_def run_bind_Inr Let_def split: option.splits if_splits dest: read_meta_reads)
qed

lemma read_headers_reads:
  assumes "at_header bytes r" "read_headers r ov = Some (Inr (found, r'))"
  shows "reads_from bytes r'"
  using assms
proof (induction r ov rule: read_headers.induct)
  case (1 r ov)
  obtain step where s: "read_header r ov = Some (Inr step)"
    using "1.prems"(2) by (subst (asm) read_headers.simps) (auto simp: run_bind_Inr)
  note kept = read_header_reads [OF "1.prems"(1) s]
  show ?case
  proof (cases step)
    case (TarMeta r2 ov2)
    then show ?thesis
      using 1 s kept by (subst (asm) (2) read_headers.simps) simp
  qed (use "1.prems"(2) s kept in \<open>subst (asm) read_headers.simps, simp\<close>)+
qed

lemma next_entry_reads:
  assumes "reads_from bytes r" "next_entry r = Some (Inr (found, r'))"
  shows "reads_from bytes r'"
  using assms by (auto simp: next_entry_def run_bind_Inr dest: finish_entry_reads read_headers_reads)

lemma tar_start_reads: "reads_from bytes (tar_start bytes failure seeks)"
  by (simp add: reads_from_def tar_start_def)

section \<open>Seeking\<close>

definition seeking :: "tar_reader \<Rightarrow> tar_reader" where
  "seeking r = r\<lparr>tr_seeks := True\<rparr>"

lemma seeking_simps [simp]:
  "tr_src (seeking r) = tr_src r" "tr_failure (seeking r) = tr_failure r" "tr_seeks (seeking r)"
  "tr_remaining (seeking r) = tr_remaining r" "tr_padding (seeking r) = tr_padding r" "tr_pos (seeking r) = tr_pos r"
  "seeking r\<lparr>tr_src := s\<rparr> = seeking (r\<lparr>tr_src := s\<rparr>)" "seeking r\<lparr>tr_pos := p\<rparr> = seeking (r\<lparr>tr_pos := p\<rparr>)"
  "seeking r\<lparr>tr_remaining := n\<rparr> = seeking (r\<lparr>tr_remaining := n\<rparr>)" "seeking r\<lparr>tr_padding := n\<rparr> = seeking (r\<lparr>tr_padding := n\<rparr>)"
  by (simp_all add: seeking_def)

text \<open>A reader that has not lost its place has not passed the end of the archive.\<close>

definition small :: "byte list \<Rightarrow> tar_reader \<Rightarrow> bool" where
  "small bytes r \<longleftrightarrow> reads_from bytes r \<and> tr_pos r \<le> length bytes \<and> length bytes < 2 ^ 63 \<and> \<not> tr_seeks r"

lemma small_finish_entry:
  assumes "small bytes r" "finish_entry r = Some (Inr r')"
  shows "small bytes r'" "finish_entry (seeking r) = Some (Inr (seeking r'))"
proof -
  show "small bytes r'"
    using assms finish_entry_reads [of bytes r r']
    by (auto simp: small_def at_header_def finish_entry_def skip_bytes_def run_bind_Inr usize_add_Inr reads_from_def split: if_splits)
  show "finish_entry (seeking r) = Some (Inr (seeking r'))"
    using assms
    by (auto simp: small_def finish_entry_def skip_bytes_def run_bind_Inr usize_add_Inr reads_from_def split: if_splits)
qed

lemma small_read_data:
  assumes "small bytes r" "read_data n r = Some (Inr (data, r'))"
  shows "small bytes r'" "read_data n (seeking r) = Some (Inr (data, seeking r'))"
proof -
  show "small bytes r'"
    using assms read_data_reads(1) [of bytes r n data r']
    by (auto simp: small_def read_data_def run_bind_Inr usize_add_Inr reads_from_def Let_def split: if_splits)
  show "read_data n (seeking r) = Some (Inr (data, seeking r'))"
    using assms by (auto simp: read_data_def run_bind_Inr usize_add_Inr Let_def split: if_splits)
qed

lemma small_read_block:
  assumes "small bytes r" "at_header bytes r" "read_block r = Some (Inr (found, r'))"
  shows "small bytes r'" "read_block (seeking r) = Some (Inr (found, seeking r'))"
proof -
  show "small bytes r'"
    using assms read_block_reads [OF assms(2,3)]
    by (auto simp: small_def at_header_def read_block_def run_bind_Inr usize_add_Inr reads_from_def split: if_splits)
  show "read_block (seeking r) = Some (Inr (found, seeking r'))"
    using assms(3) by (auto simp: read_block_def run_bind_Inr usize_add_Inr split: if_splits)
qed

lemma small_read_meta:
  assumes "small bytes r" "at_header bytes r" "read_meta n r = Some (Inr (data, r'))"
  shows "small bytes r'" "read_meta n (seeking r) = Some (Inr (data, seeking r'))"
proof -
  let ?r = "r\<lparr>tr_remaining := n, tr_padding := tar_padding n\<rparr>"
  have r: "small bytes ?r"
    using assms(1,2) by (simp add: small_def at_header_iff reads_from_def open_data)
  obtain r2 where r2: "\<not> max_meta < n" "read_data n ?r = Some (Inr (data, r2))" "finish_entry r2 = Some (Inr r')"
    using assms(3) by (auto simp: read_meta_def run_bind_Inr split: if_splits)
  note d = small_read_data [OF r r2(2)]
  note f = small_finish_entry [OF d(1) r2(3)]
  show "small bytes r'" by (rule f)
  show "read_meta n (seeking r) = Some (Inr (data, seeking r'))"
    using r2(1) d(2) f(2) by (simp add: read_meta_def)
qed

fun seeking_step :: "tar_step \<Rightarrow> tar_step" where
  "seeking_step (TarEnd r) = TarEnd (seeking r)"
| "seeking_step (TarMeta r ov) = TarMeta (seeking r) ov"
| "seeking_step (TarFound e r) = TarFound e (seeking r)"

fun step_reader :: "tar_step \<Rightarrow> tar_reader" where
  "step_reader (TarEnd r) = r"
| "step_reader (TarMeta r ov) = r"
| "step_reader (TarFound e r) = r"

lemma small_read_header:
  assumes "small bytes r" "at_header bytes r" "read_header r ov = Some (Inr step)"
  shows "small bytes (step_reader step)" "read_header (seeking r) ov = Some (Inr (seeking_step step))"
proof -
  obtain found r1 where b: "read_block r = Some (Inr (found, r1))"
    using assms(3) by (auto simp: read_header_def run_bind_Inr)
  note r1 = small_read_block [OF assms(1,2) b] and h = read_block_reads [OF assms(2) b]
  have o: "small bytes (open_entry e r1)" "open_entry e (seeking r1) = seeking (open_entry e r1)" for e
    using r1(1) h by (simp_all add: small_def at_header_iff reads_from_def open_entry_def open_data)
  have "small bytes (step_reader step) \<and> read_header (seeking r) ov = Some (Inr (seeking_step step))"
    using assms(3) b r1 o small_read_meta [OF r1(1) h]
    by (auto simp: read_header_def run_bind_Inr Let_def split: option.splits if_splits)
  then show "small bytes (step_reader step)" "read_header (seeking r) ov = Some (Inr (seeking_step step))" by blast+
qed

lemma small_read_headers:
  assumes "small bytes r" "at_header bytes r" "read_headers r ov = Some (Inr (found, r'))"
  shows "small bytes r' \<and> read_headers (seeking r) ov = Some (Inr (found, seeking r'))"
  using assms
proof (induction r ov rule: read_headers.induct)
  case (1 r ov)
  obtain step where s: "read_header r ov = Some (Inr step)"
    using "1.prems"(3) by (subst (asm) read_headers.simps) (auto simp: run_bind_Inr)
  note kept = small_read_header [OF "1.prems"(1,2) s] and at = read_header_reads [OF "1.prems"(2) s]
  show ?case
  proof (cases step)
    case (TarMeta r2 ov2)
    then have "read_headers r2 ov2 = Some (Inr (found, r'))"
      using "1.prems"(3) s by (subst (asm) read_headers.simps) simp
    then have "small bytes r' \<and> read_headers (seeking r2) ov2 = Some (Inr (found, seeking r'))"
      using "1.IH" s TarMeta kept(1) at by simp
    then show ?thesis using kept(2) TarMeta by (subst read_headers.simps) simp
  next
    case (TarEnd r2)
    then show ?thesis
      using "1.prems"(3) s kept by (subst (asm) read_headers.simps, subst read_headers.simps) simp
  next
    case (TarFound e r2)
    then show ?thesis
      using "1.prems"(3) s kept by (subst (asm) read_headers.simps, subst read_headers.simps) simp
  qed
qed

lemma small_next_entry:
  assumes "small bytes r" "next_entry r = Some (Inr (found, r'))"
  shows "small bytes r'" "next_entry (seeking r) = Some (Inr (found, seeking r'))"
proof -
  obtain r1 where r1: "finish_entry r = Some (Inr r1)" "read_headers r1 no_overrides = Some (Inr (found, r'))"
    using assms(2) by (auto simp: next_entry_def run_bind_Inr)
  note f = small_finish_entry [OF assms(1) r1(1)]
  have "at_header bytes r1" using finish_entry_reads assms(1) r1(1) by (auto simp: small_def)
  then show "small bytes r'" "next_entry (seeking r) = Some (Inr (found, seeking r'))"
    using small_read_headers [OF f(1) _ r1(2)] f(2) by (simp_all add: next_entry_def)
qed

text \<open>
  Some of an entry's data can be read where the entry can be left behind, and what is left of it
  after that is skipped to the same place.
\<close>

lemma finish_entry_Inr:
  assumes "\<not> tr_seeks r"
  shows "finish_entry r = Some (Inr r2) \<longleftrightarrow>
    tr_remaining r + tr_padding r \<le> length (tr_src r) \<and> tr_remaining r + tr_padding r < 2 ^ 64 \<and>
    (tr_remaining r + tr_padding r = 0 \<or> tr_pos r + (tr_remaining r + tr_padding r) < 2 ^ 64) \<and>
    r2 = r\<lparr>tr_src := drop (tr_remaining r + tr_padding r) (tr_src r),
      tr_pos := tr_pos r + (tr_remaining r + tr_padding r), tr_remaining := 0, tr_padding := 0\<rparr>"
  using assms by (auto simp: finish_entry_def skip_bytes_def run_bind_Inr usize_add_Inr)

lemma read_data_Inr:
  "read_data n r = Some (Inr (data, r1)) \<longleftrightarrow>
     min (tr_remaining r) n \<le> length (tr_src r) \<and> tr_pos r + min (tr_remaining r) n < 2 ^ 64 \<and>
     data = take (min (tr_remaining r) n) (tr_src r) \<and>
     r1 = r\<lparr>tr_src := drop (min (tr_remaining r) n) (tr_src r),
       tr_remaining := tr_remaining r - min (tr_remaining r) n, tr_pos := tr_pos r + min (tr_remaining r) n\<rparr>"
  by (auto simp: read_data_def run_bind_Inr usize_add_Inr Let_def not_less)

lemma next_after_read:
  assumes r: "\<not> tr_seeks r" and d: "read_data n r = Some (Inr (data, r1))" and f: "finish_entry r1 = Some (Inr r2)"
  shows "finish_entry r = Some (Inr r2)"
proof -
  define k where "k = min (tr_remaining r) n"
  have k: "k \<le> tr_remaining r" by (simp add: k_def)
  have d': "k \<le> length (tr_src r)" "tr_pos r + k < 2 ^ 64"
    "r1 = r\<lparr>tr_src := drop k (tr_src r), tr_remaining := tr_remaining r - k, tr_pos := tr_pos r + k\<rparr>"
    using d by (simp_all add: read_data_Inr k_def)
  have "\<not> tr_seeks r1" using r d'(3) by simp
  from f [unfolded finish_entry_Inr [OF this]] show ?thesis
    unfolding finish_entry_Inr [OF r] using d' k by (auto simp: add.commute)
qed

lemma read_before_next:
  assumes r: "\<not> tr_seeks r" and f: "finish_entry r = Some (Inr r2)" and pos: "tr_pos r < 2 ^ 64"
  obtains r1 where "read_data n r = Some (Inr (take (min (tr_remaining r) n) (tr_src r), r1))"
    and "finish_entry r1 = Some (Inr r2)"
proof -
  define k where "k = min (tr_remaining r) n"
  have k: "k \<le> tr_remaining r" by (simp add: k_def)
  let ?r1 = "r\<lparr>tr_src := drop k (tr_src r), tr_remaining := tr_remaining r - k, tr_pos := tr_pos r + k\<rparr>"
  note f' = f [unfolded finish_entry_Inr [OF r]]
  have "read_data n r = Some (Inr (take k (tr_src r), ?r1))"
    using f' k pos unfolding read_data_Inr by (auto simp: k_def)
  moreover have "\<not> tr_seeks ?r1" using r by simp
  then have "finish_entry ?r1 = Some (Inr r2)"
    unfolding finish_entry_Inr [OF \<open>\<not> tr_seeks ?r1\<close>] using f' k by auto
  ultimately show ?thesis using that by (simp add: k_def)
qed

text \<open>A found entry's data is what is left to read, at a position that fits; whether the reader seeks does not change.\<close>

lemma finish_entry_seeks: "finish_entry r = Some (Inr r') \<Longrightarrow> tr_seeks r' = tr_seeks r"
  by (auto simp: finish_entry_def skip_bytes_def run_bind_Inr split: if_splits)

lemma read_data_seeks: "read_data n r = Some (Inr (data, r')) \<Longrightarrow> tr_seeks r' = tr_seeks r"
  by (auto simp: read_data_Inr)

lemma read_header_seeks:
  assumes "read_header r ov = Some (Inr step)"
  shows "tr_seeks (step_reader step) = tr_seeks r"
    and "step = TarFound e r' \<Longrightarrow> tr_remaining r' = entry_data e \<and> tr_pos r' < 2 ^ 64"
proof -
  obtain found r1 where b: "read_block r = Some (Inr (found, r1))"
    using assms by (auto simp: read_header_def run_bind_Inr)
  have r1: "tr_seeks r1 = tr_seeks r" and pos: "found \<noteq> None \<Longrightarrow> tr_pos r1 < 2 ^ 64"
    using b by (auto simp: read_block_def run_bind_Inr usize_add_Inr split: if_splits)
  have meta: "tr_seeks r3 = tr_seeks r2" if "read_meta n r2 = Some (Inr (data, r3))" for n r2 data r3
    using that by (auto simp: read_meta_def run_bind_Inr split: if_splits dest!: finish_entry_seeks read_data_seeks)
  show "tr_seeks (step_reader step) = tr_seeks r"
    using assms b r1 by (auto simp: read_header_def run_bind_Inr Let_def open_entry_def split: option.splits if_splits dest: meta)
  show "tr_remaining r' = entry_data e \<and> tr_pos r' < 2 ^ 64" if "step = TarFound e r'"
    using assms b pos that by (auto simp: read_header_def run_bind_Inr Let_def open_entry_def split: option.splits if_splits)
qed

lemma read_headers_seeks:
  "read_headers r ov = Some (Inr (found, r')) \<Longrightarrow>
     tr_seeks r' = tr_seeks r \<and> (\<forall>e. found = Some e \<longrightarrow> tr_remaining r' = entry_data e \<and> tr_pos r' < 2 ^ 64)"
proof (induction r ov rule: read_headers.induct)
  case (1 r ov)
  obtain step where s: "read_header r ov = Some (Inr step)"
    using "1.prems" by (subst (asm) read_headers.simps) (auto simp: run_bind_Inr)
  note kept = read_header_seeks [OF s]
  show ?case
  proof (cases step)
    case (TarMeta r2 ov2)
    then have "read_headers r2 ov2 = Some (Inr (found, r'))"
      using "1.prems" s by (subst (asm) read_headers.simps) simp
    then show ?thesis using "1.IH" [OF s TarMeta] kept(1) TarMeta by simp
  next
    case (TarFound e r2)
    then have "found = Some e" "r' = r2" using "1.prems" s by (subst (asm) read_headers.simps, simp)+
    then show ?thesis using kept TarFound by simp
  next
    case (TarEnd r2)
    then have "found = None" "r' = r2" using "1.prems" s by (subst (asm) read_headers.simps, simp)+
    then show ?thesis using kept(1) TarEnd by simp
  qed
qed

lemma next_entry_seeks:
  "next_entry r = Some (Inr (found, r')) \<Longrightarrow>
     tr_seeks r' = tr_seeks r \<and> (\<forall>e. found = Some e \<longrightarrow> tr_remaining r' = entry_data e \<and> tr_pos r' < 2 ^ 64)"
  by (auto simp: next_entry_def run_bind_Inr dest!: finish_entry_seeks read_headers_seeks)

section \<open>Reading in sequence\<close>

text \<open>The entries of an archive with their data, read one after another.\<close>

function tar_files :: "tar_reader \<Rightarrow> (tar_entry \<times> byte list) list tar_run" where
  "tar_files r =
     run_bind (next_entry r) (\<lambda>(found, r').
       case found of
         None \<Rightarrow> Some (Inr [])
       | Some e \<Rightarrow> run_bind (read_data (te_size e) r') (\<lambda>(data, r'').
           run_bind (tar_files r'') (\<lambda>rest. Some (Inr ((e, data) # rest)))))"
  by pat_completeness auto
termination tar_files
proof (relation "measure (\<lambda>r. length (tr_src r))")
  fix r x found r' e y data r''
  assume "next_entry r = Some (Inr x)" "(found, r') = x" "found = Some e"
    "read_data (te_size e) r' = Some (Inr y)" "(data, r'') = y"
  then have "length (tr_src r'') < length (tr_src r)" using next_entry_shorter read_data_shorter by fastforce
  then show "(r'', r) \<in> measure (\<lambda>r. length (tr_src r))" by simp
qed simp

declare tar_files.simps [simp del]

section \<open>A size that does not fit\<close>

text \<open>An entry of the largest size has a padding its size cannot be added to.\<close>

lemma huge_entry_panics:
  "te_kind e = TarFile \<Longrightarrow> te_size e = 2 ^ 64 - 1 \<Longrightarrow> next_entry (open_entry e r) = None"
  by (simp add: next_entry_def finish_entry_def open_entry_def entry_data_def tar_padding_def usize_add_def checked_add_def run_ok_def)

end
