(* ===== verification/Tar_Example.thy ===== *)
theory Tar_Example
  imports Tar_Props
begin

text \<open>A small archive, worked through: its header, checksum, entry and data.\<close>

lemma byte_sum_parts:
  assumes "length a = 148" "length b = 8"
  shows "byte_sum (a @ b @ c) = sum_list (map unat a) + 256 + sum_list (map unat c)"
proof -
  have lo: "map (\<lambda>(i, x). if 148 \<le> i \<and> i < 156 then 32 else unat x) (enumerate k xs) = map unat xs" if "k + length xs \<le> 148 \<or> 156 \<le> k" for k and xs :: "byte list"
    using that by (induction xs arbitrary: k) auto
  have mid: "map (\<lambda>(i, x). if 148 \<le> i \<and> i < 156 then 32 else unat x) (enumerate k xs) = replicate (length xs) 32" if "148 \<le> k" "k + length xs \<le> 156" for k and xs :: "byte list"
    using that by (induction xs arbitrary: k) auto
  show ?thesis using assms by (simp add: byte_sum_def enumerate_append_eq lo mid sum_list_replicate)
qed

text \<open>An archive of one file, \<^verbatim>\<open>a\<close>, that holds one byte.\<close>

definition one_header :: "byte list" where
  "one_header = ([97] @ replicate 123 0 @ [49] @ replicate 23 0) @ ([55, 48, 50] @ replicate 5 0) @ ([48] @ replicate 355 0)"

definition one_file :: "byte list" where
  "one_file = one_header @ [65] @ replicate 511 0"

lemma one_header_length: "length one_header = 512" by (simp add: one_header_def)

lemma one_header_ranges:
  "get_range one_header 148 156 = Some ([55, 48, 50] @ replicate 5 0)" "get_range one_header 124 136 = Some ([49] @ replicate 11 0)"
  "get_range one_header 0 100 = Some ([97] @ replicate 99 0)" "get_range one_header 257 263 = Some (replicate 6 0)"
  "get_range one_header 157 257 = Some (replicate 100 0)" "get_range one_header 100 108 = Some (replicate 8 0)"
  "one_header ! 156 = 48" "\<not> list_all (\<lambda>b. b = 0) one_header"
  by (simp_all add: one_header_def get_range_def nth_append take_Cons' drop_Cons')

lemma one_header_checksum: "checksum_ok one_header = Inr True"
proof -
  have "byte_sum one_header = 450" unfolding one_header_def by (subst byte_sum_parts) (simp_all add: sum_list_replicate)
  moreover have "tar_number one_header 148 8 = Inr 450" by (simp add: tar_number_def one_header_ranges) code_simp
  ultimately show ?thesis by (simp add: checksum_ok_def)
qed

lemma one_header_number: "tar_number one_header 124 12 = Inr 1"
  by (simp add: tar_number_def one_header_ranges) code_simp

lemma one_header_entry: "make_entry one_header 48 1 no_overrides = \<lparr>te_path = ''a'', te_kind = TarFile, te_size = 1, te_mode = 0\<rparr>"
proof -
  have "tar_field one_header 0 100 = [97]" "tar_field one_header 257 6 = []" "tar_field one_header 157 100 = []"
    by (simp_all add: tar_field_def one_header_ranges takeWhile_replicate)
  moreover have "from_utf8_lossy [97] = ''a''" "raw_text [] = []" "from_utf8_lossy [] = []" "\<not> starts_with ''ustar'' []"
    "\<not> ends_with ''/'' ''a''"
    by code_simp+
  moreover have "tar_mode one_header = 0"
  proof -
    have "trim_zeros (from_utf8_lossy (replicate 8 0)) = []" by code_simp
    then show ?thesis by (simp add: tar_mode_def tar_number_def one_header_ranges)
  qed
  ultimately show ?thesis by (simp add: make_entry_def tar_path_def no_overrides_def tar_kind_of_def)
qed

text \<open>The reader at the file's data, and at the end.\<close>

definition one_open :: tar_reader where
  "one_open = \<lparr>tr_src = [65] @ replicate 511 0, tr_failure = None, tr_seeks = False, tr_remaining = 1, tr_padding = 511, tr_pos = 512\<rparr>"

definition one_end :: tar_reader where
  "one_end = \<lparr>tr_src = [], tr_failure = None, tr_seeks = False, tr_remaining = 0, tr_padding = 0, tr_pos = 1024\<rparr>"

definition one_entry :: tar_entry where
  "one_entry = \<lparr>te_path = ''a'', te_kind = TarFile, te_size = 1, te_mode = 0\<rparr>"

lemmas header_reading =
  next_entry_def read_headers.simps read_header_def read_block_def finish_entry_def skip_bytes_def usize_add_def
  checked_add_def run_ok_def

lemma one_file_next: "next_entry (tar_start one_file None False) = Some (Inr (Some one_entry, one_open))"
  by (simp add: header_reading tar_start_def one_file_def one_header_length one_header_ranges one_header_checksum
      one_header_number one_header_entry [simplified] Let_def open_entry_def entry_data_def tar_padding_def one_entry_def one_open_def)

lemma one_file_end: "next_entry one_open = Some (Inr (None, one_end))"
  by (simp add: header_reading one_open_def one_end_def)

lemma one_file_read: "tar_files (tar_start one_file None False) = Some (Inr [(one_entry, [65])])"
proof -
  let ?r = "one_open\<lparr>tr_src := replicate 511 0, tr_remaining := 0, tr_pos := 513\<rparr>"
  have "read_data 1 one_open = Some (Inr ([65], ?r))"
    by (simp add: read_data_def usize_add_def checked_add_def run_ok_def one_open_def)
  moreover have "next_entry ?r = Some (Inr (None, one_end))"
    by (simp add: header_reading one_open_def one_end_def)
  then have "tar_files ?r = Some (Inr [])"
    by (subst tar_files.simps) simp
  ultimately show ?thesis
    using one_file_next by (subst tar_files.simps) (simp add: one_entry_def)
qed

end
