(* ===== verification/Image_Fs_Props.thy ===== *)
theory Image_Fs_Props
  imports Image_Fs
begin

text \<open>
  What merging the layers of an image comes to, and what following its links ends at.  The first
  part turns the scans over ranges of the map into sets of paths.
\<close>

section \<open>Prefixes in the order of text\<close>

lemma str_cmp_Cons [simp]:
  "str_cmp [] [] = Equal" "str_cmp [] (c # s) = Less" "str_cmp (c # s) [] = Greater"
  "str_cmp (c # s) (d # t) = (if c = d then str_cmp s t else if byte c < byte d then Less else Greater)"
  by (simp_all add: str_cmp_def byte_cmp_def cmp_on_def ord_cmp_def)

lemma str_less_extension: "str_cmp p (p @ c # r) = Less"
  by (induction p) simp_all

lemma starts_with_Cons [simp]:
  "starts_with [] s" "\<not> starts_with (p # ps) []" "starts_with (p # ps) (c # cs) \<longleftrightarrow> c = p \<and> starts_with ps cs"
  by (simp_all add: starts_with_def)

lemma between_prefix:
  "str_cmp y p \<noteq> Less \<Longrightarrow> str_cmp y x = Less \<Longrightarrow> starts_with p x \<Longrightarrow> starts_with p y"
proof (induction p arbitrary: x y)
  case (Cons c p)
  then show ?case by (cases x; cases y) (auto split: if_splits)
qed simp

lemma prefix_not_below: "starts_with p x \<Longrightarrow> str_cmp x p \<noteq> Less"
proof (induction p arbitrary: x)
  case Nil
  then show ?case by (cases x) simp_all
next
  case (Cons c p)
  then show ?case by (cases x) auto
qed

text \<open>Text between a path and its first possible descendant: the path followed by a character before the slash.\<close>

lemma between_slash:
  "str_cmp p y = Less \<and> str_cmp y (p @ ''/'') = Less \<longleftrightarrow> (\<exists>c r. y = p @ c # r \<and> byte c < byte (CHR ''/''))"
proof (induction p arbitrary: y)
  case Nil
  then show ?case by (cases y; cases "tl y") (auto split: if_splits)
next
  case (Cons d p)
  then show ?case by (cases y) (auto split: if_splits)
qed

section \<open>Ranges\<close>

abbreviation key_less :: "string \<times> 'v \<Rightarrow> string \<times> 'v \<Rightarrow> bool" where
  "key_less p q \<equiv> str_cmp (fst p) (fst q) = Less"

lemma bt_from_filter: "bt_wf str_cmp m \<Longrightarrow> bt_from str_cmp k m = filter (\<lambda>p. str_cmp (fst p) k \<noteq> Less) m"
proof (induction m)
  case (Cons p m)
  show ?case
  proof (cases "str_cmp (fst p) k = Less")
    case False
    have "str_cmp (fst q) k \<noteq> Less" if "q \<in> set m" for q
      using Cons.prems that False str.cmp_less_trans [of "fst p" "fst q" k] by auto
    then have "filter (\<lambda>p. str_cmp (fst p) k \<noteq> Less) m = m" by (simp add: filter_id_conv)
    then show ?thesis using False by (simp add: bt_from_def)
  qed (use Cons in \<open>simp add: bt_from_def\<close>)
qed (simp add: bt_from_def)

lemma takeWhile_before:
  assumes "sorted_wrt R xs" and "x \<in> set (takeWhile P xs)" and "y \<in> set xs" and "R y x"
    and "\<And>z. \<not> R z z" and "\<And>a b c. R a b \<Longrightarrow> R b c \<Longrightarrow> R a c"
  shows "P y"
  using assms(1-4)
proof (induction xs)
  case (Cons z zs)
  then have z: "P z" and x: "x = z \<or> x \<in> set (takeWhile P zs)" by (auto split: if_splits)
  show ?case
  proof (cases "y = z")
    case False
    then have y: "y \<in> set zs" using Cons.prems(3) by simp
    then have "R z y" using Cons.prems(1) by simp
    then have "x \<noteq> z" using Cons.prems(4) assms(5,6) by blast
    then show ?thesis using Cons x y by simp
  qed (simp add: z)
qed simp

lemma takeWhile_convex:
  assumes "sorted_wrt R xs" and "\<And>x y. x \<in> set xs \<Longrightarrow> y \<in> set xs \<Longrightarrow> R y x \<Longrightarrow> P x \<Longrightarrow> P y"
  shows "set (takeWhile P xs) = {x \<in> set xs. P x}"
  using assms
proof (induction xs)
  case (Cons z zs)
  have "\<not> P z \<Longrightarrow> \<forall>x \<in> set zs. \<not> P x" using Cons.prems by auto
  moreover have "set (takeWhile P zs) = {x \<in> set zs. P x}"
  proof (rule Cons.IH)
    show "sorted_wrt R zs" using Cons.prems(1) by simp
    show "P y" if "x \<in> set zs" "y \<in> set zs" "R y x" "P x" for x y using Cons.prems(2) [of x y] that by simp
  qed
  ultimately show ?case by auto
qed simp

lemma key_less_order: "\<not> key_less z z" "key_less a b \<Longrightarrow> key_less b c \<Longrightarrow> key_less a c"
  by (auto intro: str.cmp_less_trans)

section \<open>Removal\<close>

lemma bt_wf_remove: "bt_wf c m \<Longrightarrow> bt_wf c (bt_remove c k m)"
  unfolding bt_wf_def bt_remove_def by (rule sorted_wrt_filter)

lemma bt_get_remove: "bt_wf str_cmp m \<Longrightarrow> bt_get str_cmp k (bt_remove str_cmp k' m) = (if k = k' then None else bt_get str_cmp k m)"
proof (induction m)
  case (Cons p m)
  obtain q v where p: "p = (q, v)" by (cases p)
  have "str_cmp k q = Less \<Longrightarrow> bt_get str_cmp k (bt_remove str_cmp k' m) = None"
    using Cons.prems str.cmp_less_trans [of k q] by (intro str.bt_get_none) (fastforce simp: p bt_remove_def)
  then show ?case using Cons by (auto simp: p bt_remove_def split: ordering.split)
qed (simp add: bt_remove_def)

lemma wf_remove_keys: "bt_wf str_cmp m \<Longrightarrow> bt_wf str_cmp (remove_keys ks m)"
  unfolding remove_keys_def by (induction ks arbitrary: m) (simp_all add: bt_wf_remove)

lemma get_remove_keys:
  "bt_wf str_cmp m \<Longrightarrow> bt_get str_cmp k (remove_keys ks m) = (if k \<in> set ks then None else bt_get str_cmp k m)"
  unfolding remove_keys_def by (induction ks arbitrary: m) (simp_all add: bt_wf_remove bt_get_remove)

text \<open>Entries of layers below \<open>layer\<close> at paths in \<open>S\<close> are no longer seen.\<close>

definition hide :: "(string \<Rightarrow> bool) \<Rightarrow> nat \<Rightarrow> (string \<Rightarrow> image_entry option) \<Rightarrow> string \<Rightarrow> image_entry option" where
  "hide S layer A p = (case A p of None \<Rightarrow> None | Some e \<Rightarrow> if S p \<and> ie_layer e < layer then None else Some e)"

lemma get_remove_where:
  assumes wf: "bt_wf str_cmp m" and "set xs = {p \<in> set m. S (fst p)}"
  shows "bt_get str_cmp k (remove_keys (map fst (filter (\<lambda>p. ie_layer (snd p) < layer \<and> T (fst p)) xs)) m) =
    hide (\<lambda>p. S p \<and> T p) layer (\<lambda>p. bt_get str_cmp p m) k"
proof (cases "bt_get str_cmp k m")
  case None
  then show ?thesis by (simp add: get_remove_keys [OF wf] hide_def)
next
  case (Some e)
  then obtain k' where "(k', e) \<in> set m" "str_cmp k k' = Equal" using str.bt_get_SomeD by metis
  then have mem: "(k, e) \<in> set m" by simp
  have unique: "e' = e" if "(k, e') \<in> set m" for e'
    using str.bt_get_mem [OF wf that] Some by simp
  have "k \<in> fst ` {p \<in> set m. S (fst p) \<and> ie_layer (snd p) < layer \<and> T (fst p)} \<longleftrightarrow> S k \<and> ie_layer e < layer \<and> T k"
  proof -
    have "k \<in> fst ` {p \<in> set m. S (fst p) \<and> ie_layer (snd p) < layer \<and> T (fst p)} \<longleftrightarrow>
        (\<exists>e'. (k, e') \<in> set m \<and> S k \<and> ie_layer e' < layer \<and> T k)" by force
    then show ?thesis using mem unique by blast
  qed
  moreover have "set (map fst (filter (\<lambda>p. ie_layer (snd p) < layer \<and> T (fst p)) xs)) =
      fst ` {p \<in> set m. S (fst p) \<and> ie_layer (snd p) < layer \<and> T (fst p)}"
    using assms(2) by auto
  ultimately show ?thesis using Some by (simp add: get_remove_keys [OF wf] hide_def)
qed

text \<open>The scan over the descendants of a directory visits exactly them.\<close>

lemma prefix_range:
  assumes "bt_wf str_cmp m"
  shows "set (takeWhile (\<lambda>p. starts_with pre (fst p)) (bt_from str_cmp pre m)) = {p \<in> set m. starts_with pre (fst p)}"
proof -
  have sorted: "sorted_wrt key_less (bt_from str_cmp pre m)"
    unfolding bt_from_filter [OF assms] by (rule sorted_wrt_filter) (use assms in \<open>simp add: bt_wf_def\<close>)
  have "set (takeWhile (\<lambda>p. starts_with pre (fst p)) (bt_from str_cmp pre m)) =
      {p \<in> set (bt_from str_cmp pre m). starts_with pre (fst p)}"
    by (rule takeWhile_convex [OF sorted]) (auto simp: bt_from_filter [OF assms] intro: between_prefix)
  then show ?thesis using prefix_not_below by (auto simp: bt_from_filter [OF assms])
qed

text \<open>A path that sorts between another and its descendants.\<close>

definition splits_tree :: "string \<Rightarrow> string \<Rightarrow> bool" where
  "splits_tree path q \<longleftrightarrow> str_cmp path q = Less \<and> str_cmp q (path @ ''/'') = Less"

definition in_tree :: "string \<Rightarrow> string \<Rightarrow> bool" where
  "in_tree path k \<longleftrightarrow> k = path \<or> starts_with (path @ ''/'') k"

lemma tree_order:
  assumes "in_tree path k"
  shows "str_cmp k path \<noteq> Less"
proof (cases "k = path")
  case False
  then have "starts_with (path @ ''/'') k" using assms by (simp add: in_tree_def)
  then obtain r where "k = path @ CHR ''/'' # r" by (auto simp: starts_with_iff)
  then have "str_cmp path k = Less" by (simp add: str_less_extension)
  then show ?thesis using str.cmp_sym [of k path] by simp
qed simp

lemma tree_range:
  assumes wf: "bt_wf str_cmp m"
  shows "set (takeWhile (\<lambda>p. fst p = path \<or> starts_with (path @ ''/'') (fst p)) (bt_from str_cmp path m)) =
    {p \<in> set m. fst p = path \<or> (starts_with (path @ ''/'') (fst p) \<and> \<not> (\<exists>q \<in> set m. splits_tree path (fst q)))}"
    (is "set (takeWhile ?P ?L) = _")
proof -
  have sorted: "sorted_wrt key_less ?L"
    unfolding bt_from_filter [OF wf] by (rule sorted_wrt_filter) (use wf in \<open>simp add: bt_wf_def\<close>)
  have P: "?P p \<longleftrightarrow> in_tree path (fst p)" for p :: "string \<times> 'a" by (simp add: in_tree_def)
  have L: "set ?L = {p \<in> set m. str_cmp (fst p) path \<noteq> Less}" by (simp add: bt_from_filter [OF wf])
  show ?thesis
  proof (cases "\<exists>q \<in> set m. splits_tree path (fst q)")
    case False
    have "set (takeWhile ?P ?L) = {p \<in> set ?L. ?P p}"
    proof (rule takeWhile_convex [OF sorted])
      fix x y assume x: "x \<in> set ?L" "?P x" and y: "y \<in> set ?L" "key_less y x"
      show "?P y"
      proof (cases "fst x = path")
        case True
        then show ?thesis using y L by simp
      next
        case xn: False
        then have "starts_with (path @ ''/'') (fst x)" using x(2) by simp
        moreover have "str_cmp (fst y) (path @ ''/'') \<noteq> Less \<or> fst y = path"
        proof (cases "str_cmp (fst y) path")
          case Less
          then show ?thesis using y(1) by (simp add: L)
        next
          case Equal
          then show ?thesis by simp
        next
          case Greater
          then have "str_cmp path (fst y) = Less" by (simp only: str.cmp_Greater_iff)
          then show ?thesis using False y(1) unfolding splits_tree_def L by blast
        qed
        ultimately show ?thesis using between_prefix [OF _ y(2)] by blast
      qed
    qed
    also have "\<dots> = {p \<in> set m. ?P p}" unfolding L P using tree_order by blast
    finally show ?thesis using False by simp
  next
    case True
    then obtain q where q: "q \<in> set m" "splits_tree path (fst q)" by blast
    then have qL: "q \<in> set ?L" "\<not> ?P q"
    proof -
      show "q \<in> set ?L" using q str.cmp_Greater_iff [of "fst q" path] by (simp add: L splits_tree_def)
      show "\<not> ?P q" using q(2) prefix_not_below by (auto simp: splits_tree_def)
    qed
    have desc: "\<not> starts_with (path @ ''/'') (fst x)" if "x \<in> set (takeWhile ?P ?L)" for x
    proof
      assume "starts_with (path @ ''/'') (fst x)"
      then have "str_cmp (fst q) (fst x) = Less"
        using prefix_not_below [of "path @ ''/''" "fst x"] q(2) str.cmp_less_le_trans [of "fst q" "path @ ''/''" "fst x"]
        by (simp add: splits_tree_def str.cmp_Greater_iff)
      then show False
        using takeWhile_before [OF sorted that qL(1)] key_less_order qL(2) by blast
    qed
    have "p \<in> set (takeWhile ?P ?L)" if p: "p \<in> set m" "fst p = path" for p
    proof -
      have pL: "p \<in> set ?L" using p by (simp add: L)
      then obtain h t where ht: "?L = h # t" by (cases ?L) auto
      have "h = p"
      proof (rule ccontr)
        assume "h \<noteq> p"
        then have "key_less h p" using sorted ht pL by auto
        moreover have "h \<in> set ?L" using ht by simp
        ultimately show False using p(2) by (simp add: L)
      qed
      then show ?thesis using ht p(2) by simp
    qed
    moreover have "p \<in> set m \<and> fst p = path" if p: "p \<in> set (takeWhile ?P ?L)" for p
      using set_takeWhileD [OF p] desc [OF p] by (simp add: L)
    ultimately show ?thesis using True by blast
  qed
qed


lemma get_remove_children:
  assumes "bt_wf str_cmp m"
  shows "bt_get str_cmp k (remove_children dir layer m) =
    hide (\<lambda>p. starts_with (if dir = [] then [] else dir @ ''/'') p \<and> p \<noteq> dir) layer (\<lambda>p. bt_get str_cmp p m) k"
  unfolding remove_children_def Let_def by (rule get_remove_where [OF assms]) (rule prefix_range [OF assms])

lemma get_remove_tree:
  assumes "bt_wf str_cmp m"
  shows "bt_get str_cmp k (remove_tree path layer m) =
    hide (\<lambda>p. p = path \<or> starts_with (path @ ''/'') p \<and> \<not> (\<exists>q \<in> set m. splits_tree path (fst q))) layer
      (\<lambda>p. bt_get str_cmp p m) k"
  using get_remove_where [OF assms tree_range [OF assms], of k layer "\<lambda>_. True" path]
  unfolding remove_tree_def by simp

lemma wf_apply_entry: "bt_wf str_cmp m \<Longrightarrow> bt_wf str_cmp (apply_entry layer path node m)"
  by (simp add: apply_entry_def remove_tree_def remove_children_def Let_def wf_remove_keys bt_insert_def
      str.bt_wf_alter split: prod.split option.split)

section \<open>Parents\<close>

lemma rsplit_once_slash:
  "rsplit_once d s = (if d \<in> set s then Some (rev (tl (dropWhile (\<lambda>c. c \<noteq> d) (rev s))), rev (takeWhile (\<lambda>c. c \<noteq> d) (rev s))) else None)"
proof -
  have "split_once d s = (if d \<in> set s then Some (takeWhile (\<lambda>c. c \<noteq> d) s, tl (dropWhile (\<lambda>c. c \<noteq> d) s)) else None)" for s
    by (induction s) auto
  then show ?thesis by (simp add: rsplit_once_def)
qed

lemma parent_path_split:
  assumes "CHR ''/'' \<in> set k"
  obtains name where "k = parent_path k @ ''/'' @ name" and "CHR ''/'' \<notin> set name"
proof -
  let ?d = "dropWhile (\<lambda>c. c \<noteq> CHR ''/'') (rev k)" and ?t = "takeWhile (\<lambda>c. c \<noteq> CHR ''/'') (rev k)"
  have p: "parent_path k = rev (tl ?d)" using assms by (simp add: parent_path_def rsplit_once_slash)
  have "?d \<noteq> []" using assms by (simp add: dropWhile_eq_Nil_conv)
  then have "hd ?d = CHR ''/''" using hd_dropWhile [of "\<lambda>c. c \<noteq> CHR ''/''" "rev k"] by auto
  then have "?d = CHR ''/'' # tl ?d" using \<open>?d \<noteq> []\<close> by (metis list.collapse)
  then have "rev k = ?t @ CHR ''/'' # tl ?d" using takeWhile_dropWhile_id [of "\<lambda>c. c \<noteq> CHR ''/''" "rev k"] by metis
  then have "rev (rev k) = rev (?t @ CHR ''/'' # tl ?d)" by (rule arg_cong)
  then have "k = rev (tl ?d) @ ''/'' @ rev ?t" by (simp only: rev_rev_ident rev_append rev.simps append_assoc append.simps)
  moreover have "CHR ''/'' \<notin> set (rev ?t)" by (auto dest: set_takeWhileD)
  ultimately show thesis using that p by simp
qed

text \<open>The parent of a path below another is that path or below it too.\<close>

lemma parent_below:
  assumes "starts_with (p @ ''/'') k"
  shows "CHR ''/'' \<in> set k" and "length (parent_path k) < length k"
    and "parent_path k = p \<or> starts_with (p @ ''/'') (parent_path k)"
proof -
  obtain r where k: "k = p @ ''/'' @ r" using assms by (auto simp: starts_with_iff)
  then show slash: "CHR ''/'' \<in> set k" by simp
  obtain name where n: "k = parent_path k @ ''/'' @ name" "CHR ''/'' \<notin> set name" by (rule parent_path_split [OF slash])
  show "length (parent_path k) < length k" by (subst (2) n(1)) simp
  have eq: "p @ ''/'' @ r = parent_path k @ ''/'' @ name" using k n(1) by metis
  then obtain us where us: "p = parent_path k @ us \<and> us @ ''/'' @ r = ''/'' @ name \<or>
      p @ us = parent_path k \<and> ''/'' @ r = us @ ''/'' @ name"
    by (auto simp: append_eq_append_conv2)
  then show "parent_path k = p \<or> starts_with (p @ ''/'') (parent_path k)"
  proof (elim disjE conjE)
    assume a: "p = parent_path k @ us" "us @ ''/'' @ r = ''/'' @ name"
    show ?thesis
    proof (cases us)
      case Nil
      then show ?thesis using a by simp
    next
      case (Cons c cs)
      then have "CHR ''/'' \<in> set name" using a(2) by (auto simp: append_eq_Cons_conv)
      then show ?thesis using n(2) by simp
    qed
  next
    assume a: "p @ us = parent_path k" "''/'' @ r = us @ ''/'' @ name"
    show ?thesis
    proof (cases us)
      case Nil
      then show ?thesis using a by simp
    next
      case (Cons c cs)
      then have "us = ''/'' @ cs" using a(2) by simp
      then have "parent_path k = (p @ ''/'') @ cs" using a(1) by simp
      then show ?thesis by (auto simp: starts_with_iff)
    qed
  qed
qed

lemma below_parent:
  assumes "CHR ''/'' \<in> set k" and "in_tree p (parent_path k)"
  shows "starts_with (p @ ''/'') k"
proof -
  obtain name where n: "k = parent_path k @ ''/'' @ name" by (rule parent_path_split [OF assms(1)])
  from assms(2) have "\<exists>r. parent_path k @ ''/'' @ name = (p @ ''/'') @ r" by (auto simp: in_tree_def starts_with_iff)
  then show ?thesis using n by (auto simp: starts_with_iff)
qed

section \<open>Layers\<close>

text \<open>What an archive entry says, and what it does to a view of the image: a path and what is there.\<close>

datatype layer_change =
  Opaque string
| Whiteout string
| Put string image_node

definition change_of :: "string \<Rightarrow> image_node \<Rightarrow> layer_change" where
  "change_of path node =
     (case dir_name path of (dir, name) \<Rightarrow>
        if name = ''.wh..wh..opq'' then Opaque dir
        else (case strip_prefix ''.wh.'' name of Some target \<Rightarrow> Whiteout (join_path dir target) | None \<Rightarrow> Put path node))"

type_synonym image_view = "string \<Rightarrow> image_entry option"

definition in_dir :: "string \<Rightarrow> string \<Rightarrow> bool" where
  "in_dir dir p \<longleftrightarrow> p \<noteq> dir \<and> (dir = [] \<or> starts_with (dir @ ''/'') p)"

definition merge_change :: "nat \<Rightarrow> layer_change \<Rightarrow> image_view \<Rightarrow> image_view" where
  "merge_change layer ch A =
     (case ch of
        Opaque dir \<Rightarrow> hide (in_dir dir) layer A
      | Whiteout path \<Rightarrow> hide (in_tree path) layer A
      | Put path node \<Rightarrow>
          (if node = DirNode then A else hide (in_tree path) (layer + 1) A)
            (path \<mapsto> \<lparr>ie_layer = layer, ie_node = node\<rparr>))"

text \<open>The paths a change names, and whether one of them sorts between another and its descendants.\<close>

primrec change_paths :: "layer_change \<Rightarrow> string list" where
  "change_paths (Opaque dir) = []"
| "change_paths (Whiteout path) = [path]"
| "change_paths (Put path node) = [path]"

definition view_of :: "image_entries \<Rightarrow> image_view" where
  "view_of m p = bt_get str_cmp p m"

text \<open>A path whose tree is scanned by an entry that finds \<open>A\<close>.\<close>

definition scanned :: "image_view \<Rightarrow> layer_change \<Rightarrow> string \<Rightarrow> bool" where
  "scanned A ch a \<longleftrightarrow>
     (case ch of
        Opaque dir \<Rightarrow> False
      | Whiteout t \<Rightarrow> a = t
      | Put p node \<Rightarrow> a = p \<and> node \<noteq> DirNode \<and> is_dir_entry (A p))"

lemma apply_entry_view:
  assumes wf: "bt_wf str_cmp m"
    and unsplit: "\<And>a q. scanned (view_of m) (change_of path node) a \<Longrightarrow> q \<in> fst ` set m \<Longrightarrow> \<not> splits_tree a q"
    and below: "\<And>k. starts_with (path @ ''/'') k \<Longrightarrow> view_of m k \<noteq> None \<Longrightarrow> is_dir_entry (view_of m path)"
  shows "view_of (apply_entry layer path node m) = merge_change layer (change_of path node) (view_of m)"
proof
  fix k
  obtain dir name where d: "dir_name path = (dir, name)" by (cases "dir_name path")
  have tree: "bt_get str_cmp k (remove_tree a l m) = hide (in_tree a) l (view_of m) k"
    if "scanned (view_of m) (change_of path node) a" for a l k
  proof -
    have "\<not> (\<exists>q \<in> set m. splits_tree a (fst q))" using unsplit that by auto
    then show ?thesis
      unfolding get_remove_tree [OF wf] by (simp add: hide_def view_of_def in_tree_def split: option.split)
  qed
  show "view_of (apply_entry layer path node m) k = merge_change layer (change_of path node) (view_of m) k"
  proof (cases "name = ''.wh..wh..opq''")
    case True
    then show ?thesis
      by (simp add: apply_entry_def change_of_def d merge_change_def view_of_def get_remove_children [OF wf]
          hide_def in_dir_def split: option.split)
  next
    case no: False
    show ?thesis
    proof (cases "strip_prefix ''.wh.'' name")
      case (Some target)
      then have "change_of path node = Whiteout (join_path dir target)" using no by (simp add: change_of_def d)
      moreover from this have "bt_get str_cmp k (remove_tree (join_path dir target) layer m) =
          hide (in_tree (join_path dir target)) layer (view_of m) k" by (intro tree) (simp add: scanned_def)
      ultimately show ?thesis
        using no Some by (simp add: apply_entry_def d merge_change_def view_of_def)
    next
      case None
      then have put: "change_of path node = Put path node" using no by (simp add: change_of_def d)
      let ?dir = "is_dir_entry (view_of m path) \<and> node \<noteq> DirNode"
      let ?m = "if ?dir then remove_tree path (layer + 1) m else m"
      have wf': "bt_wf str_cmp ?m" by (simp add: remove_tree_def wf_remove_keys wf)
      have code: "apply_entry layer path node m = bt_insert str_cmp path \<lparr>ie_layer = layer, ie_node = node\<rparr> ?m"
        using no None by (simp add: apply_entry_def d view_of_def Let_def)
      have "bt_get str_cmp k ?m = (if node = DirNode then view_of m else hide (in_tree path) (layer + 1) (view_of m)) k"
        if "k \<noteq> path"
      proof (cases ?dir)
        case True
        then show ?thesis using tree [of path k "layer + 1"] by (simp add: put scanned_def)
      next
        case False
        then have "node = DirNode \<or> \<not> in_tree path k \<or> view_of m k = None"
          using below [of k] that by (auto simp: in_tree_def)
        then show ?thesis using False by (auto simp: view_of_def hide_def split: option.split)
      qed
      then show ?thesis
        unfolding code using wf' by (simp add: put merge_change_def view_of_def bt_insert_def str.bt_get_alter)
    qed
  qed
qed

text \<open>The keys of the merged map are paths that were put there.\<close>

lemma keys_apply_entry: "fst ` set (apply_entry layer path node m) \<subseteq> fst ` set m \<union> set (change_paths (change_of path node))"
proof -
  have keys: "fst ` set (remove_keys ks m') \<subseteq> fst ` set m'" for ks and m' :: image_entries
    unfolding remove_keys_def by (induction ks arbitrary: m') (auto simp: bt_remove_def, force)
  have insert: "fst ` set (bt_insert str_cmp path e m') \<subseteq> insert path (fst ` set m')" for e and m' :: image_entries
    unfolding bt_insert_def by (rule keys_bt_alter)
  obtain dir name where d: "dir_name path = (dir, name)" by (cases "dir_name path")
  let ?tree = "remove_tree path (layer + 1) m"
  have tree: "fst ` set ?tree \<subseteq> fst ` set m" unfolding remove_tree_def by (rule keys)
  consider "apply_entry layer path node m = remove_children dir layer m"
    | t where "apply_entry layer path node m = remove_tree t layer m"
    | m' where "change_of path node = Put path node" "m' = m \<or> m' = ?tree"
        "apply_entry layer path node m = bt_insert str_cmp path \<lparr>ie_layer = layer, ie_node = node\<rparr> m'"
  proof (cases "name = ''.wh..wh..opq''")
    case no: False
    show thesis
    proof (cases "strip_prefix ''.wh.'' name")
      case None
      then show thesis using no that(3) [of "if is_dir_entry (bt_get str_cmp path m) \<and> node \<noteq> DirNode then ?tree else m"]
        by (simp add: apply_entry_def change_of_def d Let_def split: if_splits)
    qed (use no that(2) in \<open>simp add: apply_entry_def d\<close>)
  qed (use that(1) in \<open>simp add: apply_entry_def d\<close>)
  then show ?thesis
  proof cases
    case (3 m')
    then show ?thesis using insert [of "\<lparr>ie_layer = layer, ie_node = node\<rparr>" m'] tree by auto
  qed (use keys [of _ m] in \<open>auto simp: remove_children_def remove_tree_def Let_def\<close>)
qed

text \<open>Archive entries in the order they are applied: the layer, the path and what is there.\<close>

type_synonym layer_entry = "nat \<times> string \<times> image_node"

definition apply_entries :: "layer_entry list \<Rightarrow> image_entries \<Rightarrow> image_entries" where
  "apply_entries es m = fold (\<lambda>(layer, path, node). apply_entry layer path node) es m"

definition merge_changes :: "layer_entry list \<Rightarrow> image_view \<Rightarrow> image_view" where
  "merge_changes es A = fold (\<lambda>(layer, path, node). merge_change layer (change_of path node)) es A"

definition named_paths :: "layer_entry list \<Rightarrow> string list" where
  "named_paths es = concat (map (\<lambda>(layer, path, node). change_paths (change_of path node)) es)"


section \<open>Layers as they are packed\<close>

definition puts :: "layer_entry \<Rightarrow> bool" where
  "puts e \<longleftrightarrow> (case e of (layer, path, node) \<Rightarrow> change_of path node = Put path node)"

definition puts_dir :: "layer_entry list \<Rightarrow> nat \<Rightarrow> string \<Rightarrow> bool" where
  "puts_dir es layer path \<longleftrightarrow> list_ex (\<lambda>e. e = (layer, path, DirNode) \<and> puts e) es"

definition parent_listed :: "layer_entry list \<Rightarrow> layer_entry \<Rightarrow> bool" where
  "parent_listed es e \<longleftrightarrow>
     (case e of (layer, path, node) \<Rightarrow>
        puts e \<longrightarrow> CHR ''/'' \<in> set path \<longrightarrow> puts_dir es layer (parent_path path))"

definition one_kind :: "layer_entry list \<Rightarrow> layer_entry \<Rightarrow> bool" where
  "one_kind es e \<longleftrightarrow>
     (case e of (layer, path, node) \<Rightarrow> puts e \<longrightarrow> node = DirNode \<or> \<not> puts_dir es layer path)"

text \<open>
  Layers as they are packed: in their order, each with the directory of everything it puts before
  it, and no path both a directory and something else.
\<close>

definition well_packed :: "layer_entry list \<Rightarrow> bool" where
  "well_packed es \<longleftrightarrow>
     sorted (map fst es) \<and>
     list_all (\<lambda>i. parent_listed (take i es) (es ! i)) [0..<length es] \<and>
     list_all (one_kind es) es"

lemma puts_dir_snoc: "puts_dir es l p \<Longrightarrow> puts_dir (es @ [e]) l p"
  by (simp add: puts_dir_def)

lemma well_packed_snoc:
  assumes "well_packed (es @ [e])"
  shows "well_packed es" and "parent_listed es e" and "one_kind (es @ [e]) e" and "\<forall>x \<in> set es. fst x \<le> fst e"
proof -
  have "list_all (\<lambda>i. parent_listed (take i (es @ [e])) ((es @ [e]) ! i)) [0..<length es]"
    "parent_listed es e"
    using assms by (simp_all add: well_packed_def)
  then have "list_all (\<lambda>i. parent_listed (take i es) (es ! i)) [0..<length es]"
    by (simp add: list_all_iff nth_append)
  moreover have "list_all (one_kind es) es"
    using assms by (auto simp: well_packed_def one_kind_def list_all_iff dest: puts_dir_snoc)
  ultimately show "well_packed es" using assms by (simp add: well_packed_def sorted_append)
  show "parent_listed es e" by fact
  show "one_kind (es @ [e]) e" "\<forall>x \<in> set es. fst x \<le> fst e"
    using assms by (auto simp: well_packed_def sorted_append)
qed

text \<open>Every directory above one that a layer puts is put by that layer too.\<close>

lemma ancestors_put:
  assumes "well_packed es" and "puts_dir es l q" and "starts_with (p @ ''/'') q"
  shows "puts_dir es l p"
  using assms(2,3)
proof (induction "length q" arbitrary: q rule: less_induct)
  case less
  note below = parent_below [OF less.prems(2)]
  have mem: "(l, q, DirNode) \<in> set es" "puts (l, q, DirNode)"
    using less.prems(1) by (auto simp: puts_dir_def list_ex_iff)
  then obtain i where i: "i < length es" "es ! i = (l, q, DirNode)" by (auto simp: in_set_conv_nth)
  have "parent_listed (take i es) (es ! i)"
    using assms(1) i(1) by (auto simp: well_packed_def list_all_iff)
  then have "parent_listed (take i es) (l, q, DirNode)" unfolding i(2) .
  then have "puts_dir (take i es) l (parent_path q)" using mem(2) below(1) by (simp add: parent_listed_def)
  then have up: "puts_dir es l (parent_path q)" by (auto simp: puts_dir_def list_ex_iff dest: in_set_takeD)
  show ?case
  proof (cases "parent_path q = p")
    case False
    then show ?thesis using less.hyps [OF below(2) up] below(3) by blast
  qed (use up in simp)
qed

lemma merge_changes_snoc:
  "merge_changes (es @ [(layer, path, node)]) A = merge_change layer (change_of path node) (merge_changes es A)"
  by (simp add: merge_changes_def)

lemma change_cases:
  obtains (Opaque) dir where "change_of path node = Opaque dir" "\<And>n. change_of path n = Opaque dir"
  | (Whiteout) t where "change_of path node = Whiteout t" "\<And>n. change_of path n = Whiteout t"
  | (Put) "change_of path node = Put path node" "\<And>n. change_of path n = Put path n"
  by (cases "dir_name path"; cases "snd (dir_name path) = ''.wh..wh..opq''"; cases "strip_prefix ''.wh.'' (snd (dir_name path))")
    (simp_all add: change_of_def)

text \<open>
  What is in the merged image: only what was put; under everything but the root's own entries a
  directory no older than it; and the directories the last layer has put so far.
\<close>

definition image_tree :: "layer_entry list \<Rightarrow> image_view \<Rightarrow> bool" where
  "image_tree es A \<longleftrightarrow>
     (\<forall>p e. A p = Some e \<longrightarrow> (ie_layer e, p, ie_node e) \<in> set es \<and> puts (ie_layer e, p, ie_node e)) \<and>
     (\<forall>p e. A p = Some e \<longrightarrow> CHR ''/'' \<in> set p \<longrightarrow>
        (\<exists>d. A (parent_path p) = Some d \<and> ie_node d = DirNode \<and> ie_layer e \<le> ie_layer d)) \<and>
     (\<forall>p. es \<noteq> [] \<longrightarrow> puts_dir es (fst (last es)) p \<longrightarrow> A p = Some \<lparr>ie_layer = fst (last es), ie_node = DirNode\<rparr>)"

lemma image_tree_below:
  assumes t: "image_tree es A" and "A k = Some e" and "starts_with (p @ ''/'') k"
  shows "is_dir_entry (A p)"
  using assms(2,3)
proof (induction "length k" arbitrary: k e rule: less_induct)
  case less
  note below = parent_below [OF less.prems(2)]
  obtain d where d: "A (parent_path k) = Some d" "ie_node d = DirNode"
    using t less.prems(1) below(1) unfolding image_tree_def by blast
  show ?case
  proof (cases "parent_path k = p")
    case True
    then show ?thesis using d by (simp add: is_dir_entry_def)
  next
    case False
    then show ?thesis using less.hyps [OF below(2) d(1)] below(3) by blast
  qed
qed

text \<open>Hiding what is below a path and older than a layer keeps a tree, when that layer put none of it.\<close>

lemma hide_keeps_parents:
  assumes "\<forall>p e. A p = Some e \<longrightarrow> CHR ''/'' \<in> set p \<longrightarrow>
      (\<exists>d. A (parent_path p) = Some d \<and> ie_node d = DirNode \<and> ie_layer e \<le> ie_layer d)"
    and S: "\<And>k. CHR ''/'' \<in> set k \<Longrightarrow> S (parent_path k) \<Longrightarrow> S k"
    and "hide S l A p = Some e" and slash: "CHR ''/'' \<in> set p"
  shows "\<exists>d. hide S l A (parent_path p) = Some d \<and> ie_node d = DirNode \<and> ie_layer e \<le> ie_layer d"
proof -
  have e: "A p = Some e" "\<not> (S p \<and> ie_layer e < l)" using assms(3) by (auto simp: hide_def split: option.splits if_splits)
  obtain d where d: "A (parent_path p) = Some d" "ie_node d = DirNode" "ie_layer e \<le> ie_layer d"
    using assms(1) e(1) slash by blast
  then have "\<not> (S (parent_path p) \<and> ie_layer d < l)" using e(2) S [OF slash] by auto
  then show ?thesis using d by (simp add: hide_def)
qed

lemma hide_tree:
  assumes t: "image_tree es A" and up: "\<And>k. CHR ''/'' \<in> set k \<Longrightarrow> S (parent_path k) \<Longrightarrow> S k"
    and put_now: "\<And>p. puts_dir es (fst e) p \<Longrightarrow> A p = Some \<lparr>ie_layer = fst e, ie_node = DirNode\<rparr>"
    and "l = fst e" and "\<not> puts e"
  shows "image_tree (es @ [e]) (hide S l A)"
  unfolding image_tree_def
proof (intro conjI allI impI)
  fix p x
  assume x: "hide S l A p = Some x"
  then have "A p = Some x" by (auto simp: hide_def split: option.splits if_splits)
  then show "(ie_layer x, p, ie_node x) \<in> set (es @ [e])" "puts (ie_layer x, p, ie_node x)"
    using t by (auto simp: image_tree_def)
  assume "CHR ''/'' \<in> set p"
  then show "\<exists>d. hide S l A (parent_path p) = Some d \<and> ie_node d = DirNode \<and> ie_layer x \<le> ie_layer d"
    using hide_keeps_parents [OF _ up x] t by (simp add: image_tree_def)
next
  fix p
  assume "puts_dir (es @ [e]) (fst (last (es @ [e]))) p"
  then have "puts_dir es (fst e) p" using assms(5) by (auto simp: puts_dir_def)
  from put_now [OF this] show "hide S l A p = Some \<lparr>ie_layer = fst (last (es @ [e])), ie_node = DirNode\<rparr>"
    using assms(4) by (simp add: hide_def)
qed

lemma sorted_last: "sorted xs \<Longrightarrow> x \<in> set xs \<Longrightarrow> (x :: nat) \<le> last xs"
  by (induction xs) (auto split: if_splits)

lemma image_tree_step:
  assumes pack: "well_packed (es @ [(layer, path, node)])" and t: "image_tree es A"
  shows "image_tree (es @ [(layer, path, node)]) (merge_change layer (change_of path node) A)"
proof -
  let ?e = "(layer, path, node)" and ?A = "merge_change layer (change_of path node) A"
  note w = well_packed_snoc [OF pack]
  note from_es = t [unfolded image_tree_def, THEN conjunct1, rule_format]
    and parents = t [unfolded image_tree_def, THEN conjunct2, THEN conjunct1]
    and dirs = t [unfolded image_tree_def, THEN conjunct2, THEN conjunct2, rule_format]
  have old: "ie_layer x \<le> layer" if "A p = Some x" for p x using from_es [OF that] w(4) by auto
  have put_now: "A p = Some \<lparr>ie_layer = layer, ie_node = DirNode\<rparr>" if d: "puts_dir es layer p" for p
  proof -
    have m: "(layer, p, DirNode) \<in> set es" using d by (auto simp: puts_dir_def list_ex_iff)
    then have ne: "es \<noteq> []" by auto
    have "sorted (map fst es)" using w(1) by (simp add: well_packed_def)
    moreover have "layer \<in> set (map fst es)" using m by force
    ultimately have "layer \<le> fst (last es)" using sorted_last ne last_map [of es fst] by metis
    moreover have "fst (last es) \<le> layer" using w(4) ne by simp
    ultimately have "fst (last es) = layer" by simp
    then show ?thesis using dirs [OF ne] d by simp
  qed
  show ?thesis
  proof (cases rule: change_cases [of path node])
    case (Opaque dir)
    then have A: "?A = hide (in_dir dir) layer A" by (simp add: merge_change_def)
    have up: "in_dir dir k" if "CHR ''/'' \<in> set k" "in_dir dir (parent_path k)" for k
      using that below_parent [OF that(1), of dir] by (auto simp: in_dir_def in_tree_def starts_with_iff)
    show ?thesis
      unfolding A by (rule hide_tree [OF t up]) (simp_all add: puts_def Opaque put_now)
  next
    case (Whiteout target)
    then have A: "?A = hide (in_tree target) layer A" by (simp add: merge_change_def)
    have up: "in_tree target k" if "CHR ''/'' \<in> set k" "in_tree target (parent_path k)" for k
      using below_parent [OF that] by (simp add: in_tree_def)
    show ?thesis
      unfolding A by (rule hide_tree [OF t up]) (simp_all add: puts_def Whiteout put_now)
  next
    case Put
    then have e: "puts ?e" by (simp add: puts_def)
    let ?B = "if node = DirNode then A else hide (in_tree path) (layer + 1) A"
    have A: "?A = ?B(path \<mapsto> \<lparr>ie_layer = layer, ie_node = node\<rparr>)" using Put by (simp add: merge_change_def)
    have B: "?B p = (if node \<noteq> DirNode \<and> in_tree path p then None else A p)" for p
      using old by (auto simp: hide_def less_Suc_eq_le split: option.split)
    have apart: "\<not> in_tree path p" if "puts_dir es layer p" "node \<noteq> DirNode" for p
    proof
      assume "in_tree path p"
      then have "puts_dir es layer path" using ancestors_put [OF w(1) that(1)] that(1) by (auto simp: in_tree_def)
      then show False using w(3) e that(2) puts_dir_snoc by (auto simp: one_kind_def)
    qed
    have above: "\<not> in_tree path (parent_path path)" if "CHR ''/'' \<in> set path"
      using below_parent [OF that, of path] by (auto simp: starts_with_iff)
    show ?thesis
      unfolding image_tree_def A
    proof (intro conjI allI impI)
      fix p x
      assume x: "(?B(path \<mapsto> \<lparr>ie_layer = layer, ie_node = node\<rparr>)) p = Some x"
      have old_x: "A p = Some x" "\<not> (node \<noteq> DirNode \<and> in_tree path p)" if "p \<noteq> path"
        using x that B [of p] by (auto split: if_splits)
      show "(ie_layer x, p, ie_node x) \<in> set (es @ [?e])" "puts (ie_layer x, p, ie_node x)"
        using x e from_es old_x by (cases "p = path"; auto)+
      assume slash: "CHR ''/'' \<in> set p"
      show "\<exists>d. (?B(path \<mapsto> \<lparr>ie_layer = layer, ie_node = node\<rparr>)) (parent_path p) = Some d \<and> ie_node d = DirNode \<and> ie_layer x \<le> ie_layer d"
      proof (cases "p = path")
        case True
        then have "puts_dir es layer (parent_path path)" using w(2) e slash by (simp add: parent_listed_def)
        then show ?thesis using put_now B [of "parent_path path"] above True slash x by (auto simp: in_tree_def)
      next
        case False
        obtain d where d: "A (parent_path p) = Some d" "ie_node d = DirNode" "ie_layer x \<le> ie_layer d"
          using parents old_x(1) [OF False] slash by blast
        have "in_tree path p" if "in_tree path (parent_path p)" using below_parent [OF slash that] by (simp add: in_tree_def)
        then have "node \<noteq> DirNode \<Longrightarrow> \<not> in_tree path (parent_path p)" using old_x(2) [OF False] by blast
        then show ?thesis
          using d old [OF old_x(1) [OF False]] B [of "parent_path p"] by (cases "parent_path p = path") (auto simp: in_tree_def)
      qed
    next
      fix p
      assume "puts_dir (es @ [?e]) (fst (last (es @ [?e]))) p"
      then have "puts_dir es layer p \<or> p = path \<and> node = DirNode" by (auto simp: puts_dir_def)
      then show "(?B(path \<mapsto> \<lparr>ie_layer = layer, ie_node = node\<rparr>)) p = Some \<lparr>ie_layer = fst (last (es @ [?e])), ie_node = DirNode\<rparr>"
        using apart put_now B [of p] by (cases "p = path") (auto simp: in_tree_def)
    qed
  qed
qed

text \<open>
  The paths whose trees the layers clear: those whited out, and those where something else takes the
  place of a directory.
\<close>

definition cleared_paths :: "layer_entry list \<Rightarrow> string list" where
  "cleared_paths es =
     List.map_filter (\<lambda>(layer, path, node).
         case change_of path node of
           Opaque dir \<Rightarrow> None
         | Whiteout t \<Rightarrow> Some t
         | Put p n \<Rightarrow>
             if n \<noteq> DirNode \<and> list_ex (\<lambda>(l, q, k). q = p \<and> k = DirNode) es then Some p else None)
       es"

lemma cleared_paths_iff:
  "a \<in> set (cleared_paths es) \<longleftrightarrow>
     (\<exists>layer path node. (layer, path, node) \<in> set es \<and>
        (change_of path node = Whiteout a \<or>
         change_of path node = Put a node \<and> node \<noteq> DirNode \<and> (\<exists>l. (l, a, DirNode) \<in> set es)))"
proof
  assume "a \<in> set (cleared_paths es)"
  then obtain layer path node where e: "(layer, path, node) \<in> set es"
    and ch: "(case change_of path node of Opaque dir \<Rightarrow> None | Whiteout t \<Rightarrow> Some t
      | Put p n \<Rightarrow> if n \<noteq> DirNode \<and> list_ex (\<lambda>(l, q, k). q = p \<and> k = DirNode) es then Some p else None) = Some a"
    unfolding cleared_paths_def set_map_filter by auto
  show "\<exists>layer path node. (layer, path, node) \<in> set es \<and> (change_of path node = Whiteout a \<or>
      change_of path node = Put a node \<and> node \<noteq> DirNode \<and> (\<exists>l. (l, a, DirNode) \<in> set es))"
  proof (rule change_cases [of path node])
    assume p: "change_of path node = Put path node"
    then have "path = a" "node \<noteq> DirNode" "\<exists>l. (l, a, DirNode) \<in> set es"
      using ch by (auto simp: list_ex_iff split: if_splits)
    then show ?thesis using e p by blast
  next
    fix t
    assume w: "change_of path node = Whiteout t"
    then have "change_of path node = Whiteout a" using ch by simp
    then show ?thesis using e by blast
  qed (use ch in simp)
next
  assume "\<exists>layer path node. (layer, path, node) \<in> set es \<and> (change_of path node = Whiteout a \<or>
      change_of path node = Put a node \<and> node \<noteq> DirNode \<and> (\<exists>l. (l, a, DirNode) \<in> set es))"
  then obtain layer path node where e: "(layer, path, node) \<in> set es" and ch: "change_of path node = Whiteout a \<or>
      change_of path node = Put a node \<and> node \<noteq> DirNode \<and> (\<exists>l. (l, a, DirNode) \<in> set es)" by blast
  have "(case change_of path node of Opaque dir \<Rightarrow> None | Whiteout t \<Rightarrow> Some t
      | Put p n \<Rightarrow> if n \<noteq> DirNode \<and> list_ex (\<lambda>(l, q, k). q = p \<and> k = DirNode) es then Some p else None) = Some a"
    using ch
  proof (elim disjE conjE exE)
    fix l
    assume d: "change_of path node = Put a node" "node \<noteq> DirNode" "(l, a, DirNode) \<in> set es"
    have "list_ex (\<lambda>(l, q, k). q = a \<and> k = DirNode) es"
      unfolding list_ex_iff by (rule bexI [OF _ d(3)]) simp
    then show ?thesis using d by simp
  qed simp
  then show "a \<in> set (cleared_paths es)" unfolding cleared_paths_def set_map_filter using e by force
qed

lemma apply_entries_snoc: "apply_entries (es @ [(layer, path, node)]) m = apply_entry layer path node (apply_entries es m)"
  by (simp add: apply_entries_def)

lemma apply_entries_view:
  assumes "well_packed es"
    and "\<And>a q. a \<in> set (cleared_paths es) \<Longrightarrow> q \<in> set (named_paths es) \<Longrightarrow> \<not> splits_tree a q"
  shows "view_of (apply_entries es []) = merge_changes es (\<lambda>_. None) \<and> bt_wf str_cmp (apply_entries es []) \<and>
    fst ` set (apply_entries es []) \<subseteq> set (named_paths es) \<and> image_tree es (merge_changes es (\<lambda>_. None))"
  using assms
proof (induction es rule: rev_induct)
  case Nil
  show ?case by (simp add: apply_entries_def merge_changes_def view_of_def fun_eq_iff image_tree_def)
next
  case (snoc e es)
  obtain layer path node where e: "e = (layer, path, node)" by (cases e)
  let ?m = "apply_entries es []" and ?A = "merge_changes es (\<lambda>_. None)"
  note w = well_packed_snoc [OF snoc.prems(1)]
  have cleared: "set (cleared_paths es) \<subseteq> set (cleared_paths (es @ [e]))"
    unfolding subset_iff cleared_paths_iff by auto
  have named: "set (named_paths (es @ [e])) = set (named_paths es) \<union> set (change_paths (change_of path node))"
    by (auto simp: named_paths_def e)
  have IH: "view_of ?m = ?A" "bt_wf str_cmp ?m" "fst ` set ?m \<subseteq> set (named_paths es)" "image_tree es ?A"
    using snoc.IH [OF w(1)] snoc.prems(2) cleared named by blast+
  have "a \<in> set (cleared_paths (es @ [e]))" if a: "scanned ?A (change_of path node) a" for a
  proof (cases rule: change_cases [of path node])
    case Put
    then have p: "a = path" "node \<noteq> DirNode" "is_dir_entry (?A path)" using a by (simp_all add: scanned_def)
    then obtain d where d: "?A path = Some d" "ie_node d = DirNode" by (auto simp: is_dir_entry_def split: option.splits)
    have "(ie_layer d, path, DirNode) \<in> set es"
      using IH(4) [unfolded image_tree_def, THEN conjunct1, rule_format, OF d(1)] d(2) by simp
    then have "(ie_layer d, a, DirNode) \<in> set (es @ [e])" using p by simp
    moreover have "(layer, path, node) \<in> set (es @ [e])" by (simp add: e)
    moreover have "change_of path node = Put a node" using Put p by simp
    ultimately show ?thesis unfolding cleared_paths_iff using p(2) by blast
  next
    case (Whiteout t)
    then have "change_of path node = Whiteout a" using a by (simp add: scanned_def)
    moreover have "(layer, path, node) \<in> set (es @ [e])" by (simp add: e)
    ultimately show ?thesis unfolding cleared_paths_iff by blast
  qed (use a in \<open>simp add: scanned_def\<close>)
  note cleared_now = this
  have "view_of (apply_entry layer path node ?m) = merge_change layer (change_of path node) (view_of ?m)"
  proof (rule apply_entry_view [OF IH(2)])
    fix a q
    assume "scanned (view_of ?m) (change_of path node) a" and q: "q \<in> fst ` set ?m"
    then have "a \<in> set (cleared_paths (es @ [e]))" using cleared_now IH(1) by simp
    moreover have "q \<in> set (named_paths (es @ [e]))" using q IH(3) named by blast
    ultimately show "\<not> splits_tree a q" by (rule snoc.prems(2))
  next
    fix k
    assume k: "starts_with (path @ ''/'') k" "view_of ?m k \<noteq> None"
    then obtain x where "?A k = Some x" unfolding IH(1) by blast
    from image_tree_below [OF IH(4) this k(1)] show "is_dir_entry (view_of ?m path)" unfolding IH(1) .
  qed
  then have "view_of (apply_entry layer path node ?m) = merge_change layer (change_of path node) ?A"
    unfolding IH(1) .
  moreover have "image_tree (es @ [e]) (merge_changes (es @ [e]) (\<lambda>_. None))"
    unfolding e merge_changes_snoc by (rule image_tree_step [OF _ IH(4)]) (use snoc.prems(1) e in simp)
  ultimately show ?case
    using wf_apply_entry [OF IH(2)] keys_apply_entry [of layer path node ?m] IH(3) named
    unfolding e apply_entries_snoc merge_changes_snoc by blast
qed

text \<open>A path that extends another by a character before the slash.\<close>

definition sorts_inside :: "string \<Rightarrow> string \<Rightarrow> bool" where
  "sorts_inside a q \<longleftrightarrow> (case strip_prefix a q of Some (c # r) \<Rightarrow> byte c < byte (CHR ''/'') | _ \<Rightarrow> False)"

lemma sorts_inside_iff: "sorts_inside a q \<longleftrightarrow> splits_tree a q"
  unfolding splits_tree_def between_slash sorts_inside_def by (auto simp: strip_prefix_Some split: option.splits list.splits)


text \<open>A layer that whites out a directory and replaces another.\<close>

definition layered_image :: "layer_entry list" where
  "layered_image =
     [(0, ''etc'', DirNode), (0, ''etc/apt'', DirNode), (0, ''etc/apt/sources'', FileNode (Some [1])),
      (0, ''opt'', DirNode), (0, ''opt/x'', FileNode None),
      (1, ''etc'', DirNode), (1, ''etc/.wh.apt'', FileNode None), (1, ''etc/hosts.d'', DirNode),
      (1, ''etc/hosts'', FileNode None), (1, ''opt'', FileNode (Some [2]))]"


text \<open>
  Without the condition a whiteout can leave files behind: the scan over the map stops at
  \<^verbatim>\<open>var/lib/dpkg.old\<close>, which sorts between \<^verbatim>\<open>var/lib/dpkg\<close> and what is in it.
\<close>

definition split_image :: "layer_entry list" where
  "split_image =
     [(0, ''var/lib/dpkg'', DirNode), (0, ''var/lib/dpkg/status'', FileNode (Some [1])),
      (0, ''var/lib/dpkg.old'', FileNode None), (1, ''var/lib/.wh.dpkg'', FileNode None)]"

lemma whiteout_leaves_file:
  "fs_read (apply_entries split_image []) ''var/lib/dpkg/status'' = Some [1]"
  "merge_changes split_image (\<lambda>_. None) ''var/lib/dpkg/status'' = None"
  by code_simp+

text \<open>
  A file that takes the place of a directory the lower layer did not list leaves what was in it; such
  layers are not well packed.
\<close>

lemma replaced_directory_leaves_file:
  "bt_get str_cmp ''srv/app/lock'' (apply_entries [(0, ''srv/app/lock'', FileNode (Some [1])), (1, ''srv/app'', FileNode None)] []) =
     Some \<lparr>ie_layer = 0, ie_node = FileNode (Some [1])\<rparr>"
  by code_simp

end
