(* ===== verification/Image_Layers_Props.thy ===== *)
theory Image_Layers_Props
  imports Image_Layers Tar_Example Image_Fs_Props
begin

text \<open>
  What opening an image guarantees: every layer of the manifest was read from a blob with the digest
  the manifest gives, in order, into the one merged map; and the members of an archive are found by
  seeking where reading it from the start finds them.
\<close>

section \<open>Layers\<close>

text \<open>
  What an entry of a layer is to put at its path, given its data and the files below: a wanted file
  of a size that is kept has its content, a hard link that of the file it names, and every other
  entry is what the archive says it is.
\<close>

definition linked_content :: "string \<Rightarrow> image_entries \<Rightarrow> byte list option" where
  "linked_content target m =
     (case normalize target of
        Inr p \<Rightarrow>
          (case bt_get str_cmp (case p of None \<Rightarrow> [] | Some q \<Rightarrow> q) m of
             Some e \<Rightarrow> (case ie_node e of FileNode content \<Rightarrow> content | _ \<Rightarrow> None)
           | None \<Rightarrow> None)
      | _ \<Rightarrow> None)"

definition node_from :: "('g, 'r) content_readers \<Rightarrow> string \<Rightarrow> tar_entry \<Rightarrow> byte list \<Rightarrow> image_entries \<Rightarrow> image_node" where
  "node_from rd path e data m =
     (case te_kind e of
        TarFile \<Rightarrow>
          FileNode (if cr_want rd path \<and> te_size e \<le> file_limit path then Some (kept rd path data) else None)
      | TarHardlink target \<Rightarrow> FileNode (linked_content target m)
      | TarSymlink target \<Rightarrow> SymlinkNode target
      | TarDir \<Rightarrow> DirNode
      | TarOther \<Rightarrow> OtherNode)"

definition layer_change :: "('g, 'r) content_readers \<Rightarrow> nat \<Rightarrow> tar_entry \<times> byte list \<Rightarrow> image_entries \<Rightarrow> image_entries" where
  "layer_change rd layer ed m =
     (case normalize (te_path (fst ed)) of
        Inr (Some path) \<Rightarrow> apply_entry layer path (node_from rd path (fst ed) (snd ed) m) m
      | _ \<Rightarrow> m)"

text \<open>Neither an entry nor a hard link may step out of the image by \<^verbatim>\<open>..\<close>.\<close>

definition stays_inside :: "tar_entry \<Rightarrow> bool" where
  "stays_inside e \<longleftrightarrow>
     (case normalize (te_path e) of
        Inl _ \<Rightarrow> False
      | Inr None \<Rightarrow> True
      | Inr (Some _) \<Rightarrow> (case te_kind e of TarHardlink t \<Rightarrow> (case normalize t of Inl _ \<Rightarrow> False | Inr _ \<Rightarrow> True) | _ \<Rightarrow> True))"

text \<open>The entry just opened, with the data that is left of it to read.\<close>

definition opened :: "tar_entry \<Rightarrow> tar_reader \<Rightarrow> bool" where
  "opened e r \<longleftrightarrow> \<not> tr_seeks r \<and> tr_remaining r = entry_data e \<and> tr_pos r < 2 ^ 64"

definition entry_content :: "tar_entry \<Rightarrow> tar_reader \<Rightarrow> byte list" where
  "entry_content e r = take (min (tr_remaining r) (te_size e)) (tr_src r)"

lemma file_node_reads:
  "file_node rd layer path e r fs = Some (Inr (node, r', fs')) \<Longrightarrow> r' = r \<or> (\<exists>n data. read_data n r = Some (Inr (data, r')))"
  by (auto simp: file_node_def run_bind_Inr split: if_splits)

lemma file_node_from:
  assumes "file_node rd layer path e r fs = Some (Inr (node, r', fs'))" and "te_kind e = TarFile" and "opened e r"
  shows "node = node_from rd path e (entry_content e r) (if_entries fs) \<and> if_entries fs' = if_entries fs \<and>
    if_layers fs' = if_layers fs \<and> if_build fs' = if_build fs"
  using assms
  by (auto simp: file_node_def run_bind_Inr skip_note_def note_binary_def node_from_def opened_def entry_data_def
      entry_content_def read_data_Inr min_absorb1 split: if_splits option.splits)

lemma hardlink_node_from:
  assumes "hardlink_node rd path target r fs = Some (Inr (node, r', fs'))"
  shows "node = FileNode (linked_content target (if_entries fs)) \<and> if_entries fs' = if_entries fs \<and>
    if_layers fs' = if_layers fs \<and> if_build fs' = if_build fs \<and> r' = r \<and> (\<exists>p. normalize target = Inr p)"
proof -
  obtain p where p: "normalize target = Inr p" using assms by (cases "normalize target") (simp_all add: hardlink_node_def)
  then show ?thesis
    using assms by (auto simp: hardlink_node_def linked_content_def skip_note_def Let_def split: option.splits image_node.splits if_splits)
qed

lemma layer_entry_from:
  assumes "layer_entry rd layer e r fs = Some (Inr (r', fs'))" and "opened e r"
  shows "if_entries fs' = layer_change rd layer (e, entry_content e r) (if_entries fs)" and "stays_inside e"
    and "if_layers fs' = if_layers fs" and "if_build fs' = if_build fs"
    and "r' = r \<or> (\<exists>n data. read_data n r = Some (Inr (data, r')))"
proof -
  obtain p where p: "normalize (te_path e) = Inr p"
    using assms(1) by (cases "normalize (te_path e)") (simp_all add: layer_entry_def)
  have "if_entries fs' = layer_change rd layer (e, entry_content e r) (if_entries fs) \<and> stays_inside e \<and>
    if_layers fs' = if_layers fs \<and> if_build fs' = if_build fs \<and> (r' = r \<or> (\<exists>n data. read_data n r = Some (Inr (data, r'))))"
  proof (cases p)
    case None
    then show ?thesis using assms(1) p by (simp add: layer_entry_def layer_change_def stays_inside_def)
  next
    case (Some path)
    let ?fs = "fs\<lparr>if_packages_changed := if_packages_changed fs \<or> changes_packages path\<rparr>"
    obtain node fs1 where n: "layer_node rd layer path e r ?fs = Some (Inr (node, r', fs1))" "fs' = apply_fs layer path node fs1"
      using assms(1) p Some by (auto simp: layer_entry_def run_bind_Inr Let_def)
    have "node = node_from rd path e (entry_content e r) (if_entries ?fs) \<and> stays_inside e \<and> if_entries fs1 = if_entries ?fs \<and>
      if_layers fs1 = if_layers ?fs \<and> if_build fs1 = if_build ?fs \<and> (r' = r \<or> (\<exists>n data. read_data n r = Some (Inr (data, r'))))"
    proof (cases "te_kind e")
      case TarFile
      then have f: "file_node rd layer path e r ?fs = Some (Inr (node, r', fs1))" using n(1) by (simp add: layer_node_def)
      from file_node_from [OF f TarFile assms(2)] file_node_reads [OF f] show ?thesis
        using TarFile p Some by (simp add: stays_inside_def)
    next
      case (TarHardlink t)
      then have h: "hardlink_node rd path t r ?fs = Some (Inr (node, r', fs1))" using n(1) by (simp add: layer_node_def)
      from hardlink_node_from [OF h] show ?thesis using TarHardlink p Some by (auto simp: stays_inside_def node_from_def)
    qed (use n(1) p Some in \<open>simp_all add: layer_node_def node_from_def stays_inside_def\<close>)
    then show ?thesis using n(2) p Some by (simp add: apply_fs_def layer_change_def)
  qed
  then show "if_entries fs' = layer_change rd layer (e, entry_content e r) (if_entries fs)" "stays_inside e"
    "if_layers fs' = if_layers fs" "if_build fs' = if_build fs" "r' = r \<or> (\<exists>n data. read_data n r = Some (Inr (data, r')))"
    by blast+
qed

text \<open>
  Reading a layer's stream applies the entries of the archive it holds, in order: \<open>q\<close> reads every
  entry's data, where the layer leaves some of it.
\<close>

lemma layer_entries_read:
  assumes "layer_entries rd layer r fs = Some (Inr fs')" and "\<not> tr_seeks r"
    and "\<And>r2. finish_entry r = Some (Inr r2) \<Longrightarrow> finish_entry q = Some (Inr r2)"
  shows "\<exists>es. tar_files q = Some (Inr es) \<and> list_all (\<lambda>ed. stays_inside (fst ed)) es \<and>
    if_entries fs' = fold (layer_change rd layer) es (if_entries fs) \<and> if_layers fs' = if_layers fs \<and> if_build fs' = if_build fs"
  using assms
proof (induction rd layer r fs arbitrary: q rule: layer_entries.induct)
  case (1 rd layer r fs)
  obtain found r1 where n: "next_entry r = Some (Inr (found, r1))"
    using "1.prems"(1) by (subst (asm) layer_entries.simps) (auto simp: run_bind_Inr)
  then have nq: "next_entry q = Some (Inr (found, r1))"
    using "1.prems"(3) by (auto simp: next_entry_def run_bind_Inr)
  show ?case
  proof (cases found)
    case None
    then have "tar_files q = Some (Inr [])" "fs' = fs"
      using "1.prems"(1) n nq by (subst tar_files.simps, simp, subst (asm) layer_entries.simps, simp)
    then show ?thesis by simp
  next
    case (Some e)
    have o: "opened e r1" using next_entry_seeks [OF n] "1.prems"(2) Some by (simp add: opened_def)
    then have ns: "\<not> tr_seeks r1" by (simp add: opened_def)
    obtain r2 fs2 where e: "layer_entry rd layer e r1 fs = Some (Inr (r2, fs2))" "layer_entries rd layer r2 fs2 = Some (Inr fs')"
      using "1.prems"(1) n Some by (subst (asm) layer_entries.simps) (auto simp: run_bind_Inr)
    note from_e = layer_entry_from [OF e(1) o]
    have "\<exists>x. next_entry r2 = Some (Inr x)"
      using e(2) by (subst (asm) layer_entries.simps) (auto simp: run_bind_Inr)
    then obtain r3 where r3: "finish_entry r2 = Some (Inr r3)" by (auto simp: next_entry_def run_bind_Inr)
    have ns2: "\<not> tr_seeks r2" using from_e(5) ns read_data_seeks by auto
    have r1: "finish_entry r1 = Some (Inr r3)"
      using from_e(5) r3 next_after_read [OF ns] by blast
    have pos: "tr_pos r1 < 2 ^ 64" using o by (simp add: opened_def)
    obtain q1 where q1: "read_data (te_size e) r1 = Some (Inr (entry_content e r1, q1))" "finish_entry q1 = Some (Inr r3)"
      by (rule read_before_next [OF ns r1 pos, of "te_size e"]) (simp add: entry_content_def)
    have "finish_entry q1 = Some (Inr r')" if "finish_entry r2 = Some (Inr r')" for r' using that r3 q1(2) by simp
    then obtain es where es: "tar_files q1 = Some (Inr es)" "list_all (\<lambda>ed. stays_inside (fst ed)) es"
      "if_entries fs' = fold (layer_change rd layer) es (if_entries fs2)" "if_layers fs' = if_layers fs2" "if_build fs' = if_build fs2"
      using "1.IH" [OF n refl Some e(1) refl e(2) ns2] by blast
    have "tar_files q = Some (Inr ((e, entry_content e r1) # es))"
      using nq Some q1(1) es(1) by (subst tar_files.simps) simp
    then show ?thesis using es from_e by (intro exI [of _ "(e, entry_content e r1) # es"]) simp
  qed
qed

lemma note_packages_keeps:
  "note_packages json layer fs = Some fs' \<Longrightarrow>
     if_entries fs' = if_entries fs \<and> if_layers fs' = if_layers fs \<and> if_build fs' = if_build fs"
  by (auto simp: note_packages_def Let_def split: if_splits)

text \<open>The entries of a stream, with their data.\<close>

definition stream_files :: "byte_stream \<Rightarrow> (tar_entry \<times> byte list) list tar_run" where
  "stream_files src = tar_files (tar_start (fst src) (snd src) False)"

lemma apply_layer_read:
  assumes "apply_layer rd layer src fs = Some (Inr fs')"
  obtains es where "stream_files src = Some (Inr es)" and "list_all (\<lambda>ed. stays_inside (fst ed)) es"
    and "if_entries fs' = fold (layer_change rd layer) es (if_entries fs)"
    and "if_layers fs' = if_layers fs" and "if_build fs' = if_build fs"
proof -
  obtain fs1 where fs1: "layer_entries rd layer (tar_start (fst src) (snd src) False) fs = Some (Inr fs1)"
    "note_packages (cr_inventory rd) layer fs1 = Some fs'"
    using assms by (auto simp: apply_layer_def run_bind_Inr run_ok_def)
  have "\<not> tr_seeks (tar_start (fst src) (snd src) False)" by (simp add: tar_start_def)
  from layer_entries_read [OF fs1(1) this] show thesis
    using note_packages_keeps [OF fs1(2)] that by (auto simp: stream_files_def)
qed

section \<open>Digests\<close>

lemma run_map_err_Inr: "run_map_err f m = Some (Inr x) \<longleftrightarrow> m = Some (Inr x)"
proof -
  have "map_sum f id y = Inr x \<longleftrightarrow> y = Inr x" for y by (cases y) simp_all
  then show ?thesis by (auto simp: run_map_err_def)
qed

text \<open>
  The entries of one layer of the manifest, read from a blob whose SHA-256 is the one the manifest
  gives; a digest of another algorithm asks nothing.
\<close>

definition layer_read ::
  "decompressors \<Rightarrow> (byte list \<Rightarrow> string) \<Rightarrow> archive \<Rightarrow> manifest_layer \<Rightarrow> (tar_entry \<times> byte list) list \<Rightarrow> bool" where
  "layer_read dc sha256 a l es \<longleftrightarrow>
     (\<exists>raw n. archive_open a (ml_name l) = Inr (raw, n) \<and> stream_files (decompress dc raw) = Some (Inr es) \<and>
        (\<forall>hex. ml_digest l = Some (''sha256:'' @ hex) \<longrightarrow> to_ascii_lowercase (sha256 raw) = to_ascii_lowercase hex)) \<and>
     list_all (\<lambda>ed. stays_inside (fst ed)) es"

lemma open_layer_steps:
  assumes "open_layer rd dc sha256 a (i, l) fs = Some (Inr fs')"
  obtains es where "layer_read dc sha256 a l es" and "if_layers fs' = Suc i" and "if_build fs' = if_build fs"
    and "if_entries fs' = fold (layer_change rd i) es (if_entries fs)"
proof -
  obtain raw n fs1 where o: "archive_open a (ml_name l) = Inr (raw, n)"
    "apply_layer rd i (decompress dc raw) fs = Some (Inr fs1)" "digest_matches sha256 l raw" "fs' = fs1\<lparr>if_layers := i + 1\<rparr>"
    using assms by (auto simp: open_layer_def run_bind_Inr run_map_err_Inr split: if_splits)
  obtain es where es: "stream_files (decompress dc raw) = Some (Inr es)" "list_all (\<lambda>ed. stays_inside (fst ed)) es"
    "if_entries fs1 = fold (layer_change rd i) es (if_entries fs)" "if_build fs1 = if_build fs"
    by (rule apply_layer_read [OF o(2)])
  have "to_ascii_lowercase (sha256 raw) = to_ascii_lowercase hex" if "ml_digest l = Some (''sha256:'' @ hex)" for hex
  proof -
    have "strip_prefix ''sha256:'' (''sha256:'' @ hex) = Some hex" unfolding strip_prefix_Some by simp
    then show ?thesis using o(3) that by (simp add: digest_matches_def)
  qed
  then have "layer_read dc sha256 a l es" using o(1) es(1,2) by (auto simp: layer_read_def)
  then show thesis using that es(3,4) o(4) by simp
qed

definition apply_layers ::
  "('g, 'r) content_readers \<Rightarrow> nat \<Rightarrow> (tar_entry \<times> byte list) list list \<Rightarrow> image_entries \<Rightarrow> image_entries" where
  "apply_layers rd k streams m = fold (\<lambda>(i, es). fold (layer_change rd i) es) (enumerate k streams) m"

lemma open_layers_fold:
  assumes "run_fold (open_layer rd dc sha256 a) (enumerate k ls) fs = Some (Inr fs')" "if_layers fs = k"
  shows "if_layers fs' = k + length ls \<and> if_build fs' = if_build fs \<and>
    (\<exists>streams. list_all2 (layer_read dc sha256 a) ls streams \<and> if_entries fs' = apply_layers rd k streams (if_entries fs))"
  using assms
proof (induction ls arbitrary: k fs)
  case Nil
  then show ?case by (simp add: apply_layers_def)
next
  case (Cons l ls)
  then obtain fs1 where o: "open_layer rd dc sha256 a (k, l) fs = Some (Inr fs1)"
    "run_fold (open_layer rd dc sha256 a) (enumerate (Suc k) ls) fs1 = Some (Inr fs')"
    by (auto simp: run_bind_Inr)
  obtain es where es: "layer_read dc sha256 a l es" "if_layers fs1 = Suc k" "if_build fs1 = if_build fs"
    "if_entries fs1 = fold (layer_change rd k) es (if_entries fs)"
    by (rule open_layer_steps [OF o(1)])
  obtain streams where "list_all2 (layer_read dc sha256 a) ls streams"
    "if_entries fs' = apply_layers rd (Suc k) streams (if_entries fs1)" "if_layers fs' = Suc k + length ls" "if_build fs' = if_build fs1"
    using Cons.IH [OF o(2) es(2)] by blast
  then show ?case using es by (auto intro!: exI [of _ "es # streams"] simp: apply_layers_def)
qed


text \<open>A digest of another algorithm is not looked at.\<close>

lemma other_digest_unchecked:
  "strip_prefix ''sha256:'' d = None \<Longrightarrow> digest_matches sha256 \<lparr>ml_name = name, ml_digest = Some d\<rparr> raw"
  by (simp add: digest_matches_def)

section \<open>Members of an archive\<close>

definition file_path :: "tar_entry \<Rightarrow> string option" where
  "file_path e =
     (if te_kind e = TarFile then (case normalize (te_path e) of Inr p \<Rightarrow> p | Inl _ \<Rightarrow> None) else None)"

text \<open>The data of the last file at a path.\<close>

definition last_file :: "(tar_entry \<times> byte list) list \<Rightarrow> string \<Rightarrow> byte list option" where
  "last_file es name =
     map_option snd (List.find (\<lambda>(e, _). file_path e = Some name) (rev es))"

text \<open>
  The path of a link and what it names, a symbolic link from the directory it is in.  A link's path
  opens the file it names, in the order of the links, when there is one.
\<close>

definition entry_link :: "tar_entry \<Rightarrow> (string \<times> string) option" where
  "entry_link e =
     (case normalize (te_path e) of
        Inr (Some path) \<Rightarrow>
          (case te_kind e of
             TarSymlink t \<Rightarrow> Some (path, join_path (parent_path path) t)
           | TarHardlink t \<Rightarrow> Some (path, t)
           | _ \<Rightarrow> None)
      | _ \<Rightarrow> None)"

definition archive_links :: "(tar_entry \<times> byte list) list \<Rightarrow> (string \<times> string) list" where
  "archive_links es = List.map_filter (\<lambda>ed. entry_link (fst ed)) es"

definition follow_link :: "string \<times> string \<Rightarrow> (string \<Rightarrow> 'a option) \<Rightarrow> string \<Rightarrow> 'a option" where
  "follow_link l files = (case files (normalize_lexical (snd l)) of None \<Rightarrow> files | Some x \<Rightarrow> files(fst l \<mapsto> x))"

definition archive_files :: "(tar_entry \<times> byte list) list \<Rightarrow> string \<Rightarrow> byte list option" where
  "archive_files es = fold follow_link (archive_links es) (last_file es)"

text \<open>Where a member's data is in the archive.\<close>

definition member_holds :: "byte list \<Rightarrow> (nat \<times> nat) option \<Rightarrow> byte list \<Rightarrow> bool" where
  "member_holds bytes m data \<longleftrightarrow>
     (case m of None \<Rightarrow> False | Some (off, n) \<Rightarrow> n = length data \<and> take n (drop off bytes) = data)"

lemma index_entry_member:
  assumes "bt_wf str_cmp members"
  shows "\<exists>members'. index_entry e pos (members, pending) =
      (members', pending @ (case entry_link e of None \<Rightarrow> [] | Some l \<Rightarrow> [l])) \<and> bt_wf str_cmp members' \<and>
    (\<forall>name. bt_get str_cmp name members' = (if file_path e = Some name then Some (pos, te_size e) else bt_get str_cmp name members))"
  using assms
  by (auto simp: index_entry_def file_path_def entry_link_def bt_insert_def str.bt_get_alter str.bt_wf_alter
      split: sum.splits option.splits tar_kind.splits)

lemma find_snoc: "List.find p (xs @ [y]) = (case List.find p xs of None \<Rightarrow> if p y then Some y else None | Some x \<Rightarrow> Some x)"
  by (induction xs) simp_all

lemma last_file_Cons:
  "last_file ((e, data) # es) name =
     (case last_file es name of Some d \<Rightarrow> Some d | None \<Rightarrow> if file_path e = Some name then Some data else None)"
  by (auto simp: last_file_def find_snoc split: option.splits)

lemma index_follows:
  assumes "tar_files r = Some (Inr es)"
    and "small bytes q" "\<And>r2. finish_entry r = Some (Inr r2) \<Longrightarrow> finish_entry q = Some (Inr r2)"
    and "bt_wf str_cmp members"
  shows "\<exists>members'. index_entries (seeking q) (members, pending) = Some (Inr (members', pending @ archive_links es)) \<and>
    bt_wf str_cmp members' \<and>
    (\<forall>name. case last_file es name of
       None \<Rightarrow> bt_get str_cmp name members' = bt_get str_cmp name members
     | Some data \<Rightarrow> member_holds bytes (bt_get str_cmp name members') data)"
  using assms
proof (induction r arbitrary: es q members pending rule: tar_files.induct)
  case (1 r)
  obtain found r1 where n: "next_entry r = Some (Inr (found, r1))"
    using "1.prems"(1) by (subst (asm) tar_files.simps) (auto simp: run_bind_Inr)
  then have nq: "next_entry q = Some (Inr (found, r1))"
    using "1.prems"(3) by (auto simp: next_entry_def run_bind_Inr)
  note sq = small_next_entry [OF "1.prems"(2) nq]
  show ?case
  proof (cases found)
    case None
    then have "es = []" using "1.prems"(1) n by (subst (asm) tar_files.simps) simp
    then show ?thesis using sq(2) None "1.prems"(4)
      by (subst index_entries.simps) (simp add: last_file_def archive_links_def List.map_filter_simps)
  next
    case (Some e)
    then obtain data r2 rest where d: "read_data (te_size e) r1 = Some (Inr (data, r2))" "tar_files r2 = Some (Inr rest)"
      "es = (e, data) # rest"
      using "1.prems"(1) n by (subst (asm) tar_files.simps) (auto simp: run_bind_Inr)
    let ?link = "case entry_link e of None \<Rightarrow> [] | Some l \<Rightarrow> [l]"
    have ns: "\<not> tr_seeks r1" using sq(1) by (simp add: small_def)
    obtain members1 where m1: "index_entry e (tr_pos r1) (members, pending) = (members1, pending @ ?link)" "bt_wf str_cmp members1"
      "\<And>name. bt_get str_cmp name members1 = (if file_path e = Some name then Some (tr_pos r1, te_size e) else bt_get str_cmp name members)"
      using index_entry_member [OF "1.prems"(4)] by blast
    obtain members' where m: "index_entries (seeking r1) (members1, pending @ ?link) = Some (Inr (members', (pending @ ?link) @ archive_links rest))"
      "bt_wf str_cmp members'"
      "\<And>name. case last_file rest name of
         None \<Rightarrow> bt_get str_cmp name members' = bt_get str_cmp name members1
       | Some data \<Rightarrow> member_holds bytes (bt_get str_cmp name members') data"
      using "1.IH" [OF n refl Some d(1) refl d(2) sq(1) next_after_read [OF ns d(1)] m1(2), of "pending @ ?link"] by blast
    have "reads_from bytes r1" using sq(1) by (simp add: small_def)
    then have "member_holds bytes (Some (tr_pos r1, te_size e)) data" if "file_path e = Some name" for name
      using that next_entry_seeks [OF n] Some read_data_reads(2,3) [OF _ d(1)]
      by (auto simp: member_holds_def file_path_def entry_data_def split: if_splits)
    then have "case last_file es name of
         None \<Rightarrow> bt_get str_cmp name members' = bt_get str_cmp name members
       | Some data \<Rightarrow> member_holds bytes (bt_get str_cmp name members') data" for name
      using m(3) [of name] m1(3) [of name] by (auto simp: d(3) last_file_Cons split: option.splits)
    moreover have "pending @ archive_links es = (pending @ ?link) @ archive_links rest"
      by (simp add: d(3) archive_links_def List.map_filter_simps split: option.split)
    then have "index_entries (seeking q) (members, pending) = Some (Inr (members', pending @ archive_links es))"
      using sq(2) Some m(1) m1(1) by (subst index_entries.simps) simp
    ultimately show ?thesis using m(2) by blast
  qed
qed

text \<open>Resolving the links keeps members and files in step.\<close>

definition members_hold :: "byte list \<Rightarrow> (string, nat \<times> nat) btree \<Rightarrow> (string \<Rightarrow> byte list option) \<Rightarrow> bool" where
  "members_hold bytes members files \<longleftrightarrow>
     (\<forall>name. case files name of
        None \<Rightarrow> bt_get str_cmp name members = None
      | Some data \<Rightarrow> member_holds bytes (bt_get str_cmp name members) data)"

lemma link_member_follows:
  assumes "bt_wf str_cmp members" and h: "members_hold bytes members files"
  shows "bt_wf str_cmp (link_member l members) \<and> members_hold bytes (link_member l members) (follow_link l files)"
proof (cases "files (normalize_lexical (snd l))")
  case None
  then have "bt_get str_cmp (normalize_lexical (snd l)) members = None"
    using h [unfolded members_hold_def, rule_format, of "normalize_lexical (snd l)"] by simp
  then show ?thesis using assms None by (simp add: link_member_def follow_link_def)
next
  case (Some data)
  then obtain m where m: "bt_get str_cmp (normalize_lexical (snd l)) members = Some m" "member_holds bytes (Some m) data"
    using h [unfolded members_hold_def, rule_format, of "normalize_lexical (snd l)"]
    by (auto simp: member_holds_def split: option.splits)
  have "members_hold bytes (bt_insert str_cmp (fst l) m members) (files(fst l \<mapsto> data))"
    unfolding members_hold_def
  proof
    fix name
    have get: "bt_get str_cmp name (bt_insert str_cmp (fst l) m members) =
        (if name = fst l then Some m else bt_get str_cmp name members)"
      using assms(1) by (simp add: bt_insert_def str.bt_get_alter)
    show "case (files(fst l \<mapsto> data)) name of
        None \<Rightarrow> bt_get str_cmp name (bt_insert str_cmp (fst l) m members) = None
      | Some data \<Rightarrow> member_holds bytes (bt_get str_cmp name (bt_insert str_cmp (fst l) m members)) data"
      unfolding get using h [unfolded members_hold_def, rule_format, of name] m(2) by simp
  qed
  then show ?thesis using m(1) Some assms(1) by (simp add: link_member_def follow_link_def bt_insert_def str.bt_wf_alter)
qed

lemma link_members_follow:
  "bt_wf str_cmp members \<Longrightarrow> members_hold bytes members files \<Longrightarrow>
     members_hold bytes (fold link_member ls members) (fold follow_link ls files)"
  by (induction ls arbitrary: members files) (simp_all add: link_member_follows)

text \<open>C25: An archive that can be read from its start to its end can be indexed by seeking from header to
  header, and opening a member by the offset the index has for it gives the bytes that reading in
  sequence gives for the last file of that name.  A link, followed after all files are known and
  in the order of the archive, makes its path open what the path it names opens, a symbolic link's
  taken from its own directory, also where a file has the link's path; a link that names nothing
  changes nothing, and a name that neither a file nor such a link has is not in the archive.\<close>

theorem index_tar_reads_files:
  assumes "tar_files (tar_start bytes None False) = Some (Inr es)" and "length bytes < 2 ^ 63"
  shows "\<exists>members. index_tar bytes = Some (Inr (TarArchive bytes members)) \<and>
    (\<forall>name. archive_open (TarArchive bytes members) name =
       (case archive_files es name of None \<Rightarrow> Inl (NotInArchive name) | Some data \<Rightarrow> Inr (data, length data)))"
proof -
  let ?r = "tar_start bytes None False"
  have "small bytes ?r" "seeking ?r = tar_start bytes None True" "bt_wf str_cmp ([] :: (string, nat \<times> nat) btree)"
    using assms(2) tar_start_reads [of bytes None False] by (simp_all add: small_def tar_start_def seeking_def)
  then obtain members where m: "index_entries (tar_start bytes None True) ([], []) = Some (Inr (members, archive_links es))"
    "bt_wf str_cmp members"
    "\<And>name. case last_file es name of
       None \<Rightarrow> bt_get str_cmp name members = bt_get str_cmp name []
     | Some data \<Rightarrow> member_holds bytes (bt_get str_cmp name members) data"
    using index_follows [OF assms(1), of bytes ?r "[]" "[]"] by auto
  let ?members = "fold link_member (archive_links es) members"
  have "members_hold bytes members (last_file es)"
    using m(3) unfolding members_hold_def by (simp cong: option.case_cong)
  then have h: "members_hold bytes ?members (archive_files es)"
    unfolding archive_files_def by (rule link_members_follow [OF m(2)])
  have "archive_open (TarArchive bytes ?members) name =
      (case archive_files es name of None \<Rightarrow> Inl (NotInArchive name) | Some data \<Rightarrow> Inr (data, length data))" for name
    using h [unfolded members_hold_def, rule_format, of name]
    by (auto simp: archive_open_def member_holds_def split: option.splits)
  moreover have "index_tar bytes = Some (Inr (TarArchive bytes ?members))" by (simp add: index_tar_def m(1))
  ultimately show ?thesis by blast
qed

theorem index_tar_reads_files_witness:
  "\<exists>members. index_tar one_file = Some (Inr (TarArchive one_file members)) \<and>
     archive_open (TarArchive one_file members) ''a'' = Inr ([65], 1)"
proof -
  have "length one_file < 2 ^ 63" by (simp add: one_file_def one_header_length)
  then obtain members where m: "index_tar one_file = Some (Inr (TarArchive one_file members))"
    "archive_open (TarArchive one_file members) ''a'' =
       (case archive_files [(one_entry, [65])] ''a'' of None \<Rightarrow> Inl (NotInArchive ''a'') | Some data \<Rightarrow> Inr (data, length data))"
    using index_tar_reads_files [OF one_file_read] by auto
  have "archive_files [(one_entry, [65])] ''a'' = Some [65]" by code_simp
  then show ?thesis using m by auto
qed

text \<open>Links that share a layer: the path of the second names the first, and so opens its bytes.\<close>

lemma shared_layer_links:
  "archive_files
     [(one_entry\<lparr>te_path := ''l1/layer.tar''\<rparr>, [65]),
      (one_entry\<lparr>te_path := ''l2/layer.tar'', te_kind := TarSymlink ''../l1/layer.tar''\<rparr>, []),
      (one_entry\<lparr>te_path := ''l3/layer.tar'', te_kind := TarHardlink ''l2/layer.tar''\<rparr>, [])] ''l3/layer.tar'' = Some [65]"
  by code_simp

section \<open>An image of one layer\<close>

definition one_reader :: "(unit, unit) content_readers" where
  "one_reader = \<lparr>cr_want = (\<lambda>_. False), cr_jar = (\<lambda>_ data. data), cr_go = (\<lambda>_. None), cr_rust = (\<lambda>_. None),
     cr_inventory = (\<lambda>_. Inl '''')\<rparr>"

definition one_blob :: string where
  "one_blob = ''blobs/sha256/'' @ replicate 64 (CHR ''a'')"

definition one_archive :: archive where
  "one_archive = DirArchive (\<lambda>name. if name = ''manifest.json'' then Some (Inr []) else if name = one_blob then Some (Inr one_file) else None)"

definition one_json :: json_readers where
  "one_json = \<lparr>jr_docker = (\<lambda>_. Some [\<lparr>dm_config = None, dm_layers = [one_blob], dm_repo_tags = None\<rparr>]),
     jr_index = (\<lambda>_. None), jr_oci = (\<lambda>_. None), jr_config = (\<lambda>_. None)\<rparr>"

definition no_decompressors :: decompressors where
  "no_decompressors = \<lparr>dc_gzip = (\<lambda>_. ([], Some [])), dc_zstd = (\<lambda>_. ([], Some []))\<rparr>"

definition one_digest :: "byte list \<Rightarrow> string" where
  "one_digest raw = replicate 64 (CHR ''A'')"

definition one_manifest :: manifest where
  "one_manifest = \<lparr>mf_layers = [\<lparr>ml_name = one_blob, ml_digest = Some (''sha256:'' @ replicate 64 (CHR ''a''))\<rparr>],
     mf_config = None, mf_annotations = []\<rparr>"

lemma one_manifest_of: "manifest_of one_json one_archive None = Inr one_manifest"
proof -
  have "normalize_lexical one_blob = one_blob"
    "digest_of_name one_blob = Some (''sha256:'' @ replicate 64 (CHR ''a''))" by code_simp+
  then show ?thesis
    by (simp add: manifest_of_def archive_has_def one_archive_def read_json_def archive_open_def one_json_def ok_or_def
        docker_image_def one_manifest_def)
qed

lemma one_layer: "\<exists>fs'. apply_layer one_reader 0 (one_file, None) fs = Some (Inr fs') \<or> if_packages_changed fs"
proof (cases "if_packages_changed fs")
  case False
  let ?fs = "apply_fs 0 ''a'' (FileNode None) (fs\<lparr>if_packages_changed := False\<rparr>)"
  have a: "normalize (te_path one_entry) = Inr (Some ''a'')" "\<not> changes_packages ''a''" by code_simp+
  have "layer_node one_reader 0 ''a'' one_entry one_open g = Some (Inr (FileNode None, one_open, g))" for g
    by (simp add: layer_node_def file_node_def one_reader_def one_entry_def)
  then have "layer_entry one_reader 0 one_entry one_open fs = Some (Inr (one_open, ?fs))"
    using False by (simp add: layer_entry_def a)
  moreover have "layer_entries one_reader 0 one_open ?fs = Some (Inr ?fs)"
    by (subst layer_entries.simps) (simp add: one_file_end)
  ultimately have "layer_entries one_reader 0 (tar_start one_file None False) fs = Some (Inr ?fs)"
    by (subst layer_entries.simps) (simp add: one_file_next)
  moreover have "note_packages (cr_inventory one_reader) 0 ?fs = Some ?fs" by (simp add: note_packages_def apply_fs_def)
  ultimately show ?thesis by (simp add: apply_layer_def run_ok_def)
qed simp

text \<open>The image of that one layer opens, with the file of the layer in it.\<close>

lemma one_image_opens:
  obtains fs :: "(unit, unit) image_fs"
  where "open_layers one_reader no_decompressors one_digest one_json one_archive None = Some (Inr fs)"
proof -
  let ?fs = "empty_image\<lparr>if_build := build_new 1 default_config []\<rparr> :: (unit, unit) image_fs"
  have raw: "archive_open one_archive one_blob = Inr (one_file, 1024)"
    by (simp add: archive_open_def one_archive_def one_blob_def one_file_def one_header_length)
  have plain: "decompress no_decompressors one_file = (one_file, None)"
    by (simp add: decompress_def one_file_def one_header_def)
  obtain fs1 where "apply_layer one_reader 0 (one_file, None) ?fs = Some (Inr fs1)"
    using one_layer [of ?fs] by (auto simp: empty_image_def)
  moreover have "digest_matches one_digest (hd (mf_layers one_manifest)) one_file" by code_simp
  ultimately show thesis
    using that by (simp add: open_layers_def one_manifest_of Let_def image_config_of_def one_manifest_def open_layer_def raw plain)
qed

lemma one_stream: "layer_read no_decompressors one_digest one_archive (hd (mf_layers one_manifest)) es \<Longrightarrow> es = [(one_entry, [65])]"
proof -
  have raw: "archive_open one_archive one_blob = Inr (one_file, 1024)"
    by (simp add: archive_open_def one_archive_def one_blob_def one_file_def one_header_length)
  have plain: "decompress no_decompressors one_file = (one_file, None)"
    by (simp add: decompress_def one_file_def one_header_def)
  assume "layer_read no_decompressors one_digest one_archive (hd (mf_layers one_manifest)) es"
  then show ?thesis by (auto simp: layer_read_def one_manifest_def raw plain stream_files_def one_file_read)
qed


end
