(* ===== verification/Os_Packages_Props.thy ===== *)
theory Os_Packages_Props
  imports Os_Packages
begin

text \<open>
  dpkg's database as dpkg writes it is read back as the packages written.  \<^verbatim>\<open>show_dpkg\<close> writes one
  package; \<^verbatim>\<open>dpkg_writable\<close> says which packages its format can hold.
\<close>

section \<open>Trimming\<close>

definition graphic_char :: "char \<Rightarrow> bool" where
  "graphic_char c \<longleftrightarrow> 33 \<le> byte c \<and> byte c < 127"

definition graphic :: "string \<Rightarrow> bool" where
  "graphic s \<longleftrightarrow> s \<noteq> [] \<and> list_all graphic_char s"

lemma graphic_front:
  assumes "graphic_char c"
  shows "strip_space white_space (c # s) = None" "strip_space (map rev white_space) (c # s) = None"
proof -
  have "hd w \<noteq> c \<and> last w \<noteq> c" if "w \<in> set white_space" for w
    using that assms by (auto simp: white_space_def graphic_char_def)
  then show "strip_space white_space (c # s) = None" "strip_space (map rev white_space) (c # s) = None"
    using white_space_nonempty
    by (auto simp: strip_space_None Cons_eq_append_conv) (metis hd_rev list.sel(1))+
qed

lemma trim_front_all:
  assumes "trim_front ws n s = []"
  shows "s = [] \<or> (\<exists>w \<in> set ws. \<exists>p. s = p @ w)"
  using assms
proof (induction n arbitrary: s)
  case (Suc n)
  show ?case
  proof (cases "strip_space ws s")
    case (Some r)
    then obtain w where w: "w \<in> set ws" "s = w @ r" using strip_space_Some by blast
    have "r = [] \<or> (\<exists>w \<in> set ws. \<exists>p. r = p @ w)" using Suc Some by simp
    then show ?thesis using w by (metis append_Nil append_assoc append_Nil2)
  qed (use Suc.prems in simp)
qed simp

lemma trim_start_graphic: "graphic_char c \<Longrightarrow> trim_start (c # s) = c # s"
  by (simp add: trim_start_def graphic_front trim_front_fix del: trim_front.simps)

lemma trim_not_empty:
  assumes "graphic_char c"
  shows "trim (c # s) \<noteq> []"
proof
  assume "trim (c # s) = []"
  then have "trim_front (map rev white_space) (length (c # s)) (rev (c # s)) = []"
    using assms by (simp add: trim_def trim_start_graphic trim_end_def del: trim_front.simps)
  then obtain w p where w: "w \<in> set white_space" "rev (c # s) = p @ rev w" using trim_front_all by fastforce
  then have "c # s = w @ rev p" by (metis rev_append rev_rev_ident)
  then show False using graphic_front(1) [OF assms, of s] w(1) unfolding strip_space_None by blast
qed

lemma trim_graphic:
  assumes "graphic_char (hd s)" "graphic_char (last s)" "s \<noteq> []"
  shows "trim s = s"
proof -
  have "trim_start s = s" using assms by (cases s) (simp_all add: trim_start_graphic)
  moreover have "rev s = last s # rev (butlast s)" using assms(3) by (metis append_butlast_last_id rev_eq_Cons_iff rev_rev_ident)
  then have "trim_front (map rev white_space) (length s) (rev s) = rev s"
    using graphic_front(2) [OF assms(2), of "rev (butlast s)"] by (metis trim_front_fix)
  then have "trim_end s = s" by (simp add: trim_end_def)
  ultimately show ?thesis by (simp add: trim_def)
qed

lemma trim_space: "trim (CHR '' '' # s) = trim s"
proof -
  have "strip_space white_space (CHR '' '' # s) = Some s"
  proof (cases "strip_space white_space (CHR '' '' # s)")
    case None
    have "[CHR '' ''] \<in> set white_space" by code_simp
    then show ?thesis using None unfolding strip_space_None by (metis append_Cons append_Nil)
  next
    case (Some r)
    have one: "\<forall>w \<in> set white_space. hd w = CHR '' '' \<longrightarrow> w = [CHR '' '']" by code_simp
    obtain w where w: "w \<in> set white_space" "CHR '' '' # s = w @ r" using strip_space_Some [OF Some] by blast
    then have "w = [CHR '' '']" using one white_space_nonempty by (metis append_eq_Cons_conv list.sel(1))
    then show ?thesis using w Some by simp
  qed
  then show ?thesis by (simp add: trim_def trim_start_def)
qed

lemma graphic_trim: "graphic s \<Longrightarrow> trim s = s"
  by (rule trim_graphic) (auto simp: graphic_def list_all_iff)

section \<open>Lines\<close>

definition line_text :: "string \<Rightarrow> bool" where
  "line_text s \<longleftrightarrow> char_of (10 :: nat) \<notin> set s \<and> char_of (13 :: nat) \<notin> set s"

lemma line_chars [simp]:
  "char_of (10 :: nat) \<noteq> CHR '':''" "char_of (10 :: nat) \<noteq> CHR '' ''" "char_of (10 :: nat) \<noteq> CHR ''(''"
  "char_of (10 :: nat) \<noteq> CHR '')''" "char_of (13 :: nat) \<noteq> CHR '':''" "char_of (13 :: nat) \<noteq> CHR '' ''"
  "char_of (13 :: nat) \<noteq> CHR ''(''" "char_of (13 :: nat) \<noteq> CHR '')''"
  by code_simp+

lemma strip_cr: "char_of (13 :: nat) \<notin> set s \<Longrightarrow> strip_suffix [char_of (13 :: nat)] s = None"
proof (rule ccontr)
  assume free: "char_of (13 :: nat) \<notin> set s" and "strip_suffix [char_of (13 :: nat)] s \<noteq> None"
  then obtain r where "s = r @ [char_of (13 :: nat)]" unfolding not_None_eq strip_suffix_Some by blast
  then have "char_of (13 :: nat) \<in> set s" by (simp only: set_append list.set) blast
  then show False using free by blast
qed

lemma text_lines_Cons:
  assumes "line_text l"
  shows "text_lines (l @ newline @ rest) = l # text_lines rest"
proof -
  let ?ps = "split_at (char_of (10 :: nat)) rest"
  have "split_at (char_of (10 :: nat)) (l @ char_of (10 :: nat) # rest) = l # ?ps"
    using assms by (intro split_on_append) (auto simp: line_text_def)
  moreover have "?ps \<noteq> []" by simp
  ultimately show ?thesis
    using assms by (simp add: text_lines_def newline_def line_text_def strip_cr Let_def)
qed

lemma text_lines_Nil: "text_lines [] = []"
  by (simp add: text_lines_def)

lemma graphic_line: "graphic s \<Longrightarrow> line_text s"
  by (auto simp: graphic_def line_text_def list_all_iff graphic_char_def)


section \<open>dpkg\<close>

definition dpkg_line :: "string \<Rightarrow> string \<Rightarrow> string" where
  "dpkg_line key value = key @ '': '' @ value @ newline"

definition show_dpkg :: "os_package \<Rightarrow> string" where
  "show_dpkg p =
     dpkg_line ''Package'' (op_name p) @ dpkg_line ''Status'' ''install ok installed'' @
     dpkg_line ''Source'' (op_source p @ '' ('' @ op_source_version p @ '')'') @
     dpkg_line ''Version'' (op_version p) @
     (case op_arch p of None \<Rightarrow> [] | Some a \<Rightarrow> dpkg_line ''Architecture'' a) @ newline"

definition dpkg_writable :: "os_package \<Rightarrow> bool" where
  "dpkg_writable p \<longleftrightarrow>
     graphic (op_name p) \<and> graphic (op_version p) \<and>
     graphic (op_source p) \<and> CHR ''('' \<notin> set (op_source p) \<and>
     graphic (op_source_version p) \<and> last (op_source_version p) \<noteq> CHR '')'' \<and>
     (case op_arch p of None \<Rightarrow> True | Some a \<Rightarrow> graphic a) \<and> op_module p = None"

definition dpkg_stanza :: "os_package \<Rightarrow> stanza" where
  "dpkg_stanza p =
     [(''Package'', op_name p), (''Status'', ''install ok installed''),
      (''Source'', op_source p @ '' ('' @ op_source_version p @ '')''), (''Version'', op_version p)] @
     (case op_arch p of None \<Rightarrow> [] | Some a \<Rightarrow> [(''Architecture'', a)])"

text \<open>One field: the key is a word, the value starts and ends with a graphic character.\<close>

lemma stanza_line_field:
  assumes "graphic key" "CHR '':'' \<notin> set key" "v \<noteq> []" "graphic_char (hd v)" "graphic_char (last v)"
  shows "stanza_line (key @ '': '' @ v) (out, cur) = (out, cur @ [(key, v)])"
proof -
  obtain c k where key: "key = c # k" "graphic_char c" using assms(1) by (cases key) (auto simp: graphic_def)
  have "trim (key @ '': '' @ v) \<noteq> []" using trim_not_empty [OF key(2)] by (simp add: key(1))
  moreover have "c \<noteq> CHR '' ''" "c \<noteq> tab_char" using key(2) by (auto simp: graphic_char_def tab_char_def)
  moreover have "split_once (CHR '':'') (key @ '': '' @ v) = Some (key, CHR '' '' # v)"
    using assms(2) by (simp add: split_once_Some)
  moreover have "trim (CHR '' '' # v) = v" using assms(3-5) by (simp add: trim_space trim_graphic)
  ultimately show ?thesis using graphic_trim [OF assms(1)] by (simp add: stanza_line_def key(1))
qed

lemma stanza_line_blank: "stanza_line [] (out, c # cur) = (out @ [c # cur], [])"
  by (simp add: stanza_line_def trim_def trim_start_def trim_end_def)

lemma dpkg_field_lines:
  assumes "graphic key" "CHR '':'' \<notin> set key" "v \<noteq> []" "graphic_char (hd v)" "graphic_char (last v)" "line_text v"
  shows "fold stanza_line (text_lines (dpkg_line key v @ rest)) (out, cur) =
    fold stanza_line (text_lines rest) (out, cur @ [(key, v)])"
proof -
  have "line_text (key @ '': '' @ v)"
    using graphic_line [OF assms(1)] assms(6) by (simp add: line_text_def)
  then have "text_lines (dpkg_line key v @ rest) = (key @ '': '' @ v) # text_lines rest"
    using text_lines_Cons [of "key @ '': '' @ v" rest] by (simp add: dpkg_line_def)
  then show ?thesis using stanza_line_field [OF assms(1-5)] by simp
qed

lemma blank_line: "fold stanza_line (text_lines (newline @ rest)) (out, c # cur) = fold stanza_line (text_lines rest) (out @ [c # cur], [])"
  using text_lines_Cons [of "[]" rest] by (simp add: line_text_def stanza_line_blank)

lemma graphic_value: "graphic v \<Longrightarrow> v \<noteq> [] \<and> graphic_char (hd v) \<and> graphic_char (last v) \<and> line_text v"
  using graphic_line [of v] by (auto simp: graphic_def list_all_iff)

lemma dpkg_stanza_lines:
  assumes "dpkg_writable p"
  shows "fold stanza_line (text_lines (show_dpkg p @ rest)) (out, []) = fold stanza_line (text_lines rest) (out @ [dpkg_stanza p], [])"
proof -
  note p = assms [unfolded dpkg_writable_def]
  have keys: "graphic ''Package''" "graphic ''Status''" "graphic ''Source''" "graphic ''Version''" "graphic ''Architecture''"
    by code_simp+
  have status: "graphic_char (hd ''install ok installed'')" "graphic_char (last ''install ok installed'')" "line_text ''install ok installed''"
    by code_simp+
  let ?src = "op_source p @ '' ('' @ op_source_version p @ '')''"
  have src: "?src \<noteq> []" "graphic_char (hd ?src)" "graphic_char (last ?src)" "line_text ?src"
    using p graphic_value [of "op_source p"] graphic_value [of "op_source_version p"]
    by (auto simp: line_text_def graphic_char_def)
  show ?thesis
  proof (cases "op_arch p")
    case None
    then show ?thesis
      using p keys status src
      by (simp add: show_dpkg_def dpkg_stanza_def dpkg_field_lines graphic_value blank_line)
  next
    case (Some a)
    then show ?thesis
      using p keys status src
      by (simp add: show_dpkg_def dpkg_stanza_def dpkg_field_lines graphic_value blank_line)
  qed
qed

lemma stanzas_written: "list_all dpkg_writable ps \<Longrightarrow> stanzas (concat (map show_dpkg ps)) = map dpkg_stanza ps"
proof -
  have "list_all dpkg_writable ps \<Longrightarrow>
      fold stanza_line (text_lines (concat (map show_dpkg ps))) (out, []) = (out @ map dpkg_stanza ps, [])" for out
    by (induction ps arbitrary: out) (simp_all add: text_lines_Nil dpkg_stanza_lines)
  then show "list_all dpkg_writable ps \<Longrightarrow> ?thesis" by (simp add: stanzas_def)
qed

section \<open>Reading a written stanza\<close>

lemma stanza_fields:
  "stanza_field ''Package'' (dpkg_stanza p) = Some (op_name p)"
  "stanza_field ''Version'' (dpkg_stanza p) = Some (op_version p)"
  "stanza_field ''Status'' (dpkg_stanza p) = Some ''install ok installed''"
  "stanza_field ''Source'' (dpkg_stanza p) = Some (op_source p @ '' ('' @ op_source_version p @ '')'')"
  "stanza_field ''Architecture'' (dpkg_stanza p) = op_arch p"
proof -
  have low: "to_ascii_lowercase ''Package'' = ''package''" "to_ascii_lowercase ''Version'' = ''version''"
    "to_ascii_lowercase ''Status'' = ''status''" "to_ascii_lowercase ''Source'' = ''source''"
    "to_ascii_lowercase ''Architecture'' = ''architecture''"
    by code_simp+
  show "stanza_field ''Package'' (dpkg_stanza p) = Some (op_name p)"
    "stanza_field ''Version'' (dpkg_stanza p) = Some (op_version p)"
    "stanza_field ''Status'' (dpkg_stanza p) = Some ''install ok installed''"
    "stanza_field ''Source'' (dpkg_stanza p) = Some (op_source p @ '' ('' @ op_source_version p @ '')'')"
    "stanza_field ''Architecture'' (dpkg_stanza p) = op_arch p"
    by (simp_all add: low stanza_field_def dpkg_stanza_def split: option.splits)
qed

lemma trim_space_end:
  assumes "graphic s"
  shows "trim (s @ '' '') = s"
proof -
  have s: "s \<noteq> []" "graphic_char (hd s)" using assms by (auto simp: graphic_def list_all_iff)
  have "strip_space (map rev white_space) (CHR '' '' # rev s) = Some (rev s)"
  proof (cases "strip_space (map rev white_space) (CHR '' '' # rev s)")
    case None
    have "[CHR '' ''] \<in> set (map rev white_space)" by code_simp
    then show ?thesis using None unfolding strip_space_None by (metis append_Cons append_Nil)
  next
    case (Some r)
    have one: "\<forall>w \<in> set (map rev white_space). w \<noteq> [] \<and> (hd w = CHR '' '' \<longrightarrow> w = [CHR '' ''])" by code_simp
    obtain w where w: "w \<in> set (map rev white_space)" "CHR '' '' # rev s = w @ r" using strip_space_Some [OF Some] by blast
    then have "w = [CHR '' '']" using one by (metis append_eq_Cons_conv list.sel(1))
    then show ?thesis using w Some by simp
  qed
  then have "trim_end (s @ '' '') = trim_end s" by (simp add: trim_end_def)
  moreover have "trim_start (s @ '' '') = s @ '' ''" "trim_start s = s"
    using s by (cases s; simp add: trim_start_graphic)+
  ultimately show ?thesis using graphic_trim [OF assms] by (simp add: trim_def)
qed

lemma written_source:
  assumes "dpkg_writable p"
  shows "dpkg_source (Some (op_source p @ '' ('' @ op_source_version p @ '')'')) name version =
    (op_source p, op_source_version p)"
proof -
  note p = assms [unfolded dpkg_writable_def]
  have split: "split_once (CHR ''('') (op_source p @ '' ('' @ op_source_version p @ '')'') =
      Some (op_source p @ '' '', op_source_version p @ '')'')"
    using p by (simp add: split_once_Some)
  have "op_source_version p \<noteq> []" using p by (simp add: graphic_def)
  then have drop_paren: "drop_last_while (\<lambda>c. c = CHR '')'') (op_source_version p @ '')'') = op_source_version p"
    using p by (cases "op_source_version p" rule: rev_cases) (simp_all add: drop_last_while_def)
  then show ?thesis
    using p unfolding dpkg_source_def option.case split by (simp add: drop_paren trim_space_end graphic_trim)
qed

lemma written_package: "dpkg_writable p \<Longrightarrow> dpkg_package require_status (dpkg_stanza p) = Some p"
proof -
  assume p: "dpkg_writable p"
  have "dpkg_on_disk require_status (Some ''install ok installed'')"
    unfolding dpkg_on_disk_def option.case by code_simp
  moreover have "op_module p = None" using p by (simp add: dpkg_writable_def)
  ultimately show ?thesis
    unfolding dpkg_package_def stanza_fields prod.case option.case written_source [OF p] by simp
qed

text \<open>C24: A dpkg database written for any list of packages, with or without an architecture and with
  the source package's own version in parentheses, is read back as exactly those packages, in order,
  whether or not the reader requires a status.\<close>

theorem dpkg_roundtrip:
  "list_all dpkg_writable ps \<Longrightarrow> parse_dpkg_status (concat (map show_dpkg ps)) require_status = ps"
  unfolding parse_dpkg_status_def
  by (simp only: stanzas_written, induction ps) (simp_all add: map_filter_simps written_package)

theorem dpkg_roundtrip_witness:
  "parse_dpkg_status (concat (map show_dpkg
     [\<lparr>op_name = ''libssl3'', op_version = ''3.0.2-0'', op_source = ''openssl'', op_source_version = ''3.0.2-0'',
       op_arch = Some ''amd64'', op_module = None\<rparr>])) True =
     [\<lparr>op_name = ''libssl3'', op_version = ''3.0.2-0'', op_source = ''openssl'', op_source_version = ''3.0.2-0'',
       op_arch = Some ''amd64'', op_module = None\<rparr>]"
  by (rule dpkg_roundtrip) code_simp

end
