(* ===== verification/Os_Inventory_Props.thy ===== *)
theory Os_Inventory_Props
  imports Os_Inventory Rpm_Db_Props
begin

text \<open>
  What an inventory of an image accounts for.  The reads of a format are the results of reading each
  file of its database; an inventory without problems is the union of all of them.
\<close>

section \<open>Sorted without repeats\<close>

context rust_total_ord
begin

lemma set_sort_dedup: "set (sort_dedup cmp xs) = set xs"
proof -
  have "set (dedup_by (\<lambda>a b. cmp a b = Equal) ys) = set ys" for ys
    by (induction "\<lambda>a b. cmp a b = Equal" ys rule: dedup_by.induct) auto
  then show ?thesis by (simp add: sort_dedup_def)
qed

lemma strict_sort_dedup: "sorted_wrt (\<lambda>x y. cmp x y = Less) (sort_dedup cmp xs)"
proof -
  have "sorted_by cmp ys \<Longrightarrow> sorted_wrt (\<lambda>x y. cmp x y = Less) (dedup_by (\<lambda>a b. cmp a b = Equal) ys)" for ys
  proof (induction "\<lambda>a b. cmp a b = Equal" ys rule: dedup_by.induct)
    case (1 x y ys)
    show ?case
    proof (cases "y = x")
      case False
      have lt: "cmp x z = Less" if "z \<in> set (y # ys)" for z
      proof -
        have "cmp x y \<noteq> Greater" and yz: "z = y \<or> cmp y z \<noteq> Greater" using 1(3) that by auto
        then have xy: "cmp x y = Less" using False by (cases "cmp x y") auto
        then show ?thesis using yz cmp_less_le_trans by blast
      qed
      have "set (dedup_by (\<lambda>a b. cmp a b = Equal) (y # ys)) \<subseteq> set (y # ys)" by (rule set_dedup_by_subset)
      then show ?thesis using 1 False lt by auto
    qed (use 1 in simp)
  qed simp_all
  then show ?thesis by (simp add: sort_dedup_def sorted_sort_by)
qed

end

lemma os_package_total: "rust_total_ord os_package_cmp"
proof (rule rust_total_ordI)
  show "rust_ord os_package_cmp" unfolding os_package_cmp_def by (intro ord_intros)
  fix p q :: os_package
  assume "os_package_cmp p q = Equal"
  moreover have "rust_total_ord (cmp_opt str_cmp)" by (intro rust_total_ord_cmp_opt ord_intros)
  ultimately show "p = q"
    by (simp add: os_package_cmp_def cmp_then_def cmp_on_def then_with_eq_Equal rust_total_ord.cmp_Equal_iff)
qed

interpretation osp: rust_total_ord os_package_cmp
  by (rule os_package_total)

section \<open>Reading never panics\<close>

lemma rpm_read_runs: "rpm_read b f wal \<noteq> None"
proof -
  have "safe (rpm_read b f wal) (\<lambda>_. True)"
    unfolding rpm_read_def by (rule safe_bind [OF rpm_blobs_runs], rule safe_bind [OF header_steps_parse]) simp
  then show ?thesis by (rule safe_runs)
qed

lemma traverse_total: "(\<And>x. x \<in> set xs \<Longrightarrow> f x \<noteq> None) \<Longrightarrow> traverse f xs \<noteq> None"
  by (induction xs) (auto split: option.split)

lemma rpm_databases_run: "rpm_databases m \<noteq> None"
  unfolding rpm_databases_def
proof (rule traverse_total)
  show "read_rpm_database m x \<noteq> None" for x
    using rpm_read_runs by (auto simp: read_rpm_database_def run_map_err_def split: option.splits prod.splits simp del: not_None_eq)
qed

text \<open>At most one database per directory.\<close>

lemma rpm_databases_length:
  assumes "rpm_databases m = Some dbs"
  shows "length dbs \<le> 2"
proof -
  have step: "length (snd (rpm_dir_step m d st)) \<le> Suc (length (snd st))" for d st
    by (auto simp: rpm_dir_step_def Let_def split: prod.split option.split)
  have "length (snd (fold (rpm_dir_step m) ds st)) \<le> length (snd st) + length ds" for ds st
  proof (induction ds arbitrary: st)
    case (Cons d ds)
    show ?case using Cons.IH [of "rpm_dir_step m d st"] step [of d st] by simp
  qed simp
  from this [of rpm_dirs "({}, [])"] show ?thesis
    using assms traverse_length [of "read_rpm_database m"] by (auto simp: rpm_databases_def rpm_dirs_def)
qed

section \<open>The files of each format\<close>

type_synonym database_read = "inventory_problem + os_package list"

definition problems_in :: "database_read list \<Rightarrow> inventory_problem list" where
  "problems_in rs = List.map_filter (\<lambda>r. case r of Inl e \<Rightarrow> Some e | Inr _ \<Rightarrow> None) rs"

definition packages_in :: "database_read list \<Rightarrow> os_package list" where
  "packages_in rs = concat (List.map_filter (\<lambda>r. case r of Inl _ \<Rightarrow> None | Inr ps \<Rightarrow> Some ps) rs)"

lemma problems_in_simps [simp]:
  "problems_in [] = []" "problems_in (Inl e # rs) = e # problems_in rs" "problems_in (Inr ps # rs) = problems_in rs"
  "problems_in (rs @ rs') = problems_in rs @ problems_in rs'"
  by (simp_all add: problems_in_def map_filter_simps map_filter_def)

lemma packages_in_simps [simp]:
  "packages_in [] = []" "packages_in (Inl e # rs) = packages_in rs" "packages_in (Inr ps # rs) = ps @ packages_in rs"
  "packages_in (rs @ rs') = packages_in rs @ packages_in rs'"
  by (simp_all add: packages_in_def map_filter_simps map_filter_def)

definition dpkg_file_read :: "image_entries \<Rightarrow> bool \<Rightarrow> string \<Rightarrow> database_read" where
  "dpkg_file_read m require_status path =
     (case fs_text m path of Some t \<Rightarrow> Inr (parse_dpkg_status t require_status) | None \<Rightarrow> Inl (Unreadable path))"

definition dpkg_reads :: "image_entries \<Rightarrow> database_read list" where
  "dpkg_reads m =
     (if fs_is_file m ''var/lib/dpkg/status'' then [dpkg_file_read m True ''var/lib/dpkg/status''] else []) @
     map (\<lambda>name. dpkg_file_read m False (''var/lib/dpkg/status.d/'' @ name))
       (filter (\<lambda>name. \<not> ends_with ''.md5sums'' name) (list_dir m ''var/lib/dpkg/status.d''))"

definition rpm_reads :: "(string \<times> (inventory_problem + rpm_package list)) list \<Rightarrow> database_read list" where
  "rpm_reads dbs = map (\<lambda>(path, r). map_sum id (\<lambda>pkgs. share_source_epoch (List.map_filter from_rpm pkgs)) r) dbs"

definition database_reads ::
  "inventory_reader \<Rightarrow> image_entries \<Rightarrow> (string \<times> (inventory_problem + rpm_package list)) list \<Rightarrow> database_read list" where
  "database_reads json m dbs =
     (if has_dpkg m then dpkg_reads m
      else (case apk_database m of
          Some db \<Rightarrow> [case fs_text m db of Some t \<Rightarrow> Inr (fst (parse_apk_installed t)) | None \<Rightarrow> Inl (Unreadable db)]
        | None \<Rightarrow>
            if dbs \<noteq> [] then rpm_reads dbs
            else if fs_is_file m bottlerocket_inventory then
              [case fs_text m bottlerocket_inventory of
                 Some t \<Rightarrow> map_sum BadBottlerocket id (parse_bottlerocket_inventory json t)
               | None \<Rightarrow> Inl (Unreadable bottlerocket_inventory)]
            else []))"

named_theorems inventory_simps \<open>what a step adds to an inventory\<close>

lemma add_simps [inventory_simps]:
  "iv_problems (add_problem p iv) = iv_problems iv @ [p]" "iv_packages (add_problem p iv) = iv_packages iv"
  "iv_problems (add_packages ps iv) = iv_problems iv" "iv_packages (add_packages ps iv) = iv_packages iv @ ps"
  "iv_problems (add_owned fs iv) = iv_problems iv" "iv_packages (add_owned fs iv) = iv_packages iv"
  "iv_problems (add_owners os iv) = iv_problems iv" "iv_packages (add_owners os iv) = iv_packages iv"
  by (simp_all add: add_problem_def add_packages_def add_owned_def add_owners_def)

lemma add_dpkg_file_adds [inventory_simps]:
  "iv_problems (add_dpkg_file m path req iv) = iv_problems iv @ problems_in [dpkg_file_read m req path]"
  "iv_packages (add_dpkg_file m path req iv) = iv_packages iv @ packages_in [dpkg_file_read m req path]"
  by (simp_all add: add_dpkg_file_def dpkg_file_read_def inventory_simps split: option.split)

lemma status_d_adds:
  "iv_problems (fold (status_d_step m) names iv) = iv_problems iv @
     problems_in (map (\<lambda>name. dpkg_file_read m False (''var/lib/dpkg/status.d/'' @ name)) (filter (\<lambda>name. \<not> ends_with ''.md5sums'' name) names))"
  "iv_packages (fold (status_d_step m) names iv) = iv_packages iv @
     packages_in (map (\<lambda>name. dpkg_file_read m False (''var/lib/dpkg/status.d/'' @ name)) (filter (\<lambda>name. \<not> ends_with ''.md5sums'' name) names))"
proof -
  have step: "iv_problems (status_d_step m name iv) = iv_problems iv @
      (if ends_with ''.md5sums'' name then [] else problems_in [dpkg_file_read m False (''var/lib/dpkg/status.d/'' @ name)])"
    "iv_packages (status_d_step m name iv) = iv_packages iv @
      (if ends_with ''.md5sums'' name then [] else packages_in [dpkg_file_read m False (''var/lib/dpkg/status.d/'' @ name)])"
    for name iv
    by (simp_all add: status_d_step_def Let_def inventory_simps split: option.split)
  have cons: "problems_in (r # rs) = problems_in [r] @ problems_in rs" "packages_in (r # rs) = packages_in [r] @ packages_in rs" for r rs
    by (cases r; simp)+
  show "iv_problems (fold (status_d_step m) names iv) = iv_problems iv @
     problems_in (map (\<lambda>name. dpkg_file_read m False (''var/lib/dpkg/status.d/'' @ name)) (filter (\<lambda>name. \<not> ends_with ''.md5sums'' name) names))"
    by (induction names arbitrary: iv) (simp_all add: step cons(1) [of _ "map _ _"])
  show "iv_packages (fold (status_d_step m) names iv) = iv_packages iv @
     packages_in (map (\<lambda>name. dpkg_file_read m False (''var/lib/dpkg/status.d/'' @ name)) (filter (\<lambda>name. \<not> ends_with ''.md5sums'' name) names))"
    by (induction names arbitrary: iv) (simp_all add: step cons(2) [of _ "map _ _"])
qed

lemma info_adds [inventory_simps]:
  "iv_problems (fold (info_step m sc) names iv) = iv_problems iv" "iv_packages (fold (info_step m sc) names iv) = iv_packages iv"
proof -
  have "iv_problems (info_step m sc name iv) = iv_problems iv" "iv_packages (info_step m sc name iv) = iv_packages iv" for name iv
    by (simp_all add: info_step_def Let_def inventory_simps split: option.split)
  then show "iv_problems (fold (info_step m sc) names iv) = iv_problems iv" "iv_packages (fold (info_step m sc) names iv) = iv_packages iv"
    by (induction names arbitrary: iv) simp_all
qed

lemma dpkg_adds:
  "iv_problems (dpkg_inventory m sc iv) = iv_problems iv @ problems_in (dpkg_reads m)"
  "iv_packages (dpkg_inventory m sc iv) = iv_packages iv @ packages_in (dpkg_reads m)"
  by (simp_all add: dpkg_inventory_def Let_def dpkg_reads_def status_d_adds inventory_simps)


lemma modules_adds [inventory_simps]:
  "iv_problems (fold (modules_step m) names iv) = iv_problems iv" "iv_packages (fold (modules_step m) names iv) = iv_packages iv"
proof -
  have "iv_problems (modules_step m name iv) = iv_problems iv" "iv_packages (modules_step m name iv) = iv_packages iv" for name iv
    by (simp_all add: modules_step_def split: option.split)
  then show "iv_problems (fold (modules_step m) names iv) = iv_problems iv" "iv_packages (fold (modules_step m) names iv) = iv_packages iv"
    by (induction names arbitrary: iv) simp_all
qed

lemma add_rpm_adds [inventory_simps]:
  "iv_problems (add_rpm_packages sc pkgs iv) = iv_problems iv"
  "iv_packages (add_rpm_packages sc pkgs iv) = share_source_epoch (List.map_filter from_rpm pkgs)"
proof -
  have "iv_problems (fold (\<lambda>p iv. add_owners (f p) (add_owned (g p) iv)) pkgs iv) = iv_problems iv" for f g
    by (induction pkgs arbitrary: iv) (simp_all add: inventory_simps)
  then show "iv_problems (add_rpm_packages sc pkgs iv) = iv_problems iv" by (simp add: add_rpm_packages_def Let_def)
qed (simp add: add_rpm_packages_def Let_def)

lemma share_source_epoch_Nil [simp]: "share_source_epoch [] = []"
  by (simp add: share_source_epoch_def)

lemma rpm_adds:
  assumes "iv_problems (rpm_inventory m sc dbs iv) = []" and "length dbs \<le> 2" and "iv_packages iv = []"
  shows "problems_in (rpm_reads dbs) = []"
    and "set (iv_packages (rpm_inventory m sc dbs iv)) = set (packages_in (rpm_reads dbs))"
proof -
  let ?errors = "List.map_filter (\<lambda>(_, r). case r of Inl e \<Rightarrow> Some e | Inr _ \<Rightarrow> None) dbs"
  let ?iv = "iv\<lparr>iv_family := Some RpmFamily, iv_problems := iv_problems iv @ ?errors\<rparr>"
  have problems: "iv_problems iv = []" "?errors = []" "\<And>a b rest. rpm_candidates dbs \<noteq> a # b # rest"
    using assms(1) by (auto simp: rpm_inventory_def Let_def inventory_simps split: list.splits)
  have packages: "iv_packages (rpm_inventory m sc dbs iv) =
      (case rpm_candidates dbs of [] \<Rightarrow> [] | a # _ \<Rightarrow> share_source_epoch (List.map_filter from_rpm (snd a)))"
    using assms(3) by (simp add: rpm_inventory_def Let_def inventory_simps split: list.split)
  obtain rd where dbs: "dbs = map (\<lambda>(path, pkgs). (path, Inr pkgs)) rd"
  proof -
    have "\<exists>x. d = (fst d, Inr x)" if "d \<in> set dbs" for d
      using problems(2) that by (cases d; cases "snd d") (auto simp: map_filter_def filter_empty_conv)
    then have "\<exists>rd. dbs = map (\<lambda>(path, pkgs). (path, Inr pkgs)) rd"
    proof (induction dbs)
      case (Cons d ds)
      then obtain x rd where "d = (fst d, Inr x)" "ds = map (\<lambda>(path, pkgs). (path, Inr pkgs)) rd" by (metis list.set_intros)
      then show ?case by (intro exI [of _ "(fst d, x) # rd"]) simp
    qed simp
    then show thesis using that by blast
  qed
  show "problems_in (rpm_reads dbs) = []" unfolding dbs rpm_reads_def by (induction rd) auto
  have read: "List.map_filter (\<lambda>(path, r). case r of Inr pkgs \<Rightarrow> Some (path, pkgs) | Inl _ \<Rightarrow> None) dbs = rd"
    unfolding dbs by (induction rd) (auto simp: map_filter_simps)
  consider "rd = []" | x where "rd = [x]" | x y where "rd = [x, y]"
    using assms(2) unfolding dbs by (cases rd; cases "tl rd"; cases "tl (tl rd)") auto
  then show "set (iv_packages (rpm_inventory m sc dbs iv)) = set (packages_in (rpm_reads dbs))"
  proof cases
    case (2 x)
    then show ?thesis
      unfolding packages rpm_candidates_def read unfolding dbs by (cases x) (simp add: rpm_reads_def)
  next
    case (3 x y)
    obtain p a q b where xy: "x = (p, a)" "y = (q, b)" by (cases x; cases y)
    show ?thesis
    proof (cases "a = [] \<or> b = [] \<or> a = b")
      case True
      then show ?thesis
        unfolding packages rpm_candidates_def read unfolding dbs
        by (auto simp: rpm_reads_def 3 xy ord_cmp_def map_filter_simps)
    next
      case False
      then have "\<exists>u v rest. rpm_candidates dbs = u # v # rest"
        by (auto simp: rpm_candidates_def read 3 xy ord_cmp_def)
      then show ?thesis using problems(3) by blast
    qed
  next
    case 1
    then show ?thesis unfolding packages rpm_candidates_def read unfolding dbs by (simp add: rpm_reads_def)
  qed
qed

section \<open>The inventory as a whole\<close>

lemma read_databases_adds:
  assumes "iv_problems (read_databases json m sc dbs iv) = []" and "length dbs \<le> 2" and "iv_packages iv = []"
  shows "problems_in (database_reads json m dbs) = []" (is ?A)
    and "set (iv_packages (read_databases json m sc dbs iv)) = set (packages_in (database_reads json m dbs))" (is ?B)
proof -
  have "?A \<and> ?B"
  proof (cases "has_dpkg m")
    case True
    then show ?thesis using assms by (simp add: read_databases_def database_reads_def dpkg_adds)
  next
    case no_dpkg: False
    show ?thesis
    proof (cases "apk_database m")
      case (Some db)
      then show ?thesis using assms no_dpkg
        by (auto simp: read_databases_def database_reads_def apk_inventory_def Let_def inventory_simps
            split: option.splits prod.splits)
    next
      case None
      show ?thesis
      proof (cases "dbs = []")
        case False
        then show ?thesis using assms no_dpkg None rpm_adds [of m sc dbs iv]
          by (simp add: read_databases_def database_reads_def)
      next
        case True
        then show ?thesis using assms no_dpkg None
          by (auto simp: read_databases_def database_reads_def bottlerocket_inventory_of_def Let_def inventory_simps
              split: option.splits sum.splits)
      qed
    qed
  qed
  then show ?A ?B by blast+
qed

lemma problems_in_Nil: "problems_in rs = [] \<longleftrightarrow> (\<forall>r \<in> set rs. \<exists>ps. r = Inr ps)"
proof (induction rs)
  case (Cons r rs)
  then show ?case by (cases r) simp_all
qed simp

text \<open>The format is the first one found.\<close>

lemma keeps_family [inventory_simps]:
  "iv_family (add_problem p iv) = iv_family iv" "iv_family (add_packages ps iv) = iv_family iv"
  "iv_family (add_owned fs iv) = iv_family iv" "iv_family (add_owners os iv) = iv_family iv"
  "iv_family (add_dpkg_file m path req iv) = iv_family iv"
  by (simp_all add: add_problem_def add_packages_def add_owned_def add_owners_def add_dpkg_file_def split: option.split)

lemma fold_keeps_family: "(\<And>x iv. iv_family (f x iv) = iv_family iv) \<Longrightarrow> iv_family (fold f xs iv) = iv_family iv"
  by (induction xs arbitrary: iv) simp_all

lemma folds_keep_family [inventory_simps]:
  "iv_family (fold (status_d_step m) names iv) = iv_family iv"
  "iv_family (fold (info_step m sc) names iv) = iv_family iv"
  "iv_family (fold (modules_step m) names iv) = iv_family iv"
  "iv_family (add_rpm_packages sc pkgs iv) = iv_family iv"
  by (intro fold_keeps_family, simp add: status_d_step_def info_step_def modules_step_def Let_def inventory_simps split: option.split)+
    (simp add: add_rpm_packages_def Let_def fold_keeps_family inventory_simps)

lemma read_databases_family:
  "iv_family iv = None \<Longrightarrow>
     iv_family (read_databases json m sc dbs iv) =
       (if has_dpkg m then Some DebFamily else if apk_database m \<noteq> None then Some ApkFamily
        else if dbs \<noteq> [] \<or> fs_is_file m bottlerocket_inventory then Some RpmFamily else None)"
  by (simp add: read_databases_def dpkg_inventory_def apk_inventory_def rpm_inventory_def
      bottlerocket_inventory_of_def Let_def inventory_simps split: option.split prod.split sum.split list.split)

text \<open>C23: Taking the inventory of an image never panics, and fails closed.  Whatever the image holds there is
  an inventory, its packages in order and without repeats, of the first format whose database is
  there.  When it reports no problem, the image has at most one package database, every file of
  it was read and parsed, no wanted file was left out while the image was read, and the packages
  are exactly those its files list.\<close>
theorem inventory_fail_closed:
  "case inventory_of json fs of
     None \<Rightarrow> False
   | Some iv \<Rightarrow>
       sorted_wrt (\<lambda>p q. os_package_cmp p q = Less) (iv_packages iv) \<and>
       (\<exists>dbs. rpm_databases (if_entries fs) = Some dbs \<and>
          (iv_family iv = None \<longleftrightarrow> databases_found (if_entries fs) dbs = []) \<and>
          (iv_problems iv = [] \<longrightarrow>
             length (databases_found (if_entries fs) dbs) \<le> 1 \<and>
             (\<forall>r \<in> set (database_reads json (if_entries fs) dbs). \<exists>ps. r = Inr ps) \<and>
             (\<forall>s \<in> set (if_skipped fs). \<not> packages_wanted (hd (split_at (CHR '':'') s))) \<and>
             set (iv_packages iv) = set (packages_in (database_reads json (if_entries fs) dbs))))"
proof -
  let ?m = "if_entries fs"
  obtain dbs where dbs: "rpm_databases ?m = Some dbs" using rpm_databases_run [of ?m] by blast
  define iv0 where "iv0 = (if 1 < length (databases_found ?m dbs)
      then add_problem (SeveralDatabases (databases_found ?m dbs)) empty_inventory else empty_inventory)"
  define iv1 where "iv1 = read_databases json ?m (scanned_paths fs) dbs iv0"
  have inv: "inventory_of json fs = Some (finish_inventory (if_skipped fs) iv1)"
    by (simp add: inventory_of_def Let_def dbs iv0_def iv1_def)
  have iv0: "iv_family iv0 = None" "iv_packages iv0 = []"
    by (simp_all add: iv0_def inventory_simps empty_inventory_def)
  have family: "iv_family iv1 = None \<longleftrightarrow> databases_found ?m dbs = []"
    unfolding iv1_def read_databases_family [OF iv0(1)] by (simp add: databases_found_def)
  have grow: "\<exists>ps. iv_problems iv1 = iv_problems iv0 @ ps"
    unfolding iv1_def read_databases_def
    by (auto simp: dpkg_adds apk_inventory_def rpm_inventory_def bottlerocket_inventory_of_def Let_def inventory_simps
        split: option.split prod.split sum.split list.split)
  show ?thesis
    unfolding inv option.case
  proof (intro conjI exI [of _ dbs] impI)
    let ?iv = "finish_inventory (if_skipped fs) iv1"
    show "sorted_wrt (\<lambda>p q. os_package_cmp p q = Less) (iv_packages ?iv)"
      by (simp add: finish_inventory_def osp.strict_sort_dedup)
    show "(iv_family ?iv = None) = (databases_found ?m dbs = [])" using family by (simp add: finish_inventory_def)
    assume "iv_problems ?iv = []"
    then have none: "iv_problems iv1 = []"
      and kept: "filter (\<lambda>s. packages_wanted (hd (split_at (CHR '':'') s))) (if_skipped fs) = []"
      by (simp_all add: finish_inventory_def)
    have len: "length dbs \<le> 2" by (rule rpm_databases_length [OF dbs])
    note adds = read_databases_adds [OF none [unfolded iv1_def] len iv0(2)]
    show "length (databases_found ?m dbs) \<le> 1"
      using grow none by (auto simp: iv0_def inventory_simps split: if_splits)
    show "\<forall>r \<in> set (database_reads json ?m dbs). \<exists>ps. r = Inr ps" using adds(1) by (simp only: problems_in_Nil)
    show "\<forall>s \<in> set (if_skipped fs). \<not> packages_wanted (hd (split_at (CHR '':'') s))"
      using kept by (simp add: filter_empty_conv)
    show "set (iv_packages ?iv) = set (packages_in (database_reads json ?m dbs))"
      using adds(2) by (simp add: finish_inventory_def osp.set_sort_dedup iv1_def)
  qed (rule dbs)
qed


text \<open>A Debian image with one package installed.\<close>

definition debian_status :: string where
  "debian_status =
     ''Package:libssl3'' @ newline @ ''Status:i k installed'' @ newline @
     ''Source:openssl(3.1-1)'' @ newline @ ''Version:3.1-1+b1'' @ newline"

definition debian_image :: "byte list \<Rightarrow> (unit, unit) image_fs" where
  "debian_image content =
     empty_image\<lparr>if_entries := [(''var/lib/dpkg/status'', \<lparr>ie_layer = 0, ie_node = FileNode (Some content)\<rparr>)]\<rparr>"

definition libssl3 :: os_package where
  "libssl3 =
     \<lparr>op_name = ''libssl3'', op_version = ''3.1-1+b1'', op_source = ''openssl'', op_source_version = ''3.1-1'',
      op_arch = None, op_module = None\<rparr>"

lemma debian_files:
  "fs_read (if_entries (debian_image c)) ''var/lib/dpkg/status'' = Some c"
  "fs_is_file (if_entries (debian_image c)) ''var/lib/dpkg/status''"
  "list_dir (if_entries (debian_image c)) ''var/lib/dpkg/status.d'' = []"
  "list_dir (if_entries (debian_image c)) ''var/lib/dpkg/info'' = []"
  "apk_database (if_entries (debian_image c)) = None"
  "fs_is_file (if_entries (debian_image c)) bottlerocket_inventory = False"
  "rpm_databases (if_entries (debian_image c)) = Some []"
  by code_simp+

lemma debian_parsed: "parse_dpkg_status debian_status True = [libssl3]"
  by code_simp

lemma debian_valid: "valid_utf8 debian_status"
  by code_simp

lemma debian_text: "fs_text (if_entries (debian_image (bytes_of debian_status))) ''var/lib/dpkg/status'' = Some debian_status"
  by (simp add: fs_text_def debian_files lossy_valid debian_valid)

lemma debian_inventory:
  "inventory_of json (debian_image (bytes_of debian_status)) =
     Some (empty_inventory\<lparr>iv_family := Some DebFamily, iv_packages := sort_dedup os_package_cmp [libssl3]\<rparr>)"
proof -
  have "if_skipped (debian_image c) = []" for c by (simp add: debian_image_def empty_image_def)
  then show ?thesis
    by (simp add: inventory_of_def Let_def debian_files databases_found_def has_dpkg_def read_databases_def
        dpkg_inventory_def add_dpkg_file_def debian_text debian_parsed add_packages_def finish_inventory_def empty_inventory_def)
qed

theorem inventory_fail_closed_witness:
  "\<exists>iv. inventory_of (\<lambda>_. Inl []) (debian_image (bytes_of debian_status)) = Some iv \<and> set (iv_packages iv) = {libssl3}"
proof -
  have "packages_in (database_reads (\<lambda>_. Inl []) (if_entries (debian_image (bytes_of debian_status))) []) = [libssl3]"
    by (simp add: database_reads_def has_dpkg_def debian_files dpkg_reads_def dpkg_file_read_def debian_text debian_parsed)
  moreover have "iv_problems (the (inventory_of (\<lambda>_. Inl []) (debian_image (bytes_of debian_status)))) = []"
    by (simp add: debian_inventory empty_inventory_def)
  ultimately show ?thesis
    using inventory_fail_closed [of "debian_image (bytes_of debian_status)" "\<lambda>_. Inl []"]
    by (auto simp: debian_files split: option.splits)
qed

end
