(* ===== verification/Spec2Isabelle.thy ===== *)
theory Spec2Isabelle
  imports Deb_Version Rpm_Version Apk_Version Gem_Version Nuget_Version Julia_Version Composer_Version
    Osv_Safe Feeders Ssvc Dep_Graph All_Paths_Props Call_Merge_Props Rpm_Db_Props Distro_Match_Props Distro_Db_Props Remediation_Props Assemble_Props
    Image_Links Image_Layers_Props Os_Packages_Props Os_Inventory_Props
begin

text \<open>
  A verification library for fleetreach, a Rust program that scans a fleet of repositories and
  container images for dependencies with published advisories, decides which findings matter, and gates a build on them.

  \<^bold>\<open>How the program is put together.\<close>  Each ecosystem crate reads the lockfiles of a repository and
  matches the installed packages against an offline copy of the OSV database; \<^verbatim>\<open>crates/core\<close> holds what
  they share: the finding model, the range matcher, the database, the dependency graph, the
  report records, SSVC and the remediation queue.  \<^verbatim>\<open>crates/correlate\<close> merges findings across
  repositories, \<^verbatim>\<open>crates/cli/src/assemble.rs\<close> turns scan output into a report and an exit code,
  \<^verbatim>\<open>crates/os\<close> reads packages out of images and orders their versions, and \<^verbatim>\<open>crates/reach\<close> decides
  whether a vulnerable function can be called at all.

  \<^bold>\<open>The common ground.\<close>  \<open>Rust_Ord\<close> has comparison functions with the laws of \<^verbatim>\<open>Ord\<close> as locales
  (\<open>rust_ord\<close>, \<open>rust_total_ord\<close>), the combinators derived orders are made of, and stable sorting;
  \<open>Rust_Str\<close> and \<open>Rust_Text\<close> texts as their UTF-8 bytes; \<open>Rust_Map\<close> the B-tree maps and sets, as sorted lists;
  \<open>Rust_Groups\<close> grouping by key; \<open>Rust_Search\<close> binary search; \<open>Rust_Result\<close> fallible code as a sum with the
  error on the left; \<open>Rust_Run\<close> code that may also panic, an option of such a sum, with \<open>safe\<close> as
  the rule set for showing that it does not; \<open>Rust_Bytes\<close> byte buffers, integers of fixed width
  and arithmetic that panics; \<open>Bfs\<close> the locale of breadth-first search, with three instances;
  \<open>Union_Find\<close> the disjoint sets of the alias collapse.  \<open>Version_Text\<close> has what version parsers share.

  \<^bold>\<open>Components.\<close>
  \<^item> Versions: \<open>Deb_Version\<close>, \<open>Rpm_Version\<close>, \<open>Apk_Version\<close> (\<^verbatim>\<open>os/src/{dpkgver,rpmver,apkver}.rs\<close>),
    \<open>Gem_Version\<close>, \<open>Nuget_Version\<close>, \<open>Julia_Version\<close>, \<open>Composer_Version\<close>, \<open>Maven_Version\<close> (\<^verbatim>\<open>version.rs\<close> of each
    crate).  Each has the parser, the comparison, and an interpretation of \<open>rust_ord\<close> where the
    comparison is a lawful order; the low-level loops are shown equal to the comparison of a token list.
    Maven's and Composer's orders are not transitive; the lemmas \<open>maven_order_cycle\<close> and
    \<open>composer_not_transitive\<close> say so.
  \<^item> Core: \<open>Core_Model\<close> (\<^verbatim>\<open>core/src/{severity,finding,outcome}.rs\<close>), \<open>Osv_Ranges\<close>, \<open>Osv_Safe\<close>, \<open>Osv_Db\<close>,
    \<open>Osv_Findings\<close> (\<^verbatim>\<open>core/src/osv.rs\<close>: ranges and events, safe intervals, the advisories of a record and an
    overlay, the deduplication of findings and the collapse of alias duplicates), \<open>Ssvc\<close>
    (\<^verbatim>\<open>core/src/ssvc.rs\<close>), \<open>Dep_Graph\<close>, \<open>All_Paths\<close>, \<open>All_Paths_Props\<close> (\<^verbatim>\<open>core/src/depgraph.rs\<close>), \<open>Report\<close>
    (\<^verbatim>\<open>core/src/report.rs\<close>), \<open>Remediation\<close>, \<open>Remediation_Props\<close> (\<^verbatim>\<open>core/src/remediation.rs\<close>).
  \<^item> Scanning: \<open>Feeder_Scan\<close> (\<^verbatim>\<open>scan_installed\<close> and \<^verbatim>\<open>match_advisory\<close>, once for every crate, over a record
    of what differs) and \<open>Feeders\<close> (the values of that record per ecosystem, with the
    workflow scanner of GitHub Actions and the keys of Swift packages).
  \<^item> From findings to an exit code: \<open>Correlate\<close> (\<^verbatim>\<open>correlate/src/lib.rs\<close>), \<open>Assemble\<close> and \<open>Assemble_Props\<close>
    (\<^verbatim>\<open>cli/src/assemble.rs\<close>).
  \<^item> Reachability: \<open>Call_Graph\<close>, \<open>Call_Graph_Props\<close> (\<^verbatim>\<open>reach/src/{model,lib}.rs\<close>: the graph, the searches, the
    verdicts) and \<open>Call_Merge\<close>, \<open>Call_Merge_Props\<close> (\<^verbatim>\<open>reach/src/merge.rs\<close>: the union of the crates' graphs).
  \<^item> rpm databases: \<open>Rpm_Header\<close>, \<open>Rpm_Ndb\<close>, \<open>Rpm_Bdb\<close>, \<open>Rpm_Sqlite\<close>, \<open>Rpm_Db\<close>, \<open>Rpm_Db_Props\<close>
    (\<^verbatim>\<open>os/src/rpmdb/\<close>: three storage formats, the stored header, and the package list).
  \<^item> Distributions: \<open>Distro\<close> and \<open>Distro_Detect\<close> (\<^verbatim>\<open>os/src/distro.rs\<close> and \<^verbatim>\<open>feed_for\<close> of \<^verbatim>\<open>os/src/feeds.rs\<close>: the release
    found in an image, with the ecosystems it is matched against), \<open>Distro_Db\<close> and \<open>Distro_Db_Props\<close>
    (\<^verbatim>\<open>os/src/db.rs\<close>: the advisories of a distribution's records, their index and its loading),
    \<open>Centos\<close> (\<^verbatim>\<open>os/src/centos.rs\<close>), \<open>Distro_Scan\<close>, \<open>Distro_Sources\<close>, \<open>Distro_Match\<close> and \<open>Distro_Match_Props\<close>
    (\<^verbatim>\<open>os/src/scan.rs\<close>: source packages, the order in which the release, its overlays, supplements and
    fallbacks speak, the findings).  \<open>match_env\<close> holds what \<^verbatim>\<open>match_source\<close> is given and its closures
    capture, and each local collection of that function is a definition over it; the errors of
    detection are a datatype with one constructor per message.
  \<^item> Images: \<open>Image_Fs\<close>, \<open>Image_Fs_Props\<close>, \<open>Image_Links\<close> (\<^verbatim>\<open>os/src/image.rs\<close>: the merged file system, one
    ordered map of entries by path, with whiteouts and links), \<open>Tar\<close>, \<open>Tar_Props\<close>, \<open>Tar_Example\<close> (\<^verbatim>\<open>os/src/tar.rs\<close>),
    \<open>Image_Layers\<close>, \<open>Image_Layers_Props\<close> (\<^verbatim>\<open>os/src/image.rs\<close>: one layer's entries, the index of an archive, the
    manifest, the layers with their digests, the build description).  The tar reader is a record of the
    bytes left, the position and what is left of the current entry; each of its methods returns
    the reader changed.
  \<^item> Package lists: \<open>Os_Packages\<close>, \<open>Os_Packages_Props\<close>, \<open>Os_Inventory\<close>, \<open>Os_Inventory_Props\<close>
    (\<^verbatim>\<open>os/src/packages.rs\<close> and \<^verbatim>\<open>inspect\<close> of \<^verbatim>\<open>os/src/lib.rs\<close>: dpkg, apk, rpm and Bottlerocket, the inventory of
    an image and its problems, one constructor per message).

  \<^bold>\<open>What the lemmas show.\<close>  Of the matcher: a safe interval holds no affected version, and every
  clean published fix lies in one; a bound that does not parse never reads as clean; a scan
  reports exactly what the records cover.  Of the report: nothing is lost in correlation,
  suppression or deduplication, and exit code 0 accounts for every occurrence.  Of remediation: an
  upgrade clears the advisories it is for.  Of the graphs: searches end, chains are shortest, all
  paths are listed in order up to the stated cap, verdicts of reachability are exact for the whole merged program.  Of the
  binary readers: no input makes them panic or run for ever, a list is never short, and what was
  written is read back.  Of distributions: a release is matched only against ecosystems of its own
  package format, a broken export fails the load, every installed package is matched or
  counted, and what is reported is exactly what the records consulted for it cover, in the documented
  order of precedence.  Of images: an image that opens is the whole of its manifest with every digest
  verified, merging layers means what OCI whiteouts mean (up to a stated condition without which
  \<open>whiteout_leaves_file\<close> shows a file left behind), a link ends at a real path, an index finds what reading
  in sequence finds, and an inventory without problems is all that the databases list.

  \<^bold>\<open>Bounds and widths.\<close>  Version components are parsed with the bound of their type (\<^verbatim>\<open>u64\<close>,
  \<^verbatim>\<open>i64\<close>, \<^verbatim>\<open>u32\<close>) where the code parses them; counters of a run are natural numbers.  Maven's nesting is bounded by the
  code's \<^verbatim>\<open>MAX_PARSE_DEPTH\<close> of 256, the walk of all paths by its budget of 2,000,000 steps, links by \<^verbatim>\<open>MAX_LINK_HOPS\<close> of 40, nested image indexes by 1,000 descriptors.  Node ids of a call
  graph are 32-bit words and the two largest are sentinels, so the exactness of verdicts asks for
  fewer than \<open>2 ^ 32 - 1\<close> nodes (the parser admits 20,000,000).  In the binary readers \<^verbatim>\<open>usize\<close> has 64 bits.  Loops without a bound of their
  own are partial functions or total ones with a measure, and are shown to return.

  \<^bold>\<open>Parameters.\<close>  The semver library, the CVSS parser, the JSON readers, the decompressors, SHA-256,
  the readers of Go and Rust executables and of Java archives, and the text of the bundled table of CentOS builds are arguments; what is
  asked of them is a hypothesis of the theorem that needs it, and each such theorem has
  a witness with concrete functions.

  \<^bold>\<open>Not modelled.\<close>  The lockfile and manifest readers over TOML, JSON, XML and YAML (their input is parsed by
  libraries; the scans here take the list they return), the language
  files of images, downloads and feeds, the walk over an unpacked root directory,
  the rendering of reports, the driver that runs inside the compiler, the command line, and the analyses
  that re-read a finished report.  Messages for people are modelled where they are values the
  code compares or returns in an error, otherwise left out.
\<close>

end
